(* ===== verification/Prelude.thy ===== *)
theory Prelude
  imports Main "HOL-Library.Word" "HOL-Library.Multiset"
begin

text \<open>
  Shared material of the development: the errors the code can raise and the result type
  of fallible operations, machine-integer conversions, raw memory cells, and the generic
  lemmas on lists that the components use.

  Conventions. A method that can throw, assert or run into undefined behaviour returns
  a value of \<open>'a res\<close> (\<open>Inl\<close> the error). \<open>Undefined\<close> stands for C++ undefined behaviour
  (a null or out-of-range access, a read of a destroyed object, signed overflow): a
  theorem that an operation returns \<open>Inr\<close> is in particular a memory-safety theorem.
\<close>

named_theorems res_simps \<open>evaluation and inversion of the result type\<close>
named_theorems int_width \<open>unfolding of the width conversions\<close>

subsection \<open>Errors and results\<close>

datatype err =
    ArrayIndexOutOfBoundsException int
  | IllegalArgumentException
  | NumberFormatException
  | StreamIndexOutOfBoundsException int
  | PacketIndexOutOfBoundsException int
  | FragmentedPacketParseException string
  | GenericException string
  | AssertionFailure
  | Undefined

type_synonym 'a res = "err + 'a"

definition rbind :: "'a res \<Rightarrow> ('a \<Rightarrow> 'b res) \<Rightarrow> 'b res" where
  "rbind m f = (case m of Inl e \<Rightarrow> Inl e | Inr x \<Rightarrow> f x)"

lemma rbind_Inl [simp, res_simps]: "rbind (Inl e) f = Inl e"
  by (simp add: rbind_def)

lemma rbind_Inr [simp, res_simps]: "rbind (Inr x) f = f x"
  by (simp add: rbind_def)

lemma rbind_eq_Inr_iff [res_simps]: "rbind m f = Inr y \<longleftrightarrow> (\<exists>x. m = Inr x \<and> f x = Inr y)"
  by (cases m) auto

lemma rbind_cong [fundef_cong]:
  "m = m' \<Longrightarrow> (\<And>x. m' = Inr x \<Longrightarrow> f x = f' x) \<Longrightarrow> rbind m f = rbind m' f'"
  by (cases m') auto

lemma rbind_assoc: "rbind (rbind m f) g = rbind m (\<lambda>x. rbind (f x) g)"
  by (cases m) auto

text \<open>\<open>E3_ASSERT\<close>: a failed assertion stops the program.\<close>

definition e3_assert :: "bool \<Rightarrow> unit res" where
  "e3_assert b = (if b then Inr () else Inl AssertionFailure)"

lemma e3_assert_simps [simp, res_simps]:
  "e3_assert True = Inr ()" "e3_assert False = Inl AssertionFailure"
  by (simp_all add: e3_assert_def)

subsection \<open>Machine integers\<close>

text \<open>
  \<open>int\<close> of the source is a 32-bit two's complement integer whose overflow is undefined;
  \<open>u32\<close> is the conversion \<open>(uint32) i\<close>.
\<close>

definition int32_ok :: "int \<Rightarrow> bool" where
  "int32_ok i \<longleftrightarrow> - (2 ^ 31) \<le> i \<and> i < 2 ^ 31"

definition u32 :: "int \<Rightarrow> int" where
  "u32 i = i mod 2 ^ 32"

definition to_int32 :: "int \<Rightarrow> int" where
  "to_int32 i = (let u = i mod 2 ^ 32 in if u < 2 ^ 31 then u else u - 2 ^ 32)"

definition chk32 :: "int \<Rightarrow> int res" where
  "chk32 i = (if int32_ok i then Inr i else Inl Undefined)"

lemma chk32_ok [simp, res_simps]: "int32_ok i \<Longrightarrow> chk32 i = Inr i"
  by (simp add: chk32_def)

lemma chk32_eq_Inr_iff [res_simps]: "chk32 i = Inr j \<longleftrightarrow> int32_ok i \<and> j = i"
  by (auto simp: chk32_def)

lemma neg_mod_2_32: "- (2 ^ 31) \<le> i \<Longrightarrow> i < 0 \<Longrightarrow> i mod 2 ^ 32 = i + (2 ^ 32 :: int)"
proof -
  assume a: "- (2 ^ 31) \<le> i" "i < 0"
  have "(i + 2 ^ 32) mod 2 ^ 32 = i + (2 ^ 32 :: int)"
    using a by (intro mod_pos_pos_trivial) simp_all
  moreover have "(i + 2 ^ 32) mod 2 ^ 32 = i mod (2 ^ 32 :: int)"
    by (rule mod_add_self2)
  ultimately show ?thesis by linarith
qed

lemma u32_id [simp]: "0 \<le> i \<Longrightarrow> i < 2 ^ 32 \<Longrightarrow> u32 i = i"
  by (simp add: u32_def)

lemma u32_nonneg [simp]: "0 \<le> u32 i"
  by (simp add: u32_def)

lemma u32_bound: "u32 i < 2 ^ 32"
  by (simp add: u32_def)

lemma u32_neg: "- (2 ^ 31) \<le> i \<Longrightarrow> i < 0 \<Longrightarrow> 2 ^ 31 \<le> u32 i"
  using neg_mod_2_32 [of i] by (simp add: u32_def)

lemma to_int32_id: "int32_ok i \<Longrightarrow> to_int32 i = i"
proof (cases "0 \<le> i")
  case True
  assume "int32_ok i"
  then show ?thesis using True by (simp add: to_int32_def int32_ok_def Let_def)
next
  case False
  assume "int32_ok i"
  then show ?thesis using False neg_mod_2_32 [of i]
    by (simp add: to_int32_def int32_ok_def Let_def)
qed

subsection \<open>Lists: insertion, removal and raw memory blocks\<close>

definition insert_at :: "nat \<Rightarrow> 'a \<Rightarrow> 'a list \<Rightarrow> 'a list" where
  "insert_at i x xs = take i xs @ x # drop i xs"

definition remove_at :: "nat \<Rightarrow> 'a list \<Rightarrow> 'a list" where
  "remove_at i xs = take i xs @ drop (Suc i) xs"

lemma length_insert_at [simp]: "length (insert_at i x xs) = Suc (length xs)"
  by (simp add: insert_at_def)

lemma length_remove_at [simp]: "i < length xs \<Longrightarrow> length (remove_at i xs) = length xs - 1"
  by (simp add: remove_at_def)

lemma mset_insert_at [simp]: "mset (insert_at i x xs) = add_mset x (mset xs)"
proof -
  have "mset xs = mset (take i xs) + mset (drop i xs)"
    by (simp flip: mset_append)
  then show ?thesis by (simp add: insert_at_def)
qed

lemma set_insert_at [simp]: "set (insert_at i x xs) = insert x (set xs)"
proof -
  have "set xs = set (take i xs) \<union> set (drop i xs)"
    by (simp flip: set_append)
  then show ?thesis by (simp add: insert_at_def)
qed

lemma mset_remove_at: "i < length xs \<Longrightarrow> add_mset (xs ! i) (mset (remove_at i xs)) = mset xs"
proof -
  assume "i < length xs"
  then have "xs = take i xs @ xs ! i # drop (Suc i) xs" by (rule id_take_nth_drop)
  then have "mset xs = mset (take i xs @ xs ! i # drop (Suc i) xs)" by simp
  then show ?thesis by (simp add: remove_at_def)
qed

lemma remove_insert_at: "i \<le> length xs \<Longrightarrow> remove_at i (insert_at i x xs) = xs"
  by (simp add: remove_at_def insert_at_def)

lemma insert_at_length: "insert_at (length xs) x xs = xs @ [x]"
  by (simp add: insert_at_def)

lemma nth_insert_at_self: "i \<le> length xs \<Longrightarrow> insert_at i x xs ! i = x"
  by (simp add: insert_at_def nth_append)

lemma remove_at_0 [simp]: "remove_at 0 xs = tl xs"
  by (cases xs) (simp_all add: remove_at_def)

lemma map_insert_at: "map f (insert_at i x xs) = insert_at i (f x) (map f xs)"
  by (simp add: insert_at_def take_map drop_map)

lemma map_remove_at: "map f (remove_at i xs) = remove_at i (map f xs)"
  by (simp add: remove_at_def take_map drop_map)

text \<open>\<open>memmove\<close> (and \<open>memcpy\<close> of non-overlapping blocks) on a list of cells.\<close>

definition memmove_cells :: "'c list \<Rightarrow> nat \<Rightarrow> nat \<Rightarrow> nat \<Rightarrow> 'c list" where
  "memmove_cells cs dst src n = take dst cs @ take n (drop src cs) @ drop (dst + n) cs"

definition memcpy_into :: "'c list \<Rightarrow> nat \<Rightarrow> 'c list \<Rightarrow> 'c list" where
  "memcpy_into cs dst bs = take dst cs @ bs @ drop (dst + length bs) cs"

lemma length_memmove_cells [simp]:
  "dst + n \<le> length cs \<Longrightarrow> src + n \<le> length cs \<Longrightarrow> length (memmove_cells cs dst src n) = length cs"
  by (simp add: memmove_cells_def)

lemma length_memcpy_into [simp]:
  "dst + length bs \<le> length cs \<Longrightarrow> length (memcpy_into cs dst bs) = length cs"
  by (simp add: memcpy_into_def)

subsection \<open>Comparison functions\<close>

text \<open>
  The contract of a \<open>compareTo\<close>: antisymmetric in its sign and transitive. A positive value means
  that the first argument comes first.
\<close>

locale compare_order =
  fixes cmp :: "'e \<Rightarrow> 'e \<Rightarrow> int"
  assumes cmp_flip: "0 < cmp a b \<longleftrightarrow> cmp b a < 0"
    and cmp_trans: "0 \<le> cmp a b \<Longrightarrow> 0 \<le> cmp b c \<Longrightarrow> 0 \<le> cmp a c"
begin

lemma cmp_refl: "cmp a a = 0"
  using cmp_flip [of a a] by linarith

lemma cmp_eq_sym: "cmp a b = 0 \<longleftrightarrow> cmp b a = 0"
  using cmp_flip [of a b] cmp_flip [of b a] by linarith

lemma cmp_le_flip: "0 \<le> cmp a b \<longleftrightarrow> cmp b a \<le> 0"
  using cmp_flip [of b a] by linarith

lemma cmp_before: "0 \<le> cmp a b \<Longrightarrow> 0 < cmp b o' \<Longrightarrow> 0 < cmp a o'"
  using cmp_trans [of a b o'] cmp_trans [of o' a b] cmp_flip [of b o'] cmp_eq_sym [of a o'] by linarith

lemma cmp_after: "0 \<le> cmp a b \<Longrightarrow> cmp a o' < 0 \<Longrightarrow> cmp b o' < 0"
  using cmp_trans [of a b o'] by (cases "0 \<le> cmp b o'") auto

end

end
