(* ===== verification/ArrayList.thy ===== *)
theory ArrayList
  imports Prelude
begin

text \<open>
  The growable array of \<^verbatim>\<open>src/MMOEngine/src/system/util/ArrayList.h\<close>, the base class of
  \<open>Vector\<close>, \<open>SortedVector\<close>, \<open>VectorMap\<close>, \<open>ArrayQueue\<close> and \<open>Stream\<close>.

  The block \<open>elementData\<close> is a list of cells, one per slot of the allocation: \<open>None\<close> is
  raw memory (fresh from \<open>malloc\<close>, or an object whose destructor has run), \<open>Some x\<close> a live
  object. The null pointer is the empty list (the code never keeps a block of zero
  slots). The template parameters that select between element-wise moves and \<open>memmove\<close>
  are a record \<open>al_traits\<close>, so that every theorem covers all instantiations. Copy and move
  overloads have one model: a moved-from value is never read again. \<open>malloc\<close> is assumed
  to succeed. Elements are passed by value: the case of a reference to an element of the list itself, which an
  insertion may move or free before it copies it, is not modelled. Two different lists never share a block; \<open>this == &array\<close> is only the early
  return of the assignment operators.
\<close>

subsection \<open>State\<close>

record al_traits =
  rawCopyAndRealloc :: bool
  triviallyCopyable :: bool
  needConstructor :: bool

record 'e array_list =
  elementData :: "'e option list"
  elementCapacity :: int
  capacityIncrement :: int
  elementCount :: int

subsection \<open>Cells: construction, destruction and access\<close>

definition elementAtUnsafe :: "int \<Rightarrow> 'e array_list \<Rightarrow> 'e res" where
  "elementAtUnsafe index a =
     (if 0 \<le> index \<and> nat index < length (elementData a)
      then (case elementData a ! nat index of Some x \<Rightarrow> Inr x | None \<Rightarrow> Inl Undefined)
      else Inl Undefined)"

definition createElementAt :: "'e \<Rightarrow> int \<Rightarrow> 'e array_list \<Rightarrow> 'e array_list res" where
  "createElementAt e index a =
     (if 0 \<le> index \<and> nat index < length (elementData a)
      then Inr (a\<lparr>elementData := (elementData a)[nat index := Some e]\<rparr>)
      else Inl Undefined)"

definition destroyElementAt :: "al_traits \<Rightarrow> int \<Rightarrow> 'e array_list \<Rightarrow> 'e array_list res" where
  "destroyElementAt T index a =
     (if needConstructor T
      then rbind (elementAtUnsafe index a)
             (\<lambda>_. Inr (a\<lparr>elementData := (elementData a)[nat index := None]\<rparr>))
      else Inr a)"

fun destroy_loop :: "al_traits \<Rightarrow> int \<Rightarrow> nat \<Rightarrow> 'e array_list \<Rightarrow> 'e array_list res" where
  "destroy_loop T i 0 a = Inr a"
| "destroy_loop T i (Suc n) a = rbind (destroyElementAt T i a) (destroy_loop T (i + 1) n)"

definition destroyElementRange :: "al_traits \<Rightarrow> int \<Rightarrow> int \<Rightarrow> 'e array_list \<Rightarrow> 'e array_list res" where
  "destroyElementRange T fromIndex toIndex a =
     (if needConstructor T then destroy_loop T fromIndex (nat (toIndex - fromIndex)) a else Inr a)"

definition destroyElements :: "al_traits \<Rightarrow> 'e array_list \<Rightarrow> 'e array_list res" where
  "destroyElements T a = destroyElementRange T 0 (elementCount a) a"

subsection \<open>Construction and storage management\<close>

definition al_new :: "'e array_list" where
  "al_new = \<lparr>elementData = [], elementCapacity = 0, capacityIncrement = 0, elementCount = 0\<rparr>"

definition al_init :: "int \<Rightarrow> int \<Rightarrow> 'e array_list" where
  "al_init initsize incr =
     (if initsize = 0
      then \<lparr>elementData = [], elementCapacity = 0, capacityIncrement = incr, elementCount = 0\<rparr>
      else \<lparr>elementData = replicate (nat (max 1 initsize)) None, elementCapacity = max 1 initsize,
            capacityIncrement = incr, elementCount = 0\<rparr>)"

definition al_new_incr :: "int \<Rightarrow> 'e array_list" where
  "al_new_incr incr = al_init incr 0"

definition al_new_size :: "int \<Rightarrow> int \<Rightarrow> 'e array_list" where
  "al_new_size initsize incr = al_init initsize incr"

text \<open>The loop of \<open>ensureCapacity\<close>: every object moves from the old block to the new one.\<close>

fun realloc_loop :: "'e option list \<Rightarrow> nat \<Rightarrow> nat \<Rightarrow> 'e option list \<Rightarrow> 'e option list res" where
  "realloc_loop old i 0 new = Inr new"
| "realloc_loop old i (Suc n) new =
     (if i < length old \<and> i < length new
      then (case old ! i of
              Some x \<Rightarrow> realloc_loop old (Suc i) n (new[i := Some x])
            | None \<Rightarrow> Inl Undefined)
      else Inl Undefined)"

definition ensureCapacity :: "al_traits \<Rightarrow> int \<Rightarrow> bool \<Rightarrow> 'e array_list \<Rightarrow> 'e array_list res" where
  "ensureCapacity T minCapacity copyContent a =
     (let oldCapacity = elementCapacity a; oldData = elementData a in
      if minCapacity > oldCapacity then
        rbind (chk32 (if capacityIncrement a > 0 then oldCapacity + capacityIncrement a
                      else oldCapacity * 2)) (\<lambda>grown.
        rbind (chk32 (capacityIncrement a * 2)) (\<lambda>incr.
          let newCapacity = (if grown < minCapacity then minCapacity else grown) in
          if copyContent \<and> oldData \<noteq> [] then
            if \<not> rawCopyAndRealloc T \<and> \<not> triviallyCopyable T then
              rbind (realloc_loop oldData 0 (nat (elementCount a)) (replicate (nat newCapacity) None)) (\<lambda>cells.
              Inr (a\<lparr>elementData := cells, elementCapacity := newCapacity, capacityIncrement := incr\<rparr>))
            else
              Inr (a\<lparr>elementData := oldData @ replicate (nat newCapacity - length oldData) None,
                     elementCapacity := newCapacity, capacityIncrement := incr\<rparr>)
          else
            Inr (a\<lparr>elementData := replicate (nat newCapacity) None,
                   elementCapacity := newCapacity, capacityIncrement := incr\<rparr>)))
      else Inr a)"

definition al_setSize :: "al_traits \<Rightarrow> int \<Rightarrow> bool \<Rightarrow> 'e array_list \<Rightarrow> 'e array_list res" where
  "al_setSize T newSize copyContent a =
     rbind (if newSize > elementCount a then ensureCapacity T newSize copyContent a else Inr a)
       (\<lambda>a'. Inr (a'\<lparr>elementCount := newSize\<rparr>))"

definition al_removeAll :: "al_traits \<Rightarrow> int \<Rightarrow> int \<Rightarrow> 'e array_list \<Rightarrow> 'e array_list res" where
  "al_removeAll T newSize newIncrement a =
     rbind (if elementData a \<noteq> [] then destroyElements T a else Inr a)
       (\<lambda>_. Inr (al_init newSize newIncrement))"

subsection \<open>Copying\<close>

text \<open>
  Element-wise copy of the first \<open>n\<close> objects of a block, and the whole-block \<open>memcpy\<close> the
  code uses for trivially copyable elements.
\<close>

fun copy_loop :: "'e option list \<Rightarrow> nat \<Rightarrow> nat \<Rightarrow> 'e array_list \<Rightarrow> 'e array_list res" where
  "copy_loop src i 0 a = Inr a"
| "copy_loop src i (Suc n) a =
     (if i < length src
      then (case src ! i of
              Some x \<Rightarrow> rbind (createElementAt x (int i) a) (copy_loop src (Suc i) n)
            | None \<Rightarrow> Inl Undefined)
      else Inl Undefined)"

definition copy_block :: "al_traits \<Rightarrow> 'e array_list \<Rightarrow> 'e array_list \<Rightarrow> 'e array_list res" where
  "copy_block T src a =
     (if \<not> triviallyCopyable T
      then copy_loop (elementData src) 0 (nat (elementCount src)) a
      else if nat (elementCount src) \<le> length (elementData src) \<and> nat (elementCount src) \<le> length (elementData a)
      then Inr (a\<lparr>elementData := memcpy_into (elementData a) 0 (take (nat (elementCount src)) (elementData src))\<rparr>)
      else Inl Undefined)"

definition al_copy :: "al_traits \<Rightarrow> 'e array_list \<Rightarrow> 'e array_list res" where
  "al_copy T array =
     (let a = (al_init (elementCapacity array) (capacityIncrement array))\<lparr>elementCount := elementCount array\<rparr>
      in if elementCount array = 0 then Inr a else copy_block T array a)"

fun create_loop :: "'e list \<Rightarrow> int \<Rightarrow> 'e array_list \<Rightarrow> 'e array_list res" where
  "create_loop [] i a = Inr a"
| "create_loop (x # xs) i a = rbind (createElementAt x i a) (create_loop xs (i + 1))"

definition al_from_initializer :: "'e list \<Rightarrow> 'e array_list res" where
  "al_from_initializer v =
     create_loop v 0 ((al_init (int (length v)) 5)\<lparr>elementCount := int (length v)\<rparr>)"

definition al_clone :: "al_traits \<Rightarrow> 'e array_list \<Rightarrow> 'e array_list \<Rightarrow> 'e array_list res" where
  "al_clone T this array =
     rbind (al_removeAll T (elementCount this) (capacityIncrement this) array) (\<lambda>fresh.
     let array' = fresh\<lparr>elementCount := elementCount this\<rparr> in
     if elementCount this = 0 then Inr array' else copy_block T this array')"

definition al_assign :: "al_traits \<Rightarrow> 'e array_list \<Rightarrow> 'e array_list \<Rightarrow> 'e array_list res" where
  "al_assign T this array = al_clone T array this"

definition al_move :: "'e array_list \<Rightarrow> 'e array_list \<times> 'e array_list" where
  "al_move array = (array, al_new)"

definition al_move_assign ::
  "al_traits \<Rightarrow> 'e array_list \<Rightarrow> 'e array_list \<Rightarrow> ('e array_list \<times> 'e array_list) res" where
  "al_move_assign T this array =
     rbind (if elementData this \<noteq> [] then destroyElements T this else Inr this) (\<lambda>_. Inr (array, al_new))"

subsection \<open>Reading\<close>

definition elementAt :: "int \<Rightarrow> 'e array_list \<Rightarrow> 'e res" where
  "elementAt index a =
     (if index \<ge> u32 (elementCount a) then Inl (ArrayIndexOutOfBoundsException (to_int32 index))
      else elementAtUnsafe index a)"

definition al_get :: "int \<Rightarrow> 'e array_list \<Rightarrow> 'e res" where
  "al_get index a = elementAt (u32 index) a"

definition al_getUnsafe :: "int \<Rightarrow> 'e array_list \<Rightarrow> 'e res" where
  "al_getUnsafe index a = elementAtUnsafe (u32 index) a"

definition al_back :: "'e array_list \<Rightarrow> 'e res" where
  "al_back a = al_get (elementCount a - 1) a"

definition al_front :: "'e array_list \<Rightarrow> 'e res" where
  "al_front a = al_get 0 a"

definition al_isEmpty :: "'e array_list \<Rightarrow> bool" where
  "al_isEmpty a \<longleftrightarrow> elementCount a = 0"

definition npos :: int where
  "npos = -1"

fun find_loop :: "'e \<Rightarrow> int \<Rightarrow> nat \<Rightarrow> 'e array_list \<Rightarrow> int res" where
  "find_loop e i 0 a = Inr npos"
| "find_loop e i (Suc n) a =
     rbind (al_getUnsafe i a) (\<lambda>x. if e = x then Inr i else find_loop e (i + 1) n a)"

definition al_find :: "'e \<Rightarrow> 'e array_list \<Rightarrow> int res" where
  "al_find e a = find_loop e 0 (nat (elementCount a)) a"

fun contains_loop :: "'e \<Rightarrow> int \<Rightarrow> nat \<Rightarrow> 'e array_list \<Rightarrow> bool res" where
  "contains_loop e i 0 a = Inr False"
| "contains_loop e i (Suc n) a =
     rbind (al_getUnsafe i a) (\<lambda>x. if e = x then Inr True else contains_loop e (i + 1) n a)"

definition al_contains :: "'e \<Rightarrow> 'e array_list \<Rightarrow> bool res" where
  "al_contains e a = contains_loop e 0 (nat (elementCount a)) a"

text \<open>
  \<open>forEach\<close> with a function that may write through its reference argument; the constant
  overload is the case of a function that returns its argument.
\<close>

fun forEach_loop :: "('e \<Rightarrow> 'e) \<Rightarrow> int \<Rightarrow> nat \<Rightarrow> 'e array_list \<Rightarrow> 'e array_list res" where
  "forEach_loop f i 0 a = Inr a"
| "forEach_loop f i (Suc n) a =
     rbind (al_getUnsafe i a) (\<lambda>x.
     forEach_loop f (i + 1) n (a\<lparr>elementData := (elementData a)[nat i := Some (f x)]\<rparr>))"

definition al_forEach :: "('e \<Rightarrow> 'e) \<Rightarrow> int \<Rightarrow> int \<Rightarrow> 'e array_list \<Rightarrow> 'e array_list res" where
  "al_forEach f first last0 a =
     (let last = (if last0 < 0 then elementCount a else last0) in
      if last > elementCount a then Inl (ArrayIndexOutOfBoundsException last)
      else if first > elementCount a \<or> first < 0 \<or> first > last
      then Inl (ArrayIndexOutOfBoundsException first)
      else forEach_loop f first (nat (last - first)) a)"

subsection \<open>Adding\<close>

definition al_add :: "al_traits \<Rightarrow> 'e \<Rightarrow> 'e array_list \<Rightarrow> 'e array_list res" where
  "al_add T e a =
     rbind (chk32 (elementCount a + 1)) (\<lambda>n.
     rbind (ensureCapacity T n True a) (\<lambda>a1.
     rbind (createElementAt e (elementCount a1) a1) (\<lambda>a2.
     Inr (a2\<lparr>elementCount := elementCount a2 + 1\<rparr>))))"

text \<open>
  The backward loop of \<open>insertElementAt\<close>: \<open>dLast\<close> and \<open>last\<close> run down from the end, each
  object is moved one slot up and its old slot destroyed.
\<close>

fun shift_up_loop :: "'e option list \<Rightarrow> nat \<Rightarrow> nat \<Rightarrow> 'e option list" where
  "shift_up_loop cs first 0 = cs"
| "shift_up_loop cs first (Suc n) =
     shift_up_loop (cs[first + n + 1 := cs ! (first + n), first + n := None]) first n"

definition shift_up :: "al_traits \<Rightarrow> nat \<Rightarrow> nat \<Rightarrow> 'e option list \<Rightarrow> 'e option list res" where
  "shift_up T index numMoved cs =
     (if index + numMoved + 1 \<le> length cs
      then Inr (if \<not> rawCopyAndRealloc T \<and> \<not> triviallyCopyable T
                then shift_up_loop cs index numMoved
                else memmove_cells cs (index + 1) index numMoved)
      else Inl Undefined)"

definition insertElementAt :: "al_traits \<Rightarrow> 'e \<Rightarrow> int \<Rightarrow> 'e array_list \<Rightarrow> 'e array_list res" where
  "insertElementAt T e index a =
     (if index > u32 (elementCount a) then Inl (ArrayIndexOutOfBoundsException (to_int32 index))
      else
        rbind (chk32 (elementCount a + 1)) (\<lambda>n.
        rbind (ensureCapacity T n True a) (\<lambda>a1.
        let numMoved = to_int32 (elementCount a1 - index) in
        rbind (if numMoved > 0
               then rbind (shift_up T (nat index) (nat numMoved) (elementData a1))
                      (\<lambda>cs. Inr (a1\<lparr>elementData := cs\<rparr>))
               else Inr a1) (\<lambda>a2.
        rbind (createElementAt e index a2) (\<lambda>a3.
        Inr (a3\<lparr>elementCount := elementCount a3 + 1\<rparr>))))))"

definition al_add_at :: "al_traits \<Rightarrow> int \<Rightarrow> 'e \<Rightarrow> 'e array_list \<Rightarrow> 'e array_list res" where
  "al_add_at T index e a = insertElementAt T e (u32 index) a"

fun addAll_loop :: "al_traits \<Rightarrow> 'e array_list \<Rightarrow> int \<Rightarrow> nat \<Rightarrow> 'e array_list \<Rightarrow> 'e array_list res" where
  "addAll_loop T array i 0 a = Inr a"
| "addAll_loop T array i (Suc n) a =
     rbind (al_getUnsafe i array) (\<lambda>x. rbind (al_add T x a) (addAll_loop T array (i + 1) n))"

definition addAll_block :: "al_traits \<Rightarrow> 'e array_list \<Rightarrow> 'e array_list \<Rightarrow> 'e array_list res" where
  "addAll_block T array a =
     rbind (chk32 (elementCount a + elementCount array)) (\<lambda>n.
     rbind (ensureCapacity T n True a) (\<lambda>a1.
     if nat (elementCount array) \<le> length (elementData array)
        \<and> nat (elementCount a1) + nat (elementCount array) \<le> length (elementData a1)
     then Inr (a1\<lparr>elementData := memcpy_into (elementData a1) (nat (elementCount a1))
                                   (take (nat (elementCount array)) (elementData array)),
                  elementCount := elementCount a1 + elementCount array\<rparr>)
     else Inl Undefined))"

definition al_addAll :: "al_traits \<Rightarrow> 'e array_list \<Rightarrow> 'e array_list \<Rightarrow> 'e array_list res" where
  "al_addAll T array a =
     (if \<not> triviallyCopyable T then addAll_loop T array 0 (nat (elementCount array)) a
      else addAll_block T array a)"

subsection \<open>Removing and overwriting\<close>

text \<open>The forward loops of \<open>removeElementAt\<close> and \<open>removeRange\<close>.\<close>

fun shift_down_loop :: "'e option list \<Rightarrow> nat \<Rightarrow> nat \<Rightarrow> nat \<Rightarrow> 'e option list" where
  "shift_down_loop cs dst src 0 = cs"
| "shift_down_loop cs dst src (Suc n) =
     shift_down_loop (cs[dst := cs ! src, src := None]) (Suc dst) (Suc src) n"

definition shift_down :: "al_traits \<Rightarrow> nat \<Rightarrow> nat \<Rightarrow> nat \<Rightarrow> 'e option list \<Rightarrow> 'e option list res" where
  "shift_down T dst src numMoved cs =
     (if src + numMoved \<le> length cs
      then Inr (if \<not> rawCopyAndRealloc T \<and> \<not> triviallyCopyable T
                then shift_down_loop cs dst src numMoved
                else memmove_cells cs dst src numMoved)
      else Inl Undefined)"

definition removeElementAt :: "al_traits \<Rightarrow> int \<Rightarrow> 'e array_list \<Rightarrow> 'e array_list res" where
  "removeElementAt T index a =
     (if index \<ge> u32 (elementCount a) then Inl (ArrayIndexOutOfBoundsException (to_int32 index))
      else
        rbind (destroyElementAt T index a) (\<lambda>a1.
        let numMoved = to_int32 (elementCount a1 - index - 1) in
        rbind (if numMoved > 0
               then rbind (shift_down T (nat index) (nat index + 1) (nat numMoved) (elementData a1))
                      (\<lambda>cs. Inr (a1\<lparr>elementData := cs\<rparr>))
               else Inr a1) (\<lambda>a2.
        Inr (a2\<lparr>elementCount := elementCount a2 - 1\<rparr>))))"

definition al_remove :: "al_traits \<Rightarrow> int \<Rightarrow> 'e array_list \<Rightarrow> ('e \<times> 'e array_list) res" where
  "al_remove T index a =
     rbind (al_get index a) (\<lambda>oldValue.
     rbind (removeElementAt T (u32 index) a) (\<lambda>a'. Inr (oldValue, a')))"

fun removeElement_loop :: "al_traits \<Rightarrow> 'e \<Rightarrow> int \<Rightarrow> nat \<Rightarrow> 'e array_list \<Rightarrow> (bool \<times> 'e array_list) res" where
  "removeElement_loop T e i 0 a = Inr (False, a)"
| "removeElement_loop T e i (Suc n) a =
     rbind (elementAtUnsafe i a) (\<lambda>x.
     if x = e then rbind (removeElementAt T (u32 i) a) (\<lambda>a'. Inr (True, a'))
     else removeElement_loop T e (i + 1) n a)"

definition al_removeElement :: "al_traits \<Rightarrow> 'e \<Rightarrow> 'e array_list \<Rightarrow> (bool \<times> 'e array_list) res" where
  "al_removeElement T e a = removeElement_loop T e 0 (nat (elementCount a)) a"

definition al_removeRange :: "al_traits \<Rightarrow> int \<Rightarrow> int \<Rightarrow> 'e array_list \<Rightarrow> 'e array_list res" where
  "al_removeRange T fromIndex toIndex a =
     (if fromIndex < 0 then Inl (ArrayIndexOutOfBoundsException fromIndex)
      else if toIndex > elementCount a then Inl (ArrayIndexOutOfBoundsException toIndex)
      else if fromIndex > toIndex then Inl IllegalArgumentException
      else
        rbind (destroyElementRange T fromIndex toIndex a) (\<lambda>a1.
        let numMoved = elementCount a1 - toIndex in
        rbind (if numMoved > 0
               then rbind (shift_down T (nat fromIndex) (nat toIndex) (nat numMoved) (elementData a1))
                      (\<lambda>cs. Inr (a1\<lparr>elementData := cs\<rparr>))
               else Inr a1) (\<lambda>a2.
        Inr (a2\<lparr>elementCount := elementCount a2 - (toIndex - fromIndex)\<rparr>))))"

definition setElementAt :: "al_traits \<Rightarrow> int \<Rightarrow> 'e \<Rightarrow> 'e array_list \<Rightarrow> 'e array_list res" where
  "setElementAt T index e a =
     (if index \<ge> u32 (elementCount a) then Inl (ArrayIndexOutOfBoundsException (to_int32 index))
      else rbind (destroyElementAt T index a) (createElementAt e index))"

definition al_set :: "al_traits \<Rightarrow> int \<Rightarrow> 'e \<Rightarrow> 'e array_list \<Rightarrow> ('e \<times> 'e array_list) res" where
  "al_set T index e a =
     rbind (al_get index a) (\<lambda>oldValue.
     rbind (setElementAt T (u32 index) e a) (\<lambda>a'. Inr (oldValue, a')))"

subsection \<open>Representation of a list by an array\<close>

text \<open>
  \<open>al_rep a xs\<close>: the object is well formed (the capacity field is the size of the block,
  the count is within it, every counted slot holds a live object) and its elements are
  \<open>xs\<close>. \<open>al_room a n\<close>: growing the block to \<open>n\<close> slots does not overflow an \<open>int\<close>.
\<close>

definition al_rep :: "'e array_list \<Rightarrow> 'e list \<Rightarrow> bool" where
  "al_rep a xs \<longleftrightarrow>
     elementCapacity a = int (length (elementData a)) \<and> elementCount a = int (length xs) \<and>
     length xs \<le> length (elementData a) \<and> int (length (elementData a)) < 2 ^ 31 \<and>
     take (length xs) (elementData a) = map Some xs"

definition al_list :: "'e array_list \<Rightarrow> 'e list" where
  "al_list a = map the (take (nat (elementCount a)) (elementData a))"

definition al_inv :: "'e array_list \<Rightarrow> bool" where
  "al_inv a \<longleftrightarrow> al_rep a (al_list a)"

definition al_room :: "'e array_list \<Rightarrow> int \<Rightarrow> bool" where
  "al_room a n \<longleftrightarrow> n \<le> elementCapacity a \<or>
     (n < 2 ^ 31 \<and> elementCapacity a < 2 ^ 30 \<and> - (2 ^ 30) \<le> capacityIncrement a \<and> capacityIncrement a < 2 ^ 30)"

text \<open>
  \<open>al_growable\<close> is what keeps the doubling of \<open>capacityIncrement\<close> in range for ever: it is
  preserved by every operation, and below \<open>2 ^ 28\<close> elements it gives \<open>al_room\<close>. \<open>al_wf\<close> is
  the invariant of the component.
\<close>

definition al_growable :: "'e array_list \<Rightarrow> bool" where
  "al_growable a \<longleftrightarrow> 0 \<le> capacityIncrement a \<and> capacityIncrement a \<le> max (2 ^ 28) (2 * elementCapacity a)"

definition al_wf :: "'e array_list \<Rightarrow> 'e list \<Rightarrow> bool" where
  "al_wf a xs \<longleftrightarrow> al_rep a xs \<and> al_growable a"

lemma al_growable_room: "al_growable a \<Longrightarrow> n \<le> 2 ^ 28 \<Longrightarrow> al_room a n"
  by (auto simp: al_growable_def al_room_def)

lemma al_repI:
  "elementData a = map Some xs @ rest \<Longrightarrow> elementCapacity a = int (length xs + length rest) \<Longrightarrow>
   elementCount a = int (length xs) \<Longrightarrow> int (length xs + length rest) < 2 ^ 31 \<Longrightarrow> al_rep a xs"
  by (simp add: al_rep_def)

lemma al_repE:
  assumes "al_rep a xs"
  obtains rest where "elementData a = map Some xs @ rest"
    "elementCapacity a = int (length xs) + int (length rest)"
    "elementCount a = int (length xs)" "int (length xs) + int (length rest) < 2 ^ 31"
proof -
  from assms have "elementData a = map Some xs @ drop (length xs) (elementData a)"
    by (metis al_rep_def append_take_drop_id)
  then show thesis
    using assms that [of "drop (length xs) (elementData a)"]
    by (simp add: al_rep_def)
qed

lemma al_rep_list: "al_rep a xs \<Longrightarrow> al_list a = xs"
  by (simp add: al_rep_def al_list_def map_idI comp_def)

lemma al_rep_unique: "al_rep a xs \<Longrightarrow> al_rep a ys \<Longrightarrow> xs = ys"
  using al_rep_list by metis

lemma al_inv_iff: "al_inv a \<longleftrightarrow> (\<exists>xs. al_rep a xs)"
  using al_rep_list unfolding al_inv_def by metis

lemma al_rep_inv: "al_rep a xs \<Longrightarrow> al_inv a"
  by (auto simp: al_inv_iff)

lemma al_rep_count: "al_rep a xs \<Longrightarrow> elementCount a = int (length xs)"
  by (simp add: al_rep_def)

lemma al_rep_bound: "al_rep a xs \<Longrightarrow> int (length xs) < 2 ^ 31"
  by (simp add: al_rep_def)

lemma al_rep_u32_count [simp]: "al_rep a xs \<Longrightarrow> u32 (elementCount a) = int (length xs)"
  using al_rep_bound [of a xs] by (simp add: al_rep_count)

subsection \<open>Correctness: cells\<close>

lemma elementAtUnsafe_rep:
  assumes "al_rep a xs" "i < length xs"
  shows "elementAtUnsafe (int i) a = Inr (xs ! i)"
  using assms(1) by (rule al_repE) (use assms(2) in \<open>simp add: elementAtUnsafe_def nth_append\<close>)

lemma al_new_rep: "al_rep al_new []"
  by (simp add: al_rep_def al_new_def)

lemma al_init_rep: "initsize < 2 ^ 31 \<Longrightarrow> al_rep (al_init initsize incr) []"
  by (auto simp: al_rep_def al_init_def max_def nat_less_iff)

lemma al_init_0 [simp]:
  "al_init 0 k = \<lparr>elementData = [], elementCapacity = 0, capacityIncrement = k, elementCount = 0\<rparr>"
  by (simp add: al_init_def)

lemma al_init_int [simp]:
  "al_init (int n) k = \<lparr>elementData = replicate n None, elementCapacity = int n, capacityIncrement = k, elementCount = 0\<rparr>"
proof (cases "n = 0")
  case True
  then show ?thesis by (simp add: al_init_def)
next
  case False
  then have "max 1 (int n) = int n" by simp
  then show ?thesis using False by (simp add: al_init_def)
qed

lemma destroy_loop_ok:
  assumes "needConstructor T"
    and "i + n \<le> length xs" and "elementData a = pre @ map Some (drop i xs) @ rest"
    and "length pre = i"
  shows "destroy_loop T (int i) n a =
    Inr (a\<lparr>elementData := pre @ replicate n None @ map Some (drop (i + n) xs) @ rest\<rparr>)"
  using assms(2-)
proof (induction n arbitrary: i a pre)
  case 0
  then show ?case by simp
next
  case (Suc n)
  then have i: "i < length xs" by simp
  then have d: "drop i xs = xs ! i # drop (Suc i) xs" by (simp add: Cons_nth_drop_Suc)
  let ?a = "a\<lparr>elementData := (pre @ [None]) @ map Some (drop (Suc i) xs) @ rest\<rparr>"
  have "destroyElementAt T (int i) a = Inr ?a"
    using Suc.prems assms(1)
    by (simp add: destroyElementAt_def elementAtUnsafe_def d nth_append list_update_append)
  moreover have "destroy_loop T (int (Suc i)) n ?a =
      Inr (?a\<lparr>elementData := (pre @ [None]) @ replicate n None @ map Some (drop (Suc i + n) xs) @ rest\<rparr>)"
    using Suc.prems by (intro Suc.IH) simp_all
  ultimately show ?case by (simp add: add.commute)
qed

lemma destroyElementRange_ok:
  assumes "elementData a = map Some xs @ rest" "0 \<le> i" "i \<le> j" "j \<le> int (length xs)"
  obtains hole where "length hole = nat (j - i)"
    "destroyElementRange T i j a =
       Inr (a\<lparr>elementData := map Some (take (nat i) xs) @ hole @ map Some (drop (nat j) xs) @ rest\<rparr>)"
proof (cases "needConstructor T")
  case True
  have "xs = take (nat i) xs @ drop (nat i) xs" by simp
  then have "elementData a = map Some (take (nat i) xs) @ map Some (drop (nat i) xs) @ rest"
    using assms(1) by (metis append.assoc map_append)
  moreover have "nat i + nat (j - i) = nat j" using assms by simp
  ultimately have "destroy_loop T (int (nat i)) (nat (j - i)) a =
      Inr (a\<lparr>elementData := map Some (take (nat i) xs) @ replicate (nat (j - i)) None @ map Some (drop (nat j) xs) @ rest\<rparr>)"
    using destroy_loop_ok [OF True, of "nat i" "nat (j - i)" xs a "map Some (take (nat i) xs)" rest] assms
    by simp
  then show thesis
    using True assms that [of "replicate (nat (j - i)) None"] by (simp add: destroyElementRange_def)
next
  case False
  have "nat j = nat (j - i) + nat i" using assms by simp
  then have "xs = take (nat i) xs @ take (nat (j - i)) (drop (nat i) xs) @ drop (nat j) xs"
    by (simp flip: drop_drop)
  then have e: "map Some (take (nat i) xs) @ map Some (take (nat (j - i)) (drop (nat i) xs))
      @ map Some (drop (nat j) xs) @ rest = elementData a"
    using assms(1) by (metis append.assoc map_append)
  show thesis
  proof (rule that)
    show "length (map Some (take (nat (j - i)) (drop (nat i) xs))) = nat (j - i)"
      using assms by simp
    show "destroyElementRange T i j a = Inr (a\<lparr>elementData := map Some (take (nat i) xs) @
        map Some (take (nat (j - i)) (drop (nat i) xs)) @ map Some (drop (nat j) xs) @ rest\<rparr>)"
      unfolding e using False by (simp add: destroyElementRange_def)
  qed
qed

lemma destroyElementAt_rep:
  assumes "al_rep a xs" "i < length xs"
  obtains c rest where
    "destroyElementAt T (int i) a =
       Inr (a\<lparr>elementData := map Some (take i xs) @ c # map Some (drop (Suc i) xs) @ rest\<rparr>)"
    "elementData a = map Some xs @ rest"
proof -
  from assms(1) obtain rest where rest: "elementData a = map Some xs @ rest" by (rule al_repE)
  have xs: "xs = take i xs @ xs ! i # drop (Suc i) xs"
    using assms(2) by (rule id_take_nth_drop)
  then have e: "elementData a = map Some (take i xs) @ Some (xs ! i) # map Some (drop (Suc i) xs) @ rest"
    using rest by (metis append_Cons append_assoc list.simps(9) map_append)
  have a: "a\<lparr>elementData := elementData a\<rparr> = a" by simp
  show thesis
  proof (cases "needConstructor T")
    case True
    have "(elementData a)[i := None] = map Some (take i xs) @ None # map Some (drop (Suc i) xs) @ rest"
      using assms(2) e by (simp add: list_update_append)
    then show thesis
      using True assms rest that [of None rest]
      by (simp add: destroyElementAt_def elementAtUnsafe_rep)
  next
    case False
    then show thesis
      using e rest a that [of "Some (xs ! i)" rest] by (simp add: destroyElementAt_def)
  qed
qed

lemma destroyElements_rep:
  assumes "al_rep a xs"
  shows "\<exists>a'. destroyElements T a = Inr a'"
proof -
  from assms obtain rest where rest: "elementData a = map Some xs @ rest" "elementCount a = int (length xs)"
    by (rule al_repE)
  obtain hole where "destroyElementRange T 0 (int (length xs)) a =
       Inr (a\<lparr>elementData := map Some (take (nat 0) xs) @ hole @ map Some (drop (nat (int (length xs))) xs) @ rest\<rparr>)"
    using destroyElementRange_ok [OF rest(1), of 0 "int (length xs)" T] by auto
  then show ?thesis by (simp add: destroyElements_def rest)
qed

subsection \<open>Correctness: growth\<close>

lemma realloc_loop_ok:
  assumes "i + n = length xs" "length xs \<le> length xs + k"
  shows "realloc_loop (map Some xs @ rest) i n (map Some (take i xs) @ replicate (n + k) None)
       = Inr (map Some xs @ replicate k None)"
  using assms
proof (induction n arbitrary: i)
  case 0
  then show ?case by simp
next
  case (Suc n)
  then have "i < length xs" by simp
  then have "(map Some (take i xs) @ replicate (Suc n + k) None)[i := Some (xs ! i)] =
      map Some (take (Suc i) xs) @ replicate (n + k) None"
    by (simp add: list_update_append take_Suc_conv_app_nth)
  then show ?case
    using Suc.IH [of "Suc i"] Suc.prems \<open>i < length xs\<close> by (simp add: nth_append)
qed

lemma ensureCapacity_noop: "n \<le> elementCapacity a \<Longrightarrow> ensureCapacity T n c a = Inr a"
  by (simp add: ensureCapacity_def)

lemma ensureCapacity_rep:
  assumes rep: "al_rep a xs" and room: "al_room a n"
  obtains a' where "ensureCapacity T n True a = Inr a'" "al_rep a' xs" "n \<le> elementCapacity a'"
    "elementCapacity a \<le> elementCapacity a'" "al_growable a \<Longrightarrow> al_growable a'"
proof (cases "n \<le> elementCapacity a")
  case True
  then show thesis using that rep ensureCapacity_noop by blast
next
  case False
  from rep obtain rest where a: "elementData a = map Some xs @ rest"
      "elementCapacity a = int (length xs) + int (length rest)" "elementCount a = int (length xs)"
    by (rule al_repE)
  define grown where "grown = (if capacityIncrement a > 0 then elementCapacity a + capacityIncrement a
                               else elementCapacity a * 2)"
  define cap where "cap = (if grown < n then n else grown)"
  from False room a have ok: "int32_ok grown" "int32_ok (capacityIncrement a * 2)"
    by (auto simp: al_room_def int32_ok_def grown_def)
  have cap: "n \<le> cap" "elementCapacity a \<le> cap" "cap < 2 ^ 31"
    using False room ok a by (auto simp: cap_def grown_def al_room_def int32_ok_def)
  define k where "k = nat cap - length xs"
  have k: "nat cap = length xs + k" "nat cap - length (elementData a) + length rest = k"
    using cap a by (simp_all add: k_def)
  have loop: "realloc_loop (elementData a) 0 (nat (elementCount a)) (replicate (nat cap) None)
      = Inr (map Some xs @ replicate k None)"
    using realloc_loop_ok [of 0 "length xs" xs k rest] by (simp add: a k(1))
  define a' where "a' = a\<lparr>elementData := (if \<not> rawCopyAndRealloc T \<and> \<not> triviallyCopyable T \<or> elementData a = []
       then map Some xs @ replicate k None else elementData a @ replicate (nat cap - length (elementData a)) None),
       elementCapacity := cap, capacityIncrement := capacityIncrement a * 2\<rparr>"
  have nil: "elementData a = [] \<Longrightarrow> replicate (nat cap) None = map Some xs @ replicate k None"
    using a k(1) by simp
  have "ensureCapacity T n True a = Inr a'"
    using False ok loop nil by (auto simp: ensureCapacity_def Let_def grown_def cap_def a'_def)
  moreover have "al_rep a' xs"
  proof (rule al_repI [where rest = "if \<not> rawCopyAndRealloc T \<and> \<not> triviallyCopyable T \<or> elementData a = []
       then replicate k None else rest @ replicate (nat cap - length (elementData a)) None"])
  qed (use a cap k in \<open>auto simp: a'_def\<close>)
  moreover have "al_growable a'" if "al_growable a"
    using that cap a(2) by (auto simp: al_growable_def a'_def cap_def grown_def max_def split: if_splits)
  ultimately show thesis using that cap by (simp add: a'_def)
qed

subsection \<open>Correctness: adding\<close>

lemma al_add_rep:
  assumes rep: "al_rep a xs" and room: "al_room a (elementCount a + 1)"
  shows "\<exists>a'. al_add T e a = Inr a' \<and> al_rep a' (xs @ [e]) \<and> (al_growable a \<longrightarrow> al_growable a')"
proof -
  have n: "int32_ok (elementCount a + 1)"
    using rep room by (auto simp: al_rep_def al_room_def int32_ok_def)
  from ensureCapacity_rep [OF rep room] obtain a1 where a1: "ensureCapacity T (elementCount a + 1) True a = Inr a1"
    "al_rep a1 xs" "elementCount a + 1 \<le> elementCapacity a1" "al_growable a \<Longrightarrow> al_growable a1" by blast
  from a1(2) obtain rest where r: "elementData a1 = map Some xs @ rest"
      "elementCapacity a1 = int (length xs) + int (length rest)" "elementCount a1 = int (length xs)"
      "int (length xs) + int (length rest) < 2 ^ 31"
    by (rule al_repE)
  from a1(3) r al_rep_count [OF rep] obtain c rest' where rest: "rest = c # rest'"
    by (cases rest) auto
  let ?a = "a1\<lparr>elementData := map Some xs @ Some e # rest', elementCount := int (length xs) + 1\<rparr>"
  have "al_add T e a = Inr ?a"
    using n a1(1) r rest by (simp add: al_add_def createElementAt_def list_update_append)
  moreover have "al_rep ?a (xs @ [e])"
    using r rest by (intro al_repI [where rest = rest']) simp_all
  moreover have "al_growable a \<longrightarrow> al_growable ?a" using a1(4) by (simp add: al_growable_def)
  ultimately show ?thesis by blast
qed

lemma shift_up_loop_ok:
  "length pre = first \<Longrightarrow> length mid = n \<Longrightarrow>
   shift_up_loop (pre @ mid @ c # post) first n = pre @ (if mid = [] then c else None) # mid @ post"
proof (induction n arbitrary: mid c post)
  case 0
  then show ?case by simp
next
  case (Suc n)
  then obtain mid' m where mid: "mid = mid' @ [m]" "length mid' = n"
    by (metis append_butlast_last_id length_butlast diff_Suc_1 length_0_conv nat.distinct(1))
  have "shift_up_loop (pre @ mid' @ None # m # post) first n = pre @ None # mid' @ m # post"
    using Suc.IH [of mid' None "m # post"] Suc.prems(1) mid(2) by simp
  then show ?case
    using Suc.prems(1) mid by (simp add: nth_append list_update_append)
qed

lemma shift_up_ok:
  assumes "length pre = index" "length mid = n"
  shows "\<exists>c'. shift_up T index n (pre @ mid @ c # post) = Inr (pre @ c' # mid @ post)"
proof (cases "\<not> rawCopyAndRealloc T \<and> \<not> triviallyCopyable T")
  case True
  then show ?thesis using shift_up_loop_ok [OF assms, of c post] assms by (auto simp: shift_up_def)
next
  case False
  have "\<exists>c'. memmove_cells (pre @ mid @ c # post) (index + 1) index n = pre @ c' # mid @ post"
    using assms by (cases mid) (auto simp: memmove_cells_def)
  then show ?thesis using False assms by (auto simp: shift_up_def)
qed

lemma insertElementAt_rep:
  assumes rep: "al_rep a xs" and room: "al_room a (elementCount a + 1)" and i: "i \<le> length xs"
  shows "\<exists>a'. insertElementAt T e (int i) a = Inr a' \<and> al_rep a' (insert_at i e xs) \<and>
           (al_growable a \<longrightarrow> al_growable a')"
proof -
  have n: "int32_ok (elementCount a + 1)"
    using rep room by (auto simp: al_rep_def al_room_def int32_ok_def)
  from ensureCapacity_rep [OF rep room] obtain a1 where a1: "ensureCapacity T (elementCount a + 1) True a = Inr a1"
    "al_rep a1 xs" "elementCount a + 1 \<le> elementCapacity a1" "al_growable a \<Longrightarrow> al_growable a1" by blast
  from a1(2) obtain rest where r: "elementData a1 = map Some xs @ rest"
      "elementCapacity a1 = int (length xs) + int (length rest)" "elementCount a1 = int (length xs)"
      "int (length xs) + int (length rest) < 2 ^ 31"
    by (rule al_repE)
  from a1(3) r al_rep_count [OF rep] obtain c rest' where rest: "rest = c # rest'"
    by (cases rest) auto
  have moved: "to_int32 (elementCount a1 - int i) = int (length xs - i)"
    using i r by (simp add: to_int32_id int32_ok_def)
  have cells: "elementData a1 = map Some (take i xs) @ map Some (drop i xs) @ c # rest'"
    using r rest by (simp flip: map_append)
  obtain c' where c': "shift_up T i (length xs - i) (elementData a1)
      = Inr (map Some (take i xs) @ c' # map Some (drop i xs) @ rest')"
    using shift_up_ok [of "map Some (take i xs)" i "map Some (drop i xs)" "length xs - i" T c rest'] i
    by (auto simp: cells)
  define a2 where "a2 = (if i < length xs
      then a1\<lparr>elementData := map Some (take i xs) @ c' # map Some (drop i xs) @ rest'\<rparr> else a1)"
  have a2: "elementData a2 = map Some (take i xs) @ (if i < length xs then c' else c) # map Some (drop i xs) @ rest'"
    using cells i by (simp add: a2_def)
  let ?a = "a2\<lparr>elementData := map Some (take i xs) @ Some e # map Some (drop i xs) @ rest',
              elementCount := int (length xs) + 1\<rparr>"
  have "createElementAt e (int i) a2 = Inr (a2\<lparr>elementData := map Some (take i xs) @ Some e # map Some (drop i xs) @ rest'\<rparr>)"
    using i by (simp add: createElementAt_def a2 list_update_append)
  moreover have "elementCount a2 = int (length xs)" using r by (simp add: a2_def)
  moreover have "(if to_int32 (elementCount a1 - int i) > 0
               then rbind (shift_up T (nat (int i)) (nat (to_int32 (elementCount a1 - int i))) (elementData a1))
                      (\<lambda>cs. Inr (a1\<lparr>elementData := cs\<rparr>))
               else Inr a1) = Inr a2"
    using i c' by (simp add: moved a2_def nat_diff_distrib')
  ultimately have "insertElementAt T e (int i) a = Inr ?a"
    using n a1(1) i rep by (simp add: insertElementAt_def Let_def)
  moreover have "al_rep ?a (insert_at i e xs)"
    using r rest i by (intro al_repI [where rest = rest']) (simp_all add: insert_at_def a2_def)
  moreover have "al_growable a \<longrightarrow> al_growable ?a" using a1(4) by (simp add: al_growable_def a2_def)
  ultimately show ?thesis by blast
qed

lemma al_add_at_rep:
  assumes "al_rep a xs" "al_room a (elementCount a + 1)" "0 \<le> i" "i \<le> int (length xs)"
  shows "\<exists>a'. al_add_at T i e a = Inr a' \<and> al_rep a' (insert_at (nat i) e xs) \<and>
           (al_growable a \<longrightarrow> al_growable a')"
proof -
  have "u32 i = int (nat i)" using assms al_rep_bound [OF assms(1)] by simp
  then show ?thesis
    using insertElementAt_rep [OF assms(1,2), of "nat i" T e] assms(3,4) by (simp add: al_add_at_def)
qed

lemma al_add_at_out_of_range:
  assumes "al_rep a xs" "int32_ok i" "i < 0 \<or> i > int (length xs)"
  shows "al_add_at T i e a = Inl (ArrayIndexOutOfBoundsException i)"
proof -
  have "u32 i > int (length xs)"
  proof (cases "i < 0")
    case True
    then show ?thesis using u32_neg [of i] assms al_rep_bound [OF assms(1)] by (auto simp: int32_ok_def)
  next
    case False
    then show ?thesis using assms by (simp add: int32_ok_def)
  qed
  moreover have "to_int32 (u32 i) = i"
    using to_int32_id [OF assms(2)] by (simp add: to_int32_def u32_def)
  ultimately show ?thesis using assms(1) by (simp add: al_add_at_def insertElementAt_def)
qed

lemma al_getUnsafe_rep:
  "al_rep a xs \<Longrightarrow> i < length xs \<Longrightarrow> al_getUnsafe (int i) a = Inr (xs ! i)"
  using al_rep_bound [of a xs] by (simp add: al_getUnsafe_def elementAtUnsafe_rep)

lemma al_get_rep:
  assumes "al_rep a xs" "0 \<le> i" "i < int (length xs)"
  shows "al_get i a = Inr (xs ! nat i)"
  using assms al_rep_bound [OF assms(1)] elementAtUnsafe_rep [OF assms(1), of "nat i"]
  by (simp add: al_get_def elementAt_def nat_less_iff)

lemma al_get_out_of_range:
  assumes "al_rep a xs" "int32_ok i" "i < 0 \<or> i \<ge> int (length xs)"
  shows "al_get i a = Inl (ArrayIndexOutOfBoundsException i)"
proof -
  have "u32 i \<ge> int (length xs)"
  proof (cases "i < 0")
    case True
    then show ?thesis using u32_neg [of i] assms al_rep_bound [OF assms(1)] by (auto simp: int32_ok_def)
  next
    case False
    then show ?thesis using assms by (simp add: int32_ok_def)
  qed
  moreover have "to_int32 (u32 i) = i"
    using to_int32_id [OF assms(2)] by (simp add: to_int32_def u32_def)
  ultimately show ?thesis using assms(1) by (simp add: al_get_def elementAt_def)
qed

subsection \<open>Correctness: removing and overwriting\<close>

lemma shift_down_loop_ok:
  "length pre = dst \<Longrightarrow> dst + length hole = src \<Longrightarrow> length mid = n \<Longrightarrow> hole \<noteq> [] \<Longrightarrow>
   \<exists>tail. length tail = length hole \<and>
     shift_down_loop (pre @ hole @ mid @ post) dst src n = pre @ mid @ tail @ post"
proof (induction n arbitrary: pre hole mid dst src)
  case 0
  then show ?case by auto
next
  case (Suc n)
  then obtain m mid' h hole' where e: "mid = m # mid'" "hole = h # hole'" "length mid' = n"
    by (metis length_Suc_conv list.exhaust)
  have "(pre @ hole @ mid @ post) ! src = m"
    using Suc.prems(1,2) e by (auto simp: nth_append)
  moreover have "(pre @ hole @ mid @ post)[dst := m] = (pre @ m # hole') @ m # mid' @ post"
    using Suc.prems(1) e by (auto simp: list_update_append)
  moreover have "((pre @ m # hole') @ m # mid' @ post)[src := None] = (pre @ [m]) @ (hole' @ [None]) @ mid' @ post"
    using list_update_length [of "pre @ m # hole'" m "mid' @ post" None] Suc.prems(1,2) e by simp
  ultimately have "(pre @ hole @ mid @ post)[dst := (pre @ hole @ mid @ post) ! src, src := None]
      = (pre @ [m]) @ (hole' @ [None]) @ mid' @ post"
    by simp
  then show ?case
    using Suc.IH [of "pre @ [m]" "Suc dst" "hole' @ [None]" "Suc src" mid'] Suc.prems e
    by (auto simp: add.commute)
qed

lemma shift_down_ok:
  assumes "length pre = dst" "dst + length hole = src" "length mid = n"
    and "hole \<noteq> [] \<or> rawCopyAndRealloc T \<or> triviallyCopyable T"
  shows "\<exists>tail. length tail = length hole \<and>
    shift_down T dst src n (pre @ hole @ mid @ post) = Inr (pre @ mid @ tail @ post)"
proof (cases "\<not> rawCopyAndRealloc T \<and> \<not> triviallyCopyable T")
  case True
  then show ?thesis
    using shift_down_loop_ok [OF assms(1-3), of post] assms by (auto simp: shift_down_def)
next
  case False
  let ?all = "hole @ mid"
  have "drop n ?all @ post = drop (dst + n) (pre @ hole @ mid @ post)"
    using assms by (simp add: add.commute)
  moreover have "length (drop n ?all) = length hole" using assms by simp
  moreover have "memmove_cells (pre @ hole @ mid @ post) dst src n
      = pre @ mid @ drop n ?all @ post"
    using assms by (auto simp: memmove_cells_def)
  ultimately show ?thesis using False assms by (auto simp: shift_down_def)
qed

lemma removeElementAt_rep:
  assumes rep: "al_rep a xs" and i: "i < length xs"
  shows "\<exists>a'. removeElementAt T (int i) a = Inr a' \<and> al_rep a' (remove_at i xs)
           \<and> elementCapacity a' = elementCapacity a \<and> capacityIncrement a' = capacityIncrement a"
proof -
  from rep i obtain c rest where d:
    "destroyElementAt T (int i) a = Inr (a\<lparr>elementData := map Some (take i xs) @ c # map Some (drop (Suc i) xs) @ rest\<rparr>)"
    "elementData a = map Some xs @ rest" by (rule destroyElementAt_rep)
  have r: "elementCapacity a = int (length xs) + int (length rest)" "elementCount a = int (length xs)"
      "int (length xs) + int (length rest) < 2 ^ 31"
    using rep d(2) by (simp_all add: al_rep_def)
  define a1 where "a1 = a\<lparr>elementData := map Some (take i xs) @ c # map Some (drop (Suc i) xs) @ rest\<rparr>"
  have moved: "to_int32 (elementCount a1 - int i - 1) = int (length xs - Suc i)"
    using i r by (simp add: to_int32_id int32_ok_def a1_def)
  obtain c' where c': "shift_down T i (i + 1) (length xs - Suc i) (elementData a1)
      = Inr (map Some (take i xs) @ map Some (drop (Suc i) xs) @ c' # rest)"
    using shift_down_ok [of "map Some (take i xs)" i "[c]" "i + 1" "map Some (drop (Suc i) xs)" "length xs - Suc i" T rest] i
    by (auto simp: a1_def length_Suc_conv)
  define c'' where "c'' = (if Suc i < length xs then c' else c)"
  define a2 where "a2 = a1\<lparr>elementData := map Some (take i xs) @ map Some (drop (Suc i) xs) @ c'' # rest\<rparr>"
  have "(if to_int32 (elementCount a1 - int i - 1) > 0
        then rbind (shift_down T (nat (int i)) (nat (int i) + 1) (nat (to_int32 (elementCount a1 - int i - 1))) (elementData a1))
               (\<lambda>cs. Inr (a1\<lparr>elementData := cs\<rparr>)) else Inr a1) = Inr a2"
  proof (cases "Suc i < length xs")
    case True
    then have "0 < to_int32 (elementCount a1 - int i - 1)"
      "nat (to_int32 (elementCount a1 - int i - 1)) = length xs - Suc i"
      by (simp_all only: moved)
    then show ?thesis using True c' by (simp add: a2_def c''_def)
  next
    case False
    then have "\<not> 0 < to_int32 (elementCount a1 - int i - 1)" by (simp only: moved)
    then show ?thesis using False i by (simp add: a2_def c''_def a1_def)
  qed
  moreover have "elementCount a2 = int (length xs)" using r by (simp add: a2_def a1_def)
  ultimately have "removeElementAt T (int i) a = Inr (a2\<lparr>elementCount := int (length xs) - 1\<rparr>)"
    using d(1) i rep by (simp add: removeElementAt_def Let_def flip: a1_def)
  moreover have "al_rep (a2\<lparr>elementCount := int (length xs) - 1\<rparr>) (remove_at i xs)"
    using r i by (intro al_repI [where rest = "c'' # rest"]) (simp_all add: remove_at_def a2_def a1_def)
  ultimately show ?thesis by (auto simp: a2_def a1_def)
qed

lemma al_remove_rep:
  assumes "al_rep a xs" "0 \<le> i" "i < int (length xs)"
  shows "\<exists>a'. al_remove T i a = Inr (xs ! nat i, a') \<and> al_rep a' (remove_at (nat i) xs)
           \<and> elementCapacity a' = elementCapacity a \<and> capacityIncrement a' = capacityIncrement a"
proof -
  have "u32 i = int (nat i)" using assms al_rep_bound [OF assms(1)] by simp
  then show ?thesis
    using al_get_rep [OF assms] removeElementAt_rep [OF assms(1), of "nat i" T] assms
    by (auto simp: al_remove_def nat_less_iff)
qed

lemma al_remove_out_of_range:
  assumes "al_rep a xs" "int32_ok i" "i < 0 \<or> i \<ge> int (length xs)"
  shows "al_remove T i a = Inl (ArrayIndexOutOfBoundsException i)"
  using al_get_out_of_range [OF assms] by (simp add: al_remove_def)

lemma setElementAt_rep:
  assumes rep: "al_rep a xs" and i: "i < length xs"
  shows "\<exists>a'. setElementAt T (int i) e a = Inr a' \<and> al_rep a' (xs[i := e])
           \<and> elementCapacity a' = elementCapacity a \<and> capacityIncrement a' = capacityIncrement a"
proof -
  from rep i obtain c rest where d:
    "destroyElementAt T (int i) a = Inr (a\<lparr>elementData := map Some (take i xs) @ c # map Some (drop (Suc i) xs) @ rest\<rparr>)"
    "elementData a = map Some xs @ rest" by (rule destroyElementAt_rep)
  have upd: "xs[i := e] = take i xs @ e # drop (Suc i) xs" using i by (rule upd_conv_take_nth_drop)
  let ?a = "a\<lparr>elementData := map Some (take i xs) @ Some e # map Some (drop (Suc i) xs) @ rest\<rparr>"
  have "setElementAt T (int i) e a = Inr ?a"
    using d rep i by (simp add: setElementAt_def createElementAt_def list_update_append)
  moreover have "al_rep ?a (xs[i := e])"
    using rep d(2) i by (intro al_repI [where rest = rest]) (simp_all add: al_rep_def upd)
  ultimately show ?thesis by auto
qed

lemma al_set_rep:
  assumes "al_rep a xs" "0 \<le> i" "i < int (length xs)"
  shows "\<exists>a'. al_set T i e a = Inr (xs ! nat i, a') \<and> al_rep a' (xs[nat i := e])
           \<and> elementCapacity a' = elementCapacity a \<and> capacityIncrement a' = capacityIncrement a"
proof -
  have "u32 i = int (nat i)" using assms al_rep_bound [OF assms(1)] by simp
  then show ?thesis
    using al_get_rep [OF assms] setElementAt_rep [OF assms(1), of "nat i" T e] assms
    by (auto simp: al_set_def nat_less_iff)
qed

lemma al_removeRange_rep:
  assumes rep: "al_rep a xs" and ij: "0 \<le> i" "i \<le> j" "j \<le> int (length xs)"
    and ne: "i < j \<or> rawCopyAndRealloc T \<or> triviallyCopyable T"
  shows "\<exists>a'. al_removeRange T i j a = Inr a' \<and> al_rep a' (take (nat i) xs @ drop (nat j) xs)
           \<and> elementCapacity a' = elementCapacity a \<and> capacityIncrement a' = capacityIncrement a"
proof -
  from rep obtain rest where r: "elementData a = map Some xs @ rest"
      "elementCapacity a = int (length xs) + int (length rest)" "elementCount a = int (length xs)"
      "int (length xs) + int (length rest) < 2 ^ 31"
    by (rule al_repE)
  obtain hole where h: "length hole = nat (j - i)" "destroyElementRange T i j a =
       Inr (a\<lparr>elementData := map Some (take (nat i) xs) @ hole @ map Some (drop (nat j) xs) @ rest\<rparr>)"
    using destroyElementRange_ok [OF r(1) ij] by blast
  define a1 where "a1 = a\<lparr>elementData := map Some (take (nat i) xs) @ hole @ map Some (drop (nat j) xs) @ rest\<rparr>"
  have ne': "hole \<noteq> [] \<or> rawCopyAndRealloc T \<or> triviallyCopyable T" using ne h(1) by auto
  have "\<exists>tail. length tail = length hole \<and>
      shift_down T (nat i) (nat j) (length xs - nat j) (elementData a1)
      = Inr (map Some (take (nat i) xs) @ map Some (drop (nat j) xs) @ tail @ rest)"
    using shift_down_ok [of "map Some (take (nat i) xs)" "nat i" hole "nat j" "map Some (drop (nat j) xs)"
        "length xs - nat j" T rest] ne' h(1) ij by (simp add: a1_def nat_diff_distrib nat_le_iff)
  then obtain tail where t: "length tail = length hole"
    "shift_down T (nat i) (nat j) (length xs - nat j) (elementData a1)
      = Inr (map Some (take (nat i) xs) @ map Some (drop (nat j) xs) @ tail @ rest)" by blast
  define tl' where "tl' = (if j < int (length xs) then tail else hole)"
  define a2 where "a2 = a1\<lparr>elementData := map Some (take (nat i) xs) @ map Some (drop (nat j) xs) @ tl' @ rest\<rparr>"
  have "nat (int (length xs) - j) = length xs - nat j" using ij by simp
  then have "(if elementCount a1 - j > 0
        then rbind (shift_down T (nat i) (nat j) (nat (elementCount a1 - j)) (elementData a1))
               (\<lambda>cs. Inr (a1\<lparr>elementData := cs\<rparr>)) else Inr a1) = Inr a2"
    using ij r t(2) by (auto simp: a2_def a1_def tl'_def)
  moreover have "elementCount a2 = int (length xs)" using r by (simp add: a2_def a1_def)
  ultimately have "al_removeRange T i j a = Inr (a2\<lparr>elementCount := int (length xs) - (j - i)\<rparr>)"
    using h(2) ij r by (simp add: al_removeRange_def Let_def flip: a1_def)
  moreover have "al_rep (a2\<lparr>elementCount := int (length xs) - (j - i)\<rparr>) (take (nat i) xs @ drop (nat j) xs)"
    using r ij h(1) t(1)
    by (intro al_repI [where rest = "tl' @ rest"]) (auto simp: a2_def a1_def tl'_def)
  ultimately show ?thesis by (auto simp: a2_def a1_def)
qed

subsection \<open>Correctness: copying\<close>

lemma copy_loop_ok:
  assumes "i + n = length xs" "elementData a = map Some (take i xs) @ cs" "n \<le> length cs"
  shows "copy_loop (map Some xs @ rest) i n a = Inr (a\<lparr>elementData := map Some xs @ drop n cs\<rparr>)"
  using assms
proof (induction n arbitrary: i a cs)
  case 0
  then show ?case by simp
next
  case (Suc n)
  then have i: "i < length xs" by simp
  from Suc.prems obtain c cs' where cs: "cs = c # cs'" by (cases cs) auto
  let ?a = "a\<lparr>elementData := map Some (take (Suc i) xs) @ cs'\<rparr>"
  have "createElementAt (xs ! i) (int i) a = Inr ?a"
    using Suc.prems i cs by (simp add: createElementAt_def list_update_append take_Suc_conv_app_nth)
  then show ?case
    using Suc.IH [of "Suc i" ?a cs'] Suc.prems i cs by (simp add: nth_append)
qed

lemma copy_block_ok:
  assumes src: "al_rep src xs" and n: "length xs \<le> length (elementData a)"
  shows "copy_block T src a = Inr (a\<lparr>elementData := map Some xs @ drop (length xs) (elementData a)\<rparr>)"
proof -
  from src obtain rest where r: "elementData src = map Some xs @ rest" "elementCount src = int (length xs)"
    by (rule al_repE)
  show ?thesis
    using copy_loop_ok [of 0 "length xs" xs a "elementData a" rest] n
    by (simp add: copy_block_def r memcpy_into_def)
qed

lemma al_copy_rep:
  assumes "al_rep array xs"
  shows "\<exists>a'. al_copy T array = Inr a' \<and> al_rep a' xs
           \<and> elementCapacity a' = elementCapacity array \<and> capacityIncrement a' = capacityIncrement array"
proof -
  let ?a = "(al_init (elementCapacity array) (capacityIncrement array))\<lparr>elementCount := elementCount array\<rparr>"
  have cap: "elementCapacity array = int (length (elementData array))" "length xs \<le> length (elementData array)"
    "elementCount array = int (length xs)" "int (length (elementData array)) < 2 ^ 31"
    using assms by (auto simp: al_rep_def)
  have len: "elementData ?a = replicate (length (elementData array)) None" "elementCapacity ?a = elementCapacity array"
    "capacityIncrement ?a = capacityIncrement array"
    using cap(1) by (simp_all add: al_init_int)
  show ?thesis
  proof (cases "xs = []")
    case True
    then have "al_rep ?a []" using cap len by (simp add: al_rep_def)
    then show ?thesis using True cap len by (simp add: al_copy_def Let_def)
  next
    case False
    let ?a' = "?a\<lparr>elementData := map Some xs @ drop (length xs) (elementData ?a)\<rparr>"
    have "al_copy T array = Inr ?a'"
      using False cap len copy_block_ok [OF assms, of ?a T] by (simp add: al_copy_def Let_def)
    moreover have "al_rep ?a' xs"
      using cap len by (intro al_repI [where rest = "drop (length xs) (elementData ?a)"]) simp_all
    ultimately show ?thesis using len by auto
  qed
qed

lemma al_removeAll_rep:
  assumes "al_rep a xs" shows "al_removeAll T n k a = Inr (al_init n k)"
  using destroyElements_rep [OF assms, of T] by (auto simp: al_removeAll_def)

lemma al_clone_rep:
  assumes src: "al_rep this xs" and dst: "al_rep array ys"
  shows "\<exists>a'. al_clone T this array = Inr a' \<and> al_rep a' xs
           \<and> elementCapacity a' = int (length xs) \<and> capacityIncrement a' = capacityIncrement this"
proof -
  let ?n = "int (length xs)"
  let ?a = "(al_init ?n (capacityIncrement this))\<lparr>elementCount := ?n\<rparr>"
  have b: "?n < 2 ^ 31" using src by (rule al_rep_bound)
  have a: "elementData ?a = replicate (length xs) None" "elementCapacity ?a = ?n"
    "capacityIncrement ?a = capacityIncrement this"
    by (simp_all add: al_init_int)
  have c: "al_clone T this array = (if xs = [] then Inr ?a else copy_block T this ?a)"
    using al_removeAll_rep [OF dst] al_rep_count [OF src] by (simp add: al_clone_def)
  show ?thesis
  proof (cases "xs = []")
    case True
    then show ?thesis using c a by (simp add: al_rep_def)
  next
    case False
    have "copy_block T this ?a = Inr (?a\<lparr>elementData := map Some xs\<rparr>)"
      using copy_block_ok [OF src, of ?a T] a by simp
    moreover have "al_rep (?a\<lparr>elementData := map Some xs\<rparr>) xs"
      using a b by (intro al_repI [where rest = "[]"]) simp_all
    ultimately show ?thesis using c False a by auto
  qed
qed

lemma create_loop_ok:
  assumes "elementData a = map Some pre @ replicate (length v) None"
  shows "create_loop v (int (length pre)) a = Inr (a\<lparr>elementData := map Some (pre @ v)\<rparr>)"
  using assms
proof (induction v arbitrary: pre a)
  case Nil
  then show ?case by simp
next
  case (Cons x v)
  let ?a = "a\<lparr>elementData := map Some (pre @ [x]) @ replicate (length v) None\<rparr>"
  have "createElementAt x (int (length pre)) a = Inr ?a"
    using Cons.prems by (simp add: createElementAt_def list_update_append)
  then show ?case
    using Cons.IH [of ?a "pre @ [x]"] by (simp add: add.commute)
qed

lemma al_from_initializer_rep:
  assumes "int (length v) < 2 ^ 31"
  shows "\<exists>a'. al_from_initializer v = Inr a' \<and> al_rep a' v \<and> al_growable a'"
proof -
  let ?a = "(al_init (int (length v)) 5)\<lparr>elementCount := int (length v)\<rparr>"
  have a: "elementData ?a = replicate (length v) None" "elementCapacity ?a = int (length v)"
    "capacityIncrement ?a = 5"
    by (simp_all add: al_init_int)
  have "al_from_initializer v = Inr (?a\<lparr>elementData := map Some v\<rparr>)"
    using create_loop_ok [of ?a "[]" v] a by (simp add: al_from_initializer_def)
  moreover have "al_rep (?a\<lparr>elementData := map Some v\<rparr>) v"
    using a assms by (intro al_repI [where rest = "[]"]) simp_all
  ultimately show ?thesis using a by (auto simp: al_growable_def)
qed

subsection \<open>Correctness: bulk addition, search and iteration\<close>

lemma al_add_wf:
  assumes "al_wf a xs" "length xs < 2 ^ 28"
  shows "\<exists>a'. al_add T e a = Inr a' \<and> al_wf a' (xs @ [e])"
proof -
  have "al_room a (elementCount a + 1)"
    using assms by (intro al_growable_room) (auto simp: al_wf_def al_rep_def)
  then show ?thesis using al_add_rep [of a xs T e] assms by (auto simp: al_wf_def)
qed

lemma addAll_loop_ok:
  assumes "al_rep array ys" "i + n = length ys" "al_wf a (xs @ take i ys)" "length xs + length ys \<le> 2 ^ 28"
  shows "\<exists>a'. addAll_loop T array (int i) n a = Inr a' \<and> al_wf a' (xs @ ys)"
  using assms
proof (induction n arbitrary: i a)
  case 0
  then show ?case by simp
next
  case (Suc n)
  then have i: "i < length ys" by simp
  then obtain a1 where a1: "al_add T (ys ! i) a = Inr a1" "al_wf a1 ((xs @ take i ys) @ [ys ! i])"
    using al_add_wf [OF Suc.prems(3), of T "ys ! i"] Suc.prems by auto
  then have "al_wf a1 (xs @ take (Suc i) ys)" using i by (simp add: take_Suc_conv_app_nth)
  then show ?case
    using Suc.IH [of "Suc i" a1] Suc.prems al_getUnsafe_rep [OF Suc.prems(1) i] a1
    by (simp add: add.commute)
qed

lemma addAll_block_ok:
  assumes "al_rep array ys" "al_wf a xs" "length xs + length ys \<le> 2 ^ 28"
  shows "\<exists>a'. addAll_block T array a = Inr a' \<and> al_wf a' (xs @ ys)"
proof -
  from assms have rep: "al_rep a xs" and gr: "al_growable a" by (auto simp: al_wf_def)
  let ?n = "elementCount a + elementCount array"
  have n: "?n = int (length xs) + int (length ys)" using rep assms by (simp add: al_rep_count)
  have "al_room a ?n" using gr assms(3) by (intro al_growable_room) (simp_all add: n)
  from ensureCapacity_rep [OF rep this, of T thesis for thesis] obtain a1 where
    a1: "ensureCapacity T ?n True a = Inr a1" "al_rep a1 xs" "?n \<le> elementCapacity a1" "al_growable a1"
    using gr by blast
  from a1(2) obtain rest where r: "elementData a1 = map Some xs @ rest"
      "elementCapacity a1 = int (length xs) + int (length rest)" "elementCount a1 = int (length xs)"
      "int (length xs) + int (length rest) < 2 ^ 31" by (rule al_repE)
  from assms(1) obtain rest' where r': "elementData array = map Some ys @ rest'" "elementCount array = int (length ys)"
    by (rule al_repE)
  let ?a = "a1\<lparr>elementData := map Some xs @ map Some ys @ drop (length ys) rest,
               elementCount := int (length xs) + int (length ys)\<rparr>"
  have "int32_ok ?n" using n assms(3) by (simp add: int32_ok_def)
  then have "addAll_block T array a = Inr ?a"
    using a1 r r' n by (simp add: addAll_block_def memcpy_into_def)
  moreover have "al_rep ?a (xs @ ys)"
    using r a1(3) n by (intro al_repI [where rest = "drop (length ys) rest"]) simp_all
  ultimately show ?thesis using a1(4) by (auto simp: al_wf_def al_growable_def)
qed

lemma al_addAll_wf:
  assumes "al_rep array ys" "al_wf a xs" "length xs + length ys \<le> 2 ^ 28"
  shows "\<exists>a'. al_addAll T array a = Inr a' \<and> al_wf a' (xs @ ys)"
  using addAll_loop_ok [OF assms(1), of 0 "length ys" a xs T] addAll_block_ok [OF assms, of T] assms al_rep_count [OF assms(1)]
  by (simp add: al_addAll_def)

text \<open>The index of the first occurrence, or \<open>npos\<close>.\<close>

definition first_index :: "'e \<Rightarrow> 'e list \<Rightarrow> int" where
  "first_index e xs = (if e \<in> set xs then int (length (takeWhile (\<lambda>x. x \<noteq> e) xs)) else npos)"

lemma find_loop_ok:
  assumes "al_rep a xs" "i + n = length xs"
  shows "find_loop e (int i) n a =
    Inr (if e \<in> set (drop i xs) then int i + int (length (takeWhile (\<lambda>x. x \<noteq> e) (drop i xs))) else npos)"
  using assms(2)
proof (induction n arbitrary: i)
  case 0
  then show ?case by simp
next
  case (Suc n)
  then have i: "i < length xs" by simp
  have d: "drop i xs = xs ! i # drop (Suc i) xs" using i by (simp add: Cons_nth_drop_Suc)
  show ?case
    using Suc.IH [of "Suc i"] Suc.prems by (simp add: al_getUnsafe_rep [OF assms(1) i] d add.commute)
qed

lemma al_find_rep: "al_rep a xs \<Longrightarrow> al_find e a = Inr (first_index e xs)"
  using find_loop_ok [of a xs 0 "length xs" e] by (simp add: al_find_def al_rep_count first_index_def)

lemma contains_loop_ok:
  assumes "al_rep a xs" "i + n = length xs"
  shows "contains_loop e (int i) n a = Inr (e \<in> set (drop i xs))"
  using assms(2)
proof (induction n arbitrary: i)
  case 0
  then show ?case by simp
next
  case (Suc n)
  then have i: "i < length xs" by simp
  have d: "drop i xs = xs ! i # drop (Suc i) xs" using i by (simp add: Cons_nth_drop_Suc)
  show ?case
    using Suc.IH [of "Suc i"] Suc.prems by (simp add: al_getUnsafe_rep [OF assms(1) i] d add.commute)
qed

lemma al_contains_rep: "al_rep a xs \<Longrightarrow> al_contains e a = Inr (e \<in> set xs)"
  using contains_loop_ok [of a xs 0 "length xs" e] by (simp add: al_contains_def al_rep_count)

lemma removeElement_loop_ok:
  assumes "al_rep a xs" "i + n = length xs" "e \<notin> set (take i xs)"
  shows "\<exists>a'. removeElement_loop T e (int i) n a = Inr (e \<in> set xs, a') \<and> al_rep a' (remove1 e xs)"
  using assms(2,3)
proof (induction n arbitrary: i)
  case 0
  then show ?case using assms(1) by (simp add: remove1_idem)
next
  case (Suc n)
  then have i: "i < length xs" by simp
  show ?case
  proof (cases "xs ! i = e")
    case True
    have "xs = take i xs @ e # drop (Suc i) xs"
      using id_take_nth_drop [OF i] True by simp
    then have "remove1 e xs = remove_at i xs"
      using Suc.prems(2) by (metis remove1_append remove1.simps(2) remove_at_def)
    then show ?thesis
      using removeElementAt_rep [OF assms(1) i, of T] True i al_rep_bound [OF assms(1)]
      by (auto simp: elementAtUnsafe_rep [OF assms(1) i])
  next
    case False
    then have "e \<notin> set (take (Suc i) xs)"
      using Suc.prems(2) i by (simp add: take_Suc_conv_app_nth)
    then show ?thesis
      using Suc.IH [of "Suc i"] Suc.prems False by (simp add: elementAtUnsafe_rep [OF assms(1) i] add.commute)
  qed
qed

lemma al_removeElement_rep:
  "al_rep a xs \<Longrightarrow> \<exists>a'. al_removeElement T e a = Inr (e \<in> set xs, a') \<and> al_rep a' (remove1 e xs)"
  using removeElement_loop_ok [of a xs 0 "length xs" e T] by (simp add: al_removeElement_def al_rep_count)

lemma forEach_loop_ok:
  assumes "al_rep a xs" "i + n \<le> length xs"
  shows "\<exists>a'. forEach_loop f (int i) n a = Inr a' \<and>
    al_rep a' (take i xs @ map f (take n (drop i xs)) @ drop (i + n) xs)"
  using assms
proof (induction n arbitrary: i a xs)
  case 0
  then show ?case by simp
next
  case (Suc n)
  then have i: "i < length xs" by simp
  let ?a = "a\<lparr>elementData := (elementData a)[i := Some (f (xs ! i))]\<rparr>"
  have rep: "al_rep ?a (xs[i := f (xs ! i)])"
    using Suc.prems(1) by (simp add: al_rep_def take_update_swap map_update)
  have "take (Suc i) (xs[i := f (xs ! i)]) = take i xs @ [f (xs ! i)]"
    using i by (simp add: take_Suc_conv_app_nth)
  moreover have "drop (Suc i) (xs[i := f (xs ! i)]) = drop (Suc i) xs" by simp
  moreover have "drop i xs = xs ! i # drop (Suc i) xs" using i by (simp add: Cons_nth_drop_Suc)
  ultimately show ?case
    using Suc.IH [OF rep, of "Suc i"] Suc.prems(2) by (simp add: al_getUnsafe_rep [OF Suc.prems(1) i] add.commute)
qed

subsection \<open>The contract the containers on top rely on\<close>

text \<open>
  What \<open>ArrayQueue\<close>, \<open>SortedVector\<close> and \<open>VectorMap\<close> use of their base class: positional
  insertion, removal, reading and overwriting of a represented list, with the exception
  for an index out of range. \<open>cap\<close> is the number of elements up to which insertion is
  promised to work.
\<close>

locale list_store =
  fixes wf :: "'s \<Rightarrow> 'e list \<Rightarrow> bool"
    and put_at :: "int \<Rightarrow> 'e \<Rightarrow> 's \<Rightarrow> 's res"
    and take_at :: "int \<Rightarrow> 's \<Rightarrow> ('e \<times> 's) res"
    and read_at :: "int \<Rightarrow> 's \<Rightarrow> 'e res"
    and write_at :: "int \<Rightarrow> 'e \<Rightarrow> 's \<Rightarrow> ('e \<times> 's) res"
    and cap :: nat
  assumes wf_unique: "wf s xs \<Longrightarrow> wf s ys \<Longrightarrow> xs = ys"
    and put_at_ok: "wf s xs \<Longrightarrow> length xs < cap \<Longrightarrow> 0 \<le> i \<Longrightarrow> i \<le> int (length xs) \<Longrightarrow>
          \<exists>s'. put_at i x s = Inr s' \<and> wf s' (insert_at (nat i) x xs)"
    and take_at_ok: "wf s xs \<Longrightarrow> 0 \<le> i \<Longrightarrow> i < int (length xs) \<Longrightarrow>
          \<exists>s'. take_at i s = Inr (xs ! nat i, s') \<and> wf s' (remove_at (nat i) xs)"
    and read_at_ok: "wf s xs \<Longrightarrow> 0 \<le> i \<Longrightarrow> i < int (length xs) \<Longrightarrow> read_at i s = Inr (xs ! nat i)"
    and write_at_ok: "wf s xs \<Longrightarrow> 0 \<le> i \<Longrightarrow> i < int (length xs) \<Longrightarrow>
          \<exists>s'. write_at i x s = Inr (xs ! nat i, s') \<and> wf s' (xs[nat i := x])"
    and take_at_err: "wf s xs \<Longrightarrow> int32_ok i \<Longrightarrow> i < 0 \<or> i \<ge> int (length xs) \<Longrightarrow>
          take_at i s = Inl (ArrayIndexOutOfBoundsException i)"
begin

lemma put_take:
  assumes "wf s xs" "length xs < cap" "0 \<le> i" "i \<le> int (length xs)"
  shows "\<exists>s' s''. put_at i x s = Inr s' \<and> take_at i s' = Inr (x, s'') \<and> wf s'' xs"
proof -
  obtain s' where s': "put_at i x s = Inr s'" "wf s' (insert_at (nat i) x xs)"
    using put_at_ok [OF assms] by blast
  have n: "nat i \<le> length xs" using assms by simp
  obtain s'' where "take_at i s' = Inr (insert_at (nat i) x xs ! nat i, s'')"
      "wf s'' (remove_at (nat i) (insert_at (nat i) x xs))"
    using take_at_ok [OF s'(2), of i] assms by auto
  then show ?thesis using s'(1) n by (auto simp: nth_insert_at_self remove_insert_at)
qed

lemma take_first:
  assumes "wf s (x # xs)"
  shows "\<exists>s'. take_at 0 s = Inr (x, s') \<and> wf s' xs"
  using take_at_ok [OF assms, of 0] by auto

lemma take_empty: "wf s [] \<Longrightarrow> take_at 0 s = Inl (ArrayIndexOutOfBoundsException 0)"
  by (rule take_at_err) (simp_all add: int32_ok_def)

end

lemma al_wf_remove:
  "al_wf a xs \<Longrightarrow> 0 \<le> i \<Longrightarrow> i < int (length xs) \<Longrightarrow>
   \<exists>a'. al_remove T i a = Inr (xs ! nat i, a') \<and> al_wf a' (remove_at (nat i) xs)"
  using al_remove_rep [of a xs i T] by (auto simp: al_wf_def al_growable_def)

lemma al_wf_set:
  "al_wf a xs \<Longrightarrow> 0 \<le> i \<Longrightarrow> i < int (length xs) \<Longrightarrow>
   \<exists>a'. al_set T i e a = Inr (xs ! nat i, a') \<and> al_wf a' (xs[nat i := e])"
  using al_set_rep [of a xs i T e] by (auto simp: al_wf_def al_growable_def)

lemma al_wf_add_at:
  assumes "al_wf a xs" "length xs < 2 ^ 28" "0 \<le> i" "i \<le> int (length xs)"
  shows "\<exists>a'. al_add_at T i e a = Inr a' \<and> al_wf a' (insert_at (nat i) e xs)"
proof -
  have "al_room a (elementCount a + 1)"
    using assms by (intro al_growable_room) (auto simp: al_wf_def al_rep_def)
  then show ?thesis using al_add_at_rep [of a xs i T e] assms by (auto simp: al_wf_def)
qed

interpretation al: list_store al_wf "al_add_at T" "al_remove T" al_get "al_set T" "2 ^ 28" for T
proof
qed (simp_all add: al_wf_add_at al_wf_remove al_wf_set,
     auto simp: al_wf_def al_get_rep al_remove_out_of_range dest: al_rep_unique)

subsection \<open>Properties\<close>

text \<open>
  C29. Positional insertion, \<open>add(index, element)\<close>: on a well-formed array below \<open>2 ^ 28\<close>
  elements it succeeds (no undefined behaviour) exactly for the indices from 0 to the
  size, puts the element there, keeps all others in order and keeps the invariant;
  every other index raises \<open>ArrayIndexOutOfBoundsException\<close>. This holds for every
  combination of element traits: the element-wise move loop and the \<open>memmove\<close> agree.
\<close>

theorem add_at_correct:
  assumes "al_wf a xs" "length xs < 2 ^ 28" "int32_ok i"
  shows "if 0 \<le> i \<and> i \<le> int (length xs)
         then \<exists>a'. al_add_at T i e a = Inr a' \<and> al_wf a' (insert_at (nat i) e xs)
         else al_add_at T i e a = Inl (ArrayIndexOutOfBoundsException i)"
  using al.put_at_ok [OF assms(1,2), of i T e] al_add_at_out_of_range [of a xs i T e] assms
  by (auto simp: al_wf_def)

text \<open>
  Positional removal, \<open>remove(index)\<close>: it returns the element at the index and removes
  exactly it, or raises \<open>ArrayIndexOutOfBoundsException\<close> when the index is out of range.
\<close>

lemma remove_correct:
  assumes "al_wf a xs" "int32_ok i"
  shows "if 0 \<le> i \<and> i < int (length xs)
         then \<exists>a'. al_remove T i a = Inr (xs ! nat i, a') \<and> al_wf a' (remove_at (nat i) xs)
         else al_remove T i a = Inl (ArrayIndexOutOfBoundsException i)"
  using al.take_at_ok [OF assms(1), of i T] al.take_at_err [OF assms, of T] by auto

text \<open>
  \<open>removeRange(from, to)\<close> removes the half-open range, and raises for a negative start,
  an end past the size, and a start after the end, in this order of checks. The range has
  to be non-empty unless the elements are relocated bytewise.
\<close>

lemma removeRange_correct:
  assumes "al_wf a xs" "i < j \<or> rawCopyAndRealloc T \<or> triviallyCopyable T"
  shows "if i < 0 then al_removeRange T i j a = Inl (ArrayIndexOutOfBoundsException i)
         else if j > int (length xs) then al_removeRange T i j a = Inl (ArrayIndexOutOfBoundsException j)
         else if i > j then al_removeRange T i j a = Inl IllegalArgumentException
         else \<exists>a'. al_removeRange T i j a = Inr a' \<and> al_wf a' (take (nat i) xs @ drop (nat j) xs)"
proof -
  have rep: "al_rep a xs" using assms(1) by (simp add: al_wf_def)
  have "\<exists>a'. al_removeRange T i j a = Inr a' \<and> al_wf a' (take (nat i) xs @ drop (nat j) xs)"
    if "0 \<le> i" "i \<le> j" "j \<le> int (length xs)"
    using al_removeRange_rep [OF rep that assms(2)] assms(1) by (auto simp: al_wf_def al_growable_def)
  then show ?thesis
    using al_rep_count [OF rep] by (auto simp: al_removeRange_def)
qed

text \<open>
  \<open>removeRange(i, i)\<close>, which asks for nothing to be removed, destroys the elements after
  the index when they are moved one by one: source and destination of each move are the
  same slot, and its destructor runs last.
\<close>

lemma removeRange_empty_destroys_tail:
  "\<exists>(T :: al_traits) (a :: nat array_list) a'.
     al_wf a [10, 20] \<and> al_removeRange T 0 0 a = Inr a' \<and> elementCount a' = 2 \<and>
     al_get 0 a' = Inl Undefined \<and> al_get 1 a' = Inl Undefined"
proof -
  let ?T = "\<lparr>rawCopyAndRealloc = False, triviallyCopyable = False, needConstructor = True\<rparr>"
  let ?a = "\<lparr>elementData = [Some (10 :: nat), Some 20], elementCapacity = 2, capacityIncrement = 5, elementCount = 2\<rparr>"
  let ?a' = "?a\<lparr>elementData := [None, None]\<rparr>"
  have "al_wf ?a [10, 20]" by (simp add: al_wf_def al_rep_def al_growable_def)
  moreover have "al_removeRange ?T 0 0 ?a = Inr ?a'"
    by (simp add: al_removeRange_def destroyElementRange_def shift_down_def numeral_2_eq_2)
  moreover have "elementCount ?a' = 2" "al_get 0 ?a' = Inl Undefined" "al_get 1 ?a' = Inl Undefined"
    by (simp_all add: al_get_def elementAt_def elementAtUnsafe_def)
  ultimately show ?thesis by blast
qed

text \<open>
  Copies: the copy constructor, \<open>clone\<close> into another list and \<open>addAll\<close> reproduce the
  elements of their source for every combination of traits, with no undefined behaviour.
\<close>

lemma copies_correct:
  assumes "al_wf src xs" "al_wf dst ys" "length ys + length xs \<le> 2 ^ 28"
  shows "\<exists>c k m. al_copy T src = Inr c \<and> al_wf c xs \<and>
           al_clone T src dst = Inr k \<and> al_rep k xs \<and>
           al_addAll T src dst = Inr m \<and> al_wf m (ys @ xs)"
proof -
  have rep: "al_rep src xs" "al_rep dst ys" using assms by (simp_all add: al_wf_def)
  obtain c where "al_copy T src = Inr c" "al_wf c xs"
    using al_copy_rep [OF rep(1), of T] assms(1) by (auto simp: al_wf_def al_growable_def)
  moreover obtain k where "al_clone T src dst = Inr k" "al_rep k xs"
    using al_clone_rep [OF rep] by blast
  moreover obtain m where "al_addAll T src dst = Inr m" "al_wf m (ys @ xs)"
    using al_addAll_wf [OF rep(1) assms(2,3)] by blast
  ultimately show ?thesis by blast
qed

text \<open>
  Linear search on a well-formed array: \<open>find\<close> returns the index of the first equal
  element or \<open>npos\<close>, \<open>contains\<close> decides membership and \<open>removeElement\<close> removes the first
  occurrence, telling whether there was one.
\<close>

lemma search_correct:
  assumes "al_wf a xs"
  shows "al_find e a = Inr (first_index e xs) \<and> al_contains e a = Inr (e \<in> set xs) \<and>
    (\<exists>a'. al_removeElement T e a = Inr (e \<in> set xs, a') \<and> al_rep a' (remove1 e xs))"
  using al_find_rep al_contains_rep al_removeElement_rep assms by (fastforce simp: al_wf_def)

subsection \<open>Witnesses\<close>

definition demo_traits :: al_traits where
  "demo_traits = \<lparr>rawCopyAndRealloc = False, triviallyCopyable = False, needConstructor = True\<rparr>"

definition demo_list :: "nat array_list" where
  "demo_list = \<lparr>elementData = [Some 10, Some 20, Some 30, None], elementCapacity = 4,
                capacityIncrement = 5, elementCount = 3\<rparr>"

lemma demo_list_wf: "al_wf demo_list [10, 20, 30]"
  by (simp add: demo_list_def al_wf_def al_rep_def al_growable_def)

theorem add_at_correct_witness:
  "al_wf demo_list [10, 20, 30] \<and>
   (\<exists>a'. al_add_at demo_traits 1 99 demo_list = Inr a' \<and> al_wf a' [10, 99, 20, 30]) \<and>
   al_add_at demo_traits (-1) 99 demo_list = Inl (ArrayIndexOutOfBoundsException (-1))"
  using demo_list_wf add_at_correct [OF demo_list_wf, of 1 demo_traits 99]
    add_at_correct [OF demo_list_wf, of "-1" demo_traits 99]
  by (simp add: int32_ok_def insert_at_def)

lemma remove_correct_witness:
  "\<exists>a'. al_remove demo_traits 1 demo_list = Inr (20, a') \<and> al_wf a' [10, 30]"
  using remove_correct [OF demo_list_wf, of 1 demo_traits] by (simp add: int32_ok_def remove_at_def)

lemma removeRange_correct_witness:
  "\<exists>a'. al_removeRange demo_traits 0 2 demo_list = Inr a' \<and> al_wf a' [30]"
  using removeRange_correct [OF demo_list_wf, of 0 2 demo_traits] by simp

lemma copies_correct_witness:
  "\<exists>m. al_addAll demo_traits demo_list demo_list = Inr m \<and> al_wf m [10, 20, 30, 10, 20, 30]"
  using copies_correct [OF demo_list_wf demo_list_wf, of demo_traits] by auto

lemma search_correct_witness:
  "al_find 20 demo_list = Inr 1 \<and> al_contains 7 demo_list = Inr False"
  using search_correct [OF demo_list_wf, of 20 demo_traits] search_correct [OF demo_list_wf, of 7 demo_traits]
  by (simp add: first_index_def)

end
