(* ===== verification/ArrayQueue.thy ===== *)
theory ArrayQueue
  imports ArrayList
begin

text \<open>
  \<^verbatim>\<open>system/util/ArrayQueue.h\<close>: a first-in first-out queue on a \<open>Vector\<close>. The contract of a
  queue is the locale \<open>fifo_queue\<close>; its client lemma says that what a batch of \<open>add\<close>
  puts in, as many \<open>remove\<close> take out, in the same order.
\<close>

subsection \<open>Operations\<close>

definition aq_new :: "'e array_list" where
  "aq_new = al_new"

definition aq_copy :: "al_traits \<Rightarrow> 'e array_list \<Rightarrow> 'e array_list res" where
  "aq_copy T queue = al_copy T queue"

definition aq_add :: "al_traits \<Rightarrow> 'e \<Rightarrow> 'e array_list \<Rightarrow> 'e array_list res" where
  "aq_add T e q = al_add T e q"

definition aq_clear :: "al_traits \<Rightarrow> 'e array_list \<Rightarrow> 'e array_list res" where
  "aq_clear T q = al_removeAll T 10 5 q"

definition aq_element :: "'e array_list \<Rightarrow> 'e res" where
  "aq_element q = al_get 0 q"

definition aq_remove :: "al_traits \<Rightarrow> 'e array_list \<Rightarrow> ('e \<times> 'e array_list) res" where
  "aq_remove T q = al_remove T 0 q"

subsection \<open>The queue contract\<close>

fun add_all :: "('e \<Rightarrow> 'q \<Rightarrow> 'q res) \<Rightarrow> 'e list \<Rightarrow> 'q \<Rightarrow> 'q res" where
  "add_all enq [] q = Inr q"
| "add_all enq (x # xs) q = rbind (enq x q) (add_all enq xs)"

fun remove_n :: "('q \<Rightarrow> ('e \<times> 'q) res) \<Rightarrow> nat \<Rightarrow> 'q \<Rightarrow> ('e list \<times> 'q) res" where
  "remove_n deq 0 q = Inr ([], q)"
| "remove_n deq (Suc n) q = rbind (deq q) (\<lambda>(x, q'). rbind (remove_n deq n q') (\<lambda>(xs, q''). Inr (x # xs, q'')))"

locale fifo_queue =
  fixes wf :: "'q \<Rightarrow> 'e list \<Rightarrow> bool" and enq :: "'e \<Rightarrow> 'q \<Rightarrow> 'q res"
    and deq :: "'q \<Rightarrow> ('e \<times> 'q) res" and cap :: nat
  assumes enq_ok: "wf q xs \<Longrightarrow> length xs < cap \<Longrightarrow> \<exists>q'. enq x q = Inr q' \<and> wf q' (xs @ [x])"
    and deq_ok: "wf q (x # xs) \<Longrightarrow> \<exists>q'. deq q = Inr (x, q') \<and> wf q' xs"
begin

lemma add_all_ok:
  "wf q ys \<Longrightarrow> length ys + length xs \<le> cap \<Longrightarrow> \<exists>q'. add_all enq xs q = Inr q' \<and> wf q' (ys @ xs)"
proof (induction xs arbitrary: q ys)
  case Nil
  then show ?case by simp
next
  case (Cons x xs)
  obtain q1 where "enq x q = Inr q1" "wf q1 (ys @ [x])"
    using enq_ok [OF Cons.prems(1), of x] Cons.prems(2) by auto
  then show ?case using Cons.IH [of q1 "ys @ [x]"] Cons.prems(2) by auto
qed

lemma remove_n_ok:
  "wf q (xs @ ys) \<Longrightarrow> \<exists>q'. remove_n deq (length xs) q = Inr (xs, q') \<and> wf q' ys"
proof (induction xs arbitrary: q)
  case Nil
  then show ?case by simp
next
  case (Cons x xs)
  obtain q1 where "deq q = Inr (x, q1)" "wf q1 (xs @ ys)"
    using deq_ok [of q x "xs @ ys"] Cons.prems by auto
  then show ?case using Cons.IH [of q1] by auto
qed

lemma first_in_first_out:
  assumes "wf q ys" "length ys + length xs \<le> cap"
  shows "\<exists>q' q'' q'''. add_all enq xs q = Inr q' \<and> remove_n deq (length ys) q' = Inr (ys, q'') \<and>
    remove_n deq (length xs) q'' = Inr (xs, q''') \<and> wf q''' []"
proof -
  obtain q' where q': "add_all enq xs q = Inr q'" "wf q' (ys @ xs)" using add_all_ok [OF assms] by blast
  obtain q'' where q'': "remove_n deq (length ys) q' = Inr (ys, q'')" "wf q'' (xs @ [])"
    using remove_n_ok [OF q'(2)] by auto
  obtain q''' where "remove_n deq (length xs) q'' = Inr (xs, q''')" "wf q''' []"
    using remove_n_ok [OF q''(2)] by blast
  then show ?thesis using q' q'' by blast
qed

end

interpretation aq: fifo_queue al_wf "aq_add T" "aq_remove T" "2 ^ 28" for T
  by standard (simp_all add: aq_add_def aq_remove_def al_add_wf al.take_first)

subsection \<open>Properties\<close>

text \<open>
  The array queue is first-in first-out: after any batch of additions, removals return
  the old elements and then the batch, in order, and leave the queue empty; removing from
  an empty queue raises \<open>ArrayIndexOutOfBoundsException\<close>.
\<close>

lemma array_queue_fifo:
  assumes "al_wf q ys" "length ys + length xs \<le> 2 ^ 28"
  shows "\<exists>q' q'' q'''. add_all (aq_add T) xs q = Inr q' \<and>
    remove_n (aq_remove T) (length ys) q' = Inr (ys, q'') \<and>
    remove_n (aq_remove T) (length xs) q'' = Inr (xs, q''') \<and> al_wf q''' [] \<and>
    aq_remove T q''' = Inl (ArrayIndexOutOfBoundsException 0)"
proof -
  obtain q' q'' q''' where q: "add_all (aq_add T) xs q = Inr q'"
    "remove_n (aq_remove T) (length ys) q' = Inr (ys, q'')"
    "remove_n (aq_remove T) (length xs) q'' = Inr (xs, q''')" "al_wf q''' []"
    using aq.first_in_first_out [OF assms, of T] by blast
  moreover have "aq_remove T q''' = Inl (ArrayIndexOutOfBoundsException 0)"
    using al.take_empty [OF q(4), of T] by (simp add: aq_remove_def)
  ultimately show ?thesis by blast
qed

lemma array_queue_fifo_witness:
  "\<exists>q' q''. add_all (aq_add demo_traits) [7] demo_list = Inr q' \<and>
     remove_n (aq_remove demo_traits) 3 q' = Inr ([10, 20, 30], q'')"
  using array_queue_fifo [OF demo_list_wf, of "[7]" demo_traits]
  by (simp add: numeral_3_eq_3 del: add_all.simps remove_n.simps) blast

end
