(* ===== verification/SortedVector.thy ===== *)
theory SortedVector
  imports ArrayList
begin

text \<open>
  \<^verbatim>\<open>system/util/SortedVector.h\<close>: an \<open>ArrayList\<close> kept sorted by a virtual \<open>compare\<close>, with
  binary search for insertion, lookup and bounds, and three insert plans. \<open>compare(a, b)\<close> is
  positive when \<open>a\<close> comes before \<open>b\<close> (\<^verbatim>\<open>TypeInfoAtomicBase::compare\<close> in \<^verbatim>\<open>lang/types.h\<close>).
  The comparison is an argument of the model; its laws are the locale \<open>compare_order\<close> of the prelude.
\<close>

subsection \<open>Comparison\<close>

definition ti_compare :: "'a::linorder \<Rightarrow> 'a \<Rightarrow> int" where
  "ti_compare val1 val2 = (if val1 < val2 then 1 else if val1 > val2 then -1 else 0)"

interpretation atomic: compare_order "ti_compare :: 'a::linorder \<Rightarrow> 'a \<Rightarrow> int"
  by standard (auto simp: ti_compare_def split: if_splits)

subsection \<open>State\<close>

record 'e sorted_vector =
  elems :: "'e array_list"
  insertPlan :: int

definition ALLOW_DUPLICATE :: int where "ALLOW_DUPLICATE = 1"
definition NO_DUPLICATE :: int where "NO_DUPLICATE = 2"
definition ALLOW_OVERWRITE :: int where "ALLOW_OVERWRITE = 3"

definition sv_new :: "'e sorted_vector" where
  "sv_new = \<lparr>elems = al_new, insertPlan = ALLOW_DUPLICATE\<rparr>"

definition sv_new_size :: "int \<Rightarrow> int \<Rightarrow> 'e sorted_vector" where
  "sv_new_size initsize incr = \<lparr>elems = al_new_size initsize incr, insertPlan = ALLOW_DUPLICATE\<rparr>"

definition sv_copy :: "al_traits \<Rightarrow> 'e sorted_vector \<Rightarrow> 'e sorted_vector res" where
  "sv_copy T vector = rbind (al_copy T (elems vector)) (\<lambda>a. Inr \<lparr>elems = a, insertPlan = insertPlan vector\<rparr>)"

definition sv_assign :: "al_traits \<Rightarrow> 'e sorted_vector \<Rightarrow> 'e sorted_vector \<Rightarrow> 'e sorted_vector res" where
  "sv_assign T this vector =
     rbind (al_assign T (elems this) (elems vector)) (\<lambda>a. Inr \<lparr>elems = a, insertPlan = insertPlan vector\<rparr>)"

definition sv_setInsertPlan :: "int \<Rightarrow> 'e sorted_vector \<Rightarrow> 'e sorted_vector" where
  "sv_setInsertPlan plan v = v\<lparr>insertPlan := plan\<rparr>"

subsection \<open>Binary search\<close>

text \<open>
  \<open>m = ((uint32) l + (uint32) r) >> 1\<close>. In every call \<open>0 \<le> l\<close> and \<open>r < size\<close>; a state outside
  that range is marked \<open>Undefined\<close> so that the recursion is well-founded.
\<close>

definition midpoint :: "int \<Rightarrow> int \<Rightarrow> int" where
  "midpoint l r = ((u32 l + u32 r) mod 2 ^ 32) div 2"

lemma midpoint_bounds:
  assumes "0 \<le> l" "l \<le> r" "r < 2 ^ 31"
  shows "l \<le> midpoint l r" "midpoint l r \<le> r"
proof -
  have "midpoint l r = (l + r) div 2" using assms by (simp add: midpoint_def)
  then show "l \<le> midpoint l r" "midpoint l r \<le> r" using assms by auto
qed

datatype search = Found int | Missing int int

text \<open>The search loop shared by \<open>put\<close> and \<open>find\<close>; \<open>probe\<close> compares an element with the sought one.\<close>

function bsearch :: "('e \<Rightarrow> int) \<Rightarrow> 'e array_list \<Rightarrow> int \<Rightarrow> int \<Rightarrow> int \<Rightarrow> search res" where
  "bsearch probe a l r m =
     (if l \<le> r then
        if 0 \<le> l \<and> r < 2 ^ 31 then
          let m = midpoint l r in
          rbind (elementAtUnsafe m a) (\<lambda>obj.
            let cmp = probe obj in
            if cmp = 0 then Inr (Found m)
            else if cmp > 0 then bsearch probe a (m + 1) r m
            else bsearch probe a l (m - 1) m)
        else Inl Undefined
      else Inr (Missing r m))"
  by pat_completeness auto
termination
proof (relation "measure (\<lambda>(probe, a, l, r, m). nat (r - l + 1))", goal_cases)
  case 1
  then show ?case by simp
next
  case (2 probe a l r m x obj xa)
  then show ?case using midpoint_bounds [of l r] by simp
next
  case (3 probe a l r m x obj xa)
  then show ?case using midpoint_bounds [of l r] by simp
qed

declare bsearch.simps [simp del]

definition sv_find :: "('e \<Rightarrow> 'e \<Rightarrow> int) \<Rightarrow> 'e \<Rightarrow> 'e sorted_vector \<Rightarrow> int res" where
  "sv_find compare e v =
     (if elementCount (elems v) = 0 then Inr npos
      else rbind (bsearch (\<lambda>obj. compare obj e) (elems v) 0 (elementCount (elems v) - 1) 0)
             (\<lambda>s. case s of Found m \<Rightarrow> Inr m | Missing r m \<Rightarrow> Inr npos))"

definition sv_contains :: "('e \<Rightarrow> 'e \<Rightarrow> int) \<Rightarrow> 'e \<Rightarrow> 'e sorted_vector \<Rightarrow> bool res" where
  "sv_contains compare e v = rbind (sv_find compare e v) (\<lambda>i. Inr (i \<noteq> npos))"

definition sv_put ::
  "al_traits \<Rightarrow> ('e \<Rightarrow> 'e \<Rightarrow> int) \<Rightarrow> 'e \<Rightarrow> 'e sorted_vector \<Rightarrow> (int \<times> 'e sorted_vector) res" where
  "sv_put T compare e v =
     rbind (bsearch (\<lambda>obj. compare obj e) (elems v) 0 (elementCount (elems v) - 1) 0) (\<lambda>s.
     case s of
       Found m \<Rightarrow>
         if insertPlan v = ALLOW_DUPLICATE then
           rbind (al_add_at T (m + 1) e (elems v)) (\<lambda>a. Inr (m + 1, v\<lparr>elems := a\<rparr>))
         else if insertPlan v = ALLOW_OVERWRITE then
           rbind (al_set T m e (elems v)) (\<lambda>(_, a). Inr (m, v\<lparr>elems := a\<rparr>))
         else Inr (npos, v)
     | Missing r m \<Rightarrow>
         let m' = (if r = m then m + 1 else m) in
         rbind (al_add_at T m' e (elems v)) (\<lambda>a. Inr (m', v\<lparr>elems := a\<rparr>)))"

fun sv_put_all :: "al_traits \<Rightarrow> ('e \<Rightarrow> 'e \<Rightarrow> int) \<Rightarrow> 'e list \<Rightarrow> 'e sorted_vector \<Rightarrow> 'e sorted_vector res" where
  "sv_put_all T compare [] v = Inr v"
| "sv_put_all T compare (e # es) v = rbind (sv_put T compare e v) (\<lambda>(_, v'). sv_put_all T compare es v')"

definition sv_from_initializer :: "al_traits \<Rightarrow> ('e \<Rightarrow> 'e \<Rightarrow> int) \<Rightarrow> 'e list \<Rightarrow> 'e sorted_vector res" where
  "sv_from_initializer T compare l = sv_put_all T compare l (sv_new_size (int (length l)) 5)"

definition sv_drop ::
  "al_traits \<Rightarrow> ('e \<Rightarrow> 'e \<Rightarrow> int) \<Rightarrow> 'e \<Rightarrow> 'e sorted_vector \<Rightarrow> (bool \<times> 'e sorted_vector) res" where
  "sv_drop T compare e v =
     rbind (sv_find compare e v) (\<lambda>index.
     if index = npos then Inr (False, v)
     else rbind (al_remove T index (elems v)) (\<lambda>(_, a). Inr (True, v\<lparr>elems := a\<rparr>)))"

text \<open>
  \<open>lowerBound\<close> and \<open>upperBound\<close> have the same loop but for the test that sends the search to
  the right half (\<open>cmp > 0\<close>, respectively \<open>cmp == 0 || cmp > 0\<close>).
\<close>

function bound_loop :: "('e \<Rightarrow> bool) \<Rightarrow> 'e array_list \<Rightarrow> int \<Rightarrow> int \<Rightarrow> int res" where
  "bound_loop right a l r =
     (if l \<le> r then
        if 0 \<le> l \<and> r < 2 ^ 31 then
          let m = midpoint l r in
          rbind (elementAtUnsafe m a) (\<lambda>obj.
            if right obj then
              if r < m + 1 then Inr (if m < elementCount a - 1 then m + 1 else npos)
              else bound_loop right a (m + 1) r
            else
              if m - 1 < l then Inr m
              else bound_loop right a l (m - 1))
        else Inl Undefined
      else Inr npos)"
  by pat_completeness auto
termination
proof (relation "measure (\<lambda>(right, a, l, r). nat (r - l + 1))", goal_cases)
  case 1
  then show ?case by simp
next
  case (2 right a l r x obj)
  then show ?case using midpoint_bounds [of l r] by simp
next
  case (3 right a l r x obj)
  then show ?case using midpoint_bounds [of l r] by simp
qed

declare bound_loop.simps [simp del]

definition sv_lowerBound :: "('e \<Rightarrow> 'e \<Rightarrow> int) \<Rightarrow> 'e \<Rightarrow> 'e sorted_vector \<Rightarrow> int res" where
  "sv_lowerBound compare e v =
     (if elementCount (elems v) = 0 then Inr npos
      else bound_loop (\<lambda>obj. compare obj e > 0) (elems v) 0 (elementCount (elems v) - 1))"

definition sv_upperBound :: "('e \<Rightarrow> 'e \<Rightarrow> int) \<Rightarrow> 'e \<Rightarrow> 'e sorted_vector \<Rightarrow> int res" where
  "sv_upperBound compare e v =
     (if elementCount (elems v) = 0 then Inr npos
      else bound_loop (\<lambda>obj. compare obj e = 0 \<or> compare obj e > 0) (elems v) 0 (elementCount (elems v) - 1))"

subsection \<open>Correctness of the searches\<close>

text \<open>
  A probe is monotone on a list when it is positive on a prefix and negative on a suffix
  of it, in index form.
\<close>

definition mono_probe :: "('e \<Rightarrow> int) \<Rightarrow> 'e list \<Rightarrow> bool" where
  "mono_probe p xs \<longleftrightarrow> (\<forall>i j. i < j \<longrightarrow> j < length xs \<longrightarrow>
     (0 < p (xs ! j) \<longrightarrow> 0 < p (xs ! i)) \<and> (p (xs ! i) < 0 \<longrightarrow> p (xs ! j) < 0))"

lemma mono_probe_pos:
  "mono_probe p xs \<Longrightarrow> j < length xs \<Longrightarrow> 0 < p (xs ! j) \<Longrightarrow> i \<le> j \<Longrightarrow> 0 < p (xs ! i)"
  unfolding mono_probe_def by (metis le_neq_implies_less)

lemma mono_probe_neg:
  "mono_probe p xs \<Longrightarrow> j < length xs \<Longrightarrow> p (xs ! i) < 0 \<Longrightarrow> i \<le> j \<Longrightarrow> p (xs ! j) < 0"
  unfolding mono_probe_def by (metis le_neq_implies_less)

text \<open>What the search loop promises: a hit, or the unique position between the two sides.\<close>

fun search_ok :: "('e \<Rightarrow> int) \<Rightarrow> 'e list \<Rightarrow> search \<Rightarrow> bool" where
  "search_ok p xs (Found m) \<longleftrightarrow> 0 \<le> m \<and> m < int (length xs) \<and> p (xs ! nat m) = 0"
| "search_ok p xs (Missing r m) \<longleftrightarrow>
     (let q = (if r = m then m + 1 else m) in
      0 \<le> q \<and> q \<le> int (length xs) \<and> (\<forall>i < nat q. 0 < p (xs ! i)) \<and>
      (\<forall>i. nat q \<le> i \<longrightarrow> i < length xs \<longrightarrow> p (xs ! i) < 0))"

lemma bsearch_ok:
  assumes rep: "al_rep a xs" and mono: "mono_probe p xs"
    and "0 \<le> l" "r < int (length xs)" "l \<le> r \<or> r = l - 1 \<and> l = (if r = m then m + 1 else m)"
    and "\<forall>i < nat l. 0 < p (xs ! i)" "\<forall>i. r < int i \<longrightarrow> i < length xs \<longrightarrow> p (xs ! i) < 0"
  shows "\<exists>s. bsearch p a l r m = Inr s \<and> search_ok p xs s"
  using assms(3-)
proof (induction "nat (r - l + 1)" arbitrary: l r m rule: less_induct)
  case less
  note bound = al_rep_bound [OF rep]
  show ?case
  proof (cases "l \<le> r")
    case False
    with less.prems(3) have e: "r = l - 1" "l = (if r = m then m + 1 else m)" by blast+
    have "search_ok p xs (Missing r m)"
      unfolding search_ok.simps Let_def e(2) [symmetric]
      using less.prems(1,2,4,5) e(1) by (auto simp: nat_le_iff)
    with False show ?thesis by (simp add: bsearch.simps [of p a l r m])
  next
    case True
    define k where "k = midpoint l r"
    have k: "l \<le> k" "k \<le> r" using midpoint_bounds [of l r] True less.prems bound by (auto simp: k_def)
    have kn: "nat k < length xs" "int (nat k) = k" using k less.prems by auto
    have unfold: "bsearch p a l r m = (if p (xs ! nat k) = 0 then Inr (Found k)
        else if p (xs ! nat k) > 0 then bsearch p a (k + 1) r k else bsearch p a l (k - 1) k)"
      using True less.prems bound elementAtUnsafe_rep [OF rep kn(1)] kn(2)
      by (simp add: bsearch.simps [of p a l r m] k_def Let_def)
    consider (hit) "p (xs ! nat k) = 0" | (pos) "p (xs ! nat k) > 0" | (neg) "p (xs ! nat k) < 0"
      by linarith
    then show ?thesis
    proof cases
      case hit
      then show ?thesis using unfold k less.prems kn by simp
    next
      case pos
      have "\<forall>i < nat (k + 1). 0 < p (xs ! i)"
        using mono_probe_pos [OF mono kn(1) pos] k less.prems(1) by (auto simp: nat_add_distrib)
      then have "\<exists>s. bsearch p a (k + 1) r k = Inr s \<and> search_ok p xs s"
        using less.hyps [of r "k + 1" k] less.prems k by auto
      then show ?thesis using unfold pos by simp
    next
      case neg
      have "\<forall>i. k - 1 < int i \<longrightarrow> i < length xs \<longrightarrow> p (xs ! i) < 0"
      proof (intro allI impI)
        fix i assume "k - 1 < int i" "i < length xs"
        then have "nat k \<le> i" by linarith
        then show "p (xs ! i) < 0" using mono_probe_neg [OF mono \<open>i < length xs\<close> neg] by simp
      qed
      then have "\<exists>s. bsearch p a l (k - 1) k = Inr s \<and> search_ok p xs s"
        using less.hyps [of "k - 1" l k] less.prems k by (cases "l = k") auto
      then show ?thesis using unfold neg by simp
    qed
  qed
qed

lemma bsearch_whole:
  assumes "al_rep a xs" "mono_probe p xs"
  shows "\<exists>s. bsearch p a 0 (elementCount a - 1) 0 = Inr s \<and> search_ok p xs s"
  using bsearch_ok [OF assms, of 0 "int (length xs) - 1" 0] al_rep_count [OF assms(1)] by auto

text \<open>A search that reports a miss is right: no element matches.\<close>

lemma search_ok_Missing: "search_ok p xs (Missing r m) \<Longrightarrow> x \<in> set xs \<Longrightarrow> p x \<noteq> 0"
  unfolding in_set_conv_nth
  by (auto simp: Let_def split: if_splits) (metis less_irrefl not_le)+

text \<open>The first index on which the predicate fails, or \<open>npos\<close>.\<close>

definition first_failing :: "('e \<Rightarrow> bool) \<Rightarrow> 'e list \<Rightarrow> int" where
  "first_failing P xs =
     (let n = length (takeWhile P xs) in if n < length xs then int n else npos)"

lemma first_failing_eqI:
  assumes "n \<le> length xs" "\<forall>i < n. P (xs ! i)" "n < length xs \<Longrightarrow> \<not> P (xs ! n)"
  shows "first_failing P xs = (if n < length xs then int n else npos)"
proof -
  have "takeWhile P xs = take n xs"
  proof (cases "n < length xs")
    case True
    then show ?thesis using assms by (intro takeWhile_eq_take_P_nth) auto
  next
    case False
    then have n: "n = length xs" using assms(1) by simp
    then have "\<forall>x \<in> set xs. P x" using assms(2) by (auto simp: in_set_conv_nth)
    then have "takeWhile P xs = xs" by simp
    then show ?thesis using n by simp
  qed
  then show ?thesis using assms(1) by (simp add: first_failing_def)
qed

lemma bound_loop_ok:
  assumes rep: "al_rep a xs"
    and mono: "\<And>i j. i \<le> j \<Longrightarrow> j < length xs \<Longrightarrow> P (xs ! j) \<Longrightarrow> P (xs ! i)"
    and "0 \<le> l" "l \<le> r" "r < int (length xs)"
    and "\<forall>i < nat l. P (xs ! i)" "\<forall>i. r < int i \<longrightarrow> i < length xs \<longrightarrow> \<not> P (xs ! i)"
  shows "bound_loop P a l r = Inr (first_failing P xs)"
  using assms(3-)
proof (induction "nat (r - l + 1)" arbitrary: l r rule: less_induct)
  case less
  note bound = al_rep_bound [OF rep] and count = al_rep_count [OF rep]
  define k where "k = midpoint l r"
  have k: "l \<le> k" "k \<le> r" using midpoint_bounds [of l r] less.prems bound by (auto simp: k_def)
  have kn: "nat k < length xs" "int (nat k) = k" using k less.prems by auto
  have unfold: "bound_loop P a l r = (if P (xs ! nat k)
      then if r < k + 1 then Inr (if k < elementCount a - 1 then k + 1 else npos) else bound_loop P a (k + 1) r
      else if k - 1 < l then Inr k else bound_loop P a l (k - 1))"
    using less.prems bound elementAtUnsafe_rep [OF rep kn(1)] kn(2)
    by (simp add: bound_loop.simps [of P a l r] k_def Let_def)
  show ?case
  proof (cases "P (xs ! nat k)")
    case True
    then have below: "\<forall>i < nat (k + 1). P (xs ! i)"
      using mono [OF _ kn(1)] k less.prems(1) by (auto simp: nat_add_distrib)
    show ?thesis
    proof (cases "r < k + 1")
      case True
      then have "r = k" using k by simp
      have "first_failing P xs = (if nat (k + 1) < length xs then int (nat (k + 1)) else npos)"
        using below less.prems(5) \<open>r = k\<close> kn k less.prems(1)
        by (intro first_failing_eqI) auto
      then show ?thesis
        using unfold \<open>P (xs ! nat k)\<close> True kn k less.prems(1) count by auto
    next
      case False
      then have "bound_loop P a (k + 1) r = Inr (first_failing P xs)"
        using less.hyps [of r "k + 1"] less.prems k below by auto
      then show ?thesis using unfold \<open>P (xs ! nat k)\<close> False by simp
    qed
  next
    case False
    then have above: "\<forall>i. k - 1 < int i \<longrightarrow> i < length xs \<longrightarrow> \<not> P (xs ! i)"
      using mono [of "nat k"] by force
    show ?thesis
    proof (cases "k - 1 < l")
      case True
      then have "k = l" using k by simp
      then have "first_failing P xs = (if nat k < length xs then int (nat k) else npos)"
        using less.prems(4) False kn by (intro first_failing_eqI) auto
      then show ?thesis using unfold False True kn by simp
    next
      case False': False
      then have "bound_loop P a l (k - 1) = Inr (first_failing P xs)"
        using less.hyps [of "k - 1" l] less.prems k above by auto
      then show ?thesis using unfold False False' by simp
    qed
  qed
qed

subsection \<open>The invariant and the operations\<close>

text \<open>
  \<open>sv_wf compare v xs\<close>: the array is well formed, holds \<open>xs\<close> and is sorted. \<open>sv_unique\<close> adds
  that no two elements compare equal.
\<close>

definition sv_wf :: "('e \<Rightarrow> 'e \<Rightarrow> int) \<Rightarrow> 'e sorted_vector \<Rightarrow> 'e list \<Rightarrow> bool" where
  "sv_wf compare v xs \<longleftrightarrow> al_wf (elems v) xs \<and> sorted_wrt (\<lambda>a b. 0 \<le> compare a b) xs"

definition sv_unique :: "('e \<Rightarrow> 'e \<Rightarrow> int) \<Rightarrow> 'e list \<Rightarrow> bool" where
  "sv_unique compare xs \<longleftrightarrow> sorted_wrt (\<lambda>a b. 0 < compare a b) xs"

lemma sorted_wrt_insert_at:
  assumes "sorted_wrt R xs" "\<forall>x \<in> set (take q xs). R x e" "\<forall>x \<in> set (drop q xs). R e x"
  shows "sorted_wrt R (insert_at q e xs)"
proof -
  have "sorted_wrt R (take q xs @ drop q xs)" using assms(1) by simp
  then show ?thesis using assms(2,3) by (auto simp only: sorted_wrt_append insert_at_def sorted_wrt.simps set_simps)
qed

lemma sorted_wrt_update:
  assumes "sorted_wrt R xs" "m < length xs" "\<forall>x \<in> set (take m xs). R x e" "\<forall>x \<in> set (drop (Suc m) xs). R e x"
  shows "sorted_wrt R (xs[m := e])"
proof -
  have "sorted_wrt R (take m xs @ xs ! m # drop (Suc m) xs)"
    using assms(1,2) by (simp add: id_take_nth_drop [symmetric])
  then show ?thesis using assms(2-4) by (auto simp: sorted_wrt_append upd_conv_take_nth_drop)
qed

lemma sorted_wrt_remove_at:
  assumes "sorted_wrt R xs" shows "sorted_wrt R (remove_at m xs)"
proof (cases "m < length xs")
  case True
  then have "sorted_wrt R (take m xs @ xs ! m # drop (Suc m) xs)"
    using assms by (simp add: id_take_nth_drop [symmetric])
  then show ?thesis by (simp add: sorted_wrt_append remove_at_def)
next
  case False
  then show ?thesis using assms by (simp add: remove_at_def)
qed

lemma set_take_nth: "x \<in> set (take n xs) \<Longrightarrow> \<exists>i. i < n \<and> i < length xs \<and> x = xs ! i"
  by (metis in_set_conv_nth length_take min_less_iff_conj nth_take)

lemma set_drop_nth: "x \<in> set (drop n xs) \<Longrightarrow> \<exists>i. n \<le> i \<and> i < length xs \<and> x = xs ! i"
  by (auto simp: in_set_conv_nth) (metis add.commute le_add1 less_diff_conv)

context compare_order
begin

lemma cmp_cong_right: "cmp b c = 0 \<Longrightarrow> 0 \<le> cmp a b \<longleftrightarrow> 0 \<le> cmp a c"
  using cmp_trans [of a b c] cmp_trans [of a c b] cmp_eq_sym [of b c] by auto

lemma cmp_cong_left: "cmp b c = 0 \<Longrightarrow> 0 \<le> cmp b a \<longleftrightarrow> 0 \<le> cmp c a"
  using cmp_trans [of b c a] cmp_trans [of c b a] cmp_eq_sym [of b c] by auto

lemma cmp_strict_right: "cmp b c = 0 \<Longrightarrow> 0 < cmp a b \<longleftrightarrow> 0 < cmp a c"
  using cmp_flip [of a b] cmp_flip [of a c] cmp_cong_left [of b c a] by linarith

lemma cmp_strict_left: "cmp b c = 0 \<Longrightarrow> 0 < cmp b a \<longleftrightarrow> 0 < cmp c a"
  using cmp_flip [of b a] cmp_flip [of c a] cmp_cong_right [of b c a] by linarith

lemma sorted_probe:
  assumes "sorted_wrt (\<lambda>a b. 0 \<le> cmp a b) xs"
  shows "mono_probe (\<lambda>x. cmp x e) xs"
  unfolding mono_probe_def
  using sorted_wrt_nth_less [OF assms] cmp_before cmp_after by blast

lemma unique_sorted: "sv_unique cmp xs \<Longrightarrow> sorted_wrt (\<lambda>a b. 0 \<le> cmp a b) xs"
  using sorted_wrt_mono_rel [of xs "\<lambda>a b. 0 < cmp a b" "\<lambda>a b. 0 \<le> cmp a b"]
  by (auto simp: sv_unique_def)

lemma search_cases:
  assumes "sv_wf cmp v xs"
  obtains (hit) m where "bsearch (\<lambda>x. cmp x e) (elems v) 0 (elementCount (elems v) - 1) 0 = Inr (Found m)"
      "0 \<le> m" "m < int (length xs)" "cmp (xs ! nat m) e = 0"
  | (miss) r m q where "bsearch (\<lambda>x. cmp x e) (elems v) 0 (elementCount (elems v) - 1) 0 = Inr (Missing r m)"
      "q = (if r = m then m + 1 else m)" "0 \<le> q" "q \<le> int (length xs)"
      "\<forall>x \<in> set (take (nat q) xs). 0 < cmp x e" "\<forall>x \<in> set (drop (nat q) xs). 0 < cmp e x"
      "\<forall>x \<in> set xs. cmp x e \<noteq> 0"
proof -
  have rep: "al_rep (elems v) xs" using assms by (simp add: sv_wf_def al_wf_def)
  have mono: "mono_probe (\<lambda>x. cmp x e) xs" using assms by (intro sorted_probe) (simp add: sv_wf_def)
  from bsearch_whole [OF rep mono] obtain s where
    s: "bsearch (\<lambda>x. cmp x e) (elems v) 0 (elementCount (elems v) - 1) 0 = Inr s"
       "search_ok (\<lambda>x. cmp x e) xs s" by blast
  show thesis
  proof (cases s)
    case (Found m)
    then show thesis using s hit by auto
  next
    case (Missing r m)
    define q where "q = (if r = m then m + 1 else m)"
    have ok: "0 \<le> q" "q \<le> int (length xs)" "\<forall>i < nat q. 0 < cmp (xs ! i) e"
      "\<forall>i. nat q \<le> i \<longrightarrow> i < length xs \<longrightarrow> cmp (xs ! i) e < 0"
      using s(2) unfolding Missing search_ok.simps Let_def q_def [symmetric] by blast+
    show thesis
    proof (rule miss [OF _ q_def ok(1,2)])
      show "\<forall>x \<in> set (take (nat q) xs). 0 < cmp x e" using ok(3) set_take_nth by metis
      show "\<forall>x \<in> set (drop (nat q) xs). 0 < cmp e x" using ok(4) set_drop_nth cmp_flip by metis
      show "\<forall>x \<in> set xs. cmp x e \<noteq> 0"
        using search_ok_Missing [of "\<lambda>x. cmp x e" xs r m] s(2) Missing by simp
    qed (use s(1) Missing in simp)
  qed
qed

lemma find_ok:
  assumes "sv_wf cmp v xs"
  shows "\<exists>i. sv_find cmp e v = Inr i \<and>
    (if \<exists>x \<in> set xs. cmp x e = 0 then 0 \<le> i \<and> i < int (length xs) \<and> cmp (xs ! nat i) e = 0 else i = npos)"
proof (cases "xs = []")
  case True
  then show ?thesis using assms by (simp add: sv_find_def sv_wf_def al_wf_def al_rep_def)
next
  case False
  then have ne: "elementCount (elems v) \<noteq> 0" using assms by (simp add: sv_wf_def al_wf_def al_rep_def)
  from assms show ?thesis
  proof (cases rule: search_cases [where e = e])
    case (hit m)
    then have "xs ! nat m \<in> set xs" by (simp add: nat_less_iff)
    then show ?thesis using hit ne by (auto simp: sv_find_def)
  next
    case (miss r m q)
    then show ?thesis using ne by (auto simp: sv_find_def)
  qed
qed

lemma insert_unique_sorted:
  assumes "sorted_wrt (\<lambda>a b. 0 \<le> cmp a b) xs" "cmp (xs ! m) e = 0" "m < length xs"
  shows "sorted_wrt (\<lambda>a b. 0 \<le> cmp a b) (insert_at (Suc m) e xs)"
proof (rule sorted_wrt_insert_at [OF assms(1)])
  show "\<forall>x \<in> set (take (Suc m) xs). 0 \<le> cmp x e"
  proof
    fix x assume "x \<in> set (take (Suc m) xs)"
    then obtain i where i: "i \<le> m" "x = xs ! i" using set_take_nth by (metis less_Suc_eq_le)
    then have "0 \<le> cmp x (xs ! m)"
      using sorted_wrt_nth_less [OF assms(1), of i m] assms(3) cmp_refl by (cases "i = m") auto
    then show "0 \<le> cmp x e" using cmp_cong_right [OF assms(2)] by simp
  qed
  show "\<forall>x \<in> set (drop (Suc m) xs). 0 \<le> cmp e x"
  proof
    fix x assume "x \<in> set (drop (Suc m) xs)"
    then obtain i where i: "m < i" "i < length xs" "x = xs ! i" using set_drop_nth by (metis Suc_le_eq)
    then have "0 \<le> cmp (xs ! m) x" using sorted_wrt_nth_less [OF assms(1), of m i] by simp
    then show "0 \<le> cmp e x" using cmp_cong_left [OF assms(2)] by simp
  qed
qed

lemma update_sorted:
  assumes "sorted_wrt (\<lambda>a b. 0 \<le> cmp a b) xs" "cmp (xs ! m) e = 0" "m < length xs"
  shows "sorted_wrt (\<lambda>a b. 0 \<le> cmp a b) (xs[m := e])"
  using sorted_wrt_nth_less [OF assms(1), of _ m] sorted_wrt_nth_less [OF assms(1), of m] assms(3) cmp_cong_right [OF assms(2)] cmp_cong_left [OF assms(2)]
  by (intro sorted_wrt_update [OF assms(1,3)]) (auto dest!: set_take_nth set_drop_nth simp: Suc_le_eq)

lemma update_unique:
  assumes "sv_unique cmp xs" "cmp (xs ! m) e = 0" "m < length xs"
  shows "sv_unique cmp (xs[m := e])"
  using sorted_wrt_nth_less [OF assms(1) [unfolded sv_unique_def], of _ m]
    sorted_wrt_nth_less [OF assms(1) [unfolded sv_unique_def], of m] assms(3)
    cmp_strict_right [OF assms(2)] cmp_strict_left [OF assms(2)] unfolding sv_unique_def
  by (intro sorted_wrt_update [OF assms(1) [unfolded sv_unique_def] assms(3)])
     (auto dest!: set_take_nth set_drop_nth simp: Suc_le_eq)

text \<open>The specification of \<open>put\<close> on the represented list, one line per insert plan.\<close>

lemma put_ok:
  assumes wf: "sv_wf cmp v xs" and len: "length xs < 2 ^ 28"
  shows "\<exists>i v' xs'. sv_put T cmp e v = Inr (i, v') \<and> sv_wf cmp v' xs' \<and> insertPlan v' = insertPlan v \<and>
    (if (\<exists>x \<in> set xs. cmp x e = 0) \<and> insertPlan v \<noteq> ALLOW_DUPLICATE
     then if insertPlan v = ALLOW_OVERWRITE
          then 0 \<le> i \<and> i < int (length xs) \<and> cmp (xs ! nat i) e = 0 \<and> xs' = xs[nat i := e]
          else i = npos \<and> xs' = xs
     else 0 \<le> i \<and> i \<le> int (length xs) \<and> xs' = insert_at (nat i) e xs) \<and>
    (sv_unique cmp xs \<and> insertPlan v \<noteq> ALLOW_DUPLICATE \<longrightarrow> sv_unique cmp xs')"
  using wf
proof (cases rule: search_cases [where e = e])
  case (hit m)
  then have mem: "\<exists>x \<in> set xs. cmp x e = 0" and m: "nat m < length xs"
    by (auto simp: nat_less_iff intro!: bexI [of _ "xs ! nat m"])
  have awf: "al_wf (elems v) xs" and sorted: "sorted_wrt (\<lambda>a b. 0 \<le> cmp a b) xs"
    using wf by (simp_all add: sv_wf_def)
  consider (dup) "insertPlan v = ALLOW_DUPLICATE" | (over) "insertPlan v = ALLOW_OVERWRITE"
    | (none) "insertPlan v \<noteq> ALLOW_DUPLICATE" "insertPlan v \<noteq> ALLOW_OVERWRITE" by blast
  then show ?thesis
  proof cases
    case dup
    obtain a where a: "al_add_at T (m + 1) e (elems v) = Inr a" "al_wf a (insert_at (nat (m + 1)) e xs)"
      using al.put_at_ok [OF awf len, of "m + 1" T e] hit by auto
    have "nat (m + 1) = Suc (nat m)" using hit by simp
    then have "sv_wf cmp (v\<lparr>elems := a\<rparr>) (insert_at (nat (m + 1)) e xs)"
      using a(2) insert_unique_sorted [OF sorted hit(4) m] by (simp add: sv_wf_def)
    then show ?thesis using dup hit a(1) by (auto simp: sv_put_def)
  next
    case over
    obtain a where a: "al_set T m e (elems v) = Inr (xs ! nat m, a)" "al_wf a (xs[nat m := e])"
      using al.write_at_ok [OF awf, of m T e] hit by auto
    have "sv_wf cmp (v\<lparr>elems := a\<rparr>) (xs[nat m := e])"
      using a(2) update_sorted [OF sorted hit(4) m] by (simp add: sv_wf_def)
    moreover have "ALLOW_OVERWRITE \<noteq> ALLOW_DUPLICATE" by (simp add: ALLOW_OVERWRITE_def ALLOW_DUPLICATE_def)
    ultimately show ?thesis
      using over hit a(1) mem update_unique [OF _ hit(4) m] by (auto simp: sv_put_def)
  next
    case none
    then show ?thesis using hit mem wf by (auto simp: sv_put_def)
  qed
next
  case (miss r m q)
  have awf: "al_wf (elems v) xs" and sorted: "sorted_wrt (\<lambda>a b. 0 \<le> cmp a b) xs"
    using wf by (simp_all add: sv_wf_def)
  obtain a where a: "al_add_at T q e (elems v) = Inr a" "al_wf a (insert_at (nat q) e xs)"
    using al.put_at_ok [OF awf len miss(3,4), of T e] by auto
  have "sorted_wrt (\<lambda>a b. 0 \<le> cmp a b) (insert_at (nat q) e xs)"
    using miss(5,6) by (intro sorted_wrt_insert_at [OF sorted]) (auto simp: less_imp_le)
  then have "sv_wf cmp (v\<lparr>elems := a\<rparr>) (insert_at (nat q) e xs)"
    using a(2) by (simp add: sv_wf_def)
  moreover have "sv_unique cmp xs \<longrightarrow> sv_unique cmp (insert_at (nat q) e xs)"
    using miss(5,6) unfolding sv_unique_def by (blast intro: sorted_wrt_insert_at)
  moreover have "sv_put T cmp e v = Inr (q, v\<lparr>elems := a\<rparr>)"
    using miss(1) a(1) by (simp add: sv_put_def miss(2) [symmetric])
  ultimately show ?thesis using miss(3,4,7) by auto
qed

lemma drop_ok:
  assumes "sv_wf cmp v xs"
  shows "\<exists>v'. if \<exists>x \<in> set xs. cmp x e = 0
    then \<exists>i < length xs. cmp (xs ! i) e = 0 \<and> sv_drop T cmp e v = Inr (True, v') \<and> sv_wf cmp v' (remove_at i xs)
    else sv_drop T cmp e v = Inr (False, v)"
proof -
  from find_ok [OF assms, of e] obtain i where i: "sv_find cmp e v = Inr i"
    "if \<exists>x \<in> set xs. cmp x e = 0 then 0 \<le> i \<and> i < int (length xs) \<and> cmp (xs ! nat i) e = 0 else i = npos"
    by blast
  show ?thesis
  proof (cases "\<exists>x \<in> set xs. cmp x e = 0")
    case True
    then have ii: "0 \<le> i" "i < int (length xs)" "cmp (xs ! nat i) e = 0" using i(2) by auto
    have "al_wf (elems v) xs" using assms by (simp add: sv_wf_def)
    from al.take_at_ok [OF this ii(1,2), of T] obtain a where
      a: "al_remove T i (elems v) = Inr (xs ! nat i, a)" "al_wf a (remove_at (nat i) xs)" by blast
    have "sv_wf cmp (v\<lparr>elems := a\<rparr>) (remove_at (nat i) xs)"
      using a(2) assms sorted_wrt_remove_at by (auto simp: sv_wf_def)
    moreover have "sv_drop T cmp e v = Inr (True, v\<lparr>elems := a\<rparr>)"
      using i(1) a(1) ii(1) by (simp add: sv_drop_def npos_def)
    moreover have "nat i < length xs" using ii by (simp add: nat_less_iff)
    ultimately have "\<exists>j < length xs. cmp (xs ! j) e = 0 \<and> sv_drop T cmp e v = Inr (True, v\<lparr>elems := a\<rparr>) \<and>
        sv_wf cmp (v\<lparr>elems := a\<rparr>) (remove_at j xs)"
      using ii(3) by blast
    then show ?thesis using True by auto
  next
    case False
    then show ?thesis using i by (auto simp: sv_drop_def)
  qed
qed

lemma bounds_ok:
  assumes "sv_wf cmp v xs"
  shows "sv_lowerBound cmp e v = Inr (first_failing (\<lambda>x. 0 < cmp x e) xs)"
    and "sv_upperBound cmp e v = Inr (first_failing (\<lambda>x. 0 \<le> cmp x e) xs)"
proof -
  have rep: "al_rep (elems v) xs" and mono: "mono_probe (\<lambda>x. cmp x e) xs"
    using assms sorted_probe by (auto simp: sv_wf_def al_wf_def)
  have ge: "(\<lambda>x. cmp x e = 0 \<or> 0 < cmp x e) = (\<lambda>x. 0 \<le> cmp x e)" by (auto simp: le_less)
  have P: "0 < cmp (xs ! i) e" if "i \<le> j" "j < length xs" "0 < cmp (xs ! j) e" for i j
    using mono_probe_pos [OF mono, of j i] that by simp
  have Q: "0 \<le> cmp (xs ! i) e" if "i \<le> j" "j < length xs" "0 \<le> cmp (xs ! j) e" for i j
    using mono_probe_neg [OF mono, of j i] that by (simp add: not_less [symmetric]) blast
  show "sv_lowerBound cmp e v = Inr (first_failing (\<lambda>x. 0 < cmp x e) xs)"
    using bound_loop_ok [OF rep, of "\<lambda>x. 0 < cmp x e" 0 "int (length xs) - 1"] P al_rep_count [OF rep]
    by (cases "xs = []") (auto simp: sv_lowerBound_def first_failing_def Suc_le_eq)
  show "sv_upperBound cmp e v = Inr (first_failing (\<lambda>x. 0 \<le> cmp x e) xs)"
    using bound_loop_ok [OF rep, of "\<lambda>x. 0 \<le> cmp x e" 0 "int (length xs) - 1"] Q al_rep_count [OF rep]
    by (cases "xs = []") (auto simp: sv_upperBound_def first_failing_def Suc_le_eq ge)
qed

end

subsection \<open>Properties\<close>

text \<open>
  C7. \<open>put\<close> on a sorted vector, for every insert plan: it succeeds, keeps the vector sorted,
  and returns the index at which the element now stands. If an equal element exists,
  \<open>NO_DUPLICATE\<close> changes nothing and returns \<open>npos\<close>, \<open>ALLOW_OVERWRITE\<close> replaces exactly that
  element, and otherwise the element is inserted. Under the two plans without duplicates,
  a vector without equal elements stays without equal elements.
\<close>

theorem sorted_put_correct:
  assumes "compare_order cmp" "sv_wf cmp v xs" "length xs < 2 ^ 28"
  shows "\<exists>i v' xs'. sv_put T cmp e v = Inr (i, v') \<and> sv_wf cmp v' xs' \<and> insertPlan v' = insertPlan v \<and>
    (if (\<exists>x \<in> set xs. cmp x e = 0) \<and> insertPlan v \<noteq> ALLOW_DUPLICATE
     then if insertPlan v = ALLOW_OVERWRITE
          then 0 \<le> i \<and> i < int (length xs) \<and> cmp (xs ! nat i) e = 0 \<and> xs' = xs[nat i := e]
          else i = npos \<and> xs' = xs
     else 0 \<le> i \<and> i \<le> int (length xs) \<and> xs' = insert_at (nat i) e xs) \<and>
    (sv_unique cmp xs \<and> insertPlan v \<noteq> ALLOW_DUPLICATE \<longrightarrow> sv_unique cmp xs')"
  by (rule compare_order.put_ok [OF assms])

text \<open>
  Lookup is sound and complete: \<open>find\<close> returns an index whose element compares equal
  exactly when one exists, and \<open>npos\<close> otherwise; \<open>contains\<close> says which; \<open>drop\<close> removes one
  such element and leaves the vector untouched when there is none.
\<close>

lemma sorted_lookup_correct:
  assumes "compare_order cmp" "sv_wf cmp v xs"
  shows "\<exists>i. sv_find cmp e v = Inr i \<and> sv_contains cmp e v = Inr (\<exists>x \<in> set xs. cmp x e = 0) \<and>
    (if \<exists>x \<in> set xs. cmp x e = 0
     then 0 \<le> i \<and> i < int (length xs) \<and> cmp (xs ! nat i) e = 0 \<and>
       (\<exists>j < length xs. \<exists>v'. cmp (xs ! j) e = 0 \<and> sv_drop T cmp e v = Inr (True, v') \<and>
          sv_wf cmp v' (remove_at j xs))
     else i = npos \<and> sv_drop T cmp e v = Inr (False, v))"
  using compare_order.find_ok [OF assms, of e] compare_order.drop_ok [OF assms, of e T]
  by (auto simp: sv_contains_def npos_def split: if_splits)

text \<open>
  \<open>lowerBound\<close> returns the index of the first element that is not before the argument,
  \<open>upperBound\<close> that of the first element after it, and both \<open>npos\<close> when there is none.
\<close>

lemma sorted_bounds_correct:
  assumes "compare_order cmp" "sv_wf cmp v xs"
  shows "sv_lowerBound cmp e v = Inr (first_failing (\<lambda>x. 0 < cmp x e) xs) \<and>
         sv_upperBound cmp e v = Inr (first_failing (\<lambda>x. 0 \<le> cmp x e) xs)"
  using compare_order.bounds_ok [OF assms] by blast

lemma sv_put_all_ok:
  assumes "compare_order cmp" "sv_wf cmp v xs" "insertPlan v = ALLOW_DUPLICATE" "length xs + length es \<le> 2 ^ 28"
  shows "\<exists>v' xs'. sv_put_all T cmp es v = Inr v' \<and> sv_wf cmp v' xs' \<and> mset xs' = mset xs + mset es"
  using assms(2-)
proof (induction es arbitrary: v xs)
  case Nil
  then show ?case by auto
next
  case (Cons e es)
  obtain i v1 where v1: "sv_put T cmp e v = Inr (i, v1)" "sv_wf cmp v1 (insert_at (nat i) e xs)"
      "insertPlan v1 = ALLOW_DUPLICATE"
    using compare_order.put_ok [OF assms(1) Cons.prems(1), of T e] Cons.prems(2,3) by auto
  then obtain v' xs' where "sv_put_all T cmp es v1 = Inr v'" "sv_wf cmp v' xs'"
      "mset xs' = mset (insert_at (nat i) e xs) + mset es"
    using Cons.IH [OF v1(2,3)] Cons.prems(3) by auto
  then show ?case using v1(1) by auto
qed

text \<open>
  Building a sorted vector from an initializer list sorts it: the result is a sorted
  permutation of the list.
\<close>

lemma sorted_initializer_sorts:
  assumes "compare_order cmp" "length l \<le> 2 ^ 28"
  shows "\<exists>v xs. sv_from_initializer T cmp l = Inr v \<and> sv_wf cmp v xs \<and> mset xs = mset l"
proof -
  have "sv_wf cmp (sv_new_size (int (length l)) 5) []"
    using assms(2) by (simp add: sv_wf_def sv_new_size_def al_new_size_def al_wf_def al_rep_def al_growable_def)
  then show ?thesis
    using sv_put_all_ok [OF assms(1), of "sv_new_size (int (length l)) 5" "[]" l T] assms(2)
    by (simp add: sv_from_initializer_def sv_new_size_def)
qed

subsection \<open>Witnesses\<close>

definition demo_sorted :: "nat sorted_vector" where
  "demo_sorted = \<lparr>elems = demo_list, insertPlan = NO_DUPLICATE\<rparr>"

lemma demo_sorted_wf: "sv_wf ti_compare demo_sorted [10, 20, 30]"
  using demo_list_wf by (simp add: sv_wf_def demo_sorted_def ti_compare_def)

theorem sorted_put_correct_witness:
  "\<exists>v'. sv_put demo_traits ti_compare 20 demo_sorted = Inr (npos, v') \<and> sv_wf ti_compare v' [10, 20, 30]"
proof -
  have "\<exists>x \<in> set [10, 20, 30]. ti_compare x (20 :: nat) = 0" by (simp add: ti_compare_def)
  moreover have "insertPlan demo_sorted \<noteq> ALLOW_DUPLICATE" "insertPlan demo_sorted \<noteq> ALLOW_OVERWRITE"
    by (simp_all add: demo_sorted_def NO_DUPLICATE_def ALLOW_DUPLICATE_def ALLOW_OVERWRITE_def)
  ultimately show ?thesis
    using sorted_put_correct [OF atomic.compare_order_axioms demo_sorted_wf, of demo_traits 20] by auto
qed

lemma sorted_lookup_correct_witness:
  "\<exists>i. sv_find ti_compare 25 demo_sorted = Inr i \<and> i = npos \<and> sv_contains ti_compare 25 demo_sorted = Inr False"
  using sorted_lookup_correct [OF atomic.compare_order_axioms demo_sorted_wf, of 25 demo_traits]
  by (simp add: ti_compare_def)

lemma sorted_bounds_correct_witness:
  "sv_lowerBound ti_compare 20 demo_sorted = Inr 1 \<and> sv_upperBound ti_compare 20 demo_sorted = Inr 2"
  using sorted_bounds_correct [OF atomic.compare_order_axioms demo_sorted_wf, of 20]
  by (simp add: first_failing_def ti_compare_def)

lemma sorted_initializer_sorts_witness:
  "\<exists>v xs. sv_from_initializer demo_traits ti_compare [3, 1, 2 :: nat] = Inr v \<and> sv_wf ti_compare v xs \<and>
     mset xs = {#1, 2, 3#}"
  using sorted_initializer_sorts [OF atomic.compare_order_axioms, of "[3, 1, 2 :: nat]" demo_traits]
  by (simp add: add_mset_commute)

end
