(* ===== verification/MapStore.thy ===== *)
theory MapStore
  imports Prelude
begin

text \<open>
  The contract of the two map containers, \<open>VectorMap\<close> and \<open>HashTable\<close>: an object represents
  a finite map, \<open>put\<close> and \<open>drop\<close> update it, and a lookup of a missing key returns the
  container's null value. \<open>cap\<close> bounds the number of keys for which insertion is promised.
  The client lemma is about whole histories: any sequence of updates leaves the object
  representing the map the sequence builds.
\<close>

datatype ('k, 'v) map_cmd = Put 'k 'v | Drop 'k

fun spec_cmd :: "('k, 'v) map_cmd \<Rightarrow> ('k \<rightharpoonup> 'v) \<Rightarrow> ('k \<rightharpoonup> 'v)" where
  "spec_cmd (Put k v) m = m(k \<mapsto> v)"
| "spec_cmd (Drop k) m = m(k := None)"

definition spec_run :: "('k, 'v) map_cmd list \<Rightarrow> ('k \<rightharpoonup> 'v) \<Rightarrow> ('k \<rightharpoonup> 'v)" where
  "spec_run cs m = fold spec_cmd cs m"

fun impl_run ::
  "('k \<Rightarrow> 'v \<Rightarrow> 's \<Rightarrow> 's res) \<Rightarrow> ('k \<Rightarrow> 's \<Rightarrow> 's res) \<Rightarrow> ('k, 'v) map_cmd list \<Rightarrow> 's \<Rightarrow> 's res" where
  "impl_run put del [] s = Inr s"
| "impl_run put del (Put k v # cs) s = rbind (put k v s) (impl_run put del cs)"
| "impl_run put del (Drop k # cs) s = rbind (del k s) (impl_run put del cs)"

locale map_store =
  fixes wf :: "'s \<Rightarrow> ('k \<rightharpoonup> 'v) \<Rightarrow> bool"
    and put :: "'k \<Rightarrow> 'v \<Rightarrow> 's \<Rightarrow> 's res"
    and del :: "'k \<Rightarrow> 's \<Rightarrow> 's res"
    and get :: "'k \<Rightarrow> 's \<Rightarrow> 'v res"
    and has :: "'k \<Rightarrow> 's \<Rightarrow> bool res"
    and null :: "'s \<Rightarrow> 'v"
    and cap :: nat
  assumes wf_finite: "wf s m \<Longrightarrow> finite (dom m)"
    and put_ok: "wf s m \<Longrightarrow> card (dom m) < cap \<Longrightarrow> \<exists>s'. put k v s = Inr s' \<and> wf s' (m(k \<mapsto> v)) \<and> null s' = null s"
    and del_ok: "wf s m \<Longrightarrow> \<exists>s'. del k s = Inr s' \<and> wf s' (m(k := None)) \<and> null s' = null s"
    and get_ok: "wf s m \<Longrightarrow> get k s = Inr (case m k of Some v \<Rightarrow> v | None \<Rightarrow> null s)"
    and has_ok: "wf s m \<Longrightarrow> has k s = Inr (k \<in> dom m)"
begin

lemma put_get:
  assumes "wf s m" "card (dom m) < cap"
  shows "\<exists>s'. put k v s = Inr s' \<and> get k s' = Inr v \<and> (\<forall>k'. k' \<noteq> k \<longrightarrow> get k' s' = get k' s)"
proof -
  obtain s' where s': "put k v s = Inr s'" "wf s' (m(k \<mapsto> v))" "null s' = null s" using put_ok [OF assms] by blast
  then show ?thesis using get_ok [OF s'(2)] get_ok [OF assms(1)] by (simp split: option.split)
qed

lemma del_get:
  assumes "wf s m"
  shows "\<exists>s'. del k s = Inr s' \<and> get k s' = Inr (null s') \<and> (\<forall>k'. k' \<noteq> k \<longrightarrow> get k' s' = get k' s)"
proof -
  obtain s' where s': "del k s = Inr s'" "wf s' (m(k := None))" "null s' = null s" using del_ok [OF assms] by blast
  then show ?thesis using get_ok [OF s'(2)] get_ok [OF assms] by (simp split: option.split)
qed

lemma card_spec_cmd: "finite (dom m) \<Longrightarrow> card (dom (spec_cmd c m)) \<le> Suc (card (dom m))"
  by (cases c) (auto simp: card_insert_if intro: le_trans [OF card_Diff1_le])

lemma run_ok:
  "wf s m \<Longrightarrow> card (dom m) + length cs \<le> cap \<Longrightarrow>
   \<exists>s'. impl_run put del cs s = Inr s' \<and> wf s' (spec_run cs m) \<and> null s' = null s"
proof (induction cs arbitrary: s m)
  case Nil
  then show ?case by (simp add: spec_run_def)
next
  case (Cons c cs)
  have "card (dom m) < cap" using Cons.prems(2) by simp
  then have "\<exists>s1. impl_run put del (c # cs) s = impl_run put del cs s1 \<and> wf s1 (spec_cmd c m) \<and> null s1 = null s"
  proof (cases c)
    case (Put k v)
    with put_ok [OF Cons.prems(1) \<open>card (dom m) < cap\<close>, of k v] show ?thesis by auto
  next
    case (Drop k)
    with del_ok [OF Cons.prems(1), of k] show ?thesis by auto
  qed
  then obtain s1 where s1: "impl_run put del (c # cs) s = impl_run put del cs s1" "wf s1 (spec_cmd c m)" "null s1 = null s"
    by blast
  have "card (dom (spec_cmd c m)) + length cs \<le> cap"
    using card_spec_cmd [OF wf_finite [OF Cons.prems(1)], of c] Cons.prems(2) by simp
  then show ?case using Cons.IH [OF s1(2)] s1 by (simp add: spec_run_def)
qed

lemma run_get:
  assumes "wf s Map.empty" "length cs \<le> cap"
  shows "\<exists>s'. impl_run put del cs s = Inr s' \<and>
    (\<forall>k. has k s' = Inr (k \<in> dom (spec_run cs Map.empty)) \<and>
         get k s' = Inr (case spec_run cs Map.empty k of Some v \<Rightarrow> v | None \<Rightarrow> null s))"
proof -
  obtain s' where s': "impl_run put del cs s = Inr s'" "wf s' (spec_run cs Map.empty)" "null s' = null s"
    using run_ok [OF assms(1), of cs] assms(2) by auto
  then show ?thesis using get_ok [OF s'(2)] has_ok [OF s'(2)] by (simp split: option.split)
qed

end

end
