(* ===== verification/VectorMap.thy ===== *)
theory VectorMap
  imports SortedVector MapStore
begin

text \<open>
  \<^verbatim>\<open>system/util/VectorMap.h\<close> and \<^verbatim>\<open>system/util/VectorSet.h\<close>: a map as a sorted vector of
  key/value entries ordered by key, with the overwrite insert plan set by its
  constructors, and a value \<open>nullValue\<close> returned for missing keys. The abstraction is the
  finite map \<open>map_of\<close> of the entries; the contract of a map is the locale \<open>map_store\<close>.
\<close>

subsection \<open>State\<close>

record ('k, 'v) map_entry =
  key :: 'k
  val :: 'v

record ('k, 'v) vector_map =
  entries :: "('k, 'v) map_entry sorted_vector"
  nullValue :: 'v

definition vm_compare :: "('k \<Rightarrow> 'k \<Rightarrow> int) \<Rightarrow> ('k, 'v) map_entry \<Rightarrow> ('k, 'v) map_entry \<Rightarrow> int" where
  "vm_compare cmpK e1 e2 = cmpK (key e1) (key e2)"

definition vm_new :: "'v \<Rightarrow> ('k, 'v) vector_map" where
  "vm_new null = \<lparr>entries = sv_setInsertPlan ALLOW_OVERWRITE sv_new, nullValue = null\<rparr>"

definition vm_new_size :: "'v \<Rightarrow> int \<Rightarrow> int \<Rightarrow> ('k, 'v) vector_map" where
  "vm_new_size null initsize incr =
     \<lparr>entries = sv_setInsertPlan ALLOW_OVERWRITE (sv_new_size initsize incr), nullValue = null\<rparr>"

definition vm_copy :: "al_traits \<Rightarrow> ('k, 'v) vector_map \<Rightarrow> ('k, 'v) vector_map res" where
  "vm_copy T vector = rbind (sv_copy T (entries vector)) (\<lambda>s. Inr \<lparr>entries = s, nullValue = nullValue vector\<rparr>)"

definition vm_assign :: "al_traits \<Rightarrow> ('k, 'v) vector_map \<Rightarrow> ('k, 'v) vector_map \<Rightarrow> ('k, 'v) vector_map res" where
  "vm_assign T this vector =
     rbind (sv_assign T (entries this) (entries vector)) (\<lambda>s. Inr \<lparr>entries = s, nullValue = nullValue vector\<rparr>)"

definition vm_setNullValue :: "'v \<Rightarrow> ('k, 'v) vector_map \<Rightarrow> ('k, 'v) vector_map" where
  "vm_setNullValue null m = m\<lparr>nullValue := null\<rparr>"

subsection \<open>Operations\<close>

definition vm_put ::
  "al_traits \<Rightarrow> ('k \<Rightarrow> 'k \<Rightarrow> int) \<Rightarrow> 'k \<Rightarrow> 'v \<Rightarrow> ('k, 'v) vector_map \<Rightarrow> (int \<times> ('k, 'v) vector_map) res" where
  "vm_put T cmpK k v m =
     rbind (sv_put T (vm_compare cmpK) \<lparr>key = k, val = v\<rparr> (entries m)) (\<lambda>(res, s). Inr (res, m\<lparr>entries := s\<rparr>))"

text \<open>\<open>find\<close> has its own search loop, on the key; it is the loop of \<open>SortedVector\<close> with another probe.\<close>

definition vm_find :: "('k \<Rightarrow> 'k \<Rightarrow> int) \<Rightarrow> 'k \<Rightarrow> ('k, 'v) vector_map \<Rightarrow> int res" where
  "vm_find cmpK k m =
     (let a = elems (entries m) in
      if elementCount a = 0 then Inr npos
      else rbind (bsearch (\<lambda>obj. cmpK (key obj) k) a 0 (elementCount a - 1) 0)
             (\<lambda>s. case s of Found i \<Rightarrow> Inr i | Missing r i \<Rightarrow> Inr npos))"

definition vm_get_at :: "int \<Rightarrow> ('k, 'v) vector_map \<Rightarrow> 'v res" where
  "vm_get_at index m = rbind (al_get index (elems (entries m))) (\<lambda>entry. Inr (val entry))"

definition vm_get :: "('k \<Rightarrow> 'k \<Rightarrow> int) \<Rightarrow> 'k \<Rightarrow> ('k, 'v) vector_map \<Rightarrow> 'v res" where
  "vm_get cmpK k m =
     rbind (vm_find cmpK k m) (\<lambda>pos.
     if pos = npos then Inr (nullValue m)
     else rbind (al_getUnsafe pos (elems (entries m))) (\<lambda>entry. Inr (val entry)))"

definition vm_contains :: "('k \<Rightarrow> 'k \<Rightarrow> int) \<Rightarrow> 'k \<Rightarrow> ('k, 'v) vector_map \<Rightarrow> bool res" where
  "vm_contains cmpK k m = rbind (vm_find cmpK k m) (\<lambda>idx. Inr (idx \<noteq> npos))"

definition vm_drop ::
  "al_traits \<Rightarrow> ('k \<Rightarrow> 'k \<Rightarrow> int) \<Rightarrow> 'k \<Rightarrow> ('k, 'v) vector_map \<Rightarrow> (bool \<times> ('k, 'v) vector_map) res" where
  "vm_drop T cmpK k m =
     rbind (vm_find cmpK k m) (\<lambda>pos.
     if pos = npos then Inr (False, m)
     else rbind (al_remove T pos (elems (entries m)))
            (\<lambda>(_, a). Inr (True, m\<lparr>entries := (entries m)\<lparr>elems := a\<rparr>\<rparr>)))"

definition vs_add ::
  "al_traits \<Rightarrow> ('e \<Rightarrow> 'e \<Rightarrow> int) \<Rightarrow> 'e \<Rightarrow> ('e, 'e) vector_map \<Rightarrow> ('e, 'e) vector_map res" where
  "vs_add T cmpK e m = rbind (vm_put T cmpK e e m) (\<lambda>(_, m'). Inr m')"

subsection \<open>Abstraction\<close>

text \<open>
  The entries of a well-formed map are sorted with distinct keys and the overwrite plan is
  set. Keys that compare equal are required to be equal (\<open>strict_compare\<close>), as they are for
  the atomic types and strings the code uses.
\<close>

locale strict_compare = compare_order cmp for cmp :: "'k \<Rightarrow> 'k \<Rightarrow> int" +
  assumes cmp_eq: "cmp a b = 0 \<Longrightarrow> a = b"

definition vm_wf :: "('k \<Rightarrow> 'k \<Rightarrow> int) \<Rightarrow> ('k, 'v) vector_map \<Rightarrow> ('k, 'v) map_entry list \<Rightarrow> bool" where
  "vm_wf cmpK m es \<longleftrightarrow> al_wf (elems (entries m)) es \<and> sv_unique (vm_compare cmpK) es \<and>
     insertPlan (entries m) = ALLOW_OVERWRITE"

definition entry_map :: "('k, 'v) map_entry list \<Rightarrow> 'k \<Rightarrow> 'v option" where
  "entry_map es = map_of (map (\<lambda>e. (key e, val e)) es)"

interpretation atomic_strict: strict_compare "ti_compare :: 'a::linorder \<Rightarrow> 'a \<Rightarrow> int"
  by standard (auto simp: ti_compare_def split: if_splits)

context compare_order
begin

lemma entry_compare_order: "compare_order (vm_compare cmp)"
  by standard (auto simp: vm_compare_def cmp_flip intro: cmp_trans)

lemma unique_keys_distinct: "sv_unique (vm_compare cmp) es \<Longrightarrow> distinct (map key es)"
proof -
  assume "sv_unique (vm_compare cmp) es"
  then have s: "sorted_wrt (\<lambda>a b. 0 < cmp a b) (map key es)"
    by (simp add: sv_unique_def vm_compare_def sorted_wrt_map)
  show ?thesis
    unfolding distinct_conv_nth using sorted_wrt_nth_less [OF s] cmp_refl
    by (metis linorder_neqE_nat order_less_irrefl)
qed

end

lemma entry_map_Cons [simp]: "entry_map (e # es) = (entry_map es)(key e \<mapsto> val e)"
  by (simp add: entry_map_def)

lemma entry_map_append [simp]: "entry_map (xs @ ys) = entry_map ys ++ entry_map xs"
  by (simp add: entry_map_def)

lemma dom_entry_map [simp]: "dom (entry_map es) = key ` set es"
  unfolding entry_map_def dom_map_of_conv_image_fst by force

lemma entry_map_None: "entry_map es k = None \<longleftrightarrow> k \<notin> key ` set es"
  using dom_entry_map [of es] by (metis domIff)

lemma entry_map_split: "i < length es \<Longrightarrow>
  entry_map es = (entry_map (drop (Suc i) es))(key (es ! i) \<mapsto> val (es ! i)) ++ entry_map (take i es)"
  by (subst id_take_nth_drop [of i es]) (simp_all del: append_take_drop_id)

lemma distinct_keys_split:
  assumes "distinct (map key es)" "i < length es"
  shows "key (es ! i) \<notin> key ` set (take i es)" "key (es ! i) \<notin> key ` set (drop (Suc i) es)"
proof -
  have "distinct (map key (take i es @ es ! i # drop (Suc i) es))" using assms id_take_nth_drop [of i es] by simp
  then show "key (es ! i) \<notin> key ` set (take i es)" "key (es ! i) \<notin> key ` set (drop (Suc i) es)" by auto
qed

lemma entry_map_insert_at:
  assumes "key e \<notin> key ` set es"
  shows "entry_map (insert_at i e es) = (entry_map es)(key e \<mapsto> val e)"
proof -
  have "key e \<notin> dom (entry_map (take i es))" using assms by (auto dest: in_set_takeD)
  then have "entry_map (insert_at i e es) = (entry_map (take i es @ drop i es))(key e \<mapsto> val e)"
    unfolding insert_at_def entry_map_append entry_map_Cons by (rule map_add_upd_left)
  then show ?thesis by (simp del: entry_map_append)
qed

lemma entry_map_update:
  assumes "distinct (map key es)" "i < length es" "key e = key (es ! i)"
  shows "entry_map (es[i := e]) = (entry_map es)(key e \<mapsto> val e)"
proof -
  have "key e \<notin> dom (entry_map (take i es))" using distinct_keys_split [OF assms(1,2)] assms(3) by simp
  then show ?thesis
    unfolding entry_map_split [OF assms(2)] upd_conv_take_nth_drop [OF assms(2)]
    by (simp add: map_add_upd_left assms(3))
qed

lemma entry_map_remove_at:
  assumes "distinct (map key es)" "i < length es"
  shows "entry_map (remove_at i es) = (entry_map es)(key (es ! i) := None)"
proof -
  have "entry_map (take i es) (key (es ! i)) = None" "entry_map (drop (Suc i) es) (key (es ! i)) = None"
    using distinct_keys_split [OF assms] by (simp_all add: entry_map_None)
  then show ?thesis
    unfolding entry_map_split [OF assms(2)] by (auto simp: remove_at_def fun_eq_iff map_add_def split: option.splits)
qed

lemma entry_map_nth:
  "distinct (map key es) \<Longrightarrow> i < length es \<Longrightarrow> entry_map es (key (es ! i)) = Some (val (es ! i))"
  unfolding entry_map_def by (rule map_of_is_SomeI) (auto simp: comp_def)

subsection \<open>Refinement of the finite map\<close>

context strict_compare
begin

lemma vm_sv_wf: "vm_wf cmp m es \<Longrightarrow> sv_wf (vm_compare cmp) (entries m) es"
  using compare_order.unique_sorted [OF entry_compare_order] by (auto simp: vm_wf_def sv_wf_def)

lemma vm_distinct: "vm_wf cmp m es \<Longrightarrow> distinct (map key es)"
  using unique_keys_distinct by (auto simp: vm_wf_def)

text \<open>\<open>VectorMap::find\<close> agrees with \<open>SortedVector::find\<close> on an entry with that key.\<close>

lemma vm_find_sv: "vm_find cmp k m = sv_find (vm_compare cmp) \<lparr>key = k, val = v\<rparr> (entries m)"
  by (simp add: vm_find_def sv_find_def vm_compare_def Let_def)

lemma vm_find_ok:
  assumes "vm_wf cmp m es"
  obtains (hit) i where "vm_find cmp k m = Inr (int i)" "i < length es" "key (es ! i) = k" "entry_map es k = Some (val (es ! i))"
  | (miss) "vm_find cmp k m = Inr npos" "entry_map es k = None" "k \<notin> key ` set es"
proof -
  let ?e = "\<lparr>key = k, val = undefined\<rparr>"
  obtain i where i: "vm_find cmp k m = Inr i"
    "if \<exists>x \<in> set es. vm_compare cmp x ?e = 0 then 0 \<le> i \<and> i < int (length es) \<and> vm_compare cmp (es ! nat i) ?e = 0 else i = npos"
    using compare_order.find_ok [OF entry_compare_order vm_sv_wf [OF assms], of ?e] vm_find_sv [of k m undefined] by auto
  have eq: "vm_compare cmp x ?e = 0 \<longleftrightarrow> key x = k" for x
    using cmp_eq [of "key x" k] cmp_refl by (auto simp: vm_compare_def)
  show thesis
  proof (cases "k \<in> key ` set es")
    case True
    then have "\<exists>x \<in> set es. vm_compare cmp x ?e = 0" unfolding eq by blast
    then have b: "0 \<le> i" "i < int (length es)" "key (es ! nat i) = k" using i(2) eq by auto
    then show thesis
      using hit [of "nat i"] i(1) entry_map_nth [OF vm_distinct [OF assms], of "nat i"]
      by (auto simp: nat_less_iff)
  next
    case False
    then have "\<not> (\<exists>x \<in> set es. vm_compare cmp x ?e = 0)" unfolding eq by blast
    then show thesis using miss i False by (simp add: entry_map_None)
  qed
qed

lemma vm_put_ok:
  assumes wf: "vm_wf cmp m es" and len: "length es < 2 ^ 28"
  shows "\<exists>i m' es'. vm_put T cmp k v m = Inr (i, m') \<and> vm_wf cmp m' es' \<and>
    entry_map es' = (entry_map es)(k \<mapsto> v) \<and> nullValue m' = nullValue m \<and> i \<noteq> npos"
proof -
  let ?e = "\<lparr>key = k, val = v\<rparr>"
  have plan: "insertPlan (entries m) = ALLOW_OVERWRITE" and uniq: "sv_unique (vm_compare cmp) es"
    using wf by (simp_all add: vm_wf_def)
  have ne: "ALLOW_OVERWRITE \<noteq> ALLOW_DUPLICATE" by (simp add: ALLOW_OVERWRITE_def ALLOW_DUPLICATE_def)
  obtain i s es' where put: "sv_put T (vm_compare cmp) ?e (entries m) = Inr (i, s)"
    "sv_wf (vm_compare cmp) s es'" "insertPlan s = ALLOW_OVERWRITE" "sv_unique (vm_compare cmp) es'"
    and spec: "if \<exists>x \<in> set es. vm_compare cmp x ?e = 0
       then 0 \<le> i \<and> i < int (length es) \<and> vm_compare cmp (es ! nat i) ?e = 0 \<and> es' = es[nat i := ?e]
       else 0 \<le> i \<and> i \<le> int (length es) \<and> es' = insert_at (nat i) ?e es"
    using compare_order.put_ok [OF entry_compare_order vm_sv_wf [OF wf] len, of T ?e] plan uniq ne by auto
  have wf': "vm_wf cmp (m\<lparr>entries := s\<rparr>) es'" using put by (simp add: vm_wf_def sv_wf_def)
  have eq: "vm_compare cmp x ?e = 0 \<longleftrightarrow> key x = k" for x
    using cmp_eq [of "key x" k] cmp_refl by (auto simp: vm_compare_def)
  have "entry_map es' = (entry_map es)(k \<mapsto> v) \<and> 0 \<le> i"
  proof (cases "\<exists>x \<in> set es. vm_compare cmp x ?e = 0")
    case True
    then have "0 \<le> i" "nat i < length es" "key (es ! nat i) = k" "es' = es[nat i := ?e]"
      using spec eq by (auto simp: nat_less_iff)
    then show ?thesis using entry_map_update [OF vm_distinct [OF wf], of "nat i" ?e] by simp
  next
    case False
    then have "k \<notin> key ` set es" using eq by blast
    then show ?thesis using spec False entry_map_insert_at [of ?e es "nat i"] by simp
  qed
  then show ?thesis using put(1) wf' by (auto simp: vm_put_def npos_def)
qed

lemma vm_drop_ok:
  assumes wf: "vm_wf cmp m es"
  shows "\<exists>m' es'. vm_drop T cmp k m = Inr (k \<in> dom (entry_map es), m') \<and> vm_wf cmp m' es' \<and>
    entry_map es' = (entry_map es)(k := None) \<and> nullValue m' = nullValue m"
  using wf
proof (cases rule: vm_find_ok [where k = k])
  case (hit i)
  have "al_wf (elems (entries m)) es" using wf by (simp add: vm_wf_def)
  from al.take_at_ok [OF this, of "int i" T] hit obtain a where
    a: "al_remove T (int i) (elems (entries m)) = Inr (es ! i, a)" "al_wf a (remove_at i es)" by auto
  let ?m = "m\<lparr>entries := (entries m)\<lparr>elems := a\<rparr>\<rparr>"
  have "vm_wf cmp ?m (remove_at i es)"
    using a wf sorted_wrt_remove_at by (auto simp: vm_wf_def sv_unique_def)
  moreover have "vm_drop T cmp k m = Inr (True, ?m)" using hit a by (simp add: vm_drop_def npos_def)
  ultimately show ?thesis
    using hit entry_map_remove_at [OF vm_distinct [OF wf] hit(2)] by auto
next
  case miss
  then show ?thesis using wf by (auto simp: vm_drop_def fun_upd_idem)
qed

lemma vm_get_ok:
  assumes "vm_wf cmp m es"
  shows "vm_get cmp k m = Inr (case entry_map es k of Some v \<Rightarrow> v | None \<Rightarrow> nullValue m)"
  using assms
proof (cases rule: vm_find_ok [where k = k])
  case (hit i)
  have "al_rep (elems (entries m)) es" using assms by (simp add: vm_wf_def al_wf_def)
  then show ?thesis using hit by (simp add: vm_get_def al_getUnsafe_rep npos_def)
next
  case miss
  then show ?thesis by (simp add: vm_get_def)
qed

lemma vm_contains_ok:
  assumes "vm_wf cmp m es" shows "vm_contains cmp k m = Inr (k \<in> dom (entry_map es))"
  using assms by (cases rule: vm_find_ok [where k = k]) (auto simp: vm_contains_def npos_def)

end

text \<open>The object as a map store: updates that forget the returned index or flag.\<close>

definition vm_represents :: "('k \<Rightarrow> 'k \<Rightarrow> int) \<Rightarrow> ('k, 'v) vector_map \<Rightarrow> ('k \<rightharpoonup> 'v) \<Rightarrow> bool" where
  "vm_represents cmpK m f \<longleftrightarrow> (\<exists>es. vm_wf cmpK m es \<and> entry_map es = f)"

definition vm_store :: "al_traits \<Rightarrow> ('k \<Rightarrow> 'k \<Rightarrow> int) \<Rightarrow> 'k \<Rightarrow> 'v \<Rightarrow> ('k, 'v) vector_map \<Rightarrow> ('k, 'v) vector_map res" where
  "vm_store T cmpK k v m = rbind (vm_put T cmpK k v m) (\<lambda>(_, m'). Inr m')"

definition vm_erase :: "al_traits \<Rightarrow> ('k \<Rightarrow> 'k \<Rightarrow> int) \<Rightarrow> 'k \<Rightarrow> ('k, 'v) vector_map \<Rightarrow> ('k, 'v) vector_map res" where
  "vm_erase T cmpK k m = rbind (vm_drop T cmpK k m) (\<lambda>(_, m'). Inr m')"

sublocale strict_compare \<subseteq> vmap: map_store "vm_represents cmp" "vm_store T cmp" "vm_erase T cmp"
  "vm_get cmp" "vm_contains cmp" nullValue "2 ^ 28" for T
proof
  fix s :: "('k, 'v) vector_map" and m k v
  assume "vm_represents cmp s m"
  then obtain es where es: "vm_wf cmp s es" "entry_map es = m" by (auto simp: vm_represents_def)
  show "finite (dom m)" using es(2) by (auto simp: dom_entry_map)
  show "\<exists>s'. vm_erase T cmp k s = Inr s' \<and> vm_represents cmp s' (m(k := None)) \<and> nullValue s' = nullValue s"
    using vm_drop_ok [OF es(1), of T k] es(2) by (force simp: vm_erase_def vm_represents_def)
  show "vm_get cmp k s = Inr (case m k of Some v \<Rightarrow> v | None \<Rightarrow> nullValue s)"
    using vm_get_ok [OF es(1), of k] es(2) by simp
  show "vm_contains cmp k s = Inr (k \<in> dom m)" using vm_contains_ok [OF es(1), of k] es(2) by simp
  assume "card (dom m) < 2 ^ 28"
  then have "length es < 2 ^ 28"
    using es dom_entry_map [of es] distinct_card [OF vm_distinct [OF es(1)]] by simp
  then show "\<exists>s'. vm_store T cmp k v s = Inr s' \<and> vm_represents cmp s' (m(k \<mapsto> v)) \<and> nullValue s' = nullValue s"
    using vm_put_ok [OF es(1), of T k v] es(2) by (force simp: vm_store_def vm_represents_def)
qed

context strict_compare
begin

lemma vm_new_represents: "vm_represents cmp (vm_new null) Map.empty"
  by (auto simp: vm_represents_def vm_wf_def vm_new_def sv_new_def sv_setInsertPlan_def al_new_def al_wf_def
      al_rep_def al_growable_def sv_unique_def entry_map_def intro!: exI [of _ "[]"])

lemma nullValue_vm_new [simp]: "nullValue (vm_new null) = null"
  by (simp add: vm_new_def)

lemmas vm_history = vmap.run_get [OF vm_new_represents, unfolded nullValue_vm_new]

end

subsection \<open>Properties\<close>

text \<open>
  C8. A vector map implements a finite map: after any history of \<open>put\<close> and \<open>drop\<close> on a fresh
  map, \<open>contains\<close> and \<open>get\<close> answer as the map built by that history does, with the null
  value for missing keys, and no step raises or has undefined behaviour. The comparison of
  the keys is any antisymmetric total preorder whose equality is equality of keys.
\<close>

theorem vector_map_refines_map:
  assumes "strict_compare cmp" "length cs \<le> 2 ^ 28"
  shows "\<exists>m. impl_run (vm_store T cmp) (vm_erase T cmp) cs (vm_new null) = Inr m \<and>
    (\<forall>k. vm_contains cmp k m = Inr (k \<in> dom (spec_run cs Map.empty)) \<and>
         vm_get cmp k m = Inr (case spec_run cs Map.empty k of Some v \<Rightarrow> v | None \<Rightarrow> null))"
  by (rule strict_compare.vm_history [OF assms])

lemma vector_map_refines_map_witness:
  "\<exists>m. impl_run (vm_store demo_traits ti_compare) (vm_erase demo_traits ti_compare)
      [Put (3::int) ''c'', Put 1 ''a'', Put 3 ''d'', Drop 1] (vm_new ''none'') = Inr m \<and>
    vm_get ti_compare 3 m = Inr ''d'' \<and> vm_get ti_compare 1 m = Inr ''none'' \<and> vm_contains ti_compare 1 m = Inr False"
proof -
  let ?cs = "[Put (3::int) ''c'', Put 1 ''a'', Put 3 ''d'', Drop 1]"
  have s: "spec_run ?cs Map.empty = [3 \<mapsto> ''d'']"
    by (auto simp: spec_run_def fun_eq_iff)
  have "strict_compare (ti_compare :: int \<Rightarrow> int \<Rightarrow> int)" by (rule atomic_strict.strict_compare_axioms)
  from vector_map_refines_map [OF this, of ?cs demo_traits "''none''"] show ?thesis
    unfolding s by auto
qed

end
