(* ===== verification/HashTable.thy ===== *)
theory HashTable
  imports MapStore
begin

text \<open>
  \<^verbatim>\<open>system/util/HashTable.h\<close> and \<^verbatim>\<open>system/util/HashSet.h\<close>: a chained hash table. A bucket (the
  \<open>next\<close> chain hanging off a slot of \<open>table\<close>) is a list of entries; a null \<open>table\<close> is \<open>None\<close>.
  The virtual \<open>hash\<close> is an argument. The field \<open>loadFactor\<close> holds the function
  \<open>c \<mapsto> (int) (c * loadFactor)\<close>, the only way the float is used; what the code needs of it
  (that a table at its threshold is not nearly empty) is the locale \<open>load_factor\<close>.
  \<open>modCount\<close> is never read and its increment is taken to wrap.
\<close>

subsection \<open>State\<close>

record ('k, 'v) hentry =
  ehash :: int
  ekey :: 'k
  evalue :: 'v

record ('k, 'v) hash_table =
  table :: "('k, 'v) hentry list list option"
  tableLength :: int
  count :: int
  initialCapacity :: int
  threshold :: int
  loadFactor :: "int \<Rightarrow> int"
  modCount :: int
  nullVal :: 'v

definition ht_init :: "'v \<Rightarrow> int \<Rightarrow> (int \<Rightarrow> int) \<Rightarrow> ('k, 'v) hash_table" where
  "ht_init null cap lf =
     \<lparr>table = (if cap = 0 then None else Some (replicate (nat cap) [])), tableLength = cap, count = 0,
      initialCapacity = cap, threshold = lf cap, loadFactor = lf, modCount = 0, nullVal = null\<rparr>"

definition ht_setNullValue :: "'v \<Rightarrow> ('k, 'v) hash_table \<Rightarrow> ('k, 'v) hash_table" where
  "ht_setNullValue v t = t\<lparr>nullVal := v\<rparr>"

definition ht_size :: "('k, 'v) hash_table \<Rightarrow> int" where
  "ht_size t = count t"

definition ht_isEmpty :: "('k, 'v) hash_table \<Rightarrow> bool" where
  "ht_isEmpty t \<longleftrightarrow> count t = 0"

subsection \<open>Buckets\<close>

text \<open>\<open>(hashCode & 0x7FFFFFFF) % tableLength\<close>, and the access \<open>table[index]\<close>.\<close>

definition ht_index :: "int \<Rightarrow> int \<Rightarrow> int res" where
  "ht_index h len = (if 0 < len then Inr ((h mod 2 ^ 31) mod len) else Inl Undefined)"

definition ht_bucket :: "int \<Rightarrow> ('k, 'v) hash_table \<Rightarrow> ('k, 'v) hentry list res" where
  "ht_bucket i t =
     (case table t of None \<Rightarrow> Inl Undefined
      | Some bs \<Rightarrow> if 0 \<le> i \<and> i < int (length bs) then Inr (bs ! nat i) else Inl Undefined)"

definition ht_set_bucket :: "int \<Rightarrow> ('k, 'v) hentry list \<Rightarrow> ('k, 'v) hash_table \<Rightarrow> ('k, 'v) hash_table res" where
  "ht_set_bucket i c t =
     (case table t of None \<Rightarrow> Inl Undefined
      | Some bs \<Rightarrow> if 0 \<le> i \<and> i < int (length bs) then Inr (t\<lparr>table := Some (bs[nat i := c])\<rparr>) else Inl Undefined)"

text \<open>The three loops over a chain: look an entry up, overwrite its value, unlink it.\<close>

fun chain_find :: "int \<Rightarrow> 'k \<Rightarrow> ('k, 'v) hentry list \<Rightarrow> ('k, 'v) hentry option" where
  "chain_find h k [] = None"
| "chain_find h k (e # c) = (if ehash e = h \<and> ekey e = k then Some e else chain_find h k c)"

fun chain_update :: "int \<Rightarrow> 'k \<Rightarrow> 'v \<Rightarrow> ('k, 'v) hentry list \<Rightarrow> ('v \<times> ('k, 'v) hentry list) option" where
  "chain_update h k v [] = None"
| "chain_update h k v (e # c) =
     (if ehash e = h \<and> ekey e = k then Some (evalue e, e\<lparr>evalue := v\<rparr> # c)
      else case chain_update h k v c of None \<Rightarrow> None | Some (old, c') \<Rightarrow> Some (old, e # c'))"

fun chain_remove :: "int \<Rightarrow> 'k \<Rightarrow> ('k, 'v) hentry list \<Rightarrow> ('v \<times> ('k, 'v) hentry list) option" where
  "chain_remove h k [] = None"
| "chain_remove h k (e # c) =
     (if ehash e = h \<and> ekey e = k then Some (evalue e, c)
      else case chain_remove h k c of None \<Rightarrow> None | Some (old, c') \<Rightarrow> Some (old, e # c'))"

subsection \<open>Rehashing\<close>

fun rehash_chain :: "int \<Rightarrow> ('k, 'v) hentry list \<Rightarrow> ('k, 'v) hentry list list \<Rightarrow> ('k, 'v) hentry list list" where
  "rehash_chain newCapacity [] newMap = newMap"
| "rehash_chain newCapacity (e # old) newMap =
     (let index = nat ((ehash e mod 2 ^ 31) mod newCapacity) in
      rehash_chain newCapacity old (newMap[index := e # newMap ! index]))"

fun rehash_loop :: "int \<Rightarrow> ('k, 'v) hentry list list \<Rightarrow> nat \<Rightarrow> ('k, 'v) hentry list list \<Rightarrow> ('k, 'v) hentry list list" where
  "rehash_loop newCapacity oldMap 0 newMap = newMap"
| "rehash_loop newCapacity oldMap (Suc i) newMap =
     rehash_loop newCapacity oldMap i (rehash_chain newCapacity (oldMap ! i) newMap)"

definition ht_rehash :: "('k, 'v) hash_table \<Rightarrow> ('k, 'v) hash_table res" where
  "ht_rehash t =
     (let oldCapacity = tableLength t in
      rbind (chk32 (oldCapacity * 2 + 1)) (\<lambda>c.
      let newCapacity = max 5 c; newMap = replicate (nat newCapacity) [];
          t' = t\<lparr>modCount := to_int32 (modCount t + 1), threshold := loadFactor t newCapacity, tableLength := newCapacity\<rparr> in
      case table t of
        None \<Rightarrow> if oldCapacity = 0 then Inr (t'\<lparr>table := Some newMap\<rparr>) else Inl Undefined
      | Some oldMap \<Rightarrow>
          if oldCapacity \<le> int (length oldMap)
          then Inr (t'\<lparr>table := Some (rehash_loop newCapacity oldMap (nat oldCapacity) newMap)\<rparr>)
          else Inl Undefined))"

subsection \<open>Operations\<close>

definition ht_insert_new :: "int \<Rightarrow> int \<Rightarrow> 'k \<Rightarrow> 'v \<Rightarrow> ('k, 'v) hash_table \<Rightarrow> ('v \<times> ('k, 'v) hash_table) res" where
  "ht_insert_new hashCode index k v t =
     (let t1 = t\<lparr>modCount := to_int32 (modCount t + 1)\<rparr> in
      rbind (if threshold t1 \<le> count t1
             then rbind (ht_rehash t1) (\<lambda>t2. rbind (ht_index hashCode (tableLength t2)) (\<lambda>i. Inr (i, t2)))
             else Inr (index, t1)) (\<lambda>(i, t2).
      rbind (ht_bucket i t2) (\<lambda>e.
      rbind (ht_set_bucket i (\<lparr>ehash = hashCode, ekey = k, evalue = v\<rparr> # e) t2) (\<lambda>t3.
      rbind (chk32 (count t3 + 1)) (\<lambda>n. Inr (nullVal t3, t3\<lparr>count := n\<rparr>))))))"

definition ht_put :: "('k \<Rightarrow> int) \<Rightarrow> 'k \<Rightarrow> 'v \<Rightarrow> ('k, 'v) hash_table \<Rightarrow> ('v \<times> ('k, 'v) hash_table) res" where
  "ht_put hash k v t =
     (let hashCode = hash k in
      if tableLength t \<noteq> 0 then
        rbind (ht_index hashCode (tableLength t)) (\<lambda>index.
        rbind (ht_bucket index t) (\<lambda>c.
        case chain_update hashCode k v c of
          Some (old, c') \<Rightarrow> rbind (ht_set_bucket index c' t) (\<lambda>t'. Inr (old, t'))
        | None \<Rightarrow> ht_insert_new hashCode index k v t))
      else ht_insert_new hashCode 0 k v t)"

definition ht_getEntry :: "('k \<Rightarrow> int) \<Rightarrow> 'k \<Rightarrow> ('k, 'v) hash_table \<Rightarrow> ('k, 'v) hentry option res" where
  "ht_getEntry hash k t =
     (if count t = 0 then Inr None
      else rbind (ht_index (hash k) (tableLength t)) (\<lambda>index.
           rbind (ht_bucket index t) (\<lambda>c. Inr (chain_find (hash k) k c))))"

definition ht_get :: "('k \<Rightarrow> int) \<Rightarrow> 'k \<Rightarrow> ('k, 'v) hash_table \<Rightarrow> 'v res" where
  "ht_get hash k t =
     (if count t = 0 then Inr (nullVal t)
      else rbind (ht_index (hash k) (tableLength t)) (\<lambda>index.
           rbind (ht_bucket index t) (\<lambda>c.
           Inr (case chain_find (hash k) k c of Some e \<Rightarrow> evalue e | None \<Rightarrow> nullVal t))))"

definition ht_containsKey :: "('k \<Rightarrow> int) \<Rightarrow> 'k \<Rightarrow> ('k, 'v) hash_table \<Rightarrow> bool res" where
  "ht_containsKey hash k t =
     (if count t = 0 then Inr False
      else rbind (ht_index (hash k) (tableLength t)) (\<lambda>index.
           rbind (ht_bucket index t) (\<lambda>c. Inr (chain_find (hash k) k c \<noteq> None))))"

definition ht_remove :: "('k \<Rightarrow> int) \<Rightarrow> 'k \<Rightarrow> ('k, 'v) hash_table \<Rightarrow> ('v \<times> ('k, 'v) hash_table) res" where
  "ht_remove hash k t =
     (if count t = 0 then Inr (nullVal t, t)
      else rbind (ht_index (hash k) (tableLength t)) (\<lambda>index.
           rbind (ht_bucket index t) (\<lambda>c.
           case chain_remove (hash k) k c of
             None \<Rightarrow> Inr (nullVal t, t)
           | Some (oldValue, c') \<Rightarrow> rbind (ht_set_bucket index c' t) (\<lambda>t'.
               Inr (oldValue, t'\<lparr>count := count t' - 1\<rparr>)))))"

definition ht_removeAll :: "('k, 'v) hash_table \<Rightarrow> ('k, 'v) hash_table res" where
  "ht_removeAll t =
     (if count t = 0 then Inr t
      else case table t of
        None \<Rightarrow> if tableLength t \<le> 0 then Inr (t\<lparr>count := 0\<rparr>) else Inl Undefined
      | Some bs \<Rightarrow>
          if tableLength t \<le> int (length bs)
          then Inr (t\<lparr>table := Some (replicate (nat (tableLength t)) [] @ drop (nat (tableLength t)) bs), count := 0\<rparr>)
          else Inl Undefined)"

subsection \<open>Iteration and copying\<close>

record ('k, 'v) ht_iterator =
  it_e :: "('k, 'v) hentry list"
  position :: int
  eIndex :: int

definition it_new :: "('k, 'v) ht_iterator" where
  "it_new = \<lparr>it_e = [], position = 0, eIndex = -1\<rparr>"

definition it_hasNext :: "('k, 'v) hash_table \<Rightarrow> ('k, 'v) ht_iterator \<Rightarrow> bool" where
  "it_hasNext t it \<longleftrightarrow> position it < count t"

text \<open>\<open>while (e == nullptr) e = htable->table[++eIndex]\<close>\<close>

function it_advance :: "('k, 'v) hentry list list \<Rightarrow> ('k, 'v) ht_iterator \<Rightarrow> ('k, 'v) ht_iterator res" where
  "it_advance bs it =
     (if it_e it \<noteq> [] then Inr it
      else if -1 \<le> eIndex it \<and> eIndex it + 1 < int (length bs)
      then it_advance bs (it\<lparr>eIndex := eIndex it + 1, it_e := bs ! nat (eIndex it + 1)\<rparr>)
      else Inl Undefined)"
  by pat_completeness auto
termination
  by (relation "measure (\<lambda>(bs, it). nat (int (length bs) - eIndex it))") auto

declare it_advance.simps [simp del]

definition it_getNext :: "('k, 'v) hash_table \<Rightarrow> ('k, 'v) ht_iterator \<Rightarrow> (('k, 'v) hentry \<times> ('k, 'v) ht_iterator) res" where
  "it_getNext t it =
     rbind (if it_e it \<noteq> [] then Inr it
            else case table t of None \<Rightarrow> Inl Undefined | Some bs \<Rightarrow> it_advance bs it) (\<lambda>it'.
     Inr (hd (it_e it'), it'\<lparr>it_e := tl (it_e it'), position := position it' + 1\<rparr>))"

text \<open>The loop \<open>while (iterator.hasNext()) ... getNextKeyAndValue\<close>, collecting what it visits.\<close>

function it_collect :: "('k, 'v) hash_table \<Rightarrow> ('k, 'v) ht_iterator \<Rightarrow> ('k, 'v) hentry list res" where
  "it_collect t it =
     (if it_hasNext t it
      then rbind (it_getNext t it) (\<lambda>(e, it'). rbind (it_collect t it') (\<lambda>es. Inr (e # es)))
      else Inr [])"
  by pat_completeness auto

lemma it_advance_position: "it_advance bs it = Inr it' \<Longrightarrow> position it' = position it"
proof (induction bs it rule: it_advance.induct)
  case (1 bs it)
  from 1(2) show ?case using 1(1) by (subst (asm) it_advance.simps) (auto split: if_splits)
qed

lemma it_getNext_position: "it_getNext t it = Inr (e, it') \<Longrightarrow> position it' = position it + 1"
  by (auto simp: it_getNext_def rbind_eq_Inr_iff dest: it_advance_position split: if_splits option.splits)

termination it_collect
  by (relation "measure (\<lambda>(t, it). nat (count t - position it))")
     (auto simp: it_hasNext_def dest: it_getNext_position)

declare it_collect.simps [simp del]

fun put_entries :: "('k \<Rightarrow> int) \<Rightarrow> ('k, 'v) hentry list \<Rightarrow> ('k, 'v) hash_table \<Rightarrow> ('k, 'v) hash_table res" where
  "put_entries hash [] t = Inr t"
| "put_entries hash (e # es) t = rbind (ht_put hash (ekey e) (evalue e) t) (\<lambda>(_, t'). put_entries hash es t')"

definition ht_copyFrom :: "('k \<Rightarrow> int) \<Rightarrow> ('k, 'v) hash_table \<Rightarrow> ('k, 'v) hash_table \<Rightarrow> ('k, 'v) hash_table res" where
  "ht_copyFrom hash this htable =
     rbind (it_collect htable it_new) (\<lambda>es. put_entries hash es (this\<lparr>nullVal := nullVal htable\<rparr>))"

definition ht_copy :: "('k \<Rightarrow> int) \<Rightarrow> 'v \<Rightarrow> (int \<Rightarrow> int) \<Rightarrow> ('k, 'v) hash_table \<Rightarrow> ('k, 'v) hash_table res" where
  "ht_copy hash null lf htable = ht_copyFrom hash (ht_init null 11 lf) htable"

definition ht_assign :: "('k \<Rightarrow> int) \<Rightarrow> ('k, 'v) hash_table \<Rightarrow> ('k, 'v) hash_table \<Rightarrow> ('k, 'v) hash_table res" where
  "ht_assign hash this htable = rbind (ht_removeAll this) (\<lambda>t. ht_copyFrom hash t htable)"

text \<open>Moves return the new object and what is left of the source.\<close>

definition ht_move :: "('k, 'v) hash_table \<Rightarrow> ('k, 'v) hash_table \<times> ('k, 'v) hash_table" where
  "ht_move htable = (htable, htable\<lparr>table := None\<rparr>)"

definition ht_move_assign ::
  "('k, 'v) hash_table \<Rightarrow> ('k, 'v) hash_table \<Rightarrow> (('k, 'v) hash_table \<times> ('k, 'v) hash_table) res" where
  "ht_move_assign this htable =
     rbind (ht_removeAll this) (\<lambda>_. Inr (htable, htable\<lparr>table := None, count := 0\<rparr>))"

text \<open>\<open>HashSet\<close> is a table to \<open>uint8\<close> whose values are all 0.\<close>

definition hs_add :: "('e \<Rightarrow> int) \<Rightarrow> 'e \<Rightarrow> ('e, 8 word) hash_table \<Rightarrow> ('e, 8 word) hash_table res" where
  "hs_add hash obj t = rbind (ht_put hash obj 0 t) (\<lambda>(_, t'). Inr t')"

definition hs_contains :: "('e \<Rightarrow> int) \<Rightarrow> 'e \<Rightarrow> ('e, 8 word) hash_table \<Rightarrow> bool res" where
  "hs_contains = ht_containsKey"


subsection \<open>Invariant\<close>

definition ht_buckets :: "('k, 'v) hash_table \<Rightarrow> ('k, 'v) hentry list list" where
  "ht_buckets t = (case table t of None \<Rightarrow> [] | Some bs \<Rightarrow> bs)"

text \<open>Every entry carries the hash of its key and sits in the bucket of that hash.\<close>

definition slot :: "int \<Rightarrow> nat \<Rightarrow> nat" where
  "slot h n = nat ((h mod 2 ^ 31) mod int n)"

definition placed :: "('k \<Rightarrow> int) \<Rightarrow> ('k, 'v) hentry list list \<Rightarrow> bool" where
  "placed hash bs \<longleftrightarrow> (\<forall>i < length bs. \<forall>e \<in> set (bs ! i).
     ehash e = hash (ekey e) \<and> slot (hash (ekey e)) (length bs) = i)"

text \<open>A collection of entries with distinct keys is a finite map.\<close>

definition entries_are :: "('k, 'v) hentry list \<Rightarrow> ('k \<rightharpoonup> 'v) \<Rightarrow> bool" where
  "entries_are es m \<longleftrightarrow> distinct (map ekey es) \<and> m = map_of (map (\<lambda>e. (ekey e, evalue e)) es)"

definition ht_represents :: "('k \<Rightarrow> int) \<Rightarrow> (int \<Rightarrow> int) \<Rightarrow> ('k, 'v) hash_table \<Rightarrow> ('k \<rightharpoonup> 'v) \<Rightarrow> bool" where
  "ht_represents hash lf t m \<longleftrightarrow>
     tableLength t = int (length (ht_buckets t)) \<and> tableLength t < 2 ^ 31 \<and>
     placed hash (ht_buckets t) \<and> count t = int (length (concat (ht_buckets t))) \<and>
     threshold t = lf (tableLength t) \<and> loadFactor t = lf \<and> entries_are (concat (ht_buckets t)) m"

lemma entries_are_cong:
  assumes "entries_are es m" "mset es = mset es'"
  shows "entries_are es' m"
proof -
  let ?f = "\<lambda>e. (ekey e, evalue e)"
  have d: "distinct (map ekey es)" "distinct (map ekey es')"
    using assms mset_eq_imp_distinct_iff [of "map ekey es" "map ekey es'"] by (simp_all add: entries_are_def)
  have "set (map ?f es) = set (map ?f es')" using mset_eq_setD [OF assms(2)] by simp
  then have "map_of (map ?f es) = map_of (map ?f es')"
    using map_of_inject_set [of "map ?f es" "map ?f es'"] d by (simp add: comp_def)
  then show ?thesis using assms(1) d(2) by (simp add: entries_are_def)
qed

lemma entries_are_dom: "entries_are es m \<Longrightarrow> dom m = ekey ` set es"
  unfolding entries_are_def by (auto simp: dom_map_of_conv_image_fst image_image)

lemma entries_are_None: "entries_are es m \<Longrightarrow> m k = None \<longleftrightarrow> k \<notin> ekey ` set es"
  using entries_are_dom by (metis domIff)

lemma entries_are_card: "entries_are es m \<Longrightarrow> card (dom m) = length es"
  using entries_are_dom [of es m] distinct_card [of "map ekey es"] by (simp add: entries_are_def)

lemma entries_are_Nil [simp]: "entries_are [] m \<longleftrightarrow> m = Map.empty"
  by (simp add: entries_are_def)

lemma entries_are_mem: "entries_are es m \<Longrightarrow> e \<in> set es \<Longrightarrow> m (ekey e) = Some (evalue e)"
  unfolding entries_are_def by (auto intro!: map_of_is_SomeI simp: comp_def)

lemma entries_are_insert:
  "entries_are es m \<Longrightarrow> m (ekey e) = None \<Longrightarrow> entries_are (e # es) (m(ekey e \<mapsto> evalue e))"
  using entries_are_None [of es m "ekey e"] by (auto simp: entries_are_def)

lemma entries_are_delete: "entries_are (e # es) m \<Longrightarrow> entries_are es (m(ekey e := None))"
  using entries_are_None [of es "map_of (map (\<lambda>e. (ekey e, evalue e)) es)" "ekey e"]
  by (auto simp: entries_are_def)

lemma entries_are_update:
  "entries_are (e # es) m \<Longrightarrow> entries_are (e\<lparr>evalue := v\<rparr> # es) (m(ekey e \<mapsto> v))"
  using entries_are_insert [OF entries_are_delete, of e es m "e\<lparr>evalue := v\<rparr>"] by simp

subsection \<open>Chains and buckets\<close>

lemma mset_concat_update:
  "i < length bs \<Longrightarrow> mset (concat (bs[i := c])) + mset (bs ! i) = mset (concat bs) + mset c"
proof -
  assume i: "i < length bs"
  have "mset (concat bs) = mset (concat (take i bs @ bs ! i # drop (Suc i) bs))"
    using id_take_nth_drop [OF i] by simp
  then show ?thesis using i by (simp add: upd_conv_take_nth_drop)
qed

lemma chain_find_Some: "chain_find h k c = Some e \<Longrightarrow> e \<in> set c \<and> ehash e = h \<and> ekey e = k"
  by (induction c) (auto split: if_splits)

lemma chain_find_None: "chain_find h k c = None \<longleftrightarrow> (\<forall>e \<in> set c. \<not> (ehash e = h \<and> ekey e = k))"
  by (induction c) auto

lemma chain_update_None: "chain_update h k v c = None \<longleftrightarrow> chain_find h k c = None"
  by (induction c) (auto split: option.splits)

lemma chain_update_Some:
  "chain_update h k v c = Some (old, c') \<Longrightarrow>
   \<exists>pre e post. c = pre @ e # post \<and> ehash e = h \<and> ekey e = k \<and> evalue e = old \<and> c' = pre @ e\<lparr>evalue := v\<rparr> # post"
proof (induction c arbitrary: old c')
  case Nil
  then show ?case by simp
next
  case (Cons x c)
  show ?case
  proof (cases "ehash x = h \<and> ekey x = k")
    case True
    then show ?thesis using Cons.prems by (intro exI [of _ "[]"] exI [of _ x] exI [of _ c]) auto
  next
    case False
    then obtain c1 where c1: "chain_update h k v c = Some (old, c1)" "c' = x # c1"
      using Cons.prems by (auto split: option.splits)
    then obtain pre e post where "c = pre @ e # post" "ehash e = h" "ekey e = k" "evalue e = old" "c1 = pre @ e\<lparr>evalue := v\<rparr> # post"
      using Cons.IH by blast
    then show ?thesis using c1 by (intro exI [of _ "x # pre"] exI [of _ e] exI [of _ post]) auto
  qed
qed

lemma chain_remove_None: "chain_remove h k c = None \<longleftrightarrow> chain_find h k c = None"
  by (induction c) (auto split: option.splits)

lemma chain_remove_Some:
  "chain_remove h k c = Some (old, c') \<Longrightarrow>
   \<exists>e. mset c = add_mset e (mset c') \<and> set c' \<subseteq> set c \<and> ehash e = h \<and> ekey e = k \<and> evalue e = old"
  by (induction c arbitrary: old c') (fastforce split: if_splits option.splits)+

lemma nth_in_concat: "i < length bs \<Longrightarrow> e \<in> set (bs ! i) \<Longrightarrow> e \<in> set (concat bs)"
  by (auto simp: in_set_conv_nth) (use nth_mem in blast)

subsection \<open>Rehashing keeps the entries\<close>

lemma placed_replicate [simp]: "placed hash (replicate n [])"
  by (simp add: placed_def)

lemma slot_less: "0 < n \<Longrightarrow> slot h n < n"
  by (simp add: slot_def nat_less_iff)

lemma placedD: "placed hash bs \<Longrightarrow> i < length bs \<Longrightarrow> e \<in> set (bs ! i) \<Longrightarrow> ehash e = hash (ekey e) \<and> slot (hash (ekey e)) (length bs) = i"
  by (simp add: placed_def)

lemma placed_update:
  assumes "placed hash bs"
    and "\<And>e. e \<in> set c \<Longrightarrow> ehash e = hash (ekey e) \<and> slot (hash (ekey e)) (length bs) = i"
  shows "placed hash (bs[i := c])"
  unfolding placed_def
proof (intro allI impI ballI)
  fix j e assume "j < length (bs[i := c])" "e \<in> set (bs[i := c] ! j)"
  then show "ehash e = hash (ekey e) \<and> slot (hash (ekey e)) (length (bs[i := c])) = j"
    using assms(2) [of e] placedD [OF assms(1), of j e] by (cases "i = j") simp_all
qed

lemma rehash_chain_ok:
  assumes "0 < c" "length nm = nat c" "placed hash nm" "\<forall>e \<in> set es. ehash e = hash (ekey e)"
  shows "length (rehash_chain c es nm) = nat c \<and> placed hash (rehash_chain c es nm) \<and>
    mset (concat (rehash_chain c es nm)) = mset (concat nm) + mset es"
  using assms(2-)
proof (induction es arbitrary: nm)
  case Nil
  then show ?case by simp
next
  case (Cons e es)
  define i where "i = slot (ehash e) (length nm)"
  let ?nm = "nm[i := e # nm ! i]"
  have i: "i < length nm" using Cons.prems(1) assms(1) by (simp add: i_def slot_less)
  have step: "rehash_chain c (e # es) nm = rehash_chain c es ?nm"
    using Cons.prems(1) assms(1) by (simp add: Let_def i_def slot_def)
  have "placed hash ?nm"
  proof (rule placed_update [OF Cons.prems(2)])
    fix x assume "x \<in> set (e # nm ! i)"
    then show "ehash x = hash (ekey x) \<and> slot (hash (ekey x)) (length nm) = i"
      using Cons.prems(3) placedD [OF Cons.prems(2) i, of x] i_def by auto
  qed
  moreover have "mset (concat ?nm) = mset (concat nm) + {#e#}"
    using mset_concat_update [OF i, of "e # nm ! i"] by simp
  ultimately show ?case unfolding step using Cons.IH [of ?nm] Cons.prems by simp
qed

lemma rehash_loop_ok:
  assumes "0 < c" "length nm = nat c" "placed hash nm" "placed hash old" "n \<le> length old"
  shows "length (rehash_loop c old n nm) = nat c \<and> placed hash (rehash_loop c old n nm) \<and>
    mset (concat (rehash_loop c old n nm)) = mset (concat nm) + mset (concat (take n old))"
  using assms(2,3,5)
proof (induction n arbitrary: nm)
  case 0
  then show ?case by simp
next
  case (Suc n)
  have "\<forall>e \<in> set (old ! n). ehash e = hash (ekey e)"
    using placedD [OF assms(4), of n] Suc.prems(3) by simp
  from rehash_chain_ok [OF assms(1) Suc.prems(1,2) this] Suc show ?case
    by (simp add: take_Suc_conv_app_nth)
qed

lemma ht_rehash_ok:
  assumes rep: "ht_represents hash lf t m" and room: "tableLength t * 2 + 1 < 2 ^ 31"
  shows "\<exists>t'. ht_rehash t = Inr t' \<and> ht_represents hash lf t' m \<and> 0 < tableLength t' \<and>
    count t' = count t \<and> nullVal t' = nullVal t"
proof -
  let ?bs = "ht_buckets t"
  have len: "tableLength t = int (length ?bs)" and pl: "placed hash ?bs" and cnt: "count t = int (length (concat ?bs))"
    and lf: "loadFactor t = lf" and em: "entries_are (concat ?bs) m"
    using rep by (simp_all add: ht_represents_def)
  define c where "c = max 5 (tableLength t * 2 + 1)"
  define nb where "nb = rehash_loop c ?bs (length ?bs) (replicate (nat c) [])"
  let ?t' = "t\<lparr>modCount := to_int32 (modCount t + 1), threshold := loadFactor t c, tableLength := c, table := Some nb\<rparr>"
  have c: "0 < c" "c < 2 ^ 31" using room by (auto simp: c_def)
  have ok: "int32_ok (tableLength t * 2 + 1)" using room len by (simp add: int32_ok_def)
  have ret: "ht_rehash t = Inr ?t'"
    using len ok by (auto simp: ht_rehash_def Let_def ht_buckets_def nb_def c_def split: option.splits)
  have nb: "length nb = nat c" "placed hash nb" "mset (concat nb) = mset (concat ?bs)"
    using rehash_loop_ok [OF c(1) _ placed_replicate pl, of "nat c" "length ?bs"]
    by (simp_all add: nb_def)
  have "length (concat nb) = length (concat ?bs)" using nb(3) by (metis size_mset)
  moreover have "entries_are (concat nb) m" using em nb(3) entries_are_cong by metis
  ultimately have "ht_represents hash lf ?t' m"
    using nb c cnt lf by (simp add: ht_represents_def ht_buckets_def)
  then show ?thesis using ret c by auto
qed

subsection \<open>Operations on represented maps\<close>

lemma ht_index_ok:
  assumes "ht_represents hash lf t m" "0 < tableLength t"
  obtains i where "ht_index (hash k) (tableLength t) = Inr (int i)" "i < length (ht_buckets t)"
    "slot (hash k) (length (ht_buckets t)) = i" "ht_bucket (int i) t = Inr (ht_buckets t ! i)"
    "\<And>c. ht_set_bucket (int i) c t = Inr (t\<lparr>table := Some ((ht_buckets t)[i := c])\<rparr>)"
proof -
  let ?i = "slot (hash k) (length (ht_buckets t))"
  have len: "tableLength t = int (length (ht_buckets t))" using assms(1) by (simp add: ht_represents_def)
  then have b: "ht_buckets t \<noteq> []" using assms(2) by auto
  then have tb: "table t = Some (ht_buckets t)" by (auto simp: ht_buckets_def split: option.splits)
  have "?i < length (ht_buckets t)" using b by (simp add: slot_less)
  moreover have "ht_index (hash k) (tableLength t) = Inr (int ?i)"
    using len assms(2) by (simp add: ht_index_def slot_def)
  ultimately show thesis
    using that [of ?i] tb by (simp add: ht_bucket_def ht_set_bucket_def)
qed

lemma in_bucket:
  assumes "ht_represents hash lf t m" "e \<in> set (concat (ht_buckets t))"
    "slot (hash (ekey e)) (length (ht_buckets t)) = i"
  shows "e \<in> set (ht_buckets t ! i) \<and> ehash e = hash (ekey e)"
proof -
  from assms(2) obtain j where j: "j < length (ht_buckets t)" "e \<in> set (ht_buckets t ! j)"
    by (auto simp: in_set_conv_nth) (metis in_set_conv_nth)
  have "ehash e = hash (ekey e)" "j = i" using assms(1,3) placedD [OF _ j, of hash] by (auto simp: ht_represents_def)
  then show ?thesis using j by simp
qed

text \<open>Searching the bucket of a key decides the map at that key.\<close>

lemma bucket_find:
  assumes rep: "ht_represents hash lf t m" and i: "i < length (ht_buckets t)"
    "slot (hash k) (length (ht_buckets t)) = i"
  shows "map_option evalue (chain_find (hash k) k (ht_buckets t ! i)) = m k"
proof (cases "chain_find (hash k) k (ht_buckets t ! i)")
  case None
  have "k \<notin> ekey ` set (concat (ht_buckets t))"
  proof
    assume "k \<in> ekey ` set (concat (ht_buckets t))"
    then obtain e where "e \<in> set (concat (ht_buckets t))" "ekey e = k" by blast
    then show False using in_bucket [OF rep, of e i] i(2) None by (auto simp: chain_find_None)
  qed
  then have "m k = None"
    using rep entries_are_None [of "concat (ht_buckets t)" m k] by (simp add: ht_represents_def)
  then show ?thesis using None by simp
next
  case (Some e)
  have e: "e \<in> set (ht_buckets t ! i)" "ekey e = k" using chain_find_Some [OF Some] by auto
  have "entries_are (concat (ht_buckets t)) m" using rep by (simp add: ht_represents_def)
  then have "m (ekey e) = Some (evalue e)" using entries_are_mem nth_in_concat [OF i(1) e(1)] by blast
  then show ?thesis using Some e(2) by simp
qed

lemma ht_count_card: "ht_represents hash lf t m \<Longrightarrow> count t = int (card (dom m)) \<and> finite (dom m)"
  using entries_are_card [of "concat (ht_buckets t)" m] entries_are_dom [of "concat (ht_buckets t)" m]
  by (auto simp: ht_represents_def)

lemma ht_count_zero: "ht_represents hash lf t m \<Longrightarrow> count t = 0 \<Longrightarrow> m = Map.empty"
  using ht_count_card [of hash lf t m] by auto

lemma ht_getEntry_ok:
  assumes "ht_represents hash lf t m"
  shows "\<exists>r. ht_getEntry hash k t = Inr r \<and> map_option evalue r = m k \<and> (\<forall>e. r = Some e \<longrightarrow> ekey e = k)"
proof (cases "count t = 0")
  case True
  then show ?thesis using ht_count_zero [OF assms] by (simp add: ht_getEntry_def)
next
  case False
  have "tableLength t \<noteq> 0" using assms False by (auto simp: ht_represents_def)
  moreover have "0 \<le> tableLength t" using assms by (simp add: ht_represents_def)
  ultimately have "0 < tableLength t" by simp
  then obtain i where i: "ht_index (hash k) (tableLength t) = Inr (int i)" "i < length (ht_buckets t)"
    "slot (hash k) (length (ht_buckets t)) = i" "ht_bucket (int i) t = Inr (ht_buckets t ! i)"
    using ht_index_ok [OF assms] by blast
  then show ?thesis using False bucket_find [OF assms i(2,3)]
    by (auto simp: ht_getEntry_def dest: chain_find_Some)
qed

lemma ht_get_getEntry:
  "ht_get hash k t = rbind (ht_getEntry hash k t) (\<lambda>r. Inr (case r of Some e \<Rightarrow> evalue e | None \<Rightarrow> nullVal t))"
  by (simp add: ht_get_def ht_getEntry_def rbind_assoc)

lemma ht_containsKey_getEntry: "ht_containsKey hash k t = rbind (ht_getEntry hash k t) (\<lambda>r. Inr (r \<noteq> None))"
  by (simp add: ht_containsKey_def ht_getEntry_def rbind_assoc)

lemma ht_get_ok:
  assumes "ht_represents hash lf t m"
  shows "ht_get hash k t = Inr (case m k of Some v \<Rightarrow> v | None \<Rightarrow> nullVal t)"
  using ht_getEntry_ok [OF assms, of k] by (auto simp: ht_get_getEntry split: option.splits)

lemma ht_containsKey_ok:
  assumes "ht_represents hash lf t m"
  shows "ht_containsKey hash k t = Inr (k \<in> dom m)"
  using ht_getEntry_ok [OF assms, of k] by (cases "m k") (auto simp: ht_containsKey_getEntry)

text \<open>Replacing one bucket: what has to be shown of the new bucket.\<close>

lemma represents_set_bucket:
  assumes rep: "ht_represents hash lf t m" and i: "i < length (ht_buckets t)"
    and pl: "\<And>e. e \<in> set c \<Longrightarrow> ehash e = hash (ekey e) \<and> slot (hash (ekey e)) (length (ht_buckets t)) = i"
    and em: "entries_are (concat ((ht_buckets t)[i := c])) m'"
    and n: "n = int (length (concat ((ht_buckets t)[i := c])))"
  shows "ht_represents hash lf (t\<lparr>table := Some ((ht_buckets t)[i := c]), count := n\<rparr>) m'"
proof -
  have "placed hash (ht_buckets t)" using rep by (simp add: ht_represents_def)
  then have "placed hash ((ht_buckets t)[i := c])" using pl by (rule placed_update)
  then show ?thesis using rep em n by (simp add: ht_represents_def ht_buckets_def)
qed

lemma length_concat_update:
  "i < length bs \<Longrightarrow> length (concat (bs[i := c])) + length (bs ! i) = length (concat bs) + length c"
  using arg_cong [OF mset_concat_update, of i bs size c] by simp

lemma ht_overwrite_ok:
  assumes rep: "ht_represents hash lf t m" and i: "i < length (ht_buckets t)" "slot (hash k) (length (ht_buckets t)) = i"
    and upd: "chain_update (hash k) k v (ht_buckets t ! i) = Some (old, c)"
  shows "ht_represents hash lf (t\<lparr>table := Some ((ht_buckets t)[i := c])\<rparr>) (m(k \<mapsto> v)) \<and> m k = Some old"
proof -
  let ?bs = "ht_buckets t"
  obtain pre e post where s: "?bs ! i = pre @ e # post" "ehash e = hash k" "ekey e = k" "evalue e = old"
    "c = pre @ e\<lparr>evalue := v\<rparr> # post" using chain_update_Some [OF upd] by blast
  have all: "entries_are (concat ?bs) m" "placed hash ?bs" "count t = int (length (concat ?bs))"
    using rep by (simp_all add: ht_represents_def)
  obtain es where es: "mset (concat ?bs) = mset (e # es)"
    using nth_in_concat [OF i(1), of e] s(1) by (metis ex_mset in_set_conv_decomp mset.simps(2) mset_append union_mset_add_mset_right)
  have em: "entries_are (e # es) m" using entries_are_cong [OF all(1) es] .
  have "mset (concat (?bs[i := c])) = mset (e\<lparr>evalue := v\<rparr> # es)"
    using mset_concat_update [OF i(1), of c] s es by simp
  then have em': "entries_are (concat (?bs[i := c])) (m(k \<mapsto> v))"
    using entries_are_cong [OF entries_are_update [OF em, of v]] s(3) by simp
  have "ht_represents hash lf (t\<lparr>table := Some (?bs[i := c]), count := count t\<rparr>) (m(k \<mapsto> v))"
  proof (rule represents_set_bucket [OF rep i(1) _ em'])
    fix x assume "x \<in> set c"
    then have "x \<in> set (?bs ! i) \<or> x = e\<lparr>evalue := v\<rparr>" using s by auto
    then show "ehash x = hash (ekey x) \<and> slot (hash (ekey x)) (length ?bs) = i"
      using placedD [OF all(2) i(1), of x] s(2,3) i(2) by auto
  next
    show "count t = int (length (concat (?bs[i := c])))"
      using length_concat_update [OF i(1), of c] s all(3) by simp
  qed
  then show ?thesis using entries_are_mem [OF em, of e] s by simp
qed

lemma ht_push_ok:
  assumes rep: "ht_represents hash lf t m" and tl: "0 < tableLength t" and none: "m k = None"
    and i: "i < length (ht_buckets t)" "slot (hash k) (length (ht_buckets t)) = i"
  shows "ht_represents hash lf
    (t\<lparr>table := Some ((ht_buckets t)[i := \<lparr>ehash = hash k, ekey = k, evalue = v\<rparr> # ht_buckets t ! i]), count := count t + 1\<rparr>)
    (m(k \<mapsto> v))"
proof (rule represents_set_bucket [OF rep i(1)])
  let ?bs = "ht_buckets t" and ?e = "\<lparr>ehash = hash k, ekey = k, evalue = v\<rparr>"
  have all: "entries_are (concat ?bs) m" "placed hash ?bs" "count t = int (length (concat ?bs))"
    using rep by (simp_all add: ht_represents_def)
  show "ehash x = hash (ekey x) \<and> slot (hash (ekey x)) (length ?bs) = i" if "x \<in> set (?e # ?bs ! i)" for x
    using that placedD [OF all(2) i(1), of x] i(2) by auto
  have "mset (?e # concat ?bs) = mset (concat (?bs[i := ?e # ?bs ! i]))"
    using mset_concat_update [OF i(1), of "?e # ?bs ! i"] by simp
  then show "entries_are (concat (?bs[i := ?e # ?bs ! i])) (m(k \<mapsto> v))"
    using entries_are_cong [OF entries_are_insert [OF all(1), of ?e]] none by simp
  show "count t + 1 = int (length (concat (?bs[i := ?e # ?bs ! i])))"
    using length_concat_update [OF i(1), of "?e # ?bs ! i"] all(3) by simp
qed

lemma ht_remove_ok:
  assumes rep: "ht_represents hash lf t m"
  shows "\<exists>t'. ht_remove hash k t = Inr (case m k of Some v \<Rightarrow> v | None \<Rightarrow> nullVal t, t') \<and>
    ht_represents hash lf t' (m(k := None)) \<and> nullVal t' = nullVal t"
proof (cases "count t = 0")
  case True
  then show ?thesis using ht_count_zero [OF rep] rep by (simp add: ht_remove_def)
next
  case False
  let ?bs = "ht_buckets t"
  have all: "entries_are (concat ?bs) m" "placed hash ?bs" "count t = int (length (concat ?bs))" "tableLength t = int (length ?bs)"
    using rep by (simp_all add: ht_represents_def)
  then have "0 < tableLength t" using False by auto
  then obtain i where i: "ht_index (hash k) (tableLength t) = Inr (int i)" "i < length ?bs"
    "slot (hash k) (length ?bs) = i" "ht_bucket (int i) t = Inr (?bs ! i)"
    "\<And>c. ht_set_bucket (int i) c t = Inr (t\<lparr>table := Some (?bs[i := c])\<rparr>)" using ht_index_ok [OF rep] by metis
  have mk: "map_option evalue (chain_find (hash k) k (?bs ! i)) = m k" by (rule bucket_find [OF rep i(2,3)])
  show ?thesis
  proof (cases "chain_remove (hash k) k (?bs ! i)")
    case None
    then have "m k = None" using mk by (simp add: chain_remove_None)
    then show ?thesis using None False i rep by (simp add: ht_remove_def fun_upd_idem)
  next
    case (Some r)
    then obtain old c where r: "chain_remove (hash k) k (?bs ! i) = Some (old, c)" by (cases r) auto
    then obtain e where e: "mset (?bs ! i) = add_mset e (mset c)" "set c \<subseteq> set (?bs ! i)" "ekey e = k" "evalue e = old"
      using chain_remove_Some [OF r] by blast
    let ?c' = "concat (?bs[i := c])"
    have p: "mset (e # ?c') = mset (concat ?bs)" using mset_concat_update [OF i(2), of c] e(1) by simp
    have em: "entries_are (e # ?c') m" using entries_are_cong [OF all(1) p [symmetric]] .
    have "ht_represents hash lf (t\<lparr>table := Some (?bs[i := c]), count := count t - 1\<rparr>) (m(k := None))"
    proof (rule represents_set_bucket [OF rep i(2)])
      show "ehash x = hash (ekey x) \<and> slot (hash (ekey x)) (length ?bs) = i" if "x \<in> set c" for x
        using that placedD [OF all(2) i(2), of x] e(2) by auto
      show "entries_are ?c' (m(k := None))" using entries_are_delete [OF em] e(3) by simp
      show "count t - 1 = int (length ?c')" using arg_cong [OF p, of size] all(3) by simp
    qed
    then show ?thesis using r False i entries_are_mem [OF em, of e] e by (simp add: ht_remove_def)
  qed
qed

lemma ht_removeAll_ok:
  assumes rep: "ht_represents hash lf t m"
  shows "\<exists>t'. ht_removeAll t = Inr t' \<and> ht_represents hash lf t' Map.empty \<and> nullVal t' = nullVal t"
proof (cases "count t = 0")
  case True
  then show ?thesis using ht_count_zero [OF rep] rep by (simp add: ht_removeAll_def)
next
  case False
  then obtain bs where bs: "table t = Some bs" using rep by (auto simp: ht_represents_def ht_buckets_def split: option.splits)
  then show ?thesis using False rep by (auto simp: ht_removeAll_def ht_represents_def ht_buckets_def)
qed

subsection \<open>Insertion under a load factor\<close>

locale load_factor =
  fixes lf :: "int \<Rightarrow> int"
  assumes lf_zero: "lf 0 = 0"
    and lf_grow: "0 \<le> c \<Longrightarrow> c \<le> 2 * lf c + 1"
begin

text \<open>The table an insertion works on: grown when the threshold is reached, never empty.\<close>

lemma ht_grown:
  assumes rep: "ht_represents hash lf t m" and room: "card (dom m) < 2 ^ 28"
    and idx: "0 < tableLength t \<Longrightarrow> ht_index (hash k) (tableLength t) = Inr index"
  shows "\<exists>i t2. (if threshold t \<le> count t
      then rbind (ht_rehash t) (\<lambda>t2. rbind (ht_index (hash k) (tableLength t2)) (\<lambda>i. Inr (i, t2)))
      else Inr (index, t)) = Inr (i, t2) \<and> ht_represents hash lf t2 m \<and> 0 < tableLength t2 \<and>
      ht_index (hash k) (tableLength t2) = Inr i \<and> nullVal t2 = nullVal t \<and> count t2 = count t"
proof (cases "threshold t \<le> count t")
  case True
  have "threshold t = lf (tableLength t)" "0 \<le> tableLength t" "count t < 2 ^ 28"
    using rep ht_count_card [OF rep] room by (auto simp: ht_represents_def)
  then have "tableLength t * 2 + 1 < 2 ^ 31" using lf_grow [of "tableLength t"] True by simp
  then obtain t' where t': "ht_rehash t = Inr t'" "ht_represents hash lf t' m" "0 < tableLength t'"
    "count t' = count t" "nullVal t' = nullVal t" using ht_rehash_ok [OF rep] by blast
  obtain i where "ht_index (hash k) (tableLength t') = Inr (int i)" using ht_index_ok [OF t'(2,3)] by blast
  then show ?thesis using True t' by simp
next
  case False
  have "tableLength t \<noteq> 0"
  proof
    assume z: "tableLength t = 0"
    then have "count t = 0" "threshold t = 0" using rep lf_zero by (auto simp: ht_represents_def)
    then show False using False by simp
  qed
  then have "0 < tableLength t" using rep by (auto simp: ht_represents_def)
  then show ?thesis using False idx rep by simp
qed

lemma ht_insert_new_ok:
  assumes rep: "ht_represents hash lf t m" and none: "m k = None" and room: "card (dom m) < 2 ^ 28"
    and idx: "0 < tableLength t \<Longrightarrow> ht_index (hash k) (tableLength t) = Inr index"
  shows "\<exists>t'. ht_insert_new (hash k) index k v t = Inr (nullVal t, t') \<and>
    ht_represents hash lf t' (m(k \<mapsto> v)) \<and> nullVal t' = nullVal t"
proof -
  let ?t1 = "t\<lparr>modCount := to_int32 (modCount t + 1)\<rparr>"
  have rep1: "ht_represents hash lf ?t1 m" using rep by (simp add: ht_represents_def ht_buckets_def)
  obtain j t2 where g: "(if threshold ?t1 \<le> count ?t1
      then rbind (ht_rehash ?t1) (\<lambda>t2. rbind (ht_index (hash k) (tableLength t2)) (\<lambda>i. Inr (i, t2)))
      else Inr (index, ?t1)) = Inr (j, t2)" and t2: "ht_represents hash lf t2 m" "0 < tableLength t2"
      "ht_index (hash k) (tableLength t2) = Inr j" "nullVal t2 = nullVal t" "count t2 = count t"
    using ht_grown [OF rep1 room, of k index] idx by auto
  obtain i where i: "j = int i" "i < length (ht_buckets t2)" "slot (hash k) (length (ht_buckets t2)) = i"
    "ht_bucket (int i) t2 = Inr (ht_buckets t2 ! i)"
    "\<And>c. ht_set_bucket (int i) c t2 = Inr (t2\<lparr>table := Some ((ht_buckets t2)[i := c])\<rparr>)"
  proof -
    obtain i where "ht_index (hash k) (tableLength t2) = Inr (int i)" "i < length (ht_buckets t2)"
      "slot (hash k) (length (ht_buckets t2)) = i" "ht_bucket (int i) t2 = Inr (ht_buckets t2 ! i)"
      "\<And>c. ht_set_bucket (int i) c t2 = Inr (t2\<lparr>table := Some ((ht_buckets t2)[i := c])\<rparr>)"
      using ht_index_ok [OF t2(1,2), of k] by metis
    then show thesis using that [of i] t2(3) by simp
  qed
  have "count t + 1 < 2 ^ 31" "0 \<le> count t" using ht_count_card [OF rep] room by simp_all
  then have ok: "int32_ok (count t + 1)" by (simp add: int32_ok_def)
  show ?thesis
    unfolding ht_insert_new_def Let_def g
    using ht_push_ok [OF t2(1,2) none i(2,3), of v] i(1,4,5) t2(4,5) ok by simp
qed

lemma ht_put_ok:
  assumes rep: "ht_represents hash lf t m" and room: "card (dom m) < 2 ^ 28"
  shows "\<exists>t'. ht_put hash k v t = Inr (case m k of Some old \<Rightarrow> old | None \<Rightarrow> nullVal t, t') \<and>
    ht_represents hash lf t' (m(k \<mapsto> v)) \<and> nullVal t' = nullVal t"
proof (cases "tableLength t = 0")
  case True
  then have "m k = None" using rep by (auto simp: ht_represents_def)
  then show ?thesis using ht_insert_new_ok [OF rep _ room, of k 0 v] True by (simp add: ht_put_def)
next
  case False
  then have tl: "0 < tableLength t" using rep by (auto simp: ht_represents_def)
  obtain i where i: "ht_index (hash k) (tableLength t) = Inr (int i)" "i < length (ht_buckets t)"
    "slot (hash k) (length (ht_buckets t)) = i" "ht_bucket (int i) t = Inr (ht_buckets t ! i)"
    "\<And>c. ht_set_bucket (int i) c t = Inr (t\<lparr>table := Some ((ht_buckets t)[i := c])\<rparr>)"
    using ht_index_ok [OF rep tl, of k] by metis
  show ?thesis
  proof (cases "chain_update (hash k) k v (ht_buckets t ! i)")
    case None
    then have "m k = None" using bucket_find [OF rep i(2,3)] by (simp add: chain_update_None)
    then show ?thesis using ht_insert_new_ok [OF rep _ room, of k "int i" v] None False i by (simp add: ht_put_def)
  next
    case (Some r)
    then obtain old c where r: "chain_update (hash k) k v (ht_buckets t ! i) = Some (old, c)" by (cases r) auto
    then show ?thesis using ht_overwrite_ok [OF rep i(2,3) r] False i by (simp add: ht_put_def)
  qed
qed

end

text \<open>The object as a map store.\<close>

definition ht_store :: "('k \<Rightarrow> int) \<Rightarrow> 'k \<Rightarrow> 'v \<Rightarrow> ('k, 'v) hash_table \<Rightarrow> ('k, 'v) hash_table res" where
  "ht_store hash k v t = rbind (ht_put hash k v t) (\<lambda>(_, t'). Inr t')"

definition ht_erase :: "('k \<Rightarrow> int) \<Rightarrow> 'k \<Rightarrow> ('k, 'v) hash_table \<Rightarrow> ('k, 'v) hash_table res" where
  "ht_erase hash k t = rbind (ht_remove hash k t) (\<lambda>(_, t'). Inr t')"

sublocale load_factor \<subseteq> hmap: map_store "ht_represents hash lf" "ht_store hash" "ht_erase hash"
  "ht_get hash" "ht_containsKey hash" nullVal "2 ^ 28" for hash :: "'k \<Rightarrow> int"
proof
  fix s :: "('k, 'v) hash_table" and m k v
  assume rep: "ht_represents hash lf s m"
  show "finite (dom m)" using ht_count_card [OF rep] by simp
  show "\<exists>s'. ht_erase hash k s = Inr s' \<and> ht_represents hash lf s' (m(k := None)) \<and> nullVal s' = nullVal s"
    using ht_remove_ok [OF rep, of k] by (force simp: ht_erase_def)
  show "ht_get hash k s = Inr (case m k of Some v \<Rightarrow> v | None \<Rightarrow> nullVal s)" by (rule ht_get_ok [OF rep])
  show "ht_containsKey hash k s = Inr (k \<in> dom m)" by (rule ht_containsKey_ok [OF rep])
  assume "card (dom m) < 2 ^ 28"
  from ht_put_ok [OF rep this, of k v]
  show "\<exists>s'. ht_store hash k v s = Inr s' \<and> ht_represents hash lf s' (m(k \<mapsto> v)) \<and> nullVal s' = nullVal s"
    by (force simp: ht_store_def)
qed

subsection \<open>Iteration and copies\<close>

definition it_rest :: "('k, 'v) hentry list list \<Rightarrow> ('k, 'v) ht_iterator \<Rightarrow> ('k, 'v) hentry list" where
  "it_rest bs it = it_e it @ concat (drop (nat (eIndex it + 1)) bs)"

lemma it_advance_ok:
  "-1 \<le> eIndex it \<Longrightarrow> it_rest bs it \<noteq> [] \<Longrightarrow>
   \<exists>it'. it_advance bs it = Inr it' \<and> it_e it' \<noteq> [] \<and> it_rest bs it' = it_rest bs it \<and> -1 \<le> eIndex it' \<and> position it' = position it"
proof (induction bs it rule: it_advance.induct)
  case (1 bs it)
  show ?case
  proof (cases "it_e it = []")
    case False
    then show ?thesis using "1.prems" by (subst it_advance.simps) simp
  next
    case True
    let ?n = "nat (eIndex it + 1)"
    let ?it = "it\<lparr>eIndex := eIndex it + 1, it_e := bs ! ?n\<rparr>"
    have n: "?n < length bs"
      using "1.prems"(2) True by (auto simp: it_rest_def not_less [symmetric] intro: ccontr)
    then have d: "drop ?n bs = bs ! ?n # drop (Suc ?n) bs" by (simp add: Cons_nth_drop_Suc)
    have "nat (eIndex it + 1 + 1) = Suc ?n" using "1.prems"(1) by simp
    then have r: "it_rest bs ?it = it_rest bs it" using True d by (simp add: it_rest_def)
    have g: "-1 \<le> eIndex it \<and> eIndex it + 1 < int (length bs)" using n "1.prems"(1) by auto
    have "it_advance bs it = it_advance bs ?it" using True g by (subst it_advance.simps) simp
    then show ?thesis using "1.IH" True g r "1.prems" by auto
  qed
qed

lemma it_getNext_ok:
  assumes "it_rest (ht_buckets t) it = e # es" "-1 \<le> eIndex it"
  shows "\<exists>it'. it_getNext t it = Inr (e, it') \<and> it_rest (ht_buckets t) it' = es \<and> -1 \<le> eIndex it' \<and> position it' = position it + 1"
proof -
  let ?bs = "ht_buckets t"
  have "\<exists>it'. (if it_e it \<noteq> [] then Inr it else case table t of None \<Rightarrow> Inl Undefined | Some bs \<Rightarrow> it_advance bs it) = Inr it' \<and>
    it_e it' \<noteq> [] \<and> it_rest ?bs it' = it_rest ?bs it \<and> -1 \<le> eIndex it' \<and> position it' = position it"
  proof (cases "it_e it = []")
    case False
    then show ?thesis using assms by simp
  next
    case True
    then have "?bs \<noteq> []" using assms(1) by (auto simp: it_rest_def)
    then have "table t = Some ?bs" by (auto simp: ht_buckets_def split: option.splits)
    then show ?thesis using True it_advance_ok [OF assms(2), of ?bs] assms(1) by simp
  qed
  then obtain it' where it': "(if it_e it \<noteq> [] then Inr it else case table t of None \<Rightarrow> Inl Undefined | Some bs \<Rightarrow> it_advance bs it) = Inr it'"
    "it_e it' \<noteq> []" "it_rest ?bs it' = e # es" "-1 \<le> eIndex it'" "position it' = position it" using assms(1) by auto
  then show ?thesis unfolding it_getNext_def it'(1) by (cases "it_e it'") (auto simp: it_rest_def)
qed

lemma it_collect_ok:
  "position it + int (length (it_rest (ht_buckets t) it)) = count t \<Longrightarrow> -1 \<le> eIndex it \<Longrightarrow>
   it_collect t it = Inr (it_rest (ht_buckets t) it)"
proof (induction "it_rest (ht_buckets t) it" arbitrary: it)
  case Nil
  then show ?case by (subst it_collect.simps) (simp add: it_hasNext_def)
next
  case (Cons e es)
  obtain it' where it': "it_getNext t it = Inr (e, it')" "it_rest (ht_buckets t) it' = es" "-1 \<le> eIndex it'" "position it' = position it + 1"
    using it_getNext_ok [OF Cons.hyps(2) [symmetric] Cons.prems(2)] by blast
  have "it_hasNext t it" using Cons.prems(1) Cons.hyps(2) [symmetric] by (simp add: it_hasNext_def)
  then show ?case using Cons.hyps(1) [of it'] Cons.hyps(2) [symmetric] Cons.prems(1) it'
    by (subst it_collect.simps) simp
qed

lemma iterate_ok: "ht_represents hash lf t m \<Longrightarrow> it_collect t it_new = Inr (concat (ht_buckets t))"
  using it_collect_ok [of it_new t] by (simp add: it_new_def it_rest_def ht_represents_def)

definition enter :: "('k, 'v) hentry \<Rightarrow> ('k \<rightharpoonup> 'v) \<Rightarrow> ('k \<rightharpoonup> 'v)" where
  "enter e m = m(ekey e \<mapsto> evalue e)"

lemma fold_entries:
  "distinct (map ekey es) \<Longrightarrow>
   fold enter es m = m ++ map_of (map (\<lambda>e. (ekey e, evalue e)) es)"
proof (induction es arbitrary: m)
  case Nil
  then show ?case by simp
next
  case (Cons e es)
  let ?M = "map_of (map (\<lambda>e. (ekey e, evalue e)) es)"
  have "ekey e \<notin> dom ?M" using Cons.prems by (auto simp: dom_map_of_conv_image_fst)
  then have "enter e m ++ ?M = m ++ ?M(ekey e \<mapsto> evalue e)"
    unfolding enter_def map_add_upd by (rule map_add_upd_left)
  moreover have "fold enter (e # es) m = enter e m ++ ?M" using Cons by simp
  ultimately show ?case by (simp del: fun_upd_apply)
qed

context load_factor
begin

lemma put_entries_ok:
  "ht_represents hash lf t m \<Longrightarrow> card (dom m) + length es \<le> 2 ^ 28 \<Longrightarrow>
   \<exists>t'. put_entries hash es t = Inr t' \<and> ht_represents hash lf t' (fold enter es m) \<and> nullVal t' = nullVal t"
proof (induction es arbitrary: t m)
  case Nil
  then show ?case by simp
next
  case (Cons e es)
  have "card (dom m) < 2 ^ 28" using Cons.prems(2) by simp
  then obtain t1 old where t1: "ht_put hash (ekey e) (evalue e) t = Inr (old, t1)"
    "ht_represents hash lf t1 (enter e m)" "nullVal t1 = nullVal t"
    unfolding enter_def using ht_put_ok [OF Cons.prems(1)] by blast
  have "card (dom (enter e m)) \<le> Suc (card (dom m))"
    using ht_count_card [OF Cons.prems(1)] by (simp add: card_insert_if enter_def)
  then show ?case using Cons.IH [of t1 "enter e m"] Cons.prems(2) t1 by simp
qed

lemma ht_copyFrom_ok:
  assumes src: "ht_represents hash lf' src m" and tgt: "ht_represents hash lf t Map.empty" and n: "card (dom m) \<le> 2 ^ 28"
  shows "\<exists>t'. ht_copyFrom hash t src = Inr t' \<and> ht_represents hash lf t' m \<and> nullVal t' = nullVal src"
proof -
  let ?es = "concat (ht_buckets src)"
  have e: "entries_are ?es m" using src by (simp add: ht_represents_def)
  have t: "ht_represents hash lf (t\<lparr>nullVal := nullVal src\<rparr>) Map.empty"
    using tgt by (simp add: ht_represents_def ht_buckets_def)
  have "length ?es \<le> 2 ^ 28" using entries_are_card [OF e] n by simp
  then show ?thesis using put_entries_ok [OF t, of ?es] fold_entries [of ?es Map.empty] e iterate_ok [OF src]
    by (auto simp: ht_copyFrom_def entries_are_def)
qed

lemma ht_init_represents: "0 \<le> cap \<Longrightarrow> cap < 2 ^ 31 \<Longrightarrow> ht_represents hash lf (ht_init null cap lf) Map.empty"
  by (simp add: ht_represents_def ht_init_def ht_buckets_def placed_def)

lemma nullVal_ht_init [simp]: "nullVal (ht_init null cap lf) = null"
  by (simp add: ht_init_def)

lemmas ht_history = hmap.run_get [OF ht_init_represents, unfolded nullVal_ht_init]

end

text \<open>The load factor 0.75 of the constructors; the products are exact for the sizes a float can count.\<close>

definition lf_default :: "int \<Rightarrow> int" where
  "lf_default c = (3 * c) div 4"

interpretation lf075: load_factor lf_default
  by standard (auto simp: lf_default_def)

subsection \<open>Properties\<close>

text \<open>
  C9. A hash table implements a finite map: after any history of \<open>put\<close> and \<open>remove\<close>, with the
  rehashes it triggers, \<open>containsKey\<close> and \<open>get\<close> answer as the map built by that history
  does, whatever the hash function, and no step accesses memory out of bounds or divides by
  zero. The load factor is any for which a table of capacity \<open>c\<close> has a threshold of at
  least \<open>(c - 1) / 2\<close>.
\<close>

theorem hash_table_refines_map:
  assumes "load_factor lf" "0 \<le> cap" "cap < 2 ^ 31" "length cs \<le> 2 ^ 28"
  shows "\<exists>t. impl_run (ht_store hash) (ht_erase hash) cs (ht_init null cap lf) = Inr t \<and>
    (\<forall>k. ht_containsKey hash k t = Inr (k \<in> dom (spec_run cs Map.empty)) \<and>
         ht_get hash k t = Inr (case spec_run cs Map.empty k of Some v \<Rightarrow> v | None \<Rightarrow> null))"
  by (rule load_factor.ht_history [OF assms])

text \<open>
  Rehashing a table keeps the map it represents, whatever the old capacity, and gives it a
  capacity of at least 5 that is more than twice the old one.
\<close>

lemma rehash_preserves:
  assumes "ht_represents hash lf t m" "tableLength t * 2 + 1 < 2 ^ 31"
  shows "\<exists>t'. ht_rehash t = Inr t' \<and> ht_represents hash lf t' m \<and> count t' = count t \<and>
    tableLength t' = max 5 (2 * tableLength t + 1)"
proof -
  obtain t' where t': "ht_rehash t = Inr t'" "ht_represents hash lf t' m" "count t' = count t"
    using ht_rehash_ok [OF assms] by blast
  have "tableLength t' = max 5 (2 * tableLength t + 1)"
    using t'(1) by (auto simp: ht_rehash_def Let_def rbind_eq_Inr_iff chk32_eq_Inr_iff mult.commute split: option.splits if_splits)
  then show ?thesis using t' by blast
qed

text \<open>
  Copying: an iterator over a table visits every entry exactly once, and copy construction
  and assignment give a table that represents the same map with the same null value,
  whatever was in the target before.
\<close>

lemma hash_table_copies:
  assumes "load_factor lf" "ht_represents hash lf' src m" "card (dom m) \<le> 2 ^ 28" "ht_represents hash lf this old"
  shows "(\<exists>es. it_collect src it_new = Inr es \<and> entries_are es m) \<and>
    (\<exists>t. ht_copy hash null lf src = Inr t \<and> ht_represents hash lf t m \<and> nullVal t = nullVal src) \<and>
    (\<exists>t. ht_assign hash this src = Inr t \<and> ht_represents hash lf t m \<and> nullVal t = nullVal src)"
proof (intro conjI)
  show "\<exists>es. it_collect src it_new = Inr es \<and> entries_are es m"
    using iterate_ok [OF assms(2)] assms(2) by (auto simp: ht_represents_def)
  have "ht_represents hash lf (ht_init null 11 lf) Map.empty"
    by (rule load_factor.ht_init_represents [OF assms(1)]) simp_all
  from load_factor.ht_copyFrom_ok [OF assms(1,2) this assms(3)]
  show "\<exists>t. ht_copy hash null lf src = Inr t \<and> ht_represents hash lf t m \<and> nullVal t = nullVal src"
    by (simp add: ht_copy_def)
  obtain t0 where t0: "ht_removeAll this = Inr t0" "ht_represents hash lf t0 Map.empty"
    using ht_removeAll_ok [OF assms(4)] by blast
  from load_factor.ht_copyFrom_ok [OF assms(1,2) t0(2) assms(3)] t0(1)
  show "\<exists>t. ht_assign hash this src = Inr t \<and> ht_represents hash lf t m \<and> nullVal t = nullVal src"
    by (simp add: ht_assign_def)
qed

text \<open>
  A table that has been moved from by the move constructor cannot be used again: only its
  \<open>table\<close> pointer is reset, so with entries in it every lookup of a key and every insertion
  dereferences the null pointer.
\<close>

lemma moved_from_table_unusable:
  assumes "ht_represents hash lf t m" "0 < count t"
  shows "ht_get hash k (snd (ht_move t)) = Inl Undefined \<and> ht_put hash k v (snd (ht_move t)) = Inl Undefined"
proof -
  have "0 < tableLength t" using assms by (auto simp: ht_represents_def)
  then show ?thesis using assms(2)
    by (simp add: ht_move_def ht_get_def ht_put_def ht_index_def ht_bucket_def)
qed

subsection \<open>Instances\<close>

definition demo_hash :: "int \<Rightarrow> int" where
  "demo_hash k = k * 31"

definition demo_table :: "(int, string) hash_table" where
  "demo_table = (case impl_run (ht_store demo_hash) (ht_erase demo_hash) [Put 1 ''a'', Put 6 ''b''] (ht_init ''z'' 0 lf_default)
     of Inr t \<Rightarrow> t | Inl _ \<Rightarrow> ht_init ''z'' 0 lf_default)"

lemma demo_table_represents:
  "ht_represents demo_hash lf_default demo_table [1 \<mapsto> ''a'', 6 \<mapsto> ''b''] \<and> 0 < count demo_table \<and> tableLength demo_table = 5"
proof -
  let ?cs = "[Put 1 ''a'', Put 6 ''b''] :: (int, string) map_cmd list"
  have e: "ht_represents demo_hash lf_default (ht_init ''z'' 0 lf_default) Map.empty"
    by (rule lf075.ht_init_represents) simp_all
  obtain t where t: "impl_run (ht_store demo_hash) (ht_erase demo_hash) ?cs (ht_init ''z'' 0 lf_default) = Inr t"
    "ht_represents demo_hash lf_default t (spec_run ?cs Map.empty)"
    using lf075.hmap.run_ok [OF e, of ?cs] by auto
  have "demo_table = t" using t(1) by (simp add: demo_table_def)
  moreover have "tableLength demo_table = 5" by code_simp
  ultimately show ?thesis using t(2) ht_count_card [OF t(2)] by (simp add: spec_run_def)
qed

theorem hash_table_refines_map_witness:
  "\<exists>t. impl_run (ht_store demo_hash) (ht_erase demo_hash) [Put 3 ''c'', Put 8 ''a'', Put 3 ''d'', Drop 8] (ht_init ''none'' 0 lf_default) = Inr t \<and>
    ht_get demo_hash 3 t = Inr ''d'' \<and> ht_get demo_hash 8 t = Inr ''none'' \<and> ht_containsKey demo_hash 8 t = Inr False"
proof -
  let ?cs = "[Put 3 ''c'', Put 8 ''a'', Put 3 ''d'', Drop (8::int)]"
  have s: "spec_run ?cs Map.empty = [3 \<mapsto> ''d'']" by (auto simp: spec_run_def fun_eq_iff)
  from hash_table_refines_map [OF lf075.load_factor_axioms, of 0 ?cs demo_hash "''none''"] show ?thesis
    unfolding s by auto
qed

lemma rehash_preserves_witness:
  "\<exists>t'. ht_rehash demo_table = Inr t' \<and> ht_represents demo_hash lf_default t' [1 \<mapsto> ''a'', 6 \<mapsto> ''b''] \<and> tableLength t' = 11"
  using rehash_preserves [of demo_hash lf_default demo_table "[1 \<mapsto> ''a'', 6 \<mapsto> ''b'']"] demo_table_represents by auto

lemma hash_table_copies_witness:
  "\<exists>t. ht_copy demo_hash ''z'' lf_default demo_table = Inr t \<and> ht_represents demo_hash lf_default t [1 \<mapsto> ''a'', 6 \<mapsto> ''b'']"
  using hash_table_copies [OF lf075.load_factor_axioms, of demo_hash lf_default demo_table "[1 \<mapsto> ''a'', 6 \<mapsto> ''b'']" demo_table
      "[1 \<mapsto> ''a'', 6 \<mapsto> ''b'']" "''z''"] demo_table_represents by auto

lemma moved_from_table_unusable_instance:
  "ht_get demo_hash 1 (snd (ht_move demo_table)) = Inl Undefined"
  using moved_from_table_unusable [of demo_hash lf_default demo_table "[1 \<mapsto> ''a'', 6 \<mapsto> ''b'']" 1] demo_table_represents by auto

end
