(* ===== verification/LRUCache.thy ===== *)
theory LRUCache
  imports HashTable
begin

text \<open>
  \<^verbatim>\<open>engine/util/lru/lru_cache_using_engine3.h\<close>: a cache of a function with a bounded number of
  records. The key history \<open>_key_tracker\<close> is a \<open>std::list\<close>; its nodes have identities, which is what the
  iterators kept in the table are. The table is a \<open>SynchronizedHashTable\<close> whose own locking is
  reentrant (a \<open>Locker\<close> does nothing when its thread holds the lock), so each section under the lock is
  one function here and \<open>operator()\<close>, which takes the lock twice, is two.
\<close>

subsection \<open>State\<close>

record 'v lru_entry =
  le_value :: 'v
  le_iter :: nat
  accessCount :: "32 word"

type_synonym 'k key_tracker = "(nat \<times> 'k) list"

record ('k, 'v) lru_cache =
  capacity :: "64 word"
  key_tracker :: "'k key_tracker"
  next_node :: nat
  key_to_value :: "('k, 'v lru_entry) hash_table"
  minAccessCount :: int
  hitCount :: "32 word"
  missCount :: "32 word"

text \<open>The comparison with \<open>int max\<close> converts it to unsigned; the loop around \<open>compare_exchange\<close> makes it one step.\<close>

definition incrementAccessCount :: "int \<Rightarrow> 'v lru_entry \<Rightarrow> bool \<times> 'v lru_entry" where
  "incrementAccessCount maxCount e =
     (let newCount = accessCount e + 1 in
      if newCount = word_of_int maxCount then (True, e\<lparr>accessCount := 0\<rparr>) else (False, e\<lparr>accessCount := newCount\<rparr>))"

text \<open>\<open>erase(it)\<close> and \<open>splice(end(), self, it)\<close> of the list; both need a node of the list.\<close>

definition tr_erase :: "nat \<Rightarrow> 'k key_tracker \<Rightarrow> 'k key_tracker res" where
  "tr_erase it l = (if it \<in> fst ` set l then Inr (filter (\<lambda>x. fst x \<noteq> it) l) else Inl Undefined)"

definition tr_splice_end :: "nat \<Rightarrow> 'k key_tracker \<Rightarrow> 'k key_tracker res" where
  "tr_splice_end it l =
     (case find (\<lambda>x. fst x = it) l of None \<Rightarrow> Inl Undefined | Some x \<Rightarrow> Inr (filter (\<lambda>y. fst y \<noteq> it) l @ [x]))"

text \<open>Writing the value of an entry through the pointer that \<open>getEntryUnsafe\<close> returned.\<close>

definition entry_write :: "('k \<Rightarrow> int) \<Rightarrow> 'k \<Rightarrow> 'v \<Rightarrow> ('k, 'v) hash_table \<Rightarrow> ('k, 'v) hash_table res" where
  "entry_write hash k v t =
     rbind (ht_index (hash k) (tableLength t)) (\<lambda>i. rbind (ht_bucket i t) (\<lambda>b.
     case chain_update (hash k) k v b of None \<Rightarrow> Inl Undefined | Some (_, b') \<Rightarrow> ht_set_bucket i b' t))"

subsection \<open>Operations\<close>

definition lru_new :: "'v lru_entry \<Rightarrow> 64 word \<Rightarrow> int \<Rightarrow> ('k, 'v) lru_cache res" where
  "lru_new null c accessCountToPromote =
     (if c \<noteq> 0 \<and> 0 < accessCountToPromote
      then Inr \<lparr>capacity = c, key_tracker = [], next_node = 0, key_to_value = ht_init null 0 lf_default,
                minAccessCount = accessCountToPromote, hitCount = 0, missCount = 0\<rparr>
      else Inl AssertionFailure)"

definition lru_clear :: "('k, 'v) lru_cache \<Rightarrow> ('k, 'v) lru_cache res" where
  "lru_clear c = rbind (ht_removeAll (key_to_value c)) (\<lambda>t.
     Inr (c\<lparr>key_to_value := t, key_tracker := [], hitCount := 0, missCount := 0\<rparr>))"

definition lru_evict :: "('k \<Rightarrow> int) \<Rightarrow> ('k, 'v) lru_cache \<Rightarrow> ('v \<times> ('k, 'v) lru_cache) res" where
  "lru_evict hash c =
     (if key_tracker c = [] then Inl AssertionFailure
      else rbind (ht_remove hash (snd (hd (key_tracker c))) (key_to_value c)) (\<lambda>(ret, t).
           Inr (le_value ret, c\<lparr>key_to_value := t, key_tracker := tl (key_tracker c)\<rparr>)))"

definition lru_insert :: "('k \<Rightarrow> int) \<Rightarrow> 'k \<Rightarrow> 'v \<Rightarrow> ('k, 'v) lru_cache \<Rightarrow> (bool \<times> ('k, 'v) lru_cache) res" where
  "lru_insert hash k v c =
     rbind (ht_containsKey hash k (key_to_value c)) (\<lambda>found.
     if found then Inr (False, c)
     else rbind (if capacity c \<le> word_of_int (ht_size (key_to_value c))
                 then rbind (lru_evict hash c) (\<lambda>(_, c). Inr c) else Inr c) (\<lambda>c.
       let it = next_node c;
           c = c\<lparr>key_tracker := key_tracker c @ [(it, k)], next_node := it + 1\<rparr> in
       rbind (ht_put hash k \<lparr>le_value = v, le_iter = it, accessCount = 0\<rparr> (key_to_value c)) (\<lambda>(_, t).
       Inr (True, c\<lparr>key_to_value := t\<rparr>))))"

definition lru_remove :: "('k \<Rightarrow> int) \<Rightarrow> 'k \<Rightarrow> ('k, 'v) lru_cache \<Rightarrow> ('k, 'v) lru_cache res" where
  "lru_remove hash k c =
     rbind (ht_containsKey hash k (key_to_value c)) (\<lambda>found.
     if \<not> found then Inr c
     else rbind (ht_remove hash k (key_to_value c)) (\<lambda>(entry, t).
          rbind (tr_erase (le_iter entry) (key_tracker c)) (\<lambda>tr.
          Inr (c\<lparr>key_to_value := t, key_tracker := tr\<rparr>))))"

text \<open>\<open>operator()\<close>: the section under the read lock, and the promotion under the write lock.\<close>

datatype 'v lookup = Miss | Hit 'v | Promote 'v

definition lru_lookup :: "('k \<Rightarrow> int) \<Rightarrow> 'k \<Rightarrow> ('k, 'v) lru_cache \<Rightarrow> ('v lookup \<times> ('k, 'v) lru_cache) res" where
  "lru_lookup hash k c =
     rbind (ht_getEntry hash k (key_to_value c)) (\<lambda>entry.
     case entry of
       None \<Rightarrow> Inr (Miss, c\<lparr>missCount := missCount c + 1\<rparr>)
     | Some e \<Rightarrow>
         let value = le_value (evalue e); (promote, e') = incrementAccessCount (minAccessCount c) (evalue e) in
         rbind (entry_write hash k e' (key_to_value c)) (\<lambda>t.
         Inr (if promote then Promote value else Hit value, c\<lparr>key_to_value := t, hitCount := hitCount c + 1\<rparr>)))"

definition lru_promote :: "('k \<Rightarrow> int) \<Rightarrow> 'k \<Rightarrow> ('k, 'v) lru_cache \<Rightarrow> ('k, 'v) lru_cache res" where
  "lru_promote hash k c =
     rbind (ht_getEntry hash k (key_to_value c)) (\<lambda>entry.
     case entry of
       None \<Rightarrow> Inr c
     | Some e \<Rightarrow> rbind (tr_splice_end (le_iter (evalue e)) (key_tracker c)) (\<lambda>tr. Inr (c\<lparr>key_tracker := tr\<rparr>)))"

definition lru_call :: "('k \<Rightarrow> int) \<Rightarrow> ('k \<Rightarrow> 'v) \<Rightarrow> 'k \<Rightarrow> ('k, 'v) lru_cache \<Rightarrow> ('v \<times> ('k, 'v) lru_cache) res" where
  "lru_call hash fn k c =
     rbind (lru_lookup hash k c) (\<lambda>(r, c).
     case r of
       Miss \<Rightarrow> let v = fn k in rbind (lru_insert hash k v c) (\<lambda>(_, c). Inr (v, c))
     | Promote value \<Rightarrow> rbind (lru_promote hash k c) (\<lambda>c. Inr (value, c))
     | Hit value \<Rightarrow> Inr (value, c))"

definition getHitCount :: "('k, 'v) lru_cache \<Rightarrow> int" where
  "getHitCount c = sint (hitCount c)"

definition getMissCount :: "('k, 'v) lru_cache \<Rightarrow> int" where
  "getMissCount c = sint (missCount c)"

definition lru_getSize :: "('k, 'v) lru_cache \<Rightarrow> int" where
  "lru_getSize c = ht_size (key_to_value c)"

text \<open>The cache of a function of two arguments; \<open>hash2\<close> is \<open>_fn->hash\<close>, which makes the key.\<close>

definition lru2_insert ::
  "('k \<Rightarrow> int) \<Rightarrow> ('a \<Rightarrow> 'b \<Rightarrow> 'k) \<Rightarrow> 'a \<Rightarrow> 'b \<Rightarrow> 'v \<Rightarrow> ('k, 'v) lru_cache \<Rightarrow> (bool \<times> ('k, 'v) lru_cache) res" where
  "lru2_insert hash hash2 k k2 v c = lru_insert hash (hash2 k k2) v c"

definition lru2_remove ::
  "('k \<Rightarrow> int) \<Rightarrow> ('a \<Rightarrow> 'b \<Rightarrow> 'k) \<Rightarrow> 'a \<Rightarrow> 'b \<Rightarrow> ('k, 'v) lru_cache \<Rightarrow> ('k, 'v) lru_cache res" where
  "lru2_remove hash hash2 k k2 c = lru_remove hash (hash2 k k2) c"

definition lru2_call ::
  "('k \<Rightarrow> int) \<Rightarrow> ('a \<Rightarrow> 'b \<Rightarrow> 'k) \<Rightarrow> ('a \<Rightarrow> 'b \<Rightarrow> 'v) \<Rightarrow> 'a \<Rightarrow> 'b \<Rightarrow> ('k, 'v) lru_cache \<Rightarrow> ('v \<times> ('k, 'v) lru_cache) res" where
  "lru2_call hash hash2 fn k k2 c =
     rbind (lru_lookup hash (hash2 k k2) c) (\<lambda>(r, c).
     case r of
       Miss \<Rightarrow> let v = fn k k2 in rbind (lru2_insert hash hash2 k k2 v c) (\<lambda>(_, c). Inr (v, c))
     | Promote value \<Rightarrow> rbind (lru_promote hash (hash2 k k2) c) (\<lambda>c. Inr (value, c))
     | Hit value \<Rightarrow> Inr (value, c))"

subsection \<open>The invariant\<close>

text \<open>
  The table maps exactly the keys of the history, each to an entry that points back to its node,
  holds the value of the function and a count below the promotion limit.
\<close>

definition lru_inv :: "('k \<Rightarrow> int) \<Rightarrow> ('k \<Rightarrow> 'v) \<Rightarrow> ('k, 'v) lru_cache \<Rightarrow> ('k \<rightharpoonup> 'v lru_entry) \<Rightarrow> bool" where
  "lru_inv hash fn c m \<longleftrightarrow> ht_represents hash lf_default (key_to_value c) m \<and>
     distinct (map fst (key_tracker c)) \<and> distinct (map snd (key_tracker c)) \<and> dom m = snd ` set (key_tracker c) \<and>
     (\<forall>k e. m k = Some e \<longrightarrow> (le_iter e, k) \<in> set (key_tracker c) \<and> le_value e = fn k \<and> uint (accessCount e) < minAccessCount c) \<and>
     (\<forall>x \<in> set (key_tracker c). fst x < next_node c) \<and> length (key_tracker c) \<le> unat (capacity c) \<and>
     0 < unat (capacity c) \<and> unat (capacity c) \<le> 2 ^ 28 \<and> 0 < minAccessCount c \<and> minAccessCount c < 2 ^ 31"

lemma lru_invD:
  assumes "lru_inv hash fn c m"
  shows "ht_represents hash lf_default (key_to_value c) m" "distinct (map fst (key_tracker c))" "distinct (map snd (key_tracker c))"
    "dom m = snd ` set (key_tracker c)" "\<And>k e. m k = Some e \<Longrightarrow> (le_iter e, k) \<in> set (key_tracker c)"
    "\<And>k e. m k = Some e \<Longrightarrow> le_value e = fn k" "\<And>k e. m k = Some e \<Longrightarrow> uint (accessCount e) < minAccessCount c"
    "\<And>x. x \<in> set (key_tracker c) \<Longrightarrow> fst x < next_node c" "length (key_tracker c) \<le> unat (capacity c)"
    "0 < unat (capacity c)" "unat (capacity c) \<le> 2 ^ 28" "0 < minAccessCount c" "minAccessCount c < 2 ^ 31"
    "finite (dom m)" "card (dom m) = length (key_tracker c)" "count (key_to_value c) = int (length (key_tracker c))"
proof -
  show "card (dom m) = length (key_tracker c)"
    using assms by (simp add: lru_inv_def) (metis distinct_card list.set_map length_map)
  then show "count (key_to_value c) = int (length (key_tracker c))"
    using assms ht_count_card [of hash lf_default "key_to_value c" m] by (simp add: lru_inv_def)
qed (use assms in \<open>auto simp: lru_inv_def\<close>)

lemma lru_size:
  assumes "lru_inv hash fn c m"
  shows "lru_getSize c \<le> uint (capacity c)"
proof -
  have "int (length (key_tracker c)) \<le> int (unat (capacity c))" using lru_invD(9) [OF assms] by (simp only: of_nat_le_iff)
  then show ?thesis using lru_invD(16) [OF assms] by (simp add: lru_getSize_def ht_size_def)
qed

text \<open>The recency list with the access counts, the abstract state of the cache.\<close>

definition lru_count :: "('k \<Rightarrow> int) \<Rightarrow> ('k, 'v) lru_cache \<Rightarrow> 'k \<Rightarrow> nat" where
  "lru_count hash c k =
     (case ht_getEntry hash k (key_to_value c) of Inr (Some e) \<Rightarrow> unat (accessCount (evalue e)) | _ \<Rightarrow> 0)"

definition lru_view :: "('k \<Rightarrow> int) \<Rightarrow> ('k, 'v) lru_cache \<Rightarrow> ('k \<times> nat) list" where
  "lru_view hash c = map (\<lambda>x. (snd x, lru_count hash c (snd x))) (key_tracker c)"

definition spec_access :: "nat \<Rightarrow> nat \<Rightarrow> 'k \<Rightarrow> ('k \<times> nat) list \<Rightarrow> ('k \<times> nat) list" where
  "spec_access cap limit k l =
     (case map_of l k of
        None \<Rightarrow> (if length l < cap then l else tl l) @ [(k, 0)]
      | Some n \<Rightarrow> if Suc n = limit then filter (\<lambda>x. fst x \<noteq> k) l @ [(k, 0)]
                  else map (\<lambda>x. if fst x = k then (k, Suc n) else x) l)"

lemma lru_count_eq: "ht_represents hash lf (key_to_value c) m \<Longrightarrow> m k = Some e \<Longrightarrow> lru_count hash c k = unat (accessCount e)"
  using ht_getEntry_ok [of hash lf "key_to_value c" m k] by (auto simp: lru_count_def)

lemma lru_view_eq:
  assumes "lru_inv hash fn c m"
  shows "lru_view hash c = map (\<lambda>x. (snd x, unat (accessCount (the (m (snd x)))))) (key_tracker c)"
proof -
  have "lru_count hash c (snd x) = unat (accessCount (the (m (snd x))))" if "x \<in> set (key_tracker c)" for x
  proof -
    have "snd x \<in> dom m" using lru_invD(4) [OF assms] that by simp
    then show ?thesis using lru_count_eq [OF lru_invD(1) [OF assms]] by auto
  qed
  then show ?thesis by (simp add: lru_view_def)
qed

lemma entry_write_ok:
  assumes "ht_represents hash lf t m" "m k = Some old"
  shows "\<exists>t'. entry_write hash k v t = Inr t' \<and> ht_represents hash lf t' (m(k \<mapsto> v))"
proof -
  have "0 < tableLength t" using assms by (fastforce simp: ht_represents_def entries_are_def)
  then obtain i where i: "ht_index (hash k) (tableLength t) = Inr (int i)" "i < length (ht_buckets t)"
    "slot (hash k) (length (ht_buckets t)) = i" "ht_bucket (int i) t = Inr (ht_buckets t ! i)"
    "\<And>c. ht_set_bucket (int i) c t = Inr (t\<lparr>table := Some ((ht_buckets t)[i := c])\<rparr>)"
    using ht_index_ok [OF assms(1), of k] by metis
  have "chain_find (hash k) k (ht_buckets t ! i) \<noteq> None" using bucket_find [OF assms(1) i(2,3)] assms(2) by auto
  then obtain r c where "chain_update (hash k) k v (ht_buckets t ! i) = Some (r, c)"
    by (cases "chain_update (hash k) k v (ht_buckets t ! i)") (auto simp: chain_update_None)
  then show ?thesis using ht_overwrite_ok [OF assms(1) i(2,3)] i by (simp add: entry_write_def)
qed

lemma find_node:
  "distinct (map fst l) \<Longrightarrow> (it, k) \<in> set l \<Longrightarrow> find (\<lambda>x. fst x = it) l = Some (it, k)"
  by (induction l) force+

text \<open>In a history with distinct nodes and distinct keys, dropping a node is dropping its key.\<close>

lemma node_key:
  "distinct (map fst l) \<Longrightarrow> distinct (map snd l) \<Longrightarrow> (it, k) \<in> set l \<Longrightarrow> x \<in> set l \<Longrightarrow> fst x = it \<longleftrightarrow> snd x = k"
  by (metis eq_key_imp_eq_value distinct_map inj_on_def prod.collapse fst_conv snd_conv)

lemma move_to_end:
  assumes "distinct (map fst l)" "distinct (map snd l)" "(it, k) \<in> set l" "tr = filter (\<lambda>x. snd x \<noteq> k) l @ [(it, k)]"
  shows "set tr = set l" "distinct (map fst tr)" "distinct (map snd tr)" "length tr = length l"
proof -
  note nk = node_key [OF assms(1-3)]
  show st: "set tr = set l" using assms(3,4) nk by (auto simp: prod_eq_iff)
  show d: "distinct (map fst tr)" "distinct (map snd tr)" using assms(1,2,4) nk by (auto simp: distinct_map inj_on_def)
  show "length tr = length l" using st d(1) assms(1) by (metis distinct_card distinct_map)
qed

lemma increment_ok:
  assumes "uint (accessCount e) < n" "n < 2 ^ 31" "incrementAccessCount n e = (p, e')"
  shows "p \<longleftrightarrow> Suc (unat (accessCount e)) = nat n" "le_value e' = le_value e" "le_iter e' = le_iter e" "uint (accessCount e') < n"
    "unat (accessCount e') = (if p then 0 else Suc (unat (accessCount e)))"
proof -
  have u: "uint (accessCount e + 1) = uint (accessCount e) + 1"
    using assms(1,2) by (simp add: uint_word_ariths mod_pos_pos_trivial)
  have "0 \<le> uint (accessCount e)" by simp
  then have "0 \<le> n" using assms(1) by linarith
  then have n: "uint (word_of_int n :: 32 word) = n" using assms(2) by (simp add: uint_word_of_int)
  have eq: "accessCount e + 1 = word_of_int n \<longleftrightarrow> uint (accessCount e) + 1 = n" using u n by (metis word_uint_eqI)
  have p: "p \<longleftrightarrow> uint (accessCount e) + 1 = n" and e': "e' = e\<lparr>accessCount := if p then 0 else accessCount e + 1\<rparr>"
    using assms(3) eq by (auto simp: incrementAccessCount_def Let_def split: if_splits)
  have un: "uint w = int (unat w)" for w :: "32 word" by simp
  have u': "unat (accessCount e + 1) = Suc (unat (accessCount e))" using u unfolding un by linarith
  show "p \<longleftrightarrow> Suc (unat (accessCount e)) = nat n" using p \<open>0 \<le> n\<close> unfolding un by linarith
  show "uint (accessCount e') < n" using e' p u assms(1) by auto
  show "unat (accessCount e') = (if p then 0 else Suc (unat (accessCount e)))" using e' u' by simp
  show "le_value e' = le_value e" "le_iter e' = le_iter e" using e' by simp_all
qed

lemma lru_lookup_miss:
  assumes "lru_inv hash fn c m" "m k = None"
  shows "lru_lookup hash k c = Inr (Miss, c\<lparr>missCount := missCount c + 1\<rparr>)"
  using ht_getEntry_ok [OF lru_invD(1) [OF assms(1)], of k] assms(2) by (auto simp: lru_lookup_def)

lemma lru_lookup_hit:
  assumes i: "lru_inv hash fn c m" and e: "m k = Some e"
  shows "\<exists>t e'. let p = (Suc (unat (accessCount e)) = nat (minAccessCount c));
      c' = c\<lparr>key_to_value := t, hitCount := hitCount c + 1\<rparr> in
    lru_lookup hash k c = Inr (if p then Promote (fn k) else Hit (fn k), c') \<and> lru_inv hash fn c' (m(k \<mapsto> e')) \<and>
    unat (accessCount e') = (if p then 0 else Suc (unat (accessCount e)))"
proof -
  obtain p e' where inc: "incrementAccessCount (minAccessCount c) e = (p, e')" by (cases "incrementAccessCount (minAccessCount c) e")
  note inc_ok = increment_ok [OF lru_invD(7) [OF i e] lru_invD(13) [OF i] inc]
  obtain t where t: "entry_write hash k e' (key_to_value c) = Inr t" "ht_represents hash lf_default t (m(k \<mapsto> e'))"
    using entry_write_ok [OF lru_invD(1) [OF i] e] by blast
  obtain h where "ht_getEntry hash k (key_to_value c) = Inr (Some h)" "evalue h = e"
    using ht_getEntry_ok [OF lru_invD(1) [OF i], of k] e by auto
  then have "lru_lookup hash k c = Inr (if p then Promote (fn k) else Hit (fn k), c\<lparr>key_to_value := t, hitCount := hitCount c + 1\<rparr>)"
    using inc t(1) lru_invD(6) [OF i e] by (simp add: lru_lookup_def)
  moreover have "lru_inv hash fn (c\<lparr>key_to_value := t, hitCount := hitCount c + 1\<rparr>) (m(k \<mapsto> e'))"
    using i t(2) inc_ok e by (auto simp: lru_inv_def)
  ultimately show ?thesis using inc_ok(1,5) by (intro exI [of _ t] exI [of _ e']) (simp add: Let_def)
qed

lemma lru_promote_ok:
  assumes i: "lru_inv hash fn c m"
  shows "\<exists>tr. lru_promote hash k c = Inr (c\<lparr>key_tracker := tr\<rparr>) \<and> lru_inv hash fn (c\<lparr>key_tracker := tr\<rparr>) m \<and>
    tr = (case m k of None \<Rightarrow> key_tracker c | Some e \<Rightarrow> filter (\<lambda>x. snd x \<noteq> k) (key_tracker c) @ [(le_iter e, k)])"
proof (cases "m k")
  case None
  then have "lru_promote hash k c = Inr c"
    using ht_getEntry_ok [OF lru_invD(1) [OF i], of k] by (auto simp: lru_promote_def)
  then show ?thesis using None i by simp
next
  case (Some e)
  let ?tr = "filter (\<lambda>x. snd x \<noteq> k) (key_tracker c) @ [(le_iter e, k)]"
  note d = lru_invD(2,3) [OF i] and mem = lru_invD(5) [OF i Some]
  have fl: "filter (\<lambda>x. fst x \<noteq> le_iter e) (key_tracker c) = filter (\<lambda>x. snd x \<noteq> k) (key_tracker c)"
    using node_key [OF d mem] by (intro filter_cong) auto
  obtain h where "ht_getEntry hash k (key_to_value c) = Inr (Some h)" "evalue h = e"
    using ht_getEntry_ok [OF lru_invD(1) [OF i], of k] Some by auto
  then have p: "lru_promote hash k c = Inr (c\<lparr>key_tracker := ?tr\<rparr>)"
    using find_node [OF d(1) mem] fl by (simp add: lru_promote_def tr_splice_end_def)
  then show ?thesis using i Some move_to_end [OF d mem refl] by (auto simp: lru_inv_def)
qed

lemma lru_drop_key:
  assumes i: "lru_inv hash fn c m" and t: "ht_represents hash lf_default t (m(k := None))" and tr: "tr = filter (\<lambda>x. snd x \<noteq> k) (key_tracker c)"
  shows "lru_inv hash fn (c\<lparr>key_to_value := t, key_tracker := tr\<rparr>) (m(k := None))"
proof -
  have "length tr \<le> unat (capacity c)" using lru_invD(9) [OF i] tr length_filter_le order_trans by blast
  moreover have "dom (m(k := None)) = snd ` set tr" using lru_invD(4) [OF i] tr by auto
  ultimately show ?thesis using i t unfolding lru_inv_def
    by (auto simp: tr distinct_map inj_on_def)
qed

lemma lru_evict_ok:
  assumes i: "lru_inv hash fn c m" and ne: "key_tracker c = (it, k0) # tr"
  shows "\<exists>t. lru_evict hash c = Inr (fn k0, c\<lparr>key_to_value := t, key_tracker := tr\<rparr>) \<and>
    lru_inv hash fn (c\<lparr>key_to_value := t, key_tracker := tr\<rparr>) (m(k0 := None))"
proof -
  have "k0 \<in> dom m" using lru_invD(4) [OF i] ne by simp
  then obtain e where e: "m k0 = Some e" by blast
  obtain t where t: "ht_remove hash k0 (key_to_value c) = Inr (e, t)" "ht_represents hash lf_default t (m(k0 := None))"
    using ht_remove_ok [OF lru_invD(1) [OF i], of k0] e by auto
  have "tr = filter (\<lambda>x. snd x \<noteq> k0) (key_tracker c)"
    using lru_invD(3) [OF i] ne by (auto intro!: filter_True [symmetric])
  then show ?thesis using lru_drop_key [OF i t(2)] t(1) ne lru_invD(6) [OF i e] by (intro exI [of _ t]) (simp add: lru_evict_def)
qed

lemma lru_remove_ok:
  assumes i: "lru_inv hash fn c m"
  shows "\<exists>t tr. lru_remove hash k c = Inr (c\<lparr>key_to_value := t, key_tracker := tr\<rparr>) \<and>
    lru_inv hash fn (c\<lparr>key_to_value := t, key_tracker := tr\<rparr>) (m(k := None)) \<and> tr = filter (\<lambda>x. snd x \<noteq> k) (key_tracker c)"
proof (cases "m k")
  case None
  then have "k \<notin> snd ` set (key_tracker c)" using lru_invD(4) [OF i] by blast
  then have "filter (\<lambda>x. snd x \<noteq> k) (key_tracker c) = key_tracker c" by (auto intro!: filter_True)
  moreover have "m(k := None) = m" using None by auto
  ultimately show ?thesis
    using None i ht_containsKey_ok [OF lru_invD(1) [OF i], of k] by (intro exI [of _ "key_to_value c"]) (simp add: lru_remove_def domIff)
next
  case (Some e)
  obtain t where t: "ht_remove hash k (key_to_value c) = Inr (e, t)" "ht_represents hash lf_default t (m(k := None))"
    using ht_remove_ok [OF lru_invD(1) [OF i], of k] Some by auto
  have mem: "(le_iter e, k) \<in> set (key_tracker c)" by (rule lru_invD(5) [OF i Some])
  have "filter (\<lambda>x. fst x \<noteq> le_iter e) (key_tracker c) = filter (\<lambda>x. snd x \<noteq> k) (key_tracker c)"
    using node_key [OF lru_invD(2,3) [OF i] mem] by (intro filter_cong) auto
  moreover have "le_iter e \<in> fst ` set (key_tracker c)" using mem by force
  ultimately show ?thesis
    using lru_drop_key [OF i t(2) refl] t(1) Some ht_containsKey_ok [OF lru_invD(1) [OF i], of k] 
    by (intro exI [of _ t]) (simp add: lru_remove_def tr_erase_def domIff)
qed

lemma lru_full:
  assumes "lru_inv hash fn c m"
  shows "capacity c \<le> word_of_int (ht_size (key_to_value c)) \<longleftrightarrow> \<not> length (key_tracker c) < unat (capacity c)"
proof -
  have "length (key_tracker c) < 2 ^ 64" using lru_invD(9,11) [OF assms] by simp
  then have "unat (word_of_nat (length (key_tracker c)) :: 64 word) = length (key_tracker c)" by (simp add: unat_of_nat)
  then show ?thesis using lru_invD(16) [OF assms] by (auto simp: ht_size_def word_le_nat_alt)
qed

lemma lru_add_key:
  assumes i: "lru_inv hash fn c m" and k: "m k = None" and room: "length (key_tracker c) < unat (capacity c)"
  shows "\<exists>t e. ht_put hash k \<lparr>le_value = fn k, le_iter = next_node c, accessCount = 0\<rparr> (key_to_value c) = Inr (e, t) \<and>
    lru_inv hash fn (c\<lparr>key_tracker := key_tracker c @ [(next_node c, k)], next_node := next_node c + 1, key_to_value := t\<rparr>)
      (m(k \<mapsto> \<lparr>le_value = fn k, le_iter = next_node c, accessCount = 0\<rparr>))"
proof -
  let ?e = "\<lparr>le_value = fn k, le_iter = next_node c, accessCount = 0\<rparr>"
  have "card (dom m) < 2 ^ 28" using room lru_invD(11,15) [OF i] by simp
  then obtain t e where t: "ht_put hash k ?e (key_to_value c) = Inr (e, t)" "ht_represents hash lf_default t (m(k \<mapsto> ?e))"
    using lf075.ht_put_ok [OF lru_invD(1) [OF i], of k ?e] by blast
  have "k \<notin> snd ` set (key_tracker c)" using k lru_invD(4) [OF i] by blast
  then have "lru_inv hash fn (c\<lparr>key_tracker := key_tracker c @ [(next_node c, k)], next_node := next_node c + 1, key_to_value := t\<rparr>) (m(k \<mapsto> ?e))"
    using i t(2) room unfolding lru_inv_def by (auto simp: less_Suc_eq)
  then show ?thesis using t(1) by blast
qed

lemma lru_insert_ok:
  assumes i: "lru_inv hash fn c m" and k: "m k = None"
  shows "\<exists>c' e. let l = key_tracker c; full = \<not> length l < unat (capacity c) in
    lru_insert hash k (fn k) c = Inr (True, c') \<and> key_tracker c' = (if full then tl l else l) @ [(next_node c, k)] \<and>
    lru_inv hash fn c' ((if full then m(snd (hd l) := None) else m)(k \<mapsto> e)) \<and> accessCount e = 0 \<and>
    capacity c' = capacity c \<and> minAccessCount c' = minAccessCount c"
proof -
  let ?l = "key_tracker c" and ?e = "\<lparr>le_value = fn k, le_iter = next_node c, accessCount = 0\<rparr>"
  have ck: "ht_containsKey hash k (key_to_value c) = Inr False"
    using ht_containsKey_ok [OF lru_invD(1) [OF i], of k] k by (simp add: domIff)
  show ?thesis
  proof (cases "length ?l < unat (capacity c)")
    case True
    then show ?thesis using lru_add_key [OF i k True] ck lru_full [OF i]
      by (auto simp: lru_insert_def Let_def intro!: exI [of _ ?e])
  next
    case False
    then obtain it k0 tr where l: "?l = (it, k0) # tr" using lru_invD(10) [OF i] by (cases ?l) auto
    obtain t where t: "lru_evict hash c = Inr (fn k0, c\<lparr>key_to_value := t, key_tracker := tr\<rparr>)"
      "lru_inv hash fn (c\<lparr>key_to_value := t, key_tracker := tr\<rparr>) (m(k0 := None))" using lru_evict_ok [OF i l] by blast
    have "length tr < unat (capacity c)" using l lru_invD(9) [OF i] by simp
    moreover have "(m(k0 := None)) k = None" using k by simp
    ultimately obtain t' e' where "ht_put hash k ?e t = Inr (e', t')"
      "lru_inv hash fn (c\<lparr>key_tracker := tr @ [(next_node c, k)], next_node := next_node c + 1, key_to_value := t'\<rparr>) (m(k0 := None, k \<mapsto> ?e))"
      using lru_add_key [OF t(2), of k] by auto
    then show ?thesis using t(1) ck lru_full [OF i] False l
      by (intro exI [of _ "c\<lparr>key_tracker := tr @ [(next_node c, k)], next_node := next_node c + 1, key_to_value := t'\<rparr>"] exI [of _ ?e])
        (simp add: lru_insert_def Let_def)
  qed
qed

lemma lru_insert_present: "lru_inv hash fn c m \<Longrightarrow> m k \<noteq> None \<Longrightarrow> lru_insert hash k v c = Inr (False, c)"
  using ht_containsKey_ok [OF lru_invD(1), of hash fn c m k] by (simp add: lru_insert_def domIff)

lemma lru_inv_counts [simp]:
  "lru_inv hash fn (c\<lparr>missCount := n\<rparr>) m = lru_inv hash fn c m" "lru_inv hash fn (c\<lparr>hitCount := n\<rparr>) m = lru_inv hash fn c m"
  by (simp_all add: lru_inv_def)

subsection \<open>Refinement of the recency list\<close>

lemma view_lookup:
  assumes "lru_inv hash fn c m"
  shows "map_of (lru_view hash c) k = map_option (\<lambda>e. unat (accessCount e)) (m k)"
proof (cases "m k")
  case None
  then have "k \<notin> snd ` set (key_tracker c)" using lru_invD(4) [OF assms] by blast
  then show ?thesis using None by (auto simp: lru_view_def map_of_eq_None_iff image_image)
next
  case (Some e)
  have "(k, unat (accessCount e)) \<in> set (lru_view hash c)"
    using lru_invD(5) [OF assms Some] Some unfolding lru_view_eq [OF assms] by force
  moreover have "distinct (map fst (lru_view hash c))" using lru_invD(3) [OF assms] by (simp add: lru_view_def comp_def)
  ultimately show ?thesis using Some by simp
qed

lemma view_hit:
  assumes i: "lru_inv hash fn c m" "lru_inv hash fn c' (m(k \<mapsto> e'))" and tr: "key_tracker c' = key_tracker c"
  shows "lru_view hash c' = map (\<lambda>x. if fst x = k then (k, unat (accessCount e')) else x) (lru_view hash c)"
  unfolding lru_view_eq [OF i(1)] lru_view_eq [OF i(2)] tr by simp

lemma view_promoted:
  assumes i: "lru_inv hash fn c m" "lru_inv hash fn c' (m(k \<mapsto> e'))"
    and tr: "key_tracker c' = filter (\<lambda>x. snd x \<noteq> k) (key_tracker c) @ [(it, k)]"
  shows "lru_view hash c' = filter (\<lambda>x. fst x \<noteq> k) (lru_view hash c) @ [(k, unat (accessCount e'))]"
  unfolding lru_view_eq [OF i(1)] lru_view_eq [OF i(2)] tr by (simp add: filter_map comp_def)

lemma view_inserted:
  assumes i: "lru_inv hash fn c m" and k: "m k = None"
    and i': "lru_inv hash fn c' ((if full then m(snd (hd (key_tracker c)) := None) else m)(k \<mapsto> e'))"
    and tr: "key_tracker c' = (if full then tl (key_tracker c) else key_tracker c) @ [(it, k)]"
    and full: "full \<longrightarrow> key_tracker c \<noteq> []"
  shows "lru_view hash c' = (if full then tl (lru_view hash c) else lru_view hash c) @ [(k, unat (accessCount e'))]"
proof -
  have nk: "snd x \<noteq> k" if "x \<in> set (key_tracker c)" for x using that k lru_invD(4) [OF i] by (metis domIff image_eqI)
  have hd: "snd x \<noteq> snd (hd (key_tracker c))" if "x \<in> set (tl (key_tracker c))" "full" for x
    using that full lru_invD(3) [OF i] by (cases "key_tracker c") auto
  have nk': "snd x \<noteq> k" if "x \<in> set (tl (key_tracker c))" for x using that nk [of x] by (cases "key_tracker c") auto
  show ?thesis unfolding lru_view_eq [OF i] lru_view_eq [OF i'] tr
    using nk nk' hd by (auto simp: map_tl [symmetric])
qed

lemma lru_call_ok:
  assumes i: "lru_inv hash fn c m"
  shows "\<exists>c' m'. lru_call hash fn k c = Inr (fn k, c') \<and> lru_inv hash fn c' m' \<and>
    capacity c' = capacity c \<and> minAccessCount c' = minAccessCount c \<and>
    lru_view hash c' = spec_access (unat (capacity c)) (nat (minAccessCount c)) k (lru_view hash c)"
proof (cases "m k")
  case None
  let ?full = "\<not> length (key_tracker c) < unat (capacity c)" and ?c = "c\<lparr>missCount := missCount c + 1\<rparr>"
  have i': "lru_inv hash fn ?c m" using i by simp
  obtain c' e where c': "lru_insert hash k (fn k) ?c = Inr (True, c')"
    "key_tracker c' = (if ?full then tl (key_tracker c) else key_tracker c) @ [(next_node c, k)]"
    "lru_inv hash fn c' ((if ?full then m(snd (hd (key_tracker c)) := None) else m)(k \<mapsto> e))" "accessCount e = 0"
    "capacity c' = capacity c" "minAccessCount c' = minAccessCount c"
    using lru_insert_ok [OF i' None] by (auto simp: Let_def)
  have "?full \<longrightarrow> key_tracker c \<noteq> []" using lru_invD(10) [OF i] by auto
  then have "lru_view hash c' = spec_access (unat (capacity c)) (nat (minAccessCount c)) k (lru_view hash c)"
    using view_inserted [OF i None c'(3,2)] c'(4) None view_lookup [OF i, of k] by (simp add: spec_access_def lru_view_def)
  then show ?thesis using c' lru_lookup_miss [OF i None] by (auto simp: lru_call_def)
next
  case (Some e)
  let ?p = "Suc (unat (accessCount e)) = nat (minAccessCount c)"
  obtain t e' where c': "lru_lookup hash k c = Inr (if ?p then Promote (fn k) else Hit (fn k), c\<lparr>key_to_value := t, hitCount := hitCount c + 1\<rparr>)"
    "lru_inv hash fn (c\<lparr>key_to_value := t, hitCount := hitCount c + 1\<rparr>) (m(k \<mapsto> e'))"
    "unat (accessCount e') = (if ?p then 0 else Suc (unat (accessCount e)))"
    using lru_lookup_hit [OF i Some] unfolding Let_def by blast
  let ?c = "c\<lparr>key_to_value := t, hitCount := hitCount c + 1\<rparr>"
  show ?thesis
  proof (cases ?p)
    case True
    obtain tr where tr: "lru_promote hash k ?c = Inr (?c\<lparr>key_tracker := tr\<rparr>)" "lru_inv hash fn (?c\<lparr>key_tracker := tr\<rparr>) (m(k \<mapsto> e'))"
      "tr = filter (\<lambda>x. snd x \<noteq> k) (key_tracker c) @ [(le_iter e', k)]"
      using lru_promote_ok [OF c'(2), of k] by auto
    have "lru_view hash (?c\<lparr>key_tracker := tr\<rparr>) = filter (\<lambda>x. fst x \<noteq> k) (lru_view hash c) @ [(k, 0)]"
      using view_promoted [OF i tr(2)] tr(3) c'(3) True by simp
    then show ?thesis using True c'(1) tr(1,2) Some view_lookup [OF i, of k]
      by (intro exI [of _ "?c\<lparr>key_tracker := tr\<rparr>"] exI [of _ "m(k \<mapsto> e')"]) (simp add: lru_call_def spec_access_def)
  next
    case False
    have "lru_view hash ?c = map (\<lambda>x. if fst x = k then (k, Suc (unat (accessCount e))) else x) (lru_view hash c)"
      using view_hit [OF i c'(2)] c'(3) False by simp
    then show ?thesis using False c'(1,2) Some view_lookup [OF i, of k]
      by (intro exI [of _ ?c] exI [of _ "m(k \<mapsto> e')"]) (simp add: lru_call_def spec_access_def)
  qed
qed

lemma lru_new_inv:
  assumes "c \<noteq> 0" "unat c \<le> 2 ^ 28" "0 < limit" "limit < 2 ^ 31"
  shows "\<exists>c0. lru_new null c limit = Inr c0 \<and> lru_inv hash fn c0 Map.empty \<and> capacity c0 = c \<and> minAccessCount c0 = limit \<and>
    lru_view hash c0 = []"
proof -
  have "ht_represents hash lf_default (ht_init null 0 lf_default) Map.empty" by (rule lf075.ht_init_represents) simp_all
  moreover have "0 < unat c" using assms(1) by (simp add: unat_gt_0)
  ultimately show ?thesis using assms by (auto simp: lru_new_def lru_inv_def lru_view_def)
qed

fun lru_calls :: "('k \<Rightarrow> int) \<Rightarrow> ('k \<Rightarrow> 'v) \<Rightarrow> 'k list \<Rightarrow> ('k, 'v) lru_cache \<Rightarrow> ('v list \<times> ('k, 'v) lru_cache) res" where
  "lru_calls hash fn [] c = Inr ([], c)"
| "lru_calls hash fn (k # ks) c =
     rbind (lru_call hash fn k c) (\<lambda>(v, c). rbind (lru_calls hash fn ks c) (\<lambda>(vs, c). Inr (v # vs, c)))"

lemma lru_calls_ok:
  "lru_inv hash fn c m \<Longrightarrow> \<exists>c' m'. lru_calls hash fn ks c = Inr (map fn ks, c') \<and> lru_inv hash fn c' m' \<and> capacity c' = capacity c \<and>
    lru_view hash c' = fold (spec_access (unat (capacity c)) (nat (minAccessCount c))) ks (lru_view hash c)"
proof (induction ks arbitrary: c m)
  case Nil
  then show ?case by auto
next
  case (Cons k ks)
  obtain c1 m1 where c1: "lru_call hash fn k c = Inr (fn k, c1)" "lru_inv hash fn c1 m1" "capacity c1 = capacity c"
    "minAccessCount c1 = minAccessCount c" "lru_view hash c1 = spec_access (unat (capacity c)) (nat (minAccessCount c)) k (lru_view hash c)"
    using lru_call_ok [OF Cons.prems, of k] by blast
  then show ?case using Cons.IH [OF c1(2)] by auto
qed

text \<open>
  The cache of two arguments is the cache of one, provided the keys \<open>hash2\<close> makes tell apart what the function
  tells apart.
\<close>

lemma lru2_call_eq:
  assumes "F (hash2 a b) = fn a b"
  shows "lru2_call hash hash2 fn a b c = lru_call hash F (hash2 a b) c"
  unfolding lru2_call_def lru_call_def lru2_insert_def assms ..

lemma lru2_call_ok:
  assumes "lru_inv hash F c m" "\<forall>a b. F (hash2 a b) = fn a b"
  shows "\<exists>c' m'. lru2_call hash hash2 fn a b c = Inr (fn a b, c') \<and> lru_inv hash F c' m'"
  using lru_call_ok [OF assms(1), of "hash2 a b"] assms(2) lru2_call_eq [of F hash2 a b fn hash c] by auto

subsection \<open>Threads\<close>

text \<open>
  Between the two sections of \<open>operator()\<close> other threads may do anything: a thread that missed is computing
  the value, one that is to promote waits for the write lock. An event is one section of one thread.
\<close>

datatype ('k, 'v) lru_pc = Idle | Computing 'k | Promoting 'k 'v

datatype 'k lru_event = Call nat 'k | Continue nat | RemoveKey 'k | Clear

record ('k, 'v) lru_sys =
  cache :: "('k, 'v) lru_cache"
  pcs :: "nat \<Rightarrow> ('k, 'v) lru_pc"
  returned :: "('k \<times> 'v) list"

fun lru_step :: "('k \<Rightarrow> int) \<Rightarrow> ('k \<Rightarrow> 'v) \<Rightarrow> 'k lru_event \<Rightarrow> ('k, 'v) lru_sys \<Rightarrow> ('k, 'v) lru_sys res" where
  "lru_step hash fn (Call t k) s =
     (if pcs s t \<noteq> Idle then Inr s
      else rbind (lru_lookup hash k (cache s)) (\<lambda>(r, c).
        Inr (case r of
               Miss \<Rightarrow> s\<lparr>cache := c, pcs := (pcs s)(t := Computing k)\<rparr>
             | Promote v \<Rightarrow> s\<lparr>cache := c, pcs := (pcs s)(t := Promoting k v)\<rparr>
             | Hit v \<Rightarrow> s\<lparr>cache := c, returned := returned s @ [(k, v)]\<rparr>)))"
| "lru_step hash fn (Continue t) s =
     (case pcs s t of
        Idle \<Rightarrow> Inr s
      | Computing k \<Rightarrow> rbind (lru_insert hash k (fn k) (cache s)) (\<lambda>(_, c).
          Inr (s\<lparr>cache := c, pcs := (pcs s)(t := Idle), returned := returned s @ [(k, fn k)]\<rparr>))
      | Promoting k v \<Rightarrow> rbind (lru_promote hash k (cache s)) (\<lambda>c.
          Inr (s\<lparr>cache := c, pcs := (pcs s)(t := Idle), returned := returned s @ [(k, v)]\<rparr>)))"
| "lru_step hash fn (RemoveKey k) s = rbind (lru_remove hash k (cache s)) (\<lambda>c. Inr (s\<lparr>cache := c\<rparr>))"
| "lru_step hash fn Clear s = rbind (lru_clear (cache s)) (\<lambda>c. Inr (s\<lparr>cache := c\<rparr>))"

fun lru_run :: "('k \<Rightarrow> int) \<Rightarrow> ('k \<Rightarrow> 'v) \<Rightarrow> 'k lru_event list \<Rightarrow> ('k, 'v) lru_sys \<Rightarrow> ('k, 'v) lru_sys res" where
  "lru_run hash fn [] s = Inr s"
| "lru_run hash fn (ev # evs) s = rbind (lru_step hash fn ev s) (lru_run hash fn evs)"

definition sys_inv :: "('k \<Rightarrow> int) \<Rightarrow> ('k \<Rightarrow> 'v) \<Rightarrow> 64 word \<Rightarrow> ('k, 'v) lru_sys \<Rightarrow> bool" where
  "sys_inv hash fn cap s \<longleftrightarrow> (\<exists>m. lru_inv hash fn (cache s) m) \<and> capacity (cache s) = cap \<and>
     (\<forall>t k v. pcs s t = Promoting k v \<longrightarrow> v = fn k) \<and> (\<forall>x \<in> set (returned s). snd x = fn (fst x))"

lemma lru_clear_ok:
  assumes "lru_inv hash fn c m"
  shows "\<exists>c'. lru_clear c = Inr c' \<and> lru_inv hash fn c' Map.empty \<and> capacity c' = capacity c"
  using ht_removeAll_ok [OF lru_invD(1) [OF assms]] assms by (auto simp: lru_clear_def lru_inv_def)

lemma lru_step_ok:
  assumes "sys_inv hash fn cap s"
  shows "\<exists>s'. lru_step hash fn ev s = Inr s' \<and> sys_inv hash fn cap s'"
proof -
  obtain m where i: "lru_inv hash fn (cache s) m" using assms by (auto simp: sys_inv_def)
  show ?thesis
  proof (cases ev)
    case (Call t k)
    show ?thesis
    proof (cases "m k")
      case None
      then show ?thesis using lru_lookup_miss [OF i None] Call assms by (auto simp: sys_inv_def)
    next
      case (Some e)
      let ?p = "Suc (unat (accessCount e)) = nat (minAccessCount (cache s))"
      obtain t' e' where r: "lru_lookup hash k (cache s) =
          Inr (if ?p then Promote (fn k) else Hit (fn k), (cache s)\<lparr>key_to_value := t', hitCount := hitCount (cache s) + 1\<rparr>)"
        "lru_inv hash fn ((cache s)\<lparr>key_to_value := t', hitCount := hitCount (cache s) + 1\<rparr>) (m(k \<mapsto> e'))"
        using lru_lookup_hit [OF i Some] unfolding Let_def by blast
      have "\<exists>m. lru_inv hash fn ((cache s)\<lparr>key_to_value := t', hitCount := hitCount (cache s) + 1\<rparr>) m" using r(2) by blast
      then show ?thesis using r(1) Call assms by (cases ?p) (auto simp: sys_inv_def simp del: lru_inv_counts)
    qed
  next
    case (Continue t)
    show ?thesis
    proof (cases "pcs s t")
      case Idle
      then show ?thesis using assms Continue by simp
    next
      case (Computing k)
      have "\<exists>b c' m'. lru_insert hash k (fn k) (cache s) = Inr (b, c') \<and> lru_inv hash fn c' m' \<and> capacity c' = capacity (cache s)"
        using lru_insert_ok [OF i, of k] lru_insert_present [OF i, of k] i by (cases "m k") (auto simp: Let_def)
      then show ?thesis using assms Continue Computing by (auto simp: sys_inv_def)
    next
      case (Promoting k v)
      then show ?thesis using lru_promote_ok [OF i, of k] assms Continue by (auto simp: sys_inv_def)
    qed
  next
    case (RemoveKey k)
    then show ?thesis using lru_remove_ok [OF i, of k] assms by (auto simp: sys_inv_def)
  next
    case Clear
    then show ?thesis using lru_clear_ok [OF i] assms by (auto simp: sys_inv_def)
  qed
qed

lemma lru_run_ok: "sys_inv hash fn cap s \<Longrightarrow> \<exists>s'. lru_run hash fn evs s = Inr s' \<and> sys_inv hash fn cap s'"
proof (induction evs arbitrary: s)
  case (Cons ev evs)
  obtain s1 where "lru_step hash fn ev s = Inr s1" "sys_inv hash fn cap s1" using lru_step_ok [OF Cons.prems] by blast
  then show ?case using Cons.IH by auto
qed simp

definition lru_start :: "('k, 'v) lru_cache \<Rightarrow> ('k, 'v) lru_sys" where
  "lru_start c = \<lparr>cache = c, pcs = (\<lambda>_. Idle), returned = []\<rparr>"

subsection \<open>Properties\<close>

text \<open>
  C22. The cache returns what the function returns and keeps its recency order: after any sequence of
  calls, each result is the value of the function, and the keys in the history with their access
  counts are those of the recency list - a hit counts, the hit that reaches the limit moves the
  key to the back and resets its count, a miss appends the key and, when the cache is full, drops
  the key at the front. At most \<open>capacity\<close> records are kept.
\<close>

theorem lru_cache_refines:
  assumes "c \<noteq> 0" "unat c \<le> 2 ^ 28" "0 < limit" "limit < 2 ^ 31"
  shows "\<exists>c0 c'. lru_new null c limit = Inr c0 \<and> lru_calls hash fn ks c0 = Inr (map fn ks, c') \<and>
    lru_view hash c' = fold (spec_access (unat c) (nat limit)) ks [] \<and> lru_getSize c' \<le> uint c"
proof -
  obtain c0 where c0: "lru_new null c limit = Inr c0" "lru_inv hash fn c0 Map.empty" "capacity c0 = c" "minAccessCount c0 = limit"
    "lru_view hash c0 = []" using lru_new_inv [OF assms] by blast
  obtain c' m' where c': "lru_calls hash fn ks c0 = Inr (map fn ks, c')" "lru_inv hash fn c' m'" "capacity c' = c"
    "lru_view hash c' = fold (spec_access (unat c) (nat limit)) ks []"
    using lru_calls_ok [OF c0(2), of ks] c0(3-5) by auto
  have "lru_getSize c' \<le> uint c" using lru_size [OF c'(2)] c'(3) by simp
  then show ?thesis using c0(1) c'(1,4) by blast
qed

text \<open>
  C21. Under any interleaving of calls, removals and clearing by any number of threads - between a
  miss and the insertion, and between the hit that promotes and the promotion, anything may
  happen - no step fails (no iterator is stale, no assertion fires, no memory is accessed out of
  bounds), every returned value is the function's, at most \<open>capacity\<close> records are kept, and the table
  holds exactly the keys of the history, each once.
\<close>

theorem lru_threads_safe:
  assumes "c \<noteq> 0" "unat c \<le> 2 ^ 28" "0 < limit" "limit < 2 ^ 31"
  shows "\<exists>c0 s. lru_new null c limit = Inr c0 \<and> lru_run hash fn evs (lru_start c0) = Inr s \<and>
    (\<forall>(k, v) \<in> set (returned s). v = fn k) \<and> lru_getSize (cache s) \<le> uint c \<and>
    distinct (map snd (key_tracker (cache s))) \<and>
    (\<forall>k. ht_containsKey hash k (key_to_value (cache s)) = Inr (k \<in> snd ` set (key_tracker (cache s))))"
proof -
  obtain c0 where c0: "lru_new null c limit = Inr c0" "lru_inv hash fn c0 Map.empty" "capacity c0 = c"
    using lru_new_inv [OF assms] by blast
  then have "sys_inv hash fn c (lru_start c0)" by (auto simp: sys_inv_def lru_start_def)
  then obtain s where s: "lru_run hash fn evs (lru_start c0) = Inr s" "sys_inv hash fn c s" using lru_run_ok by blast
  then obtain m where m: "lru_inv hash fn (cache s) m" "capacity (cache s) = c" by (auto simp: sys_inv_def)
  have "\<forall>k. ht_containsKey hash k (key_to_value (cache s)) = Inr (k \<in> snd ` set (key_tracker (cache s)))"
    using ht_containsKey_ok [OF lru_invD(1) [OF m(1)]] lru_invD(4) [OF m(1)] by simp
  moreover have "lru_getSize (cache s) \<le> uint c" using lru_size [OF m(1)] m(2) by simp
  moreover have "\<forall>(k, v) \<in> set (returned s). v = fn k" using s(2) by (auto simp: sys_inv_def)
  ultimately show ?thesis using c0(1) s(1) lru_invD(3) [OF m(1)] by blast
qed

text \<open>Instances: a cache of two records in which the second hit promotes.\<close>

definition demo_null :: "int lru_entry" where
  "demo_null = \<lparr>le_value = 0, le_iter = 0, accessCount = 0\<rparr>"

theorem lru_cache_refines_witness:
  "\<exists>c0 c'. lru_new demo_null 2 2 = Inr c0 \<and> lru_calls demo_hash (\<lambda>k. k * k) [1, 2, 1, 1, 3] c0 = Inr ([1, 4, 1, 1, 9], c') \<and>
     lru_view demo_hash c' = [(1, 0), (3, 0)]"
  using lru_cache_refines [of 2 2 demo_null demo_hash "\<lambda>k. k * k" "[1, 2, 1, 1, 3]"] by (auto simp: spec_access_def)

theorem lru_threads_safe_witness:
  "\<exists>c0 s. lru_new demo_null 1 1 = Inr c0 \<and>
     lru_run demo_hash (\<lambda>k. k * k) [Call 0 5, Call 1 5, Continue 1, Call 2 5, Clear, Continue 0, Continue 2] (lru_start c0) = Inr s \<and>
     (\<forall>(k, v) \<in> set (returned s). v = k * k) \<and> lru_getSize (cache s) \<le> 1"
  using lru_threads_safe [of 1 1 demo_null demo_hash "\<lambda>k. k * k"
      "[Call 0 5, Call 1 5, Continue 1, Call 2 5, Clear, Continue 0, Continue 2]"] by auto

end
