(* ===== verification/ByteStream.thy ===== *)
theory ByteStream
  imports Prelude
begin

text \<open>
  \<^verbatim>\<open>system/io/Stream.cpp\<close>, \<^verbatim>\<open>ObjectOutputStream.h\<close> and \<^verbatim>\<open>ObjectInputStream.h\<close>: a growable byte
  buffer with a cursor. \<open>sbuf\<close> holds the bytes from \<open>elementData\<close> to \<open>end\<close>, \<open>soff\<close> is
  \<open>offset - elementData\<close>. The growth of the underlying \<open>ArrayList<char>\<close> is the subject of
  theory \<open>ArrayList\<close> and is not repeated: a stream can hold any number of bytes. Bytes that
  a growing \<open>setSize\<close> exposes are whatever the memory held, given as the argument \<open>mem\<close>.
  Writing through a cursor that was left beyond \<open>end\<close> by a failed seek, or reading before
  the start, is \<open>Undefined\<close>. Multi-byte values are in the little-endian order of the hosts.
\<close>

type_synonym byte = "8 word"

record stream =
  sbuf :: "byte list"
  soff :: int

definition st_size :: "stream \<Rightarrow> int" where
  "st_size s = int (length (sbuf s))"

definition st_hasData :: "stream \<Rightarrow> bool" where
  "st_hasData s \<longleftrightarrow> soff s < st_size s"

definition st_new :: stream where
  "st_new = \<lparr>sbuf = [], soff = 0\<rparr>"

subsection \<open>Buffer and cursor\<close>

definition st_setSize :: "(nat \<Rightarrow> byte) \<Rightarrow> int \<Rightarrow> stream \<Rightarrow> stream" where
  "st_setSize mem len s =
     s\<lparr>sbuf := take (nat len) (sbuf s) @ map mem [length (sbuf s)..<nat len]\<rparr>"

definition st_setOffset :: "int \<Rightarrow> stream \<Rightarrow> stream res" where
  "st_setOffset offs s =
     (if offs > st_size s then Inl (StreamIndexOutOfBoundsException offs) else Inr (s\<lparr>soff := offs\<rparr>))"

definition st_shiftOffset :: "int \<Rightarrow> stream \<Rightarrow> stream res" where
  "st_shiftOffset offs s =
     (if soff s + offs > st_size s then Inl (StreamIndexOutOfBoundsException (soff s + offs))
      else Inr (s\<lparr>soff := soff s + offs\<rparr>))"

definition st_clear :: "stream \<Rightarrow> stream" where
  "st_clear s = \<lparr>sbuf = [], soff = 0\<rparr>"

definition st_reset :: "stream \<Rightarrow> stream" where
  "st_reset s = s\<lparr>soff := 0\<rparr>"

definition st_removeLastBytes :: "int \<Rightarrow> stream \<Rightarrow> stream res" where
  "st_removeLastBytes len s =
     (if st_size s - len < 0 then Inl (StreamIndexOutOfBoundsException (st_size s - len))
      else if len < 0 then Inl Undefined
      else Inr (st_setSize (\<lambda>_. 0) (st_size s - len) s))"

subsection \<open>Raw writes and reads\<close>

text \<open>\<open>extendSize(len)\<close> followed by \<open>memcpy(offset - len, buf, len)\<close>.\<close>

definition st_put_bytes :: "byte list \<Rightarrow> stream \<Rightarrow> stream res" where
  "st_put_bytes bs s =
     (if 0 \<le> soff s \<and> soff s \<le> st_size s
      then Inr \<lparr>sbuf = memcpy_into (sbuf s) (nat (soff s)) bs, soff = soff s + int (length bs)\<rparr>
      else Inl Undefined)"

definition st_writeStream :: "byte list \<Rightarrow> stream \<Rightarrow> stream res" where
  "st_writeStream bs s = (if bs \<noteq> [] then st_put_bytes bs s else Inr s)"

definition st_writeStream_all :: "stream \<Rightarrow> stream \<Rightarrow> stream res" where
  "st_writeStream_all src s = st_writeStream (sbuf src) s"

definition st_writeStream_len :: "stream \<Rightarrow> int \<Rightarrow> stream \<Rightarrow> stream res" where
  "st_writeStream_len src len s =
     (if len > st_size src then Inl (StreamIndexOutOfBoundsException len)
      else if len < 0 then Inl Undefined
      else st_writeStream (take (nat len) (sbuf src)) s)"

text \<open>\<open>memcpy(buf, offset - len, len)\<close> after the cursor has been moved by \<open>len\<close>.\<close>

definition st_take_bytes :: "int \<Rightarrow> stream \<Rightarrow> (byte list \<times> stream) res" where
  "st_take_bytes len s =
     rbind (st_shiftOffset len s) (\<lambda>s'.
     if 0 \<le> soff s \<and> 0 \<le> len then Inr (take (nat len) (drop (nat (soff s)) (sbuf s)), s') else Inl Undefined)"

definition st_readStream :: "int \<Rightarrow> stream \<Rightarrow> (byte list \<times> stream) res" where
  "st_readStream len s = (if len \<noteq> 0 then st_take_bytes len s else Inr ([], s))"

definition st_readStream_into :: "int \<Rightarrow> stream \<Rightarrow> stream \<Rightarrow> (stream \<times> stream) res" where
  "st_readStream_into len dst s =
     rbind (st_readStream (st_size (st_setSize (\<lambda>_. 0) len dst)) s) (\<lambda>(bs, s').
     Inr (dst\<lparr>sbuf := bs\<rparr>, s'))"

definition st_new_buf :: "byte list \<Rightarrow> stream res" where
  "st_new_buf bs = rbind (st_writeStream bs st_new) (\<lambda>s. Inr (st_reset s))"

definition st_clone :: "int \<Rightarrow> stream \<Rightarrow> stream res" where
  "st_clone startoffs s =
     rbind (if startoffs \<noteq> 0 then e3_assert (startoffs < st_size s) else Inr ()) (\<lambda>_.
     if startoffs < 0 then Inl Undefined
     else st_writeStream (drop (nat startoffs) (sbuf s)) st_new)"

definition st_copy :: "stream \<Rightarrow> stream \<Rightarrow> int \<Rightarrow> stream res" where
  "st_copy s stream startoffs =
     rbind (if startoffs \<noteq> 0 then e3_assert (startoffs < st_size s) else Inr ()) (\<lambda>_.
     if startoffs < 0 then Inl Undefined
     else rbind (st_writeStream (drop (nat startoffs) (sbuf s)) (st_reset stream)) (\<lambda>stream'.
       Inr (if startoffs = 0 then stream'\<lparr>soff := soff s\<rparr> else stream')))"

definition st_removeRange :: "int \<Rightarrow> int \<Rightarrow> stream \<Rightarrow> stream res" where
  "st_removeRange fromIndex toIndex s =
     (if fromIndex < 0 then Inl (ArrayIndexOutOfBoundsException fromIndex)
      else if toIndex > st_size s then Inl (ArrayIndexOutOfBoundsException toIndex)
      else if fromIndex > toIndex then Inl IllegalArgumentException
      else Inr (s\<lparr>sbuf := take (nat fromIndex) (sbuf s) @ drop (nat toIndex) (sbuf s)\<rparr>))"

definition st_removeAll :: "stream \<Rightarrow> stream res" where
  "st_removeAll s = st_removeRange 0 (st_size s) s"

subsection \<open>Primitive values\<close>

definition le_bytes :: "nat \<Rightarrow> nat \<Rightarrow> byte list" where
  "le_bytes n v = map (\<lambda>i. word_of_nat (v div 256 ^ i)) [0..<n]"

fun le_val :: "byte list \<Rightarrow> nat" where
  "le_val [] = 0"
| "le_val (b # bs) = unat b + 256 * le_val bs"

definition writePrimitive :: "nat \<Rightarrow> nat \<Rightarrow> stream \<Rightarrow> stream res" where
  "writePrimitive typeSize v s = st_put_bytes (le_bytes typeSize v) s"

definition writePrimitiveTo :: "nat \<Rightarrow> int \<Rightarrow> nat \<Rightarrow> stream \<Rightarrow> stream res" where
  "writePrimitiveTo typeSize offs v s =
     (if offs + int typeSize > st_size s then Inl (StreamIndexOutOfBoundsException offs)
      else if offs < 0 then Inl Undefined
      else Inr (s\<lparr>sbuf := memcpy_into (sbuf s) (nat offs) (le_bytes typeSize v)\<rparr>))"

definition readPrimitive :: "nat \<Rightarrow> stream \<Rightarrow> (nat \<times> stream) res" where
  "readPrimitive typeSize s = rbind (st_take_bytes (int typeSize) s) (\<lambda>(bs, s'). Inr (le_val bs, s'))"

definition readPrimitiveFrom :: "nat \<Rightarrow> int \<Rightarrow> stream \<Rightarrow> nat res" where
  "readPrimitiveFrom typeSize offs s =
     (if offs + int typeSize > st_size s then Inl (StreamIndexOutOfBoundsException (offs + int typeSize))
      else if offs < 0 then Inl Undefined
      else Inr (le_val (take typeSize (drop (nat offs) (sbuf s)))))"

text \<open>The typed methods.\<close>

definition writeBoolean :: "bool \<Rightarrow> stream \<Rightarrow> stream res" where
  "writeBoolean v = writePrimitive 1 (if v then 1 else 0)"
definition writeByte :: "8 word \<Rightarrow> stream \<Rightarrow> stream res" where
  "writeByte v = writePrimitive 1 (unat v)"
definition writeByte_at :: "int \<Rightarrow> 8 word \<Rightarrow> stream \<Rightarrow> stream res" where
  "writeByte_at offs v = writePrimitiveTo 1 offs (unat v)"
definition writeShort :: "16 word \<Rightarrow> stream \<Rightarrow> stream res" where
  "writeShort v = writePrimitive 2 (unat v)"
definition writeShort_at :: "int \<Rightarrow> 16 word \<Rightarrow> stream \<Rightarrow> stream res" where
  "writeShort_at offs v = writePrimitiveTo 2 offs (unat v)"
definition writeInt :: "32 word \<Rightarrow> stream \<Rightarrow> stream res" where
  "writeInt v = writePrimitive 4 (unat v)"
definition writeInt_at :: "int \<Rightarrow> 32 word \<Rightarrow> stream \<Rightarrow> stream res" where
  "writeInt_at offs v = writePrimitiveTo 4 offs (unat v)"
definition writeSignedInt :: "int \<Rightarrow> stream \<Rightarrow> stream res" where
  "writeSignedInt v = writePrimitive 4 (unat (word_of_int v :: 32 word))"
definition writeLong :: "64 word \<Rightarrow> stream \<Rightarrow> stream res" where
  "writeLong v = writePrimitive 8 (unat v)"
definition writeLong_at :: "int \<Rightarrow> 64 word \<Rightarrow> stream \<Rightarrow> stream res" where
  "writeLong_at offs v = writePrimitiveTo 8 offs (unat v)"

definition read_word :: "nat \<Rightarrow> stream \<Rightarrow> ('w::len word \<times> stream) res" where
  "read_word n s = rbind (readPrimitive n s) (\<lambda>(v, s'). Inr (word_of_nat v, s'))"
definition read_word_at :: "nat \<Rightarrow> int \<Rightarrow> stream \<Rightarrow> 'w::len word res" where
  "read_word_at n offs s = rbind (readPrimitiveFrom n offs s) (\<lambda>v. Inr (word_of_nat v))"

definition readBoolean :: "stream \<Rightarrow> (bool \<times> stream) res" where
  "readBoolean s = rbind (readPrimitive 1 s) (\<lambda>(v, s'). Inr (v \<noteq> 0, s'))"
definition readByte :: "stream \<Rightarrow> (8 word \<times> stream) res" where
  "readByte = read_word 1"
definition readByte_at :: "int \<Rightarrow> stream \<Rightarrow> 8 word res" where
  "readByte_at = read_word_at 1"
definition readShort :: "stream \<Rightarrow> (16 word \<times> stream) res" where
  "readShort = read_word 2"
definition readShort_at :: "int \<Rightarrow> stream \<Rightarrow> 16 word res" where
  "readShort_at = read_word_at 2"
definition readInt :: "stream \<Rightarrow> (32 word \<times> stream) res" where
  "readInt = read_word 4"
definition readInt_at :: "int \<Rightarrow> stream \<Rightarrow> 32 word res" where
  "readInt_at = read_word_at 4"
definition readLong :: "stream \<Rightarrow> (64 word \<times> stream) res" where
  "readLong = read_word 8"
definition readLong_at :: "int \<Rightarrow> stream \<Rightarrow> 64 word res" where
  "readLong_at = read_word_at 8"
definition readSignedInt :: "stream \<Rightarrow> (int \<times> stream) res" where
  "readSignedInt s = rbind (readInt s) (\<lambda>(v, s'). Inr (sint v, s'))"

subsection \<open>Byte order lemmas\<close>

lemma length_le_bytes [simp]: "length (le_bytes n v) = n"
  by (simp add: le_bytes_def)

lemma le_bytes_Suc: "le_bytes (Suc n) v = word_of_nat v # le_bytes n (v div 256)"
  unfolding le_bytes_def upt_conv_Cons [OF zero_less_Suc] map_Suc_upt [symmetric]
  by (simp add: div_mult2_eq comp_def)

lemma le_val_le_bytes: "le_val (le_bytes n v) = v mod 256 ^ n"
proof (induction n arbitrary: v)
  case 0
  then show ?case by (simp add: le_bytes_def)
next
  case (Suc n)
  have "unat (word_of_nat v :: byte) = v mod 256" by (simp add: unat_of_nat)
  then show ?case using Suc [of "v div 256"]
    by (simp add: le_bytes_Suc mod_mult2_eq)
qed

lemma le_val_bound: "le_val bs < 256 ^ length bs"
proof (induction bs)
  case Nil
  then show ?case by simp
next
  case (Cons b bs)
  have "unat b < 256" using unsigned_less [of b] by simp
  then show ?case using Cons by simp
qed

lemma le_bytes_le_val: "le_bytes (length bs) (le_val bs) = bs"
proof (induction bs)
  case Nil
  then show ?case by (simp add: le_bytes_def)
next
  case (Cons b bs)
  have "unat b < 256" using unsigned_less [of b] by simp
  then have "(unat b + 256 * le_val bs) div 256 = le_val bs" by simp
  moreover have "(word_of_nat (unat b + 256 * le_val bs) :: byte) = b"
  proof -
    have "(word_of_nat 256 :: byte) = 0" by simp
    then show ?thesis by (simp add: of_nat_mult del: of_nat_numeral)
  qed
  ultimately show ?case using Cons by (simp add: le_bytes_Suc)
qed

lemma word_of_nat_small:
  assumes "n < 2 ^ LENGTH('w::len)"
  shows "unat (word_of_nat n :: 'w word) = n" "uint (word_of_nat n :: 'w word) = int n"
proof -
  show u: "unat (word_of_nat n :: 'w word) = n" using assms by (simp add: unat_of_nat)
  show "uint (word_of_nat n :: 'w word) = int n" using assms by (simp add: unsigned_of_nat take_bit_nat_eq_self)
qed

lemma word_of_nat_le_val:
  "LENGTH('w::len) = 8 * n \<Longrightarrow> (word_of_nat (le_val (le_bytes n (unat (w :: 'w word)))) :: 'w word) = w"
proof -
  assume "LENGTH('w) = 8 * n"
  then have "unat w < 256 ^ n" using unsigned_less [of w] by (simp add: power_mult)
  then show ?thesis by (simp add: le_val_le_bytes)
qed

subsection \<open>Streams at a position\<close>

text \<open>A stream with the bytes \<open>pre\<close> before the cursor and \<open>rest\<close> after it.\<close>

definition at_pos :: "byte list \<Rightarrow> byte list \<Rightarrow> stream" where
  "at_pos pre rest = \<lparr>sbuf = pre @ rest, soff = int (length pre)\<rparr>"

definition st_wf :: "stream \<Rightarrow> bool" where
  "st_wf s \<longleftrightarrow> 0 \<le> soff s \<and> soff s \<le> st_size s"

lemma sbuf_at_pos [simp]: "sbuf (at_pos pre rest) = pre @ rest"
  and soff_at_pos [simp]: "soff (at_pos pre rest) = int (length pre)"
  and size_at_pos [simp]: "st_size (at_pos pre rest) = int (length pre + length rest)"
  by (simp_all add: at_pos_def st_size_def)

lemma st_new_at_pos: "st_new = at_pos [] []"
  by (simp add: at_pos_def st_new_def)

lemma st_wf_at_pos: "st_wf s \<longleftrightarrow> (\<exists>pre rest. s = at_pos pre rest)"
proof
  assume w: "st_wf s"
  then have "s = at_pos (take (nat (soff s)) (sbuf s)) (drop (nat (soff s)) (sbuf s))"
    by (cases s) (auto simp: at_pos_def st_wf_def st_size_def)
  then show "\<exists>pre rest. s = at_pos pre rest" by blast
qed (auto simp: st_wf_def)

lemma st_reset_at_pos [simp]: "st_reset (at_pos pre rest) = at_pos [] (pre @ rest)"
  by (simp add: st_reset_def at_pos_def)

lemma st_put_bytes_at [simp]:
  "length rest \<le> length bs \<or> rest = [] \<Longrightarrow> st_put_bytes bs (at_pos pre rest) = Inr (at_pos (pre @ bs) [])"
  by (auto simp: st_put_bytes_def memcpy_into_def at_pos_def st_size_def)

lemma st_put_bytes_over:
  "length bs = length old \<Longrightarrow> st_put_bytes bs (at_pos pre (old @ rest)) = Inr (at_pos (pre @ bs) rest)"
  by (auto simp: st_put_bytes_def memcpy_into_def at_pos_def st_size_def)

lemma st_writeStream_at [simp]: "st_writeStream bs (at_pos pre []) = Inr (at_pos (pre @ bs) [])"
  by (simp add: st_writeStream_def)

lemma st_take_bytes_at [simp]:
  "n = int (length bs) \<Longrightarrow> st_take_bytes n (at_pos pre (bs @ rest)) = Inr (bs, at_pos (pre @ bs) rest)"
  by (simp add: st_take_bytes_def st_shiftOffset_def at_pos_def st_size_def)

lemma st_readStream_at [simp]:
  "n = int (length bs) \<Longrightarrow> st_readStream n (at_pos pre (bs @ rest)) = Inr (bs, at_pos (pre @ bs) rest)"
  by (simp add: st_readStream_def)

lemma st_take_bytes_short:
  "int (length rest) < n \<Longrightarrow>
   st_take_bytes n (at_pos pre rest) = Inl (StreamIndexOutOfBoundsException (int (length pre) + n))"
  by (simp add: st_take_bytes_def st_shiftOffset_def)

lemma st_take_bytes_cases:
  assumes "0 \<le> n"
  obtains (short) "int (length rest) < n" "st_take_bytes n (at_pos pre rest) = Inl (StreamIndexOutOfBoundsException (int (length pre) + n))"
  | (ok) bs rest' where "rest = bs @ rest'" "n = int (length bs)" "st_take_bytes n (at_pos pre rest) = Inr (bs, at_pos (pre @ bs) rest')"
proof (cases "int (length rest) < n")
  case True
  then show thesis using short st_take_bytes_short by blast
next
  case False
  have "n = int (length (take (nat n) rest))" using False assms by simp
  then show thesis
    using ok [of "take (nat n) rest" "drop (nat n) rest"] st_take_bytes_at [of n "take (nat n) rest" pre "drop (nat n) rest"] by simp
qed

lemma writePrimitive_at [simp]: "writePrimitive n v (at_pos pre []) = Inr (at_pos (pre @ le_bytes n v) [])"
  by (simp add: writePrimitive_def)

lemma readPrimitive_at [simp]:
  "readPrimitive n (at_pos pre (le_bytes n v @ rest)) = Inr (v mod 256 ^ n, at_pos (pre @ le_bytes n v) rest)"
  by (simp add: readPrimitive_def le_val_le_bytes)

lemma read_word_at_pos:
  "LENGTH('w::len) = 8 * n \<Longrightarrow>
   read_word n (at_pos pre (le_bytes n (unat (w :: 'w word)) @ rest)) = Inr (w, at_pos (pre @ le_bytes n (unat w)) rest)"
  using word_of_nat_le_val [of n w] by (simp add: read_word_def le_val_le_bytes)

lemma read_typed_at [simp]:
  "readByte (at_pos pre (le_bytes (Suc 0) (unat b) @ rest)) = Inr (b, at_pos (pre @ le_bytes (Suc 0) (unat b)) rest)"
  "readShort (at_pos pre (le_bytes 2 (unat h) @ rest)) = Inr (h, at_pos (pre @ le_bytes 2 (unat h)) rest)"
  "readInt (at_pos pre (le_bytes 4 (unat i) @ rest)) = Inr (i, at_pos (pre @ le_bytes 4 (unat i)) rest)"
  "readLong (at_pos pre (le_bytes 8 (unat l) @ rest)) = Inr (l, at_pos (pre @ le_bytes 8 (unat l)) rest)"
  by (simp_all add: readByte_def readShort_def readInt_def readLong_def read_word_at_pos)

lemma write_typed_at [simp]:
  "writeBoolean q (at_pos pre []) = Inr (at_pos (pre @ le_bytes 1 (if q then 1 else 0)) [])"
  "writeByte b (at_pos pre []) = Inr (at_pos (pre @ le_bytes 1 (unat b)) [])"
  "writeShort h (at_pos pre []) = Inr (at_pos (pre @ le_bytes 2 (unat h)) [])"
  "writeInt i (at_pos pre []) = Inr (at_pos (pre @ le_bytes 4 (unat i)) [])"
  "writeLong l (at_pos pre []) = Inr (at_pos (pre @ le_bytes 8 (unat l)) [])"
  by (simp_all add: writeBoolean_def writeByte_def writeShort_def writeInt_def writeLong_def)

lemma le_bytes_1: "le_bytes 1 (unat b) = [b :: byte]"
  by (simp add: le_bytes_def)

text \<open>Bounded reads: a read consumes bytes that are there or raises, and keeps the bytes.\<close>

definition safe_read :: "stream \<Rightarrow> ('a \<times> stream) res \<Rightarrow> bool" where
  "safe_read s r \<longleftrightarrow>
     (case r of Inr (_, s') \<Rightarrow> st_wf s' \<and> sbuf s' = sbuf s \<and> soff s \<le> soff s'
      | Inl e \<Rightarrow> \<exists>i. e = StreamIndexOutOfBoundsException i)"

lemma safe_take: "st_wf s \<Longrightarrow> 0 \<le> n \<Longrightarrow> safe_read s (st_take_bytes n s)"
  by (auto simp: st_take_bytes_def st_shiftOffset_def safe_read_def st_wf_def st_size_def)

lemma safe_readStream: "st_wf s \<Longrightarrow> 0 \<le> n \<Longrightarrow> safe_read s (st_readStream n s)"
  using safe_take by (auto simp: st_readStream_def) (simp add: safe_read_def)

lemma safe_bind:
  assumes "safe_read s r" "\<And>x s'. st_wf s' \<Longrightarrow> safe_read s' (f (x, s'))"
  shows "safe_read s (rbind r f)"
proof (cases r)
  case (Inr p)
  then obtain x s' where p: "r = Inr (x, s')" by (cases p) auto
  then have "st_wf s'" "sbuf s' = sbuf s" "soff s \<le> soff s'" using assms(1) by (auto simp: safe_read_def)
  then show ?thesis using assms(2) [of s' x] p
    by (auto simp: safe_read_def split: sum.splits)
qed (use assms(1) in \<open>simp add: safe_read_def\<close>)

lemma safe_return [simp]: "st_wf s \<Longrightarrow> safe_read s (Inr (x, s))"
  by (simp add: safe_read_def)

lemma safe_raise [simp]: "safe_read s (Inl (StreamIndexOutOfBoundsException i))"
  by (simp add: safe_read_def)

lemma safe_readPrimitive: "st_wf s \<Longrightarrow> safe_read s (readPrimitive n s)"
  unfolding readPrimitive_def by (rule safe_bind [OF safe_take]) auto

lemma safe_read_word: "st_wf s \<Longrightarrow> safe_read s (read_word n s)"
  unfolding read_word_def by (rule safe_bind [OF safe_readPrimitive]) auto

lemma safe_typed:
  assumes "st_wf s"
  shows "safe_read s (readBoolean s)" "safe_read s (readByte s)" "safe_read s (readShort s)" "safe_read s (readInt s)"
    "safe_read s (readLong s)"
  using assms safe_read_word
  by (auto simp: readBoolean_def readByte_def readShort_def readInt_def readLong_def intro!: safe_bind [OF safe_readPrimitive])

end
