(* ===== verification/Packet.thy ===== *)
theory Packet
  imports ByteStream
begin

text \<open>
  \<^verbatim>\<open>system/net/Packet.h\<close>, \<^verbatim>\<open>Packet.cpp\<close> and \<^verbatim>\<open>engine/service/Message.h\<close>: the typed insert and parse
  methods of packets (fixed-width values in host or network order, length-prefixed byte and
  unicode strings) and the serialisation of messages. A unicode string is its length
  \<open>ucount\<close> with the characters that are initialised: \<open>UnicodeString::append\<close> sets the length
  from its argument but copies only up to the first zero character.
\<close>

subsection \<open>Insertion\<close>

definition RAW_MAX_SIZE :: int where "RAW_MAX_SIZE = 496"
definition MAX_UNICODE_LENGTH :: int where "MAX_UNICODE_LENGTH = 33554432"

definition pk_new :: stream where
  "pk_new = st_new"

definition pk_clone :: "int \<Rightarrow> stream \<Rightarrow> stream res" where
  "pk_clone startoffs s = st_copy s pk_new startoffs"

definition htons :: "16 word \<Rightarrow> 16 word" where
  "htons v = word_of_nat (le_val (rev (le_bytes 2 (unat v))))"
definition htonl :: "32 word \<Rightarrow> 32 word" where
  "htonl v = word_of_nat (le_val (rev (le_bytes 4 (unat v))))"
definition NTOHLL :: "64 word \<Rightarrow> 64 word" where
  "NTOHLL x = (let lo = htonl (ucast x); hi = htonl (ucast (drop_bit 32 x)) in
     or (push_bit 32 (ucast lo)) (ucast hi))"

definition insertBoolean :: "bool \<Rightarrow> stream \<Rightarrow> stream res" where
  "insertBoolean = writeBoolean"
definition insertByte :: "8 word \<Rightarrow> stream \<Rightarrow> stream res" where
  "insertByte = writeByte"
definition insertByte_at :: "int \<Rightarrow> 8 word \<Rightarrow> stream \<Rightarrow> stream res" where
  "insertByte_at = writeByte_at"
definition insertShort :: "16 word \<Rightarrow> stream \<Rightarrow> stream res" where
  "insertShort = writeShort"
definition insertShort_at :: "int \<Rightarrow> 16 word \<Rightarrow> stream \<Rightarrow> stream res" where
  "insertShort_at = writeShort_at"
definition insertShortNet :: "16 word \<Rightarrow> stream \<Rightarrow> stream res" where
  "insertShortNet v = writeShort (htons v)"
definition insertInt :: "32 word \<Rightarrow> stream \<Rightarrow> stream res" where
  "insertInt = writeInt"
definition insertInt_at :: "int \<Rightarrow> 32 word \<Rightarrow> stream \<Rightarrow> stream res" where
  "insertInt_at = writeInt_at"
definition insertIntNet :: "32 word \<Rightarrow> stream \<Rightarrow> stream res" where
  "insertIntNet v = writeInt (htonl v)"
definition insertLong :: "64 word \<Rightarrow> stream \<Rightarrow> stream res" where
  "insertLong = writeLong"
definition insertLong_at :: "int \<Rightarrow> 64 word \<Rightarrow> stream \<Rightarrow> stream res" where
  "insertLong_at = writeLong_at"

definition insertAscii :: "byte list \<Rightarrow> stream \<Rightarrow> stream res" where
  "insertAscii ascii s = rbind (writeShort (word_of_nat (length ascii)) s) (st_writeStream ascii)"

fun insertCString :: "byte list \<Rightarrow> bool \<Rightarrow> stream \<Rightarrow> stream res" where
  "insertCString [] nullTerminator s = (if nullTerminator then insertByte 0 s else Inr s)"
| "insertCString (c # buf) nullTerminator s =
     (if c = 0 then insertCString [] nullTerminator s
      else rbind (insertByte c s) (insertCString buf nullTerminator))"

definition insertStream :: "byte list \<Rightarrow> stream \<Rightarrow> stream res" where
  "insertStream = st_writeStream"

record ustring =
  ucount :: nat
  uchars :: "16 word list"

definition wide_bytes :: "16 word list \<Rightarrow> byte list" where
  "wide_bytes cs = concat (map (\<lambda>c. le_bytes 2 (unat c)) cs)"

definition insertUnicode :: "ustring \<Rightarrow> stream \<Rightarrow> stream res" where
  "insertUnicode str s =
     rbind (writeInt (word_of_nat (ucount str)) s) (\<lambda>s'.
     if ucount str = length (uchars str) then st_writeStream (wide_bytes (uchars str)) s' else Inl Undefined)"

subsection \<open>Parsing\<close>

definition parseBoolean :: "stream \<Rightarrow> (bool \<times> stream) res" where
  "parseBoolean = readBoolean"
definition parseByte :: "stream \<Rightarrow> (8 word \<times> stream) res" where
  "parseByte = readByte"
definition parseByte_at :: "int \<Rightarrow> stream \<Rightarrow> 8 word res" where
  "parseByte_at = readByte_at"
definition parseShort :: "stream \<Rightarrow> (16 word \<times> stream) res" where
  "parseShort = readShort"
definition parseShort_at :: "int \<Rightarrow> stream \<Rightarrow> 16 word res" where
  "parseShort_at = readShort_at"
definition parseNetShort :: "stream \<Rightarrow> (16 word \<times> stream) res" where
  "parseNetShort s = rbind (readShort s) (\<lambda>(v, s'). Inr (htons v, s'))"
definition parseNetShort_at :: "int \<Rightarrow> stream \<Rightarrow> 16 word res" where
  "parseNetShort_at offs s = rbind (readShort_at offs s) (\<lambda>v. Inr (htons v))"
definition parseInt :: "stream \<Rightarrow> (32 word \<times> stream) res" where
  "parseInt = readInt"
definition parseInt_at :: "int \<Rightarrow> stream \<Rightarrow> 32 word res" where
  "parseInt_at = readInt_at"
definition parseSignedInt :: "stream \<Rightarrow> (int \<times> stream) res" where
  "parseSignedInt = readSignedInt"
definition parseNetInt :: "stream \<Rightarrow> (32 word \<times> stream) res" where
  "parseNetInt s = rbind (readInt s) (\<lambda>(v, s'). Inr (htonl v, s'))"
definition parseNetInt_at :: "int \<Rightarrow> stream \<Rightarrow> 32 word res" where
  "parseNetInt_at offs s = rbind (readInt_at offs s) (\<lambda>v. Inr (htonl v))"
definition parseLong :: "stream \<Rightarrow> (64 word \<times> stream) res" where
  "parseLong = readLong"
definition parseLong_at :: "int \<Rightarrow> stream \<Rightarrow> 64 word res" where
  "parseLong_at = readLong_at"
definition parseNetLong :: "stream \<Rightarrow> (64 word \<times> stream) res" where
  "parseNetLong s = rbind (readLong s) (\<lambda>(v, s'). Inr (NTOHLL v, s'))"

definition parseAscii :: "stream \<Rightarrow> (byte list \<times> stream) res" where
  "parseAscii s = rbind (readShort s) (\<lambda>(len, s'). st_take_bytes (int (unat len)) s')"

text \<open>\<open>String(elementOffset - len, len)\<close> with \<open>elementOffset = elementData + offs + 2\<close>.\<close>

definition parseAscii_at :: "int \<Rightarrow> stream \<Rightarrow> byte list res" where
  "parseAscii_at offs s =
     rbind (readShort_at offs s) (\<lambda>len.
     if offs + 2 > st_size s then Inl (StreamIndexOutOfBoundsException (offs + 2))
     else let start = offs + 2 - int (unat len) in
       if 0 \<le> start then Inr (take (unat len) (drop (nat start) (sbuf s))) else Inl Undefined)"

fun wide_chars :: "byte list \<Rightarrow> 16 word list" where
  "wide_chars (a # b # bs) = word_of_nat (le_val [a, b]) # wide_chars bs"
| "wide_chars _ = []"

text \<open>The loop of \<open>UnicodeString::copy\<close>: it stops after copying a zero character.\<close>

fun copy_wide :: "16 word list \<Rightarrow> 16 word list" where
  "copy_wide [] = []"
| "copy_wide (c # cs) = (if c = 0 then [c] else c # copy_wide cs)"

definition parseUnicode :: "stream \<Rightarrow> (ustring \<times> stream) res" where
  "parseUnicode s =
     rbind (readInt s) (\<lambda>(len, s1).
     let totalLen = len * 2 in
     if uint totalLen > MAX_UNICODE_LENGTH then Inl (StreamIndexOutOfBoundsException MAX_UNICODE_LENGTH)
     else rbind (st_take_bytes (uint totalLen) s1) (\<lambda>(bs, s2).
       Inr (\<lparr>ucount = unat len, uchars = (if 0 \<le> sint len then copy_wide (wide_chars bs) else [])\<rparr>, s2)))"

subsection \<open>Messages\<close>

record message =
  pkt :: stream
  timestampMili :: "64 word"

definition msg_compareTo :: "message \<Rightarrow> message \<Rightarrow> int" where
  "msg_compareTo this m =
     (let t1 = timestampMili this; t2 = timestampMili m in if t1 < t2 then 1 else if t1 > t2 then -1 else 0)"

definition msg_new :: message where
  "msg_new = \<lparr>pkt = pk_new, timestampMili = 0\<rparr>"

definition msg_from_packet :: "stream \<Rightarrow> message res" where
  "msg_from_packet packet = rbind (st_copy packet pk_new 0) (\<lambda>p. Inr \<lparr>pkt = p, timestampMili = 0\<rparr>)"

definition msg_clone :: "int \<Rightarrow> message \<Rightarrow> message res" where
  "msg_clone startoffs this = rbind (st_copy (pkt this) pk_new startoffs) (\<lambda>p. Inr \<lparr>pkt = p, timestampMili = 0\<rparr>)"

definition msg_toBinaryStream :: "message \<Rightarrow> stream \<Rightarrow> stream res" where
  "msg_toBinaryStream this out =
     rbind (writeSignedInt (st_size (pkt this)) out) (st_writeStream (sbuf (pkt this)))"

definition msg_parseFromBinaryStream :: "message \<Rightarrow> stream \<Rightarrow> (message \<times> stream) res" where
  "msg_parseFromBinaryStream this inp =
     rbind (st_removeAll (pkt this)) (\<lambda>p.
     rbind (readSignedInt inp) (\<lambda>(size, inp').
     rbind (st_writeStream_len inp' size p) (\<lambda>p'. Inr (this\<lparr>pkt := p'\<rparr>, inp'))))"

subsection \<open>Byte order\<close>

lemma le_swap:
  assumes "LENGTH('w::len) = 8 * n"
  shows "le_bytes n (unat (word_of_nat (le_val (rev (le_bytes n (unat (w :: 'w word))))) :: 'w word)) = rev (le_bytes n (unat w))"
proof -
  let ?r = "rev (le_bytes n (unat w))"
  have "le_val ?r < 2 ^ LENGTH('w)" using le_val_bound [of ?r] assms by (simp add: power_mult)
  then have "unat (word_of_nat (le_val ?r) :: 'w word) = le_val ?r" by (simp add: unat_of_nat)
  then show ?thesis using le_bytes_le_val [of ?r] by simp
qed

lemma le_bytes_htons: "le_bytes 2 (unat (htons v)) = rev (le_bytes 2 (unat v))"
  using le_swap [where 'w = 16, of 2 v] by (simp add: htons_def)

lemma le_bytes_htonl: "le_bytes 4 (unat (htonl v)) = rev (le_bytes 4 (unat v))"
  using le_swap [where 'w = 32, of 4 v] by (simp add: htonl_def)

lemma htons_htons [simp]: "htons (htons v) = v"
  using word_of_nat_le_val [where 'w = 16, of 2 v] by (subst htons_def) (simp add: le_bytes_htons)

lemma htonl_htonl [simp]: "htonl (htonl v) = v"
  using word_of_nat_le_val [where 'w = 32, of 4 v] by (subst htonl_def) (simp add: le_bytes_htonl)

subsection \<open>Fields\<close>

text \<open>A message layout is a list of field kinds; a field is a kind with its value.\<close>

datatype kind = KBoolean | KByte | KShort | KShortNet | KInt | KIntNet | KLong | KAscii | KUnicode

datatype field = Boolean bool | Byte "8 word" | Short "16 word" | ShortNet "16 word" | Int32 "32 word"
  | IntNet "32 word" | Long "64 word" | Ascii "byte list" | Unicode ustring

fun kind_of :: "field \<Rightarrow> kind" where
  "kind_of (Boolean _) = KBoolean" | "kind_of (Byte _) = KByte" | "kind_of (Short _) = KShort"
| "kind_of (ShortNet _) = KShortNet" | "kind_of (Int32 _) = KInt" | "kind_of (IntNet _) = KIntNet"
| "kind_of (Long _) = KLong" | "kind_of (Ascii _) = KAscii" | "kind_of (Unicode _) = KUnicode"

fun insert_field :: "field \<Rightarrow> stream \<Rightarrow> stream res" where
  "insert_field (Boolean v) = insertBoolean v" | "insert_field (Byte v) = insertByte v"
| "insert_field (Short v) = insertShort v" | "insert_field (ShortNet v) = insertShortNet v"
| "insert_field (Int32 v) = insertInt v" | "insert_field (IntNet v) = insertIntNet v"
| "insert_field (Long v) = insertLong v" | "insert_field (Ascii v) = insertAscii v"
| "insert_field (Unicode v) = insertUnicode v"

definition tagged :: "('a \<Rightarrow> field) \<Rightarrow> ('a \<times> stream) res \<Rightarrow> (field \<times> stream) res" where
  "tagged c r = rbind r (\<lambda>(v, s). Inr (c v, s))"

fun parse_field :: "kind \<Rightarrow> stream \<Rightarrow> (field \<times> stream) res" where
  "parse_field KBoolean s = tagged Boolean (parseBoolean s)" | "parse_field KByte s = tagged Byte (parseByte s)"
| "parse_field KShort s = tagged Short (parseShort s)" | "parse_field KShortNet s = tagged ShortNet (parseNetShort s)"
| "parse_field KInt s = tagged Int32 (parseInt s)" | "parse_field KIntNet s = tagged IntNet (parseNetInt s)"
| "parse_field KLong s = tagged Long (parseLong s)" | "parse_field KAscii s = tagged Ascii (parseAscii s)"
| "parse_field KUnicode s = tagged Unicode (parseUnicode s)"

fun insert_all :: "field list \<Rightarrow> stream \<Rightarrow> stream res" where
  "insert_all [] s = Inr s"
| "insert_all (f # fs) s = rbind (insert_field f s) (insert_all fs)"

fun parse_all :: "kind list \<Rightarrow> stream \<Rightarrow> (field list \<times> stream) res" where
  "parse_all [] s = Inr ([], s)"
| "parse_all (k # ks) s = rbind (parse_field k s) (\<lambda>(f, s1). rbind (parse_all ks s1) (\<lambda>(fs, s2). Inr (f # fs, s2)))"

text \<open>The fields whose length prefixes can hold their lengths; all characters of a unicode string are initialised.\<close>

fun field_ok :: "field \<Rightarrow> bool" where
  "field_ok (Ascii v) \<longleftrightarrow> length v < 2 ^ 16"
| "field_ok (Unicode v) \<longleftrightarrow> ucount v = length (uchars v) \<and> 2 * int (ucount v) \<le> MAX_UNICODE_LENGTH"
| "field_ok _ \<longleftrightarrow> True"

text \<open>The field that comes back: a unicode string keeps its length, but no character behind its first zero is set.\<close>

fun parsed_back :: "field \<Rightarrow> field" where
  "parsed_back (Unicode v) = Unicode (v\<lparr>uchars := takeWhile (\<lambda>c. c \<noteq> 0) (uchars v) @ (if 0 \<in> set (uchars v) then [0] else [])\<rparr>)"
| "parsed_back f = f"

fun has_zero :: "field \<Rightarrow> bool" where
  "has_zero (Unicode v) \<longleftrightarrow> 0 \<in> set (uchars v)"
| "has_zero f \<longleftrightarrow> False"

fun field_bytes :: "field \<Rightarrow> byte list" where
  "field_bytes (Boolean v) = le_bytes 1 (if v then 1 else 0)" | "field_bytes (Byte v) = le_bytes 1 (unat v)"
| "field_bytes (Short v) = le_bytes 2 (unat v)" | "field_bytes (ShortNet v) = rev (le_bytes 2 (unat v))"
| "field_bytes (Int32 v) = le_bytes 4 (unat v)" | "field_bytes (IntNet v) = rev (le_bytes 4 (unat v))"
| "field_bytes (Long v) = le_bytes 8 (unat v)"
| "field_bytes (Ascii v) = le_bytes 2 (length v) @ v"
| "field_bytes (Unicode v) = le_bytes 4 (ucount v) @ wide_bytes (uchars v)"

lemma le_bytes_word_of_nat:
  "LENGTH('w::len) = 8 * n \<Longrightarrow> v < 2 ^ LENGTH('w) \<Longrightarrow> le_bytes n (unat (word_of_nat v :: 'w word)) = le_bytes n v"
  by (simp add: unat_of_nat)

lemma length_wide_bytes [simp]: "length (wide_bytes cs) = 2 * length cs"
  by (induction cs) (simp_all add: wide_bytes_def)

lemma wide_chars_wide_bytes [simp]: "wide_chars (wide_bytes cs) = cs"
proof (induction cs)
  case Nil
  then show ?case by (simp add: wide_bytes_def)
next
  case (Cons c cs)
  obtain a b where ab: "le_bytes 2 (unat c) = [a, b]" by (simp add: le_bytes_def upt_rec)
  then have "word_of_nat (le_val [a, b]) = c" using word_of_nat_le_val [where 'w = 16, of 2 c] by simp
  then show ?case using Cons ab by (simp add: wide_bytes_def)
qed

lemma copy_wide_eq: "copy_wide cs = takeWhile (\<lambda>c. c \<noteq> 0) cs @ (if 0 \<in> set cs then [0] else [])"
  by (induction cs) auto

lemma parsed_back_whole: "\<not> has_zero f \<Longrightarrow> parsed_back f = f"
proof (cases f)
  case (Unicode v)
  moreover assume "\<not> has_zero f"
  ultimately have "takeWhile (\<lambda>c. c \<noteq> 0) (uchars v) = uchars v" "0 \<notin> set (uchars v)" by (auto simp: takeWhile_eq_all_conv)
  then show ?thesis using Unicode by simp
qed auto

lemma insert_field_at:
  "field_ok f \<Longrightarrow> insert_field f (at_pos pre []) = Inr (at_pos (pre @ field_bytes f) [])"
  by (cases f) (auto simp: insertBoolean_def insertByte_def insertShort_def insertShortNet_def insertInt_def
      insertIntNet_def insertLong_def insertAscii_def insertUnicode_def le_bytes_htons le_bytes_htonl
      le_bytes_word_of_nat MAX_UNICODE_LENGTH_def)

lemma readShort_net: "readShort (at_pos pre (rev (le_bytes 2 (unat v)) @ rest)) =
    Inr (htons v, at_pos (pre @ rev (le_bytes 2 (unat v))) rest)"
  using read_typed_at(2) [of pre "htons v" rest] by (simp add: le_bytes_htons)

lemma readInt_net: "readInt (at_pos pre (rev (le_bytes 4 (unat v)) @ rest)) =
    Inr (htonl v, at_pos (pre @ rev (le_bytes 4 (unat v))) rest)"
  using read_typed_at(3) [of pre "htonl v" rest] by (simp add: le_bytes_htonl)

lemma parse_ascii_at:
  assumes "length v < 2 ^ 16"
  shows "parseAscii (at_pos pre (le_bytes 2 (length v) @ v @ rest)) = Inr (v, at_pos (pre @ le_bytes 2 (length v) @ v) rest)"
proof -
  have u: "unat (word_of_nat (length v) :: 16 word) = length v" "uint (word_of_nat (length v) :: 16 word) = int (length v)"
    using assms by (simp_all add: word_of_nat_small)
  have "readShort (at_pos pre (le_bytes 2 (length v) @ v @ rest)) =
    Inr (word_of_nat (length v), at_pos (pre @ le_bytes 2 (length v)) (v @ rest))"
    using read_typed_at(2) [of pre "word_of_nat (length v)" "v @ rest"] unfolding u .
  then show ?thesis by (simp add: parseAscii_def u)
qed

lemma parse_unicode_at:
  assumes "field_ok (Unicode u)"
  shows "parseUnicode (at_pos pre (le_bytes 4 (ucount u) @ wide_bytes (uchars u) @ rest)) =
    Inr (u\<lparr>uchars := copy_wide (uchars u)\<rparr>, at_pos (pre @ le_bytes 4 (ucount u) @ wide_bytes (uchars u)) rest)"
proof -
  let ?n = "word_of_nat (ucount u) :: 32 word"
  have n: "ucount u \<le> 16777216" "ucount u = length (uchars u)"
    using assms by (auto simp: MAX_UNICODE_LENGTH_def)
  then have u: "unat ?n = ucount u" "uint ?n = int (ucount u)" by (simp_all add: word_of_nat_small)
  have t: "uint (?n * 2) = 2 * int (ucount u)" using n(1) by (simp add: uint_word_ariths u)
  have sg: "0 \<le> sint ?n" using n(1) u by (simp add: sint_uint signed_take_bit_int_eq_self_iff signed_take_bit_int_eq_self)
  have "readInt (at_pos pre (le_bytes 4 (ucount u) @ wide_bytes (uchars u) @ rest)) =
    Inr (?n, at_pos (pre @ le_bytes 4 (ucount u)) (wide_bytes (uchars u) @ rest))"
    using read_typed_at(3) [of pre ?n "wide_bytes (uchars u) @ rest"] by (simp add: u)
  then show ?thesis using n t sg u
    by (simp add: parseUnicode_def Let_def MAX_UNICODE_LENGTH_def)
qed

lemma parse_field_at:
  assumes "field_ok f"
  shows "parse_field (kind_of f) (at_pos pre (field_bytes f @ rest)) = Inr (parsed_back f, at_pos (pre @ field_bytes f) rest)"
proof (cases f)
  case (Unicode u)
  then show ?thesis using parse_unicode_at [of u pre rest] assms by (simp add: tagged_def copy_wide_eq)
next
  case (Ascii v)
  then show ?thesis using parse_ascii_at [of v pre rest] assms by (simp add: tagged_def)
qed (simp_all add: tagged_def parseBoolean_def readBoolean_def parseByte_def parseShort_def parseNetShort_def parseInt_def
    parseNetInt_def parseLong_def readShort_net readInt_net)

lemma insert_all_at:
  "list_all field_ok fs \<Longrightarrow> insert_all fs (at_pos pre []) = Inr (at_pos (pre @ concat (map field_bytes fs)) [])"
  by (induction fs arbitrary: pre) (simp_all add: insert_field_at)

lemma parse_all_at:
  "list_all field_ok fs \<Longrightarrow> parse_all (map kind_of fs) (at_pos pre (concat (map field_bytes fs) @ rest)) =
     Inr (map parsed_back fs, at_pos (pre @ concat (map field_bytes fs)) rest)"
  by (induction fs arbitrary: pre) (simp_all add: parse_field_at)

subsection \<open>Safety of parsing\<close>

lemma safe_parseUnicode: "st_wf s \<Longrightarrow> safe_read s (parseUnicode s)"
  unfolding parseUnicode_def Let_def
  by (rule safe_bind [OF safe_typed(4)]) (auto intro!: safe_bind [OF safe_take])

lemma safe_parse_field:
  assumes "st_wf s"
  shows "safe_read s (parse_field k s)"
proof -
  note safe_bind [OF safe_typed(1)] safe_bind [OF safe_typed(2)] safe_bind [OF safe_typed(3)] safe_bind [OF safe_typed(4)]
    safe_bind [OF safe_typed(5)] safe_bind [OF safe_parseUnicode]
  note b = this
  show ?thesis
    using assms by (cases k) (auto simp: tagged_def parseBoolean_def parseByte_def parseShort_def parseNetShort_def
        parseInt_def parseNetInt_def parseLong_def parseAscii_def rbind_assoc intro!: b safe_bind [OF safe_take])
qed

lemma safe_parse_all: "st_wf s \<Longrightarrow> safe_read s (parse_all ks s)"
proof (induction ks arbitrary: s)
  case Nil
  then show ?case by simp
next
  case (Cons k ks)
  show ?case unfolding parse_all.simps
    by (rule safe_bind [OF safe_parse_field [OF Cons.prems]]) (auto intro!: safe_bind [OF Cons.IH])
qed

subsection \<open>Properties\<close>

text \<open>
  C26. What is inserted is what is parsed: for every message layout, with the fields in host or
  network byte order and strings that fit their length prefix, inserting the fields into a
  fresh packet and parsing the same layout from its start gives the fields back and leaves
  no data. The one exception are unicode strings with a zero character, which keep their length but lose the characters behind the first zero.
\<close>

theorem packet_roundtrip:
  assumes "list_all field_ok fs"
  shows "\<exists>s s'. insert_all fs pk_new = Inr s \<and> parse_all (map kind_of fs) (st_reset s) = Inr (map parsed_back fs, s') \<and> \<not> st_hasData s' \<and>
    (\<forall>f \<in> set fs. \<not> has_zero f \<longrightarrow> parsed_back f = f)"
  using insert_all_at [OF assms, of "[]"] parse_all_at [OF assms, of "[]" "[]"] parsed_back_whole
  by (simp add: pk_new_def st_new_at_pos st_hasData_def)

text \<open>
  C27. Parsing never reads outside the packet: on any bytes, any layout either parses, with the
  cursor moved forward inside the packet and the bytes unchanged, or raises
  \<open>StreamIndexOutOfBoundsException\<close>; no other error and no undefined behaviour occurs.
\<close>

theorem parse_in_bounds:
  assumes "0 \<le> soff s" "soff s \<le> st_size s"
  shows "case parse_all ks s of
      Inr (fs, s') \<Rightarrow> soff s \<le> soff s' \<and> soff s' \<le> st_size s' \<and> sbuf s' = sbuf s
    | Inl e \<Rightarrow> \<exists>i. e = StreamIndexOutOfBoundsException i"
  using safe_parse_all [of s ks] assms by (auto simp: safe_read_def st_wf_def split: sum.splits)

text \<open>
  The length check of \<open>parseUnicode\<close> can be passed with any length of \<open>2 ^ 31\<close> or more: the
  number of bytes is computed modulo \<open>2 ^ 32\<close> before it is compared with the limit, and the
  string returned has the announced length, more than sixty times the limit, with no
  initialised character.
\<close>

lemma parseUnicode_limit_wraps:
  assumes "k \<le> 16777216" "length bs = 2 * k"
  shows "parseUnicode (at_pos pre (le_bytes 4 (2 ^ 31 + k) @ bs @ rest)) =
    Inr (\<lparr>ucount = 2 ^ 31 + k, uchars = []\<rparr>, at_pos (pre @ le_bytes 4 (2 ^ 31 + k) @ bs) rest)"
proof -
  define n :: "32 word" where "n = word_of_nat (2 ^ 31 + k)"
  have u: "unat n = 2 ^ 31 + k" "uint n = 2 ^ 31 + int k"
    unfolding n_def using assms(1) by (subst word_of_nat_small; simp)+
  have "uint (n * 2) = (uint n * 2) mod 2 ^ 32" by (simp add: uint_word_ariths(3))
  then have t: "uint (n * 2) = 2 * int k" using assms(1) u(2) by simp
  have "(2147483648 + int k) div 2147483648 = 1" using assms(1) div_pos_pos_trivial [of "int k" 2147483648] by simp
  then have "sint n = int k - 2 ^ 31"
    using assms(1) u(2) by (simp add: sint_uint signed_take_bit_eq_take_bit_minus bit_iff_odd take_bit_eq_mod)
  then have sg: "\<not> 0 \<le> sint n" using assms(1) by simp
  have "readInt (at_pos pre (le_bytes 4 (2 ^ 31 + k) @ bs @ rest)) =
    Inr (n, at_pos (pre @ le_bytes 4 (2 ^ 31 + k)) (bs @ rest))"
    using read_typed_at(3) [of pre n "bs @ rest"] unfolding u .
  then show ?thesis using t sg u assms
    by (simp add: parseUnicode_def Let_def MAX_UNICODE_LENGTH_def)
qed

text \<open>
  \<open>parseAscii(offs, str)\<close> does not return the string stored at \<open>offs\<close>: it returns the bytes
  that end with the length prefix, whatever the string is, and reads before the buffer when
  the string is longer than what precedes it.
\<close>

lemma parseAscii_at_reads_backwards:
  assumes "length v < 2 ^ 16"
  shows "parseAscii_at (int (length pre)) (at_pos [] (pre @ field_bytes (Ascii v) @ rest)) =
    (if length v \<le> length pre + 2 then Inr (drop (length pre + 2 - length v) (pre @ le_bytes 2 (length v))) else Inl Undefined)"
proof -
  define n :: "16 word" where "n = word_of_nat (length v)"
  have u: "unat n = length v" "uint n = int (length v)" using assms by (simp_all add: n_def word_of_nat_small)
  let ?s = "at_pos [] (pre @ le_bytes 2 (length v) @ v @ rest)"
  have "le_val (le_bytes 2 (length v)) = length v" using assms by (simp add: le_val_le_bytes)
  then have r: "readShort_at (int (length pre)) ?s = Inr n"
    by (simp add: readShort_at_def read_word_at_def readPrimitiveFrom_def n_def)
  have d: "nat (int (length pre) + 2 - int (length v)) = length pre + 2 - length v" by simp
  show ?thesis unfolding parseAscii_at_def field_bytes.simps append_assoc r
    by (auto simp: Let_def d u)
qed

text \<open>
  Message serialisation does not round-trip: parsing what \<open>toBinaryStream\<close> wrote for a
  message of at least one byte gives a message that starts with the four bytes of the
  length prefix, because the bytes are taken from the start of the stream and not from its
  cursor.
\<close>

lemma message_roundtrip_fails:
  assumes "sbuf (pkt msg) \<noteq> []" "length (sbuf (pkt msg)) < 2 ^ 31"
  shows "\<exists>out m' inp'. msg_toBinaryStream msg st_new = Inr out \<and>
    msg_parseFromBinaryStream msg_new (st_reset out) = Inr (m', inp') \<and>
    sbuf (pkt m') = take (length (sbuf (pkt msg))) (le_bytes 4 (length (sbuf (pkt msg))) @ sbuf (pkt msg)) \<and>
    soff inp' = 4"
proof -
  let ?b = "sbuf (pkt msg)" and ?n = "word_of_nat (length (sbuf (pkt msg))) :: 32 word"
  have u: "unat ?n = length ?b" "uint ?n = int (length ?b)" using assms(2) by (simp_all add: word_of_nat_small)
  have sg: "sint ?n = int (length ?b)"
    using assms(2) u(2) by (simp add: sint_uint signed_take_bit_int_eq_self)
  have out: "msg_toBinaryStream msg st_new = Inr (at_pos (le_bytes 4 (length ?b) @ ?b) [])"
    using u by (simp add: msg_toBinaryStream_def writeSignedInt_def st_size_def st_new_at_pos)
  have "readInt (at_pos [] (le_bytes 4 (length ?b) @ ?b)) = Inr (?n, at_pos (le_bytes 4 (length ?b)) ?b)"
    using read_typed_at(3) [of "[]" ?n ?b] unfolding u by simp
  then have inp: "readSignedInt (at_pos [] (le_bytes 4 (length ?b) @ ?b)) = Inr (int (length ?b), at_pos (le_bytes 4 (length ?b)) ?b)"
    by (simp add: readSignedInt_def sg)
  have ra: "st_removeAll pk_new = Inr (at_pos [] [])"
    by (simp add: st_removeAll_def st_removeRange_def pk_new_def st_new_at_pos at_pos_def st_size_def)
  show ?thesis
    using out inp ra by (simp add: msg_parseFromBinaryStream_def msg_new_def st_writeStream_len_def)
qed

subsection \<open>Instances\<close>

theorem packet_roundtrip_witness:
  "\<exists>s s'. insert_all [Short 7, IntNet 258, Ascii [104, 105], Unicode \<lparr>ucount = 1, uchars = [955]\<rparr>, Unicode \<lparr>ucount = 3, uchars = [5, 0, 6]\<rparr>] pk_new = Inr s \<and>
    parse_all [KShort, KIntNet, KAscii, KUnicode, KUnicode] (st_reset s) =
      Inr ([Short 7, IntNet 258, Ascii [104, 105], Unicode \<lparr>ucount = 1, uchars = [955]\<rparr>, Unicode \<lparr>ucount = 3, uchars = [5, 0]\<rparr>], s')"
  using packet_roundtrip [of "[Short 7, IntNet 258, Ascii [104, 105], Unicode \<lparr>ucount = 1, uchars = [955]\<rparr>, Unicode \<lparr>ucount = 3, uchars = [5, 0, 6]\<rparr>]"]
  by (auto simp: MAX_UNICODE_LENGTH_def)

theorem parse_in_bounds_witness:
  "case parse_all [KShort, KAscii] \<lparr>sbuf = [1, 0, 9, 0, 65], soff = 0\<rparr> of
      Inr (fs, s') \<Rightarrow> soff s' \<le> 5 | Inl e \<Rightarrow> \<exists>i. e = StreamIndexOutOfBoundsException i"
  using parse_in_bounds [of "\<lparr>sbuf = [1, 0, 9, 0, 65], soff = 0\<rparr>" "[KShort, KAscii]"]
  by (auto simp: st_size_def split: sum.splits)

lemma parseUnicode_limit_wraps_witness:
  "\<exists>s'. parseUnicode (at_pos [] [1, 0, 0, 128, 65, 0]) = Inr (\<lparr>ucount = 2147483649, uchars = []\<rparr>, s')"
proof -
  have "le_bytes 4 (2 ^ 31 + 1) = [1, 0, 0, 128]" by (simp add: le_bytes_def upt_rec)
  then show ?thesis using parseUnicode_limit_wraps [of 1 "[65, 0]" "[]" "[]"] by simp
qed

lemma parseAscii_at_reads_backwards_instance:
  "parseAscii_at 0 (at_pos [] [3, 0, 65, 66, 67]) = Inl Undefined"
proof -
  have "le_bytes 2 (Suc (Suc (Suc 0))) = [3, 0]" by (simp add: le_bytes_def upt_rec)
  then show ?thesis using parseAscii_at_reads_backwards [of "[65, 66, 67]" "[]" "[]"] by simp
qed

lemma message_roundtrip_fails_witness:
  "\<exists>out m' inp'. msg_toBinaryStream \<lparr>pkt = at_pos [65, 66] [], timestampMili = 0\<rparr> st_new = Inr out \<and>
    msg_parseFromBinaryStream msg_new (st_reset out) = Inr (m', inp') \<and> sbuf (pkt m') = [2, 0]"
proof -
  have "le_bytes 4 (Suc (Suc 0)) = [2, 0, 0, 0]" by (simp add: le_bytes_def upt_rec)
  then show ?thesis using message_roundtrip_fails [of "\<lparr>pkt = at_pos [65, 66] [], timestampMili = 0\<rparr>"] by auto
qed

end
