(* ===== verification/IffStream.thy ===== *)
theory IffStream
  imports Packet
begin

text \<open>
  \<^verbatim>\<open>engine/util/iffstream\<close>: parsing of IFF files, trees of chunks with a four-byte identifier and a four-byte
  size in network order, and navigation in them. A chunk owns a copy of its bytes as a stream. The
  pointer \<open>openedChunk\<close> is the path from the main chunks to the chunk (empty for null), \<open>getParent\<close> is the path
  without its last step. Creating a chunk from more bytes than the source buffer holds reads
  foreign memory and is \<open>Undefined\<close>. Logging is left out.
\<close>

subsection \<open>Chunks\<close>

datatype chunk = Chunk
  (chunkID: "32 word") (chunkSize: int) (ch_stream: stream) (formType: "32 word") (subChunks: "chunk list") (lastOpenedSubChunk: int)

definition FORM :: "32 word" where
  "FORM = 0x464F524D"

definition DATA :: "32 word" where
  "DATA = 0x44415441"

definition isFORM :: "chunk \<Rightarrow> bool" where
  "isFORM c \<longleftrightarrow> chunkID c = FORM"

definition isDATA :: "chunk \<Rightarrow> bool" where
  "isDATA c \<longleftrightarrow> chunkID c = DATA"

definition readNetInt :: "stream \<Rightarrow> (32 word \<times> stream) res" where
  "readNetInt s = rbind (readInt s) (\<lambda>(v, s'). Inr (htonl v, s'))"

text \<open>The constructor copies \<open>size\<close> bytes from \<open>data\<close>, here the bytes that follow the pointer.\<close>

definition chunk_bytes :: "32 word \<Rightarrow> byte list \<Rightarrow> byte list res" where
  "chunk_bytes sz data =
     (if 0 \<le> sint sz \<and> sint sz \<le> int (length data) then Inr (take (nat (sint sz)) data) else Inl Undefined)"

definition chunk_new :: "32 word \<Rightarrow> 32 word \<Rightarrow> byte list \<Rightarrow> chunk res" where
  "chunk_new i sz data = rbind (chunk_bytes sz data) (\<lambda>bs. rbind (st_writeStream bs st_new) (\<lambda>s.
     Inr (Chunk i (sint sz) (st_reset s) 0 [] (-1))))"

lemma readNetInt_shape:
  "readNetInt s = Inr (v, s') \<Longrightarrow> sbuf s' = sbuf s \<and> soff s' = soff s + 4 \<and> 0 \<le> soff s \<and> soff s' \<le> int (length (sbuf s))"
  by (auto simp: readNetInt_def readInt_def read_word_def readPrimitive_def st_take_bytes_def st_shiftOffset_def
      rbind_eq_Inr_iff st_size_def split: if_splits)

lemma chunk_new_eq:
  "chunk_new i sz data =
     (if 0 \<le> sint sz \<and> sint sz \<le> int (length data)
      then Inr (Chunk i (sint sz) (at_pos [] (take (nat (sint sz)) data)) 0 [] (-1)) else Inl Undefined)"
  by (simp add: chunk_new_def chunk_bytes_def st_new_at_pos)

text \<open>The bytes left, which every step of the parser decreases.\<close>

definition st_left :: "stream \<Rightarrow> nat" where
  "st_left s = nat (int (length (sbuf s)) - soff s)"

text \<open>\<open>parseData\<close> of the class the factory made: a \<open>Form\<close> reads its type and its sub-chunks, others nothing.\<close>

function parse_data :: "chunk \<Rightarrow> chunk res" and parse_subs :: "stream \<Rightarrow> (chunk list \<times> stream) res" where
  "parse_data c =
     (if isFORM c then
        rbind (readNetInt (ch_stream c)) (\<lambda>(ft, s).
        rbind (parse_subs s) (\<lambda>(cs, s').
        Inr (Chunk (chunkID c) (chunkSize c) s' ft (subChunks c @ cs) (lastOpenedSubChunk c))))
      else Inr c)"
| "parse_subs s =
     (if st_hasData s then
        rbind (readNetInt s) (\<lambda>(ty, s1).
        rbind (readNetInt s1) (\<lambda>(sz, s2).
        rbind (chunk_new ty sz (drop (nat (soff s2)) (sbuf s2))) (\<lambda>c.
        rbind (parse_data c) (\<lambda>c'.
        rbind (st_shiftOffset (sint sz) s2) (\<lambda>s3.
        rbind (parse_subs s3) (\<lambda>(cs, s4).
        Inr (c' # cs, s4)))))))
      else Inr ([], s))"
  by pat_completeness auto

termination
proof (relation "measure (\<lambda>x. case x of Inl c \<Rightarrow> st_left (ch_stream c) | Inr s \<Rightarrow> st_left s)", goal_cases)
  case (2 c x ft s)
  then show ?case using readNetInt_shape [of "ch_stream c" ft s] by (simp add: st_left_def)
next
  case (3 s x ty s1 y sz s2 c)
  then show ?case using readNetInt_shape [of s ty s1] readNetInt_shape [of s1 sz s2]
    by (auto simp: st_left_def chunk_new_eq split: if_splits)
next
  case (4 s x ty s1 y sz s2 c c' s3)
  then show ?case using readNetInt_shape [of s ty s1] readNetInt_shape [of s1 sz s2]
    by (auto simp: st_left_def chunk_new_eq st_shiftOffset_def split: if_splits)
qed simp

declare parse_data.simps [simp del] parse_subs.simps [simp del]

subsection \<open>The file\<close>

record iff_stream =
  mainChunks :: "chunk list"
  lastOpenedChunk :: int
  openedChunk :: "nat list"

definition net_int :: "byte list \<Rightarrow> 32 word" where
  "net_int bs = htonl (word_of_nat (le_val (take 4 bs)))"

text \<open>
  The loop of \<open>loadMainChunks\<close>; \<open>rest\<close> is the data from \<open>offset\<close> on, so \<open>offset < dataSize - 4\<close> says that more than
  four bytes are left. With five to seven left the size is read beyond the data.
\<close>

function loadMainChunks :: "byte list \<Rightarrow> chunk list res" where
  "loadMainChunks rest =
     (if 4 < length rest then
        if length rest < 8 then Inl Undefined
        else rbind (chunk_new (net_int rest) (net_int (drop 4 rest)) (drop 8 rest)) (\<lambda>c.
             rbind (parse_data c) (\<lambda>c'.
             rbind (loadMainChunks (drop (8 + unat (net_int (drop 4 rest))) rest)) (\<lambda>cs. Inr (c' # cs))))
      else Inr [])"
  by pat_completeness auto

termination by (relation "measure length") auto

declare loadMainChunks.simps [simp del]

definition parseChunks :: "byte list \<Rightarrow> iff_stream res" where
  "parseChunks data =
     (if length data < 8 then Inl (GenericException ''InvalidFileTypeException'')
      else rbind (loadMainChunks data) (\<lambda>cs. Inr \<lparr>mainChunks = cs, lastOpenedChunk = -1, openedChunk = []\<rparr>))"

subsection \<open>Navigation\<close>

definition set_subs :: "chunk list \<Rightarrow> chunk \<Rightarrow> chunk" where
  "set_subs cs c = Chunk (chunkID c) (chunkSize c) (ch_stream c) (formType c) cs (lastOpenedSubChunk c)"

definition setLastOpenedSubChunk :: "int \<Rightarrow> chunk \<Rightarrow> chunk" where
  "setLastOpenedSubChunk i c = Chunk (chunkID c) (chunkSize c) (ch_stream c) (formType c) (subChunks c) i"

definition set_stream :: "stream \<Rightarrow> chunk \<Rightarrow> chunk" where
  "set_stream s c = Chunk (chunkID c) (chunkSize c) s (formType c) (subChunks c) (lastOpenedSubChunk c)"

text \<open>Following a path below a chunk, and changing the chunk at its end.\<close>

fun sub_at :: "nat list \<Rightarrow> chunk \<Rightarrow> chunk option" where
  "sub_at [] c = Some c"
| "sub_at (i # p) c = (if i < length (subChunks c) then sub_at p (subChunks c ! i) else None)"

fun sub_upd :: "(chunk \<Rightarrow> chunk) \<Rightarrow> nat list \<Rightarrow> chunk \<Rightarrow> chunk" where
  "sub_upd g [] c = g c"
| "sub_upd g (i # p) c = set_subs ((subChunks c)[i := sub_upd g p (subChunks c ! i)]) c"

fun chunk_at :: "nat list \<Rightarrow> chunk list \<Rightarrow> chunk option" where
  "chunk_at [] cs = None"
| "chunk_at (i # p) cs = (if i < length cs then sub_at p (cs ! i) else None)"

fun chunk_upd :: "(chunk \<Rightarrow> chunk) \<Rightarrow> nat list \<Rightarrow> chunk list \<Rightarrow> chunk list" where
  "chunk_upd g [] cs = cs"
| "chunk_upd g (i # p) cs = cs[i := sub_upd g p (cs ! i)]"

type_synonym 'a iff_out = "'a res \<times> iff_stream"

text \<open>
  \<open>mainChunks.get(++lastOpenedChunk)\<close> or \<open>openedChunk->getNextChunk()\<close>: the index is advanced even when the access
  raises.
\<close>

definition next_chunk :: "iff_stream \<Rightarrow> nat list iff_out" where
  "next_chunk f =
     (if openedChunk f = [] then
        case chk32 (lastOpenedChunk f + 1) of Inl e \<Rightarrow> (Inl e, f)
        | Inr i \<Rightarrow>
          (if 0 \<le> i \<and> i < int (length (mainChunks f)) then Inr [nat i] else Inl (ArrayIndexOutOfBoundsException i),
           f\<lparr>lastOpenedChunk := i\<rparr>)
      else case chunk_at (openedChunk f) (mainChunks f) of None \<Rightarrow> (Inl Undefined, f)
        | Some c \<Rightarrow>
          (case chk32 (lastOpenedSubChunk c + 1) of Inl e \<Rightarrow> (Inl e, f)
           | Inr i \<Rightarrow>
             (if 0 \<le> i \<and> i < int (length (subChunks c)) then Inr (openedChunk f @ [nat i]) else Inl (ArrayIndexOutOfBoundsException i),
              f\<lparr>mainChunks := chunk_upd (setLastOpenedSubChunk i) (openedChunk f) (mainChunks f)\<rparr>)))"

text \<open>\<open>openForm\<close> and \<open>openChunk\<close>; \<open>False\<close> stands for the returned null pointer.\<close>

definition open_if :: "(chunk \<Rightarrow> bool) \<Rightarrow> iff_stream \<Rightarrow> bool iff_out" where
  "open_if ok f =
     (case next_chunk f of
        (Inl e, f) \<Rightarrow> (Inl e, f)
      | (Inr p, f) \<Rightarrow>
          (case chunk_at p (mainChunks f) of
             None \<Rightarrow> (Inl Undefined, f)
           | Some c \<Rightarrow> if ok c then (Inr True, f\<lparr>openedChunk := p\<rparr>) else (Inr False, f)))"

definition openForm :: "32 word \<Rightarrow> iff_stream \<Rightarrow> bool iff_out" where
  "openForm ft = open_if (\<lambda>c. isFORM c \<and> formType c = ft)"

definition openChunk :: "32 word \<Rightarrow> iff_stream \<Rightarrow> bool iff_out" where
  "openChunk i = open_if (\<lambda>c. \<not> (i \<noteq> 0 \<and> chunkID c \<noteq> i))"

definition NoOpenedChunk :: err where
  "NoOpenedChunk = GenericException ''NoOpenedChunkException''"

definition opened :: "iff_stream \<Rightarrow> chunk res" where
  "opened f =
     (if openedChunk f = [] then Inl NoOpenedChunk
      else case chunk_at (openedChunk f) (mainChunks f) of None \<Rightarrow> Inl Undefined | Some c \<Rightarrow> Inr c)"

definition closeChunk :: "iff_stream \<Rightarrow> iff_stream res" where
  "closeChunk f = rbind (opened f) (\<lambda>_. Inr (f\<lparr>openedChunk := butlast (openedChunk f)\<rparr>))"

definition closeForm :: "32 word \<Rightarrow> iff_stream \<Rightarrow> iff_stream res" where
  "closeForm ft f = closeChunk f"

definition skipChunks :: "int \<Rightarrow> iff_stream \<Rightarrow> iff_stream res" where
  "skipChunks num f =
     (if openedChunk f \<noteq> [] then
        rbind (opened f) (\<lambda>c. rbind (chk32 (lastOpenedSubChunk c + num)) (\<lambda>i.
        Inr (f\<lparr>mainChunks := chunk_upd (setLastOpenedSubChunk i) (openedChunk f) (mainChunks f)\<rparr>)))
      else rbind (chk32 (lastOpenedChunk f + num)) (\<lambda>i. Inr (f\<lparr>lastOpenedChunk := i\<rparr>)))"

definition getSubChunksNumber :: "iff_stream \<Rightarrow> int res" where
  "getSubChunksNumber f =
     (if openedChunk f = [] then Inr (int (length (mainChunks f)))
      else rbind (opened f) (\<lambda>c. Inr (int (length (subChunks c)))))"

definition getRemainingSubChunksNumber :: "iff_stream \<Rightarrow> int res" where
  "getRemainingSubChunksNumber f =
     (if openedChunk f = [] then Inr (int (length (mainChunks f)) - (lastOpenedChunk f + 1))
      else rbind (opened f) (\<lambda>c. Inr (int (length (subChunks c)) - (lastOpenedSubChunk c + 1))))"

definition getDataSize :: "iff_stream \<Rightarrow> int res" where
  "getDataSize f = rbind (opened f) (\<lambda>c. Inr (chunkSize c))"

definition InvalidChunkType :: err where
  "InvalidChunkType = GenericException ''InvalidChunkTypeException''"

definition form_type :: "chunk \<Rightarrow> 32 word res" where
  "form_type c = (if isFORM c then Inr (formType c) else Inl InvalidChunkType)"

definition getFormType :: "iff_stream \<Rightarrow> 32 word res" where
  "getFormType f = rbind (opened f) form_type"

definition vec_get :: "int \<Rightarrow> chunk list \<Rightarrow> chunk res" where
  "vec_get i cs = (if 0 \<le> i \<and> i < int (length cs) then Inr (cs ! nat i) else Inl (ArrayIndexOutOfBoundsException i))"

definition getNextFormType :: "iff_stream \<Rightarrow> 32 word res" where
  "getNextFormType f =
     rbind (if openedChunk f = [] then vec_get (lastOpenedChunk f + 1) (mainChunks f)
            else rbind (opened f) (\<lambda>c. vec_get (lastOpenedSubChunk c + 1) (subChunks c))) form_type"

text \<open>The readers: each reads from the stream of the opened chunk.\<close>

definition iff_read :: "(stream \<Rightarrow> ('a \<times> stream) res) \<Rightarrow> iff_stream \<Rightarrow> ('a \<times> iff_stream) res" where
  "iff_read rd f =
     rbind (opened f) (\<lambda>c. rbind (rd (ch_stream c)) (\<lambda>(v, s).
     Inr (v, f\<lparr>mainChunks := chunk_upd (set_stream s) (openedChunk f) (mainChunks f)\<rparr>)))"

lemma readByte_shape:
  "readByte s = Inr (b, s') \<Longrightarrow> sbuf s' = sbuf s \<and> soff s' = soff s + 1 \<and> 0 \<le> soff s \<and> soff s' \<le> int (length (sbuf s))"
  by (auto simp: readByte_def read_word_def readPrimitive_def st_take_bytes_def st_shiftOffset_def
      rbind_eq_Inr_iff st_size_def split: if_splits)

function readString :: "stream \<Rightarrow> (byte list \<times> stream) res" where
  "readString s =
     rbind (readByte s) (\<lambda>(b, s).
     if b = 0 then Inr ([], s) else rbind (readString s) (\<lambda>(bs, s). Inr (b # bs, s)))"
  by pat_completeness auto

termination
proof (relation "measure st_left", goal_cases)
  case (2 s x b s')
  then show ?case using readByte_shape [of s b s'] by (simp add: st_left_def)
qed simp

declare readString.simps [simp del]

definition getString :: "iff_stream \<Rightarrow> (byte list \<times> iff_stream) res" where
  "getString = iff_read readString"

definition getInt :: "iff_stream \<Rightarrow> (int \<times> iff_stream) res" where
  "getInt = iff_read readSignedInt"

definition getUnsignedInt :: "iff_stream \<Rightarrow> (32 word \<times> iff_stream) res" where
  "getUnsignedInt = iff_read readInt"

definition getByte :: "iff_stream \<Rightarrow> (8 word \<times> iff_stream) res" where
  "getByte = iff_read readByte"

definition getUnsignedLong :: "iff_stream \<Rightarrow> (64 word \<times> iff_stream) res" where
  "getUnsignedLong = iff_read readLong"

definition getLong :: "iff_stream \<Rightarrow> (int \<times> iff_stream) res" where
  "getLong = iff_read (\<lambda>s. rbind (readLong s) (\<lambda>(v, s). Inr (sint v, s)))"

definition getBytes :: "int \<Rightarrow> iff_stream \<Rightarrow> (byte list \<times> iff_stream) res" where
  "getBytes n = iff_read (st_readStream n)"

subsection \<open>The format\<close>

datatype iff_tree = Leaf "32 word" "byte list" | Form "32 word" "iff_tree list"

definition be32 :: "32 word \<Rightarrow> byte list" where
  "be32 w = rev (le_bytes 4 (unat w))"

definition iff_frame :: "32 word \<Rightarrow> byte list \<Rightarrow> byte list" where
  "iff_frame i bs = be32 i @ be32 (word_of_nat (length bs)) @ bs"

fun iff_encode :: "iff_tree \<Rightarrow> byte list" where
  "iff_encode (Leaf i bs) = iff_frame i bs"
| "iff_encode (Form ft ts) = iff_frame FORM (be32 ft @ concat (map iff_encode ts))"

fun iff_id :: "iff_tree \<Rightarrow> 32 word" where
  "iff_id (Leaf i bs) = i"
| "iff_id (Form ft ts) = FORM"

fun iff_payload :: "iff_tree \<Rightarrow> byte list" where
  "iff_payload (Leaf i bs) = bs"
| "iff_payload (Form ft ts) = be32 ft @ concat (map iff_encode ts)"

fun iff_wf :: "iff_tree \<Rightarrow> bool" where
  "iff_wf (Leaf i bs) \<longleftrightarrow> i \<noteq> FORM \<and> length bs < 2 ^ 31"
| "iff_wf (Form ft ts) \<longleftrightarrow> list_all iff_wf ts \<and> length (be32 ft @ concat (map iff_encode ts)) < 2 ^ 31"

text \<open>The chunk of a tree, freshly parsed: a form has been read to its end, other chunks not at all.\<close>

fun tree_chunk :: "iff_tree \<Rightarrow> chunk" where
  "tree_chunk (Leaf i bs) = Chunk i (int (length bs)) (at_pos [] bs) 0 [] (-1)"
| "tree_chunk (Form ft ts) =
     (let body = be32 ft @ concat (map iff_encode ts) in
      Chunk FORM (int (length body)) (at_pos body []) ft (map tree_chunk ts) (-1))"

lemma iff_encode_frame: "iff_encode t = iff_frame (iff_id t) (iff_payload t)"
  by (cases t) simp_all

lemma length_be32 [simp]: "length (be32 w) = 4"
  by (simp add: be32_def)

lemma readNetInt_at: "readNetInt (at_pos pre (be32 v @ rest)) = Inr (v, at_pos (pre @ be32 v) rest)"
  using readInt_net [of pre v rest] by (simp add: readNetInt_def be32_def)

lemma net_int_be32: "net_int (be32 v @ rest) = v"
  using word_of_nat_le_val [of 4 "htonl v"] by (simp add: net_int_def be32_def le_bytes_htonl)

lemma be32_net_int: "4 \<le> length bs \<Longrightarrow> be32 (net_int bs) = take 4 bs"
proof -
  assume l: "4 \<le> length bs"
  then have "le_val (take 4 bs) < 256 ^ 4" using le_val_bound [of "take 4 bs"] by simp
  then have "unat (word_of_nat (le_val (take 4 bs)) :: 32 word) = le_val (take 4 bs)" by (simp add: unat_of_nat)
  then show ?thesis using le_bytes_le_val [of "take 4 bs"] l by (simp add: net_int_def be32_def le_bytes_htonl)
qed

lemma sint_unat:
  assumes "0 \<le> sint (w :: 32 word)"
  shows "sint w = int (unat w)" "unat w < 2 ^ 31"
proof -
  have s: "sint w < 2 ^ 31" using signed_take_bit_int_less_exp [of 31 "uint w"] by (simp add: sint_uint)
  then have u: "uint w = sint w" using uint_sint [of w] assms by (simp add: take_bit_int_eq_self)
  then show "sint w = int (unat w)" by simp
  show "unat w < 2 ^ 31" unfolding unat_eq_nat_uint u using s assms by simp
qed

lemma sint_size: "n < 2 ^ 31 \<Longrightarrow> sint (word_of_nat n :: 32 word) = int n"
  by (simp add: signed_of_nat signed_take_bit_int_eq_self)

text \<open>A frame is parsed back to its identifier and its bytes, and only frames are parsed.\<close>

lemma chunk_new_frame:
  "length bs < 2 ^ 31 \<Longrightarrow>
   chunk_new i (word_of_nat (length bs)) (bs @ rest) = Inr (Chunk i (int (length bs)) (at_pos [] bs) 0 [] (-1))"
  by (simp add: chunk_new_eq sint_size)

lemma chunk_new_inv:
  assumes "chunk_new i sz data = Inr c"
  obtains bs rest where "data = bs @ rest" "sz = word_of_nat (length bs)" "sint sz = int (length bs)" "unat sz = length bs" "length bs < 2 ^ 31"
    "c = Chunk i (int (length bs)) (at_pos [] bs) 0 [] (-1)"
proof -
  have s: "0 \<le> sint sz" "sint sz \<le> int (length data)" and c: "c = Chunk i (sint sz) (at_pos [] (take (nat (sint sz)) data)) 0 [] (-1)"
    using assms by (auto simp: chunk_new_eq split: if_splits)
  have u: "sint sz = int (unat sz)" "unat sz < 2 ^ 31" by (rule sint_unat [OF s(1)])+
  let ?bs = "take (unat sz) data"
  have l: "length ?bs = unat sz" using s(2) unfolding u(1) by (simp only: of_nat_le_iff length_take min_absorb2)
  show thesis
  proof (rule that)
    show "data = ?bs @ drop (unat sz) data" by simp
    show "sz = word_of_nat (length ?bs)" "sint sz = int (length ?bs)" "unat sz = length ?bs" "length ?bs < 2 ^ 31" using l u by simp_all
    show "c = Chunk i (int (length ?bs)) (at_pos [] ?bs) 0 [] (-1)" using c l u(1) by simp
  qed
qed

lemma parse_subs_frame:
  assumes "length bs < 2 ^ 31" "parse_data (Chunk i (int (length bs)) (at_pos [] bs) 0 [] (-1)) = Inr c"
  shows "parse_subs (at_pos pre (iff_frame i bs @ rest)) =
    rbind (parse_subs (at_pos (pre @ iff_frame i bs) rest)) (\<lambda>(cs, s). Inr (c # cs, s))"
proof -
  let ?p = "pre @ be32 i @ be32 (word_of_nat (length bs))"
  have "st_shiftOffset (int (length bs)) (at_pos ?p (bs @ rest)) = Inr (at_pos (?p @ bs) rest)"
    by (simp add: st_shiftOffset_def at_pos_def st_size_def)
  moreover have "st_hasData (at_pos pre (iff_frame i bs @ rest))" by (simp add: st_hasData_def iff_frame_def)
  ultimately show ?thesis
    using assms by (subst parse_subs.simps) (simp add: iff_frame_def readNetInt_at chunk_new_frame sint_size)
qed

lemma parse_subs_end: "parse_subs (at_pos pre []) = Inr ([], at_pos pre [])"
  by (subst parse_subs.simps) (simp add: st_hasData_def)

lemma parse_tree: "iff_wf t \<Longrightarrow>
   parse_data (Chunk (iff_id t) (int (length (iff_payload t))) (at_pos [] (iff_payload t)) 0 [] (-1)) = Inr (tree_chunk t)"
proof (induction t)
  case (Leaf i bs)
  then show ?case by (subst parse_data.simps) (simp add: isFORM_def)
next
  case (Form ft ts)
  have "parse_subs (at_pos pre (concat (map iff_encode us))) = Inr (map tree_chunk us, at_pos (pre @ concat (map iff_encode us)) [])"
    if "set us \<subseteq> set ts" for us pre
    using that
  proof (induction us arbitrary: pre)
    case Nil
    then show ?case by (simp add: parse_subs_end)
  next
    case (Cons u us)
    have u: "iff_wf u" using Cons.prems Form.prems by (auto simp: list_all_iff)
    then have "length (iff_payload u) < 2 ^ 31" by (cases u) simp_all
    then show ?case
      using parse_subs_frame [of "iff_payload u" "iff_id u" "tree_chunk u" pre "concat (map iff_encode us)"] Form.IH [of u] u Cons
      by (simp add: iff_encode_frame [of u])
  qed
  from this [of ts "be32 ft"] show ?case
    by (subst parse_data.simps) (simp add: isFORM_def readNetInt_at Let_def)
qed

lemma readNetInt_inv:
  assumes "readNetInt (at_pos pre rest) = Inr (v, s)"
  obtains rest' where "rest = be32 v @ rest'" "s = at_pos (pre @ be32 v) rest'"
proof (rule st_take_bytes_cases [of 4 rest pre])
  assume "st_take_bytes 4 (at_pos pre rest) = Inl (StreamIndexOutOfBoundsException (int (length pre) + 4))"
  then show thesis using assms by (simp add: readNetInt_def readInt_def read_word_def readPrimitive_def)
next
  fix bs rest' assume r: "rest = bs @ rest'" "4 = int (length bs)" "st_take_bytes 4 (at_pos pre rest) = Inr (bs, at_pos (pre @ bs) rest')"
  then have "v = net_int bs" "s = at_pos (pre @ bs) rest'"
    using assms by (auto simp: readNetInt_def readInt_def read_word_def readPrimitive_def net_int_def)
  moreover have "be32 (net_int bs) = bs" using be32_net_int [of bs] r(2) by simp
  ultimately show thesis using that r(1) by simp
qed simp

lemma parse_sound:
  shows "parse_data c = Inr c' \<Longrightarrow> c = Chunk i (int (length bs)) (at_pos [] bs) 0 [] (-1) \<Longrightarrow> length bs < 2 ^ 31 \<Longrightarrow>
      \<exists>t. iff_wf t \<and> iff_id t = i \<and> iff_payload t = bs \<and> tree_chunk t = c'"
    and "parse_subs s = Inr (cs, s') \<Longrightarrow> s = at_pos pre rest \<Longrightarrow>
      \<exists>ts. list_all iff_wf ts \<and> rest = concat (map iff_encode ts) \<and> cs = map tree_chunk ts \<and> s' = at_pos (pre @ rest) []"
proof (induction c and s arbitrary: c' i bs and cs s' pre rest rule: parse_data_parse_subs.induct)
  case (1 c)
  show ?case
  proof (cases "i = FORM")
    case False
    then have "c' = c" using "1.prems"(1) "1.prems"(2) unfolding parse_data.simps [of c] by (simp add: isFORM_def)
    then show ?thesis using False "1.prems"(2,3) by (intro exI [of _ "Leaf i bs"]) simp
  next
    case True
    then obtain ft s cs s' where r: "readNetInt (at_pos [] bs) = Inr (ft, s)" "parse_subs s = Inr (cs, s')"
      "c' = Chunk FORM (int (length bs)) s' ft cs (-1)"
      using "1.prems"(1) "1.prems"(2) unfolding parse_data.simps [of c] by (auto simp: isFORM_def rbind_eq_Inr_iff)
    obtain rest where rest: "bs = be32 ft @ rest" "s = at_pos ([] @ be32 ft) rest" using readNetInt_inv [OF r(1)] by blast
    obtain ts where "list_all iff_wf ts" "rest = concat (map iff_encode ts)" "cs = map tree_chunk ts" "s' = at_pos (be32 ft @ rest) []"
      using "1.IH" [of "(ft, s)" ft s cs s' "be32 ft" rest] r(1,2) rest(2) "1.prems"(2) True by (auto simp: isFORM_def)
    then show ?thesis using True r(3) rest(1) "1.prems"(3) by (intro exI [of _ "Form ft ts"]) simp
  qed
next
  case (2 s)
  show ?case
  proof (cases "rest = []")
    case True
    then show ?thesis using "2.prems" parse_subs_end [of pre] by (intro exI [of _ "[]"]) simp
  next
    case False
    then have hd: "st_hasData s" using "2.prems"(2) by (simp add: st_hasData_def)
    then obtain ty s1 sz s2 c c1 s3 cs1 where r: "readNetInt s = Inr (ty, s1)" "readNetInt s1 = Inr (sz, s2)"
      "chunk_new ty sz (drop (nat (soff s2)) (sbuf s2)) = Inr c" "parse_data c = Inr c1" "st_shiftOffset (sint sz) s2 = Inr s3"
      "parse_subs s3 = Inr (cs1, s')" "cs = c1 # cs1"
      using "2.prems"(1) by (auto simp: parse_subs.simps [of s] rbind_eq_Inr_iff)
    obtain r1 where r1: "rest = be32 ty @ r1" "s1 = at_pos (pre @ be32 ty) r1" using readNetInt_inv r(1) "2.prems"(2) by metis
    obtain r2 where r2: "r1 = be32 sz @ r2" "s2 = at_pos ((pre @ be32 ty) @ be32 sz) r2" using readNetInt_inv r(2) r1(2) by metis
    have d: "drop (nat (soff s2)) (sbuf s2) = r2" using r2(2) by simp
    obtain bs r3 where b: "r2 = bs @ r3" "sz = word_of_nat (length bs)" "sint sz = int (length bs)" "unat sz = length bs" "length bs < 2 ^ 31"
      "c = Chunk ty (int (length bs)) (at_pos [] bs) 0 [] (-1)"
      by (rule chunk_new_inv [OF r(3) [unfolded d]])
    have s3: "s3 = at_pos (pre @ iff_frame ty bs) r3"
      using r(5) r2(2) b(1,2,3) by (auto simp: st_shiftOffset_def at_pos_def st_size_def iff_frame_def split: if_splits)
    obtain t where t: "iff_wf t" "iff_id t = ty" "iff_payload t = bs" "tree_chunk t = c1"
      using "2.IH"(1) [OF hd r(1) refl r(2) refl r(3) r(4) b(6,5)] by blast
    obtain ts where ts: "list_all iff_wf ts" "r3 = concat (map iff_encode ts)" "cs1 = map tree_chunk ts" "s' = at_pos ((pre @ iff_frame ty bs) @ r3) []"
      using "2.IH"(2) [OF hd r(1) refl r(2) refl r(3) r(4) r(5) r(6) s3] by blast
    have "rest = iff_frame ty bs @ r3" using r1(1) r2(1) b(1,2) by (simp add: iff_frame_def)
    then show ?thesis using t ts r(7) by (intro exI [of _ "t # ts"]) (simp add: iff_encode_frame [of t])
  qed
qed

lemma load_frame:
  assumes "length bs < 2 ^ 31" "parse_data (Chunk i (int (length bs)) (at_pos [] bs) 0 [] (-1)) = Inr c"
  shows "loadMainChunks (iff_frame i bs @ rest) = rbind (loadMainChunks rest) (\<lambda>cs. Inr (c # cs))"
proof -
  let ?w = "word_of_nat (length bs) :: 32 word"
  have "net_int (iff_frame i bs @ rest) = i" using net_int_be32 [of i] by (simp add: iff_frame_def)
  moreover have "drop 4 (iff_frame i bs @ rest) = be32 ?w @ bs @ rest" by (simp add: iff_frame_def)
  moreover have "drop 8 (iff_frame i bs @ rest) = bs @ rest" by (simp add: iff_frame_def)
  moreover have "unat ?w = length bs" using word_of_nat_small(1) [of "length bs", where 'w = 32] assms(1) by simp
  moreover have "drop (8 + length bs) (iff_frame i bs @ rest) = rest" by (simp add: iff_frame_def)
  moreover have "8 \<le> length (iff_frame i bs @ rest)" by (simp add: iff_frame_def)
  ultimately show ?thesis
    using assms by (subst loadMainChunks.simps) (simp add: net_int_be32 chunk_new_frame)
qed

lemma load_encoded:
  "list_all iff_wf ts \<Longrightarrow> length pad \<le> 4 \<Longrightarrow> loadMainChunks (concat (map iff_encode ts) @ pad) = Inr (map tree_chunk ts)"
proof (induction ts)
  case Nil
  then show ?case by (simp add: loadMainChunks.simps)
next
  case (Cons t ts)
  have "length (iff_payload t) < 2 ^ 31" using Cons.prems(1) by (cases t) simp_all
  then show ?case
    using load_frame [of "iff_payload t" "iff_id t" "tree_chunk t" "concat (map iff_encode ts) @ pad"] parse_tree [of t] Cons
    by (simp add: iff_encode_frame [of t])
qed

lemma load_sound:
  "loadMainChunks data = Inr cs \<Longrightarrow>
   \<exists>ts pad. list_all iff_wf ts \<and> data = concat (map iff_encode ts) @ pad \<and> length pad \<le> 4 \<and> cs = map tree_chunk ts"
proof (induction data arbitrary: cs rule: loadMainChunks.induct)
  case (1 data)
  show ?case
  proof (cases "4 < length data")
    case False
    then show ?thesis using "1.prems" by (intro exI [of _ "[]"] exI [of _ data]) (simp add: loadMainChunks.simps [of data])
  next
    case True
    let ?i = "net_int data" and ?sz = "net_int (drop 4 data)"
    have l: "\<not> length data < 8" using "1.prems" True by (auto simp: loadMainChunks.simps [of data])
    then obtain c c1 cs1 where r: "chunk_new ?i ?sz (drop 8 data) = Inr c" "parse_data c = Inr c1"
      "loadMainChunks (drop (8 + unat ?sz) data) = Inr cs1" "cs = c1 # cs1"
      using "1.prems" True by (auto simp: loadMainChunks.simps [of data] rbind_eq_Inr_iff)
    obtain bs r3 where b: "drop 8 data = bs @ r3" "?sz = word_of_nat (length bs)" "sint ?sz = int (length bs)" "unat ?sz = length bs"
      "length bs < 2 ^ 31" "c = Chunk ?i (int (length bs)) (at_pos [] bs) 0 [] (-1)" by (rule chunk_new_inv [OF r(1)])
    obtain t where t: "iff_wf t" "iff_id t = ?i" "iff_payload t = bs" "tree_chunk t = c1" using parse_sound(1) [OF r(2) b(6,5)] by blast
    have r3: "drop (8 + unat ?sz) data = r3"
      using arg_cong [OF b(1), of "drop (length bs)"] b(4) by (simp add: add.commute)
    obtain ts pad where ts: "list_all iff_wf ts" "r3 = concat (map iff_encode ts) @ pad" "length pad \<le> 4" "cs1 = map tree_chunk ts"
      using "1.IH" [OF True l r(1,2,3)] r3 by auto
    have "data = take 4 data @ take 4 (drop 4 data) @ drop 8 data"
      by (metis append_take_drop_id drop_drop numeral_Bit0 add.commute)
    then have "data = iff_frame ?i bs @ r3"
      using be32_net_int [of data] be32_net_int [of "drop 4 data"] l b(1,2) by (simp add: iff_frame_def)
    then show ?thesis using t ts r(4) by (intro exI [of _ "t # ts"] exI [of _ pad]) (simp add: iff_encode_frame [of t])
  qed
qed

subsection \<open>Reading by schema\<close>

text \<open>
  A reader that knows what to expect, the way clients use the class: it opens the next chunk by its
  type, reads a leaf completely, goes through the chunks of a form, and closes.
\<close>

definition opened_ok :: "bool iff_out \<Rightarrow> iff_stream option" where
  "opened_ok r = (case r of (Inr True, f) \<Rightarrow> Some f | _ \<Rightarrow> None)"

definition succeeded :: "'a res \<Rightarrow> 'a option" where
  "succeeded r = (case r of Inr x \<Rightarrow> Some x | Inl _ \<Rightarrow> None)"

fun visit :: "iff_tree \<Rightarrow> iff_stream \<Rightarrow> iff_stream option" where
  "visit (Leaf i bs) f =
     Option.bind (opened_ok (openChunk i f)) (\<lambda>f.
     Option.bind (succeeded (rbind (getDataSize f) (\<lambda>n. getBytes n f))) (\<lambda>(d, f).
     if d = bs then succeeded (closeChunk f) else None))"
| "visit (Form ft ts) f =
     Option.bind (opened_ok (openForm ft f)) (\<lambda>f.
     Option.bind (fold (\<lambda>t r. Option.bind r (visit t)) ts (Some f)) (\<lambda>f.
     if getRemainingSubChunksNumber f = Inr 0 then succeeded (closeForm ft f) else None))"

definition visit_all :: "iff_tree list \<Rightarrow> iff_stream \<Rightarrow> iff_stream option" where
  "visit_all ts f = fold (\<lambda>t r. Option.bind r (visit t)) ts (Some f)"

text \<open>The file as one chunk, and a chunk put at a path.\<close>

definition root :: "iff_stream \<Rightarrow> chunk" where
  "root f = Chunk 0 0 st_new 0 (mainChunks f) (lastOpenedChunk f)"

abbreviation put_at :: "nat list \<Rightarrow> chunk \<Rightarrow> chunk \<Rightarrow> chunk" where
  "put_at p x \<equiv> sub_upd (\<lambda>_. x) p"

lemma set_subs_sel [simp]: "subChunks (set_subs cs c) = cs" "lastOpenedSubChunk (set_subs cs c) = lastOpenedSubChunk c"
    "set_subs ds (set_subs cs c) = set_subs ds c" "subChunks (setLastOpenedSubChunk i c) = subChunks c"
    "lastOpenedSubChunk (setLastOpenedSubChunk i c) = i"
    "setLastOpenedSubChunk i (set_subs cs c) = set_subs cs (setLastOpenedSubChunk i c)"
    "setLastOpenedSubChunk i (setLastOpenedSubChunk j c) = setLastOpenedSubChunk i c"
  by (simp_all add: set_subs_def setLastOpenedSubChunk_def)

lemma set_subs_same [simp]: "set_subs (subChunks c) c = c"
  by (simp add: set_subs_def)

lemma sub_upd_const: "sub_at p r = Some d \<Longrightarrow> sub_upd g p r = put_at p (g d) r"
  by (induction p arbitrary: r) (auto split: if_splits)

lemma put_put: "sub_at p r \<noteq> None \<Longrightarrow> put_at p a (put_at p b r) = put_at p a r"
  by (induction p arbitrary: r) (auto split: if_splits)

lemma at_put: "sub_at p r \<noteq> None \<Longrightarrow> sub_at p (put_at p x r) = Some x"
  by (induction p arbitrary: r) (auto split: if_splits)

lemma put_same: "sub_at p r = Some d \<Longrightarrow> put_at p d r = r"
  by (induction p arbitrary: r) (auto split: if_splits)

lemma sub_at_snoc: "sub_at p r = Some d \<Longrightarrow> k < length (subChunks d) \<Longrightarrow> sub_at (p @ [k]) r = Some (subChunks d ! k)"
  by (induction p arbitrary: r) (auto split: if_splits)

lemma put_child:
  "sub_at p r = Some d \<Longrightarrow> k < length (subChunks d) \<Longrightarrow> put_at (p @ [k]) x r = put_at p (set_subs ((subChunks d)[k := x]) d) r"
  by (induction p arbitrary: r) (auto split: if_splits)

lemma chunk_at_root: "p \<noteq> [] \<Longrightarrow> chunk_at p (mainChunks f) = sub_at p (root f)"
  by (cases p) (simp_all add: root_def)

lemma root_upd: "p \<noteq> [] \<Longrightarrow> root (f\<lparr>mainChunks := chunk_upd g p (mainChunks f)\<rparr>) = sub_upd g p (root f)"
  by (cases p) (simp_all add: root_def set_subs_def)

text \<open>The file \<open>R\<close> with the chunk \<open>d\<close> at \<open>p\<close>, which is open.\<close>

definition zipped :: "nat list \<Rightarrow> chunk \<Rightarrow> chunk \<Rightarrow> iff_stream \<Rightarrow> bool" where
  "zipped p d R f \<longleftrightarrow> openedChunk f = p \<and> sub_at p R \<noteq> None \<and> root f = put_at p d R"

lemma zipped_at: "zipped p d R f \<Longrightarrow> sub_at p (root f) = Some d"
  using at_put [of p R d] by (simp add: zipped_def)

lemma zipped_self: "openedChunk f = p \<Longrightarrow> sub_at p (root f) = Some d \<Longrightarrow> zipped p d (root f) f"
  by (simp add: zipped_def put_same)

lemma zipped_next:
  assumes z: "zipped p d R f" and k: "lastOpenedSubChunk d + 1 = int k" "k < length (subChunks d)" "length (subChunks d) < 2 ^ 31"
  shows "\<exists>f'. next_chunk f = (Inr (p @ [k]), f') \<and> zipped p (setLastOpenedSubChunk (int k) d) R f'"
proof -
  have a: "sub_at p (root f) = Some d" "openedChunk f = p" "root f = put_at p d R" "sub_at p R \<noteq> None"
    using z zipped_at [OF z] by (simp_all add: zipped_def)
  have ck: "chk32 (int k) = Inr (int k)" using k(2,3) by (simp add: chk32_def int32_ok_def)
  show ?thesis
  proof (cases "p = []")
    case True
    then have d: "d = root f" using a(1) by simp
    have "next_chunk f = (Inr [k], f\<lparr>lastOpenedChunk := int k\<rparr>)"
      using True a(2) k d ck by (simp add: next_chunk_def root_def)
    then show ?thesis using True a(2) d by (simp add: zipped_def root_def setLastOpenedSubChunk_def)
  next
    case False
    let ?f = "f\<lparr>mainChunks := chunk_upd (setLastOpenedSubChunk (int k)) p (mainChunks f)\<rparr>"
    have "next_chunk f = (Inr (p @ [k]), ?f)"
      using False a(1,2) k ck chunk_at_root [OF False, of f] by (simp add: next_chunk_def)
    moreover have "root ?f = put_at p (setLastOpenedSubChunk (int k) d) R"
      using root_upd [OF False] sub_upd_const [OF a(1)] a(3) put_put [OF a(4)] by simp
    ultimately show ?thesis using a(2,4) by (simp add: zipped_def)
  qed
qed

lemma zipped_open:
  assumes z: "zipped p d R f" and k: "lastOpenedSubChunk d + 1 = int k" "k < length (subChunks d)" "length (subChunks d) < 2 ^ 31"
    and ok: "ok (subChunks d ! k)"
  shows "\<exists>f'. open_if ok f = (Inr True, f') \<and> zipped (p @ [k]) (subChunks d ! k) (put_at p (setLastOpenedSubChunk (int k) d) R) f'"
proof -
  let ?d = "setLastOpenedSubChunk (int k) d" and ?c = "subChunks d ! k"
  obtain f1 where f1: "next_chunk f = (Inr (p @ [k]), f1)" "zipped p ?d R f1" using zipped_next [OF z k] by blast
  have at: "sub_at (p @ [k]) (root f1) = Some ?c" using sub_at_snoc [OF zipped_at [OF f1(2)], of k] k(2) by simp
  then have "open_if ok f = (Inr True, f1\<lparr>openedChunk := p @ [k]\<rparr>)"
    using f1(1) ok chunk_at_root [of "p @ [k]" f1] by (simp add: open_if_def)
  moreover have "zipped (p @ [k]) ?c (root f1) (f1\<lparr>openedChunk := p @ [k]\<rparr>)"
    using at put_same [OF at] by (simp add: zipped_def root_def)
  ultimately show ?thesis using f1(2) by (auto simp: zipped_def)
qed

lemma zipped_opened: "zipped p d R f \<Longrightarrow> p \<noteq> [] \<Longrightarrow> opened f = Inr d"
  using zipped_at [of p d R f] chunk_at_root [of p f] by (simp add: opened_def zipped_def)

lemma zipped_close:
  assumes z: "zipped (p @ [k]) c (put_at p d R) f" and p: "sub_at p R \<noteq> None" and k: "k < length (subChunks d)"
  shows "\<exists>f'. closeChunk f = Inr f' \<and> zipped p (set_subs ((subChunks d)[k := c]) d) R f'"
proof -
  have "root f = put_at p (set_subs ((subChunks d)[k := c]) d) R"
    using z put_child [OF at_put [OF p] k, of c] put_put [OF p] by (simp add: zipped_def)
  moreover have "openedChunk f = p @ [k]" using z by (simp add: zipped_def)
  ultimately show ?thesis using zipped_opened [OF z] p by (simp add: closeChunk_def zipped_def root_def)
qed

lemma zipped_read:
  assumes z: "zipped p c R f" and p: "p \<noteq> []" and rd: "rd (ch_stream c) = Inr (v, s)"
  shows "\<exists>f'. iff_read rd f = Inr (v, f') \<and> zipped p (set_stream s c) R f'"
proof -
  let ?f = "f\<lparr>mainChunks := chunk_upd (set_stream s) p (mainChunks f)\<rparr>"
  have "root ?f = put_at p (set_stream s c) R"
    using root_upd [OF p] sub_upd_const [OF zipped_at [OF z]] z put_put [of p R] by (simp add: zipped_def)
  then have "zipped p (set_stream s c) R ?f" using z by (simp add: zipped_def)
  moreover have "iff_read rd f = Inr (v, ?f)" using zipped_opened [OF z p] rd z by (simp add: iff_read_def zipped_def)
  ultimately show ?thesis by blast
qed

lemma fold_visit_None: "fold (\<lambda>t r. Option.bind r (visit t)) ts None = None"
  by (induction ts) simp_all

lemma length_encodings: "length ts \<le> length (concat (map iff_encode ts))"
proof (induction ts)
  case (Cons t ts)
  have "1 \<le> length (iff_encode t)" by (simp add: iff_encode_frame iff_frame_def)
  then show ?case using Cons by simp
qed simp

text \<open>Visiting the next sub-chunk, when it is the chunk of the expected tree.\<close>

definition visits :: "iff_tree \<Rightarrow> bool" where
  "visits t \<longleftrightarrow> (\<forall>p d R f k. zipped p d R f \<longrightarrow> lastOpenedSubChunk d + 1 = int k \<longrightarrow> k < length (subChunks d) \<longrightarrow>
     length (subChunks d) < 2 ^ 31 \<longrightarrow> subChunks d ! k = tree_chunk t \<longrightarrow>
     (\<exists>f' c. visit t f = Some f' \<and> zipped p (set_subs ((subChunks d)[k := c]) (setLastOpenedSubChunk (int k) d)) R f'))"

lemma visit_list:
  "(\<And>t. t \<in> set ts \<Longrightarrow> visits t) \<Longrightarrow> zipped p d R f \<Longrightarrow> lastOpenedSubChunk d + 1 = int k \<Longrightarrow> length (subChunks d) < 2 ^ 31 \<Longrightarrow>
   drop k (subChunks d) = map tree_chunk ts \<Longrightarrow> k \<le> length (subChunks d) \<Longrightarrow>
   \<exists>f' cs. visit_all ts f = Some f' \<and> length cs = length (subChunks d) \<and>
     zipped p (set_subs cs (setLastOpenedSubChunk (int (k + length ts) - 1) d)) R f'"
proof (induction ts arbitrary: d f k)
  case Nil
  have "setLastOpenedSubChunk (int k - 1) d = d" using Nil.prems(3) by (cases d) (simp add: setLastOpenedSubChunk_def)
  then show ?case using Nil.prems(2) by (intro exI [of _ f] exI [of _ "subChunks d"]) (simp add: visit_all_def)
next
  case (Cons t ts)
  have k: "k < length (subChunks d)" using arg_cong [OF Cons.prems(5), of length] by simp
  then have dk: "subChunks d ! k = tree_chunk t" "drop (Suc k) (subChunks d) = map tree_chunk ts"
    using Cons.prems(5) by (simp_all add: Cons_nth_drop_Suc [symmetric])
  obtain f1 c where f1: "visit t f = Some f1" "zipped p (set_subs ((subChunks d)[k := c]) (setLastOpenedSubChunk (int k) d)) R f1"
    using Cons.prems(1) [of t] Cons.prems(2-4) k dk(1) unfolding visits_def by (metis list.set_intros(1))
  have "\<exists>f' cs. visit_all ts f1 = Some f' \<and> length cs = length (subChunks d) \<and>
    zipped p (set_subs cs (setLastOpenedSubChunk (int (Suc k + length ts) - 1) d)) R f'"
    using Cons.IH [OF Cons.prems(1) f1(2), of "Suc k"] Cons.prems(4) dk(2) k by simp
  then show ?case using f1(1) by (simp add: visit_all_def)
qed

lemma visits_leaf: "iff_wf (Leaf i bs) \<Longrightarrow> visits (Leaf i bs)"
  unfolding visits_def
proof (intro allI impI)
  fix p d R f k
  assume z: "zipped p d R f" and k: "lastOpenedSubChunk d + 1 = int k" "k < length (subChunks d)" "length (subChunks d) < 2 ^ 31"
    and c: "subChunks d ! k = tree_chunk (Leaf i bs)"
  let ?d = "setLastOpenedSubChunk (int k) d" and ?R = "put_at p (setLastOpenedSubChunk (int k) d) R"
  obtain f1 where f1: "openChunk i f = (Inr True, f1)" "zipped (p @ [k]) (tree_chunk (Leaf i bs)) ?R f1"
    using zipped_open [OF z k, of "\<lambda>c. \<not> (i \<noteq> 0 \<and> chunkID c \<noteq> i)"] c by (auto simp: openChunk_def)
  have "st_readStream (int (length bs)) (at_pos [] bs) = Inr (bs, at_pos bs [])"
    using st_readStream_at [of "int (length bs)" bs "[]" "[]"] by simp
  then obtain f2 where f2: "getBytes (int (length bs)) f1 = Inr (bs, f2)"
    "zipped (p @ [k]) (set_stream (at_pos bs []) (tree_chunk (Leaf i bs))) ?R f2"
    using zipped_read [OF f1(2), of "st_readStream (int (length bs))"] by (auto simp: getBytes_def)
  obtain f3 where "closeChunk f2 = Inr f3" "zipped p (set_subs ((subChunks ?d)[k := set_stream (at_pos bs []) (tree_chunk (Leaf i bs))]) ?d) R f3"
    using zipped_close [OF f2(2), of ] z k(2) by (auto simp: zipped_def)
  moreover have "getDataSize f1 = Inr (int (length bs))" using zipped_opened [OF f1(2)] by (simp add: getDataSize_def)
  ultimately show "\<exists>f' c. visit (Leaf i bs) f = Some f' \<and> zipped p (set_subs ((subChunks d)[k := c]) ?d) R f'"
    using f1(1) f2(1) by (auto simp: opened_ok_def succeeded_def)
qed

lemma visits_form:
  assumes wf: "iff_wf (Form ft ts)" and ih: "\<And>t. t \<in> set ts \<Longrightarrow> visits t"
  shows "visits (Form ft ts)"
  unfolding visits_def
proof (intro allI impI)
  fix p d R f k
  assume z: "zipped p d R f" and k: "lastOpenedSubChunk d + 1 = int k" "k < length (subChunks d)" "length (subChunks d) < 2 ^ 31"
    and c: "subChunks d ! k = tree_chunk (Form ft ts)"
  let ?d = "setLastOpenedSubChunk (int k) d" and ?R = "put_at p (setLastOpenedSubChunk (int k) d) R" and ?c = "tree_chunk (Form ft ts)"
  obtain f1 where f1: "openForm ft f = (Inr True, f1)" "zipped (p @ [k]) ?c ?R f1"
    using zipped_open [OF z k, of "\<lambda>c. isFORM c \<and> formType c = ft"] c by (auto simp: openForm_def isFORM_def Let_def)
  have "length (subChunks ?c) < 2 ^ 31" using wf length_encodings [of ts] by (simp add: Let_def)
  then obtain f2 cs where f2: "visit_all ts f1 = Some f2" "length cs = length ts"
    "zipped (p @ [k]) (set_subs cs (setLastOpenedSubChunk (int (length ts) - 1) ?c)) ?R f2"
    using visit_list [OF ih f1(2), of ts 0] by (auto simp: Let_def)
  have rem: "getRemainingSubChunksNumber f2 = Inr 0"
    using zipped_opened [OF f2(3)] f2(2,3) by (simp add: getRemainingSubChunksNumber_def zipped_def)
  obtain f3 where "closeChunk f2 = Inr f3"
    "zipped p (set_subs ((subChunks ?d)[k := set_subs cs (setLastOpenedSubChunk (int (length ts) - 1) ?c)]) ?d) R f3"
    using zipped_close [OF f2(3)] z k(2) by (auto simp: zipped_def)
  then show "\<exists>f' c. visit (Form ft ts) f = Some f' \<and> zipped p (set_subs ((subChunks d)[k := c]) ?d) R f'"
    using f1(1) f2(1) rem by (auto simp: opened_ok_def succeeded_def visit_all_def closeForm_def)
qed

lemma visits_tree: "iff_wf t \<Longrightarrow> visits t"
proof (induction t)
  case (Form ft ts)
  have "visits t" if "t \<in> set ts" for t using that Form by (auto simp: list_all_iff)
  then show ?case using visits_form [OF Form.prems] by blast
qed (rule visits_leaf)

subsection \<open>Properties\<close>

text \<open>
  C12. The parser accepts exactly the format: \<open>parseChunks\<close> succeeds on the files of at least eight bytes that
  are the encodings of a sequence of well-formed chunk trees followed by at most four bytes of
  padding, and what it builds are the chunks of these trees - every identifier, size, content and
  form type, nested as in the file, nothing opened yet. It always terminates.
\<close>

theorem iff_parse_exact:
  "parseChunks data = Inr f \<longleftrightarrow> 8 \<le> length data \<and>
     (\<exists>ts pad. data = concat (map iff_encode ts) @ pad \<and> length pad \<le> 4 \<and> list_all iff_wf ts \<and>
        f = \<lparr>mainChunks = map tree_chunk ts, lastOpenedChunk = -1, openedChunk = []\<rparr>)"
proof
  assume "parseChunks data = Inr f"
  then obtain cs where cs: "8 \<le> length data" "loadMainChunks data = Inr cs" "f = \<lparr>mainChunks = cs, lastOpenedChunk = -1, openedChunk = []\<rparr>"
    by (auto simp: parseChunks_def rbind_eq_Inr_iff split: if_splits)
  then show "8 \<le> length data \<and> (\<exists>ts pad. data = concat (map iff_encode ts) @ pad \<and> length pad \<le> 4 \<and> list_all iff_wf ts \<and>
      f = \<lparr>mainChunks = map tree_chunk ts, lastOpenedChunk = -1, openedChunk = []\<rparr>)"
    using load_sound [OF cs(2)] by blast
qed (auto simp: parseChunks_def load_encoded)

text \<open>
  C28. A file can be read through the interface of the class: after parsing the encoding of a sequence of
  trees, a reader that knows the schema opens every form by its type and every other chunk by its
  identifier, in order, finds their contents byte for byte, is back at the parent after closing a
  chunk, and finds no chunk left over in any form or in the file.
\<close>

theorem iff_file_readable:
  assumes "list_all iff_wf ts" "ts \<noteq> []" "length (concat (map iff_encode ts)) < 2 ^ 31"
  shows "\<exists>f f'. parseChunks (concat (map iff_encode ts)) = Inr f \<and> visit_all ts f = Some f' \<and>
    openedChunk f' = [] \<and> getRemainingSubChunksNumber f' = Inr 0"
proof -
  let ?f = "\<lparr>mainChunks = map tree_chunk ts, lastOpenedChunk = -1, openedChunk = []\<rparr>"
  obtain t us where ts: "ts = t # us" using assms(2) by (cases ts) auto
  have "8 \<le> length (concat (map iff_encode ts))" using ts by (simp add: iff_encode_frame [of t] iff_frame_def)
  then have p: "parseChunks (concat (map iff_encode ts)) = Inr ?f"
    using load_encoded [OF assms(1), of "[]"] by (simp add: parseChunks_def)
  have z: "zipped [] (root ?f) (root ?f) ?f" by (simp add: zipped_def)
  have "length (subChunks (root ?f)) < 2 ^ 31" using length_encodings [of ts] assms(3) by (simp add: root_def)
  then obtain f' cs where f': "visit_all ts ?f = Some f'" "length cs = length ts"
    "zipped [] (set_subs cs (setLastOpenedSubChunk (int (length ts) - 1) (root ?f))) (root ?f) f'"
    using visit_list [OF visits_tree z, of ts 0] assms(1) by (auto simp: list_all_iff root_def)
  have "openedChunk f' = []" "mainChunks f' = cs" "lastOpenedChunk f' = int (length ts) - 1"
    using f'(3) by (simp_all add: zipped_def root_def set_subs_def setLastOpenedSubChunk_def)
  then show ?thesis using p f'(1,2) by (auto simp: getRemainingSubChunksNumber_def)
qed

text \<open>
  A size that exceeds the data, or is negative as an \<open>int\<close>, is not rejected: the chunk is copied from beyond
  the buffer before \<open>shiftOffset\<close> checks the size, and at the top level nothing checks it.
\<close>

lemma iff_oversized_chunk:
  assumes "int (length data) < sint sz \<or> sint sz < 0"
  shows "parseChunks (be32 i @ be32 sz @ data) = Inl Undefined"
proof -
  have "net_int (be32 i @ be32 sz @ data) = i" "net_int (be32 sz @ data) = sz" by (simp_all add: net_int_be32)
  then show ?thesis using assms by (auto simp: parseChunks_def loadMainChunks.simps [of "be32 i @ be32 sz @ data"] chunk_new_eq)
qed

subsection \<open>Instance\<close>

definition demo_iff :: "iff_tree list" where
  "demo_iff = [Form 0x54455354 [Leaf DATA [1, 2, 3], Form 0x494E4E52 [], Leaf 0x4E414D45 []]]"

theorem iff_file_readable_witness:
  "\<exists>f f'. parseChunks (concat (map iff_encode demo_iff)) = Inr f \<and> visit_all demo_iff f = Some f'"
proof -
  have "list_all iff_wf demo_iff" by (simp add: demo_iff_def FORM_def DATA_def iff_frame_def)
  moreover have "length (concat (map iff_encode demo_iff)) < 2 ^ 31" by (simp add: demo_iff_def iff_frame_def)
  ultimately show ?thesis using iff_file_readable [of demo_iff] by (auto simp: demo_iff_def)
qed

end
