(* ===== verification/LinkedList.thy ===== *)
theory LinkedList
  imports Prelude
begin

text \<open>
  \<^verbatim>\<open>system/util/LinkedList.h\<close> and \<^verbatim>\<open>engine/core/TaskQueue.cpp\<close>: a singly linked list with a dummy head and a
  pointer to its last entry, and the work queue of the task workers on top of it. Entries live in a
  store; following a null or freed pointer is \<open>Undefined\<close>. The iterator class does not compile for any element
  type and is left out, as is the destructor.
\<close>

subsection \<open>The list\<close>

record 'a list_entry =
  obj :: 'a
  nxt :: "nat option"

type_synonym 'a entries = "nat \<rightharpoonup> 'a list_entry"

record 'a linked_list =
  entries :: "'a entries"
  ll_head :: nat
  ll_current :: "nat option"
  ll_count :: int
  ll_fresh :: nat

definition entry_at :: "nat option \<Rightarrow> 'a entries \<Rightarrow> (nat \<times> 'a list_entry) res" where
  "entry_at p st = (case p of None \<Rightarrow> Inl Undefined | Some q \<Rightarrow> (case st q of None \<Rightarrow> Inl Undefined | Some e \<Rightarrow> Inr (q, e)))"

definition ll_new :: "'a \<Rightarrow> 'a linked_list" where
  "ll_new dflt = \<lparr>entries = [0 \<mapsto> \<lparr>obj = dflt, nxt = None\<rparr>], ll_head = 0, ll_current = None, ll_count = 0, ll_fresh = 1\<rparr>"

definition ll_isEmpty :: "'a linked_list \<Rightarrow> bool" where
  "ll_isEmpty l \<longleftrightarrow> ll_count l = 0"

definition ll_size :: "'a linked_list \<Rightarrow> int" where
  "ll_size l = ll_count l"

definition ll_add :: "'a \<Rightarrow> 'a linked_list \<Rightarrow> 'a linked_list res" where
  "ll_add x l =
     (let e = ll_fresh l; st = (entries l)(e \<mapsto> \<lparr>obj = x, nxt = None\<rparr>) in
      rbind (entry_at (if ll_count l = 0 then Some (ll_head l) else ll_current l) st) (\<lambda>(q, n).
      Inr (l\<lparr>entries := st(q \<mapsto> n\<lparr>nxt := Some e\<rparr>), ll_current := Some e, ll_count := to_int32 (ll_count l + 1), ll_fresh := e + 1\<rparr>)))"

text \<open>The loop \<open>e = e->next\<close>.\<close>

fun ll_walk :: "nat \<Rightarrow> nat option \<Rightarrow> 'a entries \<Rightarrow> nat option res" where
  "ll_walk 0 p st = Inr p"
| "ll_walk (Suc n) p st = rbind (entry_at p st) (\<lambda>(_, e). ll_walk n (nxt e) st)"

definition ll_check :: "int \<Rightarrow> 'a linked_list \<Rightarrow> unit res" where
  "ll_check index l = rbind (chk32 (index + 1)) (\<lambda>i.
     if ll_count l < i \<or> index < 0 then Inl (ArrayIndexOutOfBoundsException index) else Inr ())"

definition ll_add_at :: "int \<Rightarrow> 'a \<Rightarrow> 'a linked_list \<Rightarrow> 'a linked_list res" where
  "ll_add_at index x l =
     rbind (ll_check index l) (\<lambda>_.
     let e = ll_fresh l; st = (entries l)(e \<mapsto> \<lparr>obj = x, nxt = None\<rparr>) in
     rbind (ll_walk (nat index) (Some (ll_head l)) st) (\<lambda>p. rbind (entry_at p st) (\<lambda>(q, n).
     let st' = (case nxt n of None \<Rightarrow> st | Some r \<Rightarrow> st(e \<mapsto> \<lparr>obj = x, nxt = Some r\<rparr>));
         cur = (case nxt n of None \<Rightarrow> Some e | Some _ \<Rightarrow> ll_current l) in
     Inr (l\<lparr>entries := st'(q \<mapsto> n\<lparr>nxt := Some e\<rparr>), ll_current := cur, ll_count := to_int32 (ll_count l + 1), ll_fresh := e + 1\<rparr>))))"

definition ll_get :: "int \<Rightarrow> 'a linked_list \<Rightarrow> 'a res" where
  "ll_get index l =
     rbind (ll_check index l) (\<lambda>_.
     rbind (ll_walk (nat (index + 1)) (Some (ll_head l)) (entries l)) (\<lambda>p.
     rbind (entry_at p (entries l)) (\<lambda>(_, e). Inr (obj e))))"

definition ll_remove :: "int \<Rightarrow> 'a linked_list \<Rightarrow> ('a option \<times> 'a linked_list) res" where
  "ll_remove index l =
     rbind (ll_check index l) (\<lambda>_.
     rbind (ll_walk (nat index) (Some (ll_head l)) (entries l)) (\<lambda>p. rbind (entry_at p (entries l)) (\<lambda>(q, n).
     case nxt n of
       None \<Rightarrow> Inr (None, l)
     | Some r \<Rightarrow> rbind (entry_at (Some r) (entries l)) (\<lambda>(_, o1).
         Inr (Some (obj o1), l\<lparr>entries := ((entries l)(q \<mapsto> n\<lparr>nxt := nxt o1\<rparr>))(r := None), ll_count := to_int32 (ll_count l - 1)\<rparr>)))))"

subsection \<open>What a list represents\<close>

fun seg :: "'a entries \<Rightarrow> nat \<Rightarrow> nat list \<Rightarrow> bool" where
  "seg st p [] \<longleftrightarrow> True"
| "seg st p (q # qs) \<longleftrightarrow> (\<exists>n. st p = Some n \<and> nxt n = Some q) \<and> seg st q qs"

definition ends :: "'a entries \<Rightarrow> nat \<Rightarrow> bool" where
  "ends st p \<longleftrightarrow> (\<exists>n. st p = Some n \<and> nxt n = None)"

definition ll_rep :: "'a linked_list \<Rightarrow> nat list \<Rightarrow> 'a list \<Rightarrow> bool" where
  "ll_rep l ns xs \<longleftrightarrow> seg (entries l) (ll_head l) ns \<and> ends (entries l) (last (ll_head l # ns)) \<and> distinct (ll_head l # ns) \<and>
     (\<forall>p \<in> set (ll_head l # ns). p < ll_fresh l) \<and> map (\<lambda>p. obj (the (entries l p))) ns = xs \<and>
     ll_count l = int (length ns) \<and> length ns < 2 ^ 31"

text \<open>\<open>current\<close> is the last entry, as \<open>add\<close> needs it.\<close>

definition tail_ok :: "'a linked_list \<Rightarrow> nat list \<Rightarrow> bool" where
  "tail_ok l ns \<longleftrightarrow> (ns \<noteq> [] \<longrightarrow> ll_current l = Some (last ns))"

lemma seg_append: "seg st p (as @ bs) \<longleftrightarrow> seg st p as \<and> seg st (last (p # as)) bs"
  by (induction as arbitrary: p) simp_all

lemma seg_frame: "(\<And>x. x \<in> set (butlast (p # as)) \<Longrightarrow> st' x = st x) \<Longrightarrow> seg st' p as = seg st p as"
  by (induction as arbitrary: p) auto

lemma seg_frame_all: "(\<And>x. x \<in> set (p # as) \<Longrightarrow> st' x = st x) \<Longrightarrow> seg st' p as = seg st p as"
  by (rule seg_frame) (meson in_set_butlastD)

lemma ends_frame: "st' p = st p \<Longrightarrow> ends st' p = ends st p"
  by (simp add: ends_def)

lemma walk_seg: "seg st p as \<Longrightarrow> ll_walk (length as) (Some p) st = Inr (Some (last (p # as)))"
  by (induction as arbitrary: p) (auto simp: entry_at_def)

lemma rep_entries:
  assumes "ll_rep l ns xs" "p \<in> set (ll_head l # ns)"
  shows "\<exists>e. entries l p = Some e"
proof -
  obtain as bs where s: "ll_head l # ns = as @ p # bs" using split_list [OF assms(2)] by blast
  show ?thesis
  proof (cases bs)
    case Nil
    then have "last (ll_head l # ns) = p" using s by simp
    then show ?thesis using assms(1) by (auto simp: ll_rep_def ends_def)
  next
    case (Cons q cs)
    have "seg (entries l) (ll_head l) ns" using assms(1) by (simp add: ll_rep_def)
    then show ?thesis using s Cons seg_append [of "entries l" "ll_head l" "tl as @ [p]" "q # cs"]
      by (cases as) auto
  qed
qed

lemma check_ok: "ll_rep l ns xs \<Longrightarrow> i < length ns \<Longrightarrow> ll_check (int i) l = Inr ()"
  by (simp add: ll_rep_def ll_check_def chk32_def int32_ok_def)

lemma check_fails: "ll_rep l ns xs \<Longrightarrow> int32_ok (i + 1) \<Longrightarrow> i < 0 \<or> int (length ns) \<le> i \<Longrightarrow>
   ll_check i l = Inl (ArrayIndexOutOfBoundsException i)"
  by (auto simp: ll_rep_def ll_check_def)

lemma rep_split:
  assumes "ll_rep l (as @ bs) xs"
  shows "seg (entries l) (ll_head l) as" "seg (entries l) (last (ll_head l # as)) bs"
    "ll_walk (length as) (Some (ll_head l)) (entries l) = Inr (Some (last (ll_head l # as)))"
  using assms walk_seg [of "entries l" "ll_head l" as] by (simp_all add: ll_rep_def seg_append)

text \<open>Linking a new entry \<open>e\<close> behind the entries \<open>as\<close>.\<close>

lemma link_entry:
  assumes r: "ll_rep l (as @ bs) xs" and room: "length (as @ bs) + 1 < 2 ^ 31"
    and q: "q = last (ll_head l # as)" "entries l q = Some n" and e: "e = ll_fresh l"
    and l': "l' = l\<lparr>entries := ((entries l)(e \<mapsto> \<lparr>obj = x, nxt = nxt n\<rparr>))(q \<mapsto> n\<lparr>nxt := Some e\<rparr>), ll_current := c,
        ll_count := to_int32 (ll_count l + 1), ll_fresh := e + 1\<rparr>"
  shows "ll_rep l' (as @ e # bs) (take (length as) xs @ x # drop (length as) xs)"
proof -
  have rr: "seg (entries l) (ll_head l) (as @ bs)" "ends (entries l) (last (ll_head l # as @ bs))" "distinct (ll_head l # as @ bs)"
    "\<forall>p \<in> set (ll_head l # as @ bs). p < e" "map (\<lambda>p. obj (the (entries l p))) (as @ bs) = xs" "ll_count l = int (length (as @ bs))"
    using r e by (auto simp: ll_rep_def)
  let ?st = "((entries l)(e \<mapsto> \<lparr>obj = x, nxt = nxt n\<rparr>))(q \<mapsto> n\<lparr>nxt := Some e\<rparr>)"
  define hs where "hs = butlast (ll_head l # as)"
  have hs: "ll_head l # as = hs @ [q]" "hs = butlast (ll_head l # as)"
    using append_butlast_last_id [of "ll_head l # as"] by (simp_all only: hs_def q(1) list.simps not_False_eq_True)
  have d: "distinct (hs @ q # bs)" and lt: "\<forall>p \<in> set (hs @ q # bs). p < e" using rr(3,4) hs(1) by (metis append.assoc append_Cons append_Nil)+
  then have ne: "e \<noteq> q" "e \<notin> set hs" "e \<notin> set bs" by auto
  have eas: "e \<notin> set (ll_head l # as)" unfolding hs(1) using ne by simp
  have s: "seg (entries l) (ll_head l) as" "seg (entries l) q bs" using rr(1) q(1) by (simp_all add: seg_append)
  have "seg ?st (ll_head l) as = seg (entries l) (ll_head l) as"
  proof (rule seg_frame)
    fix y assume "y \<in> set (butlast (ll_head l # as))"
    then have "y \<in> set hs" by (simp only: hs_def)
    then show "?st y = entries l y" using ne d by auto
  qed
  then have "seg ?st (ll_head l) as" using s(1) by simp
  moreover have "seg ?st e bs"
  proof (cases bs)
    case (Cons b cs)
    have "seg ?st b cs = seg (entries l) b cs"
      using ne d Cons by (intro seg_frame_all) auto
    then show ?thesis using s(2) q(2) Cons ne by simp
  qed simp
  ultimately have "seg ?st (ll_head l) (as @ e # bs)" using q(1) by (simp add: seg_append)
  moreover have "ends ?st (last (ll_head l # as @ e # bs))"
  proof (cases bs)
    case Nil
    then show ?thesis using rr(2) q ne by (simp add: ends_def)
  next
    case (Cons b cs)
    then have "last bs \<in> set bs" by simp
    then have "last bs \<noteq> e" "last bs \<noteq> q" using ne d by auto
    then show ?thesis using rr(2) Cons ends_frame [of ?st "last bs" "entries l"] by simp
  qed
  moreover have "distinct (ll_head l # as @ e # bs)" using rr(3) ne(3) eas by auto
  moreover have "map (\<lambda>p. obj (the (?st p))) (as @ e # bs) = take (length as) xs @ x # drop (length as) xs"
  proof -
    have "e \<notin> set as" using eas by simp
    then have "map (\<lambda>p. obj (the (?st p))) as = map (\<lambda>p. obj (the (entries l p))) as" "map (\<lambda>p. obj (the (?st p))) bs = map (\<lambda>p. obj (the (entries l p))) bs"
      using ne(3) q(2) by (auto intro!: map_cong)
    then show ?thesis using rr(5) ne(1) by auto
  qed
  moreover have "\<forall>p \<in> set (ll_head l # as @ e # bs). p < e + 1" using rr(4) by (auto simp: less_Suc_eq)
  moreover have "to_int32 (ll_count l + 1) = int (length (as @ e # bs))" using rr(6) room by (simp add: to_int32_id int32_ok_def)
  ultimately show ?thesis using room by (simp add: ll_rep_def l')
qed

lemma ll_add_ok:
  assumes r: "ll_rep l ns xs" and t: "tail_ok l ns" and room: "length ns + 1 < 2 ^ 31"
  shows "\<exists>l'. ll_add x l = Inr l' \<and> ll_rep l' (ns @ [ll_fresh l]) (xs @ [x]) \<and> tail_ok l' (ns @ [ll_fresh l])"
proof -
  define q where q: "q = last (ll_head l # ns)"
  let ?e = "ll_fresh l"
  have "q \<in> set (ll_head l # ns)" unfolding q by (rule last_in_set) simp
  then obtain n where n: "entries l q = Some n" and qe: "q \<noteq> ?e" using rep_entries [OF r] r by (force simp: ll_rep_def)
  have "ends (entries l) q" using r by (simp add: ll_rep_def q)
  then have nn: "nxt n = None" using n by (simp add: ends_def)
  have len: "length xs = length ns" and r': "ll_rep l (ns @ []) xs" using r by (auto simp: ll_rep_def)
  have "(if ll_count l = 0 then Some (ll_head l) else ll_current l) = Some q" using r t by (auto simp: ll_rep_def tail_ok_def q)
  then show ?thesis
    using link_entry [where x = x and c = "Some ?e", OF r' _ q n refl refl] room n nn qe len
    by (simp add: ll_add_def Let_def entry_at_def tail_ok_def)
qed

lemma ll_add_at_ok:
  assumes r: "ll_rep l ns xs" and i: "i < length ns" and room: "length ns + 1 < 2 ^ 31"
  shows "\<exists>l'. ll_add_at (int i) x l = Inr l' \<and> ll_rep l' (take i ns @ ll_fresh l # drop i ns) (take i xs @ x # drop i xs) \<and>
    (tail_ok l ns \<longrightarrow> tail_ok l' (take i ns @ ll_fresh l # drop i ns))"
proof -
  let ?as = "take i ns" and ?bs = "drop i ns" and ?e = "ll_fresh l"
  let ?q = "last (ll_head l # ?as)" and ?st = "(entries l)(?e \<mapsto> \<lparr>obj = x, nxt = None\<rparr>)"
  have r': "ll_rep l (?as @ ?bs) xs" using r by simp
  have qin: "?q \<in> set (ll_head l # ?as)" by (rule last_in_set) simp
  then have "?q \<in> set (ll_head l # ns)" by (auto dest: in_set_takeD)
  then obtain n where n: "entries l ?q = Some n" and qe: "?q \<noteq> ?e" using rep_entries [OF r] r by (force simp: ll_rep_def)
  obtain b bs where bs: "?bs = b # bs" using i by (cases "drop i ns") auto
  have nn: "nxt n = Some b" using rep_split(2) [OF r'] bs n by simp
  have "seg ?st (ll_head l) ?as = seg (entries l) (ll_head l) ?as"
    using r by (intro seg_frame) (auto simp: ll_rep_def dest!: in_set_butlastD in_set_takeD split: if_splits)
  then have w: "ll_walk i (Some (ll_head l)) ?st = Inr (Some ?q)"
    using rep_split(1) [OF r'] walk_seg [of ?st "ll_head l" ?as] i by simp
  have nne: "ns \<noteq> []" using i by auto
  have "last (?as @ ?e # ?bs) = last ?bs" by (simp add: bs)
  then have "last (?as @ ?e # ?bs) = last ns" using last_drop [OF i] by simp
  then show ?thesis
    using link_entry [where x = x and c = "ll_current l", OF r' _ refl n refl refl] room w n nn qe check_ok [OF r i] nne i
    by (simp add: ll_add_at_def Let_def entry_at_def tail_ok_def)
qed

lemma ll_get_ok:
  assumes r: "ll_rep l ns xs" and i: "i < length ns"
  shows "ll_get (int i) l = Inr (xs ! i)"
proof -
  have t: "take (Suc i) ns = take i ns @ [ns ! i]" using i by (simp add: take_Suc_conv_app_nth)
  have r': "ll_rep l (take (Suc i) ns @ drop (Suc i) ns) xs" using r by simp
  have "length (take (Suc i) ns) = Suc i" "last (ll_head l # take (Suc i) ns) = ns ! i" using i t by simp_all
  then have w: "ll_walk (Suc i) (Some (ll_head l)) (entries l) = Inr (Some (ns ! i))" using rep_split(3) [OF r'] by (simp only:)
  obtain e where e: "entries l (ns ! i) = Some e" using rep_entries [OF r, of "ns ! i"] i by auto
  then have "xs ! i = obj e" using r i by (auto simp: ll_rep_def)
  moreover have "nat (int i + 1) = Suc i" by simp
  ultimately show ?thesis using check_ok [OF r i] w e by (simp add: ll_get_def entry_at_def del: ll_walk.simps)
qed

lemma ll_remove_ok:
  assumes r: "ll_rep l ns xs" and i: "i < length ns"
  shows "\<exists>l'. ll_remove (int i) l = Inr (Some (xs ! i), l') \<and> ll_rep l' (take i ns @ drop (Suc i) ns) (take i xs @ drop (Suc i) xs) \<and>
    ll_current l' = ll_current l \<and> entries l' (ns ! i) = None \<and> ll_fresh l' = ll_fresh l"
proof -
  let ?as = "take i ns" and ?bs = "drop (Suc i) ns"
  define r1 where "r1 = ns ! i"
  define q where q: "q = last (ll_head l # ?as)"
  define hs where "hs = butlast (ll_head l # ?as)"
  have ns: "ns = ?as @ r1 # ?bs" using i by (simp add: r1_def id_take_nth_drop)
  then have r': "ll_rep l (?as @ r1 # ?bs) xs" using r by simp
  have hs: "ll_head l # ?as = hs @ [q]"
    using append_butlast_last_id [of "ll_head l # ?as"] by (simp only: hs_def q list.simps not_False_eq_True)
  have d: "distinct (hs @ q # r1 # ?bs)"
  proof -
    have "distinct ((ll_head l # ?as) @ r1 # ?bs)" using r ns by (simp add: ll_rep_def)
    then show ?thesis unfolding hs by simp
  qed
  have s: "seg (entries l) (ll_head l) ?as" "seg (entries l) q (r1 # ?bs)" "ll_walk i (Some (ll_head l)) (entries l) = Inr (Some q)"
    using rep_split [OF r'] i q by simp_all
  obtain n where n: "entries l q = Some n" "nxt n = Some r1" using s(2) by auto
  obtain o1 where o1: "entries l r1 = Some o1" using rep_entries [OF r, of r1] i by (auto simp: r1_def)
  have x: "xs ! i = obj o1" using r i o1 by (auto simp: ll_rep_def r1_def)
  let ?st = "((entries l)(q \<mapsto> n\<lparr>nxt := nxt o1\<rparr>))(r1 := None)"
  let ?l = "l\<lparr>entries := ?st, ll_count := to_int32 (ll_count l - 1)\<rparr>"
  have "ll_remove (int i) l = Inr (Some (xs ! i), ?l)"
    using check_ok [OF r i] s(3) n o1 x by (simp add: ll_remove_def entry_at_def)
  moreover have "ll_rep ?l (?as @ ?bs) (take i xs @ drop (Suc i) xs)"
  proof -
    have "seg ?st (ll_head l) ?as = seg (entries l) (ll_head l) ?as"
    proof (rule seg_frame)
      fix y assume "y \<in> set (butlast (ll_head l # ?as))"
      then have "y \<in> set hs" by (simp only: hs_def)
      then show "?st y = entries l y" using d by auto
    qed
    moreover have "seg ?st q ?bs \<and> ends ?st (last (q # ?bs))"
    proof (cases ?bs)
      case Nil
      have "last (ll_head l # ns) = r1" by (subst ns) (simp add: Nil)
      then have "nxt o1 = None" using r o1 by (auto simp: ll_rep_def ends_def)
      then show ?thesis using Nil d by (simp add: ends_def)
    next
      case (Cons b cs)
      have "nxt o1 = Some b" using s(2) Cons o1 by simp
      moreover have "seg ?st b cs = seg (entries l) b cs" using d Cons by (intro seg_frame_all) auto
      moreover have "last (ll_head l # ns) = last ?bs" by (subst ns) (simp add: Cons)
      then have "ends (entries l) (last ?bs)" using r by (simp add: ll_rep_def)
      moreover have "last ?bs \<in> set ?bs" using Cons by (metis last_in_set list.discI)
      then have "last ?bs \<noteq> q" "last ?bs \<noteq> r1" using d by auto
      ultimately show ?thesis using s(2) Cons d ends_frame [of ?st "last ?bs" "entries l"] by simp
    qed
    moreover have "last (ll_head l # ?as @ ?bs) = last (q # ?bs)" unfolding q by (cases ?bs) simp_all
    moreover have "seg ?st (ll_head l) (?as @ ?bs) \<longleftrightarrow> seg ?st (ll_head l) ?as \<and> seg ?st q ?bs" by (simp only: seg_append q)
    ultimately have "seg ?st (ll_head l) (?as @ ?bs)" "ends ?st (last (ll_head l # ?as @ ?bs))" using s(1) by metis+
    moreover have "distinct (ll_head l # ?as @ ?bs)"
    proof -
      have "distinct ((hs @ [q]) @ ?bs)" using d by simp
      then show ?thesis unfolding hs [symmetric] by simp
    qed
    moreover have "map (\<lambda>p. obj (the (?st p))) (?as @ ?bs) = take i xs @ drop (Suc i) xs"
    proof -
      have "obj (the (?st p)) = obj (the (entries l p))" if "p \<in> set (?as @ ?bs)" for p
      proof -
        have "r1 \<notin> set (?as @ ?bs)" using r ns by (metis distinct.simps(2) distinct_append disjoint_iff ll_rep_def list.set_intros(1) Un_iff set_append)
        then show ?thesis using that n(1) by auto
      qed
      then have "map (\<lambda>p. obj (the (?st p))) (?as @ ?bs) = map (\<lambda>p. obj (the (entries l p))) (?as @ ?bs)" by (intro map_cong) auto
      also have "\<dots> = take i xs @ drop (Suc i) xs" using r by (auto simp: ll_rep_def take_map drop_map)
      finally show ?thesis .
    qed
    moreover have "\<forall>p \<in> set (ll_head l # ?as @ ?bs). p < ll_fresh l" using r by (auto simp: ll_rep_def dest: in_set_takeD in_set_dropD)
    moreover have "to_int32 (ll_count l - 1) = int (length (?as @ ?bs))" "length (?as @ ?bs) < 2 ^ 31"
      using r i by (auto simp: ll_rep_def to_int32_id int32_ok_def)
    ultimately show ?thesis by (simp add: ll_rep_def)
  qed
  ultimately show ?thesis by (simp add: r1_def)
qed

subsection \<open>The work queue\<close>

text \<open>
  \<open>condLocked\<close> says that \<open>condMutex\<close> was left locked; then every call that takes it blocks, which is the result
  \<open>None\<close>. Tasks are numbers; \<open>refs\<close> has their reference counts and \<open>schedulers\<close> their scheduler pointers. A call to
  \<open>wait\<close> may return at any time, so \<open>pop\<close> is two steps: entering, and going on after the wait.
\<close>

record task_queue =
  tasks :: "nat linked_list"
  queueBlocked :: bool
  condLocked :: bool
  refs :: "nat \<Rightarrow> int"
  schedulers :: "nat \<Rightarrow> nat option"

type_synonym 'a tq_out = "('a res \<times> task_queue) option"

definition task_queue_new :: "(nat \<Rightarrow> int) \<Rightarrow> (nat \<Rightarrow> nat option) \<Rightarrow> task_queue" where
  "task_queue_new rs ss = \<lparr>tasks = ll_new 0, queueBlocked = False, condLocked = False, refs = rs, schedulers = ss\<rparr>"

text \<open>A section under the mutex: an exception leaves it locked.\<close>

definition guarded :: "task_queue \<Rightarrow> ('a \<times> task_queue) res \<Rightarrow> 'a tq_out" where
  "guarded q r =
     (if condLocked q then None
      else case r of Inr (x, q') \<Rightarrow> Some (Inr x, q') | Inl e \<Rightarrow> Some (Inl e, q\<lparr>condLocked := True\<rparr>))"

definition pushFront :: "nat \<Rightarrow> task_queue \<Rightarrow> unit tq_out" where
  "pushFront t q = guarded q
     (if queueBlocked q then Inr ((), q)
      else rbind (ll_add_at 0 t (tasks q)) (\<lambda>l. Inr ((), q\<lparr>tasks := l, refs := (refs q)(t := refs q t + 1)\<rparr>)))"

text \<open>\<open>position\<close> is what \<open>System::random(size - 1)\<close> returns.\<close>

definition pushRandom :: "nat \<Rightarrow> nat \<Rightarrow> task_queue \<Rightarrow> unit tq_out" where
  "pushRandom position t q = guarded q
     (if queueBlocked q then Inr ((), q)
      else rbind (ll_add_at (if 0 < ll_size (tasks q) then int position else 0) t (tasks q)) (\<lambda>l.
           Inr ((), q\<lparr>tasks := l, refs := (refs q)(t := refs q t + 1)\<rparr>)))"

definition push :: "nat \<Rightarrow> task_queue \<Rightarrow> unit tq_out" where
  "push t q = guarded q
     (if queueBlocked q then Inr ((), q)
      else let q = q\<lparr>refs := (refs q)(t := refs q t + 1)\<rparr> in
           rbind (ll_add t (tasks q)) (\<lambda>l. Inr ((), q\<lparr>tasks := l\<rparr>)))"

fun push_tasks :: "nat list \<Rightarrow> nat linked_list \<Rightarrow> nat linked_list res" where
  "push_tasks [] l = Inr l"
| "push_tasks (t # ts) l = rbind (ll_add t l) (push_tasks ts)"

definition pushAll :: "nat list \<Rightarrow> task_queue \<Rightarrow> unit tq_out" where
  "pushAll ts q = guarded q
     (if queueBlocked q then Inr ((), q) else rbind (push_tasks ts (tasks q)) (\<lambda>l. Inr ((), q\<lparr>tasks := l\<rparr>)))"

datatype popped = Popped "nat option" | Waits

definition pop_take :: "task_queue \<Rightarrow> (popped \<times> task_queue) res" where
  "pop_take q =
     (if ll_isEmpty (tasks q) then Inr (Popped None, q)
      else rbind (ll_remove 0 (tasks q)) (\<lambda>(t, l).
        case t of
          None \<Rightarrow> Inl Undefined
        | Some t \<Rightarrow> Inr (Popped (Some t), q\<lparr>tasks := l, schedulers := (schedulers q)(t := None)\<rparr>)))"

definition pop :: "task_queue \<Rightarrow> popped tq_out" where
  "pop q = guarded q
     (if ll_isEmpty (tasks q) then if queueBlocked q then Inr (Popped None, q) else Inr (Waits, q) else pop_take q)"

definition pop_resume :: "task_queue \<Rightarrow> popped tq_out" where
  "pop_resume q = guarded q (pop_take q)"

lemma to_int32_le: "0 \<le> i \<Longrightarrow> to_int32 i \<le> i"
  using zmod_le_nonneg_dividend [of i "2 ^ 32"] by (auto simp: to_int32_def Let_def)

lemma remove_count: "ll_remove i l = Inr (Some t, l') \<Longrightarrow> 1 \<le> ll_count l \<and> ll_count l' = to_int32 (ll_count l - 1)"
  by (auto simp: ll_remove_def ll_check_def chk32_def rbind_eq_Inr_iff split: if_splits option.splits)

function flush_loop :: "task_queue \<Rightarrow> task_queue res" where
  "flush_loop q =
     (if ll_isEmpty (tasks q) then Inr q
      else rbind (ll_remove 0 (tasks q)) (\<lambda>(t, l).
        case t of
          None \<Rightarrow> Inl Undefined
        | Some t \<Rightarrow> flush_loop (q\<lparr>tasks := l, schedulers := (schedulers q)(t := None), refs := (refs q)(t := refs q t - 1)\<rparr>)))"
  by pat_completeness auto

termination
proof (relation "measure (\<lambda>q. nat (ll_count (tasks q)))", goal_cases)
  case (2 q x r l t)
  then have "1 \<le> ll_count (tasks q)" "ll_count l = to_int32 (ll_count (tasks q) - 1)" using remove_count [of 0 "tasks q" t l] by auto
  then show ?case using to_int32_le [of "ll_count (tasks q) - 1"] by simp
qed simp

declare flush_loop.simps [simp del]

definition flush :: "task_queue \<Rightarrow> unit tq_out" where
  "flush q = guarded q (rbind (flush_loop (q\<lparr>queueBlocked := True\<rparr>)) (\<lambda>q'. Inr ((), q')))"

subsection \<open>The queue as a list\<close>

definition holds :: "task_queue \<Rightarrow> nat list \<Rightarrow> bool" where
  "holds q ts \<longleftrightarrow> \<not> condLocked q \<and> (\<exists>ns. ll_rep (tasks q) ns ts \<and> tail_ok (tasks q) ns)"

lemma rep_length: "ll_rep l ns xs \<Longrightarrow> length xs = length ns"
  by (auto simp: ll_rep_def)

lemma new_holds: "holds (task_queue_new rs ss) []"
  by (auto simp: holds_def task_queue_new_def ll_new_def ll_rep_def ends_def tail_ok_def)

lemma holds_empty: "holds q ts \<Longrightarrow> ll_isEmpty (tasks q) \<longleftrightarrow> ts = []"
  by (auto simp: holds_def ll_isEmpty_def ll_rep_def)

lemma push_ok:
  assumes h: "holds q ts" and b: "\<not> queueBlocked q" and n: "length ts + 1 < 2 ^ 31"
  shows "\<exists>q'. push t q = Some (Inr (), q') \<and> holds q' (ts @ [t]) \<and> \<not> queueBlocked q' \<and> refs q' = (refs q)(t := refs q t + 1)"
proof -
  obtain ns where ns: "ll_rep (tasks q) ns ts" "tail_ok (tasks q) ns" "\<not> condLocked q" using h by (auto simp: holds_def)
  obtain l' where "ll_add t (tasks q) = Inr l'" "ll_rep l' (ns @ [ll_fresh (tasks q)]) (ts @ [t])" "tail_ok l' (ns @ [ll_fresh (tasks q)])"
    using ll_add_ok [OF ns(1,2)] n rep_length [OF ns(1)] by auto
  then show ?thesis using b ns(3) by (auto simp: push_def guarded_def holds_def)
qed

lemma pushAll_ok:
  assumes h: "holds q ts" and b: "\<not> queueBlocked q" and n: "length ts + length us < 2 ^ 31"
  shows "\<exists>q'. pushAll us q = Some (Inr (), q') \<and> holds q' (ts @ us) \<and> \<not> queueBlocked q' \<and> refs q' = refs q"
proof -
  have "ll_rep l ns ts \<Longrightarrow> tail_ok l ns \<Longrightarrow> length ts + length us < 2 ^ 31 \<Longrightarrow>
    \<exists>l' ns'. push_tasks us l = Inr l' \<and> ll_rep l' ns' (ts @ us) \<and> tail_ok l' ns'" for l ns ts
  proof (induction us arbitrary: l ns ts)
    case (Cons u us)
    obtain l' where l': "ll_add u l = Inr l'" "ll_rep l' (ns @ [ll_fresh l]) (ts @ [u])" "tail_ok l' (ns @ [ll_fresh l])"
      using ll_add_ok [OF Cons.prems(1,2)] Cons.prems(3) rep_length [OF Cons.prems(1)] by auto
    then show ?case using Cons.IH [OF l'(2,3)] Cons.prems(3) by simp
  qed auto
  then show ?thesis using h b n unfolding holds_def pushAll_def guarded_def by fastforce
qed

lemma pushRandom_ok:
  assumes h: "holds q ts" and b: "\<not> queueBlocked q" and n: "length ts + 1 < 2 ^ 31" and i: "i < length ts"
  shows "\<exists>q'. pushRandom i t q = Some (Inr (), q') \<and> holds q' (take i ts @ t # drop i ts) \<and> \<not> queueBlocked q' \<and>
    refs q' = (refs q)(t := refs q t + 1)"
proof -
  obtain ns where ns: "ll_rep (tasks q) ns ts" "tail_ok (tasks q) ns" "\<not> condLocked q" using h by (auto simp: holds_def)
  have "i < length ns" using i rep_length [OF ns(1)] by simp
  then obtain l' where l': "ll_add_at (int i) t (tasks q) = Inr l'" "ll_rep l' (take i ns @ ll_fresh (tasks q) # drop i ns) (take i ts @ t # drop i ts)"
    "tail_ok l' (take i ns @ ll_fresh (tasks q) # drop i ns)"
    using ll_add_at_ok [OF ns(1), of i t] n rep_length [OF ns(1)] ns(2) by auto
  moreover have "0 < ll_size (tasks q)" using ns(1) i rep_length [OF ns(1)] by (auto simp: ll_rep_def ll_size_def)
  ultimately show ?thesis using b ns(3) by (auto simp: pushRandom_def guarded_def holds_def)
qed

lemma pushFront_Random: "0 < ll_size (tasks q) \<Longrightarrow> pushFront t q = pushRandom 0 t q"
  by (simp add: pushFront_def pushRandom_def)

lemma take_ok:
  assumes h: "holds q (t # ts)"
  shows "\<exists>l. ll_remove 0 (tasks q) = Inr (Some t, l) \<and> holds (q\<lparr>tasks := l\<rparr>) ts"
proof -
  obtain ns where ns: "ll_rep (tasks q) ns (t # ts)" "tail_ok (tasks q) ns" "\<not> condLocked q" using h by (auto simp: holds_def)
  obtain p ps where ps: "ns = p # ps" using rep_length [OF ns(1)] by (cases ns) auto
  obtain l where l: "ll_remove 0 (tasks q) = Inr (Some t, l)" "ll_rep l ps ts" "ll_current l = ll_current (tasks q)"
    using ll_remove_ok [OF ns(1), of 0] ps by auto
  have "tail_ok l ps" using ns(2) l(3) ps by (auto simp: tail_ok_def)
  then show ?thesis using l ns(3) by (auto simp: holds_def)
qed

lemma holds_upd [simp]:
  "holds (q\<lparr>schedulers := s\<rparr>) ts = holds q ts" "holds (q\<lparr>refs := r\<rparr>) ts = holds q ts" "holds (q\<lparr>queueBlocked := b\<rparr>) ts = holds q ts"
  by (simp_all add: holds_def)

lemma pop_take_ok:
  assumes h: "holds q ts"
  shows "\<exists>q'. pop_take q = Inr (Popped (case ts of [] \<Rightarrow> None | t # _ \<Rightarrow> Some t), q') \<and> holds q' (tl ts) \<and>
    queueBlocked q' = queueBlocked q \<and> refs q' = refs q"
proof (cases ts)
  case Nil
  then show ?thesis using h holds_empty [OF h] by (simp add: pop_take_def)
next
  case (Cons t us)
  then obtain l where "ll_remove 0 (tasks q) = Inr (Some t, l)" "holds (q\<lparr>tasks := l\<rparr>) us" using take_ok h by blast
  then show ?thesis using Cons holds_empty [OF h] by (simp add: pop_take_def)
qed

lemma flush_loop_ok:
  "holds q ts \<Longrightarrow> \<exists>q'. flush_loop q = Inr q' \<and> holds q' [] \<and> queueBlocked q' = queueBlocked q \<and>
     (\<forall>x. refs q' x = refs q x - int (count_list ts x))"
proof (induction ts arbitrary: q)
  case Nil
  then show ?case using holds_empty [OF Nil] by (subst flush_loop.simps) simp
next
  case (Cons t ts)
  obtain l where l: "ll_remove 0 (tasks q) = Inr (Some t, l)" "holds (q\<lparr>tasks := l\<rparr>) ts" using take_ok [OF Cons.prems] by blast
  let ?q = "q\<lparr>tasks := l, schedulers := (schedulers q)(t := None), refs := (refs q)(t := refs q t - 1)\<rparr>"
  have "holds ?q ts" using l(2) by simp
  then obtain q' where q': "flush_loop ?q = Inr q'" "holds q' []" "queueBlocked q' = queueBlocked q"
    "\<forall>x. refs q' x = refs ?q x - int (count_list ts x)" using Cons.IH by fastforce
  have "flush_loop q = Inr q'" using l(1) q'(1) holds_empty [OF Cons.prems] by (subst flush_loop.simps) simp
  then show ?case using q'(2-4) by auto
qed

lemma flush_ok:
  assumes "holds q ts"
  shows "\<exists>q'. flush q = Some (Inr (), q') \<and> holds q' [] \<and> queueBlocked q' \<and> (\<forall>x. refs q' x = refs q x - int (count_list ts x))"
  using flush_loop_ok [of "q\<lparr>queueBlocked := True\<rparr>" ts] assms by (auto simp: flush_def guarded_def holds_def)

subsection \<open>Histories\<close>

datatype tq_event = Push nat | PushFront nat | PushRandom nat nat | PushAll "nat list" | Pop | Resume | Flush

definition popped_of :: "popped tq_out \<Rightarrow> (nat list \<times> task_queue) option" where
  "popped_of r = (case r of
     Some (Inr (Popped (Some t)), q) \<Rightarrow> Some ([t], q) | Some (Inr _, q) \<Rightarrow> Some ([], q) | _ \<Rightarrow> None)"

definition pushed_of :: "unit tq_out \<Rightarrow> (nat list \<times> task_queue) option" where
  "pushed_of r = (case r of Some (Inr _, q) \<Rightarrow> Some ([], q) | _ \<Rightarrow> None)"

fun tq_step :: "tq_event \<Rightarrow> task_queue \<Rightarrow> (nat list \<times> task_queue) option" where
  "tq_step (Push t) q = pushed_of (push t q)"
| "tq_step (PushFront t) q = pushed_of (pushFront t q)"
| "tq_step (PushRandom i t) q = pushed_of (pushRandom i t q)"
| "tq_step (PushAll ts) q = pushed_of (pushAll ts q)"
| "tq_step Pop q = popped_of (pop q)"
| "tq_step Resume q = popped_of (pop_resume q)"
| "tq_step Flush q = pushed_of (flush q)"

fun tq_run :: "tq_event list \<Rightarrow> task_queue \<Rightarrow> (nat list \<times> task_queue) option" where
  "tq_run [] q = Some ([], q)"
| "tq_run (e # es) q = Option.bind (tq_step e q) (\<lambda>(out, q). Option.bind (tq_run es q) (\<lambda>(out', q). Some (out @ out', q)))"

text \<open>The specification: the waiting tasks and whether the queue has been shut.\<close>

fun tq_spec_step :: "tq_event \<Rightarrow> nat list \<times> bool \<Rightarrow> nat list \<times> (nat list \<times> bool)" where
  "tq_spec_step Pop (xs, b) = (take 1 xs, tl xs, b)"
| "tq_spec_step Resume (xs, b) = (take 1 xs, tl xs, b)"
| "tq_spec_step Flush (xs, b) = ([], [], True)"
| "tq_spec_step e (xs, True) = ([], xs, True)"
| "tq_spec_step (Push t) (xs, False) = ([], xs @ [t], False)"
| "tq_spec_step (PushFront t) (xs, False) = ([], t # xs, False)"
| "tq_spec_step (PushRandom i t) (xs, False) = ([], take i xs @ t # drop i xs, False)"
| "tq_spec_step (PushAll ts) (xs, False) = ([], xs @ ts, False)"

fun tq_spec_run :: "tq_event list \<Rightarrow> nat list \<times> bool \<Rightarrow> nat list \<times> (nat list \<times> bool)" where
  "tq_spec_run [] s = ([], s)"
| "tq_spec_run (e # es) s = (let (out, s) = tq_spec_step e s; (out', s) = tq_spec_run es s in (out @ out', s))"

text \<open>A task may be put in front, or at a random position, only of a task that is there.\<close>

fun may_do :: "tq_event \<Rightarrow> nat list \<times> bool \<Rightarrow> bool" where
  "may_do (PushFront t) (xs, b) \<longleftrightarrow> b \<or> xs \<noteq> []"
| "may_do (PushRandom i t) (xs, b) \<longleftrightarrow> b \<or> i < length xs"
| "may_do e s \<longleftrightarrow> True"

fun allowed :: "tq_event list \<Rightarrow> nat list \<times> bool \<Rightarrow> bool" where
  "allowed [] s \<longleftrightarrow> True"
| "allowed (e # es) s \<longleftrightarrow> may_do e s \<and> allowed es (snd (tq_spec_step e s))"

fun pushes :: "tq_event \<Rightarrow> nat" where
  "pushes (PushAll ts) = length ts"
| "pushes (Push t) = 1" | "pushes (PushFront t) = 1" | "pushes (PushRandom i t) = 1"
| "pushes e = 0"

lemma spec_length: "length (fst (snd (tq_spec_step e (xs, b)))) \<le> length xs + pushes e"
  by (cases e; cases b) auto

lemma tq_step_ok:
  assumes h: "holds q xs" and m: "may_do e (xs, queueBlocked q)" and n: "length xs + pushes e < 2 ^ 31"
  shows "\<exists>q'. tq_step e q = Some (fst (tq_spec_step e (xs, queueBlocked q)), q') \<and>
    holds q' (fst (snd (tq_spec_step e (xs, queueBlocked q)))) \<and> queueBlocked q' = snd (snd (tq_spec_step e (xs, queueBlocked q)))"
proof -
  have c: "\<not> condLocked q" using h by (simp add: holds_def)
  have sz: "0 < ll_size (tasks q) \<longleftrightarrow> xs \<noteq> []" using h by (auto simp: holds_def ll_rep_def ll_size_def)
  have pt: "popped_of (Some (Inr (Popped (case xs of [] \<Rightarrow> None | t # _ \<Rightarrow> Some t)), q')) = Some (take 1 xs, q')" for q'
    by (cases xs) (simp_all add: popped_of_def)
  show ?thesis
  proof (cases "queueBlocked q")
    case True
    have "tq_spec_step e (xs, True) = ([], xs, True)" if "e \<noteq> Pop" "e \<noteq> Resume" "e \<noteq> Flush" using that by (cases e) auto
    then show ?thesis
      using True h c pop_take_ok [OF h] flush_ok [OF h] holds_empty [OF h] pt
      by (cases e) (auto simp: pushed_of_def push_def pushFront_def pushRandom_def pushAll_def pop_def pop_resume_def guarded_def popped_of_def)
  next
    case False
    show ?thesis
    proof (cases e)
      case (Push t)
      then show ?thesis using push_ok [OF h False, of t] n False by (auto simp: pushed_of_def)
    next
      case (PushFront t)
      then show ?thesis using pushRandom_ok [OF h False, of 0 t] pushFront_Random [of q t] sz n m False by (auto simp: pushed_of_def)
    next
      case (PushRandom i t)
      then show ?thesis using pushRandom_ok [OF h False, of i t] n m False by (auto simp: pushed_of_def)
    next
      case (PushAll ts)
      then show ?thesis using pushAll_ok [OF h False, of ts] n False by (auto simp: pushed_of_def)
    next
      case Flush
      then show ?thesis using flush_ok [OF h] False by (auto simp: pushed_of_def)
    next
      case Resume
      then show ?thesis using pop_take_ok [OF h] pt c False by (auto simp: pop_resume_def guarded_def)
    next
      case Pop
      then show ?thesis using pop_take_ok [OF h] pt c False h holds_empty [OF h]
        by (cases xs) (auto simp: pop_def guarded_def popped_of_def)
    qed
  qed
qed

lemma tq_run_ok:
  "holds q xs \<Longrightarrow> allowed es (xs, queueBlocked q) \<Longrightarrow> length xs + sum_list (map pushes es) < 2 ^ 31 \<Longrightarrow>
   \<exists>q'. tq_run es q = Some (fst (tq_spec_run es (xs, queueBlocked q)), q') \<and> holds q' (fst (snd (tq_spec_run es (xs, queueBlocked q))))"
proof (induction es arbitrary: q xs)
  case (Cons e es)
  let ?s = "tq_spec_step e (xs, queueBlocked q)"
  obtain q1 where q1: "tq_step e q = Some (fst ?s, q1)" "holds q1 (fst (snd ?s))" "queueBlocked q1 = snd (snd ?s)"
    using tq_step_ok [OF Cons.prems(1), of e] Cons.prems(2,3) by auto
  have "allowed es (fst (snd ?s), queueBlocked q1)" using Cons.prems(2) q1(3) by simp
  moreover have "length (fst (snd ?s)) + sum_list (map pushes es) < 2 ^ 31"
    using spec_length [of e xs "queueBlocked q"] Cons.prems(3) by simp
  ultimately show ?case using Cons.IH [OF q1(2)] q1(1,3) by (auto simp: Let_def split: prod.splits)
qed auto

subsection \<open>Properties\<close>

text \<open>
  C23. The work queue is a queue: whatever the order in which threads push tasks (at the back, several at
  once, in front of or between waiting tasks), enter \<open>pop\<close>, come back from its wait and shut the queue,
  the tasks handed to workers are those of the abstract queue in its order, each once, and the
  rest is still linked in the list. No null or freed entry is followed. Tasks are pushed to the
  front or to a random position only of a queue that is not empty.
\<close>

theorem work_queue_refines:
  assumes "allowed es ([], False)" "sum_list (map pushes es) < 2 ^ 31"
  shows "\<exists>q. tq_run es (task_queue_new rs ss) = Some (fst (tq_spec_run es ([], False)), q) \<and> holds q (fst (snd (tq_spec_run es ([], False))))"
  using tq_run_ok [OF new_holds, of es rs ss] assms by (simp add: task_queue_new_def)

text \<open>
  Pushing a task to the front, or to a random position, of an empty open queue raises an exception
  while the mutex is held, and nothing releases it: from then on every push, pop and flush of every
  thread blocks for ever, and the task is not queued.
\<close>

lemma push_front_blocks_queue:
  assumes "holds q []" "\<not> queueBlocked q"
  shows "\<exists>q'. pushFront t q = Some (Inl (ArrayIndexOutOfBoundsException 0), q') \<and> pushRandom i t q = pushFront t q \<and> tasks q' = tasks q \<and>
    (\<forall>u us. push u q' = None \<and> pushAll us q' = None \<and> pushFront u q' = None \<and> pop q' = None \<and> pop_resume q' = None \<and> flush q' = None)"
proof -
  obtain ns where ns: "ll_rep (tasks q) ns []" using assms(1) by (auto simp: holds_def)
  then have "ll_check 0 (tasks q) = Inl (ArrayIndexOutOfBoundsException 0)"
    using check_fails [OF ns, of 0] rep_length [OF ns] by (simp add: int32_ok_def)
  moreover have "\<not> 0 < ll_size (tasks q)" using ns by (auto simp: ll_rep_def ll_size_def)
  ultimately show ?thesis using assms
    by (simp add: pushFront_def pushRandom_def push_def pushAll_def pop_def pop_resume_def flush_def guarded_def ll_add_at_def holds_def)
qed

text \<open>Removing the last of several entries leaves \<open>current\<close> pointing to the freed entry, and the next \<open>add\<close> writes to it.\<close>

lemma remove_last_breaks_add:
  assumes r: "ll_rep l ns xs" and t: "tail_ok l ns" and n: "2 \<le> length ns"
  shows "\<exists>l'. ll_remove (int (length ns) - 1) l = Inr (Some (last xs), l') \<and> ll_add x l' = Inl Undefined"
proof -
  let ?i = "length ns - 1"
  have i: "?i < length ns" "int ?i = int (length ns) - 1" using n by auto
  obtain l' where l': "ll_remove (int ?i) l = Inr (Some (xs ! ?i), l')" "ll_rep l' (take ?i ns @ drop (Suc ?i) ns) (take ?i xs @ drop (Suc ?i) xs)"
    "ll_current l' = ll_current l" "entries l' (ns ! ?i) = None" "ll_fresh l' = ll_fresh l"
    using ll_remove_ok [OF r i(1)] by blast
  have ne: "ns \<noteq> []" "xs \<noteq> []" using n rep_length [OF r] by auto
  have "last xs = xs ! ?i" "last ns = ns ! ?i" using ne rep_length [OF r] by (simp_all add: last_conv_nth)
  moreover have "ll_count l' \<noteq> 0" using l'(2) n by (auto simp: ll_rep_def)
  moreover have "ns ! ?i \<noteq> ll_fresh l" using r i(1) by (auto simp: ll_rep_def dest!: nth_mem)
  moreover have "ll_current l' = Some (last ns)" using t l'(3) ne(1) by (simp add: tail_ok_def)
  ultimately show ?thesis using l'(1,4,5) i(2) by (simp add: ll_add_def Let_def entry_at_def)
qed

text \<open>\<open>pushAll\<close> takes no reference to its tasks, \<open>flush\<close> gives one up for each.\<close>

lemma pushAll_flush_unbalanced:
  assumes "holds q []" "\<not> queueBlocked q" "length ts < 2 ^ 31"
  shows "\<exists>q1 q2. pushAll ts q = Some (Inr (), q1) \<and> flush q1 = Some (Inr (), q2) \<and> (\<forall>x. refs q2 x = refs q x - int (count_list ts x))"
proof -
  obtain q1 where q1: "pushAll ts q = Some (Inr (), q1)" "holds q1 ts" "refs q1 = refs q" using pushAll_ok [OF assms(1,2), of ts] assms(3) by auto
  then show ?thesis using flush_ok [OF q1(2)] by auto
qed

subsection \<open>Instances\<close>

theorem work_queue_refines_witness:
  "\<exists>q. tq_run [Pop, Push 7, PushFront 8, PushAll [9, 10], Resume, Pop, PushRandom 1 11, Pop, Pop, Flush, Push 12, Pop]
      (task_queue_new (\<lambda>_. 1) (\<lambda>_. None)) = Some ([8, 7, 9, 11], q) \<and> holds q []"
  using work_queue_refines [of "[Pop, Push 7, PushFront 8, PushAll [9, 10], Resume, Pop, PushRandom 1 11, Pop, Pop, Flush, Push 12, Pop]"
      "\<lambda>_. 1" "\<lambda>_. None"] by simp

lemma push_front_blocks_queue_witness:
  "\<exists>q'. pushFront 3 (task_queue_new (\<lambda>_. 1) (\<lambda>_. None)) = Some (Inl (ArrayIndexOutOfBoundsException 0), q') \<and> push 4 q' = None"
  using push_front_blocks_queue [OF new_holds, of "\<lambda>_. 1" "\<lambda>_. None" 3 0] by (auto simp: task_queue_new_def)

end
