(* ===== verification/Crc.thy ===== *)
theory Crc
  imports Prelude
begin

text \<open>
  The checksum of the protocol (\<^verbatim>\<open>generateCrc\<close> and \<^verbatim>\<open>generateCRC\<close> in
  \<^verbatim>\<open>engine/service/proto/BaseProtocol.cpp\<close>): a table-driven CRC keyed by the session seed. The
  reference is the bitwise reflected CRC-32 with polynomial \<^verbatim>\<open>0xEDB88320\<close>; the code's
  function is that CRC of the four seed bytes followed by the data.
\<close>

unbundle bit_operations_syntax

definition crcTable :: "32 word list" where
  "crcTable = [
     0x00000000, 0x77073096, 0xee0e612c, 0x990951ba, 0x076dc419, 0x706af48f, 0xe963a535, 0x9e6495a3,
     0x0edb8832, 0x79dcb8a4, 0xe0d5e91e, 0x97d2d988, 0x09b64c2b, 0x7eb17cbd, 0xe7b82d07, 0x90bf1d91,
     0x1db71064, 0x6ab020f2, 0xf3b97148, 0x84be41de, 0x1adad47d, 0x6ddde4eb, 0xf4d4b551, 0x83d385c7,
     0x136c9856, 0x646ba8c0, 0xfd62f97a, 0x8a65c9ec, 0x14015c4f, 0x63066cd9, 0xfa0f3d63, 0x8d080df5,
     0x3b6e20c8, 0x4c69105e, 0xd56041e4, 0xa2677172, 0x3c03e4d1, 0x4b04d447, 0xd20d85fd, 0xa50ab56b,
     0x35b5a8fa, 0x42b2986c, 0xdbbbc9d6, 0xacbcf940, 0x32d86ce3, 0x45df5c75, 0xdcd60dcf, 0xabd13d59,
     0x26d930ac, 0x51de003a, 0xc8d75180, 0xbfd06116, 0x21b4f4b5, 0x56b3c423, 0xcfba9599, 0xb8bda50f,
     0x2802b89e, 0x5f058808, 0xc60cd9b2, 0xb10be924, 0x2f6f7c87, 0x58684c11, 0xc1611dab, 0xb6662d3d,
     0x76dc4190, 0x01db7106, 0x98d220bc, 0xefd5102a, 0x71b18589, 0x06b6b51f, 0x9fbfe4a5, 0xe8b8d433,
     0x7807c9a2, 0x0f00f934, 0x9609a88e, 0xe10e9818, 0x7f6a0dbb, 0x086d3d2d, 0x91646c97, 0xe6635c01,
     0x6b6b51f4, 0x1c6c6162, 0x856530d8, 0xf262004e, 0x6c0695ed, 0x1b01a57b, 0x8208f4c1, 0xf50fc457,
     0x65b0d9c6, 0x12b7e950, 0x8bbeb8ea, 0xfcb9887c, 0x62dd1ddf, 0x15da2d49, 0x8cd37cf3, 0xfbd44c65,
     0x4db26158, 0x3ab551ce, 0xa3bc0074, 0xd4bb30e2, 0x4adfa541, 0x3dd895d7, 0xa4d1c46d, 0xd3d6f4fb,
     0x4369e96a, 0x346ed9fc, 0xad678846, 0xda60b8d0, 0x44042d73, 0x33031de5, 0xaa0a4c5f, 0xdd0d7cc9,
     0x5005713c, 0x270241aa, 0xbe0b1010, 0xc90c2086, 0x5768b525, 0x206f85b3, 0xb966d409, 0xce61e49f,
     0x5edef90e, 0x29d9c998, 0xb0d09822, 0xc7d7a8b4, 0x59b33d17, 0x2eb40d81, 0xb7bd5c3b, 0xc0ba6cad,
     0xedb88320, 0x9abfb3b6, 0x03b6e20c, 0x74b1d29a, 0xead54739, 0x9dd277af, 0x04db2615, 0x73dc1683,
     0xe3630b12, 0x94643b84, 0x0d6d6a3e, 0x7a6a5aa8, 0xe40ecf0b, 0x9309ff9d, 0x0a00ae27, 0x7d079eb1,
     0xf00f9344, 0x8708a3d2, 0x1e01f268, 0x6906c2fe, 0xf762575d, 0x806567cb, 0x196c3671, 0x6e6b06e7,
     0xfed41b76, 0x89d32be0, 0x10da7a5a, 0x67dd4acc, 0xf9b9df6f, 0x8ebeeff9, 0x17b7be43, 0x60b08ed5,
     0xd6d6a3e8, 0xa1d1937e, 0x38d8c2c4, 0x4fdff252, 0xd1bb67f1, 0xa6bc5767, 0x3fb506dd, 0x48b2364b,
     0xd80d2bda, 0xaf0a1b4c, 0x36034af6, 0x41047a60, 0xdf60efc3, 0xa867df55, 0x316e8eef, 0x4669be79,
     0xcb61b38c, 0xbc66831a, 0x256fd2a0, 0x5268e236, 0xcc0c7795, 0xbb0b4703, 0x220216b9, 0x5505262f,
     0xc5ba3bbe, 0xb2bd0b28, 0x2bb45a92, 0x5cb36a04, 0xc2d7ffa7, 0xb5d0cf31, 0x2cd99e8b, 0x5bdeae1d,
     0x9b64c2b0, 0xec63f226, 0x756aa39c, 0x026d930a, 0x9c0906a9, 0xeb0e363f, 0x72076785, 0x05005713,
     0x95bf4a82, 0xe2b87a14, 0x7bb12bae, 0x0cb61b38, 0x92d28e9b, 0xe5d5be0d, 0x7cdcefb7, 0x0bdbdf21,
     0x86d3d2d4, 0xf1d4e242, 0x68ddb3f8, 0x1fda836e, 0x81be16cd, 0xf6b9265b, 0x6fb077e1, 0x18b74777,
     0x88085ae6, 0xff0f6a70, 0x66063bca, 0x11010b5c, 0x8f659eff, 0xf862ae69, 0x616bffd3, 0x166ccf45,
     0xa00ae278, 0xd70dd2ee, 0x4e048354, 0x3903b3c2, 0xa7672661, 0xd06016f7, 0x4969474d, 0x3e6e77db,
     0xaed16a4a, 0xd9d65adc, 0x40df0b66, 0x37d83bf0, 0xa9bcae53, 0xdebb9ec5, 0x47b2cf7f, 0x30b5ffe9,
     0xbdbdf21c, 0xcabac28a, 0x53b39330, 0x24b4a3a6, 0xbad03605, 0xcdd70693, 0x54de5729, 0x23d967bf,
     0xb3667a2e, 0xc4614ab8, 0x5d681b02, 0x2a6f2b94, 0xb40bbe37, 0xc30c8ea1, 0x5a05df1b, 0x2d02ef8d]"

definition crc_lookup :: "32 word \<Rightarrow> 32 word" where
  "crc_lookup i = crcTable ! unat (i AND 0xFF)"

text \<open>The key schedule: the state after the seed has been mixed in.\<close>

definition crc_seed :: "32 word \<Rightarrow> 32 word" where
  "crc_seed crcSeed =
     (let nCrc = crc_lookup (NOT crcSeed);
          nCrc = nCrc XOR 0x00FFFFFF;
          nIndex = drop_bit 8 crcSeed XOR nCrc;
          nCrc = drop_bit 8 nCrc AND 0x00FFFFFF;
          nCrc = nCrc XOR crc_lookup nIndex;
          nIndex = drop_bit 16 crcSeed XOR nCrc;
          nCrc = drop_bit 8 nCrc AND 0x00FFFFFF;
          nCrc = nCrc XOR crc_lookup nIndex;
          nIndex = drop_bit 24 crcSeed XOR nCrc;
          nCrc = drop_bit 8 nCrc AND 0x00FFFFFF
      in nCrc XOR crc_lookup nIndex)"

text \<open>One byte; \<open>pData[i]\<close> is a signed \<open>char\<close>, so it is sign-extended.\<close>

definition crc_byte :: "32 word \<Rightarrow> 8 word \<Rightarrow> 32 word" where
  "crc_byte nCrc b =
     (let nIndex = scast b XOR nCrc; nCrc = drop_bit 8 nCrc AND 0x00FFFFFF in nCrc XOR crc_lookup nIndex)"

fun crc_loop :: "8 word list \<Rightarrow> 32 word \<Rightarrow> 32 word" where
  "crc_loop [] nCrc = nCrc"
| "crc_loop (b # bs) nCrc = crc_loop bs (crc_byte nCrc b)"

text \<open>
  \<open>generateCrc\<close> counts with a \<open>short\<close>: beyond 32767 bytes the counter never reaches the
  length and the index becomes negative. \<open>generateCRC\<close> counts with an \<open>int\<close>.
\<close>

definition generateCrc :: "32 word \<Rightarrow> 8 word list \<Rightarrow> int \<Rightarrow> 32 word res" where
  "generateCrc crcSeed buf nLength =
     (if nLength \<le> 32767 \<and> nLength \<le> int (length buf)
      then Inr (NOT (crc_loop (take (nat nLength) buf) (crc_seed crcSeed)))
      else Inl Undefined)"

definition generateCRC :: "32 word \<Rightarrow> 8 word list \<Rightarrow> 32 word" where
  "generateCRC seed buf = NOT (crc_loop buf (crc_seed seed))"

subsection \<open>Reference\<close>

definition crc_bit :: "32 word \<Rightarrow> 32 word" where
  "crc_bit c = drop_bit 1 c XOR (if bit c 0 then 0xEDB88320 else 0)"

definition crc32_step :: "32 word \<Rightarrow> 8 word \<Rightarrow> 32 word" where
  "crc32_step c b = (crc_bit ^^ 8) (c XOR ucast b)"

definition crc32 :: "8 word list \<Rightarrow> 32 word" where
  "crc32 bs = NOT (foldl crc32_step (NOT 0) bs)"

definition seed_bytes :: "32 word \<Rightarrow> 8 word list" where
  "seed_bytes s = [ucast s, ucast (drop_bit 8 s), ucast (drop_bit 16 s), ucast (drop_bit 24 s)]"

subsection \<open>The table\<close>

definition crc8 :: "32 word \<Rightarrow> 32 word" where
  "crc8 = crc_bit ^^ 8"

lemma crc8_unfold: "crc8 c = crc_bit (crc_bit (crc_bit (crc_bit (crc_bit (crc_bit (crc_bit (crc_bit c)))))))"
  by (simp add: crc8_def numeral_eq_Suc)

lemma crc_bit_xor: "crc_bit (x XOR y) = crc_bit x XOR crc_bit y"
  by (auto simp: crc_bit_def drop_bit_xor bit_xor_iff ac_simps)

lemma crc8_xor: "crc8 (x XOR y) = crc8 x XOR crc8 y"
  by (simp add: crc8_unfold crc_bit_xor)

lemma crc8_basis:
  "crc8 0 = 0" "crc8 1 = 0x77073096" "crc8 2 = 0xee0e612c" "crc8 4 = 0x076dc419" "crc8 8 = 0x0edb8832"
  "crc8 16 = 0x1db71064" "crc8 32 = 0x3b6e20c8" "crc8 64 = 0x76dc4190" "crc8 128 = 0xedb88320"
  by (simp_all add: crc8_unfold crc_bit_def bit_0)

text \<open>Doubling: the second half of a table prefix is the first half shifted by one basis value.\<close>

fun doubled :: "32 word list \<Rightarrow> 32 word list \<Rightarrow> 32 word list" where
  "doubled t [] = t"
| "doubled t (v # vs) = doubled (t @ map (\<lambda>x. v XOR x) t) vs"

lemma crcTable_doubled:
  "crcTable = doubled [0] [0x77073096, 0xee0e612c, 0x076dc419, 0x0edb8832, 0x1db71064, 0x3b6e20c8, 0x76dc4190, 0xedb88320]"
  by (simp add: crcTable_def)

lemma index_doubled:
  "map word_of_nat [0..<256] = doubled [0 :: 32 word] [1, 2, 4, 8, 16, 32, 64, 128]"
  by (simp add: upt_rec)

lemma map_doubled: "map crc8 (doubled t vs) = doubled (map crc8 t) (map crc8 vs)"
  by (induction t vs rule: doubled.induct) (simp_all add: crc8_xor comp_def)

lemma crcTable_crc8: "crcTable = map (\<lambda>i. crc8 (word_of_nat i)) [0..<256]"
proof -
  have "map (\<lambda>i. crc8 (word_of_nat i)) [0..<256] = map crc8 (map word_of_nat [0..<256])" by simp
  also have "\<dots> = crcTable" unfolding index_doubled map_doubled crcTable_doubled by (simp only: list.map crc8_basis)
  finally show ?thesis by simp
qed

subsection \<open>Equivalence with the reference\<close>

lemma crc_bit_even: "\<not> bit c 0 \<Longrightarrow> crc_bit c = drop_bit 1 c"
  by (simp add: crc_bit_def)

lemma crc8_high:
  assumes "\<And>k. k < 8 \<Longrightarrow> \<not> bit c k"
  shows "crc8 c = drop_bit 8 c"
proof -
  have "(crc_bit ^^ n) c = drop_bit n c" if "n \<le> 8" for n
    using that
  proof (induction n)
    case 0
    then show ?case by simp
  next
    case (Suc n)
    have "\<not> bit (drop_bit n c) 0" using assms [of n] Suc.prems by (simp add: bit_drop_bit_eq)
    then show ?case using Suc by (simp add: crc_bit_even drop_bit_drop_bit)
  qed
  then show ?thesis by (simp add: crc8_def)
qed

lemma crc8_split: "crc8 c = drop_bit 8 c XOR crc8 (c AND 0xFF)"
proof -
  have m: "(0xFF :: 32 word) = mask 8" by (simp add: mask_eq_exp_minus_1)
  have c: "c = (c AND NOT 0xFF) XOR (c AND 0xFF)"
    by (rule bit_word_eqI) (auto simp: bit_simps)
  have "crc8 (c AND NOT 0xFF) = drop_bit 8 (c AND NOT 0xFF)"
    by (rule crc8_high) (simp add: m bit_simps)
  moreover have "drop_bit 8 (c AND NOT 0xFF) = drop_bit 8 c"
    unfolding m by (rule bit_word_eqI) (auto simp: bit_simps dest: bit_imp_le_length)
  ultimately show ?thesis using crc8_xor [of "c AND NOT 0xFF" "c AND 0xFF"] c by simp
qed

lemma crc_lookup_crc8: "crc_lookup i = crc8 (i AND 0xFF)"
proof -
  have m: "(0xFF :: 32 word) = mask 8" by (simp add: mask_eq_exp_minus_1)
  have "i AND 0xFF = take_bit 8 i" unfolding m by (simp add: take_bit_eq_mask)
  then have "unat (i AND 0xFF) = take_bit 8 (unat i)" by (simp only: unsigned_take_bit_eq)
  then have "unat (i AND 0xFF) < 256" using take_bit_nat_less_exp [of 8 "unat i"] by simp
  then show ?thesis by (simp add: crc_lookup_def crcTable_crc8)
qed

lemma drop8_mask: "drop_bit 8 (c :: 32 word) AND 0x00FFFFFF = drop_bit 8 c"
proof -
  have m: "(0x00FFFFFF :: 32 word) = mask 24" by (simp add: mask_eq_exp_minus_1)
  show ?thesis unfolding m by (rule bit_word_eqI) (auto simp: bit_simps dest: bit_imp_le_length)
qed

text \<open>A table step with an index that agrees with the byte in its low eight bits.\<close>

lemma table_step:
  assumes "i AND 0xFF = (c XOR ucast b) AND 0xFF"
  shows "(drop_bit 8 c AND 0x00FFFFFF) XOR crc_lookup i = crc32_step c b"
proof -
  have d: "drop_bit 8 (c XOR ucast b) = drop_bit 8 c"
    by (rule bit_word_eqI) (auto simp: bit_simps dest: bit_imp_le_length)
  have "crc8 (c XOR ucast b) = drop_bit 8 c XOR crc8 (i AND 0xFF)"
    using crc8_split [of "c XOR ucast b"] d assms by simp
  then show ?thesis by (simp add: drop8_mask crc_lookup_crc8 crc32_step_def crc8_def)
qed

lemma low_byte:
  fixes c s :: "32 word" and b :: "8 word"
  shows "(scast b XOR c) AND 0xFF = (c XOR ucast b) AND 0xFF"
    and "(s XOR c) AND 0xFF = (c XOR ucast (ucast s :: 8 word)) AND 0xFF"
proof -
  have m: "(0xFF :: 32 word) = mask 8" by (simp add: mask_eq_exp_minus_1)
  show "(scast b XOR c) AND 0xFF = (c XOR ucast b) AND 0xFF"
    unfolding m by (rule bit_word_eqI) (auto simp: bit_simps)
  show "(s XOR c) AND 0xFF = (c XOR ucast (ucast s :: 8 word)) AND 0xFF"
    unfolding m by (rule bit_word_eqI) (auto simp: bit_simps)
qed

lemma crc_byte_step: "crc_byte c b = crc32_step c b"
  unfolding crc_byte_def Let_def by (rule table_step [OF low_byte(1)])

lemma crc_loop_foldl: "crc_loop bs c = foldl crc32_step c bs"
  by (induction bs arbitrary: c) (simp_all add: crc_byte_step)

lemma crc_seed_first: "crc_lookup (NOT s) XOR 0x00FFFFFF = crc32_step (NOT 0) (ucast s)"
proof -
  have m: "(0xFF :: 32 word) = mask 8" by (simp add: mask_eq_exp_minus_1)
  have "NOT s AND 0xFF = (NOT 0 XOR ucast (ucast s :: 8 word)) AND 0xFF"
    unfolding m by (rule bit_word_eqI) (auto simp: bit_simps)
  from table_step [OF this] have "(drop_bit 8 (NOT 0) AND 0x00FFFFFF) XOR crc_lookup (NOT s) = crc32_step (NOT 0) (ucast s)" .
  moreover have "drop_bit 8 (NOT 0 :: 32 word) AND 0x00FFFFFF = 0x00FFFFFF"
    unfolding drop8_mask by (simp add: mask_eq_exp_minus_1)
  ultimately show ?thesis by (simp add: xor.commute)
qed

lemma crc_seed_foldl: "crc_seed s = foldl crc32_step (NOT 0) (seed_bytes s)"
  unfolding crc_seed_def Let_def crc_seed_first table_step [OF low_byte(2)] seed_bytes_def by simp

subsection \<open>Properties\<close>

text \<open>
  C4. The checksum of the protocol is CRC-32: the table-driven \<open>generateCrc\<close> of a packet is the
  bitwise CRC-32 of the four seed bytes (least significant first) followed by the bytes of
  the packet, for any seed and any packet of at most 32767 bytes, and \<open>generateCRC\<close> is the
  same function on a whole stream of any length.
\<close>

theorem generateCrc_is_crc32:
  assumes "nLength \<le> 32767" "nLength \<le> int (length buf)"
  shows "generateCrc seed buf nLength = Inr (crc32 (seed_bytes seed @ take (nat nLength) buf)) \<and>
    generateCRC seed buf = crc32 (seed_bytes seed @ buf)"
  using assms by (simp add: generateCrc_def generateCRC_def crc_loop_foldl crc_seed_foldl crc32_def)

theorem generateCrc_is_crc32_witness:
  "generateCrc 0xDEADBEEF [0x31, 0x32, 0x33] 3 = Inr (crc32 (seed_bytes 0xDEADBEEF @ [0x31, 0x32, 0x33]))"
  using generateCrc_is_crc32 [of 3 "[0x31, 0x32, 0x33]" "0xDEADBEEF"] by simp

end
