(* ===== verification/Protocol.thy ===== *)
theory Protocol
  imports Packet Crc
begin

text \<open>
  \<^verbatim>\<open>engine/service/proto/BasePacket\<close> and \<^verbatim>\<open>BaseProtocol\<close>: what happens to a packet between
  the application and the socket. Sending appends a trailer (compression flag and two
  checksum bytes), numbers the packet, compresses, encrypts and checksums it; receiving
  tests the checksum, decrypts, inflates and removes the trailer. zlib is outside the
  repository: \<open>deflate\<close> and \<open>inflate\<close> are arguments, and what is used of them is
  \<open>zlib_ok\<close>. Logging is left out; the two configuration flags are arguments.
\<close>

subsection \<open>Packets\<close>

record base_packet =
  bstream :: stream
  bsequence :: "32 word"
  doSeq :: bool
  doEncr :: bool
  doComp :: bool
  doCRCTest :: bool
  timestamp :: int
  timeout :: int
  outOfOrderCount :: int

definition bp_new :: base_packet where
  "bp_new = \<lparr>bstream = pk_new, bsequence = 0, doSeq = True, doEncr = True, doComp = False, doCRCTest = True,
     timestamp = 0, timeout = 0, outOfOrderCount = 0\<rparr>"

definition bp_new_size :: "int \<Rightarrow> base_packet res" where
  "bp_new_size n = (if n < 0 then Inl (PacketIndexOutOfBoundsException n) else Inr bp_new)"

definition bp_from_packet :: "stream \<Rightarrow> 32 word \<Rightarrow> base_packet res" where
  "bp_from_packet pack seq =
     rbind (st_copy pack pk_new 0) (\<lambda>s.
     rbind (st_setOffset (soff pack) s) (\<lambda>s'. Inr (bp_new\<lparr>bstream := s', bsequence := seq\<rparr>)))"

definition bp_clone :: "int \<Rightarrow> base_packet \<Rightarrow> base_packet res" where
  "bp_clone startoffs p =
     rbind (bp_new_size (st_size (bstream p) - startoffs)) (\<lambda>q.
     rbind (st_copy (bstream p) (bstream q) startoffs) (\<lambda>s.
     Inr (q\<lparr>bstream := s, doSeq := doSeq p, doEncr := doEncr p, doComp := doComp p, doCRCTest := doCRCTest p\<rparr>)))"

definition bp_compareTo :: "base_packet \<Rightarrow> base_packet \<Rightarrow> int" where
  "bp_compareTo p q =
     (if bsequence p < bsequence q then 1 else if bsequence p > bsequence q then -1 else 0)"

definition bp_close :: "base_packet \<Rightarrow> base_packet res" where
  "bp_close p =
     (let p1 = (if st_size (bstream p) < 100 then p\<lparr>doComp := False\<rparr> else p) in
      rbind (insertByte (if doComp p1 then 1 else 0) (bstream p1)) (\<lambda>s.
      rbind (insertByte 0 s) (\<lambda>s. rbind (insertByte 0 s) (\<lambda>s. Inr (p1\<lparr>bstream := s\<rparr>)))))"

definition bp_setSequence :: "32 word \<Rightarrow> base_packet \<Rightarrow> base_packet res" where
  "bp_setSequence seq p =
     rbind (insertShort_at 2 (htons (ucast seq)) (bstream p)) (\<lambda>s. Inr (p\<lparr>bsequence := seq, bstream := s\<rparr>))"

definition bp_getSequence :: "base_packet \<Rightarrow> 32 word" where
  "bp_getSequence p = (if doSeq p then bsequence p else 0xFFFFFFFF)"

definition bp_isDataChannelPacket :: "base_packet \<Rightarrow> bool res" where
  "bp_isDataChannelPacket p = rbind (parseShort_at 0 (bstream p)) (\<lambda>v. Inr (v = 0x0900))"

definition bp_isMultiPacket :: "base_packet \<Rightarrow> bool res" where
  "bp_isMultiPacket p =
     rbind (parseShort_at 0 (bstream p)) (\<lambda>v.
     if v = 0x0300 then Inr True else rbind (parseShort_at 4 (bstream p)) (\<lambda>w. Inr (w = 0x1900)))"

subsection \<open>Encryption\<close>

text \<open>C division and remainder (towards zero), and the truncation of a loop bound to \<open>short\<close>.\<close>

definition c_div :: "int \<Rightarrow> int \<Rightarrow> int" where
  "c_div a b = (if a < 0 then - ((- a) div b) else a div b)"

definition c_mod :: "int \<Rightarrow> int \<Rightarrow> int" where
  "c_mod a b = a - b * c_div a b"

definition to_short :: "int \<Rightarrow> int" where
  "to_short i = (let u = i mod 2 ^ 16 in if u < 2 ^ 15 then u else u - 2 ^ 16)"

text \<open>
  The two loops over whole 32-bit blocks and trailing bytes, with the key chained over the
  encrypted blocks.
\<close>

fun encrypt_loop :: "nat \<Rightarrow> nat \<Rightarrow> 32 word \<Rightarrow> byte list \<Rightarrow> byte list" where
  "encrypt_loop 0 byte_count nCrcSeed data =
     map (\<lambda>b. b XOR ucast nCrcSeed) (take byte_count data) @ drop byte_count data"
| "encrypt_loop (Suc block_count) byte_count nCrcSeed data =
     (let w = word_of_nat (le_val (take 4 data)) XOR nCrcSeed in
      le_bytes 4 (unat w) @ encrypt_loop block_count byte_count w (drop 4 data))"

fun decrypt_loop :: "nat \<Rightarrow> nat \<Rightarrow> 32 word \<Rightarrow> byte list \<Rightarrow> byte list" where
  "decrypt_loop 0 byte_count nCrcSeed data =
     map (\<lambda>b. b XOR ucast nCrcSeed) (take byte_count data) @ drop byte_count data"
| "decrypt_loop (Suc block_count) byte_count nCrcSeed data =
     (let itemp = word_of_nat (le_val (take 4 data)) in
      le_bytes 4 (unat (itemp XOR nCrcSeed)) @ decrypt_loop block_count byte_count itemp (drop 4 data))"

definition crypt_header :: "byte list \<Rightarrow> nat" where
  "crypt_header buf = (if hd buf = 0 then 2 else 1)"

definition crypt_length :: "byte list \<Rightarrow> int" where
  "crypt_length buf = int (length buf) - (if hd buf = 0 then 4 else 3)"

definition proto_encrypt :: "32 word \<Rightarrow> byte list \<Rightarrow> bool \<Rightarrow> byte list res" where
  "proto_encrypt crcSeed buf crc =
     (if buf = [] then Inl Undefined
      else let nLength = crypt_length buf + (if crc then 0 else 2);
               block_count = to_short (c_div nLength 4); byte_count = to_short (c_mod nLength 4) in
        Inr (take (crypt_header buf) buf @
             encrypt_loop (nat block_count) (nat byte_count) crcSeed (drop (crypt_header buf) buf)))"

definition proto_decrypt :: "32 word \<Rightarrow> byte list \<Rightarrow> byte list" where
  "proto_decrypt crcSeed buf =
     (if length buf < 3 then buf
      else let nLength = crypt_length buf in
        if nLength \<le> 0 then buf
        else let block_count = to_short (c_div nLength 4); byte_count = to_short (c_mod nLength 4) in
          take (crypt_header buf) buf @
          decrypt_loop (nat block_count) (nat byte_count) crcSeed (drop (crypt_header buf) buf))"

subsection \<open>Checksum\<close>

definition crc_bytes :: "nat \<Rightarrow> 32 word \<Rightarrow> byte list" where
  "crc_bytes crcLength crc = rev (map (\<lambda>i. ucast (drop_bit (8 * i) crc AND 0xFF)) [0..<crcLength])"

definition appendCRC :: "32 word \<Rightarrow> nat \<Rightarrow> byte list \<Rightarrow> byte list res" where
  "appendCRC crcSeed crcLength buf =
     (if crcLength > 0 then
        rbind (generateCrc crcSeed buf (int (length buf) - int crcLength)) (\<lambda>crc.
        if crcLength \<le> length buf then Inr (take (length buf - crcLength) buf @ crc_bytes crcLength crc)
        else Inl Undefined)
      else Inr buf)"

fun testCRC_loop :: "byte list \<Rightarrow> 32 word \<Rightarrow> 32 word \<Rightarrow> 32 word \<times> 32 word" where
  "testCRC_loop [] crc msk = (crc, msk)"
| "testCRC_loop (b # bs) crc msk =
     testCRC_loop bs (crc OR push_bit (8 * length bs) (ucast b)) (push_bit 8 msk OR 0xFF)"

definition testCRC :: "32 word \<Rightarrow> nat \<Rightarrow> byte list \<Rightarrow> bool res" where
  "testCRC crcSeed crcLength buf =
     (if crcLength > 0 then
        rbind (generateCrc crcSeed buf (int (length buf) - int crcLength)) (\<lambda>p_crc.
        if crcLength \<le> length buf then
          (let (crc, msk) = testCRC_loop (drop (length buf - crcLength) buf) 0 0 in Inr (p_crc AND msk = crc))
        else Inl Undefined)
      else Inr True)"

subsection \<open>Compression\<close>

definition COMPRESSION_BUFFER_MAX :: nat where "COMPRESSION_BUFFER_MAX = 800"

text \<open>
  \<open>insertShort(opcode)\<close> of a value read from the packet writes the bytes that were read.
  A negative \<open>avail_in\<close> is converted to an unsigned count of almost 4 GB.
\<close>

definition rebuild :: "nat \<Rightarrow> byte list \<Rightarrow> byte list \<Rightarrow> stream \<Rightarrow> stream res" where
  "rebuild offset output buf s =
     (let s1 = st_setSize (\<lambda>_. 0) (int (length output) + int offset + 3) (st_reset s) in
      rbind (st_put_bytes (take offset buf) s1) (\<lambda>s2.
      rbind (st_writeStream output s2) (\<lambda>s3.
      rbind (insertByte 1 s3) (\<lambda>s4.
      st_put_bytes (drop (length buf - 2) buf) s4))))"

definition proto_compress :: "(byte list \<Rightarrow> byte list) \<Rightarrow> stream \<Rightarrow> (bool \<times> stream) res" where
  "proto_compress deflate s =
     (let pData = sbuf s; nLength = length pData; offset = crypt_header pData in
      if nLength < 2 \<or> nLength < offset + 3 then Inl Undefined
      else let output = take (nLength + 20) (deflate (take (nLength - offset - 3) (drop offset pData))); compSize = length output in
        if compSize + 3 \<ge> nLength then
          rbind (writeByte_at (soff s - 3) 0 s) (\<lambda>s'. Inr (False, s'))
        else rbind (rebuild offset output pData s) (\<lambda>s'. Inr (True, st_reset s')))"

definition proto_decompress :: "(nat \<Rightarrow> byte list \<Rightarrow> byte list) \<Rightarrow> stream \<Rightarrow> stream res" where
  "proto_decompress inflate s =
     (let pData = sbuf s; nLength = length pData; offset = crypt_header pData in
      if nLength < 3 then Inr s
      else if nLength < offset + 3 then Inl Undefined
      else let output = inflate COMPRESSION_BUFFER_MAX (take (nLength - offset - 3) (drop offset pData)) in
        rbind (rebuild offset output pData s) (st_setOffset 2))"

subsection \<open>Sending and receiving\<close>

record base_protocol =
  connectionID :: "32 word"
  crcSeed :: "32 word"
  serverSequence :: "32 word"
  clientSequence :: "32 word"

definition with_buffer :: "(byte list \<Rightarrow> byte list res) \<Rightarrow> base_packet \<Rightarrow> base_packet res" where
  "with_buffer f p = rbind (f (sbuf (bstream p))) (\<lambda>b. Inr (p\<lparr>bstream := (bstream p)\<lparr>sbuf := b\<rparr>\<rparr>))"

definition prepareSequence :: "base_protocol \<Rightarrow> base_packet \<Rightarrow> (base_protocol \<times> base_packet) res" where
  "prepareSequence pr p =
     rbind (bp_close p) (\<lambda>p.
     if doSeq p then rbind (bp_setSequence (serverSequence pr) p) (\<lambda>p. Inr (pr\<lparr>serverSequence := serverSequence pr + 1\<rparr>, p))
     else Inr (pr, p))"

definition transform :: "(byte list \<Rightarrow> byte list) \<Rightarrow> base_protocol \<Rightarrow> base_packet \<Rightarrow> base_packet res" where
  "transform deflate pr p =
     rbind (if doComp p then rbind (proto_compress deflate (bstream p)) (\<lambda>(_, s). Inr (p\<lparr>bstream := s\<rparr>)) else Inr p) (\<lambda>p.
     rbind (if doEncr p then with_buffer (\<lambda>b. proto_encrypt (crcSeed pr) b True) p else Inr p) (\<lambda>p.
     if doCRCTest p then with_buffer (appendCRC (crcSeed pr) 2) p else Inr p))"

definition prepareEncryptionAndCompression ::
  "(byte list \<Rightarrow> byte list) \<Rightarrow> base_protocol \<Rightarrow> base_packet \<Rightarrow> base_packet res" where
  "prepareEncryptionAndCompression deflate pr p =
     (case transform deflate pr p of
        Inr p' \<Rightarrow> Inr p'
      | Inl Undefined \<Rightarrow> Inl Undefined
      | Inl e \<Rightarrow> Inr p)"

definition prepareSend ::
  "bool \<Rightarrow> bool \<Rightarrow> (byte list \<Rightarrow> byte list) \<Rightarrow> base_protocol \<Rightarrow> base_packet \<Rightarrow> (base_protocol \<times> base_packet) res" where
  "prepareSend disableCompression disableEncryption deflate pr p =
     (let p = (if disableCompression \<and> doComp p then p\<lparr>doComp := False\<rparr> else p);
          p = (if disableEncryption \<and> doEncr p then p\<lparr>doEncr := False\<rparr> else p) in
      rbind (prepareSequence pr p) (\<lambda>(pr, p). rbind (transform deflate pr p) (\<lambda>p. Inr (pr, p))))"

definition processRecieve ::
  "(nat \<Rightarrow> byte list \<Rightarrow> byte list) \<Rightarrow> base_protocol \<Rightarrow> stream \<Rightarrow> (bool \<times> stream) res" where
  "processRecieve inflate pr s =
     rbind (testCRC (crcSeed pr) 2 (sbuf s)) (\<lambda>ok.
     if \<not> ok then Inr (False, s)
     else let s = s\<lparr>sbuf := proto_decrypt (crcSeed pr) (sbuf s)\<rparr> in
       if st_size s < 3 then Inl (PacketIndexOutOfBoundsException 3)
       else rbind (parseByte_at (st_size s - 3) s) (\<lambda>flag.
         rbind (if flag = 1 then proto_decompress inflate s else Inr s) (\<lambda>s.
         rbind (st_removeLastBytes 3 s) (\<lambda>s. Inr (True, s)))))"

subsection \<open>Encryption round trip\<close>

lemma length_encrypt_loop [simp]: "4 * bc + rc \<le> length d \<Longrightarrow> length (encrypt_loop bc rc k d) = length d"
  by (induction bc rc k d rule: encrypt_loop.induct) (simp_all add: Let_def)

lemma encrypt_loop_append:
  "4 * bc + rc \<le> length d \<Longrightarrow> encrypt_loop bc rc k (d @ t) = encrypt_loop bc rc k d @ t"
  by (induction bc rc k d rule: encrypt_loop.induct) (simp_all add: Let_def)

lemma decrypt_loop_append:
  "4 * bc + rc \<le> length d \<Longrightarrow> decrypt_loop bc rc k (d @ t) = decrypt_loop bc rc k d @ t"
  by (induction bc rc k d rule: decrypt_loop.induct) (simp_all add: Let_def)

lemma word32_of_le_bytes: "word_of_nat (le_val (le_bytes 4 (unat (w :: 32 word)))) = w"
  using word_of_nat_le_val [where 'w = 32, of 4 w] by simp

lemma le_bytes_of_word32: "length d = 4 \<Longrightarrow> le_bytes 4 (unat (word_of_nat (le_val d) :: 32 word)) = d"
  using le_bytes_le_val [of d] le_val_bound [of d] by (simp add: unat_of_nat)

lemma crypt_loop_roundtrip: "4 * bc + rc \<le> length d \<Longrightarrow> decrypt_loop bc rc k (encrypt_loop bc rc k d) = d"
proof (induction bc arbitrary: k d)
  case 0
  then show ?case by (simp add: comp_def xor.assoc)
next
  case (Suc bc)
  let ?w = "word_of_nat (le_val (take 4 d)) XOR k"
  have "le_bytes 4 (unat (?w XOR k)) = take 4 d"
    using Suc.prems by (simp add: xor.assoc le_bytes_of_word32)
  moreover have "take 4 (le_bytes 4 (unat ?w) @ encrypt_loop bc rc ?w (drop 4 d)) = le_bytes 4 (unat ?w)" by simp
  ultimately show ?case using Suc by (simp add: Let_def word32_of_le_bytes)
qed

text \<open>The loop bounds, after truncation to \<open>short\<close>, stay inside the encrypted span.\<close>

lemma short_span:
  assumes "0 \<le> n"
  shows "4 * nat (to_short (c_div n 4)) + nat (to_short (c_mod n 4)) \<le> nat n"
proof -
  have s: "to_short v \<le> v" if "0 \<le> v" for v :: int
    using that zmod_le_nonneg_dividend [of v "2 ^ 16"] pos_mod_bound [of "2 ^ 16" v] by (auto simp: to_short_def Let_def)
  have q: "nat (to_short (n div 4)) \<le> nat (n div 4)" "nat (to_short (n mod 4)) \<le> nat (n mod 4)"
    using s [of "n div 4"] s [of "n mod 4"] assms by (simp_all add: nat_mono)
  have "4 * nat (n div 4) + nat (n mod 4) = nat n" using assms mult_div_mod_eq [of 4 n] by linarith
  moreover have "c_div n 4 = n div 4" "c_mod n 4 = n mod 4"
    using assms by (simp_all add: c_div_def c_mod_def minus_mult_div_eq_mod)
  ultimately show ?thesis using q by simp
qed

lemma c_div_neg [simp]: "n \<le> 0 \<Longrightarrow> -4 \<le> n \<Longrightarrow> nat (to_short (c_div n 4)) = 0 \<and> nat (to_short (c_mod n 4)) = 0"
proof -
  assume "n \<le> 0" "-4 \<le> n"
  then have "n = 0 \<or> n = -1 \<or> n = -2 \<or> n = -3 \<or> n = -4" by linarith
  then show ?thesis by (auto simp: c_div_def c_mod_def to_short_def)
qed

text \<open>
  A packet as it is encrypted: header, span, two bytes that stay clear. Decryption undoes
  encryption also when those two bytes have been replaced by a checksum.
\<close>

lemma crypt_length_header: "crypt_length buf = int (length buf) - int (crypt_header buf) - 2"
  by (simp add: crypt_length_def crypt_header_def)

lemma crypt_split:
  assumes "length buf \<ge> 3" "0 < crypt_length buf" "length c = 2"
  shows "\<exists>e. proto_encrypt k buf True = Inr e \<and> length e = length buf \<and> hd e = hd buf \<and>
    take (crypt_header buf) e = take (crypt_header buf) buf \<and> proto_decrypt k (take (length buf - 2) e @ c) = take (length buf - 2) buf @ c"
proof -
  let ?h = "crypt_header buf" and ?n = "crypt_length buf"
  let ?bc = "nat (to_short (c_div ?n 4))" and ?rc = "nat (to_short (c_mod ?n 4))"
  define mid where "mid = take (nat ?n) (drop ?h buf)"
  define t where "t = drop (length buf - 2) buf"
  have hn: "?h + nat ?n = length buf - 2" "?h \<le> length buf" "nat ?n + 2 \<le> length buf" "buf \<noteq> []"
    using assms(1,2) by (auto simp: crypt_header_def crypt_length_def split: if_splits)
  have buf: "buf = take ?h buf @ mid @ t"
  proof -
    have "drop (nat ?n) (drop ?h buf) = t" using hn(1) by (simp add: t_def add.commute)
    then have "drop ?h buf = mid @ t" using append_take_drop_id [of "nat ?n" "drop ?h buf"] by (simp add: mid_def)
    then show ?thesis using append_take_drop_id [of ?h buf] by simp
  qed
  have lm: "length mid = nat ?n" using hn by (simp add: mid_def)
  have lt: "length t = 2" using assms(1) by (simp add: t_def)
  have span: "4 * ?bc + ?rc \<le> length mid" using short_span [of ?n] assms(2) lm by simp
  let ?e = "take ?h buf @ encrypt_loop ?bc ?rc k mid @ t"
  have dr: "drop ?h buf = mid @ t" using buf hn(2) by (metis append_eq_conv_conj length_take min.absorb2)
  have enc: "proto_encrypt k buf True = Inr ?e"
    using hn(4) dr span by (simp add: proto_encrypt_def Let_def encrypt_loop_append)
  have h1: "0 < ?h" by (simp add: crypt_header_def)
  have hd: "hd (take ?h buf @ x) = hd buf" for x using h1 hn(4) by (cases buf) (auto simp: take_Cons')
  let ?f = "take ?h buf @ encrypt_loop ?bc ?rc k mid @ c"
  have lth: "length (take ?h buf) = ?h" using hn(2) by simp
  have tk: "take (length buf - 2) ?e @ c = ?f" "take (length buf - 2) buf @ c = take ?h buf @ mid @ c"
    using hn(1) lm span lth by (simp_all add: mid_def flip: hn(1)) (metis append_assoc take_add)
  have "length ?f = length buf" using lth lm span assms(3) hn by simp
  then have "crypt_header ?f = ?h" "crypt_length ?f = ?n" using hd by (simp_all add: crypt_header_def crypt_length_def)
  then have "proto_decrypt k ?f = take ?h buf @ mid @ c"
    using assms(1,2) \<open>length ?f = length buf\<close> lth span
    by (simp add: proto_decrypt_def Let_def decrypt_loop_append crypt_loop_roundtrip)
  then show ?thesis using enc tk hd lth lm span lt hn by (intro exI [of _ ?e]) simp
qed

subsection \<open>Checksums\<close>

lemma crc_bytes_2: "crc_bytes 2 c = [ucast (drop_bit 8 c), ucast c]"
proof -
  have m: "(0xFF :: 32 word) = mask 8" by (simp add: mask_eq_exp_minus_1)
  have "ucast (x AND 0xFF) = (ucast x :: byte)" for x :: "32 word"
    unfolding m by (rule bit_word_eqI) (auto simp: bit_simps)
  then show ?thesis by (simp add: crc_bytes_def upt_rec)
qed

lemma crc_match: "(p AND 0xFFFF = push_bit 8 (ucast a) OR ucast b) \<longleftrightarrow> [a, b] = crc_bytes 2 (p :: 32 word)"
proof -
  have m: "(0xFFFF :: 32 word) = mask 16" by (simp add: mask_eq_exp_minus_1)
  show ?thesis
  proof
    assume e: "p AND 0xFFFF = push_bit 8 (ucast a) OR ucast b"
    have "ucast (drop_bit 8 (p AND 0xFFFF)) = (ucast (drop_bit 8 p) :: byte)" "ucast (p AND 0xFFFF) = (ucast p :: byte)"
      unfolding m by (rule bit_word_eqI; auto simp: bit_simps)+
    moreover have "ucast (drop_bit 8 (push_bit 8 (ucast a) OR ucast b :: 32 word)) = a"
      "ucast (push_bit 8 (ucast a) OR ucast b :: 32 word) = b"
      by (rule bit_word_eqI; auto simp: bit_simps dest: bit_imp_le_length)+
    ultimately show "[a, b] = crc_bytes 2 p" using e by (simp add: crc_bytes_2)
  next
    assume "[a, b] = crc_bytes 2 p"
    then have "a = ucast (drop_bit 8 p)" "b = ucast p" by (simp_all add: crc_bytes_2)
    then show "p AND 0xFFFF = push_bit 8 (ucast a) OR ucast b"
      unfolding m by (intro bit_word_eqI) (auto simp: bit_simps)
  qed
qed

lemma testCRC_iff:
  assumes "length body \<le> 32767" "length t = 2"
  shows "testCRC k 2 (body @ t) = Inr (t = crc_bytes 2 (crc32 (seed_bytes k @ body)))"
proof -
  obtain a b where t: "t = [a, b]" using assms(2) by (auto simp: numeral_2_eq_2 length_Suc_conv)
  have "generateCrc k (body @ t) (int (length (body @ t)) - 2) = Inr (crc32 (seed_bytes k @ body))"
    using assms by (simp add: generateCrc_def crc_loop_foldl crc_seed_foldl crc32_def)
  then show ?thesis using crc_match [of "crc32 (seed_bytes k @ body)" a b] t by (simp add: testCRC_def)
qed

lemma appendCRC_eq:
  assumes "2 \<le> length buf" "length buf \<le> 32769"
  shows "appendCRC k 2 buf = Inr (take (length buf - 2) buf @ crc_bytes 2 (crc32 (seed_bytes k @ take (length buf - 2) buf)))"
proof -
  have "nat (int (length buf) - 2) = length buf - 2" by simp
  then have "generateCrc k buf (int (length buf) - 2) = Inr (crc32 (seed_bytes k @ take (length buf - 2) buf))"
    using assms by (simp add: generateCrc_def crc_loop_foldl crc_seed_foldl crc32_def)
  then show ?thesis using assms by (simp add: appendCRC_def)
qed

lemma length_crc_bytes [simp]: "length (crc_bytes n c) = n"
  by (simp add: crc_bytes_def)

subsection \<open>Compression round trip\<close>

lemma rebuild_eq:
  assumes "offset \<le> length buf" "2 \<le> length buf"
  shows "rebuild offset out buf s = Inr (at_pos (take offset buf @ out @ [1] @ drop (length buf - 2) buf) [])"
proof -
  define junk where "junk = sbuf (st_setSize (\<lambda>_. 0) (int (length out) + int offset + 3) (st_reset s))"
  have s1: "st_setSize (\<lambda>_. 0) (int (length out) + int offset + 3) (st_reset s) = at_pos [] junk"
    by (simp add: junk_def st_setSize_def st_reset_def at_pos_def)
  have len: "length junk = length out + offset + 3"
    by (simp add: junk_def st_setSize_def st_reset_def nat_add_distrib)
  obtain j1 r1 where j1: "junk = j1 @ r1" "length j1 = offset" "length r1 = length out + 3"
    using len append_take_drop_id [of offset junk] by (metis add.commute add.left_commute diff_add_inverse2 length_append length_drop length_take min.absorb2 le_add1)
  obtain j2 r2 where j2: "r1 = j2 @ r2" "length j2 = length out" "length r2 = 3"
    using j1(3) append_take_drop_id [of "length out" r1] by (metis diff_add_inverse length_drop length_take min.absorb2 le_add1)
  obtain x y z where r2: "r2 = [x, y, z]" using j2(3) by (auto simp: numeral_3_eq_3 length_Suc_conv)
  have w: "st_writeStream out (at_pos pre (j2 @ r2)) = Inr (at_pos (pre @ out) r2)" for pre
    using j2(2) by (cases "out = []") (simp_all add: st_writeStream_def st_put_bytes_over)
  have b1: "insertByte 1 (at_pos pre ([x] @ [y, z])) = Inr (at_pos (pre @ [1]) [y, z])" for pre
    by (simp add: insertByte_def writeByte_def writePrimitive_def le_bytes_def st_put_bytes_over del: append_Cons)
  have lt: "length (take offset buf) = length j1" "length (drop (length buf - 2) buf) = 2" using assms j1(2) by simp_all
  show ?thesis
    unfolding rebuild_def Let_def s1 j1(1) st_put_bytes_over [OF lt(1)] rbind_Inr append_Nil j2(1) w
    unfolding r2 using b1 lt(2) by simp
qed

text \<open>What the protocol uses of zlib: inflating a complete deflated block gives the block back.\<close>

definition zlib_ok :: "(byte list \<Rightarrow> byte list) \<Rightarrow> (nat \<Rightarrow> byte list \<Rightarrow> byte list) \<Rightarrow> bool" where
  "zlib_ok deflate inflate \<longleftrightarrow> (\<forall>x n. length x \<le> n \<longrightarrow> inflate n (deflate x) = x)"

lemma zlib_ok_stored: "zlib_ok (\<lambda>x. x) (\<lambda>n x. take n x)"
  by (simp add: zlib_ok_def)

text \<open>
  A framed packet: header, body, flag, two bytes. Compressing it gives either the same
  packet with the flag cleared or the packet with a deflated body and the flag set, and in
  the second case decompression restores it.
\<close>

lemma compress_cases:
  assumes buf: "buf = hdr @ body @ [f, x, y]" and hdr: "length hdr = crypt_header buf" and small: "length body \<le> 800"
    and s: "s = at_pos buf []"
  shows "\<exists>b s'. proto_compress deflate s = Inr (b, s') \<and>
    (if b then sbuf s' = hdr @ deflate body @ [1, x, y] \<and> length (deflate body) + 3 < length buf
     else sbuf s' = hdr @ body @ [0, x, y])"
proof -
  have h: "1 \<le> crypt_header buf" by (simp add: crypt_header_def)
  have n: "length buf = length hdr + length body + 3" "2 \<le> length buf" using buf by simp_all
  have body: "take (length buf - crypt_header buf - 3) (drop (crypt_header buf) buf) = body"
    using hdr n(1) by (simp add: buf hdr [symmetric])
  have last: "drop (length buf - 2) buf = [x, y]" by (simp add: buf)
  have first: "take (crypt_header buf) buf = hdr" using hdr buf by (metis append_eq_conv_conj)
  let ?out = "take (length buf + 20) (deflate body)"
  show ?thesis
  proof (cases "length ?out + 3 \<ge> length buf")
    case True
    have f: "writeByte_at (soff s - 3) 0 s = Inr (s\<lparr>sbuf := hdr @ body @ [0, x, y]\<rparr>)"
      using n(1) by (simp add: s writeByte_at_def writePrimitiveTo_def memcpy_into_def le_bytes_def buf nat_int_add)
    show ?thesis using True n hdr f body
      by (intro exI [of _ False]) (simp add: proto_compress_def Let_def s)
  next
    case False
    then have c: "?out = deflate body" by (auto simp: min_def split: if_splits)
    have "proto_compress deflate s = Inr (True, st_reset (at_pos (hdr @ deflate body @ [1] @ [x, y]) []))"
      using False n hdr body c last first rebuild_eq [of "crypt_header buf" buf "deflate body" s]
      by (simp add: proto_compress_def Let_def s)
    then show ?thesis using False c by (intro exI [of _ True]) (simp add: not_le)
  qed
qed

lemma decompress_eq:
  assumes zlib: "zlib_ok deflate inflate" and buf: "buf = hdr @ deflate body @ [1, x, y]" and hdr: "length hdr = crypt_header buf" and small: "length body \<le> 800"
    and ne: "2 \<le> length hdr + length body"
  shows "\<exists>s'. proto_decompress inflate (s\<lparr>sbuf := buf\<rparr>) = Inr s' \<and> sbuf s' = hdr @ body @ [1, x, y] \<and> soff s' = 2"
proof -
  have n: "length buf = length hdr + length (deflate body) + 3" using buf by simp
  have b: "take (length buf - crypt_header buf - 3) (drop (crypt_header buf) buf) = deflate body"
    using hdr n by (simp add: buf hdr [symmetric])
  have last: "drop (length buf - 2) buf = [x, y]" by (simp add: buf)
  have first: "take (crypt_header buf) buf = hdr" using hdr buf by (metis append_eq_conv_conj)
  have "inflate 800 (deflate body) = body" using zlib small by (simp add: zlib_ok_def)
  then show ?thesis
    using n hdr b last first rebuild_eq [of "crypt_header buf" buf body "s\<lparr>sbuf := buf\<rparr>"] ne
    by (simp add: proto_decompress_def Let_def COMPRESSION_BUFFER_MAX_def st_setOffset_def)
qed

subsection \<open>Sending and receiving\<close>

lemma sealed:
  assumes cl: "3 \<le> length B" "0 < crypt_length B" and max: "length B \<le> 32769"
  shows "\<exists>e c. proto_encrypt k B True = Inr e \<and> appendCRC k 2 e = Inr (take (length B - 2) e @ c) \<and> length c = 2 \<and>
    length e = length B \<and> take (crypt_header B) e = take (crypt_header B) B \<and> testCRC k 2 (take (length B - 2) e @ c) = Inr True \<and>
    proto_decrypt k (take (length B - 2) e @ c) = take (length B - 2) B @ c"
proof -
  obtain e where e: "proto_encrypt k B True = Inr e" "length e = length B" "take (crypt_header B) e = take (crypt_header B) B"
    using crypt_split [OF cl, of "[0, 0]" k] by auto
  define c where "c = crc_bytes 2 (crc32 (seed_bytes k @ take (length B - 2) e))"
  have "length (take (length B - 2) e) \<le> 32767" using e(2) max by simp
  from testCRC_iff [OF this, of c k] have "testCRC k 2 (take (length B - 2) e @ c) = Inr True" by (simp add: c_def)
  moreover have "proto_decrypt k (take (length B - 2) e @ c) = take (length B - 2) B @ c"
    using crypt_split [OF cl, of c k] e(1) by (auto simp: c_def)
  ultimately show ?thesis
    using e appendCRC_eq [of e k] assms by (intro exI [of _ e] exI [of _ c]) (simp add: c_def)
qed

lemma parse_flag: "st_size s = int (length X) + 3 \<Longrightarrow> sbuf s = X @ [f, x, y] \<Longrightarrow> parseByte_at (st_size s - 3) s = Inr f"
  by (simp add: parseByte_at_def readByte_at_def read_word_at_def readPrimitiveFrom_def)

lemma remove_trailer: "sbuf s = X @ [f, x, y] \<Longrightarrow> \<exists>s'. st_removeLastBytes 3 s = Inr s' \<and> sbuf s' = X \<and> soff s' = soff s"
  by (simp add: st_removeLastBytes_def st_size_def st_setSize_def)

lemma split_last2: "length c = 2 \<Longrightarrow> \<exists>x y. c = [x, y]"
  by (auto simp: numeral_2_eq_2 length_Suc_conv)

lemma receive_frame:
  assumes B: "B = X @ [f, x, y]"
    and w: "testCRC (crcSeed pr) 2 (sbuf s) = Inr True" "proto_decrypt (crcSeed pr) (sbuf s) = take (length B - 2) B @ c" "length c = 2"
    and d: "f = 1 \<Longrightarrow> \<exists>s'. proto_decompress inflate (s\<lparr>sbuf := X @ (1 # c)\<rparr>) = Inr s' \<and> sbuf s' = Y @ (1 # c) \<and> soff s' = 2"
    and nd: "f \<noteq> 1 \<Longrightarrow> Y = X"
  shows "\<exists>s'. processRecieve inflate pr s = Inr (True, s') \<and> sbuf s' = Y \<and> (soff s = 2 \<longrightarrow> soff s' = 2)"
proof -
  obtain a b where c: "c = [a, b]" using split_last2 [OF w(3)] by blast
  let ?s = "s\<lparr>sbuf := X @ [f, a, b]\<rparr>"
  have dec: "proto_decrypt (crcSeed pr) (sbuf s) = X @ [f, a, b]" using w(2) B c by simp
  have sz: "st_size ?s = int (length X) + 3" by (simp add: st_size_def)
  then have fl: "parseByte_at (st_size ?s - 3) ?s = Inr f" by (rule parse_flag) simp
  have "\<exists>s1 g. (if f = 1 then proto_decompress inflate ?s else Inr ?s) = Inr s1 \<and> sbuf s1 = Y @ [g, a, b] \<and> (soff s = 2 \<longrightarrow> soff s1 = 2)"
    using d nd c by (cases "f = 1") auto
  then obtain s1 g where s1: "(if f = 1 then proto_decompress inflate ?s else Inr ?s) = Inr s1" "sbuf s1 = Y @ [g, a, b]"
    "soff s = 2 \<longrightarrow> soff s1 = 2" by blast
  obtain s2 where "st_removeLastBytes 3 s1 = Inr s2" "sbuf s2 = Y" "soff s2 = soff s1" using remove_trailer [OF s1(2)] by blast
  then show ?thesis using w(1) sz fl s1(1,3) by (simp add: processRecieve_def Let_def dec)
qed

text \<open>What \<open>close\<close> and \<open>setSequence\<close> make of a payload.\<close>

definition numbered :: "bool \<Rightarrow> 32 word \<Rightarrow> byte list \<Rightarrow> byte list" where
  "numbered b seq payload =
     (if b then memcpy_into payload 2 (rev (le_bytes 2 (unat (ucast seq :: 16 word)))) else payload)"

lemma length_numbered [simp]: "4 \<le> length P \<Longrightarrow> length (numbered b seq P) = length P"
  by (simp add: numbered_def)

lemma hd_numbered: "4 \<le> length P \<Longrightarrow> hd (numbered b seq P) = hd P"
  by (cases P) (auto simp: numbered_def memcpy_into_def take_Cons')

lemma prepareSequence_eq:
  assumes "bstream p = at_pos P []" "4 \<le> length P"
  shows "\<exists>p' fl. prepareSequence pr p =
      Inr (if doSeq p then pr\<lparr>serverSequence := serverSequence pr + 1\<rparr> else pr, p') \<and>
    bstream p' = at_pos (numbered (doSeq p) (serverSequence pr) P @ [fl, 0, 0]) [] \<and>
    doEncr p' = doEncr p \<and> doCRCTest p' = doCRCTest p \<and> (doComp p' \<longrightarrow> doComp p) \<and> fl = (if doComp p' then 1 else 0)"
proof -
  define p1 where "p1 = (if st_size (bstream p) < 100 then p\<lparr>doComp := False\<rparr> else p)"
  let ?fl = "if doComp p1 then 1 else 0 :: byte"
  let ?s = "at_pos (P @ [?fl, 0, 0]) []"
  have p1: "bstream p1 = at_pos P []" "doSeq p1 = doSeq p" "doEncr p1 = doEncr p" "doCRCTest p1 = doCRCTest p" "doComp p1 \<longrightarrow> doComp p"
    using assms(1) by (simp_all add: p1_def)
  have close: "bp_close p = Inr (p1\<lparr>bstream := ?s\<rparr>)"
    unfolding bp_close_def Let_def p1_def [symmetric] using p1(1) by (simp add: insertByte_def le_bytes_def)
  have "insertShort_at 2 (htons (ucast (serverSequence pr))) ?s =
      Inr (at_pos (numbered True (serverSequence pr) P @ [?fl, 0, 0]) [])"
    using assms(2) by (auto simp: insertShort_at_def writeShort_at_def writePrimitiveTo_def numbered_def memcpy_into_def
        le_bytes_htons at_pos_def st_size_def)
  then show ?thesis
    using close p1 by (auto simp: prepareSequence_def bp_setSequence_def numbered_def)
qed

text \<open>The compression step of \<open>transform\<close> on a frame with header \<open>hdr\<close>: the frame it leaves.\<close>

lemma compress_step:
  assumes P: "P = hdr @ body" "length hdr = crypt_header P" "hdr \<noteq> []" "length P \<le> 32766" "doComp p \<Longrightarrow> length P \<le> 800"
    and p: "bstream p = at_pos (P @ [if doComp p then 1 else 0, 0, 0]) []"
  shows "\<exists>r f s1. (if doComp p then rbind (proto_compress deflate (bstream p)) (\<lambda>(_, s). Inr (p\<lparr>bstream := s\<rparr>)) else Inr p) =
      Inr (p\<lparr>bstream := s1\<rparr>) \<and> sbuf s1 = (hdr @ r) @ [f, 0, 0] \<and> length (hdr @ r) \<le> 32766 \<and>
    (if f = 1 then r = deflate body \<and> length body \<le> 800 else r = body)"
proof (cases "doComp p")
  case True
  have small: "length body \<le> 800" using P(1) P(5) [OF True] by simp
  have b: "bstream p = at_pos (hdr @ body @ [1, 0, 0]) []" using p P(1) True by simp
  have ch: "length hdr = crypt_header (hdr @ body @ [1, 0, 0])" using P(1-3) by (simp add: crypt_header_def)
  obtain q s' where q: "proto_compress deflate (bstream p) = Inr (q, s')"
    "if q then sbuf s' = hdr @ deflate body @ [1, 0, 0] \<and> length (deflate body) + 3 < length (hdr @ body @ [1, 0, 0])
     else sbuf s' = hdr @ body @ [0, 0, 0]"
    using compress_cases [OF refl ch small b, of deflate] by blast
  show ?thesis
  proof (cases q)
    case True
    have "length (hdr @ deflate body) \<le> 32766"
      using q(2) True P(1,2) P(5) [OF \<open>doComp p\<close>] by (auto simp: crypt_header_def split: if_splits)
    then show ?thesis using \<open>doComp p\<close> q True small
      by (intro exI [of _ "deflate body"] exI [of _ 1] exI [of _ s']) simp
  next
    case False
    then show ?thesis using \<open>doComp p\<close> q P(1,4) by (intro exI [of _ body] exI [of _ 0] exI [of _ s']) simp
  qed
next
  case False
  then show ?thesis using p P(1,4) by (intro exI [of _ body] exI [of _ 0] exI [of _ "bstream p"]) simp
qed

text \<open>The buffer that leaves \<open>transform\<close> is the sealed form of a frame that decodes to the payload.\<close>

lemma transform_frame:
  assumes z: "zlib_ok deflate inflate" and P: "4 \<le> length P" "length P \<le> 32766" "doComp p \<Longrightarrow> length P \<le> 800"
    and p: "bstream p = at_pos (P @ [if doComp p then 1 else 0, 0, 0]) []" "doEncr p" "doCRCTest p"
    and pr: "crcSeed pr2 = crcSeed pr"
  shows "\<exists>p'. transform deflate pr p = Inr p' \<and> take (crypt_header P) (sbuf (bstream p')) = take (crypt_header P) P \<and>
    (\<forall>s. sbuf s = sbuf (bstream p') \<longrightarrow>
       (\<exists>s'. processRecieve inflate pr2 s = Inr (True, s') \<and> sbuf s' = P \<and> (soff s = 2 \<longrightarrow> soff s' = 2)))"
proof -
  let ?k = "crcSeed pr" and ?h = "crypt_header P"
  define hdr where "hdr = take ?h P"
  define body where "body = drop ?h P"
  have h: "1 \<le> ?h" "?h \<le> 2" by (simp_all add: crypt_header_def)
  have hb: "P = hdr @ body" "length hdr = ?h" "hdr \<noteq> []" "hd hdr = hd P"
    using h P(1) by (auto simp: hdr_def body_def hd_take)
  have ch: "crypt_header (hdr @ r) = length hdr" for r using hb(2-4) by (simp add: crypt_header_def)
  obtain r f s1 where s1: "(if doComp p then rbind (proto_compress deflate (bstream p)) (\<lambda>(_, s). Inr (p\<lparr>bstream := s\<rparr>)) else Inr p) =
      Inr (p\<lparr>bstream := s1\<rparr>)" "sbuf s1 = (hdr @ r) @ [f, 0, 0]" "length (hdr @ r) \<le> 32766"
    "if f = 1 then r = deflate body \<and> length body \<le> 800 else r = body"
    using compress_step [OF hb(1-3) P(2,3) p(1), of deflate] by blast
  let ?B = "(hdr @ r) @ [f, 0, 0]"
  have cl: "3 \<le> length ?B" "0 < crypt_length ?B" "length ?B \<le> 32769"
    using s1(3) ch [of "r @ [f, 0, 0]"] by (simp_all add: crypt_length_header)
  obtain e c where e: "proto_encrypt ?k ?B True = Inr e" "appendCRC ?k 2 e = Inr (take (length ?B - 2) e @ c)" "length c = 2"
    "testCRC ?k 2 (take (length ?B - 2) e @ c) = Inr True" "proto_decrypt ?k (take (length ?B - 2) e @ c) = take (length ?B - 2) ?B @ c"
    "length e = length ?B" "take (crypt_header ?B) e = take (crypt_header ?B) ?B"
    using sealed [OF cl, of ?k] by blast
  let ?p' = "p\<lparr>bstream := s1\<lparr>sbuf := take (length ?B - 2) e @ c\<rparr>\<rparr>"
  have "transform deflate pr p = Inr ?p'"
    unfolding transform_def s1(1) using p(2,3) e(1,2) s1(2) by (simp add: with_buffer_def)
  moreover have "take ?h (sbuf (bstream ?p')) = take ?h P"
  proof -
    have "take ?h e = hdr" using e(7) ch [of "r @ [f, 0, 0]"] hb(2) by simp
    then show ?thesis using hb(1,2) e(6) by simp
  qed
  moreover have "\<exists>s'. processRecieve inflate pr2 s = Inr (True, s') \<and> sbuf s' = P \<and> (soff s = 2 \<longrightarrow> soff s' = 2)" if s: "sbuf s = sbuf (bstream ?p')" for s
  proof (rule receive_frame [OF refl [of ?B]])
    show "testCRC (crcSeed pr2) 2 (sbuf s) = Inr True" "proto_decrypt (crcSeed pr2) (sbuf s) = take (length ?B - 2) ?B @ c"
      "length c = 2" using e s pr by simp_all
    obtain a b where c: "c = [a, b]" using split_last2 [OF e(3)] by blast
    show "\<exists>s'. proto_decompress inflate (s\<lparr>sbuf := (hdr @ r) @ (1 # c)\<rparr>) = Inr s' \<and> sbuf s' = P @ (1 # c) \<and> soff s' = 2" if "f = 1"
      using decompress_eq [OF z refl, of hdr body a b s] ch s1(4) that c hb(1) P(1) by auto
    show "P = hdr @ r" if "f \<noteq> 1" using that s1(4) hb(1) by simp
  qed
  ultimately show ?thesis by blast
qed

subsection \<open>Properties\<close>

text \<open>
  C3. What is sent is what is received: for any session seed, a packet of at least four and at
  most 32766 bytes that goes through \<open>prepareSend\<close> (trailer, sequence number, compression,
  encryption, checksum) is accepted by \<open>processRecieve\<close> with the same seed, which gives
  back exactly the payload with the sequence number in bytes two and three; the sequence
  counter is advanced by one for a sequenced packet, modulo \<open>2 ^ 32\<close>. Packets to be
  compressed are at most 800 bytes long (\<open>COMPRESSION_BUFFER_MAX\<close>).
\<close>

theorem protocol_roundtrip:
  assumes "zlib_ok deflate inflate" "bstream p = at_pos payload []" "4 \<le> length payload" "length payload \<le> 32766"
    and "doComp p \<longrightarrow> length payload \<le> 800" "doEncr p" "doCRCTest p" "crcSeed pr2 = crcSeed pr"
  shows "\<exists>pr' p'. prepareSend disableCompression False deflate pr p = Inr (pr', p') \<and>
    serverSequence pr' = serverSequence pr + (if doSeq p then 1 else 0) \<and>
    (\<forall>s. sbuf s = sbuf (bstream p') \<longrightarrow> (\<exists>s'. processRecieve inflate pr2 s = Inr (True, s') \<and>
       sbuf s' = numbered (doSeq p) (serverSequence pr) payload))"
proof -
  define q where "q = (if disableCompression \<and> doComp p then p\<lparr>doComp := False\<rparr> else p)"
  have q: "bstream q = at_pos payload []" "doSeq q = doSeq p" "doEncr q" "doCRCTest q" "doComp q \<longrightarrow> length payload \<le> 800"
    using assms by (auto simp: q_def)
  let ?P = "numbered (doSeq p) (serverSequence pr) payload"
  let ?pr = "if doSeq p then pr\<lparr>serverSequence := serverSequence pr + 1\<rparr> else pr"
  obtain p1 where p1: "prepareSequence pr q = Inr (?pr, p1)" "bstream p1 = at_pos (?P @ [if doComp p1 then 1 else 0, 0, 0]) []"
    "doEncr p1" "doCRCTest p1" "doComp p1 \<longrightarrow> doComp q"
    using prepareSequence_eq [OF q(1) assms(3), of pr] q(2-4) by auto
  have seed: "crcSeed pr2 = crcSeed ?pr" using assms(8) by simp
  have len: "4 \<le> length ?P" "length ?P \<le> 32766" "doComp p1 \<Longrightarrow> length ?P \<le> 800" using assms(3,4) p1(5) q(5) by auto
  obtain p' where "transform deflate ?pr p1 = Inr p'"
    "\<forall>s. sbuf s = sbuf (bstream p') \<longrightarrow> (\<exists>s'. processRecieve inflate pr2 s = Inr (True, s') \<and> sbuf s' = ?P)"
    using transform_frame [OF assms(1) len p1(2-4) seed] by blast
  moreover have "prepareSend disableCompression False deflate pr p = rbind (prepareSequence pr q) (\<lambda>(pr, p). rbind (transform deflate pr p) (\<lambda>p. Inr (pr, p)))"
    by (simp add: prepareSend_def q_def Let_def)
  ultimately show ?thesis using p1(1) by simp
qed

text \<open>
  A received packet is accepted exactly when its last two bytes are the low 16 bits of the
  CRC-32 of the seed and the rest, most significant first; any other packet of the same
  body is rejected unchanged.
\<close>

lemma testCRC_sound_complete:
  assumes "length body \<le> 32767" "length t = 2"
  shows "testCRC seed 2 (body @ t) = Inr (t = [ucast (drop_bit 8 (crc32 (seed_bytes seed @ body))), ucast (crc32 (seed_bytes seed @ body))])"
  using testCRC_iff [OF assms, of seed] by (simp add: crc_bytes_2)

text \<open>
  A three-byte packet whose first byte is 1 and whose checksum is right drives
  \<open>processRecieve\<close> into undefined behaviour: the first byte doubles as the compression flag,
  and the number of bytes handed to \<open>inflate\<close> is \<open>3 - 1 - 3\<close>, converted to almost 4 GB.
\<close>

lemma short_packet_inflates_out_of_bounds:
  assumes "sbuf s = 1 # crc_bytes 2 (crc32 (seed_bytes (crcSeed pr) @ [1]))"
  shows "processRecieve inflate pr s = Inl Undefined"
proof -
  let ?c = "crc_bytes 2 (crc32 (seed_bytes (crcSeed pr) @ [1]))"
  have "testCRC (crcSeed pr) 2 (sbuf s) = Inr True" using testCRC_iff [of "[1]" ?c "crcSeed pr"] assms by simp
  moreover have "proto_decrypt (crcSeed pr) (sbuf s) = 1 # ?c"
    by (simp add: proto_decrypt_def Let_def crypt_length_def assms)
  moreover have "proto_decompress inflate (s\<lparr>sbuf := 1 # ?c\<rparr>) = Inl Undefined"
    by (simp add: proto_decompress_def Let_def crypt_header_def)
  moreover have "parseByte_at 0 (s\<lparr>sbuf := 1 # ?c\<rparr>) = Inr 1"
    by (simp add: parseByte_at_def readByte_at_def read_word_at_def readPrimitiveFrom_def st_size_def)
  ultimately show ?thesis by (simp add: processRecieve_def Let_def st_size_def)
qed

subsection \<open>Instances\<close>

definition demo_protocol :: base_protocol where
  "demo_protocol = \<lparr>connectionID = 1, crcSeed = 0xDEADBEEF, serverSequence = 7, clientSequence = 0\<rparr>"

definition demo_packet :: base_packet where
  "demo_packet = bp_new\<lparr>bstream := at_pos [0, 9, 0, 0, 65] []\<rparr>"

theorem protocol_roundtrip_witness:
  "\<exists>pr' p'. prepareSend True False (\<lambda>x. x) demo_protocol demo_packet = Inr (pr', p') \<and> serverSequence pr' = 8 \<and>
    (\<exists>s'. processRecieve (\<lambda>n x. take n x) demo_protocol (bstream p') = Inr (True, s') \<and> sbuf s' = [0, 9, 0, 7, 65])"
proof -
  have n: "numbered True 7 [0, 9, 0, 0, 65] = [0, 9, 0, 7, 65]"
    by (simp add: numbered_def memcpy_into_def le_bytes_def upt_rec)
  show ?thesis
    using protocol_roundtrip [OF zlib_ok_stored, of demo_packet "[0, 9, 0, 0, 65]" demo_protocol demo_protocol True] n
    by (auto simp: demo_packet_def bp_new_def demo_protocol_def)
qed

lemma testCRC_sound_complete_witness:
  "testCRC 5 2 ([1, 2, 3] @ [9, 9]) = Inr ([9, 9 :: byte] = [ucast (drop_bit 8 (crc32 (seed_bytes 5 @ [1, 2, 3]))), ucast (crc32 (seed_bytes 5 @ [1, 2, 3]))])"
  using testCRC_sound_complete [of "[1, 2, 3]" "[9, 9]" 5] by simp

lemma short_packet_inflates_out_of_bounds_witness:
  "processRecieve (\<lambda>n x. take n x) demo_protocol
     \<lparr>sbuf = 1 # crc_bytes 2 (crc32 (seed_bytes (crcSeed demo_protocol) @ [1])), soff = 0\<rparr> = Inl Undefined"
  by (rule short_packet_inflates_out_of_bounds) simp

end
