(* ===== verification/Fragments.thy ===== *)
theory Fragments
  imports Protocol
begin

text \<open>
  How application messages are mapped to packets and back
  (\<^verbatim>\<open>engine/service/proto/BaseMessage.h\<close>, \<^verbatim>\<open>BaseFragmentedPacket.cpp\<close>, \<^verbatim>\<open>BaseMultiPacket.cpp\<close>,
  \<^verbatim>\<open>BasePacketHandler::handleDataChannelPacket\<close>): a message that does not fit a datagram is cut
  into fragments, small messages are collected into a multi packet, and the receiving side
  reassembles and splits them again. The messages handed to \<open>processMessage\<close> are
  collected in a list.
\<close>

subsection \<open>Messages\<close>

definition base_message :: base_packet where
  "base_message = bp_new\<lparr>bstream := at_pos [0, 9, 0, 0] []\<rparr>"

text \<open>\<open>BaseMessage(pack, start)\<close> and \<open>BaseMessage(pack, startoffs, endoffs)\<close>: a copy of a slice.\<close>

definition bm_from :: "stream \<Rightarrow> int \<Rightarrow> base_packet res" where
  "bm_from pack start =
     rbind (bp_new_size (st_size pack - start)) (\<lambda>p.
     if start < 0 then Inl (PacketIndexOutOfBoundsException start)
     else Inr (p\<lparr>bstream := at_pos [] (drop (nat start) (sbuf pack))\<rparr>))"

definition bm_slice :: "stream \<Rightarrow> int \<Rightarrow> int \<Rightarrow> base_packet res" where
  "bm_slice pack startoffs endoffs =
     rbind (bp_new_size (endoffs - startoffs)) (\<lambda>p.
     if startoffs < 0 then Inl (PacketIndexOutOfBoundsException startoffs)
     else if endoffs > st_size pack then Inl (PacketIndexOutOfBoundsException endoffs)
     else Inr (p\<lparr>bstream := at_pos [] (take (nat (endoffs - startoffs)) (drop (nat startoffs) (sbuf pack)))\<rparr>))"

subsection \<open>Fragmentation\<close>

record frag_packet =
  fstream :: stream
  singlePacket :: "byte list option"
  totalSize :: int
  ferrors :: nat

definition MAX_COMPLETE_FRAG_SIZE :: int where "MAX_COMPLETE_FRAG_SIZE = 1500000"

definition frag_new :: frag_packet where
  "frag_new = \<lparr>fstream = pk_new, singlePacket = None, totalSize = 0, ferrors = 0\<rparr>"

definition frag_of :: "byte list \<Rightarrow> frag_packet" where
  "frag_of pack = frag_new\<lparr>singlePacket := Some pack\<rparr>"

definition addError :: "frag_packet \<Rightarrow> frag_packet" where
  "addError f = f\<lparr>ferrors := Suc (ferrors f)\<rparr>"

definition frag_hasError :: "frag_packet \<Rightarrow> bool" where
  "frag_hasError f \<longleftrightarrow> ferrors f = 0"

text \<open>\<open>addFragment\<close>: the first fragment carries the total size. Returns also what is left of the input.\<close>

definition addFragment_size :: "stream \<Rightarrow> frag_packet \<Rightarrow> (bool \<times> stream \<times> frag_packet) res" where
  "addFragment_size pack f =
     (if totalSize f = 0 then
        rbind (parseNetInt pack) (\<lambda>(v, pack').
        let f' = f\<lparr>totalSize := sint v\<rparr> in
        if totalSize f' < 0 \<or> totalSize f' > MAX_COMPLETE_FRAG_SIZE then Inr (False, pack', addError f')
        else if totalSize f' = 0 then Inr (False, pack', addError f')
        else Inr (True, pack', f'))
      else Inr (True, pack, f))"

definition addFragment :: "stream \<Rightarrow> frag_packet \<Rightarrow> (bool \<times> stream \<times> frag_packet) res" where
  "addFragment pack f =
     rbind (addFragment_size pack f) (\<lambda>(ok, pack, f).
     if \<not> ok then Inr (False, pack, f)
     else
       let packetOffset = soff pack;
           avail = st_size pack - packetOffset;
           readBytes = (if avail + st_size (fstream f) > totalSize f then totalSize f - st_size (fstream f) else avail) in
       if readBytes < 0 then Inr (False, pack, addError f)
       else if packetOffset < 0 then Inl Undefined
       else rbind (insertStream (take (nat readBytes) (drop (nat packetOffset) (sbuf pack))) (fstream f)) (\<lambda>s.
         Inr (True, pack, f\<lparr>fstream := s\<rparr>)))"

definition isComplete :: "frag_packet \<Rightarrow> bool res" where
  "isComplete f =
     (let currentSize = st_size (fstream f) in
      if currentSize < totalSize f then Inr False
      else if currentSize = totalSize f then Inr True
      else Inl (GenericException ''fragmented packet exceeded size''))"

definition hasFragments :: "frag_packet \<Rightarrow> bool res" where
  "hasFragments f = (case singlePacket f of None \<Rightarrow> Inl Undefined | Some p \<Rightarrow> Inr (totalSize f < int (length p)))"

definition getFragment :: "frag_packet \<Rightarrow> (base_packet \<times> frag_packet) res" where
  "getFragment f =
     (case singlePacket f of
        None \<Rightarrow> Inl Undefined
      | Some p \<Rightarrow>
          rbind (insertShort 0x0D00 (bstream bp_new)) (\<lambda>s.
          rbind (insertShort 0 s) (\<lambda>s.
          rbind (if totalSize f = 0
                 then rbind (insertIntNet (word_of_int (int (length p) - 4)) s) (\<lambda>s. Inr (s, 4, 496 - 8 - 3))
                 else Inr (s, totalSize f, min (496 - 4 - 3) (int (length p) - totalSize f))) (\<lambda>(s, off, fragsize).
          if 0 \<le> fragsize \<and> 0 \<le> off \<and> off + fragsize \<le> int (length p) then
            rbind (insertStream (take (nat fragsize) (drop (nat off) p)) s) (\<lambda>s.
            Inr (bp_new\<lparr>bstream := s, doComp := True\<rparr>, f\<lparr>totalSize := off + fragsize\<rparr>))
          else Inl Undefined))))"

text \<open>The loop of \<open>BaseClient::sendFragmented\<close>; every round takes at least one byte off the packet.\<close>

definition frag_header :: "byte list" where
  "frag_header = le_bytes 2 (unat (0x0D00 :: 16 word)) @ le_bytes 2 (unat (0 :: 16 word))"

lemma length_frag_header [simp]: "length frag_header = 4"
  by (simp add: frag_header_def)

lemma getFragment_first:
  assumes "singlePacket f = Some p" "totalSize f = 0" "489 \<le> length p"
  shows "getFragment f = Inr (bp_new\<lparr>bstream := at_pos (frag_header @ rev (le_bytes 4 (unat (word_of_int (int (length p) - 4) :: 32 word))) @
      take 485 (drop 4 p)) [], doComp := True\<rparr>, f\<lparr>totalSize := 489\<rparr>)"
  using assms by (simp add: getFragment_def bp_new_def pk_new_def st_new_at_pos insertShort_def insertIntNet_def insertStream_def
      frag_header_def le_bytes_htonl)

lemma getFragment_next:
  assumes "singlePacket f = Some p" "0 < totalSize f" "totalSize f \<le> int (length p)"
  shows "getFragment f = Inr (bp_new\<lparr>bstream := at_pos (frag_header @ take 489 (drop (nat (totalSize f)) p)) [], doComp := True\<rparr>,
      f\<lparr>totalSize := totalSize f + min 489 (int (length p) - totalSize f)\<rparr>)"
proof -
  have "take (nat (min 489 (int (length p) - totalSize f))) (drop (nat (totalSize f)) p) = take 489 (drop (nat (totalSize f)) p)"
    using assms(2,3) by (simp add: min_def nat_diff_distrib)
  then show ?thesis
    using assms by (simp add: getFragment_def bp_new_def pk_new_def st_new_at_pos insertShort_def insertStream_def frag_header_def)
qed

lemma getFragment_short:
  assumes "singlePacket f = Some p" "totalSize f = 0" "length p < 489"
  shows "getFragment f = Inl Undefined"
  using assms by (simp add: getFragment_def bp_new_def pk_new_def st_new_at_pos insertShort_def insertIntNet_def)

lemma getFragment_progress:
  assumes "hasFragments f = Inr True" "getFragment f = Inr (q, f')"
  shows "singlePacket f' = singlePacket f \<and> totalSize f < totalSize f'"
proof -
  obtain p where p: "singlePacket f = Some p" "totalSize f < int (length p)"
    using assms(1) by (auto simp: hasFragments_def split: option.splits)
  consider "totalSize f = 0" "length p < 489" | "totalSize f = 0" "489 \<le> length p" | "0 < totalSize f" | "totalSize f < 0" by linarith
  then show ?thesis
  proof cases
    case 4
    then have "getFragment f = Inl Undefined"
      using p by (simp add: getFragment_def bp_new_def pk_new_def st_new_at_pos insertShort_def)
    then show ?thesis using assms(2) by simp
  qed (use p assms(2) in \<open>auto simp: getFragment_first getFragment_next getFragment_short\<close>)
qed

function fragment_loop :: "frag_packet \<Rightarrow> base_packet list res" where
  "fragment_loop f =
     rbind (hasFragments f) (\<lambda>more.
     if more then rbind (getFragment f) (\<lambda>(q, f'). rbind (fragment_loop f') (\<lambda>qs. Inr (q # qs)))
     else Inr [])"
  by pat_completeness auto
termination
proof (relation "measure (\<lambda>f. case singlePacket f of None \<Rightarrow> 0 | Some p \<Rightarrow> nat (int (length p) - totalSize f))", goal_cases)
  case 1
  then show ?case by simp
next
  case (2 f more x q f')
  then have h: "hasFragments f = Inr True" "getFragment f = Inr (q, f')" by simp_all
  then obtain p where "singlePacket f = Some p" "totalSize f < int (length p)"
    by (auto simp: hasFragments_def split: option.splits)
  then show ?case using getFragment_progress [OF h] by simp
qed

declare fragment_loop.simps [simp del]

subsection \<open>Reassembly\<close>

text \<open>
  \<open>BaseClient::receiveFragmentedPacket\<close> on the client's \<open>fragmentedPacket\<close>: the completed packet,
  if any, and the new partial packet. A completed packet is rewound.
\<close>

definition receiveFragmentedPacket ::
  "stream \<Rightarrow> frag_packet option \<Rightarrow> (stream option \<times> frag_packet option) res" where
  "receiveFragmentedPacket pack fp =
     (let f = (case fp of None \<Rightarrow> frag_new | Some f \<Rightarrow> f) in
      rbind (addFragment pack f) (\<lambda>(ok, _, f).
      if \<not> ok then Inl (FragmentedPacketParseException ''could not insert frag'')
      else case isComplete f of
          Inr True \<Rightarrow> rbind (st_setOffset 0 (fstream f)) (\<lambda>s. Inr (Some s, None))
        | Inr False \<Rightarrow> Inr (None, Some f)
        | Inl _ \<Rightarrow> Inr (None, None)))"

subsection \<open>Multi packets\<close>

record multi_packet =
  mpacket :: base_packet
  msingle :: "base_packet option"

definition multi_new :: "base_packet \<Rightarrow> multi_packet" where
  "multi_new pack = \<lparr>mpacket = bp_new\<lparr>doSeq := True\<rparr>, msingle = Some pack\<rparr>"

definition insertPacket :: "base_packet \<Rightarrow> stream \<Rightarrow> stream res" where
  "insertPacket pack s =
     (let sz = st_size (bstream pack) - 4 in
      rbind (if sz \<ge> 0xFF then rbind (insertByte 0xFF s) (insertShortNet (word_of_int sz))
             else insertByte (word_of_int sz) s) (\<lambda>s.
      if sz < 0 then Inl Undefined
      else insertStream (take (nat sz) (drop 4 (sbuf (bstream pack)))) s))"

definition multi_open :: "multi_packet \<Rightarrow> multi_packet res" where
  "multi_open mp =
     (case msingle mp of
        None \<Rightarrow> Inr mp
      | Some sp \<Rightarrow>
          rbind (insertShort 0x0900 (bstream (mpacket mp))) (\<lambda>s.
          rbind (insertShort 0 s) (\<lambda>s. rbind (insertShort 0x1900 s) (\<lambda>s.
          rbind (insertPacket sp s) (\<lambda>s.
          Inr \<lparr>mpacket = (mpacket mp)\<lparr>bstream := s, doComp := doComp sp\<rparr>, msingle = None\<rparr>)))))"

definition multi_add :: "base_packet \<Rightarrow> multi_packet \<Rightarrow> (bool \<times> multi_packet) res" where
  "multi_add pack mp =
     rbind (multi_open mp) (\<lambda>mp.
     if st_size (bstream (mpacket mp)) + st_size (bstream pack) > 460 then Inr (False, mp)
     else rbind (insertPacket pack (bstream (mpacket mp))) (\<lambda>s.
       Inr (True, mp\<lparr>mpacket := (mpacket mp)\<lparr>bstream := s, doComp := doComp (mpacket mp) \<or> doComp pack\<rparr>\<rparr>)))"

definition multi_getPacket :: "multi_packet \<Rightarrow> base_packet" where
  "multi_getPacket mp = (case msingle mp of Some p \<Rightarrow> p | None \<Rightarrow> mpacket mp)"

text \<open>
  \<open>handleDataChannelPacket\<close>: the messages that are processed and, when an exception ends the
  loop, the exception; messages processed before it stay processed.
\<close>

definition data_block :: "stream \<Rightarrow> (byte list \<times> stream) res" where
  "data_block pack =
     rbind (parseByte pack) (\<lambda>(b, pack).
     rbind (if b = 0xFF then parseNetShort pack else Inr (ucast b, pack)) (\<lambda>(blockSize, pack).
     rbind (bm_slice pack (soff pack) (soff pack + uint blockSize)) (\<lambda>msg.
     rbind (st_shiftOffset (uint blockSize) pack) (\<lambda>pack. Inr (sbuf (bstream msg), pack)))))"

lemma data_block_progress:
  "data_block pack = Inr (msg, pack') \<Longrightarrow> sbuf pack' = sbuf pack \<and> soff pack < soff pack'"
proof -
  assume "data_block pack = Inr (msg, pack')"
  then obtain b p1 blockSize p2 m where
    s: "parseByte pack = Inr (b, p1)" "(if b = 0xFF then parseNetShort p1 else Inr (ucast b, p1)) = Inr (blockSize, p2)"
      "st_shiftOffset (uint blockSize) p2 = Inr pack'"
    by (auto simp: data_block_def rbind_eq_Inr_iff)
  have "sbuf p1 = sbuf pack" "soff p1 = soff pack + 1"
    using s(1) by (auto simp: parseByte_def readByte_def read_word_def readPrimitive_def st_take_bytes_def st_shiftOffset_def
        rbind_eq_Inr_iff split: if_splits)
  moreover have "sbuf p2 = sbuf p1" "soff p1 \<le> soff p2"
    using s(2) by (auto simp: parseNetShort_def readShort_def read_word_def readPrimitive_def st_take_bytes_def st_shiftOffset_def
        rbind_eq_Inr_iff split: if_splits)
  moreover have "sbuf pack' = sbuf p2" "soff p2 \<le> soff pack'"
    using s(3) by (auto simp: st_shiftOffset_def split: if_splits)
  ultimately show ?thesis by simp
qed

function data_channel_loop :: "stream \<Rightarrow> byte list list \<times> err option" where
  "data_channel_loop pack =
     (if st_hasData pack then
        case data_block pack of
          Inl e \<Rightarrow> ([], Some e)
        | Inr (msg, pack') \<Rightarrow> (let (msgs, e) = data_channel_loop pack' in (msg # msgs, e))
      else ([], None))"
  by pat_completeness auto
termination
  by (relation "measure (\<lambda>s. nat (st_size s - soff s))")
     (auto simp: st_hasData_def st_size_def dest!: data_block_progress)

declare data_channel_loop.simps [simp del]

definition handleDataChannelPacket :: "stream \<Rightarrow> byte list list \<times> err option" where
  "handleDataChannelPacket pack =
     (case parseShort pack of
        Inl e \<Rightarrow> ([], Some e)
      | Inr (opCount, pack) \<Rightarrow>
          if opCount = 0x1900 then data_channel_loop pack
          else case bm_from pack (soff pack - 2) of
              Inl e \<Rightarrow> ([], Some e)
            | Inr msg \<Rightarrow> ([sbuf (bstream msg)], None))"

subsection \<open>Fragments carry the packet\<close>

function chunks :: "nat \<Rightarrow> 'a list \<Rightarrow> 'a list list" where
  "chunks n xs = (if n = 0 \<or> xs = [] then [] else take n xs # chunks n (drop n xs))"
  by pat_completeness auto
termination by (relation "measure (\<lambda>(n, xs). length xs)") auto

declare chunks.simps [simp del]

lemma chunks_Nil [simp]: "chunks n [] = []"
  by (simp add: chunks.simps)

lemma concat_chunks: "0 < n \<Longrightarrow> concat (chunks n xs) = xs"
  by (induction n xs rule: chunks.induct) (subst chunks.simps, simp)

lemma chunks_nonempty: "c \<in> set (chunks n xs) \<Longrightarrow> c \<noteq> [] \<and> length c \<le> n"
proof (induction n xs rule: chunks.induct)
  case (1 n xs)
  then show ?case by (subst (asm) (2) chunks.simps) (auto split: if_splits)
qed

definition frag_of_chunk :: "byte list \<Rightarrow> base_packet" where
  "frag_of_chunk c = bp_new\<lparr>bstream := at_pos (frag_header @ c) [], doComp := True\<rparr>"

lemma fragment_rest:
  "singlePacket f = Some p \<Longrightarrow> 0 < totalSize f \<Longrightarrow> totalSize f \<le> int (length p) \<Longrightarrow>
   fragment_loop f = Inr (map frag_of_chunk (chunks 489 (drop (nat (totalSize f)) p)))"
proof (induction f rule: fragment_loop.induct)
  case (1 f)
  let ?t = "totalSize f"
  have h: "hasFragments f = Inr (?t < int (length p))" using "1.prems" by (simp add: hasFragments_def)
  show ?case
  proof (cases "?t < int (length p)")
    case False
    then show ?thesis using "1.prems" h by (subst fragment_loop.simps) simp
  next
    case True
    let ?f = "f\<lparr>totalSize := ?t + min 489 (int (length p) - ?t)\<rparr>"
    have g: "getFragment f = Inr (frag_of_chunk (take 489 (drop (nat ?t) p)), ?f)"
      using getFragment_next [OF "1.prems"] by (simp add: frag_of_chunk_def)
    have "fragment_loop ?f = Inr (map frag_of_chunk (chunks 489 (drop (nat (totalSize ?f)) p)))"
      using "1.IH" [of True _ "frag_of_chunk (take 489 (drop (nat ?t) p))" ?f] h True g "1.prems" by simp
    moreover have "drop (nat (totalSize ?f)) p = drop 489 (drop (nat ?t) p)"
      using "1.prems"(2,3) by (auto simp: min_def nat_add_distrib add.commute nat_diff_distrib)
    moreover have "drop (nat ?t) p \<noteq> []" using True "1.prems"(2) by simp
    ultimately show ?thesis using h True g by (subst fragment_loop.simps, subst chunks.simps) simp
  qed
qed

text \<open>The packet as it reaches \<open>handleFragmentedPacket\<close>: the cursor is behind opcode and sequence number.\<close>

definition arrival :: "base_packet \<Rightarrow> stream" where
  "arrival q = (bstream q)\<lparr>soff := 4\<rparr>"

fun receive_all :: "stream list \<Rightarrow> frag_packet option \<Rightarrow> (stream list \<times> frag_packet option) res" where
  "receive_all [] fp = Inr ([], fp)"
| "receive_all (pack # packs) fp =
     rbind (receiveFragmentedPacket pack fp) (\<lambda>(done, fp).
     rbind (receive_all packs fp) (\<lambda>(out, fp). Inr ((case done of None \<Rightarrow> out | Some p \<Rightarrow> p # out), fp)))"

lemma arrival_chunk: "arrival (frag_of_chunk c) = at_pos frag_header c"
  by (simp add: arrival_def frag_of_chunk_def at_pos_def)

definition partial :: "byte list \<Rightarrow> int \<Rightarrow> frag_packet" where
  "partial acc n = \<lparr>fstream = at_pos acc [], singlePacket = None, totalSize = n, ferrors = 0\<rparr>"

lemma receive_chunk:
  assumes "0 < n" "int (length acc + length c) \<le> n"
  shows "receiveFragmentedPacket (at_pos h c) (Some (partial acc n)) =
    (if int (length acc + length c) = n then Inr (Some (at_pos [] (acc @ c)), None) else Inr (None, Some (partial (acc @ c) n)))"
proof -
  have "addFragment (at_pos h c) (partial acc n) = Inr (True, at_pos h c, partial (acc @ c) n)"
    using assms by (simp add: addFragment_def addFragment_size_def partial_def insertStream_def)
  moreover have "st_setOffset 0 (at_pos (acc @ c) []) = Inr (at_pos [] (acc @ c))"
    by (simp add: st_setOffset_def at_pos_def st_size_def)
  ultimately show ?thesis
    using assms by (auto simp: receiveFragmentedPacket_def isComplete_def partial_def)
qed

lemma receive_rest:
  "\<forall>c \<in> set cs. c \<noteq> [] \<Longrightarrow> cs \<noteq> [] \<Longrightarrow> n = int (length (acc @ concat cs)) \<Longrightarrow>
   receive_all (map (at_pos h) cs) (Some (partial acc n)) = Inr ([at_pos [] (acc @ concat cs)], None)"
proof (induction cs arbitrary: acc)
  case Nil
  then show ?case by simp
next
  case (Cons c cs)
  have c: "0 < length c" using Cons.prems(1) by simp
  then have n: "0 < n" "int (length acc + length c) \<le> n"
    using Cons.prems(3) by (simp_all del: length_greater_0_conv)
  show ?case
  proof (cases "cs = []")
    case True
    then show ?thesis using receive_chunk [OF n, of h] Cons.prems(3) by simp
  next
    case False
    then have "concat cs \<noteq> []" using Cons.prems(1) by (cases cs) auto
    then have "int (length acc + length c) \<noteq> n" using Cons.prems(3) by auto
    then show ?thesis using receive_chunk [OF n, of h] Cons.IH [of "acc @ c"] Cons.prems False by simp
  qed
qed

lemma receive_first:
  assumes "0 < length d" "length d \<le> 1500000" "length c < length d"
  shows "receiveFragmentedPacket (at_pos h (rev (le_bytes 4 (length d)) @ c)) None = Inr (None, Some (partial c (int (length d))))"
proof -
  define v :: "32 word" where "v = word_of_nat (length d)"
  have u: "unat v = length d" "uint v = int (length d)" using assms(2) by (simp_all add: v_def word_of_nat_small)
  have sg: "sint v = int (length d)" using assms(2) u(2) by (simp add: sint_uint signed_take_bit_int_eq_self)
  let ?h = "h @ rev (le_bytes 4 (length d))"
  have "parseNetInt (at_pos h (rev (le_bytes 4 (length d)) @ c)) = Inr (v, at_pos ?h c)"
    using readInt_net [of h v c] by (simp add: parseNetInt_def u)
  then have "addFragment_size (at_pos h (rev (le_bytes 4 (length d)) @ c)) frag_new =
      Inr (True, at_pos ?h c, frag_new\<lparr>totalSize := int (length d)\<rparr>)"
    using assms(1,2) by (auto simp: addFragment_size_def frag_new_def sg MAX_COMPLETE_FRAG_SIZE_def)
  then have "addFragment (at_pos h (rev (le_bytes 4 (length d)) @ c)) frag_new = Inr (True, at_pos ?h c, partial c (int (length d)))"
    using assms(3) by (simp add: addFragment_def frag_new_def partial_def insertStream_def pk_new_def st_new_at_pos st_size_def)
  then show ?thesis using assms(3) by (simp add: receiveFragmentedPacket_def isComplete_def partial_def)
qed

subsection \<open>Multi packets carry their messages\<close>

definition body_of :: "base_packet \<Rightarrow> byte list" where
  "body_of p = drop 4 (sbuf (bstream p))"

definition block_bytes :: "byte list \<Rightarrow> byte list" where
  "block_bytes b = (if length b \<ge> 0xFF then 0xFF # rev (le_bytes 2 (length b)) else [word_of_nat (length b)]) @ b"

text \<open>The condition under which \<open>bufferMultiPacket\<close> merges a packet.\<close>

definition mergeable :: "base_packet \<Rightarrow> bool" where
  "mergeable p \<longleftrightarrow> bp_isDataChannelPacket p = Inr True \<and> bp_isMultiPacket p = Inr False \<and> st_size (bstream p) - 4 < 0xFF"

lemma mergeable_size: "mergeable p \<Longrightarrow> 6 \<le> length (sbuf (bstream p)) \<and> length (body_of p) < 255"
  by (auto simp: mergeable_def bp_isMultiPacket_def parseShort_at_def readShort_at_def read_word_at_def readPrimitiveFrom_def
      rbind_eq_Inr_iff st_size_def body_of_def split: if_splits)

lemma mergeable_not_multi:
  assumes "mergeable p"
  shows "word_of_nat (le_val (take 2 (body_of p))) \<noteq> (0x1900 :: 16 word)"
  using assms by (auto simp: mergeable_def bp_isMultiPacket_def parseShort_at_def readShort_at_def read_word_at_def
      readPrimitiveFrom_def rbind_eq_Inr_iff body_of_def split: if_splits)

lemma insertPacket_at:
  assumes "mergeable p"
  shows "insertPacket p (at_pos pre []) = Inr (at_pos (pre @ block_bytes (body_of p)) [])"
proof -
  let ?n = "length (body_of p)"
  have n: "st_size (bstream p) - 4 = int ?n" "?n < 65536" "drop 4 (sbuf (bstream p)) = body_of p"
    using mergeable_size [OF assms] by (auto simp: body_of_def st_size_def)
  have u: "unat (word_of_nat ?n :: 16 word) = ?n" using n(2) by (simp add: word_of_nat_small)
  have b: "insertByte x (at_pos q []) = Inr (at_pos (q @ [x]) [])" for x q
    using write_typed_at(2) [of x q] unfolding le_bytes_1 by (simp add: insertByte_def)
  have w: "insertShortNet (word_of_nat ?n) (at_pos q []) = Inr (at_pos (q @ rev (le_bytes 2 ?n)) [])" for q
    by (simp add: insertShortNet_def le_bytes_htons u)
  show ?thesis
  proof (cases "255 \<le> ?n")
    case True
    then show ?thesis using n(1,3) by (simp add: insertPacket_def Let_def block_bytes_def insertStream_def b w)
  next
    case False
    then show ?thesis using n(1,3) by (simp add: insertPacket_def Let_def block_bytes_def insertStream_def b)
  qed
qed

lemma parse_byte_cons: "parseByte (at_pos pre (b # rest)) = Inr (b, at_pos (pre @ [b]) rest)"
  using read_typed_at(1) [of pre b rest] by (simp add: parseByte_def le_bytes_1 [simplified])

lemma slice_at:
  "bm_slice (at_pos pre (b @ rest)) (int (length pre)) (int (length pre) + int (length b)) = Inr (bp_new\<lparr>bstream := at_pos [] b\<rparr>)"
  by (simp add: bm_slice_def bp_new_size_def)

lemma shift_at: "st_shiftOffset (int (length b)) (at_pos pre (b @ rest)) = Inr (at_pos (pre @ b) rest)"
  by (simp add: st_shiftOffset_def at_pos_def st_size_def)

lemma data_block_at:
  assumes "length b < 2 ^ 16"
  shows "data_block (at_pos pre (block_bytes b @ rest)) = Inr (b, at_pos (pre @ block_bytes b) rest)"
proof -
  define v :: "16 word" where "v = word_of_nat (length b)"
  have u: "unat v = length b" "uint v = int (length b)" using assms by (simp_all add: v_def word_of_nat_small)
  show ?thesis
  proof (cases "255 \<le> length b")
    case True
    let ?p = "(pre @ [255]) @ rev (le_bytes 2 (length b))"
    have "parseNetShort (at_pos (pre @ [255]) (rev (le_bytes 2 (length b)) @ b @ rest)) = Inr (v, at_pos ?p (b @ rest))"
      using readShort_net [of "pre @ [255]" v "b @ rest"] by (simp add: parseNetShort_def u)
    then show ?thesis
      using True slice_at [of ?p b rest] shift_at [of b ?p rest]
      by (simp add: data_block_def block_bytes_def parse_byte_cons u)
  next
    case False
    define w :: byte where "w = word_of_nat (length b)"
    have w: "unat w = length b" "uint w = int (length b)" using False by (simp_all add: w_def word_of_nat_small)
    then have "w \<noteq> 255" using False by auto
    moreover have "uint (ucast w :: 16 word) = int (length b)" using w(2) using False by (simp add: unsigned_ucast_eq take_bit_int_eq_self)
    ultimately show ?thesis
      using False slice_at [of "pre @ [w]" b rest] shift_at [of b "pre @ [w]" rest]
      by (simp add: data_block_def block_bytes_def parse_byte_cons w_def [symmetric])
  qed
qed

lemma data_channel_blocks:
  "\<forall>b \<in> set bs. length b < 2 ^ 16 \<Longrightarrow> data_channel_loop (at_pos pre (concat (map block_bytes bs))) = (bs, None)"
proof (induction bs arbitrary: pre)
  case Nil
  then show ?case by (simp add: data_channel_loop.simps st_hasData_def)
next
  case (Cons b bs)
  have "st_hasData (at_pos pre (block_bytes b @ concat (map block_bytes bs)))"
    by (simp add: st_hasData_def block_bytes_def)
  then show ?case using data_block_at [of b pre] Cons by (subst data_channel_loop.simps) simp
qed

definition multi_header :: "byte list" where
  "multi_header = le_bytes 2 (unat (0x0900 :: 16 word)) @ le_bytes 2 (unat (0 :: 16 word)) @ le_bytes 2 (unat (0x1900 :: 16 word))"

lemma multi_header_eq: "multi_header = [0, 9, 0, 0, 0, 25]"
  by (simp add: multi_header_def le_bytes_def upt_rec)

text \<open>The messages a multi packet under construction holds.\<close>

definition multi_holds :: "multi_packet \<Rightarrow> byte list list \<Rightarrow> bool" where
  "multi_holds mp bs \<longleftrightarrow>
     (case msingle mp of
        Some p \<Rightarrow> mergeable p \<and> bstream (mpacket mp) = at_pos [] [] \<and> bs = [body_of p]
      | None \<Rightarrow> bstream (mpacket mp) = at_pos (multi_header @ concat (map block_bytes bs)) [] \<and> (\<forall>b \<in> set bs. length b < 2 ^ 16))"

lemma multi_new_holds: "mergeable p \<Longrightarrow> multi_holds (multi_new p) [body_of p]"
  by (simp add: multi_holds_def multi_new_def bp_new_def pk_new_def st_new_at_pos)

lemma multi_open_holds:
  assumes "multi_holds mp bs"
  shows "\<exists>mp'. multi_open mp = Inr mp' \<and> msingle mp' = None \<and> multi_holds mp' bs"
proof (cases "msingle mp")
  case None
  then show ?thesis using assms by (simp add: multi_open_def)
next
  case (Some p)
  then have h: "mergeable p" "bstream (mpacket mp) = at_pos [] []" "bs = [body_of p]" using assms by (simp_all add: multi_holds_def)
  show ?thesis using Some h mergeable_size [OF h(1)]
    by (simp add: multi_open_def insertShort_def insertPacket_at multi_holds_def multi_header_def)
qed

text \<open>The size of a multi packet with the messages \<open>bs\<close>: six bytes of header, and one or three bytes for each length.\<close>

definition multi_size :: "byte list list \<Rightarrow> nat" where
  "multi_size bs = 6 + (\<Sum>b \<leftarrow> bs. length b + (if length b < 255 then 1 else 3))"

lemma length_multi: "length (multi_header @ concat (map block_bytes bs)) = multi_size bs"
  by (induction bs) (auto simp: multi_size_def multi_header_eq block_bytes_def)

lemma multi_add_holds:
  assumes "multi_holds mp bs" "mergeable p"
  shows "\<exists>ok mp'. multi_add p mp = Inr (ok, mp') \<and> (ok \<longleftrightarrow> multi_size bs + length (sbuf (bstream p)) \<le> 460) \<and>
    msingle mp' = None \<and> multi_holds mp' (if ok then bs @ [body_of p] else bs)"
proof -
  obtain mp1 where mp1: "multi_open mp = Inr mp1" "msingle mp1 = None" "multi_holds mp1 bs"
    using multi_open_holds [OF assms(1)] by blast
  then have st: "bstream (mpacket mp1) = at_pos (multi_header @ concat (map block_bytes bs)) []" "\<forall>b \<in> set bs. length b < 2 ^ 16"
    by (simp_all add: multi_holds_def)
  have sz: "st_size (bstream (mpacket mp1)) + st_size (bstream p) > 460 \<longleftrightarrow> \<not> multi_size bs + length (sbuf (bstream p)) \<le> 460"
    using length_multi [of bs] by (auto simp: st(1) st_size_def)
  show ?thesis
  proof (cases "st_size (bstream (mpacket mp1)) + st_size (bstream p) > 460")
    case True
    then show ?thesis using mp1 sz by (intro exI [of _ False]) (simp add: multi_add_def)
  next
    case False
    then show ?thesis using mp1(1,2) st mergeable_size [OF assms(2)] sz
      by (intro exI [of _ True]) (simp add: multi_add_def insertPacket_at [OF assms(2)] multi_holds_def)
  qed
qed

lemma multi_delivers:
  assumes "multi_holds mp bs"
  shows "handleDataChannelPacket (arrival (multi_getPacket mp)) = (bs, None)"
proof (cases "msingle mp")
  case None
  then have st: "bstream (mpacket mp) = at_pos (multi_header @ concat (map block_bytes bs)) []" "\<forall>b \<in> set bs. length b < 2 ^ 16"
    using assms by (simp_all add: multi_holds_def)
  let ?r = "concat (map block_bytes bs)" and ?h = "[0, 9, 0, 0] :: byte list"
  have "le_bytes 2 (unat (0x1900 :: 16 word)) = [0, 25]" by (simp add: le_bytes_def upt_rec)
  then have "parseShort (at_pos ?h ([0, 25] @ ?r)) = Inr (0x1900, at_pos (?h @ [0, 25]) ?r)"
    using read_typed_at(2) [of ?h "0x1900" ?r] by (simp add: parseShort_def)
  moreover have "arrival (multi_getPacket mp) = at_pos ?h ([0, 25] @ ?r)"
    using None st(1) by (simp add: arrival_def multi_getPacket_def multi_header_eq at_pos_def)
  ultimately show ?thesis using data_channel_blocks [OF st(2)] by (simp add: handleDataChannelPacket_def)
next
  case (Some p)
  then have h: "mergeable p" "bs = [body_of p]" using assms by (simp_all add: multi_holds_def)
  let ?b = "sbuf (bstream p)"
  have len: "6 \<le> length ?b" using mergeable_size [OF h(1)] by simp
  have "arrival p = at_pos (take 4 ?b) (body_of p)"
    using len by (cases "bstream p") (simp add: arrival_def at_pos_def body_of_def)
  then have "arrival p = at_pos (take 4 ?b) (take 2 (body_of p) @ drop 2 (body_of p))"
    by (simp only: append_take_drop_id)
  moreover have "length (take 2 (body_of p)) = 2" using len by (simp add: body_of_def)
  moreover define v :: "16 word" where "v = word_of_nat (le_val (take 2 (body_of p)))"
  ultimately have "parseShort (arrival p) = Inr (v, at_pos (take 4 ?b @ take 2 (body_of p)) (drop 2 (body_of p)))"
    by (simp add: parseShort_def readShort_def read_word_def readPrimitive_def del: append_take_drop_id)
  moreover have "v \<noteq> 0x1900" using mergeable_not_multi [OF h(1)] by (simp add: v_def)
  moreover have "take 4 ?b @ take 2 (body_of p) @ drop 2 (body_of p) = ?b"
    unfolding body_of_def by (simp only: append_take_drop_id)
  ultimately show ?thesis
    using Some h(2) len by (simp add: handleDataChannelPacket_def multi_getPacket_def bm_from_def bp_new_size_def body_of_def)
qed

subsection \<open>Safety of splitting\<close>

lemma bm_slice_cases:
  "(\<exists>e. bm_slice s a b = Inl e \<and> (\<exists>i. e = PacketIndexOutOfBoundsException i)) \<or>
   (0 \<le> a \<and> a \<le> b \<and> b \<le> st_size s \<and> bm_slice s a b = Inr (bp_new\<lparr>bstream := at_pos [] (take (nat (b - a)) (drop (nat a) (sbuf s)))\<rparr>))"
  by (auto simp: bm_slice_def bp_new_size_def)

definition index_error :: "err \<Rightarrow> bool" where
  "index_error e \<longleftrightarrow> (\<exists>i. e = StreamIndexOutOfBoundsException i \<or> e = PacketIndexOutOfBoundsException i)"

definition slice_of :: "byte list \<Rightarrow> byte list \<Rightarrow> bool" where
  "slice_of m buf \<longleftrightarrow> (\<exists>pre post. buf = pre @ m @ post)"

lemma slice_take_drop: "slice_of (take n (drop k xs)) xs"
proof -
  have "xs = take k xs @ take n (drop k xs) @ drop n (drop k xs)" by (simp only: append_take_drop_id)
  then show ?thesis unfolding slice_of_def by blast
qed

lemma data_block_safe:
  assumes "st_wf s"
  shows "(\<exists>e. data_block s = Inl e \<and> index_error e) \<or>
    (\<exists>m s'. data_block s = Inr (m, s') \<and> st_wf s' \<and> sbuf s' = sbuf s \<and> slice_of m (sbuf s))"
proof -
  have r1: "safe_read s (parseByte s)" using safe_typed(2) [OF assms] by (simp add: parseByte_def)
  show ?thesis
  proof (cases "parseByte s")
    case (Inl e)
    then show ?thesis using r1 by (auto simp: safe_read_def data_block_def index_error_def)
  next
    case (Inr p)
    then obtain b s1 where b: "parseByte s = Inr (b, s1)" by (cases p) auto
    then have s1: "st_wf s1" "sbuf s1 = sbuf s" using r1 by (auto simp: safe_read_def)
    let ?r = "if b = 0xFF then parseNetShort s1 else Inr (ucast b, s1)"
    have r2: "safe_read s1 ?r"
      using s1(1) by (auto simp: parseNetShort_def intro!: safe_bind [OF safe_typed(3)])
    show ?thesis
    proof (cases ?r)
      case (Inl e)
      then show ?thesis using r2 b by (auto simp: safe_read_def data_block_def index_error_def)
    next
      case (Inr q)
      then obtain n s2 where q: "?r = Inr (n, s2)" by (cases q) auto
      then have s2: "st_wf s2" "sbuf s2 = sbuf s" using r2 s1(2) by (auto simp: safe_read_def)
      show ?thesis
        using bm_slice_cases [of s2 "soff s2" "soff s2 + uint n"] s2 slice_take_drop
        by (auto simp: data_block_def b q st_shiftOffset_def index_error_def st_wf_def st_size_def simp del: split_paired_Ex)
    qed
  qed
qed

lemma data_channel_loop_safe:
  "st_wf s \<Longrightarrow> (case data_channel_loop s of (msgs, e) \<Rightarrow> (\<forall>m \<in> set msgs. slice_of m (sbuf s)) \<and> (\<forall>x. e = Some x \<longrightarrow> index_error x))"
proof (induction s rule: data_channel_loop.induct)
  case (1 s)
  show ?case
  proof (cases "st_hasData s")
    case False
    then show ?thesis by (simp add: data_channel_loop.simps)
  next
    case True
    from data_block_safe [OF "1.prems"] show ?thesis
    proof (elim disjE exE conjE)
      fix e assume "data_block s = Inl e" "index_error e"
      then show ?thesis using True by (simp add: data_channel_loop.simps)
    next
      fix m s' assume d: "data_block s = Inr (m, s')" "st_wf s'" "sbuf s' = sbuf s" "slice_of m (sbuf s)"
      have "case data_channel_loop s' of (msgs, e) \<Rightarrow> (\<forall>m \<in> set msgs. slice_of m (sbuf s')) \<and> (\<forall>x. e = Some x \<longrightarrow> index_error x)"
        using "1.IH" [OF True d(1) refl d(2)] .
      then show ?thesis using True d by (subst data_channel_loop.simps) (auto split: prod.splits)
    qed
  qed
qed

subsection \<open>Properties\<close>

text \<open>
  C30. Fragmentation is lossless: a packet of 490 to 1500004 bytes (the packets that
  \<open>sendPacket\<close> fragments and the receiver accepts) is cut into fragments that fit a datagram
  of 496 bytes with their trailer, and feeding the fragments in order to
  \<open>receiveFragmentedPacket\<close> yields exactly one packet, the original without its four header
  bytes, rewound, and leaves no partial packet behind.
\<close>

theorem fragmentation_roundtrip:
  assumes "490 \<le> length p" "length p \<le> 1500004"
  shows "\<exists>qs. fragment_loop (frag_of p) = Inr qs \<and> (\<forall>q \<in> set qs. length (sbuf (bstream q)) + 3 \<le> 496) \<and>
    receive_all (map arrival qs) None = Inr ([at_pos [] (drop 4 p)], None)"
proof -
  let ?d = "drop 4 p" and ?c = "take 485 (drop 4 p)" and ?cs = "chunks 489 (drop 489 p)"
  have u: "unat (word_of_int (int (length p) - 4) :: 32 word) = length ?d"
  proof -
    have "(word_of_int (int (length p) - 4) :: 32 word) = word_of_nat (length ?d)" using assms(1) by (simp add: of_nat_diff)
    then show ?thesis using assms word_of_nat_small(1) [of "length ?d", where 'w = 32] by simp
  qed
  define q0 where "q0 = bp_new\<lparr>bstream := at_pos (frag_header @ rev (le_bytes 4 (length ?d)) @ ?c) [], doComp := True\<rparr>"
  have g: "getFragment (frag_of p) = Inr (q0, (frag_of p)\<lparr>totalSize := 489\<rparr>)"
    using getFragment_first [of "frag_of p" p] assms(1) unfolding q0_def u by (simp add: frag_of_def frag_new_def)
  have "fragment_loop (frag_of p) = Inr (q0 # map frag_of_chunk ?cs)"
    using g fragment_rest [of "(frag_of p)\<lparr>totalSize := 489\<rparr>" p] assms(1)
    by (subst fragment_loop.simps) (auto simp: hasFragments_def frag_of_def frag_new_def)
  moreover have "\<forall>q \<in> set (q0 # map frag_of_chunk ?cs). length (sbuf (bstream q)) + 3 \<le> 496"
    using chunks_nonempty [of _ 489 "drop 489 p"] by (auto simp: q0_def frag_of_chunk_def)
  moreover have "receive_all (map arrival (q0 # map frag_of_chunk ?cs)) None = Inr ([at_pos [] ?d], None)"
  proof -
    have a: "arrival q0 = at_pos frag_header (rev (le_bytes 4 (length ?d)) @ ?c)" by (simp add: arrival_def q0_def at_pos_def)
    have f: "receiveFragmentedPacket (arrival q0) None = Inr (None, Some (partial ?c (int (length ?d))))"
      unfolding a using assms by (intro receive_first) simp_all
    have cc: "?c @ concat ?cs = ?d" using concat_chunks [of 489 "drop 489 p"] append_take_drop_id [of 485 ?d] by simp
    moreover have "?cs \<noteq> []" using assms(1) by (simp add: chunks.simps)
    ultimately have "receive_all (map (at_pos frag_header) ?cs) (Some (partial ?c (int (length ?d)))) = Inr ([at_pos [] ?d], None)"
      using receive_rest [of ?cs "int (length ?d)" ?c frag_header] chunks_nonempty [of _ 489 "drop 489 p"] by metis
    moreover have "arrival \<circ> frag_of_chunk = at_pos frag_header" by (simp add: fun_eq_iff arrival_chunk)
    ultimately show ?thesis using f by simp
  qed
  ultimately show ?thesis by blast
qed

text \<open>
  C35. Merging is lossless and ordered: adding a packet that \<open>bufferMultiPacket\<close> merges to a multi
  packet holding some messages appends its message exactly when the multi packet with its headers and the packet together have at most 460 bytes, and
  otherwise refuses it and leaves the messages unchanged; and in every such state the receiver's
  \<open>handleDataChannelPacket\<close> delivers exactly the messages held, in order.
\<close>

theorem multi_packet_roundtrip:
  assumes "multi_holds mp bs" "mergeable p"
  shows "\<exists>ok mp'. multi_add p mp = Inr (ok, mp') \<and> (ok \<longleftrightarrow> multi_size bs + length (sbuf (bstream p)) \<le> 460) \<and>
    multi_holds mp' (if ok then bs @ [body_of p] else bs) \<and>
    handleDataChannelPacket (arrival (multi_getPacket mp')) = (if ok then bs @ [body_of p] else bs, None)"
proof -
  obtain ok mp' where a: "multi_add p mp = Inr (ok, mp')" "ok \<longleftrightarrow> multi_size bs + length (sbuf (bstream p)) \<le> 460"
    "multi_holds mp' (if ok then bs @ [body_of p] else bs)"
    using multi_add_holds [OF assms] by blast
  from multi_delivers [OF a(3)] a show ?thesis by blast
qed

text \<open>
  Splitting a received data packet is safe on any bytes: the loop ends, every message it
  delivers is a contiguous part of the packet, and the only errors are the two index
  exceptions, raised before anything outside the packet is read.
\<close>

lemma data_channel_safe:
  assumes "0 \<le> soff s" "soff s \<le> st_size s"
  shows "case handleDataChannelPacket s of (msgs, e) \<Rightarrow>
    (\<forall>m \<in> set msgs. slice_of m (sbuf s)) \<and> (\<forall>x. e = Some x \<longrightarrow> index_error x)"
proof -
  have r: "safe_read s (parseShort s)" using safe_typed(3) [of s] assms by (simp add: parseShort_def st_wf_def)
  show ?thesis
  proof (cases "parseShort s")
    case (Inl e)
    then show ?thesis using r by (auto simp: safe_read_def handleDataChannelPacket_def index_error_def)
  next
    case (Inr q)
    then obtain v s1 where q: "parseShort s = Inr (v, s1)" by (cases q) auto
    then have s1: "st_wf s1" "sbuf s1 = sbuf s" using r by (auto simp: safe_read_def)
    have "slice_of (drop k (sbuf s)) (sbuf s)" for k
      using slice_take_drop [of "length (sbuf s)" k "sbuf s"] by simp
    then show ?thesis
      using data_channel_loop_safe [OF s1(1)] s1(2)
      by (auto simp: handleDataChannelPacket_def q bm_from_def bp_new_size_def index_error_def split: prod.splits)
  qed
qed

subsection \<open>Instances\<close>

definition demo_small :: base_packet where
  "demo_small = bp_new\<lparr>bstream := at_pos [0, 9, 0, 0, 1, 2, 3] []\<rparr>"

lemma demo_small_mergeable: "mergeable demo_small"
  by (simp add: mergeable_def demo_small_def bp_isDataChannelPacket_def bp_isMultiPacket_def parseShort_at_def readShort_at_def
      read_word_at_def readPrimitiveFrom_def)

theorem fragmentation_roundtrip_witness:
  "\<exists>qs. fragment_loop (frag_of (replicate 1000 7)) = Inr qs \<and> receive_all (map arrival qs) None = Inr ([at_pos [] (replicate 996 7)], None)"
  using fragmentation_roundtrip [of "replicate 1000 7"] by auto

theorem multi_packet_roundtrip_witness:
  "\<exists>mp'. multi_add demo_small (multi_new demo_small) = Inr (True, mp') \<and>
    handleDataChannelPacket (arrival (multi_getPacket mp')) = ([[1, 2, 3], [1, 2, 3]], None)"
proof -
  have "body_of demo_small = [1, 2, 3]" "multi_size [[1, 2, 3]] = 10" "length (sbuf (bstream demo_small)) = 7"
    by (simp_all add: body_of_def demo_small_def multi_size_def)
  then show ?thesis
    using multi_packet_roundtrip [OF multi_new_holds [OF demo_small_mergeable] demo_small_mergeable] by auto
qed

lemma data_channel_safe_witness:
  "case handleDataChannelPacket (at_pos [] [0, 25, 9, 1]) of (msgs, e) \<Rightarrow>
    (\<forall>m \<in> set msgs. slice_of m [0, 25, 9, 1]) \<and> (\<forall>x. e = Some x \<longrightarrow> index_error x)"
  using data_channel_safe [of "at_pos [] [0, 25, 9, 1]"] by simp

end
