(* ===== verification/ClientStats.thy ===== *)
theory ClientStats
  imports Prelude
begin

text \<open>
  \<^verbatim>\<open>engine/service/proto/BaseClientStats.h\<close>: the statistics a client keeps about its peer. All
  counters are machine words; the clock enters as the elapsed time an operation is given.
  Printing is left out.
\<close>

record client_stats =
  isLocal :: bool
  needsCalculation :: bool
  calculationTimeStamp :: int
  totalPacketsSent :: "64 word"
  totalPacketsReceived :: "64 word"
  tickDelta :: "16 word"
  lastAckMs :: "64 word"
  totalAckMs :: "64 word"
  countAcks :: "64 word"
  minAckMs :: "64 word"
  maxAckMs :: "64 word"
  maxPacketsSentPerSecond :: "16 word"
  maxPacketsReceivedPerSecond :: "16 word"
  lastTotalPacketsSent :: "64 word"
  lastTotalPacketsReceived :: "64 word"
  packetsSentPerSecond :: "16 word"
  packetsReceivedPerSecond :: "16 word"
  avgAckMs :: "16 word"

definition ULLONG_MAX :: "64 word" where "ULLONG_MAX = - 1"

text \<open>\<open>reset\<close> leaves \<open>isLocal\<close> and the time stamp alone.\<close>

definition stats_reset :: "client_stats \<Rightarrow> client_stats" where
  "stats_reset s = s\<lparr>needsCalculation := False, totalPacketsSent := 0, totalPacketsReceived := 0, tickDelta := 0,
     lastAckMs := 0, totalAckMs := 0, countAcks := 0, minAckMs := ULLONG_MAX, maxAckMs := 0,
     maxPacketsSentPerSecond := 0, maxPacketsReceivedPerSecond := 0, lastTotalPacketsSent := 0,
     lastTotalPacketsReceived := 0, packetsSentPerSecond := 0, packetsReceivedPerSecond := 0, avgAckMs := 0\<rparr>"

definition stats_new :: "bool \<Rightarrow> int \<Rightarrow> client_stats" where
  "stats_new local now = stats_reset \<lparr>isLocal = local, needsCalculation = False, calculationTimeStamp = now,
     totalPacketsSent = 0, totalPacketsReceived = 0, tickDelta = 0, lastAckMs = 0, totalAckMs = 0, countAcks = 0,
     minAckMs = 0, maxAckMs = 0, maxPacketsSentPerSecond = 0, maxPacketsReceivedPerSecond = 0,
     lastTotalPacketsSent = 0, lastTotalPacketsReceived = 0, packetsSentPerSecond = 0,
     packetsReceivedPerSecond = 0, avgAckMs = 0\<rparr>"

definition setTotalPacketsSent :: "64 word \<Rightarrow> client_stats \<Rightarrow> client_stats" where
  "setTotalPacketsSent n s = s\<lparr>totalPacketsSent := n, needsCalculation := True\<rparr>"

definition setTotalPacketsReceived :: "64 word \<Rightarrow> client_stats \<Rightarrow> client_stats" where
  "setTotalPacketsReceived n s = s\<lparr>totalPacketsReceived := n, needsCalculation := True\<rparr>"

definition setTimeStamp :: "int \<Rightarrow> client_stats \<Rightarrow> client_stats" where
  "setTimeStamp t s = s\<lparr>calculationTimeStamp := t, needsCalculation := True\<rparr>"

definition setTickDelta :: "16 word \<Rightarrow> client_stats \<Rightarrow> client_stats" where
  "setTickDelta d s = s\<lparr>tickDelta := d\<rparr>"

definition getMinAckMs :: "client_stats \<Rightarrow> 64 word" where
  "getMinAckMs s = (if minAckMs s = ULLONG_MAX then 0 else minAckMs s)"

definition getAvgAckMs :: "client_stats \<Rightarrow> 16 word \<times> client_stats" where
  "getAvgAckMs s =
     (let a = (if countAcks s > 0 then ucast (totalAckMs s div countAcks s) else 0) in (a, s\<lparr>avgAckMs := a\<rparr>))"

definition updateAckStats :: "64 word \<Rightarrow> client_stats \<Rightarrow> client_stats" where
  "updateAckStats elapsedMs s =
     (let s = s\<lparr>countAcks := countAcks s + 1, totalAckMs := totalAckMs s + elapsedMs\<rparr>;
          s = s\<lparr>avgAckMs := if countAcks s > 0 then ucast (totalAckMs s div countAcks s) else 0\<rparr>;
          s = s\<lparr>lastAckMs := elapsedMs\<rparr>;
          s = (if lastAckMs s > 0 \<and> lastAckMs s < minAckMs s then s\<lparr>minAckMs := elapsedMs\<rparr> else s) in
      if lastAckMs s > maxAckMs s then s\<lparr>maxAckMs := lastAckMs s\<rparr> else s)"

text \<open>\<open>now\<close> is the current monotonic time in milliseconds; C division rounds towards zero.\<close>

definition rate :: "64 word \<Rightarrow> 64 word \<Rightarrow> int \<Rightarrow> 16 word" where
  "rate now_total last_total elapsedSeconds = ucast ((now_total - last_total) div word_of_int elapsedSeconds)"

definition updateCalculatedStats :: "bool \<Rightarrow> bool \<Rightarrow> int \<Rightarrow> client_stats \<Rightarrow> client_stats" where
  "updateCalculatedStats resetPeriod forceCalculation now s =
     (let s' = (if needsCalculation s \<or> forceCalculation then
                  let elapsedSeconds = (if now \<ge> calculationTimeStamp s then (now - calculationTimeStamp s) div 1000
                                        else - ((calculationTimeStamp s - now) div 1000)) in
                  (if elapsedSeconds > 0 then
                     let r = rate (totalPacketsSent s) (lastTotalPacketsSent s) elapsedSeconds;
                         q = rate (totalPacketsReceived s) (lastTotalPacketsReceived s) elapsedSeconds in
                     s\<lparr>packetsSentPerSecond := r, lastTotalPacketsSent := totalPacketsSent s,
                       maxPacketsSentPerSecond := max r (maxPacketsSentPerSecond s),
                       packetsReceivedPerSecond := q, lastTotalPacketsReceived := totalPacketsReceived s,
                       maxPacketsReceivedPerSecond := max q (maxPacketsReceivedPerSecond s)\<rparr>
                   else s)\<lparr>needsCalculation := False\<rparr>
                else s) in
      if resetPeriod then s'\<lparr>calculationTimeStamp := now\<rparr> else s')"

definition getPacketsSentPerSecond :: "int \<Rightarrow> client_stats \<Rightarrow> 16 word \<times> client_stats" where
  "getPacketsSentPerSecond now s =
     (let s = updateCalculatedStats False False now s in (packetsSentPerSecond s, s))"

definition getPacketsReceivedPerSecond :: "int \<Rightarrow> client_stats \<Rightarrow> 16 word \<times> client_stats" where
  "getPacketsReceivedPerSecond now s =
     (let s = updateCalculatedStats False False now s in (packetsReceivedPerSecond s, s))"

subsection \<open>What the acknowledgement statistics say\<close>

definition min_sample :: "nat list \<Rightarrow> nat" where
  "min_sample es = fold (\<lambda>e m. if 0 < e \<and> e < m then e else m) es (2 ^ 64 - 1)"

lemma min_sample_snoc: "min_sample (es @ [e]) = (if 0 < e \<and> e < min_sample es then e else min_sample es)"
  by (simp add: min_sample_def)

lemma min_sample_le: "min_sample es < 2 ^ 64"
  by (induction es rule: rev_induct) (auto simp: min_sample_snoc, simp add: min_sample_def)

lemma min_sample_least: "e \<in> set es \<Longrightarrow> 0 < e \<Longrightarrow> min_sample es \<le> e"
  by (induction es rule: rev_induct) (auto simp: min_sample_snoc)

lemma min_sample_attained: "min_sample es \<noteq> 2 ^ 64 - 1 \<Longrightarrow> min_sample es \<in> set es \<and> 0 < min_sample es"
proof (induction es rule: rev_induct)
  case Nil
  then show ?case by (simp add: min_sample_def)
next
  case (snoc e es)
  then show ?case by (auto simp: min_sample_snoc split: if_splits)
qed

definition ack_samples :: "nat list \<Rightarrow> client_stats \<Rightarrow> bool" where
  "ack_samples es s \<longleftrightarrow>
     unat (countAcks s) = length es \<and> unat (totalAckMs s) = sum_list es \<and>
     unat (maxAckMs s) = fold max es 0 \<and> unat (minAckMs s) = min_sample es \<and>
     avgAckMs s = word_of_nat (if es = [] then 0 else sum_list es div length es)"

lemma ack_samples_reset: "ack_samples [] (stats_reset s)"
  by (simp add: ack_samples_def stats_reset_def ULLONG_MAX_def min_sample_def unsigned_minus_1_eq_mask mask_eq_exp_minus_1)

lemma unat_add_small: "unat (a :: 'w::len word) + unat b < 2 ^ LENGTH('w) \<Longrightarrow> unat (a + b) = unat a + unat b"
  by (simp add: unat_add_lem)

lemma ack_samples_step:
  assumes "ack_samples es s" "sum_list es + e < 2 ^ 64" "Suc (length es) < 2 ^ 64"
  shows "ack_samples (es @ [e]) (updateAckStats (word_of_nat e) s)"
proof -
  have e: "unat (word_of_nat e :: 64 word) = e" using assms(2) by (simp add: unat_of_nat)
  have c: "unat (countAcks s + 1) = Suc (length es)"
    using assms(1,3) unat_add_small [of "countAcks s" 1] by (simp add: ack_samples_def)
  have t: "unat (totalAckMs s + word_of_nat e) = sum_list es + e"
    using assms(1,2) e unat_add_small [of "totalAckMs s" "word_of_nat e"] by (simp add: ack_samples_def)
  have a: "(ucast ((totalAckMs s + word_of_nat e) div (countAcks s + 1)) :: 16 word) = word_of_nat ((sum_list es + e) div Suc (length es))"
  proof -
    have "unat ((totalAckMs s + word_of_nat e) div (countAcks s + 1)) = (sum_list es + e) div Suc (length es)"
      by (simp add: unat_div t c)
    then show ?thesis by (metis of_nat_unat unsigned_of_nat)
  qed
  have pos: "0 < countAcks s + 1" using c by (metis word_gt_0 unat_0 Zero_not_Suc)
  have a0: "e = 0 \<Longrightarrow> (ucast (totalAckMs s div (countAcks s + 1)) :: 16 word) = word_of_nat (sum_list es div Suc (length es))"
    using a by simp
  show ?thesis
    using assms(1) e c t a pos a0
    by (simp add: ack_samples_def updateAckStats_def Let_def min_sample_snoc word_less_nat_alt max_def del: of_nat_add)
qed

lemma ack_samples_fold:
  "sum_list es < 2 ^ 64 \<Longrightarrow> length es < 2 ^ 64 \<Longrightarrow> ack_samples es (fold updateAckStats (map word_of_nat es) (stats_reset s))"
proof (induction es rule: rev_induct)
  case Nil
  then show ?case by (simp add: ack_samples_reset)
next
  case (snoc e es)
  then show ?case using ack_samples_step [of es _ e] by simp
qed

text \<open>
  The acknowledgement statistics are the statistics of the samples: after any sequence of
  \<open>updateAckStats\<close> calls since \<open>reset\<close> (without overflow of the 64-bit sum), the count and the sum
  are exact, the maximum is the largest sample, the reported minimum is the smallest positive
  sample (0 when there is none), and the average is the integer mean cut to 16 bits.
\<close>

theorem ack_stats_correct:
  assumes "sum_list es < 2 ^ 64 - 1" "length es < 2 ^ 64"
  shows "let s = fold updateAckStats (map word_of_nat es) (stats_reset s0) in unat (countAcks s) = length es \<and> unat (totalAckMs s) = sum_list es \<and> unat (maxAckMs s) = Max (insert 0 (set es)) \<and>
    (if \<exists>e \<in> set es. 0 < e then unat (getMinAckMs s) \<in> {e \<in> set es. 0 < e \<and> (\<forall>e' \<in> set es. 0 < e' \<longrightarrow> e \<le> e')}
     else getMinAckMs s = 0) \<and>
    unat (avgAckMs s) = sum_list es div length es mod 2 ^ 16"
proof -
  let ?s = "fold updateAckStats (map word_of_nat es) (stats_reset s0)"
  define s where "s = ?s"
  have a: "ack_samples es s" unfolding s_def using assms(1,2) by (intro ack_samples_fold) simp_all
  have le: "e \<le> sum_list es" if "e \<in> set es" for e using that by (rule member_le_sum_list) simp
  have mn: "unat (getMinAckMs s) = (if min_sample es = 2 ^ 64 - 1 then 0 else min_sample es)"
    using a by (simp add: ack_samples_def getMinAckMs_def ULLONG_MAX_def word_unat_eq_iff unsigned_minus_1_eq_mask mask_eq_exp_minus_1)
  have "if \<exists>e \<in> set es. 0 < e then unat (getMinAckMs s) \<in> {e \<in> set es. 0 < e \<and> (\<forall>e' \<in> set es. 0 < e' \<longrightarrow> e \<le> e')}
    else getMinAckMs s = 0"
  proof (cases "\<exists>e \<in> set es. 0 < e")
    case True
    then have "min_sample es \<noteq> 2 ^ 64 - 1" using min_sample_least le assms(1) by (metis le_trans not_less)
    then show ?thesis using True mn min_sample_attained [of es] min_sample_least by auto
  next
    case False
    then have "min_sample es = 2 ^ 64 - 1" using min_sample_attained [of es] by blast
    then show ?thesis using False mn by (simp add: unat_eq_0 [symmetric] del: unat_eq_0)
  qed
  moreover have "unat (countAcks s) = length es" "unat (totalAckMs s) = sum_list es" "unat (maxAckMs s) = Max (insert 0 (set es))"
    using a Max.set_eq_fold [of 0 es] unfolding ack_samples_def by simp_all
  moreover have "unat (avgAckMs s) = sum_list es div length es mod 2 ^ 16"
    using a by (simp add: ack_samples_def unsigned_of_nat take_bit_eq_mod)
  ultimately show ?thesis unfolding Let_def s_def [symmetric] by blast
qed

theorem ack_stats_correct_witness:
  "unat (avgAckMs (fold updateAckStats [30, 0, 12] (stats_reset (stats_new False 0)))) = 14"
  using ack_stats_correct [of "[30, 0, 12]" "stats_new False 0"] by (simp add: Let_def)

end
