(* ===== verification/Client.thy ===== *)
theory Client
  imports Fragments SortedVector ClientStats
begin

text \<open>
  \<^verbatim>\<open>engine/service/proto/BaseClient.cpp\<close> with its retransmission timer
  (\<^verbatim>\<open>events/BasePacketChekupEvent\<close>): the reliable connection. This theory holds the state, the
  sending side and acknowledgements in the configuration without \<open>LOCKFREE_BCLIENT_BUFFERS\<close> and \<open>WITH_STM\<close>;
  the receiving side is in \<open>Handler\<close>. The \<open>Vector\<close>s of packets are lists. Datagrams handed to
  the socket are collected in \<open>wire\<close>, oldest first; a scheduled task is a flag. Locks,
  logging, packet time stamps and socket exceptions are left out, and one call
  is one atomic step.
\<close>

subsection \<open>The retransmission timer\<close>

record checkup_event =
  ck_packet :: "base_packet option"
  checkupTime :: "32 word"
  minCheckupTime :: "32 word"
  maxCheckupTime :: "32 word"
  ck_scheduled :: bool

text \<open>The default arguments are \<open>time = 5000\<close>, \<open>minCheckupTime = 100\<close>, \<open>maxCheckupTime = 500\<close>.\<close>

definition ck_new :: "32 word \<Rightarrow> 32 word \<Rightarrow> 32 word \<Rightarrow> checkup_event" where
  "ck_new time minTime maxTime = \<lparr>ck_packet = None, checkupTime = time, minCheckupTime = minTime, maxCheckupTime = maxTime, ck_scheduled = False\<rparr>"

definition ck_update :: "base_packet \<Rightarrow> checkup_event \<Rightarrow> checkup_event" where
  "ck_update pack k = k\<lparr>ck_packet := Some pack\<rparr>"

definition setCheckupTime :: "32 word \<Rightarrow> checkup_event \<Rightarrow> checkup_event" where
  "setCheckupTime time k = k\<lparr>checkupTime := time\<rparr>"

definition increaseCheckupTime :: "32 word \<Rightarrow> checkup_event \<Rightarrow> checkup_event" where
  "increaseCheckupTime time k = (if checkupTime k < maxCheckupTime k then k\<lparr>checkupTime := checkupTime k + time\<rparr> else k)"

definition decreaseCheckupTime :: "32 word \<Rightarrow> checkup_event \<Rightarrow> checkup_event" where
  "decreaseCheckupTime time k = (if checkupTime k > minCheckupTime k then k\<lparr>checkupTime := checkupTime k - time\<rparr> else k)"

subsection \<open>State\<close>

text \<open>
  What the client takes from its surroundings: zlib, the two switches of \<open>prepareSend\<close>, the
  configuration and the floating-point budget of \<open>resendPackets\<close> (the truncated value of
  \<open>30000 * checkupTime / 1000 / 496\<close> in single precision).
\<close>

record net_env =
  deflate :: "byte list \<Rightarrow> byte list"
  inflate :: "nat \<Rightarrow> byte list \<Rightarrow> byte list"
  disableCompression :: bool
  disableEncryption :: bool
  cfgMinCheckupTime :: "32 word"
  cfgMaxCheckupTime :: "32 word"
  cfgMaxOutstandingPackets :: int
  resendBudget :: "32 word \<Rightarrow> int"

record base_client =
  proto :: base_protocol
  errored :: bool
  disconnected :: bool
  clientDisconnected :: bool
  sequenceBuffer :: "base_packet list"
  checkupEvent :: checkup_event
  bufferedPacket :: "multi_packet option"
  fragmentedPacket :: "frag_packet option"
  sendBuffer :: "base_packet list"
  sendUnreliableBuffer :: "base_packet list"
  receiveBuffer :: "base_packet sorted_vector"
  reentrantScheduled :: bool
  configMaxOutstandingPackets :: int
  acknowledgedServerSequence :: int
  realServerSequence :: int
  resentPackets :: int
  maxOutstanding :: int
  numOutOfOrder :: int
  remoteStats :: client_stats
  lastRecievedNetStatusTick :: "16 word"
  wire :: "byte list list"
  processed :: "byte list list"

text \<open>\<open>isAvailable\<close> (the socket exists).\<close>

definition isAvailable :: "base_client \<Rightarrow> bool" where
  "isAvailable c \<longleftrightarrow> \<not> (errored c \<or> disconnected c)"

abbreviation upd_checkup :: "(checkup_event \<Rightarrow> checkup_event) \<Rightarrow> base_client \<Rightarrow> base_client" where
  "upd_checkup f c \<equiv> c\<lparr>checkupEvent := f (checkupEvent c)\<rparr>"

definition setPacketCheckupTime :: "32 word \<Rightarrow> base_client \<Rightarrow> base_client" where
  "setPacketCheckupTime time c = upd_checkup (setCheckupTime time) c"

definition balancePacketCheckupTime :: "base_client \<Rightarrow> base_client" where
  "balancePacketCheckupTime c = setPacketCheckupTime 2000 c"

definition resetPacketCheckupTime :: "base_client \<Rightarrow> base_client" where
  "resetPacketCheckupTime c = setPacketCheckupTime 100 c"

text \<open>\<open>initialize\<close>: the event gets the two configured bounds as its first two arguments.\<close>

definition client_initialize :: "net_env \<Rightarrow> base_client \<Rightarrow> base_client" where
  "client_initialize E c =
     balancePacketCheckupTime
       (c\<lparr>proto := (proto c)\<lparr>crcSeed := 0, serverSequence := 0, clientSequence := 0\<rparr>,
          disconnected := False, clientDisconnected := False, acknowledgedServerSequence := -1,
          realServerSequence := 0, resentPackets := 0,
          checkupEvent := ck_new (cfgMinCheckupTime E) (cfgMaxCheckupTime E) 500\<rparr>)"

text \<open>The members as \<open>initializeCommon\<close> and the field initialisers leave them.\<close>

definition client_new :: "net_env \<Rightarrow> base_client" where
  "client_new E =
     \<lparr>proto = \<lparr>connectionID = 0, crcSeed = 0, serverSequence = 0, clientSequence = 0\<rparr>, errored = False, disconnected = False,
      clientDisconnected = False, sequenceBuffer = [], checkupEvent = ck_new 5000 100 500, bufferedPacket = None,
      fragmentedPacket = None, sendBuffer = [], sendUnreliableBuffer = [], receiveBuffer = sv_setInsertPlan NO_DUPLICATE sv_new,
      reentrantScheduled = False, configMaxOutstandingPackets = cfgMaxOutstandingPackets E,
      acknowledgedServerSequence = -1, realServerSequence = 0, resentPackets = 0, maxOutstanding = 0, numOutOfOrder = 0,
      remoteStats = stats_new False 0, lastRecievedNetStatusTick = 0, wire = [], processed = []\<rparr>"

subsection \<open>Disconnecting\<close>

text \<open>\<open>close\<close>; the tasks are cancelled.\<close>

definition client_close :: "base_client \<Rightarrow> base_client" where
  "client_close c =
     c\<lparr>disconnected := True, reentrantScheduled := False, checkupEvent := (checkupEvent c)\<lparr>ck_scheduled := False\<rparr>,
       sendBuffer := [], sequenceBuffer := [], sendUnreliableBuffer := [], fragmentedPacket := None,
       proto := (proto c)\<lparr>clientSequence := 0\<rparr>, acknowledgedServerSequence := -1\<rparr>"

definition DisconnectMessage :: "base_protocol \<Rightarrow> base_packet res" where
  "DisconnectMessage pr =
     rbind (insertShort 0x0500 (bstream bp_new)) (\<lambda>s. rbind (insertInt (connectionID pr) s) (\<lambda>s.
     rbind (insertShort 0x0600 s) (\<lambda>s. Inr (bp_new\<lparr>bstream := s, doSeq := False\<rparr>))))"

definition net_send :: "base_packet \<Rightarrow> base_client \<Rightarrow> base_client" where
  "net_send pack c = c\<lparr>wire := wire c @ [sbuf (bstream pack)]\<rparr>"

text \<open>
  \<open>disconnect(bool)\<close>. The buffered packet is deleted and the pointer kept; nothing reads it
  after \<open>close\<close>.
\<close>

definition client_disconnect :: "net_env \<Rightarrow> base_client \<Rightarrow> base_client" where
  "client_disconnect E c =
     (if disconnected c then c
      else client_close
        (if \<not> errored c \<and> \<not> clientDisconnected c then
           case rbind (DisconnectMessage (proto c)) (prepareSend (disableCompression E) (disableEncryption E) (deflate E) (proto c)) of
             Inr (pr, disc) \<Rightarrow> net_send disc (c\<lparr>proto := pr\<rparr>)
           | Inl _ \<Rightarrow> c\<lparr>errored := True\<rparr>
         else c))"

definition disconnect_msg :: "net_env \<Rightarrow> base_client \<Rightarrow> base_client" where
  "disconnect_msg E c = client_disconnect E (c\<lparr>errored := True\<rparr>)"

text \<open>The handler \<open>catch (...) { disconnect(...); }\<close> around a body that had reached state \<open>c\<close>.\<close>

definition catching :: "net_env \<Rightarrow> base_client \<Rightarrow> base_client res \<Rightarrow> base_client res" where
  "catching E c r =
     (case r of Inr c' \<Rightarrow> Inr c' | Inl Undefined \<Rightarrow> Inl Undefined | Inl _ \<Rightarrow> Inr (disconnect_msg E c))"

subsection \<open>Queueing packets\<close>

definition sendSequenced :: "base_packet \<Rightarrow> base_client \<Rightarrow> base_client" where
  "sendSequenced pack c =
     (if \<not> isAvailable c then c else c\<lparr>sendBuffer := sendBuffer c @ [pack], reentrantScheduled := True\<rparr>)"

definition sendSequenceLess :: "base_packet \<Rightarrow> base_client \<Rightarrow> base_client" where
  "sendSequenceLess pack c = c\<lparr>sendUnreliableBuffer := sendUnreliableBuffer c @ [pack], reentrantScheduled := True\<rparr>"

definition sendFragmented :: "base_packet \<Rightarrow> base_client \<Rightarrow> base_client res" where
  "sendFragmented pack c =
     (if \<not> isAvailable c then Inr c
      else rbind (fragment_loop (frag_of (sbuf (bstream pack)))) (\<lambda>frags. Inr (fold sendSequenced frags c)))"

text \<open>The condition of \<open>bufferMultiPacket\<close>, with the short-circuit evaluation of \<open>&&\<close>.\<close>

definition can_merge :: "base_packet \<Rightarrow> bool res" where
  "can_merge pack =
     rbind (bp_isDataChannelPacket pack) (\<lambda>d. if \<not> d then Inr False
     else rbind (bp_isMultiPacket pack) (\<lambda>mu. Inr (\<not> mu \<and> st_size (bstream pack) - 4 < 0xFF)))"

definition bufferMultiPacket :: "base_packet \<Rightarrow> base_client \<Rightarrow> base_client res" where
  "bufferMultiPacket pack c =
     (case bufferedPacket c of
        Some mp \<Rightarrow>
          rbind (can_merge pack) (\<lambda>m.
          if m then
            rbind (multi_add pack mp) (\<lambda>(ok, mp').
            if ok then Inr (c\<lparr>bufferedPacket := Some mp'\<rparr>)
            else Inr ((sendSequenced (multi_getPacket mp') c)\<lparr>bufferedPacket := Some (multi_new pack)\<rparr>))
          else Inr (sendSequenced pack ((sendSequenced (multi_getPacket mp) c)\<lparr>bufferedPacket := None\<rparr>)))
      | None \<Rightarrow>
          rbind (can_merge pack) (\<lambda>m.
          Inr ((if m then c\<lparr>bufferedPacket := Some (multi_new pack)\<rparr> else sendSequenced pack c)\<lparr>reentrantScheduled := True\<rparr>)))"

definition flush_buffered :: "base_client \<Rightarrow> base_client" where
  "flush_buffered c =
     (case bufferedPacket c of
        Some mp \<Rightarrow> (sendSequenced (multi_getPacket mp) c)\<lparr>bufferedPacket := None\<rparr>
      | None \<Rightarrow> c)"

definition sendPacket :: "net_env \<Rightarrow> base_packet \<Rightarrow> base_client \<Rightarrow> base_client res" where
  "sendPacket E pack c =
     (if \<not> isAvailable c then Inr c
      else catching E c
        (if doSeq pack then
           if st_size (bstream pack) \<ge> 490 then sendFragmented pack (flush_buffered c)
           else bufferMultiPacket pack c
         else Inr (sendSequenceLess pack c)))"

subsection \<open>The window\<close>

text \<open>\<open>serverSequence - acknowledgedServerSequence\<close> is a \<open>uint32\<close>.\<close>

definition window_full :: "base_client \<Rightarrow> bool" where
  "window_full c \<longleftrightarrow> serverSequence (proto c) - word_of_int (acknowledgedServerSequence c) > 50"

definition window_wait :: "base_client \<Rightarrow> base_client" where
  "window_wait c =
     (let c = (if sendBuffer c \<noteq> [] \<or> bufferedPacket c \<noteq> None then c\<lparr>reentrantScheduled := True\<rparr> else c);
          c = upd_checkup (\<lambda>k. k\<lparr>ck_scheduled := True\<rparr>) c;
          outstandingCount = int (length (sendBuffer c)) in
      if outstandingCount > maxOutstanding c then c\<lparr>maxOutstanding := outstandingCount\<rparr> else c)"

definition getNextSequencedPacket :: "net_env \<Rightarrow> base_client \<Rightarrow> base_packet option \<times> base_client" where
  "getNextSequencedPacket E c =
     (if window_full c then
        let c = window_wait c in
        (None, if int (length (sendBuffer c)) > configMaxOutstandingPackets c then client_disconnect E c else c)
      else case sendBuffer c of
          pack # rest \<Rightarrow> (Some pack, c\<lparr>sendBuffer := rest\<rparr>)
        | [] \<Rightarrow> (case bufferedPacket c of
              Some mp \<Rightarrow> (Some (multi_getPacket mp), c\<lparr>bufferedPacket := None\<rparr>)
            | None \<Rightarrow> (None, c)))"

definition getNextUnreliablePacket :: "base_client \<Rightarrow> base_packet option \<times> base_client" where
  "getNextUnreliablePacket c =
     (case sendUnreliableBuffer c of
        pack # rest \<Rightarrow> (Some pack, c\<lparr>sendUnreliableBuffer := rest\<rparr>)
      | [] \<Rightarrow> (None, c))"

text \<open>
  One packet of \<open>sendReliablePackets\<close>: number, transform, send, remember. The event keeps a
  pointer to the packet, so it sees the numbered packet. When numbering throws, \<open>serverSequence\<close>
  has been incremented already.
\<close>

definition send_reliable :: "net_env \<Rightarrow> base_packet \<Rightarrow> base_client \<Rightarrow> base_client res" where
  "send_reliable E pack c =
     (case prepareSequence (proto c) pack of
        Inl Undefined \<Rightarrow> Inl Undefined
      | Inl e \<Rightarrow>
          let c = (if sequenceBuffer c = [] then upd_checkup (ck_update pack) c else c) in
          Inr (disconnect_msg E (c\<lparr>proto := (proto c)\<lparr>serverSequence := serverSequence (proto c) + 1\<rparr>\<rparr>))
      | Inr (pr, pack) \<Rightarrow>
          let first = (sequenceBuffer c = []);
              c = c\<lparr>proto := pr, realServerSequence := realServerSequence c + 1\<rparr> in
          rbind (prepareEncryptionAndCompression (deflate E) pr pack) (\<lambda>pack.
          let c = (if first then upd_checkup (\<lambda>k. (ck_update pack k)\<lparr>ck_scheduled := True\<rparr>) c else c) in
          Inr ((net_send pack c)\<lparr>sequenceBuffer := sequenceBuffer c @ [pack]\<rparr>)))"

fun sendReliablePackets :: "net_env \<Rightarrow> nat \<Rightarrow> int \<Rightarrow> base_client \<Rightarrow> (int \<times> base_client) res" where
  "sendReliablePackets E 0 sentPackets c =
     Inr (sentPackets, if sendBuffer c \<noteq> [] \<or> sendUnreliableBuffer c \<noteq> [] \<or> bufferedPacket c \<noteq> None
                       then c\<lparr>reentrantScheduled := True\<rparr> else c)"
| "sendReliablePackets E (Suc n) sentPackets c =
     (if isAvailable c then
        case getNextSequencedPacket E c of
          (None, c) \<Rightarrow> Inr (sentPackets, if sendBuffer c \<noteq> [] \<or> bufferedPacket c \<noteq> None then c\<lparr>reentrantScheduled := True\<rparr> else c)
        | (Some pack, c) \<Rightarrow>
            rbind (send_reliable E pack c) (\<lambda>c'.
            if isAvailable c' then sendReliablePackets E n (sentPackets + 1) c' else Inr (sentPackets, c'))
      else sendReliablePackets E n sentPackets c)"

text \<open>An exception in \<open>sendUnreliablePackets\<close> is logged and ends the loop.\<close>

fun sendUnreliablePackets :: "net_env \<Rightarrow> nat \<Rightarrow> base_client \<Rightarrow> base_client res" where
  "sendUnreliablePackets E 0 c =
     Inr (if sendBuffer c \<noteq> [] \<or> sendUnreliableBuffer c \<noteq> [] \<or> bufferedPacket c \<noteq> None
          then c\<lparr>reentrantScheduled := True\<rparr> else c)"
| "sendUnreliablePackets E (Suc n) c =
     (if isAvailable c then
        case getNextUnreliablePacket c of
          (None, c) \<Rightarrow> Inr (if sendBuffer c \<noteq> [] \<or> sendUnreliableBuffer c \<noteq> [] \<or> bufferedPacket c \<noteq> None
                           then c\<lparr>reentrantScheduled := True\<rparr> else c)
        | (Some pack, c) \<Rightarrow>
            (case rbind (bp_close pack) (prepareEncryptionAndCompression (deflate E) (proto c)) of
               Inr pack \<Rightarrow> sendUnreliablePackets E n (net_send pack c)
             | Inl Undefined \<Rightarrow> Inl Undefined
             | Inl _ \<Rightarrow> Inr c)
      else sendUnreliablePackets E n c)"

declare sendReliablePackets.simps [simp del] sendUnreliablePackets.simps [simp del]

text \<open>\<open>run\<close>, the body of the reentrant task.\<close>

definition client_run :: "net_env \<Rightarrow> base_client \<Rightarrow> base_client res" where
  "client_run E c = rbind (sendReliablePackets E 8 0 c) (\<lambda>(_, c). sendUnreliablePackets E 8 c)"

subsection \<open>Acknowledgements and retransmission\<close>

definition flushSendBuffer :: "int \<Rightarrow> base_client \<Rightarrow> base_client" where
  "flushSendBuffer seq c =
     c\<lparr>sequenceBuffer := dropWhile (\<lambda>pack. \<not> bp_getSequence pack > word_of_int seq) (sequenceBuffer c),
       acknowledgedServerSequence := seq\<rparr>"

text \<open>The 32-bit number an acknowledgement stands for; conversions to \<open>int32\<close> wrap.\<close>

definition ack_realseq :: "base_client \<Rightarrow> 16 word \<Rightarrow> int" where
  "ack_realseq c seq =
     (let realseq = (if uint seq < acknowledgedServerSequence c
                     then sint (ucast seq OR (serverSequence (proto c) AND 0xFFFF0000)) else uint seq) in
      if (word_of_int realseq :: 32 word) > serverSequence (proto c) then realseq - 0x10000 else realseq)"

definition acknowledgeServerPackets :: "64 word \<Rightarrow> 16 word \<Rightarrow> base_client \<Rightarrow> base_client" where
  "acknowledgeServerPackets elapsedMs seq c =
     (if \<not> isAvailable c then c
      else let realseq = ack_realseq c seq in
        if realseq < acknowledgedServerSequence c then c
        else
          let c = c\<lparr>remoteStats := updateAckStats elapsedMs (remoteStats c)\<rparr>;
              c = upd_checkup (\<lambda>k. k\<lparr>ck_scheduled := False\<rparr>) c;
              c = flushSendBuffer realseq c;
              c = c\<lparr>acknowledgedServerSequence := realseq\<rparr>;
              c = upd_checkup (decreaseCheckupTime 1) c in
          case sequenceBuffer c of
            [] \<Rightarrow> c
          | pack # _ \<Rightarrow> upd_checkup (\<lambda>k. (ck_update pack k)\<lparr>ck_scheduled := True\<rparr>) c)"

text \<open>\<open>resendPackets()\<close>; \<open>resendPackets(int)\<close> returns at once.\<close>

definition maxPacketResent :: "net_env \<Rightarrow> base_client \<Rightarrow> int" where
  "maxPacketResent E c = max 5 (resendBudget E (checkupTime (checkupEvent c)))"

definition resend_all :: "net_env \<Rightarrow> base_client \<Rightarrow> base_client" where
  "resend_all E c =
     (if sequenceBuffer c = [] then c
      else let packs = take (nat (maxPacketResent E c)) (sequenceBuffer c) in
        fold (\<lambda>pack c. (net_send pack c)\<lparr>resentPackets := resentPackets c + 1\<rparr>) packs c)"

definition checkupServerPackets :: "net_env \<Rightarrow> base_packet \<Rightarrow> base_client \<Rightarrow> base_client" where
  "checkupServerPackets E pack c =
     (if \<not> isAvailable c \<or> ck_scheduled (checkupEvent c) \<or> sequenceBuffer c = [] then c
      else if bp_getSequence pack > word_of_int (acknowledgedServerSequence c) then
        upd_checkup (\<lambda>k. (ck_update pack (increaseCheckupTime 250 k))\<lparr>ck_scheduled := True\<rparr>) (resend_all E c)
      else c)"

text \<open>\<open>BasePacketChekupEvent::run\<close>: the event is no longer scheduled when it runs.\<close>

definition checkup_run :: "net_env \<Rightarrow> base_client \<Rightarrow> base_client res" where
  "checkup_run E c =
     (let c = upd_checkup (\<lambda>k. k\<lparr>ck_scheduled := False\<rparr>) c in
      case ck_packet (checkupEvent c) of
        None \<Rightarrow> if \<not> isAvailable c \<or> sequenceBuffer c = [] then Inr c else Inl Undefined
      | Some pack \<Rightarrow> Inr (checkupServerPackets E pack c))"

subsection \<open>Net status\<close>

definition tickDiff :: "16 word \<Rightarrow> 16 word \<Rightarrow> int" where
  "tickDiff tick1 tick2 =
     (let delta = tick1 - tick2; delta = (if delta > 0x7FFF then 0xFFFF - delta else delta) in uint delta)"

subsection \<open>Decoding acknowledgements\<close>

lemma sint_small: "0 \<le> x \<Longrightarrow> x < 2 ^ 31 \<Longrightarrow> sint (word_of_int x :: 32 word) = x"
  by (simp add: signed_of_int signed_take_bit_int_eq_self)

lemma uint_small: "0 \<le> x \<Longrightarrow> x < 2 ^ 32 \<Longrightarrow> uint (word_of_int x :: 32 word) = x"
  by (simp add: unsigned_of_int take_bit_int_eq_self)

lemma high_half: "(S :: 32 word) AND 0xFFFF0000 = push_bit 16 (drop_bit 16 S)"
proof -
  have *: "(0xFFFF0000 :: 32 word) = push_bit 16 (mask 16)" by (simp add: mask_eq_exp_minus_1 push_bit_eq_mult)
  show ?thesis unfolding * by (intro bit_word_eqI) (auto simp: bit_simps)
qed

lemma or_high: "(ucast (seq :: 16 word) :: 32 word) OR push_bit 16 x = ucast seq + push_bit 16 x"
proof -
  have "(ucast seq :: 32 word) AND push_bit 16 x = 0"
    by (intro bit_word_eqI) (auto simp: bit_simps dest: bit_imp_le_length)
  then show ?thesis by (simp add: disjunctive_add_eq_or)
qed

lemma ack_high:
  assumes "uint (S :: 32 word) < 2 ^ 31"
  shows "sint (ucast (seq :: 16 word) OR (S AND 0xFFFF0000)) = uint seq + 0x10000 * (uint S div 0x10000)"
proof -
  have "push_bit 16 (drop_bit 16 S) = word_of_int (0x10000 * (uint S div 0x10000))"
    by (simp add: push_bit_eq_mult drop_bit_eq_div word_div_def)
  then have e: "ucast seq OR (S AND 0xFFFF0000) = word_of_int (uint seq + 0x10000 * (uint S div 0x10000))"
    unfolding high_half or_high by (simp only: ucast_eq wi_hom_add)
  have "uint seq < 0x10000" using uint_bounded [of seq] by simp
  moreover have "uint S div 0x10000 < 0x8000" "0 \<le> uint S div 0x10000" using assms by (simp_all add: pos_imp_zdiv_nonneg_iff)
  moreover have "0 \<le> uint seq" by simp
  ultimately show ?thesis unfolding e by (intro sint_small, linarith, simp)
qed

lemma ack_realseq_correct:
  assumes S: "uint (serverSequence (proto c)) < 2 ^ 31"
    and acked: "- 1 \<le> acknowledgedServerSequence c" "uint (serverSequence (proto c)) - acknowledgedServerSequence c < 2 ^ 16"
    and t: "0 \<le> t" "uint (serverSequence (proto c)) - 2 ^ 16 < t" "t \<le> uint (serverSequence (proto c))"
  shows "ack_realseq c (word_of_int t) = t"
proof -
  let ?S = "uint (serverSequence (proto c))" and ?a = "acknowledgedServerSequence c"
  have seq: "uint (word_of_int t :: 16 word) = t mod 0x10000" by (simp add: unsigned_of_int take_bit_eq_mod)
  define m n p q where "m = t mod 0x10000" and "n = ?S mod 0x10000" and "p = ?S div 0x10000" and "q = t div 0x10000"
  have e: "t = 0x10000 * q + m" "?S = 0x10000 * p + n" unfolding m_def n_def p_def q_def by simp_all
  have b: "0 \<le> m" "m < 0x10000" "0 \<le> n" "n < 0x10000" unfolding m_def n_def by simp_all
  have p: "0 \<le> p" "p < 0x8000" using S unfolding p_def by (simp_all add: pos_imp_zdiv_nonneg_iff)
  define r where "r = (if m < ?a then m + 0x10000 * p else m)"
  have r: "0 \<le> r" "r < 2 ^ 32" using b p unfolding r_def by auto
  have "ack_realseq c (word_of_int t) = (if r > ?S then r - 0x10000 else r)"
  proof -
    have "(if uint (word_of_int t :: 16 word) < ?a then sint (ucast (word_of_int t :: 16 word) OR (serverSequence (proto c) AND 0xFFFF0000))
        else uint (word_of_int t :: 16 word)) = r"
      using seq unfolding ack_high [OF S] r_def m_def p_def by simp
    then show ?thesis unfolding ack_realseq_def Let_def word_less_def by (simp only: uint_small [OF r])
  qed
  also have "\<dots> = t"
  proof (cases "q = p")
    case True
    then show ?thesis using e b p acked t unfolding r_def by auto
  next
    case False
    have "?S - 0x10000 < t" using t(2) by simp
    then have "q \<le> p" "p - 1 \<le> q" using e b t(3) by linarith+
    then have "q = p - 1" using False by simp
    then show ?thesis using e b p acked t unfolding r_def by auto
  qed
  finally show ?thesis .
qed

subsection \<open>What is queued is to be numbered\<close>

definition multi_seq :: "multi_packet \<Rightarrow> bool" where
  "multi_seq mp \<longleftrightarrow> doSeq (mpacket mp) \<and> (\<forall>p. msingle mp = Some p \<longrightarrow> doSeq p)"

definition queue_ok :: "base_client \<Rightarrow> bool" where
  "queue_ok c \<longleftrightarrow> (\<forall>p \<in> set (sendBuffer c). doSeq p) \<and> (\<forall>mp. bufferedPacket c = Some mp \<longrightarrow> multi_seq mp)"

lemma multi_seq_new: "doSeq p \<Longrightarrow> multi_seq (multi_new p)"
  by (simp add: multi_seq_def multi_new_def)

lemma multi_seq_get: "multi_seq mp \<Longrightarrow> doSeq (multi_getPacket mp)"
  by (auto simp: multi_seq_def multi_getPacket_def split: option.split)

lemma multi_seq_add: "multi_seq mp \<Longrightarrow> multi_add p mp = Inr (ok, mp') \<Longrightarrow> multi_seq mp'"
  by (auto simp: multi_add_def multi_open_def rbind_eq_Inr_iff multi_seq_def split: option.splits if_splits)

lemma getFragment_doSeq: "getFragment f = Inr (q, f') \<Longrightarrow> doSeq q"
  by (auto simp: getFragment_def rbind_eq_Inr_iff bp_new_def split: option.splits if_splits)

lemma fragment_loop_doSeq: "fragment_loop f = Inr qs \<Longrightarrow> q \<in> set qs \<Longrightarrow> doSeq q"
proof (induction f arbitrary: qs rule: fragment_loop.induct)
  case (1 f)
  from "1.prems"(1) obtain more where m: "hasFragments f = Inr more"
    by (subst (asm) fragment_loop.simps) (auto simp: rbind_eq_Inr_iff)
  show ?case
  proof (cases more)
    case True
    then obtain q0 f' qs' where g: "getFragment f = Inr (q0, f')" "fragment_loop f' = Inr qs'" "qs = q0 # qs'"
      using m "1.prems"(1) by (subst (asm) fragment_loop.simps) (auto simp: rbind_eq_Inr_iff)
    then show ?thesis
      using "1.IH" [OF m True g(1) refl g(2)] g getFragment_doSeq [OF g(1)] "1.prems"(2) by auto
  next
    case False
    then show ?thesis using m "1.prems" by (subst (asm) fragment_loop.simps) simp
  qed
qed

text \<open>The part of the state that queueing changes.\<close>

definition only_queues :: "base_client \<Rightarrow> base_client \<Rightarrow> bool" where
  "only_queues c c' \<longleftrightarrow> (\<exists>sb bp ub rs. c' = c\<lparr>sendBuffer := sb, bufferedPacket := bp, sendUnreliableBuffer := ub, reentrantScheduled := rs\<rparr>)"

lemma only_queues_refl [simp]: "only_queues c c"
  unfolding only_queues_def by (rule exI [of _ "sendBuffer c"], rule exI [of _ "bufferedPacket c"],
      rule exI [of _ "sendUnreliableBuffer c"], rule exI [of _ "reentrantScheduled c"]) simp

lemma only_queues_upd [simp]:
  "only_queues c (c'\<lparr>sendBuffer := sb\<rparr>) = only_queues c c'"
  "only_queues c (c'\<lparr>bufferedPacket := bp\<rparr>) = only_queues c c'"
  "only_queues c (c'\<lparr>sendUnreliableBuffer := ub\<rparr>) = only_queues c c'"
  "only_queues c (c'\<lparr>reentrantScheduled := rs\<rparr>) = only_queues c c'"
  by (cases c; cases c'; auto simp: only_queues_def)+

lemma only_queues_trans: "only_queues a b \<Longrightarrow> only_queues b c \<Longrightarrow> only_queues a c"
  by (cases a; auto simp: only_queues_def)

lemma only_queues_fields:
  assumes "only_queues c c'"
  shows "proto c' = proto c" "sequenceBuffer c' = sequenceBuffer c" "checkupEvent c' = checkupEvent c"
    "acknowledgedServerSequence c' = acknowledgedServerSequence c" "realServerSequence c' = realServerSequence c"
    "resentPackets c' = resentPackets c" "isAvailable c' = isAvailable c" "wire c' = wire c"
    "receiveBuffer c' = receiveBuffer c" "fragmentedPacket c' = fragmentedPacket c" "processed c' = processed c"
  using assms by (auto simp: only_queues_def isAvailable_def)

lemma sendSequenced_queues:
  "only_queues c (sendSequenced p c) \<and> (queue_ok c \<and> doSeq p \<longrightarrow> queue_ok (sendSequenced p c))"
  by (simp add: sendSequenced_def queue_ok_def)

lemma fold_sendSequenced_queues:
  "only_queues c (fold sendSequenced ps c) \<and> (queue_ok c \<and> (\<forall>p \<in> set ps. doSeq p) \<longrightarrow> queue_ok (fold sendSequenced ps c))"
proof (induction ps arbitrary: c)
  case (Cons p ps)
  then show ?case using sendSequenced_queues [of c p] only_queues_trans by auto
qed simp

lemma flush_buffered_queues:
  "only_queues c (flush_buffered c) \<and> (queue_ok c \<longrightarrow> queue_ok (flush_buffered c))"
proof (cases "bufferedPacket c")
  case (Some mp)
  then show ?thesis
    using multi_seq_get [of mp] by (simp add: flush_buffered_def sendSequenced_def queue_ok_def)
qed (simp add: flush_buffered_def)

lemma bufferMultiPacket_queues:
  assumes "bufferMultiPacket p c = Inr c'"
  shows "only_queues c c' \<and> (queue_ok c \<and> doSeq p \<longrightarrow> queue_ok c')"
proof (cases "bufferedPacket c")
  case None
  then obtain m where "c' = (if m then c\<lparr>bufferedPacket := Some (multi_new p)\<rparr> else sendSequenced p c)\<lparr>reentrantScheduled := True\<rparr>"
    using assms by (auto simp: bufferMultiPacket_def rbind_eq_Inr_iff)
  then show ?thesis using multi_seq_new [of p] by (simp add: sendSequenced_def queue_ok_def)
next
  case (Some mp)
  then obtain m where m: "can_merge p = Inr m" using assms by (auto simp: bufferMultiPacket_def rbind_eq_Inr_iff)
  show ?thesis
  proof (cases m)
    case True
    then obtain ok mp' where a: "multi_add p mp = Inr (ok, mp')"
      and c': "c' = (if ok then c\<lparr>bufferedPacket := Some mp'\<rparr>
        else (sendSequenced (multi_getPacket mp') c)\<lparr>bufferedPacket := Some (multi_new p)\<rparr>)"
      using assms Some m by (fastforce simp: bufferMultiPacket_def rbind_eq_Inr_iff split: if_splits)
    show ?thesis using Some multi_seq_add [OF _ a] multi_seq_get [of mp'] multi_seq_new [of p]
      by (simp add: c' sendSequenced_def queue_ok_def)
  next
    case False
    then have "c' = sendSequenced p ((sendSequenced (multi_getPacket mp) c)\<lparr>bufferedPacket := None\<rparr>)"
      using assms Some m by (simp add: bufferMultiPacket_def)
    then show ?thesis using Some multi_seq_get [of mp] by (simp add: sendSequenced_def queue_ok_def)
  qed
qed

lemma disconnect_unavailable [simp]: "\<not> isAvailable (client_disconnect E c)" "\<not> isAvailable (disconnect_msg E c)"
  by (auto simp: client_disconnect_def disconnect_msg_def client_close_def isAvailable_def net_send_def split: sum.split)

lemma catching_cases:
  assumes "catching E c r = Inr c'"
  shows "r = Inr c' \<or> \<not> isAvailable c'"
  using assms by (auto simp: catching_def split: sum.splits err.splits)

lemma sendPacket_queues:
  assumes "sendPacket E p c = Inr c'"
  shows "\<not> isAvailable c' \<or> only_queues c c' \<and> (queue_ok c \<longrightarrow> queue_ok c')"
proof -
  consider "\<not> isAvailable c" | "isAvailable c" "\<not> doSeq p" | "isAvailable c" "doSeq p" "490 \<le> st_size (bstream p)"
    | "isAvailable c" "doSeq p" "\<not> 490 \<le> st_size (bstream p)" by blast
  then show ?thesis
  proof cases
    case 3
    then have "sendFragmented p (flush_buffered c) = Inr c' \<or> \<not> isAvailable c'"
      using assms catching_cases by (auto simp: sendPacket_def)
    then show ?thesis
      using flush_buffered_queues [of c] fold_sendSequenced_queues fragment_loop_doSeq
      by (auto simp: sendFragmented_def rbind_eq_Inr_iff split: if_splits intro: only_queues_trans)
  next
    case 4
    then have "bufferMultiPacket p c = Inr c' \<or> \<not> isAvailable c'"
      using assms catching_cases by (auto simp: sendPacket_def)
    then show ?thesis using bufferMultiPacket_queues 4(2) by blast
  qed (use assms in \<open>auto simp: sendPacket_def catching_def sendSequenceLess_def queue_ok_def\<close>)
qed

subsection \<open>The invariant of the sender\<close>

abbreviation sent :: "base_client \<Rightarrow> int" where
  "sent c \<equiv> uint (serverSequence (proto c))"

text \<open>
  While the connection is up: the packets kept for retransmission are exactly those that were
  sent and not acknowledged, in order; at most 51 are outstanding; and once an
  acknowledgement has been seen, the timer runs for the oldest of them.
\<close>

definition sender_inv :: "base_client \<Rightarrow> bool" where
  "sender_inv c \<longleftrightarrow> (isAvailable c \<longrightarrow>
     queue_ok c \<and> - 1 \<le> acknowledgedServerSequence c \<and> acknowledgedServerSequence c < sent c \<and>
     sent c - acknowledgedServerSequence c \<le> 51 \<and> realServerSequence c = sent c \<and> sent c < 2 ^ 31 \<and>
     map (\<lambda>p. uint (bp_getSequence p)) (sequenceBuffer c) = [acknowledgedServerSequence c + 1 .. sent c - 1] \<and>
     (0 \<le> acknowledgedServerSequence c \<and> sequenceBuffer c \<noteq> [] \<longrightarrow>
        ck_scheduled (checkupEvent c) \<and> ck_packet (checkupEvent c) = Some (hd (sequenceBuffer c))))"

text \<open>
  What is left of it when the peer acknowledges numbers of its own making: the packets that are kept are the latest
  ones, without gaps, from number \<open>f\<close> on. \<open>honest\<close> says that only packets that had been sent were acknowledged,
  \<open>intact\<close> that number 65535 was not acknowledged ahead of everything else.
\<close>

definition window_inv :: "bool \<Rightarrow> bool \<Rightarrow> base_client \<Rightarrow> bool" where
  "window_inv honest intact c \<longleftrightarrow> (isAvailable c \<longrightarrow>
     queue_ok c \<and> - 1 \<le> acknowledgedServerSequence c \<and> acknowledgedServerSequence c \<le> sent c \<and>
     sent c - acknowledgedServerSequence c \<le> 51 \<and> realServerSequence c = sent c \<and> sent c < 2 ^ 31 \<and>
     (\<exists>f. map (\<lambda>p. uint (bp_getSequence p)) (sequenceBuffer c) = [f .. sent c - 1] \<and> 0 \<le> f \<and> f \<le> sent c \<and>
        acknowledgedServerSequence c \<le> f \<and> (intact \<longrightarrow> f \<le> acknowledgedServerSequence c + 1) \<and> (honest \<longrightarrow> f = acknowledgedServerSequence c + 1)) \<and>
     (honest \<and> 0 \<le> acknowledgedServerSequence c \<and> sequenceBuffer c \<noteq> [] \<longrightarrow>
        ck_scheduled (checkupEvent c) \<and> ck_packet (checkupEvent c) = Some (hd (sequenceBuffer c))))"

lemma sender_inv_window: "sender_inv c \<longleftrightarrow> window_inv True b c"
  by (auto simp: sender_inv_def window_inv_def)

definition core :: "base_client \<Rightarrow> _" where
  "core c = (proto c, isAvailable c, sequenceBuffer c, checkupEvent c, bufferedPacket c, sendBuffer c,
     acknowledgedServerSequence c, realServerSequence c, resentPackets c)"

lemma window_inv_core: "core c' = core c \<Longrightarrow> window_inv h b c' = window_inv h b c"
  unfolding core_def window_inv_def queue_ok_def by (simp only: prod.inject)

lemma sender_inv_unavailable: "\<not> isAvailable c \<Longrightarrow> sender_inv c"
  by (simp add: sender_inv_def)

lemma window_inv_unavailable: "\<not> isAvailable c \<Longrightarrow> window_inv h b c"
  by (simp add: window_inv_def)

lemma core_upd [simp]:
  "core (c\<lparr>reentrantScheduled := x1\<rparr>) = core c" "core (c\<lparr>sendUnreliableBuffer := x2\<rparr>) = core c"
  "core (c\<lparr>maxOutstanding := x3\<rparr>) = core c" "core (c\<lparr>remoteStats := x4\<rparr>) = core c" "core (net_send p c) = core c"
  by (simp_all add: core_def isAvailable_def net_send_def)

lemma net_send_fields [simp]:
  "proto (net_send p c) = proto c" "sequenceBuffer (net_send p c) = sequenceBuffer c" "checkupEvent (net_send p c) = checkupEvent c"
  "isAvailable (net_send p c) = isAvailable c" "acknowledgedServerSequence (net_send p c) = acknowledgedServerSequence c"
  "wire (net_send p c) = wire c @ [sbuf (bstream p)]" "resentPackets (net_send p c) = resentPackets c"
  by (simp_all add: net_send_def isAvailable_def)

lemma prepareSequence_ok:
  assumes "prepareSequence pr p = Inr (pr', p')" "doSeq p"
  shows "pr' = pr\<lparr>serverSequence := serverSequence pr + 1\<rparr> \<and> doSeq p' \<and> bsequence p' = serverSequence pr"
  using assms by (auto simp: prepareSequence_def bp_close_def bp_setSequence_def rbind_eq_Inr_iff Let_def split: if_splits)

lemma with_buffer_keeps: "with_buffer f p = Inr p' \<Longrightarrow> doSeq p' = doSeq p \<and> bsequence p' = bsequence p"
  by (auto simp: with_buffer_def rbind_eq_Inr_iff)

lemma transform_keeps: "transform d pr p = Inr p' \<Longrightarrow> doSeq p' = doSeq p \<and> bsequence p' = bsequence p"
  unfolding transform_def rbind_eq_Inr_iff
  by (auto simp: rbind_eq_Inr_iff split: if_splits dest!: with_buffer_keeps)

lemma prepared_keeps:
  "prepareEncryptionAndCompression d pr p = Inr p' \<Longrightarrow> doSeq p' = doSeq p \<and> bsequence p' = bsequence p"
  by (auto simp: prepareEncryptionAndCompression_def dest: transform_keeps split: sum.splits err.splits)

lemma window_full_iff:
  assumes "window_inv h b c" "isAvailable c"
  shows "window_full c \<longleftrightarrow> sent c - acknowledgedServerSequence c > 50"
proof -
  have "serverSequence (proto c) - word_of_int (acknowledgedServerSequence c) = word_of_int (sent c - acknowledgedServerSequence c)"
    by (simp only: wi_hom_sub [symmetric] word_of_int_uint)
  moreover have "uint (word_of_int (sent c - acknowledgedServerSequence c) :: 32 word) = sent c - acknowledgedServerSequence c"
    using assms by (intro uint_small) (simp_all add: window_inv_def)
  ultimately show ?thesis by (simp add: window_full_def word_less_def)
qed

lemma send_reliable_inv:
  assumes "send_reliable E p c = Inr c'" "window_inv h b c" "isAvailable c" "\<not> window_full c" "doSeq p" "sent c + 1 < 2 ^ 31"
  shows "window_inv h b c' \<and> (isAvailable c' \<longrightarrow> sent c' = sent c + 1 \<and> resentPackets c' = resentPackets c \<and>
    acknowledgedServerSequence c' = acknowledgedServerSequence c)"
proof (cases "prepareSequence (proto c) p")
  case (Inl e)
  then have "\<not> isAvailable c'" using assms(1) by (auto simp: send_reliable_def Let_def split: err.splits if_splits)
  then show ?thesis by (simp add: window_inv_unavailable)
next
  case (Inr x)
  then obtain pr q where q: "prepareSequence (proto c) p = Inr (pr, q)" by (cases x) auto
  note pq = prepareSequence_ok [OF q assms(5)]
  obtain q' where q': "prepareEncryptionAndCompression (deflate E) pr q = Inr q'"
    using assms(1) q by (auto simp: send_reliable_def Let_def rbind_eq_Inr_iff)
  let ?first = "sequenceBuffer c = []" and ?c = "c\<lparr>proto := pr, realServerSequence := realServerSequence c + 1\<rparr>"
  let ?k = "if ?first then (ck_update q' (checkupEvent c))\<lparr>ck_scheduled := True\<rparr> else checkupEvent c"
  have c': "core c' = core (?c\<lparr>checkupEvent := ?k, sequenceBuffer := sequenceBuffer c @ [q']\<rparr>)"
    using assms(1) q q' by (auto simp: send_reliable_def Let_def core_def isAvailable_def net_send_def)
  have S: "uint (serverSequence pr) = sent c + 1"
    using pq assms(6) uint_small [of "sent c + 1"] by (simp add: wi_hom_succ [symmetric] add.commute word_succ_p1 [symmetric])
  have sq: "uint (bp_getSequence q') = sent c" using prepared_keeps [OF q'] pq by (simp add: bp_getSequence_def)
  have w: "sent c - acknowledgedServerSequence c \<le> 50" using assms(2-4) window_full_iff by simp
  obtain f where f: "map (\<lambda>p. uint (bp_getSequence p)) (sequenceBuffer c) = [f .. sent c - 1]" "0 \<le> f" "f \<le> sent c" "acknowledgedServerSequence c \<le> f"
      "b \<longrightarrow> f \<le> acknowledgedServerSequence c + 1" "h \<longrightarrow> f = acknowledgedServerSequence c + 1"
    using assms(2,3) unfolding window_inv_def by blast
  let ?d = "?c\<lparr>checkupEvent := ?k, sequenceBuffer := sequenceBuffer c @ [q']\<rparr>"
  have "map (\<lambda>p. uint (bp_getSequence p)) (sequenceBuffer ?d) = [f .. sent ?d - 1]" using f(1) sq S upto_rec2 [OF f(3)] by simp
  moreover have "isAvailable ?d" "queue_ok ?d" "acknowledgedServerSequence ?d = acknowledgedServerSequence c" "realServerSequence ?d = sent ?d"
      "sent ?d = sent c + 1" "- 1 \<le> acknowledgedServerSequence c" "acknowledgedServerSequence c \<le> sent c"
    using assms(2,3) S by (auto simp: window_inv_def isAvailable_def queue_ok_def)
  moreover have "h \<and> 0 \<le> acknowledgedServerSequence c \<longrightarrow> ck_scheduled (checkupEvent ?d) \<and> ck_packet (checkupEvent ?d) = Some (hd (sequenceBuffer ?d))"
    using assms(2,3) by (auto simp: window_inv_def ck_update_def)
  ultimately have "window_inv h b ?d" using f(2-6) w assms(6) unfolding window_inv_def by (intro impI conjI exI [of _ f]) simp_all
  then show ?thesis using c' S by (auto simp: window_inv_core [OF c'] core_def)
qed

lemma getNext_inv:
  assumes "getNextSequencedPacket E c = (r, c1)" "window_inv h b c" "isAvailable c"
  shows "window_inv h b c1 \<and> (case r of
      None \<Rightarrow> isAvailable c1 \<longrightarrow> resentPackets c1 = resentPackets c \<and> acknowledgedServerSequence c1 = acknowledgedServerSequence c
    | Some p \<Rightarrow> isAvailable c1 \<and> \<not> window_full c1 \<and> doSeq p \<and> sent c1 = sent c \<and> resentPackets c1 = resentPackets c \<and>
        acknowledgedServerSequence c1 = acknowledgedServerSequence c)"
proof (cases "window_full c")
  case True
  let ?k = "(checkupEvent c)\<lparr>ck_scheduled := True\<rparr>"
  have w: "core (window_wait c) = core (c\<lparr>checkupEvent := ?k\<rparr>)" by (simp add: window_wait_def Let_def core_def isAvailable_def)
  have "c1 = window_wait c \<or> c1 = client_disconnect E (window_wait c)"
    using assms(1) True by (auto simp: getNextSequencedPacket_def Let_def split: if_splits)
  then have "core c1 = core (c\<lparr>checkupEvent := ?k\<rparr>) \<or> \<not> isAvailable c1" using w by auto
  moreover have "window_inv h b (c\<lparr>checkupEvent := ?k\<rparr>)" using assms(2) by (auto simp: window_inv_def isAvailable_def queue_ok_def)
  moreover have "r = None" using assms(1) True by (simp add: getNextSequencedPacket_def Let_def)
  moreover have "resentPackets c1 = resentPackets c \<and> acknowledgedServerSequence c1 = acknowledgedServerSequence c"
    if "core c1 = core (c\<lparr>checkupEvent := ?k\<rparr>)" using that by (simp add: core_def)
  ultimately show ?thesis
    using window_inv_core [of c1 "c\<lparr>checkupEvent := ?k\<rparr>"] window_inv_unavailable [of c1] by fastforce
next
  case False
  have q: "queue_ok c" using assms(2,3) by (simp add: window_inv_def)
  show ?thesis
  proof (cases "sendBuffer c")
    case (Cons p rest)
    then have "r = Some p" "c1 = c\<lparr>sendBuffer := rest\<rparr>" using assms(1) False by (simp_all add: getNextSequencedPacket_def)
    then show ?thesis using assms(2,3) q False Cons
      by (auto simp: window_inv_def queue_ok_def isAvailable_def window_full_def)
  next
    case Nil
    show ?thesis
    proof (cases "bufferedPacket c")
      case None
      then have "r = None" "c1 = c" using assms(1) False Nil by (simp_all add: getNextSequencedPacket_def)
      then show ?thesis using assms(2) by simp
    next
      case (Some mp)
      then have "r = Some (multi_getPacket mp)" "c1 = c\<lparr>bufferedPacket := None\<rparr>"
        using assms(1) False Nil by (simp_all add: getNextSequencedPacket_def)
      then show ?thesis using assms(2,3) q False Some multi_seq_get [of mp]
        by (auto simp: window_inv_def queue_ok_def isAvailable_def window_full_def)
    qed
  qed
qed

definition quiet :: "base_client \<Rightarrow> base_client \<Rightarrow> bool" where
  "quiet c c' \<longleftrightarrow> (isAvailable c' \<longrightarrow> resentPackets c' = resentPackets c \<and> acknowledgedServerSequence c' = acknowledgedServerSequence c)"

lemma sendReliablePackets_inv:
  assumes "sendReliablePackets E n k c = Inr (k', c')" "window_inv h b c" "sent c + int n < 2 ^ 31"
  shows "window_inv h b c' \<and> quiet c c'"
  using assms
proof (induction n arbitrary: k c)
  case 0
  then show ?case by (auto simp: sendReliablePackets.simps window_inv_core [OF core_upd(1)] quiet_def isAvailable_def)
next
  case (Suc n)
  show ?case
  proof (cases "isAvailable c")
    case False
    then show ?thesis using Suc by (simp add: sendReliablePackets.simps)
  next
    case True
    obtain r c1 where g: "getNextSequencedPacket E c = (r, c1)" by (cases "getNextSequencedPacket E c")
    note gi = getNext_inv [OF g Suc.prems(2) True]
    show ?thesis
    proof (cases r)
      case None
      then show ?thesis using Suc.prems(1) g gi True
        by (auto simp: sendReliablePackets.simps window_inv_core [OF core_upd(1)] quiet_def isAvailable_def split: if_splits)
    next
      case (Some p)
      then obtain c2 where c2: "send_reliable E p c1 = Inr c2"
        "(if isAvailable c2 then sendReliablePackets E n (k + 1) c2 else Inr (k, c2)) = Inr (k', c')"
        using Suc.prems(1) g True by (auto simp: sendReliablePackets.simps rbind_eq_Inr_iff)
      have i2: "window_inv h b c2 \<and> (isAvailable c2 \<longrightarrow> sent c2 = sent c1 + 1 \<and> resentPackets c2 = resentPackets c1 \<and>
          acknowledgedServerSequence c2 = acknowledgedServerSequence c1)"
        using gi Some Suc.prems(3) by (intro send_reliable_inv [OF c2(1)]) simp_all
      show ?thesis
      proof (cases "isAvailable c2")
        case True
        then have "window_inv h b c' \<and> quiet c2 c'" using Suc.IH [of "k + 1" c2] i2 c2(2) gi Some Suc.prems(3) by simp
        then show ?thesis using i2 True gi Some by (simp add: quiet_def)
      next
        case False
        then show ?thesis using i2 c2(2) by (simp add: quiet_def)
      qed
    qed
  qed
qed

lemma sendUnreliablePackets_core: "sendUnreliablePackets E n c = Inr c' \<Longrightarrow> core c' = core c"
proof (induction n arbitrary: c)
  case (Suc n)
  show ?case
  proof (cases "sendUnreliableBuffer c")
    case Nil
    then show ?thesis using Suc by (auto simp: sendUnreliablePackets.simps getNextUnreliablePacket_def split: if_splits)
  next
    case (Cons p rest)
    show ?thesis
    proof (cases "isAvailable c")
      case False
      then show ?thesis using Suc by (simp add: sendUnreliablePackets.simps)
    next
      case True
      let ?c = "c\<lparr>sendUnreliableBuffer := rest\<rparr>"
      let ?r = "rbind (bp_close p) (prepareEncryptionAndCompression (deflate E) (proto c))"
      have g: "getNextUnreliablePacket c = (Some p, ?c)" using Cons by (simp add: getNextUnreliablePacket_def)
      show ?thesis
      proof (cases ?r)
        case (Inl e)
        then have "c' = ?c" using Suc.prems True g by (cases e) (simp_all add: sendUnreliablePackets.simps)
        then show ?thesis by simp
      next
        case (Inr q)
        then have "sendUnreliablePackets E n (net_send q ?c) = Inr c'" using Suc.prems True g by (simp add: sendUnreliablePackets.simps)
        then show ?thesis using Suc.IH by fastforce
      qed
    qed
  qed
qed (auto simp: sendUnreliablePackets.simps)

lemma client_run_inv:
  assumes "client_run E c = Inr c'" "window_inv h b c" "sent c + 8 < 2 ^ 31"
  shows "window_inv h b c' \<and> quiet c c'"
proof -
  obtain k c1 where c1: "sendReliablePackets E 8 0 c = Inr (k, c1)" "sendUnreliablePackets E 8 c1 = Inr c'"
    using assms(1) unfolding client_run_def rbind_eq_Inr_iff by (metis case_prod_conv surj_pair)
  have "window_inv h b c1 \<and> quiet c c1" using assms(3) by (intro sendReliablePackets_inv [OF c1(1) assms(2)]) simp
  then show ?thesis
    using sendUnreliablePackets_core [OF c1(2)] window_inv_core [OF sendUnreliablePackets_core [OF c1(2)]] by (simp add: quiet_def core_def)
qed

lemma dropWhile_upto:
  "map f xs = [a + 1 .. n] \<Longrightarrow> a \<le> t \<Longrightarrow> t \<le> n \<Longrightarrow> dropWhile (\<lambda>x. f x \<le> t) xs = drop (nat (t - a)) xs"
proof (induction xs arbitrary: a)
  case (Cons x xs)
  have "a + 1 \<le> n"
  proof (rule ccontr)
    assume "\<not> a + 1 \<le> n"
    then show False using Cons.prems(1) by simp
  qed
  then have "f x = a + 1" "map f xs = [a + 1 + 1 .. n]" using Cons.prems(1) by (simp_all add: upto_rec1 [of "a + 1" n])
  moreover have "nat (t - (a + 1)) = nat (t - a) - Suc 0" by simp
  ultimately show ?case using Cons.IH [of "a + 1"] Cons.prems(2,3)
    by (cases "t = a") (auto simp: drop_Cons')
qed simp

lemma drop_upto: "a \<le> t \<Longrightarrow> t \<le> n \<Longrightarrow> drop (nat (t - a)) [a + 1 .. n] = [t + 1 .. n]"
proof (induction "nat (t - a)" arbitrary: a)
  case (Suc k)
  then have "[a + 1 .. n] = (a + 1) # [a + 1 + 1 .. n]" by (intro upto_rec1) simp
  moreover have "nat (t - a) = Suc (nat (t - (a + 1)))" using Suc.hyps(2) by simp
  ultimately show ?case using Suc.hyps(1) [of "a + 1"] Suc.hyps(2) Suc.prems by simp
qed simp

lemma ack_effect:
  fixes e :: "64 word" and c :: base_client and t :: int
  assumes inv: "sender_inv c" "isAvailable c" and t: "0 \<le> t" "t < sent c" "sent c - t < 2 ^ 16" "acknowledgedServerSequence c \<le> t"
  defines "c' \<equiv> acknowledgeServerPackets e (word_of_int t) c"
  shows "acknowledgedServerSequence c' = t \<and> sequenceBuffer c' = drop (nat (t - acknowledgedServerSequence c)) (sequenceBuffer c) \<and>
    isAvailable c' \<and> proto c' = proto c \<and> realServerSequence c' = realServerSequence c \<and> queue_ok c' \<and> wire c' = wire c \<and>
    (sequenceBuffer c' \<noteq> [] \<longrightarrow> ck_scheduled (checkupEvent c') \<and> ck_packet (checkupEvent c') = Some (hd (sequenceBuffer c')))"
proof -
  have r: "ack_realseq c (word_of_int t) = t"
    using inv t by (intro ack_realseq_correct) (auto simp: sender_inv_def)
  have w: "(\<not> bp_getSequence p > word_of_int t) \<longleftrightarrow> uint (bp_getSequence p) \<le> t" for p
    using uint_small [of t] t(1,2) inv by (simp add: word_less_def sender_inv_def not_less)
  have dw: "dropWhile (\<lambda>p. uint (bp_getSequence p) \<le> t) (sequenceBuffer c) = drop (nat (t - acknowledgedServerSequence c)) (sequenceBuffer c)"
    using inv t(2,4) by (intro dropWhile_upto [of _ _ _ "sent c - 1"]) (simp_all add: sender_inv_def)
  show ?thesis
    using inv t(4) unfolding c'_def acknowledgeServerPackets_def r Let_def
    by (auto simp: isAvailable_def queue_ok_def sender_inv_def flushSendBuffer_def w dw ck_update_def decreaseCheckupTime_def split: list.split)
qed

lemma ack_stale:
  assumes "sender_inv c" "isAvailable c" "0 \<le> t" "t < sent c" "sent c - t < 2 ^ 16" "t < acknowledgedServerSequence c"
  shows "acknowledgeServerPackets e (word_of_int t) c = c"
proof -
  have "ack_realseq c (word_of_int t) = t"
    using assms by (intro ack_realseq_correct) (auto simp: sender_inv_def)
  then show ?thesis using assms by (simp add: acknowledgeServerPackets_def)
qed

lemma ack_inv:
  assumes "sender_inv c" "0 \<le> t" "t < sent c" "sent c - t < 2 ^ 16"
  shows "sender_inv (acknowledgeServerPackets e (word_of_int t) c)"
proof (cases "isAvailable c \<and> acknowledgedServerSequence c \<le> t")
  case True
  note a = ack_effect [OF assms(1) conjunct1 [OF True] assms(2-4) conjunct2 [OF True], of e]
  let ?d = "acknowledgeServerPackets e (word_of_int t) c"
  have "map (\<lambda>p. uint (bp_getSequence p)) (sequenceBuffer ?d) = [t + 1 .. sent c - 1]"
    using a True assms(1,3) drop_upto [of "acknowledgedServerSequence c" t "sent c - 1"]
    by (simp add: sender_inv_def drop_map [symmetric])
  then show ?thesis using a True assms by (auto simp: sender_inv_def)
next
  case False
  then show ?thesis using assms ack_stale [OF assms(1) _ assms(2-4)]
    by (cases "isAvailable c") (auto simp: acknowledgeServerPackets_def)
qed

lemma resend_fold:
  "fold (\<lambda>pack c. (net_send pack c)\<lparr>resentPackets := resentPackets c + 1\<rparr>) ps c =
   c\<lparr>wire := wire c @ map (\<lambda>p. sbuf (bstream p)) ps, resentPackets := resentPackets c + int (length ps)\<rparr>"
  by (induction ps arbitrary: c) (simp_all add: net_send_def)

lemma timer_effect:
  assumes inv: "sender_inv c" "isAvailable c" "0 \<le> acknowledgedServerSequence c" "sequenceBuffer c \<noteq> []"
  shows "\<exists>c'. checkup_run E c = Inr c' \<and> sender_inv c' \<and> ck_scheduled (checkupEvent c') \<and>
    wire c' = wire c @ map (\<lambda>p. sbuf (bstream p)) (take (nat (maxPacketResent E c)) (sequenceBuffer c)) \<and>
    sequenceBuffer c' = sequenceBuffer c \<and> isAvailable c'"
proof -
  let ?p = "hd (sequenceBuffer c)"
  have i: "ck_packet (checkupEvent c) = Some ?p" "map (\<lambda>p. uint (bp_getSequence p)) (sequenceBuffer c) = [acknowledgedServerSequence c + 1 .. sent c - 1]"
    using inv by (simp_all add: sender_inv_def)
  have "uint (bp_getSequence ?p) = acknowledgedServerSequence c + 1"
  proof -
    have "acknowledgedServerSequence c + 1 \<le> sent c - 1"
      using i(2) inv(4) by (metis list.map_disc_iff not_le upto_empty)
    then have "hd [acknowledgedServerSequence c + 1 .. sent c - 1] = acknowledgedServerSequence c + 1" by (simp add: upto_rec1)
    then show ?thesis using i(2) inv(4) by (metis hd_map)
  qed
  then have "bp_getSequence ?p > word_of_int (acknowledgedServerSequence c)"
    using uint_small [of "acknowledgedServerSequence c"] inv by (simp add: word_less_def sender_inv_def)
  then show ?thesis
    using inv i unfolding checkup_run_def Let_def checkupServerPackets_def resend_all_def
    by (auto simp: resend_fold isAvailable_def maxPacketResent_def sender_inv_def queue_ok_def ck_update_def increaseCheckupTime_def)
qed

lemma timer_stalled:
  assumes "checkup_run E c = Inr c'" "acknowledgedServerSequence c = - 1"
  shows "c' = c\<lparr>checkupEvent := (checkupEvent c)\<lparr>ck_scheduled := False\<rparr>\<rparr>"
proof -
  have "\<not> (- 1 :: 32 word) < w" for w by (simp add: not_less)
  then show ?thesis using assms by (auto simp: checkup_run_def Let_def checkupServerPackets_def split: option.splits if_splits)
qed

subsection \<open>Runs of the sender\<close>

text \<open>
  The application submits a packet, the reentrant task runs, an acknowledgement with any number arrives, or the retransmission timer fires.
  Sequence numbers stay below \<open>2 ^ 31\<close>, as \<open>acknowledgedServerSequence\<close> is an \<open>int\<close>.
\<close>

datatype sender_event = Submit base_packet | Tick | Acked "64 word" "16 word" | Timeout

inductive sender_step :: "net_env \<Rightarrow> sender_event \<Rightarrow> base_client \<Rightarrow> base_client \<Rightarrow> bool" for E where
  step_submit: "sendPacket E p c = Inr c' \<Longrightarrow> sender_step E (Submit p) c c'"
| step_tick: "sent c + 8 < 2 ^ 31 \<Longrightarrow> client_run E c = Inr c' \<Longrightarrow> sender_step E Tick c c'"
| step_ack: "sender_step E (Acked e seq) c (acknowledgeServerPackets e seq c)"
| step_timeout: "ck_scheduled (checkupEvent c) \<Longrightarrow> checkup_run E c = Inr c' \<Longrightarrow> sender_step E Timeout c c'"

text \<open>The peer acknowledges a packet that was sent at most 65535 packets ago, or number 65535 before it acknowledged anything and before it was sent.\<close>

definition honest_event :: "base_client \<Rightarrow> sender_event \<Rightarrow> bool" where
  "honest_event c ev \<longleftrightarrow> (case ev of Acked e seq \<Rightarrow> (\<exists>t \<in> {max 0 (sent c - 0xFFFF) ..< sent c}. seq = word_of_int t) | _ \<Rightarrow> True)"

definition early_event :: "base_client \<Rightarrow> sender_event \<Rightarrow> bool" where
  "early_event c ev \<longleftrightarrow> (case ev of Acked e seq \<Rightarrow> seq = 0xFFFF \<and> acknowledgedServerSequence c = - 1 \<and> sent c < 0xFFFF | _ \<Rightarrow> False)"

inductive sender_trace :: "net_env \<Rightarrow> sender_event list \<Rightarrow> bool \<Rightarrow> bool \<Rightarrow> base_client \<Rightarrow> bool" for E where
  trace_init: "sender_trace E [] True True (client_initialize E (client_new E))"
| trace_step: "sender_trace E evs honest intact c \<Longrightarrow> sender_step E ev c c' \<Longrightarrow>
    sender_trace E (evs @ [ev]) (honest \<and> honest_event c ev) (intact \<and> \<not> early_event c ev) c'"

inductive_cases sender_stepE: "sender_step E ev c c'"

lemma initial_inv: "window_inv True True (client_initialize E (client_new E))"
  by (simp add: window_inv_def client_initialize_def client_new_def balancePacketCheckupTime_def setPacketCheckupTime_def queue_ok_def)

lemma submit_inv:
  assumes "sendPacket E p c = Inr c'" "window_inv h b c"
  shows "window_inv h b c' \<and> quiet c c'"
proof (cases "isAvailable c'")
  case False
  then show ?thesis by (simp add: window_inv_unavailable quiet_def)
next
  case True
  then have q: "only_queues c c'" "queue_ok c \<longrightarrow> queue_ok c'" using sendPacket_queues [OF assms(1)] by blast+
  show ?thesis using assms(2) q(2) only_queues_fields [OF q(1)] by (simp add: window_inv_def quiet_def)
qed

lemma timer_inv:
  assumes "checkup_run E c = Inr c'" "sender_inv c"
  shows "sender_inv c'"
proof (cases "isAvailable c \<and> 0 \<le> acknowledgedServerSequence c \<and> sequenceBuffer c \<noteq> []")
  case True
  then obtain c1 where "checkup_run E c = Inr c1" "sender_inv c1" using timer_effect [of c E] assms(2) by blast
  then show ?thesis using assms(1) by simp
next
  case False
  let ?d = "c\<lparr>checkupEvent := (checkupEvent c)\<lparr>ck_scheduled := False\<rparr>\<rparr>"
  have "c' = ?d \<or> \<not> isAvailable c"
  proof (cases "acknowledgedServerSequence c = - 1")
    case True
    then show ?thesis using timer_stalled [OF assms(1)] by simp
  next
    case False
    then have "isAvailable c \<longrightarrow> sequenceBuffer c = []" using \<open>\<not> (_ \<and> _)\<close> assms(2) by (auto simp: sender_inv_def)
    then show ?thesis
      using assms(1) by (auto simp: checkup_run_def Let_def checkupServerPackets_def split: option.splits if_splits)
  qed
  moreover have "\<not> isAvailable c \<Longrightarrow> \<not> isAvailable c'"
    using assms(1) by (auto simp: checkup_run_def Let_def checkupServerPackets_def isAvailable_def split: option.splits if_splits)
  moreover have "isAvailable c \<Longrightarrow> sender_inv ?d"
    using assms(2) False by (auto simp: sender_inv_def isAvailable_def queue_ok_def)
  ultimately show ?thesis using sender_inv_unavailable by blast
qed

lemma timer_keeps:
  "checkup_run E c = Inr c' \<Longrightarrow> proto c' = proto c \<and> isAvailable c' = isAvailable c \<and> sequenceBuffer c' = sequenceBuffer c \<and> queue_ok c' = queue_ok c \<and>
     acknowledgedServerSequence c' = acknowledgedServerSequence c \<and> realServerSequence c' = realServerSequence c"
  by (auto simp: checkup_run_def Let_def checkupServerPackets_def resend_all_def resend_fold isAvailable_def queue_ok_def split: option.splits if_splits)

lemma timer_window:
  assumes "checkup_run E c = Inr c'" "window_inv h b c"
  shows "window_inv h b c'"
proof (cases h)
  case True
  then show ?thesis using timer_inv [OF assms(1)] assms(2) sender_inv_window by simp
next
  case False
  then show ?thesis using timer_keeps [OF assms(1)] assms(2) by (simp add: window_inv_def)
qed

lemma ack_realseq_bounds:
  assumes "sent c < 2 ^ 31" "- 1 \<le> acknowledgedServerSequence c"
  shows "ack_realseq c seq \<le> sent c"
    "ack_realseq c seq = - 1 \<Longrightarrow> acknowledgedServerSequence c = - 1 \<Longrightarrow> seq = 0xFFFF \<and> sent c < 0xFFFF"
proof -
  let ?a = "acknowledgedServerSequence c"
  define x where "x = (if uint seq < ?a then uint seq + 0x10000 * (sent c div 0x10000) else uint seq)"
  have m: "0 \<le> uint seq" "uint seq < 0x10000" using uint_bounded [of seq] by simp_all
  have d: "0 \<le> sent c div 0x10000" "0x10000 * (sent c div 0x10000) \<le> sent c" by (simp_all add: pos_imp_zdiv_nonneg_iff)
  have x: "0 \<le> x" "x < 2 ^ 32" "x < 0x10000 + sent c" using m d assms(1) unfolding x_def by auto
  have r: "ack_realseq c seq = (if x > sent c then x - 0x10000 else x)"
    unfolding ack_realseq_def Let_def ack_high [OF assms(1)] word_less_def by (simp only: uint_small [OF x(1,2)] x_def [symmetric])
  show "ack_realseq c seq \<le> sent c" using x(3) unfolding r by auto
  assume "ack_realseq c seq = - 1" "?a = - 1"
  moreover define n where "n = uint seq"
  ultimately have "n = 0xFFFF \<and> sent c < 0xFFFF" using m unfolding r x_def n_def [symmetric] by (auto split: if_splits)
  then show "seq = 0xFFFF \<and> sent c < 0xFFFF" unfolding n_def by (metis word_of_int_numeral word_of_int_uint)
qed

lemma dropWhile_from: "map g xs = [f .. n] \<Longrightarrow> map g (dropWhile (\<lambda>x. g x \<le> r) xs) = [max f (r + 1) .. n]" for f n r :: int
proof (induction xs arbitrary: f)
  case (Cons x xs)
  then have "f \<le> n" by (metis list.map_disc_iff list.distinct(1) not_le upto_empty)
  then have "g x = f" "map g xs = [f + 1 .. n]" "f \<le> r \<Longrightarrow> max (f + 1) (r + 1) = max f (r + 1)" using Cons.prems by (simp_all add: upto_rec1)
  then show ?case using Cons.IH [of "f + 1"] Cons.prems by auto
qed auto

lemma ack_any:
  assumes "window_inv h b c" "isAvailable c" "\<not> early_event c (Acked e seq) \<or> \<not> b'" "b' \<longrightarrow> b"
  shows "window_inv False b' (acknowledgeServerPackets e seq c)"
proof (cases "ack_realseq c seq < acknowledgedServerSequence c")
  case True
  then show ?thesis using assms by (auto simp: acknowledgeServerPackets_def window_inv_def)
next
  case False
  let ?r = "ack_realseq c seq" and ?c = "acknowledgeServerPackets e seq c"
  obtain f where f: "map (\<lambda>p. uint (bp_getSequence p)) (sequenceBuffer c) = [f .. sent c - 1]" "0 \<le> f" "f \<le> sent c" "b \<longrightarrow> f \<le> acknowledgedServerSequence c + 1"
    using assms(1,2) unfolding window_inv_def by blast
  have i: "queue_ok c" "- 1 \<le> acknowledgedServerSequence c" "sent c - acknowledgedServerSequence c \<le> 51" "realServerSequence c = sent c" "sent c < 2 ^ 31"
    using assms(1,2) by (auto simp: window_inv_def)
  note r = ack_realseq_bounds [OF i(5,2)]
  have c': "acknowledgedServerSequence ?c = ?r" "sequenceBuffer ?c = dropWhile (\<lambda>p. \<not> bp_getSequence p > word_of_int ?r) (sequenceBuffer c)"
    "isAvailable ?c" "proto ?c = proto c" "realServerSequence ?c = realServerSequence c" "queue_ok ?c"
    using False assms(2) i(1) by (auto simp: acknowledgeServerPackets_def Let_def isAvailable_def queue_ok_def flushSendBuffer_def split: list.split)
  have "\<exists>g. map (\<lambda>p. uint (bp_getSequence p)) (sequenceBuffer ?c) = [g .. sent c - 1] \<and> 0 \<le> g \<and> g \<le> sent c \<and> ?r \<le> g \<and> (b' \<longrightarrow> g \<le> ?r + 1)"
  proof (cases "?r = - 1")
    case True
    then have "early_event c (Acked e seq)" using r(2) False i(2) by (auto simp: early_event_def)
    moreover have "sequenceBuffer ?c = []" unfolding c'(2) True by (simp add: not_less)
    ultimately show ?thesis using assms(3) True f(2,3) by (intro exI [of _ "sent c"]) auto
  next
    case False
    then have r0: "0 \<le> ?r" using i(2) \<open>\<not> ?r < _\<close> by simp
    have "(\<not> bp_getSequence p > word_of_int ?r) \<longleftrightarrow> uint (bp_getSequence p) \<le> ?r" for p
      using uint_small [of ?r] r0 r(1) [of seq] i(5) by (simp add: word_less_def not_less)
    then have m: "map (\<lambda>p. uint (bp_getSequence p)) (sequenceBuffer ?c) = [max f (?r + 1) .. sent c - 1]" unfolding c'(2) using dropWhile_from [OF f(1)] by simp
    show ?thesis
    proof (cases "?r = sent c")
      case True
      then show ?thesis using m by (intro exI [of _ "sent c"]) simp
    next
      case False
      then show ?thesis using m f r0 r(1) [of seq] assms(4) \<open>\<not> ?r < _\<close> by (intro exI [of _ "max f (?r + 1)"]) auto
    qed
  qed
  then show ?thesis using c' i r(1) [of seq] \<open>\<not> ?r < _\<close> unfolding window_inv_def by auto
qed

lemma ack_window:
  assumes "window_inv h b c"
  shows "window_inv (h \<and> honest_event c (Acked e seq)) (b \<and> \<not> early_event c (Acked e seq)) (acknowledgeServerPackets e seq c)"
proof (cases "isAvailable c")
  case False
  then show ?thesis by (simp add: acknowledgeServerPackets_def window_inv_def)
next
  case True
  show ?thesis
  proof (cases "h \<and> honest_event c (Acked e seq)")
    case True
    then obtain t where "0 \<le> t" "t < sent c" "sent c - t < 2 ^ 16" "seq = word_of_int t" by (auto simp: honest_event_def)
    then show ?thesis using True ack_inv [of c t e] assms sender_inv_window by simp
  next
    case False
    then show ?thesis using ack_any [OF assms True, of e seq "b \<and> \<not> early_event c (Acked e seq)"] by auto
  qed
qed

lemma step_inv: "sender_step E ev c c' \<Longrightarrow> window_inv h b c \<Longrightarrow> window_inv (h \<and> honest_event c ev) (b \<and> \<not> early_event c ev) c'"
proof (induction rule: sender_step.induct)
  case (step_ack e seq c)
  then show ?case by (rule ack_window)
qed (auto simp: honest_event_def early_event_def dest: submit_inv client_run_inv timer_window)

lemma trace_inv: "sender_trace E evs h b c \<Longrightarrow> window_inv h b c"
  by (induction rule: sender_trace.induct) (auto intro: initial_inv step_inv)

lemma sendReliablePackets_unavailable:
  "sendReliablePackets E n k c = Inr (k', c') \<Longrightarrow> \<not> isAvailable c \<Longrightarrow> \<not> isAvailable c'"
  by (induction n arbitrary: k) (auto simp: sendReliablePackets.simps isAvailable_def)

lemma step_available: "sender_step E ev c c' \<Longrightarrow> isAvailable c' \<Longrightarrow> isAvailable c"
proof (induction rule: sender_step.induct)
  case (step_submit p c c')
  then show ?case by (auto simp: sendPacket_def split: if_splits)
next
  case (step_tick c c')
  then obtain k c1 where c1: "sendReliablePackets E 8 0 c = Inr (k, c1)" "sendUnreliablePackets E 8 c1 = Inr c'"
    unfolding client_run_def rbind_eq_Inr_iff by (metis case_prod_conv surj_pair)
  then show ?case
    using step_tick(3) sendReliablePackets_unavailable [OF c1(1)] sendUnreliablePackets_core [OF c1(2)] by (auto simp: core_def)
next
  case (step_ack e seq c)
  then show ?case by (auto simp: acknowledgeServerPackets_def split: if_splits)
next
  case (step_timeout c c')
  then show ?case
    by (auto simp: checkup_run_def Let_def checkupServerPackets_def isAvailable_def split: option.splits if_splits)
qed

lemma no_ack_step:
  assumes "sender_step E ev c c'" "window_inv h b c" "\<forall>e t. ev \<noteq> Acked e t"
    "isAvailable c \<longrightarrow> acknowledgedServerSequence c = - 1 \<and> resentPackets c = 0" "isAvailable c'"
  shows "acknowledgedServerSequence c' = - 1 \<and> resentPackets c' = 0"
  using assms step_available [OF assms(1,5)]
proof (induction rule: sender_step.induct)
  case (step_submit p c c')
  then show ?case using submit_inv [of E p c c' h b] by (simp add: quiet_def)
next
  case (step_tick c c')
  then show ?case using client_run_inv [of E c c' h b] by (simp add: quiet_def)
next
  case (step_timeout c c')
  then show ?case using timer_stalled [of E c c'] by simp
qed auto

lemma no_ack_trace:
  "sender_trace E evs h b c \<Longrightarrow> \<forall>e t. Acked e t \<notin> set evs \<Longrightarrow> isAvailable c \<Longrightarrow>
   acknowledgedServerSequence c = - 1 \<and> resentPackets c = 0"
proof (induction rule: sender_trace.induct)
  case trace_init
  then show ?case by (simp add: client_initialize_def balancePacketCheckupTime_def setPacketCheckupTime_def)
next
  case (trace_step evs h b c ev c')
  then show ?case using no_ack_step [OF trace_step(2) trace_inv [OF trace_step(1)]] by auto
qed

subsection \<open>The timer interval\<close>

definition ck_times :: "base_client \<Rightarrow> 32 word \<times> 32 word \<times> 32 word" where
  "ck_times c = (checkupTime (checkupEvent c), minCheckupTime (checkupEvent c), maxCheckupTime (checkupEvent c))"

lemma disconnect_times [simp]: "ck_times (client_disconnect E c) = ck_times c" "ck_times (disconnect_msg E c) = ck_times c"
  by (auto simp: ck_times_def client_disconnect_def disconnect_msg_def client_close_def net_send_def split: sum.split)

lemma core_times: "core c' = core c \<Longrightarrow> ck_times c' = ck_times c"
  by (simp add: core_def ck_times_def)

lemma only_queues_times: "only_queues c c' \<Longrightarrow> ck_times c' = ck_times c"
  by (simp add: ck_times_def only_queues_fields)

lemma catching_times: "catching E c r = Inr c' \<Longrightarrow> r = Inr c' \<or> ck_times c' = ck_times c"
  by (auto simp: catching_def split: sum.splits err.splits)

lemma submit_times: "sendPacket E p c = Inr c' \<Longrightarrow> ck_times c' = ck_times c"
proof -
  assume a: "sendPacket E p c = Inr c'"
  consider "\<not> isAvailable c" | "isAvailable c" "\<not> doSeq p" | "isAvailable c" "doSeq p" "490 \<le> st_size (bstream p)"
    | "isAvailable c" "doSeq p" "\<not> 490 \<le> st_size (bstream p)" by blast
  then show ?thesis
  proof cases
    case 3
    then have "sendFragmented p (flush_buffered c) = Inr c' \<or> ck_times c' = ck_times c"
      using a catching_times by (auto simp: sendPacket_def)
    moreover have "only_queues c c'" if "sendFragmented p (flush_buffered c) = Inr c'"
      using that flush_buffered_queues [of c] fold_sendSequenced_queues
      by (auto simp: sendFragmented_def rbind_eq_Inr_iff split: if_splits intro: only_queues_trans)
    ultimately show ?thesis using only_queues_times by blast
  next
    case 4
    then have "bufferMultiPacket p c = Inr c' \<or> ck_times c' = ck_times c" using a catching_times by (auto simp: sendPacket_def)
    then show ?thesis using bufferMultiPacket_queues only_queues_times by blast
  qed (use a in \<open>auto simp: sendPacket_def catching_def sendSequenceLess_def ck_times_def\<close>)
qed

lemma send_reliable_times: "send_reliable E p c = Inr c' \<Longrightarrow> ck_times c' = ck_times c"
  by (auto simp: send_reliable_def Let_def rbind_eq_Inr_iff split: sum.splits err.splits prod.splits if_splits)
     (simp_all add: ck_times_def net_send_def ck_update_def)

lemma getNext_times: "getNextSequencedPacket E c = (r, c') \<Longrightarrow> ck_times c' = ck_times c"
  by (auto simp: getNextSequencedPacket_def Let_def split: if_splits list.splits option.splits)
     (auto simp: ck_times_def window_wait_def Let_def)

lemma sendReliablePackets_times: "sendReliablePackets E n k c = Inr (k', c') \<Longrightarrow> ck_times c' = ck_times c"
proof (induction n arbitrary: k c)
  case 0
  then show ?case by (auto simp: sendReliablePackets.simps ck_times_def)
next
  case (Suc n)
  obtain r c1 where g: "getNextSequencedPacket E c = (r, c1)" by (cases "getNextSequencedPacket E c")
  have *: "ck_times (c1\<lparr>reentrantScheduled := b\<rparr>) = ck_times c1" for b by (simp add: ck_times_def)
  show ?case
  proof (cases "isAvailable c")
    case True
    then show ?thesis
      using Suc g getNext_times [OF g] send_reliable_times *
      by (cases r) (auto simp: sendReliablePackets.simps rbind_eq_Inr_iff split: if_splits)
  qed (use Suc in \<open>auto simp: sendReliablePackets.simps\<close>)
qed

lemma client_run_times:
  assumes "client_run E c = Inr c'" shows "ck_times c' = ck_times c"
proof -
  obtain k c1 where c1: "sendReliablePackets E 8 0 c = Inr (k, c1)" "sendUnreliablePackets E 8 c1 = Inr c'"
    using assms unfolding client_run_def rbind_eq_Inr_iff by (metis case_prod_conv surj_pair)
  then show ?thesis using sendReliablePackets_times [OF c1(1)] core_times [OF sendUnreliablePackets_core [OF c1(2)]] by simp
qed

lemma frozen_adjust:
  assumes "checkupTime k = 2000" "minCheckupTime k = 2000" "maxCheckupTime k = 500"
  shows "increaseCheckupTime t k = k" "decreaseCheckupTime t k = k"
  using assms by (simp_all add: increaseCheckupTime_def decreaseCheckupTime_def)

lemma frozen_step:
  assumes "sender_step E ev c c'" "ck_times c = (2000, 2000, 500)"
  shows "ck_times c' = (2000, 2000, 500)"
  using assms
proof (induction rule: sender_step.induct)
  case (step_ack t c e)
  then show ?case
    by (auto simp: acknowledgeServerPackets_def Let_def ck_times_def flushSendBuffer_def ck_update_def decreaseCheckupTime_def
        split: list.split)
next
  case (step_timeout c c')
  then show ?case
    by (auto simp: checkup_run_def Let_def checkupServerPackets_def ck_times_def ck_update_def increaseCheckupTime_def resend_all_def resend_fold
        split: option.splits if_splits)
qed (simp_all add: submit_times client_run_times)

lemma frozen_trace:
  "sender_trace E evs h b c \<Longrightarrow> cfgMaxCheckupTime E = 2000 \<Longrightarrow> ck_times c = (2000, 2000, 500)"
proof (induction rule: sender_trace.induct)
  case trace_init
  then show ?case
    by (simp add: client_initialize_def balancePacketCheckupTime_def setPacketCheckupTime_def setCheckupTime_def ck_new_def ck_times_def)
qed (auto intro: frozen_step)

subsection \<open>Properties\<close>

text \<open>
  C5. The sending window, whatever the peer acknowledges: in every run of a client (packets submitted, the task and the timer
  run, acknowledgements with any numbers arrive; fewer than \<open>2 ^ 31\<close> packets are sent), as long as the connection is up, the packets kept for
  retransmission are the latest ones sent, from some number \<open>f\<close> on, in order and without gaps. At most 51 packets are outstanding,
  the acknowledged number is at most that of the next packet and at most \<open>f\<close>, and the number of the next packet agrees with the count of
  packets sent. Unless number 65535 was acknowledged ahead of all others, no packet above the acknowledged number is dropped, and if
  only packets that had been sent were acknowledged, \<open>f\<close> is the number behind the acknowledged one.
\<close>

theorem sender_window_invariant:
  assumes "sender_trace E evs honest intact c" "isAvailable c"
  shows "\<exists>f. map (\<lambda>p. uint (bp_getSequence p)) (sequenceBuffer c) = [f .. uint (serverSequence (proto c)) - 1] \<and>
      0 \<le> f \<and> f \<le> uint (serverSequence (proto c)) \<and> acknowledgedServerSequence c \<le> f \<and>
      (intact \<longrightarrow> f \<le> acknowledgedServerSequence c + 1) \<and> (honest \<longrightarrow> f = acknowledgedServerSequence c + 1) \<and>
    uint (serverSequence (proto c)) - acknowledgedServerSequence c \<le> 51 \<and>
    realServerSequence c = uint (serverSequence (proto c)) \<and> (\<forall>p \<in> set (sendBuffer c). doSeq p)"
proof -
  have "window_inv honest intact c" using trace_inv [OF assms(1)] .
  then show ?thesis using assms(2) unfolding window_inv_def queue_ok_def by blast
qed

text \<open>
  C6. Acknowledgements are decoded exactly: in a state that satisfies the window invariant, an
  acknowledgement carries only the low 16 bits of the number of a packet that was sent, yet
  \<open>acknowledgeServerPackets\<close> recovers the number, across every wrap of the 16-bit counter. A
  stale acknowledgement changes nothing; a new one drops exactly the packets up to it and
  restarts the timer for the oldest remaining packet.
\<close>

theorem acknowledgement_exact:
  assumes "sender_inv c" "isAvailable c" "0 \<le> t" "t < uint (serverSequence (proto c))" "uint (serverSequence (proto c)) - t < 2 ^ 16"
  shows "let c' = acknowledgeServerPackets e (word_of_int t) c in
    if t < acknowledgedServerSequence c then c' = c
    else acknowledgedServerSequence c' = t \<and>
      map (\<lambda>p. uint (bp_getSequence p)) (sequenceBuffer c') = [t + 1 .. uint (serverSequence (proto c)) - 1] \<and>
      (sequenceBuffer c' \<noteq> [] \<longrightarrow> ck_scheduled (checkupEvent c') \<and> ck_packet (checkupEvent c') = Some (hd (sequenceBuffer c')))"
proof (cases "t < acknowledgedServerSequence c")
  case True
  then show ?thesis using ack_stale [OF assms] by simp
next
  case False
  then have le: "acknowledgedServerSequence c \<le> t" by simp
  note a = ack_effect [OF assms le, of e]
  have "sender_inv (acknowledgeServerPackets e (word_of_int t) c)" using ack_inv assms by blast
  then show ?thesis using False a by (simp add: Let_def sender_inv_def)
qed

text \<open>
  C31. Retransmission: once a packet has been acknowledged, a firing timer sends the oldest
  unacknowledged packets again (at least the first five of them), changes nothing else of the
  window and is scheduled again, so a lost packet is sent again until it is acknowledged.
\<close>

theorem retransmission_resends_oldest:
  assumes "sender_inv c" "isAvailable c" "0 \<le> acknowledgedServerSequence c" "sequenceBuffer c \<noteq> []"
  shows "\<exists>c' n. checkup_run E c = Inr c' \<and> 5 \<le> n \<and>
    wire c' = wire c @ map (\<lambda>p. sbuf (bstream p)) (take n (sequenceBuffer c)) \<and>
    sequenceBuffer c' = sequenceBuffer c \<and> ck_scheduled (checkupEvent c') \<and> sender_inv c'"
proof -
  have "5 \<le> nat (maxPacketResent E c)" by (simp add: maxPacketResent_def)
  then show ?thesis using timer_effect [OF assms, of E] by blast
qed

text \<open>
  Nothing is retransmitted before the first acknowledgement: \<open>checkupServerPackets\<close> compares
  the sequence number with \<open>(uint32) -1\<close>, so in every run without an acknowledgement nothing has
  been resent, at most 50 packets have been sent, and a firing timer sends nothing and is not
  scheduled again. When the first packet is lost, the peer never acknowledges and the
  connection stalls.
\<close>

lemma no_retransmission_before_first_ack:
  assumes "sender_trace E evs h b c" "\<forall>e t. Acked e t \<notin> set evs" "isAvailable c"
  shows "resentPackets c = 0 \<and> uint (serverSequence (proto c)) \<le> 50 \<and>
    (\<forall>c'. checkup_run E c = Inr c' \<longrightarrow> wire c' = wire c \<and> \<not> ck_scheduled (checkupEvent c'))"
proof -
  have n: "acknowledgedServerSequence c = - 1 \<and> resentPackets c = 0" using no_ack_trace [OF assms] .
  moreover have "sent c \<le> 50" using trace_inv [OF assms(1)] assms(3) n by (simp add: window_inv_def)
  moreover have "wire c' = wire c \<and> \<not> ck_scheduled (checkupEvent c')" if "checkup_run E c = Inr c'" for c'
    using timer_stalled [OF that] n by simp
  ultimately show ?thesis by blast
qed

text \<open>
  Before the first acknowledgement a packet acknowledging number 65535 is taken for number
  \<open>-1\<close>, and \<open>flushSendBuffer(-1)\<close> drops every packet waiting for acknowledgement.
\<close>

theorem early_ack_65535_drops_everything:
  assumes "isAvailable c" "acknowledgedServerSequence c = - 1" "uint (serverSequence (proto c)) < 65535"
  shows "sequenceBuffer (acknowledgeServerPackets e 0xFFFF c) = []"
proof -
  have dw: "dropWhile (\<lambda>_. True) xs = []" for xs :: "base_packet list" by simp
  have "ack_realseq c 0xFFFF = - 1" using assms(2,3) by (simp add: ack_realseq_def word_less_def)
  then show ?thesis using assms(1,2) by (auto simp: dw acknowledgeServerPackets_def Let_def flushSendBuffer_def not_less split: list.split)
qed

text \<open>
  The retransmission interval never adapts: \<open>initialize\<close> passes the configured minimum and
  maximum as the first two arguments of the event, so with the default maximum of 2000 its
  minimum is 2000 and its maximum 500, and \<open>increaseCheckupTime\<close> and \<open>decreaseCheckupTime\<close> never change
  the interval of 2000 ms in any run.
\<close>

theorem checkup_time_never_adapts:
  assumes "sender_trace E evs h b c" "cfgMaxCheckupTime E = 2000"
  shows "checkupTime (checkupEvent c) = 2000"
  using frozen_trace [OF assms] by (simp add: ck_times_def)

subsection \<open>Instances\<close>

definition demo_env :: net_env where
  "demo_env = \<lparr>deflate = id, inflate = (\<lambda>_ b. b), disableCompression = False, disableEncryption = False, cfgMinCheckupTime = 100,
     cfgMaxCheckupTime = 2000, cfgMaxOutstandingPackets = 5000, resendBudget = (\<lambda>t. uint t * 30 div 496)\<rparr>"

definition demo_waiting :: base_packet where
  "demo_waiting = bp_new\<lparr>bstream := at_pos [0, 9, 0, 1, 7, 7] [], bsequence := 1\<rparr>"

text \<open>Packets 0 and 1 were sent, 0 is acknowledged.\<close>

definition demo_client :: base_client where
  "demo_client = (client_initialize demo_env (client_new demo_env))
     \<lparr>proto := \<lparr>connectionID = 7, crcSeed = 9, serverSequence = 2, clientSequence = 0\<rparr>, acknowledgedServerSequence := 0, realServerSequence := 2,
      sequenceBuffer := [demo_waiting],
      checkupEvent := \<lparr>ck_packet = Some demo_waiting, checkupTime = 2000, minCheckupTime = 2000, maxCheckupTime = 500, ck_scheduled = True\<rparr>\<rparr>"

lemma demo_client_inv: "sender_inv demo_client" "isAvailable demo_client"
  by (simp_all add: demo_client_def sender_inv_def isAvailable_def client_initialize_def client_new_def balancePacketCheckupTime_def
      setPacketCheckupTime_def queue_ok_def demo_waiting_def bp_getSequence_def bp_new_def)

lemma demo_submitted:
  "sender_trace demo_env [Submit demo_waiting] True True
     ((client_initialize demo_env (client_new demo_env))\<lparr>bufferedPacket := Some (multi_new demo_waiting), reentrantScheduled := True\<rparr>)"
proof -
  let ?c = "client_initialize demo_env (client_new demo_env)"
  have "can_merge demo_waiting = Inr True"
    by (simp add: can_merge_def demo_waiting_def bp_isDataChannelPacket_def bp_isMultiPacket_def parseShort_at_def readShort_at_def
        read_word_at_def readPrimitiveFrom_def)
  moreover have "isAvailable ?c" "bufferedPacket ?c = None"
    by (simp_all add: isAvailable_def client_initialize_def client_new_def balancePacketCheckupTime_def setPacketCheckupTime_def)
  ultimately have "sendPacket demo_env demo_waiting ?c = Inr (?c\<lparr>bufferedPacket := Some (multi_new demo_waiting), reentrantScheduled := True\<rparr>)"
    by (simp add: sendPacket_def bufferMultiPacket_def catching_def demo_waiting_def bp_new_def)
  from trace_step [OF trace_init step_submit, OF this] show ?thesis by (simp add: honest_event_def early_event_def)
qed

text \<open>Two packets are submitted and sent, and the first is acknowledged.\<close>

definition demo_plain :: base_packet where
  "demo_plain = bp_new\<lparr>bstream := at_pos [0, 0x0D, 0, 0, 7, 7] [], doEncr := False, doCRCTest := False\<rparr>"

definition demo_queued :: base_client where
  "demo_queued = (client_initialize demo_env (client_new demo_env))\<lparr>sendBuffer := [demo_plain, demo_plain], reentrantScheduled := True\<rparr>"

lemma demo_queued_trace: "sender_trace demo_env [Submit demo_plain, Submit demo_plain] True True demo_queued"
proof -
  let ?c0 = "client_initialize demo_env (client_new demo_env)"
  let ?c1 = "?c0\<lparr>sendBuffer := [demo_plain], reentrantScheduled := True\<rparr>"
  have m: "can_merge demo_plain = Inr False" "doSeq demo_plain" "st_size (bstream demo_plain) < 490"
    by (simp_all add: can_merge_def demo_plain_def bp_isDataChannelPacket_def bp_isMultiPacket_def parseShort_at_def readShort_at_def
        read_word_at_def readPrimitiveFrom_def bp_new_def)
  have "isAvailable ?c0" "bufferedPacket ?c0 = None" "sendBuffer ?c0 = []"
    by (simp_all add: isAvailable_def client_initialize_def client_new_def balancePacketCheckupTime_def setPacketCheckupTime_def)
  then have 1: "sendPacket demo_env demo_plain ?c0 = Inr ?c1" "sendPacket demo_env demo_plain ?c1 = Inr demo_queued"
    using m by (simp_all add: sendPacket_def bufferMultiPacket_def catching_def sendSequenced_def isAvailable_def demo_queued_def)
  show ?thesis using trace_step [OF trace_step [OF trace_init step_submit [OF 1(1)]] step_submit [OF 1(2)]] by (simp add: honest_event_def early_event_def)
qed

lemma plain_numbered:
  "\<exists>q. prepareSequence pr demo_plain = Inr (pr\<lparr>serverSequence := serverSequence pr + 1\<rparr>, q) \<and> prepareEncryptionAndCompression d pr' q = Inr q"
proof -
  obtain q where q: "prepareSequence pr demo_plain = Inr (if doSeq demo_plain then pr\<lparr>serverSequence := serverSequence pr + 1\<rparr> else pr, q)"
    "doEncr q = doEncr demo_plain" "doCRCTest q = doCRCTest demo_plain" "doComp q \<longrightarrow> doComp demo_plain"
    using prepareSequence_eq [of demo_plain "[0, 0x0D, 0, 0, 7, 7]" pr] by (auto simp: demo_plain_def)
  then show ?thesis by (intro exI [of _ q]) (simp add: demo_plain_def bp_new_def prepareEncryptionAndCompression_def transform_def)
qed

lemma plain_sent:
  assumes "isAvailable c" "acknowledgedServerSequence c = - 1" "serverSequence (proto c) < 40" "sendBuffer c = demo_plain # ps"
  shows "\<exists>c'. sendReliablePackets demo_env (Suc n) k c = sendReliablePackets demo_env n (k + 1) c' \<and>
     isAvailable c' \<and> acknowledgedServerSequence c' = - 1 \<and> serverSequence (proto c') = serverSequence (proto c) + 1 \<and> sendBuffer c' = ps \<and>
     bufferedPacket c' = bufferedPacket c \<and> sendUnreliableBuffer c' = sendUnreliableBuffer c"
proof -
  obtain q where q: "prepareSequence (proto c) demo_plain = Inr ((proto c)\<lparr>serverSequence := serverSequence (proto c) + 1\<rparr>, q)"
    "prepareEncryptionAndCompression (deflate demo_env) ((proto c)\<lparr>serverSequence := serverSequence (proto c) + 1\<rparr>) q = Inr q" using plain_numbered by blast
  have "\<not> 50 < serverSequence (proto c) + 1" using assms(3) by unat_arith
  then have w: "\<not> window_full c" using assms(2) by (simp add: window_full_def)
  obtain d where d: "send_reliable demo_env demo_plain (c\<lparr>sendBuffer := ps\<rparr>) = Inr d" "isAvailable d" "acknowledgedServerSequence d = - 1"
    "serverSequence (proto d) = serverSequence (proto c) + 1" "sendBuffer d = ps" "bufferedPacket d = bufferedPacket c" "sendUnreliableBuffer d = sendUnreliableBuffer c"
    using assms q by (cases "sequenceBuffer c = []") (simp_all add: send_reliable_def Let_def net_send_def isAvailable_def)
  then show ?thesis using assms w by (intro exI [of _ d]) (simp add: sendReliablePackets.simps getNextSequencedPacket_def)
qed

lemma demo_sending:
  "\<exists>c. client_run demo_env demo_queued = Inr c \<and> isAvailable c \<and> serverSequence (proto c) = 2 \<and> acknowledgedServerSequence c = - 1"
proof -
  have q: "isAvailable demo_queued" "acknowledgedServerSequence demo_queued = - 1" "serverSequence (proto demo_queued) = 0" "sendBuffer demo_queued = [demo_plain, demo_plain]"
    "bufferedPacket demo_queued = None" "sendUnreliableBuffer demo_queued = []"
    by (simp_all add: demo_queued_def isAvailable_def client_initialize_def client_new_def balancePacketCheckupTime_def setPacketCheckupTime_def)
  obtain c1 where c1: "sendReliablePackets demo_env 8 0 demo_queued = sendReliablePackets demo_env 7 1 c1" "isAvailable c1" "acknowledgedServerSequence c1 = - 1"
    "serverSequence (proto c1) = 1" "sendBuffer c1 = [demo_plain]" "bufferedPacket c1 = None" "sendUnreliableBuffer c1 = []"
    using plain_sent [OF q(1,2) _ q(4), of 7 0] q(3,5,6) by auto
  obtain c2 where c2: "sendReliablePackets demo_env 7 1 c1 = sendReliablePackets demo_env 6 2 c2" "isAvailable c2" "acknowledgedServerSequence c2 = - 1"
    "serverSequence (proto c2) = 2" "sendBuffer c2 = []" "bufferedPacket c2 = None" "sendUnreliableBuffer c2 = []"
    using plain_sent [OF c1(2,3) _ c1(5), of 6 1] c1(4,6,7) by auto
  have "sendReliablePackets demo_env (Suc 5) 2 c2 = Inr (2, c2)" using c2(2-7) unfolding sendReliablePackets.simps by (simp add: getNextSequencedPacket_def window_full_def)
  moreover have "sendUnreliablePackets demo_env (Suc 7) c2 = Inr c2" using c2(2-7) unfolding sendUnreliablePackets.simps by (simp add: getNextUnreliablePacket_def)
  ultimately show ?thesis using c1(1) c2 by (simp add: client_run_def)
qed
theorem sender_window_invariant_witness:
  "\<exists>c. sender_trace demo_env [Submit demo_plain, Submit demo_plain, Tick, Acked 30 0] True True c \<and>
     map (\<lambda>p. uint (bp_getSequence p)) (sequenceBuffer c) = [1]"
proof -
  obtain c where c: "client_run demo_env demo_queued = Inr c" "isAvailable c" "serverSequence (proto c) = 2" "acknowledgedServerSequence c = - 1"
    using demo_sending by blast
  have "sender_trace demo_env ([Submit demo_plain, Submit demo_plain] @ [Tick]) (True \<and> honest_event demo_queued Tick) (True \<and> \<not> early_event demo_queued Tick) c"
    using c(1) by (intro trace_step [OF demo_queued_trace] step_tick) (simp add: demo_queued_def client_initialize_def client_new_def balancePacketCheckupTime_def setPacketCheckupTime_def)
  then have t: "sender_trace demo_env [Submit demo_plain, Submit demo_plain, Tick] True True c" by (simp add: honest_event_def early_event_def)
  let ?d = "acknowledgeServerPackets 30 0 c"
  have "\<exists>t \<in> {max 0 (sent c - 0xFFFF) ..< sent c}. (0 :: 16 word) = word_of_int t" using c(3) by (intro bexI [of _ 0]) simp_all
  then have h: "honest_event c (Acked 30 0)" "\<not> early_event c (Acked 30 0)" by (simp_all add: honest_event_def early_event_def)
  have d: "sender_trace demo_env [Submit demo_plain, Submit demo_plain, Tick, Acked 30 0] True True ?d" using trace_step [OF t step_ack, of 30 0] h by simp
  have "sender_inv c" using trace_inv [OF t] sender_inv_window by blast
  then have e: "acknowledgedServerSequence ?d = 0" "isAvailable ?d" "proto ?d = proto c" using ack_effect [of c 0 30] c(2-4) by simp_all
  have "map (\<lambda>p. uint (bp_getSequence p)) (sequenceBuffer ?d) = [1]" using sender_window_invariant [OF d e(2)] e(1,3) c(3) by auto
  then show ?thesis using d by (intro exI [of _ ?d]) simp
qed

theorem acknowledgement_exact_witness:
  "sequenceBuffer (acknowledgeServerPackets 30 1 demo_client) = []"
  using acknowledgement_exact [OF demo_client_inv, of 1 30] by (simp add: demo_client_def Let_def)

theorem retransmission_resends_oldest_witness:
  "\<exists>c' n. checkup_run demo_env demo_client = Inr c' \<and> 5 \<le> n \<and>
     wire c' = wire demo_client @ map (\<lambda>p. sbuf (bstream p)) (take n [demo_waiting])"
  using retransmission_resends_oldest [OF demo_client_inv, of demo_env] by (auto simp: demo_client_def)

lemma no_retransmission_before_first_ack_witness:
  "resentPackets ((client_initialize demo_env (client_new demo_env))
     \<lparr>bufferedPacket := Some (multi_new demo_waiting), reentrantScheduled := True\<rparr>) = 0"
  using no_retransmission_before_first_ack [OF demo_submitted]
  by (simp add: isAvailable_def client_initialize_def client_new_def balancePacketCheckupTime_def setPacketCheckupTime_def)

theorem early_ack_65535_drops_everything_witness:
  "sequenceBuffer (acknowledgeServerPackets 30 0xFFFF (demo_client\<lparr>acknowledgedServerSequence := - 1\<rparr>)) = []"
  using early_ack_65535_drops_everything [of "demo_client\<lparr>acknowledgedServerSequence := - 1\<rparr>" 30] demo_client_inv(2)
  by (simp add: demo_client_def isAvailable_def)

theorem checkup_time_never_adapts_witness:
  "checkupTime (checkupEvent ((client_initialize demo_env (client_new demo_env))
     \<lparr>bufferedPacket := Some (multi_new demo_waiting), reentrantScheduled := True\<rparr>)) = 2000"
  using checkup_time_never_adapts [OF demo_submitted] by (simp add: demo_env_def)

end
