(* ===== verification/Handler.thy ===== *)
theory Handler
  imports Client
begin

text \<open>
  The receiving side of the connection: \<^verbatim>\<open>packets/*.h\<close>, the receiving operations of
  \<^verbatim>\<open>BaseClient.cpp\<close> and \<^verbatim>\<open>BasePacketHandler.cpp\<close> (the single-threaded configuration). A handler
  returns the client and, when an exception leaves it, the exception; what happened before
  the exception stays. The messages handed to \<open>serviceHandler->processMessage\<close> are collected in
  \<open>processed\<close>. What the handlers read from the clock is the argument \<open>K\<close>.
\<close>

record clock =
  ourTick :: "16 word"
  netStatusStamp :: int
  ackElapsedMs :: "64 word"

type_synonym outcome = "base_client \<times> err option"

definition then_do :: "outcome \<Rightarrow> (base_client \<Rightarrow> outcome) \<Rightarrow> outcome" where
  "then_do r f = (case r of (c, None) \<Rightarrow> f c | (c, Some e) \<Rightarrow> (c, Some e))"

text \<open>Run a handler that returns a result on the state \<open>c\<close>; an exception leaves \<open>c\<close> as it was.\<close>

definition lift_res :: "base_client \<Rightarrow> 'a res \<Rightarrow> ('a \<Rightarrow> outcome) \<Rightarrow> outcome" where
  "lift_res c r f = (case r of Inl e \<Rightarrow> (c, Some e) | Inr x \<Rightarrow> f x)"

lemma then_do_simps [simp]: "then_do (c, None) f = f c" "then_do (c, Some e) f = (c, Some e)"
  by (simp_all add: then_do_def)

lemma lift_res_simps [simp]: "lift_res c (Inr x) f = f x" "lift_res c (Inl e) f = (c, Some e)"
  by (simp_all add: lift_res_def)

lemma lift_res_cong [fundef_cong]:
  "c = c' \<Longrightarrow> r = r' \<Longrightarrow> (\<And>x. r' = Inr x \<Longrightarrow> f x = g x) \<Longrightarrow> lift_res c r f = lift_res c' r' g"
  by (cases r') auto

lemma then_do_cong [fundef_cong]:
  "r = r' \<Longrightarrow> (\<And>c. r' = (c, None) \<Longrightarrow> f c = g c) \<Longrightarrow> then_do r f = then_do r' g"
  by (cases r'; cases "snd r'") (auto simp: then_do_def)

subsection \<open>Protocol messages\<close>

definition seq_message :: "16 word \<Rightarrow> 16 word \<Rightarrow> base_packet res" where
  "seq_message opcode seq =
     rbind (insertShort opcode (bstream bp_new)) (\<lambda>s. rbind (insertShortNet seq s) (\<lambda>s.
     Inr (bp_new\<lparr>bstream := s, doSeq := False\<rparr>)))"

definition AcknowledgeMessage :: "16 word \<Rightarrow> base_packet res" where
  "AcknowledgeMessage seq = seq_message 0x1500 seq"

definition OutOfOrderMessage :: "16 word \<Rightarrow> base_packet res" where
  "OutOfOrderMessage seq = seq_message 0x1100 seq"

definition AcknowledgeOkMessage :: "16 word \<Rightarrow> base_packet res" where
  "AcknowledgeOkMessage seq =
     rbind (insertShort 0x0300 (bstream bp_new)) (\<lambda>s. rbind (insertByte 4 s) (\<lambda>s. rbind (insertShort 0x1500 s) (\<lambda>s.
     rbind (insertShortNet seq s) (\<lambda>s. rbind (insertByte 6 s) (\<lambda>s. rbind (insertShort 1 s) (\<lambda>s.
     rbind (insertInt 0xA16CF9AF s) (\<lambda>s. Inr (bp_new\<lparr>bstream := s, doSeq := False\<rparr>))))))))"

definition NetStatusRequestMessage :: "16 word \<Rightarrow> base_packet res" where
  "NetStatusRequestMessage tick = rbind (seq_message 0x0700 tick) (\<lambda>p. Inr (p\<lparr>doComp := True\<rparr>))"

fun insert_zeros :: "nat \<Rightarrow> stream \<Rightarrow> stream res" where
  "insert_zeros 0 s = Inr s"
| "insert_zeros (Suc n) s = rbind (insertInt 0 s) (insert_zeros n)"

definition NetStatusResponseMessage :: "16 word \<Rightarrow> base_packet res" where
  "NetStatusResponseMessage tick =
     rbind (insertShort 0x0800 (bstream bp_new)) (\<lambda>s. rbind (insertShortNet tick s) (\<lambda>s. rbind (insert_zeros 9 s) (\<lambda>s.
     Inr (bp_new\<lparr>bstream := s, doSeq := False, doComp := True, doCRCTest := False\<rparr>))))"

definition SessionIDRequestMessage :: "stream res" where
  "SessionIDRequestMessage =
     rbind (insertShort 0x0100 pk_new) (\<lambda>s. rbind (insertShort 0 s) (\<lambda>s. rbind (insertShort 1 s) (insertInt 0x12345678)))"

definition SessionIDRequest_parse :: "stream \<Rightarrow> 32 word res" where
  "SessionIDRequest_parse pack = parseInt_at 6 pack"

definition SessionIDResponseMessage :: "base_protocol \<Rightarrow> stream res" where
  "SessionIDResponseMessage prot =
     rbind (insertShort 0x0200 pk_new) (\<lambda>s. rbind (insertInt (connectionID prot) s) (\<lambda>s.
     rbind (insertInt (htonl (crcSeed prot)) s) (\<lambda>s. rbind (insertByte 2 s) (\<lambda>s. rbind (insertByte 1 s) (\<lambda>s.
     rbind (insertByte 4 s) (\<lambda>s. rbind (insertByte 0 s) (\<lambda>s. rbind (insertByte 0 s) (\<lambda>s.
     rbind (insertByte 1 s) (insertByte 0xF0)))))))))"

definition SessionIDResponse_parse :: "stream \<Rightarrow> 32 word res" where
  "SessionIDResponse_parse pack = rbind (parseInt_at 6 pack) (\<lambda>v. Inr (htonl v))"

definition seq_parse :: "stream \<Rightarrow> (16 word \<times> stream) res" where
  "seq_parse pack = parseNetShort pack"

subsection \<open>Receiving operations of the client\<close>

text \<open>The traits of \<open>SortedVector<BasePacket*>\<close>.\<close>

definition ptr_traits :: al_traits where
  "ptr_traits = \<lparr>rawCopyAndRealloc = True, triviallyCopyable = True, needConstructor = False\<rparr>"

definition acknowledgeClientPackets :: "net_env \<Rightarrow> 16 word \<Rightarrow> base_client \<Rightarrow> outcome" where
  "acknowledgeClientPackets E seq c =
     (if \<not> isAvailable c then (c, None)
      else lift_res c (catching E c (rbind (AcknowledgeMessage seq) (\<lambda>ack. sendPacket E ack c))) (\<lambda>c. (c, None)))"

abbreviation expected :: "base_client \<Rightarrow> 32 word" where
  "expected c \<equiv> clientSequence (proto c) AND 0xFFFF"

abbreviation next_client_sequence :: "base_client \<Rightarrow> base_client" where
  "next_client_sequence c \<equiv> c\<lparr>proto := (proto c)\<lparr>clientSequence := clientSequence (proto c) + 1\<rparr>\<rparr>"

text \<open>\<open>validatePacket\<close>: calls the continuation with the packet behind its sequence number.\<close>

definition validatePacket :: "net_env \<Rightarrow> stream \<Rightarrow> base_client \<Rightarrow> (stream \<Rightarrow> base_client \<Rightarrow> outcome) \<Rightarrow> outcome" where
  "validatePacket E pack c accept =
     lift_res c (parseNetShort pack) (\<lambda>(seq, pack).
     if ucast seq < expected c then acknowledgeClientPackets E seq c
     else if ucast seq > expected c then
       lift_res c (bp_from_packet pack (ucast seq)) (\<lambda>packet.
       lift_res c (sv_put ptr_traits bp_compareTo packet (receiveBuffer c)) (\<lambda>(_, rb).
       let c = c\<lparr>receiveBuffer := rb\<rparr> in
       lift_res c (rbind (OutOfOrderMessage seq) (\<lambda>oor. sendPacket E oor c)) (\<lambda>c.
       (c\<lparr>numOutOfOrder := numOutOfOrder c + 1\<rparr>, None))))
     else then_do (acknowledgeClientPackets E (ucast (clientSequence (proto c))) (next_client_sequence c)) (accept pack))"

definition getBufferedPacket :: "net_env \<Rightarrow> base_client \<Rightarrow> (stream option \<times> base_client) res" where
  "getBufferedPacket E c =
     (if al_isEmpty (elems (receiveBuffer c)) then Inr (None, c)
      else rbind (al_get 0 (elems (receiveBuffer c))) (\<lambda>packet.
        if bp_getSequence packet AND 0xFFFF \<noteq> expected c then Inr (None, c)
        else rbind (al_remove ptr_traits 0 (elems (receiveBuffer c))) (\<lambda>(_, a).
          let c = c\<lparr>receiveBuffer := (receiveBuffer c)\<lparr>elems := a\<rparr>\<rparr> in
          case acknowledgeClientPackets E (ucast (clientSequence (proto c))) (next_client_sequence c) of
            (c, None) \<Rightarrow> Inr (Some (bstream packet), c)
          | (c, Some e) \<Rightarrow> Inl e)))"

subsection \<open>The packet handler\<close>

definition processMessage :: "byte list \<Rightarrow> base_client \<Rightarrow> base_client" where
  "processMessage m c = c\<lparr>processed := processed c @ [m]\<rparr>"

definition handle_data :: "stream \<Rightarrow> base_client \<Rightarrow> outcome" where
  "handle_data pack c = (let (msgs, e) = handleDataChannelPacket pack in (fold processMessage msgs c, e))"

text \<open>\<open>handleFragmentedPacket\<close>; a parse failure is logged and the partial packet dropped.\<close>

definition handleFragmentedPacket :: "stream \<Rightarrow> base_client \<Rightarrow> outcome" where
  "handleFragmentedPacket pack c =
     (case receiveFragmentedPacket pack (fragmentedPacket c) of
        Inl (FragmentedPacketParseException _) \<Rightarrow> (c\<lparr>fragmentedPacket := None\<rparr>, None)
      | Inl e \<Rightarrow> (c\<lparr>fragmentedPacket := Some (case fragmentedPacket c of None \<Rightarrow> frag_new | Some f \<Rightarrow> f)\<rparr>, Some e)
      | Inr (None, f) \<Rightarrow> (c\<lparr>fragmentedPacket := f\<rparr>, None)
      | Inr (Some s, f) \<Rightarrow> handle_data s (c\<lparr>fragmentedPacket := f\<rparr>))"

text \<open>
  The loop over a multi data block inside a multi packet, which stops at the given size rather
  than at the end of the packet. \<open>parsedsize\<close> is a \<open>uint16\<close> and grows by the bytes read.
\<close>

function data_multi_loop :: "16 word \<Rightarrow> 16 word \<Rightarrow> stream \<Rightarrow> byte list list \<times> err option" where
  "data_multi_loop parsedsize psize pack =
     (if parsedsize < psize then
        case data_block pack of
          Inl e \<Rightarrow> ([], Some e)
        | Inr (msg, pack') \<Rightarrow>
            let (msgs, e) = data_multi_loop (parsedsize + word_of_int (soff pack' - soff pack)) psize pack' in (msg # msgs, e)
      else ([], None))"
  by pat_completeness auto
termination
proof (relation "measure (\<lambda>(_, _, s). nat (st_size s + 1 - soff s))", goal_cases)
  case 1
  then show ?case by simp
next
  case (2 parsedsize psize pack x msg pack')
  then have "data_block pack = Inr (msg, pack')" by simp
  note d = data_block_progress [OF this]
  have "soff pack \<le> st_size pack"
    using 2(2,3) by (auto simp: data_block_def parseByte_def readByte_def read_word_def readPrimitive_def st_take_bytes_def
        st_shiftOffset_def rbind_eq_Inr_iff split: if_splits)
  then show ?case using d by (simp add: st_size_def)
qed

declare data_multi_loop.simps [simp del]

definition handleDataChannelMultiPacket :: "stream \<Rightarrow> 16 word \<Rightarrow> base_client \<Rightarrow> outcome" where
  "handleDataChannelMultiPacket pack psize c =
     lift_res c (parseShort pack) (\<lambda>(opCount, pack).
     if opCount = 0x1900 then
       let (msgs, e) = data_multi_loop 6 psize pack in (fold processMessage msgs c, e)
     else if opCount = 0x0D00 then
       lift_res c (st_shiftOffset 2 pack) (\<lambda>pack.
       lift_res c (bm_slice pack (soff pack) (soff pack + (uint psize - 4))) (\<lambda>message.
       handleFragmentedPacket (bstream message) c))
     else if opCount = 0x0900 then
       lift_res c (st_shiftOffset 2 pack) (\<lambda>pack.
       lift_res c (bm_slice pack (soff pack) (soff pack + (uint psize - 4))) (\<lambda>message.
       (processMessage (sbuf (bstream message)) c, None)))
     else
       lift_res c (bm_slice pack (soff pack - 2) (soff pack - 2 + (uint psize - 4))) (\<lambda>message.
       (processMessage (sbuf (bstream message)) c, None)))"

definition doOutOfOrder :: "stream \<Rightarrow> base_client \<Rightarrow> outcome" where
  "doOutOfOrder pack c = lift_res c (seq_parse pack) (\<lambda>_. (c, None))"

definition doAcknowledge :: "clock \<Rightarrow> stream \<Rightarrow> base_client \<Rightarrow> outcome" where
  "doAcknowledge K pack c =
     lift_res c (seq_parse pack) (\<lambda>(seq, _). (acknowledgeServerPackets (ackElapsedMs K) seq c, None))"

text \<open>
  One block of \<open>handleMultiPacket\<close>. \<open>gate\<close> is \<open>validatePacket\<close> when packets are validated and the
  skipping of the sequence number otherwise; \<open>drain\<close> is \<open>processBufferedPackets\<close> or nothing.
\<close>

definition multi_block ::
  "clock \<Rightarrow> (stream \<Rightarrow> base_client \<Rightarrow> (stream \<Rightarrow> base_client \<Rightarrow> outcome) \<Rightarrow> outcome) \<Rightarrow> (base_client \<Rightarrow> outcome) \<Rightarrow>
   8 word \<Rightarrow> int \<Rightarrow> stream \<Rightarrow> base_client \<Rightarrow> outcome" where
  "multi_block K gate drain blockSize offset pack c =
     lift_res c (parseShort pack) (\<lambda>(opcode, pack).
     if opcode = 0x0900 then
       gate pack c (\<lambda>pack c. then_do (handleDataChannelMultiPacket pack (ucast blockSize) c) drain)
     else if opcode = 0x1100 then doOutOfOrder pack c
     else if opcode = 0x1500 then doAcknowledge K pack c
     else if opcode = 0x0001 then lift_res c (parseInt pack) (\<lambda>_. (c, None))
     else if opcode = 0x0D00 then
       gate pack c (\<lambda>pack c.
         lift_res c (bm_slice pack (soff pack) (min (soff pack + uint blockSize - 4) (st_size pack))) (\<lambda>fragPiece.
         then_do (handleFragmentedPacket (bstream fragPiece) c) drain))
     else if drop_bit 8 opcode = 0 then
       lift_res c (bm_slice pack offset (offset + uint blockSize)) (\<lambda>message.
       (processMessage (sbuf (bstream message)) c, None))
     else (c, None))"

function multi_loop ::
  "(8 word \<Rightarrow> int \<Rightarrow> stream \<Rightarrow> base_client \<Rightarrow> outcome) \<Rightarrow> stream \<Rightarrow> base_client \<Rightarrow> outcome" where
  "multi_loop block pack c =
     (if st_hasData pack then
        lift_res c (parseByte pack) (\<lambda>(blockSize, pack1).
        then_do (block blockSize (soff pack1) pack1 c) (\<lambda>c.
        lift_res c (st_setOffset (soff pack1 + uint blockSize) pack1) (\<lambda>pack2. multi_loop block pack2 c)))
      else (c, None))"
  by pat_completeness auto
termination
proof (relation "measure (\<lambda>(_, s, _). nat (st_size s - soff s))", goal_cases)
  case 1
  then show ?case by simp
next
  case (2 block pack c x blockSize pack1 c' pack2)
  then have p: "parseByte pack = Inr (blockSize, pack1)" "st_setOffset (soff pack1 + uint blockSize) pack1 = Inr pack2" "st_hasData pack"
    by auto
  have "sbuf pack1 = sbuf pack \<and> soff pack1 = soff pack + 1"
    using p(1) by (auto simp: parseByte_def readByte_def read_word_def readPrimitive_def st_take_bytes_def st_shiftOffset_def
        rbind_eq_Inr_iff split: if_splits)
  moreover have "sbuf pack2 = sbuf pack1 \<and> soff pack2 = soff pack1 + uint blockSize"
    using p(2) by (auto simp: st_setOffset_def split: if_splits)
  moreover have "- 1 < uint blockSize" using uint_ge_0 [of blockSize] by linarith
  ultimately show ?case using p(3) by (auto simp: st_size_def st_hasData_def)
qed

declare multi_loop.simps [simp del]

definition skip_sequence :: "stream \<Rightarrow> base_client \<Rightarrow> (stream \<Rightarrow> base_client \<Rightarrow> outcome) \<Rightarrow> outcome" where
  "skip_sequence pack c accept = lift_res c (st_shiftOffset 2 pack) (\<lambda>pack. accept pack c)"

definition handleMultiPacket_unvalidated :: "clock \<Rightarrow> stream \<Rightarrow> base_client \<Rightarrow> outcome" where
  "handleMultiPacket_unvalidated K pack c = multi_loop (multi_block K skip_sequence (\<lambda>c. (c, None))) pack c"

text \<open>What \<open>processBufferedPackets\<close> does with one packet.\<close>

definition process_buffered :: "clock \<Rightarrow> stream \<Rightarrow> base_client \<Rightarrow> outcome" where
  "process_buffered K pack c =
     lift_res c (parseShort_at 0 pack) (\<lambda>opcode.
     if opcode = 0x0300 then lift_res c (st_setOffset 2 pack) (\<lambda>pack. handleMultiPacket_unvalidated K pack c)
     else if opcode = 0x0D00 then lift_res c (st_setOffset 4 pack) (\<lambda>pack. handleFragmentedPacket pack c)
     else handle_data pack c)"

lemma fold_processMessage: "fold processMessage ms c = c\<lparr>processed := processed c @ ms\<rparr>"
  by (induction ms arbitrary: c) (simp_all add: processMessage_def)

lemma ack_receiveBuffer [simp]: "receiveBuffer (acknowledgeServerPackets e seq c) = receiveBuffer c"
  by (simp add: acknowledgeServerPackets_def Let_def flushSendBuffer_def split: list.split)

lemma handle_data_receiveBuffer: "receiveBuffer (fst (handle_data pack c)) = receiveBuffer c"
  by (simp add: handle_data_def fold_processMessage split: prod.split)

lemma handleFragmented_receiveBuffer: "receiveBuffer (fst (handleFragmentedPacket pack c)) = receiveBuffer c"
  by (auto simp: handleFragmentedPacket_def handle_data_receiveBuffer split: sum.split err.split option.split)

lemma lift_res_receiveBuffer:
  "(\<And>x. receiveBuffer (fst (f x)) = receiveBuffer c) \<Longrightarrow> receiveBuffer (fst (lift_res c r f)) = receiveBuffer c"
  by (cases r) auto

lemma handleDataMulti_receiveBuffer: "receiveBuffer (fst (handleDataChannelMultiPacket pack n c)) = receiveBuffer c"
  unfolding handleDataChannelMultiPacket_def
  by (auto intro!: lift_res_receiveBuffer simp: handleFragmented_receiveBuffer fold_processMessage processMessage_def split: prod.split)

lemma multi_block_receiveBuffer:
  "receiveBuffer (fst (multi_block K skip_sequence (\<lambda>c. (c, None)) b off pack c)) = receiveBuffer c"
proof -
  have t: "then_do r (\<lambda>c. (c, None)) = r" for r by (cases r; cases "snd r") (auto simp: then_do_def)
  show ?thesis
    unfolding multi_block_def skip_sequence_def doOutOfOrder_def doAcknowledge_def
    by (auto intro!: lift_res_receiveBuffer simp: t handleFragmented_receiveBuffer handleDataMulti_receiveBuffer processMessage_def)
qed

lemma multi_loop_receiveBuffer:
  "(\<And>b off p c. receiveBuffer (fst (block b off p c)) = receiveBuffer c) \<Longrightarrow> receiveBuffer (fst (multi_loop block pack c)) = receiveBuffer c"
proof (induction block pack c rule: multi_loop.induct)
  case (1 block pack c)
  show ?case
  proof (cases "st_hasData pack")
    case False
    then show ?thesis by (simp add: multi_loop.simps)
  next
    case True
    show ?thesis
    proof (cases "parseByte pack")
      case (Inl e)
      then show ?thesis using True by (simp add: multi_loop.simps)
    next
      case (Inr x)
      then obtain b p1 where p1: "parseByte pack = Inr (b, p1)" by (cases x) auto
      obtain c1 e where c1: "block b (soff p1) p1 c = (c1, e)" by (cases "block b (soff p1) p1 c")
      have r: "receiveBuffer c1 = receiveBuffer c" using "1.prems" [of b "soff p1" p1 c] c1 by simp
      show ?thesis
      proof (cases e)
        case (Some x)
        then show ?thesis using True p1 c1 r by (simp add: multi_loop.simps)
      next
        case None
        note ih = "1.IH" [OF True p1 refl c1 [unfolded None]]
        show ?thesis using True p1 c1 None r ih "1.prems"
          by (cases "st_setOffset (soff p1 + uint b) p1") (simp_all add: multi_loop.simps [of block pack])
      qed
    qed
  qed
qed

lemma process_buffered_receiveBuffer: "receiveBuffer (fst (process_buffered K pack c)) = receiveBuffer c"
  unfolding process_buffered_def handleMultiPacket_unvalidated_def
  by (auto intro!: lift_res_receiveBuffer multi_loop_receiveBuffer
      simp: handleFragmented_receiveBuffer handle_data_receiveBuffer multi_block_receiveBuffer)

lemma seq_message_ok: "\<exists>p. seq_message opc seq = Inr p \<and> \<not> doSeq p"
  by (simp add: seq_message_def bp_new_def pk_new_def st_new_at_pos insertShort_def insertShortNet_def)

lemma acknowledge_ok:
  "\<exists>c'. acknowledgeClientPackets E seq c = (c', None) \<and> only_queues c c'"
proof (cases "isAvailable c")
  case True
  obtain p where p: "AcknowledgeMessage seq = Inr p" "\<not> doSeq p"
    using seq_message_ok [of "0x1500" seq] by (auto simp: AcknowledgeMessage_def)
  then have "acknowledgeClientPackets E seq c = (sendSequenceLess p c, None)"
    using True by (simp add: acknowledgeClientPackets_def sendPacket_def catching_def)
  then show ?thesis by (simp add: sendSequenceLess_def)
qed (simp add: acknowledgeClientPackets_def)


text \<open>
  The loop of \<open>processBufferedPackets\<close>. Every round removes a packet from the receive buffer, so
  one round more than the buffer has packets is enough (\<open>buffered_loop_total\<close>).
\<close>

fun buffered_loop :: "nat \<Rightarrow> net_env \<Rightarrow> clock \<Rightarrow> base_client \<Rightarrow> outcome option" where
  "buffered_loop 0 E K c = None"
| "buffered_loop (Suc n) E K c =
     (case getBufferedPacket E c of
        Inl e \<Rightarrow> Some (c, Some e)
      | Inr (None, c) \<Rightarrow> Some (c, None)
      | Inr (Some pack, c) \<Rightarrow>
          (case process_buffered K pack c of
             (c, None) \<Rightarrow> buffered_loop n E K c
           | (c, Some e) \<Rightarrow> Some (c, Some e)))"

definition processBufferedPackets :: "net_env \<Rightarrow> clock \<Rightarrow> base_client \<Rightarrow> outcome" where
  "processBufferedPackets E K c =
     (case buffered_loop (Suc (nat (elementCount (elems (receiveBuffer c))))) E K c of
        Some r \<Rightarrow> r
      | None \<Rightarrow> (c, Some Undefined))"

definition handleMultiPacket :: "net_env \<Rightarrow> clock \<Rightarrow> stream \<Rightarrow> base_client \<Rightarrow> outcome" where
  "handleMultiPacket E K pack c = multi_loop (multi_block K (validatePacket E) (processBufferedPackets E K)) pack c"

definition client_send_raw :: "stream \<Rightarrow> base_client \<Rightarrow> base_client" where
  "client_send_raw pack c = (if isAvailable c then c\<lparr>wire := wire c @ [sbuf pack]\<rparr> else c)"

definition doSessionStart :: "stream \<Rightarrow> base_client \<Rightarrow> outcome" where
  "doSessionStart pack c =
     lift_res c (SessionIDRequest_parse pack) (\<lambda>connID.
     let c = c\<lparr>proto := (proto c)\<lparr>connectionID := connID\<rparr>\<rparr> in
     lift_res c (SessionIDResponseMessage (proto c)) (\<lambda>msg. (client_send_raw msg c, None)))"

definition notifyReceivedSeed :: "32 word \<Rightarrow> base_client \<Rightarrow> base_client" where
  "notifyReceivedSeed seed c = c\<lparr>proto := (proto c)\<lparr>crcSeed := seed\<rparr>\<rparr>"

definition doSessionResponse :: "stream \<Rightarrow> base_client \<Rightarrow> outcome" where
  "doSessionResponse pack c = lift_res c (SessionIDResponse_parse pack) (\<lambda>seed. (notifyReceivedSeed seed c, None))"

definition doDisconnect :: "net_env \<Rightarrow> base_client \<Rightarrow> outcome" where
  "doDisconnect E c = (client_disconnect E (c\<lparr>clientDisconnected := True\<rparr>), None)"

text \<open>The statistics a net-status request carries; a short packet leaves the rest as it was.\<close>

fun skip_ints :: "nat \<Rightarrow> stream \<Rightarrow> stream res" where
  "skip_ints 0 s = Inr s"
| "skip_ints (Suc n) s = rbind (parseInt s) (\<lambda>(_, s). skip_ints n s)"

definition read_totals :: "stream \<Rightarrow> client_stats \<Rightarrow> client_stats" where
  "read_totals pack st =
     (case rbind (skip_ints 5 pack) parseNetLong of
        Inl _ \<Rightarrow> st
      | Inr (n, pack) \<Rightarrow>
          let st = setTotalPacketsSent n st in
          (case parseNetLong pack of Inl _ \<Rightarrow> st | Inr (m, _) \<Rightarrow> setTotalPacketsReceived m st))"

definition handleNetStatusRequest :: "net_env \<Rightarrow> clock \<Rightarrow> stream \<Rightarrow> base_client \<Rightarrow> outcome" where
  "handleNetStatusRequest E K pack c =
     (if \<not> isAvailable c then (c, None)
      else case parseNetShort pack of
          Inl e \<Rightarrow> (disconnect_msg E c, None)
        | Inr (tick, pack) \<Rightarrow>
            let st = read_totals pack (remoteStats c);
                st = setTimeStamp (netStatusStamp K) (setTickDelta (word_of_int (tickDiff tick (ourTick K))) st);
                c = c\<lparr>remoteStats := st, lastRecievedNetStatusTick := tick\<rparr> in
            lift_res c (catching E c (rbind (NetStatusResponseMessage tick) (\<lambda>resp. sendPacket E resp c))) (\<lambda>c. (c, None)))"

definition requestNetStatus :: "net_env \<Rightarrow> clock \<Rightarrow> base_client \<Rightarrow> outcome" where
  "requestNetStatus E K c =
     (if \<not> isAvailable c then (c, None)
      else lift_res c (catching E c (rbind (NetStatusRequestMessage (ourTick K)) (\<lambda>req. sendPacket E req c))) (\<lambda>c. (c, None)))"

definition checkNetStatus :: "net_env \<Rightarrow> base_client \<Rightarrow> base_client" where
  "checkNetStatus E c = client_disconnect E (c\<lparr>errored := True\<rparr>)"

text \<open>Numbered packets: the data channel and fragments, after \<open>processRecieve\<close>.\<close>

definition receive_sequenced :: "net_env \<Rightarrow> clock \<Rightarrow> bool \<Rightarrow> stream \<Rightarrow> base_client \<Rightarrow> outcome" where
  "receive_sequenced E K fragmented pack c =
     validatePacket E pack c (\<lambda>pack c.
     then_do (if fragmented then handleFragmentedPacket pack c else handle_data pack c) (processBufferedPackets E K))"

definition after_receive ::
  "net_env \<Rightarrow> stream \<Rightarrow> base_client \<Rightarrow> (stream \<Rightarrow> base_client \<Rightarrow> outcome) \<Rightarrow> outcome" where
  "after_receive E pack c f =
     lift_res c (processRecieve (inflate E) (proto c) pack) (\<lambda>(ok, pack). if ok then f pack c else (c, None))"

text \<open>\<open>handlePacket\<close>; an exception is caught and logged, undefined behaviour is kept.\<close>

definition dispatch :: "net_env \<Rightarrow> clock \<Rightarrow> stream \<Rightarrow> base_client \<Rightarrow> outcome" where
  "dispatch E K pack c =
     lift_res c (parseShort pack) (\<lambda>(opcode, pack).
     if opcode = 0x0100 then doSessionStart pack c
     else if opcode = 0x0200 then doSessionResponse pack c
     else if opcode = 0x0300 then after_receive E pack c (handleMultiPacket E K)
     else if opcode = 0x0500 then after_receive E pack c (\<lambda>_. doDisconnect E)
     else if opcode = 0x0600 then after_receive E pack c (\<lambda>_ c. (c, None))
     else if opcode = 0x0700 then after_receive E pack c (handleNetStatusRequest E K)
     else if opcode = 0x0800 then (c, None)
     else if opcode = 0x0900 then after_receive E pack c (receive_sequenced E K False)
     else if opcode = 0x0D00 then after_receive E pack c (receive_sequenced E K True)
     else if opcode = 0x1100 then after_receive E pack c doOutOfOrder
     else if opcode = 0x1500 then after_receive E pack c (doAcknowledge K)
     else if opcode \<in> {0x1D00, 0x1F00, 0x2000} then (c, None)
     else after_receive E pack c (\<lambda>pack c. lift_res c (st_setOffset 0 pack) (\<lambda>pack. handle_data pack c)))"

definition handlePacket :: "net_env \<Rightarrow> clock \<Rightarrow> stream \<Rightarrow> base_client \<Rightarrow> base_client res" where
  "handlePacket E K pack c =
     (case dispatch E K pack c of (c, Some Undefined) \<Rightarrow> Inl Undefined | (c, _) \<Rightarrow> Inr c)"

subsection \<open>What an accepted packet does\<close>

definition deliver :: "bool \<Rightarrow> stream \<Rightarrow> base_client \<Rightarrow> outcome" where
  "deliver fragmented pack c = (if fragmented then handleFragmentedPacket pack c else handle_data pack c)"

text \<open>The same as a function of the partial packet alone: new partial packet, messages, exception.\<close>

definition delivery :: "bool \<Rightarrow> stream \<Rightarrow> frag_packet option \<Rightarrow> frag_packet option \<times> byte list list \<times> err option" where
  "delivery fragmented pack fp =
     (if fragmented then
        case receiveFragmentedPacket pack fp of
          Inl (FragmentedPacketParseException _) \<Rightarrow> (None, [], None)
        | Inl e \<Rightarrow> (Some (case fp of None \<Rightarrow> frag_new | Some f \<Rightarrow> f), [], Some e)
        | Inr (None, f) \<Rightarrow> (f, [], None)
        | Inr (Some s, f) \<Rightarrow> (f, handleDataChannelPacket s)
      else (fp, handleDataChannelPacket pack))"

lemma deliver_delivery:
  "deliver fr pack c = (case delivery fr pack (fragmentedPacket c) of (f, ms, e) \<Rightarrow>
     (c\<lparr>fragmentedPacket := f, processed := processed c @ ms\<rparr>, e))"
  by (cases c) (auto simp: deliver_def delivery_def handleFragmentedPacket_def handle_data_def fold_processMessage
      split: sum.split err.split option.split prod.split)

text \<open>Packet \<open>i\<close> of a stream of numbered packets, before and behind its sequence number.\<close>

type_synonym packets = "nat \<Rightarrow> bool \<times> byte list"

definition pk_head :: "packets \<Rightarrow> nat \<Rightarrow> byte list" where
  "pk_head pk i = [0, if fst (pk i) then 13 else 9]"

definition pk_arrives :: "packets \<Rightarrow> nat \<Rightarrow> stream" where
  "pk_arrives pk i = at_pos (pk_head pk i) (rev (le_bytes 2 i) @ snd (pk i))"

definition pk_body :: "packets \<Rightarrow> nat \<Rightarrow> stream" where
  "pk_body pk i = at_pos (pk_head pk i @ rev (le_bytes 2 i)) (snd (pk i))"

text \<open>The specification: packets \<open>0, ..., n - 1\<close> processed in order, each once.\<close>

fun in_order :: "packets \<Rightarrow> nat \<Rightarrow> frag_packet option \<times> byte list list \<times> err option" where
  "in_order pk 0 = (None, [], None)"
| "in_order pk (Suc n) =
     (case in_order pk n of
        (f, ms, None) \<Rightarrow> (case delivery (fst (pk n)) (pk_body pk n) f of (g, ms', e) \<Rightarrow> (g, ms @ ms', e))
      | (f, ms, Some e) \<Rightarrow> (f, ms, Some e))"

definition buffered :: "packets \<Rightarrow> nat \<Rightarrow> base_packet" where
  "buffered pk i = bp_new\<lparr>bstream := pk_body pk i, bsequence := word_of_nat i\<rparr>"

lemma parse_sequence:
  assumes "i < 2 ^ 16"
  shows "parseNetShort (pk_arrives pk i) = Inr (word_of_nat i, pk_body pk i)"
proof -
  have "unat (word_of_nat i :: 16 word) = i" using assms by (simp add: unat_of_nat)
  then show ?thesis
    using readShort_net [of "pk_head pk i" "word_of_nat i" "snd (pk i)"] by (simp add: parseNetShort_def pk_arrives_def pk_body_def)
qed

lemma buffer_packet: "bp_from_packet (pk_body pk i) (word_of_nat i) = Inr (buffered pk i)"
  by (simp add: bp_from_packet_def st_copy_def st_setOffset_def buffered_def pk_body_def pk_head_def pk_new_def st_new_at_pos st_size_def)

lemma opcode_buffered: "parseShort_at 0 (pk_body pk i) = Inr (if fst (pk i) then 0x0D00 else 0x0900)"
  by (simp add: parseShort_at_def readShort_at_def read_word_at_def readPrimitiveFrom_def pk_body_def pk_head_def)

lemma process_buffered_deliver: "process_buffered K (pk_body pk i) c = deliver (fst (pk i)) (pk_body pk i) c"
proof -
  have "st_setOffset 4 (pk_body pk i) = Inr (pk_body pk i)"
    by (simp add: st_setOffset_def pk_body_def pk_head_def at_pos_def st_size_def)
  then show ?thesis by (simp add: process_buffered_def opcode_buffered deliver_def)
qed

lemma receive_sequenced_deliver:
  "receive_sequenced E K fr pack c = validatePacket E pack c (\<lambda>pack c. then_do (deliver fr pack c) (processBufferedPackets E K))"
  by (simp add: receive_sequenced_def deliver_def)

subsection \<open>The receive buffer\<close>

interpretation bp: compare_order bp_compareTo
  by standard (auto simp: bp_compareTo_def split: if_splits)

text \<open>\<open>f i\<close> is the packet kept in the buffer for number \<open>i\<close>.\<close>

definition numbers :: "(nat \<Rightarrow> base_packet) \<Rightarrow> bool" where
  "numbers f \<longleftrightarrow> (\<forall>i. bsequence (f i) = word_of_nat i \<and> doSeq (f i))"

lemma buffered_numbers: "numbers (buffered pk)"
  by (simp add: numbers_def buffered_def bp_new_def)

lemma numbers_seq: "numbers f \<Longrightarrow> bp_getSequence (f i) = word_of_nat i \<and> bsequence (f i) = word_of_nat i"
  by (simp add: numbers_def bp_getSequence_def)

lemma word_nat_less: "i < 2 ^ 16 \<Longrightarrow> j < 2 ^ 16 \<Longrightarrow> (word_of_nat i :: 32 word) < word_of_nat j \<longleftrightarrow> i < j"
  by (simp add: word_less_nat_alt unat_of_nat)

lemma word_nat_eq: "i < 2 ^ 16 \<Longrightarrow> j < 2 ^ 16 \<Longrightarrow> (word_of_nat i :: 32 word) = word_of_nat j \<longleftrightarrow> i = j"
  using word_nat_less [of i j] word_nat_less [of j i] by (metis linorder_neq_iff)

lemma numbers_compare:
  assumes "numbers f" "i < 2 ^ 16" "j < 2 ^ 16"
  shows "bp_compareTo (f i) (f j) = (if i < j then 1 else if j < i then -1 else 0)"
  using assms by (simp add: bp_compareTo_def numbers_seq word_nat_less)

definition buffer_holds :: "(nat \<Rightarrow> base_packet) \<Rightarrow> base_packet sorted_vector \<Rightarrow> nat list \<Rightarrow> bool" where
  "buffer_holds f v js \<longleftrightarrow> numbers f \<and> insertPlan v = NO_DUPLICATE \<and> sorted_wrt (<) js \<and> (\<forall>j \<in> set js. j < 2 ^ 16) \<and>
     sv_wf bp_compareTo v (map f js)"

lemma buffer_holds_empty: "numbers f \<Longrightarrow> buffer_holds f (sv_setInsertPlan NO_DUPLICATE sv_new) []"
proof -
  assume "numbers f"
  moreover have "al_growable (al_new :: base_packet array_list)" by (simp add: al_growable_def al_new_def)
  ultimately show ?thesis by (simp add: buffer_holds_def sv_setInsertPlan_def sv_new_def sv_wf_def al_wf_def al_new_rep)
qed

lemma buffer_holds_short: "buffer_holds f v js \<Longrightarrow> length js < 2 ^ 28"
proof -
  assume "buffer_holds f v js"
  then have "distinct js" "set js \<subseteq> {0..<2 ^ 16}"
    by (auto simp: buffer_holds_def strict_sorted_iff)
  then show ?thesis using card_mono [of "{0..<2 ^ 16}" "set js"] distinct_card [of js] by simp
qed

lemma buffer_unique: "buffer_holds f v js \<Longrightarrow> sv_unique bp_compareTo (map f js)"
  unfolding buffer_holds_def sv_unique_def sorted_wrt_map
  using sorted_wrt_mono_rel [of js "(<)" "\<lambda>i j. 0 < bp_compareTo (f i) (f j)"] numbers_compare by fastforce

lemma buffer_put:
  assumes h: "buffer_holds f v js" and i: "i < 2 ^ 16"
  shows "\<exists>r v' js'. sv_put T bp_compareTo (f i) v = Inr (r, v') \<and> buffer_holds f v' js' \<and> set js' = insert i (set js)"
proof -
  let ?xs = "map f js" and ?e = "f i"
  have w: "sv_wf bp_compareTo v ?xs" and lt: "\<forall>j \<in> set js. j < 2 ^ 16" using h by (simp_all add: buffer_holds_def)
  have pl: "insertPlan v = NO_DUPLICATE" "NO_DUPLICATE \<noteq> ALLOW_DUPLICATE" "NO_DUPLICATE \<noteq> ALLOW_OVERWRITE"
    using h by (simp_all add: buffer_holds_def NO_DUPLICATE_def ALLOW_DUPLICATE_def ALLOW_OVERWRITE_def)
  have "length ?xs < 2 ^ 28" using buffer_holds_short [OF h] by simp
  from bp.put_ok [OF w this, of T ?e] obtain r v' xs' where
    p: "sv_put T bp_compareTo ?e v = Inr (r, v')" "sv_wf bp_compareTo v' xs'" "insertPlan v' = NO_DUPLICATE"
    "if (\<exists>x \<in> set ?xs. bp_compareTo x ?e = 0) then xs' = ?xs else 0 \<le> r \<and> r \<le> int (length ?xs) \<and> xs' = insert_at (nat r) ?e ?xs"
    "sv_unique bp_compareTo xs'"
    unfolding pl(1) using pl(2,3) buffer_unique [OF h] by (metis (mono_tags, lifting))
  have nu: "numbers f" using h by (simp add: buffer_holds_def)
  have dup: "(\<exists>x \<in> set ?xs. bp_compareTo x ?e = 0) \<longleftrightarrow> i \<in> set js"
    using lt i by (auto simp: numbers_compare [OF nu] split: if_splits)
  show ?thesis
  proof (cases "i \<in> set js")
    case True
    then have "buffer_holds f v' js" using p h dup by (simp add: buffer_holds_def)
    then show ?thesis using p(1) True by (intro exI [of _ r] exI [of _ v'] exI [of _ js]) auto
  next
    case False
    let ?js = "insert_at (nat r) i js"
    have xs': "xs' = map f ?js" and r: "nat r \<le> length js"
      using p(4) dup False by (auto simp: insert_at_def take_map drop_map)
    have st: "set ?js = insert i (set js)"
      using arg_cong [OF mset_insert_at [of "nat r" i js], of set_mset] by simp
    have "sorted_wrt (<) ?js"
    proof -
      have "sorted_wrt (\<lambda>a b. 0 < bp_compareTo (f a) (f b)) ?js"
        using p(5) by (simp add: xs' sv_unique_def sorted_wrt_map)
      then show ?thesis
        by (rule sorted_wrt_mono_rel [rotated]) (use st lt i in \<open>auto simp: numbers_compare [OF nu] split: if_splits\<close>)
    qed
    then have "buffer_holds f v' ?js" using p(2,3) lt i st nu by (simp add: buffer_holds_def xs')
    then show ?thesis using p(1) st by blast
  qed
qed

lemma seq_low: "i < 2 ^ 16 \<Longrightarrow> (word_of_nat i :: 32 word) AND 0xFFFF = word_of_nat i"
proof -
  assume "i < 2 ^ 16"
  moreover have "(0xFFFF :: 32 word) = mask 16" by (simp add: mask_eq_exp_minus_1)
  ultimately show ?thesis by (simp only: take_bit_eq_mask [symmetric] take_bit_of_nat take_bit_nat_eq_self)
qed

lemma buffer_first:
  assumes "buffer_holds f v (j # js)"
  shows "\<exists>a. al_get 0 (elems v) = Inr (f j) \<and> al_remove ptr_traits 0 (elems v) = Inr (f j, a) \<and>
    buffer_holds f (v\<lparr>elems := a\<rparr>) js"
proof -
  have w: "al_wf (elems v) (f j # map f js)" "sorted_wrt (\<lambda>a b. 0 \<le> bp_compareTo a b) (f j # map f js)"
    using assms by (simp_all add: buffer_holds_def sv_wf_def)
  have g: "al_get 0 (elems v) = Inr (f j)" using w(1) al_get_rep [of "elems v" _ 0] by (auto simp: al_wf_def)
  obtain a where "al_remove ptr_traits 0 (elems v) = Inr (f j, a)" "al_wf a (map f js)"
    using al_wf_remove [OF w(1), of 0 ptr_traits] by (auto simp: remove_at_def)
  then show ?thesis using g w(2) assms by (auto simp: buffer_holds_def sv_wf_def)
qed

lemma buffer_count: "buffer_holds f v js \<Longrightarrow> elementCount (elems v) = int (length js)"
  using al_rep_count [of "elems v"] by (fastforce simp: buffer_holds_def sv_wf_def al_wf_def)

text \<open>The receiver expects number \<open>n\<close>, and the packets \<open>f j\<close> for \<open>j\<close> in \<open>js\<close> wait in its buffer.\<close>

definition waiting :: "(nat \<Rightarrow> base_packet) \<Rightarrow> nat \<Rightarrow> nat list \<Rightarrow> base_client \<Rightarrow> bool" where
  "waiting f n js c \<longleftrightarrow> clientSequence (proto c) = word_of_nat n \<and> buffer_holds f (receiveBuffer c) js"

lemma waiting_queues: "only_queues c c' \<Longrightarrow> waiting f n js c' = waiting f n js c"
  by (simp add: waiting_def only_queues_fields)

lemma only_queues_next:
  assumes "only_queues (next_client_sequence c) c'"
  shows "\<exists>d. c' = next_client_sequence d \<and> only_queues c d"
proof -
  obtain sb bp ub rs where
    c': "c' = (next_client_sequence c)\<lparr>sendBuffer := sb, bufferedPacket := bp, sendUnreliableBuffer := ub, reentrantScheduled := rs\<rparr>"
    using assms by (auto simp: only_queues_def)
  let ?d = "c\<lparr>sendBuffer := sb, bufferedPacket := bp, sendUnreliableBuffer := ub, reentrantScheduled := rs\<rparr>"
  have "c' = next_client_sequence ?d" by (simp add: c')
  then show ?thesis using only_queues_def by blast
qed

lemma getBuffered_none:
  assumes "waiting f n js c" "n < 2 ^ 16" "case js of [] \<Rightarrow> True | j # _ \<Rightarrow> j \<noteq> n"
  shows "getBufferedPacket E c = Inr (None, c)"
proof (cases js)
  case Nil
  then have "elementCount (elems (receiveBuffer c)) = 0"
    using assms(1) buffer_count [of f "receiveBuffer c" "[]"] by (simp add: waiting_def)
  then show ?thesis by (simp add: getBufferedPacket_def al_isEmpty_def)
next
  case (Cons j rest)
  have b: "buffer_holds f (receiveBuffer c) (j # rest)" using assms(1) Cons by (simp add: waiting_def)
  then have j: "j < 2 ^ 16" "elementCount (elems (receiveBuffer c)) \<noteq> 0" "numbers f"
    using buffer_count [OF b] by (auto simp: buffer_holds_def)
  show ?thesis
    using buffer_first [OF b] j assms Cons seq_low [of n] seq_low [of j]
    by (auto simp: getBufferedPacket_def al_isEmpty_def waiting_def numbers_seq [OF j(3)] word_nat_eq)
qed

lemma getBuffered_next:
  assumes r: "waiting f n (n # js) c" and n: "n < 2 ^ 16"
  shows "\<exists>d. getBufferedPacket E c = Inr (Some (bstream (f n)), next_client_sequence d) \<and> waiting f n js d \<and>
    (\<exists>rb. only_queues (c\<lparr>receiveBuffer := rb\<rparr>) d)"
proof -
  have b: "buffer_holds f (receiveBuffer c) (n # js)" and nu: "numbers f" using r by (simp_all add: waiting_def buffer_holds_def)
  obtain a where a: "al_get 0 (elems (receiveBuffer c)) = Inr (f n)"
    "al_remove ptr_traits 0 (elems (receiveBuffer c)) = Inr (f n, a)" "buffer_holds f ((receiveBuffer c)\<lparr>elems := a\<rparr>) js"
    using buffer_first [OF b] by blast
  let ?c = "c\<lparr>receiveBuffer := (receiveBuffer c)\<lparr>elems := a\<rparr>\<rparr>"
  obtain c' where c': "acknowledgeClientPackets E (ucast (clientSequence (proto c))) (next_client_sequence ?c) = (c', None)"
    "only_queues (next_client_sequence ?c) c'" using acknowledge_ok by blast
  then obtain d where d: "c' = next_client_sequence d" "only_queues ?c d" using only_queues_next by blast
  have "expected c = word_of_nat n" using r seq_low [OF n] by (simp add: waiting_def)
  moreover have "elementCount (elems (receiveBuffer c)) \<noteq> 0" using buffer_count [OF b] by simp
  ultimately have "getBufferedPacket E c = Inr (Some (bstream (f n)), c')"
    using a c'(1) n by (simp add: getBufferedPacket_def al_isEmpty_def numbers_seq [OF nu] seq_low Let_def)
  moreover have "waiting f n js ?c" using r a(3) by (simp add: waiting_def)
  ultimately show ?thesis using d waiting_queues [OF d(2)] by blast
qed

lemma sequence_compare:
  assumes "waiting f n js c" "n < 2 ^ 16" "i < 2 ^ 16"
  shows "ucast (word_of_nat i :: 16 word) < expected c \<longleftrightarrow> i < n" "ucast (word_of_nat i :: 16 word) > expected c \<longleftrightarrow> n < i"
    "ucast (word_of_nat i :: 16 word) = (word_of_nat i :: 32 word)"
proof -
  show u: "ucast (word_of_nat i :: 16 word) = (word_of_nat i :: 32 word)"
    using assms(3) by (simp add: unsigned_of_nat take_bit_nat_eq_self)
  have "expected c = word_of_nat n" using assms(1) seq_low [OF assms(2)] by (simp add: waiting_def)
  then show "ucast (word_of_nat i :: 16 word) < expected c \<longleftrightarrow> i < n" "ucast (word_of_nat i :: 16 word) > expected c \<longleftrightarrow> n < i"
    using u assms(2,3) by (simp_all add: word_nat_less)
qed

text \<open>The three outcomes of \<open>validatePacket\<close>.\<close>

lemma validate_old:
  assumes "waiting f n js c" "n < 2 ^ 16" "i < n" "parseNetShort pack = Inr (word_of_nat i, pack')"
  shows "\<exists>c'. validatePacket E pack c accept = (c', None) \<and> only_queues c c'"
proof -
  obtain c' where "acknowledgeClientPackets E (word_of_nat i) c = (c', None)" "only_queues c c'" using acknowledge_ok by blast
  then show ?thesis using sequence_compare [OF assms(1,2), of i] assms by (simp add: validatePacket_def)
qed

lemma validate_future:
  assumes w: "waiting f n js c" and i: "n < i" "i < 2 ^ 16" and p: "parseNetShort pack = Inr (word_of_nat i, pack')"
    and b: "bp_from_packet pack' (word_of_nat i) = Inr (f i)"
  shows "\<exists>c' js'. (\<forall>accept. validatePacket E pack c accept = (c', None)) \<and> waiting f n js' c' \<and> set js' = insert i (set js) \<and>
    fragmentedPacket c' = fragmentedPacket c \<and> processed c' = processed c \<and> proto c' = proto c"
proof -
  obtain r v js' where put: "sv_put ptr_traits bp_compareTo (f i) (receiveBuffer c) = Inr (r, v)"
    "buffer_holds f v js'" "set js' = insert i (set js)"
    using buffer_put [of f "receiveBuffer c" js i ptr_traits] w i(2) by (auto simp: waiting_def)
  let ?c = "c\<lparr>receiveBuffer := v\<rparr>"
  obtain q where q: "OutOfOrderMessage (word_of_nat i) = Inr q" "\<not> doSeq q"
    using seq_message_ok [of "0x1100" "word_of_nat i"] by (auto simp: OutOfOrderMessage_def)
  obtain d where d: "sendPacket E q ?c = Inr d" "only_queues ?c d"
    using q(2) by (cases "isAvailable ?c") (auto simp: sendPacket_def catching_def sendSequenceLess_def)
  let ?d = "d\<lparr>numOutOfOrder := numOutOfOrder d + 1\<rparr>"
  have "\<forall>accept. validatePacket E pack c accept = (?d, None)"
    using sequence_compare [OF w _ i(2)] i p b put(1) q(1) d(1) by (simp add: validatePacket_def Let_def)
  moreover have "waiting f n js' ?c" using w put(2) by (simp add: waiting_def)
  then have "waiting f n js' ?d" using waiting_queues [OF d(2)] by (simp add: waiting_def)
  moreover have "fragmentedPacket ?d = fragmentedPacket c" "processed ?d = processed c" "proto ?d = proto c"
    using only_queues_fields [OF d(2)] by simp_all
  ultimately show ?thesis using put(3) by blast
qed

lemma validate_expected:
  assumes "waiting f n js c" "n < 2 ^ 16" "parseNetShort pack = Inr (word_of_nat n, pack')"
  shows "\<exists>d. validatePacket E pack c accept = accept pack' (next_client_sequence d) \<and> only_queues c d"
proof -
  obtain d where "acknowledgeClientPackets E (ucast (clientSequence (proto c))) (next_client_sequence c) = (next_client_sequence d, None)"
    "only_queues c d" using acknowledge_ok [of E _ "next_client_sequence c"] only_queues_next by blast
  then show ?thesis using sequence_compare [OF assms(1,2), of n] assms by (auto simp: validatePacket_def)
qed

subsection \<open>Delivery in order\<close>

text \<open>
  The receiver after the packets \<open>0, ..., n - 1\<close> were accepted in order and the packets \<open>js\<close> wait
  in the buffer.
\<close>

definition receiver_at :: "32 word \<Rightarrow> packets \<Rightarrow> byte list list \<Rightarrow> nat \<Rightarrow> nat list \<Rightarrow> base_client \<Rightarrow> bool" where
  "receiver_at k0 pk m0 n js c \<longleftrightarrow> waiting (buffered pk) n js c \<and> crcSeed (proto c) = k0 \<and>
     (\<exists>ms. in_order pk n = (fragmentedPacket c, ms, None) \<and> processed c = m0 @ ms)"

lemma receiver_at_queues: "only_queues c c' \<Longrightarrow> receiver_at k0 pk m0 n js c' = receiver_at k0 pk m0 n js c"
  by (simp add: receiver_at_def waiting_queues only_queues_fields)

lemma deliver_next:
  assumes "receiver_at k0 pk m0 n js c" "snd (snd (in_order pk (Suc n))) = None"
  shows "\<exists>c'. deliver (fst (pk n)) (pk_body pk n) c = (c', None) \<and>
    receiver_at k0 pk m0 (Suc n) js (next_client_sequence c') \<and> clientSequence (proto c') = clientSequence (proto c)"
proof -
  obtain ms where ms: "in_order pk n = (fragmentedPacket c, ms, None)" "processed c = m0 @ ms"
    using assms(1) by (auto simp: receiver_at_def)
  obtain g ms' e where d: "delivery (fst (pk n)) (pk_body pk n) (fragmentedPacket c) = (g, ms', e)"
    using prod_cases3 by blast
  then have e: "e = None" using assms(2) ms by simp
  show ?thesis
    using assms(1) d e ms by (auto simp: deliver_delivery receiver_at_def waiting_def add.commute)
qed

lemma deliver_shifted:
  "deliver fr pack (next_client_sequence c) = (let (c', e) = deliver fr pack c in (next_client_sequence c', e))"
  by (cases c) (simp add: deliver_delivery split: prod.split)

lemma next_buffered:
  assumes "receiver_at k0 pk m0 n (n # js) c" "n < 2 ^ 16"
  shows "\<exists>d. getBufferedPacket E c = Inr (Some (pk_body pk n), next_client_sequence d) \<and> receiver_at k0 pk m0 n js d"
proof -
  obtain d rb where d: "getBufferedPacket E c = Inr (Some (bstream (buffered pk n)), next_client_sequence d)" "waiting (buffered pk) n js d"
    "only_queues (c\<lparr>receiveBuffer := rb\<rparr>) d"
    using getBuffered_next [of "buffered pk" n js c E] assms by (auto simp: receiver_at_def)
  have "bstream (buffered pk n) = pk_body pk n" by (simp add: buffered_def)
  moreover have "receiver_at k0 pk m0 n js d" using assms(1) only_queues_fields [OF d(3)] d(2) by (simp add: receiver_at_def)
  ultimately show ?thesis using d(1) by auto
qed

lemma drain_buffer:
  assumes "receiver_at k0 pk m0 n js c" "\<forall>j \<in> set js. n \<le> j \<and> j < 65535" "n \<le> 65535"
    "\<And>k. n \<le> k \<Longrightarrow> {n..<k} \<subseteq> set js \<Longrightarrow> snd (snd (in_order pk k)) = None"
  shows "\<exists>c' n' js'. buffered_loop (Suc (length js)) E K c = Some (c', None) \<and> receiver_at k0 pk m0 n' js' c' \<and>
    n \<le> n' \<and> n' \<le> 65535 \<and> {n..<n'} \<subseteq> set js \<and> n' \<notin> set js \<and> set js' = {j \<in> set js. n' < j}"
  using assms
proof (induction js arbitrary: n c)
  case Nil
  then have "getBufferedPacket E c = Inr (None, c)"
    by (intro getBuffered_none [of "buffered pk" n "[]"]) (auto simp: receiver_at_def)
  then show ?case using Nil.prems(1,3) by (intro exI [of _ c] exI [of _ n] exI [of _ "[]"]) simp
next
  case (Cons j js)
  have srt: "sorted_wrt (<) (j # js)" using Cons.prems(1) by (simp add: receiver_at_def waiting_def buffer_holds_def)
  show ?case
  proof (cases "j = n")
    case False
    then have "getBufferedPacket E c = Inr (None, c)" 
      using Cons.prems(1,3) by (intro getBuffered_none [of "buffered pk" n "j # js"]) (auto simp: receiver_at_def)
    moreover have "\<forall>x \<in> set (j # js). n < x" using False Cons.prems(2) srt by fastforce
    ultimately show ?thesis using Cons.prems(1,3)
      by (intro exI [of _ c] exI [of _ n] exI [of _ "j # js"]) fastforce
  next
    case True
    have n: "n < 65535" using Cons.prems(2) True by simp
    obtain d where d: "getBufferedPacket E c = Inr (Some (pk_body pk n), next_client_sequence d)" "receiver_at k0 pk m0 n js d"
      using next_buffered [of k0 pk m0 n js c E] Cons.prems(1) True n by auto
    have "snd (snd (in_order pk (Suc n))) = None" using Cons.prems(4) [of "Suc n"] True by auto
    then obtain d' where d': "deliver (fst (pk n)) (pk_body pk n) d = (d', None)" "receiver_at k0 pk m0 (Suc n) js (next_client_sequence d')"
      using deliver_next [OF d(2)] by blast
    have p: "process_buffered K (pk_body pk n) (next_client_sequence d) = (next_client_sequence d', None)"
      by (simp add: process_buffered_deliver deliver_shifted d'(1))
    have "\<exists>c' n' js'. buffered_loop (Suc (length js)) E K (next_client_sequence d') = Some (c', None) \<and> receiver_at k0 pk m0 n' js' c' \<and>
      Suc n \<le> n' \<and> n' \<le> 65535 \<and> {Suc n..<n'} \<subseteq> set js \<and> n' \<notin> set js \<and> set js' = {j \<in> set js. n' < j}"
    proof (rule Cons.IH [OF d'(2)])
      show "\<forall>j \<in> set js. Suc n \<le> j \<and> j < 65535" using srt True Cons.prems(2) by auto
      show "snd (snd (in_order pk k)) = None" if "Suc n \<le> k" "{Suc n..<k} \<subseteq> set js" for k
      proof (rule Cons.prems(4))
        have "{n..<k} = insert n {Suc n..<k}" using that(1) by auto
        then show "{n..<k} \<subseteq> set (j # js)" using that(2) True by auto
      qed (use that in simp)
    qed (use n in simp)
    then obtain c' n' js' where r: "buffered_loop (Suc (length js)) E K (next_client_sequence d') = Some (c', None)"
      "receiver_at k0 pk m0 n' js' c'" "Suc n \<le> n'" "n' \<le> 65535" "{Suc n..<n'} \<subseteq> set js" "n' \<notin> set js" "set js' = {j \<in> set js. n' < j}" by blast
    have "buffered_loop (Suc (length (j # js))) E K c = Some (c', None)" using d(1) p r(1) by simp
    moreover have "{n..<n'} \<subseteq> set (j # js)"
    proof -
      have "{n..<n'} = insert n {Suc n..<n'}" using r(3) by auto
      then show ?thesis using r(5) True by auto
    qed
    ultimately show ?thesis using r True by (intro exI [of _ c'] exI [of _ n'] exI [of _ js']) auto
  qed
qed

text \<open>The receiver when the set \<open>seen\<close> of packets has arrived.\<close>

definition received :: "32 word \<Rightarrow> packets \<Rightarrow> byte list list \<Rightarrow> nat set \<Rightarrow> nat \<Rightarrow> base_client \<Rightarrow> bool" where
  "received k0 pk m0 seen n c \<longleftrightarrow> n \<notin> seen \<and> {..<n} \<subseteq> seen \<and> n \<le> 65535 \<and>
     (\<exists>js. receiver_at k0 pk m0 n js c \<and> set js = {j \<in> seen. n < j})"

lemma receive_old:
  assumes "received k0 pk m0 seen n c" "i < n"
  shows "\<exists>c'. receive_sequenced E K (fst (pk i)) (pk_arrives pk i) c = (c', None) \<and> received k0 pk m0 (insert i seen) n c'"
proof -
  obtain js where js: "receiver_at k0 pk m0 n js c" and n: "n \<le> 65535" "i \<in> seen" using assms by (auto simp: received_def)
  obtain c' where "receive_sequenced E K (fst (pk i)) (pk_arrives pk i) c = (c', None)" "only_queues c c'"
    using validate_old [of "buffered pk" n js c i "pk_arrives pk i" "pk_body pk i" E] parse_sequence [of i pk] js n(1) assms(2)
    by (fastforce simp: receive_sequenced_deliver receiver_at_def)
  then show ?thesis using assms(1) n(2) receiver_at_queues by (auto simp: received_def insert_absorb)
qed

lemma receive_future:
  assumes "received k0 pk m0 seen n c" "n < i" "i < 65535"
  shows "\<exists>c'. receive_sequenced E K (fst (pk i)) (pk_arrives pk i) c = (c', None) \<and> received k0 pk m0 (insert i seen) n c'"
proof -
  obtain js where js: "receiver_at k0 pk m0 n js c" "set js = {j \<in> seen. n < j}" and n: "n \<le> 65535" "n \<notin> seen" "{..<n} \<subseteq> seen"
    using assms by (auto simp: received_def)
  obtain c' js' where c': "receive_sequenced E K (fst (pk i)) (pk_arrives pk i) c = (c', None)" "waiting (buffered pk) n js' c'"
    "set js' = insert i (set js)" "fragmentedPacket c' = fragmentedPacket c" "processed c' = processed c" "proto c' = proto c"
    using validate_future [of "buffered pk" n js c i "pk_arrives pk i" "pk_body pk i" E] parse_sequence [of i pk] buffer_packet [of pk i]
      js(1) assms(2,3) by (fastforce simp: receive_sequenced_deliver receiver_at_def)
  moreover have "receiver_at k0 pk m0 n js' c'" using js(1) c' by (auto simp: receiver_at_def)
  moreover have "set js' = {j \<in> insert i seen. n < j}" unfolding c'(3) js(2) using assms(2) by auto
  ultimately show ?thesis using n assms(2) unfolding received_def by (intro exI [of _ c']) auto
qed

lemma receive_expected:
  assumes "received k0 pk m0 seen n c" "n < 65535" "seen \<subseteq> {..<65535}"
    and ok: "\<And>k. {..<k} \<subseteq> insert n seen \<Longrightarrow> snd (snd (in_order pk k)) = None"
  shows "\<exists>c' n'. receive_sequenced E K (fst (pk n)) (pk_arrives pk n) c = (c', None) \<and> received k0 pk m0 (insert n seen) n' c'"
proof -
  obtain js where js: "receiver_at k0 pk m0 n js c" "set js = {j \<in> seen. n < j}" and n: "n \<notin> seen" "{..<n} \<subseteq> seen"
    using assms by (auto simp: received_def)
  obtain d where d: "receive_sequenced E K (fst (pk n)) (pk_arrives pk n) c =
      then_do (deliver (fst (pk n)) (pk_body pk n) (next_client_sequence d)) (processBufferedPackets E K)" "only_queues c d"
    using validate_expected [OF _ _ parse_sequence, of "buffered pk" n js c] js(1) assms(2)
    by (fastforce simp: receive_sequenced_deliver receiver_at_def)
  have "{..<Suc n} \<subseteq> insert n seen" using n by (auto simp: less_Suc_eq)
  then have "snd (snd (in_order pk (Suc n))) = None" by (rule ok)
  then obtain e where e: "deliver (fst (pk n)) (pk_body pk n) d = (e, None)" "receiver_at k0 pk m0 (Suc n) js (next_client_sequence e)"
    using deliver_next [of k0 pk m0 n js d] receiver_at_queues [OF d(2), of k0 pk m0 n js] js(1) by blast
  let ?e = "next_client_sequence e"
  have "\<exists>c' n' js'. buffered_loop (Suc (length js)) E K ?e = Some (c', None) \<and> receiver_at k0 pk m0 n' js' c' \<and>
    Suc n \<le> n' \<and> n' \<le> 65535 \<and> {Suc n..<n'} \<subseteq> set js \<and> n' \<notin> set js \<and> set js' = {j \<in> set js. n' < j}"
  proof (rule drain_buffer [OF e(2)])
    show "\<forall>j \<in> set js. Suc n \<le> j \<and> j < 65535" using js(2) assms(3) by auto
    show "snd (snd (in_order pk k)) = None" if "Suc n \<le> k" "{Suc n..<k} \<subseteq> set js" for k
    proof (rule ok)
      have "{..<k} = {..<n} \<union> {n} \<union> {Suc n..<k}" using that(1) by auto
      then show "{..<k} \<subseteq> insert n seen" using that(2) n js(2) by auto
    qed
  qed (use assms(2) in simp)
  then obtain c' n' js' where r: "buffered_loop (Suc (length js)) E K ?e = Some (c', None)" "receiver_at k0 pk m0 n' js' c'"
    "Suc n \<le> n'" "n' \<le> 65535" "{Suc n..<n'} \<subseteq> set js" "n' \<notin> set js" "set js' = {j \<in> set js. n' < j}" by blast
  have "elementCount (elems (receiveBuffer ?e)) = int (length js)"
    using e(2) buffer_count by (auto simp: receiver_at_def waiting_def)
  then have pb: "processBufferedPackets E K ?e = (c', None)" using r(1) by (simp add: processBufferedPackets_def)
  have "receive_sequenced E K (fst (pk n)) (pk_arrives pk n) c = (c', None)"
    using d(1) deliver_shifted [of "fst (pk n)" "pk_body pk n" d] e(1) pb by simp
  moreover have "received k0 pk m0 (insert n seen) n' c'"
  proof -
    have "{..<n'} = {..<n} \<union> {n} \<union> {Suc n..<n'}" using r(3) by auto
    then have "{..<n'} \<subseteq> insert n seen" using r(5) n js(2) by auto
    moreover have "n' \<notin> insert n seen" using r(3,6) unfolding js(2) by auto
    moreover have "set js' = {j \<in> insert n seen. n' < j}" unfolding r(7) js(2) using r(3) by auto
    ultimately show ?thesis unfolding received_def using r(2,4) by blast
  qed
  ultimately show ?thesis by blast
qed

lemma receive_step:
  assumes r: "received k0 pk m0 seen n c" and s: "seen \<subseteq> {..<65535}" "i < 65535"
    and ok: "\<And>k. {..<k} \<subseteq> insert i seen \<Longrightarrow> snd (snd (in_order pk k)) = None"
  shows "\<exists>c' n'. receive_sequenced E K (fst (pk i)) (pk_arrives pk i) c = (c', None) \<and> received k0 pk m0 (insert i seen) n' c'"
proof (cases i n rule: linorder_cases)
  case less
  then show ?thesis using receive_old [OF r] by blast
next
  case equal
  then show ?thesis using receive_expected [OF r _ s(1)] s(2) ok by auto
next
  case greater
  then show ?thesis using receive_future [OF r _ s(2)] by blast
qed

fun receive_packets :: "net_env \<Rightarrow> clock \<Rightarrow> packets \<Rightarrow> nat list \<Rightarrow> base_client \<Rightarrow> outcome" where
  "receive_packets E K pk [] c = (c, None)"
| "receive_packets E K pk (i # idxs) c =
     then_do (receive_sequenced E K (fst (pk i)) (pk_arrives pk i) c) (receive_packets E K pk idxs)"

lemma receive_packets_ok:
  "received k0 pk m0 seen n c \<Longrightarrow> seen \<subseteq> {..<65535} \<Longrightarrow> \<forall>i \<in> set idxs. i < 65535 \<Longrightarrow>
   (\<And>k. {..<k} \<subseteq> seen \<union> set idxs \<Longrightarrow> snd (snd (in_order pk k)) = None) \<Longrightarrow>
   \<exists>c' n'. receive_packets E K pk idxs c = (c', None) \<and> received k0 pk m0 (seen \<union> set idxs) n' c'"
proof (induction idxs arbitrary: seen n c)
  case Nil
  then show ?case by auto
next
  case (Cons i idxs)
  have "snd (snd (in_order pk k)) = None" if "{..<k} \<subseteq> insert i seen" for k using that Cons.prems(4) [of k] by auto
  then obtain c' n' where c': "receive_sequenced E K (fst (pk i)) (pk_arrives pk i) c = (c', None)" "received k0 pk m0 (insert i seen) n' c'"
    using receive_step [OF Cons.prems(1,2), of i E K] Cons.prems(3) by auto
  have "\<exists>c'' n''. receive_packets E K pk idxs c' = (c'', None) \<and> received k0 pk m0 (insert i seen \<union> set idxs) n'' c''"
    using Cons.prems by (intro Cons.IH [OF c'(2)]) auto
  then show ?case using c'(1) by auto
qed

lemma received_initial: "received k0 pk [] {} 0 ((client_new E)\<lparr>proto := (proto (client_new E))\<lparr>crcSeed := k0\<rparr>\<rparr>)"
  using buffer_holds_empty [OF buffered_numbers] by (auto simp: received_def receiver_at_def waiting_def client_new_def)

text \<open>
  C2. Reliable, ordered, exactly-once delivery: the data and fragment packets numbered from 0 may
  arrive in any order, any number of times, with any of them missing (within the first 65535
  numbers, and when processing them in order raises no exception). Whatever the order, the
  receiver ends in the state of having processed exactly the packets \<open>0, ..., n - 1\<close> once each and
  in order, where \<open>n\<close> is the first packet that has not arrived: the same messages in the same order
  and the same partially received message.
\<close>

theorem ordered_delivery:
  assumes "\<forall>i \<in> set idxs. i < 65535"
    and "\<forall>k. {..<k} \<subseteq> set idxs \<longrightarrow> snd (snd (in_order pk k)) = None"
  shows "\<exists>c n. receive_packets E K pk idxs (client_new E) = (c, None) \<and>
    n \<notin> set idxs \<and> {..<n} \<subseteq> set idxs \<and> clientSequence (proto c) = word_of_nat n \<and>
    in_order pk n = (fragmentedPacket c, processed c, None)"
proof -
  have r0: "received 0 pk [] {} 0 (client_new E)" using received_initial [of 0 pk E] by (simp add: client_new_def)
  obtain c n where "receive_packets E K pk idxs (client_new E) = (c, None)" "received 0 pk [] (set idxs) n c"
    using receive_packets_ok [OF r0, of idxs E K] assms by auto
  then show ?thesis by (auto simp: received_def receiver_at_def waiting_def)
qed

subsection \<open>Ends, wraps and multi packets\<close>

definition demo_multi :: stream where
  "demo_multi = at_pos [0, 3] [6, 0, 9, 0, 1, 11, 12, 6, 0, 9, 0, 2, 21, 22]"

definition demo_first :: stream where
  "demo_first = at_pos [0, 9] [0, 0, 1, 2]"

definition demo_kept :: "nat \<Rightarrow> base_packet" where
  "demo_kept i = bp_new\<lparr>bstream := (if i = 1 then at_pos [0, 3, 6, 0, 9, 0, 1] [11, 12, 6, 0, 9, 0, 2, 21, 22]
     else at_pos [0, 3, 6, 0, 9, 0, 1, 11, 12, 6, 0, 9, 0, 2] [21, 22]), bsequence := word_of_nat i\<rparr>"

lemma demo_kept_numbers: "numbers demo_kept"
  by (simp add: numbers_def demo_kept_def bp_new_def)

lemmas parse_concrete = parseByte_def readByte_def parseShort_def parseNetShort_def readShort_def read_word_def readPrimitive_def
  st_take_bytes_def st_shiftOffset_def st_setOffset_def st_hasData_def st_size_def at_pos_def htons_def

lemma kept_processed:
  assumes "i = 1 \<or> i = 2"
  shows "process_buffered K (bstream (demo_kept i)) c = (c\<lparr>processed := processed c @ [[11, 12], [21, 22]]\<rparr>, None)"
proof -
  have "bstream (demo_kept i) = \<lparr>sbuf = [0, 3, 6, 0, 9, 0, 1, 11, 12, 6, 0, 9, 0, 2, 21, 22], soff = if i = 1 then 7 else 14\<rparr>"
    by (simp add: demo_kept_def at_pos_def)
  then show ?thesis
    by (simp add: process_buffered_def handleMultiPacket_unvalidated_def multi_loop.simps multi_block_def skip_sequence_def
        handleDataChannelMultiPacket_def parse_concrete bm_slice_def bp_new_size_def processMessage_def
        parseShort_at_def readShort_at_def read_word_at_def readPrimitiveFrom_def)
qed

lemma sorted_two: "sorted_wrt (<) js \<Longrightarrow> set js = {1, 2 :: nat} \<Longrightarrow> js = [1, 2]"
  using strict_sorted_equal [of js "[1, 2]"] by simp

lemma multi_kept:
  assumes "waiting demo_kept 0 [] c"
  shows "\<exists>c'. handleMultiPacket E K demo_multi c = (c', None) \<and> waiting demo_kept 0 [1, 2] c' \<and>
    fragmentedPacket c' = fragmentedPacket c \<and> processed c' = processed c"
proof -
  let ?p = "\<lparr>sbuf = [0, 3, 6, 0, 9, 0, 1, 11, 12, 6, 0, 9, 0, 2, 21, 22], soff = 0\<rparr>"
  let ?block = "multi_block K (validatePacket E) (processBufferedPackets E K)"
  have b1: "bp_from_packet (?p\<lparr>soff := 7\<rparr>) (word_of_nat 1) = Inr (demo_kept 1)"
    and b2: "bp_from_packet (?p\<lparr>soff := 14\<rparr>) (word_of_nat 2) = Inr (demo_kept 2)"
    by (simp_all add: bp_from_packet_def st_copy_def st_setOffset_def demo_kept_def pk_new_def st_new_at_pos st_size_def at_pos_def
        st_writeStream_def st_put_bytes_def memcpy_into_def st_reset_def)
  have q1: "parseNetShort (?p\<lparr>soff := 5\<rparr>) = Inr (word_of_nat 1, ?p\<lparr>soff := 7\<rparr>)"
    and q2: "parseNetShort (?p\<lparr>soff := 12\<rparr>) = Inr (word_of_nat 2, ?p\<lparr>soff := 14\<rparr>)"
    by (simp_all add: parse_concrete le_bytes_def upt_rec)
  obtain c1 js1 where c1: "\<forall>accept. validatePacket E (?p\<lparr>soff := 5\<rparr>) c accept = (c1, None)" "waiting demo_kept 0 js1 c1" "set js1 = {1}"
    "fragmentedPacket c1 = fragmentedPacket c" "processed c1 = processed c"
    using validate_future [OF assms _ _ q1 b1, of E] by auto
  obtain c2 js2 where c2: "\<forall>accept. validatePacket E (?p\<lparr>soff := 12\<rparr>) c1 accept = (c2, None)" "waiting demo_kept 0 js2 c2" "set js2 = {1, 2}"
    "fragmentedPacket c2 = fragmentedPacket c" "processed c2 = processed c"
    using validate_future [OF c1(2) _ _ q2 b2, of E] c1(3-5) by (auto simp: insert_commute)
  have "js2 = [1, 2]" using c2(2,3) sorted_two by (simp add: waiting_def buffer_holds_def)
  moreover have "handleMultiPacket E K demo_multi c = (c2, None)"
  proof -
    have "multi_loop ?block (?p\<lparr>soff := 2\<rparr>) c = multi_loop ?block (?p\<lparr>soff := 9\<rparr>) c1"
      using c1(1) by (subst multi_loop.simps) (simp add: multi_block_def parse_concrete)
    also have "\<dots> = multi_loop ?block (?p\<lparr>soff := 16\<rparr>) c2"
      using c2(1) by (subst multi_loop.simps) (simp add: multi_block_def parse_concrete)
    also have "\<dots> = (c2, None)" by (simp add: multi_loop.simps parse_concrete)
    finally show ?thesis by (simp add: handleMultiPacket_def demo_multi_def at_pos_def)
  qed
  ultimately show ?thesis using c2 by auto
qed

text \<open>
  Out-of-order packets inside a multi packet are delivered twice: \<open>validatePacket\<close> buffers a copy of
  the whole multi packet for each of its out-of-order blocks, and \<open>processBufferedPackets\<close>
  processes every block of every copy. When a multi packet with the data packets 1 and 2
  arrives before data packet 0, the messages of both are delivered twice.
\<close>

lemma multi_packet_delivered_twice:
  "processed (fst (then_do (handleMultiPacket E K demo_multi (client_new E)) (receive_sequenced E K False demo_first))) =
     [[1, 2], [11, 12], [21, 22], [11, 12], [21, 22]]"
proof -
  have w0: "waiting demo_kept 0 [] (client_new E)"
    using buffer_holds_empty [OF demo_kept_numbers] by (simp add: waiting_def client_new_def)
  obtain c where c: "handleMultiPacket E K demo_multi (client_new E) = (c, None)" "waiting demo_kept 0 [1, 2] c" "processed c = []"
    using multi_kept [OF w0, of E K] by (auto simp: client_new_def)
  have q: "parseNetShort demo_first = Inr (word_of_nat 0, at_pos [0, 9, 0, 0] [1, 2])"
    by (simp add: demo_first_def parse_concrete le_bytes_def upt_rec)
  obtain d where d: "receive_sequenced E K False demo_first c =
      then_do (handle_data (at_pos [0, 9, 0, 0] [1, 2]) (next_client_sequence d)) (processBufferedPackets E K)" "only_queues c d"
    using validate_expected [OF c(2) _ q, of E] by (fastforce simp: receive_sequenced_def)
  let ?d = "(next_client_sequence d)\<lparr>processed := [[1, 2]]\<rparr>"
  have h: "handle_data (at_pos [0, 9, 0, 0] [1, 2]) (next_client_sequence d) = (?d, None)"
    using only_queues_fields [OF d(2)] c(3)
    by (simp add: handle_data_def handleDataChannelPacket_def parse_concrete bm_from_def bp_new_size_def processMessage_def)
  have w1: "waiting demo_kept 1 [1, 2] ?d" using c(2) only_queues_fields [OF d(2)] by (simp add: waiting_def)
  obtain e where e: "getBufferedPacket E ?d = Inr (Some (bstream (demo_kept 1)), next_client_sequence e)" "waiting demo_kept 1 [2] e"
    "processed e = [[1, 2]]" using getBuffered_next [OF w1, of E] by (auto dest!: only_queues_fields(11))
  let ?e = "(next_client_sequence e)\<lparr>processed := [[1, 2], [11, 12], [21, 22]]\<rparr>"
  have w2: "waiting demo_kept 2 [2] ?e" using e(2) by (simp add: waiting_def)
  obtain g where g: "getBufferedPacket E ?e = Inr (Some (bstream (demo_kept 2)), next_client_sequence g)" "waiting demo_kept 2 [] g"
    "processed g = [[1, 2], [11, 12], [21, 22]]" using getBuffered_next [OF w2, of E] by (auto dest!: only_queues_fields(11))
  let ?g = "(next_client_sequence g)\<lparr>processed := [[1, 2], [11, 12], [21, 22], [11, 12], [21, 22]]\<rparr>"
  have "waiting demo_kept 3 [] ?g" using g(2) by (simp add: waiting_def)
  then have n: "getBufferedPacket E ?g = Inr (None, ?g)" by (intro getBuffered_none) auto
  have "elementCount (elems (receiveBuffer ?d)) = 2" using w1 buffer_count by (fastforce simp: waiting_def)
  moreover have "buffered_loop (Suc (Suc (Suc 0))) E K ?d = Some (?g, None)"
    using e(1,3) g(1,3) n kept_processed by simp
  ultimately have "processBufferedPackets E K ?d = (?g, None)" by (simp add: processBufferedPackets_def numeral_2_eq_2)
  then show ?thesis using c(1) d(1) h by simp
qed

lemma getBuffered_shrinks:
  assumes "al_wf (elems (receiveBuffer c)) xs" "getBufferedPacket E c = Inr (Some pack, c')"
  shows "xs \<noteq> [] \<and> al_wf (elems (receiveBuffer c')) (tl xs)"
proof -
  have ne: "elementCount (elems (receiveBuffer c)) \<noteq> 0" using assms(2) by (auto simp: getBufferedPacket_def al_isEmpty_def split: if_splits)
  moreover have "elementCount (elems (receiveBuffer c)) = int (length xs)"
    using assms(1) al_rep_count by (fastforce simp: al_wf_def)
  ultimately obtain x rest where xs: "xs = x # rest" by (cases xs) auto
  obtain a where a: "al_remove ptr_traits 0 (elems (receiveBuffer c)) = Inr (x, a)" "al_wf a rest"
    using al_wf_remove [OF assms(1), of 0 ptr_traits] xs by (auto simp: remove_at_def)
  let ?c = "c\<lparr>receiveBuffer := (receiveBuffer c)\<lparr>elems := a\<rparr>\<rparr>"
  obtain d where d: "acknowledgeClientPackets E (ucast (clientSequence (proto ?c))) (next_client_sequence ?c) = (d, None)"
    "only_queues (next_client_sequence ?c) d" using acknowledge_ok by blast
  have "c' = d"
    using assms(2) ne a d(1) by (auto simp: getBufferedPacket_def al_isEmpty_def rbind_eq_Inr_iff Let_def split: if_splits)
  then show ?thesis using only_queues_fields [OF d(2)] a(2) xs by simp
qed

lemma buffered_loop_total:
  "al_wf (elems (receiveBuffer c)) xs \<Longrightarrow> length xs < n \<Longrightarrow> \<exists>r. buffered_loop n E K c = Some r"
proof (induction n arbitrary: c xs)
  case 0
  then show ?case by simp
next
  case (Suc n)
  show ?case
  proof (cases "\<exists>pack d. getBufferedPacket E c = Inr (Some pack, d)")
    case True
    then obtain pack d where d: "getBufferedPacket E c = Inr (Some pack, d)" by blast
    obtain d' e where d': "process_buffered K pack d = (d', e)" by fastforce
    have w: "xs \<noteq> []" "al_wf (elems (receiveBuffer d')) (tl xs)"
      using getBuffered_shrinks [OF Suc.prems(1) d] process_buffered_receiveBuffer [of K pack d] d' by auto
    show ?thesis using d d' Suc.IH [OF w(2)] Suc.prems(2) w(1) by (cases e; cases xs) auto
  next
    case False
    then show ?thesis by (auto split: sum.split prod.split option.split)
  qed
qed

lemma buffered_loop_more: "buffered_loop n E K c = Some r \<Longrightarrow> n \<le> m \<Longrightarrow> buffered_loop m E K c = Some r"
proof (induction n arbitrary: c m)
  case 0
  then show ?case by simp
next
  case (Suc n)
  then obtain m' where "m = Suc m'" "n \<le> m'" by (cases m) auto
  then show ?case using Suc by (auto split: sum.splits prod.splits option.splits)
qed

text \<open>
  C33. Draining the receive buffer ends: \<open>processBufferedPackets\<close> returns on every receive buffer, and
  the bound on the rounds in the model does not matter, since any larger one gives the same result.
\<close>

theorem buffered_packets_terminate:
  assumes "al_wf (elems (receiveBuffer c)) xs" "length xs < n"
  shows "buffered_loop n E K c = Some (processBufferedPackets E K c)"
proof -
  have "elementCount (elems (receiveBuffer c)) = int (length xs)"
    using assms(1) al_rep_count by (fastforce simp: al_wf_def)
  moreover obtain r where "buffered_loop (Suc (length xs)) E K c = Some r"
    using buffered_loop_total [OF assms(1) lessI] by blast
  ultimately show ?thesis using buffered_loop_more [of "Suc (length xs)" E K c r n] assms(2)
    by (simp add: processBufferedPackets_def)
qed

definition demo_clock :: clock where
  "demo_clock = \<lparr>ourTick = 5, netStatusStamp = 0, ackElapsedMs = 30\<rparr>"

theorem buffered_packets_terminate_witness:
  "buffered_loop 1 demo_env demo_clock (client_new demo_env) = Some (processBufferedPackets demo_env demo_clock (client_new demo_env))"
proof (rule buffered_packets_terminate)
  show "al_wf (elems (receiveBuffer (client_new demo_env))) []"
    using buffer_holds_empty [OF buffered_numbers] by (auto simp: client_new_def buffer_holds_def sv_wf_def)
qed simp

text \<open>
  The sequence numbers on the wire are 16 bits wide and \<open>validatePacket\<close> compares them without
  regard to the wrap: a packet \<open>i\<close> that arrives before the expected packet \<open>n\<close> but behind the wrap
  (\<open>n = 65535\<close>, \<open>i = 65536\<close>, say) is taken for an old one. It is acknowledged, and neither buffered
  nor processed.
\<close>

lemma early_packet_lost_at_wrap:
  assumes "parseNetShort pack = Inr (word_of_nat i, pack')" "clientSequence (proto c) = word_of_nat n"
    "n < i" "i mod 65536 < n mod 65536" "isAvailable c"
  shows "\<exists>c' ack. receive_sequenced E K fr pack c = (c', None) \<and> AcknowledgeMessage (word_of_nat i) = Inr ack \<and>
    sendUnreliableBuffer c' = sendUnreliableBuffer c @ [ack] \<and> receiveBuffer c' = receiveBuffer c \<and>
    processed c' = processed c \<and> clientSequence (proto c') = clientSequence (proto c)"
proof -
  have m: "(0xFFFF :: 32 word) = mask 16" by (simp add: mask_eq_exp_minus_1)
  have "expected c = word_of_nat (n mod 65536)"
    unfolding assms(2) m by (simp only: take_bit_eq_mask [symmetric] take_bit_of_nat) (simp add: take_bit_eq_mod)
  moreover have "ucast (word_of_nat i :: 16 word) = (word_of_nat (i mod 65536) :: 32 word)"
    by (simp add: unsigned_of_nat take_bit_eq_mod)
  ultimately have lt: "ucast (word_of_nat i :: 16 word) < expected c"
    using assms(4) by (simp add: word_nat_less)
  obtain p where p: "AcknowledgeMessage (word_of_nat i) = Inr p" "\<not> doSeq p"
    using seq_message_ok [of "0x1500" "word_of_nat i"] by (auto simp: AcknowledgeMessage_def)
  have "receive_sequenced E K fr pack c = (sendSequenceLess p c, None)"
    using p assms(1,5) lt by (simp add: receive_sequenced_def validatePacket_def acknowledgeClientPackets_def sendPacket_def catching_def)
  then show ?thesis using p by (auto simp: sendSequenceLess_def)
qed

text \<open>Packet 65536 arrives while packet 65535 is expected.\<close>

definition demo_at_wrap :: base_client where
  "demo_at_wrap = demo_client\<lparr>proto := (proto demo_client)\<lparr>clientSequence := 65535\<rparr>\<rparr>"

lemma early_packet_lost_at_wrap_witness:
  "\<exists>c' ack. receive_sequenced demo_env demo_clock False (at_pos [0, 9] [0, 0, 1, 2]) demo_at_wrap = (c', None) \<and>
     sendUnreliableBuffer c' = [ack] \<and> processed c' = []"
proof -
  have "parseNetShort (at_pos [0, 9] [0, 0, 1, 2]) = Inr (word_of_nat 65536, at_pos [0, 9, 0, 0] [1, 2])"
    by (simp add: parse_concrete le_bytes_def upt_rec)
  from early_packet_lost_at_wrap [OF this, of demo_at_wrap 65535 demo_env demo_clock False] show ?thesis
    using demo_client_inv(2) by (auto simp: demo_at_wrap_def isAvailable_def demo_client_def client_initialize_def client_new_def
        balancePacketCheckupTime_def setPacketCheckupTime_def)
qed

definition demo_packets :: packets where
  "demo_packets i = (False, [word_of_nat i, 7])"

lemma demo_packets_delivery:
  assumes "i = 0 \<or> i = 1"
  shows "delivery (fst (demo_packets i)) (pk_body demo_packets i) f = (f, [[word_of_nat i, 7]], None)"
  using assms by (auto simp: delivery_def demo_packets_def pk_body_def pk_head_def handleDataChannelPacket_def parse_concrete
      le_bytes_def upt_rec bm_from_def bp_new_size_def)

lemma demo_packets_ok:
  assumes "{..<k} \<subseteq> {0, 1}"
  shows "snd (snd (in_order demo_packets k)) = None"
proof -
  have "k < Suc (Suc (Suc 0))" using assms by (cases "2 < k") auto
  then consider "k = 0" | "k = 1" | "k = 2" by linarith
  then show ?thesis by cases (simp_all add: numeral_2_eq_2 demo_packets_delivery)
qed

lemma demo_packets_result:
  assumes "n \<notin> {0, 1}" "{..<n} \<subseteq> {0, 1}" "in_order demo_packets n = (f, ms, None)"
  shows "ms = [[0, 7], [1, 7]]"
proof -
  have "n = 2"
  proof (rule ccontr)
    assume "n \<noteq> 2"
    moreover have "n \<noteq> 0" "n \<noteq> 1" using assms(1) by auto
    ultimately have "2 \<in> {..<n}" by simp
    then show False using assms(2) by auto
  qed
  then show ?thesis using assms(3) by (simp add: numeral_2_eq_2 demo_packets_delivery)
qed

theorem ordered_delivery_witness:
  "\<exists>c. receive_packets demo_env demo_clock demo_packets [1, 0, 1] (client_new demo_env) = (c, None) \<and>
     processed c = [[0, 7], [1, 7]]"
  using ordered_delivery [of "[1, 0, 1]" demo_packets demo_env demo_clock] demo_packets_ok demo_packets_result
  by (fastforce simp: insert_commute)

end
