(* ===== verification/PriorityQueue.thy ===== *)
theory PriorityQueue
  imports Prelude "HOL-Library.Tree_Multiset" "HOL-Library.Monad_Syntax"
begin

text \<open>
  \<^verbatim>\<open>system/util/PriorityQueue.h\<close> and \<^verbatim>\<open>.cpp\<close>: the heap of the task scheduler, a leftist heap whose nodes
  are the queued objects themselves. The nodes live in a store from addresses to nodes, which
  several queues share; a null pointer is \<open>None\<close>. \<open>compareTo\<close> is virtual and a
  parameter; a positive value means that the first node leaves the queue first. The recursion of
  \<open>merge\<close> may run forever on nodes that are linked into a cycle, which is the value \<open>None\<close>;
  a failed assertion or a null access is an error value. \<open>npl\<close> is an unbounded integer.
\<close>

type_synonym addr = nat

record pq_node =
  parentNode :: "addr option"
  leftNode :: "addr option"
  rightNode :: "addr option"
  npl :: int
  enqueued :: bool

type_synonym pq_store = "addr \<Rightarrow> pq_node"

record priority_queue =
  pq_root :: "addr option"
  pq_count :: int
  pushedEntries :: "64 word"
  poppedEntries :: "64 word"
  removedEntries :: "64 word"

definition pq_entry :: "addr option \<Rightarrow> addr option \<Rightarrow> addr option \<Rightarrow> int \<Rightarrow> pq_node" where
  "pq_entry parent lnode rnode np = \<lparr>parentNode = parent, leftNode = lnode, rightNode = rnode, npl = np, enqueued = False\<rparr>"

definition pq_new :: priority_queue where
  "pq_new = \<lparr>pq_root = None, pq_count = 0, pushedEntries = 0, poppedEntries = 0, removedEntries = 0\<rparr>"

definition upd :: "addr \<Rightarrow> (pq_node \<Rightarrow> pq_node) \<Rightarrow> pq_store \<Rightarrow> pq_store" where
  "upd a f h = h(a := f (h a))"

definition setQueued :: "addr \<Rightarrow> pq_store \<Rightarrow> pq_store" where
  "setQueued = (\<lambda>a. upd a (\<lambda>n. n\<lparr>enqueued := True\<rparr>))"

definition setUnqueued :: "addr \<Rightarrow> pq_store \<Rightarrow> pq_store" where
  "setUnqueued = (\<lambda>a. upd a (\<lambda>n. n\<lparr>enqueued := False\<rparr>))"

text \<open>\<open>PriorityQueueEntry::clear\<close>, which is also what \<open>poll\<close> and \<open>remove\<close> do with the node they take out.\<close>

definition pq_clear_entry :: "addr \<Rightarrow> pq_store \<Rightarrow> pq_store" where
  "pq_clear_entry a h = setUnqueued a (upd a (\<lambda>n. n\<lparr>parentNode := None, leftNode := None, rightNode := None\<rparr>) h)"

definition swapChildren :: "addr \<Rightarrow> pq_store \<Rightarrow> pq_store" where
  "swapChildren a h = upd a (\<lambda>n. n\<lparr>leftNode := rightNode n, rightNode := leftNode n\<rparr>) h"

text \<open>\<open>merge1\<close> in two parts: the case of no left child, and what follows the recursive call, whose result is \<open>r\<close>.\<close>

definition merge1_leaf :: "addr \<Rightarrow> addr \<Rightarrow> pq_store \<Rightarrow> addr option \<times> pq_store" where
  "merge1_leaf h1 h2 h = (Some h1, upd h2 (\<lambda>n. n\<lparr>parentNode := Some h1\<rparr>) (upd h1 (\<lambda>n. n\<lparr>leftNode := Some h2\<rparr>) h))"

definition merge1_finish :: "addr \<Rightarrow> addr option \<Rightarrow> pq_store \<Rightarrow> (addr option \<times> pq_store) res" where
  "merge1_finish h1 r h =
     (case r of None \<Rightarrow> Inl Undefined
      | Some y \<Rightarrow>
          let h = upd y (\<lambda>n. n\<lparr>parentNode := Some h1\<rparr>) (upd h1 (\<lambda>n. n\<lparr>rightNode := Some y\<rparr>) h) in
          (case leftNode (h h1) of None \<Rightarrow> Inl Undefined
           | Some x \<Rightarrow>
               let h = (if npl (h x) < npl (h y) then swapChildren h1 h else h) in
               (case rightNode (h h1) of None \<Rightarrow> Inl Undefined
                | Some z \<Rightarrow> Inr (Some h1, upd h1 (\<lambda>n. n\<lparr>npl := npl (h z) + 1\<rparr>) h))))"

definition on_result :: "'a res option \<Rightarrow> ('a \<Rightarrow> 'b res) \<Rightarrow> 'b res option" where
  "on_result m f = Option.bind m (\<lambda>r. Some (rbind r f))"

partial_function (option) pq_merge ::
  "(addr \<Rightarrow> addr \<Rightarrow> int) \<Rightarrow> addr option \<Rightarrow> addr option \<Rightarrow> pq_store \<Rightarrow> (addr option \<times> pq_store) res option" where
  "pq_merge cmp p q h =
     (case p of None \<Rightarrow> Some (Inr (q, h))
      | Some a \<Rightarrow>
     (case q of None \<Rightarrow> Some (Inr (p, h))
      | Some b \<Rightarrow>
          if a = b then Some (Inl AssertionFailure)
          else let h1 = (if cmp a b > 0 then a else b); h2 = (if cmp a b > 0 then b else a) in
            if leftNode (h h1) = None then Some (Inr (merge1_leaf h1 h2 h))
            else if rightNode (h h1) = Some h2 then Some (Inl AssertionFailure)
            else Option.bind (pq_merge cmp (rightNode (h h1)) (Some h2) h) (\<lambda>m. Some (rbind m (\<lambda>(r, h). merge1_finish h1 r h)))))"

lemma pq_merge_null [simp]: "pq_merge cmp None q h = Some (Inr (q, h))" "pq_merge cmp p None h = Some (Inr (p, h))"
  by (subst pq_merge.simps, simp split: option.split)+

definition merge1 :: "(addr \<Rightarrow> addr \<Rightarrow> int) \<Rightarrow> addr \<Rightarrow> addr \<Rightarrow> pq_store \<Rightarrow> (addr option \<times> pq_store) res option" where
  "merge1 cmp h1 h2 h =
     (if leftNode (h h1) = None then Some (Inr (merge1_leaf h1 h2 h))
      else if rightNode (h h1) = Some h2 then Some (Inl AssertionFailure)
      else on_result (pq_merge cmp (rightNode (h h1)) (Some h2) h) (\<lambda>(r, h). merge1_finish h1 r h))"

lemma pq_merge_nodes:
  "a \<noteq> b \<Longrightarrow> pq_merge cmp (Some a) (Some b) h = (if cmp a b > 0 then merge1 cmp a b h else merge1 cmp b a h)"
  by (subst pq_merge.simps) (simp add: merge1_def on_result_def)

lemma on_result_simps [simp]: "on_result (Some (Inr x)) f = Some (f x)" "on_result (Some (Inl e)) f = Some (Inl e)" "on_result None f = None"
  by (simp_all add: on_result_def)

subsection \<open>The operations\<close>

definition pq_isEmpty :: "priority_queue \<Rightarrow> bool" where
  "pq_isEmpty q \<longleftrightarrow> pq_root q = None"

definition pq_peak :: "priority_queue \<Rightarrow> addr option" where
  "pq_peak q = pq_root q"

definition pq_add ::
  "(addr \<Rightarrow> addr \<Rightarrow> int) \<Rightarrow> addr \<Rightarrow> priority_queue \<Rightarrow> pq_store \<Rightarrow> (priority_queue \<times> pq_store) res option" where
  "pq_add cmp node q h =
     on_result (pq_merge cmp (Some node) (pq_root q) h) (\<lambda>(r, h).
       Inr (q\<lparr>pq_root := r, pq_count := pq_count q + 1, pushedEntries := pushedEntries q + 1\<rparr>, setQueued node h))"

definition set_parent :: "addr option \<Rightarrow> addr option \<Rightarrow> pq_store \<Rightarrow> pq_store" where
  "set_parent node parent h = (case node of None \<Rightarrow> h | Some x \<Rightarrow> upd x (\<lambda>n. n\<lparr>parentNode := parent\<rparr>) h)"

definition pq_poll ::
  "(addr \<Rightarrow> addr \<Rightarrow> int) \<Rightarrow> priority_queue \<Rightarrow> pq_store \<Rightarrow> (addr option \<times> priority_queue \<times> pq_store) res option" where
  "pq_poll cmp q h =
     (case pq_root q of None \<Rightarrow> Some (Inr (None, q, h))
      | Some oldRoot \<Rightarrow>
          on_result (pq_merge cmp (leftNode (h oldRoot)) (rightNode (h oldRoot)) h) (\<lambda>(r, h).
            let h = pq_clear_entry oldRoot (set_parent r None h) in
            if pq_count q - 1 \<ge> 0
            then Inr (Some oldRoot, q\<lparr>pq_root := r, pq_count := pq_count q - 1, poppedEntries := poppedEntries q + 1\<rparr>, h)
            else Inl AssertionFailure))"

definition relink :: "addr \<Rightarrow> addr \<Rightarrow> addr option \<Rightarrow> pq_store \<Rightarrow> pq_store" where
  "relink parent oldNode node h =
     upd parent (if leftNode (h parent) = Some oldNode then (\<lambda>n. n\<lparr>leftNode := node\<rparr>) else (\<lambda>n. n\<lparr>rightNode := node\<rparr>)) h"

text \<open>Put \<open>node\<close> in the place of \<open>oldNode\<close>: below its parent, or as the new root.\<close>

definition unlink :: "addr option \<Rightarrow> addr \<Rightarrow> addr option \<Rightarrow> addr option \<Rightarrow> pq_store \<Rightarrow> addr option \<times> pq_store" where
  "unlink parent oldNode node root h =
     (case parent of Some pa \<Rightarrow> (root, set_parent node (Some pa) (relink pa oldNode node h))
      | None \<Rightarrow> (node, set_parent node None h))"

definition pq_remove ::
  "(addr \<Rightarrow> addr \<Rightarrow> int) \<Rightarrow> addr \<Rightarrow> priority_queue \<Rightarrow> pq_store \<Rightarrow> (bool \<times> priority_queue \<times> pq_store) res option" where
  "pq_remove cmp oldNode q h =
     (if pq_isEmpty q then Some (Inr (False, q, h))
      else let parent = parentNode (h oldNode) in
        on_result (pq_merge cmp (leftNode (h oldNode)) (rightNode (h oldNode)) h) (\<lambda>(node, h).
          let (rt, h) = unlink parent oldNode node (pq_root q) h; h = pq_clear_entry oldNode h in
          if pq_count q - 1 \<ge> 0
          then Inr (True, q\<lparr>pq_root := rt, pq_count := pq_count q - 1, removedEntries := removedEntries q + 1\<rparr>, h)
          else Inl AssertionFailure))"

text \<open>The children are read before they are cleared.\<close>

partial_function (option) reclaimMemory :: "addr option \<Rightarrow> pq_store \<Rightarrow> pq_store option" where
  "reclaimMemory node h =
     (case node of None \<Rightarrow> Some h
      | Some a \<Rightarrow> Option.bind (reclaimMemory (leftNode (h a)) h) (\<lambda>h1.
          Option.bind (reclaimMemory (rightNode (h1 a)) h1) (\<lambda>h2. Some (pq_clear_entry a h2))))"

definition pq_clear :: "priority_queue \<Rightarrow> pq_store \<Rightarrow> (priority_queue \<times> pq_store) option" where
  "pq_clear q h = Option.bind (reclaimMemory (pq_root q) h) (\<lambda>h. Some (q\<lparr>pq_root := None, pq_count := 0\<rparr>, h))"

definition clearWithoutTraverse :: "priority_queue \<Rightarrow> priority_queue" where
  "clearWithoutTraverse q = q\<lparr>pq_root := None, pq_count := 0\<rparr>"

text \<open>\<open>merge(PriorityQueue&)\<close> of two different queues.\<close>

definition pq_merge_queues ::
  "(addr \<Rightarrow> addr \<Rightarrow> int) \<Rightarrow> priority_queue \<Rightarrow> priority_queue \<Rightarrow> pq_store \<Rightarrow>
   (priority_queue \<times> priority_queue \<times> pq_store) res option" where
  "pq_merge_queues cmp q other h =
     on_result (pq_merge cmp (pq_root q) (pq_root other) h) (\<lambda>(r, h).
       Inr (q\<lparr>pq_root := r, pq_count := pq_count q + pq_count other\<rparr>, other\<lparr>pq_count := 0, pq_root := None\<rparr>, h))"

subsection \<open>Trees in the store\<close>

fun root_of :: "'a tree \<Rightarrow> 'a option" where
  "root_of \<langle>\<rangle> = None"
| "root_of \<langle>l, a, r\<rangle> = Some a"

definition child_of :: "pq_store \<Rightarrow> addr \<Rightarrow> addr tree \<Rightarrow> bool" where
  "child_of h a t \<longleftrightarrow> (\<forall>x. root_of t = Some x \<longrightarrow> parentNode (h x) = Some a)"

fun ptree :: "pq_store \<Rightarrow> addr option \<Rightarrow> addr tree \<Rightarrow> bool" where
  "ptree h p \<langle>\<rangle> \<longleftrightarrow> p = None"
| "ptree h p \<langle>l, a, r\<rangle> \<longleftrightarrow> p = Some a \<and> ptree h (leftNode (h a)) l \<and> ptree h (rightNode (h a)) r \<and> child_of h a l \<and> child_of h a r"

fun hord :: "(addr \<Rightarrow> addr \<Rightarrow> int) \<Rightarrow> addr tree \<Rightarrow> bool" where
  "hord cmp \<langle>\<rangle> \<longleftrightarrow> True"
| "hord cmp \<langle>l, a, r\<rangle> \<longleftrightarrow> (\<forall>x \<in> set_tree l \<union> set_tree r. 0 \<le> cmp a x) \<and> hord cmp l \<and> hord cmp r"

abbreviation nodes :: "'a tree \<Rightarrow> 'a list" where
  "nodes \<equiv> inorder"

lemma ptree_root: "ptree h p t \<Longrightarrow> p = root_of t"
  by (cases t) auto

lemma ptree_null [simp]: "ptree h None t \<longleftrightarrow> t = \<langle>\<rangle>"
  by (cases t) auto

lemma root_in: "root_of t = Some x \<Longrightarrow> x \<in> set_tree t"
  by (cases t) auto

lemma ptree_cong:
  assumes "\<forall>x \<in> set_tree t. leftNode (h' x) = leftNode (h x) \<and> rightNode (h' x) = rightNode (h x)"
    and "\<forall>x \<in> set_tree t. root_of t \<noteq> Some x \<longrightarrow> parentNode (h' x) = parentNode (h x)" and "distinct (nodes t)"
  shows "ptree h' p t = ptree h p t"
  using assms
proof (induction t arbitrary: p)
  case (Node l a r)
  have d: "a \<notin> set_tree l" "a \<notin> set_tree r" using Node.prems(3) by simp_all
  have "child_of h' a l = child_of h a l" "child_of h' a r = child_of h a r"
    using Node.prems(2) d by (auto simp: child_of_def dest: root_in)
  moreover have "ptree h' q l = ptree h q l" for q
    by (rule Node.IH(1)) (use Node.prems d in auto)
  moreover have "ptree h' q r = ptree h q r" for q
    by (rule Node.IH(2)) (use Node.prems d in auto)
  ultimately show ?case using Node.prems(1) by simp
qed simp

lemma child_of_frame: "\<forall>x \<in> set_tree t. h' x = h x \<Longrightarrow> child_of h' a t = child_of h a t"
  by (cases t) (auto simp: child_of_def)

lemma ptree_frame: "\<forall>x \<in> set_tree t. h' x = h x \<Longrightarrow> ptree h' p t = ptree h p t"
proof (induction t arbitrary: p)
  case (Node l a r)
  then show ?case using child_of_frame [of l h' h a] child_of_frame [of r h' h a] by simp
qed simp

lemma set_tree_mset: "set_tree t = set_mset (mset_tree t)"
  by simp

text \<open>A tree of the queue: linked in the store, without sharing, and heap ordered.\<close>

definition qtree :: "(addr \<Rightarrow> addr \<Rightarrow> int) \<Rightarrow> pq_store \<Rightarrow> addr option \<Rightarrow> addr tree \<Rightarrow> bool" where
  "qtree cmp h p t \<longleftrightarrow> ptree h p t \<and> distinct (nodes t) \<and> hord cmp t"

text \<open>\<open>merged\<close>: what \<open>merge\<close> promises of its result.\<close>

definition merged ::
  "(addr \<Rightarrow> addr \<Rightarrow> int) \<Rightarrow> pq_store \<Rightarrow> addr tree \<Rightarrow> addr tree \<Rightarrow> addr option \<Rightarrow> pq_store \<Rightarrow> addr tree \<Rightarrow> bool" where
  "merged cmp h t1 t2 r h' t \<longleftrightarrow> qtree cmp h' r t \<and> mset_tree t = mset_tree t1 + mset_tree t2 \<and>
     r \<in> {root_of t1, root_of t2} \<and> (\<forall>x. x \<notin> set_tree t1 \<union> set_tree t2 \<longrightarrow> h' x = h x) \<and>
     (\<forall>x. enqueued (h' x) = enqueued (h x)) \<and> (\<forall>x. r = Some x \<longrightarrow> parentNode (h' x) = parentNode (h x))"

lemma mergedD:
  assumes "merged cmp h t1 t2 r h' t"
  shows "qtree cmp h' r t" "mset_tree t = mset_tree t1 + mset_tree t2" "r \<in> {root_of t1, root_of t2}" "r = root_of t"
    "\<forall>x. x \<notin> set_tree t1 \<union> set_tree t2 \<longrightarrow> h' x = h x" "\<forall>x. enqueued (h' x) = enqueued (h x)" "size t = size t1 + size t2"
proof -
  show "qtree cmp h' r t" "mset_tree t = mset_tree t1 + mset_tree t2" "r \<in> {root_of t1, root_of t2}"
    "\<forall>x. x \<notin> set_tree t1 \<union> set_tree t2 \<longrightarrow> h' x = h x" "\<forall>x. enqueued (h' x) = enqueued (h x)"
    using assms unfolding merged_def by blast+
  then show "r = root_of t" "size t = size t1 + size t2"
    using ptree_root [of h' r t] by (simp add: qtree_def) (metis size_mset_tree size_union \<open>mset_tree t = mset_tree t1 + mset_tree t2\<close>)
qed

lemma set_parent_at: "set_parent n pa h y = (if n = Some y then (h y)\<lparr>parentNode := pa\<rparr> else h y)"
  by (auto simp: set_parent_def upd_def split: option.split)

lemma merged_set: "merged cmp h t1 t2 r h' t \<Longrightarrow> set_tree t = set_tree t1 \<union> set_tree t2"
  unfolding merged_def set_tree_mset by simp

lemma merge1_leaf_ok:
  assumes t: "qtree cmp h (Some a) \<langle>\<langle>\<rangle>, a, r\<rangle>" and b: "qtree cmp h (Some b) t2" and d: "set_tree t2 \<inter> insert a (set_tree r) = {}"
    and le: "\<forall>x \<in> set_tree t2. 0 \<le> cmp a x" and m: "merge1_leaf a b h = (res, h')"
  shows "\<exists>t. merged cmp h \<langle>\<langle>\<rangle>, a, r\<rangle> t2 res h' t"
proof -
  let ?t = "\<langle>t2, a, r\<rangle>"
  have rb: "root_of t2 = Some b" using b ptree_root by (fastforce simp: qtree_def)
  have ba: "b \<in> set_tree t2" "b \<noteq> a" "b \<notin> set_tree r" using root_in [OF rb] d by auto
  have h': "h' = upd b (\<lambda>n. n\<lparr>parentNode := Some a\<rparr>) (upd a (\<lambda>n. n\<lparr>leftNode := Some b\<rparr>) h)" and res: "res = Some a"
    using m by (auto simp: merge1_leaf_def)
  have "ptree h' (Some b) t2"
    using b d ba rb by (subst ptree_cong [of _ _ h]) (auto simp: qtree_def h' upd_def)
  moreover have "ptree h' (rightNode (h a)) r"
    using t ba d by (subst ptree_frame [of _ _ h]) (auto simp: qtree_def h' upd_def)
  moreover have "child_of h' a r" using t ba by (auto simp: qtree_def child_of_def h' upd_def dest: root_in)
  ultimately have "ptree h' (Some a) ?t" using ba rb by (simp add: h' upd_def child_of_def)
  moreover have "distinct (nodes ?t)" "hord cmp ?t" using t b d le by (auto simp: qtree_def)
  ultimately have "qtree cmp h' res ?t" by (simp add: qtree_def res)
  then show ?thesis using ba by (intro exI [of _ ?t]) (auto simp: merged_def res h' upd_def)
qed

lemma merge1_finish_ok:
  assumes t: "qtree cmp h (Some a) \<langle>l, a, r\<rangle>" "l \<noteq> \<langle>\<rangle>" and d: "set_tree t2 \<inter> set_tree \<langle>l, a, r\<rangle> = {}"
    and le: "\<forall>x \<in> set_tree t2. 0 \<le> cmp a x" and m: "merged cmp h r t2 (Some y) h1 s"
  shows "\<exists>h' t. merge1_finish a (Some y) h1 = Inr (Some a, h') \<and> merged cmp h \<langle>l, a, r\<rangle> t2 (Some a) h' t"
proof -
  obtain x where x: "root_of l = Some x" using t(2) by (cases l) auto
  have st: "set_tree s = set_tree r \<union> set_tree t2" using merged_set [OF m] .
  have s: "ptree h1 (Some y) s" "distinct (nodes s)" "hord cmp s" using m by (simp_all add: merged_def qtree_def)
  have y: "root_of s = Some y" using ptree_root [OF s(1)] by simp
  have al: "a \<notin> set_tree l" "a \<notin> set_tree s" "set_tree l \<inter> set_tree s = {}" using t d st by (auto simp: qtree_def)
  have fr: "\<forall>z. z \<notin> set_tree s \<longrightarrow> h1 z = h z" using m st by (simp add: merged_def)
  have xa: "leftNode (h a) = Some x" "x \<in> set_tree l" "y \<in> set_tree s" "x \<noteq> a" "y \<noteq> a" "x \<noteq> y"
    using t(1) x ptree_root root_in [OF x] root_in [OF y] al by (auto simp: qtree_def)
  define h2 where "h2 = upd y (\<lambda>n. n\<lparr>parentNode := Some a\<rparr>) (upd a (\<lambda>n. n\<lparr>rightNode := Some y\<rparr>) h1)"
  have frl: "\<forall>z \<in> set_tree l. h2 z = h z" using fr al xa by (auto simp: h2_def upd_def)
  have l2: "ptree h2 (Some x) l" "child_of h2 a l"
    using t(1) xa ptree_frame [OF frl] child_of_frame [OF frl] by (auto simp: qtree_def)
  have s2: "ptree h2 (Some y) s"
    using s xa al y by (subst ptree_cong [of _ _ h1]) (auto simp: h2_def upd_def)
  have c2: "child_of h2 a s" using y by (simp add: child_of_def h2_def upd_def)
  have a2: "leftNode (h2 a) = Some x" "rightNode (h2 a) = Some y" "parentNode (h2 a) = parentNode (h a)"
    using xa al fr by (auto simp: h2_def upd_def)
  let ?swap = "npl (h2 x) < npl (h2 y)"
  let ?t = "if ?swap then \<langle>s, a, l\<rangle> else \<langle>l, a, s\<rangle>"
  define h3 where "h3 = (if ?swap then swapChildren a h2 else h2)"
  define z where "z = (if ?swap then x else y)"
  define h' where "h' = upd a (\<lambda>n. n\<lparr>npl := npl (h3 z) + 1\<rparr>) h3"
  have m1: "merge1_finish a (Some y) h1 = Inr (Some a, h')"
  proof -
    have "rightNode (h3 a) = Some z" using a2 by (simp add: h3_def z_def swapChildren_def upd_def)
    then show ?thesis using a2 by (simp add: merge1_finish_def Let_def h2_def [symmetric] h3_def [symmetric] h'_def)
  qed
  have out: "\<forall>z. z \<noteq> a \<longrightarrow> h' z = h2 z" by (simp add: h'_def h3_def swapChildren_def upd_def)
  have "\<forall>z \<in> set_tree l. h' z = h2 z" "\<forall>z \<in> set_tree s. h' z = h2 z" using out al by auto
  then have "ptree h' (Some x) l" "child_of h' a l" "ptree h' (Some y) s" "child_of h' a s"
    using l2 s2 c2 ptree_frame child_of_frame by blast+
  moreover have "leftNode (h' a) = Some (if ?swap then y else x)" "rightNode (h' a) = Some (if ?swap then x else y)"
    using a2 by (auto simp: h'_def h3_def swapChildren_def upd_def)
  ultimately have "ptree h' (Some a) ?t" by simp
  moreover have "distinct (nodes ?t)" "hord cmp ?t" using t(1) s al le st by (auto simp: qtree_def)
  ultimately have "qtree cmp h' (Some a) ?t" by (simp add: qtree_def)
  moreover have "mset_tree ?t = mset_tree \<langle>l, a, r\<rangle> + mset_tree t2" using m by (simp add: merged_def)
  moreover have "h' z = h z" if "z \<notin> set_tree \<langle>l, a, r\<rangle> \<union> set_tree t2" for z
    using that out fr st xa by (auto simp: h2_def upd_def)
  moreover have "enqueued (h' z) = enqueued (h z)" "parentNode (h' a) = parentNode (h a)" for z
    using m a2 by (auto simp: merged_def h'_def h3_def h2_def swapChildren_def upd_def)
  ultimately have "merged cmp h \<langle>l, a, r\<rangle> t2 (Some a) h' ?t" by (auto simp: merged_def)
  then show ?thesis using m1 by blast
qed

text \<open>The children of node \<open>x\<close>, and the tree in which \<open>x\<close> is replaced by the tree \<open>s\<close>.\<close>

fun kids :: "'a \<Rightarrow> 'a tree \<Rightarrow> 'a tree \<times> 'a tree" where
  "kids x \<langle>\<rangle> = (\<langle>\<rangle>, \<langle>\<rangle>)"
| "kids x \<langle>l, a, r\<rangle> = (if a = x then (l, r) else if x \<in> set_tree l then kids x l else kids x r)"

fun excise :: "'a \<Rightarrow> 'a tree \<Rightarrow> 'a tree \<Rightarrow> 'a tree" where
  "excise x s \<langle>\<rangle> = \<langle>\<rangle>"
| "excise x s \<langle>l, a, r\<rangle> = (if a = x then s else \<langle>excise x s l, a, excise x s r\<rangle>)"

lemma excise_absent [simp]: "x \<notin> set_tree t \<Longrightarrow> excise x s t = t"
  by (induction t) auto

lemma kids_sets:
  assumes "x \<in> set_tree t" "kids x t = (l, r)" "distinct (nodes t)"
  shows "x \<notin> set_tree l \<union> set_tree r" "set_tree l \<union> set_tree r \<subseteq> set_tree t" "set_tree l \<inter> set_tree r = {}"
    "distinct (nodes l)" "distinct (nodes r)"
  using assms by (induction t) (auto split: if_splits)

lemma kids_below_root: "x \<in> set_tree t \<Longrightarrow> kids x t = (l, r) \<Longrightarrow> distinct (nodes t) \<Longrightarrow> root_of t = Some a \<Longrightarrow> a \<notin> set_tree l \<union> set_tree r"
  using kids_sets [of x _ l r] by (cases t) (auto split: if_splits)

lemma excise_mset:
  assumes "x \<in> set_tree t" "distinct (nodes t)" "kids x t = (l, r)" "mset_tree s = mset_tree l + mset_tree r"
  shows "mset_tree t = add_mset x (mset_tree (excise x s t))"
  using assms
proof (induction t)
  case (Node tl a tr)
  then have "x \<in> set_tree tl \<Longrightarrow> x \<notin> set_tree tr" by auto
  then show ?case using Node by (auto split: if_splits)
qed simp

lemma excise_set:
  assumes "x \<in> set_tree t" "distinct (nodes t)" "kids x t = (l, r)" "mset_tree s = mset_tree l + mset_tree r"
  shows "set_tree (excise x s t) = set_tree t - {x}" "distinct (nodes (excise x s t))" "size t = Suc (size (excise x s t))"
proof -
  have m: "mset_tree t = add_mset x (mset_tree (excise x s t))" by (rule excise_mset [OF assms])
  then have "mset (nodes t) = mset (x # nodes (excise x s t))" by (simp add: mset_inorder)
  then have d: "distinct (x # nodes (excise x s t))" using assms(2) mset_eq_imp_distinct_iff by blast
  then show "distinct (nodes (excise x s t))" by simp
  show "set_tree (excise x s t) = set_tree t - {x}" using arg_cong [OF m, of set_mset] d by auto
  show "size t = Suc (size (excise x s t))" using arg_cong [OF m, of size] by simp
qed

lemma excise_hord:
  assumes "x \<in> set_tree t" "distinct (nodes t)" "kids x t = (l, r)" "mset_tree s = mset_tree l + mset_tree r" "hord cmp s" "hord cmp t"
  shows "hord cmp (excise x s t)"
  using assms
proof (induction t)
  case (Node tl a tr)
  have "x \<in> set_tree tl \<Longrightarrow> x \<notin> set_tree tr" using Node.prems(2) by auto
  then show ?case using Node excise_set(1) [of x tl l r s] excise_set(1) [of x tr l r s] by (auto split: if_splits)
qed simp

lemma kids_qtree:
  "qtree cmp h p t \<Longrightarrow> x \<in> set_tree t \<Longrightarrow> kids x t = (l, r) \<Longrightarrow>
   qtree cmp h (leftNode (h x)) l \<and> qtree cmp h (rightNode (h x)) r"
  by (induction t arbitrary: p) (auto simp: qtree_def split: if_splits)

text \<open>The links after the subtree of \<open>x\<close> was replaced by \<open>node\<close> below the parent of \<open>x\<close>.\<close>

definition rewired :: "pq_store \<Rightarrow> addr \<Rightarrow> addr \<Rightarrow> addr option \<Rightarrow> pq_store" where
  "rewired h pa x node = set_parent node (Some pa) (relink pa x node h)"

lemma rewired_other: "z \<noteq> pa \<Longrightarrow> node \<noteq> Some z \<Longrightarrow> rewired h pa x node z = h z"
  by (auto simp: rewired_def set_parent_def relink_def upd_def split: option.split)

lemma rewired_parent: "node \<noteq> Some z \<Longrightarrow> parentNode (rewired h pa x node z) = parentNode (h z)"
  by (auto simp: rewired_def set_parent_def relink_def upd_def split: option.split)

lemma rewired_enqueued: "enqueued (rewired h pa x node z) = enqueued (h z)"
  by (auto simp: rewired_def set_parent_def relink_def upd_def split: option.split)

lemma excise_ptree:
  assumes "ptree h p t" "distinct (nodes t)" "x \<in> set_tree t" "root_of t \<noteq> Some x" "kids x t = (l, r)"
    and s: "ptree h1 node s" "distinct (nodes s)" "set_tree s = set_tree l \<union> set_tree r" "\<forall>z. z \<notin> set_tree l \<union> set_tree r \<longrightarrow> h1 z = h z"
  shows "\<exists>pa \<in> set_tree t - {x}. parentNode (h x) = Some pa \<and> pa \<notin> set_tree l \<union> set_tree r \<and>
    ptree (rewired h1 pa x node) p (excise x s t) \<and> root_of (excise x s t) = root_of t"
  using assms(1-5)
proof (induction t arbitrary: p)
  case (Node tl a tr)
  have d: "a \<notin> set_tree tl" "a \<notin> set_tree tr" "set_tree tl \<inter> set_tree tr = {}" "x \<noteq> a" using Node.prems by auto
  have ks: "x \<notin> set_tree l \<union> set_tree r" using kids_sets(1) [OF Node.prems(3,5,2)] .
  have al: "a \<notin> set_tree l \<union> set_tree r" using kids_below_root [OF Node.prems(3,5,2)] by simp
  have nd: "node = root_of s" using ptree_root [OF s(1)] .
  have nin: "node = Some z \<Longrightarrow> z \<in> set_tree l \<union> set_tree r" for z using nd root_in [of s z] s(3) by auto
  have h1a: "h1 a = h a" using s(4) al by blast
  have fr: "\<forall>z \<in> set_tree v. rewired h1 pa x node z = h z" if "set_tree v \<inter> (set_tree l \<union> set_tree r) = {}" "pa \<notin> set_tree v" for v pa
  proof
    fix z assume "z \<in> set_tree v"
    then have "z \<notin> set_tree l \<union> set_tree r" "z \<noteq> pa" using that by auto
    then show "rewired h1 pa x node z = h z" using rewired_other [of z pa node h1 x] nin [of z] s(4) by auto
  qed
  have frp: "ptree (rewired h1 pa x node) q v = ptree h q v" "child_of (rewired h1 pa x node) a v = child_of h a v"
    if "set_tree v \<inter> (set_tree l \<union> set_tree r) = {}" "pa \<notin> set_tree v" for v pa q
    using fr [OF that] by (rule ptree_frame, rule child_of_frame)
  have par: "parentNode (rewired h1 pa x node z) = parentNode (h z)" if "z \<notin> set_tree l \<union> set_tree r" for z pa
    using that rewired_parent [of node z h1 pa x] nin [of z] s(4) by auto
  have s': "ptree (rewired h1 a x node) node s"
    using s(1,2) nd al s(3) by (subst ptree_cong [of _ _ h1]) (auto simp: rewired_other rewired_parent rewired_def set_parent_def relink_def upd_def split: option.split)
  have cs: "child_of (rewired h1 a x node) a s" using nd by (cases node) (auto simp: child_of_def rewired_def set_parent_def upd_def)
  have ra: "leftNode (rewired h1 a x node a) = (if leftNode (h a) = Some x then node else leftNode (h a))"
    "rightNode (rewired h1 a x node a) = (if leftNode (h a) = Some x then rightNode (h a) else node)"
    using nin al h1a by (auto simp: rewired_def set_parent_def relink_def upd_def split: option.split)
  have up: "rewired h1 pa x node a = h a" if "pa \<noteq> a" for pa
    using that al nin [of a] h1a rewired_other [of a pa node h1 x] by auto
  show ?case
  proof (cases "x \<in> set_tree tl")
    case True
    then have xr: "x \<notin> set_tree tr" and k: "kids x tl = (l, r)" using d Node.prems(5) by auto
    have v: "set_tree tr \<inter> (set_tree l \<union> set_tree r) = {}" using kids_sets(2) [OF True k] Node.prems(2) d by auto
    show ?thesis
    proof (cases "root_of tl = Some x")
      case r: True
      then have "leftNode (h a) = Some x" "parentNode (h x) = Some a" "excise x s tl = s"
        using Node.prems(1) ptree_root by (auto simp: child_of_def) (cases tl; simp)
      then show ?thesis using frp [OF v d(2)] s' cs ra Node.prems(1) xr d(4) al by auto
    next
      case False
      obtain pa where pa: "pa \<in> set_tree tl - {x}" "parentNode (h x) = Some pa" "pa \<notin> set_tree l \<union> set_tree r"
        "ptree (rewired h1 pa x node) (leftNode (h a)) (excise x s tl)" "root_of (excise x s tl) = root_of tl"
        using Node.IH(1) [of "leftNode (h a)"] Node.prems True False k by auto
      have "child_of (rewired h1 pa x node) a (excise x s tl)"
        using pa(5) Node.prems(1,2) kids_below_root [OF True k] par by (auto simp: child_of_def)
      moreover have "pa \<noteq> a" "pa \<notin> set_tree tr" using pa(1) d by auto
      ultimately show ?thesis using pa up [of pa] frp [OF v, of pa] d(4) Node.prems(1) xr by (auto intro!: bexI [of _ pa])
    qed
  next
    case xl: False
    then have True: "x \<in> set_tree tr" and k: "kids x tr = (l, r)" using d Node.prems(3,5) by auto
    have v: "set_tree tl \<inter> (set_tree l \<union> set_tree r) = {}" using kids_sets(2) [OF True k] Node.prems(2) d by auto
    have lx: "leftNode (h a) \<noteq> Some x" using Node.prems(1) xl root_in [of tl x] ptree_root [of h "leftNode (h a)" tl] by auto
    show ?thesis
    proof (cases "root_of tr = Some x")
      case r: True
      then have "parentNode (h x) = Some a" "excise x s tr = s"
        using Node.prems(1) by (auto simp: child_of_def) (cases tr; simp)
      then show ?thesis using frp [OF v d(1)] s' cs ra lx Node.prems(1) xl d(4) al by auto
    next
      case False
      obtain pa where pa: "pa \<in> set_tree tr - {x}" "parentNode (h x) = Some pa" "pa \<notin> set_tree l \<union> set_tree r"
        "ptree (rewired h1 pa x node) (rightNode (h a)) (excise x s tr)" "root_of (excise x s tr) = root_of tr"
        using Node.IH(2) [of "rightNode (h a)"] Node.prems True False k by auto
      have "child_of (rewired h1 pa x node) a (excise x s tr)"
        using pa(5) Node.prems(1,2) kids_below_root [OF True k] par by (auto simp: child_of_def)
      moreover have "pa \<noteq> a" "pa \<notin> set_tree tl" using pa(1) d by auto
      ultimately show ?thesis using pa up [of pa] frp [OF v, of pa] d(4) Node.prems(1) xl by (auto intro!: bexI [of _ pa])
    qed
  qed
qed simp

lemma qtree_cong:
  assumes "\<forall>x \<in> set_tree t. leftNode (h' x) = leftNode (h x) \<and> rightNode (h' x) = rightNode (h x)"
    and "\<forall>x \<in> set_tree t. root_of t \<noteq> Some x \<longrightarrow> parentNode (h' x) = parentNode (h x)"
  shows "qtree cmp h' p t = qtree cmp h p t"
  using ptree_cong [OF assms] by (auto simp: qtree_def)

text \<open>The queue \<open>q\<close> in the store \<open>h\<close> holds the nodes \<open>S\<close>; a node outside of all queues is idle.\<close>

definition pq_holds :: "(addr \<Rightarrow> addr \<Rightarrow> int) \<Rightarrow> pq_store \<Rightarrow> priority_queue \<Rightarrow> addr set \<Rightarrow> bool" where
  "pq_holds cmp h q S \<longleftrightarrow> (\<exists>t. qtree cmp h (pq_root q) t \<and> set_tree t = S \<and> pq_count q = int (size t) \<and>
     (\<forall>y. root_of t = Some y \<longrightarrow> parentNode (h y) = None) \<and> (\<forall>y \<in> S. enqueued (h y)))"

definition idle :: "pq_store \<Rightarrow> addr \<Rightarrow> bool" where
  "idle h x \<longleftrightarrow> \<not> enqueued (h x) \<and> parentNode (h x) = None \<and> leftNode (h x) = None \<and> rightNode (h x) = None"

definition pq_best :: "(addr \<Rightarrow> addr \<Rightarrow> int) \<Rightarrow> addr set \<Rightarrow> addr \<Rightarrow> bool" where
  "pq_best cmp S x \<longleftrightarrow> x \<in> S \<and> (\<forall>y \<in> S. 0 \<le> cmp x y)"

lemma pq_new_holds: "pq_holds cmp h pq_new {}"
  unfolding pq_holds_def by (intro exI [of _ "\<langle>\<rangle>"]) (simp add: pq_new_def qtree_def)

lemma idle_cleared: "idle (pq_clear_entry x h) x"
  by (simp add: idle_def pq_clear_entry_def setUnqueued_def upd_def)

lemma cleared_other: "y \<noteq> x \<Longrightarrow> pq_clear_entry x h y = h y"
  by (simp add: pq_clear_entry_def setUnqueued_def upd_def)

locale pq_order = compare_order cmp for cmp :: "addr \<Rightarrow> addr \<Rightarrow> int"
begin

lemma below_root: "hord cmp \<langle>l, b, r\<rangle> \<Longrightarrow> 0 \<le> cmp a b \<Longrightarrow> \<forall>x \<in> set_tree \<langle>l, b, r\<rangle>. 0 \<le> cmp a x"
  using cmp_trans by auto

lemma merge_ok:
  assumes "qtree cmp h p t1" "qtree cmp h q t2" "set_tree t1 \<inter> set_tree t2 = {}"
  shows "\<exists>r h' t. pq_merge cmp p q h = Some (Inr (r, h')) \<and> merged cmp h t1 t2 r h' t"
  using assms
proof (induction "size t1 + size t2" arbitrary: p q t1 t2 h rule: less_induct)
  case less
  have step: "\<exists>r h' t. merge1 cmp a b h = Some (Inr (r, h')) \<and> merged cmp h \<langle>l, a, r1\<rangle> u r h' t"
    if a: "qtree cmp h (Some a) \<langle>l, a, r1\<rangle>" and b: "qtree cmp h (Some b) u" and d: "set_tree u \<inter> set_tree \<langle>l, a, r1\<rangle> = {}"
      and le: "0 \<le> cmp a b" and sz: "size \<langle>l, a, r1\<rangle> + size u = size t1 + size t2" for a b l r1 u
  proof -
    have rb: "root_of u = Some b" using b ptree_root by (fastforce simp: qtree_def)
    then obtain ul ur where u: "u = \<langle>ul, b, ur\<rangle>" by (cases u) auto
    have le2: "\<forall>x \<in> set_tree u. 0 \<le> cmp a x" using below_root [OF _ le] b u by (auto simp: qtree_def)
    show ?thesis
    proof (cases l)
      case Leaf
      obtain res h' where "merge1_leaf a b h = (res, h')" by (cases "merge1_leaf a b h")
      moreover have "leftNode (h a) = None" using a Leaf by (simp add: qtree_def)
      ultimately show ?thesis using merge1_leaf_ok [of cmp h a r1 b u] a b d le2 Leaf by (fastforce simp: merge1_def)
    next
      case (Node ll x lr)
      have ln: "leftNode (h a) \<noteq> None" "rightNode (h a) = root_of r1" and q1: "qtree cmp h (rightNode (h a)) r1"
        using a Node ptree_root by (auto simp: qtree_def)
      have nb: "rightNode (h a) \<noteq> Some b" using ln(2) d root_in [OF rb] by (auto dest: root_in)
      have "\<exists>r h1 s. pq_merge cmp (rightNode (h a)) (Some b) h = Some (Inr (r, h1)) \<and> merged cmp h r1 u r h1 s"
        by (rule less.hyps [OF _ q1 b]) (use sz d in auto)
      then obtain r h1 s where m: "pq_merge cmp (rightNode (h a)) (Some b) h = Some (Inr (r, h1))" "merged cmp h r1 u r h1 s" by blast
      have "s \<noteq> \<langle>\<rangle>" using merged_set [OF m(2)] u by auto
      then obtain y where y: "r = Some y" using m(2) by (cases s) (auto simp: merged_def qtree_def)
      obtain h' t where "merge1_finish a (Some y) h1 = Inr (Some a, h')" "merged cmp h \<langle>l, a, r1\<rangle> u (Some a) h' t"
        using merge1_finish_ok [OF a _ d le2, of y h1 s] m(2) y Node by blast
      then show ?thesis using m(1) y ln(1) nb by (auto simp: merge1_def)
    qed
  qed
  show ?case
  proof (cases "p = None \<or> q = None")
    case True
    then show ?thesis using less.prems ptree_root [of h p t1] ptree_root [of h q t2]
      by (cases "p = None") (auto simp: merged_def qtree_def)
  next
    case False
    then obtain a b where pq: "p = Some a" "q = Some b" by auto
    then have r: "root_of t1 = Some a" "root_of t2 = Some b" using less.prems ptree_root by (fastforce simp: qtree_def)+
    then obtain l1 r1 l2 r2 where t: "t1 = \<langle>l1, a, r1\<rangle>" "t2 = \<langle>l2, b, r2\<rangle>" by (cases t1; cases t2) auto
    have ab: "a \<noteq> b" using less.prems(3) t by auto
    show ?thesis
    proof (cases "0 < cmp a b")
      case True
      then have "pq_merge cmp p q h = merge1 cmp a b h" using pq ab by (simp add: pq_merge_nodes)
      moreover have "\<exists>r h' t. merge1 cmp a b h = Some (Inr (r, h')) \<and> merged cmp h t1 t2 r h' t"
        unfolding t(1) by (rule step) (use less.prems pq t True in auto)
      ultimately show ?thesis by simp
    next
      case False
      then have "0 \<le> cmp b a" using cmp_flip [of a b] by linarith
      then have "\<exists>r h' t. merge1 cmp b a h = Some (Inr (r, h')) \<and> merged cmp h t2 t1 r h' t"
        unfolding t(2) by (intro step) (use less.prems pq t in auto)
      moreover have "pq_merge cmp p q h = merge1 cmp b a h" using pq ab False by (simp add: pq_merge_nodes)
      ultimately have "\<exists>r h' t. pq_merge cmp p q h = Some (Inr (r, h')) \<and> merged cmp h t2 t1 r h' t" by simp
      then show ?thesis by (force simp: merged_def Un_commute insert_commute add.commute)
    qed
  qed
qed

lemma holds_peak:
  assumes "pq_holds cmp h q S"
  shows "case pq_peak q of None \<Rightarrow> S = {} | Some x \<Rightarrow> pq_best cmp S x"
proof -
  obtain t where t: "qtree cmp h (pq_root q) t" "set_tree t = S" using assms by (auto simp: pq_holds_def)
  then have "pq_root q = root_of t" using ptree_root by (auto simp: qtree_def)
  moreover have "pq_best cmp S x" if "root_of t = Some x" for x
    using t that cmp_refl by (cases t) (auto simp: pq_best_def qtree_def)
  ultimately show ?thesis using t by (cases t) (auto simp: pq_peak_def)
qed

lemma add_ok:
  assumes h: "pq_holds cmp h q S" and x: "x \<notin> S" "idle h x"
  shows "\<exists>q' h'. pq_add cmp x q h = Some (Inr (q', h')) \<and> pq_holds cmp h' q' (insert x S) \<and> (\<forall>y. y \<notin> insert x S \<longrightarrow> h' y = h y)"
proof -
  obtain t where t: "qtree cmp h (pq_root q) t" "set_tree t = S" "pq_count q = int (size t)"
    "\<forall>y. root_of t = Some y \<longrightarrow> parentNode (h y) = None" "\<forall>y \<in> S. enqueued (h y)"
    using h by (auto simp: pq_holds_def)
  let ?x = "\<langle>\<langle>\<rangle>, x, \<langle>\<rangle>\<rangle>"
  have qx: "qtree cmp h (Some x) ?x" using x(2) by (simp add: qtree_def idle_def child_of_def)
  obtain r h' t' where m: "pq_merge cmp (Some x) (pq_root q) h = Some (Inr (r, h'))" "merged cmp h ?x t r h' t'"
    using merge_ok [OF qx t(1)] t(2) x(1) by auto
  have ts: "set_tree t' = insert x S" using merged_set [OF m(2)] t(2) by simp
  have q': "qtree cmp (setQueued x h') r t'"
    using m(2) by (subst qtree_cong [of _ _ h']) (auto simp: merged_def setQueued_def upd_def)
  have "mset_tree t' = add_mset x (mset_tree t)" using m(2) by (simp add: merged_def)
  then have "size t' = Suc (size t)" by (metis size_add_mset size_mset_tree)
  moreover have "\<forall>y. root_of t' = Some y \<longrightarrow> parentNode (setQueued x h' y) = None"
    using m(2) t(1,4) x(2) ptree_root by (auto simp: merged_def qtree_def setQueued_def upd_def idle_def)
  moreover have "\<forall>y \<in> insert x S. enqueued (setQueued x h' y)"
    using m(2) t(5) by (auto simp: merged_def setQueued_def upd_def)
  ultimately have "pq_holds cmp (setQueued x h') (q\<lparr>pq_root := r, pq_count := pq_count q + 1, pushedEntries := pushedEntries q + 1\<rparr>) (insert x S)"
    unfolding pq_holds_def using q' ts t(3) by (intro exI [of _ t']) simp
  moreover have "\<forall>y. y \<notin> insert x S \<longrightarrow> setQueued x h' y = h y" using m(2) t(2) by (auto simp: merged_def setQueued_def upd_def)
  ultimately show ?thesis using m(1) by (simp add: pq_add_def)
qed

text \<open>The queue whose root is the merge of the children of its old root \<open>x\<close>.\<close>

lemma poll_ok:
  assumes h: "pq_holds cmp h q S" and x: "pq_root q = Some x"
  shows "\<exists>q' h'. pq_poll cmp q h = Some (Inr (Some x, q', h')) \<and> pq_holds cmp h' q' (S - {x}) \<and> idle h' x \<and>
    (\<forall>y. y \<notin> S \<longrightarrow> h' y = h y)"
proof -
  obtain l r where t: "qtree cmp h (Some x) \<langle>l, x, r\<rangle>" "insert x (set_tree l \<union> set_tree r) = S" "pq_count q = int (Suc (size l + size r))"
    "\<forall>y \<in> S. enqueued (h y)"
  proof -
    obtain t where "qtree cmp h (Some x) t" "set_tree t = S" "pq_count q = int (size t)" "\<forall>y \<in> S. enqueued (h y)"
      using h x by (auto simp: pq_holds_def)
    then show ?thesis using that by (cases t) (auto simp: qtree_def)
  qed
  have d: "set_tree l \<inter> set_tree r = {}" "x \<notin> set_tree l \<union> set_tree r" using t(1) by (auto simp: qtree_def)
  have "qtree cmp h (leftNode (h x)) l" "qtree cmp h (rightNode (h x)) r" using t(1) by (auto simp: qtree_def)
  from merge_ok [OF this d(1)] obtain rt h1 s where
    m: "pq_merge cmp (leftNode (h x)) (rightNode (h x)) h = Some (Inr (rt, h1))" "merged cmp h l r rt h1 s" by blast
  let ?h = "pq_clear_entry x (set_parent rt None h1)"
  have ss: "set_tree s = S - {x}" "set_tree s = set_tree l \<union> set_tree r" using merged_set [OF m(2)] d t(2) by auto
  note mg = mergedD [OF m(2)]
  have eq: "?h y = set_parent rt None h1 y" if "y \<in> set_tree s" for y using that d ss by (intro cleared_other) auto
  have "qtree cmp ?h rt s" using mg(1,4) eq by (subst qtree_cong [of _ _ h1]) (auto simp: set_parent_at)
  moreover have "\<forall>y. root_of s = Some y \<longrightarrow> parentNode (?h y) = None" using eq mg(4) root_in [of s] by (auto simp: set_parent_at)
  moreover have "\<forall>y \<in> S - {x}. enqueued (?h y)" using eq mg(6) t(4) ss(1) by (auto simp: set_parent_at)
  ultimately have "pq_holds cmp ?h (q\<lparr>pq_root := rt, pq_count := pq_count q - 1, poppedEntries := poppedEntries q + 1\<rparr>) (S - {x})"
    unfolding pq_holds_def using ss(1) t(3) mg(7) by (intro exI [of _ s]) simp
  moreover have "\<forall>y. y \<notin> S \<longrightarrow> ?h y = h y"
  proof (intro allI impI)
    fix y assume y: "y \<notin> S"
    then have "y \<noteq> x" "rt \<noteq> Some y" "y \<notin> set_tree l \<union> set_tree r" using t(2) mg(4) root_in [of s y] ss(2) by auto
    then show "?h y = h y" using mg(5) by (simp add: cleared_other set_parent_at)
  qed
  moreover have "pq_poll cmp q h = Some (Inr (Some x, q\<lparr>pq_root := rt, pq_count := pq_count q - 1, poppedEntries := poppedEntries q + 1\<rparr>, ?h))"
    using m(1) x t(3) by (simp add: pq_poll_def Let_def)
  ultimately show ?thesis using idle_cleared by blast
qed

lemma unlink_ok:
  assumes t: "qtree cmp h p t" "\<forall>y. root_of t = Some y \<longrightarrow> parentNode (h y) = None" and xt: "x \<in> set_tree t" and k: "kids x t = (l, r)"
    and m: "merged cmp h l r node h1 s" and u: "unlink (parentNode (h x)) x node p h1 = (p', h2)"
  shows "ptree h2 p' (excise x s t) \<and> (\<forall>y. root_of (excise x s t) = Some y \<longrightarrow> parentNode (h2 y) = None) \<and>
    (\<forall>y. enqueued (h2 y) = enqueued (h y)) \<and> (\<forall>y. y \<notin> set_tree t \<longrightarrow> h2 y = h y)"
proof -
  have dt: "distinct (nodes t)" and pt: "ptree h p t" using t(1) by (auto simp: qtree_def)
  note mg = mergedD [OF m] and ss = merged_set [OF m] and ks = kids_sets [OF xt k dt]
  show ?thesis
  proof (cases "root_of t = Some x")
    case True
    then have e: "excise x s t = s" and pn: "parentNode (h x) = None" using t(2) by (cases t; simp)+
    have r: "p' = node" "h2 = set_parent node None h1" using u pn by (auto simp: unlink_def)
    have "ptree h2 node s" using mg(1,4) by (subst ptree_cong [of _ _ h1]) (auto simp: r qtree_def set_parent_at)
    moreover have "h2 y = h y" if "y \<notin> set_tree t" for y
    proof -
      have "y \<notin> set_tree l \<union> set_tree r" "node \<noteq> Some y" using that ks(2)  mg(4) root_in [of s y] ss by auto
      then show ?thesis using mg(5) by (simp add: r set_parent_at)
    qed
    ultimately show ?thesis using mg(4,6) by (auto simp: e r set_parent_at)
  next
    case False
    obtain pa where pa: "pa \<in> set_tree t - {x}" "parentNode (h x) = Some pa" "pa \<notin> set_tree l \<union> set_tree r"
      "ptree (rewired h1 pa x node) p (excise x s t)" "root_of (excise x s t) = root_of t"
      using excise_ptree [OF pt dt xt False k, of h1 node s] mg(1,5) ss by (auto simp: qtree_def)
    have r: "p' = p" "h2 = rewired h1 pa x node" using u pa(2) by (auto simp: unlink_def rewired_def)
    have nn: "node \<noteq> Some y" if "y \<notin> set_tree l \<union> set_tree r" for y using that mg(4) root_in [of s y] ss by auto
    have "parentNode (h2 y) = None" if "root_of t = Some y" for y
    proof -
      have "y \<notin> set_tree l \<union> set_tree r" using kids_below_root [OF xt k dt that] .
      then show ?thesis using that t(2) mg(5) nn rewired_parent [of node y h1 pa x] by (simp add: r)
    qed
    moreover have "h2 y = h y" if "y \<notin> set_tree t" for y
    proof -
      have "y \<notin> set_tree l \<union> set_tree r" "y \<noteq> pa" using that ks(2)  pa(1) by auto
      then show ?thesis using nn mg(5) rewired_other [of y pa node h1 x] by (simp add: r)
    qed
    ultimately show ?thesis using pa(4,5) mg(6) by (auto simp: r rewired_enqueued)
  qed
qed

lemma remove_ok:
  assumes h: "pq_holds cmp h q S" and x: "x \<in> S"
  shows "\<exists>q' h'. pq_remove cmp x q h = Some (Inr (True, q', h')) \<and> pq_holds cmp h' q' (S - {x}) \<and> idle h' x \<and>
    (\<forall>y. y \<notin> S \<longrightarrow> h' y = h y)"
proof -
  obtain t where t: "qtree cmp h (pq_root q) t" "set_tree t = S" "pq_count q = int (size t)"
    "\<forall>y. root_of t = Some y \<longrightarrow> parentNode (h y) = None" "\<forall>y \<in> S. enqueued (h y)"
    using h by (auto simp: pq_holds_def)
  have xt: "x \<in> set_tree t" and dt: "distinct (nodes t)" and pt: "ptree h (pq_root q) t" and ht: "hord cmp t"
    using t(1,2) x by (auto simp: qtree_def)
  obtain l r where k: "kids x t = (l, r)" by (cases "kids x t")
  note ks = kids_sets [OF xt k dt] and kq = kids_qtree [OF t(1) xt k]
  obtain node h1 s where m: "pq_merge cmp (leftNode (h x)) (rightNode (h x)) h = Some (Inr (node, h1))" "merged cmp h l r node h1 s"
    using merge_ok [OF _ _ ks(3)] kq by blast
  note mg = mergedD [OF m(2)] and cs = excise_set [OF xt dt k mergedD(2) [OF m(2)]]
  have hs: "hord cmp (excise x s t)" using mg(1) by (intro excise_hord [OF xt dt k mg(2) _ ht]) (simp add: qtree_def)
  obtain p' h2 where u: "unlink (parentNode (h x)) x node (pq_root q) h1 = (p', h2)" by fastforce
  have run: "pq_remove cmp x q h = Some (Inr (True, q\<lparr>pq_root := p', pq_count := pq_count q - 1, removedEntries := removedEntries q + 1\<rparr>, pq_clear_entry x h2))"
  proof -
    have "pq_count q - 1 \<ge> 0" using t(3) cs(3) by simp
    moreover have "\<not> pq_isEmpty q" using ptree_root [OF pt] xt by (cases t) (auto simp: pq_isEmpty_def)
    ultimately show ?thesis using m(1) u by (simp add: pq_remove_def Let_def)
  qed
  note fin = unlink_ok [OF t(1,4) xt k m(2) u]
  let ?h = "pq_clear_entry x h2"
  have eq: "?h y = h2 y" if "y \<in> S - {x}" for y using that cleared_other by auto
  have st: "set_tree (excise x s t) = S - {x}" using cs(1) t(2) by simp
  have "ptree ?h p' (excise x s t)" using fin eq st ptree_frame [of "excise x s t" ?h h2] by simp
  moreover have "\<forall>y. root_of (excise x s t) = Some y \<longrightarrow> parentNode (?h y) = None" using fin eq st root_in [of "excise x s t"] by auto
  moreover have "\<forall>y \<in> S - {x}. enqueued (?h y)" using fin eq t(5) by auto
  ultimately have "pq_holds cmp ?h (q\<lparr>pq_root := p', pq_count := pq_count q - 1, removedEntries := removedEntries q + 1\<rparr>) (S - {x})"
    unfolding pq_holds_def using st cs(2,3) hs t(3) by (intro exI [of _ "excise x s t"]) (simp add: qtree_def)
  moreover have "\<forall>y. y \<notin> S \<longrightarrow> ?h y = h y" using fin x t(2) cleared_other [of _ x h2] by metis
  ultimately show ?thesis using run idle_cleared by blast
qed

lemma polls_best:
  assumes "pq_holds cmp h q S"
  shows "\<exists>x q' h'. pq_poll cmp q h = Some (Inr (x, q', h')) \<and> pq_holds cmp h' q' (S - set_option x) \<and> (\<forall>y. y \<notin> S \<longrightarrow> h' y = h y) \<and>
    (case x of None \<Rightarrow> S = {} | Some x \<Rightarrow> pq_best cmp S x \<and> idle h' x)"
proof (cases "pq_root q")
  case None
  then show ?thesis using holds_peak [OF assms] assms by (simp add: pq_poll_def pq_peak_def)
next
  case (Some x)
  then show ?thesis using holds_peak [OF assms] poll_ok [OF assms Some] by (fastforce simp: pq_peak_def)
qed

lemma merge_queues_ok:
  assumes "pq_holds cmp h q S" "pq_holds cmp h q2 S2" "S \<inter> S2 = {}"
  shows "\<exists>q' q2' h'. pq_merge_queues cmp q q2 h = Some (Inr (q', q2', h')) \<and> pq_holds cmp h' q' (S \<union> S2) \<and> pq_holds cmp h' q2' {} \<and>
    (\<forall>y. y \<notin> S \<union> S2 \<longrightarrow> h' y = h y)"
proof -
  obtain t t2 where t: "qtree cmp h (pq_root q) t" "set_tree t = S" "pq_count q = int (size t)"
      "\<forall>y. root_of t = Some y \<longrightarrow> parentNode (h y) = None" "\<forall>y \<in> S. enqueued (h y)"
    and t2: "qtree cmp h (pq_root q2) t2" "set_tree t2 = S2" "pq_count q2 = int (size t2)"
      "\<forall>y. root_of t2 = Some y \<longrightarrow> parentNode (h y) = None" "\<forall>y \<in> S2. enqueued (h y)"
    using assms by (auto simp: pq_holds_def)
  obtain r h' s where m: "pq_merge cmp (pq_root q) (pq_root q2) h = Some (Inr (r, h'))" "merged cmp h t t2 r h' s"
    using merge_ok [OF t(1) t2(1)] assms(3) t(2) t2(2) by blast
  note mg = mergedD [OF m(2)]
  have "\<forall>y. root_of s = Some y \<longrightarrow> parentNode (h' y) = None" using m(2) mg(3,4) t(4) t2(4) by (auto simp: merged_def)
  then have "pq_holds cmp h' (q\<lparr>pq_root := r, pq_count := pq_count q + pq_count q2\<rparr>) (S \<union> S2)"
    unfolding pq_holds_def using mg t t2 merged_set [OF m(2)] by (intro exI [of _ s]) auto
  moreover have "pq_holds cmp h' (q2\<lparr>pq_count := 0, pq_root := None\<rparr>) {}"
    unfolding pq_holds_def by (intro exI [of _ "\<langle>\<rangle>"]) (simp add: qtree_def)
  ultimately show ?thesis using m(1) mg(5) t(2) t2(2) by (simp add: pq_merge_queues_def)
qed

end

lemma reclaim_ok:
  assumes "ptree h p t" "distinct (nodes t)"
  shows "\<exists>h'. reclaimMemory p h = Some h' \<and> (\<forall>x \<in> set_tree t. idle h' x) \<and> (\<forall>x. x \<notin> set_tree t \<longrightarrow> h' x = h x)"
  using assms
proof (induction t arbitrary: p h)
  case Leaf
  then show ?case by (subst reclaimMemory.simps) simp
next
  case (Node l a r)
  have d: "a \<notin> set_tree l" "a \<notin> set_tree r" "set_tree l \<inter> set_tree r = {}" using Node.prems by auto
  obtain h1 where h1: "reclaimMemory (leftNode (h a)) h = Some h1" "\<forall>x \<in> set_tree l. idle h1 x" "\<forall>x. x \<notin> set_tree l \<longrightarrow> h1 x = h x"
    using Node.IH(1) [of h "leftNode (h a)"] Node.prems by auto
  have "\<forall>x \<in> set_tree r. h1 x = h x" using d h1(3) by auto
  then have "ptree h1 (rightNode (h1 a)) r" using Node.prems(1) h1(3) d ptree_frame [of r h1 h] by auto
  then obtain h2 where h2: "reclaimMemory (rightNode (h1 a)) h1 = Some h2" "\<forall>x \<in> set_tree r. idle h2 x" "\<forall>x. x \<notin> set_tree r \<longrightarrow> h2 x = h1 x"
    using Node.IH(2) [of h1 "rightNode (h1 a)"] Node.prems(2) by auto
  have "reclaimMemory p h = Some (pq_clear_entry a h2)" using Node.prems(1) h1(1) h2(1) by (subst reclaimMemory.simps) simp
  moreover have "idle (pq_clear_entry a h2) x" if "x \<in> set_tree \<langle>l, a, r\<rangle>" for x
    using that h1 h2 d idle_cleared cleared_other [of x a h2] by (cases "x = a") (auto simp: idle_def)
  moreover have "\<forall>x. x \<notin> set_tree \<langle>l, a, r\<rangle> \<longrightarrow> pq_clear_entry a h2 x = h x" using h1(3) h2(3) cleared_other by auto
  ultimately show ?case by blast
qed

lemma clear_ok:
  assumes "pq_holds cmp h q S"
  shows "\<exists>q' h'. pq_clear q h = Some (q', h') \<and> pq_holds cmp h' q' {} \<and> (\<forall>x \<in> S. idle h' x) \<and> (\<forall>x. x \<notin> S \<longrightarrow> h' x = h x)"
proof -
  obtain t where t: "ptree h (pq_root q) t" "distinct (nodes t)" "set_tree t = S" using assms by (auto simp: pq_holds_def qtree_def)
  obtain h' where "reclaimMemory (pq_root q) h = Some h'" "\<forall>x \<in> S. idle h' x" "\<forall>x. x \<notin> S \<longrightarrow> h' x = h x"
    using reclaim_ok [OF t(1,2)] t(3) by auto
  moreover have "pq_holds cmp h' (q\<lparr>pq_root := None, pq_count := 0\<rparr>) {}"
    unfolding pq_holds_def by (intro exI [of _ "\<langle>\<rangle>"]) (simp add: qtree_def)
  ultimately show ?thesis by (simp add: pq_clear_def)
qed

subsection \<open>Properties\<close>

text \<open>
  C10. The priority queue, on the level of its pointers. For a comparison that is an order, a queue
  holding the nodes \<open>S\<close> (linked as a heap-ordered tree with correct parent pointers, \<open>count\<close>
  nodes, all flagged as queued) does the following, without failed assertion or null access and
  always returning: \<open>add\<close> of an idle node gives a queue holding \<open>S \<union> {x}\<close>; \<open>poll\<close> returns null on
  the empty queue and otherwise a node of \<open>S\<close> that no other node precedes, leaving \<open>S\<close> without
  it; \<open>remove\<close> of any queued node, wherever it is in the tree, leaves \<open>S\<close> without it. Nodes that
  leave are idle again and no node outside of the queue is touched.
\<close>

theorem priority_queue_correct:
  assumes "compare_order cmp" "pq_holds cmp h q S"
  shows "(x \<notin> S \<longrightarrow> idle h x \<longrightarrow>
      (\<exists>q' h'. pq_add cmp x q h = Some (Inr (q', h')) \<and> pq_holds cmp h' q' (insert x S) \<and> (\<forall>y. y \<notin> insert x S \<longrightarrow> h' y = h y))) \<and>
    (\<exists>x q' h'. pq_poll cmp q h = Some (Inr (x, q', h')) \<and> pq_holds cmp h' q' (S - set_option x) \<and> (\<forall>y. y \<notin> S \<longrightarrow> h' y = h y) \<and>
      (case x of None \<Rightarrow> S = {} | Some x \<Rightarrow> pq_best cmp S x \<and> idle h' x)) \<and>
    (x \<in> S \<longrightarrow> (\<exists>q' h'. pq_remove cmp x q h = Some (Inr (True, q', h')) \<and> pq_holds cmp h' q' (S - {x}) \<and> idle h' x \<and>
      (\<forall>y. y \<notin> S \<longrightarrow> h' y = h y)))"
  using pq_order.add_ok [OF pq_order.intro [OF assms(1)] assms(2)] pq_order.polls_best [OF pq_order.intro [OF assms(1)] assms(2)]
    pq_order.remove_ok [OF pq_order.intro [OF assms(1)] assms(2)] by blast

definition demo_order :: "addr \<Rightarrow> addr \<Rightarrow> int" where
  "demo_order a b = int b - int a"

text \<open>Node 5 is queued, node 3 is added.\<close>

definition demo_store :: pq_store where
  "demo_store = (\<lambda>a. (pq_entry None None None 0)\<lparr>enqueued := (a = 5)\<rparr>)"

lemma demo_holds: "pq_holds demo_order demo_store (pq_new\<lparr>pq_root := Some 5, pq_count := 1\<rparr>) {5}"
  unfolding pq_holds_def by (intro exI [of _ "\<langle>\<langle>\<rangle>, 5, \<langle>\<rangle>\<rangle>"]) (simp add: qtree_def demo_store_def pq_entry_def child_of_def)

theorem priority_queue_correct_witness:
  "\<exists>q' h'. pq_add demo_order 3 (pq_new\<lparr>pq_root := Some 5, pq_count := 1\<rparr>) demo_store = Some (Inr (q', h')) \<and>
     pq_holds demo_order h' q' {3, 5}"
proof -
  have "compare_order demo_order" by standard (auto simp: demo_order_def)
  from priority_queue_correct [OF this demo_holds, of 3] show ?thesis
    by (auto simp: idle_def demo_store_def pq_entry_def)
qed

text \<open>\<open>remove\<close> does not check that the node is in the queue: removing an idle node drops all others.\<close>

lemma remove_idle_loses_all:
  assumes "idle h x" "pq_root q = Some y" "0 < pq_count q"
  shows "\<exists>q' h'. pq_remove cmp x q h = Some (Inr (True, q', h')) \<and> pq_root q' = None \<and> pq_count q' = pq_count q - 1"
  using assms by (simp add: pq_remove_def pq_isEmpty_def idle_def unlink_def Let_def)

end
