(* ===== verification/Scheduler.thy ===== *)
theory Scheduler
  imports PriorityQueue
begin

text \<open>
  Timed tasks: \<^verbatim>\<open>system/lang/Time.h\<close>, \<^verbatim>\<open>engine/core/Task.h\<close>, \<^verbatim>\<open>TimedTaskQueue.cpp\<close>, \<^verbatim>\<open>TaskScheduler.cpp\<close> and the
  scheduling part of \<^verbatim>\<open>TaskManagerImpl.cpp\<close>. The world holds the queue entries and the data of all
  tasks by address and the queue of every scheduler by its number. A method that runs under
  \<open>condMutex\<close> is one atomic step; \<open>get\<close>, which waits on the condition variable inside, is cut at its
  waits, and a wait may end at any time. Methods of different queues, which have mutexes of their own, are also taken one at a time:
  races between two queues for the same task are not modelled. The clock is an argument. The conversion of
  nanoseconds to milliseconds in single precision (\<open>(uint64)(ts.tv_nsec / 1000000.f)\<close>) is the
  parameter \<open>mili\<close>.
\<close>

subsection \<open>Time\<close>

record time =
  tv_sec :: int
  tv_nsec :: int

definition checkForOverflow :: "time \<Rightarrow> time" where
  "checkForOverflow t = (if tv_nsec t \<ge> 1000000000 then \<lparr>tv_sec = tv_sec t + 1, tv_nsec = tv_nsec t - 1000000000\<rparr> else t)"

definition addMiliTime :: "64 word \<Rightarrow> time \<Rightarrow> time" where
  "addMiliTime mtime t =
     checkForOverflow \<lparr>tv_sec = tv_sec t + uint mtime div 1000, tv_nsec = tv_nsec t + (uint mtime mod 1000) * 1000000\<rparr>"

definition addMikroTime :: "64 word \<Rightarrow> time \<Rightarrow> time" where
  "addMikroTime utime t =
     checkForOverflow \<lparr>tv_sec = tv_sec t + uint utime div 1000000, tv_nsec = tv_nsec t + (uint utime mod 1000000) * 1000\<rparr>"

definition addNanoTime :: "64 word \<Rightarrow> time \<Rightarrow> time" where
  "addNanoTime ntime t =
     checkForOverflow \<lparr>tv_sec = tv_sec t + uint ntime div 1000000000, tv_nsec = tv_nsec t + uint ntime mod 1000000000\<rparr>"

definition time_compareTo :: "time \<Rightarrow> time \<Rightarrow> int" where
  "time_compareTo a b =
     (if tv_sec a < tv_sec b then 1 else if tv_sec a > tv_sec b then -1
      else if tv_nsec a < tv_nsec b then 1 else if tv_nsec a > tv_nsec b then -1 else 0)"

definition isPast :: "time \<Rightarrow> time \<Rightarrow> bool" where
  "isPast now t \<longleftrightarrow> time_compareTo t now > 0"

definition isPresent :: "time \<Rightarrow> time \<Rightarrow> bool" where
  "isPresent now t \<longleftrightarrow> time_compareTo t now = 0"

definition isFuture :: "time \<Rightarrow> time \<Rightarrow> bool" where
  "isFuture now t \<longleftrightarrow> time_compareTo t now < 0"

definition getMiliTime :: "(int \<Rightarrow> 64 word) \<Rightarrow> time \<Rightarrow> 64 word" where
  "getMiliTime mili t = word_of_int (tv_sec t) * 1000 + mili (tv_nsec t)"

text \<open>The signed difference of two such numbers is their distance, except for times \<open>2 ^ 63\<close> milliseconds away.\<close>

lemma mili_difference_exact:
  fixes a b :: "64 word"
  assumes "sint (a - b) \<le> 10" "uint a < 2 ^ 63" "uint b < 2 ^ 63"
  shows "uint a - uint b \<le> 10"
proof -
  have "sint (a - b) = sint (word_of_int (uint a - uint b) :: 64 word)" by (simp only: wi_hom_sub [symmetric] word_of_int_uint)
  also have "- (2 ^ 63) \<le> uint a - uint b" "uint a - uint b < 2 ^ 63" using assms(2,3) uint_nonnegative [of a] uint_nonnegative [of b] by linarith+
  then have "sint (word_of_int (uint a - uint b) :: 64 word) = uint a - uint b" by (subst signed_of_int) (simp add: signed_take_bit_int_eq_self)
  finally show ?thesis using assms(1) by simp
qed

lemma far_time_looks_due:
  "isFuture \<lparr>tv_sec = 0, tv_nsec = 0\<rparr> \<lparr>tv_sec = 18446744073709551, tv_nsec = 0\<rparr> \<and>
   sint (getMiliTime (\<lambda>n. word_of_int (n div 1000000)) \<lparr>tv_sec = 18446744073709551, tv_nsec = 0\<rparr>
         - getMiliTime (\<lambda>n. word_of_int (n div 1000000)) \<lparr>tv_sec = 0, tv_nsec = 0\<rparr>) \<le> 10"
  by (simp add: isFuture_def time_compareTo_def getMiliTime_def)

definition getNanoTime :: "time \<Rightarrow> int" where
  "getNanoTime t = tv_sec t * 1000000000 + tv_nsec t"

definition normal_time :: "time \<Rightarrow> bool" where
  "normal_time t \<longleftrightarrow> 0 \<le> tv_nsec t \<and> tv_nsec t < 1000000000"

lemma checkForOverflow_ok:
  "0 \<le> tv_nsec t \<Longrightarrow> tv_nsec t < 2000000000 \<Longrightarrow> normal_time (checkForOverflow t) \<and> getNanoTime (checkForOverflow t) = getNanoTime t"
  by (auto simp: checkForOverflow_def normal_time_def getNanoTime_def)

lemma add_parts:
  fixes n :: int
  assumes "normal_time t" "0 \<le> n" "0 < k" "k * u = 1000000000" "0 < u"
  shows "normal_time (checkForOverflow \<lparr>tv_sec = tv_sec t + n div k, tv_nsec = tv_nsec t + (n mod k) * u\<rparr>) \<and>
    getNanoTime (checkForOverflow \<lparr>tv_sec = tv_sec t + n div k, tv_nsec = tv_nsec t + (n mod k) * u\<rparr>) = getNanoTime t + n * u"
proof -
  let ?t = "\<lparr>tv_sec = tv_sec t + n div k, tv_nsec = tv_nsec t + (n mod k) * u\<rparr>"
  have "(n mod k) * u < k * u" using assms(3,5) by (simp add: mult_strict_right_mono)
  moreover have "0 \<le> (n mod k) * u" using assms by simp
  ultimately have "0 \<le> tv_nsec ?t" "tv_nsec ?t < 2000000000" using assms(1,4) by (auto simp: normal_time_def)
  moreover have "getNanoTime ?t = getNanoTime t + n * u"
  proof -
    have "n * u = (k * (n div k) + n mod k) * u" by (simp only: mult_div_mod_eq)
    also have "\<dots> = (n div k) * (k * u) + (n mod k) * u" by (simp only: ring_distribs ac_simps)
    finally show ?thesis unfolding assms(4) by (simp add: getNanoTime_def distrib_right)
  qed
  ultimately show ?thesis using checkForOverflow_ok by metis
qed

lemma compare_nano:
  assumes "normal_time a" "normal_time b"
  shows "time_compareTo a b = (if getNanoTime a < getNanoTime b then 1 else if getNanoTime a > getNanoTime b then -1 else 0)"
  using assms by (auto simp: time_compareTo_def getNanoTime_def normal_time_def)

text \<open>
  Time arithmetic is exact: adding milliseconds, microseconds or nanoseconds to a normalised
  time gives the normalised time that many nanoseconds later, and \<open>compareTo\<close> orders normalised
  times by their nanoseconds, earlier first.
\<close>

lemma time_arithmetic:
  assumes "normal_time t" "normal_time u"
  shows "normal_time (addMiliTime m t) \<and> getNanoTime (addMiliTime m t) = getNanoTime t + uint m * 1000000 \<and>
    normal_time (addMikroTime m t) \<and> getNanoTime (addMikroTime m t) = getNanoTime t + uint m * 1000 \<and>
    normal_time (addNanoTime m t) \<and> getNanoTime (addNanoTime m t) = getNanoTime t + uint m \<and>
    time_compareTo t u = (if getNanoTime t < getNanoTime u then 1 else if getNanoTime t > getNanoTime u then -1 else 0)"
  using add_parts [OF assms(1), of "uint m" 1000 1000000] add_parts [OF assms(1), of "uint m" 1000000 1000]
    add_parts [OF assms(1), of "uint m" 1000000000 1] compare_nano [OF assms]
  by (simp add: addMiliTime_def addMikroTime_def addNanoTime_def)

lemma time_arithmetic_witness:
  "addMiliTime 1500 \<lparr>tv_sec = 7, tv_nsec = 600000000\<rparr> = \<lparr>tv_sec = 9, tv_nsec = 100000000\<rparr> \<and>
   getNanoTime (addMiliTime 1500 \<lparr>tv_sec = 7, tv_nsec = 600000000\<rparr>) = 9100000000"
  using time_arithmetic [of "\<lparr>tv_sec = 7, tv_nsec = 600000000\<rparr>" "\<lparr>tv_sec = 0, tv_nsec = 0\<rparr>" 1500]
  by (simp add: normal_time_def getNanoTime_def addMiliTime_def checkForOverflow_def)

subsection \<open>Tasks and worlds\<close>

record task =
  taskScheduler :: "nat option"
  nextExecutionTime :: time
  period :: "64 word"
  refs :: int

record timed_queue =
  tq_heap :: priority_queue
  blocked :: bool
  waitingForTask :: bool
  changePlan :: bool
  wakes :: nat

record world =
  entries :: pq_store
  taskAt :: "addr \<Rightarrow> task"
  tqueue :: "nat \<Rightarrow> timed_queue"
  schedulers :: "nat list"
  ioSchedulers :: "nat list"
  currentTaskScheduler :: "32 word"
  shuttingDown :: bool

definition tq_new :: timed_queue where
  "tq_new = \<lparr>tq_heap = pq_new, blocked = False, waitingForTask = False, changePlan = False, wakes = 0\<rparr>"

definition task_compareTo :: "(addr \<Rightarrow> task) \<Rightarrow> addr \<Rightarrow> addr \<Rightarrow> int" where
  "task_compareTo ts this task =
     (if task = this then 0
      else let cmp = time_compareTo (nextExecutionTime (ts this)) (nextExecutionTime (ts task)) in
        if cmp = 0 then (if this < task then 1 else -1) else cmp)"

interpretation task_order: pq_order "task_compareTo ts" for ts
  by standard (auto simp: task_compareTo_def time_compareTo_def Let_def split: if_splits)

text \<open>Results: no value when the call does not return; an exception keeps what was done before it.\<close>

type_synonym 'a run = "('a res \<times> world) option"

definition ret :: "'a \<Rightarrow> world \<Rightarrow> 'a run" where
  "ret x w = Some (Inr x, w)"

definition raise :: "err \<Rightarrow> world \<Rightarrow> 'a run" where
  "raise e w = Some (Inl e, w)"

definition wbind :: "'a run \<Rightarrow> ('a \<Rightarrow> world \<Rightarrow> 'b run) \<Rightarrow> 'b run" where
  "wbind m f = (case m of None \<Rightarrow> None | Some (Inl e, w) \<Rightarrow> Some (Inl e, w) | Some (Inr x, w) \<Rightarrow> f x w)"

definition heap_call :: "world \<Rightarrow> 'b res option \<Rightarrow> ('b \<Rightarrow> 'a run) \<Rightarrow> 'a run" where
  "heap_call w r k = (case r of None \<Rightarrow> None | Some (Inl e) \<Rightarrow> Some (Inl e, w) | Some (Inr y) \<Rightarrow> k y)"

lemma run_simps [simp]:
  "wbind (ret x w) f = f x w" "wbind (raise e w) f = raise e w" "heap_call w (Some (Inr y)) k = k y"
  by (simp_all add: wbind_def ret_def raise_def heap_call_def)

lemma ret_eq [simp]: "ret x w = ret y w' \<longleftrightarrow> x = y \<and> w = w'"
  by (simp add: ret_def)

definition upd_task :: "addr \<Rightarrow> (task \<Rightarrow> task) \<Rightarrow> world \<Rightarrow> world" where
  "upd_task x f w = w\<lparr>taskAt := (taskAt w)(x := f (taskAt w x))\<rparr>"

definition upd_queue :: "nat \<Rightarrow> (timed_queue \<Rightarrow> timed_queue) \<Rightarrow> world \<Rightarrow> world" where
  "upd_queue s f w = w\<lparr>tqueue := (tqueue w)(s := f (tqueue w s))\<rparr>"

definition put_heap :: "nat \<Rightarrow> priority_queue \<Rightarrow> pq_store \<Rightarrow> world \<Rightarrow> world" where
  "put_heap s q h w = (upd_queue s (\<lambda>tq. tq\<lparr>tq_heap := q\<rparr>) w)\<lparr>entries := h\<rparr>"

definition isQueued :: "addr \<Rightarrow> world \<Rightarrow> bool" where
  "isQueued x w \<longleftrightarrow> enqueued (entries w x)"

definition acquire :: "addr \<Rightarrow> world \<Rightarrow> world" where
  "acquire x = upd_task x (\<lambda>t. t\<lparr>refs := refs t + 1\<rparr>)"

definition release :: "addr \<Rightarrow> world \<Rightarrow> world" where
  "release x = upd_task x (\<lambda>t. t\<lparr>refs := refs t - 1\<rparr>)"

definition clearTaskScheduler :: "addr \<Rightarrow> world \<Rightarrow> world" where
  "clearTaskScheduler x = upd_task x (\<lambda>t. t\<lparr>taskScheduler := None\<rparr>)"

definition setExecutionTime :: "time \<Rightarrow> addr \<Rightarrow> world \<Rightarrow> world" where
  "setExecutionTime time x = upd_task x (\<lambda>t. t\<lparr>nextExecutionTime := time\<rparr>)"

definition updateExecutionTime :: "time \<Rightarrow> 64 word \<Rightarrow> addr \<Rightarrow> world \<Rightarrow> world" where
  "updateExecutionTime now mtime x = setExecutionTime (if mtime \<noteq> 0 then addMiliTime mtime now else now) x"

definition setPeriod :: "64 word \<Rightarrow> addr \<Rightarrow> world \<Rightarrow> world" where
  "setPeriod per x = upd_task x (\<lambda>t. t\<lparr>period := per\<rparr>)"

subsection \<open>The timed task queue\<close>

definition signal_plan :: "bool \<Rightarrow> nat \<Rightarrow> world \<Rightarrow> world" where
  "signal_plan c s w =
     (if c \<and> waitingForTask (tqueue w s) then upd_queue s (\<lambda>tq. tq\<lparr>changePlan := True, wakes := wakes tq + 1\<rparr>) w else w)"

text \<open>\<open>TimedTaskQueue::remove\<close> of a task queued here.\<close>

definition tq_remove_own :: "nat \<Rightarrow> addr \<Rightarrow> world \<Rightarrow> bool run" where
  "tq_remove_own s x w =
     (let nxt = pq_peak (tq_heap (tqueue w s)) in
      heap_call w (pq_remove (task_compareTo (taskAt w)) x (tq_heap (tqueue w s)) (entries w)) (\<lambda>(_, q, h).
        ret True (signal_plan (nxt = Some x) s (release x (clearTaskScheduler x (put_heap s q h w))))))"

text \<open>
  \<open>Task::cancel\<close>, that is \<open>TaskManagerImpl::cancelTask\<close>: it calls \<open>TaskScheduler::cancelTask\<close> of the
  scheduler the task is in, which resets the period and removes the task from that queue.
\<close>

definition tm_cancelTask :: "addr \<Rightarrow> world \<Rightarrow> bool run" where
  "tm_cancelTask x w =
     (case taskScheduler (taskAt w x) of None \<Rightarrow> ret False w
      | Some s \<Rightarrow> let w = setPeriod 0 x w in if isQueued x w then tq_remove_own s x w else ret False w)"

definition tq_remove :: "nat \<Rightarrow> addr \<Rightarrow> world \<Rightarrow> bool run" where
  "tq_remove s x w =
     (if \<not> isQueued x w then ret False w
      else if taskScheduler (taskAt w x) \<noteq> Some s then wbind (tm_cancelTask x w) (\<lambda>_. ret True)
      else tq_remove_own s x w)"

definition sched_cancelTask :: "nat \<Rightarrow> addr \<Rightarrow> world \<Rightarrow> bool run" where
  "sched_cancelTask s x w = tq_remove s x (setPeriod 0 x w)"

definition tq_add :: "nat \<Rightarrow> addr \<Rightarrow> world \<Rightarrow> bool run" where
  "tq_add s x w =
     (if blocked (tqueue w s) then ret False w
      else wbind (if isQueued x w then tq_remove s x w else ret False w) (\<lambda>_ w.
        let w = acquire x w in
        if taskScheduler (taskAt w x) \<noteq> None then ret True (release x w)
        else let w = upd_task x (\<lambda>t. t\<lparr>taskScheduler := Some s\<rparr>) w in
          heap_call w (pq_add (task_compareTo (taskAt w)) x (tq_heap (tqueue w s)) (entries w)) (\<lambda>(q, h).
            ret True (signal_plan (pq_peak q = Some x) s (put_heap s q h w)))))"

definition tq_add_delay :: "time \<Rightarrow> nat \<Rightarrow> addr \<Rightarrow> 64 word \<Rightarrow> world \<Rightarrow> bool run" where
  "tq_add_delay now s x delay w =
     wbind (if isQueued x w then tq_remove s x w else ret False w) (\<lambda>_ w.
       tq_add s x (if delay \<noteq> 0 then updateExecutionTime now delay x w else w))"

definition tq_add_time :: "nat \<Rightarrow> addr \<Rightarrow> time \<Rightarrow> world \<Rightarrow> bool run" where
  "tq_add_time s x time w =
     wbind (if isQueued x w then tq_remove s x w else ret False w) (\<lambda>_ w. tq_add s x (setExecutionTime time x w))"

definition tq_wake :: "nat \<Rightarrow> world \<Rightarrow> world" where
  "tq_wake s = upd_queue s (\<lambda>tq. tq\<lparr>wakes := wakes tq + 1\<rparr>)"

definition tq_flush :: "nat \<Rightarrow> world \<Rightarrow> world" where
  "tq_flush s = upd_queue s (\<lambda>tq. tq\<lparr>blocked := True, wakes := (if waitingForTask tq then wakes tq + 1 else wakes tq)\<rparr>)"

definition tq_repair :: "nat \<Rightarrow> world \<Rightarrow> world" where
  "tq_repair s = upd_queue s (\<lambda>tq. tq\<lparr>wakes := (if waitingForTask tq then wakes tq + 1 else wakes tq)\<rparr>)"

subsection \<open>\<open>get\<close>\<close>

text \<open>Where the scheduler thread is: outside of \<open>get\<close> with the last result, or in one of the two waits.\<close>

datatype pc = Returned "addr option" | Waiting | TimedWaiting addr time

definition get_take :: "nat \<Rightarrow> world \<Rightarrow> pc run" where
  "get_take s w =
     heap_call w (pq_poll (task_compareTo (taskAt w)) (tq_heap (tqueue w s)) (entries w)) (\<lambda>(t, q, h).
       case t of None \<Rightarrow> raise Undefined w
       | Some x \<Rightarrow> ret (Returned (Some x)) (upd_queue s (\<lambda>tq. tq\<lparr>waitingForTask := False\<rparr>) (clearTaskScheduler x (put_heap s q h w))))"

text \<open>From the second test for an empty queue to the timed wait.\<close>

definition get_plan :: "time \<Rightarrow> nat \<Rightarrow> world \<Rightarrow> pc run" where
  "get_plan now s w =
     (case pq_peak (tq_heap (tqueue w s)) of None \<Rightarrow> ret (Returned None) w
      | Some x \<Rightarrow>
          if blocked (tqueue w s) \<or> \<not> isFuture now (nextExecutionTime (taskAt w x)) then get_take s w
          else ret (TimedWaiting x (nextExecutionTime (taskAt w x))) w)"

definition get_loop :: "time \<Rightarrow> nat \<Rightarrow> world \<Rightarrow> pc run" where
  "get_loop now s w =
     (if pq_isEmpty (tq_heap (tqueue w s)) then ret (if blocked (tqueue w s) then Returned None else Waiting) w
      else get_plan now s w)"

definition get_start :: "time \<Rightarrow> nat \<Rightarrow> world \<Rightarrow> pc run" where
  "get_start now s w = get_loop now s (upd_queue s (\<lambda>tq. tq\<lparr>waitingForTask := True\<rparr>) w)"

text \<open>After the timed wait ended with success or a timeout; \<open>now\<close> is \<open>postWait\<close>, \<open>now'\<close> the clock of the next round.\<close>

definition get_resume :: "(int \<Rightarrow> 64 word) \<Rightarrow> time \<Rightarrow> time \<Rightarrow> nat \<Rightarrow> addr \<Rightarrow> time \<Rightarrow> world \<Rightarrow> pc run" where
  "get_resume mili now now' s x time w =
     (if changePlan (tqueue w s) then get_loop now' s (upd_queue s (\<lambda>tq. tq\<lparr>changePlan := False\<rparr>) w)
      else if time_compareTo time now < 0 \<and>
              sint (- (getMiliTime mili now - getMiliTime mili (nextExecutionTime (taskAt w x)))) > 10
        then ret (Returned None) w
        else get_take s w)"

subsection \<open>The task manager\<close>

definition pick_scheduler :: "nat list \<Rightarrow> world \<Rightarrow> nat option run" where
  "pick_scheduler ss w =
     (if ss = [] then if \<not> shuttingDown w then raise (GenericException ''No schedulers available'') w else ret None w
      else let c = currentTaskScheduler w + 1 in
        ret (Some (ss ! nat (uint c mod int (length ss)))) (w\<lparr>currentTaskScheduler := c\<rparr>))"

definition schedule_in :: "nat list \<Rightarrow> (nat \<Rightarrow> world \<Rightarrow> bool run) \<Rightarrow> addr \<Rightarrow> world \<Rightarrow> unit run" where
  "schedule_in ss add x w =
     (if shuttingDown w then ret () w
      else if taskScheduler (taskAt w x) \<noteq> None then raise IllegalArgumentException w
      else wbind (pick_scheduler ss w) (\<lambda>s w. case s of None \<Rightarrow> ret () w
        | Some s \<Rightarrow> wbind (add s w) (\<lambda>ok w. if ok then ret () w else raise IllegalArgumentException w)))"

definition tm_scheduleTask :: "time \<Rightarrow> addr \<Rightarrow> 64 word \<Rightarrow> world \<Rightarrow> unit run" where
  "tm_scheduleTask now x delay w = schedule_in (schedulers w) (\<lambda>s. tq_add_delay now s x delay) x w"

definition tm_scheduleTask_at :: "addr \<Rightarrow> time \<Rightarrow> world \<Rightarrow> unit run" where
  "tm_scheduleTask_at x time w = schedule_in (schedulers w) (\<lambda>s. tq_add_time s x time) x w"

definition tm_scheduleIoTask :: "time \<Rightarrow> addr \<Rightarrow> 64 word \<Rightarrow> world \<Rightarrow> unit run" where
  "tm_scheduleIoTask now x delay w = schedule_in (ioSchedulers w) (\<lambda>s. tq_add_delay now s x delay) x w"

definition tm_scheduleIoTask_at :: "addr \<Rightarrow> time \<Rightarrow> world \<Rightarrow> unit run" where
  "tm_scheduleIoTask_at x time w = schedule_in (ioSchedulers w) (\<lambda>s. tq_add_time s x time) x w"

definition reschedule_with :: "(world \<Rightarrow> unit run) \<Rightarrow> addr \<Rightarrow> world \<Rightarrow> unit run" where
  "reschedule_with schedule x w =
     wbind (tm_cancelTask x (acquire x w)) (\<lambda>_ w. wbind (schedule w) (\<lambda>_ w. ret () (release x w)))"

definition tm_rescheduleTask :: "time \<Rightarrow> addr \<Rightarrow> 64 word \<Rightarrow> world \<Rightarrow> unit run" where
  "tm_rescheduleTask now x delay = reschedule_with (tm_scheduleTask now x delay) x"

definition tm_rescheduleIoTask :: "time \<Rightarrow> addr \<Rightarrow> 64 word \<Rightarrow> world \<Rightarrow> unit run" where
  "tm_rescheduleIoTask now x delay = reschedule_with (tm_scheduleIoTask now x delay) x"

text \<open>\<open>TaskScheduler::run\<close> behind the execution of the task; an exception of the scheduling is caught.\<close>

definition sched_after_execute :: "time \<Rightarrow> addr \<Rightarrow> world \<Rightarrow> unit run" where
  "sched_after_execute now x w =
     (case (if period (taskAt w x) \<noteq> 0 then tm_scheduleTask now x (period (taskAt w x)) w else ret () w) of
        None \<Rightarrow> None
      | Some (_, w) \<Rightarrow> ret () (release x w))"

text \<open>\<open>TaskScheduler::addSchedulerTasks\<close> takes the tasks out of the other queue one by one.\<close>

partial_function (option) addSchedulerTasks :: "nat \<Rightarrow> nat \<Rightarrow> world \<Rightarrow> unit run" where
  "addSchedulerTasks s other w =
     (case pq_poll (task_compareTo (taskAt w)) (tq_heap (tqueue w other)) (entries w) of
        None \<Rightarrow> None
      | Some (Inl e) \<Rightarrow> raise e w
      | Some (Inr (None, q, h)) \<Rightarrow> ret () w
      | Some (Inr (Some x, q, h)) \<Rightarrow>
          Option.bind (tq_add s x (put_heap other q h w)) (\<lambda>(r, w).
            case r of Inl e \<Rightarrow> raise e w | Inr _ \<Rightarrow> addSchedulerTasks s other w))"


subsection \<open>The invariant\<close>

text \<open>
  \<open>S s\<close> are the tasks queued in scheduler \<open>s\<close>, \<open>B x\<close> the references to task \<open>x\<close> held outside of
  the queues: the queues are disjoint heaps, a task's scheduler pointer names the queue it
  is in, every other task is idle, and a queue holds one reference to each of its tasks.
\<close>

definition winv :: "(nat \<Rightarrow> addr set) \<Rightarrow> (addr \<Rightarrow> int) \<Rightarrow> world \<Rightarrow> bool" where
  "winv S B w \<longleftrightarrow> (\<forall>s. pq_holds (task_compareTo (taskAt w)) (entries w) (tq_heap (tqueue w s)) (S s)) \<and>
     (\<forall>x s. taskScheduler (taskAt w x) = Some s \<longleftrightarrow> x \<in> S s) \<and>
     (\<forall>x. taskScheduler (taskAt w x) = None \<longrightarrow> idle (entries w) x) \<and>
     (\<forall>x. refs (taskAt w x) = B x + (if taskScheduler (taskAt w x) = None then 0 else 1))"

lemma hord_cong: "\<forall>a \<in> set_tree t. \<forall>b \<in> set_tree t. cmp' a b = cmp a b \<Longrightarrow> hord cmp' t = hord cmp t"
  by (induction t) auto

lemma pq_holds_cong:
  assumes "\<forall>y \<in> S. h' y = h y" "\<forall>a \<in> S. \<forall>b \<in> S. cmp' a b = cmp a b"
  shows "pq_holds cmp h q S \<Longrightarrow> pq_holds cmp' h' q S"
proof -
  assume "pq_holds cmp h q S"
  then obtain t where t: "qtree cmp h (pq_root q) t" "set_tree t = S" "pq_count q = int (size t)"
    "\<forall>y. root_of t = Some y \<longrightarrow> parentNode (h y) = None" "\<forall>y \<in> S. enqueued (h y)" by (auto simp: pq_holds_def)
  have "qtree cmp' h' (pq_root q) t"
    using t(1,2) assms ptree_frame [of t h' h] hord_cong [of t cmp' cmp] by (simp add: qtree_def)
  moreover have "\<forall>y. root_of t = Some y \<longrightarrow> parentNode (h' y) = None" using t(2,4) assms(1) root_in [of t] by auto
  ultimately show ?thesis using t assms(1) unfolding pq_holds_def by auto
qed

text \<open>The comparison depends on the execution times only.\<close>

lemma compareTo_cong:
  "(\<And>x. x \<in> S \<Longrightarrow> nextExecutionTime (ts' x) = nextExecutionTime (ts x)) \<Longrightarrow>
   \<forall>a \<in> S. \<forall>b \<in> S. task_compareTo ts' a b = task_compareTo ts a b"
  by (simp add: task_compareTo_def)

lemma winv_sched: "winv S B w \<Longrightarrow> taskScheduler (taskAt w x) = Some s \<longleftrightarrow> x \<in> S s"
  by (simp add: winv_def)

lemma winv_holds: "winv S B w \<Longrightarrow> pq_holds (task_compareTo (taskAt w)) (entries w) (tq_heap (tqueue w s)) (S s)"
  by (simp add: winv_def)

lemma winv_refs: "winv S B w \<Longrightarrow> refs (taskAt w x) = B x + (if taskScheduler (taskAt w x) = None then 0 else 1)"
  by (simp add: winv_def)

lemma winv_none: "winv S B w \<Longrightarrow> taskScheduler (taskAt w x) = None \<Longrightarrow> x \<notin> S s \<and> idle (entries w) x"
  using winv_sched [of S B w x s] by (simp add: winv_def)

lemma winv_disjoint: "winv S B w \<Longrightarrow> x \<in> S s \<Longrightarrow> x \<in> S s' \<Longrightarrow> s = s'"
  using winv_sched [of S B w x s] winv_sched [of S B w x s'] by simp

lemma winv_queued: "winv S B w \<Longrightarrow> isQueued x w \<longleftrightarrow> taskScheduler (taskAt w x) \<noteq> None"
proof (cases "taskScheduler (taskAt w x)")
  case None
  then show "winv S B w \<Longrightarrow> ?thesis" using winv_none [of S B w x] by (simp add: idle_def isQueued_def)
next
  case (Some s)
  moreover assume "winv S B w"
  ultimately have "x \<in> S s" "pq_holds (task_compareTo (taskAt w)) (entries w) (tq_heap (tqueue w s)) (S s)"
    using winv_sched winv_holds by blast+
  then show ?thesis using Some by (auto simp: pq_holds_def isQueued_def)
qed

text \<open>Changes that keep the tasks' data apart from a period, or the time of a task that is not queued.\<close>

lemma winv_tasks:
  assumes w: "winv S B w" and f: "\<forall>x. taskScheduler (f x) = taskScheduler (taskAt w x) \<and> refs (f x) = refs (taskAt w x)"
    "\<forall>x s. x \<in> S s \<longrightarrow> nextExecutionTime (f x) = nextExecutionTime (taskAt w x)"
  shows "winv S B (w\<lparr>taskAt := f\<rparr>)"
proof -
  have "pq_holds (task_compareTo f) (entries w) q (S s)" if "pq_holds (task_compareTo (taskAt w)) (entries w) q (S s)" for q s
    by (rule pq_holds_cong [OF _ _ that]) (use f(2) in \<open>auto intro!: compareTo_cong\<close>)
  then show ?thesis using w f(1) by (simp add: winv_def)
qed

lemma winv_period: "winv S B w \<Longrightarrow> winv S B (setPeriod p x w)"
  unfolding setPeriod_def upd_task_def by (erule winv_tasks) simp_all

lemma winv_time: "winv S B w \<Longrightarrow> taskScheduler (taskAt w x) = None \<Longrightarrow> winv S B (setExecutionTime t x w)"
  unfolding setExecutionTime_def upd_task_def
  by (frule winv_tasks) (auto dest: winv_none)

text \<open>Replacing the heap of one queue, with task \<open>x\<close> entering or leaving it.\<close>

lemma winv_swap:
  assumes w: "winv S B w"
    and h: "pq_holds (task_compareTo (taskAt w)) h q T" "\<forall>y. y \<notin> S s \<union> {x} \<longrightarrow> h y = entries w y"
    and T: "S s - {x} = T - {x}" "\<And>s'. s' \<noteq> s \<Longrightarrow> x \<notin> S s'" "x \<notin> T \<Longrightarrow> idle h x"
    and t: "\<forall>y. nextExecutionTime (f y) = nextExecutionTime (taskAt w y)" "\<forall>y. y \<noteq> x \<longrightarrow> f y = taskAt w y"
      "taskScheduler (f x) = (if x \<in> T then Some s else None)" "refs (f x) = B' x + (if x \<in> T then 1 else 0)" "\<forall>y. y \<noteq> x \<longrightarrow> B' y = B y"
  shows "winv (S(s := T)) B' ((put_heap s q h w)\<lparr>taskAt := f\<rparr>)"
proof -
  let ?w = "(put_heap s q h w)\<lparr>taskAt := f\<rparr>"
  have c: "\<forall>a \<in> U. \<forall>b \<in> U. task_compareTo f a b = task_compareTo (taskAt w) a b" for U using t(1) by (intro compareTo_cong) simp
  have "pq_holds (task_compareTo f) h (tq_heap (tqueue ?w s')) ((S(s := T)) s')" for s'
  proof (cases "s' = s")
    case True
    then show ?thesis using pq_holds_cong [OF _ c h(1)] by (simp add: put_heap_def upd_queue_def)
  next
    case False
    then have "\<forall>y \<in> S s'. h y = entries w y" using h(2) T(2) winv_disjoint [OF w] by blast
    then show ?thesis using False pq_holds_cong [OF _ c winv_holds [OF w]] by (simp add: put_heap_def upd_queue_def)
  qed
  moreover have "taskScheduler (f y) = Some s' \<longleftrightarrow> y \<in> (S(s := T)) s'" for y s'
  proof (cases "y = x")
    case True
    then show ?thesis using t(3) T(2) by auto
  next
    case False
    moreover have "y \<in> T \<longleftrightarrow> y \<in> S s" using T(1) False by blast
    ultimately show ?thesis using t(2) w by (auto simp: winv_def)
  qed
  moreover have "idle h y" if "taskScheduler (f y) = None" for y
  proof (cases "y = x")
    case True
    then show ?thesis using T(3) t(3) that by (auto split: if_splits)
  next
    case False
    then have "taskScheduler (taskAt w y) = None" using t(2) that by simp
    then have "y \<notin> S s" "idle (entries w) y" using winv_none [OF w] by blast+
    then show ?thesis using h(2) False by (simp add: idle_def)
  qed
  moreover have "refs (f y) = B' y + (if taskScheduler (f y) = None then 0 else 1)" for y
    using t(2-5) w by (cases "y = x") (auto simp: winv_def)
  ultimately show ?thesis by (simp add: winv_def put_heap_def)
qed


subsection \<open>The operations keep the invariant\<close>

abbreviation peak_of :: "nat \<Rightarrow> world \<Rightarrow> addr option" where
  "peak_of s w \<equiv> pq_peak (tq_heap (tqueue w s))"

lemma compareTo_strict: "task_compareTo ts a b = 0 \<Longrightarrow> a = b"
  by (auto simp: task_compareTo_def Let_def split: if_splits)

lemma best_unique: "pq_best (task_compareTo ts) T a \<Longrightarrow> pq_best (task_compareTo ts) T b \<Longrightarrow> a = b"
  using task_order.cmp_flip [of ts a b] compareTo_strict [of ts a b] by (force simp: pq_best_def)

lemma holds_root:
  assumes "pq_holds (task_compareTo ts) h q T" "pq_best (task_compareTo ts) T b"
  shows "pq_peak q = Some b"
proof (cases "pq_peak q")
  case None
  then show ?thesis using task_order.holds_peak [OF assms(1)] assms(2) by (simp add: pq_best_def)
next
  case (Some y)
  then show ?thesis using task_order.holds_peak [OF assms(1)] best_unique [OF assms(2)] by simp
qed

lemma peak_best: "winv S B w \<Longrightarrow> peak_of s w = Some x \<longleftrightarrow> pq_best (task_compareTo (taskAt w)) (S s) x"
  using task_order.holds_peak [OF winv_holds, of S B w s] holds_root [OF winv_holds, of S B w s x] by auto

lemma peak_empty: "winv S B w \<Longrightarrow> peak_of s w = None \<longleftrightarrow> S s = {}"
  using task_order.holds_peak [OF winv_holds, of S B w s] by (auto split: option.splits simp: pq_best_def)

text \<open>The plan of a waiting scheduler: \<open>changePlan\<close> is set, or the first task and its time are the same.\<close>

definition plan_kept :: "world \<Rightarrow> world \<Rightarrow> bool" where
  "plan_kept w w' \<longleftrightarrow> (\<forall>s. waitingForTask (tqueue w' s) = waitingForTask (tqueue w s) \<and> blocked (tqueue w' s) = blocked (tqueue w s) \<and>
     (changePlan (tqueue w s) \<longrightarrow> changePlan (tqueue w' s)) \<and>
     (waitingForTask (tqueue w s) \<longrightarrow> changePlan (tqueue w' s) \<or>
        peak_of s w' = peak_of s w \<and> (\<forall>t. peak_of s w = Some t \<longrightarrow> nextExecutionTime (taskAt w' t) = nextExecutionTime (taskAt w t))))"

lemma plan_refl [simp]: "plan_kept w w"
  by (simp add: plan_kept_def)

lemma plan_trans: "plan_kept a b \<Longrightarrow> plan_kept b c \<Longrightarrow> plan_kept a c"
  unfolding plan_kept_def by metis

lemma plan_tasks:
  "(\<And>s t. peak_of s w = Some t \<Longrightarrow> nextExecutionTime (f t) = nextExecutionTime (taskAt w t)) \<Longrightarrow> plan_kept w (w\<lparr>taskAt := f\<rparr>)"
  by (simp add: plan_kept_def)

lemma plan_put:
  "\<forall>y. nextExecutionTime (f y) = nextExecutionTime (taskAt w y) \<Longrightarrow> (\<not> c \<Longrightarrow> pq_peak q = peak_of s w) \<Longrightarrow>
   plan_kept w (signal_plan c s ((put_heap s q h w)\<lparr>taskAt := f\<rparr>))"
  by (auto simp: plan_kept_def signal_plan_def put_heap_def upd_queue_def)

lemma winv_signal [simp]: "winv S B (signal_plan c s w) = winv S B w"
  by (auto simp: winv_def signal_plan_def upd_queue_def)

lemma signal_taskAt [simp]: "taskAt (signal_plan c s w) = taskAt w" "entries (signal_plan c s w) = entries w"
  by (simp_all add: signal_plan_def upd_queue_def)

lemma put_heap_taskAt [simp]: "taskAt (put_heap s q h w) = taskAt w"
  by (simp add: put_heap_def upd_queue_def)

lemma put_heap_tasks: "put_heap s q h (w\<lparr>taskAt := f\<rparr>) = (put_heap s q h w)\<lparr>taskAt := f\<rparr>"
  by (cases w) (simp add: put_heap_def upd_queue_def)

lemma remove_own_ok:
  assumes w: "winv S B w" and x: "x \<in> S s"
  shows "\<exists>w'. tq_remove_own s x w = ret True w' \<and> winv (S(s := S s - {x})) B w' \<and> plan_kept w w' \<and>
    taskAt w' = (taskAt w)(x := (taskAt w x)\<lparr>taskScheduler := None, refs := refs (taskAt w x) - 1\<rparr>)"
proof -
  let ?q = "tq_heap (tqueue w s)" and ?cmp = "task_compareTo (taskAt w)"
  let ?f = "(taskAt w)(x := (taskAt w x)\<lparr>taskScheduler := None, refs := refs (taskAt w x) - 1\<rparr>)"
  obtain q h where qh: "pq_remove ?cmp x ?q (entries w) = Some (Inr (True, q, h))" "pq_holds ?cmp h q (S s - {x})" "idle h x"
    "\<forall>y. y \<notin> S s \<longrightarrow> h y = entries w y" using task_order.remove_ok [OF winv_holds [OF w] x] by blast
  let ?w = "(put_heap s q h w)\<lparr>taskAt := ?f\<rparr>"
  have xs: "taskScheduler (taskAt w x) = Some s" using winv_sched [OF w] x by simp
  have "winv (S(s := S s - {x})) B ?w"
  proof (rule winv_swap [OF w qh(2), where x = x])
    show "x \<notin> S s'" if "s' \<noteq> s" for s' using that winv_disjoint [OF w x, of s'] by blast
    show "refs (?f x) = B x + (if x \<in> S s - {x} then 1 else 0)" using winv_refs [OF w, of x] xs by simp
  qed (use qh(3,4) in auto)
  moreover have "plan_kept w (signal_plan (pq_peak ?q = Some x) s ?w)"
  proof (rule plan_put)
    assume ne: "pq_peak ?q \<noteq> Some x"
    then obtain b where b: "pq_peak ?q = Some b" "b \<noteq> x" using peak_empty [OF w, of s] x by (cases "pq_peak ?q") auto
    then have "pq_best ?cmp (S s - {x}) b" using peak_best [OF w, of s b] by (auto simp: pq_best_def)
    then show "pq_peak q = pq_peak ?q" using holds_root [OF qh(2)] b by simp
  qed auto
  moreover have "tq_remove_own s x w = ret True (signal_plan (pq_peak ?q = Some x) s ?w)"
    using qh(1) by (simp add: tq_remove_own_def release_def clearTaskScheduler_def upd_task_def put_heap_def upd_queue_def)
  ultimately show ?thesis by (intro exI [of _ "signal_plan (pq_peak ?q = Some x) s ?w"]) simp
qed


abbreviation without :: "addr \<Rightarrow> (nat \<Rightarrow> addr set) \<Rightarrow> nat \<Rightarrow> addr set" where
  "without x S \<equiv> (\<lambda>s. S s - {x})"

lemma without_one: "winv S B w \<Longrightarrow> x \<in> S s \<Longrightarrow> S(s := S s - {x}) = without x S"
proof (rule ext)
  fix s' assume w: "winv S B w" "x \<in> S s"
  show "(S(s := S s - {x})) s' = S s' - {x}" using winv_disjoint [OF w, of s'] by (cases "s' = s") auto
qed

lemma without_none: "winv S B w \<Longrightarrow> taskScheduler (taskAt w x) = None \<Longrightarrow> without x S = S"
  using winv_none [of S B w x] by (auto simp: fun_eq_iff)

definition times_kept :: "world \<Rightarrow> world \<Rightarrow> bool" where
  "times_kept w w' \<longleftrightarrow> (\<forall>y. nextExecutionTime (taskAt w' y) = nextExecutionTime (taskAt w y))"

lemma plan_period: "plan_kept w (setPeriod p x w)"
  unfolding setPeriod_def upd_task_def by (rule plan_tasks) simp

lemma cancel_ok:
  assumes w: "winv S B w"
  shows "\<exists>w'. tm_cancelTask x w = ret (taskScheduler (taskAt w x) \<noteq> None) w' \<and> winv (without x S) B w' \<and> plan_kept w w' \<and>
    taskScheduler (taskAt w' x) = None \<and> times_kept w w'"
proof (cases "taskScheduler (taskAt w x)")
  case None
  then show ?thesis using w without_none [OF w None] by (simp add: tm_cancelTask_def times_kept_def)
next
  case (Some s)
  let ?w = "setPeriod 0 x w"
  have x: "x \<in> S s" using Some winv_sched [OF w] by simp
  have w1: "winv S B ?w" by (rule winv_period [OF w])
  have "isQueued x ?w" using winv_queued [OF w1, of x] Some by (simp add: setPeriod_def upd_task_def)
  moreover obtain w' where "tq_remove_own s x ?w = ret True w'" "winv (without x S) B w'" "plan_kept ?w w'"
    "taskScheduler (taskAt w' x) = None" "times_kept w w'"
    using remove_own_ok [OF w1 x] without_one [OF w x] by (auto simp: times_kept_def setPeriod_def upd_task_def)
  ultimately show ?thesis using Some plan_trans [OF plan_period] by (auto simp: tm_cancelTask_def Let_def)
qed

lemma tq_remove_ok:
  assumes w: "winv S B w"
  shows "\<exists>w'. tq_remove s x w = ret (taskScheduler (taskAt w x) \<noteq> None) w' \<and> winv (without x S) B w' \<and> plan_kept w w' \<and>
    taskScheduler (taskAt w' x) = None \<and> times_kept w w'"
proof (cases "taskScheduler (taskAt w x)")
  case None
  then show ?thesis using w without_none [OF w None] winv_queued [OF w, of x] by (simp add: tq_remove_def times_kept_def)
next
  case (Some s')
  have x: "x \<in> S s'" using Some winv_sched [OF w, of x s'] by simp
  have q: "isQueued x w" using Some winv_queued [OF w, of x] by simp
  show ?thesis
  proof (cases "s' = s")
    case True
    then show ?thesis using remove_own_ok [OF w x] without_one [OF w x] Some q by (auto simp: tq_remove_def times_kept_def)
  next
    case False
    then show ?thesis using cancel_ok [OF w, of x] Some q by (auto simp: tq_remove_def)
  qed
qed

text \<open>The first step of the three \<open>add\<close>s: a queued task leaves its queue.\<close>

lemma unqueue_ok:
  assumes "winv S B w"
  shows "\<exists>b w'. (if isQueued x w then tq_remove s x w else ret False w) = ret b w' \<and> winv (without x S) B w' \<and> plan_kept w w' \<and>
    taskScheduler (taskAt w' x) = None \<and> times_kept w w'"
  using tq_remove_ok [OF assms, of s x] winv_queued [OF assms, of x] without_none [OF assms, of x] assms by (auto simp: times_kept_def split: if_splits)

lemma add_free_ok:
  assumes w: "winv S B w" and x: "taskScheduler (taskAt w x) = None" and b: "\<not> blocked (tqueue w s)"
  shows "\<exists>w'. tq_add s x w = ret True w' \<and> winv (S(s := insert x (S s))) B w' \<and> plan_kept w w' \<and> times_kept w w'"
proof -
  let ?q = "tq_heap (tqueue w s)" and ?cmp = "task_compareTo (taskAt w)"
  let ?f = "(taskAt w)(x := (taskAt w x)\<lparr>refs := refs (taskAt w x) + 1, taskScheduler := Some s\<rparr>)"
  have nx: "x \<notin> S s'" "idle (entries w) x" for s' using winv_none [OF w x] by blast+
  have cmp: "task_compareTo ?f = ?cmp" by (auto simp: task_compareTo_def fun_eq_iff)
  obtain q h where qh: "pq_add ?cmp x ?q (entries w) = Some (Inr (q, h))" "pq_holds ?cmp h q (insert x (S s))"
    "\<forall>y. y \<notin> insert x (S s) \<longrightarrow> h y = entries w y" using task_order.add_ok [OF winv_holds [OF w] nx] by blast
  let ?w = "(put_heap s q h w)\<lparr>taskAt := ?f\<rparr>"
  have "winv (S(s := insert x (S s))) B ?w"
    by (rule winv_swap [OF w qh(2), where x = x]) (use qh(3) nx winv_refs [OF w, of x] x in auto)
  moreover have "plan_kept w (signal_plan (pq_peak q = Some x) s ?w)"
  proof (rule plan_put)
    assume "pq_peak q \<noteq> Some x"
    then obtain b where b: "pq_peak q = Some b" "b \<noteq> x" "pq_best ?cmp (insert x (S s)) b"
      using task_order.holds_peak [OF qh(2)] by (cases "pq_peak q") auto
    then have "pq_best ?cmp (S s) b" by (auto simp: pq_best_def)
    then show "pq_peak q = pq_peak ?q" using holds_root [OF winv_holds [OF w]] b(1) by simp
  qed auto
  moreover have "tq_add s x w = ret True (signal_plan (pq_peak q = Some x) s ?w)"
    using b x nx(2) qh(1) cmp by (simp add: tq_add_def isQueued_def idle_def acquire_def upd_task_def Let_def put_heap_tasks)
  ultimately show ?thesis by (intro exI [of _ "signal_plan (pq_peak q = Some x) s ?w"]) (simp add: times_kept_def)
qed

lemma plan_unqueued_time:
  assumes "winv S B w" "taskScheduler (taskAt w x) = None"
  shows "plan_kept w (setExecutionTime t x w)"
  unfolding setExecutionTime_def upd_task_def
  by (rule plan_tasks) (use peak_best [OF assms(1)] winv_none [OF assms] in \<open>auto simp: pq_best_def\<close>)

lemma setTime_sched [simp]: "taskScheduler (taskAt (setExecutionTime t x w) y) = taskScheduler (taskAt w y)"
    "blocked (tqueue (setExecutionTime t x w) s) = blocked (tqueue w s)"
  by (simp_all add: setExecutionTime_def upd_task_def)

text \<open>Queueing with a new execution time \<open>t\<close> (\<open>None\<close>: the old one).\<close>

definition add_at :: "nat \<Rightarrow> addr \<Rightarrow> time option \<Rightarrow> world \<Rightarrow> bool run" where
  "add_at s x t w =
     wbind (if isQueued x w then tq_remove s x w else ret False w) (\<lambda>_ w.
       tq_add s x (case t of None \<Rightarrow> w | Some t \<Rightarrow> setExecutionTime t x w))"

lemma add_at_simps:
  "tq_add_time s x t w = add_at s x (Some t) w"
  "tq_add_delay now s x d w = add_at s x (if d \<noteq> 0 then Some (addMiliTime d now) else None) w"
  by (simp_all add: tq_add_time_def tq_add_delay_def add_at_def updateExecutionTime_def)

lemma add_at_ok:
  assumes w: "winv S B w"
  shows "\<exists>w'. add_at s x t w = ret (\<not> blocked (tqueue w s)) w' \<and> plan_kept w w' \<and>
    winv (if blocked (tqueue w s) then without x S else (without x S)(s := insert x (S s))) B w' \<and>
    (\<forall>y. nextExecutionTime (taskAt w' y) = (case t of Some u \<Rightarrow> if y = x then u else nextExecutionTime (taskAt w y) | None \<Rightarrow> nextExecutionTime (taskAt w y)))"
proof -
  obtain b w1 where w1: "(if isQueued x w then tq_remove s x w else ret False w) = ret b w1" "winv (without x S) B w1" "plan_kept w w1"
    "taskScheduler (taskAt w1 x) = None" "times_kept w w1" using unqueue_ok [OF w] by blast
  define w2 where "w2 = (case t of None \<Rightarrow> w1 | Some t \<Rightarrow> setExecutionTime t x w1)"
  have w2: "winv (without x S) B w2" "plan_kept w w2" "taskScheduler (taskAt w2 x) = None"
    using w1(2-4) winv_time [OF w1(2,4)] plan_trans [OF w1(3) plan_unqueued_time [OF w1(2,4)]]
    by (auto simp: w2_def split: option.split)
  have t2: "nextExecutionTime (taskAt w2 y) = (case t of Some u \<Rightarrow> if y = x then u else nextExecutionTime (taskAt w y) | None \<Rightarrow> nextExecutionTime (taskAt w y))" for y
    using w1(5) by (auto simp: w2_def times_kept_def setExecutionTime_def upd_task_def split: option.split)
  have bl: "blocked (tqueue w2 s) = blocked (tqueue w s)" using w2(2) by (simp add: plan_kept_def)
  have run: "add_at s x t w = tq_add s x w2" using w1(1) by (simp add: add_at_def w2_def)
  show ?thesis
  proof (cases "blocked (tqueue w s)")
    case True
    then show ?thesis using run bl w2 t2 by (simp add: tq_add_def)
  next
    case False
    then obtain w' where w': "tq_add s x w2 = ret True w'" "winv ((without x S)(s := insert x (S s))) B w'" "plan_kept w2 w'" "times_kept w2 w'"
      using add_free_ok [OF w2(1,3), of s] bl by auto
    then show ?thesis using run False plan_trans [OF w2(2) w'(3)] t2 by (simp add: times_kept_def)
  qed
qed

lemma add_at_run: "winv S B w \<Longrightarrow> \<exists>b w' S'. add_at s x t w = ret b w' \<and> winv S' B w' \<and> plan_kept w w'"
  using add_at_ok by blast

subsection \<open>Scheduler threads\<close>

text \<open>One step of the thread of scheduler \<open>s\<close>: into \<open>get\<close>, or out of the wait it is in.\<close>

definition get_next :: "(int \<Rightarrow> 64 word) \<Rightarrow> time \<Rightarrow> time \<Rightarrow> nat \<Rightarrow> pc \<Rightarrow> world \<Rightarrow> pc run" where
  "get_next mili now now' s pc w =
     (case pc of Returned _ \<Rightarrow> get_start now s w | Waiting \<Rightarrow> get_plan now s w | TimedWaiting x t \<Rightarrow> get_resume mili now now' s x t w)"

text \<open>The threads of all schedulers, with other threads adding, cancelling and flushing in between.\<close>

inductive sched_reach :: "(int \<Rightarrow> 64 word) \<Rightarrow> (nat \<Rightarrow> pc) \<Rightarrow> world \<Rightarrow> bool" for mili where
  init: "(\<forall>x. idle (entries w) x \<and> taskScheduler (taskAt w x) = None) \<Longrightarrow> (\<forall>s. tqueue w s = tq_new) \<Longrightarrow>
     sched_reach mili (\<lambda>_. Returned None) w"
| add_time: "sched_reach mili pcs w \<Longrightarrow> tq_add_time s x t w = ret b w' \<Longrightarrow> sched_reach mili pcs w'"
| add_delay: "sched_reach mili pcs w \<Longrightarrow> tq_add_delay now s x d w = ret b w' \<Longrightarrow> sched_reach mili pcs w'"
| cancel: "sched_reach mili pcs w \<Longrightarrow> tm_cancelTask x w = ret b w' \<Longrightarrow> sched_reach mili pcs w'"
| remove: "sched_reach mili pcs w \<Longrightarrow> tq_remove s x w = ret b w' \<Longrightarrow> sched_reach mili pcs w'"
| set_period: "sched_reach mili pcs w \<Longrightarrow> sched_reach mili pcs (setPeriod p x w)"
| flush: "sched_reach mili pcs w \<Longrightarrow> sched_reach mili pcs (tq_flush s w)"
| wake: "sched_reach mili pcs w \<Longrightarrow> sched_reach mili pcs (tq_wake s w)"
| hold: "sched_reach mili pcs w \<Longrightarrow> sched_reach mili pcs (acquire x w)"
| drop: "sched_reach mili pcs w \<Longrightarrow> sched_reach mili pcs (release x w)"
| thread: "sched_reach mili pcs w \<Longrightarrow> get_next mili now now' s (pcs s) w = ret pc w' \<Longrightarrow> sched_reach mili (pcs(s := pc)) w'"

definition planned :: "nat \<Rightarrow> pc \<Rightarrow> world \<Rightarrow> bool" where
  "planned s pc w \<longleftrightarrow>
     (case pc of Returned _ \<Rightarrow> True | Waiting \<Rightarrow> waitingForTask (tqueue w s)
      | TimedWaiting x t \<Rightarrow> waitingForTask (tqueue w s) \<and>
          (changePlan (tqueue w s) \<or> peak_of s w = Some x \<and> nextExecutionTime (taskAt w x) = t))"

lemma planned_kept: "plan_kept w w' \<Longrightarrow> planned s pc w \<Longrightarrow> planned s pc w'"
  by (auto simp: planned_def plan_kept_def split: pc.splits)

definition others_kept :: "nat \<Rightarrow> world \<Rightarrow> world \<Rightarrow> bool" where
  "others_kept s w w' \<longleftrightarrow> (\<forall>s'. s' \<noteq> s \<longrightarrow> tqueue w' s' = tqueue w s') \<and> (\<forall>x. nextExecutionTime (taskAt w' x) = nextExecutionTime (taskAt w x))"

lemma others_planned: "others_kept s w w' \<Longrightarrow> s' \<noteq> s \<Longrightarrow> planned s' pc w \<Longrightarrow> planned s' pc w'"
  by (auto simp: planned_def others_kept_def split: pc.splits)

text \<open>What holds when \<open>get\<close> returns task \<open>x\<close>.\<close>

definition taken :: "nat \<Rightarrow> addr \<Rightarrow> world \<Rightarrow> world \<Rightarrow> bool" where
  "taken s x w w' \<longleftrightarrow> taskScheduler (taskAt w x) = Some s \<and> taskScheduler (taskAt w' x) = None \<and> \<not> isQueued x w' \<and>
     (\<forall>y. taskScheduler (taskAt w y) = Some s \<longrightarrow> 0 \<le> task_compareTo (taskAt w) x y) \<and> refs (taskAt w' x) = refs (taskAt w x)"

definition get_ok :: "nat \<Rightarrow> world \<Rightarrow> pc run \<Rightarrow> (addr \<Rightarrow> bool) \<Rightarrow> bool" where
  "get_ok s w r in_time \<longleftrightarrow> (\<exists>pc w' S B. r = ret pc w' \<and> winv S B w' \<and> planned s pc w' \<and> others_kept s w w' \<and>
     (\<forall>x. pc = Returned (Some x) \<longrightarrow> taken s x w w' \<and> (\<not> blocked (tqueue w s) \<longrightarrow> in_time x)))"

lemma winv_flags:
  "(\<And>s. tq_heap (f s) = tq_heap (tqueue w s)) \<Longrightarrow> winv S B (w\<lparr>tqueue := f\<rparr>) = winv S B w"
  by (simp add: winv_def)

lemma get_take_ok:
  assumes w: "winv S B w" and p: "peak_of s w = Some x" and t: "in_time x"
  shows "get_ok s w (get_take s w) in_time"
proof -
  let ?q = "tq_heap (tqueue w s)" and ?cmp = "task_compareTo (taskAt w)"
  let ?f = "(taskAt w)(x := (taskAt w x)\<lparr>taskScheduler := None\<rparr>)" and ?B = "B(x := B x + 1)"
  have best: "pq_best ?cmp (S s) x" using peak_best [OF w] p by simp
  then have x: "x \<in> S s" "taskScheduler (taskAt w x) = Some s" using winv_sched [OF w, of x s] by (auto simp: pq_best_def)
  obtain q h where qh: "pq_poll ?cmp ?q (entries w) = Some (Inr (Some x, q, h))" "pq_holds ?cmp h q (S s - {x})" "idle h x"
    "\<forall>y. y \<notin> S s \<longrightarrow> h y = entries w y" using task_order.poll_ok [OF winv_holds [OF w], of s x] p by (auto simp: pq_peak_def)
  let ?w = "(put_heap s q h w)\<lparr>taskAt := ?f\<rparr>"
  let ?w' = "upd_queue s (\<lambda>tq. tq\<lparr>waitingForTask := False\<rparr>) ?w"
  have "winv (S(s := S s - {x})) ?B ?w"
  proof (rule winv_swap [OF w qh(2), where x = x])
    show "x \<notin> S s'" if "s' \<noteq> s" for s' using that winv_disjoint [OF w x(1), of s'] by blast
    show "refs (?f x) = ?B x + (if x \<in> S s - {x} then 1 else 0)" using winv_refs [OF w, of x] x(2) by simp
  qed (use qh(3,4) in auto)
  then have "winv (S(s := S s - {x})) ?B ?w'" unfolding upd_queue_def by (subst winv_flags) auto
  moreover have "get_take s w = ret (Returned (Some x)) ?w'"
    using qh(1) by (simp add: get_take_def clearTaskScheduler_def upd_task_def)
  moreover have "taken s x w ?w'"
    using best x(2) qh(3) winv_sched [OF w] by (auto simp: taken_def upd_queue_def put_heap_def isQueued_def idle_def pq_best_def)
  moreover have "others_kept s w ?w'" by (auto simp: others_kept_def upd_queue_def put_heap_def)
  ultimately show ?thesis using t unfolding get_ok_def by (intro exI) (auto simp: planned_def)
qed

lemma get_ok_stay: "winv S B w \<Longrightarrow> planned s pc w \<Longrightarrow> (\<And>x. pc \<noteq> Returned (Some x)) \<Longrightarrow> get_ok s w (ret pc w) in_time"
  unfolding get_ok_def by (intro exI) (auto simp: others_kept_def)

lemma get_ok_flags:
  assumes "get_ok s (w\<lparr>tqueue := (tqueue w)(s := tq)\<rparr>) r in_time" "blocked tq = blocked (tqueue w s)"
  shows "get_ok s w r in_time"
  using assms unfolding get_ok_def by (fastforce simp: others_kept_def taken_def)

lemma get_plan_ok:
  assumes w: "winv S B w" and wt: "waitingForTask (tqueue w s)"
    and t: "\<And>x. \<not> isFuture now (nextExecutionTime (taskAt w x)) \<or> blocked (tqueue w s) \<Longrightarrow> in_time x"
  shows "get_ok s w (get_plan now s w) in_time"
proof (cases "peak_of s w")
  case None
  then show ?thesis using get_ok_stay [OF w, of s "Returned None"] by (simp add: get_plan_def planned_def)
next
  case (Some x)
  show ?thesis
  proof (cases "blocked (tqueue w s) \<or> \<not> isFuture now (nextExecutionTime (taskAt w x))")
    case True
    then show ?thesis using get_take_ok [OF w Some] t Some by (auto simp: get_plan_def)
  next
    case False
    then show ?thesis
      using get_ok_stay [OF w, of s "TimedWaiting x (nextExecutionTime (taskAt w x))"] Some wt by (auto simp: get_plan_def planned_def)
  qed
qed

lemma get_loop_ok:
  assumes w: "winv S B w" and wt: "waitingForTask (tqueue w s)"
    and t: "\<And>x. \<not> isFuture now (nextExecutionTime (taskAt w x)) \<or> blocked (tqueue w s) \<Longrightarrow> in_time x"
  shows "get_ok s w (get_loop now s w) in_time"
proof (cases "pq_isEmpty (tq_heap (tqueue w s))")
  case True
  then show ?thesis using get_ok_stay [OF w, of s "if blocked (tqueue w s) then Returned None else Waiting"] wt
    by (simp add: get_loop_def planned_def)
next
  case False
  then show ?thesis using get_plan_ok [OF assms] by (simp add: get_loop_def)
qed

lemma get_next_ok:
  assumes w: "winv S B w" and p: "planned s pc w"
  shows "get_ok s w (get_next mili now now' s pc w)
    (\<lambda>x. blocked (tqueue w s) \<or> \<not> isFuture now (nextExecutionTime (taskAt w x)) \<or> \<not> isFuture now' (nextExecutionTime (taskAt w x)) \<or>
       sint (getMiliTime mili (nextExecutionTime (taskAt w x)) - getMiliTime mili now) \<le> 10)" (is "get_ok s w _ ?t")
proof (cases pc)
  case (Returned r)
  let ?w = "upd_queue s (\<lambda>tq. tq\<lparr>waitingForTask := True\<rparr>) w"
  have "winv S B ?w" unfolding upd_queue_def using w by (subst winv_flags) auto
  then have "get_ok s ?w (get_loop now s ?w) ?t" by (rule get_loop_ok) (auto simp: upd_queue_def)
  then show ?thesis using Returned get_ok_flags [of s w] by (simp add: get_next_def get_start_def upd_queue_def)
next
  case Waiting
  then show ?thesis using get_plan_ok [OF w, of s now ?t] p by (simp add: get_next_def planned_def)
next
  case (TimedWaiting x t)
  show ?thesis
  proof (cases "changePlan (tqueue w s)")
    case True
    let ?w = "upd_queue s (\<lambda>tq. tq\<lparr>changePlan := False\<rparr>) w"
    have "winv S B ?w" unfolding upd_queue_def using w by (subst winv_flags) auto
    then have "get_ok s ?w (get_loop now' s ?w) ?t"
      by (rule get_loop_ok) (use p TimedWaiting in \<open>auto simp: upd_queue_def planned_def\<close>)
    then show ?thesis using True TimedWaiting get_ok_flags [of s w] by (simp add: get_next_def get_resume_def upd_queue_def)
  next
    case False
    then have pk: "peak_of s w = Some x" "nextExecutionTime (taskAt w x) = t" using p TimedWaiting by (auto simp: planned_def)
    show ?thesis
    proof (cases "time_compareTo t now < 0 \<and> sint (- (getMiliTime mili now - getMiliTime mili t)) > 10")
      case True
      then show ?thesis using False TimedWaiting pk get_ok_stay [OF w, of s "Returned None"]
        by (simp add: get_next_def get_resume_def planned_def)
    next
      case late: False
      then have "get_ok s w (get_take s w) ?t" by (intro get_take_ok [OF w pk(1)]) (auto simp: pk(2) isFuture_def)
      moreover have "get_next mili now now' s pc w = get_take s w" using False late TimedWaiting pk by (auto simp: get_next_def get_resume_def)
      ultimately show ?thesis by simp
    qed
  qed
qed

definition threads_ok :: "(nat \<Rightarrow> pc) \<Rightarrow> world \<Rightarrow> bool" where
  "threads_ok pcs w \<longleftrightarrow> (\<exists>S B. winv S B w \<and> (\<forall>s. planned s (pcs s) w))"

lemma threads_kept:
  assumes "threads_ok pcs w" "\<And>S B. winv S B w \<Longrightarrow> \<exists>S' B'. winv S' B' w'" "plan_kept w w'"
  shows "threads_ok pcs w'"
  using assms planned_kept unfolding threads_ok_def by blast

lemma threads_run:
  assumes "threads_ok pcs w" "r = ret b w'" "\<And>S B. winv S B w \<Longrightarrow> \<exists>b' w'' S'. r = ret b' w'' \<and> winv S' B w'' \<and> plan_kept w w''"
  shows "threads_ok pcs w'"
proof -
  obtain S B where w: "winv S B w" "\<forall>s. planned s (pcs s) w" using assms(1) by (auto simp: threads_ok_def)
  obtain S' where "winv S' B w'" "plan_kept w w'" using assms(2) assms(3) [OF w(1)] by auto
  then show ?thesis using w(2) planned_kept unfolding threads_ok_def by blast
qed

lemma threads_refs:
  assumes "threads_ok pcs w"
  shows "threads_ok pcs (upd_task x (\<lambda>t. t\<lparr>refs := refs t + k\<rparr>) w)"
proof (rule threads_kept [OF assms])
  show "\<exists>S' B'. winv S' B' (upd_task x (\<lambda>t. t\<lparr>refs := refs t + k\<rparr>) w)" if w: "winv S B w" for S B
  proof -
    let ?f = "(taskAt w)(x := (taskAt w x)\<lparr>refs := refs (taskAt w x) + k\<rparr>)"
    have "task_compareTo ?f = task_compareTo (taskAt w)" by (auto simp: task_compareTo_def fun_eq_iff)
    then have "winv S (B(x := B x + k)) (w\<lparr>taskAt := ?f\<rparr>)"
      unfolding winv_def using winv_holds [OF w] winv_sched [OF w] winv_none [OF w] winv_refs [OF w] by (intro conjI allI) auto
    then show ?thesis by (auto simp: upd_task_def)
  qed
  show "plan_kept w (upd_task x (\<lambda>t. t\<lparr>refs := refs t + k\<rparr>) w)" unfolding upd_task_def by (rule plan_tasks) simp
qed

lemma threads_flags:
  assumes "threads_ok pcs w" "\<And>tq. tq_heap (f tq) = tq_heap tq \<and> waitingForTask (f tq) = waitingForTask tq \<and> changePlan (f tq) = changePlan tq"
  shows "threads_ok pcs (upd_queue s f w)"
proof -
  obtain S B where w: "winv S B w" "\<forall>s. planned s (pcs s) w" using assms(1) by (auto simp: threads_ok_def)
  have "winv S B (upd_queue s f w)" unfolding upd_queue_def using w(1) assms(2) by (subst winv_flags) auto
  moreover have "planned s' (pcs s') (upd_queue s f w)" for s'
    using w(2) assms(2) by (auto simp: planned_def upd_queue_def split: pc.splits)
  ultimately show ?thesis by (auto simp: threads_ok_def)
qed

lemma reach_inv: "sched_reach mili pcs w \<Longrightarrow> threads_ok pcs w"
proof (induction rule: sched_reach.induct)
  case (init w)
  have "winv (\<lambda>_. {}) (\<lambda>x. refs (taskAt w x)) w" using init pq_new_holds by (simp add: winv_def tq_new_def)
  then show ?case unfolding threads_ok_def by (auto simp: planned_def)
next
  case (add_time pcs w s x t b w')
  show ?case using add_time.hyps(2) unfolding add_at_simps by (rule threads_run [OF add_time.IH]) (rule add_at_run)
next
  case (add_delay pcs w now s x d b w')
  show ?case using add_delay.hyps(2) unfolding add_at_simps by (rule threads_run [OF add_delay.IH]) (rule add_at_run)
next
  case (cancel pcs w x b w')
  show ?case by (rule threads_run [OF cancel.IH cancel.hyps(2)]) (use cancel_ok [of _ _ w x] in blast)
next
  case (remove pcs w s x b w')
  show ?case by (rule threads_run [OF remove.IH remove.hyps(2)]) (use tq_remove_ok [of _ _ w s x] in blast)
next
  case (set_period pcs w p x)
  then show ?case using threads_kept [OF _ _ plan_period] winv_period by blast
next
  case (flush pcs w s)
  show ?case unfolding tq_flush_def by (rule threads_flags [OF flush.IH]) simp
next
  case (wake pcs w s)
  show ?case unfolding tq_wake_def by (rule threads_flags [OF wake.IH]) simp
next
  case (hold pcs w x)
  then show ?case using threads_refs [of pcs w x 1] by (simp add: acquire_def)
next
  case (drop pcs w x)
  then show ?case using threads_refs [of pcs w x "-1"] by (simp add: release_def)
next
  case (thread pcs w now now' s pc w')
  then obtain S B where w: "winv S B w" "\<forall>s. planned s (pcs s) w" by (auto simp: threads_ok_def)
  then have "get_ok s w (get_next mili now now' s (pcs s) w) (\<lambda>x. True)"
    using get_next_ok [of S B w s "pcs s" mili now now'] unfolding get_ok_def by blast
  then obtain S' B' where w': "winv S' B' w'" "planned s pc w'" "others_kept s w w'" using thread.hyps(2) by (auto simp: get_ok_def)
  have "planned s' ((pcs(s := pc)) s') w'" for s' using w'(2) w(2) others_planned [OF w'(3), of s'] by auto
  then show ?case using w'(1) unfolding threads_ok_def by blast
qed

subsection \<open>Properties\<close>

text \<open>
  C11. Scheduling, in every state that the scheduler threads and any number of other threads can reach
  by adding, cancelling and flushing, calls on different queues one after the other: a step of a scheduler thread always returns (no null task,
  no failed assertion, no endless merge). When it returns a task, the task was queued
  in this scheduler, no other task of the scheduler has an earlier execution time, the task
  is in no queue and has no scheduler afterwards, and the reference the queue held goes to the caller. Unless
  the queue was flushed, the task is due by the clock, or, when the wait ended early, early by at most 10 milliseconds in the 64-bit
  difference that the code takes, which is the true one for times below \<open>2 ^ 63\<close> milliseconds.
\<close>

theorem scheduler_takes_earliest:
  assumes "sched_reach mili pcs w"
  shows "\<exists>pc w'. get_next mili now now' s (pcs s) w = ret pc w' \<and>
    (\<forall>x. pc = Returned (Some x) \<longrightarrow>
       taskScheduler (taskAt w x) = Some s \<and>
       (\<forall>y. taskScheduler (taskAt w y) = Some s \<longrightarrow> 0 \<le> time_compareTo (nextExecutionTime (taskAt w x)) (nextExecutionTime (taskAt w y))) \<and>
       taskScheduler (taskAt w' x) = None \<and> \<not> isQueued x w' \<and> refs (taskAt w' x) = refs (taskAt w x) \<and>
       (blocked (tqueue w s) \<or> \<not> isFuture now (nextExecutionTime (taskAt w x)) \<or> \<not> isFuture now' (nextExecutionTime (taskAt w x)) \<or>
        sint (getMiliTime mili (nextExecutionTime (taskAt w x)) - getMiliTime mili now) \<le> 10 \<and>
        (uint (getMiliTime mili (nextExecutionTime (taskAt w x))) < 2 ^ 63 \<and> uint (getMiliTime mili now) < 2 ^ 63 \<longrightarrow>
           uint (getMiliTime mili (nextExecutionTime (taskAt w x))) - uint (getMiliTime mili now) \<le> 10)))"
proof -
  obtain S B where w: "winv S B w" "planned s (pcs s) w" using reach_inv [OF assms] by (auto simp: threads_ok_def)
  obtain pc w' where "get_next mili now now' s (pcs s) w = ret pc w'"
    "\<forall>x. pc = Returned (Some x) \<longrightarrow> taken s x w w' \<and> (blocked (tqueue w s) \<or> \<not> isFuture now (nextExecutionTime (taskAt w x)) \<or>
      \<not> isFuture now' (nextExecutionTime (taskAt w x)) \<or> sint (getMiliTime mili (nextExecutionTime (taskAt w x)) - getMiliTime mili now) \<le> 10)"
    using get_next_ok [OF w, of mili now now'] unfolding get_ok_def by blast
  moreover have "0 \<le> time_compareTo (nextExecutionTime (taskAt w x)) (nextExecutionTime (taskAt w y))" if "0 \<le> task_compareTo (taskAt w) x y" for x y
    using that by (auto simp: task_compareTo_def Let_def time_compareTo_def split: if_splits)
  moreover note mili_difference_exact
  ultimately show ?thesis unfolding taken_def by metis
qed

text \<open>
  Adding and cancelling, in every reachable state: adding a task at time \<open>t\<close> to a scheduler returns
  whether the scheduler still takes tasks, moves the task from whatever scheduler it was in to this one (or
  to none) with the new time; cancelling takes it out of the scheduler it is in and returns
  whether it was in one. No other task changes its scheduler or its time.
\<close>

lemma scheduling_moves_one_task:
  assumes "sched_reach mili pcs w"
  shows "(\<exists>w'. tq_add_time s x t w = ret (\<not> blocked (tqueue w s)) w' \<and> nextExecutionTime (taskAt w' x) = t \<and>
      taskScheduler (taskAt w' x) = (if blocked (tqueue w s) then None else Some s) \<and>
      (\<forall>y. y \<noteq> x \<longrightarrow> taskScheduler (taskAt w' y) = taskScheduler (taskAt w y) \<and> nextExecutionTime (taskAt w' y) = nextExecutionTime (taskAt w y))) \<and>
    (\<exists>w'. tm_cancelTask x w = ret (taskScheduler (taskAt w x) \<noteq> None) w' \<and> taskScheduler (taskAt w' x) = None \<and>
      (\<forall>y. y \<noteq> x \<longrightarrow> taskScheduler (taskAt w' y) = taskScheduler (taskAt w y)) \<and>
      (\<forall>y. nextExecutionTime (taskAt w' y) = nextExecutionTime (taskAt w y)))"
proof -
  obtain S B where w: "winv S B w" using reach_inv [OF assms] by (auto simp: threads_ok_def)
  have others: "taskScheduler (taskAt w' y) = taskScheduler (taskAt w y)" if "winv S' B' w'" "\<And>s. y \<in> S' s \<longleftrightarrow> y \<in> S s" for S' B' w' y
    using winv_sched [OF w, of y] winv_sched [OF that(1), of y] that(2) by (metis option.exhaust)
  obtain w1 where w1: "tq_add_time s x t w = ret (\<not> blocked (tqueue w s)) w1"
      "winv (if blocked (tqueue w s) then without x S else (without x S)(s := insert x (S s))) B w1" (is "winv ?S B w1")
      "\<forall>y. nextExecutionTime (taskAt w1 y) = (if y = x then t else nextExecutionTime (taskAt w y))"
    using add_at_ok [OF w, of s x "Some t"] by (auto simp: add_at_simps)
  have "taskScheduler (taskAt w1 x) = (if blocked (tqueue w s) then None else Some s)"
  proof (cases "blocked (tqueue w s)")
    case True
    then show ?thesis using winv_sched [OF w1(2), of x] by (cases "taskScheduler (taskAt w1 x)") auto
  next
    case False
    then show ?thesis using winv_sched [OF w1(2), of x s] by simp
  qed
  moreover have "taskScheduler (taskAt w1 y) = taskScheduler (taskAt w y)" if "y \<noteq> x" for y
    by (rule others [OF w1(2)]) (use that in auto)
  moreover obtain w2 where w2: "tm_cancelTask x w = ret (taskScheduler (taskAt w x) \<noteq> None) w2" "winv (without x S) B w2"
      "taskScheduler (taskAt w2 x) = None" "times_kept w w2" using cancel_ok [OF w] by blast
  moreover have "taskScheduler (taskAt w2 y) = taskScheduler (taskAt w y)" if "y \<noteq> x" for y
    by (rule others [OF w2(2)]) (use that in auto)
  ultimately show ?thesis using w1(1,3) by (auto simp: times_kept_def)
qed

text \<open>
  \<open>addSchedulerTasks\<close> loses the tasks it is meant to move: a polled task still names its old scheduler,
  so \<open>add\<close> leaves it out. The own queue stays as it is and the other queue ends empty.
\<close>

lemma addSchedulerTasks_loses:
  assumes "pq_holds (task_compareTo (taskAt w)) (entries w) (tq_heap (tqueue w other)) T" "\<forall>x \<in> T. taskScheduler (taskAt w x) \<noteq> None"
    "s \<noteq> other" "\<not> blocked (tqueue w s)"
  shows "\<exists>w'. addSchedulerTasks s other w = ret () w' \<and> tqueue w' s = tqueue w s \<and> taskAt w' = taskAt w \<and> peak_of other w' = None"
  using assms
proof (induction "card T" arbitrary: w T rule: less_induct)
  case less
  let ?cmp = "task_compareTo (taskAt w)" and ?q = "tq_heap (tqueue w other)"
  have fin: "finite T" using less.prems(1) by (auto simp: pq_holds_def)
  show ?case
  proof (cases "pq_root ?q")
    case None
    then show ?thesis by (subst addSchedulerTasks.simps) (simp add: pq_poll_def pq_peak_def)
  next
    case (Some x)
    then have x: "x \<in> T" using task_order.holds_peak [OF less.prems(1)] by (simp add: pq_peak_def pq_best_def)
    obtain q h where qh: "pq_poll ?cmp ?q (entries w) = Some (Inr (Some x, q, h))" "pq_holds ?cmp h q (T - {x})" "idle h x"
      using task_order.poll_ok [OF less.prems(1) Some] by blast
    let ?w = "put_heap other q h w"
    have same: "upd_task x (\<lambda>t. t\<lparr>refs := refs t - 1\<rparr>) (upd_task x (\<lambda>t. t\<lparr>refs := refs t + 1\<rparr>) v) = v" for v
      by (cases v) (simp add: upd_task_def)
    have add: "tq_add s x ?w = ret True ?w"
      using less.prems(2-4) x qh(3) same by (auto simp: tq_add_def put_heap_def upd_queue_def isQueued_def idle_def acquire_def release_def upd_task_def)
    have "\<exists>w'. addSchedulerTasks s other ?w = ret () w' \<and> tqueue w' s = tqueue ?w s \<and> taskAt w' = taskAt ?w \<and> peak_of other w' = None"
    proof (rule less.hyps)
      show "card (T - {x}) < card T" using fin x by (metis card_Diff1_less)
      show "pq_holds (task_compareTo (taskAt ?w)) (entries ?w) (tq_heap (tqueue ?w other)) (T - {x})"
        using qh(2) by (simp add: put_heap_def upd_queue_def)
    qed (use less.prems(2-4) in \<open>auto simp: put_heap_def upd_queue_def\<close>)
    moreover have "addSchedulerTasks s other w = addSchedulerTasks s other ?w"
      using qh(1) add by (subst addSchedulerTasks.simps) (simp add: ret_def)
    ultimately show ?thesis using less.prems(3) by (simp add: put_heap_def upd_queue_def)
  qed
qed

subsection \<open>Instances\<close>

definition demo_world :: world where
  "demo_world = \<lparr>entries = (\<lambda>_. pq_entry None None None 0),
     taskAt = (\<lambda>_. \<lparr>taskScheduler = None, nextExecutionTime = \<lparr>tv_sec = 0, tv_nsec = 0\<rparr>, period = 0, refs = 1\<rparr>),
     tqueue = (\<lambda>_. tq_new), schedulers = [0], ioSchedulers = [], currentTaskScheduler = 0, shuttingDown = False\<rparr>"

lemma demo_reach: "sched_reach (\<lambda>n. word_of_int (n div 1000000)) (\<lambda>_. Returned None) demo_world"
  by (rule sched_reach.init) (simp_all add: demo_world_def idle_def pq_entry_def)

text \<open>Task 3 is added for second 5 and taken at second 6.\<close>

definition demo_added :: world where
  "demo_added = put_heap 0 (pq_new\<lparr>pq_root := Some 3, pq_count := 1, pushedEntries := 1\<rparr>)
     ((\<lambda>_. pq_entry None None None 0)(3 := (pq_entry None None None 0)\<lparr>enqueued := True\<rparr>))
     (demo_world\<lparr>taskAt := (taskAt demo_world)(3 := \<lparr>taskScheduler = Some 0, nextExecutionTime = \<lparr>tv_sec = 5, tv_nsec = 0\<rparr>, period = 0, refs = 2\<rparr>)\<rparr>)"

lemma demo_add: "tq_add_time 0 3 \<lparr>tv_sec = 5, tv_nsec = 0\<rparr> demo_world = ret True demo_added"
  by (simp add: tq_add_time_def tq_add_def demo_world_def demo_added_def isQueued_def pq_entry_def setExecutionTime_def acquire_def
      upd_task_def tq_new_def pq_new_def pq_add_def setQueued_def upd_def signal_plan_def put_heap_def upd_queue_def Let_def)

theorem scheduler_takes_earliest_witness:
  "\<exists>w'. get_next (\<lambda>n. word_of_int (n div 1000000)) \<lparr>tv_sec = 6, tv_nsec = 0\<rparr> \<lparr>tv_sec = 6, tv_nsec = 0\<rparr> 0 (Returned None) demo_added = ret (Returned (Some 3)) w' \<and>
     taskScheduler (taskAt w' 3) = None"
proof -
  have "get_next (\<lambda>n. word_of_int (n div 1000000)) \<lparr>tv_sec = 6, tv_nsec = 0\<rparr> \<lparr>tv_sec = 6, tv_nsec = 0\<rparr> 0 (Returned None) demo_added =
      ret pc w' \<Longrightarrow> pc = Returned (Some 3)" for pc w'
    by (simp add: get_next_def get_start_def get_loop_def get_plan_def get_take_def demo_added_def demo_world_def put_heap_def upd_queue_def
        tq_new_def pq_new_def pq_isEmpty_def pq_peak_def pq_poll_def pq_entry_def isFuture_def time_compareTo_def)
  then show ?thesis
    using scheduler_takes_earliest [OF sched_reach.add_time [OF demo_reach demo_add],
        of "\<lparr>tv_sec = 6, tv_nsec = 0\<rparr>" "\<lparr>tv_sec = 6, tv_nsec = 0\<rparr>" 0] by auto
qed

lemma scheduling_moves_one_task_witness:
  "\<exists>w'. tm_cancelTask 3 demo_added = ret True w' \<and> taskScheduler (taskAt w' 3) = None"
proof -
  have "taskScheduler (taskAt demo_added 3) = Some 0" by (simp add: demo_added_def)
  then show ?thesis using scheduling_moves_one_task [OF sched_reach.add_time [OF demo_reach demo_add], of 0 3 "\<lparr>tv_sec = 0, tv_nsec = 0\<rparr>"] by auto
qed

end
