(* ===== verification/Locks.thy ===== *)
theory Locks
  imports Prelude
begin

text \<open>
  \<^verbatim>\<open>system/thread/Lockable.h\<close>, \<^verbatim>\<open>Mutex.cpp\<close>, \<^verbatim>\<open>ReadWriteLock.cpp\<close>, \<^verbatim>\<open>Locker.h\<close> and \<^verbatim>\<open>ReadLocker.h\<close>: locks over
  the pthread primitives, the field \<open>threadLockHolder\<close> that makes the scoped lockers reentrant, and cross
  locking, where a thread that holds one lock tries another and gives the first up while the second is
  busy. Each statement of the source that touches shared state is one step of a thread, so every
  interleaving of the threads is a run of the model. The timing of \<open>TRACE_BLOCK_TIME\<close>, the logging of
  \<open>LOG_LOCKS\<close> and the stack traces of \<open>TRACE_LOCKS\<close> are left out, and so are recursive mutexes.
\<close>

subsection \<open>Runs without deadlock\<close>

text \<open>
  When a thread that acquires something does not wait, and a thread that starts to wait is not waited
  for or finds what it waits for free, the graph of who waits for whom stays acyclic.
\<close>

lemma trancl_avoiding:
  assumes "(x, y) \<in> r'\<^sup>+" "\<And>x u. (x, u) \<in> r' \<Longrightarrow> x \<noteq> t \<Longrightarrow> u \<noteq> t \<Longrightarrow> (x, u) \<in> r" "\<And>u. (t, u) \<notin> r'"
  shows "x \<noteq> t \<and> (y \<noteq> t \<longrightarrow> (x, y) \<in> r\<^sup>+)"
  using assms(1)
proof (induction rule: trancl_induct)
  case (base y)
  then show ?case using assms(2,3) by auto
next
  case (step y z)
  then have "y \<noteq> t" using assms(3) by auto
  then show ?case using step assms(2) by (meson trancl.trancl_into_trancl)
qed

lemma acyclic_leaf:
  assumes "acyclic r" "\<And>x u. (x, u) \<in> r' \<Longrightarrow> x \<noteq> t \<Longrightarrow> u \<noteq> t \<Longrightarrow> (x, u) \<in> r" "\<And>u. (t, u) \<notin> r'"
  shows "acyclic r'"
  using trancl_avoiding [OF _ assms(2,3)] assms(1) unfolding acyclic_def by blast

lemma acyclic_root:
  assumes "acyclic r" "\<And>x u. (x, u) \<in> r' \<Longrightarrow> x \<noteq> t \<Longrightarrow> u \<noteq> t \<Longrightarrow> (x, u) \<in> r" "\<And>x. (x, t) \<notin> r'"
  shows "acyclic r'"
proof -
  have "acyclic (r'\<inverse>)"
    using acyclic_leaf [of "r\<inverse>" "r'\<inverse>" t] assms by auto
  then show ?thesis by simp
qed

locale waiting_threads =
  fixes inv :: "'s \<Rightarrow> bool" and step :: "'t \<Rightarrow> 's \<Rightarrow> 's option"
    and busy :: "'s \<Rightarrow> 't set" and waits :: "'s \<Rightarrow> ('t \<times> 't) set"
  assumes inv_step: "inv s \<Longrightarrow> step t s = Some s' \<Longrightarrow> inv s'"
    and finite_busy: "inv s \<Longrightarrow> finite (busy s)"
    and waits_busy: "inv s \<Longrightarrow> waits s \<subseteq> busy s \<times> busy s"
    and waits_others: "inv s \<Longrightarrow> step t s = Some s' \<Longrightarrow> (x, u) \<in> waits s' \<Longrightarrow> x \<noteq> t \<Longrightarrow> u \<noteq> t \<Longrightarrow> (x, u) \<in> waits s"
    and waits_self: "inv s \<Longrightarrow> step t s = Some s' \<Longrightarrow> (t, u) \<in> waits s' \<Longrightarrow> (x, t) \<notin> waits s'"
    and blocked: "inv s \<Longrightarrow> t \<in> busy s \<Longrightarrow> step t s = None \<Longrightarrow> \<exists>u. (t, u) \<in> waits s"
begin

inductive runs :: "'s \<Rightarrow> 's \<Rightarrow> bool" where
  runs_refl: "runs s s"
| runs_step: "runs s s' \<Longrightarrow> step t s' = Some s'' \<Longrightarrow> runs s s''"

lemma acyclic_step:
  assumes "inv s" "acyclic (waits s)" "step t s = Some s'"
  shows "acyclic (waits s')"
proof (cases "\<exists>u. (t, u) \<in> waits s'")
  case True
  then have "\<And>x. (x, t) \<notin> waits s'" using waits_self [OF assms(1,3)] by blast
  then show ?thesis using acyclic_root [OF assms(2) waits_others [OF assms(1,3)]] by blast
next
  case False
  then show ?thesis using acyclic_leaf [OF assms(2) waits_others [OF assms(1,3)]] by blast
qed

lemma runs_inv: "runs s s' \<Longrightarrow> inv s \<Longrightarrow> acyclic (waits s) \<Longrightarrow> inv s' \<and> acyclic (waits s')"
  by (induction rule: runs.induct) (auto intro: inv_step acyclic_step)

lemma not_stuck:
  assumes "inv s" "acyclic (waits s)" "busy s \<noteq> {}"
  shows "\<exists>t\<in>busy s. step t s \<noteq> None"
proof -
  have "finite (waits s)"
    using finite_subset [OF waits_busy [OF assms(1)]] finite_busy [OF assms(1)] by simp
  then have "wf ((waits s)\<inverse>)" using assms(2) by (rule finite_acyclic_wf_converse)
  then obtain t where "t \<in> busy s" "\<And>u. (u, t) \<in> (waits s)\<inverse> \<Longrightarrow> u \<notin> busy s"
    using assms(3) by (metis wfE_min ex_in_conv)
  then show ?thesis using blocked [OF assms(1)] waits_busy [OF assms(1)] by blast
qed

lemma runs_not_stuck:
  "runs s s' \<Longrightarrow> inv s \<Longrightarrow> acyclic (waits s) \<Longrightarrow> busy s' \<noteq> {} \<Longrightarrow> \<exists>t\<in>busy s'. step t s' \<noteq> None"
  using runs_inv not_stuck by blast

end

subsection \<open>State\<close>

type_synonym tid = nat
type_synonym lid = nat

datatype lock_kind = Mutex | ReadWriteLock

text \<open>
  A \<open>Lockable\<close> with the state of its pthread object: the thread that holds it for writing (or holds the
  mutex) and the threads that hold it for reading.
\<close>

record lockable =
  kind :: lock_kind
  writer :: "tid option"
  readers :: "tid list"
  threadLockHolder :: "tid option"
  readLockCount :: "32 word"

definition new_lockable :: "lock_kind \<Rightarrow> lockable" where
  "new_lockable k = \<lparr>kind = k, writer = None, readers = [], threadLockHolder = None, readLockCount = 0\<rparr>"

text \<open>Which constructor of \<open>Locker\<close> is called: one for the types of both locks, or the one for \<open>Lockable*\<close>.\<close>

datatype overload = Typed | Virtual

text \<open>
  The statements a thread executes. The first eight are the steps of the locking functions; the others
  are a program's own: scoped lockers, and reads and writes of the data a lock guards.
\<close>

datatype stmt =
    Pthread_lock lid
  | Pthread_rdlock lid
  | Pthread_unlock lid
  | While_trylock lid "stmt list"
  | While_tryrdlock lid "stmt list"
  | Set_holder lid "tid option"
  | Add_readers lid "32 word"
  | Cross_lock lid lid
  | New_Locker lid
  | New_cross_Locker overload lid lid
  | New_ReadLocker lid
  | Release_locker nat
  | Delete_locker
  | Write_data lid
  | Read_data lid

datatype scoped = Locker "lid option" | ReadLocker "lid option"

text \<open>\<open>engine\<close>: the thread was started by \<open>Thread\<close> (or registered by \<open>initializeThread\<close>), so \<open>getCurrentThread\<close> finds it.\<close>

record thread =
  engine :: bool
  code :: "stmt list"
  lockers :: "scoped list"

record sys =
  locks :: "lid \<Rightarrow> lockable"
  threads :: "tid \<Rightarrow> thread"

definition getCurrentThread :: "sys \<Rightarrow> tid \<Rightarrow> tid option" where
  "getCurrentThread s t = (if engine (threads s t) then Some t else None)"

definition isLockedByCurrentThread :: "sys \<Rightarrow> tid \<Rightarrow> lid \<Rightarrow> bool" where
  "isLockedByCurrentThread s t l \<longleftrightarrow> threadLockHolder (locks s l) = getCurrentThread s t"

definition isReadLocked :: "sys \<Rightarrow> lid \<Rightarrow> bool" where
  "isReadLocked s l \<longleftrightarrow> 0 < sint (readLockCount (locks s l))"

subsection \<open>The locking functions\<close>

text \<open>Each is the list of its steps; \<open>self\<close> is what \<open>getCurrentThread\<close> returns to the caller.\<close>

definition lock_acquired :: "tid option \<Rightarrow> lid \<Rightarrow> stmt list" where
  "lock_acquired self l = [Set_holder l self]"

definition lock_releasing :: "lid \<Rightarrow> stmt list" where
  "lock_releasing l = [Set_holder l None]"

definition mutex_lock :: "tid option \<Rightarrow> lid \<Rightarrow> stmt list" where
  "mutex_lock self l = Pthread_lock l # lock_acquired self l"

definition mutex_unlock :: "lid \<Rightarrow> stmt list" where
  "mutex_unlock l = lock_releasing l @ [Pthread_unlock l]"

definition rw_wlock :: "tid option \<Rightarrow> lid \<Rightarrow> stmt list" where
  "rw_wlock self l = Pthread_lock l # lock_acquired self l"

definition rw_unlock :: "lid \<Rightarrow> stmt list" where
  "rw_unlock l = lock_releasing l @ [Pthread_unlock l]"

definition rw_rlock :: "lid \<Rightarrow> stmt list" where
  "rw_rlock l = [Pthread_rdlock l, Add_readers l 1]"

definition rw_runlock :: "lid \<Rightarrow> stmt list" where
  "rw_runlock l = [Add_readers l (- 1), Pthread_unlock l]"

text \<open>\<open>Lockable::lock()\<close> and \<open>unlock()\<close> are virtual.\<close>

definition lockable_lock :: "lock_kind \<Rightarrow> tid option \<Rightarrow> lid \<Rightarrow> stmt list" where
  "lockable_lock k self l = (case k of Mutex \<Rightarrow> mutex_lock self l | ReadWriteLock \<Rightarrow> rw_wlock self l)"

definition lockable_unlock :: "lock_kind \<Rightarrow> lid \<Rightarrow> stmt list" where
  "lockable_unlock k l = (case k of Mutex \<Rightarrow> mutex_unlock l | ReadWriteLock \<Rightarrow> rw_unlock l)"

text \<open>The body of the loops that cross lock by the pthread functions: \<open>h\<close> is the holder they saved.\<close>

definition cross_retry :: "lid \<Rightarrow> tid option \<Rightarrow> stmt list" where
  "cross_retry c h = [Set_holder c None, Pthread_unlock c, Pthread_lock c, Set_holder c h]"

definition lockable_retry :: "lock_kind \<Rightarrow> tid option \<Rightarrow> lid \<Rightarrow> stmt list" where
  "lockable_retry k self c = lockable_unlock k c @ lockable_lock k self c"

definition mutex_lock_mutex :: "tid option \<Rightarrow> lid \<Rightarrow> lid \<Rightarrow> stmt list" where
  "mutex_lock_mutex self l m = (if l = m then [] else Cross_lock l m # lock_acquired self l)"

definition mutex_lock_lockable :: "lock_kind \<Rightarrow> tid option \<Rightarrow> lid \<Rightarrow> lid \<Rightarrow> stmt list" where
  "mutex_lock_lockable k self l c =
     (if l = c then [] else While_trylock l (lockable_retry k self c) # lock_acquired self l)"

definition rw_wlock_mutex :: "tid option \<Rightarrow> lid \<Rightarrow> lid \<Rightarrow> stmt list" where
  "rw_wlock_mutex self l m = Cross_lock l m # lock_acquired self l"

definition rw_wlock_rw :: "tid option \<Rightarrow> lid \<Rightarrow> lid \<Rightarrow> stmt list" where
  "rw_wlock_rw self l c = (if l = c then [] else Cross_lock l c # lock_acquired self l)"

definition rw_lock_lockable :: "lock_kind \<Rightarrow> tid option \<Rightarrow> lid \<Rightarrow> lid \<Rightarrow> stmt list" where
  "rw_lock_lockable k self l c = While_trylock l (lockable_retry k self c) # lock_acquired self l"

definition rw_rlock_lockable :: "lock_kind \<Rightarrow> tid option \<Rightarrow> lid \<Rightarrow> lid \<Rightarrow> stmt list" where
  "rw_rlock_lockable k self l c = [While_tryrdlock l (lockable_retry k self c), Add_readers l 1]"

definition rw_rlock_rw :: "tid option \<Rightarrow> lid \<Rightarrow> lid \<Rightarrow> stmt list" where
  "rw_rlock_rw self l c = [While_tryrdlock l (rw_unlock c @ rw_wlock self c), Add_readers l 1]"

text \<open>\<open>lock->lock(cross)\<close> as the constructors of \<open>Locker\<close> for two locks resolve it.\<close>

definition lock_cross :: "overload \<Rightarrow> lock_kind \<Rightarrow> lock_kind \<Rightarrow> tid option \<Rightarrow> lid \<Rightarrow> lid \<Rightarrow> stmt list" where
  "lock_cross ov kl kc self l c =
     (case (ov, kl, kc) of
        (Typed, Mutex, Mutex) \<Rightarrow> mutex_lock_mutex self l c
      | (Typed, ReadWriteLock, ReadWriteLock) \<Rightarrow> rw_wlock_rw self l c
      | (Typed, ReadWriteLock, Mutex) \<Rightarrow> rw_wlock_mutex self l c
      | (Typed, Mutex, ReadWriteLock) \<Rightarrow> mutex_lock_lockable kc self l c
      | (Virtual, Mutex, _) \<Rightarrow> mutex_lock_lockable kc self l c
      | (Virtual, ReadWriteLock, _) \<Rightarrow> rw_lock_lockable kc self l c)"

subsection \<open>Steps\<close>

definition goto :: "tid \<Rightarrow> stmt list \<Rightarrow> sys \<Rightarrow> sys" where
  "goto t r s = s\<lparr>threads := (threads s)(t := (threads s t)\<lparr>code := r\<rparr>)\<rparr>"

definition set_lockers :: "tid \<Rightarrow> scoped list \<Rightarrow> sys \<Rightarrow> sys" where
  "set_lockers t ls s = s\<lparr>threads := (threads s)(t := (threads s t)\<lparr>lockers := ls\<rparr>)\<rparr>"

definition set_lock :: "lid \<Rightarrow> lockable \<Rightarrow> sys \<Rightarrow> sys" where
  "set_lock l k s = s\<lparr>locks := (locks s)(l := k)\<rparr>"

text \<open>Destroying or releasing a scoped locker: nothing when its pointer is null.\<close>

definition drop_locker :: "sys \<Rightarrow> scoped \<Rightarrow> stmt list" where
  "drop_locker s x =
     (case x of Locker None \<Rightarrow> [] | Locker (Some l) \<Rightarrow> lockable_unlock (kind (locks s l)) l
              | ReadLocker None \<Rightarrow> [] | ReadLocker (Some l) \<Rightarrow> rw_runlock l)"

definition null_locker :: "scoped \<Rightarrow> scoped" where
  "null_locker x = (case x of Locker _ \<Rightarrow> Locker None | ReadLocker _ \<Rightarrow> ReadLocker None)"

text \<open>
  One statement of thread \<open>t\<close> with \<open>r\<close> to follow. \<open>None\<close>: the call does not return in this state.
  A write lock of a read-write lock by the thread that has it, and a read lock by its writer, return
  \<open>EDEADLK\<close>, which the callers assert not to happen; a mutex then waits for itself. Unlocking a lock
  the thread does not have is undefined.
\<close>

fun exec :: "tid \<Rightarrow> stmt \<Rightarrow> stmt list \<Rightarrow> sys \<Rightarrow> sys res option" where
  "exec t (Pthread_lock l) r s =
     (let k = locks s l in
      if writer k = None \<and> readers k = [] then Some (Inr (goto t r (set_lock l (k\<lparr>writer := Some t\<rparr>) s)))
      else if kind k = ReadWriteLock \<and> writer k = Some t then Some (Inl AssertionFailure) else None)"
| "exec t (Pthread_rdlock l) r s =
     (let k = locks s l in
      if writer k = None then Some (Inr (goto t r (set_lock l (k\<lparr>readers := t # readers k\<rparr>) s)))
      else if writer k = Some t then Some (Inl AssertionFailure) else None)"
| "exec t (Pthread_unlock l) r s =
     (let k = locks s l in
      if writer k = Some t then Some (Inr (goto t r (set_lock l (k\<lparr>writer := None\<rparr>) s)))
      else if t \<in> set (readers k) then Some (Inr (goto t r (set_lock l (k\<lparr>readers := remove1 t (readers k)\<rparr>) s)))
      else Some (Inl Undefined))"
| "exec t (While_trylock l body) r s =
     (let k = locks s l in
      if writer k = None \<and> readers k = [] then Some (Inr (goto t r (set_lock l (k\<lparr>writer := Some t\<rparr>) s)))
      else Some (Inr (goto t (body @ While_trylock l body # r) s)))"
| "exec t (While_tryrdlock l body) r s =
     (let k = locks s l in
      if writer k = None then Some (Inr (goto t r (set_lock l (k\<lparr>readers := t # readers k\<rparr>) s)))
      else Some (Inr (goto t (body @ While_tryrdlock l body # r) s)))"
| "exec t (Set_holder l h) r s =
     Some (Inr (goto t r (set_lock l ((locks s l)\<lparr>threadLockHolder := h\<rparr>) s)))"
| "exec t (Add_readers l d) r s =
     Some (Inr (goto t r (set_lock l ((locks s l)\<lparr>readLockCount := readLockCount (locks s l) + d\<rparr>) s)))"
| "exec t (Cross_lock l c) r s =
     Some (Inr (goto t (While_trylock l (cross_retry c (threadLockHolder (locks s c))) # r) s))"
| "exec t (New_Locker l) r s =
     (let self = getCurrentThread s t; ls = lockers (threads s t) in
      Some (Inr (if \<not> isLockedByCurrentThread s t l
                 then goto t (lockable_lock (kind (locks s l)) self l @ r) (set_lockers t (Locker (Some l) # ls) s)
                 else goto t r (set_lockers t (Locker None # ls) s))))"
| "exec t (New_cross_Locker ov l c) r s =
     (let self = getCurrentThread s t; ls = lockers (threads s t); k = kind (locks s l) in
      Some (if \<not> isLockedByCurrentThread s t l
            then if l \<noteq> c
                 then if isLockedByCurrentThread s t c
                      then Inr (goto t (lock_cross ov k (kind (locks s c)) self l c @ r)
                                  (set_lockers t (Locker (Some l) # ls) s))
                      else Inl AssertionFailure
                 else Inr (goto t (lockable_lock k self l @ r) (set_lockers t (Locker (Some l) # ls) s))
            else Inr (goto t r (set_lockers t (Locker None # ls) s))))"
| "exec t (New_ReadLocker l) r s =
     (let ls = lockers (threads s t) in
      Some (Inr (if \<not> isLockedByCurrentThread s t l
                 then goto t (rw_rlock l @ r) (set_lockers t (ReadLocker (Some l) # ls) s)
                 else goto t r (set_lockers t (ReadLocker None # ls) s))))"
| "exec t (Release_locker i) r s =
     (let ls = lockers (threads s t) in
      Some (if i < length ls then Inr (goto t (drop_locker s (ls ! i) @ r) (set_lockers t (ls[i := null_locker (ls ! i)]) s))
            else Inl Undefined))"
| "exec t Delete_locker r s =
     Some (case lockers (threads s t) of [] \<Rightarrow> Inl Undefined
           | x # ls \<Rightarrow> Inr (goto t (drop_locker s x @ r) (set_lockers t ls s)))"
| "exec t (Write_data l) r s = Some (Inr (goto t r s))"
| "exec t (Read_data l) r s = Some (Inr (goto t r s))"

definition thread_step :: "tid \<Rightarrow> sys \<Rightarrow> sys res option" where
  "thread_step t s = (case code (threads s t) of [] \<Rightarrow> None | i # r \<Rightarrow> exec t i r s)"

definition ok_step :: "tid \<Rightarrow> sys \<Rightarrow> sys option" where
  "ok_step t s = (case thread_step t s of Some (Inr s') \<Rightarrow> Some s' | _ \<Rightarrow> None)"

inductive run :: "sys \<Rightarrow> sys \<Rightarrow> bool" where
  run_refl: "run s s"
| run_step: "run s s' \<Longrightarrow> thread_step t s' = Some (Inr s'') \<Longrightarrow> run s s''"

definition busy :: "sys \<Rightarrow> tid set" where
  "busy s = {t. code (threads s t) \<noteq> []}"

definition initial_sys :: "(lid \<Rightarrow> lock_kind) \<Rightarrow> (tid \<times> stmt list) list \<Rightarrow> sys" where
  "initial_sys ks ps =
     \<lparr>locks = (\<lambda>l. new_lockable (ks l)),
      threads = (\<lambda>t. \<lparr>engine = True, code = (case map_of ps t of None \<Rightarrow> [] | Some p \<Rightarrow> p), lockers = []\<rparr>)\<rparr>"

text \<open>The functions that try once: \<open>ReadWriteLock::tryWLock\<close> marks the lock, \<open>Mutex::tryLock\<close> does not.\<close>

definition tryWLock :: "tid \<Rightarrow> lid \<Rightarrow> sys \<Rightarrow> bool \<times> sys" where
  "tryWLock t l s =
     (let k = locks s l in
      if writer k = None \<and> readers k = []
      then (True, set_lock l (k\<lparr>writer := Some t, threadLockHolder := getCurrentThread s t\<rparr>) s) else (False, s))"

definition mutex_tryLock :: "tid \<Rightarrow> lid \<Rightarrow> sys \<Rightarrow> bool \<times> sys" where
  "mutex_tryLock t l s =
     (let k = locks s l in
      if writer k = None \<and> readers k = [] then (True, set_lock l (k\<lparr>writer := Some t\<rparr>) s) else (False, s))"

subsection \<open>The discipline\<close>

text \<open>
  What a thread has: the locks held for writing, those marked with its name, and those held for reading.
\<close>

definition held :: "sys \<Rightarrow> tid \<Rightarrow> lid set" where
  "held s t = {l. writer (locks s l) = Some t}"

definition marked :: "sys \<Rightarrow> tid \<Rightarrow> lid set" where
  "marked s t = {l. threadLockHolder (locks s l) = Some t}"

definition reading :: "sys \<Rightarrow> tid \<Rightarrow> lid set" where
  "reading s t = {l. t \<in> set (readers (locks s l))}"

text \<open>
  A program is disciplined when a lock it waits for is the first it takes, every further one is taken by
  cross locking with one it holds, a read lock is the last one taken, guarded data is touched under its
  lock and every locker is destroyed. Without \<open>deep\<close> at most two locks are held at a time. The argument
  \<open>j\<close> is the lock that the previous statement released.
\<close>

definition retries :: "bool \<Rightarrow> tid \<Rightarrow> lid set \<Rightarrow> lid set \<Rightarrow> lid \<Rightarrow> stmt list \<Rightarrow> bool" where
  "retries deep t W M l body \<longleftrightarrow> l \<notin> W \<and> (\<exists>c\<in>W. c \<in> M \<and> body = cross_retry c (Some t) \<and> (deep \<or> W = {c}))"

fun disciplined :: "bool \<Rightarrow> tid \<Rightarrow> lid option \<Rightarrow> lid set \<Rightarrow> lid set \<Rightarrow> lid set \<Rightarrow> scoped list \<Rightarrow> stmt list \<Rightarrow> bool" where
  "disciplined d t j W M R ls [] \<longleftrightarrow> W = {} \<and> R = {} \<and> ls = []"
| "disciplined d t j W M R ls (Pthread_lock l # r) \<longleftrightarrow>
     (W = {} \<or> d \<and> j = Some l) \<and> l \<notin> W \<and> R = {} \<and> disciplined d t None (insert l W) M R ls r"
| "disciplined d t j W M R ls (Pthread_rdlock l # r) \<longleftrightarrow>
     W = {} \<and> R = {} \<and> disciplined d t None W M {l} ls r"
| "disciplined d t j W M R ls (Pthread_unlock l # r) \<longleftrightarrow>
     (if l \<in> W then l \<notin> M \<and> disciplined d t (Some l) (W - {l}) M R ls r
      else l \<in> R \<and> disciplined d t None W M (R - {l}) ls r)"
| "disciplined d t j W M R ls (While_trylock l body # r) \<longleftrightarrow>
     retries d t W M l body \<and> R = {} \<and> disciplined d t None (insert l W) M R ls r"
| "disciplined d t j W M R ls (While_tryrdlock l body # r) \<longleftrightarrow>
     retries d t W M l body \<and> R = {} \<and> disciplined d t None W M {l} ls r"
| "disciplined d t j W M R ls (Set_holder l h # r) \<longleftrightarrow>
     l \<in> W \<and> (case h of None \<Rightarrow> disciplined d t None W (M - {l}) R ls r
              | Some u \<Rightarrow> u = t \<and> disciplined d t None W (insert l M) R ls r)"
| "disciplined d t j W M R ls (Add_readers l n # r) \<longleftrightarrow> disciplined d t None W M R ls r"
| "disciplined d t j W M R ls (Cross_lock l c # r) \<longleftrightarrow>
     l \<notin> W \<and> c \<in> W \<and> c \<in> M \<and> (d \<or> W = {c}) \<and> R = {} \<and> disciplined d t None (insert l W) M R ls r"
| "disciplined d t j W M R ls (New_Locker l # r) \<longleftrightarrow>
     (if l \<in> M then disciplined d t None W M R (Locker None # ls) r
      else W = {} \<and> R = {} \<and> disciplined d t None {l} (insert l M) {} (Locker (Some l) # ls) r)"
| "disciplined d t j W M R ls (New_cross_Locker ov l c # r) \<longleftrightarrow>
     (if l \<in> M then disciplined d t None W M R (Locker None # ls) r
      else l \<notin> W \<and> c \<in> W \<and> c \<in> M \<and> (d \<or> W = {c}) \<and> R = {} \<and>
           disciplined d t None (insert l W) (insert l M) R (Locker (Some l) # ls) r)"
| "disciplined d t j W M R ls (New_ReadLocker l # r) \<longleftrightarrow>
     (if l \<in> M then disciplined d t None W M R (ReadLocker None # ls) r
      else W = {} \<and> R = {} \<and> disciplined d t None W M {l} (ReadLocker (Some l) # ls) r)"
| "disciplined d t j W M R ls (Release_locker i # r) \<longleftrightarrow>
     i < length ls \<and>
     (case ls ! i of
        Locker (Some l) \<Rightarrow> l \<in> W \<and> disciplined d t (Some l) (W - {l}) (M - {l}) R (ls[i := null_locker (ls ! i)]) r
      | ReadLocker (Some l) \<Rightarrow> l \<notin> W \<and> l \<in> R \<and> disciplined d t None W M (R - {l}) (ls[i := null_locker (ls ! i)]) r
      | _ \<Rightarrow> disciplined d t None W M R (ls[i := null_locker (ls ! i)]) r)"
| "disciplined d t j W M R ls (Delete_locker # r) \<longleftrightarrow>
     (case ls of
        Locker (Some l) # ls' \<Rightarrow> l \<in> W \<and> disciplined d t (Some l) (W - {l}) (M - {l}) R ls' r
      | ReadLocker (Some l) # ls' \<Rightarrow> l \<notin> W \<and> l \<in> R \<and> disciplined d t None W M (R - {l}) ls' r
      | _ # ls' \<Rightarrow> disciplined d t None W M R ls' r
      | [] \<Rightarrow> False)"
| "disciplined d t j W M R ls (Write_data l # r) \<longleftrightarrow> l \<in> W \<and> disciplined d t None W M R ls r"
| "disciplined d t j W M R ls (Read_data l # r) \<longleftrightarrow> (l \<in> W \<or> l \<in> R) \<and> disciplined d t None W M R ls r"

definition thread_ok :: "bool \<Rightarrow> sys \<Rightarrow> tid \<Rightarrow> lid option \<Rightarrow> bool" where
  "thread_ok d s t j \<longleftrightarrow>
     disciplined d t j (held s t) (marked s t) (reading s t) (lockers (threads s t)) (code (threads s t))"

definition lock_ok :: "lockable \<Rightarrow> bool" where
  "lock_ok k \<longleftrightarrow> (readers k \<noteq> [] \<longrightarrow> writer k = None) \<and> distinct (readers k) \<and>
     (threadLockHolder k \<noteq> None \<longrightarrow> writer k = threadLockHolder k)"

definition locks_ok :: "sys \<Rightarrow> bool" where
  "locks_ok s \<longleftrightarrow> (\<forall>l. lock_ok (locks s l))"

definition sys_ok :: "bool \<Rightarrow> sys \<Rightarrow> bool" where
  "sys_ok d s \<longleftrightarrow> locks_ok s \<and> finite (busy s) \<and> (\<forall>t. engine (threads s t)) \<and> (\<forall>t. \<exists>j. thread_ok d s t j)"

definition waits :: "sys \<Rightarrow> (tid \<times> tid) set" where
  "waits s = {(t, u). \<exists>l r. code (threads s t) = Pthread_lock l # r \<and> (writer (locks s l) = Some u \<or> u \<in> set (readers (locks s l)))
                         \<or> code (threads s t) = Pthread_rdlock l # r \<and> writer (locks s l) = Some u}"

subsection \<open>Steps of disciplined threads\<close>

lemmas step_defs = goto_def set_lock_def set_lockers_def

lemmas lock_fun_defs = lock_acquired_def lock_releasing_def mutex_lock_def mutex_unlock_def rw_wlock_def rw_unlock_def
  rw_rlock_def rw_runlock_def lockable_lock_def lockable_unlock_def lockable_retry_def cross_retry_def
  mutex_lock_mutex_def mutex_lock_lockable_def rw_wlock_mutex_def rw_wlock_rw_def rw_lock_lockable_def

lemma retry_same: "lockable_retry k (Some t) c = cross_retry c (Some t)"
  by (cases k) (simp_all add: lock_fun_defs)

lemma lockable_lock_eq: "lockable_lock k self l = [Pthread_lock l, Set_holder l self]"
  by (cases k) (simp_all add: lock_fun_defs)

lemma lockable_unlock_eq: "lockable_unlock k l = [Set_holder l None, Pthread_unlock l]"
  by (cases k) (simp_all add: lock_fun_defs)

lemma lock_cross_eq:
  "l \<noteq> c \<Longrightarrow> lock_cross ov kl kc (Some t) l c =
     [if ov = Typed \<and> \<not> (kl = Mutex \<and> kc = ReadWriteLock) then Cross_lock l c else While_trylock l (cross_retry c (Some t)),
      Set_holder l (Some t)]"
  by (cases ov; cases kl; cases kc)
     (simp_all add: lock_cross_def mutex_lock_mutex_def mutex_lock_lockable_def rw_wlock_mutex_def rw_wlock_rw_def
        rw_lock_lockable_def lock_acquired_def retry_same)

lemma locker_current [simp]: "engine (threads s t) \<Longrightarrow> getCurrentThread s t = Some t"
  by (simp add: getCurrentThread_def)

lemma marked_current: "engine (threads s t) \<Longrightarrow> isLockedByCurrentThread s t l \<longleftrightarrow> l \<in> marked s t"
  by (simp add: isLockedByCurrentThread_def marked_def)

lemma goto_simps [simp]:
  "locks (goto t r s) = locks s" "code (threads (goto t r s) u) = (if u = t then r else code (threads s u))"
  "lockers (threads (goto t r s) u) = lockers (threads s u)" "engine (threads (goto t r s) u) = engine (threads s u)"
  by (simp_all add: goto_def)

lemma set_lockers_simps [simp]:
  "locks (set_lockers t ls s) = locks s" "code (threads (set_lockers t ls s) u) = code (threads s u)"
  "lockers (threads (set_lockers t ls s) u) = (if u = t then ls else lockers (threads s u))"
  "engine (threads (set_lockers t ls s) u) = engine (threads s u)"
  by (simp_all add: set_lockers_def)

lemma set_lock_simps [simp]:
  "threads (set_lock l k s) = threads s" "locks (set_lock l k s) l' = (if l' = l then k else locks s l')"
  by (simp_all add: set_lock_def)

lemma ownership_frame [simp]:
  "held (goto t r s) = held s" "marked (goto t r s) = marked s" "reading (goto t r s) = reading s"
  "held (set_lockers t ls s) = held s" "marked (set_lockers t ls s) = marked s" "reading (set_lockers t ls s) = reading s"
  by (simp_all add: held_def marked_def reading_def fun_eq_iff)

lemma ownership_set_lock [simp]:
  "held (set_lock l k s) u = (if writer k = Some u then insert l (held s u) else held s u - {l})"
  "marked (set_lock l k s) u = (if threadLockHolder k = Some u then insert l (marked s u) else marked s u - {l})"
  "reading (set_lock l k s) u = (if u \<in> set (readers k) then insert l (reading s u) else reading s u - {l})"
  by (auto simp: held_def marked_def reading_def)

lemma ownership_iff:
  "writer (locks s l) = Some t \<longleftrightarrow> l \<in> held s t" "threadLockHolder (locks s l) = Some t \<longleftrightarrow> l \<in> marked s t"
  "t \<in> set (readers (locks s l)) \<longleftrightarrow> l \<in> reading s t"
  by (simp_all add: held_def marked_def reading_def)

lemma thread_step_iff:
  "thread_step t s = Some x \<longleftrightarrow> (\<exists>i r. code (threads s t) = i # r \<and> exec t i r s = Some x)"
  by (auto simp: thread_step_def split: list.splits)

lemma others_unchanged:
  assumes "exec t i r s = Some (Inr s')" "u \<noteq> t" 
  shows "threads s' u = threads s u" "reading s' u = reading s u"
  using assms
  by (cases i; auto simp: goto_def set_lockers_def set_lock_def reading_def Let_def split: if_splits list.splits)+

lemma exec_engine: "exec t i r s = Some (Inr s') \<Longrightarrow> engine (threads s' u) = engine (threads s u)"
  by (cases i; auto simp: Let_def split: if_splits list.splits)

lemma others_held:
  assumes "exec t i r s = Some (Inr s')" "u \<noteq> t"
  shows "held s' u = held s u"
  using assms by (cases i) (auto simp: held_def Let_def split: if_splits list.splits)

lemma others_marked:
  assumes "exec t i r s = Some (Inr s')" "u \<noteq> t" "locks_ok s" "thread_ok d s t j" "code (threads s t) = i # r"
  shows "marked s' u = marked s u"
proof (cases "\<exists>l h. i = Set_holder l h")
  case True
  then obtain l h where i: "i = Set_holder l h" by blast
  then have "writer (locks s l) = Some t" "h = None \<or> h = Some t"
    using assms(4,5) by (auto simp: thread_ok_def held_def split: option.splits)
  then have "l \<notin> marked s u" using assms(2,3) by (auto simp: locks_ok_def lock_ok_def marked_def)
  then show ?thesis using assms(1,2) i \<open>h = None \<or> h = Some t\<close> by auto
next
  case False
  then show ?thesis using assms(1,2) by (cases i) (auto simp: marked_def Let_def split: if_splits list.splits)
qed

lemma locks_ok_update: "locks_ok s \<Longrightarrow> lock_ok k \<Longrightarrow> locks_ok (goto t r (set_lock l k s))"
  by (simp add: locks_ok_def)

lemma locks_ok_same [simp]: "locks_ok (goto t r s) = locks_ok s" "locks_ok (set_lockers t ls s) = locks_ok s"
  by (simp_all add: locks_ok_def)

lemma locks_step:
  assumes "exec t i r s = Some (Inr s')" "locks_ok s" "thread_ok d s t j" "code (threads s t) = i # r"
  shows "locks_ok s'"
proof -
  have D: "disciplined d t j (held s t) (marked s t) (reading s t) (lockers (threads s t)) (i # r)"
    using assms(3,4) by (simp add: thread_ok_def)
  have L: "lock_ok (locks s l)" for l using assms(2) by (simp add: locks_ok_def)
  show ?thesis
  proof (cases i)
    case (Pthread_lock l)
    then show ?thesis using assms(1,2) L [of l]
      by (auto simp: Let_def lock_ok_def intro!: locks_ok_update split: if_splits)
  next
    case (Pthread_rdlock l)
    then show ?thesis using D assms(1,2) L [of l]
      by (auto simp: Let_def lock_ok_def reading_def intro!: locks_ok_update split: if_splits)
  next
    case (Pthread_unlock l)
    then show ?thesis using D assms(1,2) L [of l]
      by (auto simp: Let_def lock_ok_def held_def marked_def intro!: locks_ok_update split: if_splits)
  next
    case (While_trylock l b)
    then show ?thesis using assms(1,2) L [of l]
      by (auto simp: Let_def lock_ok_def intro!: locks_ok_update split: if_splits)
  next
    case (While_tryrdlock l b)
    then show ?thesis using D assms(1,2) L [of l]
      by (auto simp: Let_def lock_ok_def reading_def intro!: locks_ok_update split: if_splits)
  next
    case (Set_holder l h)
    then show ?thesis using D assms(1,2) L [of l]
      by (auto simp: lock_ok_def held_def intro!: locks_ok_update split: option.splits)
  next
    case (Add_readers l n)
    then show ?thesis using assms(1,2) L [of l] by (auto simp: lock_ok_def intro!: locks_ok_update)
  qed (use assms(1,2) in \<open>auto simp: Let_def split: if_splits list.splits\<close>)
qed

lemma owner_facts:
  assumes "locks_ok s"
  shows "writer (locks s l) = None \<Longrightarrow> l \<notin> held s t \<and> l \<notin> marked s t" "readers (locks s l) = [] \<Longrightarrow> l \<notin> reading s t"
    "l \<in> marked s t \<Longrightarrow> l \<in> held s t" "l \<in> held s t \<Longrightarrow> l \<notin> reading s t"
  using assms [unfolded locks_ok_def lock_ok_def, THEN spec, of l] by (auto simp: held_def marked_def reading_def)

lemma own_step:
  assumes "exec t i r s = Some (Inr s')" "locks_ok s" "engine (threads s t)" "thread_ok d s t j" "code (threads s t) = i # r"
  shows "thread_ok d s' t (if \<exists>l\<in>held s t. i = Pthread_unlock l then (case i of Pthread_unlock l \<Rightarrow> Some l | _ \<Rightarrow> None) else None)"
proof -
  have D: "disciplined d t j (held s t) (marked s t) (reading s t) (lockers (threads s t)) (i # r)"
    using assms(4,5) by (simp add: thread_ok_def)
  note simps = thread_ok_def Let_def marked_current [OF assms(3)] locker_current [OF assms(3)] ownership_iff
  note own = owner_facts [OF assms(2)]
  show ?thesis
  proof (cases i)
    case (Pthread_lock l)
    then show ?thesis using D assms(1) own by (auto simp: simps split: if_splits)
  next
    case (Pthread_rdlock l)
    then show ?thesis using D assms(1) own by (auto simp: simps split: if_splits)
  next
    case (Pthread_unlock l)
    then show ?thesis using D assms(1,2) own by (auto simp: simps locks_ok_def lock_ok_def split: if_splits)
  next
    case (While_trylock l b)
    then show ?thesis using D assms(1) own by (auto simp: simps retries_def cross_retry_def insert_absorb split: if_splits)
  next
    case (While_tryrdlock l b)
    then show ?thesis using D assms(1) own by (auto simp: simps retries_def cross_retry_def insert_absorb split: if_splits)
  next
    case (Set_holder l h)
    then show ?thesis using D assms(1) own by (auto simp: simps insert_absorb split: option.splits)
  next
    case (Add_readers l n)
    then show ?thesis using D assms(1) own by (auto simp: simps insert_absorb)
  next
    case (Cross_lock l c)
    moreover have "threadLockHolder (locks s c) = Some t" using D Cross_lock by (simp add: ownership_iff)
    ultimately show ?thesis using D assms(1) by (auto simp: thread_ok_def retries_def)
  next
    case (New_Locker l)
    then show ?thesis using D assms(1) own by (auto simp: simps lockable_lock_eq split: if_splits)
  next
    case (New_cross_Locker ov l c)
    then show ?thesis
    proof (cases "l \<in> marked s t")
      case False
      then have "l \<noteq> c" "c \<in> marked s t" using D New_cross_Locker by auto
      moreover have "threadLockHolder (locks s c) = Some t" using \<open>c \<in> marked s t\<close> by (simp add: ownership_iff)
      ultimately have "s' = goto t (While_trylock l (cross_retry c (Some t)) # Set_holder l (Some t) # r)
            (set_lockers t (Locker (Some l) # lockers (threads s t)) s) \<or>
          s' = goto t (Cross_lock l c # Set_holder l (Some t) # r)
            (set_lockers t (Locker (Some l) # lockers (threads s t)) s)"
        using False assms(1) New_cross_Locker by (simp add: simps lock_cross_eq split: if_splits)
      then show ?thesis using D False \<open>l \<noteq> c\<close> New_cross_Locker by (auto simp: simps retries_def)
    qed (use D assms(1) own in \<open>auto simp: simps split: if_splits\<close>)
  next
    case (New_ReadLocker l)
    then show ?thesis using D assms(1) own by (auto simp: simps rw_rlock_def split: if_splits)
  next
    case (Release_locker x)
    then show ?thesis using D assms(1) own
      by (auto simp: simps drop_locker_def lockable_unlock_eq rw_runlock_def split: if_splits scoped.splits option.splits)
  next
    case Delete_locker
    then show ?thesis using D assms(1) own
      by (auto simp: simps drop_locker_def lockable_unlock_eq rw_runlock_def split: if_splits scoped.splits option.splits list.splits)
  qed (use D assms(1) own in \<open>auto simp: simps split: if_splits\<close>)
qed


text \<open>A disciplined thread makes no error, and waits only for a lock that another thread has.\<close>

lemma no_error:
  assumes "locks_ok s" "engine (threads s t)" "thread_ok d s t j" "code (threads s t) = i # r"
  shows "exec t i r s \<noteq> Some (Inl e)"
proof -
  have "disciplined d t j (held s t) (marked s t) (reading s t) (lockers (threads s t)) (i # r)"
    using assms(3,4) by (simp add: thread_ok_def)
  then show ?thesis
    by (cases i) (auto simp: Let_def marked_current [OF assms(2)] ownership_iff split: list.splits if_splits)
qed

lemma blocked_waits:
  assumes "thread_step t s = None" "t \<in> busy s"
  shows "\<exists>u. (t, u) \<in> waits s"
proof -
  obtain i r where c: "code (threads s t) = i # r" using assms(2) by (auto simp: busy_def neq_Nil_conv)
  then have e: "exec t i r s = None" using assms(1) by (simp add: thread_step_def)
  show ?thesis
  proof (cases i)
    case (Pthread_lock l)
    then consider u where "writer (locks s l) = Some u" | "readers (locks s l) \<noteq> []"
      using e by (auto simp: Let_def split: if_splits)
    then show ?thesis using c Pthread_lock hd_in_set by (cases) (auto simp: waits_def)
  qed (use e c in \<open>auto simp: Let_def waits_def split: if_splits\<close>)
qed

lemma sys_step:
  assumes "sys_ok d s" "thread_step t s = Some (Inr s')"
  shows "sys_ok d s'"
proof -
  obtain i r where c: "code (threads s t) = i # r" and e: "exec t i r s = Some (Inr s')"
    using assms(2) by (auto simp: thread_step_iff)
  obtain j where L: "locks_ok s" and E: "\<And>t. engine (threads s t)" and T: "thread_ok d s t j" and F: "finite (busy s)"
    and U: "\<And>u. \<exists>j. thread_ok d s u j"
    using assms(1) by (auto simp: sys_ok_def)
  have "thread_ok d s' u k \<longleftrightarrow> thread_ok d s u k" if "u \<noteq> t" for u k
    using others_unchanged [OF e that] others_held [OF e that] others_marked [OF e that L T c] by (simp add: thread_ok_def)
  then have "\<exists>j. thread_ok d s' u j" for u
    using U own_step [OF e L E T c] by (cases "u = t") auto
  moreover have "busy s' \<subseteq> insert t (busy s)"
    using others_unchanged(1) [OF e] by (auto simp: busy_def)
  then have "finite (busy s')" using F finite_subset by blast
  ultimately show ?thesis using locks_step [OF e L T c] exec_engine [OF e] E by (simp add: sys_ok_def)
qed

lemma sys_no_error: "sys_ok d s \<Longrightarrow> thread_step t s \<noteq> Some (Inl e)"
  using no_error unfolding sys_ok_def by (fastforce simp: thread_step_iff)

lemma waits_owner: "(x, u) \<in> waits s \<Longrightarrow> held s u \<noteq> {} \<or> reading s u \<noteq> {}"
  by (auto simp: waits_def held_def reading_def)

lemma waits_busy: "sys_ok d s \<Longrightarrow> waits s \<subseteq> busy s \<times> busy s"
proof clarify
  fix x u assume s: "sys_ok d s" and w: "(x, u) \<in> waits s"
  have "x \<in> busy s" using w by (auto simp: waits_def busy_def)
  moreover obtain j where "thread_ok d s u j" using s by (auto simp: sys_ok_def)
  then have "u \<in> busy s" using waits_owner [OF w] by (auto simp: thread_ok_def busy_def)
  ultimately show "x \<in> busy s \<and> u \<in> busy s" by simp
qed

lemma step_waits_others:
  assumes "exec t i r s = Some (Inr s')" "(x, u) \<in> waits s'" "x \<noteq> t" "u \<noteq> t"
  shows "(x, u) \<in> waits s"
proof -
  have "writer (locks s' l) = Some u \<longleftrightarrow> writer (locks s l) = Some u"
    "u \<in> set (readers (locks s' l)) \<longleftrightarrow> u \<in> set (readers (locks s l))" for l
    using others_held [OF assms(1,4)] others_unchanged(2) [OF assms(1,4)] by (simp_all add: ownership_iff)
  moreover have "code (threads s' x) = code (threads s x)" using others_unchanged(1) [OF assms(1,3)] by simp
  ultimately show ?thesis using assms(2) by (simp add: waits_def)
qed

lemma step_waits_self:
  assumes "sys_ok d s" "thread_step t s = Some (Inr s')" "(t, u) \<in> waits s'"
  shows "(x, t) \<notin> waits s'"
proof -
  obtain i r where c: "code (threads s t) = i # r" and e: "exec t i r s = Some (Inr s')"
    using assms(2) by (auto simp: thread_step_iff)
  obtain j where L: "locks_ok s" and E: "engine (threads s t)" and T: "thread_ok d s t j"
    using assms(1) by (auto simp: sys_ok_def)
  obtain l r' where w: "code (threads s' t) = Pthread_lock l # r' \<or> code (threads s' t) = Pthread_rdlock l # r'"
    and o: "writer (locks s' l) = Some u \<or> u \<in> set (readers (locks s' l))"
    using assms(3) by (auto simp: waits_def)
  have "\<not> (i = Pthread_unlock l \<and> l \<in> held s t)"
    using e o L [unfolded locks_ok_def lock_ok_def, THEN spec, of l] by (auto simp: held_def)
  then have "held s' t = {}" "reading s' t = {}"
    using own_step [OF e L E T c] w by (auto simp: thread_ok_def split: if_splits)
  then show ?thesis using waits_owner by blast
qed

interpretation lk: waiting_threads "sys_ok d" ok_step busy waits for d
proof unfold_locales
  fix s s' :: sys and t :: tid
  assume s: "sys_ok d s"
  show "finite (busy s)" using s by (simp add: sys_ok_def)
  show "waits s \<subseteq> busy s \<times> busy s" using s by (rule waits_busy)
  show "t \<in> busy s \<Longrightarrow> ok_step t s = None \<Longrightarrow> \<exists>u. (t, u) \<in> waits s"
    using blocked_waits sys_no_error [OF s] by (force simp: ok_step_def split: option.splits sum.splits)
  assume "ok_step t s = Some s'"
  then have st: "thread_step t s = Some (Inr s')" by (simp add: ok_step_def split: option.splits sum.splits)
  show "sys_ok d s'" using s st by (rule sys_step)
  show "(x, u) \<in> waits s' \<Longrightarrow> x \<noteq> t \<Longrightarrow> u \<noteq> t \<Longrightarrow> (x, u) \<in> waits s" for x u
    using st step_waits_others by (auto simp: thread_step_iff)
  show "(t, u) \<in> waits s' \<Longrightarrow> (x, t) \<notin> waits s'" for x u
    using s st by (rule step_waits_self)
qed


lemma run_inv:
  "run s s' \<Longrightarrow> sys_ok d s \<Longrightarrow> acyclic (waits s) \<Longrightarrow> sys_ok d s' \<and> acyclic (waits s')"
proof (induction rule: run.induct)
  case (run_step s s' t s'')
  then have "ok_step t s' = Some s''" by (simp add: ok_step_def)
  then show ?case using run_step lk.acyclic_step lk.inv_step by blast
qed simp

text \<open>A set of programs, one per thread, and the start of a run.\<close>

definition programs_ok :: "bool \<Rightarrow> (tid \<times> stmt list) list \<Rightarrow> bool" where
  "programs_ok d ps \<longleftrightarrow> (\<forall>(t, p) \<in> set ps. disciplined d t None {} {} {} [] p)"

lemma initial_empty [simp]:
  "held (initial_sys ks ps) t = {}" "marked (initial_sys ks ps) t = {}" "reading (initial_sys ks ps) t = {}"
  "waits (initial_sys ks ps) = {}"
  by (auto simp: held_def marked_def reading_def waits_def initial_sys_def new_lockable_def)

lemma initial_threads [simp]:
  "engine (threads (initial_sys ks ps) t)" "lockers (threads (initial_sys ks ps) t) = []"
  "code (threads (initial_sys ks ps) t) = (case map_of ps t of None \<Rightarrow> [] | Some p \<Rightarrow> p)"
  by (simp_all add: initial_sys_def)

lemma initial_ok: "programs_ok d ps \<Longrightarrow> sys_ok d (initial_sys ks ps)"
proof -
  assume p: "programs_ok d ps"
  have "thread_ok d (initial_sys ks ps) t None" for t
    using p by (auto simp: thread_ok_def programs_ok_def split: option.splits dest: map_of_SomeD)
  moreover have "busy (initial_sys ks ps) \<subseteq> fst ` set ps"
    by (auto simp: busy_def map_of_eq_None_iff split: option.splits)
  then have "finite (busy (initial_sys ks ps))" by (rule finite_subset) simp
  moreover have "locks_ok (initial_sys ks ps)" by (simp add: locks_ok_def lock_ok_def initial_sys_def new_lockable_def)
  ultimately show ?thesis unfolding sys_ok_def by auto
qed

lemma reachable_ok:
  "programs_ok d ps \<Longrightarrow> run (initial_sys ks ps) s \<Longrightarrow> sys_ok d s \<and> acyclic (waits s)"
  using run_inv [of "initial_sys ks ps" s d] initial_ok by (simp add: acyclic_def)

subsection \<open>Completion\<close>

text \<open>
  The work left to a thread, which a failed attempt to take a lock does not change, and the number of
  steps to the next wait when the attempts fail.
\<close>

primrec stmt_weight :: "stmt \<Rightarrow> nat" where
  "stmt_weight (Pthread_lock l) = 0"
| "stmt_weight (Pthread_rdlock l) = 0"
| "stmt_weight (Pthread_unlock l) = 0"
| "stmt_weight (While_trylock l b) = 1"
| "stmt_weight (While_tryrdlock l b) = 1"
| "stmt_weight (Set_holder l h) = 0"
| "stmt_weight (Add_readers l n) = 0"
| "stmt_weight (Cross_lock l c) = 2"
| "stmt_weight (New_Locker l) = 1"
| "stmt_weight (New_cross_Locker ov l c) = 3"
| "stmt_weight (New_ReadLocker l) = 1"
| "stmt_weight (Release_locker i) = 1"
| "stmt_weight Delete_locker = 1"
| "stmt_weight (Write_data l) = 1"
| "stmt_weight (Read_data l) = 1"

definition weight :: "stmt list \<Rightarrow> nat" where
  "weight p = sum_list (map stmt_weight p)"

lemma weight_simps [simp]: "weight [] = 0" "weight (i # r) = stmt_weight i + weight r" "weight (p @ q) = weight p + weight q"
  by (simp_all add: weight_def)

lemma weight_retry [simp]: "weight (cross_retry c h) = 0"
  by (simp add: cross_retry_def)

fun rank :: "stmt list \<Rightarrow> nat" where
  "rank (Pthread_unlock l # r) = Suc (rank r)"
| "rank (Set_holder l h # r) = Suc (rank r)"
| "rank (Add_readers l n # r) = Suc (rank r)"
| "rank (While_trylock l b # r) = 3"
| "rank (While_tryrdlock l b # r) = 3"
| "rank p = 0"

definition parked :: "sys \<Rightarrow> tid \<Rightarrow> bool" where
  "parked s t \<longleftrightarrow> (case code (threads s t) of [] \<Rightarrow> True | Pthread_lock l # r \<Rightarrow> True | Pthread_rdlock l # r \<Rightarrow> True | _ \<Rightarrow> False)"

definition total :: "sys \<Rightarrow> nat" where
  "total s = (\<Sum>t\<in>busy s. weight (code (threads s t)))"

lemma advance:
  assumes "sys_ok d s" "\<not> parked s t"
  shows "\<exists>s'. thread_step t s = Some (Inr s') \<and>
     (weight (code (threads s' t)) < weight (code (threads s t)) \<or>
      weight (code (threads s' t)) = weight (code (threads s t)) \<and> rank (code (threads s' t)) < rank (code (threads s t)))"
proof -
  obtain i r where c: "code (threads s t) = i # r" using assms(2) by (auto simp: parked_def split: list.splits)
  obtain j where T: "thread_ok d s t j" and E: "engine (threads s t)" using assms(1) by (auto simp: sys_ok_def)
  then have D: "disciplined d t j (held s t) (marked s t) (reading s t) (lockers (threads s t)) (i # r)"
    using c by (simp add: thread_ok_def)
  have "t \<in> busy s" using c by (simp add: busy_def)
  moreover have "(t, u) \<notin> waits s" for u using assms(2) by (auto simp: waits_def parked_def)
  ultimately obtain s' where s': "thread_step t s = Some (Inr s')"
    using blocked_waits sys_no_error [OF assms(1)] by (metis option.exhaust sum.exhaust)
  then have e: "exec t i r s = Some (Inr s')" using c by (simp add: thread_step_def)
  note simps = Let_def marked_current [OF E] locker_current [OF E]
  show ?thesis
  proof (cases i)
    case (While_trylock l b)
    then show ?thesis using D e c s' by (auto simp: simps retries_def cross_retry_def split: if_splits)
  next
    case (While_tryrdlock l b)
    then show ?thesis using D e c s' by (auto simp: simps retries_def cross_retry_def split: if_splits)
  next
    case (New_Locker l)
    then show ?thesis using e c s' by (auto simp: simps lockable_lock_eq)
  next
    case (New_cross_Locker ov l c')
    then show ?thesis using D e c s' by (auto simp: simps lock_cross_eq split: if_splits)
  next
    case (New_ReadLocker l)
    then show ?thesis using e c s' by (auto simp: simps rw_rlock_def)
  next
    case (Release_locker x)
    then show ?thesis using e c s'
      by (auto simp: simps drop_locker_def lockable_unlock_eq rw_runlock_def split: if_splits scoped.splits option.splits)
  next
    case Delete_locker
    then show ?thesis using e c s'
      by (auto simp: drop_locker_def lockable_unlock_eq rw_runlock_def split: scoped.splits option.splits list.splits)
  qed (use e c s' assms(2) in \<open>auto simp: simps parked_def split: if_splits\<close>)
qed

lemma run_trans: "run s' s'' \<Longrightarrow> run s s' \<Longrightarrow> run s s''"
  by (induction rule: run.induct) (auto intro: run_step)

lemma run_sys_ok: "run s s' \<Longrightarrow> sys_ok d s \<Longrightarrow> sys_ok d s'"
  by (induction rule: run.induct) (auto intro: sys_step)

lemma step_busy: "thread_step t s = Some (Inr s') \<Longrightarrow> busy s' \<subseteq> busy s"
  by (auto simp: thread_step_iff busy_def) (metis others_unchanged(1) list.distinct(1))

lemma step_threads: "thread_step t s = Some (Inr s') \<Longrightarrow> u \<noteq> t \<Longrightarrow> threads s' u = threads s u"
  using others_unchanged(1) by (auto simp: thread_step_iff)

lemma total_step:
  assumes "sys_ok d s" "t \<in> busy s" "busy s' \<subseteq> busy s" "\<And>u. u \<noteq> t \<Longrightarrow> threads s' u = threads s u"
  shows "total s' + weight (code (threads s t)) = total s + weight (code (threads s' t))"
proof -
  have f: "finite (busy s)" using assms(1) by (simp add: sys_ok_def)
  have "total s' = (\<Sum>u\<in>busy s. weight (code (threads s' u)))"
    unfolding total_def using f assms(3) by (rule sum.mono_neutral_left) (auto simp: busy_def)
  moreover have "(\<Sum>u\<in>busy s - {t}. weight (code (threads s' u))) = (\<Sum>u\<in>busy s - {t}. weight (code (threads s u)))"
    using assms(4) by (intro sum.cong) auto
  ultimately show ?thesis
    unfolding total_def using f assms(2) by (simp add: sum.remove [of "busy s" t])
qed

text \<open>A thread runs until some work is done or it has to wait.\<close>

lemma drive:
  "sys_ok d s \<Longrightarrow> \<exists>s'. run s s' \<and> (total s' < total s \<or> total s' = total s \<and> busy s' \<subseteq> busy s \<and> parked s' t \<and>
     (\<forall>u. u \<noteq> t \<longrightarrow> threads s' u = threads s u))"
proof (induction "rank (code (threads s t))" arbitrary: s rule: less_induct)
  case less
  show ?case
  proof (cases "parked s t")
    case True
    then show ?thesis using run_refl by blast
  next
    case False
    then have b: "t \<in> busy s" by (auto simp: busy_def parked_def)
    obtain s1 where s1: "thread_step t s = Some (Inr s1)"
      and w: "weight (code (threads s1 t)) < weight (code (threads s t)) \<or>
        weight (code (threads s1 t)) = weight (code (threads s t)) \<and> rank (code (threads s1 t)) < rank (code (threads s t))"
      using advance [OF less.prems False] by blast
    have r: "run s s1" using run_step [OF run_refl s1] .
    have tot: "total s1 + weight (code (threads s t)) = total s + weight (code (threads s1 t))"
      using total_step [OF less.prems b step_busy [OF s1]] step_threads [OF s1] by blast
    show ?thesis
    proof (cases "weight (code (threads s1 t)) < weight (code (threads s t))")
      case True
      then show ?thesis using r tot by (intro exI [of _ s1]) simp
    next
      case False
      then have eq: "total s1 = total s" and k: "rank (code (threads s1 t)) < rank (code (threads s t))" using w tot by auto
      obtain s' where "run s1 s'" "total s' < total s1 \<or> total s' = total s1 \<and> busy s' \<subseteq> busy s1 \<and> parked s' t \<and>
          (\<forall>u. u \<noteq> t \<longrightarrow> threads s' u = threads s1 u)"
        using less.hyps [OF k sys_step [OF less.prems s1]] by blast
      moreover have "run s s'" using run_trans [OF _ r] calculation(1) .
      ultimately show ?thesis using eq step_busy [OF s1] step_threads [OF s1] by (intro exI [of _ s']) auto
    qed
  qed
qed

lemma drive_all:
  "finite A \<Longrightarrow> sys_ok d s \<Longrightarrow> \<exists>s'. run s s' \<and> (total s' < total s \<or> total s' = total s \<and> busy s' \<subseteq> busy s \<and> (\<forall>t\<in>A. parked s' t))"
proof (induction A rule: finite_induct)
  case empty
  then show ?case using run_refl by blast
next
  case (insert t A)
  then obtain s1 where r: "run s s1" and
    s1: "total s1 < total s \<or> total s1 = total s \<and> busy s1 \<subseteq> busy s \<and> (\<forall>t\<in>A. parked s1 t)" by blast
  obtain s' where r': "run s1 s'" and s': "total s' < total s1 \<or> total s' = total s1 \<and> busy s' \<subseteq> busy s1 \<and> parked s' t \<and>
      (\<forall>u. u \<noteq> t \<longrightarrow> threads s' u = threads s1 u)"
    using drive [OF run_sys_ok [OF r insert.prems]] by blast
  have "run s s'" using run_trans [OF r' r] .
  then show ?case using s1 s' by (intro exI [of _ s']) (auto simp: parked_def)
qed

text \<open>A thread that alone has locks does not wait.\<close>

lemma solo_step:
  assumes "sys_ok d s" "t \<in> busy s" "\<And>u. u \<noteq> t \<Longrightarrow> held s u = {} \<and> reading s u = {}"
  shows "\<exists>s'. thread_step t s = Some (Inr s') \<and>
     (weight (code (threads s' t)) < weight (code (threads s t)) \<or>
      weight (code (threads s' t)) = weight (code (threads s t)) \<and> length (code (threads s' t)) < length (code (threads s t)))"
proof -
  obtain i r where c: "code (threads s t) = i # r" using assms(2) by (auto simp: busy_def neq_Nil_conv)
  obtain j where T: "thread_ok d s t j" using assms(1) by (auto simp: sys_ok_def)
  then have D: "disciplined d t j (held s t) (marked s t) (reading s t) (lockers (threads s t)) (i # r)"
    using c by (simp add: thread_ok_def)
  have free: "writer (locks s l) = None \<and> readers (locks s l) = []" if "l \<notin> held s t" "l \<notin> reading s t" for l
  proof -
    have "writer (locks s l) \<noteq> Some u \<and> u \<notin> set (readers (locks s l))" for u
      using that assms(3) [of u] by (cases "u = t") (auto simp: ownership_iff)
    then show ?thesis by (metis not_None_eq list.set_sel(1))
  qed
  show ?thesis
  proof (cases i)
    case (Pthread_lock l)
    then show ?thesis using D c free [of l] by (auto simp: thread_step_def)
  next
    case (Pthread_rdlock l)
    then show ?thesis using D c free [of l] by (auto simp: thread_step_def)
  next
    case (While_trylock l b)
    then show ?thesis using D c free [of l] by (auto simp: thread_step_def retries_def)
  next
    case (While_tryrdlock l b)
    then show ?thesis using D c free [of l] by (auto simp: thread_step_def retries_def)
  next
    case (Pthread_unlock l)
    then show ?thesis using D c by (auto simp: thread_step_def ownership_iff Let_def split: if_splits)
  qed (use advance [OF assms(1), of t] c in \<open>auto simp: parked_def thread_step_def\<close>)
qed

lemma solo:
  "sys_ok d s \<Longrightarrow> t \<in> busy s \<Longrightarrow> (\<And>u. u \<noteq> t \<Longrightarrow> held s u = {} \<and> reading s u = {}) \<Longrightarrow>
   \<exists>s'. run s s' \<and> (total s' < total s \<or> total s' = total s \<and> busy s' \<subset> busy s)"
proof (induction "length (code (threads s t))" arbitrary: s rule: less_induct)
  case less
  obtain s1 where s1: "thread_step t s = Some (Inr s1)"
    and w: "weight (code (threads s1 t)) < weight (code (threads s t)) \<or>
      weight (code (threads s1 t)) = weight (code (threads s t)) \<and> length (code (threads s1 t)) < length (code (threads s t))"
    using solo_step [OF less.prems] by blast
  have r: "run s s1" using run_step [OF run_refl s1] .
  have tot: "total s1 + weight (code (threads s t)) = total s + weight (code (threads s1 t))"
    using total_step [OF less.prems(1,2) step_busy [OF s1]] step_threads [OF s1] by blast
  show ?case
  proof (cases "weight (code (threads s1 t)) < weight (code (threads s t)) \<or> t \<notin> busy s1")
    case True
    then have "total s1 < total s \<or> total s1 = total s \<and> busy s1 \<subset> busy s"
      using w tot step_busy [OF s1] less.prems(2) by auto
    then show ?thesis using r by blast
  next
    case False
    then have "total s1 = total s" "length (code (threads s1 t)) < length (code (threads s t))" "t \<in> busy s1"
      using w tot by auto
    moreover have "held s1 u = {} \<and> reading s1 u = {}" if "u \<noteq> t" for u
      using less.prems(3) [OF that] s1 others_held others_unchanged(2) that by (fastforce simp: thread_step_iff)
    ultimately obtain s' where "run s1 s'" "total s' < total s1 \<or> total s' = total s1 \<and> busy s' \<subset> busy s1"
      using less.hyps [OF _ sys_step [OF less.prems(1) s1]] by metis
    moreover have "run s s'" using run_trans [OF _ r] calculation(1) .
    ultimately show ?thesis using \<open>total s1 = total s\<close> step_busy [OF s1] by (intro exI [of _ s']) auto
  qed
qed

lemma parked_empty:
  assumes "sys_ok False s" "\<forall>t\<in>busy s. parked s t"
  shows "held s u = {} \<and> reading s u = {}"
proof -
  obtain j where "thread_ok False s u j" using assms(1) by (auto simp: sys_ok_def)
  moreover have "parked s u" using assms(2) by (cases "u \<in> busy s") (auto simp: busy_def parked_def)
  ultimately show ?thesis by (auto simp: thread_ok_def parked_def split: list.splits stmt.splits)
qed

lemma work_done:
  assumes "sys_ok False s" "busy s \<noteq> {}"
  shows "\<exists>s'. run s s' \<and> (total s' < total s \<or> total s' = total s \<and> busy s' \<subset> busy s)"
proof -
  have "finite (busy s)" using assms(1) by (simp add: sys_ok_def)
  then obtain s1 where r: "run s s1"
    and s1: "total s1 < total s \<or> total s1 = total s \<and> busy s1 \<subseteq> busy s \<and> (\<forall>t\<in>busy s. parked s1 t)"
    using drive_all [OF _ assms(1)] by blast
  show ?thesis
  proof (cases "total s1 < total s \<or> busy s1 \<noteq> busy s")
    case True
    then show ?thesis using r s1 by blast
  next
    case False
    then obtain t where "t \<in> busy s1" using assms(2) by auto
    moreover have ok: "sys_ok False s1" using run_sys_ok [OF r assms(1)] .
    moreover have "held s1 u = {} \<and> reading s1 u = {}" for u
      using parked_empty [OF ok] s1 False by auto
    ultimately obtain s' where "run s1 s'" "total s' < total s1 \<or> total s' = total s1 \<and> busy s' \<subset> busy s1"
      using solo by blast
    moreover have "run s s'" using run_trans [OF _ r] calculation(1) .
    ultimately show ?thesis using s1 False by (intro exI [of _ s']) auto
  qed
qed

lemma completes: "sys_ok False s \<Longrightarrow> \<exists>s'. run s s' \<and> busy s' = {}"
proof (induction "(total s, busy s)" arbitrary: s rule: wf_induct_rule [OF wf_lex_prod [OF wf_less_than wf_finite_psubset]])
  case (1 s)
  show ?case
  proof (cases "busy s = {}")
    case False
    then obtain s1 where r: "run s s1" and w: "total s1 < total s \<or> total s1 = total s \<and> busy s1 \<subset> busy s"
      using work_done [OF 1(2)] by blast
    moreover have "finite (busy s)" using 1(2) by (simp add: sys_ok_def)
    ultimately have "((total s1, busy s1), (total s, busy s)) \<in> less_than <*lex*> finite_psubset"
      by (auto simp: finite_psubset_def)
    then obtain s' where "run s1 s'" "busy s' = {}" using 1(1) run_sys_ok [OF r 1(2)] by blast
    then show ?thesis using run_trans [OF _ r] by blast
  qed (use run_refl in blast)
qed

subsection \<open>Cross locking with three locks\<close>

fun schedule :: "tid list \<Rightarrow> sys \<Rightarrow> sys option" where
  "schedule [] s = Some s"
| "schedule (t # ts) s = (case thread_step t s of Some (Inr s') \<Rightarrow> schedule ts s' | _ \<Rightarrow> None)"

lemma schedule_run: "schedule ts s = Some s' \<Longrightarrow> run s s'"
proof (induction ts arbitrary: s)
  case (Cons t ts)
  then obtain s1 where "thread_step t s = Some (Inr s1)" "schedule ts s1 = Some s'"
    by (auto split: option.splits sum.splits)
  then show ?case using Cons.IH run_trans run_step [OF run_refl] by blast
qed (simp add: run_refl)

text \<open>The places of a thread in the loop that waits for \<open>l\<close> and gives up \<open>c\<close> meanwhile.\<close>

definition spinning :: "tid \<Rightarrow> lid \<Rightarrow> lid \<Rightarrow> stmt list \<Rightarrow> stmt list \<Rightarrow> bool" where
  "spinning t l c r p \<longleftrightarrow>
     (\<exists>n\<le>4. p = drop n (cross_retry c (Some t)) @ While_trylock l (cross_retry c (Some t)) # r)"

lemma spinning_step:
  assumes "thread_step t s = Some (Inr s')" "spinning t l c r (code (threads s t))"
    "writer (locks s l) = Some u" "l \<noteq> c"
  shows "spinning t l c r (code (threads s' t))" "\<And>k. k \<noteq> c \<Longrightarrow> writer (locks s' k) = writer (locks s k)"
proof -
  obtain n where n: "n \<le> 4" "code (threads s t) = drop n (cross_retry c (Some t)) @ While_trylock l (cross_retry c (Some t)) # r"
    using assms(2) by (auto simp: spinning_def)
  then have "n = 0 \<or> n = 1 \<or> n = 2 \<or> n = 3 \<or> n = 4" by auto
  then have "code (threads s' t) = drop (Suc n mod 5) (cross_retry c (Some t)) @ While_trylock l (cross_retry c (Some t)) # r \<and>
     (\<forall>k. k \<noteq> c \<longrightarrow> writer (locks s' k) = writer (locks s k))"
    using n(2) assms(1,3)
    by (elim disjE) (auto simp: cross_retry_def thread_step_def Let_def split: if_splits)
  then show "spinning t l c r (code (threads s' t))" "\<And>k. k \<noteq> c \<Longrightarrow> writer (locks s' k) = writer (locks s k)"
    by (auto simp: spinning_def intro: exI [of _ "Suc n mod 5"])
qed

definition livelocked :: "stmt list \<Rightarrow> stmt list \<Rightarrow> sys \<Rightarrow> bool" where
  "livelocked r0 r1 s \<longleftrightarrow> busy s \<subseteq> {0, 1} \<and> writer (locks s 0) = Some 0 \<and> writer (locks s 2) = Some 1 \<and>
     spinning 0 2 1 r0 (code (threads s 0)) \<and> spinning 1 0 3 r1 (code (threads s 1))"

lemma livelocked_run: "run s s' \<Longrightarrow> livelocked r0 r1 s \<Longrightarrow> livelocked r0 r1 s'"
proof (induction rule: run.induct)
  case (run_step s s' t s'')
  then have l: "livelocked r0 r1 s'" and st: "thread_step t s' = Some (Inr s'')" by auto
  then have "t \<in> busy s'" by (auto simp: busy_def thread_step_iff)
  then have "t = 0 \<or> t = 1" using l by (auto simp: livelocked_def)
  then show ?case
  proof
    assume [simp]: "t = 0"
    have "spinning 0 2 1 r0 (code (threads s'' 0))" "\<And>k. k \<noteq> 1 \<Longrightarrow> writer (locks s'' k) = writer (locks s' k)"
      using spinning_step [OF st, of 2 1 r0 1] l by (auto simp: livelocked_def)
    then show ?thesis using l step_busy [OF st] step_threads [OF st, of 1] by (auto simp: livelocked_def)
  next
    assume [simp]: "t = 1"
    have "spinning 1 0 3 r1 (code (threads s'' 1))" "\<And>k. k \<noteq> 3 \<Longrightarrow> writer (locks s'' k) = writer (locks s' k)"
      using spinning_step [OF st, of 0 3 r1 0] l by (auto simp: livelocked_def)
    then show ?thesis using l step_busy [OF st] step_threads [OF st, of 0] by (auto simp: livelocked_def)
  qed
qed simp

text \<open>Two threads that each nest three lockers, every one crossed with the locker before it.\<close>

definition nested_lockers :: "lid \<Rightarrow> lid \<Rightarrow> lid \<Rightarrow> stmt list" where
  "nested_lockers a b c =
     [New_Locker a, New_cross_Locker Typed b a, New_cross_Locker Typed c b, Write_data c, Delete_locker, Delete_locker, Delete_locker]"

definition livelock_threads :: "(tid \<times> stmt list) list" where
  "livelock_threads = [(0, nested_lockers 0 1 2), (1, nested_lockers 2 3 0)]"

lemma livelock_reached:
  "\<exists>s r0 r1. run (initial_sys (\<lambda>_. ReadWriteLock) livelock_threads) s \<and> livelocked r0 r1 s"
proof -
  let ?i = "initial_sys (\<lambda>_. ReadWriteLock) livelock_threads"
  obtain s where s: "schedule (replicate 9 0 @ replicate 9 1) ?i = Some s"
      "code (threads s 0) = While_trylock 2 (cross_retry 1 (Some 0)) # Set_holder 2 (Some 0) # [Write_data 2, Delete_locker, Delete_locker, Delete_locker]"
      "code (threads s 1) = While_trylock 0 (cross_retry 3 (Some 1)) # Set_holder 0 (Some 1) # [Write_data 0, Delete_locker, Delete_locker, Delete_locker]"
      "writer (locks s 0) = Some 0" "writer (locks s 2) = Some 1"
      "\<And>t. t \<noteq> 0 \<Longrightarrow> t \<noteq> 1 \<Longrightarrow> code (threads s t) = []"
    by (simp add: livelock_threads_def nested_lockers_def numeral_eq_Suc thread_step_def Let_def initial_sys_def new_lockable_def
         goto_def set_lock_def set_lockers_def isLockedByCurrentThread_def getCurrentThread_def lockable_lock_def rw_wlock_def
         lock_acquired_def lock_cross_def rw_wlock_rw_def cross_retry_def)
  then have "livelocked (Set_holder 2 (Some 0) # [Write_data 2, Delete_locker, Delete_locker, Delete_locker])
      (Set_holder 0 (Some 1) # [Write_data 0, Delete_locker, Delete_locker, Delete_locker]) s"
    unfolding livelocked_def spinning_def busy_def by (intro conjI exI [of _ 4]) (auto simp: cross_retry_def)
  then show ?thesis using schedule_run [OF s(1)] by blast
qed


subsection \<open>Threads the engine does not know, and mutexes taken by \<open>tryLock\<close>\<close>

text \<open>
  On a thread that was not started by \<open>Thread\<close>, \<open>getCurrentThread\<close> is null, like the mark of a free lock:
  a \<open>Locker\<close> takes the lock for held already and does nothing.
\<close>

lemma foreign_locker_takes_nothing:
  assumes "\<not> engine (threads s t)" "threadLockHolder (locks s l) = None" "code (threads s t) = New_Locker l # r"
  shows "thread_step t s = Some (Inr (goto t r (set_lockers t (Locker None # lockers (threads s t)) s)))"
  using assms by (simp add: thread_step_def isLockedByCurrentThread_def getCurrentThread_def)

text \<open>A \<open>Locker\<close> on a mutex that its thread took by \<open>tryLock\<close> waits for itself.\<close>

lemma tryLock_locker_blocks:
  assumes "mutex_tryLock t l s = (True, s')" "engine (threads s t)" "threadLockHolder (locks s l) = None" "kind (locks s l) = Mutex"
    "code (threads s t) = New_Locker l # r"
  shows "\<exists>s1. thread_step t s' = Some (Inr s1) \<and> thread_step t s1 = None"
proof -
  have "s' = set_lock l ((locks s l)\<lparr>writer := Some t\<rparr>) s"
    using assms(1) by (auto simp: mutex_tryLock_def Let_def split: if_splits)
  then show ?thesis
    using assms(2-) by (simp add: thread_step_def isLockedByCurrentThread_def getCurrentThread_def lockable_lock_eq Let_def)
qed

subsection \<open>Properties\<close>

definition about_to :: "(lid \<Rightarrow> stmt) \<Rightarrow> sys \<Rightarrow> tid \<Rightarrow> lid \<Rightarrow> bool" where
  "about_to f s t l \<longleftrightarrow> (\<exists>r. code (threads s t) = f l # r)"

lemma sys_exclusive:
  assumes "sys_ok d s" "about_to Write_data s t l" "about_to Write_data s u l \<or> about_to Read_data s u l"
  shows "t = u"
proof -
  obtain j where "thread_ok d s t j" using assms(1) by (auto simp: sys_ok_def)
  moreover obtain j' where "thread_ok d s u j'" using assms(1) by (auto simp: sys_ok_def)
  moreover have L: "lock_ok (locks s l)" using assms(1) by (auto simp: sys_ok_def locks_ok_def)
  ultimately have "writer (locks s l) = Some t" "writer (locks s l) = Some u \<or> u \<in> set (readers (locks s l))"
    using assms(2,3) by (auto simp: about_to_def thread_ok_def ownership_iff)
  then show ?thesis using L by (auto simp: lock_ok_def)
qed

text \<open>
  C19. Mutual exclusion: whatever disciplined programs of lockers the threads run and however they are
  interleaved, no assertion fails and no lock is released by a thread that does not hold it,
  \<open>threadLockHolder\<close> never names a thread that does not hold the lock, and no thread is about to read or
  write the data of a lock while another is about to write it.
\<close>

theorem lockers_exclude:
  assumes "programs_ok d ps" "run (initial_sys ks ps) s"
  shows "thread_step t s \<noteq> Some (Inl e) \<and>
    (threadLockHolder (locks s l) = Some t \<longrightarrow> writer (locks s l) = Some t) \<and>
    (about_to Write_data s t l \<and> (about_to Write_data s u l \<or> about_to Read_data s u l) \<longrightarrow> t = u)"
proof (intro conjI)
  have s: "sys_ok d s" using reachable_ok [OF assms] by simp
  show "thread_step t s \<noteq> Some (Inl e)" using sys_no_error [OF s] .
  show "threadLockHolder (locks s l) = Some t \<longrightarrow> writer (locks s l) = Some t"
    using s [unfolded sys_ok_def locks_ok_def lock_ok_def] by auto
  show "about_to Write_data s t l \<and> (about_to Write_data s u l \<or> about_to Read_data s u l) \<longrightarrow> t = u"
    using sys_exclusive [OF s] by blast
qed

text \<open>Two threads that cross lock the same two locks in opposite orders, and a reader.\<close>

definition crossing_threads :: "(tid \<times> stmt list) list" where
  "crossing_threads =
     [(0, [New_Locker 0, New_cross_Locker Typed 1 0, Write_data 0, Write_data 1, Delete_locker, New_Locker 0, Delete_locker, Delete_locker]),
      (1, [New_Locker 1, New_cross_Locker Virtual 0 1, Write_data 0, Write_data 1, Delete_locker, Delete_locker]),
      (2, [New_ReadLocker 1, Read_data 1, Release_locker 0, Delete_locker])]"

lemma crossing_threads_ok: "programs_ok d crossing_threads"
  by (simp add: programs_ok_def crossing_threads_def null_locker_def)

text \<open>After these steps the first two threads hold one lock each and try the other's.\<close>

definition crossing_state :: sys where
  "crossing_state = the (schedule [0, 0, 0, 1, 1, 1, 0, 1, 0] (initial_sys (\<lambda>_. ReadWriteLock) crossing_threads))"

lemmas schedule_simps = thread_step_def Let_def initial_sys_def new_lockable_def goto_def set_lock_def set_lockers_def
  isLockedByCurrentThread_def getCurrentThread_def lockable_lock_def lockable_unlock_def rw_wlock_def rw_unlock_def rw_rlock_def
  lock_acquired_def lock_releasing_def lock_cross_def rw_wlock_rw_def rw_lock_lockable_def lockable_retry_def cross_retry_def

lemma crossing_state_reached: "run (initial_sys (\<lambda>_. ReadWriteLock) crossing_threads) crossing_state"
  "busy crossing_state \<noteq> {}" "threadLockHolder (locks crossing_state 0) = Some 0"
proof -
  obtain s where s: "schedule [0, 0, 0, 1, 1, 1, 0, 1, 0] (initial_sys (\<lambda>_. ReadWriteLock) crossing_threads) = Some s"
    "code (threads s 0) \<noteq> []" "threadLockHolder (locks s 0) = Some 0"
    by (simp add: crossing_threads_def schedule_simps)
  then show "run (initial_sys (\<lambda>_. ReadWriteLock) crossing_threads) crossing_state" "busy crossing_state \<noteq> {}"
    "threadLockHolder (locks crossing_state 0) = Some 0"
    using schedule_run [OF s(1)] by (auto simp: crossing_state_def busy_def)
qed

theorem lockers_exclude_witness:
  "thread_step 0 crossing_state \<noteq> Some (Inl Undefined) \<and> writer (locks crossing_state 0) = Some 0 \<and>
   \<not> (about_to Write_data crossing_state 0 1 \<and> about_to Write_data crossing_state 1 1)"
  using lockers_exclude [OF crossing_threads_ok crossing_state_reached(1), of 0 Undefined 0 1]
    lockers_exclude [OF crossing_threads_ok crossing_state_reached(1), of 0 Undefined 1 1] crossing_state_reached(3) by auto

text \<open>
  C20. Cross locking does not deadlock: in every reachable state in which a thread still has something to
  do, some thread can take a step, however many lockers the threads nest.
\<close>

theorem cross_locking_no_deadlock:
  assumes "programs_ok d ps" "run (initial_sys ks ps) s" "busy s \<noteq> {}"
  shows "\<exists>t s'. thread_step t s = Some (Inr s')"
proof -
  obtain t s' where "ok_step t s = Some s'" using lk.not_stuck [of d s] reachable_ok [OF assms(1,2)] assms(3) by blast
  then show ?thesis by (auto simp: ok_step_def split: option.splits sum.splits)
qed

theorem cross_locking_no_deadlock_witness: "\<exists>t s'. thread_step t crossing_state = Some (Inr s')"
  using cross_locking_no_deadlock [OF crossing_threads_ok crossing_state_reached(1,2)] .

text \<open>
  C18. Cross locking with at most two locks at a time can always complete: from every reachable state the
  threads can run to the end of their programs.
\<close>

theorem cross_locking_completes:
  assumes "programs_ok False ps" "run (initial_sys ks ps) s"
  shows "\<exists>s'. run s s' \<and> busy s' = {}"
  using completes reachable_ok [OF assms] by blast

theorem cross_locking_completes_witness: "\<exists>s'. run crossing_state s' \<and> busy s' = {}"
  using cross_locking_completes [OF crossing_threads_ok crossing_state_reached(1)] .

text \<open>
  Nested cross locking can livelock: two threads that nest three lockers, each crossed with the one
  before, reach a state from which neither ever ends, because each keeps the lock the other tries and
  gives up another one.
\<close>

lemma nested_cross_locking_livelocks:
  "programs_ok True livelock_threads \<and>
   (\<exists>s. run (initial_sys (\<lambda>_. ReadWriteLock) livelock_threads) s \<and> (\<forall>s'. \<not> (run s s' \<and> busy s' = {})))"
proof
  show "programs_ok True livelock_threads" by (auto simp: programs_ok_def livelock_threads_def nested_lockers_def)
  obtain s r0 r1 where s: "run (initial_sys (\<lambda>_. ReadWriteLock) livelock_threads) s" "livelocked r0 r1 s"
    using livelock_reached by blast
  have "0 \<in> busy s'" if "run s s'" for s'
    using livelocked_run [OF that s(2)] by (auto simp: livelocked_def spinning_def busy_def)
  then show "\<exists>s. run (initial_sys (\<lambda>_. ReadWriteLock) livelock_threads) s \<and> (\<forall>s'. \<not> (run s s' \<and> busy s' = {}))"
    using s(1) by blast
qed

end
