(* ===== verification/References.thy ===== *)
theory References
  imports Prelude
begin

text \<open>
  \<^verbatim>\<open>system/lang/ref\<close> and the reference counting of \<^verbatim>\<open>system/lang/Object.h\<close>: intrusive strong and weak reference
  counts. An object has a block of two counters, made on its first use; a count is twice the number of
  references, and its lowest bit marks that the last one is gone and somebody cleans up. Every atomic
  access of the source is one step of a thread, so every interleaving is a run of the model; the loops
  around \<open>compare_exchange_weak\<close> that change one counter are one step, their successful attempt, since a failed
  attempt changes nothing: theory \<open>AtomicCounter\<close> has the loops with their loads and failing attempts and proves that every
  run of them is one of such steps. \<open>tryFinalDecrement\<close>, which no operation of this theory uses, is its attempt that does not fail for no reason.
  Freed blocks are gone from the model's memory and addresses are not used again: a step that touches
  a freed block is \<open>Undefined\<close>. \<open>notifyDestroy\<close> is the default one, which lets the object be destroyed.
\<close>

unbundle bit_operations_syntax

subsection \<open>\<open>ReferenceCounter\<close>\<close>

text \<open>What the successful attempt of each loop does to the counter.\<close>

definition increaseCount :: "32 word \<Rightarrow> 32 word" where
  "increaseCount n = n + 2"

definition tryFinalDecrement :: "32 word \<Rightarrow> bool \<times> 32 word" where
  "tryFinalDecrement n = (if n \<noteq> 2 then (False, n) else (True, 1))"

definition decrementAndTestAndSet :: "32 word \<Rightarrow> 32 word \<times> 32 word" where
  "decrementAndTestAndSet n = (let m = n - 2; m' = (if m = 0 then 1 else m) in ((n - m') AND 1, m'))"

subsection \<open>State\<close>

type_synonym tid = nat
type_synonym oid = nat
type_synonym cid = nat
type_synonym rid = nat
type_synonym wid = nat

record counters =
  strongReferenceCount :: "32 word"
  weakReferenceCount :: "32 word"
  count_object :: "oid option"

text \<open>What a thread does with the pointer that \<open>safeRead\<close> gives it.\<close>

datatype reader = Store_weak "cid option" | Copy_weak wid | Lock_weak rid

text \<open>
  The statements of a thread. The first group is the program's: assignments of references, weak
  references and their destruction; \<open>Cas_ref\<close> is \<open>compareAndSet\<close> with the pointers of two references.
  The second group are the steps of the functions they call.
\<close>

datatype rstmt =
    New_object rid
  | Assign_ref rid rid
  | Clear_ref rid
  | Use_ref rid
  | Weak_of wid rid
  | Assign_weak wid wid
  | Clear_weak wid
  | Get_weak rid wid
  | Cas_ref rid rid rid
  | Acquire oid
  | Create_counters oid
  | Inc_strong cid oid
  | Update_ref rid "oid option"
  | Move_ref rid "oid option"
  | Set_ref rid "oid option"
  | Release oid
  | Dec_strong cid oid
  | Null_object cid
  | Destroy oid
  | Free_object oid
  | Request_weak wid oid
  | Inc_weak cid
  | Weak_read wid reader
  | Weak_check wid cid reader
  | Weak_cas wid "cid option" "cid option"
  | Dec_weak_twice cid
  | Dec_weak cid
  | Delete_counters cid
  | Lock_strong cid rid
  | Read_object cid rid

record mem =
  objects :: "oid \<Rightarrow> cid option option"
  counts :: "cid \<Rightarrow> counters option"
  refs :: "rid \<Rightarrow> oid option"
  weaks :: "wid \<Rightarrow> cid option"
  next_oid :: nat
  next_cid :: nat
  pending :: "tid \<Rightarrow> rstmt list"

definition rgoto :: "tid \<Rightarrow> rstmt list \<Rightarrow> mem \<Rightarrow> mem" where
  "rgoto t p s = s\<lparr>pending := (pending s)(t := p)\<rparr>"

definition set_count :: "cid \<Rightarrow> counters \<Rightarrow> mem \<Rightarrow> mem" where
  "set_count c k s = s\<lparr>counts := (counts s)(c \<mapsto> k)\<rparr>"

definition set_cell :: "rid \<Rightarrow> oid option \<Rightarrow> mem \<Rightarrow> mem" where
  "set_cell r v s = s\<lparr>refs := (refs s)(r := v)\<rparr>"

definition set_weak :: "wid \<Rightarrow> cid option \<Rightarrow> mem \<Rightarrow> mem" where
  "set_weak w v s = s\<lparr>weaks := (weaks s)(w := v)\<rparr>"

text \<open>\<open>new StrongAndWeakReferenceCount(0, 2, this)\<close>, stored in the object.\<close>

definition install_counters :: "oid \<Rightarrow> mem \<Rightarrow> mem" where
  "install_counters o' s =
     s\<lparr>counts := (counts s)(next_cid s \<mapsto> \<lparr>strongReferenceCount = 0, weakReferenceCount = 2, count_object = Some o'\<rparr>),
       objects := (objects s)(o' := Some (Some (next_cid s))), next_cid := Suc (next_cid s)\<rparr>"

text \<open>\<open>newref\<close> of a weak reference, with the \<open>release\<close> of the old counters that follows it.\<close>

definition newref :: "wid \<Rightarrow> cid option \<Rightarrow> rstmt list" where
  "newref w v = (case v of None \<Rightarrow> [] | Some c \<Rightarrow> [Inc_weak c]) @ [Weak_read w (Store_weak v)]"

definition weak_release :: "cid option \<Rightarrow> rstmt list" where
  "weak_release v = (case v of None \<Rightarrow> [] | Some c \<Rightarrow> [Dec_weak c])"

text \<open>After \<open>safeRead\<close> returned \<open>p\<close> of the weak reference \<open>w\<close>.\<close>

definition after_read :: "wid \<Rightarrow> cid option \<Rightarrow> reader \<Rightarrow> rstmt list" where
  "after_read w p k =
     (case k of
        Store_weak v \<Rightarrow> [Weak_cas w p v]
      | Copy_weak w' \<Rightarrow> newref w' p @ weak_release p
      | Lock_weak r \<Rightarrow> (case p of None \<Rightarrow> [Move_ref r None] | Some c \<Rightarrow> [Lock_strong c r]))"

subsection \<open>Steps\<close>

text \<open>
  One statement with \<open>p\<close> to follow. The first acquisition of an object that \<open>new\<close> just made, which no
  other thread can know, is one step with its creation.
\<close>

definition ref_new :: "tid \<Rightarrow> rid \<Rightarrow> rstmt list \<Rightarrow> mem \<Rightarrow> mem res" where [simp]:
  "ref_new t r p s =
     (let o' = next_oid s; c = next_cid s;
          s1 = install_counters o' (s\<lparr>objects := (objects s)(o' := Some None), next_oid := Suc o'\<rparr>);
          s2 = set_count c \<lparr>strongReferenceCount = increaseCount 0, weakReferenceCount = 2, count_object = Some o'\<rparr> s1
      in Inr (rgoto t (Update_ref r (Some o') # p) s2))"

definition ref_assign :: "tid \<Rightarrow> rid \<Rightarrow> rid \<Rightarrow> rstmt list \<Rightarrow> mem \<Rightarrow> mem res" where [simp]:
  "ref_assign t r r' p s =
     (if r = r' then Inr (rgoto t p s)
      else case refs s r' of None \<Rightarrow> Inr (rgoto t (Update_ref r None # p) s)
           | Some o' \<Rightarrow> Inr (rgoto t (Acquire o' # Update_ref r (Some o') # p) s))"

definition ref_releaseObject :: "tid \<Rightarrow> rid \<Rightarrow> rstmt list \<Rightarrow> mem \<Rightarrow> mem res" where [simp]:
  "ref_releaseObject t r p s =
     (case refs s r of None \<Rightarrow> Inr (rgoto t p s) | Some o' \<Rightarrow> Inr (rgoto t (Release o' # Set_ref r None # p) s))"

definition weak_updateObject :: "tid \<Rightarrow> wid \<Rightarrow> rid \<Rightarrow> rstmt list \<Rightarrow> mem \<Rightarrow> mem res" where [simp]:
  "weak_updateObject t w r p s =
     (case refs s r of None \<Rightarrow> Inr (rgoto t (newref w None @ p) s) | Some o' \<Rightarrow> Inr (rgoto t (Request_weak w o' # p) s))"

definition weak_assign :: "tid \<Rightarrow> wid \<Rightarrow> wid \<Rightarrow> rstmt list \<Rightarrow> mem \<Rightarrow> mem res" where [simp]:
  "weak_assign t w w' p s =
     (if w = w' then Inr (rgoto t p s) else Inr (rgoto t (Weak_read w' (Copy_weak w) # p) s))"

definition weak_releaseObject :: "tid \<Rightarrow> wid \<Rightarrow> rstmt list \<Rightarrow> mem \<Rightarrow> mem res" where [simp]:
  "weak_releaseObject t w p s = Inr (rgoto t (newref w None @ p) s)"

definition weak_get :: "tid \<Rightarrow> rid \<Rightarrow> wid \<Rightarrow> rstmt list \<Rightarrow> mem \<Rightarrow> mem res" where [simp]:
  "weak_get t r w p s = Inr (rgoto t (Weak_read w (Lock_weak r) # p) s)"

definition ref_compareAndSet :: "tid \<Rightarrow> rid \<Rightarrow> rid \<Rightarrow> rid \<Rightarrow> rstmt list \<Rightarrow> mem \<Rightarrow> mem res" where [simp]:
  "ref_compareAndSet t r ro rn p s =
     (let old = refs s ro; new = refs s rn in
      if refs s r \<noteq> old then Inr (rgoto t p s)
      else Inr (rgoto t ((case new of None \<Rightarrow> [] | Some o' \<Rightarrow> [Acquire o']) @
                         (case old of None \<Rightarrow> [] | Some o' \<Rightarrow> [Release o']) @ p) (set_cell r new s)))"

definition object_acquire :: "tid \<Rightarrow> oid \<Rightarrow> rstmt list \<Rightarrow> mem \<Rightarrow> mem res" where [simp]:
  "object_acquire t o' p s =
     (case objects s o' of None \<Rightarrow> Inl Undefined
      | Some None \<Rightarrow> Inr (rgoto t (Create_counters o' # p) s)
      | Some (Some c) \<Rightarrow> Inr (rgoto t (Inc_strong c o' # p) s))"

definition createStrongAndWeakReferenceCount :: "tid \<Rightarrow> oid \<Rightarrow> rstmt list \<Rightarrow> mem \<Rightarrow> mem res" where [simp]:
  "createStrongAndWeakReferenceCount t o' p s =
     (case objects s o' of None \<Rightarrow> Inl Undefined
      | Some None \<Rightarrow> Inr (rgoto t (Inc_strong (next_cid s) o' # p) (install_counters o' s))
      | Some (Some c) \<Rightarrow> Inr (rgoto t (Inc_strong c o' # p) s))"

definition increaseStrongCount :: "tid \<Rightarrow> cid \<Rightarrow> rstmt list \<Rightarrow> mem \<Rightarrow> mem res" where [simp]:
  "increaseStrongCount t c p s =
     (case counts s c of None \<Rightarrow> Inl Undefined
      | Some k \<Rightarrow> Inr (rgoto t p (set_count c (k\<lparr>strongReferenceCount := increaseCount (strongReferenceCount k)\<rparr>) s)))"

definition ref_updateObject :: "tid \<Rightarrow> rid \<Rightarrow> oid option \<Rightarrow> rstmt list \<Rightarrow> mem \<Rightarrow> mem res" where [simp]:
  "ref_updateObject t r v p s =
     Inr (rgoto t ((case refs s r of None \<Rightarrow> [] | Some o' \<Rightarrow> [Release o']) @ p) (set_cell r v s))"

definition ref_move_assign :: "tid \<Rightarrow> rid \<Rightarrow> oid option \<Rightarrow> rstmt list \<Rightarrow> mem \<Rightarrow> mem res" where [simp]:
  "ref_move_assign t r v p s =
     Inr (rgoto t ((case refs s r of None \<Rightarrow> [] | Some o' \<Rightarrow> [Release o']) @ Set_ref r v # p) s)"

definition object_release :: "tid \<Rightarrow> oid \<Rightarrow> rstmt list \<Rightarrow> mem \<Rightarrow> mem res" where [simp]:
  "object_release t o' p s =
     (case objects s o' of Some (Some c) \<Rightarrow> Inr (rgoto t (Dec_strong c o' # p) s) | _ \<Rightarrow> Inl Undefined)"

definition decrementAndTestAndSetStrongCount :: "tid \<Rightarrow> cid \<Rightarrow> oid \<Rightarrow> rstmt list \<Rightarrow> mem \<Rightarrow> mem res" where [simp]:
  "decrementAndTestAndSetStrongCount t c o' p s =
     (case counts s c of None \<Rightarrow> Inl Undefined
      | Some k \<Rightarrow> (case decrementAndTestAndSet (strongReferenceCount k) of (ret, n) \<Rightarrow>
          Inr (rgoto t ((if ret \<noteq> 0 then [Null_object c, Destroy o'] else []) @ p)
                (set_count c (k\<lparr>strongReferenceCount := n\<rparr>) s))))"

definition object_destructor :: "tid \<Rightarrow> oid \<Rightarrow> rstmt list \<Rightarrow> mem \<Rightarrow> mem res" where [simp]:
  "object_destructor t o' p s =
     (case objects s o' of None \<Rightarrow> Inl Undefined
      | Some None \<Rightarrow> Inr (rgoto t (Free_object o' # p) s)
      | Some (Some c) \<Rightarrow>
          (case counts s c of None \<Rightarrow> Inl Undefined
           | Some k \<Rightarrow> if strongReferenceCount k AND 1 \<noteq> 0 then Inr (rgoto t (Dec_weak c # Free_object o' # p) s)
                       else Inl AssertionFailure))"

definition object_free :: "tid \<Rightarrow> oid \<Rightarrow> rstmt list \<Rightarrow> mem \<Rightarrow> mem res" where [simp]:
  "object_free t o' p s =
     (case objects s o' of None \<Rightarrow> Inl Undefined | Some _ \<Rightarrow> Inr (rgoto t p (s\<lparr>objects := (objects s)(o' := None)\<rparr>)))"

definition requestWeak :: "tid \<Rightarrow> wid \<Rightarrow> oid \<Rightarrow> rstmt list \<Rightarrow> mem \<Rightarrow> mem res" where [simp]:
  "requestWeak t w o' p s =
     (case objects s o' of None \<Rightarrow> Inl Undefined
      | Some None \<Rightarrow> Inr (rgoto t (newref w (Some (next_cid s)) @ p) (install_counters o' s))
      | Some (Some c) \<Rightarrow> Inr (rgoto t (newref w (Some c) @ p) s))"

definition increaseWeakCount :: "tid \<Rightarrow> cid \<Rightarrow> rstmt list \<Rightarrow> mem \<Rightarrow> mem res" where [simp]:
  "increaseWeakCount t c p s =
     (case counts s c of None \<Rightarrow> Inl Undefined
      | Some k \<Rightarrow> Inr (rgoto t p (set_count c (k\<lparr>weakReferenceCount := increaseCount (weakReferenceCount k)\<rparr>) s)))"

definition safeRead :: "tid \<Rightarrow> wid \<Rightarrow> reader \<Rightarrow> rstmt list \<Rightarrow> mem \<Rightarrow> mem res" where [simp]:
  "safeRead t w k p s =
     (case weaks s w of None \<Rightarrow> Inr (rgoto t (after_read w None k @ p) s)
      | Some c \<Rightarrow> Inr (rgoto t (Inc_weak c # Weak_check w c k # p) s))"

definition safeRead_check :: "tid \<Rightarrow> wid \<Rightarrow> cid \<Rightarrow> reader \<Rightarrow> rstmt list \<Rightarrow> mem \<Rightarrow> mem res" where [simp]:
  "safeRead_check t w c k p s =
     Inr (rgoto t ((if weaks s w = Some c then after_read w (Some c) k else [Dec_weak c, Weak_read w k]) @ p) s)"

definition newref_cas :: "tid \<Rightarrow> wid \<Rightarrow> cid option \<Rightarrow> cid option \<Rightarrow> rstmt list \<Rightarrow> mem \<Rightarrow> mem res" where [simp]:
  "newref_cas t w q v p s =
     (if weaks s w = q
      then Inr (rgoto t ((case q of None \<Rightarrow> [] | Some c \<Rightarrow> [Dec_weak_twice c]) @ p) (set_weak w v s))
      else Inr (rgoto t (weak_release q @ Weak_read w (Store_weak v) # p) s))"

definition newref_release :: "tid \<Rightarrow> cid \<Rightarrow> rstmt list \<Rightarrow> mem \<Rightarrow> mem res" where [simp]:
  "newref_release t c p s =
     (case counts s c of None \<Rightarrow> Inl Undefined
      | Some k \<Rightarrow> (case decrementAndTestAndSet (weakReferenceCount k) of (ret, n) \<Rightarrow>
          Inr (rgoto t ((if ret \<noteq> 0 then Delete_counters c else Dec_weak c) # p) (set_count c (k\<lparr>weakReferenceCount := n\<rparr>) s))))"

definition weak_count_release :: "tid \<Rightarrow> cid \<Rightarrow> rstmt list \<Rightarrow> mem \<Rightarrow> mem res" where [simp]:
  "weak_count_release t c p s =
     (case counts s c of None \<Rightarrow> Inl Undefined
      | Some k \<Rightarrow> (case decrementAndTestAndSet (weakReferenceCount k) of (ret, n) \<Rightarrow>
          Inr (rgoto t ((if ret \<noteq> 0 then [Delete_counters c] else []) @ p) (set_count c (k\<lparr>weakReferenceCount := n\<rparr>) s))))"

definition weak_get_lock :: "tid \<Rightarrow> cid \<Rightarrow> rid \<Rightarrow> rstmt list \<Rightarrow> mem \<Rightarrow> mem res" where [simp]:
  "weak_get_lock t c r p s =
     (case counts s c of None \<Rightarrow> Inl Undefined
      | Some k \<Rightarrow> let n = increaseCount (strongReferenceCount k) in
          Inr (rgoto t ((if n AND 1 \<noteq> 0 then [Dec_weak c, Move_ref r None] else [Read_object c r]) @ p)
                (set_count c (k\<lparr>strongReferenceCount := n\<rparr>) s)))"

definition weak_get_object :: "tid \<Rightarrow> cid \<Rightarrow> rid \<Rightarrow> rstmt list \<Rightarrow> mem \<Rightarrow> mem res" where [simp]:
  "weak_get_object t c r p s =
     (case counts s c of None \<Rightarrow> Inl Undefined
      | Some k \<Rightarrow> Inr (rgoto t (Dec_weak c # Move_ref r (count_object k) # p) s))"

fun ref_exec :: "tid \<Rightarrow> rstmt \<Rightarrow> rstmt list \<Rightarrow> mem \<Rightarrow> mem res" where
  "ref_exec t (New_object r) p s = ref_new t r p s"
| "ref_exec t (Assign_ref r r') p s = ref_assign t r r' p s"
| "ref_exec t (Clear_ref r) p s = ref_releaseObject t r p s"
| "ref_exec t (Use_ref r) p s =
     (case refs s r of None \<Rightarrow> Inr (rgoto t p s)
      | Some o' \<Rightarrow> (case objects s o' of None \<Rightarrow> Inl Undefined | Some _ \<Rightarrow> Inr (rgoto t p s)))"
| "ref_exec t (Weak_of w r) p s = weak_updateObject t w r p s"
| "ref_exec t (Assign_weak w w') p s = weak_assign t w w' p s"
| "ref_exec t (Clear_weak w) p s = weak_releaseObject t w p s"
| "ref_exec t (Get_weak r w) p s = weak_get t r w p s"
| "ref_exec t (Cas_ref r ro rn) p s = ref_compareAndSet t r ro rn p s"
| "ref_exec t (Acquire o') p s = object_acquire t o' p s"
| "ref_exec t (Create_counters o') p s = createStrongAndWeakReferenceCount t o' p s"
| "ref_exec t (Inc_strong c o') p s = increaseStrongCount t c p s"
| "ref_exec t (Update_ref r v) p s = ref_updateObject t r v p s"
| "ref_exec t (Move_ref r v) p s = ref_move_assign t r v p s"
| "ref_exec t (Set_ref r v) p s = Inr (rgoto t p (set_cell r v s))"
| "ref_exec t (Release o') p s = object_release t o' p s"
| "ref_exec t (Dec_strong c o') p s = decrementAndTestAndSetStrongCount t c o' p s"
| "ref_exec t (Null_object c) p s =
     (case counts s c of None \<Rightarrow> Inl Undefined | Some k \<Rightarrow> Inr (rgoto t p (set_count c (k\<lparr>count_object := None\<rparr>) s)))"
| "ref_exec t (Destroy o') p s = object_destructor t o' p s"
| "ref_exec t (Free_object o') p s = object_free t o' p s"
| "ref_exec t (Request_weak w o') p s = requestWeak t w o' p s"
| "ref_exec t (Inc_weak c) p s = increaseWeakCount t c p s"
| "ref_exec t (Weak_read w k) p s = safeRead t w k p s"
| "ref_exec t (Weak_check w c k) p s = safeRead_check t w c k p s"
| "ref_exec t (Weak_cas w q v) p s = newref_cas t w q v p s"
| "ref_exec t (Dec_weak_twice c) p s = newref_release t c p s"
| "ref_exec t (Dec_weak c) p s = weak_count_release t c p s"
| "ref_exec t (Delete_counters c) p s =
     (case counts s c of None \<Rightarrow> Inl Undefined | Some _ \<Rightarrow> Inr (rgoto t p (s\<lparr>counts := (counts s)(c := None)\<rparr>)))"
| "ref_exec t (Lock_strong c r) p s = weak_get_lock t c r p s"
| "ref_exec t (Read_object c r) p s = weak_get_object t c r p s"

definition ref_step :: "tid \<Rightarrow> mem \<Rightarrow> mem res option" where
  "ref_step t s = (case pending s t of [] \<Rightarrow> None | i # p \<Rightarrow> Some (ref_exec t i p s))"

inductive ref_run :: "mem \<Rightarrow> mem \<Rightarrow> bool" where
  ref_refl: "ref_run s s"
| ref_more: "ref_run s s' \<Longrightarrow> ref_step t s' = Some (Inr s'') \<Longrightarrow> ref_run s s''"

text \<open>
  The start: the references hold the objects of \<open>rs\<close>, which the threads share, the weak references the
  counters of \<open>ws\<close>, where counters have the number of their object.
\<close>

definition start_counters :: "oid option list \<Rightarrow> cid option list \<Rightarrow> cid \<Rightarrow> counters" where
  "start_counters rs ws c =
     \<lparr>strongReferenceCount = word_of_int (2 * int (count_list rs (Some c))),
      weakReferenceCount = word_of_int (2 * (int (count_list ws (Some c)) + 1)), count_object = Some c\<rparr>"

definition initial_mem :: "oid option list \<Rightarrow> cid option list \<Rightarrow> (tid \<times> rstmt list) list \<Rightarrow> mem" where
  "initial_mem rs ws ps =
     \<lparr>objects = (\<lambda>x. if Some x \<in> set rs then Some (Some x) else None),
      counts = (\<lambda>c. if Some c \<in> set rs then Some (start_counters rs ws c) else None),
      refs = (\<lambda>r. if r < length rs then rs ! r else None), weaks = (\<lambda>w. if w < length ws then ws ! w else None),
      next_oid = Suc (sum_list (map (case_option 0 id) rs)), next_cid = Suc (sum_list (map (case_option 0 id) rs)),
      pending = (\<lambda>t. case map_of ps t of None \<Rightarrow> [] | Some p \<Rightarrow> p)\<rparr>"

fun ref_schedule :: "tid list \<Rightarrow> mem \<Rightarrow> mem res" where
  "ref_schedule [] s = Inr s"
| "ref_schedule (t # ts) s =
     (case ref_step t s of None \<Rightarrow> ref_schedule ts s | Some m \<Rightarrow> rbind m (ref_schedule ts))"

subsection \<open>Who owns which count\<close>

text \<open>
  The threads, references and weak references of a program and the thread that each reference belongs
  to. Objects and counters are shared by all threads, a reference is not.
\<close>

record ref_world =
  nthreads :: nat
  nrefs :: nat
  nweaks :: nat
  ref_owner :: "rid \<Rightarrow> tid"
  weak_owner :: "wid \<Rightarrow> tid"

text \<open>The claims a statement still has on the strong and weak counts, and the work it has taken over.\<close>

fun strong_tok :: "oid \<Rightarrow> rstmt \<Rightarrow> int" where
  "strong_tok x (Acquire o') = - of_bool (o' = x)"
| "strong_tok x (Inc_strong c o') = - of_bool (o' = x)"
| "strong_tok x (Update_ref r v) = of_bool (v = Some x)"
| "strong_tok x (Move_ref r v) = of_bool (v = Some x)"
| "strong_tok x (Set_ref r v) = of_bool (v = Some x)"
| "strong_tok x (Release o') = of_bool (o' = x)"
| "strong_tok x (Dec_strong c o') = of_bool (o' = x)"
| "strong_tok x _ = 0"

fun lock_tok :: "cid \<Rightarrow> rstmt \<Rightarrow> int" where
  "lock_tok x (Read_object c r) = of_bool (c = x)"
| "lock_tok x _ = 0"

fun reader_tok :: "cid \<Rightarrow> reader \<Rightarrow> int" where
  "reader_tok x (Store_weak v) = of_bool (v = Some x)"
| "reader_tok x _ = 0"

fun weak_tok :: "cid \<Rightarrow> rstmt \<Rightarrow> int" where
  "weak_tok x (Inc_weak c) = - of_bool (c = x)"
| "weak_tok x (Weak_read w k) = reader_tok x k"
| "weak_tok x (Weak_check w c k) = of_bool (c = x) + reader_tok x k"
| "weak_tok x (Weak_cas w q v) = of_bool (q = Some x) + of_bool (v = Some x)"
| "weak_tok x (Dec_weak_twice c) = 2 * of_bool (c = x)"
| "weak_tok x (Dec_weak c) = of_bool (c = x)"
| "weak_tok x (Lock_strong c r) = of_bool (c = x)"
| "weak_tok x (Read_object c r) = of_bool (c = x)"
| "weak_tok x _ = 0"

fun kill_tok :: "oid \<Rightarrow> rstmt \<Rightarrow> int" where
  "kill_tok x (Destroy o') = of_bool (o' = x)"
| "kill_tok x (Free_object o') = of_bool (o' = x)"
| "kill_tok x _ = 0"

fun delete_tok :: "cid \<Rightarrow> rstmt \<Rightarrow> int" where
  "delete_tok x (Delete_counters c) = of_bool (c = x)"
| "delete_tok x _ = 0"

definition lsum :: "(rstmt \<Rightarrow> int) \<Rightarrow> rstmt list \<Rightarrow> int" where
  "lsum f p = sum_list (map f p)"

lemma lsum_simps [simp]: "lsum f [] = 0" "lsum f (i # p) = f i + lsum f p" "lsum f (p @ q) = lsum f p + lsum f q"
  by (simp_all add: lsum_def)

definition tot :: "ref_world \<Rightarrow> (rstmt \<Rightarrow> int) \<Rightarrow> mem \<Rightarrow> int" where
  "tot V f s = (\<Sum>t<nthreads V. lsum f (pending s t))"

text \<open>A reference that is about to be overwritten no longer counts.\<close>

definition sets :: "rstmt list \<Rightarrow> rid set" where
  "sets p = {r. \<exists>v. Set_ref r v \<in> set p}"

lemma sets_simps [simp]: "sets [] = {}" "sets (Set_ref r v # p) = insert r (sets p)"
  "(\<And>r v. i \<noteq> Set_ref r v) \<Longrightarrow> sets (i # p) = sets p" "sets (p @ q) = sets p \<union> sets q"
  by (auto simp: sets_def)

definition cells :: "ref_world \<Rightarrow> mem \<Rightarrow> oid \<Rightarrow> int" where
  "cells V s x = (\<Sum>r<nrefs V. of_bool (refs s r = Some x \<and> r \<notin> sets (pending s (ref_owner V r))))"

definition weak_cells :: "ref_world \<Rightarrow> mem \<Rightarrow> cid \<Rightarrow> int" where
  "weak_cells V s x = (\<Sum>w<nweaks V. of_bool (weaks s w = Some x))"

definition dying :: "ref_world \<Rightarrow> mem \<Rightarrow> oid \<Rightarrow> bool" where
  "dying V s x \<longleftrightarrow> (\<exists>t<nthreads V. Free_object x \<in> set (pending s t))"

definition owned :: "ref_world \<Rightarrow> mem \<Rightarrow> cid \<Rightarrow> int" where
  "owned V s x = of_bool (\<exists>o'. objects s o' = Some (Some x) \<and> \<not> dying V s o')"

definition strongs :: "ref_world \<Rightarrow> mem \<Rightarrow> oid \<Rightarrow> int" where
  "strongs V s x = cells V s x + tot V (strong_tok x) s"

definition weaks_of :: "ref_world \<Rightarrow> mem \<Rightarrow> cid \<Rightarrow> int" where
  "weaks_of V s x = weak_cells V s x + tot V (weak_tok x) s + owned V s x"

subsection \<open>The programs\<close>

text \<open>A program uses its thread's own references only, and no \<open>compareAndSet\<close>.\<close>

definition my_ref :: "ref_world \<Rightarrow> tid \<Rightarrow> rid \<Rightarrow> bool" where
  "my_ref V t r \<longleftrightarrow> r < nrefs V \<and> ref_owner V r = t"

definition my_weak :: "ref_world \<Rightarrow> tid \<Rightarrow> wid \<Rightarrow> bool" where
  "my_weak V t w \<longleftrightarrow> w < nweaks V \<and> weak_owner V w = t"

fun own_client :: "ref_world \<Rightarrow> tid \<Rightarrow> rstmt \<Rightarrow> bool" where
  "own_client V t (New_object r) = my_ref V t r"
| "own_client V t (Assign_ref r r') = (my_ref V t r \<and> my_ref V t r')"
| "own_client V t (Clear_ref r) = my_ref V t r"
| "own_client V t (Use_ref r) = my_ref V t r"
| "own_client V t (Weak_of w r) = (my_weak V t w \<and> my_ref V t r)"
| "own_client V t (Assign_weak w w') = (my_weak V t w \<and> my_weak V t w')"
| "own_client V t (Clear_weak w) = my_weak V t w"
| "own_client V t (Get_weak r w) = (my_ref V t r \<and> my_weak V t w)"
| "own_client V t _ = False"

text \<open>
  The lists of statements that arise while such a program runs: \<open>own_code\<close> says which statement may
  follow which, with the claims they pass on.
\<close>

definition own_reader :: "ref_world \<Rightarrow> tid \<Rightarrow> reader \<Rightarrow> bool" where
  "own_reader V t k = (case k of Store_weak v \<Rightarrow> True | Copy_weak w \<Rightarrow> my_weak V t w | Lock_weak r \<Rightarrow> my_ref V t r)"

abbreviation clients :: "ref_world \<Rightarrow> tid \<Rightarrow> rstmt list \<Rightarrow> bool" where
  "clients V t \<equiv> list_all (own_client V t)"

fun cost :: "rstmt \<Rightarrow> int" where
  "cost (Update_ref r v) = 1"
| "cost (Move_ref r v) = 2"
| "cost (Set_ref r v) = 1"
| "cost (Release o') = 1"
| "cost (Dec_strong c o') = 1"
| "cost (Destroy o') = 1"
| "cost (Request_weak w o') = 2"
| "cost (Weak_read w (Store_weak v)) = 2"
| "cost (Weak_read w k) = 3"
| "cost (Weak_check w c (Store_weak v)) = 2"
| "cost (Weak_check w c k) = 3"
| "cost (Weak_cas w q v) = 2"
| "cost (Dec_weak_twice c) = 2"
| "cost (Dec_weak c) = 1"
| "cost (Lock_strong c r) = 3"
| "cost (Read_object c r) = 3"
| "cost _ = 0"

text \<open>The statements that rely on their own claims alone.\<close>

definition calm :: "rstmt list \<Rightarrow> bool" where
  "calm p = (case p of Acquire x # q \<Rightarrow> False | Inc_strong c x # q \<Rightarrow> False | Request_weak w x # q \<Rightarrow> False | Dec_strong c x # q \<Rightarrow> False
     | Null_object c # q \<Rightarrow> False | Inc_weak c # q \<Rightarrow> False | Weak_check w c k # q \<Rightarrow> False | Weak_cas w v v' # q \<Rightarrow> False | _ \<Rightarrow> True)"

fun own_code :: "ref_world \<Rightarrow> tid \<Rightarrow> rstmt list \<Rightarrow> bool" where
  "own_code V t [] = True"
| "own_code V t (Acquire o' # p) = (case p of Update_ref r v # q \<Rightarrow> v = Some o' \<and> my_ref V t r \<and> clients V t q | _ \<Rightarrow> False)"
| "own_code V t (Inc_strong c o' # p) = (case p of Update_ref r v # q \<Rightarrow> v = Some o' \<and> my_ref V t r \<and> clients V t q | _ \<Rightarrow> False)"
| "own_code V t (Update_ref r v # p) = (my_ref V t r \<and> clients V t p)"
| "own_code V t (Move_ref r v # p) = (my_ref V t r \<and> clients V t p)"
| "own_code V t (Set_ref r v # p) = (my_ref V t r \<and> clients V t p)"
| "own_code V t (Release o' # p) = (calm p \<and> own_code V t p)"
| "own_code V t (Dec_strong c o' # p) = (calm p \<and> own_code V t p)"
| "own_code V t (Null_object c # p) = ((\<exists>o' q. p = Destroy o' # q) \<and> own_code V t p)"
| "own_code V t (Destroy o' # p) = (calm p \<and> own_code V t p)"
| "own_code V t (Free_object o' # p) = (calm p \<and> own_code V t p)"
| "own_code V t (Request_weak w o' # p) = (my_weak V t w \<and> clients V t p)"
| "own_code V t (Inc_weak c # p) =
     (case p of Weak_read w k # q \<Rightarrow> k = Store_weak (Some c) \<and> own_code V t p
      | Weak_check w c' k # q \<Rightarrow> c' = c \<and> own_code V t p | _ \<Rightarrow> False)"
| "own_code V t (Weak_read w k # p) =
     (my_weak V t w \<and> own_reader V t k \<and> (case k of Store_weak v \<Rightarrow> calm p \<and> own_code V t p | _ \<Rightarrow> clients V t p))"
| "own_code V t (Weak_check w c k # p) =
     (my_weak V t w \<and> own_reader V t k \<and> (case k of Store_weak v \<Rightarrow> calm p \<and> own_code V t p | _ \<Rightarrow> clients V t p))"
| "own_code V t (Weak_cas w q v # p) = (my_weak V t w \<and> calm p \<and> own_code V t p)"
| "own_code V t (Dec_weak_twice c # p) = (calm p \<and> own_code V t p)"
| "own_code V t (Dec_weak c # p) = (calm p \<and> own_code V t p)"
| "own_code V t (Delete_counters c # p) = (calm p \<and> own_code V t p)"
| "own_code V t (Lock_strong c r # p) = (my_ref V t r \<and> clients V t p)"
| "own_code V t (Read_object c r # p) = (my_ref V t r \<and> clients V t p)"
| "own_code V t (i # p) = (own_client V t i \<and> clients V t p)"

lemma clients_own_code: "clients V t p \<Longrightarrow> own_code V t p"
  by (cases "(V, t, p)" rule: own_code.cases) auto

lemma calm_simps [simp]:
  "calm []" "calm (Update_ref r v # p)" "calm (Move_ref r v # p)" "calm (Set_ref r v # p)" "calm (Release x # p)" "calm (Destroy x # p)"
  "calm (Free_object x # p)" "calm (Weak_read w k # p)" "calm (Dec_weak_twice c # p)" "calm (Dec_weak c # p)"
  "calm (Delete_counters c # p)" "calm (Lock_strong c r # p)" "calm (Read_object c r # p)"
  by (simp_all add: calm_def)

lemma clients_calm: "clients V t p \<Longrightarrow> calm p"
  by (auto simp: calm_def split: list.splits rstmt.splits)

lemma clients_lsum:
  "clients V t p \<Longrightarrow> lsum (strong_tok x) p = 0 \<and> lsum (weak_tok y) p = 0 \<and> lsum cost p = 0 \<and> lsum (kill_tok x) p = 0 \<and>
     lsum (delete_tok y) p = 0 \<and> lsum (lock_tok y) p = 0 \<and> sets p = {} \<and> Free_object x \<notin> set p"
proof (induction p)
  case (Cons i p)
  then show ?case by (cases i) auto
qed simp

lemma own_code_strong: "own_code V t p \<Longrightarrow> 0 \<le> lsum (strong_tok x) p"
proof (induction V t p rule: own_code.induct)
qed (auto simp: clients_lsum split: list.splits rstmt.splits reader.splits)

lemma own_code_weak: "own_code V t p \<Longrightarrow> 0 \<le> lsum (weak_tok x) p"
proof (induction p rule: length_induct)
  case (1 p)
  have IH: "0 \<le> lsum (weak_tok x) q" if "length q < length p" "own_code V t q" for q using 1(1) that by blast
  show ?case
    using 1(2) IH
    by (cases "(V, t, p)" rule: own_code.cases)
       (auto simp: clients_lsum intro!: add_nonneg_nonneg split: list.splits rstmt.splits reader.splits)
qed

lemma less_add_pos: "a \<le> b \<Longrightarrow> 0 < k \<Longrightarrow> a < k + (b :: int)"
  by simp

lemma own_code_lock: "own_code V t p \<Longrightarrow> lsum (lock_tok x) p \<le> lsum (weak_tok x) p"
proof (induction p rule: length_induct)
  case (1 p)
  have IH: "lsum (lock_tok x) q \<le> lsum (weak_tok x) q" if "length q < length p" "own_code V t q" for q using 1(1) that by blast
  show ?case
    using 1(2) IH
    by (cases "(V, t, p)" rule: own_code.cases)
       (auto simp: clients_lsum intro!: add_increasing less_add_pos split: list.splits rstmt.splits reader.splits)
qed

lemma cost_nonneg [simp]: "0 \<le> cost i"
  by (cases i rule: cost.cases) auto

lemma tok_cost: "strong_tok x i + lock_tok y i \<le> cost i" "weak_tok y i \<le> cost i"
  by (cases i rule: cost.cases; simp)+

lemma other_tok [simp]: "0 \<le> lock_tok y i" "0 \<le> kill_tok x i" "0 \<le> delete_tok y i"
  by (cases i; simp)+

lemma lsum_nonneg: "(\<And>i. 0 \<le> f i) \<Longrightarrow> 0 \<le> lsum f p"
  by (induction p) (auto intro: add_nonneg_nonneg)

lemma lsum_mono: "(\<And>i. f i \<le> g i) \<Longrightarrow> lsum f p \<le> lsum g p"
  by (induction p) (auto intro: add_mono)

lemma lsum_add: "lsum (\<lambda>i. f i + g i) p = lsum f p + lsum g p"
  by (induction p) simp_all

lemma lsum_cost:
  "lsum (strong_tok x) p + lsum (lock_tok y) p \<le> lsum cost p" "lsum (weak_tok y) p \<le> lsum cost p"
  using lsum_mono [of "\<lambda>i. strong_tok x i + lock_tok y i" cost p] lsum_mono [of "weak_tok y" cost p] tok_cost
  by (simp_all add: lsum_add)

subsection \<open>The invariant\<close>

text \<open>The count of \<open>n\<close> references.\<close>

definition dbl :: "int \<Rightarrow> 32 word" where
  "dbl n = word_of_int (2 * n)"

definition has_ref :: "ref_world \<Rightarrow> mem \<Rightarrow> tid \<Rightarrow> oid \<Rightarrow> bool" where
  "has_ref V s t x \<longleftrightarrow> (\<exists>r. my_ref V t r \<and> refs s r = Some x \<and> r \<notin> sets (pending s t))"

text \<open>What the first statement of a thread relies on beside its claims.\<close>

fun guarded_by :: "ref_world \<Rightarrow> mem \<Rightarrow> tid \<Rightarrow> rstmt list \<Rightarrow> bool" where
  "guarded_by V s t (Acquire x # p) = has_ref V s t x"
| "guarded_by V s t (Inc_strong c x # p) = (has_ref V s t x \<and> objects s x = Some (Some c))"
| "guarded_by V s t (Request_weak w x # p) = has_ref V s t x"
| "guarded_by V s t (Dec_strong c x # p) = (objects s x = Some (Some c))"
| "guarded_by V s t (Null_object c # p) = (\<exists>x q. p = Destroy x # q \<and> objects s x = Some (Some c))"
| "guarded_by V s t (Inc_weak c # p) =
     ((case p of Weak_check w c' k # q \<Rightarrow> weaks s w = Some c | _ \<Rightarrow> True) \<and> ((\<exists>x. has_ref V s t x \<and> objects s x = Some (Some c)) \<or> (\<exists>w. my_weak V t w \<and> weaks s w = Some c) \<or>
      2 \<le> lsum (weak_tok c) p))"
| "guarded_by V s t (Weak_check w c k # p) = (weaks s w = Some c)"
| "guarded_by V s t (Weak_cas w q v # p) = (weaks s w = q)"
| "guarded_by V s t p = True"

definition code_ok :: "ref_world \<Rightarrow> mem \<Rightarrow> tid \<Rightarrow> bool" where
  "code_ok V s t \<longleftrightarrow> own_code V t (pending s t) \<and> guarded_by V s t (pending s t) \<and> lsum cost (pending s t) \<le> 3"

definition object_ok :: "ref_world \<Rightarrow> mem \<Rightarrow> oid \<Rightarrow> bool" where
  "object_ok V s x \<longleftrightarrow>
     (case objects s x of
        None \<Rightarrow> strongs V s x = 0 \<and> tot V (kill_tok x) s = 0
      | Some None \<Rightarrow> False
      | Some (Some c) \<Rightarrow>
          let n = strongs V s x + tot V (lock_tok c) s in
          (tot V (kill_tok x) s = 0 \<and> 1 \<le> n \<and>
             (\<exists>k. counts s c = Some k \<and> strongReferenceCount k = dbl n \<and> count_object k = Some x)) \<or>
          (tot V (kill_tok x) s = 1 \<and> n = 0 \<and> (dying V s x \<or> (\<exists>k. counts s c = Some k \<and> odd (strongReferenceCount k)))))"

definition counters_ok :: "ref_world \<Rightarrow> mem \<Rightarrow> cid \<Rightarrow> bool" where
  "counters_ok V s c \<longleftrightarrow>
     (case counts s c of
        None \<Rightarrow> weaks_of V s c = 0 \<and> tot V (delete_tok c) s = 0
      | Some k \<Rightarrow>
          (1 \<le> weaks_of V s c \<and> tot V (delete_tok c) s = 0 \<and> weakReferenceCount k = dbl (weaks_of V s c) \<or>
           weaks_of V s c = 0 \<and> tot V (delete_tok c) s = 1) \<and>
          (if even (strongReferenceCount k) then \<exists>x. objects s x = Some (Some c) \<and> tot V (kill_tok x) s = 0
           else tot V (lock_tok c) s = 0))"

definition ids_ok :: "mem \<Rightarrow> bool" where
  "ids_ok s \<longleftrightarrow> (\<forall>x. objects s x \<noteq> None \<longrightarrow> x < next_oid s) \<and> (\<forall>c. counts s c \<noteq> None \<longrightarrow> c < next_cid s) \<and>
     (\<forall>x c. objects s x = Some (Some c) \<longrightarrow> c < next_cid s \<and> (\<forall>x'. objects s x' = Some (Some c) \<longrightarrow> x' = x))"

definition mem_ok :: "ref_world \<Rightarrow> mem \<Rightarrow> bool" where
  "mem_ok V s \<longleftrightarrow> (\<forall>t<nthreads V. code_ok V s t) \<and> (\<forall>t\<ge>nthreads V. pending s t = []) \<and>
     (\<forall>x. object_ok V s x) \<and> (\<forall>c. counters_ok V s c) \<and> ids_ok s \<and> (\<forall>r\<ge>nrefs V. refs s r = None) \<and> (\<forall>w\<ge>nweaks V. weaks s w = None)"

definition small_world :: "ref_world \<Rightarrow> bool" where
  "small_world V \<longleftrightarrow> int (nrefs V) + 3 * int (nthreads V) < 2 ^ 31 - 1 \<and> int (nweaks V) + 3 * int (nthreads V) < 2 ^ 31 - 2 \<and>
     (\<forall>r<nrefs V. ref_owner V r < nthreads V) \<and> (\<forall>w<nweaks V. weak_owner V w < nthreads V)"

subsection \<open>The counters\<close>

lemma count_even [simp]: "even (dbl n)"
  by (simp add: dbl_def)

lemma and_one_zero: "n AND 1 \<noteq> 0 \<longleftrightarrow> odd (n :: 32 word)"
  by (simp add: and_one_eq mod2_eq_if)

lemma increase_even: "even (increaseCount n) \<longleftrightarrow> even n"
  by (simp add: increaseCount_def)

lemma increase_count: "increaseCount (dbl n) = dbl (n + 1)"
  by (simp add: dbl_def increaseCount_def wi_hom_add [symmetric] algebra_simps)

lemma count_nonzero: "0 < n \<Longrightarrow> n < 2 ^ 31 \<Longrightarrow> (word_of_int (2 * n) :: 32 word) \<noteq> 0"
proof
  assume n: "0 < n" "n < 2 ^ 31" and "(word_of_int (2 * n) :: 32 word) = 0"
  then have "uint (word_of_int (2 * n) :: 32 word) = 0" by (simp only: uint_0_eq)
  then have "2 * n mod 2 ^ LENGTH(32) = 0" unfolding uint_word_of_int .
  then show False using n by simp
qed

lemma decrement_count:
  assumes "1 \<le> n" "n < 2 ^ 31"
  shows "decrementAndTestAndSet (dbl n) = (if n = 1 then (1, 1) else (0, dbl (n - 1)))"
proof (cases "n = 1")
  case True
  then show ?thesis by (simp add: dbl_def decrementAndTestAndSet_def Let_def)
next
  case False
  have m: "(word_of_int (2 * n) :: 32 word) - 2 = word_of_int (2 * (n - 1))"
    by (simp add: wi_hom_sub [symmetric] algebra_simps)
  have "(word_of_int (2 * (n - 1)) :: 32 word) \<noteq> 0" using False assms by (intro count_nonzero) auto
  moreover have "(word_of_int (2 * n) - word_of_int (2 * (n - 1)) :: 32 word) = 2"
    using m by (metis add_diff_cancel_left' diff_add_cancel)
  ultimately show ?thesis using False m by (simp add: dbl_def decrementAndTestAndSet_def Let_def)
qed

lemma tryFinalDecrement_count:
  assumes "1 \<le> n" "n < 2 ^ 31"
  shows "tryFinalDecrement (dbl n) = (if n = 1 then (True, 1) else (False, dbl n))"
proof -
  have "dbl n = 2 \<longleftrightarrow> n = 1"
  proof
    assume "dbl n = 2"
    then have "decrementAndTestAndSet (dbl n) = (1, 1)" by (simp add: decrementAndTestAndSet_def)
    then show "n = 1" using decrement_count [OF assms] by (auto split: if_splits)
  qed (simp add: dbl_def)
  then show ?thesis by (simp add: tryFinalDecrement_def)
qed

subsection \<open>Sums over the threads\<close>

lemma tot_upd:
  assumes "t < nthreads V" "pending s' = (pending s)(t := p')"
  shows "tot V f s' = tot V f s - lsum f (pending s t) + lsum f p'"
  using assms by (simp add: tot_def sum.remove [of "{..<nthreads V}" t])

lemma tot_ge:
  assumes "\<And>u. u < nthreads V \<Longrightarrow> 0 \<le> lsum f (pending s u)" "t < nthreads V"
  shows "lsum f (pending s t) \<le> tot V f s"
  unfolding tot_def using assms by (intro member_le_sum) auto

lemma mem_code: "mem_ok V s \<Longrightarrow> t < nthreads V \<Longrightarrow> code_ok V s t"
  by (simp add: mem_ok_def)

lemma code_nonneg:
  assumes "mem_ok V s" "t < nthreads V"
  shows "0 \<le> lsum (strong_tok x) (pending s t)" "0 \<le> lsum (weak_tok c) (pending s t)" "0 \<le> lsum (kill_tok x) (pending s t)"
    "0 \<le> lsum (delete_tok c) (pending s t)" "0 \<le> lsum (lock_tok c) (pending s t)"
  using mem_code [OF assms] own_code_strong own_code_weak by (auto intro: lsum_nonneg simp: code_ok_def)

lemma tot_claims:
  assumes "mem_ok V s" "t < nthreads V"
  shows "lsum (strong_tok x) (pending s t) \<le> tot V (strong_tok x) s" "lsum (weak_tok c) (pending s t) \<le> tot V (weak_tok c) s"
    "lsum (kill_tok x) (pending s t) \<le> tot V (kill_tok x) s" "lsum (delete_tok c) (pending s t) \<le> tot V (delete_tok c) s"
    "lsum (lock_tok c) (pending s t) \<le> tot V (lock_tok c) s"
  using assms code_nonneg [OF assms(1)] by (auto intro: tot_ge)

lemma tot_nonneg:
  assumes "mem_ok V s"
  shows "0 \<le> tot V (strong_tok x) s" "0 \<le> tot V (weak_tok c) s" "0 \<le> tot V (kill_tok x) s" "0 \<le> tot V (delete_tok c) s"
    "0 \<le> tot V (lock_tok c) s"
  unfolding tot_def using code_nonneg [OF assms] by (auto intro: sum_nonneg)

lemma cells_nonneg: "0 \<le> cells V s x" "0 \<le> weak_cells V s c" "0 \<le> owned V s c" "owned V s c \<le> 1"
  by (simp_all add: cells_def weak_cells_def owned_def sum_nonneg)

lemma cells_le: "cells V s x \<le> int (nrefs V)" "weak_cells V s c \<le> int (nweaks V)"
  unfolding cells_def weak_cells_def
  by (rule order_trans [OF sum_bounded_above [where K = 1]]; simp)+

lemma tot_cost: "mem_ok V s \<Longrightarrow> tot V cost s \<le> 3 * int (nthreads V)"
  unfolding tot_def using mem_code
  by (intro order_trans [OF sum_bounded_above [where K = 3]]) (auto simp: code_ok_def)

lemma counts_fit:
  assumes "mem_ok V s" "small_world V"
  shows "strongs V s x + tot V (lock_tok c) s < 2 ^ 31 - 1" "weaks_of V s c < 2 ^ 31 - 1"
proof -
  have "tot V (strong_tok x) s + tot V (lock_tok c) s \<le> tot V cost s" "tot V (weak_tok c) s \<le> tot V cost s"
    unfolding tot_def sum.distrib [symmetric] by (intro sum_mono lsum_cost)+
  then show "strongs V s x + tot V (lock_tok c) s < 2 ^ 31 - 1" "weaks_of V s c < 2 ^ 31 - 1"
    using tot_cost [OF assms(1)] cells_le(1) [of V s x] cells_le(2) [of V s c] cells_nonneg(4) [of V s c]
      assms(2) [unfolded small_world_def]
    unfolding strongs_def weaks_of_def by linarith+
qed

subsection \<open>What a claim gives\<close>

lemma has_ref_cells:
  assumes "has_ref V s t x"
  shows "1 \<le> cells V s x"
proof -
  obtain r where r: "my_ref V t r" "refs s r = Some x" "r \<notin> sets (pending s t)" using assms by (auto simp: has_ref_def)
  have "of_bool (refs s r = Some x \<and> r \<notin> sets (pending s (ref_owner V r))) \<le> cells V s x"
    unfolding cells_def by (rule member_le_sum) (use r in \<open>auto simp: my_ref_def\<close>)
  then show ?thesis using r by (simp add: my_ref_def)
qed

lemma weak_cell_claim: "my_weak V t w \<Longrightarrow> weaks s w = Some c \<Longrightarrow> 1 \<le> weak_cells V s c"
  unfolding weak_cells_def my_weak_def
  using member_le_sum [of w "{..<nweaks V}" "\<lambda>w. of_bool (weaks s w = Some c) :: int"] by simp

lemma kill_Free: "Free_object x \<in> set p \<Longrightarrow> 1 \<le> lsum (kill_tok x) p"
proof (induction p)
  case (Cons i p)
  have "0 \<le> kill_tok x i" "0 \<le> lsum (kill_tok x) p" by (auto intro: lsum_nonneg)
  then show ?case using Cons by (cases "i = Free_object x") (auto intro: add_increasing)
qed simp

lemma dying_kill: "mem_ok V s \<Longrightarrow> dying V s x \<Longrightarrow> 1 \<le> tot V (kill_tok x) s"
  unfolding dying_def using kill_Free tot_claims(3) order_trans by metis

lemma strong_claim:
  assumes "mem_ok V s" "1 \<le> strongs V s x"
  obtains c k where "objects s x = Some (Some c)" "counts s c = Some k" "tot V (kill_tok x) s = 0" "\<not> dying V s x"
    "strongReferenceCount k = dbl (strongs V s x + tot V (lock_tok c) s)" "count_object k = Some x"
    "1 \<le> strongs V s x + tot V (lock_tok c) s" "1 \<le> weaks_of V s c"
proof -
  have o: "object_ok V s x" using assms(1) by (simp add: mem_ok_def)
  then obtain c where c: "objects s x = Some (Some c)"
    using assms(2) by (auto simp: object_ok_def split: option.splits)
  have n: "1 \<le> strongs V s x + tot V (lock_tok c) s" using assms(2) tot_nonneg(5) [OF assms(1), of c] by simp
  then obtain k where k: "counts s c = Some k" "tot V (kill_tok x) s = 0"
    "strongReferenceCount k = dbl (strongs V s x + tot V (lock_tok c) s)" "count_object k = Some x"
    using o c by (auto simp: object_ok_def Let_def)
  have d: "\<not> dying V s x" using dying_kill [OF assms(1)] k(2) by force
  then have "owned V s c = 1" using c by (auto simp: owned_def)
  then have "1 \<le> weaks_of V s c" using tot_nonneg(2) [OF assms(1), of c] cells_nonneg(2) [of V s c] by (simp add: weaks_of_def)
  then show ?thesis using that c k n d by blast
qed

lemma weak_claim:
  assumes "mem_ok V s" "1 \<le> weaks_of V s c"
  obtains k where "counts s c = Some k" "tot V (delete_tok c) s = 0" "weakReferenceCount k = dbl (weaks_of V s c)"
proof -
  have "counters_ok V s c" using assms(1) by (simp add: mem_ok_def)
  then show ?thesis using that assms(2) by (auto simp: counters_ok_def split: option.splits)
qed

lemma strongs_claims:
  assumes "mem_ok V s" "t < nthreads V"
  shows "has_ref V s t x \<Longrightarrow> 1 \<le> strongs V s x" "1 \<le> lsum (strong_tok x) (pending s t) \<Longrightarrow> 1 \<le> strongs V s x"
    "1 \<le> lsum (weak_tok c) (pending s t) \<Longrightarrow> 1 \<le> weaks_of V s c"
    "my_weak V t w \<Longrightarrow> weaks s w = Some c \<Longrightarrow> 1 \<le> weaks_of V s c"
proof -
  note nn = tot_nonneg [OF assms(1)] cells_nonneg tot_claims [OF assms]
  show "has_ref V s t x \<Longrightarrow> 1 \<le> strongs V s x"
    using has_ref_cells [of V s t x] nn(1) [of x] unfolding strongs_def by linarith
  show "1 \<le> lsum (strong_tok x) (pending s t) \<Longrightarrow> 1 \<le> strongs V s x"
    using nn(10) [of x] nn(6) [of V s x] unfolding strongs_def by linarith
  show "1 \<le> lsum (weak_tok c) (pending s t) \<Longrightarrow> 1 \<le> weaks_of V s c"
    using nn(11) [of c] nn(7) [of V s c] nn(8) [of V s c] unfolding weaks_of_def by linarith
  show "my_weak V t w \<Longrightarrow> weaks s w = Some c \<Longrightarrow> 1 \<le> weaks_of V s c"
    using weak_cell_claim [of V t w s c] nn(2) [of c] nn(8) [of V s c] unfolding weaks_of_def by linarith
qed

subsection \<open>Frames\<close>

lemma object_ok_cong:
  assumes "objects s' x = objects s x" "strongs V s' x = strongs V s x" "tot V (kill_tok x) s' = tot V (kill_tok x) s"
    "dying V s' x = dying V s x"
    "\<And>c. objects s x = Some (Some c) \<Longrightarrow> tot V (lock_tok c) s' = tot V (lock_tok c) s \<and> counts s' c = counts s c"
  shows "object_ok V s' x = object_ok V s x"
  using assms by (auto simp: object_ok_def split: option.splits)

lemma counters_ok_cong:
  assumes "counts s' c = counts s c" "weaks_of V s' c = weaks_of V s c" "tot V (delete_tok c) s' = tot V (delete_tok c) s"
    "tot V (lock_tok c) s' = tot V (lock_tok c) s"
    "\<And>x. objects s' x = Some (Some c) \<longleftrightarrow> objects s x = Some (Some c)"
    "\<And>x. objects s x = Some (Some c) \<Longrightarrow> tot V (kill_tok x) s' = tot V (kill_tok x) s"
  shows "counters_ok V s' c = counters_ok V s c"
proof -
  have "(\<exists>x. objects s' x = Some (Some c) \<and> tot V (kill_tok x) s' = 0) \<longleftrightarrow> (\<exists>x. objects s x = Some (Some c) \<and> tot V (kill_tok x) s = 0)"
    using assms(5,6) by metis
  then show ?thesis using assms(1-4) by (simp add: counters_ok_def split: option.splits)
qed

lemma dying_upd:
  assumes "t < nthreads V" "pending s' = (pending s)(t := p')" "Free_object x \<in> set p' \<longleftrightarrow> Free_object x \<in> set (pending s t)"
  shows "dying V s' x = dying V s x"
  using assms unfolding dying_def by (metis fun_upd_apply)

lemma guard_frame:
  assumes "mem_ok V s" "u < nthreads V" "pending s' u = pending s u"
    "\<And>r. my_ref V u r \<Longrightarrow> refs s' r = refs s r" "\<And>w. my_weak V u w \<Longrightarrow> weaks s' w = weaks s w"
    "\<And>x y. objects s x = Some y \<Longrightarrow> tot V (kill_tok x) s = 0 \<or> 1 \<le> lsum (kill_tok x) (pending s u) \<Longrightarrow> objects s' x = Some y"
  shows "code_ok V s' u"
proof -
  have c: "own_code V u (pending s u)" "guarded_by V s u (pending s u)" "lsum cost (pending s u) \<le> 3"
    using mem_code [OF assms(1,2)] by (simp_all add: code_ok_def)
  have h: "has_ref V s' u x" if "has_ref V s u x" for x using that assms(3,4) by (auto simp: has_ref_def)
  have o: "objects s' x = Some (Some c)" if "objects s x = Some (Some c)" "1 \<le> strongs V s x" for x c
    using strong_claim [OF assms(1) that(2)] assms(6) [OF that(1)] by metis
  have "guarded_by V s' u (pending s u)"
  proof (cases "\<exists>c p. pending s u = Inc_weak c # p")
    case True
    then obtain c0 p where p: "pending s u = Inc_weak c0 # p" by blast
    have g: "(\<exists>x. has_ref V s u x \<and> objects s x = Some (Some c0)) \<or> (\<exists>w. my_weak V u w \<and> weaks s w = Some c0) \<or> 2 \<le> lsum (weak_tok c0) p"
      and k: "case p of Weak_check w c' k # q \<Rightarrow> weaks s w = Some c0 \<and> my_weak V u w | _ \<Rightarrow> True"
      using c(1,2) p by (auto split: list.splits rstmt.splits)
    have "(\<exists>x. has_ref V s' u x \<and> objects s' x = Some (Some c0)) \<or> (\<exists>w. my_weak V u w \<and> weaks s' w = Some c0) \<or> 2 \<le> lsum (weak_tok c0) p"
      using g h o strongs_claims(1) [OF assms(1,2)] assms(5) by metis
    moreover have "case p of Weak_check w c' k # q \<Rightarrow> weaks s' w = Some c0 | _ \<Rightarrow> True"
      using k assms(5) by (simp split: list.splits rstmt.splits)
    ultimately show ?thesis using p by simp
  next
    case False
    have "1 \<le> strongs V s x" if "pending s u = Dec_strong c x # p" for c x p
      using that c(1) own_code_strong [of V u p x] by (intro strongs_claims(2) [OF assms(1,2)]) simp
    moreover have "objects s' x = Some (Some c)" if "pending s u = Null_object c' # Destroy x # p" "objects s x = Some (Some c)" for c c' x p
      using that lsum_nonneg [of "kill_tok x" p] by (intro assms(6)) auto
    ultimately show ?thesis using False c h o strongs_claims(1) [OF assms(1,2)] assms(5)
      by (cases "(V, s, u, pending s u)" rule: guarded_by.cases) (auto simp: my_weak_def)
  qed
  then show ?thesis using c assms(3) by (simp add: code_ok_def)
qed

subsection \<open>Steps\<close>

text \<open>A step that moves claims around without touching a count.\<close>

lemma neutral_step:
  assumes "mem_ok V s" "t < nthreads V" "pending s t = i # p" "pending s' = (pending s)(t := q @ p)"
    "objects s' = objects s" "counts s' = counts s" "next_oid s' = next_oid s" "next_cid s' = next_cid s"
    "\<And>x. cells V s' x + lsum (strong_tok x) q = cells V s x + strong_tok x i"
    "\<And>c. weak_cells V s' c + lsum (weak_tok c) q = weak_cells V s c + weak_tok c i"
    "\<And>c. lsum (lock_tok c) q = lock_tok c i" "\<And>x. lsum (kill_tok x) q = kill_tok x i" "\<And>c. lsum (delete_tok c) q = delete_tok c i"
    "\<And>x. Free_object x \<notin> set q" "\<And>x. i \<noteq> Free_object x"
    "\<And>r. r \<ge> nrefs V \<Longrightarrow> refs s' r = None" "\<And>w. w \<ge> nweaks V \<Longrightarrow> weaks s' w = None"
    "\<And>r u. u \<noteq> t \<Longrightarrow> my_ref V u r \<Longrightarrow> refs s' r = refs s r" "\<And>w u. u \<noteq> t \<Longrightarrow> my_weak V u w \<Longrightarrow> weaks s' w = weaks s w"
    "code_ok V s' t"
  shows "mem_ok V s'"
proof -
  have tot: "tot V f s' = tot V f s - f i + lsum f q" for f using tot_upd [OF assms(2,4), of f] assms(3) by simp
  have "dying V s' x = dying V s x" for x
    by (rule dying_upd [OF assms(2,4)]) (use assms(3,14) assms(15) [of x] in auto)
  then have d: "dying V s' = dying V s" by (simp add: fun_eq_iff)
  then have w: "owned V s' = owned V s" using assms(5) by (simp add: owned_def fun_eq_iff)
  have "object_ok V s' x" for x
    using object_ok_cong [of s' x s V] assms(1) tot [of "strong_tok x"] assms(9) [of x] tot assms(5,6,11,12) d
    by (simp add: strongs_def mem_ok_def)
  moreover have "counters_ok V s' c" for c
    using counters_ok_cong [of s' c s V] assms(1) tot [of "weak_tok c"] assms(10) [of c] tot assms(5,6,11,12,13) w
    by (simp add: weaks_of_def mem_ok_def)
  moreover have "code_ok V s' u" if "u < nthreads V" for u
  proof (cases "u = t")
    case False
    then show ?thesis using that assms(4,5,18,19) by (intro guard_frame [OF assms(1)]) auto
  qed (simp add: assms(20))
  moreover have "ids_ok s'" using assms(1,5-8) by (simp add: mem_ok_def ids_ok_def)
  ultimately show ?thesis using assms(1,2,4,16,17) by (auto simp: mem_ok_def)
qed

lemma sum_change_one:
  fixes f g :: "nat \<Rightarrow> int"
  assumes "r < n" "\<And>i. i \<noteq> r \<Longrightarrow> g i = f i"
  shows "(\<Sum>i<n. g i) = (\<Sum>i<n. f i) - f r + g r"
proof -
  have "(\<Sum>i\<in>{..<n} - {r}. g i) = (\<Sum>i\<in>{..<n} - {r}. f i)" using assms(2) by (intro sum.cong) auto
  then show ?thesis using assms(1) by (simp add: sum.remove [of "{..<n}" r])
qed

lemma cells_same:
  assumes "pending s' = (pending s)(t := p')" "refs s' = refs s" "sets p' = sets (pending s t)"
  shows "cells V s' = cells V s"
proof -
  have "sets (pending s' u) = sets (pending s u)" for u using assms(1,3) by simp
  then show ?thesis using assms(2) by (simp add: cells_def fun_eq_iff)
qed

lemma cells_upd:
  assumes "r < nrefs V" "\<And>r'. r' \<noteq> r \<Longrightarrow> refs s' r' = refs s r' \<and>
      (r' \<in> sets (pending s' (ref_owner V r')) \<longleftrightarrow> r' \<in> sets (pending s (ref_owner V r')))"
  shows "cells V s' x = cells V s x - of_bool (refs s r = Some x \<and> r \<notin> sets (pending s (ref_owner V r)))
    + of_bool (refs s' r = Some x \<and> r \<notin> sets (pending s' (ref_owner V r)))"
  unfolding cells_def using assms by (intro sum_change_one) auto

lemma weak_cells_same: "weaks s' = weaks s \<Longrightarrow> weak_cells V s' = weak_cells V s"
  by (simp add: weak_cells_def fun_eq_iff)

lemma weak_cells_upd:
  assumes "w < nweaks V" "weaks s' = (weaks s)(w := v)"
  shows "weak_cells V s' c = weak_cells V s c - of_bool (weaks s w = Some c) + of_bool (v = Some c)"
  using sum_change_one [OF assms(1), of "\<lambda>w. of_bool (weaks s' w = Some c)" "\<lambda>w. of_bool (weaks s w = Some c)"] assms(2)
  unfolding weak_cells_def by (simp del: sum_of_bool_eq)

lemma rgoto_simps [simp]:
  "pending (rgoto t p s) = (pending s)(t := p)" "objects (rgoto t p s) = objects s" "counts (rgoto t p s) = counts s"
  "refs (rgoto t p s) = refs s" "weaks (rgoto t p s) = weaks s" "next_oid (rgoto t p s) = next_oid s" "next_cid (rgoto t p s) = next_cid s"
  by (simp_all add: rgoto_def)

lemma set_cell_simps [simp]:
  "pending (set_cell r v s) = pending s" "objects (set_cell r v s) = objects s" "counts (set_cell r v s) = counts s"
  "refs (set_cell r v s) = (refs s)(r := v)" "weaks (set_cell r v s) = weaks s" "next_oid (set_cell r v s) = next_oid s"
  "next_cid (set_cell r v s) = next_cid s"
  by (simp_all add: set_cell_def)

lemma set_weak_simps [simp]:
  "pending (set_weak w v s) = pending s" "objects (set_weak w v s) = objects s" "counts (set_weak w v s) = counts s"
  "refs (set_weak w v s) = refs s" "weaks (set_weak w v s) = (weaks s)(w := v)" "next_oid (set_weak w v s) = next_oid s"
  "next_cid (set_weak w v s) = next_cid s"
  by (simp_all add: set_weak_def)

lemma set_count_simps [simp]:
  "pending (set_count c k s) = pending s" "objects (set_count c k s) = objects s" "counts (set_count c k s) = (counts s)(c \<mapsto> k)"
  "refs (set_count c k s) = refs s" "weaks (set_count c k s) = weaks s" "next_oid (set_count c k s) = next_oid s"
  "next_cid (set_count c k s) = next_cid s"
  by (simp_all add: set_count_def)

text \<open>The steps that change only the code of their thread.\<close>

lemma code_step:
  assumes "mem_ok V s" "t < nthreads V" "pending s t = i # p" "s' = rgoto t (q @ p) s"
    "\<And>x. lsum (strong_tok x) q = strong_tok x i" "\<And>c. lsum (weak_tok c) q = weak_tok c i"
    "\<And>c. lsum (lock_tok c) q = lock_tok c i" "\<And>x. lsum (kill_tok x) q = kill_tok x i" "\<And>c. lsum (delete_tok c) q = delete_tok c i"
    "\<And>x. Free_object x \<notin> set q" "\<And>x. i \<noteq> Free_object x" "\<And>r v. i \<noteq> Set_ref r v" "sets q = {}"
    "own_code V t (q @ p)" "guarded_by V s' t (q @ p)" "lsum cost q \<le> cost i \<or> clients V t (i # p) \<and> lsum cost q \<le> 3"
  shows "mem_ok V s'"
proof (rule neutral_step [OF assms(1-3), where q = q])
  have m: "code_ok V s t" using mem_code [OF assms(1,2)] .
  show "code_ok V s' t" using assms(3,4,14-16) m clients_lsum [of V t p] by (auto simp: code_ok_def)
  have "cells V s' = cells V s" using assms(3,4,12,13) by (intro cells_same [of s' s t "q @ p"]) (auto simp: sets_def)
  then show "cells V s' x + lsum (strong_tok x) q = cells V s x + strong_tok x i" for x using assms(5) by simp
  have "weak_cells V s' = weak_cells V s" using assms(4) by (intro weak_cells_same) simp
  then show "weak_cells V s' c + lsum (weak_tok c) q = weak_cells V s c + weak_tok c i" for c using assms(6) by simp
qed (use assms(1,4,7-11) in \<open>auto simp: mem_ok_def\<close>)

lemma head_step:
  assumes "mem_ok V s" "t < nthreads V" "pending s t = i # p"
  shows "own_code V t (i # p)" "guarded_by V s t (i # p)" "cost i + lsum cost p \<le> 3"
  using mem_code [OF assms(1,2)] assms(3) by (simp_all add: code_ok_def)

lemma guarded_calm: "calm p \<Longrightarrow> guarded_by V s t p"
  by (cases "(V, s, t, p)" rule: guarded_by.cases) (auto simp: calm_def)

lemma guarded_clients [simp]: "clients V t p \<Longrightarrow> guarded_by V s t p"
  by (simp add: guarded_calm clients_calm)

lemmas code_facts = clients_own_code clients_calm guarded_calm newref_def weak_release_def after_read_def own_reader_def

lemma step_Assign_ref:
  assumes "mem_ok V s" "t < nthreads V" "pending s t = Assign_ref r r' # p" "ref_exec t (Assign_ref r r') p s = Inr s'"
  shows "mem_ok V s'"
proof -
  note h = head_step [OF assms(1-3)]
  then have c: "my_ref V t r" "my_ref V t r'" "clients V t p" "sets p = {}" using clients_lsum by auto
  note cs = code_step [OF assms(1-3)]
  consider "r = r'" | "r \<noteq> r'" "refs s r' = None" | x where "r \<noteq> r'" "refs s r' = Some x" by (cases "refs s r'") auto
  then show ?thesis
  proof cases
    case 1
    then show ?thesis using c assms(4) by (intro cs [where q = "[]"]) (auto simp: clients_own_code)
  next
    case 2
    then show ?thesis using c assms(4) by (intro cs [where q = "[Update_ref r None]"]) auto
  next
    case (3 x)
    then have "has_ref V s' t x" using c assms(4) by (auto simp: has_ref_def)
    then show ?thesis using 3 c assms(4) by (intro cs [where q = "[Acquire x, Update_ref r (Some x)]"]) auto
  qed
qed

lemma step_Use_ref:
  assumes "mem_ok V s" "t < nthreads V" "pending s t = Use_ref r # p" "ref_exec t (Use_ref r) p s = Inr s'"
  shows "mem_ok V s'"
  using head_step [OF assms(1-3)] assms(4)
  by (intro code_step [OF assms(1-3), where q = "[]"]) (auto simp: clients_own_code split: option.splits)

lemma step_Weak_of:
  assumes "mem_ok V s" "t < nthreads V" "pending s t = Weak_of w r # p" "ref_exec t (Weak_of w r) p s = Inr s'"
  shows "mem_ok V s'"
proof -
  have c: "my_weak V t w" "my_ref V t r" "clients V t p" "sets p = {}" using head_step [OF assms(1-3)] clients_lsum by auto
  show ?thesis
  proof (cases "refs s r")
    case None
    then show ?thesis using c assms(4)
      by (intro code_step [OF assms(1-3), where q = "[Weak_read w (Store_weak None)]"]) (auto simp: code_facts)
  next
    case (Some x)
    then have "has_ref V s' t x" using c assms(4) by (auto simp: has_ref_def)
    then show ?thesis using Some c assms(4) by (intro code_step [OF assms(1-3), where q = "[Request_weak w x]"]) auto
  qed
qed

lemma step_Assign_weak:
  assumes "mem_ok V s" "t < nthreads V" "pending s t = Assign_weak w w' # p" "ref_exec t (Assign_weak w w') p s = Inr s'"
  shows "mem_ok V s'"
proof -
  have c: "my_weak V t w" "my_weak V t w'" "clients V t p" "sets p = {}" using head_step [OF assms(1-3)] clients_lsum by auto
  then show ?thesis using assms(4)
    by (intro code_step [OF assms(1-3), where q = "if w = w' then [] else [Weak_read w' (Copy_weak w)]"])
       (auto simp: code_facts)
qed

lemma step_Clear_weak:
  assumes "mem_ok V s" "t < nthreads V" "pending s t = Clear_weak w # p" "ref_exec t (Clear_weak w) p s = Inr s'"
  shows "mem_ok V s'"
proof -
  have c: "my_weak V t w" "clients V t p" "sets p = {}" using head_step [OF assms(1-3)] clients_lsum by auto
  then show ?thesis using assms(4)
    by (intro code_step [OF assms(1-3), where q = "[Weak_read w (Store_weak None)]"]) (auto simp: code_facts)
qed

lemma step_Get_weak:
  assumes "mem_ok V s" "t < nthreads V" "pending s t = Get_weak r w # p" "ref_exec t (Get_weak r w) p s = Inr s'"
  shows "mem_ok V s'"
proof -
  have c: "my_weak V t w" "my_ref V t r" "clients V t p" "sets p = {}" using head_step [OF assms(1-3)] clients_lsum by auto
  then show ?thesis using assms(4)
    by (intro code_step [OF assms(1-3), where q = "[Weak_read w (Lock_weak r)]"]) (auto simp: code_facts)
qed

lemma step_Acquire:
  assumes "mem_ok V s" "t < nthreads V" "pending s t = Acquire x # p" "ref_exec t (Acquire x) p s = Inr s'"
  shows "mem_ok V s'"
proof -
  note h = head_step [OF assms(1-3)]
  have r: "has_ref V s t x" using h by simp
  obtain c k where x: "objects s x = Some (Some c)" using strong_claim [OF assms(1) strongs_claims(1) [OF assms(1,2) r]] .
  have "has_ref V s' t x" using r x assms(3,4) by (auto simp: has_ref_def)
  then show ?thesis using h x assms(4)
    by (intro code_step [OF assms(1-3), where q = "[Inc_strong c x]"]) auto
qed

lemma step_Release:
  assumes "mem_ok V s" "t < nthreads V" "pending s t = Release x # p" "ref_exec t (Release x) p s = Inr s'"
  shows "mem_ok V s'"
  using head_step [OF assms(1-3)] assms(4)
  by (auto intro!: code_step [OF assms(1-3), where q = "[Dec_strong c x]" for c] split: option.splits)

lemma step_Request_weak:
  assumes "mem_ok V s" "t < nthreads V" "pending s t = Request_weak w x # p" "ref_exec t (Request_weak w x) p s = Inr s'"
  shows "mem_ok V s'"
proof -
  note h = head_step [OF assms(1-3)]
  have r: "has_ref V s t x" "my_weak V t w" "clients V t p" using h by simp_all
  obtain c k where x: "objects s x = Some (Some c)" using strong_claim [OF assms(1) strongs_claims(1) [OF assms(1,2) r(1)]] .
  have "has_ref V s' t x" using r x assms(3,4) by (auto simp: has_ref_def newref_def)
  then show ?thesis using h x r assms(4)
    by (intro code_step [OF assms(1-3), where q = "[Inc_weak c, Weak_read w (Store_weak (Some c))]"]) (auto simp: code_facts)
qed

lemma step_Weak_read:
  assumes "mem_ok V s" "t < nthreads V" "pending s t = Weak_read w k # p" "ref_exec t (Weak_read w k) p s = Inr s'"
  shows "mem_ok V s'"
proof -
  note h = head_step [OF assms(1-3)]
  show ?thesis
  proof (cases "weaks s w")
    case None
    then show ?thesis using h assms(4)
      by (intro code_step [OF assms(1-3), where q = "after_read w None k"]) (auto simp: code_facts split: reader.splits)
  next
    case (Some c)
    then show ?thesis using h assms(4)
      by (intro code_step [OF assms(1-3), where q = "[Inc_weak c, Weak_check w c k]"])
         (auto simp: code_facts split: reader.splits)
  qed
qed

lemma step_Weak_check:
  assumes "mem_ok V s" "t < nthreads V" "pending s t = Weak_check w c k # p" "ref_exec t (Weak_check w c k) p s = Inr s'"
  shows "mem_ok V s'"
  using head_step [OF assms(1-3)] assms(4)
  by (intro code_step [OF assms(1-3), where q = "after_read w (Some c) k"])
     (auto simp: code_facts clients_lsum split: reader.splits)

text \<open>The steps that write a reference of their thread.\<close>

lemma set_cell_same: "set_cell r (refs s r) s = s"
  by (simp add: set_cell_def)

lemma cells_own_upd:
  assumes "my_ref V t r" "pending s' = (pending s)(t := p')" "refs s' = (refs s)(r := v)" "sets (pending s t) \<subseteq> {r}" "sets p' \<subseteq> {r}"
  shows "cells V s' x = cells V s x - of_bool (refs s r = Some x \<and> r \<notin> sets (pending s t)) + of_bool (v = Some x \<and> r \<notin> sets p')"
proof -
  have "refs s' r' = refs s r' \<and> (r' \<in> sets (pending s' (ref_owner V r')) \<longleftrightarrow> r' \<in> sets (pending s (ref_owner V r')))"
    if "r' \<noteq> r" for r' using that assms by auto
  then show ?thesis using cells_upd [of r V s' s x] assms by (simp add: my_ref_def)
qed

lemma ref_step_frame:
  assumes "mem_ok V s" "t < nthreads V" "pending s t = i # p" "s' = rgoto t (q @ p) (set_cell r v s)" "my_ref V t r"
    "\<And>x. cells V s' x + lsum (strong_tok x) q = cells V s x + strong_tok x i"
    "\<And>c. lsum (weak_tok c) q = weak_tok c i"
    "\<And>c. lsum (lock_tok c) q = lock_tok c i" "\<And>x. lsum (kill_tok x) q = kill_tok x i" "\<And>c. lsum (delete_tok c) q = delete_tok c i"
    "\<And>x. Free_object x \<notin> set q" "\<And>x. i \<noteq> Free_object x"
    "own_code V t (q @ p)" "guarded_by V s' t (q @ p)" "lsum cost q \<le> cost i \<or> clients V t (i # p) \<and> lsum cost q \<le> 3"
  shows "mem_ok V s'"
proof (rule neutral_step [OF assms(1-3), where q = q])
  have m: "code_ok V s t" using mem_code [OF assms(1,2)] .
  show "code_ok V s' t" using assms(3,4,13-15) m clients_lsum [of V t p] by (auto simp: code_ok_def)
  have "weak_cells V s' = weak_cells V s" using assms(4) by (intro weak_cells_same) simp
  then show "weak_cells V s' c + lsum (weak_tok c) q = weak_cells V s c + weak_tok c i" for c using assms(7) by simp
qed (use assms(1,4-12) in \<open>auto simp: mem_ok_def my_ref_def\<close>)

lemma step_Clear_ref:
  assumes "mem_ok V s" "t < nthreads V" "pending s t = Clear_ref r # p" "ref_exec t (Clear_ref r) p s = Inr s'"
  shows "mem_ok V s'"
proof -
  have c: "my_ref V t r" "clients V t p" "sets p = {}" using head_step [OF assms(1-3)] clients_lsum by auto
  show ?thesis
  proof (cases "refs s r")
    case None
    then show ?thesis using c assms(4) by (intro code_step [OF assms(1-3), where q = "[]"]) (auto simp: clients_own_code)
  next
    case (Some x)
    then have s': "s' = rgoto t ([Release x, Set_ref r None] @ p) (set_cell r (refs s r) s)"
      unfolding set_cell_same using assms(4) Some by simp
    have "cells V s' y = cells V s y - of_bool (refs s r = Some y)" for y
      using cells_own_upd [OF c(1), of s' s "[Release x, Set_ref r None] @ p" "refs s r" y] c assms(3) s' by simp
    then show ?thesis using c Some
      by (intro ref_step_frame [OF assms(1-3) s']) (auto simp: code_facts)
  qed
qed

lemma step_Move_ref:
  assumes "mem_ok V s" "t < nthreads V" "pending s t = Move_ref r v # p" "ref_exec t (Move_ref r v) p s = Inr s'"
  shows "mem_ok V s'"
proof -
  have c: "my_ref V t r" "clients V t p" "sets p = {}" using head_step [OF assms(1-3)] clients_lsum by auto
  let ?q = "(case refs s r of None \<Rightarrow> [] | Some x \<Rightarrow> [Release x]) @ [Set_ref r v]"
  have s': "s' = rgoto t (?q @ p) (set_cell r (refs s r) s)" using assms(4) by (simp add: set_cell_same)
  have "sets (?q @ p) = {r}" using c by (auto split: option.splits)
  then have "cells V s' y = cells V s y - of_bool (refs s r = Some y)" for y
    using cells_own_upd [OF c(1), of s' s "?q @ p" "refs s r" y] c assms(3) s' by simp
  then show ?thesis using c
    by (intro ref_step_frame [OF assms(1-3) s']) (auto simp: code_facts split: option.splits)
qed

lemma step_Update_ref:
  assumes "mem_ok V s" "t < nthreads V" "pending s t = Update_ref r v # p" "ref_exec t (Update_ref r v) p s = Inr s'"
  shows "mem_ok V s'"
proof -
  have c: "my_ref V t r" "clients V t p" "sets p = {}" using head_step [OF assms(1-3)] clients_lsum by auto
  let ?q = "(case refs s r of None \<Rightarrow> [] | Some x \<Rightarrow> [Release x])"
  have s': "s' = rgoto t (?q @ p) (set_cell r v s)" using assms(4) by simp
  have "sets (?q @ p) = {}" using c by (auto split: option.splits)
  then have "cells V s' y = cells V s y - of_bool (refs s r = Some y) + of_bool (v = Some y)" for y
    using cells_own_upd [OF c(1), of s' s "?q @ p" v y] c assms(3) s' by simp
  then show ?thesis using c
    by (intro ref_step_frame [OF assms(1-3) s']) (auto simp: code_facts split: option.splits)
qed

lemma step_Set_ref:
  assumes "mem_ok V s" "t < nthreads V" "pending s t = Set_ref r v # p" "ref_exec t (Set_ref r v) p s = Inr s'"
  shows "mem_ok V s'"
proof -
  have c: "my_ref V t r" "clients V t p" "sets p = {}" using head_step [OF assms(1-3)] clients_lsum by auto
  have s': "s' = rgoto t ([] @ p) (set_cell r v s)" using assms(4) by simp
  have "cells V s' y = cells V s y + of_bool (v = Some y)" for y
    using cells_own_upd [OF c(1), of s' s p v y] c assms(3) s' by simp
  then show ?thesis using c by (intro ref_step_frame [OF assms(1-3) s']) (auto simp: code_facts)
qed

lemma step_Weak_cas:
  assumes "mem_ok V s" "t < nthreads V" "pending s t = Weak_cas w q v # p" "ref_exec t (Weak_cas w q v) p s = Inr s'"
  shows "mem_ok V s'"
proof -
  note h = head_step [OF assms(1-3)]
  have c: "my_weak V t w" "own_code V t p" "weaks s w = q" using h by simp_all
  let ?q = "case q of None \<Rightarrow> [] | Some c \<Rightarrow> [Dec_weak_twice c]"
  have s': "s' = rgoto t (?q @ p) (set_weak w v s)" using assms(4) c by simp
  have m: "code_ok V s t" using mem_code [OF assms(1,2)] .
  show ?thesis
  proof (rule neutral_step [OF assms(1-3), where q = ?q])
    show "weak_cells V s' c + lsum (weak_tok c) ?q = weak_cells V s c + weak_tok c (Weak_cas w q v)" for c
      using weak_cells_upd [of w V s' s v c] s' c by (auto simp: my_weak_def split: option.splits)
    have "cells V s' = cells V s" using assms(3) s' by (intro cells_same [of s' s t "?q @ p"]) (auto split: option.splits)
    then show "cells V s' x + lsum (strong_tok x) ?q = cells V s x + strong_tok x (Weak_cas w q v)" for x
      by (simp split: option.splits)
    have "guarded_by V s' t (?q @ p)" using h by (auto simp: guarded_calm split: option.splits)
    then show "code_ok V s' t" using c m assms(3) s' by (auto simp: code_ok_def split: option.splits)
  qed (use assms(1) s' c in \<open>auto simp: mem_ok_def my_weak_def split: option.splits\<close>)
qed

text \<open>The steps on one block of counters and its object.\<close>

lemma step_sums:
  assumes "t < nthreads V" "pending s t = i # p" "pending s' = (pending s)(t := q @ p)" "refs s' = refs s" "weaks s' = weaks s"
    "\<And>r v. i \<noteq> Set_ref r v" "sets q = {}"
  shows "tot V f s' = tot V f s - f i + lsum f q"
    "strongs V s' x = strongs V s x - strong_tok x i + lsum (strong_tok x) q"
    "weaks_of V s' c = weaks_of V s c - weak_tok c i + lsum (weak_tok c) q - owned V s c + owned V s' c"
proof -
  show tot: "tot V f s' = tot V f s - f i + lsum f q" for f using tot_upd [OF assms(1,3), of f] assms(2) by simp
  have "cells V s' = cells V s" using assms by (intro cells_same [of s' s t "q @ p"]) auto
  then show "strongs V s' x = strongs V s x - strong_tok x i + lsum (strong_tok x) q" using tot by (simp add: strongs_def)
  show "weaks_of V s' c = weaks_of V s c - weak_tok c i + lsum (weak_tok c) q - owned V s c + owned V s' c"
    using tot weak_cells_same [OF assms(5)] by (simp add: weaks_of_def)
qed

lemma count_step:
  assumes "mem_ok V s" "t < nthreads V" "pending s t = i # p" "pending s' = (pending s)(t := q @ p)"
    "objects s' = objects s" "refs s' = refs s" "weaks s' = weaks s" "next_oid s' = next_oid s" "next_cid s' = next_cid s"
    "\<And>c'. c' \<noteq> c \<Longrightarrow> counts s' c' = counts s c'" "counts s c \<noteq> None"
    "\<And>x. objects s x \<noteq> Some (Some c) \<Longrightarrow> lsum (strong_tok x) q = strong_tok x i \<and> lsum (kill_tok x) q = kill_tok x i \<and>
       Free_object x \<notin> set q \<and> Free_object x \<noteq> i"
    "\<And>c'. c' \<noteq> c \<Longrightarrow> lsum (weak_tok c') q = weak_tok c' i \<and> lsum (delete_tok c') q = delete_tok c' i \<and> lsum (lock_tok c') q = lock_tok c' i"
    "\<And>r v. i \<noteq> Set_ref r v" "sets q = {}"
    "\<And>x. objects s x = Some (Some c) \<Longrightarrow> object_ok V s' x" "counters_ok V s' c"
    "own_code V t (q @ p)" "guarded_by V s' t (q @ p)" "lsum cost q \<le> cost i"
  shows "mem_ok V s'"
proof -
  note sums = step_sums [OF assms(2,3,4,6,7,14,15)]
  have d: "dying V s' x = dying V s x" if "objects s x \<noteq> Some (Some c)" for x
    by (rule dying_upd [OF assms(2,4)]) (use assms(3) assms(12) [OF that] in auto)
  then have w: "owned V s' c' = owned V s c'" if "c' \<noteq> c" for c'
    using assms(5) that by (auto simp: owned_def intro!: arg_cong [where f = of_bool])
  have "object_ok V s' x" for x
  proof (cases "objects s x = Some (Some c)")
    case False
    then have "object_ok V s' x = object_ok V s x"
      using assms(5) assms(10) assms(12) [OF False] assms(13) d sums by (intro object_ok_cong) auto
    then show ?thesis using assms(1) by (simp add: mem_ok_def)
  qed (rule assms(16))
  moreover have "counters_ok V s' c'" for c'
  proof (cases "c' = c")
    case False
    have "tot V (kill_tok x) s' = tot V (kill_tok x) s" if "objects s x = Some (Some c')" for x
      using assms(12) [of x] that False sums(1) by auto
    then have "counters_ok V s' c' = counters_ok V s c'"
      using assms(5) assms(10) [OF False] assms(13) [OF False] w [OF False] sums by (intro counters_ok_cong) auto
    then show ?thesis using assms(1) by (simp add: mem_ok_def)
  qed (simp add: assms(17))
  moreover have "code_ok V s' u" if "u < nthreads V" for u
  proof (cases "u = t")
    case False
    then show ?thesis using that assms(4-7) by (intro guard_frame [OF assms(1)]) auto
  next
    case True
    then show ?thesis using mem_code [OF assms(1,2)] assms(3,4,18-20) by (auto simp: code_ok_def)
  qed
  moreover have "ids_ok s'"
    using assms(1,5,8-11) unfolding mem_ok_def ids_ok_def by (metis)
  ultimately show ?thesis using assms(1,2,4,6,7) by (auto simp: mem_ok_def)
qed

lemma object_unique: "mem_ok V s \<Longrightarrow> objects s x = Some (Some c) \<Longrightarrow> objects s x' = Some (Some c) \<Longrightarrow> x' = x"
  unfolding mem_ok_def ids_ok_def by blast

lemma owned_same:
  "objects s' = objects s \<Longrightarrow> (\<And>x. dying V s' x = dying V s x) \<Longrightarrow> owned V s' c = owned V s c"
  by (simp add: owned_def)

lemma step_Inc_strong:
  assumes "mem_ok V s" "t < nthreads V" "pending s t = Inc_strong c x # p" "ref_exec t (Inc_strong c x) p s = Inr s'"
  shows "mem_ok V s'"
proof -
  note h = head_step [OF assms(1-3)]
  have r: "has_ref V s t x" "objects s x = Some (Some c)" using h by simp_all
  obtain k where k: "counts s c = Some k" "tot V (kill_tok x) s = 0" "\<not> dying V s x" "count_object k = Some x"
      "strongReferenceCount k = dbl (strongs V s x + tot V (lock_tok c) s)" "1 \<le> strongs V s x + tot V (lock_tok c) s"
    using strong_claim [OF assms(1) strongs_claims(1) [OF assms(1,2) r(1)]] r(2) by (metis option.inject)
  let ?k = "k\<lparr>strongReferenceCount := increaseCount (strongReferenceCount k)\<rparr>"
  have s': "s' = rgoto t ([] @ p) (set_count c ?k s)" using assms(4) k(1) by simp
  have pd: "pending s' = (pending s)(t := [] @ p)" "refs s' = refs s" "weaks s' = weaks s" "objects s' = objects s"
    "counts s' = (counts s)(c \<mapsto> ?k)" "next_oid s' = next_oid s" "next_cid s' = next_cid s" using s' by simp_all
  note sums = step_sums [OF assms(2,3) pd(1-3)]
  have d: "dying V s' y = dying V s y" for y using dying_upd [OF assms(2) pd(1), of y] assms(3) by simp
  have w: "owned V s' c = owned V s c" using pd(4) d by (intro owned_same) auto
  obtain r where p: "own_code V t p" "calm p" using h by (auto split: list.splits rstmt.splits simp: code_facts)
  show ?thesis
  proof (rule count_step [OF assms(1-3) pd(1), where c = c])
    have sm: "strongs V s' x = strongs V s x + 1" "tot V (lock_tok c) s' = tot V (lock_tok c) s"
      "tot V (kill_tok x) s' = tot V (kill_tok x) s" "weaks_of V s' c = weaks_of V s c" "tot V (delete_tok c) s' = tot V (delete_tok c) s"
      using w by (simp_all add: sums)
    have "strongReferenceCount ?k = dbl (strongs V s' x + tot V (lock_tok c) s')"
      using increase_count k(5) by (simp add: sm algebra_simps)
    then show "object_ok V s' y" if "objects s y = Some (Some c)" for y
      using object_unique [OF assms(1) r(2) that] r(2) pd(4,5) k(2,4,6) by (simp add: object_ok_def Let_def sm)
    have "counters_ok V s c" using assms(1) by (simp add: mem_ok_def)
    then show "counters_ok V s' c"
      using k(1,2) sm pd(4,5) r(2) by (auto simp: counters_ok_def increase_even)
  qed (use pd k(1) r(2) p in \<open>auto simp: guarded_calm\<close>)
qed

lemma step_Dec_strong:
  assumes "mem_ok V s" "small_world V" "t < nthreads V" "pending s t = Dec_strong c x # p" "ref_exec t (Dec_strong c x) p s = Inr s'"
  shows "mem_ok V s'"
proof -
  note h = head_step [OF assms(1,3,4)]
  have r: "objects s x = Some (Some c)" "calm p" "own_code V t p" using h by simp_all
  have st: "1 \<le> strongs V s x"
    using own_code_strong [OF r(3), of x] assms(4) by (intro strongs_claims(2) [OF assms(1,3)]) simp
  obtain k where k: "counts s c = Some k" "tot V (kill_tok x) s = 0" "\<not> dying V s x" "count_object k = Some x"
      "strongReferenceCount k = dbl (strongs V s x + tot V (lock_tok c) s)"
    using strong_claim [OF assms(1) st] r(1) by (metis option.inject)
  define n where "n = strongs V s x + tot V (lock_tok c) s"
  have n: "1 \<le> n" "n < 2 ^ 31" "tot V (lock_tok c) s \<le> n - 1" "0 \<le> tot V (lock_tok c) s"
    using st tot_nonneg(5) [OF assms(1), of c] counts_fit(1) [OF assms(1,2), of x c] by (simp_all add: n_def)
  define q where "q = (if n = 1 then [Null_object c, Destroy x] else [])"
  define k' where "k' = k\<lparr>strongReferenceCount := if n = 1 then 1 else dbl (n - 1)\<rparr>"
  have s': "s' = rgoto t (q @ p) (set_count c k' s)"
    using assms(5) k(1) decrement_count [OF n(1,2)] k(5) by (cases "n = 1") (simp_all add: n_def [symmetric] q_def k'_def)
  have pd: "pending s' = (pending s)(t := q @ p)" "refs s' = refs s" "weaks s' = weaks s" "objects s' = objects s"
    "counts s' = (counts s)(c \<mapsto> k')" "next_oid s' = next_oid s" "next_cid s' = next_cid s"
    using s' by simp_all
  have sq: "sets q = {}" by (simp add: q_def)
  note sums = step_sums [OF assms(3,4) pd(1-3) _ sq]
  have d: "dying V s' y = dying V s y" for y using dying_upd [OF assms(3) pd(1), of y] assms(4) by (simp add: q_def)
  have w: "owned V s' c = owned V s c" using pd(4) d by (intro owned_same) auto
  have sm: "strongs V s' x = n - 1 - tot V (lock_tok c) s" "tot V (lock_tok c) s' = tot V (lock_tok c) s"
    "tot V (kill_tok x) s' = of_bool (n = 1)" "weaks_of V s' c = weaks_of V s c" "tot V (delete_tok c) s' = tot V (delete_tok c) s"
    using w k(2) by (simp_all add: sums q_def n_def)
  show ?thesis
  proof (rule count_step [OF assms(1,3,4) pd(1), where c = c])
    show "object_ok V s' y" if "objects s y = Some (Some c)" for y
      using object_unique [OF assms(1) r(1) that] r(1) pd(4,5) k(4) n
      by (auto simp: object_ok_def Let_def sm k'_def)
    have "counters_ok V s c" using assms(1) by (simp add: mem_ok_def)
    then show "counters_ok V s' c"
      using k(1,2) sm pd(4,5) r(1) n k(5) by (auto simp: counters_ok_def k'_def n_def [symmetric])
    show "guarded_by V s' t (q @ p)" using r pd(4) by (auto simp: q_def guarded_calm)
    show "own_code V t (q @ p)" using r by (auto simp: q_def)
  qed (use pd k(1) r(1) sq in \<open>auto simp: q_def\<close>)
qed

text \<open>The object that a thread destroys.\<close>

lemma lsum_kill_two: "Destroy x \<in> set p \<Longrightarrow> Free_object x \<in> set p \<Longrightarrow> 2 \<le> lsum (kill_tok x) p"
proof (induction p)
  case (Cons i p)
  have "0 \<le> kill_tok x i" "Free_object x \<in> set p \<Longrightarrow> 1 \<le> lsum (kill_tok x) p" by (auto intro: kill_Free)
  moreover have "Destroy x \<in> set p \<Longrightarrow> 1 \<le> lsum (kill_tok x) p"
  proof (induction p)
    case (Cons j q)
    have "0 \<le> kill_tok x j" "0 \<le> lsum (kill_tok x) q" by (auto intro: lsum_nonneg)
    then show ?case using Cons by (cases "j = Destroy x") (auto intro: add_increasing)
  qed simp
  ultimately show ?case using Cons
    by (cases "i = Destroy x"; cases "i = Free_object x") (auto intro: add_increasing)
qed simp

lemma tot_two:
  assumes "mem_ok V s" "t < nthreads V" "u < nthreads V" "t \<noteq> u"
  shows "lsum (kill_tok x) (pending s t) + lsum (kill_tok x) (pending s u) \<le> tot V (kill_tok x) s"
proof -
  have "(\<Sum>v\<in>{t, u}. lsum (kill_tok x) (pending s v)) \<le> (\<Sum>v<nthreads V. lsum (kill_tok x) (pending s v))"
    using assms(2,3) by (intro sum_mono2) (auto intro: lsum_nonneg)
  then show ?thesis using assms(4) by (simp add: tot_def)
qed

lemma kill_claim:
  assumes "mem_ok V s" "t < nthreads V" "1 \<le> lsum (kill_tok x) (pending s t)"
  obtains c where "objects s x = Some (Some c)" "tot V (kill_tok x) s = 1" "strongs V s x = 0" "tot V (lock_tok c) s = 0"
    "dying V s x \<or> (\<exists>k. counts s c = Some k \<and> odd (strongReferenceCount k))"
proof -
  have o: "object_ok V s x" using assms(1) by (simp add: mem_ok_def)
  have k: "1 \<le> tot V (kill_tok x) s" using tot_claims(3) [OF assms(1,2), of x] assms(3) by simp
  then obtain c where c: "objects s x = Some (Some c)" using o by (auto simp: object_ok_def split: option.splits)
  then have n: "tot V (kill_tok x) s = 1" "strongs V s x + tot V (lock_tok c) s = 0"
    "dying V s x \<or> (\<exists>k. counts s c = Some k \<and> odd (strongReferenceCount k))"
    using o k by (auto simp: object_ok_def Let_def)
  have "0 \<le> strongs V s x" "0 \<le> tot V (lock_tok c) s"
    using tot_nonneg(1,5) [OF assms(1)] cells_nonneg(1) [of V s x] by (simp_all add: strongs_def)
  then have "strongs V s x = 0" "tot V (lock_tok c) s = 0" using n(2) by simp_all
  then show ?thesis using that c n by blast
qed

lemma destroyer_alive:
  assumes "mem_ok V s" "t < nthreads V" "Destroy x \<in> set (pending s t)" "1 \<le> lsum (kill_tok x) (pending s t)"
  shows "\<not> dying V s x"
proof
  assume "dying V s x"
  then obtain u where u: "u < nthreads V" "Free_object x \<in> set (pending s u)" by (auto simp: dying_def)
  obtain c where "tot V (kill_tok x) s = 1" using kill_claim [OF assms(1,2,4)] .
  moreover have "2 \<le> tot V (kill_tok x) s"
  proof (cases "u = t")
    case True
    then show ?thesis using lsum_kill_two [OF assms(3)] u tot_claims(3) [OF assms(1,2), of x] by force
  next
    case False
    then show ?thesis using tot_two [OF assms(1,2) u(1), of x] kill_Free [OF u(2)] assms(4) by force
  qed
  ultimately show False by simp
qed

lemma step_Null_object:
  assumes "mem_ok V s" "t < nthreads V" "pending s t = Null_object c # p" "ref_exec t (Null_object c) p s = Inr s'"
  shows "mem_ok V s'"
proof -
  note h = head_step [OF assms(1-3)]
  obtain x p' where p: "p = Destroy x # p'" "objects s x = Some (Some c)" and o: "own_code V t p" using h by auto
  have kt: "1 \<le> lsum (kill_tok x) (pending s t)" using p assms(3) lsum_nonneg [of "kill_tok x" p'] by simp
  then obtain k where k: "counts s c = Some k" "odd (strongReferenceCount k)" "tot V (kill_tok x) s = 1" "strongs V s x = 0" "tot V (lock_tok c) s = 0"
    using kill_claim [OF assms(1,2) kt] destroyer_alive [OF assms(1,2) _ kt] p assms(3) by (metis option.inject list.set_intros)
  let ?k = "k\<lparr>count_object := None\<rparr>"
  have s': "s' = rgoto t ([] @ p) (set_count c ?k s)" using assms(4) k(1) by simp
  have pd: "pending s' = (pending s)(t := [] @ p)" "refs s' = refs s" "weaks s' = weaks s" "objects s' = objects s"
    "counts s' = (counts s)(c \<mapsto> ?k)" "next_oid s' = next_oid s" "next_cid s' = next_cid s" using s' by simp_all
  note sums = step_sums [OF assms(2,3) pd(1-3)]
  have d: "dying V s' y = dying V s y" for y using dying_upd [OF assms(2) pd(1), of y] assms(3) by simp
  have w: "owned V s' c = owned V s c" using pd(4) d by (intro owned_same) auto
  have sm: "strongs V s' x = strongs V s x" "tot V (lock_tok c) s' = tot V (lock_tok c) s"
    "tot V (kill_tok x) s' = tot V (kill_tok x) s" "weaks_of V s' c = weaks_of V s c" "tot V (delete_tok c) s' = tot V (delete_tok c) s"
    using w by (simp_all add: sums)
  show ?thesis
  proof (rule count_step [OF assms(1-3) pd(1), where c = c])
    show "object_ok V s' y" if "objects s y = Some (Some c)" for y
      using object_unique [OF assms(1) p(2) that] p(2) pd(4,5) k by (simp add: object_ok_def Let_def sm)
    have "counters_ok V s c" using assms(1) by (simp add: mem_ok_def)
    then show "counters_ok V s' c" using k sm pd(4,5) by (auto simp: counters_ok_def)
  qed (use pd k(1) p o in \<open>auto simp: guarded_calm\<close>)
qed

lemma step_Destroy:
  assumes "mem_ok V s" "t < nthreads V" "pending s t = Destroy x # p" "ref_exec t (Destroy x) p s = Inr s'"
  shows "mem_ok V s'"
proof -
  note h = head_step [OF assms(1-3)]
  have kt: "1 \<le> lsum (kill_tok x) (pending s t)" using assms(3) lsum_nonneg [of "kill_tok x" p] by simp
  have nd: "\<not> dying V s x" using destroyer_alive [OF assms(1,2) _ kt] assms(3) by simp
  obtain c where c: "objects s x = Some (Some c)" "tot V (kill_tok x) s = 1" "strongs V s x = 0" "tot V (lock_tok c) s = 0"
    "\<exists>k. counts s c = Some k \<and> odd (strongReferenceCount k)" using kill_claim [OF assms(1,2) kt] nd by metis
  then obtain k where k: "counts s c = Some k" "odd (strongReferenceCount k)" by blast
  let ?q = "[Dec_weak c, Free_object x]"
  have s': "s' = rgoto t (?q @ p) s" using assms(4) c(1) k by (simp add: and_one_zero)
  have pd: "pending s' = (pending s)(t := ?q @ p)" "refs s' = refs s" "weaks s' = weaks s" "objects s' = objects s"
    "counts s' = counts s" "next_oid s' = next_oid s" "next_cid s' = next_cid s" using s' by simp_all
  note sums = step_sums [OF assms(2,3) pd(1-3)]
  have d: "dying V s' x" unfolding dying_def using assms(2) pd(1) by (intro exI [of _ t]) simp
  have "\<not> (\<exists>y. objects s' y = Some (Some c) \<and> \<not> dying V s' y)"
    using d object_unique [OF assms(1) c(1)] pd(4) by metis
  then have "owned V s' c = 0" by (simp add: owned_def)
  moreover have "owned V s c = 1" using c(1) nd by (auto simp: owned_def)
  ultimately have sm: "strongs V s' x = strongs V s x" "tot V (lock_tok c) s' = tot V (lock_tok c) s"
    "tot V (kill_tok x) s' = tot V (kill_tok x) s" "weaks_of V s' c = weaks_of V s c" "tot V (delete_tok c) s' = tot V (delete_tok c) s"
    by (simp_all add: sums)
  show ?thesis
  proof (rule count_step [OF assms(1-3) pd(1), where c = c])
    show "object_ok V s' y" if "objects s y = Some (Some c)" for y
      using object_unique [OF assms(1) c(1) that] c pd(4) d by (simp add: object_ok_def Let_def sm)
    have "counters_ok V s c" using assms(1) by (simp add: mem_ok_def)
    then show "counters_ok V s' c" using c k sm pd(4,5) by (auto simp: counters_ok_def)
  qed (use pd k(1) c(1) h in auto)
qed

lemma inc_weak_claim:
  assumes "mem_ok V s" "t < nthreads V" "pending s t = Inc_weak c # p"
  shows "1 \<le> weaks_of V s c"
proof -
  from head_step(2) [OF assms] consider x where "has_ref V s t x" "objects s x = Some (Some c)" | w where "my_weak V t w" "weaks s w = Some c"
    | "2 \<le> lsum (weak_tok c) p" by auto
  then show ?thesis
  proof cases
    case 1
    then show ?thesis using strong_claim [OF assms(1) strongs_claims(1) [OF assms(1,2)]] by (metis option.inject)
  next
    case 2
    then show ?thesis using strongs_claims(4) [OF assms(1,2)] by blast
  next
    case 3
    then show ?thesis using assms(3) by (intro strongs_claims(3) [OF assms(1,2)]) simp
  qed
qed

lemma step_Inc_weak:
  assumes "mem_ok V s" "t < nthreads V" "pending s t = Inc_weak c # p" "ref_exec t (Inc_weak c) p s = Inr s'"
  shows "mem_ok V s'"
proof -
  note h = head_step [OF assms(1-3)]
  have W: "1 \<le> weaks_of V s c" using inc_weak_claim [OF assms(1-3)] .
  obtain k where k: "counts s c = Some k" "tot V (delete_tok c) s = 0" "weakReferenceCount k = dbl (weaks_of V s c)"
    using weak_claim [OF assms(1) W] .
  let ?k = "k\<lparr>weakReferenceCount := increaseCount (weakReferenceCount k)\<rparr>"
  have s': "s' = rgoto t ([] @ p) (set_count c ?k s)" using assms(4) k(1) by simp
  have pd: "pending s' = (pending s)(t := [] @ p)" "refs s' = refs s" "weaks s' = weaks s" "objects s' = objects s"
    "counts s' = (counts s)(c \<mapsto> ?k)" "next_oid s' = next_oid s" "next_cid s' = next_cid s" using s' by simp_all
  note sums = step_sums [OF assms(2,3) pd(1-3)]
  have d: "dying V s' y = dying V s y" for y using dying_upd [OF assms(2) pd(1), of y] assms(3) by simp
  have w: "owned V s' c = owned V s c" using pd(4) d by (intro owned_same) auto
  have sm: "strongs V s' y = strongs V s y" "tot V (lock_tok c) s' = tot V (lock_tok c) s"
    "tot V (kill_tok y) s' = tot V (kill_tok y) s" "weaks_of V s' c = weaks_of V s c + 1" "tot V (delete_tok c) s' = 0" for y
    using w k(2) by (simp_all add: sums)
  show ?thesis
  proof (rule count_step [OF assms(1-3) pd(1), where c = c])
    show "object_ok V s' y" if "objects s y = Some (Some c)" for y
    proof -
      have "object_ok V s y" using assms(1) by (simp add: mem_ok_def)
      then show ?thesis using that pd(4,5) k(1) d by (auto simp: object_ok_def Let_def sm)
    qed
    have "counters_ok V s c" using assms(1) by (simp add: mem_ok_def)
    then show "counters_ok V s' c" using k sm pd(4,5) W increase_count by (auto simp: counters_ok_def)
    show "guarded_by V s' t ([] @ p)" "own_code V t ([] @ p)"
      using h pd(3) by (auto split: list.splits rstmt.splits)
  qed (use pd k(1) in auto)
qed

text \<open>Giving up a claim on the weak count.\<close>

lemma step_weak_release:
  assumes "mem_ok V s" "small_world V" "t < nthreads V" "pending s t = i # p"
    "i = Dec_weak c \<and> q = (if weaks_of V s c = 1 then [Delete_counters c] else []) \<or>
     i = Dec_weak_twice c \<and> q = [Dec_weak c]"
    "ref_exec t i p s = Inr s'"
  shows "mem_ok V s'"
proof -
  note h = head_step [OF assms(1,3,4)]
  have o: "own_code V t p" "calm p" using h assms(5) by auto
  have W: "weak_tok c i \<le> weaks_of V s c"
  proof -
    have "weak_tok c i \<le> lsum (weak_tok c) (pending s t)" using own_code_weak [OF o(1), of c] assms(4) by simp
    also have "\<dots> \<le> tot V (weak_tok c) s" using tot_claims(2) [OF assms(1,3)] .
    also have "\<dots> \<le> weaks_of V s c" using cells_nonneg(2,3) [of V s c] by (simp add: weaks_of_def)
    finally show ?thesis .
  qed
  then have W1: "1 \<le> weaks_of V s c" using assms(5) by auto
  define n where "n = weaks_of V s c"
  have n: "1 \<le> n" "n < 2 ^ 31" using W1 counts_fit(2) [OF assms(1,2), of c] by (simp_all add: n_def)
  obtain k where k: "counts s c = Some k" "tot V (delete_tok c) s = 0" "weakReferenceCount k = dbl n"
    using weak_claim [OF assms(1) W1] unfolding n_def .
  define k' where "k' = k\<lparr>weakReferenceCount := if n = 1 then 1 else dbl (n - 1)\<rparr>"
  have s': "s' = rgoto t (q @ p) (set_count c k' s)"
    using assms(5,6) k(1,3) decrement_count [OF n] W by (cases "n = 1") (auto simp: n_def [symmetric] k'_def)
  have pd: "pending s' = (pending s)(t := q @ p)" "refs s' = refs s" "weaks s' = weaks s" "objects s' = objects s"
    "counts s' = (counts s)(c \<mapsto> k')" "next_oid s' = next_oid s" "next_cid s' = next_cid s" using s' by simp_all
  have sq: "sets q = {}" "\<And>r v. i \<noteq> Set_ref r v" using assms(5) by (auto split: if_splits)
  note sums = step_sums [OF assms(3,4) pd(1-3) sq(2,1)]
  have d: "dying V s' y = dying V s y" for y using dying_upd [OF assms(3) pd(1), of y] assms(4,5) by auto
  have w: "owned V s' c = owned V s c" using pd(4) d by (intro owned_same) auto
  have sm: "strongs V s' y = strongs V s y" "tot V (lock_tok c) s' = tot V (lock_tok c) s"
    "tot V (kill_tok y) s' = tot V (kill_tok y) s" "weaks_of V s' c = n - 1" "tot V (delete_tok c) s' = of_bool (n = 1)" for y
    using w k(2) assms(5) W by (auto simp: sums n_def)
  show ?thesis
  proof (rule count_step [OF assms(1,3,4) pd(1), where c = c])
    show "object_ok V s' y" if "objects s y = Some (Some c)" for y
    proof -
      have "object_ok V s y" using assms(1) by (simp add: mem_ok_def)
      then show ?thesis using that pd(4,5) k(1) d by (auto simp: object_ok_def Let_def sm k'_def)
    qed
    have "counters_ok V s c" using assms(1) by (simp add: mem_ok_def)
    then show "counters_ok V s' c" using k sm pd(4,5) n by (auto simp: counters_ok_def k'_def)
    show "guarded_by V s' t (q @ p)" "own_code V t (q @ p)" using o assms(5) by (auto simp: guarded_calm)
  qed (use pd k(1) sq assms(5) in auto)
qed

lemma step_Delete_counters:
  assumes "mem_ok V s" "t < nthreads V" "pending s t = Delete_counters c # p" "ref_exec t (Delete_counters c) p s = Inr s'"
  shows "mem_ok V s'"
proof -
  note h = head_step [OF assms(1-3)]
  have "1 \<le> tot V (delete_tok c) s"
    using tot_claims(4) [OF assms(1,2), of c] assms(3) lsum_nonneg [of "delete_tok c" p] by simp
  moreover have C: "counters_ok V s c" using assms(1) by (simp add: mem_ok_def)
  ultimately obtain k where k: "counts s c = Some k" "weaks_of V s c = 0" "tot V (delete_tok c) s = 1"
    by (auto simp: counters_ok_def split: option.splits)
  have s': "s' = rgoto t ([] @ p) (s\<lparr>counts := (counts s)(c := None)\<rparr>)" using assms(4) k(1) by simp
  have pd: "pending s' = (pending s)(t := [] @ p)" "refs s' = refs s" "weaks s' = weaks s" "objects s' = objects s"
    "counts s' = (counts s)(c := None)" "next_oid s' = next_oid s" "next_cid s' = next_cid s" using s' by simp_all
  note sums = step_sums [OF assms(2,3) pd(1-3)]
  have d: "dying V s' y = dying V s y" for y using dying_upd [OF assms(2) pd(1), of y] assms(3) by simp
  have w: "owned V s' c = owned V s c" using pd(4) d by (intro owned_same) auto
  have sm: "strongs V s' y = strongs V s y" "tot V (lock_tok c) s' = tot V (lock_tok c) s"
    "tot V (kill_tok y) s' = tot V (kill_tok y) s" "weaks_of V s' c = 0" "tot V (delete_tok c) s' = 0" for y
    using w k by (simp_all add: sums)
  show ?thesis
  proof (rule count_step [OF assms(1-3) pd(1), where c = c])
    show "object_ok V s' y" if y: "objects s y = Some (Some c)" for y
    proof -
      have O: "object_ok V s y" using assms(1) by (simp add: mem_ok_def)
      have "owned V s c \<le> 0" using k(2) tot_nonneg(2) [OF assms(1), of c] cells_nonneg(2) [of V s c] by (simp add: weaks_of_def)
      moreover have "\<not> dying V s y \<Longrightarrow> owned V s c = 1" using y by (auto simp: owned_def)
      ultimately have dy: "dying V s y" by fastforce
      then have "1 \<le> tot V (kill_tok y) s" using dying_kill [OF assms(1)] by simp
      then show ?thesis using O y dy d pd(4) by (auto simp: object_ok_def Let_def sm)
    qed
    show "counters_ok V s' c" using sm pd(5) by (simp add: counters_ok_def)
  qed (use pd k(1) h in \<open>auto simp: guarded_calm\<close>)
qed

text \<open>An object whose strong count is even is there, and its counters point to it.\<close>

lemma even_claim:
  assumes "mem_ok V s" "counts s c = Some k" "even (strongReferenceCount k)"
  obtains x where "objects s x = Some (Some c)" "tot V (kill_tok x) s = 0" "count_object k = Some x"
    "strongReferenceCount k = dbl (strongs V s x + tot V (lock_tok c) s)" "1 \<le> strongs V s x + tot V (lock_tok c) s"
proof -
  have "counters_ok V s c" using assms(1) by (simp add: mem_ok_def)
  then obtain x where x: "objects s x = Some (Some c)" "tot V (kill_tok x) s = 0"
    using assms(2,3) by (auto simp: counters_ok_def)
  have "object_ok V s x" using assms(1) by (simp add: mem_ok_def)
  then show ?thesis using that x assms(2) by (auto simp: object_ok_def Let_def)
qed

lemma step_Lock_strong:
  assumes "mem_ok V s" "t < nthreads V" "pending s t = Lock_strong c r # p" "ref_exec t (Lock_strong c r) p s = Inr s'"
  shows "mem_ok V s'"
proof -
  note h = head_step [OF assms(1-3)]
  have o: "my_ref V t r" "clients V t p" using h by simp_all
  have W: "1 \<le> weaks_of V s c"
    using own_code_weak [OF clients_own_code [OF o(2)], of c] assms(3) by (intro strongs_claims(3) [OF assms(1,2)]) simp
  obtain k where k: "counts s c = Some k" "tot V (delete_tok c) s = 0" "weakReferenceCount k = dbl (weaks_of V s c)"
    using weak_claim [OF assms(1) W] .
  have C: "counters_ok V s c" using assms(1) by (simp add: mem_ok_def)
  define ev where "ev = even (strongReferenceCount k)"
  define q where "q = (if ev then [Read_object c r] else [Dec_weak c, Move_ref r None])"
  let ?k = "k\<lparr>strongReferenceCount := increaseCount (strongReferenceCount k)\<rparr>"
  have s': "s' = rgoto t (q @ p) (set_count c ?k s)"
    using assms(4) k(1) by (simp add: Let_def q_def ev_def and_one_zero increase_even split: if_splits)
  have pd: "pending s' = (pending s)(t := q @ p)" "refs s' = refs s" "weaks s' = weaks s" "objects s' = objects s"
    "counts s' = (counts s)(c \<mapsto> ?k)" "next_oid s' = next_oid s" "next_cid s' = next_cid s" using s' by simp_all
  have sq: "sets q = {}" by (simp add: q_def)
  note sums = step_sums [OF assms(2,3) pd(1-3) _ sq]
  have d: "dying V s' y = dying V s y" for y using dying_upd [OF assms(2) pd(1), of y] assms(3) by (simp add: q_def)
  have w: "owned V s' c = owned V s c" using pd(4) d by (intro owned_same) auto
  have sm: "strongs V s' y = strongs V s y" "tot V (lock_tok c) s' = tot V (lock_tok c) s + of_bool ev"
    "tot V (kill_tok y) s' = tot V (kill_tok y) s" "weaks_of V s' c = weaks_of V s c" "tot V (delete_tok c) s' = 0" for y
    using w k by (simp_all add: sums q_def)
  show ?thesis
  proof (rule count_step [OF assms(1-3) pd(1), where c = c])
    show "object_ok V s' y" if y: "objects s y = Some (Some c)" for y
    proof (cases ev)
      case True
      then obtain x where x: "objects s x = Some (Some c)" "tot V (kill_tok x) s = 0" "count_object k = Some x"
        "strongReferenceCount k = dbl (strongs V s x + tot V (lock_tok c) s)" "1 \<le> strongs V s x + tot V (lock_tok c) s"
        using even_claim [OF assms(1) k(1)] unfolding ev_def by metis
      have "y = x" using object_unique [OF assms(1) x(1) y] .
      moreover have "strongReferenceCount ?k = dbl (strongs V s x + (tot V (lock_tok c) s + 1))"
        using x(4) increase_count [of "strongs V s x + tot V (lock_tok c) s"] by (simp add: algebra_simps)
      ultimately show ?thesis using x True pd(4,5) by (simp add: object_ok_def Let_def sm)
    next
      case False
      have "object_ok V s y" using assms(1) by (simp add: mem_ok_def)
      then show ?thesis using y False pd(4,5) k(1) d by (auto simp: object_ok_def Let_def sm ev_def increase_even)
    qed
    show "counters_ok V s' c" using C k sm pd(4,5) by (auto simp: counters_ok_def increase_even ev_def split: if_splits)
  qed (use pd k(1) sq o in \<open>auto simp: q_def code_facts\<close>)
qed

lemma step_Read_object:
  assumes "mem_ok V s" "t < nthreads V" "pending s t = Read_object c r # p" "ref_exec t (Read_object c r) p s = Inr s'"
  shows "mem_ok V s'"
proof -
  note h = head_step [OF assms(1-3)]
  have o: "my_ref V t r" "clients V t p" using h by simp_all
  have W: "1 \<le> weaks_of V s c"
    using own_code_weak [OF clients_own_code [OF o(2)], of c] assms(3) by (intro strongs_claims(3) [OF assms(1,2)]) simp
  obtain k where k: "counts s c = Some k" "tot V (delete_tok c) s = 0" "weakReferenceCount k = dbl (weaks_of V s c)"
    using weak_claim [OF assms(1) W] .
  have C: "counters_ok V s c" using assms(1) by (simp add: mem_ok_def)
  have "1 \<le> tot V (lock_tok c) s" using tot_claims(5) [OF assms(1,2), of c] assms(3) lsum_nonneg [of "lock_tok c" p] by simp
  then have "even (strongReferenceCount k)" using C k(1) by (auto simp: counters_ok_def split: if_splits)
  then obtain x where x: "objects s x = Some (Some c)" "tot V (kill_tok x) s = 0" "count_object k = Some x"
    "strongReferenceCount k = dbl (strongs V s x + tot V (lock_tok c) s)" "1 \<le> strongs V s x + tot V (lock_tok c) s"
    using even_claim [OF assms(1) k(1)] by metis
  let ?q = "[Dec_weak c, Move_ref r (Some x)]"
  have s': "s' = rgoto t (?q @ p) s" using assms(4) k(1) x(3) by simp
  have pd: "pending s' = (pending s)(t := ?q @ p)" "refs s' = refs s" "weaks s' = weaks s" "objects s' = objects s"
    "counts s' = counts s" "next_oid s' = next_oid s" "next_cid s' = next_cid s" using s' by simp_all
  note sums = step_sums [OF assms(2,3) pd(1-3)]
  have d: "dying V s' y = dying V s y" for y using dying_upd [OF assms(2) pd(1), of y] assms(3) by simp
  have w: "owned V s' c = owned V s c" using pd(4) d by (intro owned_same) auto
  have sm: "strongs V s' x = strongs V s x + 1" "tot V (lock_tok c) s' = tot V (lock_tok c) s - 1"
    "tot V (kill_tok x) s' = 0" "weaks_of V s' c = weaks_of V s c" "tot V (delete_tok c) s' = 0"
    using w k x(2) by (simp_all add: sums)
  show ?thesis
  proof (rule count_step [OF assms(1-3) pd(1), where c = c])
    show "object_ok V s' y" if y: "objects s y = Some (Some c)" for y
      using object_unique [OF assms(1) x(1) y] x pd(4,5) k(1) by (simp add: object_ok_def Let_def sm)
    show "counters_ok V s' c" using C k sm x(1) pd(4,5) \<open>even (strongReferenceCount k)\<close> by (auto simp: counters_ok_def)
  qed (use pd k(1) o x(1) in \<open>auto simp: code_facts\<close>)
qed

text \<open>The end and the beginning of an object.\<close>

lemma step_Free_object:
  assumes "mem_ok V s" "t < nthreads V" "pending s t = Free_object x # p" "ref_exec t (Free_object x) p s = Inr s'"
  shows "mem_ok V s'"
proof -
  note h = head_step [OF assms(1-3)]
  have kt: "1 \<le> lsum (kill_tok x) (pending s t)" using assms(3) lsum_nonneg [of "kill_tok x" p] by simp
  obtain c where c: "objects s x = Some (Some c)" "tot V (kill_tok x) s = 1" "strongs V s x = 0" "tot V (lock_tok c) s = 0"
    using kill_claim [OF assms(1,2) kt] by metis
  have dx: "dying V s x" unfolding dying_def using assms(2,3) by (intro exI [of _ t]) simp
  have s': "s' = rgoto t ([] @ p) (s\<lparr>objects := (objects s)(x := None)\<rparr>)" using assms(4) c(1) by simp
  have pd: "pending s' = (pending s)(t := [] @ p)" "refs s' = refs s" "weaks s' = weaks s" "objects s' = (objects s)(x := None)"
    "counts s' = counts s" "next_oid s' = next_oid s" "next_cid s' = next_cid s" using s' by simp_all
  note sums = step_sums [OF assms(2,3) pd(1-3)]
  have d: "dying V s' y = dying V s y" if "y \<noteq> x" for y using dying_upd [OF assms(2) pd(1), of y] assms(3) that by simp
  have "owned V s' c' = owned V s c'" for c'
  proof -
    have "(\<exists>y. objects s' y = Some (Some c') \<and> \<not> dying V s' y) \<longleftrightarrow> (\<exists>y. objects s y = Some (Some c') \<and> \<not> dying V s y)"
      using pd(4) d dx by (metis fun_upd_apply option.distinct(1))
    then show ?thesis by (simp add: owned_def)
  qed
  then have sm: "strongs V s' y = strongs V s y" "tot V (lock_tok c') s' = tot V (lock_tok c') s"
    "tot V (kill_tok y) s' = tot V (kill_tok y) s - of_bool (y = x)" "weaks_of V s' c' = weaks_of V s c'"
    "tot V (delete_tok c') s' = tot V (delete_tok c') s" for y c'
    by (simp_all add: sums)
  have "object_ok V s' y" for y
  proof (cases "y = x")
    case True
    then show ?thesis using pd(4) c sm by (simp add: object_ok_def)
  next
    case False
    then have "object_ok V s' y = object_ok V s y" using pd(4,5) d sm by (intro object_ok_cong) auto
    then show ?thesis using assms(1) by (simp add: mem_ok_def)
  qed
  moreover have "counters_ok V s' c'" for c'
  proof -
    have C: "counters_ok V s c'" using assms(1) by (simp add: mem_ok_def)
    have "(\<exists>y. objects s' y = Some (Some c') \<and> tot V (kill_tok y) s' = 0)"
      if ex: "\<exists>y. objects s y = Some (Some c') \<and> tot V (kill_tok y) s = 0"
    proof -
      obtain y where y: "objects s y = Some (Some c')" "tot V (kill_tok y) s = 0" using ex by blast
      then have "y \<noteq> x" using c(2) by auto
      then show ?thesis using y pd(4) sm(3) [of y] by auto
    qed
    then show ?thesis using C pd(5) sm(2,4,5) by (simp add: counters_ok_def split: option.splits if_splits)
  qed
  moreover have "code_ok V s' u" if "u < nthreads V" for u
  proof (cases "u = t")
    case False
    have "lsum (kill_tok x) (pending s u) \<le> 0" using tot_two [OF assms(1,2) that, of x] False kt c(2) by linarith
    then show ?thesis using that False pd c(2) by (intro guard_frame [OF assms(1)]) auto
  next
    case True
    then show ?thesis using mem_code [OF assms(1,2)] assms(3) pd(1) h by (auto simp: code_ok_def guarded_calm)
  qed
  moreover have "ids_ok s'" using assms(1) pd unfolding mem_ok_def ids_ok_def by (auto split: if_splits)
  ultimately show ?thesis using assms(1,2) pd by (auto simp: mem_ok_def)
qed

lemma step_New_object:
  assumes "mem_ok V s" "t < nthreads V" "pending s t = New_object r # p" "ref_exec t (New_object r) p s = Inr s'"
  shows "mem_ok V s'"
proof -
  note h = head_step [OF assms(1-3)]
  have o: "my_ref V t r" "clients V t p" using h by simp_all
  define x where "x = next_oid s"
  define c where "c = next_cid s"
  let ?k = "\<lparr>strongReferenceCount = 2, weakReferenceCount = 2, count_object = Some x\<rparr>"
  let ?q = "[Update_ref r (Some x)]"
  have pd: "pending s' = (pending s)(t := ?q @ p)" "refs s' = refs s" "weaks s' = weaks s" "objects s' = (objects s)(x := Some (Some c))"
    "counts s' = (counts s)(c \<mapsto> ?k)" "next_oid s' = Suc (next_oid s)" "next_cid s' = Suc (next_cid s)"
    using assms(4) by (auto simp: Let_def install_counters_def increaseCount_def x_def c_def)
  have I: "ids_ok s" using assms(1) by (simp add: mem_ok_def)
  have nx: "objects s x = None" "counts s c = None" "\<And>y. objects s y \<noteq> Some (Some c)"
    using I unfolding ids_ok_def x_def c_def by (metis less_irrefl not_None_eq)+
  have fx: "strongs V s x = 0" "tot V (kill_tok x) s = 0" "weaks_of V s c = 0" "tot V (delete_tok c) s = 0"
  proof -
    have "object_ok V s x" "counters_ok V s c" using assms(1) by (simp_all add: mem_ok_def)
    then show "strongs V s x = 0" "tot V (kill_tok x) s = 0" "weaks_of V s c = 0" "tot V (delete_tok c) s = 0"
      using nx(1,2) by (simp_all add: object_ok_def counters_ok_def)
  qed
  note sums = step_sums [OF assms(2,3) pd(1-3)]
  have d: "dying V s' y = dying V s y" for y using dying_upd [OF assms(2) pd(1), of y] assms(3) by simp
  have ndx: "\<not> dying V s x" using dying_kill [OF assms(1), of x] fx(2) by force
  have oc: "owned V s' c = 1" "owned V s c = 0" using pd(4) d ndx nx by (auto simp: owned_def)
  have oo: "owned V s' c' = owned V s c'" if "c' \<noteq> c" for c'
    using pd(4) d nx(1) that by (auto simp: owned_def intro!: arg_cong [where f = of_bool]) (metis option.distinct(1))
  have lk: "tot V (lock_tok c) s = 0"
  proof -
    have "tot V (lock_tok c) s \<le> tot V (weak_tok c) s"
      unfolding tot_def using mem_code [OF assms(1)] by (intro sum_mono own_code_lock) (auto simp: code_ok_def)
    also have "\<dots> \<le> 0" using fx(3) cells_nonneg(2) [of V s c] oc(2) by (simp add: weaks_of_def)
    finally show ?thesis using tot_nonneg(5) [OF assms(1), of c] by simp
  qed
  have sm: "strongs V s' y = strongs V s y + of_bool (y = x)" "tot V (lock_tok c') s' = tot V (lock_tok c') s"
    "tot V (kill_tok y) s' = tot V (kill_tok y) s" "tot V (delete_tok c') s' = tot V (delete_tok c') s" for y c'
    by (auto simp: sums)
  have wc: "weaks_of V s' c = 1" using oc fx(3) by (simp add: sums)
  have d1: "2 = dbl 1" by (simp add: dbl_def)
  have "object_ok V s' y" for y
  proof (cases "y = x")
    case True
    then show ?thesis using pd(4,5) fx lk d1 by (simp add: object_ok_def Let_def sm)
  next
    case False
    then have "object_ok V s' y = object_ok V s y" using pd(4,5) d sm nx(3) by (intro object_ok_cong) auto
    then show ?thesis using assms(1) by (simp add: mem_ok_def)
  qed
  moreover have "counters_ok V s' c'" for c'
  proof (cases "c' = c")
    case True
    have "objects s' x = Some (Some c) \<and> tot V (kill_tok x) s' = 0" using pd(4) fx sm by simp
    then show ?thesis using True pd(5) fx d1 wc by (auto simp: counters_ok_def sm)
  next
    case False
    then have "counters_ok V s' c' = counters_ok V s c'"
      using pd(4,5) nx(1) oo [OF False] sums sm by (intro counters_ok_cong) auto
    then show ?thesis using assms(1) by (simp add: mem_ok_def)
  qed
  moreover have "code_ok V s' u" if "u < nthreads V" for u
  proof (cases "u = t")
    case False
    then show ?thesis using that pd nx(1) by (intro guard_frame [OF assms(1)]) auto
  next
    case True
    then show ?thesis using pd(1) o clients_lsum [OF o(2)] by (auto simp: code_ok_def)
  qed
  moreover have "ids_ok s'"
    using I pd nx unfolding ids_ok_def by (auto simp: x_def c_def less_Suc_eq split: if_splits)
  ultimately show ?thesis using assms(1,2) pd by (auto simp: mem_ok_def)
qed

subsection \<open>Safety\<close>

lemma step_mem_ok:
  assumes "mem_ok V s" "small_world V" "ref_step t s = Some (Inr s')"
  shows "mem_ok V s'"
proof -
  obtain i p where p: "pending s t = i # p" and e: "ref_exec t i p s = Inr s'"
    using assms(3) by (auto simp: ref_step_def split: list.splits)
  have t: "t < nthreads V" using p assms(1) unfolding mem_ok_def by (metis list.distinct(1) not_le)
  note h = head_step [OF assms(1) t p]
  show ?thesis
  proof (cases i)
    case (Dec_weak c)
    then show ?thesis using step_weak_release [OF assms(1,2) t p, of c] e by blast
  next
    case (Dec_weak_twice c)
    then show ?thesis using step_weak_release [OF assms(1,2) t p, of c] e by blast
  next
    case (Dec_strong c x)
    then show ?thesis using step_Dec_strong [OF assms(1,2) t] p e by blast
  qed (use p e h assms(1) t in \<open>auto intro: step_New_object step_Assign_ref step_Clear_ref step_Use_ref step_Weak_of step_Assign_weak
        step_Clear_weak step_Get_weak step_Acquire step_Inc_strong step_Update_ref step_Move_ref step_Set_ref step_Release step_Null_object
        step_Destroy step_Free_object step_Request_weak step_Inc_weak step_Weak_read step_Weak_check step_Weak_cas step_Delete_counters
        step_Lock_strong step_Read_object simp del: ref_exec.simps\<close>)
qed

lemma weak_head:
  assumes "mem_ok V s" "t < nthreads V" "pending s t = i # p" "1 \<le> weak_tok c i"
  shows "counts s c \<noteq> None"
proof -
  have "own_code V t p" using head_step(1) [OF assms(1-3)] assms(4)
    by (cases i) (auto simp: clients_own_code of_bool_def split: reader.splits if_splits)
  then have "1 \<le> weaks_of V s c"
    using own_code_weak [of V t p c] assms(3,4) by (intro strongs_claims(3) [OF assms(1,2)]) simp
  then show ?thesis using weak_claim [OF assms(1)] by blast
qed

lemma strong_head:
  assumes "mem_ok V s" "t < nthreads V" "pending s t = i # p" "has_ref V s t x \<or> own_code V t p \<and> strong_tok x i = 1"
  shows "\<exists>c k. objects s x = Some (Some c) \<and> counts s c = Some k"
proof -
  have "1 \<le> strongs V s x"
    using assms(3,4) own_code_strong [of V t p x] strongs_claims(1,2) [OF assms(1,2), of x] by auto
  then show ?thesis using strong_claim [OF assms(1)] by metis
qed

lemma step_no_error:
  assumes "mem_ok V s"
  shows "ref_step t s \<noteq> Some (Inl e)"
proof
  assume "ref_step t s = Some (Inl e)"
  then obtain i p where p: "pending s t = i # p" and e: "ref_exec t i p s = Inl e"
    by (auto simp: ref_step_def split: list.splits)
  have t: "t < nthreads V" using p assms unfolding mem_ok_def by (metis list.distinct(1) not_le)
  note h = head_step [OF assms t p]
  note sh = strong_head [OF assms t p]
  show False
  proof (cases i)
    case (Use_ref r)
    have "sets p = {}" using h Use_ref clients_lsum by auto
    then have "refs s r = Some x \<Longrightarrow> has_ref V s t x" for x using h Use_ref p by (auto simp: has_ref_def)
    then have "refs s r = Some x \<Longrightarrow> objects s x \<noteq> None" for x using sh [of x] by auto
    then show ?thesis using e Use_ref by (auto split: option.splits)
  next
    case (Acquire x)
    then show ?thesis using sh [of x] e h by auto
  next
    case (Request_weak w x)
    then show ?thesis using sh [of x] e h by auto
  next
    case (Inc_strong c x)
    then show ?thesis using sh [of x] e h by auto
  next
    case (Release x)
    then show ?thesis using sh [of x] e h by auto
  next
    case (Dec_strong c x)
    then show ?thesis using sh [of x] e h by (auto split: prod.splits)
  next
    case (Null_object c)
    then obtain x p' where x: "p = Destroy x # p'" "objects s x = Some (Some c)" using h by auto
    then have k: "1 \<le> lsum (kill_tok x) (pending s t)" using p Null_object lsum_nonneg [of "kill_tok x" p'] by simp
    have "counts s c \<noteq> None"
      using kill_claim [OF assms t k] destroyer_alive [OF assms t _ k] x p Null_object by (metis list.set_intros option.distinct(1) option.inject)
    then show ?thesis using Null_object e by (auto split: option.splits)
  next
    case (Destroy x)
    then have k: "1 \<le> lsum (kill_tok x) (pending s t)" using p lsum_nonneg [of "kill_tok x" p] by simp
    then obtain c k where "objects s x = Some (Some c)" "counts s c = Some k" "odd (strongReferenceCount k)"
      using kill_claim [OF assms t k] destroyer_alive [OF assms t _ k] p Destroy by (metis list.set_intros(1))
    then show ?thesis using Destroy e by (auto simp: and_one_zero)
  next
    case (Free_object x)
    then have "1 \<le> lsum (kill_tok x) (pending s t)" using p lsum_nonneg [of "kill_tok x" p] by simp
    then have "objects s x \<noteq> None" using kill_claim [OF assms t, of x] by (metis option.distinct(1))
    then show ?thesis using Free_object e by (auto split: option.splits)
  next
    case (Inc_weak c)
    then have "counts s c \<noteq> None" using weak_claim [OF assms inc_weak_claim [OF assms t]] p by (metis option.distinct(1))
    then show ?thesis using Inc_weak e by (auto split: option.splits)
  next
    case (Delete_counters c)
    then have "1 \<le> tot V (delete_tok c) s"
      using tot_claims(4) [OF assms t, of c] p lsum_nonneg [of "delete_tok c" p] by simp
    moreover have "counters_ok V s c" using assms by (simp add: mem_ok_def)
    ultimately show ?thesis using Delete_counters e by (auto simp: counters_ok_def split: option.splits)
  next
    case (Dec_weak_twice c)
    then show ?thesis using weak_head [OF assms t p, of c] e by (auto split: prod.splits)
  next
    case (Dec_weak c)
    then show ?thesis using weak_head [OF assms t p, of c] e by (auto split: prod.splits)
  next
    case (Lock_strong c r)
    then show ?thesis using weak_head [OF assms t p, of c] e by (auto simp: Let_def)
  next
    case (Read_object c r)
    then show ?thesis using weak_head [OF assms t p, of c] e by auto
  qed (use e h in \<open>auto simp: Let_def split: option.splits if_splits\<close>)
qed

text \<open>The programs of a world and its start.\<close>

definition programs_in :: "ref_world \<Rightarrow> oid option list \<Rightarrow> cid option list \<Rightarrow> (tid \<times> rstmt list) list \<Rightarrow> bool" where
  "programs_in V rs ws ps \<longleftrightarrow> small_world V \<and> length rs = nrefs V \<and> length ws = nweaks V \<and> set ws \<subseteq> insert None (set rs) \<and>
     (\<forall>(t, p) \<in> set ps. t < nthreads V \<and> clients V t p)"

lemma pending_initial: "pending (initial_mem rs ws ps) t = (case map_of ps t of None \<Rightarrow> [] | Some p \<Rightarrow> p)"
  by (simp add: initial_mem_def)

lemma sum_count: "(\<Sum>i<length xs. of_bool (xs ! i = v)) = int (count_list xs v)"
proof -
  have "{..<length xs} \<inter> {i. xs ! i = v} = {i. i < length xs \<and> v = xs ! i}" by auto
  then show ?thesis by (simp add: count_list_eq_length_filter length_filter_conv_card)
qed

lemma start_ids: "Some x \<in> set rs \<Longrightarrow> x < Suc (sum_list (map (case_option 0 id) rs))"
  using member_le_sum_list [of x "map (case_option 0 id) rs"] by (force simp: less_Suc_eq_le)

lemma initial_mem_ok:
  assumes "programs_in V rs ws ps"
  shows "mem_ok V (initial_mem rs ws ps)"
proof -
  let ?s = "initial_mem rs ws ps"
  have c: "clients V t (pending ?s t)" for t
    using assms by (auto simp: programs_in_def pending_initial split: option.splits dest: map_of_SomeD)
  have lens: "length rs = nrefs V" "length ws = nweaks V" "set ws \<subseteq> insert None (set rs)" using assms by (simp_all add: programs_in_def)
  have pn: "pending ?s t = []" if "nthreads V \<le> t" for t
    using assms that by (auto simp: programs_in_def pending_initial split: option.splits dest!: map_of_SomeD)
  have t0: "tot V (strong_tok x) ?s = 0" "tot V (weak_tok y) ?s = 0" "tot V (kill_tok x) ?s = 0"
      "tot V (delete_tok y) ?s = 0" "tot V (lock_tok y) ?s = 0" for x y
    unfolding tot_def using clients_lsum [OF c] by simp_all
  have co: "code_ok V ?s t" for t
    using c [of t] clients_lsum [OF c, of t] by (simp add: code_ok_def clients_own_code)
  have nd: "\<not> dying V ?s x" for x unfolding dying_def using clients_lsum [OF c] by blast
  have cl: "cells V ?s x = int (count_list rs (Some x))" for x
    unfolding cells_def using clients_lsum [OF c] sum_count [of rs "Some x"] lens by (simp add: initial_mem_def del: sum_of_bool_eq)
  have wc: "weak_cells V ?s y = int (count_list ws (Some y))" for y
    unfolding weak_cells_def using sum_count [of ws "Some y"] lens by (simp add: initial_mem_def del: sum_of_bool_eq)
  have ow: "owned V ?s y = of_bool (Some y \<in> set rs)" for y
    using nd by (auto simp: owned_def initial_mem_def)
  have st: "strongs V ?s x = int (count_list rs (Some x))" and wo: "weaks_of V ?s y = int (count_list ws (Some y)) + of_bool (Some y \<in> set rs)" for x y
    using t0 cl wc ow by (simp_all add: strongs_def weaks_of_def)
  have "object_ok V ?s x" for x
  proof (cases "Some x \<in> set rs")
    case True
    then have "1 \<le> int (count_list rs (Some x))" using count_list_0_iff [of rs "Some x"] by (simp add: Suc_le_eq)
    then show ?thesis using True t0 st by (simp add: object_ok_def initial_mem_def start_counters_def dbl_def)
  next
    case False
    then show ?thesis using t0 st by (simp add: object_ok_def initial_mem_def count_list_0_iff)
  qed
  moreover have "counters_ok V ?s y" for y
  proof (cases "Some y \<in> set rs")
    case True
    have e: "even (strongReferenceCount (start_counters rs ws y))" by (simp add: start_counters_def)
    have "weakReferenceCount (start_counters rs ws y) = dbl (weaks_of V ?s y)" "1 \<le> weaks_of V ?s y"
      using True wo by (simp_all add: start_counters_def dbl_def)
    moreover have "counts ?s y = Some (start_counters rs ws y)" "objects ?s y = Some (Some y)" using True by (simp_all add: initial_mem_def)
    ultimately show ?thesis unfolding counters_ok_def using t0 e by auto
  next
    case False
    then have "Some y \<notin> set ws" using lens(3) by auto
    then show ?thesis using False t0 wo by (simp add: counters_ok_def initial_mem_def count_list_0_iff)
  qed
  moreover have "ids_ok ?s" using start_ids [of _ rs] by (auto simp: ids_ok_def initial_mem_def split: if_splits)
  ultimately show ?thesis using co pn lens by (simp add: mem_ok_def initial_mem_def)
qed

lemma run_mem_ok: "ref_run s s' \<Longrightarrow> mem_ok V s \<Longrightarrow> small_world V \<Longrightarrow> mem_ok V s'"
  by (induction rule: ref_run.induct) (auto intro: step_mem_ok)

lemma reachable_mem_ok: "programs_in V rs ws ps \<Longrightarrow> ref_run (initial_mem rs ws ps) s \<Longrightarrow> mem_ok V s"
  using run_mem_ok initial_mem_ok by (auto simp: programs_in_def)

text \<open>Between the operations the counts are exact: what is referred to is there, and nothing else.\<close>

lemma quiet_sums:
  assumes "\<And>t. pending s t = []"
  shows "strongs V s x = cells V s x" "weaks_of V s c = weak_cells V s c + owned V s c"
    "cells V s x = int (card {r. r < nrefs V \<and> refs s r = Some x})" "weak_cells V s c = int (card {w. w < nweaks V \<and> weaks s w = Some c})"
    "tot V f s = 0" "\<not> dying V s x"
proof -
  show t: "tot V f s = 0" for f using assms by (simp add: tot_def)
  then show "strongs V s x = cells V s x" "weaks_of V s c = weak_cells V s c + owned V s c" by (simp_all add: strongs_def weaks_of_def)
  have "{..<nrefs V} \<inter> {r. refs s r = Some x} = {r. r < nrefs V \<and> refs s r = Some x}"
    "{..<nweaks V} \<inter> {w. weaks s w = Some c} = {w. w < nweaks V \<and> weaks s w = Some c}" by auto
  then show "cells V s x = int (card {r. r < nrefs V \<and> refs s r = Some x})" "weak_cells V s c = int (card {w. w < nweaks V \<and> weaks s w = Some c})"
    using assms by (simp_all add: cells_def weak_cells_def)
  show "\<not> dying V s x" using assms by (simp add: dying_def)
qed

lemma quiet_exact:
  assumes "mem_ok V s" "\<And>t. pending s t = []"
  shows "objects s x \<noteq> None \<longleftrightarrow> (\<exists>r. refs s r = Some x)"
    "counts s c \<noteq> None \<longleftrightarrow> (\<exists>w. weaks s w = Some c) \<or> (\<exists>x. objects s x = Some (Some c))"
    "objects s x = Some (Some c) \<Longrightarrow> \<exists>k. counts s c = Some k \<and> strongReferenceCount k = dbl (int (card {r. r < nrefs V \<and> refs s r = Some x}))"
proof -
  note q = quiet_sums [OF assms(2)]
  have O: "object_ok V s x" and C: "counters_ok V s c" for x c using assms(1) by (simp_all add: mem_ok_def)
  have bnd: "refs s r = Some x \<Longrightarrow> r < nrefs V" "weaks s w = Some c \<Longrightarrow> w < nweaks V" for r w x c
    using assms(1) by (metis mem_ok_def not_le option.distinct(1))+
  have "objects s x \<noteq> None \<longleftrightarrow> cells V s x \<noteq> 0" using O [of x] q(1) [of V x] q(5) [of V] q(6) [of V x] by (auto simp: object_ok_def Let_def split: option.splits)
  then show "objects s x \<noteq> None \<longleftrightarrow> (\<exists>r. refs s r = Some x)" using q(3) [of V x] bnd(1) by auto
  have "counts s c \<noteq> None \<longleftrightarrow> weak_cells V s c + owned V s c \<noteq> 0" using C [of c] q(2) [of V c] q(5) [of V] by (auto simp: counters_ok_def split: option.splits)
  moreover have "owned V s c \<noteq> 0 \<longleftrightarrow> (\<exists>x. objects s x = Some (Some c))" using q(6) by (auto simp: owned_def)
  moreover have "weak_cells V s c \<noteq> 0 \<longleftrightarrow> (\<exists>w. weaks s w = Some c)" using q(4) [of V c] bnd(2) by auto
  moreover have "weak_cells V s c + owned V s c = 0 \<longleftrightarrow> weak_cells V s c = 0 \<and> owned V s c = 0"
    using cells_nonneg(2,3) [of V s c] by auto
  ultimately show "counts s c \<noteq> None \<longleftrightarrow> (\<exists>w. weaks s w = Some c) \<or> (\<exists>x. objects s x = Some (Some c))" by blast
  show "objects s x = Some (Some c) \<Longrightarrow> \<exists>k. counts s c = Some k \<and> strongReferenceCount k = dbl (int (card {r. r < nrefs V \<and> refs s r = Some x}))"
    using O [of x] q(1) [of V x] q(3) [of V x] q(5) [of V] by (auto simp: object_ok_def Let_def)
qed

subsection \<open>Wait freedom\<close>

text \<open>The steps that a statement and what it leads to can take.\<close>

fun steps_left :: "rstmt \<Rightarrow> int" where
  "steps_left (New_object r) = 9"
| "steps_left (Assign_ref r r') = 11"
| "steps_left (Clear_ref r) = 9"
| "steps_left (Use_ref r) = 1"
| "steps_left (Weak_of w r) = 10"
| "steps_left (Assign_weak w w') = 14"
| "steps_left (Clear_weak w) = 8"
| "steps_left (Get_weak r w) = 17"
| "steps_left (Cas_ref r ro rn) = 0"
| "steps_left (Acquire x) = 2"
| "steps_left (Create_counters x) = 0"
| "steps_left (Inc_strong c x) = 1"
| "steps_left (Update_ref r v) = 8"
| "steps_left (Move_ref r v) = 9"
| "steps_left (Set_ref r v) = 1"
| "steps_left (Release x) = 7"
| "steps_left (Dec_strong c x) = 6"
| "steps_left (Null_object c) = 1"
| "steps_left (Destroy x) = 4"
| "steps_left (Free_object x) = 1"
| "steps_left (Request_weak w x) = 9"
| "steps_left (Inc_weak c) = 1"
| "steps_left (Weak_read w k) = (case k of Store_weak v \<Rightarrow> 7 | Copy_weak w' \<Rightarrow> 13 | Lock_weak r \<Rightarrow> 16)"
| "steps_left (Weak_check w c k) = (case k of Store_weak v \<Rightarrow> 5 | Copy_weak w' \<Rightarrow> 11 | Lock_weak r \<Rightarrow> 14)"
| "steps_left (Weak_cas w q v) = 4"
| "steps_left (Dec_weak_twice c) = 3"
| "steps_left (Dec_weak c) = 2"
| "steps_left (Delete_counters c) = 1"
| "steps_left (Lock_strong c r) = 13"
| "steps_left (Read_object c r) = 12"

lemma steps_left_bounds: "0 \<le> steps_left i" "steps_left i \<le> 17"
  by (cases i; simp split: reader.splits)+

lemma steps_left_decreases:
  assumes "mem_ok V s" "ref_step t s = Some (Inr s')"
  shows "tot V steps_left s' < tot V steps_left s"
proof -
  obtain i p where p: "pending s t = i # p" and e: "ref_exec t i p s = Inr s'"
    using assms(2) by (auto simp: ref_step_def split: list.splits)
  have t: "t < nthreads V" using p assms(1) unfolding mem_ok_def by (metis list.distinct(1) not_le)
  note h = head_step [OF assms(1) t p]
  have "pending s' = (pending s)(t := pending s' t) \<and> lsum steps_left (pending s' t) < steps_left i + lsum steps_left p"
  proof (cases "\<exists>x. i = Acquire x \<or> (\<exists>w. i = Request_weak w x)")
    case True
    then obtain x where x: "has_ref V s t x" "i = Acquire x \<or> (\<exists>w. i = Request_weak w x)" using h by auto
    then obtain c k where "objects s x = Some (Some c)" using strong_head [OF assms(1) t p] by blast
    then show ?thesis using x(2) e by (auto simp: newref_def)
  next
    case False
    then show ?thesis using e h
      by (cases i) (auto simp: Let_def install_counters_def newref_def after_read_def weak_release_def
          split: option.splits if_splits reader.splits prod.splits)
  qed
  then show ?thesis using tot_upd [OF t, of s' s "pending s' t" steps_left] p by auto
qed

inductive ref_steps :: "nat \<Rightarrow> mem \<Rightarrow> mem \<Rightarrow> bool" where
  no_step: "ref_steps 0 s s"
| one_more: "ref_steps n s s' \<Longrightarrow> ref_step t s' = Some (Inr s'') \<Longrightarrow> ref_steps (Suc n) s s''"

lemma ref_steps_bound:
  "ref_steps n s s' \<Longrightarrow> mem_ok V s \<Longrightarrow> small_world V \<Longrightarrow> mem_ok V s' \<and> int n + tot V steps_left s' \<le> tot V steps_left s"
proof (induction rule: ref_steps.induct)
  case (one_more n s s' t s'')
  then show ?case using steps_left_decreases [of V s' t s''] step_mem_ok [of V s' t s''] by auto
qed simp

lemma steps_left_total: "tot V steps_left s \<le> 17 * int (\<Sum>t<nthreads V. length (pending s t))"
proof -
  have "lsum steps_left p \<le> 17 * int (length p)" for p
  proof (induction p)
    case (Cons i p)
    then show ?case using steps_left_bounds(2) [of i] by simp
  qed simp
  then have "tot V steps_left s \<le> (\<Sum>t<nthreads V. 17 * int (length (pending s t)))" unfolding tot_def by (intro sum_mono)
  then show ?thesis by (simp add: sum_distrib_left)
qed

lemma ref_trans: "ref_run s' s'' \<Longrightarrow> ref_run s s' \<Longrightarrow> ref_run s s''"
  by (induction rule: ref_run.induct) (auto intro: ref_more)

lemma ref_completes:
  "mem_ok V s \<Longrightarrow> small_world V \<Longrightarrow> \<exists>s'. ref_run s s' \<and> (\<forall>t. pending s' t = [])"
proof (induction "nat (tot V steps_left s)" arbitrary: s rule: less_induct)
  case less
  show ?case
  proof (cases "\<forall>t. pending s t = []")
    case True
    then show ?thesis using ref_refl by blast
  next
    case False
    then obtain t i p where "pending s t = i # p" by (metis neq_Nil_conv)
    then obtain s1 where s1: "ref_step t s = Some (Inr s1)"
      using step_no_error [OF less.prems(1), of t] by (cases "ref_exec t i p s") (auto simp: ref_step_def)
    have "0 \<le> tot V steps_left s1" unfolding tot_def by (intro sum_nonneg lsum_nonneg steps_left_bounds)
    then have "nat (tot V steps_left s1) < nat (tot V steps_left s)"
      using steps_left_decreases [OF less.prems(1) s1] by linarith
    then obtain s' where "ref_run s1 s'" "\<forall>t. pending s' t = []"
      using less.hyps step_mem_ok [OF less.prems s1] less.prems(2) by blast
    then show ?thesis using ref_trans [OF _ ref_more [OF ref_refl s1]] by blast
  qed
qed

lemma ref_steps_run: "ref_steps n s s' \<Longrightarrow> ref_run s s'"
  by (induction rule: ref_steps.induct) (auto intro: ref_run.intros)

text \<open>Two threads with references to one object, one of them with a weak reference too.\<close>

definition small_example :: ref_world where
  "small_example = \<lparr>nthreads = 2, nrefs = 4, nweaks = 1, ref_owner = (\<lambda>r. if r < 2 then 0 else 1), weak_owner = (\<lambda>w. 1)\<rparr>"

definition example_threads :: "(tid \<times> rstmt list) list" where
  "example_threads =
     [(0, [Assign_ref 1 0, Clear_ref 0, Use_ref 1, Clear_ref 1, New_object 0]),
      (1, [Clear_ref 2, Get_weak 3 0, Use_ref 3, Clear_ref 3, Clear_weak 0])]"

definition example_start :: mem where
  "example_start = initial_mem [Some 0, None, Some 0, None] [Some 0] example_threads"

lemma example_programs: "programs_in small_example [Some 0, None, Some 0, None] [Some 0] example_threads"
  by (simp add: programs_in_def small_world_def small_example_def example_threads_def my_ref_def my_weak_def)

lemma example_run: "ref_run (initial_mem [Some 0, None, Some 0, None] [Some 0] example_threads) example_start"
  unfolding example_start_def by (rule ref_refl)

lemma example_done:
  "\<exists>s. ref_run (initial_mem [Some 0, None, Some 0, None] [Some 0] example_threads) s \<and> (\<forall>t. pending s t = [])"
  using ref_completes [OF initial_mem_ok [OF example_programs]] example_programs by (simp add: programs_in_def)

subsection \<open>Properties\<close>

text \<open>
  C13. Reference counting is memory safe: however the threads interleave their assignments of references
  and weak references to shared objects, no step reads or writes a freed object or freed counters, frees
  something twice, follows a null pointer or fails the assertion in the destructor of \<open>Object\<close>; and what
  a reference points to is there whenever its thread is between two operations.
\<close>

theorem references_safe:
  assumes "programs_in V rs ws ps" "ref_run (initial_mem rs ws ps) s"
  shows "ref_step t s \<noteq> Some (Inl e) \<and> (pending s (ref_owner V r) = [] \<and> refs s r = Some x \<longrightarrow> objects s x \<noteq> None)"
proof
  have s: "mem_ok V s" using reachable_mem_ok [OF assms] .
  then show "ref_step t s \<noteq> Some (Inl e)" by (rule step_no_error)
  show "pending s (ref_owner V r) = [] \<and> refs s r = Some x \<longrightarrow> objects s x \<noteq> None"
  proof
    assume r: "pending s (ref_owner V r) = [] \<and> refs s r = Some x"
    then have "r < nrefs V" using s by (metis mem_ok_def not_le option.distinct(1))
    then have "has_ref V s (ref_owner V r) x" using r by (auto simp: has_ref_def my_ref_def)
    moreover have "ref_owner V r < nthreads V" using assms(1) \<open>r < nrefs V\<close> by (auto simp: programs_in_def small_world_def)
    ultimately show "objects s x \<noteq> None"
      using strong_claim [OF s strongs_claims(1) [OF s]] by (metis option.distinct(1))
  qed
qed

theorem references_safe_witness: "ref_step 0 example_start \<noteq> Some (Inl Undefined) \<and> ref_step 1 example_start \<noteq> Some (Inl Undefined)"
  using references_safe [OF example_programs example_run] by blast

text \<open>
  C14. Reference counting is exact: when the threads are done an object is there if and only if a
  reference points to it, its strong count is twice the number of these references, and a block of
  counters is there if and only if its object or a weak reference uses it: nothing leaks and nothing
  is freed too early.
\<close>

theorem references_exact:
  assumes "programs_in V rs ws ps" "ref_run (initial_mem rs ws ps) s" "\<And>t. pending s t = []"
  shows "(objects s x \<noteq> None \<longleftrightarrow> (\<exists>r. refs s r = Some x)) \<and>
    (counts s c \<noteq> None \<longleftrightarrow> (\<exists>w. weaks s w = Some c) \<or> (\<exists>x. objects s x = Some (Some c))) \<and>
    (objects s x = Some (Some c) \<longrightarrow>
       (\<exists>k. counts s c = Some k \<and> strongReferenceCount k = word_of_int (2 * int (card {r. r < nrefs V \<and> refs s r = Some x}))))"
  using quiet_exact [OF reachable_mem_ok [OF assms(1,2)] assms(3)] unfolding dbl_def by blast

theorem references_exact_witness:
  "\<exists>s. ref_run (initial_mem [Some 0, None, Some 0, None] [Some 0] example_threads) s \<and> (objects s 0 \<noteq> None \<longleftrightarrow> (\<exists>r. refs s r = Some 0))"
proof -
  obtain s where s: "ref_run (initial_mem [Some 0, None, Some 0, None] [Some 0] example_threads) s" "\<And>t. pending s t = []"
    using example_done by blast
  show ?thesis using references_exact [OF example_programs s, of 0] s(1) by blast
qed

text \<open>
  For references that are not shared a run makes at most 17 steps for every operation of the programs, where
  a loop around \<open>compare_exchange_weak\<close> on a counter counts as its successful attempt, and every run can be continued until all
  programs are done. The attempts that fail are counted in theory \<open>AtomicCounter\<close>.
\<close>

lemma references_wait_free:
  assumes "programs_in V rs ws ps" "ref_steps n (initial_mem rs ws ps) s"
  shows "n \<le> 17 * (\<Sum>t<nthreads V. length (pending (initial_mem rs ws ps) t)) \<and>
    (\<exists>s'. ref_run s s' \<and> (\<forall>t. pending s' t = []))"
proof
  have sw: "small_world V" using assms(1) by (simp add: programs_in_def)
  have m: "int n + tot V steps_left s \<le> tot V steps_left (initial_mem rs ws ps)" "mem_ok V s"
    using ref_steps_bound [OF assms(2) initial_mem_ok [OF assms(1)] sw] by auto
  moreover have "0 \<le> tot V steps_left s" unfolding tot_def by (intro sum_nonneg lsum_nonneg steps_left_bounds)
  ultimately have "int n \<le> 17 * int (\<Sum>t<nthreads V. length (pending (initial_mem rs ws ps) t))"
    using steps_left_total [of V "initial_mem rs ws ps"] by linarith
  then show "n \<le> 17 * (\<Sum>t<nthreads V. length (pending (initial_mem rs ws ps) t))" by linarith
  show "\<exists>s'. ref_run s s' \<and> (\<forall>t. pending s' t = [])" using ref_completes [OF m(2) sw] .
qed

lemma references_wait_free_witness: "\<exists>s'. ref_run example_start s' \<and> (\<forall>t. pending s' t = [])"
  using references_wait_free [OF example_programs, of 0 example_start] ref_steps.no_step unfolding example_start_def by blast

text \<open>
  References that threads share are not safe: when one thread reads a weak reference while another
  clears it, the reader counts in freed counters, because \<open>safeRead\<close> reads the pointer before it takes its
  share of the count; and when a thread assigns by \<open>compareAndSet\<close>, which stores the pointer before it counts
  it, another thread that clears the reference destroys an object that is still referenced.
\<close>

lemma shared_references_unsafe:
  "(\<exists>s. ref_schedule [1, 1, 0, 0, 0, 0, 0, 0, 0, 0, 0, 0, 0, 0, 0, 0]
          (initial_mem [Some 0, None] [Some 0] [(0, [Clear_weak 0, Clear_ref 0]), (1, [Get_weak 1 0])])
        = Inr s \<and> counts s 0 = None \<and> ref_step 1 s = Some (Inl Undefined)) \<and>
   (\<exists>s. ref_schedule [0, 1, 1, 1, 1, 1, 1, 1, 1] (initial_mem [Some 0, None, None] [] [(0, [Cas_ref 1 2 0]), (1, [Clear_ref 1])])
        = Inr s \<and> refs s 0 = Some 0 \<and> objects s 0 = None \<and> ref_step 0 s = Some (Inl Undefined))"
  by (simp add: ref_step_def initial_mem_def start_counters_def newref_def after_read_def Let_def
       decrementAndTestAndSet_def increaseCount_def rgoto_def set_count_def set_cell_def set_weak_def)

end
