(* ===== verification/Strings.thy ===== *)
theory Strings
  imports ByteStream
begin

text \<open>
  The memory of \<^verbatim>\<open>system/lang/String.h\<close> and \<^verbatim>\<open>String.cpp\<close>: a string of fewer than 16 bytes lives in
  the object itself, in a union with the pointer to the block that holds a longer one. String objects
  are kept in a store under their address, so that \<open>this\<close> and a \<open>const String&\<close> argument may be the
  same object; \<open>malloc\<close> hands out fresh block addresses and \<open>realloc\<close> always moves. A byte that
  was never written is \<open>None\<close>. The union is its 16 bytes: storing the pointer overwrites the first
  eight of them, as on the hosts the engine runs on.
\<close>

subsection \<open>Objects, blocks and pointers\<close>

definition SSO_SIZE :: int where
  "SSO_SIZE = 16"

record cstring =
  s_count :: int
  cell :: "byte option list"

record smem =
  objs :: "nat \<Rightarrow> cstring option"
  blocks :: "nat \<Rightarrow> byte option list option"
  brk :: nat

definition raw_string :: cstring where
  "raw_string = \<lparr>s_count = 0, cell = replicate 16 None\<rparr>"

definition str_value :: "cstring \<Rightarrow> nat option" where
  "str_value s = (if None \<in> set (take 8 (cell s)) then None else Some (le_val (map the (take 8 (cell s)))))"

definition set_value :: "nat \<Rightarrow> cstring \<Rightarrow> cstring" where
  "set_value p s = s\<lparr>cell := memcpy_into (cell s) 0 (map Some (le_bytes 8 p))\<rparr>"

definition str_get :: "nat \<Rightarrow> smem \<Rightarrow> cstring res" where
  "str_get i m = (case objs m i of None \<Rightarrow> Inl Undefined | Some s \<Rightarrow> Inr s)"

definition str_put :: "nat \<Rightarrow> cstring \<Rightarrow> smem \<Rightarrow> smem" where
  "str_put i s m = m\<lparr>objs := (objs m)(i \<mapsto> s)\<rparr>"

definition malloc :: "nat \<Rightarrow> smem \<Rightarrow> nat \<times> smem" where
  "malloc n m = (brk m, m\<lparr>blocks := (blocks m)(brk m \<mapsto> replicate n None), brk := Suc (brk m)\<rparr>)"

definition free :: "nat \<Rightarrow> smem \<Rightarrow> smem res" where
  "free p m = (if p = 0 then Inr m else case blocks m p of None \<Rightarrow> Inl Undefined
     | Some _ \<Rightarrow> Inr (m\<lparr>blocks := (blocks m)(p := None)\<rparr>))"

definition read_block :: "nat \<Rightarrow> smem \<Rightarrow> byte option list res" where
  "read_block p m = (case blocks m p of None \<Rightarrow> Inl Undefined | Some b \<Rightarrow> Inr b)"

definition write_block :: "nat \<Rightarrow> nat \<Rightarrow> byte option list \<Rightarrow> smem \<Rightarrow> smem res" where
  "write_block p off bs m = rbind (read_block p m) (\<lambda>b.
     if off + length bs \<le> length b then Inr (m\<lparr>blocks := (blocks m)(p \<mapsto> memcpy_into b off bs)\<rparr>) else Inl Undefined)"

definition realloc :: "nat \<Rightarrow> nat \<Rightarrow> smem \<Rightarrow> (nat \<times> smem) res" where
  "realloc p n m = rbind (read_block p m) (\<lambda>b. rbind (free p m) (\<lambda>m1.
     case malloc n m1 of (q, m2) \<Rightarrow> rbind (write_block q 0 (take n b) m2) (\<lambda>m3. Inr (q, m3))))"

definition ptr_value :: "cstring \<Rightarrow> nat res" where
  "ptr_value s = (case str_value s of None \<Rightarrow> Inl Undefined | Some p \<Rightarrow> Inr p)"

text \<open>\<open>begin()\<close>: the bytes it points at; \<open>memcpy\<close> of the first \<open>n\<close> of them.\<close>

definition str_begin :: "smem \<Rightarrow> cstring \<Rightarrow> byte option list res" where
  "str_begin m s = (if s_count s < SSO_SIZE then Inr (cell s) else rbind (ptr_value s) (\<lambda>p. read_block p m))"

definition copy_out :: "int \<Rightarrow> byte option list \<Rightarrow> byte option list res" where
  "copy_out n b = (if 0 \<le> n \<and> nat n \<le> length b then Inr (take (nat n) b) else Inl Undefined)"

definition set_sso :: "nat \<Rightarrow> byte option list \<Rightarrow> cstring \<Rightarrow> cstring res" where
  "set_sso off bs s = (if off + length bs \<le> length (cell s) then Inr (s\<lparr>cell := memcpy_into (cell s) off bs\<rparr>) else Inl Undefined)"

subsection \<open>Construction, clearing and assignment\<close>

text \<open>\<open>create(str, len)\<close>, with the \<open>len\<close> bytes at \<open>str\<close>; the new string object and the memory.\<close>

definition str_create :: "byte option list \<Rightarrow> cstring \<Rightarrow> smem \<Rightarrow> (cstring \<times> smem) res" where
  "str_create bs s m = (let len = int (length bs) in
     if len < SSO_SIZE then
       rbind (set_sso 0 bs s) (\<lambda>s1. rbind (set_sso (nat len) [Some 0] s1) (\<lambda>s2. Inr (s2\<lparr>s_count := len\<rparr>, m)))
     else rbind (chk32 (len + 1)) (\<lambda>n. case malloc (nat n) m of (p, m1) \<Rightarrow>
       rbind (write_block p 0 bs m1) (\<lambda>m2. rbind (write_block p (nat len) [Some 0] m2) (\<lambda>m3.
       Inr ((set_value p s)\<lparr>s_count := len\<rparr>, m3)))))"

definition str_create_at :: "nat \<Rightarrow> byte option list \<Rightarrow> cstring \<Rightarrow> smem \<Rightarrow> smem res" where
  "str_create_at i bs s m = rbind (str_create bs s m) (\<lambda>(s', m'). Inr (str_put i s' m'))"

definition str_new :: "nat \<Rightarrow> smem \<Rightarrow> smem res" where
  "str_new i m = str_create_at i [] raw_string m"

text \<open>A \<open>const char*\<close> argument is null or points to the bytes given, followed by a zero.\<close>

definition c_str :: "byte list \<Rightarrow> byte list" where
  "c_str p = takeWhile (\<lambda>b. b \<noteq> 0) p"

definition strlen :: "byte list \<Rightarrow> nat" where
  "strlen p = length (c_str p)"

definition str_new_c :: "nat \<Rightarrow> byte list option \<Rightarrow> smem \<Rightarrow> smem res" where
  "str_new_c i str m = (case str of None \<Rightarrow> Inl IllegalArgumentException
     | Some p \<Rightarrow> str_create_at i (map Some (take (strlen p) p)) raw_string m)"

definition str_new_len :: "nat \<Rightarrow> byte list option \<Rightarrow> int \<Rightarrow> smem \<Rightarrow> smem res" where
  "str_new_len i str len m = (if len \<noteq> 0 \<and> str = None then Inl IllegalArgumentException
     else rbind (copy_out len (map Some (case str of None \<Rightarrow> [] | Some p \<Rightarrow> p))) (\<lambda>bs. str_create_at i bs raw_string m))"

definition str_copy :: "nat \<Rightarrow> nat \<Rightarrow> smem \<Rightarrow> smem res" where
  "str_copy i j m = rbind (str_get j m) (\<lambda>t. rbind (str_begin m t) (\<lambda>b. rbind (copy_out (s_count t) b) (\<lambda>bs.
     str_create_at i bs raw_string m)))"

definition str_destroy :: "nat \<Rightarrow> smem \<Rightarrow> smem res" where
  "str_destroy i m = rbind (str_get i m) (\<lambda>s.
     rbind (if s_count s \<ge> SSO_SIZE then rbind (ptr_value s) (\<lambda>p. free p m) else Inr m) (\<lambda>m1.
     Inr (m1\<lparr>objs := (objs m1)(i := None)\<rparr>)))"

text \<open>
  The body that the move constructor and the move assignment share: short strings are copied, the
  block of a long one changes hands and the source is left empty.
\<close>

definition str_take :: "nat \<Rightarrow> cstring \<Rightarrow> nat \<Rightarrow> smem \<Rightarrow> smem res" where
  "str_take i s j m = rbind (str_get j m) (\<lambda>t.
     if s_count t < SSO_SIZE then
       rbind (copy_out (s_count t) (cell t)) (\<lambda>bs. rbind (set_sso 0 bs s) (\<lambda>s1. rbind (set_sso (nat (s_count t)) [Some 0] s1) (\<lambda>s2.
       Inr (str_put i (s2\<lparr>s_count := s_count t\<rparr>) m))))
     else rbind (ptr_value t) (\<lambda>p.
       Inr (str_put j ((set_value 0 t)\<lparr>s_count := 0\<rparr>) (str_put i ((set_value p s)\<lparr>s_count := s_count t\<rparr>) m))))"

definition str_move :: "nat \<Rightarrow> nat \<Rightarrow> smem \<Rightarrow> smem res" where
  "str_move i j m = str_take i raw_string j m"

definition str_clear :: "nat \<Rightarrow> smem \<Rightarrow> smem res" where
  "str_clear i m = rbind (str_get i m) (\<lambda>s.
     if s_count s < SSO_SIZE then Inr (str_put i (s\<lparr>s_count := 0\<rparr>) m)
     else rbind (ptr_value s) (\<lambda>p. if p = 0 then Inr m else
       rbind (free p m) (\<lambda>m1. Inr (str_put i ((set_value 0 s)\<lparr>s_count := 0\<rparr>) m1))))"

definition str_assign_c :: "nat \<Rightarrow> byte list \<Rightarrow> smem \<Rightarrow> smem res" where
  "str_assign_c i str m = rbind (str_clear i m) (\<lambda>m1. rbind (str_get i m1) (\<lambda>s.
     str_create_at i (map Some (take (strlen str) str)) s m1))"

text \<open>\<open>begin() == str.begin()\<close> compares two addresses: of the objects or of their blocks.\<close>

definition same_begin :: "nat \<Rightarrow> nat \<Rightarrow> smem \<Rightarrow> bool res" where
  "same_begin i j m = rbind (str_get i m) (\<lambda>s. rbind (str_get j m) (\<lambda>t.
     if s_count s < SSO_SIZE \<or> s_count t < SSO_SIZE then Inr (i = j)
     else rbind (ptr_value s) (\<lambda>p. rbind (ptr_value t) (\<lambda>q. Inr (p = q)))))"

definition str_assign :: "nat \<Rightarrow> nat \<Rightarrow> smem \<Rightarrow> smem res" where
  "str_assign i j m = rbind (same_begin i j m) (\<lambda>same. if same then Inr m else
     rbind (str_clear i m) (\<lambda>m1. rbind (str_get j m1) (\<lambda>t. rbind (str_begin m1 t) (\<lambda>b. rbind (copy_out (s_count t) b) (\<lambda>bs.
     rbind (str_get i m1) (\<lambda>s. str_create_at i bs s m1))))))"

definition str_move_assign :: "nat \<Rightarrow> nat \<Rightarrow> smem \<Rightarrow> smem res" where
  "str_move_assign i j m = (if i = j then Inr m else
     rbind (str_clear i m) (\<lambda>m1. rbind (str_get i m1) (\<lambda>s. str_take i s j m1)))"

subsection \<open>Appending\<close>

text \<open>
  The part of the three \<open>operator+=\<close> that makes room for \<open>newlen\<close> bytes when they do not fit into the object: the
  pointer is stored before the bytes to append are read.
\<close>

definition str_grow :: "nat \<Rightarrow> int \<Rightarrow> smem \<Rightarrow> smem res" where
  "str_grow i newlen m = rbind (str_get i m) (\<lambda>s. rbind (chk32 (newlen + 1)) (\<lambda>n.
     if s_count s < SSO_SIZE then
       (case malloc (nat n) m of (p, m1) \<Rightarrow>
        rbind (copy_out (s_count s) (cell s)) (\<lambda>bs. rbind (write_block p 0 bs m1) (\<lambda>m2. rbind (write_block p (nat newlen) [Some 0] m2) (\<lambda>m3.
        Inr (str_put i (set_value p s) m3)))))
     else rbind (ptr_value s) (\<lambda>p. rbind (realloc p (nat n) m) (\<lambda>(q, m1). Inr (str_put i (set_value q s) m1)))))"

definition str_append_long :: "nat \<Rightarrow> int \<Rightarrow> byte option list \<Rightarrow> smem \<Rightarrow> smem res" where
  "str_append_long i newlen bs m = rbind (str_get i m) (\<lambda>s. rbind (ptr_value s) (\<lambda>p.
     rbind (write_block p (nat (s_count s)) bs m) (\<lambda>m1. rbind (write_block p (nat newlen) [Some 0] m1) (\<lambda>m2.
     Inr (str_put i (s\<lparr>s_count := newlen\<rparr>) m2)))))"

definition str_append_short :: "nat \<Rightarrow> int \<Rightarrow> byte option list \<Rightarrow> smem \<Rightarrow> smem res" where
  "str_append_short i newlen bs m = rbind (str_get i m) (\<lambda>s. rbind (set_sso (nat (s_count s)) bs s) (\<lambda>s1.
     rbind (set_sso (nat newlen) [Some 0] s1) (\<lambda>s2. Inr (str_put i (s2\<lparr>s_count := newlen\<rparr>) m))))"

definition str_append_c :: "nat \<Rightarrow> byte list \<Rightarrow> smem \<Rightarrow> smem res" where
  "str_append_c i str m = (let bs = map Some (take (strlen str) str) in
     rbind (str_get i m) (\<lambda>s. rbind (chk32 (s_count s + int (length bs))) (\<lambda>newlen.
     if newlen < SSO_SIZE then str_append_short i newlen bs m
     else rbind (str_grow i newlen m) (str_append_long i newlen bs))))"

definition str_append_char :: "nat \<Rightarrow> byte \<Rightarrow> smem \<Rightarrow> smem res" where
  "str_append_char i ch m = rbind (str_get i m) (\<lambda>s. rbind (chk32 (s_count s + 1)) (\<lambda>newlen.
     if newlen < SSO_SIZE then str_append_short i newlen [Some ch] m
     else rbind (str_grow i newlen m) (str_append_long i newlen [Some ch])))"

definition read_string :: "nat \<Rightarrow> smem \<Rightarrow> byte option list res" where
  "read_string j m = rbind (str_get j m) (\<lambda>t. rbind (str_begin m t) (copy_out (s_count t)))"

definition str_append :: "nat \<Rightarrow> nat \<Rightarrow> smem \<Rightarrow> smem res" where
  "str_append i j m = rbind (str_get i m) (\<lambda>s. rbind (str_get j m) (\<lambda>t. rbind (chk32 (s_count s + s_count t)) (\<lambda>newlen.
     if newlen < SSO_SIZE then rbind (read_string j m) (\<lambda>bs. str_append_short i newlen bs m)
     else rbind (str_grow i newlen m) (\<lambda>m1. rbind (read_string j m1) (\<lambda>bs. str_append_long i newlen bs m1)))))"

text \<open>\<open>concat\<close>: a new string \<open>k\<close>, copied from \<open>i\<close>, then extended with bytes that lie elsewhere.\<close>

definition str_concat_bytes :: "nat \<Rightarrow> nat \<Rightarrow> byte option list \<Rightarrow> smem \<Rightarrow> smem res" where
  "str_concat_bytes k i bs m = rbind (str_copy k i m) (\<lambda>m1. rbind (str_get k m1) (\<lambda>s.
     rbind (chk32 (s_count s + int (length bs))) (\<lambda>newlen.
     if newlen < SSO_SIZE then str_append_short k newlen bs m1
     else rbind (str_grow k newlen m1) (str_append_long k newlen bs))))"

definition str_concat :: "nat \<Rightarrow> nat \<Rightarrow> nat \<Rightarrow> smem \<Rightarrow> smem res" where
  "str_concat k i j m = rbind (read_string j m) (\<lambda>bs. str_concat_bytes k i bs m)"

definition str_concat_c :: "nat \<Rightarrow> nat \<Rightarrow> byte list \<Rightarrow> smem \<Rightarrow> smem res" where
  "str_concat_c k i str m = str_concat_bytes k i (map Some (take (strlen str) str)) m"

subsection \<open>Access by index\<close>

definition begin_at :: "nat \<Rightarrow> nat \<Rightarrow> smem \<Rightarrow> byte res" where
  "begin_at i k m = rbind (str_get i m) (\<lambda>s. rbind (str_begin m s) (\<lambda>b.
     if k < length b then (case b ! k of None \<Rightarrow> Inl Undefined | Some c \<Rightarrow> Inr c) else Inl Undefined))"

definition set_begin_at :: "nat \<Rightarrow> nat \<Rightarrow> byte \<Rightarrow> smem \<Rightarrow> smem res" where
  "set_begin_at i k ch m = rbind (str_get i m) (\<lambda>s.
     if s_count s < SSO_SIZE then rbind (set_sso k [Some ch] s) (\<lambda>s'. Inr (str_put i s' m))
     else rbind (ptr_value s) (\<lambda>p. write_block p k [Some ch] m))"

definition charAt :: "nat \<Rightarrow> int \<Rightarrow> smem \<Rightarrow> byte res" where
  "charAt i index m = rbind (str_get i m) (\<lambda>s.
     if index < 0 \<or> index \<ge> s_count s then Inl (ArrayIndexOutOfBoundsException index) else begin_at i (nat index) m)"

text \<open>An assignment through the reference that \<open>operator[]\<close> returns.\<close>

definition str_set :: "nat \<Rightarrow> int \<Rightarrow> byte \<Rightarrow> smem \<Rightarrow> smem res" where
  "str_set i index ch m = rbind (str_get i m) (\<lambda>s.
     if index < 0 \<or> index \<ge> s_count s then Inl (ArrayIndexOutOfBoundsException index) else set_begin_at i (nat index) ch m)"

definition isupper :: "byte \<Rightarrow> bool" where "isupper c \<longleftrightarrow> 65 \<le> c \<and> c \<le> 90"
definition islower :: "byte \<Rightarrow> bool" where "islower c \<longleftrightarrow> 97 \<le> c \<and> c \<le> 122"
definition tolower :: "byte \<Rightarrow> byte" where "tolower c = (if isupper c then c + 32 else c)"
definition toupper :: "byte \<Rightarrow> byte" where "toupper c = (if islower c then c - 32 else c)"

text \<open>The loops of \<open>changeToLowerCase\<close> and \<open>changeToUpperCase\<close>, from index \<open>k\<close> on.\<close>

fun change_loop :: "(byte \<Rightarrow> bool) \<Rightarrow> (byte \<Rightarrow> byte) \<Rightarrow> nat \<Rightarrow> nat \<Rightarrow> nat \<Rightarrow> smem \<Rightarrow> smem res" where
  "change_loop test f i k 0 m = Inr m"
| "change_loop test f i k (Suc n) m = rbind (begin_at i k m) (\<lambda>ch.
     rbind (if test ch then set_begin_at i k (f ch) m else Inr m) (change_loop test f i (Suc k) n))"

definition changeToLowerCase :: "nat \<Rightarrow> smem \<Rightarrow> smem res" where
  "changeToLowerCase i m = rbind (str_get i m) (\<lambda>s. change_loop isupper tolower i 0 (nat (s_count s)) m)"

definition changeToUpperCase :: "nat \<Rightarrow> smem \<Rightarrow> smem res" where
  "changeToUpperCase i m = rbind (str_get i m) (\<lambda>s. change_loop islower toupper i 0 (nat (s_count s)) m)"

definition toLowerCase :: "nat \<Rightarrow> nat \<Rightarrow> smem \<Rightarrow> smem res" where
  "toLowerCase k i m = rbind (str_copy k i m) (changeToLowerCase k)"

definition toUpperCase :: "nat \<Rightarrow> nat \<Rightarrow> smem \<Rightarrow> smem res" where
  "toUpperCase k i m = rbind (str_copy k i m) (changeToUpperCase k)"

subsection \<open>What a memory represents\<close>

text \<open>
  \<open>str_at B s bs\<close>: with the blocks \<open>B\<close>, the object \<open>s\<close> is a string with the bytes \<open>bs\<close>, terminated by a zero.
  In \<open>smem_rep m A\<close> every object is one, \<open>A\<close> gives their contents, and every block belongs to exactly
  one of them: nothing is shared and nothing has leaked.
\<close>

definition str_at :: "(nat \<Rightarrow> byte option list option) \<Rightarrow> cstring \<Rightarrow> byte list \<Rightarrow> bool" where
  "str_at B s bs \<longleftrightarrow> s_count s = int (length bs) \<and> length (cell s) = 16 \<and>
     (if length bs < 16 then take (Suc (length bs)) (cell s) = map Some (bs @ [0])
      else int (length bs) < 2 ^ 31 - 1 \<and> (\<exists>p. str_value s = Some p \<and> B p = Some (map Some (bs @ [0]))))"

definition str_ptr :: "cstring \<Rightarrow> nat option" where
  "str_ptr s = (if s_count s \<ge> SSO_SIZE then str_value s else None)"

definition owns :: "smem \<Rightarrow> nat \<Rightarrow> nat \<Rightarrow> bool" where
  "owns m i p \<longleftrightarrow> (\<exists>s. objs m i = Some s \<and> str_ptr s = Some p)"

definition smem_rep :: "smem \<Rightarrow> (nat \<Rightarrow> byte list option) \<Rightarrow> bool" where
  "smem_rep m A \<longleftrightarrow> 0 < brk m \<and> (\<forall>i. rel_option (str_at (blocks m)) (objs m i) (A i)) \<and>
     (\<forall>p b. blocks m p = Some b \<longrightarrow> 0 < p \<and> p < brk m \<and> (\<exists>!i. owns m i p))"

definition smem_empty :: smem where
  "smem_empty = \<lparr>objs = (\<lambda>_. None), blocks = (\<lambda>_. None), brk = 1\<rparr>"

lemma smem_rep_empty: "smem_rep smem_empty (\<lambda>_. None)"
  by (simp add: smem_rep_def smem_empty_def)

subsection \<open>Frame lemmas\<close>

lemma str_value_set:
  assumes "length (cell s) = 16" "p < 2 ^ 64"
  shows "str_value (set_value p s) = Some p"
proof -
  have "take 8 (cell (set_value p s)) = map Some (le_bytes 8 p)" by (simp add: set_value_def memcpy_into_def)
  moreover have "le_val (le_bytes 8 p) = p" using assms(2) by (simp add: le_val_le_bytes)
  ultimately show ?thesis by (auto simp: str_value_def comp_def)
qed

lemma str_value_count [simp]: "str_value (s\<lparr>s_count := c\<rparr>) = str_value s"
  by (simp add: str_value_def)

lemma length_set_value [simp]: "length (cell s) = 16 \<Longrightarrow> length (cell (set_value p s)) = 16"
  by (simp add: set_value_def)

lemma set_value_count [simp]: "s_count (set_value p s) = s_count s"
  by (simp add: set_value_def)

lemma rep_obj:
  assumes "smem_rep m A" "A i = Some a"
  obtains s where "objs m i = Some s" "str_at (blocks m) s a" "str_get i m = Inr s"
proof -
  have "rel_option (str_at (blocks m)) (objs m i) (Some a)" using assms by (metis smem_rep_def)
  then obtain s where "objs m i = Some s" "str_at (blocks m) s a" by (cases "objs m i") auto
  then show thesis using that by (simp add: str_get_def)
qed

lemma rep_owned:
  assumes "smem_rep m A" "owns m i p"
  shows "\<exists>b. blocks m p = Some b" "0 < p" "p < brk m" "owns m j p \<Longrightarrow> j = i"
proof -
  obtain s where s: "objs m i = Some s" "str_ptr s = Some p" using assms(2) by (auto simp: owns_def)
  have "rel_option (str_at (blocks m)) (objs m i) (A i)" using assms(1) by (simp add: smem_rep_def)
  then obtain a where "str_at (blocks m) s a" using s(1) by (cases "A i") auto
  then show b: "\<exists>b. blocks m p = Some b" using s(2) by (auto simp: str_at_def str_ptr_def SSO_SIZE_def split: if_splits)
  then show "0 < p" "p < brk m" "owns m j p \<Longrightarrow> j = i" using assms by (auto simp: smem_rep_def)
qed

text \<open>One object is replaced, and only blocks that it owned or that are new have changed.\<close>

lemma smem_replace:
  assumes r: "smem_rep m A" and o: "objs m' = (objs m)(i := x)" "brk m \<le> brk m'"
    and frame: "\<And>p. \<not> owns m i p \<Longrightarrow> p < brk m \<Longrightarrow> blocks m' p = blocks m p"
    and new: "\<And>p b. blocks m' p = Some b \<Longrightarrow> owns m i p \<or> brk m \<le> p \<Longrightarrow> p < brk m' \<and> (\<exists>s. x = Some s \<and> str_ptr s = Some p)"
    and x: "rel_option (str_at (blocks m')) x a" "\<And>s p. x = Some s \<Longrightarrow> str_ptr s = Some p \<Longrightarrow> owns m i p \<or> brk m \<le> p"
  shows "smem_rep m' (A(i := a))"
proof -
  have other: "owns m' j p \<longleftrightarrow> owns m j p" if "j \<noteq> i" for j p using that o(1) by (simp add: owns_def)
  have "rel_option (str_at (blocks m')) (objs m' j) ((A(i := a)) j)" for j
  proof (cases "j = i")
    case True
    then show ?thesis using x(1) o(1) by simp
  next
    case False
    have j: "rel_option (str_at (blocks m)) (objs m j) (A j)" using r by (simp add: smem_rep_def)
    have "blocks m' p = blocks m p" if "owns m j p" for p
      using rep_owned(3,4) [OF r that] False by (intro frame) auto
    then have "str_at (blocks m') s b" if "objs m j = Some s" "str_at (blocks m) s b" for s b
      using that unfolding str_at_def str_ptr_def owns_def by (auto simp: SSO_SIZE_def split: if_splits)
    then show ?thesis using j False o(1) by (cases "objs m j"; cases "A j") auto
  qed
  moreover have "0 < p \<and> p < brk m' \<and> (\<exists>!j. owns m' j p)" if b: "blocks m' p = Some b" for p b
  proof (cases "owns m i p \<or> brk m \<le> p")
    case True
    then have p: "p < brk m'" "owns m' i p" using new [OF b True] o(1) by (auto simp: owns_def)
    have "\<not> owns m' j p" if "j \<noteq> i" for j using True rep_owned(3,4) [OF r] that unfolding other [OF that] by (meson leD)
    moreover have "0 < p" using True rep_owned(2) [OF r] r by (auto simp: smem_rep_def)
    ultimately show ?thesis using p by metis
  next
    case False
    then have "blocks m p = Some b" using frame b by simp
    then have "0 < p" "p < brk m" "\<exists>!j. owns m j p" using r by (auto simp: smem_rep_def)
    moreover have "owns m' j p \<longleftrightarrow> owns m j p" for j
      using other [of j p] False x(2) o(1) by (cases "j = i") (auto simp: owns_def)
    ultimately show ?thesis using o(2) by auto
  qed
  ultimately show ?thesis using r o(2) by (simp add: smem_rep_def)
qed

text \<open>A memory in which the object \<open>i\<close> is under construction: everything else is in order.\<close>

definition hole :: "nat \<Rightarrow> smem \<Rightarrow> (nat \<Rightarrow> byte list option) \<Rightarrow> bool" where
  "hole i m A \<longleftrightarrow> smem_rep (m\<lparr>objs := (objs m)(i := None)\<rparr>) (A(i := None))"

lemma hole_new: "smem_rep m A \<Longrightarrow> A i = None \<Longrightarrow> hole i m A"
proof -
  assume a: "smem_rep m A" "A i = None"
  have "rel_option (str_at (blocks m)) (objs m i) None" using a by (metis smem_rep_def)
  then have "objs m i = None" by simp
  then have "m\<lparr>objs := (objs m)(i := None)\<rparr> = m" "A(i := None) = A" using a(2) by (auto simp: fun_upd_idem)
  then show ?thesis using a(1) by (simp add: hole_def)
qed

lemma rep_fresh: "smem_rep m A \<Longrightarrow> brk m \<le> p \<Longrightarrow> blocks m p = None"
  by (cases "blocks m p") (auto simp: smem_rep_def)

lemma hole_fresh: "hole i m A \<Longrightarrow> brk m \<le> p \<Longrightarrow> blocks m p = None"
  using rep_fresh by (fastforce simp: hole_def)

lemma hole_fill:
  assumes "hole i m A" and o: "objs m' = (objs m)(i \<mapsto> s)" "brk m \<le> brk m'"
    and "\<And>p. p < brk m \<Longrightarrow> blocks m' p = blocks m p"
    and "\<And>p b. blocks m' p = Some b \<Longrightarrow> brk m \<le> p \<Longrightarrow> p < brk m' \<and> str_ptr s = Some p"
    and "str_at (blocks m') s a" "\<And>p. str_ptr s = Some p \<Longrightarrow> brk m \<le> p"
  shows "smem_rep m' (A(i \<mapsto> a))"
proof -
  let ?h = "m\<lparr>objs := (objs m)(i := None)\<rparr>"
  have h: "smem_rep ?h (A(i := None))" using assms(1) by (simp add: hole_def)
  have n: "\<not> owns ?h i p" for p by (simp add: owns_def)
  have "smem_rep m' ((A(i := None))(i := Some a))"
  proof (rule smem_replace [OF h, where i = i and x = "Some s"])
    show "objs m' = (objs ?h)(i := Some s)" "brk ?h \<le> brk m'" using o by simp_all
    show "blocks m' p = blocks ?h p" if "p < brk ?h" for p using assms(4) [of p] that by simp
    show "p < brk m' \<and> (\<exists>s'. Some s = Some s' \<and> str_ptr s' = Some p)"
      if "blocks m' p = Some b" "owns ?h i p \<or> brk ?h \<le> p" for p b using assms(5) [OF that(1)] that(2) n by simp
    show "rel_option (str_at (blocks m')) (Some s) (Some a)" using assms(6) by simp
    show "owns ?h i p \<or> brk ?h \<le> p" if "Some s = Some s'" "str_ptr s' = Some p" for s' p using assms(7) that by simp
  qed
  then show ?thesis by simp
qed

subsection \<open>Construction, clearing and assignment are correct\<close>

lemma str_at_short [simp]:
  "length bs < 16 \<Longrightarrow> str_at B s bs \<longleftrightarrow> s_count s = int (length bs) \<and> length (cell s) = 16 \<and> take (Suc (length bs)) (cell s) = map Some (bs @ [0])"
  by (simp add: str_at_def)

lemma str_ptr_short [simp]: "s_count s < 16 \<Longrightarrow> str_ptr s = None"
  by (simp add: str_ptr_def SSO_SIZE_def)

text \<open>A short string put into the object after the \<open>off\<close> bytes that it holds already.\<close>

lemma set_sso_string:
  assumes "length (cell s) = 16" "take (length a) (cell s) = map Some a" "length a + length bs < 16"
  shows "\<exists>s2. rbind (set_sso (length a) (map Some bs) s) (set_sso (length a + length bs) [Some 0]) = Inr s2 \<and>
    length (cell s2) = 16 \<and> take (Suc (length a + length bs)) (cell s2) = map Some (a @ bs @ [0])"
  using assms by (simp add: set_sso_def memcpy_into_def)

lemma write_block_at:
  assumes "blocks m p = Some b" "off + length bs \<le> length b"
  shows "write_block p off bs m = Inr (m\<lparr>blocks := (blocks m)(p \<mapsto> memcpy_into b off bs)\<rparr>)"
  using assms by (simp add: write_block_def read_block_def)

lemma int32_length: "int n < 2 ^ 31 - 1 \<Longrightarrow> int32_ok (int n)"
  by (simp add: int32_ok_def)

lemma room_ok: "int n < 2 ^ 31 - 1 \<Longrightarrow> chk32 (int n + 1) = Inr (int n + 1) \<and> nat (int n + 1) = Suc n"
  by (simp add: chk32_def int32_ok_def)

lemma create_at_ok:
  assumes h: "hole i m A" and s: "length (cell s) = 16" and l: "int (length bs) < 2 ^ 31 - 1" "brk m < 2 ^ 64"
  shows "\<exists>m'. str_create_at i (map Some bs) s m = Inr m' \<and> smem_rep m' (A(i \<mapsto> bs)) \<and> brk m' \<le> Suc (brk m)"
proof (cases "length bs < 16")
  case True
  obtain s2 where s2: "rbind (set_sso 0 (map Some bs) s) (set_sso (length bs) [Some 0]) = Inr s2"
    "length (cell s2) = 16" "take (Suc (length bs)) (cell s2) = map Some (bs @ [0])"
    using set_sso_string [of s "[]" bs] s True by auto
  let ?s = "s2\<lparr>s_count := int (length bs)\<rparr>"
  have "str_create_at i (map Some bs) s m = Inr (str_put i ?s m)"
    using s2(1) True by (auto simp: str_create_at_def str_create_def Let_def SSO_SIZE_def rbind_eq_Inr_iff)
  moreover have "smem_rep (str_put i ?s m) (A(i \<mapsto> bs))"
    by (rule hole_fill [OF h, where s = ?s]) (use s2(2,3) True hole_fresh [OF h] in \<open>auto simp: str_put_def\<close>)
  ultimately show ?thesis by (simp add: str_put_def)
next
  case False
  let ?p = "brk m" and ?s = "(set_value (brk m) s)\<lparr>s_count := int (length bs)\<rparr>"
  let ?m = "m\<lparr>blocks := (blocks m)(?p \<mapsto> map Some (bs @ [0])), brk := Suc ?p\<rparr>"
  have v: "str_value ?s = Some ?p" using str_value_set [OF s l(2)] by simp
  have p: "str_ptr ?s = Some ?p" using v False by (simp add: str_ptr_def SSO_SIZE_def)
  have at: "str_at (blocks ?m) ?s bs" using v s l False by (simp add: str_at_def)
  have nb: "blocks m q = None" if "brk m \<le> q" for q using h that by (rule hole_fresh)
  have "str_create_at i (map Some bs) s m = Inr (str_put i ?s ?m)"
    using False room_ok [OF l(1)] by (simp add: str_create_at_def str_create_def Let_def SSO_SIZE_def malloc_def write_block_def read_block_def memcpy_into_def str_put_def)
  moreover have "smem_rep (str_put i ?s ?m) (A(i \<mapsto> bs))"
    by (rule hole_fill [OF h, where s = ?s]) (use at p nb in \<open>auto simp: str_put_def split: if_splits\<close>)
  ultimately show ?thesis by (simp add: str_put_def)
qed

lemma str_at_begin: "str_at (blocks m) s b \<Longrightarrow> rbind (str_begin m s) (copy_out (s_count s)) = Inr (map Some b)"
proof (cases "length b < 16")
  case True
  assume "str_at (blocks m) s b"
  then have s: "s_count s = int (length b)" "length (cell s) = 16" "take (Suc (length b)) (cell s) = map Some (b @ [0])" using True by auto
  have "take (length b) (take (Suc (length b)) (cell s)) = map Some b" unfolding s(3) by simp
  then show ?thesis using s(1,2) True by (simp add: str_begin_def SSO_SIZE_def copy_out_def)
next
  case False
  assume "str_at (blocks m) s b"
  then show ?thesis using False by (auto simp: str_at_def str_begin_def SSO_SIZE_def copy_out_def ptr_value_def read_block_def)
qed

lemma read_string_ok: "smem_rep m A \<Longrightarrow> A j = Some b \<Longrightarrow> read_string j m = Inr (map Some b)"
  by (rule rep_obj, assumption+) (simp add: read_string_def str_at_begin)

lemma str_copy_eq: "str_copy i j m = rbind (read_string j m) (\<lambda>bs. str_create_at i bs raw_string m)"
  by (simp add: str_copy_def read_string_def rbind_assoc)

lemma length_raw [simp]: "length (cell raw_string) = 16"
  by (simp add: raw_string_def)

lemma str_rep_length: "smem_rep m A \<Longrightarrow> A i = Some a \<Longrightarrow> int (length a) < 2 ^ 31 - 1"
  by (rule rep_obj, assumption+) (auto simp: str_at_def split: if_splits)

lemma copy_ok:
  assumes "smem_rep m A" "A i = None" "A j = Some b" "brk m < 2 ^ 64"
  shows "\<exists>m'. str_copy i j m = Inr m' \<and> smem_rep m' (A(i \<mapsto> b)) \<and> brk m' \<le> Suc (brk m)"
  using create_at_ok [OF hole_new [OF assms(1,2)] length_raw str_rep_length [OF assms(1,3)] assms(4)] read_string_ok [OF assms(1,3)]
  by (simp add: str_copy_eq)

text \<open>An object and its block, if it has one, are taken out of the memory.\<close>

lemma drop_obj:
  assumes r: "smem_rep m A" and s: "objs m i = Some s"
  shows "str_ptr s = None \<Longrightarrow> smem_rep (m\<lparr>objs := (objs m)(i := None)\<rparr>) (A(i := None))"
    and "str_ptr s = Some p \<Longrightarrow> smem_rep (m\<lparr>blocks := (blocks m)(p := None), objs := (objs m)(i := None)\<rparr>) (A(i := None))"
proof -
  have o: "owns m i q \<longleftrightarrow> str_ptr s = Some q" for q using s by (simp add: owns_def)
  show "smem_rep (m\<lparr>objs := (objs m)(i := None)\<rparr>) (A(i := None))" if "str_ptr s = None"
    by (rule smem_replace [OF r, where x = None]) (use o that rep_fresh [OF r] in auto)
  show "smem_rep (m\<lparr>blocks := (blocks m)(p := None), objs := (objs m)(i := None)\<rparr>) (A(i := None))" if "str_ptr s = Some p"
    by (rule smem_replace [OF r, where x = None]) (use o that rep_fresh [OF r] in \<open>auto split: if_splits\<close>)
qed

lemma long_value:
  assumes "smem_rep m A" "objs m i = Some s" "s_count s \<ge> SSO_SIZE"
  obtains p where "ptr_value s = Inr p" "str_ptr s = Some p" "free p m = Inr (m\<lparr>blocks := (blocks m)(p := None)\<rparr>)" "p \<noteq> 0"
proof -
  have "rel_option (str_at (blocks m)) (objs m i) (A i)" using assms(1) by (simp add: smem_rep_def)
  then obtain a where "str_at (blocks m) s a" using assms(2) by (cases "A i") auto
  then obtain p where p: "str_value s = Some p" using assms(3) by (auto simp: str_at_def SSO_SIZE_def split: if_splits)
  then have "str_ptr s = Some p" using assms(3) by (simp add: str_ptr_def)
  then have "owns m i p" using assms(2) by (simp add: owns_def)
  then have "\<exists>b. blocks m p = Some b" "0 < p" using rep_owned [OF assms(1)] by blast+
  then show thesis using that [of p] p \<open>str_ptr s = Some p\<close> by (auto simp: ptr_value_def free_def)
qed

lemma destroy_ok:
  assumes r: "smem_rep m A" and a: "A i = Some a"
  shows "\<exists>m'. str_destroy i m = Inr m' \<and> smem_rep m' (A(i := None)) \<and> brk m' = brk m"
proof -
  obtain s where s: "objs m i = Some s" "str_get i m = Inr s" by (rule rep_obj [OF r a])
  show ?thesis
  proof (cases "s_count s \<ge> SSO_SIZE")
    case True
    then obtain p where "ptr_value s = Inr p" "str_ptr s = Some p" "free p m = Inr (m\<lparr>blocks := (blocks m)(p := None)\<rparr>)"
      using long_value [OF r s(1)] by blast
    then show ?thesis using drop_obj(2) [OF r s(1)] s(2) True by (auto simp: str_destroy_def)
  next
    case False
    then show ?thesis using drop_obj(1) [OF r s(1)] s(2) by (auto simp: str_destroy_def SSO_SIZE_def)
  qed
qed

lemma str_clear_ok:
  assumes r: "smem_rep m A" and a: "A i = Some a"
  shows "\<exists>m' s. str_clear i m = Inr m' \<and> hole i m' A \<and> str_get i m' = Inr s \<and> length (cell s) = 16 \<and> brk m' = brk m"
proof -
  obtain s where s: "objs m i = Some s" "str_get i m = Inr s" and at: "str_at (blocks m) s a" by (rule rep_obj [OF r a])
  have l: "length (cell s) = 16" using at by (simp add: str_at_def)
  show ?thesis
  proof (cases "s_count s \<ge> SSO_SIZE")
    case True
    then obtain p where "ptr_value s = Inr p" "str_ptr s = Some p" "free p m = Inr (m\<lparr>blocks := (blocks m)(p := None)\<rparr>)" "p \<noteq> 0"
      using long_value [OF r s(1)] by blast
    then show ?thesis using drop_obj(2) [OF r s(1)] s(2) True l by (auto simp: str_clear_def hole_def str_put_def str_get_def)
  next
    case False
    then show ?thesis using drop_obj(1) [OF r s(1)] s(2) l by (auto simp: str_clear_def SSO_SIZE_def hole_def str_put_def str_get_def)
  qed
qed

lemma assign_c_ok:
  assumes "smem_rep m A" "A i = Some a" "int (strlen str) < 2 ^ 31 - 1" "brk m < 2 ^ 64"
  shows "\<exists>m'. str_assign_c i str m = Inr m' \<and> smem_rep m' (A(i \<mapsto> c_str str)) \<and> brk m' \<le> Suc (brk m)"
proof -
  have "take (strlen str) str = c_str str" by (simp add: strlen_def c_str_def takeWhile_eq_take [symmetric])
  then show ?thesis using str_clear_ok [OF assms(1,2)] create_at_ok [of i _ A _ "c_str str"] assms(3,4)
    by (fastforce simp: str_assign_c_def strlen_def)
qed

lemma hole_other:
  assumes "hole i m A" "j \<noteq> i" "A j = Some b"
  shows "\<exists>t. str_get j m = Inr t \<and> objs m j = Some t \<and> str_at (blocks m) t b" "read_string j m = Inr (map Some b)"
proof -
  let ?h = "m\<lparr>objs := (objs m)(i := None)\<rparr>"
  have h: "smem_rep ?h (A(i := None))" using assms(1) by (simp add: hole_def)
  obtain t where "objs ?h j = Some t" "str_at (blocks ?h) t b" using rep_obj [OF h, of j b] assms(2,3) by auto
  then have t: "str_get j m = Inr t" "objs m j = Some t" "str_at (blocks m) t b" using assms(2) by (auto simp: str_get_def)
  then show "\<exists>t. str_get j m = Inr t \<and> objs m j = Some t \<and> str_at (blocks m) t b" by blast
  show "read_string j m = Inr (map Some b)" using t(1) str_at_begin [OF t(3)] by (simp add: read_string_def)
qed

lemma same_begin_ok:
  assumes r: "smem_rep m A" and a: "A i = Some a" "A j = Some b"
  shows "same_begin i j m = Inr (i = j)"
proof -
  obtain s where s: "objs m i = Some s" "str_get i m = Inr s" by (rule rep_obj [OF r a(1)])
  obtain t where t: "objs m j = Some t" "str_get j m = Inr t" by (rule rep_obj [OF r a(2)])
  show ?thesis
  proof (cases "s_count s < SSO_SIZE \<or> s_count t < SSO_SIZE")
    case True
    then show ?thesis using s t by (simp add: same_begin_def)
  next
    case False
    then obtain p q where pq: "ptr_value s = Inr p" "str_ptr s = Some p" "ptr_value t = Inr q" "str_ptr t = Some q"
      using long_value [OF r s(1)] long_value [OF r t(1)] by (metis linorder_not_le)
    have "p = q \<longleftrightarrow> i = j"
    proof
      assume "p = q"
      then have "owns m i p" "owns m j p" using pq s t by (simp_all add: owns_def)
      then show "i = j" using rep_owned(4) [OF r] by blast
    next
      assume "i = j"
      then show "p = q" using pq s t by auto
    qed
    then show ?thesis using s t False pq by (simp add: same_begin_def)
  qed
qed

lemma assign_ok:
  assumes r: "smem_rep m A" and a: "A i = Some a" "A j = Some b" and l: "brk m < 2 ^ 64"
  shows "\<exists>m'. str_assign i j m = Inr m' \<and> smem_rep m' (A(i \<mapsto> b)) \<and> brk m' \<le> Suc (brk m)"
proof (cases "i = j")
  case True
  then have "A(i \<mapsto> b) = A" using a by auto
  then show ?thesis using True r same_begin_ok [OF r a] by (simp add: str_assign_def)
next
  case False
  obtain m1 s where m1: "str_clear i m = Inr m1" "hole i m1 A" "str_get i m1 = Inr s" "length (cell s) = 16" "brk m1 = brk m"
    using str_clear_ok [OF r a(1)] by blast
  have "str_assign i j m = rbind (read_string j m1) (\<lambda>bs. rbind (str_get i m1) (\<lambda>s. str_create_at i bs s m1))"
    using m1(1) False same_begin_ok [OF r a] by (simp add: str_assign_def read_string_def rbind_assoc)
  then show ?thesis
    using hole_other(2) [OF m1(2) _ a(2)] False m1 create_at_ok [OF m1(2,4), of b] str_rep_length [OF r a(2)] l by simp
qed

text \<open>An object moves to another address, in whatever representation, and keeps its block.\<close>

lemma rep_rename:
  assumes r: "smem_rep m A" and t: "objs m j = Some t" "A i = None" "A j = Some b"
    and s: "str_at (blocks m) s b" "str_ptr s = str_ptr t"
  shows "smem_rep (m\<lparr>objs := (objs m)(j := None, i \<mapsto> s)\<rparr>) (A(j := None, i \<mapsto> b))"
proof -
  let ?m = "m\<lparr>objs := (objs m)(j := None, i \<mapsto> s)\<rparr>"
  have ne: "i \<noteq> j" using t by auto
  have i: "objs m i = None" using r t(2) by (metis smem_rep_def option.rel_distinct(2) option.exhaust)
  have o: "owns ?m k p \<longleftrightarrow> (if k = i then owns m j p else k \<noteq> j \<and> owns m k p)" for k p
    using t(1) s(2) by (simp add: owns_def)
  have "\<exists>!k. owns ?m k p" if u: "\<exists>!k. owns m k p" for p
  proof -
    obtain k where k: "owns m k p" "\<And>k'. owns m k' p \<Longrightarrow> k' = k" using u by (elim ex1E) blast
    have "k \<noteq> i" using k(1) i by (auto simp: owns_def)
    then have "owns ?m k' p \<longleftrightarrow> k' = (if k = j then i else k)" for k' using k ne unfolding o by metis
    then show ?thesis by simp
  qed
  moreover have "rel_option (str_at (blocks ?m)) (objs ?m k) ((A(j := None, i \<mapsto> b)) k)" for k
    using r s(1) by (simp add: smem_rep_def)
  ultimately show ?thesis using r by (simp add: smem_rep_def)
qed

lemma str_take_ok:
  assumes h: "hole i m A" and ij: "j \<noteq> i" "A j = Some b" and s: "length (cell s) = 16"
  shows "\<exists>m'. str_take i s j m = Inr m' \<and> smem_rep m' (A(i \<mapsto> b, j \<mapsto> (if length b < 16 then b else []))) \<and> brk m' = brk m"
proof -
  obtain t where t: "str_get j m = Inr t" "objs m j = Some t" "str_at (blocks m) t b" using hole_other(1) [OF h ij] by blast
  show ?thesis
  proof (cases "length b < 16")
    case True
    then have c: "s_count t = int (length b)" "length (cell t) = 16" "copy_out (s_count t) (cell t) = Inr (map Some b)"
      using t(3) str_at_begin [OF t(3)] by (simp_all add: str_begin_def SSO_SIZE_def)
    obtain s2 where s2: "rbind (set_sso 0 (map Some b) s) (set_sso (length b) [Some 0]) = Inr s2"
      "length (cell s2) = 16" "take (Suc (length b)) (cell s2) = map Some (b @ [0])"
      using set_sso_string [of s "[]" b] s True by auto
    let ?m = "str_put i (s2\<lparr>s_count := int (length b)\<rparr>) m"
    have "str_take i s j m = Inr ?m" using c s2(1) t(1) True by (auto simp: str_take_def SSO_SIZE_def rbind_eq_Inr_iff)
    moreover have "smem_rep ?m (A(i \<mapsto> b))"
      by (rule hole_fill [OF h, where s = "s2\<lparr>s_count := int (length b)\<rparr>"]) (use s2(2,3) True hole_fresh [OF h] in \<open>auto simp: str_put_def\<close>)
    moreover have "A(i \<mapsto> b, j \<mapsto> b) = A(i \<mapsto> b)" using ij by auto
    ultimately show ?thesis using True by (simp add: str_put_def)
  next
    case False
    then obtain p where p: "str_value t = Some p" "s_count t = int (length b)" "length (cell t) = 16" "int (length b) < 2 ^ 31 - 1"
      "blocks m p = Some (map Some (b @ [0]))" using t(3) by (auto simp: str_at_def)
    let ?h = "m\<lparr>objs := (objs m)(i := None)\<rparr>" and ?s = "(set_value p s)\<lparr>s_count := s_count t\<rparr>" and ?t = "(set_value 0 t)\<lparr>s_count := 0\<rparr>"
    have p64: "p < 2 ^ 64"
    proof -
      have "le_val (map the (take 8 (cell t))) < 256 ^ length (map the (take 8 (cell t)))" by (rule le_val_bound)
      then show ?thesis using p(1,3) by (auto simp: str_value_def split: if_splits)
    qed
    have s': "str_at (blocks ?h) ?s b" "str_ptr ?s = str_ptr t"
      using str_value_set [OF s p64] s p False by (simp_all add: str_at_def str_ptr_def)
    have "smem_rep (?h\<lparr>objs := (objs ?h)(j := None, i \<mapsto> ?s)\<rparr>) ((A(i := None))(j := None, i \<mapsto> b))"
      using h t(2) ij s' by (intro rep_rename [of _ _ j t i b]) (simp_all add: hole_def)
    moreover have "?h\<lparr>objs := (objs ?h)(j := None, i \<mapsto> ?s)\<rparr> = (str_put i ?s m)\<lparr>objs := (objs (str_put i ?s m))(j := None)\<rparr>"
      "(A(i := None))(j := None, i \<mapsto> b) = (A(i \<mapsto> b))(j := None)" using ij by (auto simp: str_put_def fun_upd_twist)
    ultimately have hj: "hole j (str_put i ?s m) (A(i \<mapsto> b))" by (simp add: hole_def)
    have z: "str_at (blocks m) ?t []" using p(3) using le_bytes_Suc [of 7 0] by (simp add: set_value_def memcpy_into_def)
    have "str_take i s j m = Inr (str_put j ?t (str_put i ?s m))"
      using t(1) p(1,2) False by (simp add: str_take_def SSO_SIZE_def ptr_value_def)
    moreover have "smem_rep (str_put j ?t (str_put i ?s m)) (A(i \<mapsto> b, j \<mapsto> []))"
      by (rule hole_fill [OF hj, where s = ?t]) (use z hole_fresh [OF h] in \<open>auto simp: str_put_def\<close>)
    ultimately show ?thesis using False by (simp add: str_put_def)
  qed
qed

subsection \<open>Appending is correct\<close>

text \<open>
  The memory after \<open>str_grow\<close>: the object points to a new block with room for \<open>newlen\<close> bytes that starts with
  the old contents, and its old block is gone. The count is still the old one.
\<close>

definition grown :: "nat \<Rightarrow> cstring \<Rightarrow> byte list \<Rightarrow> nat \<Rightarrow> smem \<Rightarrow> smem \<Rightarrow> bool" where
  "grown i s a newlen m m1 \<longleftrightarrow> objs m1 = (objs m)(i \<mapsto> set_value (brk m) s) \<and> brk m1 = Suc (brk m) \<and>
     (\<exists>b. blocks m1 (brk m) = Some b \<and> length b = Suc newlen \<and> take (length a) b = map Some a) \<and>
     (\<forall>p. p \<noteq> brk m \<longrightarrow> blocks m1 p = (if owns m i p then None else blocks m p))"

lemma grow_ok:
  assumes r: "smem_rep m A" and s: "objs m i = Some s" "str_at (blocks m) s a" and n: "length a \<le> newlen" "int newlen < 2 ^ 31 - 1"
  shows "\<exists>m1. str_grow i (int newlen) m = Inr m1 \<and> grown i s a newlen m m1"
proof (cases "length a < 16")
  case True
  then have c: "s_count s = int (length a)" "copy_out (s_count s) (cell s) = Inr (map Some a)"
    using s(2) str_at_begin [OF s(2)] by (simp_all add: str_begin_def SSO_SIZE_def)
  have no: "\<not> owns m i p" for p using s(1) c(1) True by (simp add: owns_def)
  show ?thesis
    using c s(1) True n no room_ok [OF n(2)] by (auto simp: str_grow_def str_get_def SSO_SIZE_def malloc_def write_block_def read_block_def memcpy_into_def str_put_def grown_def)
next
  case False
  then obtain p where p: "str_value s = Some p" "s_count s = int (length a)" "blocks m p = Some (map Some (a @ [0]))"
    using s(2) by (auto simp: str_at_def)
  then have ptr: "str_ptr s = Some p" using False by (simp add: str_ptr_def SSO_SIZE_def)
  have o: "owns m i q \<longleftrightarrow> q = p" for q using s(1) ptr by (auto simp: owns_def)
  have pb: "0 < p" "p < brk m" using rep_owned [OF r, of i p] o by auto
  have "take (length a) (take (Suc newlen) (map Some (a @ [0]))) = map Some a" using n(1) by (simp add: take_map)
  then show ?thesis
    using p s(1) False n pb o room_ok [OF n(2)]
    by (auto simp: str_grow_def str_get_def SSO_SIZE_def realloc_def free_def malloc_def write_block_def read_block_def memcpy_into_def str_put_def grown_def ptr_value_def)
qed

lemma append_long_ok:
  assumes r: "smem_rep m A" and s: "objs m i = Some s" "str_at (blocks m) s a"
    and g: "grown i s a (length a + length bs) m m1" and l: "16 \<le> length a + length bs" "int (length a + length bs) < 2 ^ 31 - 1" "brk m < 2 ^ 64"
  shows "\<exists>m2. str_append_long i (int (length a + length bs)) (map Some bs) m1 = Inr m2 \<and> smem_rep m2 (A(i \<mapsto> a @ bs)) \<and> brk m2 = Suc (brk m) \<and>
    blocks m2 (brk m) \<noteq> None"
proof -
  let ?s = "set_value (brk m) s" and ?n = "length a + length bs"
  let ?s2 = "?s\<lparr>s_count := int ?n\<rparr>" and ?B = "(blocks m1)(brk m \<mapsto> map Some (a @ bs @ [0]))"
  let ?m2 = "str_put i ?s2 (m1\<lparr>blocks := ?B\<rparr>)"
  have c: "s_count s = int (length a)" "length (cell s) = 16" using s(2) by (simp_all add: str_at_def)
  obtain b where b: "blocks m1 (brk m) = Some b" "length b = Suc ?n" "take (length a) b = map Some a" using g by (auto simp: grown_def)
  have v: "str_value ?s = Some (brk m)" using c(2) l(3) by (rule str_value_set)
  have w1: "write_block (brk m) (length a) (map Some bs) m1 = Inr (m1\<lparr>blocks := (blocks m1)(brk m \<mapsto> memcpy_into b (length a) (map Some bs))\<rparr>)"
    using b by (simp add: write_block_at)
  have "memcpy_into (memcpy_into b (length a) (map Some bs)) ?n [Some 0] = map Some (a @ bs @ [0])"
    using b by (simp add: memcpy_into_def)
  then have w2: "write_block (brk m) ?n [Some 0] (m1\<lparr>blocks := (blocks m1)(brk m \<mapsto> memcpy_into b (length a) (map Some bs))\<rparr>) = Inr (m1\<lparr>blocks := ?B\<rparr>)"
    using b by (subst write_block_at [of _ _ "memcpy_into b (length a) (map Some bs)"]) simp_all
  have "str_append_long i (int ?n) (map Some bs) m1 = Inr ?m2"
    using g c(1) v w1 w2 by (simp add: str_append_long_def str_get_def grown_def ptr_value_def nat_int_add)
  moreover have p: "str_ptr ?s2 = Some (brk m)" using v l(1) by (simp add: str_ptr_def SSO_SIZE_def)
  have at: "str_at ?B ?s2 (a @ bs)" using v l c(2) by (simp add: str_at_def)
  have "smem_rep ?m2 (A(i := Some (a @ bs)))"
  proof (rule smem_replace [OF r, where x = "Some ?s2"])
    show "objs ?m2 = (objs m)(i := Some ?s2)" "brk m \<le> brk ?m2" using g by (auto simp: grown_def str_put_def)
    show "blocks ?m2 q = blocks m q" if "\<not> owns m i q" "q < brk m" for q using g that by (simp add: grown_def str_put_def)
    show "q < brk ?m2 \<and> (\<exists>s. Some ?s2 = Some s \<and> str_ptr s = Some q)" if "blocks ?m2 q = Some d" "owns m i q \<or> brk m \<le> q" for q d
      using that g p rep_fresh [OF r, of q] by (cases "q = brk m") (auto simp: grown_def str_put_def split: if_splits)
    show "rel_option (str_at (blocks ?m2)) (Some ?s2) (Some (a @ bs))" using at by (simp add: str_put_def)
    show "owns m i q \<or> brk m \<le> q" if "Some ?s2 = Some s'" "str_ptr s' = Some q" for s' q using p that by auto
  qed
  ultimately show ?thesis using g by (simp add: grown_def str_put_def)
qed

text \<open>All appending operations once the bytes to append are known.\<close>

lemma append_short_ok:
  assumes r: "smem_rep m A" and a: "A i = Some a" and l: "length a + length bs < 16"
  shows "\<exists>m'. str_append_short i (int (length a + length bs)) (map Some bs) m = Inr m' \<and> smem_rep m' (A(i \<mapsto> a @ bs)) \<and> brk m' = brk m"
proof -
  obtain s where s: "objs m i = Some s" "str_at (blocks m) s a" "str_get i m = Inr s" by (rule rep_obj [OF r a])
  then have c: "s_count s = int (length a)" "length (cell s) = 16" "take (length a) (cell s) = map Some a"
    using l str_at_begin [OF s(2)] by (auto simp: str_at_def str_begin_def copy_out_def SSO_SIZE_def split: if_splits)
  obtain s2 where s2: "rbind (set_sso (length a) (map Some bs) s) (set_sso (length a + length bs) [Some 0]) = Inr s2"
    "length (cell s2) = 16" "take (Suc (length a + length bs)) (cell s2) = map Some (a @ bs @ [0])"
    using set_sso_string [OF c(2,3) l] by blast
  let ?s = "s2\<lparr>s_count := int (length a + length bs)\<rparr>"
  have "str_append_short i (int (length a + length bs)) (map Some bs) m = Inr (str_put i ?s m)"
    using s2(1) s(3) c(1) by (auto simp: str_append_short_def rbind_eq_Inr_iff nat_int_add)
  moreover have "hole i m A" using drop_obj(1) [OF r s(1)] c(1) l by (simp add: hole_def)
  then have "smem_rep (str_put i ?s m) (A(i \<mapsto> a @ bs))"
    by (rule hole_fill [where s = ?s]) (use s2(2,3) l rep_fresh [OF r] in \<open>auto simp: str_put_def\<close>)
  ultimately show ?thesis by (simp add: str_put_def)
qed

lemma append_known_ok:
  assumes r: "smem_rep m A" and a: "A i = Some a" and l: "int (length a + length bs) < 2 ^ 31 - 1" "brk m < 2 ^ 64"
  shows "\<exists>m'. rbind (str_get i m) (\<lambda>s. rbind (chk32 (s_count s + int (length bs))) (\<lambda>newlen.
     if newlen < SSO_SIZE then str_append_short i newlen (map Some bs) m
     else rbind (str_grow i newlen m) (str_append_long i newlen (map Some bs)))) = Inr m' \<and>
     smem_rep m' (A(i \<mapsto> a @ bs)) \<and> brk m' \<le> Suc (brk m)"
proof -
  obtain s where s: "objs m i = Some s" "str_at (blocks m) s a" "str_get i m = Inr s" by (rule rep_obj [OF r a])
  have c: "chk32 (s_count s + int (length bs)) = Inr (int (length a + length bs))"
    using s(2) l(1) by (simp add: str_at_def chk32_def int32_ok_def)
  show ?thesis
  proof (cases "length a + length bs < 16")
    case True
    then show ?thesis using append_short_ok [OF r a True] s(3) c by (fastforce simp: SSO_SIZE_def)
  next
    case False
    obtain m1 where m1: "str_grow i (int (length a + length bs)) m = Inr m1" "grown i s a (length a + length bs) m m1"
      using grow_ok [OF r s(1,2), of "length a + length bs"] l(1) by auto
    show ?thesis using append_long_ok [OF r s(1,2) m1(2) _ l] m1(1) False s(3) c by (fastforce simp: SSO_SIZE_def)
  qed
qed

lemma take_strlen: "take (strlen str) str = c_str str"
  by (simp add: strlen_def c_str_def takeWhile_eq_take [symmetric])

lemma rep_count: "smem_rep m A \<Longrightarrow> A i = Some a \<Longrightarrow> \<exists>s. str_get i m = Inr s \<and> s_count s = int (length a)"
  by (rule rep_obj, assumption+) (auto simp: str_at_def)

lemma append_c_ok:
  assumes r: "smem_rep m A" and a: "A i = Some a" and l: "int (length a + strlen str) < 2 ^ 31 - 1" "brk m < 2 ^ 64"
  shows "\<exists>m'. str_append_c i str m = Inr m' \<and> smem_rep m' (A(i \<mapsto> a @ c_str str)) \<and> brk m' \<le> Suc (brk m)"
  using append_known_ok [OF r a, of "c_str str"] l by (simp add: str_append_c_def take_strlen Let_def strlen_def [symmetric])

lemma append_char_ok:
  assumes r: "smem_rep m A" and a: "A i = Some a" and l: "int (length a + 1) < 2 ^ 31 - 1" "brk m < 2 ^ 64"
  shows "\<exists>m'. str_append_char i ch m = Inr m' \<and> smem_rep m' (A(i \<mapsto> a @ [ch])) \<and> brk m' \<le> Suc (brk m)"
  using append_known_ok [OF r a, of "[ch]", unfolded list.map] l by (simp add: str_append_char_def)

text \<open>What the source of \<open>operator+=\<close> holds once the destination has grown.\<close>

lemma read_grown_other:
  assumes r: "smem_rep m A" and b: "A j = Some b" "j \<noteq> i" and g: "grown i s a n m m1"
  shows "read_string j m1 = Inr (map Some b)"
proof -
  obtain t where t: "objs m j = Some t" "str_at (blocks m) t b" by (rule rep_obj [OF r b(1)])
  have "blocks m1 p = blocks m p" if "str_ptr t = Some p" for p
  proof -
    have "owns m j p" using t(1) that by (simp add: owns_def)
    then have "p \<noteq> brk m" "\<not> owns m i p" using rep_owned [OF r] b(2) by blast+
    then show ?thesis using g by (simp add: grown_def)
  qed
  then have "str_at (blocks m1) t b" using t(2) by (auto simp: str_at_def str_ptr_def SSO_SIZE_def split: if_splits)
  moreover have "str_get j m1 = Inr t" using g b(2) t(1) by (simp add: grown_def str_get_def)
  ultimately show ?thesis by (simp add: read_string_def str_at_begin)
qed

lemma read_grown_self:
  assumes s: "str_at (blocks m) s a" and g: "grown i s a n m m1" and n: "length a \<le> n" "brk m < 2 ^ 64"
  shows "16 \<le> length a \<Longrightarrow> read_string i m1 = Inr (map Some a)"
    and "8 \<le> length a \<Longrightarrow> length a < 16 \<Longrightarrow> read_string i m1 = Inr (map Some (le_bytes 8 (brk m) @ drop 8 a))"
proof -
  let ?s = "set_value (brk m) s"
  have c: "s_count s = int (length a)" "length (cell s) = 16" using s by (simp_all add: str_at_def)
  have get: "str_get i m1 = Inr ?s" using g by (simp add: grown_def str_get_def)
  have v: "str_value ?s = Some (brk m)" using c(2) n(2) by (rule str_value_set)
  obtain b where b: "blocks m1 (brk m) = Some b" "length b = Suc n" "take (length a) b = map Some a" using g by (auto simp: grown_def)
  show "read_string i m1 = Inr (map Some a)" if "16 \<le> length a"
    using that get v b c n(1) by (simp add: read_string_def str_begin_def SSO_SIZE_def ptr_value_def read_block_def copy_out_def)
  show "read_string i m1 = Inr (map Some (le_bytes 8 (brk m) @ drop 8 a))" if l: "8 \<le> length a" "length a < 16"
  proof -
    have "take (length a) (cell s) = map Some a"
      using l s str_at_begin [OF s] by (simp add: str_begin_def SSO_SIZE_def copy_out_def)
    then have "drop 8 (take (length a) (cell s)) = map Some (drop 8 a)" by (simp add: drop_map)
    then have "take (length a) (cell ?s) = map Some (le_bytes 8 (brk m) @ drop 8 a)"
      using l by (simp add: set_value_def memcpy_into_def drop_take)
    then show ?thesis using get c l by (simp add: read_string_def str_begin_def SSO_SIZE_def copy_out_def)
  qed
qed

lemma append_from:
  assumes r: "smem_rep m A" and a: "A i = Some a" "A j = Some b" and l: "int (length a + length b) < 2 ^ 31 - 1" "brk m < 2 ^ 64"
    and s: "objs m i = Some s" "str_at (blocks m) s a" and n: "16 \<le> length a + length b" "length c = length b"
    and c: "\<And>m1. grown i s a (length a + length b) m m1 \<Longrightarrow> read_string j m1 = Inr (map Some c)"
  shows "\<exists>m'. str_append i j m = Inr m' \<and> smem_rep m' (A(i \<mapsto> a @ c)) \<and> brk m' \<le> Suc (brk m) \<and> blocks m' (brk m) \<noteq> None"
proof -
  obtain m1 where m1: "str_grow i (int (length a + length b)) m = Inr m1" "grown i s a (length a + length b) m m1"
    using grow_ok [OF r s, of "length a + length b"] l(1) by auto
  obtain m2 where m2: "str_append_long i (int (length a + length b)) (map Some c) m1 = Inr m2" "smem_rep m2 (A(i \<mapsto> a @ c))" "brk m2 = Suc (brk m)" "blocks m2 (brk m) \<noteq> None"
    using append_long_ok [OF r s, of c m1] m1(2) n l by auto
  show ?thesis
    using rep_count [OF r a(1)] rep_count [OF r a(2)] int32_length [OF l(1)] n m1(1) m2 c [OF m1(2)] by (auto simp: str_append_def SSO_SIZE_def)
qed

lemma append_ok:
  assumes r: "smem_rep m A" and a: "A i = Some a" "A j = Some b" and l: "int (length a + length b) < 2 ^ 31 - 1" "brk m < 2 ^ 64"
    and ne: "i = j \<Longrightarrow> length a < 8 \<or> 16 \<le> length a"
  shows "\<exists>m'. str_append i j m = Inr m' \<and> smem_rep m' (A(i \<mapsto> a @ b)) \<and> brk m' \<le> Suc (brk m)"
proof (cases "length a + length b < 16")
  case True
  then show ?thesis
    using append_short_ok [OF r a(1) True] read_string_ok [OF r a(2)] rep_count [OF r a(1)] rep_count [OF r a(2)] int32_length [OF l(1)]
    by (fastforce simp: str_append_def SSO_SIZE_def)
next
  case False
  obtain s where s: "objs m i = Some s" "str_at (blocks m) s a" by (rule rep_obj [OF r a(1)])
  have "\<exists>m'. str_append i j m = Inr m' \<and> smem_rep m' (A(i \<mapsto> a @ b)) \<and> brk m' \<le> Suc (brk m) \<and> blocks m' (brk m) \<noteq> None"
  proof (rule append_from [OF r a l s])
    show "16 \<le> length a + length b" "length b = length b" using False by simp_all
    show "read_string j m1 = Inr (map Some b)" if "grown i s a (length a + length b) m m1" for m1
    proof (cases "i = j")
      case True
      then have "16 \<le> length a" "b = a" using ne False a by auto
      then show ?thesis using read_grown_self(1) [OF s(2) that _ l(2)] True by simp
    next
      case False
      then show ?thesis using read_grown_other [OF r a(2) _ that] by simp
    qed
  qed
  then show ?thesis by blast
qed

lemma self_append:
  assumes r: "smem_rep m A" and a: "A i = Some a" and l: "brk m < 2 ^ 64" "8 \<le> length a" "length a < 16"
  shows "\<exists>m'. str_append i i m = Inr m' \<and> smem_rep m' (A(i \<mapsto> a @ le_bytes 8 (brk m) @ drop 8 a)) \<and> brk m' \<le> Suc (brk m) \<and>
    blocks m' (brk m) \<noteq> None"
proof -
  obtain s where s: "objs m i = Some s" "str_at (blocks m) s a" by (rule rep_obj [OF r a])
  show ?thesis
    by (rule append_from [OF r a a _ l(1) s]) (use l read_grown_self(2) [OF s(2) _ _ l(1), of i "length a + length a"] in auto)
qed

lemma concat_bytes_ok:
  assumes r: "smem_rep m A" and a: "A k = None" "A i = Some a" and l: "int (length a + length bs) < 2 ^ 31 - 1" "brk m + 1 < 2 ^ 64"
  shows "\<exists>m'. str_concat_bytes k i (map Some bs) m = Inr m' \<and> smem_rep m' (A(k \<mapsto> a @ bs)) \<and> brk m' \<le> brk m + 2"
proof -
  obtain m1 where m1: "str_copy k i m = Inr m1" "smem_rep m1 (A(k \<mapsto> a))" "brk m1 \<le> Suc (brk m)" using copy_ok [OF r a] l by auto
  show ?thesis
    using append_known_ok [OF m1(2), of k a bs] m1 l by (fastforce simp: str_concat_bytes_def)
qed

subsection \<open>Access by index is correct\<close>

lemma str_at_read: "str_at (blocks m) s a \<Longrightarrow> \<exists>b. str_begin m s = Inr b \<and> length a < length b \<and> take (length a) b = map Some a"
proof (cases "length a < 16")
  case True
  assume at: "str_at (blocks m) s a"
  then show ?thesis using True str_at_begin [OF at] by (simp add: str_begin_def SSO_SIZE_def copy_out_def)
next
  case False
  assume "str_at (blocks m) s a"
  then show ?thesis using False by (auto simp: str_at_def str_begin_def SSO_SIZE_def ptr_value_def read_block_def)
qed

lemma begin_at_ok: "smem_rep m A \<Longrightarrow> A i = Some a \<Longrightarrow> k < length a \<Longrightarrow> begin_at i k m = Inr (a ! k)"
proof (rule rep_obj, assumption+)
  fix s assume k: "k < length a" and s: "str_at (blocks m) s a" "str_get i m = Inr s"
  obtain b where b: "str_begin m s = Inr b" "length a < length b" "take (length a) b = map Some a" using str_at_read [OF s(1)] by blast
  have "b ! k = Some (a ! k)" using arg_cong [OF b(3), of "\<lambda>l. l ! k"] k by simp
  then show ?thesis using s(2) b k by (simp add: begin_at_def)
qed

lemma set_begin_at_ok:
  assumes r: "smem_rep m A" and a: "A i = Some a" and k: "k < length a"
  shows "\<exists>m'. set_begin_at i k ch m = Inr m' \<and> smem_rep m' (A(i \<mapsto> a[k := ch])) \<and> brk m' = brk m"
proof -
  obtain s where s: "objs m i = Some s" "str_at (blocks m) s a" "str_get i m = Inr s" by (rule rep_obj [OF r a])
  have u: "map Some (a[k := ch] @ [0]) = (map Some (a @ [0]))[k := Some ch]" using k by (simp add: list_update_append map_update)
  show ?thesis
  proof (cases "length a < 16")
    case True
    let ?s = "s\<lparr>cell := (cell s)[k := Some ch]\<rparr>"
    have c: "s_count s = int (length a)" "length (cell s) = 16" "take (Suc (length a)) (cell s) = map Some (a @ [0])" using s(2) True by auto
    have "set_begin_at i k ch m = Inr (str_put i ?s m)"
      using s(3) c True k by (simp add: set_begin_at_def SSO_SIZE_def set_sso_def memcpy_into_def upd_conv_take_nth_drop)
    moreover have "hole i m A" using drop_obj(1) [OF r s(1)] c(1) True by (simp add: hole_def)
    then have "smem_rep (str_put i ?s m) (A(i \<mapsto> a[k := ch]))"
      by (rule hole_fill [where s = ?s]) (use c u True rep_fresh [OF r] in \<open>auto simp: str_put_def take_update_swap\<close>)
    ultimately show ?thesis by (simp add: str_put_def)
  next
    case False
    then obtain p where p: "str_value s = Some p" "s_count s = int (length a)" "blocks m p = Some (map Some (a @ [0]))" "length (cell s) = 16" "int (length a) < 2 ^ 31 - 1"
      using s(2) by (auto simp: str_at_def)
    have o: "owns m i q \<longleftrightarrow> q = p" for q using s(1) p False by (auto simp: owns_def str_ptr_def SSO_SIZE_def)
    let ?m = "m\<lparr>blocks := (blocks m)(p \<mapsto> map Some (a[k := ch] @ [0]))\<rparr>"
    have "set_begin_at i k ch m = Inr ?m"
      using s(3) p False k u by (simp add: set_begin_at_def SSO_SIZE_def ptr_value_def write_block_at memcpy_into_def upd_conv_take_nth_drop)
    moreover have "smem_rep ?m (A(i := Some (a[k := ch])))"
    proof (rule smem_replace [OF r, where x = "Some s"])
      show "objs ?m = (objs m)(i := Some s)" using s(1) by auto
      show "rel_option (str_at (blocks ?m)) (Some s) (Some (a[k := ch]))" using p False by (simp add: str_at_def)
    qed (use o p s(1) False rep_owned [OF r, of i p] rep_fresh [OF r] in \<open>auto simp: str_ptr_def SSO_SIZE_def split: if_splits\<close>)
    ultimately show ?thesis by simp
  qed
qed

lemma change_loop_ok:
  assumes "smem_rep m A" "A i = Some a" "length a = k + n"
  shows "\<exists>m'. change_loop test f i k n m = Inr m' \<and> brk m' = brk m \<and>
    smem_rep m' (A(i \<mapsto> take k a @ map (\<lambda>c. if test c then f c else c) (drop k a)))"
  using assms
proof (induction n arbitrary: k m A a)
  case 0
  then show ?case by (simp add: fun_upd_idem)
next
  case (Suc n)
  have k: "k < length a" using Suc.prems by simp
  let ?a = "if test (a ! k) then a[k := f (a ! k)] else a"
  have id: "A(i \<mapsto> a) = A" using Suc.prems(2) by auto
  obtain m1 where m1: "(if test (a ! k) then set_begin_at i k (f (a ! k)) m else Inr m) = Inr m1" "smem_rep m1 (A(i \<mapsto> ?a))" "brk m1 = brk m"
    using set_begin_at_ok [OF Suc.prems(1,2) k, of "f (a ! k)"] Suc.prems(1) id by (cases "test (a ! k)") auto
  have "take (Suc k) ?a @ map (\<lambda>c. if test c then f c else c) (drop (Suc k) ?a) = take k a @ map (\<lambda>c. if test c then f c else c) (drop k a)"
    using k by (simp add: take_Suc_conv_app_nth Cons_nth_drop_Suc [symmetric] del: Cons_nth_drop_Suc)
  then obtain m' where "change_loop test f i (Suc k) n m1 = Inr m'" "brk m' = brk m1"
    "smem_rep m' (A(i \<mapsto> take k a @ map (\<lambda>c. if test c then f c else c) (drop k a)))"
    using Suc.IH [OF m1(2) fun_upd_same, of "Suc k"] Suc.prems(3) by (fastforce simp del: fun_upd_apply split: if_splits)
  then show ?case using m1(1,3) begin_at_ok [OF Suc.prems(1,2) k] by (auto simp del: fun_upd_apply)
qed

lemma changeToLowerCase_ok:
  assumes "smem_rep m A" "A i = Some a"
  shows "\<exists>m'. changeToLowerCase i m = Inr m' \<and> smem_rep m' (A(i \<mapsto> map tolower a)) \<and> brk m' = brk m"
proof -
  have "(\<lambda>c. if isupper c then tolower c else c) = tolower" by (auto simp: tolower_def)
  then show ?thesis using change_loop_ok [OF assms, of 0 "length a" isupper tolower] rep_count [OF assms] by (auto simp: changeToLowerCase_def)
qed

lemma changeToUpperCase_ok:
  assumes "smem_rep m A" "A i = Some a"
  shows "\<exists>m'. changeToUpperCase i m = Inr m' \<and> smem_rep m' (A(i \<mapsto> map toupper a)) \<and> brk m' = brk m"
proof -
  have "(\<lambda>c. if islower c then toupper c else c) = toupper" by (auto simp: toupper_def)
  then show ?thesis using change_loop_ok [OF assms, of 0 "length a" islower toupper] rep_count [OF assms] by (auto simp: changeToUpperCase_def)
qed

subsection \<open>Programs over strings\<close>

text \<open>
  The operations a program performs on its string objects, and what they should do: an abstract string
  object is its list of bytes. Only the moved-from string shows the representation: a short one keeps
  its contents, a long one becomes empty.
\<close>

datatype str_op =
    New nat | New_c nat "byte list option" | New_len nat "byte list option" int | Copy nat nat | Move nat nat | Destroy nat
  | Assign_c nat "byte list" | Assign nat nat | Move_assign nat nat
  | Append_c nat "byte list" | Append_char nat byte | Append nat nat | Concat nat nat nat | Concat_c nat nat "byte list"
  | Set nat int byte | Lower nat | Upper nat | To_lower nat nat | To_upper nat nat

fun str_exec :: "str_op \<Rightarrow> smem \<Rightarrow> smem res" where
  "str_exec (New i) = str_new i"
| "str_exec (New_c i p) = str_new_c i p"
| "str_exec (New_len i p n) = str_new_len i p n"
| "str_exec (Copy i j) = str_copy i j"
| "str_exec (Move i j) = str_move i j"
| "str_exec (Destroy i) = str_destroy i"
| "str_exec (Assign_c i p) = str_assign_c i p"
| "str_exec (Assign i j) = str_assign i j"
| "str_exec (Move_assign i j) = str_move_assign i j"
| "str_exec (Append_c i p) = str_append_c i p"
| "str_exec (Append_char i c) = str_append_char i c"
| "str_exec (Append i j) = str_append i j"
| "str_exec (Concat k i j) = str_concat k i j"
| "str_exec (Concat_c k i p) = str_concat_c k i p"
| "str_exec (Set i n c) = str_set i n c"
| "str_exec (Lower i) = changeToLowerCase i"
| "str_exec (Upper i) = changeToUpperCase i"
| "str_exec (To_lower k i) = toLowerCase k i"
| "str_exec (To_upper k i) = toUpperCase k i"

type_synonym contents = "nat \<Rightarrow> byte list option"

definition moved_from :: "byte list \<Rightarrow> byte list" where
  "moved_from b = (if length b < 16 then b else [])"

fun str_spec :: "str_op \<Rightarrow> contents \<Rightarrow> contents res" where
  "str_spec (New i) A = Inr (A(i \<mapsto> []))"
| "str_spec (New_c i p) A = (case p of None \<Rightarrow> Inl IllegalArgumentException | Some p \<Rightarrow> Inr (A(i \<mapsto> c_str p)))"
| "str_spec (New_len i p n) A = (case p of None \<Rightarrow> if n = 0 then Inr (A(i \<mapsto> [])) else Inl IllegalArgumentException
     | Some p \<Rightarrow> Inr (A(i \<mapsto> take (nat n) p)))"
| "str_spec (Copy i j) A = Inr (A(i := A j))"
| "str_spec (Move i j) A = Inr (A(i := A j, j := map_option moved_from (A j)))"
| "str_spec (Destroy i) A = Inr (A(i := None))"
| "str_spec (Assign_c i p) A = Inr (A(i \<mapsto> c_str p))"
| "str_spec (Assign i j) A = Inr (A(i := A j))"
| "str_spec (Move_assign i j) A = Inr (if i = j then A else A(i := A j, j := map_option moved_from (A j)))"
| "str_spec (Append_c i p) A = Inr (A(i \<mapsto> the (A i) @ c_str p))"
| "str_spec (Append_char i c) A = Inr (A(i \<mapsto> the (A i) @ [c]))"
| "str_spec (Append i j) A = Inr (A(i \<mapsto> the (A i) @ the (A j)))"
| "str_spec (Concat k i j) A = Inr (A(k \<mapsto> the (A i) @ the (A j)))"
| "str_spec (Concat_c k i p) A = Inr (A(k \<mapsto> the (A i) @ c_str p))"
| "str_spec (Set i n c) A = (if n < 0 \<or> int (length (the (A i))) \<le> n then Inl (ArrayIndexOutOfBoundsException n)
     else Inr (A(i \<mapsto> (the (A i))[nat n := c])))"
| "str_spec (Lower i) A = Inr (A(i \<mapsto> map tolower (the (A i))))"
| "str_spec (Upper i) A = Inr (A(i \<mapsto> map toupper (the (A i))))"
| "str_spec (To_lower k i) A = Inr (A(k \<mapsto> map tolower (the (A i))))"
| "str_spec (To_upper k i) A = Inr (A(k \<mapsto> map toupper (the (A i))))"

text \<open>
  What the language asks of a program: objects are alive when they are used and not when they are
  created, arrays are as long as the program says, and lengths fit an \<open>int\<close>. The last conjunct of
  \<open>Append\<close> is the one demand that the class itself should not make.
\<close>

definition fits :: "nat \<Rightarrow> bool" where
  "fits n \<longleftrightarrow> int n < 2 ^ 31 - 1"

definition live :: "contents \<Rightarrow> nat \<Rightarrow> bool" where
  "live A i \<longleftrightarrow> A i \<noteq> None"

fun op_ok :: "contents \<Rightarrow> str_op \<Rightarrow> bool" where
  "op_ok A (New i) \<longleftrightarrow> \<not> live A i"
| "op_ok A (New_c i p) \<longleftrightarrow> \<not> live A i \<and> (case p of None \<Rightarrow> True | Some p \<Rightarrow> fits (strlen p))"
| "op_ok A (New_len i p n) \<longleftrightarrow> \<not> live A i \<and> (case p of None \<Rightarrow> True | Some p \<Rightarrow> 0 \<le> n \<and> n \<le> int (length p) \<and> n < 2 ^ 31 - 1)"
| "op_ok A (Copy i j) \<longleftrightarrow> \<not> live A i \<and> live A j"
| "op_ok A (Move i j) \<longleftrightarrow> \<not> live A i \<and> live A j"
| "op_ok A (Destroy i) \<longleftrightarrow> live A i"
| "op_ok A (Assign_c i p) \<longleftrightarrow> live A i \<and> fits (strlen p)"
| "op_ok A (Assign i j) \<longleftrightarrow> live A i \<and> live A j"
| "op_ok A (Move_assign i j) \<longleftrightarrow> live A i \<and> live A j"
| "op_ok A (Append_c i p) \<longleftrightarrow> live A i \<and> fits (length (the (A i)) + strlen p)"
| "op_ok A (Append_char i c) \<longleftrightarrow> live A i \<and> fits (length (the (A i)) + 1)"
| "op_ok A (Append i j) \<longleftrightarrow> live A i \<and> live A j \<and> fits (length (the (A i)) + length (the (A j))) \<and>
     (i = j \<longrightarrow> length (the (A i)) < 8 \<or> 16 \<le> length (the (A i)))"
| "op_ok A (Concat k i j) \<longleftrightarrow> \<not> live A k \<and> live A i \<and> live A j \<and> fits (length (the (A i)) + length (the (A j)))"
| "op_ok A (Concat_c k i p) \<longleftrightarrow> \<not> live A k \<and> live A i \<and> fits (length (the (A i)) + strlen p)"
| "op_ok A (Set i n c) \<longleftrightarrow> live A i"
| "op_ok A (Lower i) \<longleftrightarrow> live A i"
| "op_ok A (Upper i) \<longleftrightarrow> live A i"
| "op_ok A (To_lower k i) \<longleftrightarrow> \<not> live A k \<and> live A i"
| "op_ok A (To_upper k i) \<longleftrightarrow> \<not> live A k \<and> live A i"

definition steps_to :: "smem \<Rightarrow> smem res \<Rightarrow> contents res \<Rightarrow> bool" where
  "steps_to m r R \<longleftrightarrow> (case R of Inl e \<Rightarrow> r = Inl e | Inr A \<Rightarrow> \<exists>m'. r = Inr m' \<and> smem_rep m' A \<and> brk m' \<le> brk m + 2)"

lemma steps_toI: "r = Inr m' \<Longrightarrow> smem_rep m' A \<Longrightarrow> brk m' \<le> brk m + 2 \<Longrightarrow> steps_to m r (Inr A)"
  by (simp add: steps_to_def)

lemma create_raw_ok:
  assumes "smem_rep m A" "\<not> live A i" "fits (length bs)" "brk m < 2 ^ 64"
  shows "steps_to m (str_create_at i (map Some bs) raw_string m) (Inr (A(i \<mapsto> bs)))"
  using create_at_ok [OF hole_new [OF assms(1)] length_raw, of i bs] assms(2-4) by (fastforce simp: live_def fits_def steps_to_def)

lemma new_ok:
  assumes r: "smem_rep m A" and l: "brk m + 1 < 2 ^ 64"
  shows "op_ok A (New i) \<Longrightarrow> steps_to m (str_exec (New i) m) (str_spec (New i) A)"
    and "op_ok A (New_c i p) \<Longrightarrow> steps_to m (str_exec (New_c i p) m) (str_spec (New_c i p) A)"
    and "op_ok A (New_len i p n) \<Longrightarrow> steps_to m (str_exec (New_len i p n) m) (str_spec (New_len i p n) A)"
proof -
  note c = create_raw_ok [OF r, of i]
  show "op_ok A (New i) \<Longrightarrow> steps_to m (str_exec (New i) m) (str_spec (New i) A)"
    using c [of "[]"] l by (simp add: str_new_def fits_def)
  show "op_ok A (New_c i p) \<Longrightarrow> steps_to m (str_exec (New_c i p) m) (str_spec (New_c i p) A)"
    using c [of "c_str (the p)"] l by (cases p) (simp_all add: str_new_c_def take_strlen strlen_def [symmetric] steps_to_def)
  show "op_ok A (New_len i p n) \<Longrightarrow> steps_to m (str_exec (New_len i p n) m) (str_spec (New_len i p n) A)"
  proof (cases p)
    case None
    assume "op_ok A (New_len i p n)"
    then show ?thesis using c [of "[]"] l None by (auto simp: str_new_len_def copy_out_def fits_def steps_to_def)
  next
    case (Some q)
    assume "op_ok A (New_len i p n)"
    then show ?thesis using c [of "take (nat n) q"] l Some by (simp add: str_new_len_def copy_out_def fits_def take_map nat_le_iff)
  qed
qed


lemma string_step:
  assumes r: "smem_rep m A" and l: "brk m + 1 < 2 ^ 64" and ok: "op_ok A op"
  shows "steps_to m (str_exec op m) (str_spec op A)"
proof (cases op)
  case (Copy i j)
  then show ?thesis using copy_ok [OF r, of i j] ok l by (fastforce simp: live_def steps_to_def)
next
  case (Move i j)
  then obtain b where b: "A i = None" "A j = Some b" using ok by (auto simp: live_def)
  show ?thesis using str_take_ok [OF hole_new [OF r b(1)] _ b(2) length_raw] b Move by (fastforce simp: str_move_def steps_to_def moved_from_def)
next
  case (Destroy i)
  then show ?thesis using destroy_ok [OF r, of i] ok by (fastforce simp: live_def steps_to_def)
next
  case (Assign_c i p)
  then show ?thesis using assign_c_ok [OF r, of i _ p] ok l by (fastforce simp: live_def steps_to_def fits_def)
next
  case (Assign i j)
  then show ?thesis using assign_ok [OF r, of i _ j] ok l by (fastforce simp: live_def steps_to_def)
next
  case (Move_assign i j)
  then obtain a b where ab: "A i = Some a" "A j = Some b" using ok by (auto simp: live_def)
  show ?thesis
  proof (cases "i = j")
    case True
    then show ?thesis using r Move_assign by (simp add: str_move_assign_def steps_to_def)
  next
    case False
    obtain m1 s where m1: "str_clear i m = Inr m1" "hole i m1 A" "str_get i m1 = Inr s" "length (cell s) = 16" "brk m1 = brk m"
      using str_clear_ok [OF r ab(1)] by blast
    show ?thesis using str_take_ok [OF m1(2) _ ab(2) m1(4)] m1 False ab Move_assign by (fastforce simp: str_move_assign_def steps_to_def moved_from_def)
  qed
next
  case (Append_c i p)
  then show ?thesis using append_c_ok [OF r, of i _ p] ok l by (fastforce simp: live_def steps_to_def fits_def)
next
  case (Append_char i c)
  then show ?thesis using append_char_ok [OF r, of i _ c] ok l by (fastforce simp: live_def steps_to_def fits_def)
next
  case (Append i j)
  then show ?thesis using append_ok [OF r, of i _ j] ok l by (fastforce simp: live_def steps_to_def fits_def)
next
  case (Concat k i j)
  then obtain a b where ab: "A k = None" "A i = Some a" "A j = Some b" using ok by (auto simp: live_def)
  show ?thesis using concat_bytes_ok [OF r ab(1,2), of b] read_string_ok [OF r ab(3)] ab ok l Concat by (fastforce simp: str_concat_def steps_to_def fits_def)
next
  case (Concat_c k i p)
  then obtain a where a: "A k = None" "A i = Some a" using ok by (auto simp: live_def)
  show ?thesis using concat_bytes_ok [OF r a, of "c_str p"] a ok l Concat_c
    by (fastforce simp: str_concat_c_def steps_to_def fits_def take_strlen strlen_def [symmetric])
next
  case (Set i n c)
  then obtain a where a: "A i = Some a" using ok by (auto simp: live_def)
  show ?thesis using set_begin_at_ok [OF r a, of "nat n" c] rep_count [OF r a] a Set by (fastforce simp: str_set_def steps_to_def)
next
  case (Lower i)
  then show ?thesis using changeToLowerCase_ok [OF r, of i] ok by (fastforce simp: live_def steps_to_def)
next
  case (Upper i)
  then show ?thesis using changeToUpperCase_ok [OF r, of i] ok by (fastforce simp: live_def steps_to_def)
next
  case (To_lower k i)
  then obtain a where a: "A k = None" "A i = Some a" using ok by (auto simp: live_def)
  obtain m1 where m1: "str_copy k i m = Inr m1" "smem_rep m1 (A(k \<mapsto> a))" "brk m1 \<le> Suc (brk m)" using copy_ok [OF r a] l by auto
  show ?thesis using changeToLowerCase_ok [OF m1(2), of k a] m1 a To_lower by (fastforce simp: toLowerCase_def steps_to_def)
next
  case (To_upper k i)
  then obtain a where a: "A k = None" "A i = Some a" using ok by (auto simp: live_def)
  obtain m1 where m1: "str_copy k i m = Inr m1" "smem_rep m1 (A(k \<mapsto> a))" "brk m1 \<le> Suc (brk m)" using copy_ok [OF r a] l by auto
  show ?thesis using changeToUpperCase_ok [OF m1(2), of k a] m1 a To_upper by (fastforce simp: toUpperCase_def steps_to_def)
qed (use new_ok [OF r l] ok in auto)

fun str_run :: "str_op list \<Rightarrow> smem \<Rightarrow> smem res" where
  "str_run [] m = Inr m"
| "str_run (op # ops) m = rbind (str_exec op m) (str_run ops)"

fun str_spec_run :: "str_op list \<Rightarrow> contents \<Rightarrow> contents res" where
  "str_spec_run [] A = Inr A"
| "str_spec_run (op # ops) A = rbind (str_spec op A) (str_spec_run ops)"

fun ops_ok :: "contents \<Rightarrow> str_op list \<Rightarrow> bool" where
  "ops_ok A [] \<longleftrightarrow> True"
| "ops_ok A (op # ops) \<longleftrightarrow> op_ok A op \<and> (case str_spec op A of Inl e \<Rightarrow> True | Inr A' \<Rightarrow> ops_ok A' ops)"

lemma str_run_append: "str_run (xs @ ys) m = rbind (str_run xs m) (str_run ys)"
  by (induction xs arbitrary: m) (simp_all add: rbind_assoc cong: rbind_cong)

text \<open>Every operation takes at most two blocks.\<close>

lemma string_run:
  "smem_rep m A \<Longrightarrow> ops_ok A ops \<Longrightarrow> brk m + 2 * length ops < 2 ^ 64 \<Longrightarrow>
   (case str_spec_run ops A of Inl e \<Rightarrow> str_run ops m = Inl e
    | Inr A' \<Rightarrow> \<exists>m'. str_run ops m = Inr m' \<and> smem_rep m' A' \<and> brk m' \<le> brk m + 2 * length ops)"
proof (induction ops arbitrary: m A)
  case Nil
  then show ?case by simp
next
  case (Cons op ops)
  have s: "steps_to m (str_exec op m) (str_spec op A)" using string_step [OF Cons.prems(1)] Cons.prems by simp
  show ?case
  proof (cases "str_spec op A")
    case (Inl e)
    then show ?thesis using s by (simp add: steps_to_def)
  next
    case (Inr A1)
    then obtain m1 where m1: "str_exec op m = Inr m1" "smem_rep m1 A1" "brk m1 \<le> brk m + 2" using s by (auto simp: steps_to_def)
    have "ops_ok A1 ops" "brk m1 + 2 * length ops < 2 ^ 64" using Cons.prems(2,3) m1(3) Inr by simp_all
    then show ?thesis using Cons.IH [OF m1(2)] m1(1,3) Inr by (fastforce split: sum.splits)
  qed
qed

text \<open>The blocks in use are those of the long strings, one each.\<close>

lemma blocks_of_long:
  assumes r: "smem_rep m A"
  shows "bij_betw (\<lambda>i. the (str_ptr (the (objs m i)))) {i. \<exists>a. A i = Some a \<and> 16 \<le> length a} {p. blocks m p \<noteq> None}"
proof -
  let ?f = "\<lambda>i. the (str_ptr (the (objs m i)))" and ?L = "{i. \<exists>a. A i = Some a \<and> 16 \<le> length a}"
  have own: "owns m i (?f i)" if i: "i \<in> ?L" for i
  proof -
    obtain a where a: "A i = Some a" "16 \<le> length a" using i by blast
    obtain s where "objs m i = Some s" "str_at (blocks m) s a" by (rule rep_obj [OF r a(1)])
    then show ?thesis using a(2) by (auto simp: owns_def str_at_def str_ptr_def SSO_SIZE_def)
  qed
  have long: "i \<in> ?L \<and> ?f i = p" if o: "owns m i p" for i p
  proof -
    obtain s where s: "objs m i = Some s" "str_ptr s = Some p" using o by (auto simp: owns_def)
    have "rel_option (str_at (blocks m)) (objs m i) (A i)" using r by (simp add: smem_rep_def)
    then obtain a where "A i = Some a" "str_at (blocks m) s a" using s(1) by (cases "A i") auto
    then show ?thesis using s by (auto simp: str_at_def str_ptr_def SSO_SIZE_def split: if_splits)
  qed
  show ?thesis
  proof (rule bij_betwI')
    show "?f i = ?f j \<longleftrightarrow> i = j" if "i \<in> ?L" "j \<in> ?L" for i j
      using own [OF that(1)] own [OF that(2)] rep_owned(4) [OF r] by auto
    show "?f i \<in> {p. blocks m p \<noteq> None}" if "i \<in> ?L" for i using rep_owned(1) [OF r own [OF that]] by simp
    show "\<exists>i \<in> ?L. p = ?f i" if "p \<in> {p. blocks m p \<noteq> None}" for p
      using that r long unfolding smem_rep_def by blast
  qed
qed

subsection \<open>Properties\<close>

lemma self_append_run:
  assumes "ops_ok (\<lambda>_. None) ops" "2 * length ops + 1 < 2 ^ 64" "str_spec_run ops (\<lambda>_. None) = Inr A"
    and "A i = Some a" "8 \<le> length a" "length a < 16"
  shows "\<exists>p m. str_run (ops @ [Append i i]) smem_empty = Inr m \<and> blocks m p \<noteq> None \<and>
    read_string i m = Inr (map Some (a @ le_bytes 8 p @ drop 8 a))"
proof -
  obtain m where m: "str_run ops smem_empty = Inr m" "smem_rep m A" "brk m < 2 ^ 64"
    using string_run [OF smem_rep_empty assms(1)] assms(2,3) by (auto simp: smem_empty_def)
  obtain m' where "str_append i i m = Inr m'" "smem_rep m' (A(i \<mapsto> a @ le_bytes 8 (brk m) @ drop 8 a))" "blocks m' (brk m) \<noteq> None"
    using self_append [OF m(2) assms(4) m(3) assms(5,6)] by blast
  then show ?thesis using m(1) read_string_ok [of m' _ i] by (fastforce simp: str_run_append)
qed

text \<open>
  C24. A program over string objects, short or long, that builds, copies, moves, assigns, appends to and destroys them in
  any order sees lists of bytes, with two restrictions that \<open>ops_ok\<close> states beside the use of live objects only: every length stays below
  \<open>2 ^ 31 - 1\<close>, and no string of 8 to 15 bytes is appended to itself. Such a program raises exactly what the specification raises, never touches
  memory it must not, every string reads back as specified, and the blocks in use are one for each
  string of 16 bytes or more, so that a program that destroys its strings has freed everything. Appending a string of 8 to 15 bytes to
  itself (\<open>s += s\<close>) at the end of such a program destroys it: the pointer to the new block is stored in the union before the bytes to append
  are read from there, so that the first eight appended bytes are the address of the block.
\<close>

theorem strings_refine:
  assumes "ops_ok (\<lambda>_. None) ops" "2 * length ops + 1 < 2 ^ 64"
  shows "case str_spec_run ops (\<lambda>_. None) of
      Inl e \<Rightarrow> str_run ops smem_empty = Inl e
    | Inr A \<Rightarrow> (\<exists>m. str_run ops smem_empty = Inr m \<and> (\<forall>i a. A i = Some a \<longrightarrow> read_string i m = Inr (map Some a)) \<and>
        (\<exists>f. bij_betw f {i. \<exists>a. A i = Some a \<and> 16 \<le> length a} {p. blocks m p \<noteq> None})) \<and>
      (\<forall>i a. A i = Some a \<longrightarrow> 8 \<le> length a \<longrightarrow> length a < 16 \<longrightarrow>
        (\<exists>p m. str_run (ops @ [Append i i]) smem_empty = Inr m \<and> blocks m p \<noteq> None \<and>
          read_string i m = Inr (map Some (a @ le_bytes 8 p @ drop 8 a))))"
proof (cases "str_spec_run ops (\<lambda>_. None)")
  case (Inl e)
  then show ?thesis using string_run [OF smem_rep_empty assms(1)] assms(2) by (fastforce simp: smem_empty_def split: sum.splits)
next
  case (Inr A)
  then obtain m where "str_run ops smem_empty = Inr m" "smem_rep m A"
    using string_run [OF smem_rep_empty assms(1)] assms(2) by (auto simp: smem_empty_def)
  then have "\<exists>m. str_run ops smem_empty = Inr m \<and> (\<forall>i a. A i = Some a \<longrightarrow> read_string i m = Inr (map Some a)) \<and>
      (\<exists>f. bij_betw f {i. \<exists>a. A i = Some a \<and> 16 \<le> length a} {p. blocks m p \<noteq> None})"
    using read_string_ok blocks_of_long by blast
  then show ?thesis using Inr self_append_run [OF assms Inr] by simp
qed

definition hello_world :: "byte list" where
  "hello_world = [0x48, 0x65, 0x6c, 0x6c, 0x6f, 0x20, 0x77, 0x6f, 0x72, 0x6c, 0x64]"

definition demo_ops :: "str_op list" where
  "demo_ops = [New_c 1 (Some hello_world), Copy 2 1, Append 2 1, Concat 3 1 2, Move 4 2, Destroy 1]"

theorem strings_refine_witness:
  "\<exists>m. str_run demo_ops smem_empty = Inr m \<and> read_string 4 m = Inr (map Some (hello_world @ hello_world)) \<and> read_string 2 m = Inr []"
proof -
  have "ops_ok (\<lambda>_. None) demo_ops" "2 * length demo_ops + 1 < 2 ^ 64"
    by (simp_all add: demo_ops_def hello_world_def live_def fits_def strlen_def c_str_def)
  from strings_refine [OF this] show ?thesis
    by (auto simp: demo_ops_def hello_world_def c_str_def moved_from_def)
qed

end
