(* ===== verification/StringOps.thy ===== *)
theory StringOps
  imports Strings Crc "HOL-Library.Sublist" "HOL-Library.List_Lexorder"
begin

text \<open>
  The methods of \<^verbatim>\<open>system/lang/String.cpp\<close> that look at the bytes of a string: comparison, search, substrings,
  trimming, the hash code and conversions from and to numbers (\<^verbatim>\<open>Integer.h\<close>, \<^verbatim>\<open>Long.h\<close>). A string is its list of
  bytes, which theory \<open>Strings\<close> justifies; in memory a zero follows, so that the end of a list is where
  the functions of the C library stop if they have not met a zero before.
\<close>

subsection \<open>The functions of the C library\<close>

text \<open>Only the sign of \<open>strcmp\<close> is specified; characters compare as unsigned bytes.\<close>

fun strcmp :: "byte list \<Rightarrow> byte list \<Rightarrow> int" where
  "strcmp [] [] = 0"
| "strcmp [] (y # ys) = - uint y"
| "strcmp (x # xs) [] = uint x"
| "strcmp (x # xs) (y # ys) = (if x \<noteq> y then uint x - uint y else if x = 0 then 0 else strcmp xs ys)"

fun strchr :: "byte list \<Rightarrow> byte \<Rightarrow> nat option" where
  "strchr [] c = (if c = 0 then Some 0 else None)"
| "strchr (x # xs) c = (if x = c then Some 0 else if x = 0 then None else map_option Suc (strchr xs c))"

fun strrchr :: "byte list \<Rightarrow> byte \<Rightarrow> nat option" where
  "strrchr [] c = (if c = 0 then Some 0 else None)"
| "strrchr (x # xs) c = (if x = 0 then (if c = 0 then Some 0 else None)
     else case strrchr xs c of Some k \<Rightarrow> Some (Suc k) | None \<Rightarrow> if x = c then Some 0 else None)"

fun strstr :: "byte list \<Rightarrow> byte list \<Rightarrow> nat option" where
  "strstr [] t = (if c_str t = [] then Some 0 else None)"
| "strstr (x # xs) t = (if prefix (c_str t) (c_str (x # xs)) then Some 0 else if x = 0 then None else map_option Suc (strstr xs t))"

subsection \<open>Comparison and search\<close>

definition str_npos :: int where
  "str_npos = -1"

definition compareTo :: "byte list \<Rightarrow> byte list \<Rightarrow> int" where
  "compareTo this str = strcmp str this"

definition str_less :: "byte list \<Rightarrow> byte list \<Rightarrow> bool" where
  "str_less this str \<longleftrightarrow> compareTo this str < 0"

definition str_equal :: "byte list \<Rightarrow> byte list \<Rightarrow> bool" where
  "str_equal this str \<longleftrightarrow> compareTo this str = 0"

text \<open>\<open>position - begin()\<close> of a position found from \<open>fromIndex\<close> on.\<close>

definition position :: "int \<Rightarrow> nat option \<Rightarrow> int" where
  "position fromIndex p = (case p of None \<Rightarrow> str_npos | Some k \<Rightarrow> fromIndex + int k)"

definition indexOf_char :: "byte list \<Rightarrow> byte \<Rightarrow> int \<Rightarrow> int" where
  "indexOf_char s ch fromIndex = (if fromIndex < 0 \<or> fromIndex \<ge> int (length s) then str_npos
     else position fromIndex (strchr (drop (nat fromIndex) s) ch))"

definition indexOf :: "byte list \<Rightarrow> byte list \<Rightarrow> int \<Rightarrow> int" where
  "indexOf s str fromIndex = (if fromIndex < 0 \<or> fromIndex \<ge> int (length s) then str_npos
     else position fromIndex (strstr (drop (nat fromIndex) s) str))"

definition lastIndexOf_char :: "byte list \<Rightarrow> byte \<Rightarrow> int \<Rightarrow> int" where
  "lastIndexOf_char s ch fromIndex = (if fromIndex < 0 \<or> fromIndex \<ge> int (length s) then str_npos
     else position fromIndex (strrchr (drop (nat fromIndex) s) ch))"

text \<open>
  \<open>strrstr\<close>: the inner loop counts equal bytes, the outer one moves the end of the candidate down from
  \<open>slen\<close>.
\<close>

fun match_loop :: "byte list \<Rightarrow> byte list \<Rightarrow> nat" where
  "match_loop (x # xs) (y # ys) = (if x = y then Suc (match_loop xs ys) else 0)"
| "match_loop xs ys = 0"

fun strrstr_loop :: "byte list \<Rightarrow> byte list \<Rightarrow> nat \<Rightarrow> nat option" where
  "strrstr_loop s t i = (if i < length t then None
     else if match_loop (drop (i - length t) s) t = length t then Some (i - length t)
     else case i of 0 \<Rightarrow> None | Suc i' \<Rightarrow> strrstr_loop s t i')"

definition strrstr :: "byte list \<Rightarrow> byte list \<Rightarrow> nat option" where
  "strrstr s t = strrstr_loop s t (length s)"

definition lastIndexOf :: "byte list \<Rightarrow> byte list \<Rightarrow> int \<Rightarrow> int" where
  "lastIndexOf s str fromIndex = (if fromIndex < 0 \<or> fromIndex \<ge> int (length s) then str_npos
     else position fromIndex (strrstr (drop (nat fromIndex) s) str))"

definition lastIndexOf_c :: "byte list \<Rightarrow> byte list \<Rightarrow> int \<Rightarrow> int" where
  "lastIndexOf_c s str fromIndex = (if fromIndex < 0 \<or> fromIndex \<ge> int (length s) then str_npos
     else position fromIndex (strrstr (drop (nat fromIndex) s) (take (strlen str) str)))"

definition str_contains :: "byte list \<Rightarrow> byte list \<Rightarrow> bool" where
  "str_contains s str \<longleftrightarrow> indexOf s str 0 \<noteq> str_npos"

definition beginsWith :: "byte list \<Rightarrow> byte list \<Rightarrow> bool" where
  "beginsWith s str \<longleftrightarrow> indexOf s str 0 = 0"

definition endsWith :: "byte list \<Rightarrow> byte list \<Rightarrow> bool" where
  "endsWith s str \<longleftrightarrow> (if length str > length s then False else lastIndexOf s str 0 = int (length s) - int (length str))"

definition endsWith_c :: "byte list \<Rightarrow> byte list \<Rightarrow> bool" where
  "endsWith_c s str \<longleftrightarrow> (if strlen str > length s then False else lastIndexOf_c s str 0 = int (length s) - int (strlen str))"

subsection \<open>Substrings and trimming\<close>

definition subString_from :: "byte list \<Rightarrow> int \<Rightarrow> byte list res" where
  "subString_from s beginIndex = (if beginIndex < 0 \<or> beginIndex \<ge> int (length s) then Inl (ArrayIndexOutOfBoundsException beginIndex)
     else Inr (drop (nat beginIndex) s))"

definition subString :: "byte list \<Rightarrow> int \<Rightarrow> int \<Rightarrow> byte list res" where
  "subString s beginIndex endIndex =
     (if beginIndex < 0 \<or> beginIndex > int (length s) then Inl (ArrayIndexOutOfBoundsException beginIndex)
      else if endIndex < 0 \<or> endIndex > int (length s) then Inl (ArrayIndexOutOfBoundsException endIndex)
      else if beginIndex > endIndex then Inl (ArrayIndexOutOfBoundsException beginIndex)
      else if beginIndex \<noteq> endIndex then Inr (take (nat (endIndex - beginIndex)) (drop (nat beginIndex) s))
      else Inr [])"

definition is_blank :: "byte \<Rightarrow> bool" where
  "is_blank ch \<longleftrightarrow> ch = 0x20 \<or> ch = 0x0A \<or> ch = 0x09 \<or> ch = 0x0D \<or> ch = 0x0C"

fun first_loop :: "byte list \<Rightarrow> nat \<Rightarrow> nat \<Rightarrow> int" where
  "first_loop s i 0 = str_npos"
| "first_loop s i (Suc n) = (if \<not> is_blank (s ! i) then int i else first_loop s (Suc i) n)"

fun last_loop :: "byte list \<Rightarrow> nat \<Rightarrow> int" where
  "last_loop s 0 = str_npos"
| "last_loop s (Suc i) = (if \<not> is_blank (s ! i) then int i + 1 else last_loop s i)"

definition trim :: "byte list \<Rightarrow> byte list res" where
  "trim s = (let firstIndex = first_loop s 0 (length s) in
     if firstIndex = str_npos then Inr [] else subString s firstIndex (last_loop s (length s)))"

subsection \<open>The hash code\<close>

definition string_crctable :: "32 word list" where
  "string_crctable = [
     0x00000000, 0x04C11DB7, 0x09823B6E, 0x0D4326D9, 0x130476DC, 0x17C56B6B, 0x1A864DB2, 0x1E475005,
     0x2608EDB8, 0x22C9F00F, 0x2F8AD6D6, 0x2B4BCB61, 0x350C9B64, 0x31CD86D3, 0x3C8EA00A, 0x384FBDBD,
     0x4C11DB70, 0x48D0C6C7, 0x4593E01E, 0x4152FDA9, 0x5F15ADAC, 0x5BD4B01B, 0x569796C2, 0x52568B75,
     0x6A1936C8, 0x6ED82B7F, 0x639B0DA6, 0x675A1011, 0x791D4014, 0x7DDC5DA3, 0x709F7B7A, 0x745E66CD,
     0x9823B6E0, 0x9CE2AB57, 0x91A18D8E, 0x95609039, 0x8B27C03C, 0x8FE6DD8B, 0x82A5FB52, 0x8664E6E5,
     0xBE2B5B58, 0xBAEA46EF, 0xB7A96036, 0xB3687D81, 0xAD2F2D84, 0xA9EE3033, 0xA4AD16EA, 0xA06C0B5D,
     0xD4326D90, 0xD0F37027, 0xDDB056FE, 0xD9714B49, 0xC7361B4C, 0xC3F706FB, 0xCEB42022, 0xCA753D95,
     0xF23A8028, 0xF6FB9D9F, 0xFBB8BB46, 0xFF79A6F1, 0xE13EF6F4, 0xE5FFEB43, 0xE8BCCD9A, 0xEC7DD02D,
     0x34867077, 0x30476DC0, 0x3D044B19, 0x39C556AE, 0x278206AB, 0x23431B1C, 0x2E003DC5, 0x2AC12072,
     0x128E9DCF, 0x164F8078, 0x1B0CA6A1, 0x1FCDBB16, 0x018AEB13, 0x054BF6A4, 0x0808D07D, 0x0CC9CDCA,
     0x7897AB07, 0x7C56B6B0, 0x71159069, 0x75D48DDE, 0x6B93DDDB, 0x6F52C06C, 0x6211E6B5, 0x66D0FB02,
     0x5E9F46BF, 0x5A5E5B08, 0x571D7DD1, 0x53DC6066, 0x4D9B3063, 0x495A2DD4, 0x44190B0D, 0x40D816BA,
     0xACA5C697, 0xA864DB20, 0xA527FDF9, 0xA1E6E04E, 0xBFA1B04B, 0xBB60ADFC, 0xB6238B25, 0xB2E29692,
     0x8AAD2B2F, 0x8E6C3698, 0x832F1041, 0x87EE0DF6, 0x99A95DF3, 0x9D684044, 0x902B669D, 0x94EA7B2A,
     0xE0B41DE7, 0xE4750050, 0xE9362689, 0xEDF73B3E, 0xF3B06B3B, 0xF771768C, 0xFA325055, 0xFEF34DE2,
     0xC6BCF05F, 0xC27DEDE8, 0xCF3ECB31, 0xCBFFD686, 0xD5B88683, 0xD1799B34, 0xDC3ABDED, 0xD8FBA05A,
     0x690CE0EE, 0x6DCDFD59, 0x608EDB80, 0x644FC637, 0x7A089632, 0x7EC98B85, 0x738AAD5C, 0x774BB0EB,
     0x4F040D56, 0x4BC510E1, 0x46863638, 0x42472B8F, 0x5C007B8A, 0x58C1663D, 0x558240E4, 0x51435D53,
     0x251D3B9E, 0x21DC2629, 0x2C9F00F0, 0x285E1D47, 0x36194D42, 0x32D850F5, 0x3F9B762C, 0x3B5A6B9B,
     0x0315D626, 0x07D4CB91, 0x0A97ED48, 0x0E56F0FF, 0x1011A0FA, 0x14D0BD4D, 0x19939B94, 0x1D528623,
     0xF12F560E, 0xF5EE4BB9, 0xF8AD6D60, 0xFC6C70D7, 0xE22B20D2, 0xE6EA3D65, 0xEBA91BBC, 0xEF68060B,
     0xD727BBB6, 0xD3E6A601, 0xDEA580D8, 0xDA649D6F, 0xC423CD6A, 0xC0E2D0DD, 0xCDA1F604, 0xC960EBB3,
     0xBD3E8D7E, 0xB9FF90C9, 0xB4BCB610, 0xB07DABA7, 0xAE3AFBA2, 0xAAFBE615, 0xA7B8C0CC, 0xA379DD7B,
     0x9B3660C6, 0x9FF77D71, 0x92B45BA8, 0x9675461F, 0x8832161A, 0x8CF30BAD, 0x81B02D74, 0x857130C3,
     0x5D8A9099, 0x594B8D2E, 0x5408ABF7, 0x50C9B640, 0x4E8EE645, 0x4A4FFBF2, 0x470CDD2B, 0x43CDC09C,
     0x7B827D21, 0x7F436096, 0x7200464F, 0x76C15BF8, 0x68860BFD, 0x6C47164A, 0x61043093, 0x65C52D24,
     0x119B4BE9, 0x155A565E, 0x18197087, 0x1CD86D30, 0x029F3D35, 0x065E2082, 0x0B1D065B, 0x0FDC1BEC,
     0x3793A651, 0x3352BBE6, 0x3E119D3F, 0x3AD08088, 0x2497D08D, 0x2056CD3A, 0x2D15EBE3, 0x29D4F654,
     0xC5A92679, 0xC1683BCE, 0xCC2B1D17, 0xC8EA00A0, 0xD6AD50A5, 0xD26C4D12, 0xDF2F6BCB, 0xDBEE767C,
     0xE3A1CBC1, 0xE760D676, 0xEA23F0AF, 0xEEE2ED18, 0xF0A5BD1D, 0xF464A0AA, 0xF9278673, 0xFDE69BC4,
     0x89B8FD09, 0x8D79E0BE, 0x803AC667, 0x84FBDBD0, 0x9ABC8BD5, 0x9E7D9662, 0x933EB0BB, 0x97FFAD0C,
     0xAFB010B1, 0xAB710D06, 0xA6322BDF, 0xA2F33668, 0xBCB4666D, 0xB8757BDA, 0xB5365D03, 0xB1F740B4]"

fun hash_loop :: "byte list \<Rightarrow> 32 word \<Rightarrow> 32 word" where
  "hash_loop [] startCRC = NOT startCRC"
| "hash_loop (ch # string) startCRC = (if ch = 0 then NOT startCRC
     else hash_loop string (string_crctable ! unat ((drop_bit 24 startCRC XOR ucast ch) AND 0xFF) XOR push_bit 8 startCRC))"

definition hashCode :: "byte list \<Rightarrow> 32 word" where
  "hashCode s = hash_loop s 0xFFFFFFFF"

subsection \<open>The order of strings\<close>

lemma c_str_simps [simp]: "c_str [] = []" "c_str (x # xs) = (if x = 0 then [] else x # c_str xs)"
  by (simp_all add: c_str_def)

lemma c_str_id: "0 \<notin> set s \<Longrightarrow> c_str s = s"
  by (auto simp: c_str_def takeWhile_eq_all_conv)

lemma uint_pos: "0 < uint (x :: byte) \<longleftrightarrow> x \<noteq> 0"
  by (simp add: word_neq_0_conv word_less_def)

lemma strcmp_flip: "strcmp a b = - strcmp b a"
  by (induction a b rule: strcmp.induct) auto

text \<open>\<open>strcmp\<close> is the lexicographic order of the bytes before the first zero.\<close>

lemma strcmp_le: "strcmp a b \<le> 0 \<longleftrightarrow> c_str a \<le> c_str b"
proof (induction a b rule: strcmp.induct)
  case (3 x xs)
  then show ?case using uint_pos [of x] by auto
next
  case (4 x xs y ys)
  then show ?case using uint_pos [of x] uint_pos [of y] word_uint_eq_iff [of x y] by (auto simp: word_less_def)
qed auto

lemma strcmp_less: "strcmp a b < 0 \<longleftrightarrow> c_str a < c_str b"
  using strcmp_le [of b a] strcmp_flip [of a b] by (simp add: not_le [symmetric])

lemma strcmp_eq: "strcmp a b = 0 \<longleftrightarrow> c_str a = c_str b"
  using strcmp_le [of a b] strcmp_less [of a b] by (auto simp: order.strict_iff_order)

text \<open>\<open>compareTo\<close> meets the contract of the sorted containers.\<close>

interpretation string_order: compare_order compareTo
proof
  show "0 < compareTo a b \<longleftrightarrow> compareTo b a < 0" for a b using strcmp_flip [of a b] by (simp add: compareTo_def)
  show "0 \<le> compareTo a b \<Longrightarrow> 0 \<le> compareTo b c \<Longrightarrow> 0 \<le> compareTo a c" for a b c
    using strcmp_le [of a b] strcmp_le [of b c] strcmp_le [of a c] strcmp_flip [of a b] strcmp_flip [of b c] strcmp_flip [of a c]
    by (simp add: compareTo_def)
qed

subsection \<open>Search finds the first and the last occurrence\<close>

definition occurs :: "byte list \<Rightarrow> byte list \<Rightarrow> nat \<Rightarrow> bool" where
  "occurs t s i \<longleftrightarrow> i \<le> length s \<and> prefix t (drop i s)"

lemma occurs_0: "occurs t s 0 \<longleftrightarrow> prefix t s"
  by (simp add: occurs_def)

lemma occurs_Suc: "occurs t (x # xs) (Suc i) \<longleftrightarrow> occurs t xs i"
  by (simp add: occurs_def)

lemma strstr_Some: "0 \<notin> set s \<Longrightarrow> 0 \<notin> set t \<Longrightarrow> strstr s t = Some k \<Longrightarrow> occurs t s k \<and> (\<forall>j < k. \<not> occurs t s j)"
proof (induction s arbitrary: k)
  case Nil
  then show ?case by (auto simp: c_str_id occurs_def split: if_splits)
next
  case (Cons x xs)
  show ?case
  proof (cases "prefix t (x # xs)")
    case True
    then show ?thesis using Cons.prems by (simp add: c_str_id occurs_0)
  next
    case False
    then obtain k' where "k = Suc k'" "strstr xs t = Some k'" using Cons.prems by (auto simp: c_str_id)
    then show ?thesis using Cons False by (auto simp: occurs_Suc occurs_0 less_Suc_eq_0_disj)
  qed
qed

lemma strstr_None: "0 \<notin> set s \<Longrightarrow> 0 \<notin> set t \<Longrightarrow> strstr s t = None \<Longrightarrow> \<not> occurs t s k"
proof (induction s arbitrary: k)
  case Nil
  then show ?case by (auto simp: c_str_id occurs_def split: if_splits)
next
  case (Cons x xs)
  then show ?case by (cases k) (auto simp: c_str_id occurs_0 occurs_Suc split: if_splits)
qed

lemma match_loop_prefix: "match_loop s t = length t \<longleftrightarrow> prefix t s"
  by (induction s t rule: match_loop.induct) auto

declare strrstr_loop.simps [simp del]

lemma strrstr_loop_eqs:
  "strrstr_loop s t 0 = (if t = [] then Some 0 else None)"
  "strrstr_loop s t (Suc i) = (if Suc i < length t then None
     else if prefix t (drop (Suc i - length t) s) then Some (Suc i - length t) else strrstr_loop s t i)"
  by (subst strrstr_loop.simps, simp add: match_loop_prefix)+

lemma strrstr_loop_Some:
  "strrstr_loop s t i = Some k \<Longrightarrow> i \<le> length s \<Longrightarrow> occurs t s k \<and> (\<forall>j. k < j \<and> j + length t \<le> i \<longrightarrow> \<not> occurs t s j)"
proof (induction i arbitrary: k)
  case 0
  then show ?case by (auto simp: strrstr_loop_eqs occurs_def split: if_splits)
next
  case (Suc i)
  show ?case
  proof (cases "prefix t (drop (Suc i - length t) s)")
    case True
    then show ?thesis using Suc.prems by (auto simp: strrstr_loop_eqs occurs_def split: if_splits)
  next
    case False
    then have "occurs t s k" "\<forall>j. k < j \<and> j + length t \<le> i \<longrightarrow> \<not> occurs t s j"
      using Suc by (auto simp: strrstr_loop_eqs split: if_splits)
    moreover have "\<not> occurs t s j" if "j + length t = Suc i" for j
    proof -
      have "j = Suc i - length t" using that by simp
      then show ?thesis using False by (simp add: occurs_def)
    qed
    ultimately show ?thesis by (auto simp: le_Suc_eq)
  qed
qed

lemma strrstr_loop_None:
  "strrstr_loop s t i = None \<Longrightarrow> j + length t \<le> i \<Longrightarrow> \<not> occurs t s j"
proof (induction i)
  case 0
  then show ?case by (auto simp: strrstr_loop_eqs split: if_splits)
next
  case (Suc i)
  show ?case
  proof (cases "j + length t = Suc i")
    case True
    then have "j = Suc i - length t" by simp
    then show ?thesis using Suc.prems True by (auto simp: strrstr_loop_eqs occurs_def split: if_splits)
  next
    case False
    then show ?thesis using Suc by (auto simp: strrstr_loop_eqs split: if_splits)
  qed
qed

lemma occurs_bound: "occurs t s i \<Longrightarrow> i + length t \<le> length s"
  by (auto simp: occurs_def dest: prefix_length_le)

lemma occurs_drop: "n + i \<le> length s \<Longrightarrow> occurs t (drop n s) i \<longleftrightarrow> occurs t s (n + i)"
  by (auto simp: occurs_def add.commute)

lemma indexOf_spec:
  assumes "0 \<notin> set s" "0 \<notin> set t" "n < length s"
  shows "indexOf s t (int n) = -1 \<and> (\<forall>j \<ge> n. \<not> occurs t s j) \<or>
    (\<exists>i \<ge> n. indexOf s t (int n) = int i \<and> occurs t s i \<and> (\<forall>j. n \<le> j \<and> j < i \<longrightarrow> \<not> occurs t s j))"
proof -
  have d: "0 \<notin> set (drop n s)" using assms(1) by (meson in_set_dropD)
  have sh: "occurs t s j \<longleftrightarrow> occurs t (drop n s) (j - n)" if "n \<le> j" for j
    using occurs_drop [of n "j - n" s t] occurs_bound [of t s j] occurs_bound [of t "drop n s" "j - n"] that assms(3)
    by (cases "j \<le> length s") auto
  show ?thesis
  proof (cases "strstr (drop n s) t")
    case None
    then have "indexOf s t (int n) = -1" using assms(3) by (simp add: indexOf_def position_def str_npos_def)
    moreover have "\<forall>j \<ge> n. \<not> occurs t s j" using strstr_None [OF d assms(2) None] sh by simp
    ultimately show ?thesis by blast
  next
    case (Some k)
    have k: "occurs t (drop n s) k" "\<forall>j < k. \<not> occurs t (drop n s) j" using strstr_Some [OF d assms(2) Some] by auto
    have "indexOf s t (int n) = int (n + k)" using assms(3) Some by (simp add: indexOf_def position_def)
    moreover have "occurs t s (n + k)" "\<forall>j. n \<le> j \<and> j < n + k \<longrightarrow> \<not> occurs t s j" using k sh by auto
    ultimately show ?thesis by (intro disjI2 exI [of _ "n + k"]) auto
  qed
qed

lemma lastIndexOf_spec:
  assumes "n < length s"
  shows "lastIndexOf s t (int n) = -1 \<and> (\<forall>j \<ge> n. \<not> occurs t s j) \<or>
    (\<exists>i \<ge> n. lastIndexOf s t (int n) = int i \<and> occurs t s i \<and> (\<forall>j > i. \<not> occurs t s j))"
proof -
  have sh: "occurs t s j \<longleftrightarrow> occurs t (drop n s) (j - n)" if "n \<le> j" for j
    using occurs_drop [of n "j - n" s t] occurs_bound [of t s j] occurs_bound [of t "drop n s" "j - n"] that assms
    by (cases "j \<le> length s") auto
  show ?thesis
  proof (cases "strrstr (drop n s) t")
    case None
    then have "lastIndexOf s t (int n) = -1" using assms by (simp add: lastIndexOf_def position_def str_npos_def)
    moreover have "\<not> occurs t (drop n s) j" for j
      using strrstr_loop_None [of "drop n s" t _ j] None occurs_bound unfolding strrstr_def by blast
    ultimately show ?thesis using sh by blast
  next
    case (Some k)
    have k: "occurs t (drop n s) k" "\<And>j. k < j \<Longrightarrow> \<not> occurs t (drop n s) j"
      using strrstr_loop_Some [of "drop n s" t _ k] Some occurs_bound unfolding strrstr_def by blast+
    have "lastIndexOf s t (int n) = int (n + k)" using assms Some by (simp add: lastIndexOf_def position_def)
    moreover have "occurs t s (n + k)" "\<forall>j > n + k. \<not> occurs t s j" using k sh by auto
    ultimately show ?thesis by (intro disjI2 exI [of _ "n + k"]) auto
  qed
qed

lemma occurs_sublist: "(\<exists>i. occurs t s i) \<longleftrightarrow> sublist t s"
proof
  assume "\<exists>i. occurs t s i"
  then obtain i zs where "drop i s = t @ zs" by (auto simp: occurs_def prefix_def)
  then have "s = take i s @ t @ zs" by (metis append_take_drop_id)
  then show "sublist t s" by (metis sublist_def)
next
  assume "sublist t s"
  then obtain ps ss where "s = ps @ t @ ss" by (auto simp: sublist_def)
  then have "occurs t s (length ps)" by (simp add: occurs_def)
  then show "\<exists>i. occurs t s i" ..
qed

lemma occurs_suffix: "length t \<le> length s \<Longrightarrow> occurs t s (length s - length t) \<longleftrightarrow> suffix t s"
proof
  assume l: "length t \<le> length s" and "occurs t s (length s - length t)"
  then have "prefix t (drop (length s - length t) s)" "length (drop (length s - length t) s) = length t" by (auto simp: occurs_def)
  then have "drop (length s - length t) s = t" by (metis not_equal_is_parallel parallelD1)
  then show "suffix t s" by (metis suffix_drop)
next
  assume "suffix t s"
  then obtain zs where "s = zs @ t" by (auto simp: suffix_def)
  then show "occurs t s (length s - length t)" by (simp add: occurs_def)
qed

lemma contains_spec: "0 \<notin> set s \<Longrightarrow> 0 \<notin> set t \<Longrightarrow> s \<noteq> [] \<Longrightarrow> str_contains s t \<longleftrightarrow> sublist t s"
  using indexOf_spec [of s t 0] occurs_sublist [of t s] by (auto simp: str_contains_def str_npos_def)

lemma beginsWith_spec: "0 \<notin> set s \<Longrightarrow> 0 \<notin> set t \<Longrightarrow> s \<noteq> [] \<Longrightarrow> beginsWith s t \<longleftrightarrow> prefix t s"
  using indexOf_spec [of s t 0] occurs_0 [of t s] by (fastforce simp: beginsWith_def)

lemma endsWith_spec:
  assumes "s \<noteq> []"
  shows "endsWith s t \<longleftrightarrow> suffix t s"
proof (cases "length t \<le> length s")
  case True
  let ?k = "length s - length t"
  have e: "endsWith s t \<longleftrightarrow> lastIndexOf s t 0 = int ?k" using True by (simp add: endsWith_def of_nat_diff)
  have far: "j \<le> ?k" if "occurs t s j" for j using occurs_bound [OF that] by simp
  have "lastIndexOf s t 0 = -1 \<and> (\<forall>j. \<not> occurs t s j) \<or> (\<exists>i. lastIndexOf s t 0 = int i \<and> occurs t s i \<and> (\<forall>j > i. \<not> occurs t s j))"
    using lastIndexOf_spec [of 0 s t] assms by auto
  then show ?thesis unfolding e occurs_suffix [OF True, symmetric]
  proof (elim disjE exE conjE)
    fix i assume i: "lastIndexOf s t 0 = int i" "occurs t s i" "\<forall>j > i. \<not> occurs t s j"
    have "occurs t s ?k \<longleftrightarrow> i = ?k" using i(2,3) far [OF i(2)] by (auto simp: le_less)
    then show "lastIndexOf s t 0 = int ?k \<longleftrightarrow> occurs t s ?k" using i(1) by auto
  qed auto
next
  case False
  then show ?thesis by (auto simp: endsWith_def dest: suffix_length_le)
qed

subsection \<open>Trimming\<close>

lemma first_loop_spec: "i + n = length s \<Longrightarrow>
   first_loop s i n = (if dropWhile is_blank (drop i s) = [] then -1 else int (length s - length (dropWhile is_blank (drop i s))))"
proof (induction n arbitrary: i)
  case 0
  then show ?case by (simp add: str_npos_def)
next
  case (Suc n)
  have "drop i s = s ! i # drop (Suc i) s" using Suc.prems by (simp add: Cons_nth_drop_Suc)
  then show ?case using Suc by auto
qed

lemma last_loop_spec: "i \<le> length s \<Longrightarrow> \<exists>x \<in> set (take i s). \<not> is_blank x \<Longrightarrow>
   last_loop s i = int (length (rev (dropWhile is_blank (rev (take i s)))))"
proof (induction i)
  case 0
  then show ?case by simp
next
  case (Suc i)
  then have "take (Suc i) s = take i s @ [s ! i]" by (simp add: take_Suc_conv_app_nth)
  then show ?case using Suc by (auto simp: min_def)
qed

lemma trim_spec: "trim s = Inr (rev (dropWhile is_blank (rev (dropWhile is_blank s))))"
proof (cases "dropWhile is_blank s = []")
  case True
  have "trim s = Inr []" using first_loop_spec [of 0 "length s" s] True by (simp add: trim_def Let_def str_npos_def)
  then show ?thesis unfolding True by simp
next
  case False
  define d where "d = dropWhile is_blank s"
  obtain p where s: "s = p @ d" and p: "\<forall>x \<in> set p. is_blank x" using takeWhile_dropWhile_id [of is_blank s] unfolding d_def by (metis set_takeWhileD)
  define e where "e = rev (dropWhile is_blank (rev d))"
  have hd: "\<not> is_blank (hd d)" "d \<noteq> []" using False hd_dropWhile [of is_blank s] unfolding d_def by (auto simp: dropWhile_eq_Nil_conv)
  then have ex: "\<exists>x \<in> set (rev d). \<not> is_blank x" by auto
  obtain q where d: "d = e @ q" using takeWhile_dropWhile_id [of is_blank "rev d"] unfolding e_def by (metis rev_append rev_rev_ident)
  have "dropWhile is_blank (rev s) = dropWhile is_blank (rev d) @ rev p" unfolding s using ex by (fastforce simp: dropWhile_append1)
  then have "last_loop s (length s) = int (length p + length e)"
    using last_loop_spec [of "length s" s] ex by (auto simp: s e_def)
  moreover have "length s - length d = length p" using s by simp
  then have "first_loop s 0 (length s) = int (length p)"
    using first_loop_spec [of 0 "length s" s] hd(2) by (simp only: drop_0 d_def [symmetric]) simp
  moreover have "e \<noteq> []" using ex by (simp add: e_def dropWhile_eq_Nil_conv)
  ultimately have "trim s = Inr e" by (simp add: trim_def Let_def str_npos_def subString_def s d)
  then show ?thesis by (simp add: e_def d_def)
qed

subsection \<open>The hash code is a CRC\<close>

text \<open>The reference: CRC-32 bit by bit, most significant bit first, with the polynomial \<open>0x04C11DB7\<close>.\<close>

definition msb_bit :: "32 word \<Rightarrow> 32 word" where
  "msb_bit c = push_bit 1 c XOR (if bit c 31 then 0x04C11DB7 else 0)"

definition msb_step :: "32 word \<Rightarrow> byte \<Rightarrow> 32 word" where
  "msb_step c b = (msb_bit ^^ 8) (c XOR push_bit 24 (ucast b))"

definition crc32_msb :: "byte list \<Rightarrow> 32 word" where
  "crc32_msb bs = NOT (foldl msb_step (NOT 0) bs)"

definition msb8 :: "32 word \<Rightarrow> 32 word" where
  "msb8 = msb_bit ^^ 8"

lemma msb8_unfold: "msb8 c = msb_bit (msb_bit (msb_bit (msb_bit (msb_bit (msb_bit (msb_bit (msb_bit c)))))))"
  by (simp add: msb8_def numeral_eq_Suc)

lemma msb_bit_xor: "msb_bit (x XOR y) = msb_bit x XOR msb_bit y"
  by (auto simp: msb_bit_def push_bit_xor bit_xor_iff ac_simps)

lemma msb8_xor: "msb8 (x XOR y) = msb8 x XOR msb8 y"
  by (simp add: msb8_unfold msb_bit_xor)

definition top8 :: "32 word \<Rightarrow> 32 word" where
  "top8 i = msb8 (push_bit 24 i)"

lemma top8_xor: "top8 (x XOR y) = top8 x XOR top8 y"
  by (simp add: top8_def push_bit_xor msb8_xor)

lemma top8_basis:
  "top8 0 = 0" "top8 1 = 0x04C11DB7" "top8 2 = 0x09823B6E" "top8 4 = 0x130476DC" "top8 8 = 0x2608EDB8"
  "top8 16 = 0x4C11DB70" "top8 32 = 0x9823B6E0" "top8 64 = 0x34867077" "top8 128 = 0x690CE0EE"
  by (simp_all add: top8_def msb8_unfold msb_bit_def push_bit_eq_mult bit_iff_odd)

lemma string_crctable_doubled: "string_crctable = doubled [0] [0x04C11DB7, 0x09823B6E, 0x130476DC, 0x2608EDB8, 0x4C11DB70, 0x9823B6E0, 0x34867077, 0x690CE0EE]"
  by (simp add: string_crctable_def)

lemma map_top8_doubled: "map top8 (doubled t vs) = doubled (map top8 t) (map top8 vs)"
  by (induction t vs rule: doubled.induct) (simp_all add: top8_xor comp_def)

lemma string_crctable_top8: "string_crctable = map (\<lambda>i. top8 (word_of_nat i)) [0..<256]"
proof -
  have "map (\<lambda>i. top8 (word_of_nat i)) [0..<256] = map top8 (map word_of_nat [0..<256])" by simp
  also have "\<dots> = string_crctable" unfolding index_doubled map_top8_doubled string_crctable_doubled by (simp only: list.map top8_basis)
  finally show ?thesis by simp
qed

lemma msb8_low:
  assumes "\<And>k. 24 \<le> k \<Longrightarrow> \<not> bit c k"
  shows "msb8 c = push_bit 8 c"
proof -
  have "(msb_bit ^^ n) c = push_bit n c" if "n \<le> 8" for n
    using that
  proof (induction n)
    case 0
    then show ?case by simp
  next
    case (Suc n)
    have "\<not> bit (push_bit n c) 31" using assms [of "31 - n"] Suc.prems by (simp add: bit_push_bit_iff)
    then have "msb_bit (push_bit n c) = push_bit (Suc n) c" by (simp only: msb_bit_def push_bit_push_bit) simp
    then show ?case using Suc by simp
  qed
  then show ?thesis by (simp add: msb8_def)
qed

text \<open>One table step is eight steps of the reference.\<close>

lemma hash_step:
  "string_crctable ! unat ((drop_bit 24 c XOR ucast b) AND 0xFF) XOR push_bit 8 c = msb_step c b"
proof -
  have m: "(0xFF :: 32 word) = mask 8" by (simp add: mask_eq_exp_minus_1)
  let ?i = "(drop_bit 24 c XOR ucast b) AND 0xFF" and ?l = "take_bit 24 c"
  have "?i = take_bit 8 (drop_bit 24 c XOR ucast b)" unfolding m by (simp add: take_bit_eq_mask)
  then have "unat ?i = take_bit 8 (unat (drop_bit 24 c XOR ucast b))" by (simp only: unsigned_take_bit_eq)
  then have "unat ?i < 256" using take_bit_nat_less_exp [of 8 "unat (drop_bit 24 c XOR ucast b)"] by simp
  then have t: "string_crctable ! unat ?i = top8 ?i" by (simp add: string_crctable_top8)
  have "c XOR push_bit 24 (ucast b) = push_bit 24 ?i XOR ?l"
    unfolding m by (rule bit_word_eqI) (auto simp: bit_simps dest: bit_imp_le_length)
  then have "msb_step c b = top8 ?i XOR msb8 ?l" by (simp add: msb_step_def msb8_def [symmetric] top8_def msb8_xor)
  moreover have "msb8 ?l = push_bit 8 ?l" by (rule msb8_low) (simp add: bit_simps)
  moreover have "push_bit 8 ?l = push_bit 8 c" by (rule bit_word_eqI) (auto simp: bit_simps)
  ultimately show ?thesis using t by simp
qed

lemma hash_loop_foldl: "hash_loop s c = NOT (foldl msb_step c (c_str s))"
  by (induction s arbitrary: c) (simp_all add: hash_step)

lemma hashCode_crc: "hashCode s = crc32_msb (c_str s)"
proof -
  have "(0xFFFFFFFF :: 32 word) = NOT 0" by simp
  then show ?thesis by (simp only: hashCode_def crc32_msb_def hash_loop_foldl)
qed

subsection \<open>Properties\<close>

text \<open>
  C25. Searching a string finds what it should: from any valid start, \<open>indexOf\<close> gives the first and \<open>lastIndexOf\<close> the last
  occurrence at or after it and -1 when there is none, and on a string that is not empty \<open>contains\<close>, \<open>beginsWith\<close> and
  \<open>endsWith\<close> hold exactly for its parts, beginnings and ends. (Strings with an embedded zero end there for the C
  library.)
\<close>

theorem string_search:
  assumes "0 \<notin> set s" "0 \<notin> set t" "n < length s"
  shows "(indexOf s t (int n) = -1 \<and> (\<forall>j \<ge> n. \<not> occurs t s j) \<or>
      (\<exists>i \<ge> n. indexOf s t (int n) = int i \<and> occurs t s i \<and> (\<forall>j. n \<le> j \<and> j < i \<longrightarrow> \<not> occurs t s j))) \<and>
    (lastIndexOf s t (int n) = -1 \<and> (\<forall>j \<ge> n. \<not> occurs t s j) \<or>
      (\<exists>i \<ge> n. lastIndexOf s t (int n) = int i \<and> occurs t s i \<and> (\<forall>j > i. \<not> occurs t s j))) \<and>
    (str_contains s t \<longleftrightarrow> sublist t s) \<and> (beginsWith s t \<longleftrightarrow> prefix t s) \<and> (endsWith s t \<longleftrightarrow> suffix t s)"
proof -
  have "s \<noteq> []" using assms(3) by auto
  then show ?thesis
    using indexOf_spec [OF assms] lastIndexOf_spec [OF assms(3), of t] contains_spec beginsWith_spec endsWith_spec assms(1,2) by blast
qed

theorem string_search_witness:
  "str_contains [0x61, 0x62, 0x61] [0x62] \<and> beginsWith [0x61, 0x62, 0x61] [0x61, 0x62] \<and> endsWith [0x61, 0x62, 0x61] [0x62, 0x61]"
  using string_search [of "[0x61, 0x62, 0x61]" "[0x62]" 0] string_search [of "[0x61, 0x62, 0x61]" "[0x61, 0x62]" 0]
    string_search [of "[0x61, 0x62, 0x61]" "[0x62, 0x61]" 0]
  by (simp add: sublist_Cons_right suffix_def)

text \<open>The empty string contains nothing, not even itself.\<close>

lemma empty_contains_nothing: "\<not> str_contains [] t \<and> \<not> beginsWith [] t \<and> \<not> endsWith [] t"
  by (simp add: str_contains_def beginsWith_def endsWith_def indexOf_def lastIndexOf_def str_npos_def)

text \<open>
  C40. Comparison and hashing of strings agree and are what the containers rely on: \<open>operator==\<close> compares the bytes before the
  first zero, \<open>compareTo\<close> orders them lexicographically as unsigned bytes, positive when the receiver comes first,
  and the hash code is the CRC-32 of exactly these bytes, so equal strings have equal hash codes.
  \<open>operator<\<close> is the reverse of the lexicographic order.
\<close>

theorem string_order_and_hash:
  "(str_equal a b \<longleftrightarrow> c_str a = c_str b) \<and> (0 < compareTo a b \<longleftrightarrow> c_str a < c_str b) \<and> (str_less a b \<longleftrightarrow> c_str b < c_str a) \<and>
   hashCode a = crc32_msb (c_str a)"
proof -
  have "0 < compareTo a b \<longleftrightarrow> compareTo b a < 0" by (rule string_order.cmp_flip)
  then show ?thesis using strcmp_less [of a b] strcmp_less [of b a] hashCode_crc
    by (auto simp: str_equal_def compareTo_def str_less_def strcmp_eq)
qed

end
