(* ===== verification/NumberStrings.thy ===== *)
theory NumberStrings
  imports StringOps
begin

text \<open>
  Numbers as strings: \<open>String::valueOf\<close> and \<open>withCommas\<close> (\<^verbatim>\<open>system/lang/String.cpp\<close>) and the readers \<open>Integer::valueOf\<close>,
  \<open>hexvalueOf\<close>, \<open>UnsignedInteger::valueOf\<close>, \<open>Long::valueOf\<close> and \<open>UnsignedLong::valueOf\<close> (\<^verbatim>\<open>Integer.h\<close>, \<^verbatim>\<open>Integer.cpp\<close>, \<^verbatim>\<open>Long.h\<close>).
  Printing is \<open>snprintf\<close> with \<open>%i\<close>, \<open>%u\<close>, \<open>%lld\<close> or \<open>%llu\<close>. Signed overflow is undefined, unsigned arithmetic wraps.
\<close>

subsection \<open>Printing\<close>

definition dec_char :: "nat \<Rightarrow> byte" where
  "dec_char d = word_of_nat (48 + d)"

fun dec_digits :: "nat \<Rightarrow> byte list" where
  "dec_digits n = (if n < 10 then [dec_char n] else dec_digits (n div 10) @ [dec_char (n mod 10)])"

declare dec_digits.simps [simp del]

definition valueOf :: "int \<Rightarrow> byte list" where
  "valueOf val = (if val < 0 then 45 # dec_digits (nat (- val)) else dec_digits (nat val))"

definition hex_char :: "nat \<Rightarrow> byte" where
  "hex_char d = word_of_nat (if d < 10 then 48 + d else 87 + d)"

fun hex_digits :: "nat \<Rightarrow> byte list" where
  "hex_digits n = (if n < 16 then [hex_char n] else hex_digits (n div 16) @ [hex_char (n mod 16)])"

declare hex_digits.simps [simp del]

definition hexvalueOf :: "32 word \<Rightarrow> byte list" where
  "hexvalueOf val = hex_digits (unat val)"

definition valueOf_bool :: "bool \<Rightarrow> byte list" where
  "valueOf_bool val = (if val then [0x74, 0x72, 0x75, 0x65] else [0x66, 0x61, 0x6c, 0x73, 0x65])"

definition int64_ok :: "int \<Rightarrow> bool" where
  "int64_ok i \<longleftrightarrow> - (2 ^ 63) \<le> i \<and> i < 2 ^ 63"

definition chk64 :: "int \<Rightarrow> int res" where
  "chk64 i = (if int64_ok i then Inr i else Inl Undefined)"

text \<open>The loop of \<open>withCommas\<close> over the digits from the last to the first; \<open>out\<close> is reversed at the end.\<close>

fun comma_loop :: "byte list \<Rightarrow> nat \<Rightarrow> byte list \<Rightarrow> byte list" where
  "comma_loop [] i out = out"
| "comma_loop (d # src) i out = comma_loop src (Suc i) ((if i mod 3 = 0 \<and> i \<noteq> 0 then out @ [44] else out) @ [d])"

definition withCommas :: "int \<Rightarrow> byte list res" where
  "withCommas val = rbind (if val < 0 then chk64 (- val) else Inr val) (\<lambda>v.
     let out = comma_loop (rev (valueOf v)) 0 [] in Inr (rev (if val < 0 then out @ [45] else out)))"

definition withCommas_unsigned :: "nat \<Rightarrow> byte list" where
  "withCommas_unsigned val = rev (comma_loop (rev (valueOf (int val))) 0 [])"

subsection \<open>Reading\<close>

definition valueOf_char :: "byte \<Rightarrow> int res" where
  "valueOf_char ch = (let digit = sint ch - 48 in if digit < 0 \<or> digit > 9 then Inl NumberFormatException else Inr digit)"

text \<open>\<open>Integer::valueOf\<close> is \<open>atoi\<close>: blanks, a sign and digits; what follows is ignored, and overflow is undefined.\<close>

definition isspace :: "byte \<Rightarrow> bool" where
  "isspace c \<longleftrightarrow> c = 0x20 \<or> (0x09 \<le> c \<and> c \<le> 0x0D)"

definition isdigit :: "byte \<Rightarrow> bool" where
  "isdigit c \<longleftrightarrow> 48 \<le> c \<and> c \<le> 57"

fun digits_value :: "byte list \<Rightarrow> int \<Rightarrow> int" where
  "digits_value [] v = v"
| "digits_value (c # cs) v = (if isdigit c then digits_value cs (10 * v + (uint c - 48)) else v)"

definition atoi :: "byte list \<Rightarrow> int res" where
  "atoi s = (let t = dropWhile isspace (c_str s) in
     case t of [] \<Rightarrow> Inr 0
     | c # cs \<Rightarrow> chk32 (if c = 45 then - digits_value cs 0 else if c = 43 then digits_value cs 0 else digits_value t 0))"

text \<open>The loops run from the last byte to the first; the first argument is what they have not seen, last byte first.\<close>

fun long_loop :: "byte list \<Rightarrow> int \<Rightarrow> int \<Rightarrow> int res" where
  "long_loop [] val mul = Inr val"
| "long_loop (ch # rest) val mul = (if rest = [] \<and> ch = 45 then chk64 (- val)
     else rbind (valueOf_char ch) (\<lambda>digit. rbind (chk64 (digit * mul)) (\<lambda>x. rbind (chk64 (val + x)) (\<lambda>val'.
       rbind (chk64 (mul * 10)) (\<lambda>mul'. long_loop rest val' mul')))))"

definition Long_valueOf :: "byte list \<Rightarrow> int res" where
  "Long_valueOf str = long_loop (rev str) 0 1"

fun unsigned_loop :: "byte list \<Rightarrow> 'w::len word \<Rightarrow> 'w word \<Rightarrow> 'w word res" where
  "unsigned_loop [] val mul = Inr val"
| "unsigned_loop (ch # rest) val mul = rbind (valueOf_char ch) (\<lambda>digit. unsigned_loop rest (val + word_of_int digit * mul) (mul * 10))"

definition UnsignedLong_valueOf :: "byte list \<Rightarrow> 64 word res" where
  "UnsignedLong_valueOf str = unsigned_loop (rev str) 0 1"

definition UnsignedInteger_valueOf :: "byte list \<Rightarrow> 32 word res" where
  "UnsignedInteger_valueOf str = unsigned_loop (rev str) 0 1"

definition hex_digit :: "byte \<Rightarrow> int res" where
  "hex_digit c = (if 48 \<le> c \<and> c \<le> 57 then Inr (uint c - 48) else if 65 \<le> c \<and> c \<le> 70 then Inr (uint c - 65 + 10)
     else if 97 \<le> c \<and> c \<le> 102 then Inr (uint c - 97 + 10) else Inl NumberFormatException)"

fun hex_loop :: "byte list \<Rightarrow> 64 word \<Rightarrow> 64 word \<Rightarrow> 64 word res" where
  "hex_loop [] val mul = Inr val"
| "hex_loop (c # rest) val mul = rbind (hex_digit c) (\<lambda>digit. hex_loop rest (val + word_of_int digit * mul) (mul * 16))"

definition Integer_hexvalueOf :: "byte list \<Rightarrow> 32 word res" where
  "Integer_hexvalueOf str = rbind (hex_loop (rev str) 0 1) (\<lambda>v. Inr (ucast v))"

subsection \<open>Digits\<close>

lemma below_10: "(d::nat) < 10 \<Longrightarrow> d = 0 \<or> d = 1 \<or> d = 2 \<or> d = 3 \<or> d = 4 \<or> d = 5 \<or> d = 6 \<or> d = 7 \<or> d = 8 \<or> d = 9"
  by presburger

lemma digit_byte:
  assumes "d < 10"
  shows "uint (dec_char d) = 48 + int d" "valueOf_char (dec_char d) = Inr (int d)"
    "dec_char d \<noteq> 45" "dec_char d \<noteq> 43" "dec_char d \<noteq> 44" "dec_char d \<noteq> 0"
    "isdigit (dec_char d)" "\<not> isspace (dec_char d)"
  using below_10 [OF assms] by (elim disjE; simp add: dec_char_def isdigit_def isspace_def valueOf_char_def)+

lemma hex_byte:
  assumes "d < 16"
  shows "hex_digit (hex_char d) = Inr (int d)"
proof -
  have "d < 10 \<or> d = 10 \<or> d = 11 \<or> d = 12 \<or> d = 13 \<or> d = 14 \<or> d = 15" using assms by presburger
  then show ?thesis using below_10 [of d] by (elim disjE; force simp: hex_digit_def hex_char_def)
qed

lemma dec_digits_less: "n < 10 \<Longrightarrow> dec_digits n = [dec_char n]"
  by (simp add: dec_digits.simps)

lemma dec_digits_more: "10 \<le> n \<Longrightarrow> dec_digits n = dec_digits (n div 10) @ [dec_char (n mod 10)]"
  by (subst dec_digits.simps) simp

lemma dec_digits_all: "c \<in> set (dec_digits n) \<Longrightarrow> \<exists>d < 10. c = dec_char d"
proof (induction n rule: dec_digits.induct)
  case (1 n)
  then show ?case by (cases "n < 10") (auto simp: dec_digits_less dec_digits_more intro: exI [of _ "n mod 10"])
qed

lemma dec_digits_not_Nil [simp]: "dec_digits n \<noteq> []"
  by (cases "n < 10") (simp_all add: dec_digits_less dec_digits_more)

lemma digits_value_snoc:
  "\<forall>c \<in> set cs. isdigit c \<Longrightarrow> isdigit c \<Longrightarrow> digits_value (cs @ [c]) v = 10 * digits_value cs v + (uint c - 48)"
  by (induction cs arbitrary: v) simp_all

lemma digits_value_dec: "digits_value (dec_digits n) 0 = int n"
proof (induction n rule: dec_digits.induct)
  case (1 n)
  show ?case
  proof (cases "n < 10")
    case True
    then show ?thesis using digit_byte [OF True] by (simp add: dec_digits_less)
  next
    case False
    have "\<forall>c \<in> set (dec_digits (n div 10)). isdigit c" using dec_digits_all digit_byte(7) by blast
    moreover have "isdigit (dec_char (n mod 10))" "uint (dec_char (n mod 10)) = 48 + int (n mod 10)" using digit_byte [of "n mod 10"] by simp_all
    ultimately have "digits_value (dec_digits n) 0 = 10 * int (n div 10) + int (n mod 10)"
      using 1 False by (simp add: dec_digits_more digits_value_snoc)
    then show ?thesis by presburger
  qed
qed

lemma chk64_small: "0 \<le> x \<Longrightarrow> x \<le> 10 ^ 18 \<Longrightarrow> chk64 x = Inr x \<and> chk64 (- x) = Inr (- x)"
  by (simp add: chk64_def int64_ok_def)

lemma long_loop_digits:
  "j + length (dec_digits n) \<le> 18 \<Longrightarrow> 0 \<le> val \<Longrightarrow> val < 10 ^ j \<Longrightarrow> tail = [] \<or> tail = [45] \<Longrightarrow>
   long_loop (rev (dec_digits n) @ tail) val (10 ^ j) = Inr (if tail = [] then val + int n * 10 ^ j else - (val + int n * 10 ^ j))"
proof (induction n arbitrary: j val rule: dec_digits.induct)
  case (1 n)
  let ?d = "n mod 10"
  have p: "(10::int) ^ (j + 1) \<le> 10 ^ 18" using 1(2) dec_digits_not_Nil [of n] by (intro power_increasing) (cases "dec_digits n"; simp)+
  have d: "int ?d * 10 ^ j \<le> 9 * 10 ^ j" by (intro mult_right_mono) (auto simp: zmod_int [symmetric])
  have v: "val + int ?d * 10 ^ j < 10 ^ (j + 1)" using add_less_le_mono [OF 1(4) d] by simp
  have nn: "0 \<le> int ?d * (10 ^ j :: int)" by simp
  have c: "chk64 (int ?d * 10 ^ j) = Inr (int ?d * 10 ^ j)" "chk64 (val + int ?d * 10 ^ j) = Inr (val + int ?d * 10 ^ j)" "chk64 (10 ^ j * 10) = Inr (10 ^ (j + 1))"
    "chk64 (- (val + int ?d * 10 ^ j)) = Inr (- (val + int ?d * 10 ^ j))"
    using p v nn 1(3) chk64_small [of "int ?d * 10 ^ j"] chk64_small [of "val + int ?d * 10 ^ j"] chk64_small [of "10 ^ (j + 1)"]
    by (simp_all add: mult.commute)
  show ?case
  proof (cases "n < 10")
    case True
    then show ?thesis using 1(3-5) c digit_byte [OF True] by (auto simp: dec_digits_less)
  next
    case False
    have "rev (dec_digits n) @ tail = dec_char ?d # rev (dec_digits (n div 10)) @ tail" using False by (simp add: dec_digits_more)
    moreover have "j + 1 + length (dec_digits (n div 10)) \<le> 18" using 1(2) False by (simp add: dec_digits_more)
    moreover have "int (n div 10) * 10 + int ?d = int n" by presburger
    then have "(int (n div 10) * 10 + int ?d) * 10 ^ j = int n * 10 ^ j" by (rule arg_cong)
    then have "val + int n * 10 ^ j = val + int ?d * 10 ^ j + int (n div 10) * 10 ^ (j + 1)" by (simp add: algebra_simps)
    ultimately show ?thesis
      using 1(1) [OF False, of "j + 1" "val + int ?d * 10 ^ j"] 1(3,5) v nn c digit_byte [of ?d] by (simp add: c)
  qed
qed

lemma unsigned_loop_digits:
  "unsigned_loop (rev (dec_digits n)) val mul = Inr (val + word_of_nat n * mul :: 'w::len word)"
proof (induction n arbitrary: val mul rule: dec_digits.induct)
  case (1 n)
  let ?d = "n mod 10"
  show ?case
  proof (cases "n < 10")
    case True
    then show ?thesis using digit_byte [OF True] by (simp add: dec_digits_less)
  next
    case False
    have "(word_of_nat n :: 'w word) = word_of_nat ?d + word_of_nat (n div 10) * 10"
      by (subst div_mult_mod_eq [of n 10, symmetric]) (simp only: of_nat_add of_nat_mult of_nat_numeral add.commute)
    then show ?thesis using 1 [OF False] False digit_byte [of ?d] by (simp add: dec_digits_more algebra_simps)
  qed
qed

lemma hex_digits_less: "n < 16 \<Longrightarrow> hex_digits n = [hex_char n]"
  by (simp add: hex_digits.simps)

lemma hex_digits_more: "16 \<le> n \<Longrightarrow> hex_digits n = hex_digits (n div 16) @ [hex_char (n mod 16)]"
  by (subst hex_digits.simps) simp

lemma hex_loop_digits: "hex_loop (rev (hex_digits n)) val mul = Inr (val + word_of_nat n * mul)"
proof (induction n arbitrary: val mul rule: hex_digits.induct)
  case (1 n)
  let ?d = "n mod 16"
  show ?case
  proof (cases "n < 16")
    case True
    then show ?thesis using hex_byte [OF True] by (simp add: hex_digits_less)
  next
    case False
    have "(word_of_nat n :: 64 word) = word_of_nat ?d + word_of_nat (n div 16) * 16"
      by (subst div_mult_mod_eq [of n 16, symmetric]) (simp only: of_nat_add of_nat_mult of_nat_numeral add.commute)
    then show ?thesis using 1 [OF False] False hex_byte [of ?d] by (simp add: hex_digits_more algebra_simps)
  qed
qed

lemma length_dec_digits: "n < 10 ^ k \<Longrightarrow> 0 < k \<Longrightarrow> length (dec_digits n) \<le> k"
proof (induction k arbitrary: n)
  case 0
  then show ?case by simp
next
  case (Suc k)
  show ?case
  proof (cases "n < 10")
    case True
    then show ?thesis by (simp add: dec_digits_less)
  next
    case False
    then have "0 < k" using Suc.prems by (cases k) auto
    then show ?thesis using Suc False by (simp add: dec_digits_more less_mult_imp_div_less)
  qed
qed

subsection \<open>Grouping\<close>

fun digit_groups :: "byte list \<Rightarrow> byte list list" where
  "digit_groups [] = []"
| "digit_groups [a] = [[a]]"
| "digit_groups [a, b] = [[b, a]]"
| "digit_groups (a # b # c # ds) = digit_groups ds @ [[c, b, a]]"

text \<open>The groups of three of a number, given by its digits from the last to the first.\<close>

lemma groups_concat: "concat (digit_groups ds) = rev ds"
  by (induction ds rule: digit_groups.induct) simp_all

lemma groups_lengths:
  "ds \<noteq> [] \<Longrightarrow> \<exists>g gs. digit_groups ds = g # gs \<and> 1 \<le> length g \<and> length g \<le> 3 \<and> (\<forall>h \<in> set gs. length h = 3)"
proof (induction ds rule: digit_groups.induct)
  case (4 a b c ds)
  then show ?case by (cases "ds = []") auto
qed auto

definition joined :: "byte list list \<Rightarrow> byte list" where
  "joined gs = tl (concat (map (\<lambda>g. 44 # g) gs))"

lemma comma_loop_out: "comma_loop ds i out = out @ comma_loop ds i []"
proof (induction ds arbitrary: i out)
  case (Cons d ds)
  show ?case
    using Cons [of "Suc i" "out @ [44, d]"] Cons [of "Suc i" "[44, d]"] Cons [of "Suc i" "out @ [d]"] Cons [of "Suc i" "[d]"]
    by (cases "i mod 3 = 0 \<and> i \<noteq> 0") auto
qed simp

lemma comma_loop_tail: "i mod 3 = 0 \<Longrightarrow> 0 < i \<Longrightarrow> rev (comma_loop ds i []) = concat (map (\<lambda>g. g @ [44]) (digit_groups ds))"
proof (induction ds arbitrary: i rule: digit_groups.induct)
  case (2 a)
  then show ?case by simp
next
  case (3 a b)
  then have "Suc i mod 3 \<noteq> 0" by presburger
  then show ?case using 3 by simp
next
  case (4 a b c ds)
  then have m: "Suc i mod 3 \<noteq> 0" "Suc (Suc i) mod 3 \<noteq> 0" "Suc (Suc (Suc i)) mod 3 = 0" by presburger+
  have "comma_loop (a # b # c # ds) i [] = [44, a, b, c] @ comma_loop ds (Suc (Suc (Suc i))) []"
    using 4(2,3) m by (simp add: comma_loop_out [of ds _ "[44, a, b, c]"])
  then show ?case using 4(1) [of "Suc (Suc (Suc i))"] m by simp
qed simp

lemma comma_loop_groups: "ds \<noteq> [] \<Longrightarrow> rev (comma_loop ds 0 []) = joined (digit_groups ds)"
proof (induction ds rule: digit_groups.induct)
  case (4 a b c ds)
  have e: "comma_loop (a # b # c # ds) 0 [] = [a, b, c] @ comma_loop ds 3 []"
    by (simp add: comma_loop_out [of ds 3 "[a, b, c]"] flip: numeral_3_eq_3)
  have "joined (gs @ [h]) = concat (map (\<lambda>g. g @ [44]) gs) @ h" for gs and h :: "byte list"
  proof (induction gs)
    case (Cons g gs)
    then show ?case by (cases gs) (simp_all add: joined_def)
  qed (simp add: joined_def)
  then show ?case using comma_loop_tail [of 3 ds] unfolding e by simp
qed (simp_all add: joined_def)

subsection \<open>Properties\<close>

lemma integer_roundtrip: "int32_ok i \<Longrightarrow> atoi (valueOf i) = Inr i"
proof -
  assume i: "int32_ok i"
  have "\<forall>c \<in> set (dec_digits n). c \<noteq> 0 \<and> \<not> isspace c" for n using digit_byte(6,8) by (auto dest!: dec_digits_all)
  then have c: "c_str (dec_digits n) = dec_digits n" "dropWhile isspace (dec_digits n) = dec_digits n" for n
    by (simp_all add: c_str_def takeWhile_eq_all_conv dropWhile_eq_self_iff)
  show ?thesis
  proof (cases "i < 0")
    case True
    then show ?thesis using i digits_value_dec [of "nat (- i)"] by (simp add: atoi_def Let_def valueOf_def c isspace_def)
  next
    case False
    obtain x xs where x: "dec_digits (nat i) = x # xs" by (cases "dec_digits (nat i)") auto
    then have "\<exists>d < 10. x = dec_char d" using dec_digits_all [of x "nat i"] by simp
    then have "x \<noteq> 45" "x \<noteq> 43" using digit_byte(3,4) by auto
    then show ?thesis using False i digits_value_dec [of "nat i"] c [of "nat i"] x by (simp add: atoi_def Let_def valueOf_def)
  qed
qed

lemma long_roundtrip: "\<bar>i\<bar> < 10 ^ 18 \<Longrightarrow> Long_valueOf (valueOf i) = Inr i"
proof -
  assume i: "\<bar>i\<bar> < 10 ^ 18"
  then have "nat \<bar>i\<bar> < 10 ^ 18" by (simp add: nat_less_iff)
  then have l: "length (dec_digits (nat \<bar>i\<bar>)) \<le> 18" by (intro length_dec_digits) simp_all
  show ?thesis
    using long_loop_digits [of 0 "nat \<bar>i\<bar>" 0 "if i < 0 then [45] else []"] l by (auto simp: Long_valueOf_def valueOf_def)
qed

lemma unsigned_roundtrip: "UnsignedLong_valueOf (valueOf (uint w)) = Inr w" "UnsignedInteger_valueOf (valueOf (uint v)) = Inr v"
  by (simp_all add: UnsignedLong_valueOf_def UnsignedInteger_valueOf_def valueOf_def unsigned_loop_digits not_less)

lemma hex_roundtrip: "Integer_hexvalueOf (hexvalueOf v) = Inr v"
proof -
  have "(ucast (ucast v :: 64 word) :: 32 word) = v" by (rule bit_word_eqI) (simp add: bit_simps)
  then show ?thesis by (simp add: Integer_hexvalueOf_def hexvalueOf_def hex_loop_digits)
qed

text \<open>
  \<open>Long::valueOf\<close> computes the weight of the next digit even after the last one: for 19 digits it leaves
  the range of \<open>int64\<close>, so the largest values cannot be read back without undefined behaviour.
\<close>

lemma long_max_undefined: "Long_valueOf (valueOf (2 ^ 63 - 1)) = Inl Undefined"
  by (simp add: valueOf_def dec_digits.simps dec_char_def Long_valueOf_def valueOf_char_def chk64_def int64_ok_def)

text \<open>
  Numbers survive printing and reading: 32-bit signed through \<open>atoi\<close>, 64-bit signed below \<open>10 ^ 18\<close>, all
  unsigned ones, and 32-bit hexadecimal ones. \<open>withCommas\<close> prints the same digits in groups of three, the
  first of one to three, for every value but the least \<open>int64\<close>, whose negation overflows.
\<close>

lemma number_strings:
  shows "(int32_ok i \<longrightarrow> atoi (valueOf i) = Inr i) \<and> (\<bar>j\<bar> < 10 ^ 18 \<longrightarrow> Long_valueOf (valueOf j) = Inr j) \<and>
    UnsignedLong_valueOf (valueOf (uint w)) = Inr w \<and> UnsignedInteger_valueOf (valueOf (uint v)) = Inr v \<and>
    Integer_hexvalueOf (hexvalueOf v) = Inr v \<and>
    (int64_ok k \<and> k \<noteq> - (2 ^ 63) \<longrightarrow> (\<exists>g gs. withCommas k = Inr ((if k < 0 then [45] else []) @ joined (g # gs)) \<and>
       concat (g # gs) = dec_digits (nat \<bar>k\<bar>) \<and> 1 \<le> length g \<and> length g \<le> 3 \<and> (\<forall>h \<in> set gs. length h = 3))) \<and>
    withCommas (- (2 ^ 63)) = Inl Undefined"
proof -
  have "\<exists>g gs. withCommas k = Inr ((if k < 0 then [45] else []) @ joined (g # gs)) \<and> concat (g # gs) = dec_digits (nat \<bar>k\<bar>) \<and>
      1 \<le> length g \<and> length g \<le> 3 \<and> (\<forall>h \<in> set gs. length h = 3)" if k: "int64_ok k" "k \<noteq> - (2 ^ 63)"
  proof -
    let ?ds = "rev (dec_digits (nat \<bar>k\<bar>))"
    obtain g gs where g: "digit_groups ?ds = g # gs" "1 \<le> length g" "length g \<le> 3" "\<forall>h \<in> set gs. length h = 3"
      using groups_lengths [of ?ds] by auto
    have "concat (g # gs) = dec_digits (nat \<bar>k\<bar>)" using groups_concat [of ?ds] g(1) by simp
    moreover have "rev (comma_loop ?ds 0 []) = joined (g # gs)" using comma_loop_groups [of ?ds] g(1) by simp
    then have "withCommas k = Inr ((if k < 0 then [45] else []) @ joined (g # gs))"
      using k by (auto simp: withCommas_def valueOf_def Let_def chk64_def int64_ok_def)
    ultimately show ?thesis using g by blast
  qed
  moreover have "withCommas (- (2 ^ 63)) = Inl Undefined" by (simp add: withCommas_def chk64_def int64_ok_def)
  ultimately show ?thesis using integer_roundtrip [of i] long_roundtrip [of j] unsigned_roundtrip hex_roundtrip by blast
qed

lemma number_strings_witness:
  "atoi (valueOf (-42)) = Inr (-42) \<and> Long_valueOf (valueOf 123456789012) = Inr 123456789012 \<and>
   (\<exists>g gs. withCommas (-1234567) = Inr (45 # joined (g # gs)) \<and> concat (g # gs) = dec_digits 1234567)"
  using number_strings [of "-42" 123456789012 0 0 "-1234567"] by (auto simp: int32_ok_def int64_ok_def)

end
