(* ===== verification/StringBuffers.thy ===== *)
theory StringBuffers
  imports NumberStrings ArrayList
begin

text \<open>
  \<^verbatim>\<open>system/lang/StringBuffer.cpp\<close>: a growable buffer of characters, an \<open>ArrayList<char>\<close> (theory \<open>ArrayList\<close>) with formatting
  flags; and the methods of \<^verbatim>\<open>String.cpp\<close> that work through one: \<open>escapeString\<close>, \<open>toString\<close>, \<open>parseFromString\<close> and \<open>replaceAll\<close>.
  Regular expressions are the standard library's: \<open>regex_search\<close> is an argument that gives the start and the
  length of the first match.
\<close>

subsection \<open>The buffer\<close>

record string_buffer =
  sb_data :: "byte array_list"
  streamFlags :: "32 word"

definition SF_hex :: "32 word" where "SF_hex = 0x02"
definition SF_uppercase :: "32 word" where "SF_uppercase = 0x04"
definition SF_commas :: "32 word" where "SF_commas = 0x40"

definition char_traits :: al_traits where
  "char_traits = \<lparr>rawCopyAndRealloc = False, triviallyCopyable = True, needConstructor = False\<rparr>"

definition sb_new :: string_buffer where
  "sb_new = \<lparr>sb_data = al_new, streamFlags = 0\<rparr>"

definition sb_flag :: "32 word \<Rightarrow> string_buffer \<Rightarrow> bool" where
  "sb_flag f b \<longleftrightarrow> streamFlags b AND f \<noteq> 0"

definition sb_append_char :: "byte \<Rightarrow> string_buffer \<Rightarrow> string_buffer res" where
  "sb_append_char ch b = rbind (al_add char_traits (if sb_flag SF_uppercase b then toupper ch else ch) (sb_data b)) (\<lambda>a. Inr (b\<lparr>sb_data := a\<rparr>))"

fun sb_append :: "byte list \<Rightarrow> string_buffer \<Rightarrow> string_buffer res" where
  "sb_append [] b = Inr b"
| "sb_append (ch # str) b = rbind (sb_append_char ch b) (sb_append str)"

definition sb_new_from :: "byte list \<Rightarrow> string_buffer res" where
  "sb_new_from str = sb_append str \<lparr>sb_data = al_new_size (int (length str)) 0, streamFlags = 0\<rparr>"

definition sb_append_int :: "int \<Rightarrow> string_buffer \<Rightarrow> string_buffer res" where
  "sb_append_int val b = rbind (if sb_flag SF_commas b then withCommas val else if \<not> sb_flag SF_hex b then Inr (valueOf val)
     else Inr (hexvalueOf (word_of_int val))) (\<lambda>str. sb_append str b)"

definition sb_deleteRange :: "int \<Rightarrow> int \<Rightarrow> string_buffer \<Rightarrow> string_buffer res" where
  "sb_deleteRange start end b = rbind (al_removeRange char_traits start end (sb_data b)) (\<lambda>a. Inr (b\<lparr>sb_data := a\<rparr>))"

definition sb_deleteAll :: "string_buffer \<Rightarrow> string_buffer res" where
  "sb_deleteAll b = rbind (al_removeAll char_traits 10 5 (sb_data b)) (\<lambda>a. Inr (b\<lparr>sb_data := a\<rparr>))"

definition sb_insert_char :: "int \<Rightarrow> byte \<Rightarrow> string_buffer \<Rightarrow> string_buffer res" where
  "sb_insert_char offset ch b = rbind (al_add_at char_traits offset (if sb_flag SF_uppercase b then toupper ch else ch) (sb_data b)) (\<lambda>a. Inr (b\<lparr>sb_data := a\<rparr>))"

fun sb_insert :: "int \<Rightarrow> byte list \<Rightarrow> string_buffer \<Rightarrow> string_buffer res" where
  "sb_insert offset [] b = Inr b"
| "sb_insert offset (ch # str) b = rbind (sb_insert_char offset ch b) (sb_insert (offset + 1) str)"

definition sb_replace :: "int \<Rightarrow> int \<Rightarrow> byte list \<Rightarrow> string_buffer \<Rightarrow> string_buffer res" where
  "sb_replace start end str b = rbind (sb_deleteRange start end b) (sb_insert start str)"

text \<open>The bytes from \<open>elementData\<close>; reading one that was never written is undefined.\<close>

fun sb_bytes :: "byte option list \<Rightarrow> byte list res" where
  "sb_bytes [] = Inr []"
| "sb_bytes (c # cs) = (case c of None \<Rightarrow> Inl Undefined | Some x \<Rightarrow> rbind (sb_bytes cs) (\<lambda>xs. Inr (x # xs)))"

definition sb_toString :: "string_buffer \<Rightarrow> byte list res" where
  "sb_toString b = (if elementData (sb_data b) = [] then Inr [] else sb_bytes (take (nat (elementCount (sb_data b))) (elementData (sb_data b))))"

definition sb_equal :: "string_buffer \<Rightarrow> byte list \<Rightarrow> bool res" where
  "sb_equal b str = (if int (length str) \<noteq> elementCount (sb_data b) then Inr False else if length str = 0 then Inr True
     else rbind (sb_toString b) (\<lambda>s. Inr (s = str)))"

text \<open>\<open>operator<<\<close> of a flag; \<open>endl\<close> appends a line feed.\<close>

definition sb_set_flag :: "32 word \<Rightarrow> string_buffer \<Rightarrow> string_buffer res" where
  "sb_set_flag flags b = (if flags = 0x01 then Inr (b\<lparr>streamFlags := streamFlags b AND NOT SF_hex\<rparr>)
     else if flags = 0x10 then Inr (b\<lparr>streamFlags := streamFlags b AND NOT SF_uppercase\<rparr>)
     else if flags = 0x08 then sb_append_char 0x0A b
     else Inr (b\<lparr>streamFlags := streamFlags b OR flags\<rparr>))"

subsection \<open>Text as a literal\<close>

definition escape_char :: "byte \<Rightarrow> byte list" where
  "escape_char ch = (if ch = 0 then [0x5C, 0x30] else if ch = 0x0A then [0x5C, 0x6E] else if ch = 0x0D then [0x5C, 0x72]
     else if ch = 0x5C then [0x5C, 0x5C] else if ch = 0x22 then [0x5C, 0x22] else if ch = 0x27 then [0x5C, 0x27] else [ch])"

fun escape_loop :: "byte list \<Rightarrow> string_buffer \<Rightarrow> string_buffer res" where
  "escape_loop [] buf = Inr buf"
| "escape_loop (ch # s) buf = rbind (sb_append (escape_char ch) buf) (escape_loop s)"

definition escapeString :: "byte list \<Rightarrow> byte list res" where
  "escapeString s = (if s = [] then Inr [] else rbind (escape_loop s sb_new) sb_toString)"

definition str_toString :: "byte list \<Rightarrow> byte list res" where
  "str_toString s = rbind (sb_append_char 0x22 sb_new) (\<lambda>b. rbind (escapeString s) (\<lambda>e. rbind (sb_append e b) (\<lambda>b. rbind (sb_append_char 0x22 b) sb_toString)))"

fun unescape_loop :: "byte list \<Rightarrow> bool \<Rightarrow> string_buffer \<Rightarrow> string_buffer res" where
  "unescape_loop [] skip buf = Inr buf"
| "unescape_loop (ch # s) skip buf = (if skip then rbind (sb_append_char ch buf) (unescape_loop s False)
     else if ch = 0x5C then unescape_loop s True buf
     else rbind (sb_append_char ch buf) (unescape_loop s False))"

text \<open>\<open>None\<close> when the method returns false: the receiver is unchanged.\<close>

definition str_parseFromString :: "byte list \<Rightarrow> byte list option res" where
  "str_parseFromString str = (if length str < 2 then Inr None
     else rbind (unescape_loop (take (length str - 2) (drop 1 str)) False sb_new) (\<lambda>b. rbind (sb_toString b) (\<lambda>s. Inr (Some s))))"

subsection \<open>Replacing\<close>

type_synonym regex = "byte list \<Rightarrow> byte list \<Rightarrow> (nat \<times> nat) option"

definition sb_regexIndexOf :: "regex \<Rightarrow> byte list \<Rightarrow> int \<Rightarrow> string_buffer \<Rightarrow> (int \<times> int) option res" where
  "sb_regexIndexOf regex_search r fromIndex b = (if fromIndex < 0 \<or> fromIndex \<ge> elementCount (sb_data b) then Inl (ArrayIndexOutOfBoundsException fromIndex)
     else rbind (sb_toString b) (\<lambda>s. Inr (map_option (\<lambda>(st, n). (int st, int st + int n)) (regex_search r (drop (nat fromIndex) s)))))"

partial_function (option) replaceAll_loop :: "regex \<Rightarrow> byte list \<Rightarrow> byte list \<Rightarrow> string_buffer \<Rightarrow> string_buffer res option" where
  "replaceAll_loop regex_search r replacement str = (case sb_regexIndexOf regex_search r 0 str of
     Inl e \<Rightarrow> Some (Inl e)
   | Inr None \<Rightarrow> Some (Inr str)
   | Inr (Some (st, en)) \<Rightarrow> (case rbind (sb_replace st en replacement str) (\<lambda>str'. rbind (sb_equal str' replacement) (\<lambda>q. Inr (str', q))) of
       Inl e \<Rightarrow> Some (Inl e)
     | Inr (str', q) \<Rightarrow> if q then Some (Inr str') else replaceAll_loop regex_search r replacement str'))"

definition replaceAll :: "regex \<Rightarrow> byte list \<Rightarrow> byte list \<Rightarrow> byte list \<Rightarrow> byte list res option" where
  "replaceAll regex_search s r replacement = (case sb_new_from s of Inl e \<Rightarrow> Some (Inl e)
     | Inr b \<Rightarrow> map_option (\<lambda>x. rbind x sb_toString) (replaceAll_loop regex_search r replacement b))"

subsection \<open>The buffer holds what was put into it\<close>

definition sb_rep :: "string_buffer \<Rightarrow> byte list \<Rightarrow> bool" where
  "sb_rep b s \<longleftrightarrow> al_wf (sb_data b) s \<and> streamFlags b = 0"

lemma no_flag: "streamFlags b = 0 \<Longrightarrow> \<not> sb_flag f b"
  by (simp add: sb_flag_def)

lemma sb_new_rep: "sb_rep sb_new []"
  by (simp add: sb_rep_def sb_new_def al_wf_def al_new_rep) (simp add: al_growable_def al_new_def)

lemma sb_count: "sb_rep b s \<Longrightarrow> elementCount (sb_data b) = int (length s)"
  by (simp add: sb_rep_def al_wf_def al_rep_def)

lemma sb_append_char_ok: "sb_rep b s \<Longrightarrow> length s < 2 ^ 28 \<Longrightarrow> \<exists>b'. sb_append_char ch b = Inr b' \<and> sb_rep b' (s @ [ch])"
  using al_add_wf [of "sb_data b" s char_traits ch] by (auto simp: sb_append_char_def sb_rep_def no_flag)

lemma sb_append_ok: "sb_rep b s \<Longrightarrow> length s + length str \<le> 2 ^ 28 \<Longrightarrow> \<exists>b'. sb_append str b = Inr b' \<and> sb_rep b' (s @ str)"
proof (induction str arbitrary: b s)
  case (Cons ch str)
  obtain b1 where b1: "sb_append_char ch b = Inr b1" "sb_rep b1 (s @ [ch])" using sb_append_char_ok [OF Cons.prems(1)] Cons.prems(2) by auto
  show ?case using Cons.IH [OF b1(2)] Cons.prems(2) b1(1) by simp
qed simp

lemma sb_bytes_ok: "sb_bytes (map Some s) = Inr s"
  by (induction s) simp_all

lemma sb_toString_ok: "sb_rep b s \<Longrightarrow> sb_toString b = Inr s"
  by (auto simp: sb_toString_def sb_rep_def al_wf_def al_rep_def sb_bytes_ok)

lemma sb_new_from_ok: "length s < 2 ^ 28 \<Longrightarrow> \<exists>b. sb_new_from s = Inr b \<and> sb_rep b s"
proof -
  assume l: "length s < 2 ^ 28"
  have "sb_rep \<lparr>sb_data = al_new_size (int (length s)) 0, streamFlags = 0\<rparr> []"
    using l by (simp add: sb_rep_def al_wf_def al_new_size_def al_rep_def al_growable_def)
  from sb_append_ok [OF this, of s] l show ?thesis by (simp add: sb_new_from_def)
qed

lemma sb_insert_ok: "sb_rep b s \<Longrightarrow> k \<le> length s \<Longrightarrow> length s + length str \<le> 2 ^ 28 \<Longrightarrow>
   \<exists>b'. sb_insert (int k) str b = Inr b' \<and> sb_rep b' (take k s @ str @ drop k s)"
proof (induction str arbitrary: b s k)
  case (Cons ch str)
  let ?s = "take k s @ ch # drop k s"
  have "length s < 2 ^ 28" using Cons.prems(3) by simp
  then have "\<exists>a'. al_add_at char_traits (int k) ch (sb_data b) = Inr a' \<and> al_wf a' (insert_at k ch s)"
    using al_wf_add_at [of "sb_data b" s "int k" char_traits ch] Cons.prems(1,2) by (simp add: sb_rep_def)
  then obtain b1 where b1: "sb_insert_char (int k) ch b = Inr b1" "sb_rep b1 ?s"
    using Cons.prems(1) by (auto simp: sb_insert_char_def sb_rep_def no_flag insert_at_def)
  have "take (Suc k) ?s = take k s @ [ch]" "drop (Suc k) ?s = drop k s" using Cons.prems(2) by simp_all
  then show ?case using Cons.IH [OF b1(2), of "Suc k"] b1(1) Cons.prems by (simp add: add.commute)
qed simp

lemma sb_replace_ok:
  assumes "sb_rep b s" "i \<le> j" "j \<le> length s" "length s + length str \<le> 2 ^ 28"
  shows "\<exists>b'. sb_replace (int i) (int j) str b = Inr b' \<and> sb_rep b' (take i s @ str @ drop j s)"
proof -
  let ?s = "take i s @ drop j s"
  have "\<exists>a'. al_removeRange char_traits (int i) (int j) (sb_data b) = Inr a' \<and> al_wf a' ?s"
    using removeRange_correct [of "sb_data b" s "int i" "int j" char_traits] assms by (simp add: sb_rep_def char_traits_def)
  then obtain b1 where b1: "sb_deleteRange (int i) (int j) b = Inr b1" "sb_rep b1 ?s"
    using assms(1) by (auto simp: sb_deleteRange_def sb_rep_def)
  have "take i ?s = take i s" "drop i ?s = drop j s" "length ?s + length str \<le> 2 ^ 28" using assms(2-4) by auto
  then show ?thesis using sb_insert_ok [OF b1(2), of i str] b1(1) assms(2,3) by (simp add: sb_replace_def)
qed

lemma sb_equal_ok: "sb_rep b s \<Longrightarrow> sb_equal b str = Inr (s = str)"
  by (auto simp: sb_equal_def sb_count sb_toString_ok)

subsection \<open>Literals\<close>

definition escaped :: "byte list \<Rightarrow> byte list" where
  "escaped s = concat (map escape_char s)"

text \<open>What reading back makes of a character.\<close>

definition unescaped :: "byte \<Rightarrow> byte" where
  "unescaped ch = (if ch = 0 then 0x30 else if ch = 0x0A then 0x6E else if ch = 0x0D then 0x72 else ch)"

lemma escape_char_length: "length (escape_char ch) \<le> 2"
  by (simp add: escape_char_def)

lemma escaped_length: "length (escaped s) \<le> 2 * length s"
proof (induction s)
  case (Cons ch s)
  then show ?case using escape_char_length [of ch] by (simp add: escaped_def)
qed (simp add: escaped_def)

lemma escape_loop_ok: "sb_rep b t \<Longrightarrow> length t + 2 * length s \<le> 2 ^ 28 \<Longrightarrow> \<exists>b'. escape_loop s b = Inr b' \<and> sb_rep b' (t @ escaped s)"
proof (induction s arbitrary: b t)
  case (Cons ch s)
  obtain b1 where b1: "sb_append (escape_char ch) b = Inr b1" "sb_rep b1 (t @ escape_char ch)"
    using sb_append_ok [OF Cons.prems(1), of "escape_char ch"] escape_char_length [of ch] Cons.prems(2) by auto
  show ?case using Cons.IH [OF b1(2)] escape_char_length [of ch] Cons.prems(2) b1(1) by (simp add: escaped_def)
qed (simp add: escaped_def)

lemma escapeString_ok: "length s \<le> 2 ^ 27 \<Longrightarrow> escapeString s = Inr (escaped s)"
  using escape_loop_ok [OF sb_new_rep, of s] sb_toString_ok by (fastforce simp: escapeString_def escaped_def)

lemma str_toString_ok:
  assumes "length s < 2 ^ 27"
  shows "str_toString s = Inr (0x22 # escaped s @ [0x22])"
proof -
  have e: "escapeString s = Inr (escaped s)" "length (escaped s) < 2 ^ 28 - 1" using escapeString_ok escaped_length [of s] assms by simp_all
  obtain b1 where b1: "sb_append_char 0x22 sb_new = Inr b1" "sb_rep b1 [0x22]" using sb_append_char_ok [OF sb_new_rep] by auto
  obtain b2 where b2: "sb_append (escaped s) b1 = Inr b2" "sb_rep b2 ([0x22] @ escaped s)" using sb_append_ok [OF b1(2), of "escaped s"] e(2) by auto
  obtain b3 where "sb_append_char 0x22 b2 = Inr b3" "sb_rep b3 (([0x22] @ escaped s) @ [0x22])" using sb_append_char_ok [OF b2(2)] e(2) by auto
  then show ?thesis using e b1 b2 sb_toString_ok by (simp add: str_toString_def)
qed

lemma unescape_escaped: "sb_rep b t \<Longrightarrow> length t + length s \<le> 2 ^ 28 \<Longrightarrow>
   \<exists>b'. unescape_loop (escaped s) False b = Inr b' \<and> sb_rep b' (t @ map unescaped s)"
proof (induction s arbitrary: b t)
  case (Cons ch s)
  obtain b1 where b1: "sb_append_char (unescaped ch) b = Inr b1" "sb_rep b1 (t @ [unescaped ch])"
    using sb_append_char_ok [OF Cons.prems(1)] Cons.prems(2) by fastforce
  have "unescape_loop (escape_char ch @ r) False b = rbind (sb_append_char (unescaped ch) b) (unescape_loop r False)" for r
    by (simp add: escape_char_def unescaped_def)
  then show ?case using Cons.IH [OF b1(2)] Cons.prems(2) b1(1) by (simp add: escaped_def)
qed (simp add: escaped_def)

text \<open>
  C38. Writing a string as a literal and reading it back: \<open>toString\<close> always succeeds with the escaped text in quotes, and
  \<open>parseFromString\<close> of it gives the string back except that line feeds, carriage returns and zeros come back as
  the letters \<open>n\<close>, \<open>r\<close> and the digit \<open>0\<close>: the reader drops the backslash and keeps what follows. The round trip is
  exact for the strings without these three characters and for no other.
\<close>

theorem string_literals:
  assumes "length s < 2 ^ 27"
  shows "\<exists>t. str_toString s = Inr t \<and> t = 0x22 # escaped s @ [0x22] \<and> str_parseFromString t = Inr (Some (map unescaped s)) \<and>
    (map unescaped s = s \<longleftrightarrow> set s \<inter> {0, 0x0A, 0x0D} = {})"
proof -
  let ?t = "0x22 # escaped s @ [0x22]"
  obtain b where "unescape_loop (escaped s) False sb_new = Inr b" "sb_rep b (map unescaped s)"
    using unescape_escaped [OF sb_new_rep, of s] assms by auto
  then have "str_parseFromString ?t = Inr (Some (map unescaped s))" using sb_toString_ok by (simp add: str_parseFromString_def)
  moreover have "map unescaped s = s \<longleftrightarrow> (\<forall>c \<in> set s. unescaped c = c)" by (simp add: map_idI list_eq_iff_nth_eq all_set_conv_all_nth)
  moreover have "unescaped c = c \<longleftrightarrow> c \<notin> {0, 0x0A, 0x0D}" for c by (auto simp: unescaped_def)
  ultimately show ?thesis using str_toString_ok [OF assms] by auto
qed

theorem string_literals_witness:
  "\<exists>t. str_toString [0x61, 0x22, 0x5C] = Inr t \<and> str_parseFromString t = Inr (Some [0x61, 0x22, 0x5C])"
  using string_literals [of "[0x61, 0x22, 0x5C]"] by (auto simp: unescaped_def)

subsection \<open>Replacing a character\<close>

text \<open>A search for a pattern that is a single ordinary character.\<close>

definition literal_search :: "regex \<Rightarrow> byte \<Rightarrow> bool" where
  "literal_search regex_search c \<longleftrightarrow> (\<forall>s. regex_search [c] s = (if c \<in> set s then Some (length (takeWhile (\<lambda>x. x \<noteq> c) s), 1) else None))"

lemma first_match:
  assumes rx: "literal_search rx c" and b: "sb_rep b s" and c: "c \<in> set s"
  shows "\<exists>u v. s = u @ c # v \<and> c \<notin> set u \<and> sb_regexIndexOf rx [c] 0 b = Inr (Some (int (length u), int (Suc (length u))))"
proof -
  obtain u v where s: "s = u @ c # v" and u: "c \<notin> set u" using c by (meson split_list_first)
  have "takeWhile (\<lambda>x. x \<noteq> c) u = u" using u by (auto simp: takeWhile_eq_all_conv)
  then have tw: "takeWhile (\<lambda>x. x \<noteq> c) s = u" using u by (simp add: s takeWhile_append)
  then have "sb_regexIndexOf rx [c] 0 b = Inr (Some (int (length u), int (Suc (length u))))"
    using rx c sb_count [OF b] sb_toString_ok [OF b] by (auto simp: sb_regexIndexOf_def literal_search_def)
  then show ?thesis using s u by blast
qed

text \<open>One pass of the loop.\<close>

lemma replace_pass:
  assumes rx: "literal_search rx c" and b: "sb_rep b s" and l: "length s + length t \<le> 2 ^ 28" and c: "c \<in> set s"
  shows "\<exists>b' u v. s = u @ c # v \<and> c \<notin> set u \<and> sb_rep b' (u @ t @ v) \<and>
    replaceAll_loop rx [c] t b = (if u @ t @ v = t then Some (Inr b') else replaceAll_loop rx [c] t b')"
proof -
  obtain u v where s: "s = u @ c # v" and u: "c \<notin> set u"
    and m: "sb_regexIndexOf rx [c] 0 b = Inr (Some (int (length u), int (Suc (length u))))" using first_match [OF rx b c] by blast
  obtain b' where b': "sb_replace (int (length u)) (int (Suc (length u))) t b = Inr b'" "sb_rep b' (u @ t @ v)"
    using sb_replace_ok [OF b, of "length u" "Suc (length u)" t] l by (auto simp: s)
  have "replaceAll_loop rx [c] t b = (if u @ t @ v = t then Some (Inr b') else replaceAll_loop rx [c] t b')"
    using m b'(1) sb_equal_ok [OF b'(2), of t] by (subst replaceAll_loop.simps) simp
  then show ?thesis using s u b'(2) by blast
qed

definition replaced :: "byte \<Rightarrow> byte list \<Rightarrow> byte list \<Rightarrow> byte list" where
  "replaced c t s = concat (map (\<lambda>x. if x = c then t else [x]) s)"

lemma replaced_simps [simp]:
  "replaced c t [] = []" "replaced c t (u @ v) = replaced c t u @ replaced c t v" "replaced c t (x # xs) = (if x = c then t else [x]) @ replaced c t xs"
  by (simp_all add: replaced_def)

lemma replaced_none: "c \<notin> set u \<Longrightarrow> replaced c t u = u"
  by (induction u) auto

lemma replaceAll_loop_ok:
  assumes rx: "literal_search rx c" and t: "c \<notin> set t"
  shows "sb_rep b s \<Longrightarrow> s \<noteq> [] \<Longrightarrow> length s + count_list s c * length t + length t \<le> 2 ^ 28 \<Longrightarrow>
    \<exists>b'. replaceAll_loop rx [c] t b = Some (Inr b') \<and> sb_rep b' (replaced c t s)"
proof (induction "count_list s c" arbitrary: s b)
  case 0
  then have c: "c \<notin> set s" by (metis count_list_0_iff)
  then have "sb_regexIndexOf rx [c] 0 b = Inr None"
    using rx 0(3) sb_count [OF 0(2)] sb_toString_ok [OF 0(2)] by (simp add: sb_regexIndexOf_def literal_search_def)
  then show ?case using 0(2) c by (subst replaceAll_loop.simps) (simp add: replaced_none)
next
  case (Suc n)
  then have c: "c \<in> set s" using count_list_0_iff [of s c] by simp
  obtain b' u v where p: "s = u @ c # v" "c \<notin> set u" "sb_rep b' (u @ t @ v)"
    "replaceAll_loop rx [c] t b = (if u @ t @ v = t then Some (Inr b') else replaceAll_loop rx [c] t b')"
    using replace_pass [OF rx Suc.prems(1) _ c, of t] Suc.prems(3) by auto
  have r: "replaced c t (u @ t @ v) = replaced c t s" using p(1) t by (simp add: replaced_none)
  have n: "count_list (u @ t @ v) c = n" using Suc.hyps(2) p(1) t by simp
  show ?case
  proof (cases "u @ t @ v = t")
    case True
    then have "length (u @ t @ v) = length t" by simp
    then have "u = []" "v = []" by simp_all
    then have "replaced c t s = t" using p(1) by simp
    then show ?thesis using p(3,4) True by auto
  next
    case False
    have ne: "u @ t @ v \<noteq> []" using False by (cases "t = []") auto
    have "length (u @ t @ v) + n * length t + length t \<le> 2 ^ 28"
      using Suc.prems(3) p(1) unfolding Suc.hyps(2) [symmetric] by simp
    then show ?thesis using Suc.hyps(1) [of "u @ t @ v" b'] n p(3,4) False r ne by auto
  qed
qed

text \<open>
  A replacement that has the character itself: the loop goes on with a buffer that has it too and is
  longer by all but one of the replacement's characters.
\<close>

lemma replaceAll_loop_grows:
  assumes rx: "literal_search rx c" and t: "c \<in> set t"
  shows "sb_rep b s \<Longrightarrow> c \<in> set s \<Longrightarrow> 2 \<le> length s \<Longrightarrow> length s + n * (length t - 1) + length t \<le> 2 ^ 28 \<Longrightarrow>
    \<exists>b' s'. replaceAll_loop rx [c] t b = replaceAll_loop rx [c] t b' \<and> sb_rep b' s' \<and> c \<in> set s' \<and> length s' = length s + n * (length t - 1)"
proof (induction n arbitrary: b s)
  case 0
  then show ?case by auto
next
  case (Suc n)
  obtain b' u v where p: "s = u @ c # v" "sb_rep b' (u @ t @ v)"
    "replaceAll_loop rx [c] t b = (if u @ t @ v = t then Some (Inr b') else replaceAll_loop rx [c] t b')"
    using replace_pass [OF rx Suc.prems(1) _ Suc.prems(2), of t] Suc.prems(4) by auto
  have "1 \<le> length t" using t by (cases t) auto
  then have l: "length (u @ t @ v) = length s + (length t - 1)" using p(1) by simp
  then have "length t < length (u @ t @ v)" using Suc.prems(3) \<open>1 \<le> length t\<close> by simp
  then have "u @ t @ v \<noteq> t" by (metis less_irrefl)
  then have e: "replaceAll_loop rx [c] t b = replaceAll_loop rx [c] t b'" using p(3) by simp
  have "c \<in> set (u @ t @ v)" "2 \<le> length (u @ t @ v)" using t l Suc.prems(3) by simp_all
  moreover have "length (u @ t @ v) + n * (length t - 1) + length t \<le> 2 ^ 28" using Suc.prems(4) unfolding l mult_Suc by linarith
  ultimately obtain b'' s' where "replaceAll_loop rx [c] t b' = replaceAll_loop rx [c] t b''" "sb_rep b'' s'" "c \<in> set s'"
    "length s' = length (u @ t @ v) + n * (length t - 1)" using Suc.IH [OF p(2)] by blast
  then show ?case using e l by (intro exI [of _ b''] exI [of _ s']) (simp only: mult_Suc, simp)
qed

lemma replaceAll_loop_endless:
  assumes rx: "literal_search rx c" and b: "sb_rep b s" "c \<in> set s" "2 \<le> length s" "length s < 2 ^ 28"
  shows "replaceAll_loop rx [c] [c] b = None"
proof (rule ccontr)
  assume "replaceAll_loop rx [c] [c] b \<noteq> None"
  then obtain y where y: "replaceAll_loop rx [c] [c] b = Some y" by auto
  let ?P = "\<lambda>rx' r t b y. \<not> (rx' = rx \<and> r = [c] \<and> t = [c] \<and> sb_rep b s)"
  have "?P rx [c] [c] b y"
  proof (rule replaceAll_loop.raw_induct [where P = ?P, OF _ y])
    fix f rx' r t b y
    assume f: "\<And>rx' r t b y. f rx' r t b = Some y \<Longrightarrow> ?P rx' r t b y"
      and body: "(case sb_regexIndexOf rx' r 0 b of Inl e \<Rightarrow> Some (Inl e) | Inr None \<Rightarrow> Some (Inr b)
        | Inr (Some (st, en)) \<Rightarrow> (case rbind (sb_replace st en t b) (\<lambda>str'. rbind (sb_equal str' t) (\<lambda>q. Inr (str', q))) of
            Inl e \<Rightarrow> Some (Inl e) | Inr (str', q) \<Rightarrow> if q then Some (Inr str') else f rx' r t str')) = Some y"
    show "?P rx' r t b y"
    proof (rule notI, elim conjE)
      assume eq: "rx' = rx" "r = [c]" "t = [c]" and rep: "sb_rep b s"
      obtain u v where s: "s = u @ c # v" and m: "sb_regexIndexOf rx [c] 0 b = Inr (Some (int (length u), int (Suc (length u))))"
        using first_match [OF rx rep b(2)] by blast
      obtain b' where b': "sb_replace (int (length u)) (int (Suc (length u))) [c] b = Inr b'" "sb_rep b' s"
        using sb_replace_ok [OF rep, of "length u" "Suc (length u)" "[c]"] b(4) by (auto simp: s)
      have "s \<noteq> [c]" using b(3) by auto
      then have "f rx [c] [c] b' = Some y" using m body b' sb_equal_ok [OF b'(2), of "[c]"] eq by simp
      then show False using f b'(2) by blast
    qed
  qed
  then show False using b(1) by simp
qed

text \<open>
  \<open>replaceAll\<close> of an ordinary character by a text without it replaces every occurrence. On the empty string it
  raises an exception, and when the replacement contains the character it never ends: it searches from
  the start each time and finds its own replacement. Replacing a character by itself runs for ever,
  and a longer replacement makes the text grow until it exceeds every bound below \<open>2 ^ 28\<close>.
\<close>

lemma replace_all:
  assumes "literal_search rx c" "length s + count_list s c * length t + length t \<le> 2 ^ 28" "length s < 2 ^ 28"
  shows "(s \<noteq> [] \<and> c \<notin> set t \<longrightarrow> replaceAll rx s [c] t = Some (Inr (replaced c t s))) \<and>
    replaceAll rx [] [c] t = Some (Inl (ArrayIndexOutOfBoundsException 0)) \<and>
    (2 \<le> length s \<and> c \<in> set s \<longrightarrow> replaceAll rx s [c] [c] = None) \<and>
    (\<forall>n. 2 \<le> length s \<and> c \<in> set s \<and> c \<in> set t \<and> length s + n * (length t - 1) + length t \<le> 2 ^ 28 \<longrightarrow>
      (\<exists>b s'. replaceAll rx s [c] t = map_option (\<lambda>x. rbind x sb_toString) (replaceAll_loop rx [c] t b) \<and> sb_toString b = Inr s' \<and>
        length s' = length s + n * (length t - 1)))"
proof -
  obtain b where b: "sb_new_from s = Inr b" "sb_rep b s" using sb_new_from_ok [OF assms(3)] by blast
  have r1: "replaceAll rx s [c] t = Some (Inr (replaced c t s))" if "s \<noteq> []" "c \<notin> set t"
    using replaceAll_loop_ok [OF assms(1) that(2) b(2) that(1) assms(2)] b(1) sb_toString_ok by (auto simp: replaceAll_def)
  obtain b0 where b0: "sb_new_from [] = Inr b0" "sb_rep b0 []" using sb_new_from_ok [of "[]"] by auto
  then have r2: "replaceAll rx [] [c] t = Some (Inl (ArrayIndexOutOfBoundsException 0))"
    using sb_count [OF b0(2)] by (simp add: replaceAll_def replaceAll_loop.simps sb_regexIndexOf_def)
  have r3: "replaceAll rx s [c] [c] = None" if "2 \<le> length s" "c \<in> set s"
    using replaceAll_loop_endless [OF assms(1) b(2) that(2,1) assms(3)] b(1) by (simp add: replaceAll_def)
  have r4: "\<exists>b s'. replaceAll rx s [c] t = map_option (\<lambda>x. rbind x sb_toString) (replaceAll_loop rx [c] t b) \<and> sb_toString b = Inr s' \<and>
        length s' = length s + n * (length t - 1)"
    if "2 \<le> length s" "c \<in> set s" "c \<in> set t" "length s + n * (length t - 1) + length t \<le> 2 ^ 28" for n
    using replaceAll_loop_grows [OF assms(1) that(3) b(2) that(2,1,4)] b(1) sb_toString_ok by (fastforce simp: replaceAll_def)
  show ?thesis by (intro conjI allI impI; (elim conjE)?; rule r1 r2 r3 r4; assumption)
qed

definition demo_search :: regex where
  "demo_search r s = (if hd r \<in> set s then Some (length (takeWhile (\<lambda>x. x \<noteq> hd r) s), 1) else None)"

lemma replace_all_witness:
  "replaceAll demo_search [0x61, 0x62, 0x61] [0x61] [0x63, 0x64] = Some (Inr [0x63, 0x64, 0x62, 0x63, 0x64]) \<and>
   replaceAll demo_search [0x61, 0x62, 0x61] [0x61] [0x61] = None"
proof -
  have rx: "literal_search demo_search 0x61" by (simp add: literal_search_def demo_search_def)
  show ?thesis using replace_all [OF rx, of "[0x61, 0x62, 0x61]" "[0x63, 0x64]"] by (simp add: replaced_def)
qed

end
