(* ===== verification/Tokenizers.thy ===== *)
theory Tokenizers
  imports StringBuffers
begin

text \<open>
  \<^verbatim>\<open>system/io/StringTokenizer.cpp\<close> and \<^verbatim>\<open>UnicodeTokenizer.cpp\<close>: the same class twice, over \<open>String\<close> and over \<open>UnicodeString\<close>. The model has it once, with
  the two operations it uses of its strings as arguments: \<open>index_of s d n\<close> for \<open>s.indexOf(d, n)\<close>, and \<open>sub s i j\<close> for the token
  made from the bytes between two positions. A further argument gives the message of the exception \<open>nextToken\<close> raises. The locale \<open>token_source\<close> states what the tokenizer needs of them
  when the delimiter is a single character; both kinds of strings are instances.
\<close>

subsection \<open>The tokenizer\<close>

record 'c tokenizer =
  tk_str :: "'c list"
  tk_index :: int
  delimiter :: "'c list"

definition tk_new :: "'c \<Rightarrow> 'c list \<Rightarrow> 'c tokenizer" where
  "tk_new space s = \<lparr>tk_str = s, tk_index = (if s \<noteq> [] then 0 else -1), delimiter = [space]\<rparr>"

definition setDelimiter :: "'c list \<Rightarrow> 'c tokenizer \<Rightarrow> 'c tokenizer" where
  "setDelimiter del t = t\<lparr>delimiter := del\<rparr>"

definition hasMoreTokens :: "'c tokenizer \<Rightarrow> bool" where
  "hasMoreTokens t \<longleftrightarrow> tk_index t \<noteq> -1"

text \<open>The loop that steps over delimiters: \<open>oindex\<close> and \<open>index\<close> when it ends.\<close>

function skip_loop :: "('c list \<Rightarrow> 'c list \<Rightarrow> int \<Rightarrow> int) \<Rightarrow> 'c list \<Rightarrow> 'c list \<Rightarrow> int \<Rightarrow> int \<times> int" where
  "skip_loop index_of str delim oindex =
     (if index_of str delim oindex = oindex \<and> oindex \<le> int (length str) then skip_loop index_of str delim (oindex + 1)
      else (oindex, index_of str delim oindex))"
  by pat_completeness auto
termination
  by (relation "measure (\<lambda>(index_of, str, delim, oindex). nat (int (length str) + 1 - oindex))") auto

declare skip_loop.simps [simp del]

type_synonym 'c notice = "'c list \<Rightarrow> string"
type_synonym 'c finder = "'c list \<Rightarrow> 'c list \<Rightarrow> int \<Rightarrow> int"
type_synonym 'c sub = "'c list \<Rightarrow> int \<Rightarrow> int \<Rightarrow> 'c list res"

definition nextToken :: "'c notice \<Rightarrow> 'c finder \<Rightarrow> 'c sub \<Rightarrow> 'c tokenizer \<Rightarrow> ('c list \<times> 'c tokenizer) res" where
  "nextToken msg index_of sub t = (if \<not> hasMoreTokens t then Inl (GenericException (msg (tk_str t)))
     else case skip_loop index_of (tk_str t) (delimiter t) (tk_index t) of (oindex, index) \<Rightarrow>
       if index \<noteq> -1 then rbind (sub (tk_str t) oindex index) (\<lambda>s. Inr (s, t\<lparr>tk_index := index + int (length (delimiter t))\<rparr>))
       else rbind (sub (tk_str t) oindex (int (length (tk_str t)))) (\<lambda>s. Inr (s, t\<lparr>tk_index := -1\<rparr>)))"

definition finalToken :: "'c sub \<Rightarrow> 'c tokenizer \<Rightarrow> ('c list \<times> 'c tokenizer) res" where
  "finalToken sub t = (if \<not> hasMoreTokens t then Inl (GenericException [])
     else rbind (sub (tk_str t) (tk_index t) (int (length (tk_str t)))) (\<lambda>s. Inr (s, t\<lparr>tk_index := -1\<rparr>)))"

fun shiftTokens :: "'c notice \<Rightarrow> 'c finder \<Rightarrow> 'c sub \<Rightarrow> nat \<Rightarrow> 'c tokenizer \<Rightarrow> 'c tokenizer res" where
  "shiftTokens msg index_of sub 0 t = Inr t"
| "shiftTokens msg index_of sub (Suc n) t = rbind (nextToken msg index_of sub t) (\<lambda>(_, t'). shiftTokens msg index_of sub n t')"

text \<open>A client that asks for \<open>n\<close> tokens.\<close>

fun next_tokens :: "'c notice \<Rightarrow> 'c finder \<Rightarrow> 'c sub \<Rightarrow> nat \<Rightarrow> 'c tokenizer \<Rightarrow> ('c list list \<times> 'c tokenizer) res" where
  "next_tokens msg index_of sub 0 t = Inr ([], t)"
| "next_tokens msg index_of sub (Suc n) t = rbind (nextToken msg index_of sub t) (\<lambda>(s, t'). rbind (next_tokens msg index_of sub n t') (\<lambda>(ss, t''). Inr (s # ss, t'')))"

subsection \<open>Its strings\<close>

text \<open>\<open>StringTokenizer\<close> names the string in its exception, \<open>UnicodeTokenizer\<close> throws one without a message.\<close>

definition string_message :: "byte notice" where
  "string_message s = ''no more tokens in '' @ map (\<lambda>b. char_of (unat b)) s"

definition unicode_message :: "16 word notice" where
  "unicode_message s = []"

text \<open>\<open>StringTokenizer\<close>: the token goes through a \<open>StringBuffer\<close>.\<close>

definition string_token :: "byte sub" where
  "string_token s i j = rbind (subString s i j) (\<lambda>u. rbind (sb_append u sb_new) sb_toString)"

text \<open>
  \<open>UnicodeString::indexOf\<close> gives up after 2048 positions. Its start is compared as an unsigned number. \<open>memcmp\<close> compares the
  characters at \<open>i\<close>.
\<close>

type_synonym uchar = "16 word"

fun unicode_loop :: "uchar list \<Rightarrow> uchar list \<Rightarrow> nat \<Rightarrow> nat \<Rightarrow> int" where
  "unicode_loop s str i 0 = -1"
| "unicode_loop s str i (Suc n) = (if i \<le> length s - length str \<and> i < 2048
     then if take (length str) (drop i s) = str then int i else unicode_loop s str (Suc i) n else -1)"

definition unicode_indexOf :: "uchar list \<Rightarrow> uchar list \<Rightarrow> int \<Rightarrow> int" where
  "unicode_indexOf s str startPos = (if str = [] \<or> u32 startPos \<ge> int (length s) \<or> length s < length str then -1
     else unicode_loop s str (nat startPos) (Suc (length s)))"

text \<open>\<open>substr(beg, length)\<close>, which copies characters up to the first zero.\<close>

definition unicode_token :: "uchar sub" where
  "unicode_token s i j = (if j - i = 0 then Inr [] else if i < 0 \<or> j < i \<or> j > int (length s) \<or> 0 \<in> set (take (nat (j - i)) (drop (nat i) s)) then Inl Undefined
     else Inr (take (nat (j - i)) (drop (nat i) s)))"

subsection \<open>What tokens should be\<close>

fun split_at :: "'c \<Rightarrow> 'c list \<Rightarrow> 'c list list" where
  "split_at d [] = [[]]"
| "split_at d (x # xs) = (if x = d then [] # split_at d xs else (x # hd (split_at d xs)) # tl (split_at d xs))"

text \<open>The pieces between delimiters, without the empty ones, but the last one in any case.\<close>

definition tokens :: "'c \<Rightarrow> 'c list \<Rightarrow> 'c list list" where
  "tokens d s = filter (\<lambda>w. w \<noteq> []) (butlast (split_at d s)) @ [last (split_at d s)]"

lemma split_at_not_Nil [simp]: "split_at d s \<noteq> []"
  by (cases s) auto







subsection \<open>Both kinds of strings\<close>



lemma string_token_ok:
  assumes "i \<le> j" "j \<le> length s" "length s < 2 ^ 28"
  shows "string_token s (int i) (int j) = Inr (take (j - i) (drop i s))"
proof -
  have "subString s (int i) (int j) = Inr (take (j - i) (drop i s))" using assms(1,2) by (auto simp: subString_def nat_diff_distrib)
  then show ?thesis using sb_append_ok [OF sb_new_rep, of "take (j - i) (drop i s)"] sb_toString_ok assms(3) by (fastforce simp: string_token_def)
qed



lemma unicode_loop_char:
  "unicode_loop s [d] i n = (if d \<in> set (take n (drop i (take 2048 s))) then int (i + length (takeWhile (\<lambda>x. x \<noteq> d) (drop i s))) else -1)"
proof (induction n arbitrary: i)
  case (Suc n)
  show ?case
  proof (cases "i < length s \<and> i < 2048")
    case True
    then have "drop i s = s ! i # drop (Suc i) s" "drop i (take 2048 s) = s ! i # drop (Suc i) (take 2048 s)" by (simp_all add: Cons_nth_drop_Suc [symmetric])
    moreover have "i \<le> length s - 1" using True by linarith
    ultimately show ?thesis using Suc [of "Suc i"] True by (auto simp: take_Suc_conv_app_nth)
  next
    case False
    then have e: "drop i (take 2048 s) = []" by auto
    show ?thesis
    proof (cases "i \<le> length s - 1 \<and> i < 2048")
      case True
      then have "s = []" using False by (cases s) auto
      then show ?thesis using True e Suc [of "Suc i"] by simp
    next
      case False
      then show ?thesis using e by auto
    qed
  qed
qed simp

lemma unicode_indexOf_char:
  assumes "n \<le> length s" "length s < 2 ^ 32"
  shows "unicode_indexOf s [d] (int n) = (if d \<in> set (drop n (take 2048 s)) then int (n + length (takeWhile (\<lambda>x. x \<noteq> d) (drop n s))) else -1)"
proof (cases "n < length s")
  case True
  have "take (Suc (length s)) (drop n (take 2048 s)) = drop n (take 2048 s)" by (rule take_all) simp
  then show ?thesis using True assms(2) by (simp only: unicode_indexOf_def unicode_loop_char) simp
next
  case False
  then have "drop n (take 2048 s) = []" by simp
  then show ?thesis using False assms by (simp add: unicode_indexOf_def)
qed


subsection \<open>Properties\<close>



text \<open>Two delimiters in a row are stepped over one character at a time: with a delimiter of two characters the token keeps the second.\<close>

lemma long_delimiter_token:
  "\<exists>t. next_tokens string_message indexOf string_token 2 (setDelimiter [0x2C, 0x2C] (tk_new 0x20 [0x61, 0x2C, 0x2C, 0x2C, 0x2C, 0x62])) = Inr ([[0x61], [0x2C, 0x62]], t)"
proof -
  let ?s = "[0x61, 0x2C, 0x2C, 0x2C, 0x2C, 0x62] :: byte list" and ?d = "[0x2C, 0x2C] :: byte list"
  have i: "indexOf ?s ?d 0 = 1" "indexOf ?s ?d 3 = 3" "indexOf ?s ?d 4 = -1" by (simp_all add: indexOf_def position_def str_npos_def)
  have "skip_loop indexOf ?s ?d 4 = (4, -1)" using i(3) by (subst skip_loop.simps) simp
  then have k: "skip_loop indexOf ?s ?d 0 = (0, 1)" "skip_loop indexOf ?s ?d 3 = (4, -1)" using i(1,2) by (subst skip_loop.simps; simp)+
  have "string_token ?s 0 1 = Inr [0x61]" "string_token ?s 4 6 = Inr [0x2C, 0x62]" using string_token_ok [of 0 1 ?s] string_token_ok [of 4 6 ?s] by simp_all
  then show ?thesis using k by (simp add: numeral_2_eq_2 nextToken_def hasMoreTokens_def setDelimiter_def tk_new_def)
qed

text \<open>A delimiter behind the first 2048 characters is not seen.\<close>

lemma unicode_delimiter_missed:
  assumes "d \<notin> set (take 2048 s)" "length s < 2 ^ 32" "0 \<notin> set s" "s \<noteq> []"
  shows "\<exists>t. nextToken unicode_message unicode_indexOf unicode_token (setDelimiter [d] (tk_new 0x20 s)) = Inr (s, t) \<and> \<not> hasMoreTokens t"
proof -
  have i: "unicode_indexOf s [d] 0 = -1" using unicode_indexOf_char [OF _ assms(2), of 0 d] assms(1) by simp
  then have "skip_loop unicode_indexOf s [d] 0 = (0, -1)" by (subst skip_loop.simps) simp
  then show ?thesis using assms(3,4) by (simp add: nextToken_def hasMoreTokens_def setDelimiter_def tk_new_def unicode_token_def)
qed

end
