(* ===== verification/Transactions.thy ===== *)
theory Transactions
  imports SortedVector
begin

text \<open>
  \<^verbatim>\<open>engine/stm\<close>: the software transactional memory. A task runs against handles of the objects it opens: a handle
  keeps the version of the object that was current when it was opened and, for writing, a private clone.
  \<^verbatim>\<open>algos/FraserSTM.cpp\<close> then commits: it acquires the headers of the written objects in address order, checks that
  every opened version is still current, decides by a compare-and-set on the status, and installs the
  clones. A thread that meets a header owned by another transaction runs that transaction's commit for it.

  Every access to shared memory is one step of a thread, except that a handle's two pointers are reset in one
  step and \<open>hasObjectChanged\<close> reads both sides of its comparison in one. Objects are compared by address only, and the
  handles keep what they compare alive, so that no address is reused: an object is named by what it is, the original
  of a header or the clone that a transaction made. A transaction is run by the thread of the same number.
  Objects created inside a transaction, weak references, the reclamation lists and the compile-time options
  \<open>EAGERABORTS\<close>, \<open>STMLINKELISTDHELP\<close> and \<open>MEMORY_PROTECTION\<close> (off by default) are left out.
\<close>

subsection \<open>Headers, handles and transactions\<close>

type_synonym header = nat
type_synonym txid = nat

datatype obj = Original header | Clone txid header

datatype tx_status = INITIAL | UNDECIDED | READ_CHECKING | ABORTED | COMMITTED

datatype access = READ | WRITE

record handle =
  hd_object :: "obj option"
  objectCopy :: "obj option"
  currentType :: access

text \<open>A transaction has at most one handle per header, so that the two vectors can name handles by their headers.\<close>

record transaction =
  status :: tx_status
  openedObjets :: "header \<rightharpoonup> handle"
  readOnlyObjects :: "header list"
  readWriteObjects :: "header list"

record 'v stm =
  ownerTransaction :: "header \<Rightarrow> txid option"
  hdr_object :: "header \<Rightarrow> obj"
  contents :: "obj \<Rightarrow> 'v"
  txs :: "txid \<Rightarrow> transaction"

definition tx_new :: transaction where
  "tx_new = \<lparr>status = INITIAL, openedObjets = Map.empty, readOnlyObjects = [], readWriteObjects = []\<rparr>"

text \<open>\<open>status <= READ_CHECKING\<close>, with the numbers the code gives to the states.\<close>

definition pending_status :: "tx_status \<Rightarrow> bool" where
  "pending_status st \<longleftrightarrow> st = UNDECIDED \<or> st = READ_CHECKING"

definition upd_tx :: "txid \<Rightarrow> (transaction \<Rightarrow> transaction) \<Rightarrow> 'v stm \<Rightarrow> 'v stm" where
  "upd_tx t f s = s\<lparr>txs := (txs s)(t := f (txs s t))\<rparr>"

definition setState :: "txid \<Rightarrow> tx_status \<Rightarrow> tx_status \<Rightarrow> 'v stm \<Rightarrow> 'v stm" where
  "setState t currentstate newstate s =
     (if status (txs s t) = currentstate then upd_tx t (\<lambda>x. x\<lparr>status := newstate\<rparr>) s else s)"

text \<open>\<open>TransactionalObjectHandleVector\<close>: a \<open>SortedVector\<close> in address order without duplicates.\<close>

definition addHandle :: "header \<Rightarrow> header list \<Rightarrow> header list" where
  "addHandle h hs = (if h \<in> set hs then hs else insort h hs)"

definition removeHandle :: "header \<Rightarrow> header list \<Rightarrow> header list" where
  "removeHandle h hs = remove1 h hs"

definition handle_of :: "txid \<Rightarrow> header \<Rightarrow> 'v stm \<Rightarrow> handle" where
  "handle_of t h s = (case openedObjets (txs s t) h of Some x \<Rightarrow> x | None \<Rightarrow> \<lparr>hd_object = None, objectCopy = None, currentType = READ\<rparr>)"

definition put_handle :: "header \<Rightarrow> handle \<Rightarrow> transaction \<Rightarrow> transaction" where
  "put_handle h x t = t\<lparr>openedObjets := (openedObjets t)(h \<mapsto> x)\<rparr>"

definition hasObjectChanged :: "txid \<Rightarrow> header \<Rightarrow> 'v stm \<Rightarrow> bool" where
  "hasObjectChanged t h s \<longleftrightarrow> hd_object (handle_of t h s) \<noteq> Some (hdr_object s h)"

definition isCopyEqualToObject :: "txid \<Rightarrow> header \<Rightarrow> 'v stm \<Rightarrow> bool" where
  "isCopyEqualToObject t h s \<longleftrightarrow> objectCopy (handle_of t h s) = hd_object (handle_of t h s)"

definition resetObjects :: "txid \<Rightarrow> header \<Rightarrow> 'v stm \<Rightarrow> 'v stm" where
  "resetObjects t h s = upd_tx t (put_handle h ((handle_of t h s)\<lparr>hd_object := None, objectCopy := None\<rparr>)) s"

definition clone :: "txid \<Rightarrow> header \<Rightarrow> obj \<Rightarrow> 'v stm \<Rightarrow> 'v stm" where
  "clone t h p s = s\<lparr>contents := (contents s)(Clone t h := contents s p)\<rparr>"

fun initialize :: "access \<Rightarrow> txid \<Rightarrow> header \<Rightarrow> 'v stm \<Rightarrow> handle \<times> 'v stm" where
  "initialize READ t h s = (\<lparr>hd_object = Some (hdr_object s h), objectCopy = None, currentType = READ\<rparr>, s)"
| "initialize WRITE t h s = (\<lparr>hd_object = Some (hdr_object s h), objectCopy = Some (Clone t h), currentType = WRITE\<rparr>, clone t h (hdr_object s h) s)"

fun upgradeToWrite :: "txid \<Rightarrow> header \<Rightarrow> handle \<Rightarrow> 'v stm \<Rightarrow> (handle \<times> 'v stm) res" where
  "upgradeToWrite t h x s = (case hd_object x of None \<Rightarrow> Inl Undefined
     | Some p \<Rightarrow> Inr (x\<lparr>objectCopy := Some (Clone t h), currentType := WRITE\<rparr>, clone t h p s))"

text \<open>What the handle gives to the task: the clone if there is one.\<close>

definition local_object :: "handle \<Rightarrow> obj option" where
  "local_object x = (case objectCopy x of Some p \<Rightarrow> Some p | None \<Rightarrow> hd_object x)"

definition openObject :: "txid \<Rightarrow> header \<Rightarrow> 'v stm \<Rightarrow> (obj \<times> 'v stm) res" where
  "openObject t h s = (if status (txs s t) = COMMITTED then Inl AssertionFailure else
     let s = (case openedObjets (txs s t) h of Some _ \<Rightarrow> s
       | None \<Rightarrow> (case initialize READ t h s of (x0, s) \<Rightarrow>
           upd_tx t (\<lambda>x. put_handle h x0 (x\<lparr>readOnlyObjects := addHandle h (readOnlyObjects x)\<rparr>)) s)) in
     case local_object (handle_of t h s) of None \<Rightarrow> Inl AssertionFailure | Some p \<Rightarrow> Inr (p, s))"

definition openObjectForWrite :: "txid \<Rightarrow> header \<Rightarrow> 'v stm \<Rightarrow> (obj \<times> 'v stm) res" where
  "openObjectForWrite t h s = (if status (txs s t) = COMMITTED then Inl AssertionFailure else
     rbind (case openedObjets (txs s t) h of
         None \<Rightarrow> (case initialize WRITE t h s of (x0, s) \<Rightarrow>
           Inr (upd_tx t (\<lambda>x. put_handle h x0 (x\<lparr>readWriteObjects := addHandle h (readWriteObjects x)\<rparr>)) s))
       | Some x0 \<Rightarrow>
           if h \<in> set (readOnlyObjects (txs s t)) then
             rbind (upgradeToWrite t h x0 s) (\<lambda>(x0, s). Inr (upd_tx t (\<lambda>x. put_handle h x0
               (x\<lparr>readOnlyObjects := removeHandle h (readOnlyObjects x), readWriteObjects := addHandle h (readWriteObjects x)\<rparr>)) s))
           else Inr s) (\<lambda>s.
     case objectCopy (handle_of t h s) of None \<Rightarrow> Inl AssertionFailure | Some p \<Rightarrow> Inr (p, s)))"

subsection \<open>Committing\<close>

text \<open>
  The program counter of one call of \<open>doCommit\<close>: which shared access comes next, with the local variables. \<open>Acquire\<close> to
  \<open>Changed\<close> are the loop over written objects, \<open>Validate\<close> to \<open>Changed_again\<close> are \<open>validateReadOnlyObjects\<close>, the rest is
  \<open>tryFinishCommit\<close> with \<open>releaseObject\<close> and \<open>discardObject\<close>.
\<close>

datatype tx_pc =
    Start
  | Acquire nat
  | Compete nat txid
  | Changed nat
  | Validate
  | Begin_checking
  | Read_changed nat
  | Read_owner nat
  | Read_compete nat txid
  | Abort_other nat txid
  | Read_committed nat txid
  | Changed_again nat
  | Finish tx_status
  | Push_status tx_status tx_status
  | Final
  | Release nat
  | Release_owner nat "obj option"
  | Release_cas nat "obj option" txid
  | Release_write nat obj
  | Release_reset nat
  | Discard nat
  | Discard_reset nat
  | Committed bool

text \<open>What a step does next: go on, or call \<open>doCommit\<close> of another transaction and go on afterwards.\<close>

datatype tx_next = Goto tx_pc | Help txid tx_pc

definition acquireHeader :: "txid \<Rightarrow> header \<Rightarrow> nat \<Rightarrow> 'v stm \<Rightarrow> tx_next \<times> 'v stm" where
  "acquireHeader t h i s = (case ownerTransaction s h of
       None \<Rightarrow> (Goto (Changed i), s\<lparr>ownerTransaction := (ownerTransaction s)(h := Some t)\<rparr>)
     | Some c \<Rightarrow> (Goto (if c = t then Changed i else Compete i c), s))"

fun acquire_step :: "txid \<Rightarrow> tx_pc \<Rightarrow> 'v stm \<Rightarrow> tx_next \<times> 'v stm" where
  "acquire_step t Start s = (Goto (if status (txs s t) = UNDECIDED \<and> readWriteObjects (txs s t) \<noteq> [] then Acquire 0 else Validate), s)"
| "acquire_step t (Acquire i) s = (if i < length (readWriteObjects (txs s t))
     then acquireHeader t (readWriteObjects (txs s t) ! i) i s else (Goto Validate, s))"
| "acquire_step t (Compete i c) s = (if status (txs s c) = COMMITTED then Goto (Finish ABORTED) else Help c (Acquire i), s)"
| "acquire_step t (Changed i) s = (Goto (if hasObjectChanged t (readWriteObjects (txs s t) ! i) s then Finish ABORTED else Acquire (Suc i)), s)"
| "acquire_step t pc s = (Goto pc, s)"

fun validateReadOnlyObjects :: "txid \<Rightarrow> tx_pc \<Rightarrow> 'v stm \<Rightarrow> tx_next \<times> 'v stm" where
  "validateReadOnlyObjects t Validate s =
     (Goto (if pending_status (status (txs s t)) \<and> readOnlyObjects (txs s t) \<noteq> [] then Begin_checking else Finish COMMITTED), s)"
| "validateReadOnlyObjects t Begin_checking s = (Goto (Read_changed 0), setState t UNDECIDED READ_CHECKING s)"
| "validateReadOnlyObjects t (Read_changed i) s = (if i < length (readOnlyObjects (txs s t))
     then Goto (if hasObjectChanged t (readOnlyObjects (txs s t) ! i) s then Finish ABORTED else Read_owner i) else Goto (Finish COMMITTED), s)"
| "validateReadOnlyObjects t (Read_owner i) s = (case ownerTransaction s (readOnlyObjects (txs s t) ! i) of
     None \<Rightarrow> Goto (Read_changed (Suc i)) | Some c \<Rightarrow> Goto (Read_compete i c), s)"
| "validateReadOnlyObjects t (Read_compete i c) s = (if status (txs s c) = READ_CHECKING
     then if t < c then Goto (Abort_other i c) else Help c (Read_compete i c) else Goto (Read_committed i c), s)"
| "validateReadOnlyObjects t (Abort_other i c) s = (Goto (Read_compete i c), setState c READ_CHECKING ABORTED s)"
| "validateReadOnlyObjects t (Read_committed i c) s =
     (Goto (if status (txs s c) = COMMITTED \<and> \<not> isCopyEqualToObject t (readOnlyObjects (txs s t) ! i) s then Finish ABORTED else Changed_again i), s)"
| "validateReadOnlyObjects t (Changed_again i) s =
     (Goto (if hasObjectChanged t (readOnlyObjects (txs s t) ! i) s then Finish ABORTED else Read_changed (Suc i)), s)"
| "validateReadOnlyObjects t pc s = (Goto pc, s)"

text \<open>\<open>releaseObject\<close> clears the owner first and stores the new version afterwards.\<close>

fun releaseObject :: "txid \<Rightarrow> tx_pc \<Rightarrow> 'v stm \<Rightarrow> tx_next \<times> 'v stm" where
  "releaseObject t (Release_owner i cp) s = (case ownerTransaction s (readWriteObjects (txs s t) ! i) of
     None \<Rightarrow> Goto (Release_reset i) | Some c \<Rightarrow> Goto (Release_cas i cp c), s)"
| "releaseObject t (Release_cas i cp c) s = (let h = readWriteObjects (txs s t) ! i in
     if ownerTransaction s h = Some c
     then (Goto (case cp of Some p \<Rightarrow> Release_write i p | None \<Rightarrow> Release_reset i), s\<lparr>ownerTransaction := (ownerTransaction s)(h := None)\<rparr>)
     else (Goto (Release_reset i), s))"
| "releaseObject t (Release_write i p) s =
     (Goto (Release_reset i), s\<lparr>hdr_object := (hdr_object s)(readWriteObjects (txs s t) ! i := p)\<rparr>)"
| "releaseObject t pc s = (Goto pc, s)"

definition discardObject :: "txid \<Rightarrow> header \<Rightarrow> 'v stm \<Rightarrow> 'v stm" where
  "discardObject t h s = (if ownerTransaction s h = Some t then s\<lparr>ownerTransaction := (ownerTransaction s)(h := None)\<rparr> else s)"

fun tryFinishCommit :: "txid \<Rightarrow> tx_pc \<Rightarrow> 'v stm \<Rightarrow> tx_next \<times> 'v stm" where
  "tryFinishCommit t (Finish desired) s = (Goto (Push_status (status (txs s t)) desired), s)"
| "tryFinishCommit t (Push_status old desired) s = (if pending_status old
     then if status (txs s t) = old then (Goto Final, setState t old desired s) else (Goto (Push_status (status (txs s t)) desired), s)
     else (Goto Final, s))"
| "tryFinishCommit t Final s = (Goto (if status (txs s t) = COMMITTED then Release 0 else Discard 0), s)"
| "tryFinishCommit t (Release i) s = (Goto (if i < length (readWriteObjects (txs s t))
     then Release_owner i (objectCopy (handle_of t (readWriteObjects (txs s t) ! i) s)) else Committed True), s)"
| "tryFinishCommit t (Release_owner i cp) s = releaseObject t (Release_owner i cp) s"
| "tryFinishCommit t (Release_cas i cp c) s = releaseObject t (Release_cas i cp c) s"
| "tryFinishCommit t (Release_write i p) s = releaseObject t (Release_write i p) s"
| "tryFinishCommit t (Release_reset i) s = (Goto (Release (Suc i)), resetObjects t (readWriteObjects (txs s t) ! i) s)"
| "tryFinishCommit t (Discard i) s = (if i < length (readWriteObjects (txs s t)) then (Goto (Discard_reset i),
     discardObject t (readWriteObjects (txs s t) ! i) s)
     else (Goto (Committed False), s))"
| "tryFinishCommit t (Discard_reset i) s = (Goto (Discard (Suc i)), resetObjects t (readWriteObjects (txs s t) ! i) s)"
| "tryFinishCommit t pc s = (Goto pc, s)"

definition doCommit :: "txid \<Rightarrow> tx_pc \<Rightarrow> 'v stm \<Rightarrow> tx_next \<times> 'v stm" where
  "doCommit t pc s = (case pc of
       Start \<Rightarrow> acquire_step t pc s | Acquire _ \<Rightarrow> acquire_step t pc s | Compete _ _ \<Rightarrow> acquire_step t pc s | Changed _ \<Rightarrow> acquire_step t pc s
     | Validate \<Rightarrow> validateReadOnlyObjects t pc s | Begin_checking \<Rightarrow> validateReadOnlyObjects t pc s
     | Read_changed _ \<Rightarrow> validateReadOnlyObjects t pc s | Read_owner _ \<Rightarrow> validateReadOnlyObjects t pc s
     | Read_compete _ _ \<Rightarrow> validateReadOnlyObjects t pc s | Abort_other _ _ \<Rightarrow> validateReadOnlyObjects t pc s
     | Read_committed _ _ \<Rightarrow> validateReadOnlyObjects t pc s | Changed_again _ \<Rightarrow> validateReadOnlyObjects t pc s
     | _ \<Rightarrow> tryFinishCommit t pc s)"

text \<open>The three phases.\<close>

abbreviation acquiring :: "tx_pc \<Rightarrow> bool" where
  "acquiring pc \<equiv> pc = Start \<or> (\<exists>i. pc = Acquire i) \<or> (\<exists>i c. pc = Compete i c) \<or> (\<exists>i. pc = Changed i)"

abbreviation validating :: "tx_pc \<Rightarrow> bool" where
  "validating pc \<equiv> pc = Validate \<or> pc = Begin_checking \<or> (\<exists>i. pc = Read_changed i) \<or> (\<exists>i. pc = Read_owner i) \<or> (\<exists>i c. pc = Read_compete i c) \<or>
      (\<exists>i c. pc = Abort_other i c) \<or> (\<exists>i c. pc = Read_committed i c) \<or> (\<exists>i. pc = Changed_again i)"

abbreviation finishing :: "tx_pc \<Rightarrow> bool" where
  "finishing pc \<equiv> (\<exists>d. pc = Finish d) \<or> (\<exists>old d. pc = Push_status old d) \<or> pc = Final \<or> (\<exists>i. pc = Release i) \<or>
      (\<exists>i cp. pc = Release_owner i cp) \<or> (\<exists>i cp c. pc = Release_cas i cp c) \<or> (\<exists>i p. pc = Release_write i p) \<or> (\<exists>i. pc = Release_reset i) \<or>
      (\<exists>i. pc = Discard i) \<or> (\<exists>i. pc = Discard_reset i)"

fun returned :: "tx_pc \<Rightarrow> bool" where
  "returned (Committed b) \<longleftrightarrow> True"
| "returned _ \<longleftrightarrow> False"

lemma doCommit_phase:
  "doCommit u pc s = acquire_step u pc s \<and> acquiring pc \<or> doCommit u pc s = validateReadOnlyObjects u pc s \<and> validating pc \<or>
   doCommit u pc s = tryFinishCommit u pc s \<and> (finishing pc \<or> returned pc)"
  by (cases pc) (simp_all add: doCommit_def)

subsection \<open>Tasks and threads\<close>

text \<open>
  A task as its accesses to transactional objects: \<open>Get\<close> is \<open>get()\<close>, \<open>Update\<close> is \<open>getForUpdate()\<close> with a change of
  the object, and \<open>Abort\<close> is a \<open>TransactionAbortedException\<close>. Any other exception ends the task like \<open>Done\<close>: \<open>start\<close> logs it and the
  transaction goes on to commit. After an \<open>Abort\<close> the commit fails at once; that \<open>doAbort\<close> is then called a second time and reclaims
  through a current transaction that is null by then is left out, as are the reclamation lists themselves.
\<close>

datatype 'v tx_task = Done | Abort | Get header "'v \<Rightarrow> 'v tx_task" | Update header "'v \<Rightarrow> 'v \<times> 'v tx_task"

record 'v tx_sys =
  memory :: "'v stm"
  todo :: "txid \<Rightarrow> 'v tx_task"
  calls :: "txid \<Rightarrow> (txid \<times> tx_pc) list"

definition run_task :: "txid \<Rightarrow> 'v tx_sys \<Rightarrow> 'v tx_sys res" where
  "run_task t c = (let s = memory c in case todo c t of
       Done \<Rightarrow> Inr (c\<lparr>calls := (calls c)(t := [(t, Start)])\<rparr>)
     | Abort \<Rightarrow> Inr (c\<lparr>memory := upd_tx t (\<lambda>x. x\<lparr>status := ABORTED\<rparr>) s, todo := (todo c)(t := Done)\<rparr>)
     | Get h k \<Rightarrow> rbind (openObject t h s) (\<lambda>(p, s). Inr (c\<lparr>memory := s, todo := (todo c)(t := k (contents s p))\<rparr>))
     | Update h f \<Rightarrow> rbind (openObjectForWrite t h s) (\<lambda>(p, s). case f (contents s p) of (v, k) \<Rightarrow>
         Inr (c\<lparr>memory := s\<lparr>contents := (contents s)(p := v)\<rparr>, todo := (todo c)(t := k)\<rparr>)))"

text \<open>One step of thread \<open>t\<close>: no value when its transaction is over.\<close>

definition tx_step :: "txid \<Rightarrow> 'v tx_sys \<Rightarrow> 'v tx_sys res option" where
  "tx_step t c = (let s = memory c in
     if status (txs s t) = INITIAL then Some (Inr (c\<lparr>memory := setState t INITIAL UNDECIDED s\<rparr>))
     else case calls c t of
       [] \<Rightarrow> Some (run_task t c)
     | (u, pc) # fs \<Rightarrow> if returned pc then if fs = [] then None else Some (Inr (c\<lparr>calls := (calls c)(t := fs)\<rparr>))
       else (case doCommit u pc s of
           (Goto pc', s') \<Rightarrow> Some (Inr (c\<lparr>memory := s', calls := (calls c)(t := (u, pc') # fs)\<rparr>))
         | (Help v pc', s') \<Rightarrow> Some (Inr (c\<lparr>memory := s', calls := (calls c)(t := (v, Start) # (u, pc') # fs)\<rparr>))))"

definition tx_init :: "(txid \<Rightarrow> 'v tx_task) \<Rightarrow> (header \<Rightarrow> 'v) \<Rightarrow> 'v tx_sys" where
  "tx_init prog \<sigma> = \<lparr>memory = \<lparr>ownerTransaction = (\<lambda>_. None), hdr_object = Original,
     contents = (\<lambda>p. case p of Original h \<Rightarrow> \<sigma> h | Clone _ h \<Rightarrow> \<sigma> h), txs = (\<lambda>_. tx_new)\<rparr>,
     todo = prog, calls = (\<lambda>_. [])\<rparr>"

fun tx_run :: "txid list \<Rightarrow> 'v tx_sys \<Rightarrow> 'v tx_sys res option" where
  "tx_run [] c = Some (Inr c)"
| "tx_run (t # ts) c = (case tx_step t c of Some (Inr c') \<Rightarrow> tx_run ts c' | r \<Rightarrow> r)"

inductive tx_reach :: "(txid \<Rightarrow> 'v tx_task) \<Rightarrow> (header \<Rightarrow> 'v) \<Rightarrow> 'v tx_sys \<Rightarrow> bool" for prog \<sigma> where
  init: "tx_reach prog \<sigma> (tx_init prog \<sigma>)"
| step: "tx_reach prog \<sigma> c \<Longrightarrow> tx_step t c = Some (Inr c') \<Longrightarrow> tx_reach prog \<sigma> c'"

subsection \<open>The handle vectors\<close>

text \<open>The list operations above are what the sorted vectors of theory \<open>SortedVector\<close> do.\<close>

definition handle_vector :: "header sorted_vector \<Rightarrow> header list \<Rightarrow> bool" where
  "handle_vector v hs \<longleftrightarrow> sv_wf ti_compare v hs \<and> insertPlan v = NO_DUPLICATE \<and> sv_unique ti_compare hs"

lemma sv_unique_nat [simp]: "sv_unique ti_compare hs \<longleftrightarrow> sorted_wrt (<) (hs :: nat list)"
  unfolding sv_unique_def by (rule arg_cong2 [where f = sorted_wrt]) (auto simp: ti_compare_def fun_eq_iff)

lemma ti_compare_0 [simp]: "ti_compare a b = 0 \<longleftrightarrow> a = (b :: nat)"
  by (auto simp: ti_compare_def)

lemma strict_sorted_unique: "sorted_wrt (<) xs \<Longrightarrow> sorted_wrt (<) ys \<Longrightarrow> set xs = set ys \<Longrightarrow> xs = (ys :: nat list)"
  by (simp add: strict_sorted_iff sorted_distinct_set_unique)

lemma strict_addHandle: "sorted_wrt (<) hs \<Longrightarrow> sorted_wrt (<) (addHandle h hs)"
  by (auto simp: addHandle_def strict_sorted_iff sorted_insort distinct_insort)

lemma set_addHandle [simp]: "set (addHandle h hs) = insert h (set hs)"
  by (auto simp: addHandle_def set_insort_key)

lemma strict_removeHandle: "sorted_wrt (<) hs \<Longrightarrow> sorted_wrt (<) (removeHandle h hs)"
  by (auto simp: removeHandle_def strict_sorted_iff sorted_remove1)

lemma set_removeHandle: "sorted_wrt (<) hs \<Longrightarrow> set (removeHandle h hs) = set hs - {h}"
  by (auto simp: removeHandle_def strict_sorted_iff)

lemma addHandle_is_put:
  assumes "handle_vector v hs" "length hs < 2 ^ 28"
  shows "\<exists>i v'. sv_put T ti_compare h v = Inr (i, v') \<and> handle_vector v' (addHandle h hs)"
proof -
  from atomic.put_ok [of v hs T h] assms obtain i v' xs' where p: "sv_put T ti_compare h v = Inr (i, v')" "sv_wf ti_compare v' xs'"
    "insertPlan v' = NO_DUPLICATE" "sorted_wrt (<) xs'"
    "if h \<in> set hs then xs' = hs else 0 \<le> i \<and> i \<le> int (length hs) \<and> xs' = insert_at (nat i) h hs"
    by (auto simp: handle_vector_def NO_DUPLICATE_def ALLOW_DUPLICATE_def ALLOW_OVERWRITE_def)
  have "set (insert_at j h hs) = insert h (set hs)" for j
    unfolding insert_at_def using append_take_drop_id [of j hs] by (metis Un_insert_right list.simps(15) set_append)
  then have "set xs' = set (addHandle h hs)" using p(5) by (auto split: if_splits)
  then have "xs' = addHandle h hs" using p(4) assms by (intro strict_sorted_unique) (auto simp: handle_vector_def strict_addHandle)
  then show ?thesis using p by (auto simp: handle_vector_def)
qed

lemma removeHandle_is_drop:
  assumes "handle_vector v hs"
  shows "\<exists>b v'. sv_drop T ti_compare h v = Inr (b, v') \<and> handle_vector v' (removeHandle h hs)"
proof (cases "h \<in> set hs")
  case True
  then obtain j v' where d: "j < length hs" "hs ! j = h" "sv_drop T ti_compare h v = Inr (True, v')" "sv_wf ti_compare v' (remove_at j hs)"
    using atomic.drop_ok [of v hs h T] assms by (auto simp: handle_vector_def)
  have m: "add_mset h (mset (remove_at j hs)) = mset hs" using mset_remove_at [OF d(1)] d(2) by simp
  have "sorted (remove_at j hs)" "sorted (removeHandle h hs)"
    using d(4) assms by (auto simp: sv_wf_def ti_compare_def handle_vector_def removeHandle_def strict_sorted_iff sorted_remove1 elim!: sorted_wrt_mono_rel [rotated] split: if_splits)
  moreover have "mset (remove_at j hs) = mset (removeHandle h hs)" using m by (simp add: removeHandle_def flip: m)
  ultimately have "remove_at j hs = removeHandle h hs" by (metis properties_for_sort sorted_sort_id)
  moreover have "insertPlan v' = insertPlan v" using d(3) by (auto simp: sv_drop_def rbind_eq_Inr_iff split: if_splits)
  ultimately show ?thesis using d assms by (auto simp: handle_vector_def strict_removeHandle)
next
  case False
  then show ?thesis using atomic.drop_ok [of v hs h T] assms by (auto simp: handle_vector_def removeHandle_def remove1_idem)
qed

subsection \<open>Invariants of all interleavings\<close>

definition decided :: "tx_status \<Rightarrow> bool" where
  "decided st \<longleftrightarrow> st = ABORTED \<or> st = COMMITTED"

definition engaged :: "'v tx_sys \<Rightarrow> txid \<Rightarrow> bool" where
  "engaged c t \<longleftrightarrow> calls c t \<noteq> []"

text \<open>The versions of a header that may ever be seen: its original and what committed transactions wrote.\<close>

definition published :: "'v stm \<Rightarrow> header \<Rightarrow> obj \<Rightarrow> bool" where
  "published s h p \<longleftrightarrow> p = Original h \<or> (\<exists>u. p = Clone u h \<and> status (txs s u) = COMMITTED \<and> h \<in> set (readWriteObjects (txs s u)))"

fun pc_ok :: "(txid \<Rightarrow> bool) \<Rightarrow> transaction \<Rightarrow> txid \<Rightarrow> tx_pc \<Rightarrow> bool" where
  "pc_ok E x t (Changed i) \<longleftrightarrow> i < length (readWriteObjects x)"
| "pc_ok E x t (Compete i c) \<longleftrightarrow> E c"
| "pc_ok E x t (Read_compete i c) \<longleftrightarrow> E c"
| "pc_ok E x t (Abort_other i c) \<longleftrightarrow> E c"
| "pc_ok E x t (Read_committed i c) \<longleftrightarrow> E c"
| "pc_ok E x t (Finish d) \<longleftrightarrow> decided d"
| "pc_ok E x t (Push_status old d) \<longleftrightarrow> decided d \<and> (\<not> pending_status old \<longrightarrow> decided (status x))"
| "pc_ok E x t Final \<longleftrightarrow> decided (status x)"
| "pc_ok E x t (Release i) \<longleftrightarrow> status x = COMMITTED"
| "pc_ok E x t (Release_owner i cp) \<longleftrightarrow> status x = COMMITTED \<and> i < length (readWriteObjects x) \<and> (cp = None \<or> cp = Some (Clone t (readWriteObjects x ! i)))"
| "pc_ok E x t (Release_cas i cp c) \<longleftrightarrow> status x = COMMITTED \<and> i < length (readWriteObjects x) \<and> (cp = None \<or> cp = Some (Clone t (readWriteObjects x ! i)))"
| "pc_ok E x t (Release_write i p) \<longleftrightarrow> status x = COMMITTED \<and> i < length (readWriteObjects x) \<and> p = Clone t (readWriteObjects x ! i)"
| "pc_ok E x t (Release_reset i) \<longleftrightarrow> status x = COMMITTED \<and> i < length (readWriteObjects x)"
| "pc_ok E x t (Discard i) \<longleftrightarrow> status x = ABORTED"
| "pc_ok E x t (Discard_reset i) \<longleftrightarrow> status x = ABORTED \<and> i < length (readWriteObjects x)"
| "pc_ok E x t (Committed b) \<longleftrightarrow> decided (status x) \<and> (b \<longleftrightarrow> status x = COMMITTED)"
| "pc_ok E x t _ \<longleftrightarrow> True"

text \<open>The handles of transaction \<open>t\<close>; \<open>r\<close> says that its task is still running.\<close>

definition handles_ok :: "'v stm \<Rightarrow> bool \<Rightarrow> txid \<Rightarrow> bool" where
  "handles_ok s r t \<longleftrightarrow> (let x = txs s t in
     sorted_wrt (<) (readOnlyObjects x) \<and> sorted_wrt (<) (readWriteObjects x) \<and> set (readOnlyObjects x) \<inter> set (readWriteObjects x) = {} \<and>
     dom (openedObjets x) = set (readOnlyObjects x) \<union> set (readWriteObjects x) \<and>
     (\<forall>h hd. openedObjets x h = Some hd \<longrightarrow>
        (\<forall>p. hd_object hd = Some p \<longrightarrow> published s h p) \<and> (objectCopy hd = None \<or> objectCopy hd = Some (Clone t h)) \<and>
        (r \<longrightarrow> hd_object hd \<noteq> None \<and> (objectCopy hd \<noteq> None \<longleftrightarrow> h \<in> set (readWriteObjects x)))))"

definition tx_inv :: "'v tx_sys \<Rightarrow> bool" where
  "tx_inv c \<longleftrightarrow> (let s = memory c in
     (\<forall>t. engaged c t \<longrightarrow> status (txs s t) \<noteq> INITIAL \<and> todo c t = Done) \<and>
     (\<forall>t. \<not> engaged c t \<longrightarrow> status (txs s t) \<noteq> COMMITTED \<and> status (txs s t) \<noteq> READ_CHECKING) \<and>
     (\<forall>h u. ownerTransaction s h = Some u \<longrightarrow> engaged c u) \<and>
     (\<forall>t u pc. (u, pc) \<in> set (calls c t) \<longrightarrow> engaged c u \<and> pc_ok (engaged c) (txs s u) u pc) \<and>
     (\<forall>h. published s h (hdr_object s h)) \<and>
     (\<forall>t. handles_ok s (\<not> engaged c t) t))"

text \<open>What no step of any thread undoes for the transactions that are committing.\<close>

definition stable :: "(txid \<Rightarrow> bool) \<Rightarrow> 'v stm \<Rightarrow> 'v stm \<Rightarrow> bool" where
  "stable E s s' \<longleftrightarrow> (\<forall>u. E u \<longrightarrow> readOnlyObjects (txs s' u) = readOnlyObjects (txs s u) \<and> readWriteObjects (txs s' u) = readWriteObjects (txs s u) \<and>
     (status (txs s' u) = status (txs s u) \<or> (\<not> decided (status (txs s u)) \<and> status (txs s' u) \<noteq> INITIAL)))"

lemma stable_refl [simp]: "stable E s s"
  by (simp add: stable_def)

lemma pc_ok_stable:
  assumes "pc_ok E (txs s u) u pc" "stable E s s'" "E u"
  shows "pc_ok E (txs s' u) u pc"
proof -
  have x: "readWriteObjects (txs s' u) = readWriteObjects (txs s u)" "decided (status (txs s u)) \<longrightarrow> status (txs s' u) = status (txs s u)"
    using assms(2,3) by (auto simp: stable_def)
  show ?thesis using assms(1) x by (cases pc) (auto simp: decided_def)
qed

lemma published_stable:
  assumes "published s h p" "stable E s s'" "\<And>u. status (txs s u) = COMMITTED \<Longrightarrow> E u"
  shows "published s' h p"
  using assms unfolding published_def stable_def decided_def by (metis (lifting) tx_status.distinct)

definition stm_ok :: "(txid \<Rightarrow> bool) \<Rightarrow> 'v stm \<Rightarrow> bool" where
  "stm_ok E s \<longleftrightarrow>
     (\<forall>t. if E t then status (txs s t) \<noteq> INITIAL else status (txs s t) \<noteq> COMMITTED \<and> status (txs s t) \<noteq> READ_CHECKING) \<and>
     (\<forall>h u. ownerTransaction s h = Some u \<longrightarrow> E u) \<and> (\<forall>h. published s h (hdr_object s h)) \<and> (\<forall>t. handles_ok s (\<not> E t) t)"

lemma mem_ok_committed: "stm_ok E s \<Longrightarrow> status (txs s u) = COMMITTED \<Longrightarrow> E u"
  unfolding stm_ok_def by meson

lemma tx_inv_mem: "tx_inv c \<longleftrightarrow> stm_ok (engaged c) (memory c) \<and> (\<forall>t. engaged c t \<longrightarrow> todo c t = Done) \<and>
    (\<forall>t u pc. (u, pc) \<in> set (calls c t) \<longrightarrow> engaged c u \<and> pc_ok (engaged c) (txs (memory c) u) u pc)"
  unfolding tx_inv_def stm_ok_def Let_def by auto

lemma handles_ok_mono:
  assumes "handles_ok s r t" "\<And>h p. published s h p \<Longrightarrow> published s' h p"
    and "readOnlyObjects (txs s' t) = readOnlyObjects (txs s t)" "readWriteObjects (txs s' t) = readWriteObjects (txs s t)"
    and "openedObjets (txs s' t) = openedObjets (txs s t)"
  shows "handles_ok s' r t"
  using assms unfolding handles_ok_def Let_def by auto

lemma mem_ok_stable:
  assumes "stm_ok E s" "stable E s s'" "\<And>t. openedObjets (txs s' t) = openedObjets (txs s t)" "\<And>t. \<not> E t \<Longrightarrow> txs s' t = txs s t"
    and "\<And>h u. ownerTransaction s' h = Some u \<Longrightarrow> E u" "\<And>h. published s' h (hdr_object s' h)"
  shows "stm_ok E s'"
  unfolding stm_ok_def
proof (intro conjI allI impI)
  have pub: "published s h p \<Longrightarrow> published s' h p" for h p using published_stable [OF _ assms(2) mem_ok_committed [OF assms(1)]] .
  have "readOnlyObjects (txs s' t) = readOnlyObjects (txs s t) \<and> readWriteObjects (txs s' t) = readWriteObjects (txs s t)" for t
    using assms(2,4) unfolding stable_def by (cases "E t") auto
  then show "handles_ok s' (\<not> E t) t" for t
    using assms(1,3) pub by (intro handles_ok_mono [of s "\<not> E t" t s']) (simp_all add: stm_ok_def)
  show "if E t then status (txs s' t) \<noteq> INITIAL else status (txs s' t) \<noteq> COMMITTED \<and> status (txs s' t) \<noteq> READ_CHECKING" for t
    using assms(1,2,4) unfolding stm_ok_def stable_def by (cases "E t") (metis, metis)
qed (use assms in auto)

lemma setState_sel [simp]:
  "ownerTransaction (setState u a b s) = ownerTransaction s" "hdr_object (setState u a b s) = hdr_object s" "contents (setState u a b s) = contents s"
  "status (txs (setState u a b s) t) = (if t = u \<and> status (txs s u) = a then b else status (txs s t))"
  "readOnlyObjects (txs (setState u a b s) t) = readOnlyObjects (txs s t)" "readWriteObjects (txs (setState u a b s) t) = readWriteObjects (txs s t)"
  "openedObjets (txs (setState u a b s) t) = openedObjets (txs s t)" "t \<noteq> u \<Longrightarrow> txs (setState u a b s) t = txs s t"
  by (auto simp: setState_def upd_tx_def)

lemma resetObjects_sel [simp]:
  "ownerTransaction (resetObjects u h s) = ownerTransaction s" "hdr_object (resetObjects u h s) = hdr_object s" "contents (resetObjects u h s) = contents s"
  "status (txs (resetObjects u h s) t) = status (txs s t)" "readOnlyObjects (txs (resetObjects u h s) t) = readOnlyObjects (txs s t)"
  "readWriteObjects (txs (resetObjects u h s) t) = readWriteObjects (txs s t)" "t \<noteq> u \<Longrightarrow> txs (resetObjects u h s) t = txs s t"
  by (auto simp: resetObjects_def upd_tx_def put_handle_def)

lemma discardObject_sel [simp]:
  "hdr_object (discardObject u h s) = hdr_object s" "contents (discardObject u h s) = contents s" "txs (discardObject u h s) = txs s"
  by (simp_all add: discardObject_def)

lemma published_sel:
  "(\<And>t. status (txs s' t) = status (txs s t)) \<Longrightarrow> (\<And>t. readWriteObjects (txs s' t) = readWriteObjects (txs s t)) \<Longrightarrow> published s' = published s"
  by (auto simp: published_def fun_eq_iff)

lemma mem_ok_setState:
  assumes "stm_ok E s" "E u" "\<not> decided a" "b \<noteq> INITIAL"
  shows "stm_ok E (setState u a b s) \<and> stable E s (setState u a b s)"
proof
  show st: "stable E s (setState u a b s)" using assms by (auto simp: stable_def)
  show "stm_ok E (setState u a b s)"
  proof (rule mem_ok_stable [OF assms(1) st])
    show "published (setState u a b s) h (hdr_object (setState u a b s) h)" for h
      using published_stable [OF _ st mem_ok_committed [OF assms(1)]] assms(1) by (simp add: stm_ok_def)
    show "txs (setState u a b s) t = txs s t" if "\<not> E t" for t using that assms(2) by (intro setState_sel(8)) auto
  qed (use assms in \<open>auto simp: stm_ok_def\<close>)
qed

lemma mem_ok_owner:
  assumes "stm_ok E s" "case o' of None \<Rightarrow> True | Some u \<Rightarrow> E u"
  shows "stm_ok E (s\<lparr>ownerTransaction := (ownerTransaction s)(h := o')\<rparr>)"
proof -
  let ?s = "s\<lparr>ownerTransaction := (ownerTransaction s)(h := o')\<rparr>"
  have "published ?s = published s" by (rule published_sel) auto
  then show ?thesis using assms by (auto simp: stm_ok_def handles_ok_def split: option.splits if_splits)
qed

lemma mem_ok_install:
  assumes "stm_ok E s" "published s h p"
  shows "stm_ok E (s\<lparr>hdr_object := (hdr_object s)(h := p)\<rparr>)"
proof -
  let ?s = "s\<lparr>hdr_object := (hdr_object s)(h := p)\<rparr>"
  have "published ?s = published s" by (rule published_sel) auto
  then show ?thesis using assms by (auto simp: stm_ok_def handles_ok_def)
qed

lemma mem_ok_reset:
  assumes "stm_ok E s" "E u" "h \<in> set (readWriteObjects (txs s u))"
  shows "stm_ok E (resetObjects u h s)"
proof -
  have pub: "published (resetObjects u h s) = published s" by (rule published_sel) auto
  have "handles_ok (resetObjects u h s) (\<not> E t) t" for t
  proof (cases "t = u")
    case True
    have "handles_ok s (\<not> E u) u" using assms(1) unfolding stm_ok_def by blast
    then show ?thesis using True assms(2,3) unfolding handles_ok_def Let_def pub resetObjects_sel
      by (auto simp: resetObjects_def upd_tx_def put_handle_def handle_of_def split: if_splits)
  next
    case False
    then have "txs (resetObjects u h s) t = txs s t" by simp
    then show ?thesis using assms(1) unfolding handles_ok_def Let_def pub stm_ok_def by auto
  qed
  then show ?thesis using assms unfolding stm_ok_def pub by simp
qed

fun next_ok :: "(txid \<Rightarrow> bool) \<Rightarrow> 'v stm \<Rightarrow> txid \<Rightarrow> tx_next \<Rightarrow> bool" where
  "next_ok E s u (Goto pc) \<longleftrightarrow> pc_ok E (txs s u) u pc"
| "next_ok E s u (Help v pc) \<longleftrightarrow> E v \<and> pc_ok E (txs s u) u pc"

text \<open>Every step of a commit, by the transaction's own thread or a helper.\<close>

lemma acquire_ok:
  assumes "stm_ok E s" "E u" "pc_ok E (txs s u) u pc" "acquire_step u pc s = (nx, s')"
    and "acquiring pc"
  shows "stm_ok E s' \<and> stable E s s' \<and> next_ok E s' u nx \<and> contents s' = contents s"
  using assms(5)
proof (elim disjE exE)
  fix i assume pc: "pc = Acquire i"
  show ?thesis
  proof (cases "i < length (readWriteObjects (txs s u))")
    case True
    then show ?thesis using assms(1-4) pc mem_ok_owner [OF assms(1), of "Some u" "readWriteObjects (txs s u) ! i"]
      by (auto simp: acquireHeader_def stable_def stm_ok_def split: option.splits if_splits)
  qed (use assms pc in auto)
qed (use assms in \<open>auto simp: decided_def stm_ok_def split: if_splits\<close>)

lemma validate_ok:
  assumes "stm_ok E s" "E u" "pc_ok E (txs s u) u pc" "validateReadOnlyObjects u pc s = (nx, s')"
    and "validating pc"
  shows "stm_ok E s' \<and> stable E s s' \<and> next_ok E s' u nx \<and> contents s' = contents s"
  using assms(5)
proof (elim disjE exE)
  fix i assume "pc = Read_owner i"
  then show ?thesis using assms by (auto simp: stm_ok_def split: option.splits)
next
  fix i c assume "pc = Abort_other i c"
  then show ?thesis using assms mem_ok_setState [OF assms(1), of c READ_CHECKING ABORTED] by (auto simp: decided_def)
next
  assume "pc = Begin_checking"
  then show ?thesis using assms mem_ok_setState [OF assms(1,2), of UNDECIDED READ_CHECKING] by (auto simp: decided_def)
qed (use assms in \<open>auto simp: decided_def split: if_splits\<close>)

lemma not_initial: "stm_ok E s \<Longrightarrow> E u \<Longrightarrow> status (txs s u) \<noteq> INITIAL"
  unfolding stm_ok_def by meson

lemma not_pending: "stm_ok E s \<Longrightarrow> E u \<Longrightarrow> pending_status (status (txs s u)) \<longleftrightarrow> \<not> decided (status (txs s u))"
  using not_initial [of E s u] by (cases "status (txs s u)") (auto simp: pending_status_def decided_def)

lemma finish_ok:
  assumes m: "stm_ok E s" "E u" and pc: "pc_ok E (txs s u) u pc" and st: "tryFinishCommit u pc s = (nx, s')"
  shows "stm_ok E s' \<and> stable E s s' \<and> next_ok E s' u nx \<and> contents s' = contents s"
proof (cases pc)
  case (Finish d)
  then show ?thesis using assms not_pending [OF m] by auto
next
  case (Push_status old d)
  show ?thesis
  proof (cases "pending_status old \<and> status (txs s u) = old")
    case True
    then have "\<not> decided old" "d \<noteq> INITIAL" using pc Push_status by (auto simp: pending_status_def decided_def)
    then show ?thesis using True Push_status st pc mem_ok_setState [OF m, of old d] by auto
  next
    case False
    then show ?thesis using assms Push_status not_pending [OF m] by (auto split: if_splits)
  qed
next
  case (Release i)
  have "handles_ok s (\<not> E u) u" using m unfolding stm_ok_def by blast
  then have "objectCopy (handle_of u h s) = None \<or> objectCopy (handle_of u h s) = Some (Clone u h)" for h
    unfolding handles_ok_def Let_def handle_of_def by (auto split: option.splits)
  then show ?thesis using assms Release by (auto simp: decided_def)
next
  case (Release_owner i cp)
  then show ?thesis using assms by (auto split: option.splits)
next
  case (Release_cas i cp c)
  then show ?thesis using assms mem_ok_owner [OF m(1), of None] by (auto simp: Let_def stable_def split: option.splits if_splits)
next
  case (Release_write i p)
  then have "published s (readWriteObjects (txs s u) ! i) p" using pc by (auto simp: published_def)
  then show ?thesis using Release_write assms mem_ok_install [OF m(1)] by (auto simp: stable_def)
next
  case (Discard i)
  have "stm_ok E (discardObject u h s)" for h using m mem_ok_owner [OF m(1), of None h] by (simp add: discardObject_def)
  then show ?thesis using assms Discard by (auto simp: stable_def decided_def split: if_splits)
qed (use assms in \<open>auto simp: stable_def decided_def split: if_splits intro!: mem_ok_reset\<close>)

lemma doCommit_ok:
  assumes "stm_ok E s" "E u" "pc_ok E (txs s u) u pc" "doCommit u pc s = (nx, s')"
  shows "stm_ok E s' \<and> stable E s s' \<and> next_ok E s' u nx \<and> contents s' = contents s"
proof -
  from doCommit_phase [of u pc s] consider "doCommit u pc s = acquire_step u pc s \<and> acquiring pc"
    | "doCommit u pc s = validateReadOnlyObjects u pc s \<and> validating pc" | "doCommit u pc s = tryFinishCommit u pc s" by blast
  then show ?thesis
  proof cases
    case 1
    then have "acquire_step u pc s = (nx, s')" using assms(4) by simp
    then show ?thesis using acquire_ok [OF assms(1-3)] 1 by blast
  next
    case 2
    then have "validateReadOnlyObjects u pc s = (nx, s')" using assms(4) by simp
    then show ?thesis using validate_ok [OF assms(1-3)] 2 by blast
  next
    case 3
    then have "tryFinishCommit u pc s = (nx, s')" using assms(4) by simp
    then show ?thesis using finish_ok [OF assms(1-3)] 3 by blast
  qed
qed

text \<open>The running task opens objects. \<open>opened_value\<close> is what it sees of a header.\<close>

definition opened_value :: "'v stm \<Rightarrow> txid \<Rightarrow> (header \<Rightarrow> 'v) \<Rightarrow> header \<Rightarrow> 'v" where
  "opened_value s t \<sigma> h = (case openedObjets (txs s t) h of None \<Rightarrow> \<sigma> h
     | Some x \<Rightarrow> (case objectCopy x of Some p \<Rightarrow> contents s p | None \<Rightarrow> \<sigma> h))"

text \<open>\<open>\<sigma>\<close> agrees with the versions that transaction \<open>t\<close> opened.\<close>

definition consistent :: "'v stm \<Rightarrow> txid \<Rightarrow> (header \<Rightarrow> 'v) \<Rightarrow> bool" where
  "consistent s t \<sigma> \<longleftrightarrow> (\<forall>h x p. openedObjets (txs s t) h = Some x \<longrightarrow> hd_object x = Some p \<longrightarrow> \<sigma> h = contents s p)"

definition only_tx :: "txid \<Rightarrow> 'v stm \<Rightarrow> 'v stm \<Rightarrow> bool" where
  "only_tx t s s' \<longleftrightarrow> ownerTransaction s' = ownerTransaction s \<and> hdr_object s' = hdr_object s \<and> (\<forall>u. u \<noteq> t \<longrightarrow> txs s' u = txs s u) \<and>
     (\<forall>p. (\<forall>h. p \<noteq> Clone t h) \<longrightarrow> contents s' p = contents s p)"

lemma handles_ok_opened:
  assumes "handles_ok s True t" "openedObjets (txs s t) h = Some x"
  shows "\<exists>p. hd_object x = Some p \<and> published s h p" "if h \<in> set (readWriteObjects (txs s t)) then objectCopy x = Some (Clone t h) else objectCopy x = None"
    "h \<in> set (readOnlyObjects (txs s t)) \<longleftrightarrow> h \<notin> set (readWriteObjects (txs s t))"
proof -
  have "(\<forall>p. hd_object x = Some p \<longrightarrow> published s h p) \<and> (objectCopy x = None \<or> objectCopy x = Some (Clone t h)) \<and>
      hd_object x \<noteq> None \<and> (objectCopy x \<noteq> None \<longleftrightarrow> h \<in> set (readWriteObjects (txs s t)))"
    and "set (readOnlyObjects (txs s t)) \<inter> set (readWriteObjects (txs s t)) = {}" "h \<in> set (readOnlyObjects (txs s t)) \<union> set (readWriteObjects (txs s t))"
    using assms unfolding handles_ok_def Let_def by (blast, blast, metis domI)
  then show "\<exists>p. hd_object x = Some p \<and> published s h p" "if h \<in> set (readWriteObjects (txs s t)) then objectCopy x = Some (Clone t h) else objectCopy x = None"
    "h \<in> set (readOnlyObjects (txs s t)) \<longleftrightarrow> h \<notin> set (readWriteObjects (txs s t))" by auto
qed

lemma handles_ok_fresh:
  assumes "handles_ok s r t" "openedObjets (txs s t) h = None"
  shows "h \<notin> set (readOnlyObjects (txs s t)) \<and> h \<notin> set (readWriteObjects (txs s t))"
proof -
  have "dom (openedObjets (txs s t)) = set (readOnlyObjects (txs s t)) \<union> set (readWriteObjects (txs s t))"
    using assms(1) by (simp add: handles_ok_def Let_def)
  then show ?thesis using assms(2) by (metis Un_iff domIff)
qed

lemma openObject_ok:
  assumes ok: "handles_ok s True t" "published s h (hdr_object s h)" "status (txs s t) \<noteq> COMMITTED"
  shows "\<exists>p s'. openObject t h s = Inr (p, s') \<and> only_tx t s s' \<and> contents s' = contents s \<and> status (txs s' t) = status (txs s t) \<and> handles_ok s' True t \<and>
    (\<forall>\<sigma>. consistent s' t \<sigma> \<longrightarrow> consistent s t \<sigma> \<and> contents s p = opened_value s t \<sigma> h \<and> opened_value s' t \<sigma> = opened_value s t \<sigma>)"
proof (cases "openedObjets (txs s t) h")
  case None
  let ?hd = "\<lparr>hd_object = Some (hdr_object s h), objectCopy = None, currentType = READ\<rparr>"
  let ?s = "upd_tx t (\<lambda>x. put_handle h ?hd (x\<lparr>readOnlyObjects := addHandle h (readOnlyObjects x)\<rparr>)) s"
  have "published ?s = published s" by (rule published_sel) (auto simp: upd_tx_def put_handle_def)
  then have "handles_ok ?s True t" using ok None handles_ok_fresh [OF ok(1) None] unfolding handles_ok_def Let_def
    by (auto simp: upd_tx_def put_handle_def strict_addHandle split: if_splits)
  moreover have "openObject t h s = Inr (hdr_object s h, ?s)"
    using None ok by (simp add: openObject_def handle_of_def upd_tx_def put_handle_def local_object_def)
  moreover have "consistent s t \<sigma> \<and> contents s (hdr_object s h) = opened_value s t \<sigma> h \<and> opened_value ?s t \<sigma> = opened_value s t \<sigma>" if "consistent ?s t \<sigma>" for \<sigma>
  proof -
    have c: "\<sigma> k = contents s p" if "(if k = h then Some ?hd else openedObjets (txs s t) k) = Some x" "hd_object x = Some p" for k x p
      using \<open>consistent ?s t \<sigma>\<close> that by (auto simp: consistent_def upd_tx_def put_handle_def split: if_splits)
    have "consistent s t \<sigma>" using c None unfolding consistent_def by (metis option.distinct(1))
    moreover have "\<sigma> h = contents s (hdr_object s h)" using c [of h ?hd] by simp
    ultimately show ?thesis using None by (auto simp: opened_value_def upd_tx_def put_handle_def fun_eq_iff split: option.splits if_splits)
  qed
  ultimately show ?thesis by (auto simp: only_tx_def upd_tx_def put_handle_def)
next
  case (Some x)
  from handles_ok_opened(1) [OF ok(1) Some] obtain p where "hd_object x = Some p" by auto
  then show ?thesis using Some ok
    by (auto simp: openObject_def handle_of_def local_object_def only_tx_def consistent_def opened_value_def split: option.splits)
qed

lemma openObjectForWrite_ok:
  assumes ok: "handles_ok s True t" "published s h (hdr_object s h)" "status (txs s t) \<noteq> COMMITTED"
  shows "\<exists>s'. openObjectForWrite t h s = Inr (Clone t h, s') \<and> only_tx t s s' \<and> status (txs s' t) = status (txs s t) \<and> handles_ok s' True t \<and>
    h \<in> set (readWriteObjects (txs s' t)) \<and>
    (\<forall>\<sigma>. consistent s' t \<sigma> \<longrightarrow> consistent s t \<sigma> \<and> contents s' (Clone t h) = opened_value s t \<sigma> h \<and> opened_value s' t \<sigma> = opened_value s t \<sigma>)"
proof -
  have pub: "\<exists>u. p = Clone u k \<and> status (txs s u) = COMMITTED" if "published s k p" "p \<noteq> Original k" for k p
    using that by (auto simp: published_def)
  have copy_of: "objectCopy x = None \<or> objectCopy x = Some (Clone t k)" if "openedObjets (txs s t) k = Some x" for k x
    using handles_ok_opened(2) [OF ok(1) that] by (auto split: if_splits)
  have no_clone: "p \<noteq> Clone t k'" if "published s k p" for k k' p using that ok(3) by (auto simp: published_def)
  show ?thesis
  proof (cases "openedObjets (txs s t) h")
    case None
    let ?hd = "\<lparr>hd_object = Some (hdr_object s h), objectCopy = Some (Clone t h), currentType = WRITE\<rparr>"
    let ?s = "upd_tx t (\<lambda>x. put_handle h ?hd (x\<lparr>readWriteObjects := addHandle h (readWriteObjects x)\<rparr>)) (clone t h (hdr_object s h) s)"
    have "published s k p \<Longrightarrow> published ?s k p" for k p by (auto simp: published_def upd_tx_def put_handle_def clone_def)
    then have "handles_ok ?s True t" using ok None handles_ok_fresh [OF ok(1) None] unfolding handles_ok_def Let_def
      by (auto simp: upd_tx_def put_handle_def clone_def strict_addHandle split: if_splits)
    moreover have "openObjectForWrite t h s = Inr (Clone t h, ?s)"
      using None ok by (simp add: openObjectForWrite_def handle_of_def upd_tx_def put_handle_def clone_def)
    moreover have "consistent s t \<sigma> \<and> contents ?s (Clone t h) = opened_value s t \<sigma> h \<and> opened_value ?s t \<sigma> = opened_value s t \<sigma>" if c: "consistent ?s t \<sigma>" for \<sigma>
    proof -
      have c1: "\<sigma> h = contents s (hdr_object s h)"
        using c no_clone [OF ok(2)] by (auto simp: consistent_def upd_tx_def put_handle_def clone_def)
      have "\<sigma> k = contents s p" if x: "openedObjets (txs s t) k = Some x" "hd_object x = Some p" for k x p
        using c x None no_clone [of k p] handles_ok_opened(1) [OF ok(1) x(1)]
        by (cases "k = h") (auto simp: consistent_def upd_tx_def put_handle_def clone_def split: if_splits)
      moreover have "opened_value ?s t \<sigma> k = opened_value s t \<sigma> k" for k
      proof (cases "k = h")
        case True
        then show ?thesis using None c1 by (simp add: opened_value_def upd_tx_def put_handle_def clone_def)
      next
        case False
        then show ?thesis using copy_of [of k] by (cases "openedObjets (txs s t) k") (auto simp: opened_value_def upd_tx_def put_handle_def clone_def split: option.splits)
      qed
      ultimately show ?thesis using None c1 by (auto simp: consistent_def opened_value_def upd_tx_def put_handle_def clone_def)
    qed
    ultimately show ?thesis by (auto simp: only_tx_def upd_tx_def put_handle_def clone_def)
  next
    case (Some x)
    from handles_ok_opened(1) [OF ok(1) Some] obtain p where p: "hd_object x = Some p" "published s h p" by auto
    show ?thesis
    proof (cases "h \<in> set (readOnlyObjects (txs s t))")
      case False
      then show ?thesis using Some ok handles_ok_opened [OF ok(1) Some] 
        by (auto simp: openObjectForWrite_def handle_of_def only_tx_def consistent_def opened_value_def)
    next
      case True
      then have nw: "h \<notin> set (readWriteObjects (txs s t))" "objectCopy x = None" using handles_ok_opened [OF ok(1) Some] by auto
      let ?s = "upd_tx t (\<lambda>y. put_handle h (x\<lparr>objectCopy := Some (Clone t h), currentType := WRITE\<rparr>)
        (y\<lparr>readOnlyObjects := removeHandle h (readOnlyObjects y), readWriteObjects := addHandle h (readWriteObjects y)\<rparr>)) (clone t h p s)"
      have pub': "published s k q \<Longrightarrow> published ?s k q" for k q by (auto simp: published_def upd_tx_def put_handle_def clone_def)
      have "handles_ok ?s True t" using ok Some p(1) pub'
        unfolding handles_ok_def Let_def
        by (auto simp: upd_tx_def put_handle_def clone_def strict_addHandle strict_removeHandle set_removeHandle split: if_splits)
      moreover have "openObjectForWrite t h s = Inr (Clone t h, ?s)"
        using Some True p ok by (simp add: openObjectForWrite_def handle_of_def upd_tx_def put_handle_def clone_def)
      moreover have "consistent s t \<sigma> \<and> contents ?s (Clone t h) = opened_value s t \<sigma> h \<and> opened_value ?s t \<sigma> = opened_value s t \<sigma>" if c: "consistent ?s t \<sigma>" for \<sigma>
      proof -
        have c1: "\<sigma> h = contents s p"
          using c p no_clone [OF p(2)] by (auto simp: consistent_def upd_tx_def put_handle_def clone_def)
        have "\<sigma> k = contents s q" if y: "openedObjets (txs s t) k = Some y" "hd_object y = Some q" for k y q
          using c c1 y Some p no_clone [of k q] handles_ok_opened(1) [OF ok(1) y(1)]
          by (cases "k = h") (auto simp: consistent_def upd_tx_def put_handle_def clone_def split: if_splits)
        moreover have "opened_value ?s t \<sigma> k = opened_value s t \<sigma> k" for k
        proof (cases "k = h")
          case True
          then show ?thesis using Some nw c1 by (simp add: opened_value_def upd_tx_def put_handle_def clone_def)
        next
          case False
          then show ?thesis using copy_of [of k] by (cases "openedObjets (txs s t) k") (auto simp: opened_value_def upd_tx_def put_handle_def clone_def split: option.splits)
        qed
        ultimately show ?thesis using Some nw c1 by (auto simp: consistent_def opened_value_def upd_tx_def put_handle_def clone_def)
      qed
      ultimately show ?thesis by (auto simp: only_tx_def upd_tx_def put_handle_def clone_def)
    qed
  qed
qed

lemma mem_ok_running:
  assumes "stm_ok E s" "\<not> E t" "only_tx t s s'" "handles_ok s' True t" "status (txs s' t) \<noteq> COMMITTED" "status (txs s' t) \<noteq> READ_CHECKING"
  shows "stm_ok E s' \<and> stable E s s'"
proof
  show "stable E s s'" using assms(2,3) by (auto simp: stable_def only_tx_def)
  have other: "u \<noteq> t \<Longrightarrow> txs s' u = txs s u" for u using assms(3) by (simp add: only_tx_def)
  have "status (txs s t) \<noteq> COMMITTED" using mem_ok_committed [OF assms(1)] assms(2) by blast
  then have "status (txs s' u) = COMMITTED \<and> h \<in> set (readWriteObjects (txs s' u)) \<longleftrightarrow> status (txs s u) = COMMITTED \<and> h \<in> set (readWriteObjects (txs s u))" for u h
    using other [of u] assms(5) by (cases "u = t") auto
  then have pub: "published s' = published s" by (auto simp: published_def fun_eq_iff)
  have h: "handles_ok s' (\<not> E u) u" for u
  proof (cases "u = t")
    case False
    have "handles_ok s (\<not> E u) u" using assms(1) unfolding stm_ok_def by blast
    then show ?thesis using other [OF False] unfolding handles_ok_def Let_def pub by simp
  qed (use assms in simp)
  moreover have "if E u then status (txs s' u) \<noteq> INITIAL else status (txs s' u) \<noteq> COMMITTED \<and> status (txs s' u) \<noteq> READ_CHECKING" for u
    using assms(2,5,6) other [of u] stm_ok_def [of E s] assms(1) by (cases "u = t") auto
  ultimately show "stm_ok E s'" using assms(1,3) unfolding stm_ok_def only_tx_def pub by simp
qed

text \<open>The step of a running task, as one lemma for all its forms.\<close>

definition serial_step :: "'v stm \<Rightarrow> 'v stm \<Rightarrow> txid \<Rightarrow> 'v tx_task \<Rightarrow> 'v tx_task \<Rightarrow> bool" where
  "serial_step s s' t p p' \<longleftrightarrow> (\<forall>\<sigma>. consistent s' t \<sigma> \<longrightarrow> consistent s t \<sigma> \<and>
     (case p of Get h k \<Rightarrow> p' = k (opened_value s t \<sigma> h) \<and> opened_value s' t \<sigma> = opened_value s t \<sigma>
      | Update h f \<Rightarrow> (case f (opened_value s t \<sigma> h) of (v, k) \<Rightarrow> p' = k \<and> opened_value s' t \<sigma> = (opened_value s t \<sigma>)(h := v))
      | _ \<Rightarrow> opened_value s' t \<sigma> = opened_value s t \<sigma>))"

lemma run_task_ok:
  assumes inv: "tx_inv c" and run: "\<not> engaged c t"
  shows "\<exists>c'. run_task t c = Inr c' \<and> only_tx t (memory c) (memory c') \<and> handles_ok (memory c') True t \<and>
    (case todo c t of Done \<Rightarrow> c' = c\<lparr>calls := (calls c)(t := [(t, Start)])\<rparr>
     | Abort \<Rightarrow> calls c' = calls c \<and> todo c' = (todo c)(t := Done) \<and> status (txs (memory c') t) = ABORTED
     | _ \<Rightarrow> calls c' = calls c \<and> (\<exists>p. todo c' = (todo c)(t := p)) \<and> status (txs (memory c') t) = status (txs (memory c) t)) \<and>
    serial_step (memory c) (memory c') t (todo c t) (todo c' t)"
proof -
  let ?s = "memory c"
  have ok: "handles_ok ?s True t" "\<And>h. published ?s h (hdr_object ?s h)" "status (txs ?s t) \<noteq> COMMITTED"
    using inv run unfolding tx_inv_mem stm_ok_def by (metis, metis, metis)
  show ?thesis
  proof (cases "todo c t")
    case Done
    then show ?thesis using ok by (auto simp: run_task_def only_tx_def serial_step_def)
  next
    case Abort
    let ?s' = "upd_tx t (\<lambda>x. x\<lparr>status := ABORTED\<rparr>) ?s"
    have "published ?s' = published ?s" using ok(3) by (auto simp: published_def upd_tx_def fun_eq_iff)
    then have "handles_ok ?s' True t" using ok(1) unfolding handles_ok_def Let_def by (simp add: upd_tx_def)
    moreover have "only_tx t ?s ?s'" by (simp add: only_tx_def upd_tx_def)
    moreover have "consistent ?s' t = consistent ?s t" "opened_value ?s' t = opened_value ?s t"
      by (auto simp: consistent_def opened_value_def upd_tx_def fun_eq_iff split: option.splits)
    moreover have "status (txs ?s' t) = ABORTED" by (simp add: upd_tx_def)
    ultimately show ?thesis using Abort by (intro exI [of _ "c\<lparr>memory := ?s', todo := (todo c)(t := Done)\<rparr>"]) (simp add: run_task_def serial_step_def Let_def)
  next
    case (Get h k)
    from openObject_ok [OF ok(1,2,3), of h] obtain p s' where o: "openObject t h ?s = Inr (p, s')" "only_tx t ?s s'" "contents s' = contents ?s"
      "status (txs s' t) = status (txs ?s t)" "handles_ok s' True t"
      "\<And>\<sigma>. consistent s' t \<sigma> \<Longrightarrow> consistent ?s t \<sigma> \<and> contents ?s p = opened_value ?s t \<sigma> h \<and> opened_value s' t \<sigma> = opened_value ?s t \<sigma>" by blast
    then show ?thesis using Get by (auto simp: run_task_def serial_step_def)
  next
    case (Update h f)
    from openObjectForWrite_ok [OF ok(1,2,3), of h] obtain s' where o: "openObjectForWrite t h ?s = Inr (Clone t h, s')" "only_tx t ?s s'"
      "status (txs s' t) = status (txs ?s t)" "handles_ok s' True t" "h \<in> set (readWriteObjects (txs s' t))"
      "\<And>\<sigma>. consistent s' t \<sigma> \<Longrightarrow> consistent ?s t \<sigma> \<and> contents s' (Clone t h) = opened_value ?s t \<sigma> h \<and> opened_value s' t \<sigma> = opened_value ?s t \<sigma>" by blast
    obtain v k where f: "f (contents s' (Clone t h)) = (v, k)" by force
    let ?s' = "s'\<lparr>contents := (contents s')(Clone t h := v)\<rparr>"
    have pub: "published ?s' = published s'" by (rule published_sel) auto
    have h': "handles_ok ?s' True t" using o(4) unfolding handles_ok_def Let_def pub by simp
    have nc: "hd_object x \<noteq> Some (Clone t h')" if "openedObjets (txs s' t) k' = Some x" for k' x h'
      using handles_ok_opened(1) [OF o(4) that] ok(3) o(3) by (auto simp: published_def)
    have cons: "consistent s' t \<sigma>" if "consistent ?s' t \<sigma>" for \<sigma>
      using that nc unfolding consistent_def by (auto split: if_splits)
    have val: "opened_value ?s' t \<sigma> = (opened_value s' t \<sigma>)(h := v)" for \<sigma>
    proof
      fix k'
      have "h \<in> dom (openedObjets (txs s' t))" using o(4,5) by (simp add: handles_ok_def Let_def)
      then obtain x where x: "openedObjets (txs s' t) h = Some x" "objectCopy x = Some (Clone t h)"
        using handles_ok_opened(2) [OF o(4)] o(5) by (metis domD)
      show "opened_value ?s' t \<sigma> k' = ((opened_value s' t \<sigma>)(h := v)) k'"
      proof (cases "k' = h")
        case False
        have "objectCopy y = None \<or> objectCopy y = Some (Clone t k')" if "openedObjets (txs s' t) k' = Some y" for y
          using handles_ok_opened(2) [OF o(4) that] by (auto split: if_splits)
        then show ?thesis using False by (cases "openedObjets (txs s' t) k'") (auto simp: opened_value_def split: option.splits)
      qed (use x in \<open>simp add: opened_value_def\<close>)
    qed
    moreover have "only_tx t ?s ?s'" using o(2) by (auto simp: only_tx_def)
    moreover have "run_task t c = Inr (c\<lparr>memory := ?s', todo := (todo c)(t := k)\<rparr>)" using o(1) Update f by (simp add: run_task_def)
    moreover have "serial_step ?s ?s' t (Update h f) k"
      unfolding serial_step_def
    proof (intro allI impI)
      fix \<sigma> assume "consistent ?s' t \<sigma>"
      note c = o(6) [OF cons [OF this]]
      then have "f (opened_value ?s t \<sigma> h) = (v, k)" using f by simp
      then show "consistent ?s t \<sigma> \<and> (case Update h f of Get h k' \<Rightarrow> k = k' (opened_value ?s t \<sigma> h) \<and> opened_value ?s' t \<sigma> = opened_value ?s t \<sigma>
        | Update h f \<Rightarrow> (case f (opened_value ?s t \<sigma> h) of (v, k') \<Rightarrow> k = k' \<and> opened_value ?s' t \<sigma> = (opened_value ?s t \<sigma>)(h := v))
        | _ \<Rightarrow> opened_value ?s' t \<sigma> = opened_value ?s t \<sigma>)" using c val [of \<sigma>] by simp
    qed
    ultimately show ?thesis using Update h' o(3) by (intro exI [of _ "c\<lparr>memory := ?s', todo := (todo c)(t := k)\<rparr>"]) auto
  qed
qed

lemma pc_ok_mono: "pc_ok E x u pc \<Longrightarrow> (\<And>v. E v \<Longrightarrow> E' v) \<Longrightarrow> pc_ok E' x u pc"
  by (cases pc) auto

lemma handles_ok_weaken: "handles_ok s True t \<Longrightarrow> handles_ok s False t"
  unfolding handles_ok_def Let_def by auto

text \<open>What one step of thread \<open>t\<close> keeps.\<close>

definition tx_safe :: "'v tx_sys \<Rightarrow> 'v tx_sys \<Rightarrow> bool" where
  "tx_safe c c' \<longleftrightarrow> tx_inv c' \<and> stable (engaged c) (memory c) (memory c') \<and> (\<forall>u. engaged c u \<longrightarrow> engaged c' u) \<and>
     (\<forall>h p. published (memory c) h p \<longrightarrow> contents (memory c') p = contents (memory c) p)"

lemma tx_safe_running:
  assumes inv: "tx_inv c" and t: "\<not> engaged c t" and only: "only_tx t (memory c) (memory c')" and h: "handles_ok (memory c') True t"
    and st: "status (txs (memory c') t) \<noteq> COMMITTED" "status (txs (memory c') t) \<noteq> READ_CHECKING"
    and same: "calls c' = calls c" "\<And>u. u \<noteq> t \<Longrightarrow> todo c' u = todo c u"
  shows "tx_safe c c'"
proof -
  have E: "engaged c' = engaged c" using same(1) by (auto simp: engaged_def)
  have m: "stm_ok (engaged c) (memory c')" "stable (engaged c) (memory c) (memory c')"
    using mem_ok_running [of "engaged c", OF _ t only h st] inv by (simp_all add: tx_inv_mem)
  have "tx_inv c'"
    unfolding tx_inv_mem E same(1)
  proof (intro conjI allI impI)
    show "todo c' u = Done" if "engaged c u" for u using that same(2) [of u] t inv by (auto simp: tx_inv_mem)
    show "engaged c u" if "(u, pc) \<in> set (calls c v)" for v u pc using inv that by (simp add: tx_inv_mem)
    show "pc_ok (engaged c) (txs (memory c') u) u pc" if "(u, pc) \<in> set (calls c v)" for v u pc
      using inv that pc_ok_stable [OF _ m(2)] by (simp add: tx_inv_mem)
  qed (rule m(1))
  moreover have "contents (memory c') p = contents (memory c) p" if "published (memory c) h p" for h p
  proof -
    have "p \<noteq> Clone t k" for k using that mem_ok_committed [of "engaged c" "memory c" t] inv t by (auto simp: published_def tx_inv_mem)
    then show ?thesis using only by (simp add: only_tx_def)
  qed
  ultimately show ?thesis using m(2) E by (simp add: tx_safe_def)
qed

lemma tx_safe_engage:
  assumes inv: "tx_inv c" and t: "\<not> engaged c t" "todo c t = Done" "status (txs (memory c) t) \<noteq> INITIAL"
  shows "tx_safe c (c\<lparr>calls := (calls c)(t := [(t, Start)])\<rparr>)" (is "tx_safe c ?c")
proof -
  have E: "engaged ?c u \<longleftrightarrow> engaged c u \<or> u = t" for u by (auto simp: engaged_def)
  have m: "stm_ok (engaged c) (memory c)" using inv by (simp add: tx_inv_mem)
  have "stm_ok (engaged ?c) (memory c)"
    unfolding stm_ok_def
  proof (intro conjI allI impI)
    show "if engaged ?c u then status (txs (memory c) u) \<noteq> INITIAL else status (txs (memory c) u) \<noteq> COMMITTED \<and> status (txs (memory c) u) \<noteq> READ_CHECKING" for u
      using m t(3) unfolding E stm_ok_def by (cases "u = t") auto
    show "handles_ok (memory c) (\<not> engaged ?c u) u" for u
    proof (cases "u = t")
      case True
      have "handles_ok (memory c) (\<not> engaged c t) t" using m unfolding stm_ok_def by blast
      then show ?thesis using True t handles_ok_weaken by (auto simp: E)
    next
      case False
      then show ?thesis using m unfolding E stm_ok_def by auto
    qed
  qed (use m in \<open>auto simp: stm_ok_def E\<close>)
  moreover have "engaged ?c u \<and> pc_ok (engaged ?c) (txs (memory c) u) u pc" if "(u, pc) \<in> set (calls ?c v)" for v u pc
  proof (cases "v = t")
    case False
    then have "engaged c u \<and> pc_ok (engaged c) (txs (memory c) u) u pc" using inv that by (simp add: tx_inv_mem)
    then show ?thesis using pc_ok_mono [of "engaged c" _ u pc "engaged ?c"] E by blast
  qed (use that in \<open>simp add: E\<close>)
  moreover have "todo c u = Done" if "engaged ?c u" for u using that inv t(2) by (auto simp: E tx_inv_mem)
  ultimately show ?thesis by (simp add: tx_safe_def tx_inv_mem E)
qed

lemma tx_safe_commit:
  assumes inv: "tx_inv c" and fr: "calls c t = (u, pc) # fs" and cm: "doCommit u pc (memory c) = (nx, s')"
  shows "tx_safe c (c\<lparr>memory := s', calls := (calls c)(t := (case nx of Goto pc' \<Rightarrow> (u, pc') # fs | Help v pc' \<Rightarrow> (v, Start) # (u, pc') # fs))\<rparr>)" (is "tx_safe c ?c")
proof -
  have E: "engaged ?c = engaged c" using fr by (auto simp: engaged_def fun_eq_iff split: tx_next.splits)
  have u: "engaged c u" "pc_ok (engaged c) (txs (memory c) u) u pc" using inv fr unfolding tx_inv_mem by (metis list.set_intros(1))+
  have m: "stm_ok (engaged c) (memory c)" using inv by (simp add: tx_inv_mem)
  note st = doCommit_ok [OF m u cm]
  have "engaged c v \<and> pc_ok (engaged c) (txs s' v) v q" if "(v, q) \<in> set (calls ?c w)" for w v q
  proof (cases "\<exists>w. (v, q) \<in> set (calls c w)")
    case True
    then have "engaged c v" "pc_ok (engaged c) (txs (memory c) v) v q" using inv by (auto simp: tx_inv_mem)
    then show ?thesis using pc_ok_stable st by blast
  next
    case False
    then have "w = t" "(v, q) \<notin> set (calls c t)" using that by (auto split: if_splits)
    then have "(v, q) \<in> set (case nx of Goto pc' \<Rightarrow> (u, pc') # fs | Help v pc' \<Rightarrow> (v, Start) # (u, pc') # fs)" "(v, q) \<notin> set fs"
      using that fr by auto
    then show ?thesis using st u(1) by (auto split: tx_next.splits)
  qed
  then show ?thesis using st inv unfolding tx_safe_def tx_inv_mem E by simp
qed

lemma tx_step_safe:
  assumes inv: "tx_inv c" and st: "tx_step t c = Some r"
  shows "\<exists>c'. r = Inr c' \<and> tx_safe c c'"
proof (cases "engaged c t")
  case False
  then have t: "calls c t = []" by (simp add: engaged_def)
  have m: "stm_ok (engaged c) (memory c)" using inv by (simp add: tx_inv_mem)
  have s: "handles_ok (memory c) True t" "status (txs (memory c) t) \<noteq> COMMITTED" "status (txs (memory c) t) \<noteq> READ_CHECKING"
    using m False unfolding stm_ok_def by metis+
  show ?thesis
  proof (cases "status (txs (memory c) t) = INITIAL")
    case True
    let ?s = "setState t INITIAL UNDECIDED (memory c)"
    have "only_tx t (memory c) ?s" by (simp add: only_tx_def)
    moreover have "status (txs ?s u) = COMMITTED \<longleftrightarrow> status (txs (memory c) u) = COMMITTED" for u using True by auto
    then have "published ?s = published (memory c)" by (simp add: published_def fun_eq_iff)
    then have "handles_ok ?s True t" using s(1) unfolding handles_ok_def Let_def by simp
    ultimately have "tx_safe c (c\<lparr>memory := ?s\<rparr>)" using tx_safe_running [OF inv False] True by simp
    then show ?thesis using st True t by (auto simp: tx_step_def)
  next
    case i: False
    from run_task_ok [OF inv False] obtain c' where c': "run_task t c = Inr c'" "only_tx t (memory c) (memory c')" "handles_ok (memory c') True t"
      "case todo c t of Done \<Rightarrow> c' = c\<lparr>calls := (calls c)(t := [(t, Start)])\<rparr>
       | Abort \<Rightarrow> calls c' = calls c \<and> todo c' = (todo c)(t := Done) \<and> status (txs (memory c') t) = ABORTED
       | _ \<Rightarrow> calls c' = calls c \<and> (\<exists>p. todo c' = (todo c)(t := p)) \<and> status (txs (memory c') t) = status (txs (memory c) t)" by blast
    have "tx_safe c c'"
    proof (cases "todo c t = Done")
      case True
      then show ?thesis using c'(4) tx_safe_engage [OF inv False True i] by simp
    next
      case False
      then show ?thesis using c' s by (intro tx_safe_running [OF inv \<open>\<not> engaged c t\<close>]) (auto split: tx_task.splits)
    qed
    then show ?thesis using st i t c'(1) by (auto simp: tx_step_def)
  qed
next
  case True
  then obtain u pc fs where fr: "calls c t = (u, pc) # fs" by (cases "calls c t") (auto simp: engaged_def)
  have i: "status (txs (memory c) t) \<noteq> INITIAL" using not_initial [of "engaged c" "memory c" t] True inv by (simp add: tx_inv_mem)
  show ?thesis
  proof (cases "returned pc")
    case True
    then have r: "fs \<noteq> []" "r = Inr (c\<lparr>calls := (calls c)(t := fs)\<rparr>)" using st fr i by (auto simp: tx_step_def split: if_splits)
    let ?c = "c\<lparr>calls := (calls c)(t := fs)\<rparr>"
    have "engaged ?c = engaged c" using r(1) fr by (auto simp: engaged_def fun_eq_iff)
    moreover have "engaged c v \<and> pc_ok (engaged c) (txs (memory c) v) v q" if "(v, q) \<in> set (calls ?c w)" for v q w
    proof -
      have "(v, q) \<in> set (calls c w)" using that fr by (cases "w = t") auto
      then show ?thesis using inv by (simp add: tx_inv_mem)
    qed
    ultimately have "tx_safe c ?c" using inv unfolding tx_safe_def tx_inv_mem by simp
    then show ?thesis using r by simp
  next
    case False
    obtain nx s' where cm: "doCommit u pc (memory c) = (nx, s')" by force
    have "r = Inr (c\<lparr>memory := s', calls := (calls c)(t := (case nx of Goto pc' \<Rightarrow> (u, pc') # fs | Help v pc' \<Rightarrow> (v, Start) # (u, pc') # fs))\<rparr>)"
      using st fr i cm False by (auto simp: tx_step_def split: tx_next.splits)
    then show ?thesis using tx_safe_commit [OF inv fr cm] by blast
  qed
qed

lemma published_kept: "tx_inv c \<Longrightarrow> tx_safe c c' \<Longrightarrow> published (memory c) h p \<Longrightarrow> published (memory c') h p"
  using published_stable mem_ok_committed unfolding tx_safe_def tx_inv_mem by blast

lemma tx_inv_init: "tx_inv (tx_init prog \<sigma>)"
  by (auto simp: tx_inv_def tx_init_def engaged_def tx_new_def published_def handles_ok_def)

lemma tx_reach_inv: "tx_reach prog \<sigma> c \<Longrightarrow> tx_inv c"
proof (induction rule: tx_reach.induct)
  case (step c t c')
  then show ?case using tx_step_safe [OF step.IH step.hyps(2)] by (auto simp: tx_safe_def)
qed (rule tx_inv_init)

subsection \<open>The transaction of a thread\<close>

text \<open>
  \<open>TransactionalMemoryManager\<close> keeps the current transaction of a thread. Ending a transaction moves the objects it deleted to
  the thread's reclamation list, through that pointer, and then clears it. \<open>run_transaction\<close> is one round of \<open>Task::doExecute\<close>:
  \<open>aborts\<close> says that the task raised \<open>TransactionAbortedException\<close>, \<open>commits\<close> what \<open>doCommit\<close> returns.
  That \<open>startTransaction\<close> waits for the very first transaction is left out.
\<close>

record tx_thread =
  currentTransaction :: "txid option"
  reclamationList :: "obj list"
  reclaimedObjects :: "txid \<Rightarrow> obj list"

definition startTransaction :: "txid \<Rightarrow> tx_thread \<Rightarrow> tx_thread res" where
  "startTransaction t m = (if currentTransaction m \<noteq> None then Inl AssertionFailure else Inr (m\<lparr>currentTransaction := Some t\<rparr>))"

definition reclaimObjects :: "tx_thread \<Rightarrow> tx_thread res" where
  "reclaimObjects m = (case currentTransaction m of None \<Rightarrow> Inl Undefined
     | Some t \<Rightarrow> Inr (m\<lparr>reclamationList := reclaimedObjects m t, reclaimedObjects := (reclaimedObjects m)(t := [])\<rparr>))"

definition end_transaction :: "tx_thread \<Rightarrow> tx_thread res" where
  "end_transaction m = rbind (reclaimObjects m) (\<lambda>m. Inr (m\<lparr>currentTransaction := None\<rparr>))"

definition run_transaction :: "bool \<Rightarrow> bool \<Rightarrow> txid \<Rightarrow> tx_thread \<Rightarrow> (bool \<times> tx_thread) res" where
  "run_transaction aborts commits t m = rbind (startTransaction t m) (\<lambda>m.
     rbind (if aborts then end_transaction m else Inr m) (\<lambda>m.
     rbind (end_transaction m) (\<lambda>m. Inr (\<not> aborts \<and> commits, m))))"

text \<open>A task that raises the exception ends its transaction twice, and the second time through a null pointer.\<close>

lemma run_transaction_result:
  "currentTransaction m = None \<Longrightarrow> run_transaction aborts commits t m =
     (if aborts then Inl Undefined else Inr (commits, m\<lparr>reclamationList := reclaimedObjects m t, reclaimedObjects := (reclaimedObjects m)(t := [])\<rparr>))"
  by (simp add: run_transaction_def startTransaction_def end_transaction_def reclaimObjects_def)

subsection \<open>Properties\<close>

text \<open>
  C16. All interleavings of any number of threads that run tasks, commit them and help each other: no assertion fails;
  all calls of \<open>doCommit\<close> for a transaction, by its own thread and by helpers, return the same answer, its final status, which
  never changes again; every version of an object, in a header or opened by a transaction, is the original or was
  written by a transaction that committed, and its contents never change.
\<close>

theorem transactions_atomic:
  assumes "tx_reach prog \<sigma> c"
  shows "tx_step t c \<noteq> Some (Inl e) \<and>
    ((u, Committed b) \<in> set (calls c v) \<longrightarrow> status (txs (memory c) u) = (if b then COMMITTED else ABORTED)) \<and>
    published (memory c) h (hdr_object (memory c) h) \<and>
    (openedObjets (txs (memory c) u) h = Some x \<and> hd_object x = Some p \<longrightarrow> published (memory c) h p) \<and>
    (tx_step t c = Some (Inr c') \<longrightarrow>
       (engaged c u \<and> decided (status (txs (memory c) u)) \<longrightarrow> status (txs (memory c') u) = status (txs (memory c) u)) \<and>
       (published (memory c) h p \<longrightarrow> published (memory c') h p \<and> contents (memory c') p = contents (memory c) p))"
proof -
  have inv: "tx_inv c" by (rule tx_reach_inv [OF assms])
  show ?thesis
  proof (intro conjI impI)
    show "tx_step t c \<noteq> Some (Inl e)" using tx_step_safe [OF inv] by blast
    show "published (memory c) h (hdr_object (memory c) h)" using inv unfolding tx_inv_def Let_def by blast
    show "status (txs (memory c) u) = (if b then COMMITTED else ABORTED)" if "(u, Committed b) \<in> set (calls c v)"
    proof -
      have "pc_ok (engaged c) (txs (memory c) u) u (Committed b)" using inv that unfolding tx_inv_def Let_def by blast
      then show ?thesis by (auto simp: decided_def)
    qed
    show "published (memory c) h p" if "openedObjets (txs (memory c) u) h = Some x \<and> hd_object x = Some p"
      using inv that unfolding tx_inv_def handles_ok_def Let_def by blast
    show "status (txs (memory c') u) = status (txs (memory c) u)" if "tx_step t c = Some (Inr c')" "engaged c u \<and> decided (status (txs (memory c) u))"
      using tx_step_safe [OF inv that(1)] that(2) unfolding tx_safe_def stable_def by blast
    show "published (memory c') h p" "contents (memory c') p = contents (memory c) p" if "tx_step t c = Some (Inr c')" "published (memory c) h p"
      using tx_step_safe [OF inv that(1)] that(2) published_kept [OF inv] unfolding tx_safe_def by blast+
  qed
qed

lemma tx_run_reach: "tx_reach prog \<sigma> c \<Longrightarrow> tx_run ts c = Some (Inr c') \<Longrightarrow> tx_reach prog \<sigma> c'"
  by (induction ts arbitrary: c) (auto split: option.splits sum.splits dest: tx_reach.step)

text \<open>Tasks 1 and 3 add one to the object of header 0, task 2 adds that object to the object of header 1.\<close>

definition demo_prog :: "txid \<Rightarrow> nat tx_task" where
  "demo_prog t = (if t = 2 then Get 0 (\<lambda>v. Update 1 (\<lambda>w. (w + v, Done))) else Update 0 (\<lambda>v. (v + 1, Done)))"

definition demo_after :: "txid list \<Rightarrow> nat tx_sys" where
  "demo_after ts = (case tx_run ts (tx_init demo_prog (\<lambda>_. 5)) of Some (Inr c) \<Rightarrow> c | _ \<Rightarrow> tx_init demo_prog (\<lambda>_. 5))"

text \<open>Transaction 1 stops after it has acquired header 0; transaction 3 finds it there and commits it.\<close>

definition demo_helped :: "nat tx_sys" where
  "demo_helped = demo_after (replicate 5 1 @ replicate 20 3)"

lemma demo_run_reach: "tx_reach demo_prog (\<lambda>_. 5) (demo_after ts)"
  using tx_reach.init [of demo_prog "\<lambda>_. 5"] tx_run_reach [OF tx_reach.init [of demo_prog "\<lambda>_. 5"], of ts]
  by (auto simp: demo_after_def split: option.splits sum.splits)

theorem transactions_atomic_witness:
  "calls demo_helped 1 = [(1, Changed 0)] \<and> calls demo_helped 3 = [(1, Committed True), (3, Acquire 0)] \<and> status (txs (memory demo_helped) 1) = COMMITTED"
proof -
  have c: "calls demo_helped 1 = [(1, Changed 0)]" "calls demo_helped 3 = [(1, Committed True), (3, Acquire 0)]" by code_simp+
  then have "(1, Committed True) \<in> set (calls demo_helped 3)" by simp
  then show ?thesis using c transactions_atomic [OF demo_run_reach [of "replicate 5 1 @ replicate 20 3"], of 0 undefined 1 True 3 0] unfolding demo_helped_def by simp
qed

end
