(* ===== verification/Serializability.thy ===== *)
theory Serializability
  imports Transactions
begin

text \<open>
  When the transactions of theory \<open>Transactions\<close> are serialisable: while no two of them commit at the same time. The proof
  follows a commit from program point to program point (\<open>commit_at\<close>), shows that a task can be replayed on any store that
  agrees with the versions it opened (\<open>replays\<close>), and keeps track of the store the state stands for while new versions
  are being installed (\<open>stands_for\<close>). Overlapping commits lose updates (\<open>lost_update\<close>).
\<close>

subsection \<open>Commits one at a time\<close>

text \<open>
  A transaction is busy from the first step of its commit to the last. Runs in which no two are busy at the
  same time include all interleavings of running tasks with each other and with one commit.
\<close>

definition tx_busy :: "'v tx_sys \<Rightarrow> txid \<Rightarrow> bool" where
  "tx_busy c t \<longleftrightarrow> engaged c t \<and> (\<forall>b. calls c t \<noteq> [(t, Committed b)])"

definition one_commit :: "'v tx_sys \<Rightarrow> bool" where
  "one_commit c \<longleftrightarrow> (\<forall>t u. tx_busy c t \<longrightarrow> tx_busy c u \<longrightarrow> t = u)"

inductive tx_alone :: "(txid \<Rightarrow> 'v tx_task) \<Rightarrow> (header \<Rightarrow> 'v) \<Rightarrow> 'v tx_sys \<Rightarrow> bool" for prog \<sigma> where
  init: "tx_alone prog \<sigma> (tx_init prog \<sigma>)"
| step: "tx_alone prog \<sigma> c \<Longrightarrow> tx_step t c = Some (Inr c') \<Longrightarrow> one_commit c' \<Longrightarrow> tx_alone prog \<sigma> c'"

text \<open>The specification: the whole task at once on a store of values.\<close>

primrec serial :: "'v tx_task \<Rightarrow> (header \<Rightarrow> 'v) \<Rightarrow> header \<Rightarrow> 'v" where
  "serial Done \<sigma> = \<sigma>"
| "serial Abort \<sigma> = \<sigma>"
| "serial (Get h k) \<sigma> = serial (k (\<sigma> h)) \<sigma>"
| "serial (Update h f) \<sigma> = (case map_prod id (\<lambda>p. serial p) (f (\<sigma> h)) of (v, g) \<Rightarrow> g (\<sigma>(h := v)))"

definition heap_of :: "'v stm \<Rightarrow> header \<Rightarrow> 'v" where
  "heap_of s h = contents s (hdr_object s h)"

definition owns_all :: "'v stm \<Rightarrow> txid \<Rightarrow> header set \<Rightarrow> bool" where
  "owns_all s t A \<longleftrightarrow> (\<forall>h. ownerTransaction s h = (if h \<in> A then Some t else None))"

definition owns_within :: "'v stm \<Rightarrow> txid \<Rightarrow> header set \<Rightarrow> bool" where
  "owns_within s t A \<longleftrightarrow> (\<forall>h u. ownerTransaction s h = Some u \<longrightarrow> u = t \<and> h \<in> A)"

definition current :: "'v stm \<Rightarrow> txid \<Rightarrow> header set \<Rightarrow> bool" where
  "current s t A \<longleftrightarrow> (\<forall>h \<in> A. \<not> hasObjectChanged t h s)"

abbreviation rw :: "'v stm \<Rightarrow> txid \<Rightarrow> header list" where "rw s t \<equiv> readWriteObjects (txs s t)"
abbreviation ro :: "'v stm \<Rightarrow> txid \<Rightarrow> header list" where "ro s t \<equiv> readOnlyObjects (txs s t)"
abbreviation stat :: "'v stm \<Rightarrow> txid \<Rightarrow> tx_status" where "stat s t \<equiv> status (txs s t)"

definition ready :: "'v stm \<Rightarrow> txid \<Rightarrow> tx_status \<Rightarrow> bool" where
  "ready s t d \<longleftrightarrow> owns_within s t (set (rw s t)) \<and> (stat s t = ABORTED \<or> pending_status (stat s t)) \<and>
     (d = ABORTED \<or> stat s t = ABORTED \<or> d = COMMITTED \<and> owns_all s t (set (rw s t)) \<and> current s t (set (rw s t) \<union> set (ro s t)))"

definition copies :: "'v stm \<Rightarrow> txid \<Rightarrow> header set \<Rightarrow> bool" where
  "copies s t A \<longleftrightarrow> (\<forall>h \<in> A. objectCopy (handle_of t h s) = Some (Clone t h))"

text \<open>What holds at each point of a commit that runs alone.\<close>

fun commit_at :: "'v stm \<Rightarrow> txid \<Rightarrow> tx_pc \<Rightarrow> bool" where
  "commit_at s t Start \<longleftrightarrow> owns_all s t {} \<and> (stat s t = UNDECIDED \<or> stat s t = ABORTED)"
| "commit_at s t (Acquire i) \<longleftrightarrow> i \<le> length (rw s t) \<and> owns_all s t (set (take i (rw s t))) \<and> current s t (set (take i (rw s t))) \<and> stat s t = UNDECIDED"
| "commit_at s t (Changed i) \<longleftrightarrow> i < length (rw s t) \<and> owns_all s t (set (take (Suc i) (rw s t))) \<and> current s t (set (take i (rw s t))) \<and> stat s t = UNDECIDED"
| "commit_at s t Validate \<longleftrightarrow> (if stat s t = ABORTED then owns_all s t {} else stat s t = UNDECIDED \<and> owns_all s t (set (rw s t)) \<and> current s t (set (rw s t)))"
| "commit_at s t Begin_checking \<longleftrightarrow> owns_all s t (set (rw s t)) \<and> current s t (set (rw s t)) \<and> stat s t = UNDECIDED"
| "commit_at s t (Read_changed i) \<longleftrightarrow> i \<le> length (ro s t) \<and> owns_all s t (set (rw s t)) \<and> current s t (set (rw s t) \<union> set (take i (ro s t))) \<and> stat s t = READ_CHECKING"
| "commit_at s t (Read_owner i) \<longleftrightarrow> i < length (ro s t) \<and> owns_all s t (set (rw s t)) \<and> current s t (set (rw s t) \<union> set (take (Suc i) (ro s t))) \<and> stat s t = READ_CHECKING"
| "commit_at s t (Finish d) \<longleftrightarrow> ready s t d"
| "commit_at s t (Push_status old d) \<longleftrightarrow> ready s t d \<and> old = stat s t"
| "commit_at s t Final \<longleftrightarrow> (if stat s t = COMMITTED then owns_all s t (set (rw s t)) \<and> copies s t (set (rw s t)) else stat s t = ABORTED \<and> owns_within s t (set (rw s t)))"
| "commit_at s t (Release i) \<longleftrightarrow> i \<le> length (rw s t) \<and> owns_all s t (set (drop i (rw s t))) \<and> copies s t (set (drop i (rw s t))) \<and> stat s t = COMMITTED"
| "commit_at s t (Release_owner i cp) \<longleftrightarrow> i < length (rw s t) \<and> owns_all s t (set (drop i (rw s t))) \<and> copies s t (set (drop i (rw s t))) \<and> stat s t = COMMITTED \<and>
     cp = Some (Clone t (rw s t ! i))"
| "commit_at s t (Release_cas i cp c) \<longleftrightarrow> i < length (rw s t) \<and> owns_all s t (set (drop i (rw s t))) \<and> copies s t (set (drop i (rw s t))) \<and> stat s t = COMMITTED \<and>
     cp = Some (Clone t (rw s t ! i)) \<and> c = t"
| "commit_at s t (Release_write i p) \<longleftrightarrow> i < length (rw s t) \<and> owns_all s t (set (drop (Suc i) (rw s t))) \<and> copies s t (set (drop i (rw s t))) \<and> stat s t = COMMITTED \<and>
     p = Clone t (rw s t ! i)"
| "commit_at s t (Release_reset i) \<longleftrightarrow> i < length (rw s t) \<and> owns_all s t (set (drop (Suc i) (rw s t))) \<and> copies s t (set (drop i (rw s t))) \<and> stat s t = COMMITTED"
| "commit_at s t (Discard i) \<longleftrightarrow> stat s t = ABORTED \<and> owns_within s t (set (drop i (rw s t)))"
| "commit_at s t (Discard_reset i) \<longleftrightarrow> i < length (rw s t) \<and> stat s t = ABORTED \<and> owns_within s t (set (drop (Suc i) (rw s t)))"
| "commit_at s t (Committed b) \<longleftrightarrow> owns_all s t {} \<and> decided (stat s t)"
| "commit_at s t _ \<longleftrightarrow> False"

text \<open>The headers of a committed transaction that still hold the old version.\<close>

fun uninstalled :: "'v stm \<Rightarrow> txid \<Rightarrow> tx_pc \<Rightarrow> header set" where
  "uninstalled s t Final = set (rw s t)"
| "uninstalled s t (Release i) = set (drop i (rw s t))"
| "uninstalled s t (Release_owner i cp) = set (drop i (rw s t))"
| "uninstalled s t (Release_cas i cp c) = set (drop i (rw s t))"
| "uninstalled s t (Release_write i p) = set (drop i (rw s t))"
| "uninstalled s t (Release_reset i) = set (drop (Suc i) (rw s t))"
| "uninstalled s t _ = {}"

definition value_at :: "'v stm \<Rightarrow> txid \<Rightarrow> tx_pc \<Rightarrow> header \<Rightarrow> 'v" where
  "value_at s t pc h = (if stat s t = COMMITTED \<and> h \<in> uninstalled s t pc then contents s (Clone t h) else heap_of s h)"

lemma value_at_heap [simp]: "stat s t \<noteq> COMMITTED \<Longrightarrow> value_at s t pc = heap_of s"
  by (simp add: value_at_def fun_eq_iff)

definition written :: "'v stm \<Rightarrow> txid \<Rightarrow> (header \<Rightarrow> 'v) \<Rightarrow> header \<Rightarrow> 'v" where
  "written s t \<sigma> h = (if h \<in> set (rw s t) then contents s (Clone t h) else \<sigma> h)"

text \<open>How far a commit still has to go.\<close>

fun distance :: "'v stm \<Rightarrow> txid \<Rightarrow> tx_pc \<Rightarrow> nat" where
  "distance s t Start = 7 * length (rw s t) + 2 * length (ro s t) + 9"
| "distance s t (Acquire i) = 5 * length (rw s t) + 2 * (length (rw s t) - i) + 2 * length (ro s t) + 8"
| "distance s t (Changed i) = 5 * length (rw s t) + 2 * (length (rw s t) - i) + 2 * length (ro s t) + 7"
| "distance s t Validate = 5 * length (rw s t) + 2 * length (ro s t) + 7"
| "distance s t Begin_checking = 5 * length (rw s t) + 2 * length (ro s t) + 6"
| "distance s t (Read_changed i) = 5 * length (rw s t) + 2 * (length (ro s t) - i) + 5"
| "distance s t (Read_owner i) = 5 * length (rw s t) + 2 * (length (ro s t) - i) + 4"
| "distance s t (Finish d) = 5 * length (rw s t) + 4"
| "distance s t (Push_status old d) = 5 * length (rw s t) + 3"
| "distance s t Final = 5 * length (rw s t) + 2"
| "distance s t (Release i) = 5 * (length (rw s t) - i) + 1"
| "distance s t (Release_owner i cp) = 5 * (length (rw s t) - i)"
| "distance s t (Release_cas i cp c) = 5 * (length (rw s t) - i) - 1"
| "distance s t (Release_write i p) = 5 * (length (rw s t) - i) - 2"
| "distance s t (Release_reset i) = 5 * (length (rw s t) - i) - 3"
| "distance s t (Discard i) = 5 * (length (rw s t) - i) + 1"
| "distance s t (Discard_reset i) = 5 * (length (rw s t) - i)"
| "distance s t _ = 0"

lemma owns_acquire: "owns_all s t (set (take i hs)) \<Longrightarrow> i < length hs \<Longrightarrow> ownerTransaction s (hs ! i) = None \<Longrightarrow>
    owns_all (s\<lparr>ownerTransaction := (ownerTransaction s)(hs ! i := Some t)\<rparr>) t (set (take (Suc i) hs))"
  by (auto simp: owns_all_def take_Suc_conv_app_nth)

lemma owns_sub: "owns_all s t A \<Longrightarrow> A \<subseteq> B \<Longrightarrow> owns_within s t B"
  by (auto simp: owns_all_def owns_within_def split: if_splits)

lemma current_insert [simp]: "current s t (insert h A) \<longleftrightarrow> \<not> hasObjectChanged t h s \<and> current s t A"
  by (simp add: current_def)

lemma strict_take: "sorted_wrt (<) hs \<Longrightarrow> i < length hs \<Longrightarrow> (hs :: nat list) ! i \<notin> set (take i hs)"
  by (auto simp: strict_sorted_iff in_set_conv_nth nth_eq_iff_index_eq)

lemma strict_drop: "sorted_wrt (<) hs \<Longrightarrow> i < length hs \<Longrightarrow> (hs :: nat list) ! i \<notin> set (drop (Suc i) hs)"
  by (auto simp: strict_sorted_iff in_set_conv_nth nth_eq_iff_index_eq)

lemma set_drop_Suc: "i < length hs \<Longrightarrow> set (drop i hs) = insert (hs ! i) (set (drop (Suc i) hs))"
  by (metis Cons_nth_drop_Suc list.simps(15))

lemma set_take_Suc: "i < length hs \<Longrightarrow> set (take (Suc i) hs) = insert (hs ! i) (set (take i hs))"
  by (simp add: take_Suc_conv_app_nth)

lemma owns_release: "owns_all s t (insert h A) \<Longrightarrow> h \<notin> A \<Longrightarrow> owns_all (s\<lparr>ownerTransaction := (ownerTransaction s)(h := None)\<rparr>) t A"
  by (auto simp: owns_all_def)

lemma sel_owner [simp]:
  "handle_of t h (s\<lparr>ownerTransaction := f\<rparr>) = handle_of t h s" "hasObjectChanged t h (s\<lparr>ownerTransaction := f\<rparr>) = hasObjectChanged t h s"
  "current (s\<lparr>ownerTransaction := f\<rparr>) t A = current s t A" "copies (s\<lparr>ownerTransaction := f\<rparr>) t A = copies s t A"
  "heap_of (s\<lparr>ownerTransaction := f\<rparr>) = heap_of s"
  by (auto simp: handle_of_def hasObjectChanged_def current_def copies_def heap_of_def)

lemma sel_install [simp]:
  "handle_of t h (s\<lparr>hdr_object := g\<rparr>) = handle_of t h s" "copies (s\<lparr>hdr_object := g\<rparr>) t A = copies s t A" "owns_all (s\<lparr>hdr_object := g\<rparr>) t A = owns_all s t A"
  by (auto simp: handle_of_def copies_def owns_all_def)

lemma sel_status [simp]:
  "handle_of t h (setState u a b s) = handle_of t h s" "hasObjectChanged t h (setState u a b s) = hasObjectChanged t h s"
  "current (setState u a b s) t A = current s t A" "copies (setState u a b s) t A = copies s t A" "heap_of (setState u a b s) = heap_of s"
  "owns_all (setState u a b s) t A = owns_all s t A" "owns_within (setState u a b s) t A = owns_within s t A"
  by (auto simp: handle_of_def hasObjectChanged_def current_def copies_def heap_of_def owns_all_def owns_within_def)

lemma handle_of_reset: "handle_of t h (resetObjects t k s) = (if h = k then (handle_of t k s)\<lparr>hd_object := None, objectCopy := None\<rparr> else handle_of t h s)"
  by (simp add: resetObjects_def upd_tx_def put_handle_def handle_of_def)

lemma sel_reset [simp]:
  "owns_all (resetObjects u h s) t A = owns_all s t A" "owns_within (resetObjects u h s) t A = owns_within s t A" "heap_of (resetObjects u h s) = heap_of s"
  "h \<notin> A \<Longrightarrow> copies (resetObjects t h s) t A = copies s t A"
  by (auto simp: heap_of_def owns_all_def owns_within_def copies_def handle_of_reset)

definition alone_ok :: "'v stm \<Rightarrow> txid \<Rightarrow> tx_pc \<Rightarrow> tx_next \<Rightarrow> 'v stm \<Rightarrow> bool" where
  "alone_ok s t pc nx s' \<longleftrightarrow> (\<exists>pc'. nx = Goto pc' \<and> commit_at s' t pc' \<and> distance s' t pc' < distance s t pc \<and>
     (\<forall>u. u \<noteq> t \<longrightarrow> txs s' u = txs s u) \<and> rw s' t = rw s t \<and> ro s' t = ro s t \<and>
     (\<not> decided (stat s t) \<longrightarrow> openedObjets (txs s' t) = openedObjets (txs s t)) \<and>
     (if stat s' t = COMMITTED \<and> stat s t \<noteq> COMMITTED then current s t (set (rw s t) \<union> set (ro s t)) \<and> value_at s' t pc' = written s t (heap_of s) \<and> value_at s t pc = heap_of s
      else value_at s' t pc' = value_at s t pc))"

lemma alone_acquire:
  assumes "commit_at s t pc" "acquire_step t pc s = (nx, s')" "sorted_wrt (<) (rw s t)"
    and "acquiring pc"
  shows "alone_ok s t pc nx s'"
  using assms(4)
proof (elim disjE exE)
  assume "pc = Start"
  then show ?thesis using assms(1,2) by (auto simp: alone_ok_def current_def split: if_splits)
next
  fix i assume pc: "pc = Acquire i"
  show ?thesis
  proof (cases "i < length (rw s t)")
    case True
    then have "ownerTransaction s (rw s t ! i) = None" using pc assms(1,3) strict_take [of "rw s t" i] by (simp add: owns_all_def)
    then show ?thesis using True pc assms(1,2) owns_acquire [of s t i "rw s t"]
      by (auto simp: alone_ok_def acquireHeader_def value_at_def)
  qed (use pc assms in \<open>auto simp: alone_ok_def\<close>)
next
  fix i assume pc: "pc = Changed i"
  then have "owns_within s t (set (rw s t))" using assms(1) by (intro owns_sub) (auto dest: in_set_takeD)
  then show ?thesis using assms(1,2) pc
    by (auto simp: alone_ok_def ready_def pending_status_def set_take_Suc split: if_splits)
qed (use assms in auto)

lemma current_Un [simp]: "current s t (A \<union> B) \<longleftrightarrow> current s t A \<and> current s t B"
  by (auto simp: current_def)

lemma current_empty [simp]: "current s t {}"
  by (simp add: current_def)

lemma alone_validate:
  assumes "commit_at s t pc" "validateReadOnlyObjects t pc s = (nx, s')" "set (ro s t) \<inter> set (rw s t) = {}"
    and "validating pc"
  shows "alone_ok s t pc nx s'"
  using assms(4)
proof (elim disjE exE)
  assume "pc = Validate"
  then show ?thesis using assms(1,2) owns_sub [of s t "{}" "set (rw s t)"] owns_sub [of s t "set (rw s t)" "set (rw s t)"]
    by (auto simp: alone_ok_def pending_status_def ready_def split: if_splits)
next
  assume "pc = Begin_checking"
  then show ?thesis using assms(1,2) by (auto simp: alone_ok_def)
next
  fix i assume pc: "pc = Read_changed i"
  then have "owns_within s t (set (rw s t))" using assms(1) by (auto intro: owns_sub)
  then show ?thesis using assms(1,2) pc
    by (auto simp: alone_ok_def pending_status_def ready_def set_take_Suc split: if_splits)
next
  fix i assume pc: "pc = Read_owner i"
  then have "ro s t ! i \<notin> set (rw s t)" using assms(1,3) by (auto dest: nth_mem)
  then have "ownerTransaction s (ro s t ! i) = None" using assms(1) pc by (simp add: owns_all_def)
  then show ?thesis using assms(1,2) pc by (auto simp: alone_ok_def)
qed (use assms in auto)

lemma value_at_same: "uninstalled s' t pc' = uninstalled s t pc \<Longrightarrow> heap_of s' = heap_of s \<Longrightarrow> contents s' = contents s \<Longrightarrow> stat s' t = stat s t \<Longrightarrow>
    value_at s' t pc' = value_at s t pc"
  by (simp add: value_at_def fun_eq_iff)

lemma owns_within_discard:
  assumes "owns_within s t (insert h A)"
  shows "owns_within (discardObject t h s) t A"
  unfolding owns_within_def
proof (intro allI impI)
  fix k u
  assume k: "ownerTransaction (discardObject t h s) k = Some u"
  then have o: "ownerTransaction s k = Some u" by (simp add: discardObject_def split: if_splits)
  then have "u = t \<and> k \<in> insert h A" using assms unfolding owns_within_def by blast
  moreover have "k \<noteq> h" using k o calculation by (auto simp: discardObject_def split: if_splits)
  ultimately show "u = t \<and> k \<in> A" by simp
qed

lemma alone_finish:
  assumes at: "commit_at s t pc" and st: "tryFinishCommit t pc s = (nx, s')" and so: "sorted_wrt (<) (rw s t)"
    and cp: "\<not> decided (stat s t) \<Longrightarrow> copies s t (set (rw s t))" and pc: "finishing pc"
  shows "alone_ok s t pc nx s'"
  using pc
proof (elim disjE exE)
  fix d assume pc: "pc = Finish d"
  then show ?thesis using at st by (auto simp: alone_ok_def ready_def pending_status_def)
next
  fix old d assume pc: "pc = Push_status old d"
  show ?thesis
  proof (cases "stat s t = ABORTED")
    case True
    then show ?thesis using at st pc by (auto simp: alone_ok_def ready_def pending_status_def)
  next
    case False
    then have p: "pending_status (stat s t)" "\<not> decided (stat s t)" using at pc by (auto simp: ready_def pending_status_def decided_def)
    moreover have "value_at (setState t old d s) t Final = (if d = COMMITTED then written s t (heap_of s) else heap_of s)"
      using p(1) at pc by (auto simp: value_at_def written_def fun_eq_iff)
    ultimately show ?thesis using False at st pc cp by (auto simp: alone_ok_def ready_def pending_status_def)
  qed
next
  assume "pc = Final"
  then show ?thesis using at st value_at_same [of s t "Release 0" s Final] by (auto simp: alone_ok_def)
next
  fix i assume pc: "pc = Release i"
  show ?thesis
  proof (cases "i < length (rw s t)")
    case True
    then have "objectCopy (handle_of t (rw s t ! i) s) = Some (Clone t (rw s t ! i))" using at pc by (simp add: copies_def set_drop_Suc)
    then show ?thesis using True at st pc by (auto simp: alone_ok_def intro!: value_at_same)
  next
    case False
    then show ?thesis using at st pc by (auto simp: alone_ok_def decided_def intro!: value_at_same)
  qed
next
  fix i cp assume pc: "pc = Release_owner i cp"
  then have "ownerTransaction s (rw s t ! i) = Some t" using at by (simp add: owns_all_def set_drop_Suc)
  then show ?thesis using at st pc by (auto simp: alone_ok_def intro!: value_at_same)
next
  fix i cp c assume pc: "pc = Release_cas i cp c"
  then have "ownerTransaction s (rw s t ! i) = Some t" "owns_all s t (insert (rw s t ! i) (set (drop (Suc i) (rw s t))))" using at by (simp_all add: owns_all_def set_drop_Suc)
  then show ?thesis using at st pc strict_drop [OF so, of i] owns_release [of s t "rw s t ! i" "set (drop (Suc i) (rw s t))"]
    by (auto simp: alone_ok_def Let_def intro!: value_at_same)
next
  fix i p assume pc: "pc = Release_write i p"
  then have i: "i < length (rw s t)" using at by simp
  have "value_at s' t (Release_reset i) = value_at s t (Release_write i p)"
  proof
    fix h
    have s': "s' = s\<lparr>hdr_object := (hdr_object s)(rw s t ! i := Clone t (rw s t ! i))\<rparr>" "stat s t = COMMITTED" using at st pc by auto
    have d: "set (drop i (rw s t)) = insert (rw s t ! i) (set (drop (Suc i) (rw s t)))" using set_drop_Suc [OF i] .
    show "value_at s' t (Release_reset i) h = value_at s t (Release_write i p) h"
      using s' d strict_drop [OF so i] by (cases "h = rw s t ! i") (simp_all add: value_at_def heap_of_def)
  qed
  then show ?thesis using at st pc by (auto simp: alone_ok_def)
next
  fix i assume pc: "pc = Release_reset i"
  then have i: "i < length (rw s t)" using at by simp
  have "copies s t (set (drop (Suc i) (rw s t)))" using at pc set_drop_Suc [OF i] by (simp add: copies_def)
  then show ?thesis using at st pc strict_drop [OF so i] by (auto simp: alone_ok_def decided_def intro!: value_at_same)
next
  fix i assume pc: "pc = Discard i"
  show ?thesis
  proof (cases "i < length (rw s t)")
    case True
    have "owns_within s t (insert (rw s t ! i) (set (drop (Suc i) (rw s t))))" using at pc set_drop_Suc [OF True] by simp
    from owns_within_discard [OF this] show ?thesis using True at st pc by (auto simp: alone_ok_def decided_def heap_of_def fun_eq_iff)
  next
    case False
    then show ?thesis using at st pc by (auto simp: alone_ok_def owns_within_def owns_all_def decided_def not_Some_eq)
  qed
next
  fix i assume pc: "pc = Discard_reset i"
  then show ?thesis using at st by (auto simp: alone_ok_def decided_def)
qed

lemma alone_step:
  assumes "commit_at s t pc" "doCommit t pc s = (nx, s')" "\<not> returned pc" "sorted_wrt (<) (rw s t)" "set (ro s t) \<inter> set (rw s t) = {}"
    and "\<not> decided (stat s t) \<Longrightarrow> copies s t (set (rw s t))"
  shows "alone_ok s t pc nx s'"
  using doCommit_phase [of t pc s] alone_acquire [OF assms(1) _ assms(4)] alone_validate [OF assms(1) _ assms(5)]
    alone_finish [OF assms(1) _ assms(4,6)] assms(2,3) by auto

text \<open>The store of values that the state stands for, in the middle of a commit too.\<close>

definition stands_for :: "'v tx_sys \<Rightarrow> (header \<Rightarrow> 'v) \<Rightarrow> bool" where
  "stands_for c \<sigma> \<longleftrightarrow> (\<forall>t pc. tx_busy c t \<and> calls c t = [(t, pc)] \<longrightarrow> \<sigma> = value_at (memory c) t pc) \<and> ((\<forall>t. \<not> tx_busy c t) \<longrightarrow> \<sigma> = heap_of (memory c))"

definition replays :: "'v stm \<Rightarrow> txid \<Rightarrow> 'v tx_task \<Rightarrow> 'v tx_task \<Rightarrow> bool" where
  "replays s t p q \<longleftrightarrow> handles_ok s True t \<and> (\<forall>\<sigma>. consistent s t \<sigma> \<longrightarrow> serial p \<sigma> = serial q (opened_value s t \<sigma>))"

definition ser_inv :: "(txid \<Rightarrow> 'v tx_task) \<Rightarrow> (header \<Rightarrow> 'v) \<Rightarrow> 'v tx_sys \<Rightarrow> bool" where
  "ser_inv prog \<sigma> c \<longleftrightarrow> tx_inv c \<and> one_commit c \<and>
     (\<forall>t. tx_busy c t \<longrightarrow> (\<exists>pc. calls c t = [(t, pc)] \<and> commit_at (memory c) t pc)) \<and>
     ((\<forall>t. \<not> tx_busy c t) \<longrightarrow> (\<forall>h. ownerTransaction (memory c) h = None)) \<and>
     (\<forall>t. \<not> decided (stat (memory c) t) \<longrightarrow> replays (memory c) t (prog t) (todo c t)) \<and>
     (\<exists>ts. distinct ts \<and> set ts = {t. stat (memory c) t = COMMITTED} \<and> stands_for c (fold (\<lambda>t. serial (prog t)) ts \<sigma>))"

lemma commit_at_cong:
  assumes "txs s' u = txs s u" "ownerTransaction s' = ownerTransaction s" "hdr_object s' = hdr_object s"
  shows "commit_at s' u pc \<longleftrightarrow> commit_at s u pc"
proof -
  have h: "handle_of u h s' = handle_of u h s" for h using assms(1) by (simp add: handle_of_def)
  have "owns_all s' u A = owns_all s u A" "owns_within s' u A = owns_within s u A" "current s' u A = current s u A" "copies s' u A = copies s u A" "ready s' u d = ready s u d" for A d
    using assms h by (auto simp: owns_all_def owns_within_def current_def copies_def ready_def hasObjectChanged_def)
  then show ?thesis using assms by (cases pc) simp_all
qed

lemma uninstalled_cong: "txs s' u = txs s u \<Longrightarrow> uninstalled s' u pc = uninstalled s u pc"
  by (cases pc) simp_all

lemma replays_cong:
  assumes "replays s u p q" "txs s' u = txs s u" "\<And>h p. published s h p \<Longrightarrow> published s' h p"
    "\<And>h p. published s h p \<Longrightarrow> contents s' p = contents s p" "\<And>h. contents s' (Clone u h) = contents s (Clone u h)"
  shows "replays s' u p q"
proof -
  have h: "handles_ok s True u" using assms(1) by (simp add: replays_def)
  have "handles_ok s' True u" using handles_ok_mono [OF h assms(3)] assms(2) by simp
  moreover have "consistent s' u \<sigma> \<longleftrightarrow> consistent s u \<sigma>" for \<sigma>
    using handles_ok_opened(1) [OF h] assms(2,4) unfolding consistent_def by (metis option.inject)
  moreover have "opened_value s' u \<sigma> = opened_value s u \<sigma>" for \<sigma>
  proof
    fix k
    have "objectCopy x = Some p \<Longrightarrow> openedObjets (txs s u) k = Some x \<Longrightarrow> p = Clone u k" for x p
      using handles_ok_opened(2) [OF h, of k x] by (auto split: if_splits)
    then show "opened_value s' u \<sigma> k = opened_value s u \<sigma> k" using assms(2,5)
      by (cases "openedObjets (txs s u) k") (auto simp: opened_value_def split: option.splits)
  qed
  ultimately show ?thesis using assms(1) by (simp add: replays_def)
qed

lemma serial_Update: "serial (Update h f) \<sigma> = (case f (\<sigma> h) of (v, k) \<Rightarrow> serial k (\<sigma>(h := v)))"
  by (simp add: case_prod_unfold)

declare serial.simps(4) [simp del]

lemma replays_step:
  assumes "replays s t p q" "serial_step s s' t q q'" "handles_ok s' True t" "case q of Done \<Rightarrow> q' = Done | Abort \<Rightarrow> False | _ \<Rightarrow> True"
  shows "replays s' t p q'"
proof -
  have "serial p \<sigma> = serial q' (opened_value s' t \<sigma>)" if c: "consistent s' t \<sigma>" for \<sigma>
  proof -
    have "consistent s t \<sigma>" using assms(2) c by (simp add: serial_step_def)
    then have "serial p \<sigma> = serial q (opened_value s t \<sigma>)" using assms(1) by (simp add: replays_def)
    also have "\<dots> = serial q' (opened_value s' t \<sigma>)"
      using assms(2,4) c by (cases q) (auto simp: serial_step_def serial_Update split: prod.splits)
    finally show ?thesis .
  qed
  then show ?thesis using assms(3) by (simp add: replays_def)
qed

lemma heap_of_same:
  assumes "tx_inv c" "tx_safe c c'" "hdr_object (memory c') = hdr_object (memory c)"
  shows "heap_of (memory c') = heap_of (memory c)"
  using assms unfolding tx_inv_def tx_safe_def heap_of_def Let_def fun_eq_iff by metis

lemma replays_kept:
  assumes "tx_inv c" "tx_safe c c'" "only_tx t (memory c) (memory c')" "u \<noteq> t" "replays (memory c) u p q"
  shows "replays (memory c') u p q"
proof (rule replays_cong [OF assms(5) _ published_kept [OF assms(1,2)]])
  show "txs (memory c') u = txs (memory c) u" using assms(3,4) by (simp add: only_tx_def)
  show "contents (memory c') p = contents (memory c) p" if "published (memory c) h p" for h p using that assms(2) unfolding tx_safe_def by blast
  show "contents (memory c') (Clone u h) = contents (memory c) (Clone u h)" for h using assms(3,4) by (simp add: only_tx_def)
qed

text \<open>A running task leaves the commit of another transaction alone.\<close>

lemma ser_inv_running:
  assumes inv: "ser_inv prog \<sigma> c" and safe: "tx_safe c c'" and t: "\<not> engaged c t" and only: "only_tx t (memory c) (memory c')"
    and same: "calls c' = calls c" "\<And>u. u \<noteq> t \<Longrightarrow> todo c' u = todo c u"
    and st: "stat (memory c') t \<noteq> COMMITTED" and rep: "\<not> decided (stat (memory c') t) \<Longrightarrow> replays (memory c') t (prog t) (todo c' t)"
  shows "ser_inv prog \<sigma> c'"
proof -
  have tx: "tx_inv c" using inv by (simp add: ser_inv_def)
  have b: "tx_busy c' = tx_busy c" using same(1) by (auto simp: tx_busy_def engaged_def fun_eq_iff)
  have nb: "\<not> tx_busy c t" using t by (simp add: tx_busy_def)
  have mem: "ownerTransaction (memory c') = ownerTransaction (memory c)" "hdr_object (memory c') = hdr_object (memory c)"
    and other: "u \<noteq> t \<Longrightarrow> txs (memory c') u = txs (memory c) u" for u using only by (simp_all add: only_tx_def)
  have heap: "heap_of (memory c') = heap_of (memory c)" by (rule heap_of_same [OF tx safe mem(2)])
  have notc: "stat (memory c) t \<noteq> COMMITTED" using t mem_ok_committed [of "engaged c" "memory c"] tx by (auto simp: tx_inv_mem)
  have val: "value_at (memory c') u pc = value_at (memory c) u pc" if "u \<noteq> t" for u pc
    using other [OF that] heap only that uninstalled_cong [OF other [OF that]] by (auto simp: value_at_def only_tx_def fun_eq_iff)
  have com: "{u. stat (memory c') u = COMMITTED} = {u. stat (memory c) u = COMMITTED}"
  proof (intro Collect_cong)
    fix u show "stat (memory c') u = COMMITTED \<longleftrightarrow> stat (memory c) u = COMMITTED" using other [of u] st notc by (cases "u = t") auto
  qed
  show ?thesis
    unfolding ser_inv_def b same(1) mem(1) com
  proof (intro conjI allI impI)
    show "tx_inv c'" using safe by (simp add: tx_safe_def)
    show "one_commit c'" using inv b by (simp add: ser_inv_def one_commit_def)
    show "\<exists>pc. calls c u = [(u, pc)] \<and> commit_at (memory c') u pc" if "tx_busy c u" for u
    proof -
      have "u \<noteq> t" using that nb by auto
      then show ?thesis using inv that commit_at_cong [OF other mem] by (auto simp: ser_inv_def)
    qed
    show "ownerTransaction (memory c) h = None" if "\<forall>t. \<not> tx_busy c t" for h using inv that by (simp add: ser_inv_def)
    show "replays (memory c') u (prog u) (todo c' u)" if "\<not> decided (stat (memory c') u)" for u
    proof (cases "u = t")
      case False
      then show ?thesis using inv that other [OF False] same(2) [OF False] by (intro replays_kept [OF tx safe only]) (auto simp: ser_inv_def)
    qed (use rep that in simp)
    have "stands_for c \<tau> \<Longrightarrow> stands_for c' \<tau>" for \<tau>
      using val nb heap unfolding stands_for_def b same(1) by (metis (lifting))
    then show "\<exists>ts. distinct ts \<and> set ts = {u. stat (memory c) u = COMMITTED} \<and> stands_for c' (fold (\<lambda>t. serial (prog t)) ts \<sigma>)"
      using inv unfolding ser_inv_def by blast
  qed
qed

lemma ser_inv_engage:
  assumes inv: "ser_inv prog \<sigma> c" and t: "\<not> engaged c t" "todo c t = Done" "stat (memory c) t \<noteq> INITIAL"
    and one: "one_commit (c\<lparr>calls := (calls c)(t := [(t, Start)])\<rparr>)" (is "one_commit ?c")
  shows "ser_inv prog \<sigma> ?c"
proof -
  have tx: "tx_inv c" using inv by (simp add: ser_inv_def)
  have bt: "tx_busy ?c t" by (simp add: tx_busy_def engaged_def)
  have bu: "u \<noteq> t \<Longrightarrow> tx_busy ?c u = tx_busy c u" for u by (simp add: tx_busy_def engaged_def)
  have none: "\<not> tx_busy c u" for u using one bt bu t(1) unfolding one_commit_def by (metis tx_busy_def)
  have own: "\<And>h. ownerTransaction (memory c) h = None" using inv none by (simp add: ser_inv_def)
  have st: "stat (memory c) t = UNDECIDED \<or> stat (memory c) t = ABORTED"
    using tx t unfolding tx_inv_def Let_def by (metis tx_status.exhaust)
  have "tx_inv ?c" using tx_safe_engage [OF tx t] by (simp add: tx_safe_def)
  moreover have "stands_for c \<tau> \<Longrightarrow> stands_for ?c \<tau>" for \<tau>
  proof -
    assume "stands_for c \<tau>"
    then have "\<tau> = heap_of (memory c)" using none by (simp add: stands_for_def)
    moreover have "value_at (memory c) t Start = heap_of (memory c)" using st by auto
    ultimately show "stands_for ?c \<tau>" using bt bu none unfolding stands_for_def by (auto split: if_splits)
  qed
  ultimately show ?thesis using inv one own st none bt bu
    unfolding ser_inv_def by (auto simp: owns_all_def)
qed

lemma ser_inv_commit:
  assumes inv: "ser_inv prog \<sigma> c" and fr: "calls c t = [(t, pc)]" "\<not> returned pc" and cm: "doCommit t pc (memory c) = (Goto pc', s')"
    and safe: "tx_safe c (c\<lparr>memory := s', calls := (calls c)(t := [(t, pc')])\<rparr>)" (is "tx_safe c ?c") and cs: "contents s' = contents (memory c)"
    and ok: "alone_ok (memory c) t pc (Goto pc') s'"
  shows "ser_inv prog \<sigma> ?c"
proof -
  let ?s = "memory c"
  have tx: "tx_inv c" "one_commit c" using inv by (simp_all add: ser_inv_def)
  have b: "tx_busy c t" using fr by (auto simp: tx_busy_def engaged_def)
  have others: "u \<noteq> t \<Longrightarrow> \<not> tx_busy c u" for u using tx(2) b by (auto simp: one_commit_def)
  have b': "tx_busy ?c u \<longleftrightarrow> u = t \<and> \<not> returned pc'" for u
    using others [of u] by (cases "u = t"; cases pc') (auto simp: tx_busy_def engaged_def)
  have ok': "commit_at s' t pc'" "\<forall>u. u \<noteq> t \<longrightarrow> txs s' u = txs ?s u" "rw s' t = rw ?s t" "ro s' t = ro ?s t"
    "\<not> decided (stat ?s t) \<longrightarrow> openedObjets (txs s' t) = openedObjets (txs ?s t)"
    "if stat s' t = COMMITTED \<and> stat ?s t \<noteq> COMMITTED
      then current ?s t (set (rw ?s t) \<union> set (ro ?s t)) \<and> value_at s' t pc' = written ?s t (heap_of ?s) \<and> value_at ?s t pc = heap_of ?s
      else value_at s' t pc' = value_at ?s t pc"
    using ok unfolding alone_ok_def tx_next.inject by blast+
  note at = ok'(1) and rw' = ok'(3,4) and v = ok'(6)
  have tx': "u \<noteq> t \<Longrightarrow> txs s' u = txs ?s u" for u using ok'(2) by blast
  have op: "\<not> decided (stat ?s t) \<Longrightarrow> openedObjets (txs s' t) = openedObjets (txs ?s t)" using ok'(5) by blast
  have dec: "decided (stat ?s t) \<Longrightarrow> stat s' t = stat ?s t"
    using safe b unfolding tx_safe_def stable_def tx_busy_def by auto
  have rep: "replays s' u (prog u) (todo c u)" if u: "\<not> decided (stat s' u)" for u
  proof (cases "u = t")
    case True
    then have d: "\<not> decided (stat ?s t)" using u dec by auto
    then have r: "replays ?s t (prog t) (todo c t)" using inv by (simp add: ser_inv_def)
    have "handles_ok s' True t" using r handles_ok_mono [of ?s True t s'] published_kept [OF tx(1) safe] op [OF d] rw' by (simp add: replays_def)
    moreover have "consistent s' t = consistent ?s t" "opened_value s' t = opened_value ?s t"
      using op [OF d] cs by (auto simp: consistent_def opened_value_def fun_eq_iff split: option.splits)
    ultimately show ?thesis using r True by (simp add: replays_def)
  next
    case False
    then have "replays ?s u (prog u) (todo c u)" using inv u tx' [OF False] by (simp add: ser_inv_def)
    then show ?thesis by (rule replays_cong) (use tx' [OF False] cs published_kept [OF tx(1) safe] in auto)
  qed
  obtain ts where ts: "distinct ts" "set ts = {u. stat ?s u = COMMITTED}" "stands_for c (fold (\<lambda>t. serial (prog t)) ts \<sigma>)"
    using inv unfolding ser_inv_def by blast
  then have val: "fold (\<lambda>t. serial (prog t)) ts \<sigma> = value_at ?s t pc" using b fr(1) by (auto simp: stands_for_def)
  have stands: "stands_for ?c (value_at s' t pc')"
    using b' by (cases pc') (auto simp: stands_for_def value_at_def fun_eq_iff)
  have "\<exists>ts. distinct ts \<and> set ts = {u. stat s' u = COMMITTED} \<and> stands_for ?c (fold (\<lambda>t. serial (prog t)) ts \<sigma>)"
  proof (cases "stat s' t = COMMITTED \<and> stat ?s t \<noteq> COMMITTED")
    case True
    then have d: "\<not> decided (stat ?s t)" using dec by auto
    then have r: "handles_ok ?s True t" "\<And>\<tau>. consistent ?s t \<tau> \<Longrightarrow> serial (prog t) \<tau> = serial (todo c t) (opened_value ?s t \<tau>)"
      using inv by (simp_all add: ser_inv_def replays_def)
    have "consistent ?s t (heap_of ?s)"
      unfolding consistent_def
    proof (intro allI impI)
      fix h x p assume x: "openedObjets (txs ?s t) h = Some x" "hd_object x = Some p"
      then have "h \<in> set (rw ?s t) \<union> set (ro ?s t)" using r(1) unfolding handles_ok_def Let_def by (metis Un_commute domI)
      then have "hd_object (handle_of t h ?s) = Some (hdr_object ?s h)" using v True unfolding current_def hasObjectChanged_def by auto
      then show "heap_of ?s h = contents ?s p" using x by (simp add: handle_of_def heap_of_def)
    qed
    moreover have "todo c t = Done" using tx(1) b by (simp add: tx_inv_mem tx_busy_def)
    moreover have "opened_value ?s t (heap_of ?s) = written ?s t (heap_of ?s)"
    proof
      fix h
      show "opened_value ?s t (heap_of ?s) h = written ?s t (heap_of ?s) h"
      proof (cases "openedObjets (txs ?s t) h")
        case None
        then show ?thesis using handles_ok_fresh [OF r(1) None] by (simp add: opened_value_def written_def)
      next
        case (Some x)
        then show ?thesis using handles_ok_opened(2) [OF r(1) Some] by (auto simp: opened_value_def written_def split: if_splits)
      qed
    qed
    ultimately have "fold (\<lambda>t. serial (prog t)) (ts @ [t]) \<sigma> = value_at s' t pc'" using r(2) v True val by simp
    moreover have "{u. stat s' u = COMMITTED} = insert t {u. stat ?s u = COMMITTED}"
    proof (intro set_eqI)
      fix u show "u \<in> {u. stat s' u = COMMITTED} \<longleftrightarrow> u \<in> insert t {u. stat ?s u = COMMITTED}" using True tx' [of u] by (cases "u = t") auto
    qed
    ultimately show ?thesis using ts True stands by (intro exI [of _ "ts @ [t]"]) auto
  next
    case False
    then have "value_at s' t pc' = value_at ?s t pc" using v by auto
    moreover have "stat s' u = COMMITTED \<longleftrightarrow> stat ?s u = COMMITTED" for u
    proof (cases "u = t")
      case True
      have "stat ?s t = COMMITTED \<Longrightarrow> stat s' t = COMMITTED" using dec by (simp add: decided_def)
      then show ?thesis using True False by blast
    qed (use tx' [of u] in simp)
    ultimately show ?thesis using ts stands val by (intro exI [of _ ts]) auto
  qed
  moreover have "ownerTransaction s' h = None" if "\<forall>u. \<not> tx_busy ?c u" for h
    using that at b' by (cases pc') (auto simp: owns_all_def)
  moreover have "one_commit ?c" using b' by (simp add: one_commit_def)
  moreover have "tx_inv ?c" using safe by (simp add: tx_safe_def)
  ultimately show ?thesis using at rep b' unfolding ser_inv_def by auto
qed

lemma busy_copies:
  assumes "ser_inv prog \<sigma> c" "\<not> decided (stat (memory c) t)"
  shows "copies (memory c) t (set (rw (memory c) t))"
proof -
  have h: "handles_ok (memory c) True t" using assms by (simp add: ser_inv_def replays_def)
  then have "dom (openedObjets (txs (memory c) t)) = set (ro (memory c) t) \<union> set (rw (memory c) t)" by (simp add: handles_ok_def Let_def)
  then show ?thesis using handles_ok_opened(2) [OF h] unfolding copies_def handle_of_def
    by (metis (no_types, lifting) UnCI domD option.simps(5))
qed

lemma ser_inv_step:
  assumes inv: "ser_inv prog \<sigma> c" and st: "tx_step t c = Some (Inr c')" and one: "one_commit c'"
  shows "ser_inv prog \<sigma> c'"
proof -
  have tx: "tx_inv c" using inv by (simp add: ser_inv_def)
  have safe: "tx_safe c c'" using tx_step_safe [OF tx st] by auto
  show ?thesis
  proof (cases "engaged c t")
    case False
    then have t: "calls c t = []" by (simp add: engaged_def)
    have s: "stat (memory c) t \<noteq> COMMITTED" "stat (memory c) t \<noteq> READ_CHECKING" using tx False unfolding tx_inv_def Let_def by blast+
    show ?thesis
    proof (cases "stat (memory c) t = INITIAL")
      case True
      let ?s = "setState t INITIAL UNDECIDED (memory c)"
      have c': "c' = c\<lparr>memory := ?s\<rparr>" using st True t by (simp add: tx_step_def)
      have "replays (memory c) t (prog t) (todo c t)" using inv True by (simp add: ser_inv_def decided_def)
      moreover have "handles_ok ?s True t" if "handles_ok (memory c) True t"
        using that handles_ok_mono [of "memory c" True t ?s] published_kept [OF tx safe] c' by simp
      moreover have "consistent ?s t = consistent (memory c) t" "opened_value ?s t = opened_value (memory c) t"
        by (auto simp: consistent_def opened_value_def fun_eq_iff split: option.splits)
      ultimately have "replays (memory c') t (prog t) (todo c' t)" using c' by (simp add: replays_def)
      then show ?thesis using c' True by (intro ser_inv_running [OF inv safe False]) (simp_all add: only_tx_def)
    next
      case i: False
      from run_task_ok [OF tx False] obtain c1 where c1: "run_task t c = Inr c1" "only_tx t (memory c) (memory c1)" "handles_ok (memory c1) True t"
        "case todo c t of Done \<Rightarrow> c1 = c\<lparr>calls := (calls c)(t := [(t, Start)])\<rparr>
         | Abort \<Rightarrow> calls c1 = calls c \<and> todo c1 = (todo c)(t := Done) \<and> status (txs (memory c1) t) = ABORTED
         | _ \<Rightarrow> calls c1 = calls c \<and> (\<exists>p. todo c1 = (todo c)(t := p)) \<and> status (txs (memory c1) t) = status (txs (memory c) t)"
        "serial_step (memory c) (memory c1) t (todo c t) (todo c1 t)" by blast
      have "c1 = c'" using c1(1) st t i by (simp add: tx_step_def)
      note c1 = c1 [unfolded this]
      show ?thesis
      proof (cases "todo c t = Done")
        case True
        then show ?thesis using c1(4) one ser_inv_engage [OF inv False True i] by simp
      next
        case nd: False
        show ?thesis
        proof (rule ser_inv_running [OF inv safe False c1(2)])
          show "replays (memory c') t (prog t) (todo c' t)" if d: "\<not> decided (stat (memory c') t)"
          proof (rule replays_step [OF _ c1(5,3)])
            show "case todo c t of Done \<Rightarrow> todo c' t = Done | Abort \<Rightarrow> False | _ \<Rightarrow> True" using nd d c1(4) by (auto simp: decided_def split: tx_task.splits)
            have "stat (memory c) t = stat (memory c') t" using nd d c1(4) by (auto simp: decided_def split: tx_task.splits)
            then show "replays (memory c) t (prog t) (todo c t)" using inv d by (simp add: ser_inv_def)
          qed
        qed (use nd c1(4) s in \<open>auto split: tx_task.splits\<close>)
      qed
    qed
  next
    case True
    have i: "stat (memory c) t \<noteq> INITIAL" using tx True unfolding tx_inv_def Let_def by blast
    have b: "tx_busy c t"
    proof (rule ccontr)
      assume "\<not> tx_busy c t"
      then obtain b where "calls c t = [(t, Committed b)]" using True by (auto simp: tx_busy_def)
      then show False using st i by (simp add: tx_step_def)
    qed
    then obtain pc where fr: "calls c t = [(t, pc)]" and at: "commit_at (memory c) t pc" using inv by (auto simp: ser_inv_def)
    have nr: "\<not> returned pc" using b fr by (cases pc) (auto simp: tx_busy_def)
    obtain nx s' where cm: "doCommit t pc (memory c) = (nx, s')" by force
    have h: "handles_ok (memory c) False t" using tx True unfolding tx_inv_def Let_def by (metis (full_types))
    have cp: "copies (memory c) t (set (rw (memory c) t))" if "\<not> decided (stat (memory c) t)" by (rule busy_copies [OF inv that])
    have ok: "alone_ok (memory c) t pc nx s'"
      using alone_step [OF at cm nr _ _ cp] h by (simp add: handles_ok_def Let_def)
    then obtain pc' where pc': "nx = Goto pc'" by (auto simp: alone_ok_def)
    have c': "c' = c\<lparr>memory := s', calls := (calls c)(t := [(t, pc')])\<rparr>" using st fr nr i cm pc' by (simp add: tx_step_def)
    have E: "engaged c t" "pc_ok (engaged c) (txs (memory c) t) t pc" "stm_ok (engaged c) (memory c)"
      using tx fr True unfolding tx_inv_mem by (blast, metis list.set_intros(1), blast)
    have cs: "contents s' = contents (memory c)" using doCommit_ok [OF E(3,1,2) cm] by simp
    show ?thesis using ser_inv_commit [OF inv fr nr cm [unfolded pc'] safe [unfolded c'] cs ok [unfolded pc']] c' by simp
  qed
qed

lemma fold_Nil_stands: "stands_for (tx_init prog \<sigma>) \<sigma>"
  by (auto simp: stands_for_def tx_init_def heap_of_def tx_busy_def engaged_def)

lemma tx_alone_inv: "tx_alone prog \<sigma> c \<Longrightarrow> ser_inv prog \<sigma> c"
proof (induction rule: tx_alone.induct)
  case init
  let ?c = "tx_init prog \<sigma>"
  have "handles_ok (memory ?c) (\<not> engaged ?c t) t" for t using tx_inv_init [of prog \<sigma>] unfolding tx_inv_def Let_def by blast
  moreover have "\<not> engaged ?c t" for t by (simp add: engaged_def tx_init_def)
  ultimately have "handles_ok (memory ?c) True t" for t by simp
  moreover have "opened_value (memory ?c) t \<tau> = \<tau>" for t \<tau> by (simp add: opened_value_def tx_init_def tx_new_def fun_eq_iff)
  ultimately have "replays (memory ?c) t (prog t) (todo ?c t)" for t by (simp add: replays_def) (simp add: tx_init_def)
  moreover have "\<not> tx_busy ?c t" "stat (memory ?c) t = INITIAL" "ownerTransaction (memory ?c) h = None" for t h by (simp_all add: tx_busy_def engaged_def tx_init_def tx_new_def)
  ultimately show ?case using tx_inv_init [of prog \<sigma>] fold_Nil_stands [of prog \<sigma>] by (auto simp: ser_inv_def one_commit_def intro: exI [of _ "[]"])
next
  case (step c t c')
  then show ?case using ser_inv_step by blast
qed

subsection \<open>A commit that runs alone ends, and exactly commits what is current\<close>

fun outcome :: "'v stm \<Rightarrow> txid \<Rightarrow> tx_pc \<Rightarrow> bool" where
  "outcome s t (Finish d) \<longleftrightarrow> stat s t \<noteq> ABORTED \<and> d = COMMITTED"
| "outcome s t (Push_status old d) \<longleftrightarrow> stat s t \<noteq> ABORTED \<and> d = COMMITTED"
| "outcome s t pc \<longleftrightarrow> (if acquiring pc \<or> validating pc then stat s t \<noteq> ABORTED \<and> current s t (set (rw s t) \<union> set (ro s t)) else stat s t = COMMITTED)"

lemma outcome_acquire:
  assumes "commit_at s t pc" "acquire_step t pc s = (Goto pc', s')" "acquiring pc" "commit_at s' t pc'"
  shows "outcome s' t pc' = outcome s t pc"
  using assms(3)
proof (elim disjE exE)
  fix i assume pc: "pc = Acquire i"
  show ?thesis
  proof (cases "i < length (rw s t)")
    case True
    then show ?thesis using pc assms by (cases "ownerTransaction s (rw s t ! i)") (auto simp: acquireHeader_def split: if_splits)
  qed (use pc assms in auto)
next
  fix i assume pc: "pc = Changed i"
  then have "rw s t ! i \<in> set (rw s t)" using assms(1) by simp
  then show ?thesis using pc assms by (auto simp: current_def split: if_splits)
qed (use assms in \<open>auto split: if_splits\<close>)

lemma outcome_validate:
  assumes "commit_at s t pc" "validateReadOnlyObjects t pc s = (Goto pc', s')" "validating pc"
  shows "outcome s' t pc' = outcome s t pc"
  using assms(3)
proof (elim disjE exE)
  fix i assume pc: "pc = Read_changed i"
  show ?thesis
  proof (cases "i < length (ro s t)")
    case True
    then have "ro s t ! i \<in> set (ro s t)" by simp
    then show ?thesis using True pc assms by (auto simp: current_def split: if_splits)
  qed (use pc assms in auto)
next
  fix i assume pc: "pc = Read_owner i"
  then show ?thesis using assms by (auto split: option.splits)
qed (use assms in \<open>auto simp: pending_status_def split: if_splits\<close>)

lemma outcome_finish:
  assumes "commit_at s t pc" "tryFinishCommit t pc s = (Goto pc', s')" "finishing pc"
  shows "outcome s' t pc' = outcome s t pc"
  using assms(3)
proof (elim disjE exE)
  fix old d assume pc: "pc = Push_status old d"
  then show ?thesis using assms by (auto simp: ready_def pending_status_def split: if_splits)
qed (use assms in \<open>auto simp: Let_def ready_def split: if_splits option.splits\<close>)

lemma outcome_step:
  assumes "commit_at s t pc" "doCommit t pc s = (Goto pc', s')" "\<not> returned pc" "commit_at s' t pc'"
  shows "outcome s' t pc' = outcome s t pc"
proof (cases "acquiring pc")
  case True
  then have "doCommit t pc s = acquire_step t pc s" by (auto simp: doCommit_def simp del: acquire_step.simps)
  then have "acquire_step t pc s = (Goto pc', s')" using assms(2) by metis
  then show ?thesis using True by (rule outcome_acquire [OF assms(1) _ _ assms(4)])
next
  case na: False
  show ?thesis
  proof (cases "validating pc")
    case True
    then have "doCommit t pc s = validateReadOnlyObjects t pc s" by (auto simp: doCommit_def simp del: validateReadOnlyObjects.simps)
    then have "validateReadOnlyObjects t pc s = (Goto pc', s')" using assms(2) by metis
    then show ?thesis using True by (rule outcome_validate [OF assms(1)])
  next
    case False
    then have f: "doCommit t pc s = tryFinishCommit t pc s" "finishing pc" using doCommit_phase [of t pc s] na assms(3) by blast+
    then have "tryFinishCommit t pc s = (Goto pc', s')" using assms(2) by metis
    then show ?thesis using f(2) by (rule outcome_finish [OF assms(1)])
  qed
qed

text \<open>The step of a busy transaction, with what it keeps.\<close>

lemma busy_step:
  assumes inv: "ser_inv prog \<sigma> c" and fr: "calls c t = [(t, pc)]" and nr: "\<not> returned pc"
  shows "\<exists>pc' c'. tx_step t c = Some (Inr c') \<and> ser_inv prog \<sigma> c' \<and> calls c' t = [(t, pc')] \<and>
    distance (memory c') t pc' < distance (memory c) t pc \<and> outcome (memory c') t pc' = outcome (memory c) t pc"
proof -
  have tx: "tx_inv c" using inv by (simp add: ser_inv_def)
  have b: "tx_busy c t" using fr nr by (auto simp: tx_busy_def engaged_def)
  have at: "commit_at (memory c) t pc" using inv b fr by (auto simp: ser_inv_def)
  have i: "stat (memory c) t \<noteq> INITIAL" using tx b unfolding tx_inv_def Let_def tx_busy_def by blast
  obtain nx s' where cm: "doCommit t pc (memory c) = (nx, s')" by force
  have h: "handles_ok (memory c) False t" using tx b unfolding tx_inv_def Let_def tx_busy_def by (metis (full_types))
  have cp: "copies (memory c) t (set (rw (memory c) t))" if "\<not> decided (stat (memory c) t)" by (rule busy_copies [OF inv that])
  have ok: "alone_ok (memory c) t pc nx s'" using alone_step [OF at cm nr _ _ cp] h by (simp add: handles_ok_def Let_def)
  then obtain pc' where pc': "nx = Goto pc'" "commit_at s' t pc'" "distance s' t pc' < distance (memory c) t pc" by (auto simp: alone_ok_def)
  let ?c = "c\<lparr>memory := s', calls := (calls c)(t := [(t, pc')])\<rparr>"
  have st: "tx_step t c = Some (Inr ?c)" using fr nr i cm pc' by (simp add: tx_step_def)
  have "one_commit ?c" using inv b unfolding ser_inv_def one_commit_def tx_busy_def engaged_def by (auto split: if_splits)
  then have "ser_inv prog \<sigma> ?c" using ser_inv_step [OF inv st] by blast
  then show ?thesis using st pc' outcome_step [OF at cm [unfolded pc'(1)] nr pc'(2)] by auto
qed

lemma busy_finishes:
  assumes "ser_inv prog \<sigma> c" "calls c t = [(t, pc)]"
  shows "\<exists>n c'. n \<le> distance (memory c) t pc \<and> tx_run (replicate n t) c = Some (Inr c') \<and> ser_inv prog \<sigma> c' \<and> calls c' t = [(t, Committed (outcome (memory c) t pc))]"
  using assms
proof (induction "distance (memory c) t pc" arbitrary: c pc rule: less_induct)
  case less
  show ?case
  proof (cases "returned pc")
    case True
    then obtain b where pc: "pc = Committed b" by (cases pc) auto
    have "\<forall>t u pc. (u, pc) \<in> set (calls c t) \<longrightarrow> engaged c u \<and> pc_ok (engaged c) (txs (memory c) u) u pc"
      using less.prems(1) unfolding ser_inv_def tx_inv_mem by blast
    then have "pc_ok (engaged c) (txs (memory c) t) t pc" using less.prems(2) by (metis list.set_intros(1))
    then have "b = outcome (memory c) t pc" using pc by simp
    then show ?thesis using less.prems pc by (intro exI [of _ 0]) auto
  next
    case False
    from busy_step [OF less.prems False] obtain pc' c1 where c1: "tx_step t c = Some (Inr c1)" "ser_inv prog \<sigma> c1" "calls c1 t = [(t, pc')]"
      "distance (memory c1) t pc' < distance (memory c) t pc" "outcome (memory c1) t pc' = outcome (memory c) t pc" by blast
    from less.hyps [OF c1(4,2,3)] obtain n c' where n: "n \<le> distance (memory c1) t pc'" "tx_run (replicate n t) c1 = Some (Inr c')" "ser_inv prog \<sigma> c'"
      "calls c' t = [(t, Committed (outcome (memory c) t pc))]" using c1(5) by auto
    show ?thesis by (intro exI [of _ "Suc n"] exI [of _ c']) (use n c1 in auto)
  qed
qed

subsection \<open>Properties\<close>

text \<open>
  C15. While no two commits overlap, transactions are serialisable: whenever no transaction is committing, the objects
  have the values that running the tasks of the committed transactions one after the other, each as a whole, would
  give, in some order, and no other task had an effect. Tasks may run at the same time as each other and as a commit.
\<close>

theorem transactions_serializable:
  assumes "tx_alone prog \<sigma> c" "\<forall>t. \<not> tx_busy c t"
  shows "\<exists>ts. distinct ts \<and> set ts = {t. status (txs (memory c) t) = COMMITTED} \<and>
    heap_of (memory c) = fold (\<lambda>t. serial (prog t)) ts \<sigma>"
  using tx_alone_inv [OF assms(1)] assms(2) unfolding ser_inv_def stands_for_def by metis

text \<open>
  C32. A commit that starts while no other is under way ends within a number of its own steps that is linear in the number of
  opened objects, and it commits exactly if the task did not abort and every opened version is still current.
\<close>

theorem commit_decides:
  assumes "tx_alone prog \<sigma> c" "calls c t = [(t, Start)]"
  shows "\<exists>n c'. n \<le> 7 * length (readWriteObjects (txs (memory c) t)) + 2 * length (readOnlyObjects (txs (memory c) t)) + 9 \<and>
    tx_run (replicate n t) c = Some (Inr c') \<and>
    calls c' t = [(t, Committed (status (txs (memory c) t) \<noteq> ABORTED \<and>
      (\<forall>h \<in> set (readWriteObjects (txs (memory c) t)) \<union> set (readOnlyObjects (txs (memory c) t)). \<not> hasObjectChanged t h (memory c))))]"
proof -
  let ?s = "memory c"
  have o: "outcome ?s t Start = (stat ?s t \<noteq> ABORTED \<and> (\<forall>h \<in> set (rw ?s t) \<union> set (ro ?s t). \<not> hasObjectChanged t h ?s))" by (simp add: current_def ball_Un)
  from busy_finishes [OF tx_alone_inv [OF assms(1)] assms(2)] obtain n c' where "n \<le> distance ?s t Start" "tx_run (replicate n t) c = Some (Inr c')"
    "calls c' t = [(t, Committed (outcome ?s t Start))]" by blast
  then show ?thesis unfolding o by (intro exI [of _ n] exI [of _ c']) simp
qed

subsection \<open>Runs\<close>

lemma tx_step_others:
  assumes "tx_step t c = Some (Inr c')" "u \<noteq> t"
  shows "calls c' u = calls c u"
  using assms by (auto simp: tx_step_def run_task_def Let_def rbind_eq_Inr_iff case_prod_unfold split: if_splits list.splits tx_next.splits tx_task.splits)

lemma tx_run_alone:
  assumes "tx_alone prog \<sigma> c" "\<forall>u. u \<noteq> t \<longrightarrow> \<not> tx_busy c u" "tx_run (replicate n t) c = Some (Inr c')"
  shows "tx_alone prog \<sigma> c' \<and> (\<forall>u. u \<noteq> t \<longrightarrow> \<not> tx_busy c' u)"
  using assms
proof (induction n arbitrary: c)
  case (Suc n)
  then obtain c1 where c1: "tx_step t c = Some (Inr c1)" "tx_run (replicate n t) c1 = Some (Inr c')" by (auto split: option.splits sum.splits)
  have b: "\<forall>u. u \<noteq> t \<longrightarrow> \<not> tx_busy c1 u" using Suc.prems(2) tx_step_others [OF c1(1)] by (simp add: tx_busy_def engaged_def)
  then have "one_commit c1" unfolding one_commit_def by metis
  then have "tx_alone prog \<sigma> c1" using tx_alone.step Suc.prems(1) c1(1) by blast
  then show ?case using Suc.IH b c1(2) by blast
qed simp

text \<open>Transaction 1 has committed; 2 has read header 0 afterwards and is about to commit; then it has committed as well.\<close>

definition demo_one :: "nat tx_sys" where
  "demo_one = demo_after (replicate 17 1)"

definition demo_second :: "nat tx_sys" where
  "demo_second = demo_after (replicate 17 1 @ replicate 4 2)"

definition demo_both :: "nat tx_sys" where
  "demo_both = demo_after (replicate 17 1 @ replicate 4 2 @ replicate 18 2)"

lemma tx_run_append: "tx_run (ts @ us) c = (case tx_run ts c of Some (Inr c') \<Rightarrow> tx_run us c' | r \<Rightarrow> r)"
  by (induction ts arbitrary: c) (auto split: option.splits sum.splits)

definition demo_runs :: "txid list \<Rightarrow> bool" where
  "demo_runs ts = (case tx_run ts (tx_init demo_prog (\<lambda>_. 5)) of Some (Inr c) \<Rightarrow> True | _ \<Rightarrow> False)"

lemma demo_extend:
  assumes "demo_runs ts" "demo_runs (ts @ us)"
  shows "tx_run us (demo_after ts) = Some (Inr (demo_after (ts @ us)))"
  using assms by (auto simp: demo_runs_def demo_after_def tx_run_append split: option.splits sum.splits)

lemma not_busy_others:
  assumes "\<forall>u. u \<noteq> t \<longrightarrow> \<not> tx_busy c u" "calls c t = [(t, Committed b)]"
  shows "\<forall>u. \<not> tx_busy c u"
  using assms by (metis tx_busy_def)

lemma demo_first_alone: "tx_alone demo_prog (\<lambda>_. 5) demo_one \<and> (\<forall>u. \<not> tx_busy demo_one u)"
proof -
  have r: "demo_runs []" "demo_runs ([] @ replicate 17 1)" "calls demo_one 1 = [(1, Committed True)]" by code_simp+
  have "tx_alone demo_prog (\<lambda>_. 5) (demo_after [])" "\<forall>u. u \<noteq> 1 \<longrightarrow> \<not> tx_busy (demo_after []) u"
    using tx_alone.init [of demo_prog "\<lambda>_. 5"] by (simp add: demo_after_def) (simp add: demo_after_def tx_busy_def engaged_def tx_init_def)
  from tx_run_alone [OF this demo_extend [OF r(1,2)]] show ?thesis using r(3) not_busy_others [of 1 demo_one True] by (simp add: demo_one_def)
qed

lemma demo_second_alone: "tx_alone demo_prog (\<lambda>_. 5) demo_second \<and> (\<forall>u. u \<noteq> 2 \<longrightarrow> \<not> tx_busy demo_second u)"
proof -
  have r: "demo_runs (replicate 17 1)" "demo_runs (replicate 17 1 @ replicate 4 2)" by code_simp+
  show ?thesis using tx_run_alone [OF _ _ demo_extend [OF r], of demo_prog "\<lambda>_. 5"] demo_first_alone unfolding demo_one_def demo_second_def by blast
qed

lemma demo_both_alone: "tx_alone demo_prog (\<lambda>_. 5) demo_both \<and> (\<forall>u. \<not> tx_busy demo_both u)"
proof -
  have r: "demo_runs (replicate 17 1 @ replicate 4 2)" "demo_runs ((replicate 17 1 @ replicate 4 2) @ replicate 18 2)" "calls demo_both 2 = [(2, Committed True)]" by code_simp+
  have "tx_alone demo_prog (\<lambda>_. 5) demo_both \<and> (\<forall>u. u \<noteq> 2 \<longrightarrow> \<not> tx_busy demo_both u)"
    using tx_run_alone [OF _ _ demo_extend [OF r(1,2)], of demo_prog "\<lambda>_. 5"] demo_second_alone unfolding demo_second_def demo_both_def append.assoc by blast
  then show ?thesis using r(3) not_busy_others [of 2 demo_both True] by blast
qed

theorem transactions_serializable_witness:
  "(\<exists>ts. distinct ts \<and> set ts = {t. status (txs (memory demo_both) t) = COMMITTED} \<and>
     heap_of (memory demo_both) = fold (\<lambda>t. serial (demo_prog t)) ts (\<lambda>_. 5)) \<and>
   heap_of (memory demo_both) 0 = 6 \<and> heap_of (memory demo_both) 1 = 11"
proof (intro conjI)
  show "\<exists>ts. distinct ts \<and> set ts = {t. status (txs (memory demo_both) t) = COMMITTED} \<and>
      heap_of (memory demo_both) = fold (\<lambda>t. serial (demo_prog t)) ts (\<lambda>_. 5)"
    using transactions_serializable [of demo_prog "\<lambda>_. 5" demo_both] demo_both_alone by blast
  show "heap_of (memory demo_both) 0 = 6" by code_simp
  show "heap_of (memory demo_both) 1 = 11" by code_simp
qed

theorem commit_decides_witness:
  "\<exists>n c'. n \<le> 18 \<and> tx_run (replicate n 2) demo_second = Some (Inr c') \<and> calls c' 2 = [(2, Committed True)]"
proof -
  have c: "calls demo_second 2 = [(2, Start)]" "readWriteObjects (txs (memory demo_second) 2) = [1]" "readOnlyObjects (txs (memory demo_second) 2) = [0]"
    "status (txs (memory demo_second) 2) = UNDECIDED" "\<not> hasObjectChanged 2 0 (memory demo_second)" "\<not> hasObjectChanged 2 1 (memory demo_second)" by code_simp+
  show ?thesis using commit_decides [OF conjunct1 [OF demo_second_alone] c(1)] c by simp
qed

text \<open>
  Overlapping commits are not serialisable. \<open>releaseObject\<close> gives the header up before it stores the new version: here
  transaction 3, which opened the same version as transaction 1, acquires the header in between, finds its version
  unchanged and commits. Both commits report success, and one of the two increments is lost.
\<close>

lemma lost_update:
  "case tx_run (replicate 2 1 @ replicate 2 3 @ replicate 12 1 @ replicate 15 3 @ replicate 3 1) (tx_init demo_prog (\<lambda>_. 5)) of
     Some (Inr c) \<Rightarrow> calls c 1 = [(1, Committed True)] \<and> calls c 3 = [(3, Committed True)] \<and> heap_of (memory c) 0 = 6
   | _ \<Rightarrow> False"
  by code_simp

end
