(* ===== verification/Trees.thy ===== *)
theory Trees
  imports Prelude "HOL-Library.Tree_Multiset"
begin

text \<open>
  \<^verbatim>\<open>system/util/BinarySearchTree.h\<close> and \<^verbatim>\<open>BinaryHeap.h\<close>. The nodes of both are owned by their container and linked as
  trees, so that a pointer to a node is the tree below it and a null pointer is \<open>Leaf\<close>. The elements are compared
  with their \<open>compareTo\<close>, an argument: a positive value means that the first element comes first. \<open>npl\<close> and \<open>count\<close> are unbounded.
\<close>

subsection \<open>Binary search trees\<close>

record 'e search_tree =
  bst_root :: "'e tree"
  bst_count :: int
  bst_nullValue :: 'e

definition bst_new :: "'e \<Rightarrow> 'e search_tree" where
  "bst_new nullval = \<lparr>bst_root = Leaf, bst_count = 0, bst_nullValue = nullval\<rparr>"

definition bst_elementAt :: "'e search_tree \<Rightarrow> 'e tree \<Rightarrow> 'e" where
  "bst_elementAt t node = (case node of Leaf \<Rightarrow> bst_nullValue t | Node l x r \<Rightarrow> x)"

fun add_node :: "('e \<Rightarrow> 'e \<Rightarrow> int) \<Rightarrow> 'e \<Rightarrow> 'e tree \<Rightarrow> 'e tree" where
  "add_node cmp x Leaf = Node Leaf x Leaf"
| "add_node cmp x (Node l a r) =
     (if cmp x a > 0 then Node (add_node cmp x l) a r else if cmp x a < 0 then Node l a (add_node cmp x r) else Node l a r)"

fun findMin :: "'e tree \<Rightarrow> 'e tree" where
  "findMin Leaf = Leaf"
| "findMin (Node l a r) = (if l = Leaf then Node l a r else findMin l)"

fun findMax :: "'e tree \<Rightarrow> 'e tree" where
  "findMax Leaf = Leaf"
| "findMax (Node l a r) = (if r = Leaf then Node l a r else findMax r)"

fun find_node :: "('e \<Rightarrow> 'e \<Rightarrow> int) \<Rightarrow> 'e \<Rightarrow> 'e tree \<Rightarrow> 'e tree" where
  "find_node cmp x Leaf = Leaf"
| "find_node cmp x (Node l a r) = (if cmp x a > 0 then find_node cmp x l else if cmp x a < 0 then find_node cmp x r else Node l a r)"

text \<open>A node with two children takes over the least element on its right, which is then removed there.\<close>

fun remove_node :: "('e \<Rightarrow> 'e \<Rightarrow> int) \<Rightarrow> 'e \<Rightarrow> 'e tree \<Rightarrow> 'e tree" where
  "remove_node cmp x Leaf = Leaf"
| "remove_node cmp x (Node l a r) =
     (if cmp x a > 0 then Node (remove_node cmp x l) a r
      else if cmp x a < 0 then Node l a (remove_node cmp x r)
      else if l \<noteq> Leaf \<and> r \<noteq> Leaf then
        let b = (case findMin r of Leaf \<Rightarrow> a | Node _ y _ \<Rightarrow> y) in Node l b (remove_node cmp b r)
      else if l \<noteq> Leaf then l else r)"

fun clone_node :: "'e tree \<Rightarrow> 'e tree" where
  "clone_node Leaf = Leaf"
| "clone_node (Node l a r) = Node (clone_node l) a (clone_node r)"

fun printTree :: "'e tree \<Rightarrow> 'e list" where
  "printTree Leaf = []"
| "printTree (Node l a r) = printTree l @ [a] @ printTree r"

definition bst_add :: "('e \<Rightarrow> 'e \<Rightarrow> int) \<Rightarrow> 'e \<Rightarrow> 'e search_tree \<Rightarrow> 'e search_tree" where
  "bst_add cmp x t = t\<lparr>bst_root := add_node cmp x (bst_root t)\<rparr>"

definition bst_remove :: "('e \<Rightarrow> 'e \<Rightarrow> int) \<Rightarrow> 'e \<Rightarrow> 'e search_tree \<Rightarrow> 'e search_tree" where
  "bst_remove cmp x t = t\<lparr>bst_root := remove_node cmp x (bst_root t)\<rparr>"

text \<open>\<open>contains\<close> converts the element it found, or the null value, to a truth value (elements are pointers): the conversion is an argument.\<close>

definition bst_contains :: "('e \<Rightarrow> bool) \<Rightarrow> ('e \<Rightarrow> 'e \<Rightarrow> int) \<Rightarrow> 'e \<Rightarrow> 'e search_tree \<Rightarrow> bool" where
  "bst_contains to_bool cmp x t = to_bool (bst_elementAt t (find_node cmp x (bst_root t)))"

definition bst_first :: "'e search_tree \<Rightarrow> 'e" where
  "bst_first t = bst_elementAt t (findMin (bst_root t))"

definition bst_last :: "'e search_tree \<Rightarrow> 'e" where
  "bst_last t = bst_elementAt t (findMax (bst_root t))"

definition bst_removeAll :: "'e search_tree \<Rightarrow> 'e search_tree" where
  "bst_removeAll t = t\<lparr>bst_root := Leaf\<rparr>"

definition bst_assign :: "'e search_tree \<Rightarrow> 'e search_tree \<Rightarrow> 'e search_tree" where
  "bst_assign src t = (bst_removeAll t)\<lparr>bst_root := clone_node (bst_root src)\<rparr>"

definition bst_copy :: "'e search_tree \<Rightarrow> 'e search_tree" where
  "bst_copy src = bst_assign src (bst_new (bst_nullValue src))"

definition bst_isEmpty :: "'e search_tree \<Rightarrow> bool" where
  "bst_isEmpty t \<longleftrightarrow> bst_root t = Leaf"

text \<open>The lines \<open>printTree\<close> writes.\<close>

definition bst_print :: "('e \<Rightarrow> string) \<Rightarrow> 'e search_tree \<Rightarrow> string list" where
  "bst_print show_elem t = (if bst_isEmpty t then [''Empty tree''] else map show_elem (printTree (bst_root t)))"

definition bst_size :: "'e search_tree \<Rightarrow> int" where
  "bst_size t = 0"

text \<open>The specification: a set of elements no two of which compare equal.\<close>

datatype 'e tree_op = Add 'e | Remove 'e | RemoveAll

fun tree_op_step :: "('e \<Rightarrow> 'e \<Rightarrow> int) \<Rightarrow> 'e tree_op \<Rightarrow> 'e search_tree \<Rightarrow> 'e search_tree" where
  "tree_op_step cmp (Add x) t = bst_add cmp x t"
| "tree_op_step cmp (Remove x) t = bst_remove cmp x t"
| "tree_op_step cmp RemoveAll t = bst_removeAll t"

fun set_op_step :: "('e \<Rightarrow> 'e \<Rightarrow> int) \<Rightarrow> 'e tree_op \<Rightarrow> 'e set \<Rightarrow> 'e set" where
  "set_op_step cmp (Add x) S = (if \<exists>y \<in> S. cmp x y = 0 then S else insert x S)"
| "set_op_step cmp (Remove x) S = {y \<in> S. cmp x y \<noteq> 0}"
| "set_op_step cmp RemoveAll S = {}"

definition tree_ok :: "('e \<Rightarrow> 'e \<Rightarrow> int) \<Rightarrow> 'e tree \<Rightarrow> bool" where
  "tree_ok cmp t \<longleftrightarrow> sorted_wrt (\<lambda>a b. 0 < cmp a b) (inorder t)"

lemma clone_node_id [simp]: "clone_node t = t"
  by (induction t) auto

lemma printTree_inorder [simp]: "printTree t = inorder t"
  by (induction t) auto

lemma findMin_hd: "t \<noteq> Leaf \<Longrightarrow> \<exists>r. findMin t = Node Leaf (hd (inorder t)) r"
  by (induction t rule: findMin.induct) auto

lemma findMax_last: "t \<noteq> Leaf \<Longrightarrow> \<exists>l. findMax t = Node l (last (inorder t)) Leaf"
  by (induction t rule: findMax.induct) auto

lemma tree_ok_Node: "tree_ok cmp (Node l a r) \<longleftrightarrow> tree_ok cmp l \<and> tree_ok cmp r \<and> (\<forall>x \<in> set_tree l. 0 < cmp x a) \<and> (\<forall>x \<in> set_tree r. 0 < cmp a x) \<and>
    (\<forall>x \<in> set_tree l. \<forall>y \<in> set_tree r. 0 < cmp x y)"
  by (auto simp: tree_ok_def sorted_wrt_append)

lemma tree_ok_Leaf [simp]: "tree_ok cmp Leaf"
  by (simp add: tree_ok_def)

context compare_order
begin

lemma cmp_trans_strict: "0 < cmp a b \<Longrightarrow> 0 < cmp b c \<Longrightarrow> 0 < cmp a c"
  using cmp_before [of a b c] by simp

lemma cmp_cong0: "cmp x y = 0 \<Longrightarrow> 0 < cmp y z \<Longrightarrow> 0 < cmp x z"
  using cmp_before [of x y z] by simp

lemma cmp_cong0_right: "cmp x y = 0 \<Longrightarrow> 0 < cmp z y \<Longrightarrow> 0 < cmp z x"
  using cmp_after [of y x z] cmp_flip [of z y] cmp_flip [of z x] cmp_eq_sym [of x y] by simp

lemma tree_Node: "tree_ok cmp (Node l a r) \<longleftrightarrow> tree_ok cmp l \<and> tree_ok cmp r \<and> (\<forall>x \<in> set_tree l. 0 < cmp x a) \<and> (\<forall>x \<in> set_tree r. 0 < cmp a x)"
  using cmp_trans_strict unfolding tree_ok_Node by blast

lemma left_of: "tree_ok cmp (Node l a r) \<Longrightarrow> 0 < cmp x a \<Longrightarrow> y \<in> set_tree r \<Longrightarrow> 0 < cmp x y"
  using cmp_trans_strict unfolding tree_Node by blast

lemma right_of: "tree_ok cmp (Node l a r) \<Longrightarrow> cmp x a < 0 \<Longrightarrow> y \<in> set_tree l \<Longrightarrow> 0 < cmp y x"
  using cmp_trans_strict cmp_flip unfolding tree_Node by blast

lemma find_node_ok:
  assumes "tree_ok cmp t"
  shows "(\<forall>y \<in> set_tree t. cmp x y \<noteq> 0) \<and> find_node cmp x t = Leaf \<or> (\<exists>l y r. find_node cmp x t = Node l y r \<and> y \<in> set_tree t \<and> cmp x y = 0)"
  using assms
proof (induction t)
  case (Node l a r)
  have lr: "0 < cmp x a \<Longrightarrow> \<forall>y \<in> set_tree r. cmp x y \<noteq> 0" "cmp x a < 0 \<Longrightarrow> \<forall>y \<in> set_tree l. cmp x y \<noteq> 0"
    using left_of [OF Node.prems, of x] right_of [OF Node.prems, of x] cmp_eq_sym by (metis less_irrefl)+
  show ?case using Node.IH Node.prems lr unfolding tree_Node by auto
qed simp

lemma add_node_set:
  assumes "tree_ok cmp t"
  shows "set_tree (add_node cmp x t) = (if \<exists>y \<in> set_tree t. cmp x y = 0 then set_tree t else insert x (set_tree t))"
  using assms
proof (induction t)
  case (Node l a r)
  have lr: "0 < cmp x a \<Longrightarrow> \<forall>y \<in> set_tree r. cmp x y \<noteq> 0" "cmp x a < 0 \<Longrightarrow> \<forall>y \<in> set_tree l. cmp x y \<noteq> 0"
    using left_of [OF Node.prems, of x] right_of [OF Node.prems, of x] cmp_eq_sym by (metis less_irrefl)+
  show ?case using Node.IH Node.prems lr unfolding tree_Node by auto
qed simp

lemma add_node_ok: "tree_ok cmp t \<Longrightarrow> tree_ok cmp (add_node cmp x t)"
proof (induction t)
  case (Node l a r)
  have ok: "tree_ok cmp l" "tree_ok cmp r" using Node.prems by (simp_all add: tree_Node)
  show ?case using Node.IH Node.prems add_node_set [OF ok(1), of x] add_node_set [OF ok(2), of x] cmp_flip [of a x] by (auto simp: tree_Node split: if_splits)
qed (simp add: tree_Node)

lemma findMin_ok:
  assumes "tree_ok cmp t" "t \<noteq> Leaf"
  shows "\<exists>b r. findMin t = Node Leaf b r \<and> b \<in> set_tree t \<and> (\<forall>y \<in> set_tree t. y = b \<or> 0 < cmp b y)"
proof -
  have ne: "inorder t \<noteq> []" using assms(2) by (cases t) auto
  then have "hd (inorder t) \<in> set_tree t" "\<forall>y \<in> set_tree t. y = hd (inorder t) \<or> 0 < cmp (hd (inorder t)) y"
    using assms(1) unfolding tree_ok_def set_inorder [symmetric] by (cases "inorder t"; auto)+
  then show ?thesis using findMin_hd [OF assms(2)] by blast
qed

lemma findMax_ok:
  assumes "tree_ok cmp t" "t \<noteq> Leaf"
  shows "\<exists>b l. findMax t = Node l b Leaf \<and> b \<in> set_tree t \<and> (\<forall>y \<in> set_tree t. y = b \<or> 0 < cmp y b)"
proof -
  have ne: "inorder t \<noteq> []" using assms(2) by (cases t) auto
  then have "last (inorder t) \<in> set_tree t" by (metis last_in_set set_inorder)
  moreover have "inorder t = butlast (inorder t) @ [last (inorder t)]" using ne by simp
  then have "\<forall>y \<in> set_tree t. y = last (inorder t) \<or> 0 < cmp y (last (inorder t))"
    using assms(1) unfolding tree_ok_def set_inorder [symmetric] by (metis (no_types, lifting) Un_iff empty_iff list.set(1) list.set_intros(1) set_ConsD set_append sorted_wrt_append)
  ultimately show ?thesis using findMax_last [OF assms(2)] by blast
qed

lemma remove_node_set:
  assumes "tree_ok cmp t"
  shows "set_tree (remove_node cmp x t) = {y \<in> set_tree t. cmp x y \<noteq> 0}"
  using assms
proof (induction t arbitrary: x)
  case (Node l a r)
  have ok: "tree_ok cmp l" "tree_ok cmp r" "\<forall>y \<in> set_tree l. 0 < cmp y a" "\<forall>y \<in> set_tree r. 0 < cmp a y" using Node.prems by (simp_all add: tree_Node)
  consider "0 < cmp x a" | "cmp x a < 0" | "cmp x a = 0" by linarith
  then show ?case
  proof cases
    case 1
    then have "\<forall>y \<in> set_tree r. cmp x y \<noteq> 0" using left_of [OF Node.prems 1] by fastforce
    then show ?thesis using 1 Node.IH(1) [OF ok(1), of x] by auto
  next
    case 2
    then have "\<forall>y \<in> set_tree l. cmp x y \<noteq> 0" using right_of [OF Node.prems 2] cmp_eq_sym by (metis less_irrefl)
    then show ?thesis using 2 Node.IH(2) [OF ok(2), of x] by auto
  next
    case 3
    then have n: "\<forall>y \<in> set_tree l \<union> set_tree r. cmp x y \<noteq> 0"
      using ok(3,4) cmp_cong0 [OF 3] cmp_cong0_right [OF 3] cmp_eq_sym by (metis Un_iff less_irrefl)
    show ?thesis
    proof (cases "l \<noteq> Leaf \<and> r \<noteq> Leaf")
      case True
      then obtain b r' where b: "findMin r = Node Leaf b r'" "b \<in> set_tree r" "\<forall>y \<in> set_tree r. y = b \<or> 0 < cmp b y" using findMin_ok [OF ok(2)] by blast
      have "{y \<in> set_tree r. cmp b y \<noteq> 0} = set_tree r - {b}" using b(3) cmp_refl by fastforce
      then show ?thesis using True 3 b n Node.IH(2) [OF ok(2), of b] by auto
    next
      case False
      then show ?thesis using 3 n by auto
    qed
  qed
qed simp

lemma remove_node_ok: "tree_ok cmp t \<Longrightarrow> tree_ok cmp (remove_node cmp x t)"
proof (induction t arbitrary: x)
  case (Node l a r)
  have ok: "tree_ok cmp l" "tree_ok cmp r" "\<forall>y \<in> set_tree l. 0 < cmp y a" "\<forall>y \<in> set_tree r. 0 < cmp a y" using Node.prems by (simp_all add: tree_Node)
  have sub: "set_tree (remove_node cmp y l) \<subseteq> set_tree l" "set_tree (remove_node cmp y r) = {z \<in> set_tree r. cmp y z \<noteq> 0}" for y
    using remove_node_set [OF ok(1), of y] remove_node_set [OF ok(2), of y] by auto
  show ?case
  proof (cases "cmp x a = 0 \<and> l \<noteq> Leaf \<and> r \<noteq> Leaf")
    case True
    then obtain b r' where b: "findMin r = Node Leaf b r'" "b \<in> set_tree r" "\<forall>y \<in> set_tree r. y = b \<or> 0 < cmp b y" using findMin_ok [OF ok(2)] by blast
    have "\<forall>y \<in> set_tree l. 0 < cmp y b" using ok(3,4) b(2) cmp_trans_strict by blast
    moreover have "\<forall>y \<in> set_tree (remove_node cmp b r). 0 < cmp b y" using sub(2) [of b] b(3) cmp_refl [of b] by auto
    ultimately show ?thesis using True b Node.IH(2) [OF ok(2), of b] ok(1) by (simp add: tree_Node)
  next
    case False
    then show ?thesis using Node.IH(1) [OF ok(1), of x] Node.IH(2) [OF ok(2), of x] ok sub [of x] by (auto simp: tree_Node)
  qed
qed simp

lemma tree_op_refines:
  assumes "tree_ok cmp (bst_root t)" "set_tree (bst_root t) = S"
  shows "tree_ok cmp (bst_root (tree_op_step cmp p t)) \<and> set_tree (bst_root (tree_op_step cmp p t)) = set_op_step cmp p S \<and>
    bst_nullValue (tree_op_step cmp p t) = bst_nullValue t"
  using assms add_node_ok add_node_set [of "bst_root t"] remove_node_ok remove_node_set [of "bst_root t"]
  by (cases p) (auto simp: bst_add_def bst_remove_def bst_removeAll_def)

lemma tree_ops_refine:
  "tree_ok cmp (bst_root t) \<Longrightarrow> tree_ok cmp (bst_root (fold (tree_op_step cmp) ps t)) \<and>
     set_tree (bst_root (fold (tree_op_step cmp) ps t)) = fold (set_op_step cmp) ps (set_tree (bst_root t)) \<and>
     bst_nullValue (fold (tree_op_step cmp) ps t) = bst_nullValue t"
proof (induction ps arbitrary: t)
  case (Cons p ps)
  then show ?case using tree_op_refines [of t "set_tree (bst_root t)" p] by auto
qed simp

end

subsection \<open>Binary heaps\<close>

text \<open>A node carries its element and its null path length.\<close>

type_synonym 'e hnode = "('e \<times> int) tree"

record 'e binary_heap =
  bh_root :: "'e hnode"
  bh_count :: int

fun npl_of :: "'e hnode \<Rightarrow> int" where
  "npl_of Leaf = -1"
| "npl_of (Node l (x, n) r) = n"

text \<open>The end of \<open>merge1\<close>: \<open>r\<close> is the new right child, and the children are swapped when the left one is shallower.\<close>

definition relink_children :: "'e hnode \<Rightarrow> 'e \<Rightarrow> 'e hnode \<Rightarrow> 'e hnode" where
  "relink_children l x r = (if npl_of l < npl_of r then Node r (x, npl_of l + 1) l else Node l (x, npl_of r + 1) r)"

function heap_merge :: "('e \<Rightarrow> 'e \<Rightarrow> int) \<Rightarrow> 'e hnode \<Rightarrow> 'e hnode \<Rightarrow> 'e hnode"
  and heap_merge1 :: "('e \<Rightarrow> 'e \<Rightarrow> int) \<Rightarrow> 'e hnode \<Rightarrow> 'e \<Rightarrow> int \<Rightarrow> 'e hnode \<Rightarrow> 'e hnode \<Rightarrow> 'e hnode" where
  "heap_merge cmp Leaf h2 = h2"
| "heap_merge cmp (Node l1 (x1, n1) r1) Leaf = Node l1 (x1, n1) r1"
| "heap_merge cmp (Node l1 (x1, n1) r1) (Node l2 (x2, n2) r2) =
     (if cmp x1 x2 > 0 then heap_merge1 cmp l1 x1 n1 r1 (Node l2 (x2, n2) r2)
      else heap_merge1 cmp l2 x2 n2 r2 (Node l1 (x1, n1) r1))"
| "heap_merge1 cmp l x n r h2 = (if l = Leaf then Node h2 (x, n) r else relink_children l x (heap_merge cmp r h2))"
  by pat_completeness auto
termination
  by (relation "measure (\<lambda>p. case p of Inl (cmp, h1, h2) \<Rightarrow> 2 * (size h1 + size h2) | Inr (cmp, l, x, n, r, h2) \<Rightarrow> 2 * (size l + size r + size h2) + 1)") auto

definition bh_new :: "'e binary_heap" where
  "bh_new = \<lparr>bh_root = Leaf, bh_count = 0\<rparr>"

definition bh_add :: "('e \<Rightarrow> 'e \<Rightarrow> int) \<Rightarrow> 'e \<Rightarrow> 'e binary_heap \<Rightarrow> 'e binary_heap" where
  "bh_add cmp x h = \<lparr>bh_root = heap_merge cmp (Node Leaf (x, 0) Leaf) (bh_root h), bh_count = bh_count h + 1\<rparr>"

definition bh_getMin :: "'e binary_heap \<Rightarrow> 'e res" where
  "bh_getMin h = (case bh_root h of Leaf \<Rightarrow> Inl (GenericException ''object not found in BinaryHeap'') | Node l (x, n) r \<Rightarrow> Inr x)"

definition bh_removeMin :: "('e \<Rightarrow> 'e \<Rightarrow> int) \<Rightarrow> 'e binary_heap \<Rightarrow> ('e \<times> 'e binary_heap) res" where
  "bh_removeMin cmp h = (case bh_root h of Leaf \<Rightarrow> Inl (GenericException ''object not found in BinaryHeap'')
     | Node l (x, n) r \<Rightarrow> Inr (x, \<lparr>bh_root = heap_merge cmp l r, bh_count = bh_count h - 1\<rparr>))"

definition bh_removeAll :: "'e binary_heap \<Rightarrow> 'e binary_heap" where
  "bh_removeAll h = \<lparr>bh_root = Leaf, bh_count = 0\<rparr>"

definition bh_assign :: "'e binary_heap \<Rightarrow> 'e binary_heap \<Rightarrow> 'e binary_heap" where
  "bh_assign src h = (bh_removeAll h)\<lparr>bh_root := clone_node (bh_root src)\<rparr>"

definition bh_copy :: "'e binary_heap \<Rightarrow> 'e binary_heap" where
  "bh_copy src = bh_assign src bh_new"

definition bh_isEmpty :: "'e binary_heap \<Rightarrow> bool" where
  "bh_isEmpty h \<longleftrightarrow> bh_root h = Leaf"

definition bh_size :: "'e binary_heap \<Rightarrow> int" where
  "bh_size h = bh_count h"

text \<open>The invariant: ordered from the root down, the right path shortest, and \<open>npl\<close> its length.\<close>

fun heap_ok :: "('e \<Rightarrow> 'e \<Rightarrow> int) \<Rightarrow> 'e hnode \<Rightarrow> bool" where
  "heap_ok cmp Leaf \<longleftrightarrow> True"
| "heap_ok cmp (Node l (x, n) r) \<longleftrightarrow> heap_ok cmp l \<and> heap_ok cmp r \<and> (\<forall>(y, _) \<in> set_tree l \<union> set_tree r. 0 \<le> cmp x y) \<and>
     npl_of r \<le> npl_of l \<and> n = npl_of r + 1"

definition heap_elems :: "'e hnode \<Rightarrow> 'e multiset" where
  "heap_elems h = image_mset fst (mset_tree h)"

fun right_path :: "'e tree \<Rightarrow> nat" where
  "right_path Leaf = 0"
| "right_path (Node l x r) = Suc (right_path r)"

lemma heap_elems_simps [simp]: "heap_elems Leaf = {#}" "heap_elems (Node l (x, n) r) = add_mset x (heap_elems l + heap_elems r)"
  by (simp_all add: heap_elems_def)

lemma heap_elems_set: "(\<forall>(y, n) \<in> set_tree h. P y) \<longleftrightarrow> (\<forall>y \<in># heap_elems h. P y)"
  unfolding heap_elems_def by (force simp: case_prod_unfold)

lemma heap_elems_empty: "heap_elems h = {#} \<longleftrightarrow> h = Leaf"
  by (cases h) auto

lemma heap_ok_Node: "heap_ok cmp (Node l (x, n) r) \<longleftrightarrow> heap_ok cmp l \<and> heap_ok cmp r \<and> (\<forall>y \<in># heap_elems l + heap_elems r. 0 \<le> cmp x y) \<and>
     npl_of r \<le> npl_of l \<and> n = npl_of r + 1"
  using heap_elems_set [of l "\<lambda>y. 0 \<le> cmp x y"] heap_elems_set [of r "\<lambda>y. 0 \<le> cmp x y"] by (auto simp: ball_Un)

declare heap_ok.simps(2) [simp del]

lemma npl_path: "heap_ok cmp h \<Longrightarrow> npl_of h = int (right_path h) - 1"
  by (induction h) (auto simp: heap_ok_Node)

text \<open>The right path is logarithmic, and every step of \<open>merge\<close> goes down one of the two right paths.\<close>

lemma path_log: "heap_ok cmp h \<Longrightarrow> 2 ^ right_path h \<le> size h + 1"
proof (induction h)
  case (Node l p r)
  obtain x n where p: "p = (x, n)" by force
  then have ok: "heap_ok cmp l" "heap_ok cmp r" "npl_of r \<le> npl_of l" using Node.prems by (auto simp: heap_ok_Node)
  then have "right_path r \<le> right_path l" using npl_path [of cmp l] npl_path [of cmp r] by simp
  then have "2 ^ right_path r \<le> (2 :: nat) ^ right_path l" by simp
  moreover have "2 ^ right_path l \<le> size l + 1" "2 ^ right_path r \<le> size r + 1" using Node.IH ok by simp_all
  ultimately have "2 * 2 ^ right_path r \<le> size l + size r + 2" by linarith
  then show ?case by simp
qed simp

lemma relink_elems: "heap_elems (relink_children l x r) = add_mset x (heap_elems l + heap_elems r)"
  by (simp add: relink_children_def add.commute)

lemma relink_ok: "heap_ok cmp l \<Longrightarrow> heap_ok cmp r \<Longrightarrow> (\<forall>y \<in># heap_elems l + heap_elems r. 0 \<le> cmp x y) \<Longrightarrow> heap_ok cmp (relink_children l x r)"
  by (auto simp: relink_children_def heap_ok_Node)

lemma leaf_right: "heap_ok cmp (Node Leaf (x, n) r) \<Longrightarrow> r = Leaf \<and> n = 0"
  using npl_path [of cmp r] by (cases r) (auto simp: heap_ok_Node)

context compare_order
begin

lemma below_elems: "heap_ok cmp (Node l (b, n) r) \<Longrightarrow> 0 \<le> cmp a b \<Longrightarrow> \<forall>y \<in># heap_elems (Node l (b, n) r). 0 \<le> cmp a y"
  using cmp_trans by (auto simp: heap_ok_Node)

lemma merge1_ok:
  assumes ok: "heap_ok cmp (Node l (x, n) r)" "heap_ok cmp h2" "\<forall>y \<in># heap_elems h2. 0 \<le> cmp x y"
    and m: "heap_ok cmp (heap_merge cmp r h2)" "heap_elems (heap_merge cmp r h2) = heap_elems r + heap_elems h2"
  shows "heap_ok cmp (heap_merge1 cmp l x n r h2) \<and> heap_elems (heap_merge1 cmp l x n r h2) = add_mset x (heap_elems l + heap_elems r + heap_elems h2)"
proof (cases "l = Leaf")
  case True
  then have "r = Leaf" "n = 0" using leaf_right [of cmp x n r] ok(1) by auto
  moreover have "- 1 \<le> npl_of h2" using npl_path [OF ok(2)] by simp
  ultimately show ?thesis using True ok(2,3) by (simp add: heap_ok_Node)
next
  case False
  have "heap_ok cmp (relink_children l x (heap_merge cmp r h2))" using ok m by (intro relink_ok) (auto simp: heap_ok_Node)
  then show ?thesis using False m(2) by (simp add: relink_elems)
qed

lemma heap_merge_ok:
  "heap_ok cmp h1 \<Longrightarrow> heap_ok cmp h2 \<Longrightarrow> heap_ok cmp (heap_merge cmp h1 h2) \<and> heap_elems (heap_merge cmp h1 h2) = heap_elems h1 + heap_elems h2"
proof (induction "size h1 + size h2" arbitrary: h1 h2 rule: less_induct)
  case less
  show ?case
  proof (cases "h1 = Leaf \<or> h2 = Leaf")
    case True
    then show ?thesis using less.prems by (cases h1; cases h2) auto
  next
    case False
    then obtain l1 x1 n1 r1 l2 x2 n2 r2 where h: "h1 = Node l1 (x1, n1) r1" "h2 = Node l2 (x2, n2) r2" by (metis tree.exhaust surj_pair)
    have r: "heap_ok cmp r1" "heap_ok cmp r2" using less.prems h by (auto simp: heap_ok_Node)
    show ?thesis
    proof (cases "0 < cmp x1 x2")
      case True
      have "heap_ok cmp (heap_merge cmp r1 h2) \<and> heap_elems (heap_merge cmp r1 h2) = heap_elems r1 + heap_elems h2" using less.hyps [of r1 h2] less.prems(2) r(1) h by simp
      then show ?thesis using merge1_ok [of l1 x1 n1 r1 h2] below_elems [of l2 x2 n2 r2 x1] less.prems h True by (simp add: ac_simps)
    next
      case False
      have "heap_ok cmp (heap_merge cmp r2 h1) \<and> heap_elems (heap_merge cmp r2 h1) = heap_elems r2 + heap_elems h1" using less.hyps [of r2 h1] less.prems(1) r(2) h by simp
      moreover have "0 \<le> cmp x2 x1" using False cmp_le_flip [of x2 x1] by simp
      ultimately show ?thesis using merge1_ok [of l2 x2 n2 r2 h1] below_elems [of l1 x1 n1 r1 x2] less.prems h False by (simp add: ac_simps)
    qed
  qed
qed

end

subsection \<open>Priority queues\<close>

text \<open>A client that takes elements out, and what it needs of a queue that hands out a first element.\<close>

fun take_all :: "('q \<Rightarrow> ('e \<times> 'q) res) \<Rightarrow> nat \<Rightarrow> 'q \<Rightarrow> ('e list \<times> 'q) res" where
  "take_all take_min 0 q = Inr ([], q)"
| "take_all take_min (Suc n) q = rbind (take_min q) (\<lambda>(x, q'). rbind (take_all take_min n q') (\<lambda>(xs, q''). Inr (x # xs, q'')))"

locale min_queue =
  fixes cmp :: "'e \<Rightarrow> 'e \<Rightarrow> int" and wf :: "'q \<Rightarrow> 'e multiset \<Rightarrow> bool"
    and add :: "'e \<Rightarrow> 'q \<Rightarrow> 'q" and take_min :: "'q \<Rightarrow> ('e \<times> 'q) res"
  assumes add_ok: "wf q M \<Longrightarrow> wf (add x q) (add_mset x M)"
    and take_ok: "wf q M \<Longrightarrow> M \<noteq> {#} \<Longrightarrow> \<exists>x q'. take_min q = Inr (x, q') \<and> x \<in># M \<and> (\<forall>y \<in># M. 0 \<le> cmp x y) \<and> wf q' (M - {#x#})"
begin

lemma add_all: "wf q M \<Longrightarrow> wf (fold add xs q) (mset xs + M)"
proof (induction xs arbitrary: q M)
  case (Cons x xs)
  show ?case using Cons.IH [OF add_ok [OF Cons.prems, of x]] by simp
qed simp

lemma take_all_sorted:
  assumes "wf q M"
  shows "\<exists>xs q'. take_all take_min (size M) q = Inr (xs, q') \<and> mset xs = M \<and> sorted_wrt (\<lambda>a b. 0 \<le> cmp a b) xs \<and> wf q' {#}"
  using assms
proof (induction "size M" arbitrary: q M)
  case (Suc n)
  then have "M \<noteq> {#}" by auto
  from take_ok [OF Suc.prems this] obtain x q1 where x: "take_min q = Inr (x, q1)" "x \<in># M" "\<forall>y \<in># M. 0 \<le> cmp x y" "wf q1 (M - {#x#})" by blast
  have n: "n = size (M - {#x#})" using Suc.hyps(2) x(2) by (simp add: size_Diff_singleton)
  from Suc.hyps(1) [OF n x(4)] obtain xs q' where xs: "take_all take_min n q1 = Inr (xs, q')" "mset xs = M - {#x#}" "sorted_wrt (\<lambda>a b. 0 \<le> cmp a b) xs" "wf q' {#}" using n by auto
  have "\<forall>y \<in> set xs. 0 \<le> cmp x y" using x(3) xs(2) by (metis in_diffD set_mset_mset)
  then show ?case using x xs unfolding Suc.hyps(2) [symmetric] by (intro exI [of _ "x # xs"] exI [of _ q']) simp
qed auto

end

definition bh_wf :: "('e \<Rightarrow> 'e \<Rightarrow> int) \<Rightarrow> 'e binary_heap \<Rightarrow> 'e multiset \<Rightarrow> bool" where
  "bh_wf cmp h M \<longleftrightarrow> heap_ok cmp (bh_root h) \<and> heap_elems (bh_root h) = M \<and> bh_count h = int (size M)"

lemma bh_new_wf: "bh_wf cmp bh_new {#}"
  by (simp add: bh_wf_def bh_new_def)

context compare_order
begin

lemma bh_add_wf: "bh_wf cmp h M \<Longrightarrow> bh_wf cmp (bh_add cmp x h) (add_mset x M)"
  using heap_merge_ok [of "Node Leaf (x, 0) Leaf" "bh_root h"] by (auto simp: bh_wf_def bh_add_def heap_ok_Node)

lemma bh_removeMin_wf:
  assumes "bh_wf cmp h M" "M \<noteq> {#}"
  shows "\<exists>x h'. bh_removeMin cmp h = Inr (x, h') \<and> x \<in># M \<and> (\<forall>y \<in># M. 0 \<le> cmp x y) \<and> bh_wf cmp h' (M - {#x#})"
proof -
  obtain l x n r where h: "bh_root h = Node l (x, n) r" using assms by (cases "bh_root h") (auto simp: bh_wf_def)
  have ok: "heap_ok cmp l" "heap_ok cmp r" "\<forall>y \<in># M. 0 \<le> cmp x y" "M = add_mset x (heap_elems l + heap_elems r)" "bh_count h = int (size M)"
    using assms(1) h cmp_refl by (auto simp: bh_wf_def heap_ok_Node)
  then show ?thesis using h heap_merge_ok [OF ok(1,2)] by (auto simp: bh_removeMin_def bh_wf_def)
qed

sublocale heap_queue: min_queue cmp "bh_wf cmp" "bh_add cmp" "bh_removeMin cmp"
  by unfold_locales (use bh_add_wf bh_removeMin_wf in blast)+

lemma heap_sorts:
  assumes "h = fold (bh_add cmp) xs bh_new"
  shows "bh_wf cmp h (mset xs) \<and> (\<exists>ys h'. take_all (bh_removeMin cmp) (length xs) h = Inr (ys, h') \<and> mset ys = mset xs \<and>
    sorted_wrt (\<lambda>a b. 0 \<le> cmp a b) ys \<and> bh_wf cmp h' {#})"
proof -
  have "bh_wf cmp h (mset xs)" using heap_queue.add_all [OF bh_new_wf, of xs] assms by simp
  then show ?thesis using heap_queue.take_all_sorted by fastforce
qed

end

subsection \<open>Properties\<close>

text \<open>
  C39. A search tree is the set of its elements, up to \<open>compareTo\<close>. After any sequence of operations on a new tree its nodes are in order and its
  elements are those of the specification; \<open>first\<close> and \<open>last\<close> give its extremes and the null value when it is empty, and \<open>contains\<close> finds
  exactly what was added, when \<open>to_bool\<close> tells the null value from the elements.
\<close>

theorem search_tree_refines_set:
  assumes "compare_order cmp" "t = fold (tree_op_step cmp) ps (bst_new nullval)" "S = fold (set_op_step cmp) ps {}"
    and "\<not> to_bool nullval" "\<forall>y \<in> S. to_bool y"
  shows "sorted_wrt (\<lambda>a b. 0 < cmp a b) (printTree (bst_root t)) \<and> set (printTree (bst_root t)) = S
    \<and> (bst_isEmpty t \<longleftrightarrow> S = {})
    \<and> (S = {} \<longrightarrow> bst_first t = nullval \<and> bst_last t = nullval)
    \<and> (S \<noteq> {} \<longrightarrow> bst_first t \<in> S \<and> (\<forall>y \<in> S. y = bst_first t \<or> 0 < cmp (bst_first t) y)
                 \<and> bst_last t \<in> S \<and> (\<forall>y \<in> S. y = bst_last t \<or> 0 < cmp y (bst_last t)))
    \<and> (bst_contains to_bool cmp x t \<longleftrightarrow> (\<exists>y \<in> S. cmp x y = 0))"
proof -
  have t: "tree_ok cmp (bst_root t)" "set_tree (bst_root t) = S" "bst_nullValue t = nullval"
    using compare_order.tree_ops_refine [OF assms(1), of "bst_new nullval" ps] assms(2,3) by (simp_all add: bst_new_def)
  have e: "bst_root t = Leaf \<longleftrightarrow> S = {}" using t(2) by auto
  have first: "S \<noteq> {} \<longrightarrow> bst_first t \<in> S \<and> (\<forall>y \<in> S. y = bst_first t \<or> 0 < cmp (bst_first t) y)"
    using compare_order.findMin_ok [OF assms(1) t(1)] e unfolding t(2) bst_first_def bst_elementAt_def by force
  have last: "S \<noteq> {} \<longrightarrow> bst_last t \<in> S \<and> (\<forall>y \<in> S. y = bst_last t \<or> 0 < cmp y (bst_last t))"
    using compare_order.findMax_ok [OF assms(1) t(1)] e unfolding t(2) bst_last_def bst_elementAt_def by force
  have "bst_contains to_bool cmp x t \<longleftrightarrow> (\<exists>y \<in> S. cmp x y = 0)"
    using compare_order.find_node_ok [OF assms(1) t(1), of x] t(2,3) assms(4,5) by (auto simp: bst_contains_def bst_elementAt_def)
  moreover have "S = {} \<longrightarrow> bst_first t = nullval \<and> bst_last t = nullval" using e t(3) by (auto simp: bst_first_def bst_last_def bst_elementAt_def)
  moreover have "sorted_wrt (\<lambda>a b. 0 < cmp a b) (printTree (bst_root t))" "set (printTree (bst_root t)) = S" using t by (simp_all add: tree_ok_def)
  moreover have "S \<noteq> {} \<longrightarrow> bst_first t \<in> S \<and> (\<forall>y \<in> S. y = bst_first t \<or> 0 < cmp (bst_first t) y) \<and> bst_last t \<in> S \<and> (\<forall>y \<in> S. y = bst_last t \<or> 0 < cmp y (bst_last t))"
    using first last by (intro impI) (drule mp, assumption, drule mp, assumption, elim conjE, intro conjI)
  ultimately show ?thesis using e unfolding bst_isEmpty_def by (intro conjI)
qed

text \<open>
  C36. Taking everything out of a heap sorts. After the elements of any list are added to a new heap, the heap counts them, its right path is
  logarithmic (the depth a merge goes down to), and as many calls of \<open>removeMin\<close> give the elements in order, each as often as it was
  added, and leave an empty heap, on which \<open>getMin\<close> and \<open>removeMin\<close> throw.
\<close>

theorem binary_heap_sorts:
  assumes "compare_order cmp" "h = fold (bh_add cmp) xs bh_new"
  shows "bh_size h = int (length xs) \<and> 2 ^ right_path (bh_root h) \<le> length xs + 1
    \<and> (\<exists>ys h'. take_all (bh_removeMin cmp) (length xs) h = Inr (ys, h') \<and> mset ys = mset xs \<and> sorted_wrt (\<lambda>a b. 0 \<le> cmp a b) ys
         \<and> bh_size h' = 0 \<and> bh_isEmpty h' \<and> bh_getMin h' = Inl (GenericException ''object not found in BinaryHeap'')
         \<and> bh_removeMin cmp h' = Inl (GenericException ''object not found in BinaryHeap''))"
proof -
  obtain ys h' where ys: "take_all (bh_removeMin cmp) (length xs) h = Inr (ys, h')" "mset ys = mset xs" "sorted_wrt (\<lambda>a b. 0 \<le> cmp a b) ys" "bh_wf cmp h' {#}"
    and h: "bh_wf cmp h (mset xs)" using compare_order.heap_sorts [OF assms] by blast
  have "size (bh_root h) = length xs" using h by (metis bh_wf_def heap_elems_def size_image_mset size_mset size_mset_tree)
  then have "2 ^ right_path (bh_root h) \<le> length xs + 1" using path_log [of cmp "bh_root h"] h by (simp add: bh_wf_def)
  moreover have "bh_root h' = Leaf" "bh_count h' = 0" using ys(4) by (simp_all add: bh_wf_def heap_elems_empty)
  ultimately show ?thesis using h ys(1-3) by (intro conjI exI [of _ ys] exI [of _ h']) (simp_all add: bh_size_def bh_isEmpty_def bh_getMin_def bh_removeMin_def bh_wf_def)
qed

text \<open>A copy has the elements, and forgets how many they are; a search tree never counts them.\<close>

lemma copies_lose_count:
  assumes "bh_wf cmp h M"
  shows "bh_root (bh_copy h) = bh_root h \<and> bh_size (bh_copy h) = 0 \<and> (M \<noteq> {#} \<longrightarrow> bh_size h > 0 \<and> \<not> bh_isEmpty (bh_copy h))"
  using assms nonempty_has_size [of M] by (auto simp: bh_copy_def bh_assign_def bh_removeAll_def bh_new_def bh_size_def bh_isEmpty_def bh_wf_def)

lemma copied_tree_same: "bst_root (bst_copy t) = bst_root t \<and> bst_nullValue (bst_copy t) = bst_nullValue t \<and> bst_size t = 0"
  by (simp add: bst_copy_def bst_assign_def bst_removeAll_def bst_new_def bst_size_def)

subsection \<open>Witnesses\<close>

definition less_first :: "int \<Rightarrow> int \<Rightarrow> int" where
  "less_first a b = b - a"

lemma less_first_order: "compare_order less_first"
  by standard (auto simp: less_first_def)

theorem search_tree_refines_set_witness:
  "bst_first (fold (tree_op_step less_first) [Add 5, Add 2, Add 9, Add 7, Add 5, Remove 5] (bst_new 0)) = 2
   \<and> bst_last (fold (tree_op_step less_first) [Add 5, Add 2, Add 9, Add 7, Add 5, Remove 5] (bst_new 0)) = 9
   \<and> \<not> bst_contains (\<lambda>x. x \<noteq> 0) less_first 5 (fold (tree_op_step less_first) [Add 5, Add 2, Add 9, Add 7, Add 5, Remove 5] (bst_new 0))"
proof -
  have S: "fold (set_op_step less_first) [Add 5, Add 2, Add 9, Add 7, Add 5, Remove 5] {} = {2, 7, 9}" by (auto simp: less_first_def)
  have "\<not> bst_contains (\<lambda>x. x \<noteq> 0) less_first 5 (fold (tree_op_step less_first) [Add 5, Add 2, Add 9, Add 7, Add 5, Remove 5] (bst_new 0))"
    using search_tree_refines_set [OF less_first_order refl refl, of "\<lambda>x. x \<noteq> 0" 0 "[Add 5, Add 2, Add 9, Add 7, Add 5, Remove 5]" 5]
    unfolding S by (simp add: less_first_def)
  then show ?thesis by (simp add: bst_first_def bst_last_def bst_new_def bst_add_def bst_remove_def bst_elementAt_def less_first_def)
qed

theorem binary_heap_sorts_witness:
  "\<exists>ys h'. take_all (bh_removeMin less_first) 4 (fold (bh_add less_first) [3, 1, 2, 1] bh_new) = Inr (ys, h') \<and> mset ys = {#1, 1, 2, 3#}
     \<and> sorted_wrt (\<lambda>a b. a \<le> b) ys \<and> bh_isEmpty h'"
  using binary_heap_sorts [OF less_first_order refl, of "[3, 1, 2, 1]"] by (auto simp: less_first_def add_mset_commute numeral_eq_Suc)

end
