(* ===== verification/MPSCQueue.thy ===== *)
theory MPSCQueue
  imports Prelude
begin

text \<open>
  \<^verbatim>\<open>system/util/MPSCQueue.h\<close> and \<^verbatim>\<open>MPSCNode.h\<close>: a queue without locks for several producers and one consumer. Every access to
  a node or to \<open>head\<close> that another thread can see is a step of its own; steps that touch private data only are part of
  the step before or after them. Steps are interleaved in any order on one memory (the acquire and release operations of the code
  order exactly these accesses). A node is an address, and an address can be given out again after the node was deleted. An
  access to a deleted node is an error of the model. The data of a node is \<open>None\<close> before it is set and after it was
  moved away.
\<close>

subsection \<open>Nodes and threads\<close>

record 'a mnode =
  mn_data :: "'a option"
  mn_next :: "nat option"

text \<open>Where a producer stands in \<open>push\<close>, and the consumer in \<open>popValue\<close>, with the local variables.\<close>

datatype 'a producer = Outside | Exchange nat 'a | Link nat nat

datatype consumer = Ready | Move nat nat | Take nat

text \<open>\<open>called\<close> and \<open>pushed\<close> record the calls of \<open>push\<close> and the exchanges of \<open>head\<close>, \<open>results\<close> what \<open>popValue\<close> returned, \<open>None\<close> for false.\<close>

record 'a mpsc =
  nodes :: "nat \<rightharpoonup> 'a mnode"
  head :: nat
  tail :: nat
  producers :: "nat \<Rightarrow> 'a producer"
  consumer :: consumer
  called :: "(nat \<times> 'a) list"
  pushed :: "(nat \<times> 'a) list"
  results :: "'a option list"

definition mpsc_new :: "nat \<Rightarrow> 'a mpsc" where
  "mpsc_new a = \<lparr>nodes = [a \<mapsto> \<lparr>mn_data = None, mn_next = None\<rparr>], head = a, tail = a, producers = (\<lambda>_. Outside), consumer = Ready,
     called = [], pushed = [], results = []\<rparr>"

definition mq_deref :: "'a mpsc \<Rightarrow> nat \<Rightarrow> 'a mnode res" where
  "mq_deref s a = (case nodes s a of None \<Rightarrow> Inl Undefined | Some nd \<Rightarrow> Inr nd)"

subsection \<open>Operations\<close>

definition push_new :: "nat \<Rightarrow> nat \<Rightarrow> 'a \<Rightarrow> 'a mpsc \<Rightarrow> 'a mpsc" where
  "push_new p a v s = s\<lparr>nodes := (nodes s)(a \<mapsto> \<lparr>mn_data = Some v, mn_next = None\<rparr>),
     producers := (producers s)(p := Exchange a v), called := called s @ [(p, v)]\<rparr>"

definition push_exchange :: "nat \<Rightarrow> nat \<Rightarrow> 'a \<Rightarrow> 'a mpsc \<Rightarrow> 'a mpsc" where
  "push_exchange p n v s = s\<lparr>head := n, producers := (producers s)(p := Link (head s) n), pushed := pushed s @ [(p, v)]\<rparr>"

definition push_link :: "nat \<Rightarrow> nat \<Rightarrow> nat \<Rightarrow> 'a mpsc \<Rightarrow> 'a mpsc res" where
  "push_link p prev n s = rbind (mq_deref s prev) (\<lambda>nd.
     Inr (s\<lparr>nodes := (nodes s)(prev \<mapsto> nd\<lparr>mn_next := Some n\<rparr>), producers := (producers s)(p := Outside)\<rparr>))"

definition popNode_load :: "'a mpsc \<Rightarrow> 'a mpsc res" where
  "popNode_load s = rbind (mq_deref s (tail s)) (\<lambda>nd.
     case mn_next nd of None \<Rightarrow> Inr (s\<lparr>results := results s @ [None]\<rparr>) | Some nx \<Rightarrow> Inr (s\<lparr>consumer := Move (tail s) nx\<rparr>))"

definition popNode_move :: "nat \<Rightarrow> nat \<Rightarrow> 'a mpsc \<Rightarrow> 'a mpsc res" where
  "popNode_move t nx s = rbind (mq_deref s nx) (\<lambda>ndx. rbind (mq_deref s t) (\<lambda>ndt.
     Inr (s\<lparr>tail := nx, nodes := (nodes s)(nx \<mapsto> ndx\<lparr>mn_data := None\<rparr>, t \<mapsto> ndt\<lparr>mn_data := mn_data ndx\<rparr>), consumer := Take t\<rparr>)))"

definition popValue_take :: "nat \<Rightarrow> 'a mpsc \<Rightarrow> 'a mpsc res" where
  "popValue_take t s = rbind (mq_deref s t) (\<lambda>nd. case mn_data nd of None \<Rightarrow> Inl Undefined
     | Some v \<Rightarrow> Inr (s\<lparr>nodes := (nodes s)(t := None), consumer := Ready, results := results s @ [Some v]\<rparr>))"

definition mpsc_destroy :: "'a mpsc \<Rightarrow> 'a mpsc" where
  "mpsc_destroy s = s\<lparr>nodes := (nodes s)(tail s := None)\<rparr>"

text \<open>A schedule: which thread goes next, and for a call of \<open>push\<close> its argument and the address of the new node. An action that is not possible has no effect.\<close>

datatype 'a mq_action = Push nat nat 'a | Producer nat | Consumer

definition mq_step :: "'a mq_action \<Rightarrow> 'a mpsc \<Rightarrow> 'a mpsc res" where
  "mq_step act s = (case act of
     Push p a v \<Rightarrow> (case producers s p of Outside \<Rightarrow> Inr (if nodes s a = None then push_new p a v s else s) | _ \<Rightarrow> Inr s)
   | Producer p \<Rightarrow> (case producers s p of Outside \<Rightarrow> Inr s | Exchange n v \<Rightarrow> Inr (push_exchange p n v s) | Link prev n \<Rightarrow> push_link p prev n s)
   | Consumer \<Rightarrow> (case consumer s of Ready \<Rightarrow> popNode_load s | Move t nx \<Rightarrow> popNode_move t nx s | Take t \<Rightarrow> popValue_take t s))"

fun mq_run :: "'a mq_action list \<Rightarrow> 'a mpsc \<Rightarrow> 'a mpsc res" where
  "mq_run [] s = Inr s"
| "mq_run (act # acts) s = rbind (mq_step act s) (mq_run acts)"

lemmas mq_defs = mq_step_def push_new_def push_exchange_def push_link_def popNode_load_def popNode_move_def popValue_take_def mq_deref_def

subsection \<open>The chain of nodes\<close>

definition links :: "'b list \<Rightarrow> ('b \<times> 'b) set" where
  "links xs = set (zip xs (tl xs))"

lemma links_simps [simp]: "links [] = {}" "links [a] = {}" "links (a # b # xs) = insert (a, b) (links (b # xs))"
  by (auto simp: links_def)

lemma links_snoc: "xs \<noteq> [] \<Longrightarrow> links (xs @ [b]) = insert (last xs, b) (links xs)"
proof (induction xs)
  case (Cons a xs)
  then show ?case by (cases xs) auto
qed simp

lemma links_set: "(x, y) \<in> links xs \<Longrightarrow> x \<in> set xs \<and> y \<in> set (tl xs)"
  unfolding links_def using set_zip_leftD set_zip_rightD by fast

lemma links_fun: "distinct xs \<Longrightarrow> (x, y) \<in> links xs \<Longrightarrow> (x, z) \<in> links xs \<Longrightarrow> y = z"
proof (induction xs)
  case (Cons a xs)
  then show ?case using links_set [of x y xs] links_set [of x z xs] by (cases xs) (auto dest: links_set)
qed simp

lemma links_last: "distinct xs \<Longrightarrow> (last xs, y) \<notin> links xs"
proof (induction xs)
  case (Cons a xs)
  then show ?case by (cases xs) (auto dest: links_set)
qed simp

definition nxt :: "'a mpsc \<Rightarrow> nat \<Rightarrow> nat option" where
  "nxt s a = (case nodes s a of None \<Rightarrow> None | Some nd \<Rightarrow> mn_next nd)"

definition dat :: "'a mpsc \<Rightarrow> nat \<Rightarrow> 'a option" where
  "dat s a = (case nodes s a of None \<Rightarrow> None | Some nd \<Rightarrow> mn_data nd)"

definition popped_values :: "'a mpsc \<Rightarrow> 'a list" where
  "popped_values s = concat (map (\<lambda>r. case r of None \<Rightarrow> [] | Some v \<Rightarrow> [v]) (results s))"

text \<open>What the consumer holds between moving a value out and returning it.\<close>

definition in_hand :: "'a mpsc \<Rightarrow> 'a list" where
  "in_hand s = (case consumer s of Take t \<Rightarrow> (case dat s t of None \<Rightarrow> [] | Some v \<Rightarrow> [v]) | _ \<Rightarrow> [])"

text \<open>The call of \<open>push\<close> that producer \<open>p\<close> has begun and that is not in the queue yet.\<close>

definition begun :: "'a mpsc \<Rightarrow> nat \<Rightarrow> (nat \<times> 'a) list" where
  "begun s p = (case producers s p of Exchange n v \<Rightarrow> [(p, v)] | _ \<Rightarrow> [])"

text \<open>
  The invariant, for the nodes \<open>as\<close> from \<open>tail\<close> to \<open>head\<close> and the values \<open>vs\<close> of all but the first: a link between neighbours is missing exactly while its
  producer is about to set it.
\<close>

definition links_ok :: "'a mpsc \<Rightarrow> nat list \<Rightarrow> bool" where
  "links_ok s as \<longleftrightarrow> (\<forall>x y. (x, y) \<in> links as \<longrightarrow> nxt s x = Some y \<or> nxt s x = None \<and> (\<exists>p. producers s p = Link x y))"

definition chain_ok :: "'a mpsc \<Rightarrow> nat list \<Rightarrow> 'a list \<Rightarrow> bool" where
  "chain_ok s as vs \<longleftrightarrow> as \<noteq> [] \<and> distinct as \<and> hd as = tail s \<and> last as = head s \<and> set as \<subseteq> dom (nodes s) \<and> map (dat s) (tl as) = map Some vs
     \<and> nxt s (head s) = None \<and> links_ok s as"

definition linkers_ok :: "'a mpsc \<Rightarrow> nat list \<Rightarrow> bool" where
  "linkers_ok s as \<longleftrightarrow> (\<forall>p x y. producers s p = Link x y \<longrightarrow> (x, y) \<in> links as \<and> nxt s x = None)
     \<and> (\<forall>p q x y z. producers s p = Link x y \<longrightarrow> producers s q = Link x z \<longrightarrow> p = q)"

definition exchangers_ok :: "'a mpsc \<Rightarrow> nat list \<Rightarrow> bool" where
  "exchangers_ok s as \<longleftrightarrow> (\<forall>p n v. producers s p = Exchange n v \<longrightarrow> n \<notin> set as \<and> nodes s n = Some \<lparr>mn_data = Some v, mn_next = None\<rparr>)
     \<and> (\<forall>p q n v w. producers s p = Exchange n v \<longrightarrow> producers s q = Exchange n w \<longrightarrow> p = q)"

definition consumer_ok :: "'a mpsc \<Rightarrow> nat list \<Rightarrow> bool" where
  "consumer_ok s as \<longleftrightarrow> (case consumer s of Ready \<Rightarrow> True | Move t n \<Rightarrow> t = tail s \<and> nxt s t = Some n
     | Take t \<Rightarrow> t \<notin> set as \<and> dat s t \<noteq> None \<and> (\<forall>p v. producers s p \<noteq> Exchange t v))"

definition mq_inv :: "'a mpsc \<Rightarrow> nat list \<Rightarrow> 'a list \<Rightarrow> bool" where
  "mq_inv s as vs \<longleftrightarrow> chain_ok s as vs \<and> linkers_ok s as \<and> exchangers_ok s as \<and> consumer_ok s as \<and> map snd (pushed s) = popped_values s @ in_hand s @ vs
     \<and> (\<forall>p. filter (\<lambda>c. fst c = p) (called s) = filter (\<lambda>c. fst c = p) (pushed s) @ begun s p)"

lemma mq_inv_new: "mq_inv (mpsc_new a) [a] []"
  by (simp add: mq_inv_def chain_ok_def links_ok_def linkers_ok_def exchangers_ok_def consumer_ok_def mpsc_new_def nxt_def popped_values_def in_hand_def begun_def)

lemma chain_tail: "chain_ok s as vs \<Longrightarrow> \<exists>ys. as = tail s # ys"
  by (cases as) (auto simp: chain_ok_def)

lemma chain_node: "chain_ok s as vs \<Longrightarrow> a \<in> set as \<Longrightarrow> \<exists>nd. nodes s a = Some nd"
  by (auto simp: chain_ok_def)

lemma chain_cong:
  assumes "chain_ok s as vs" "head s' = head s" "tail s' = tail s" "\<forall>a \<in> set as. nodes s' a = nodes s a" "\<forall>p x y. producers s p = Link x y \<longrightarrow> producers s' p = Link x y"
  shows "chain_ok s' as vs"
proof -
  have e: "\<And>a. a \<in> set as \<Longrightarrow> nxt s' a = nxt s a" "\<And>a. a \<in> set as \<Longrightarrow> dat s' a = dat s a" using assms(4) by (simp_all add: nxt_def dat_def)
  have "head s \<in> set as" using assms(1) unfolding chain_ok_def by (metis last_in_set)
  moreover have "map (dat s') (tl as) = map (dat s) (tl as)" using e(2) by (cases as) auto
  moreover have "set as \<subseteq> dom (nodes s')" using assms(1,4) by (auto simp: chain_ok_def dom_def)
  moreover have "links_ok s as" using assms(1) by (simp add: chain_ok_def)
  then have "links_ok s' as" using e(1) assms(5) links_set unfolding links_ok_def by metis
  ultimately show ?thesis using assms(1,2,3) e(1) [of "head s"] by (simp add: chain_ok_def del: map_eq_conv)
qed

lemma push_new_inv:
  assumes "mq_inv s as vs" "producers s p = Outside" "nodes s a = None"
  shows "mq_inv (push_new p a v s) as vs"
proof -
  let ?s = "push_new p a v s"
  have c: "chain_ok s as vs" "linkers_ok s as" "exchangers_ok s as" "consumer_ok s as" using assms(1) by (auto simp: mq_inv_def)
  have a: "a \<notin> set as" using chain_node [OF c(1), of a] assms(3) by auto
  have chain: "chain_ok ?s as vs" using a assms(2) by (intro chain_cong [OF c(1)]) (auto simp: push_new_def)
  have n: "nxt ?s x = nxt s x" for x using assms(3) by (simp add: nxt_def push_new_def)
  have other: "producers s q = Exchange m w \<Longrightarrow> m \<noteq> a" for q m w using c(3) assms(3) unfolding exchangers_ok_def by (metis option.distinct(1))
  have d: "dat s t \<noteq> None \<Longrightarrow> dat ?s t = dat s t" for t using assms(3) by (auto simp: dat_def push_new_def)
  have L: "producers ?s q = Link x y \<longleftrightarrow> producers s q = Link x y" for q x y using assms(2) by (simp add: push_new_def)
  have E: "producers ?s q = Exchange m w \<longleftrightarrow> (if q = p then m = a \<and> w = v else producers s q = Exchange m w)" for q m w by (auto simp: push_new_def)
  have "linkers_ok ?s as" using c(2) unfolding linkers_ok_def n L .
  moreover have "exchangers_ok ?s as" using c(3) a other unfolding exchangers_ok_def E by (auto simp: push_new_def)
  moreover have "consumer_ok ?s as" using c(4) d n assms(3) unfolding consumer_ok_def by (auto simp: push_new_def dat_def split: consumer.splits)
  moreover have "popped_values ?s = popped_values s" "in_hand ?s = in_hand s" using c(4) d by (auto simp: popped_values_def in_hand_def push_new_def consumer_ok_def split: consumer.splits)
  ultimately show ?thesis using assms(1,2) chain by (auto simp: mq_inv_def begun_def push_new_def)
qed

lemma push_exchange_inv:
  assumes "mq_inv s as vs" "producers s p = Exchange n v"
  shows "mq_inv (push_exchange p n v s) (as @ [n]) (vs @ [v])"
proof -
  let ?s = "push_exchange p n v s"
  have c: "chain_ok s as vs" "linkers_ok s as" "exchangers_ok s as" "consumer_ok s as" using assms(1) by (auto simp: mq_inv_def)
  have n: "n \<notin> set as" "nodes s n = Some \<lparr>mn_data = Some v, mn_next = None\<rparr>" using c(3) assms(2) by (auto simp: exchangers_ok_def)
  have e: "nxt ?s = nxt s" "dat ?s = dat s" by (auto simp: nxt_def dat_def push_exchange_def fun_eq_iff)
  have ne: "as \<noteq> []" "last as = head s" using c(1) by (auto simp: chain_ok_def)
  then have hd: "head s \<in> set as" "nxt s (head s) = None" using c(1) unfolding chain_ok_def by (metis last_in_set)+
  have L: "producers ?s q = Link x y \<longleftrightarrow> (if q = p then x = head s \<and> y = n else producers s q = Link x y)" for q x y by (auto simp: push_exchange_def)
  have E: "producers ?s q = Exchange m w \<longleftrightarrow> q \<noteq> p \<and> producers s q = Exchange m w" for q m w by (auto simp: push_exchange_def)
  have l: "links_ok s as" using c(1) by (simp add: chain_ok_def)
  have "producers s q = Link x y \<Longrightarrow> producers ?s q = Link x y" for q x y using assms(2) by (auto simp: push_exchange_def)
  moreover have "producers ?s p = Link (head s) n" by (simp add: push_exchange_def)
  ultimately have "links_ok ?s (as @ [n])" using l hd(2) ne unfolding links_ok_def e links_snoc [OF ne(1)] by (metis insert_iff prod.inject)
  then have "chain_ok ?s (as @ [n]) (vs @ [v])" using c(1) n ne hd unfolding chain_ok_def e by (auto simp: push_exchange_def nxt_def dat_def)
  moreover have "\<forall>q y. producers s q \<noteq> Link (head s) y" using c(1,2) links_last [of as] by (auto simp: linkers_ok_def chain_ok_def)
  then have "linkers_ok ?s (as @ [n])" using c(2) hd(2) ne unfolding linkers_ok_def L e links_snoc [OF ne(1)] by (auto split: if_splits)
  moreover have "exchangers_ok ?s (as @ [n])" using c(3) assms(2) unfolding exchangers_ok_def E by (auto simp: push_exchange_def)
  moreover have "consumer_ok ?s (as @ [n])" using c(4) assms(2) unfolding consumer_ok_def e by (auto simp: push_exchange_def split: consumer.splits)
  moreover have "popped_values ?s = popped_values s" "in_hand ?s = in_hand s" unfolding popped_values_def in_hand_def e by (simp_all add: push_exchange_def)
  ultimately show ?thesis using assms by (auto simp: mq_inv_def begun_def push_exchange_def)
qed

lemma push_link_inv:
  assumes "mq_inv s as vs" "producers s p = Link x y"
  shows "\<exists>s'. push_link p x y s = Inr s' \<and> mq_inv s' as vs"
proof -
  have c: "chain_ok s as vs" "linkers_ok s as" "exchangers_ok s as" "consumer_ok s as" using assms(1) by (auto simp: mq_inv_def)
  have x: "(x, y) \<in> links as" "nxt s x = None" using c(2) assms(2) by (auto simp: linkers_ok_def)
  then have xa: "x \<in> set as" using links_set by fast
  then obtain nd where nd: "nodes s x = Some nd" using chain_node [OF c(1)] by blast
  define s' where "s' = s\<lparr>nodes := (nodes s)(x \<mapsto> nd\<lparr>mn_next := Some y\<rparr>), producers := (producers s)(p := Outside)\<rparr>"
  have n: "nxt s' z = (if z = x then Some y else nxt s z)" and d: "dat s' z = dat s z" for z using nd by (simp_all add: nxt_def dat_def s'_def)
  have L: "producers s' q = Link z w \<longleftrightarrow> q \<noteq> p \<and> producers s q = Link z w" for q z w by (auto simp: s'_def)
  have E: "producers s' q = Exchange m w \<longleftrightarrow> producers s q = Exchange m w" for q m w using assms(2) by (auto simp: s'_def)
  have dist: "distinct as" "links_ok s as" "x \<noteq> head s" using c(1) x links_last [of as] by (auto simp: chain_ok_def)
  have links: "links_ok s' as" unfolding links_ok_def L n
  proof (intro allI impI)
    fix z w assume zw: "(z, w) \<in> links as"
    show "(if z = x then Some y else nxt s z) = Some w \<or> (if z = x then Some y else nxt s z) = None \<and> (\<exists>q. q \<noteq> p \<and> producers s q = Link z w)"
    proof (cases "z = x")
      case True then show ?thesis using links_fun [OF dist(1) x(1)] zw by simp
    next
      case False then show ?thesis using dist(2) zw assms(2) unfolding links_ok_def by (metis producer.inject(2))
    qed
  qed
  have "set as \<subseteq> dom (nodes s')" using c(1) by (auto simp: chain_ok_def s'_def)
  then have "chain_ok s' as vs" using c(1) links dist(3) unfolding chain_ok_def n d by (simp add: s'_def)
  moreover have "linkers_ok s' as" using c(2) assms(2) unfolding linkers_ok_def L n by auto
  moreover have "exchangers_ok s' as" using c(3) xa unfolding exchangers_ok_def E by (auto simp: s'_def)
  moreover have "consumer_ok s' as" using c(4) x(2) unfolding consumer_ok_def E n d by (auto simp: s'_def split: consumer.splits)
  moreover have "popped_values s' = popped_values s" "in_hand s' = in_hand s" unfolding popped_values_def in_hand_def d by (simp_all add: s'_def)
  ultimately have "mq_inv s' as vs" using assms by (auto simp: mq_inv_def begun_def s'_def)
  then show ?thesis using nd by (simp add: push_link_def mq_deref_def s'_def)
qed

lemma load_inv:
  assumes "mq_inv s as vs" "consumer s = Ready"
  shows "\<exists>s'. popNode_load s = Inr s' \<and> mq_inv s' as vs \<and> (nxt s (tail s) = None \<longrightarrow> s' = s\<lparr>results := results s @ [None]\<rparr>)
    \<and> (\<forall>n. nxt s (tail s) = Some n \<longrightarrow> s' = s\<lparr>consumer := Move (tail s) n\<rparr>)"
proof -
  have c: "chain_ok s as vs" using assms(1) by (simp add: mq_inv_def)
  obtain ys where "as = tail s # ys" using chain_tail [OF c] by blast
  then obtain nd where nd: "nodes s (tail s) = Some nd" using chain_node [OF c, of "tail s"] by auto
  have n: "nxt s (tail s) = mn_next nd" using nd by (simp add: nxt_def)
  have e: "nxt (s\<lparr>results := r\<rparr>) = nxt s" "dat (s\<lparr>results := r\<rparr>) = dat s" "nxt (s\<lparr>consumer := k\<rparr>) = nxt s" "dat (s\<lparr>consumer := k\<rparr>) = dat s" for r k
    by (simp_all add: nxt_def dat_def fun_eq_iff)
  have fail: "mq_inv (s\<lparr>results := results s @ [None]\<rparr>) as vs" using assms
    by (simp add: mq_inv_def chain_ok_def links_ok_def linkers_ok_def exchangers_ok_def consumer_ok_def popped_values_def in_hand_def begun_def e del: map_eq_conv)
  have go: "mq_inv (s\<lparr>consumer := Move (tail s) m\<rparr>) as vs" if "nxt s (tail s) = Some m" for m using assms that
    by (simp add: mq_inv_def chain_ok_def links_ok_def linkers_ok_def exchangers_ok_def consumer_ok_def popped_values_def in_hand_def begun_def e del: map_eq_conv)
  show ?thesis using nd fail go n by (cases "mn_next nd") (simp_all add: popNode_load_def mq_deref_def)
qed

lemma move_inv:
  assumes "mq_inv s as vs" "consumer s = Move t n"
  shows "\<exists>s' v ws. popNode_move t n s = Inr s' \<and> mq_inv s' (tl as) ws \<and> vs = v # ws \<and> consumer s' = Take t \<and> dat s' t = Some v
    \<and> producers s' = producers s \<and> results s' = results s"
proof -
  have c: "chain_ok s as vs" "linkers_ok s as" "exchangers_ok s as" "consumer_ok s as" using assms(1) by (auto simp: mq_inv_def)
  have t: "t = tail s" "nxt s t = Some n" using c(4) assms(2) by (auto simp: consumer_ok_def)
  obtain ys where ys: "as = t # ys" using chain_tail [OF c(1)] t(1) by blast
  have "ys \<noteq> []" using c(1) ys t by (auto simp: chain_ok_def)
  then obtain m zs where as: "as = t # m # zs" using ys by (cases ys) auto
  then have "m = n" using c(1) t(2) by (fastforce simp: chain_ok_def links_ok_def)
  then have as: "as = t # n # zs" "distinct as" "links_ok s as" using as c(1) by (auto simp: chain_ok_def)
  then obtain v ws where vs: "vs = v # ws" "dat s n = Some v" "map (dat s) zs = map Some ws" using c(1) by (cases vs) (auto simp: chain_ok_def)
  obtain ndt ndn where nd: "nodes s t = Some ndt" "nodes s n = Some ndn" using chain_node [OF c(1)] as(1) by (meson list.set_intros)
  define s' where "s' = s\<lparr>tail := n, nodes := (nodes s)(n \<mapsto> ndn\<lparr>mn_data := None\<rparr>, t \<mapsto> ndt\<lparr>mn_data := mn_data ndn\<rparr>), consumer := Take t\<rparr>"
  have tn: "t \<noteq> n" "t \<notin> set zs" "n \<notin> set zs" using as by auto
  have x: "nxt s' z = nxt s z" for z using nd tn by (auto simp: nxt_def s'_def)
  have d: "dat s' z = (if z = t then Some v else if z = n then None else dat s z)" for z using nd vs(2) by (auto simp: dat_def s'_def)
  have P: "producers s' = producers s" "head s' = head s" by (simp_all add: s'_def)
  have "links_ok s' (n # zs)" using as(1,3) unfolding links_ok_def x P by auto
  moreover have "map (dat s') zs = map Some ws" using vs(3) tn(2,3) d by (metis (no_types, lifting) map_cong)
  ultimately have "chain_ok s' (n # zs) ws" using c(1) as(1) unfolding chain_ok_def x P by (auto simp: s'_def simp del: map_eq_conv)
  moreover have "producers s q \<noteq> Link t w" for q w using c(2) t(2) unfolding linkers_ok_def by (metis option.distinct(1))
  then have "linkers_ok s' (n # zs)" using c(2) unfolding linkers_ok_def x P as(1) links_simps by (metis insert_iff prod.inject)
  moreover have "producers s q \<noteq> Exchange t w" "producers s q \<noteq> Exchange n w" for q w using c(3) as(1) unfolding exchangers_ok_def by (metis list.set_intros)+
  then have "exchangers_ok s' (n # zs) \<and> consumer_ok s' (n # zs)" using c(3) as(1) tn d unfolding exchangers_ok_def consumer_ok_def P by (auto simp: s'_def)
  moreover have "popped_values s' = popped_values s" "in_hand s' @ ws = in_hand s @ vs" using d vs(1) assms(2) unfolding popped_values_def in_hand_def by (simp_all add: s'_def)
  ultimately have "mq_inv s' (n # zs) ws" using assms(1) by (simp add: mq_inv_def begun_def s'_def)
  then show ?thesis using nd vs(1) d as(1) by (intro exI [of _ s']) (simp add: popNode_move_def mq_deref_def s'_def)
qed

lemma take_inv:
  assumes "mq_inv s as vs" "consumer s = Take t"
  shows "\<exists>s' v. popValue_take t s = Inr s' \<and> mq_inv s' as vs \<and> dat s t = Some v \<and> consumer s' = Ready \<and> results s' = results s @ [Some v] \<and> producers s' = producers s"
proof -
  have c: "chain_ok s as vs" "linkers_ok s as" "exchangers_ok s as" "consumer_ok s as" using assms(1) by (auto simp: mq_inv_def)
  obtain v where t: "t \<notin> set as" "dat s t = Some v" "\<forall>p w. producers s p \<noteq> Exchange t w" using c(4) assms(2) by (auto simp: consumer_ok_def)
  then obtain nd where nd: "nodes s t = Some nd" "mn_data nd = Some v" by (auto simp: dat_def split: option.splits)
  define s' where "s' = s\<lparr>nodes := (nodes s)(t := None), consumer := Ready, results := results s @ [Some v]\<rparr>"
  have P: "producers s' = producers s" by (simp add: s'_def)
  have "chain_ok s' as vs" using t(1) by (intro chain_cong [OF c(1)]) (auto simp: s'_def)
  moreover have x: "x \<in> set as \<Longrightarrow> nxt s' x = nxt s x" for x using t(1) by (auto simp: nxt_def s'_def)
  then have "linkers_ok s' as" using c(2) links_set unfolding linkers_ok_def P by metis
  moreover have "exchangers_ok s' as" using c(3) t(3) unfolding exchangers_ok_def P by (auto simp: s'_def)
  moreover have "consumer_ok s' as" by (simp add: consumer_ok_def s'_def)
  moreover have "popped_values s' @ in_hand s' = popped_values s @ in_hand s" using t(2) assms(2) unfolding popped_values_def in_hand_def by (simp add: s'_def)
  ultimately have "mq_inv s' as vs" using assms(1) unfolding mq_inv_def by (simp add: begun_def s'_def)
  then show ?thesis using nd t(2) by (intro exI [of _ s']) (simp add: popValue_take_def mq_deref_def s'_def)
qed

lemma mq_step_inv:
  assumes "mq_inv s as vs"
  shows "\<exists>s' as' vs'. mq_step act s = Inr s' \<and> mq_inv s' as' vs'"
proof (cases act)
  case (Push p a v)
  then show ?thesis using assms push_new_inv [OF assms, of p a v] by (auto simp: mq_step_def split: producer.splits)
next
  case (Producer p)
  show ?thesis
  proof (cases "producers s p")
    case (Exchange n v)
    then show ?thesis using Producer push_exchange_inv [OF assms Exchange] by (auto simp: mq_step_def)
  next
    case (Link x y)
    then show ?thesis using Producer push_link_inv [OF assms Link] by (auto simp: mq_step_def)
  qed (use Producer assms in \<open>auto simp: mq_step_def\<close>)
next
  case Consumer
  show ?thesis
  proof (cases "consumer s")
    case Ready
    then show ?thesis using Consumer load_inv [OF assms Ready] by (auto simp: mq_step_def)
  next
    case (Move t n)
    then show ?thesis using Consumer move_inv [OF assms Move] by (auto simp: mq_step_def)
  next
    case (Take t)
    then show ?thesis using Consumer take_inv [OF assms Take] by (auto simp: mq_step_def)
  qed
qed

lemma mq_run_inv: "mq_inv s as vs \<Longrightarrow> \<exists>s' as' vs'. mq_run acts s = Inr s' \<and> mq_inv s' as' vs'"
proof (induction acts arbitrary: s as vs)
  case (Cons act acts)
  then show ?case using mq_step_inv [of s as vs act] by fastforce
qed auto

lemma chain_next:
  assumes "mq_inv s as vs"
  shows "nxt s (tail s) = None \<longleftrightarrow> vs = [] \<or> (\<exists>p y. producers s p = Link (tail s) y)"
proof -
  have c: "chain_ok s as vs" "linkers_ok s as" using assms by (auto simp: mq_inv_def)
  obtain ys where ys: "as = tail s # ys" using chain_tail [OF c(1)] by blast
  have len: "length ys = length vs" using c(1) ys unfolding chain_ok_def by (metis length_map list.sel(3))
  show ?thesis
  proof (cases ys)
    case Nil
    then have "nxt s (tail s) = None" using c(1) ys by (simp add: chain_ok_def)
    then show ?thesis using len Nil by simp
  next
    case (Cons n zs)
    then have "nxt s (tail s) = Some n \<or> nxt s (tail s) = None \<and> (\<exists>p. producers s p = Link (tail s) n)"
      using c(1) ys by (auto simp: chain_ok_def links_ok_def)
    then show ?thesis using c(2) len Cons unfolding linkers_ok_def by fastforce
  qed
qed

lemma pop_one:
  assumes "mq_inv s as (v # vs)" "consumer s = Ready" "\<forall>p. producers s p = Outside"
  shows "\<exists>s' as'. mq_run [Consumer, Consumer, Consumer] s = Inr s' \<and> mq_inv s' as' vs \<and> consumer s' = Ready \<and> results s' = results s @ [Some v] \<and> producers s' = producers s"
proof -
  obtain n where n: "nxt s (tail s) = Some n" using chain_next [OF assms(1)] assms(3) by auto
  define s1 where "s1 = s\<lparr>consumer := Move (tail s) n\<rparr>"
  have s1: "popNode_load s = Inr s1" "mq_inv s1 as (v # vs)" "consumer s1 = Move (tail s) n" "results s1 = results s" "producers s1 = producers s"
    using load_inv [OF assms(1,2)] n by (auto simp: s1_def)
  obtain s2 where s2: "popNode_move (tail s) n s1 = Inr s2" "mq_inv s2 (tl as) vs" "consumer s2 = Take (tail s)" "dat s2 (tail s) = Some v" "producers s2 = producers s" "results s2 = results s"
    using move_inv [OF s1(2,3)] s1(4,5) by auto
  obtain s3 where s3: "popValue_take (tail s) s2 = Inr s3" "mq_inv s3 (tl as) vs" "consumer s3 = Ready" "results s3 = results s @ [Some v]" "producers s3 = producers s"
    using take_inv [OF s2(2,3)] s2(4-6) by auto
  show ?thesis using assms(2) s1(1,3) s2(1,3) s3 by (auto simp: mq_step_def)
qed

lemma mq_run_append: "mq_run (xs @ ys) s = rbind (mq_run xs s) (mq_run ys)"
  by (induction xs arbitrary: s) (auto simp: rbind_assoc intro: rbind_cong)

lemma drain:
  assumes "mq_inv s as vs" "consumer s = Ready" "\<forall>p. producers s p = Outside"
  shows "\<exists>s'. mq_run (replicate (3 * length vs) Consumer) s = Inr s' \<and> results s' = results s @ map Some vs"
  using assms
proof (induction vs arbitrary: s as)
  case (Cons v vs)
  obtain s1 as1 where s1: "mq_run [Consumer, Consumer, Consumer] s = Inr s1" "mq_inv s1 as1 vs" "consumer s1 = Ready" "results s1 = results s @ [Some v]" "producers s1 = producers s"
    using pop_one [OF Cons.prems] by blast
  obtain s' where "mq_run (replicate (3 * length vs) Consumer) s1 = Inr s'" "results s' = results s1 @ map Some vs" using Cons.IH [OF s1(2,3)] s1(5) Cons.prems(3) by auto
  moreover have "replicate (3 * length (v # vs)) (Consumer :: 'a mq_action) = [Consumer, Consumer, Consumer] @ replicate (3 * length vs) Consumer" by (simp add: numeral_3_eq_3)
  then have "mq_run (replicate (3 * length (v # vs)) Consumer) s = mq_run (replicate (3 * length vs) Consumer) s1" using s1(1) by (simp only: mq_run_append rbind_Inr)
  ultimately show ?case using s1(4) by auto
qed auto

subsection \<open>Properties\<close>

text \<open>
  C17. However its producers and its consumer are interleaved, the queue never touches a deleted node, and its values come out in the order in which their producers
  exchanged \<open>head\<close>, none lost and none twice; the values of one producer are in the order of its calls. \<open>popValue\<close> returns false
  exactly when nothing is left (\<open>vs\<close>) or the producer of the next value has not linked it yet, and once no producer is inside
  \<open>push\<close>, popping gives everything that is left.
\<close>

theorem mpsc_queue_fifo:
  "\<exists>s vs. mq_run acts (mpsc_new a) = Inr s
    \<and> map snd (pushed s) = popped_values s @ in_hand s @ vs
    \<and> (\<forall>p. filter (\<lambda>c. fst c = p) (called s) = filter (\<lambda>c. fst c = p) (pushed s) @ begun s p)
    \<and> (consumer s = Ready \<longrightarrow> (popNode_load s = Inr (s\<lparr>results := results s @ [None]\<rparr>) \<longleftrightarrow> vs = [] \<or> (\<exists>p y. producers s p = Link (tail s) y)))
    \<and> (consumer s = Ready \<longrightarrow> (\<forall>p. producers s p = Outside)
         \<longrightarrow> (\<exists>s'. mq_run (replicate (3 * length vs) Consumer) s = Inr s' \<and> results s' = results s @ map Some vs))"
proof -
  obtain s as vs where s: "mq_run acts (mpsc_new a) = Inr s" "mq_inv s as vs" using mq_run_inv [OF mq_inv_new, of acts a] by blast
  have "popNode_load s = Inr (s\<lparr>results := results s @ [None]\<rparr>) \<longleftrightarrow> vs = [] \<or> (\<exists>p y. producers s p = Link (tail s) y)" if r: "consumer s = Ready"
  proof -
    have "s\<lparr>consumer := Move (tail s) n\<rparr> \<noteq> s\<lparr>results := results s @ [None]\<rparr>" for n
    proof
      assume "s\<lparr>consumer := Move (tail s) n\<rparr> = s\<lparr>results := results s @ [None]\<rparr>"
      then have "consumer (s\<lparr>consumer := Move (tail s) n\<rparr>) = consumer (s\<lparr>results := results s @ [None]\<rparr>)" by simp
      then show False using r by simp
    qed
    then show ?thesis using load_inv [OF s(2) r] chain_next [OF s(2)] by (cases "nxt s (tail s)") auto
  qed
  then show ?thesis using s(1) drain [OF s(2)] s(2) unfolding mq_inv_def by blast
qed

text \<open>A producer that stops between its two steps hides the values of all others: a completed \<open>push\<close> is not found by \<open>popValue\<close>.\<close>

lemma stalled_producer_hides:
  "rbind (mq_run [Push 0 1 10, Producer 0, Push 1 2 20, Producer 1, Producer 1, Consumer] (mpsc_new 0)) (\<lambda>s. Inr (results s :: nat option list, pushed s, producers s 1))
     = Inr ([None], [(0, 10), (1, 20)], Outside)"
  by (simp add: mq_defs mpsc_new_def)

text \<open>The destructor deletes one node: all others stay allocated.\<close>

lemma destroy_leaks:
  assumes "mq_inv s as vs" "consumer s = Ready" "\<forall>p. producers s p = Outside"
  shows "set (tl as) \<subseteq> dom (nodes (mpsc_destroy s)) \<and> length (tl as) = length vs \<and> nodes (mpsc_destroy s) (tail s) = None"
proof -
  have c: "chain_ok s as vs" using assms by (auto simp: mq_inv_def)
  obtain ys where "as = tail s # ys" using chain_tail [OF c] by blast
  moreover have "length (tl as) = length vs" using c unfolding chain_ok_def by (metis length_map)
  ultimately show ?thesis using c by (auto simp: chain_ok_def mpsc_destroy_def)
qed

theorem mpsc_queue_fifo_witness:
  "\<exists>s'. mq_run [Push 0 1 10, Push 1 2 20, Producer 1, Producer 0, Producer 0, Consumer, Producer 1, Consumer, Consumer, Consumer, Consumer, Consumer, Consumer] (mpsc_new 0) = Inr s'
    \<and> results s' = [None, Some (20 :: nat), Some 10]"
proof -
  let ?acts = "[Push 0 1 10, Push 1 2 20, Producer 1, Producer 0, Producer 0, Consumer, Producer 1] :: nat mq_action list"
  obtain s where s: "mq_run ?acts (mpsc_new 0) = Inr s" by (simp add: mq_defs mpsc_new_def)
  have q: "consumer s = Ready" "\<forall>p. producers s p = Outside" "results s = [None]" "pushed s = [(1, 20), (0, 10)]" using s by (auto simp: mq_defs mpsc_new_def)
  obtain s1 vs where v: "mq_run ?acts (mpsc_new 0) = Inr s1" "map snd (pushed s1) = popped_values s1 @ in_hand s1 @ vs"
    "\<exists>s'. mq_run (replicate (3 * length vs) Consumer) s1 = Inr s' \<and> results s' = results s1 @ map Some vs"
    using mpsc_queue_fifo [of ?acts 0] s q by auto
  then have "s1 = s" "vs = [20, 10]" using s q by (auto simp: popped_values_def in_hand_def)
  then have "\<exists>s'. mq_run (replicate 6 Consumer) s = Inr s' \<and> results s' = [None, Some 20, Some 10]" using v(3) q by simp
  moreover have "replicate 6 Consumer = [Consumer, Consumer, Consumer, Consumer, Consumer, Consumer :: nat mq_action]" by (simp add: numeral_eq_Suc)
  ultimately show ?thesis using s mq_run_append [of ?acts "[Consumer, Consumer, Consumer, Consumer, Consumer, Consumer]" "mpsc_new 0"] by (simp del: mq_run.simps)
qed

end
