(* ===== verification/AtomicCounter.thy ===== *)
theory AtomicCounter
  imports References
begin

text \<open>
  \<^verbatim>\<open>system/lang/ref/ReferenceCounter.h\<close> step by step: threads that run the counter's operations on one counter. A load, a
  \<open>fetch_add\<close> and an attempt of \<open>compare_exchange_weak\<close> are one step each; an attempt fails when the counter has changed since the load, and
  may fail without a reason. The functions of \<open>References\<close> take each operation as one step; this theory shows that this is
  right, and what the loops cost.
\<close>

subsection \<open>Operations\<close>

datatype counter_op = Increase | SetLowest | ClearLowest | Decrement | TryFinal

text \<open>What an operation stores for the old value \<open>n\<close>, and what it returns when it succeeds (0 for no result).\<close>

fun new_value :: "counter_op \<Rightarrow> 32 word \<Rightarrow> 32 word" where
  "new_value Increase n = n + 2"
| "new_value SetLowest n = n OR 1"
| "new_value ClearLowest n = n AND ucast (0xFFFFFFFFFFFFFFFE :: 64 word)"
| "new_value Decrement n = (if n - 2 = 0 then 1 else n - 2)"
| "new_value TryFinal n = 1"

fun return_value :: "counter_op \<Rightarrow> 32 word \<Rightarrow> 32 word" where
  "return_value Increase n = n + 2"
| "return_value SetLowest n = 0"
| "return_value ClearLowest n = 0"
| "return_value Decrement n = (n - new_value Decrement n) AND 1"
| "return_value TryFinal n = 1"

text \<open>
  \<open>todo\<close> has the operations a thread has not finished, the first being the current one; \<open>oldVal\<close> is what the current one has loaded. \<open>history\<close>
  records the finished operations with their results, \<open>steps\<close> counts the steps.
\<close>

record counter_run =
  references :: "32 word"
  todo :: "nat \<Rightarrow> counter_op list"
  oldVal :: "nat \<Rightarrow> 32 word option"
  history :: "(nat \<times> counter_op \<times> 32 word) list"
  steps :: nat

definition counter_start :: "32 word \<Rightarrow> (nat \<Rightarrow> counter_op list) \<Rightarrow> counter_run" where
  "counter_start n ps = \<lparr>references = n, todo = ps, oldVal = (\<lambda>_. None), history = [], steps = 0\<rparr>"

definition finish :: "nat \<Rightarrow> counter_op \<Rightarrow> 32 word \<Rightarrow> 32 word \<Rightarrow> counter_run \<Rightarrow> counter_run" where
  "finish t q r n s = s\<lparr>references := n, todo := (todo s)(t := tl (todo s t)), oldVal := (oldVal s)(t := None), history := history s @ [(t, q, r)]\<rparr>"

text \<open>A step of thread \<open>t\<close>; \<open>spurious\<close> lets an attempt fail.\<close>

definition counter_step :: "nat \<Rightarrow> bool \<Rightarrow> counter_run \<Rightarrow> counter_run" where
  "counter_step t spurious s = (case todo s t of [] \<Rightarrow> s
     | q # qs \<Rightarrow> (case oldVal s t of
         None \<Rightarrow>
           if q = Increase then finish t q (return_value q (references s)) (new_value q (references s)) s
           else if q = TryFinal \<and> references s \<noteq> 2 then finish t q 0 (references s) s
           else s\<lparr>oldVal := (oldVal s)(t := Some (references s))\<rparr>
       | Some n \<Rightarrow>
           if references s = n \<and> \<not> spurious then finish t q (return_value q n) (new_value q n) s
           else if q = TryFinal then finish t q 0 (references s) s
           else s\<lparr>oldVal := (oldVal s)(t := None)\<rparr>)\<lparr>steps := steps s + 1\<rparr>)"

definition run_counter :: "(nat \<times> bool) list \<Rightarrow> counter_run \<Rightarrow> counter_run" where
  "run_counter sched s = fold (\<lambda>(t, b). counter_step t b) sched s"

subsection \<open>Specification\<close>

text \<open>The operations as atomic changes of a number. \<open>tryFinalDecrement\<close> may always give up.\<close>

fun atomic_op :: "counter_op \<Rightarrow> 32 word \<Rightarrow> 32 word \<Rightarrow> 32 word \<Rightarrow> bool" where
  "atomic_op Increase n r n' \<longleftrightarrow> n' = increaseCount n \<and> r = n'"
| "atomic_op SetLowest n r n' \<longleftrightarrow> n' = n OR 1 \<and> r = 0"
| "atomic_op ClearLowest n r n' \<longleftrightarrow> n' = n AND NOT 1 \<and> r = 0"
| "atomic_op Decrement n r n' \<longleftrightarrow> (r, n') = decrementAndTestAndSet n"
| "atomic_op TryFinal n r n' \<longleftrightarrow> tryFinalDecrement n = (True, n') \<and> r = 1 \<or> n' = n \<and> r = 0"

fun atomic_run :: "(nat \<times> counter_op \<times> 32 word) list \<Rightarrow> 32 word \<Rightarrow> 32 word \<Rightarrow> bool" where
  "atomic_run [] n n' \<longleftrightarrow> n' = n"
| "atomic_run ((t, q, r) # hs) n n' \<longleftrightarrow> (\<exists>m. atomic_op q n r m \<and> atomic_run hs m n')"

lemma atomic_run_snoc: "atomic_run (hs @ [(t, q, r)]) n n' \<longleftrightarrow> (\<exists>m. atomic_run hs n m \<and> atomic_op q m r n')"
proof (induction hs arbitrary: n)
  case (Cons h hs)
  then show ?case by (cases h) (auto; blast)
qed simp

lemma low_mask: "(0xFFFFFFFFFFFFFFFE :: 32 word) = - 2"
  by (simp add: word_uint_eq_iff)

lemma values_atomic: "q \<noteq> TryFinal \<Longrightarrow> atomic_op q n (return_value q n) (new_value q n)"
  by (cases q) (auto simp: increaseCount_def decrementAndTestAndSet_def Let_def low_mask)

definition ops_of :: "nat \<Rightarrow> (nat \<times> counter_op \<times> 32 word) list \<Rightarrow> counter_op list" where
  "ops_of t hs = map (\<lambda>(_, q, _). q) (filter (\<lambda>h. fst h = t) hs)"

text \<open>An attempt of \<open>tryFinalDecrement\<close> is made for the value 2 only.\<close>

definition counter_inv :: "32 word \<Rightarrow> (nat \<Rightarrow> counter_op list) \<Rightarrow> counter_run \<Rightarrow> bool" where
  "counter_inv n ps s \<longleftrightarrow> atomic_run (history s) n (references s) \<and> (\<forall>t. ops_of t (history s) @ todo s t = ps t)
     \<and> (\<forall>t m. oldVal s t = Some m \<longrightarrow> todo s t \<noteq> [] \<and> (hd (todo s t) = TryFinal \<longrightarrow> m = 2) \<and> hd (todo s t) \<noteq> Increase)"

lemma finish_inv:
  assumes "counter_inv n ps s" "todo s t = q # qs" "atomic_op q (references s) r m"
  shows "counter_inv n ps (finish t q r m s)"
proof -
  have "ops_of u (history s @ [(t, q, r)]) @ (if u = t then qs else todo s u) = ps u" for u
  proof (cases "u = t")
    case True
    have "ops_of t (history s) @ q # qs = ps t" using assms(1,2) unfolding counter_inv_def by metis
    then show ?thesis using True by (simp add: ops_of_def)
  next
    case False
    then show ?thesis using assms(1) by (simp add: counter_inv_def ops_of_def)
  qed
  then show ?thesis using assms by (auto simp: counter_inv_def finish_def atomic_run_snoc)
qed

lemma counter_inv_steps [simp]: "counter_inv n ps (s\<lparr>steps := k\<rparr>) = counter_inv n ps s"
  by (simp add: counter_inv_def)

lemma counter_step_inv:
  assumes "counter_inv n ps s"
  shows "counter_inv n ps (counter_step t b s)"
proof (cases "todo s t")
  case Nil
  then show ?thesis using assms by (simp add: counter_step_def)
next
  case (Cons q qs)
  note f = finish_inv [OF assms Cons]
  show ?thesis
  proof (cases "oldVal s t")
    case None
    have "atomic_op TryFinal m 0 m" for m by simp
    then show ?thesis using None Cons assms f values_atomic [of q "references s"]
      by (auto simp: counter_step_def counter_inv_def [of n ps "s\<lparr>oldVal := _\<rparr>"]) (auto simp: counter_inv_def)
  next
    case (Some m)
    have m: "q = TryFinal \<longrightarrow> m = 2" using assms Some Cons by (auto simp: counter_inv_def)
    have a: "atomic_op q m (return_value q m) (new_value q m)"
      using values_atomic [of q m] m by (cases "q = TryFinal") (auto simp: tryFinalDecrement_def)
    have "counter_inv n ps (s\<lparr>oldVal := (oldVal s)(t := None)\<rparr>)" using assms by (auto simp: counter_inv_def)
    then show ?thesis using Some Cons a f by (auto simp: counter_step_def)
  qed
qed

lemma run_counter_inv: "counter_inv n ps s \<Longrightarrow> counter_inv n ps (run_counter sched s)"
  unfolding run_counter_def by (induction sched arbitrary: s) (auto simp: counter_step_inv)

subsection \<open>What the loops cost\<close>

text \<open>
  The steps a thread needs for its current operation if nothing interferes, and a bound for all of them: an operation that finishes can make the values
  loaded by all other threads stale.
\<close>

definition steps_due :: "counter_run \<Rightarrow> nat \<Rightarrow> nat" where
  "steps_due s t = (if todo s t = [] then 0 else case oldVal s t of None \<Rightarrow> 2 | Some m \<Rightarrow> if m = references s then 1 else 3)"

definition total_due :: "nat \<Rightarrow> counter_run \<Rightarrow> nat" where
  "total_due N s = (\<Sum>t<N. steps_due s t) + 2 * N * (\<Sum>t<N. length (todo s t))"

lemma steps_due_bound: "steps_due s t \<le> 3" "todo s t \<noteq> [] \<Longrightarrow> 1 \<le> steps_due s t"
  by (auto simp: steps_due_def split: option.split)

lemma total_due_finish:
  assumes "t < N" "todo s t = q # qs"
  shows "total_due N (finish t q r n s) + 1 \<le> total_due N s"
proof -
  let ?s = "finish t q r n s"
  have todo: "todo ?s u = (if u = t then qs else todo s u)" for u using assms(2) by (simp add: finish_def)
  have "steps_due ?s u \<le> steps_due s u + (if u = t then 1 else 2)" for u
  proof (cases "u = t")
    case True
    have "steps_due ?s t \<le> 2" by (simp add: steps_due_def finish_def)
    then show ?thesis using True steps_due_bound(2) [of s t] assms(2) by simp
  next
    case False
    then show ?thesis using steps_due_bound [of ?s u] steps_due_bound(2) [of s u] todo [of u] by (cases "todo s u = []") (auto simp: steps_due_def)
  qed
  then have "(\<Sum>u<N. steps_due ?s u) \<le> (\<Sum>u<N. steps_due s u + (if u = t then 1 else 2))" by (intro sum_mono)
  also have "\<dots> = (\<Sum>u<N. steps_due s u) + (\<Sum>u<N. if u = t then 1 else 2)" by (rule sum.distrib)
  also have "(\<Sum>u<N. if u = t then 1 else 2) = 2 * N - (1 :: nat)"
    using assms(1) by (subst sum.remove [of _ t]) (auto simp: card_Diff_subset)
  finally have r: "(\<Sum>u<N. steps_due ?s u) \<le> (\<Sum>u<N. steps_due s u) + (2 * N - 1)" .
  have "(\<Sum>u<N. length (todo s u)) = length (todo s t) + (\<Sum>u \<in> {..<N} - {t}. length (todo s u))" using assms(1) by (intro sum.remove) auto
  moreover have "(\<Sum>u<N. length (todo ?s u)) = length (todo ?s t) + (\<Sum>u \<in> {..<N} - {t}. length (todo ?s u))" using assms(1) by (intro sum.remove) auto
  moreover have "(\<Sum>u \<in> {..<N} - {t}. length (todo ?s u)) = (\<Sum>u \<in> {..<N} - {t}. length (todo s u))" by (intro sum.cong) (auto simp: todo)
  ultimately have l: "(\<Sum>u<N. length (todo s u)) = (\<Sum>u<N. length (todo ?s u)) + 1" using assms(2) todo [of t] by simp
  show ?thesis using r assms(1) unfolding total_due_def l by (simp add: algebra_simps)
qed

lemma total_due_load:
  assumes "t < N" "steps_due (s\<lparr>oldVal := f\<rparr>) t < steps_due s t" "\<forall>u. u \<noteq> t \<longrightarrow> f u = oldVal s u"
  shows "total_due N (s\<lparr>oldVal := f\<rparr>) + 1 \<le> total_due N s"
proof -
  have "steps_due (s\<lparr>oldVal := f\<rparr>) u = steps_due s u" if "u \<noteq> t" for u using that assms(3) by (simp add: steps_due_def split: option.split)
  then have "steps_due (s\<lparr>oldVal := f\<rparr>) u \<le> steps_due s u" for u using assms(2) by (cases "u = t") simp_all
  then have "(\<Sum>u<N. steps_due (s\<lparr>oldVal := f\<rparr>) u) < (\<Sum>u<N. steps_due s u)" using assms(1,2) by (intro sum_strict_mono_ex1) auto
  then show ?thesis by (simp add: total_due_def)
qed

lemma total_due_steps [simp]: "total_due N (s\<lparr>steps := k\<rparr>) = total_due N s"
proof -
  have "steps_due (s\<lparr>steps := k\<rparr>) t = steps_due s t" for t by (simp add: steps_due_def split: option.split)
  then show ?thesis by (simp add: total_due_def)
qed

lemma total_due_step:
  assumes "\<forall>t \<ge> N. todo s t = []" "counter_inv n ps s"
  shows "total_due N (counter_step t False s) + steps (counter_step t False s) \<le> total_due N s + steps s"
proof (cases "todo s t")
  case Nil
  then show ?thesis by (simp add: counter_step_def)
next
  case (Cons q qs)
  then have t: "t < N" using assms(1) by (metis list.distinct(1) not_less)
  have f: "steps (finish t q r m s) = steps s" for r m by (simp add: finish_def)
  show ?thesis
  proof (cases "oldVal s t")
    case None
    have "total_due N (s\<lparr>oldVal := (oldVal s)(t \<mapsto> references s)\<rparr>) + 1 \<le> total_due N s" using Cons None by (intro total_due_load [OF t]) (auto simp: steps_due_def)
    then show ?thesis using Cons None total_due_finish [OF t Cons] by (auto simp: counter_step_def)
  next
    case (Some m)
    have "m \<noteq> references s \<Longrightarrow> total_due N (s\<lparr>oldVal := (oldVal s)(t := None)\<rparr>) + 1 \<le> total_due N s" using Cons Some by (intro total_due_load [OF t]) (auto simp: steps_due_def)
    then show ?thesis using Cons Some total_due_finish [OF t Cons] by (auto simp: counter_step_def)
  qed
qed

lemma todo_empty: "todo s u = [] \<Longrightarrow> todo (counter_step t b s) u = []"
  by (auto simp: counter_step_def finish_def split: list.split option.split)

lemma run_total_due:
  assumes "\<forall>t \<ge> N. todo s t = []" "counter_inv n ps s" "\<forall>(t, b) \<in> set sched. \<not> b"
  shows "total_due N (run_counter sched s) + steps (run_counter sched s) \<le> total_due N s + steps s"
  using assms
proof (induction sched arbitrary: s)
  case (Cons x sched)
  obtain t where x: "x = (t, False)" using Cons.prems(3) by (cases x) auto
  have "\<forall>u \<ge> N. todo (counter_step t False s) u = []" using Cons.prems(1) todo_empty by blast
  then have "total_due N (run_counter sched (counter_step t False s)) + steps (run_counter sched (counter_step t False s)) \<le>
      total_due N (counter_step t False s) + steps (counter_step t False s)"
    using Cons.IH counter_step_inv [OF Cons.prems(2)] Cons.prems(3) by simp
  moreover have "run_counter (x # sched) s = run_counter sched (counter_step t False s)" by (simp add: run_counter_def x)
  ultimately show ?case using total_due_step [OF Cons.prems(1,2), of t] by simp
qed (simp add: run_counter_def)

subsection \<open>Properties\<close>

text \<open>
  C34. The counter operations are atomic and lock free: under every interleaving of any threads, with attempts that fail for a changed counter or for no
  reason, the counter and all results are those of the operations done one after the other, each at once, in the order in which they finish, and the
  operations of a thread finish in its order. When attempts fail only because the counter has changed, \<open>N\<close> threads make
  at most \<open>2 * N\<close> steps for each operation of their programs and \<open>2 * N\<close> more, all together and however they are scheduled; one operation may
  have to try again as often as others finish.
\<close>

theorem counter_atomic_lock_free:
  assumes "s = run_counter sched (counter_start n ps)"
  shows "atomic_run (history s) n (references s) \<and> (\<forall>t. ops_of t (history s) @ todo s t = ps t)
    \<and> ((\<forall>t \<ge> N. ps t = []) \<and> (\<forall>(t, b) \<in> set sched. \<not> b) \<longrightarrow> steps s \<le> 2 * N * ((\<Sum>t<N. length (ps t)) + 1))"
proof -
  let ?s0 = "counter_start n ps"
  have i: "counter_inv n ps ?s0" by (simp add: counter_inv_def counter_start_def ops_of_def)
  have "steps s \<le> 2 * N * ((\<Sum>t<N. length (ps t)) + 1)" if "\<forall>t \<ge> N. ps t = []" "\<forall>(t, b) \<in> set sched. \<not> b"
  proof -
    have "total_due N s + steps s \<le> total_due N ?s0 + steps ?s0" unfolding assms
      using that by (intro run_total_due [OF _ i]) (simp_all add: counter_start_def)
    moreover have "(\<Sum>t<N. steps_due ?s0 t) \<le> (\<Sum>t<N. 2)" by (intro sum_mono) (simp add: steps_due_def counter_start_def)
    ultimately show ?thesis by (simp add: total_due_def counter_start_def algebra_simps)
  qed
  then show ?thesis using run_counter_inv [OF i, of sched] unfolding assms counter_inv_def by blast
qed

text \<open>No bound holds for one operation: here thread 0 finishes nothing while thread 1 finishes twice.\<close>

lemma counter_not_wait_free:
  "history (run_counter [(0, False), (1, False), (0, False), (0, False), (1, False), (0, False)] (counter_start 4 (\<lambda>t. if t = 0 then [Decrement] else [Increase, Increase])))
     = [(1, Increase, 6), (1, Increase, 8)]"
  by (simp add: run_counter_def counter_start_def counter_step_def finish_def)

theorem counter_atomic_lock_free_witness:
  "steps (run_counter [(0, False), (1, False), (0, False), (0, False), (0, False), (1, False)] (counter_start 2 (\<lambda>t. if t = 0 then [Decrement] else if t = 1 then [Increase, Decrement] else []))) \<le> 16"
  using counter_atomic_lock_free [OF refl, where N = 2 and n = 2 and ps = "\<lambda>t. if t = 0 then [Decrement] else if t = 1 then [Increase, Decrement] else []"
      and sched = "[(0, False), (1, False), (0, False), (0, False), (0, False), (1, False)]"]
  by (simp add: numeral_2_eq_2)

end
